(* ===== verification/KPrelude.thy ===== *)
theory KPrelude
  imports Main "HOL-Library.Word"
begin

text \<open>
  Shared vocabulary of the development: machine integers of the i386 target, the flat byte
  memory the C code reads and writes, little-endian 32-bit access, C strings, and the generic
  lemmas on words, lists and pointer chains that the component theories use.

  \<^item> \<open>mem\<close> is the flat 32-bit address space of the kernel: a C pointer is an \<open>addr\<close>, NULL is
    \<open>0\<close>, pointer arithmetic wraps at \<open>2 ^ 32\<close> as on the machine.
  \<^item> \<open>ld32\<close> and \<open>st32\<close> are the accesses to a \<open>size_t\<close> or pointer field of a struct.
  \<^item> \<open>cstr m a xs\<close> says that \<open>a\<close> points to the C string \<open>xs\<close> (its bytes before the NUL).
  \<^item> \<open>chain nx p xs\<close> says that following the link field \<open>nx\<close> from \<open>p\<close> visits \<open>xs\<close> and ends
    in NULL: the abstraction of every singly linked list of the kernel.
\<close>

unbundle bit_operations_syntax

type_synonym u8 = "8 word"
type_synonym u16 = "16 word"
type_synonym u32 = "32 word"
type_synonym u64 = "64 word"
type_synonym addr = "32 word"
type_synonym mem = "addr \<Rightarrow> u8"

named_theorems mem_simps \<open>reads after writes on the byte memory\<close>

abbreviation NULL :: addr where "NULL \<equiv> 0"

section \<open>Bytes in memory\<close>

primrec read_bytes :: "mem \<Rightarrow> addr \<Rightarrow> nat \<Rightarrow> u8 list" where
  "read_bytes m a 0 = []"
| "read_bytes m a (Suc n) = m a # read_bytes m (a + 1) n"

primrec write_bytes :: "mem \<Rightarrow> addr \<Rightarrow> u8 list \<Rightarrow> mem" where
  "write_bytes m a [] = m"
| "write_bytes m a (x # xs) = write_bytes (m(a := x)) (a + 1) xs"

lemma bytes_numeral [simp]:
  "read_bytes m a (numeral k) = m a # read_bytes m (a + 1) (pred_numeral k)"
  by (simp add: numeral_eq_Suc)

lemma replicate_numeral_Cons [simp]: "replicate (numeral k) x = x # replicate (pred_numeral k) x"
  by (simp add: numeral_eq_Suc)

lemma takeWhile_shorter: "takeWhile P xs \<noteq> xs \<Longrightarrow> length (takeWhile P xs) < length xs"
  by (metis length_takeWhile_le nat_less_le takeWhile_eq_take take_all_iff less_irrefl)

definition in_range :: "addr \<Rightarrow> nat \<Rightarrow> addr \<Rightarrow> bool" where
  "in_range a n x \<longleftrightarrow> unat (x - a) < n"

definition disjoint_ranges :: "addr \<Rightarrow> nat \<Rightarrow> addr \<Rightarrow> nat \<Rightarrow> bool" where
  "disjoint_ranges a n b k \<longleftrightarrow> (\<forall>x. \<not> (in_range a n x \<and> in_range b k x))"

fun cstr :: "mem \<Rightarrow> addr \<Rightarrow> u8 list \<Rightarrow> bool" where
  "cstr m a [] \<longleftrightarrow> m a = 0"
| "cstr m a (x # xs) \<longleftrightarrow> m a = x \<and> x \<noteq> 0 \<and> cstr m (a + 1) xs"

lemma length_read_bytes [simp]: "length (read_bytes m a n) = n"
  by (induction n arbitrary: a) auto

lemma nth_read_bytes: "i < n \<Longrightarrow> read_bytes m a n ! i = m (a + of_nat i)"
proof (induction n arbitrary: a i)
  case (Suc n)
  then show ?case by (cases i) (auto simp: algebra_simps)
qed simp

lemma read_bytes_cong:
  "(\<And>i. i < n \<Longrightarrow> m (a + of_nat i) = m' (b + of_nat i)) \<Longrightarrow> read_bytes m a n = read_bytes m' b n"
  by (rule nth_equalityI) (auto simp: nth_read_bytes)

lemma unat_plus_of_nat:
  fixes a :: "'a::len word"
  assumes "unat a + i < 2 ^ LENGTH('a)"
  shows "unat (a + of_nat i) = unat a + i"
  using assms by (simp add: unat_word_ariths unat_of_nat)

lemma unat_lt_2p32: "unat (w :: addr) < 2 ^ 32"
proof -
  have "(unsigned w :: nat) < 2 ^ LENGTH(32)" by (rule unsigned_less)
  then show ?thesis by simp
qed

lemma addr_offset_inj:
  fixes a :: addr
  assumes "i < 2 ^ 32" "j < 2 ^ 32"
  shows "a + of_nat i = a + of_nat j \<longleftrightarrow> i = j"
proof -
  have "unat (of_nat i :: addr) = i" "unat (of_nat j :: addr) = j"
    using assms by (simp_all add: unat_of_nat)
  then show ?thesis by (metis add_left_cancel)
qed

lemma in_range_offset: "i < n \<Longrightarrow> n \<le> 2 ^ 32 \<Longrightarrow> in_range a n (a + of_nat i)"
  by (simp add: in_range_def unat_of_nat)

lemma in_range_iff: "n \<le> 2 ^ 32 \<Longrightarrow> in_range a n x \<longleftrightarrow> (\<exists>i<n. x = a + of_nat i)"
  by (auto simp: in_range_def unat_of_nat intro!: exI [of _ "unat (x - a)"])

lemma in_range_0 [simp]: "\<not> in_range a 0 x"
  by (simp add: in_range_def)

lemma in_range_Suc_iff:
  "Suc n \<le> 2 ^ 32 \<Longrightarrow> in_range a (Suc n) x \<longleftrightarrow> x = a \<or> in_range (a + 1) n x"
proof -
  assume n: "Suc n \<le> 2 ^ 32"
  have "(\<exists>i<Suc n. x = a + of_nat i) \<longleftrightarrow> x = a \<or> (\<exists>i<n. x = a + 1 + of_nat i)"
    by (auto simp: less_Suc_eq_0_disj algebra_simps)
  with n show ?thesis by (simp add: in_range_iff)
qed

lemma write_bytes_outside:
  "\<lbrakk>length xs \<le> 2 ^ 32; \<not> in_range a (length xs) x\<rbrakk> \<Longrightarrow> write_bytes m a xs x = m x"
proof (induction xs arbitrary: m a)
  case (Cons y xs)
  then have "x \<noteq> a" "\<not> in_range (a + 1) (length xs) x"
    by (auto simp: in_range_Suc_iff)
  with Cons show ?case by simp
qed simp

lemma unat_minus_one_32: "unat (- 1 :: addr) = 2 ^ 32 - 1"
  by (simp add: unsigned_minus_1_eq_mask mask_eq_exp_minus_1)

lemma not_in_range_before: "n < 2 ^ 32 \<Longrightarrow> \<not> in_range (a + 1) n a"
  by (simp add: in_range_def unat_minus_one_32)

lemma read_write_bytes:
  "length xs \<le> 2 ^ 32 \<Longrightarrow> read_bytes (write_bytes m a xs) a (length xs) = xs"
proof (induction xs arbitrary: m a)
  case (Cons y xs)
  then show ?case by (simp add: write_bytes_outside not_in_range_before)
qed simp

lemma nth_write_bytes:
  "\<lbrakk>length xs \<le> 2 ^ 32; i < length xs\<rbrakk> \<Longrightarrow> write_bytes m a xs (a + of_nat i) = xs ! i"
  by (metis nth_read_bytes read_write_bytes)

lemma write_bytes_append:
  "write_bytes m a (xs @ ys) = write_bytes (write_bytes m a xs) (a + of_nat (length xs)) ys"
  by (induction xs arbitrary: m a) (auto simp: algebra_simps)

lemma read_bytes_append:
  "read_bytes m a (n + k) = read_bytes m a n @ read_bytes m (a + of_nat n) k"
  by (induction n arbitrary: a) (auto simp: algebra_simps)

lemma take_read_bytes: "j \<le> n \<Longrightarrow> take j (read_bytes m a n) = read_bytes m a j"
  by (rule nth_equalityI) (auto simp: nth_read_bytes)

lemma read_bytes_outside:
  assumes "length xs \<le> 2 ^ 32" "n \<le> 2 ^ 32" "disjoint_ranges a (length xs) b n"
  shows "read_bytes (write_bytes m a xs) b n = read_bytes m b n"
proof (rule read_bytes_cong)
  fix i assume "i < n"
  with assms show "write_bytes m a xs (b + of_nat i) = m (b + of_nat i)"
    by (meson disjoint_ranges_def in_range_offset write_bytes_outside)
qed

lemma disjoint_ranges_below:
  assumes "unat a + n \<le> unat b" "unat b + k \<le> 2 ^ 32"
  shows "disjoint_ranges a n b k"
  unfolding disjoint_ranges_def
proof (intro allI notI, elim conjE)
  fix x assume "in_range a n x" "in_range b k x"
  then obtain i j where "i < n" "x = a + of_nat i" "j < k" "x = b + of_nat j"
    using assms by (auto simp: in_range_iff)
  then have "unat a + i = unat b + j"
    using assms unat_plus_of_nat [of a i] unat_plus_of_nat [of b j] by auto
  with \<open>i < n\<close> assms show False by simp
qed

lemma disjoint_ranges_sym: "disjoint_ranges a n b k = disjoint_ranges b k a n"
  by (auto simp: disjoint_ranges_def)

section \<open>Signed 32-bit integers\<close>

lemma sint_shift: "sint (d :: u32) = (int (unat d) + 2147483648) mod 4294967296 - 2147483648"
  by (simp add: sint_uint signed_take_bit_eq_take_bit_shift take_bit_eq_mod)

lemma sint_u32: "sint (d :: u32) = (if unat d < 2147483648 then int (unat d) else int (unat d) - 4294967296)"
proof -
  define x where "x = unat d"
  have "x < 4294967296" using unat_lt_2p32 [of d] by (simp add: x_def)
  then have "(int x + 2147483648) mod 4294967296 =
      (if x < 2147483648 then int x + 2147483648 else int x - 2147483648)"
    using mod_pos_pos_trivial [of "int x + 2147483648" 4294967296] minus_mod_self2 [of "int x + 2147483648" 4294967296]
    by (auto simp: mod_pos_pos_trivial)
  then show ?thesis unfolding sint_shift x_def by simp
qed

lemma sint_less_0: "sint (d :: u32) < 0 \<longleftrightarrow> 2147483648 \<le> unat d"
proof -
  define x where "x = unat d"
  have "x < 4294967296" using unat_lt_2p32 [of d] by (simp add: x_def)
  then show ?thesis unfolding sint_u32 x_def [symmetric] by simp
qed

lemma sint_pos:
  assumes "0 < sint (d :: u32)"
  shows "\<not> sint d < 0" "d \<noteq> 0" "unat d < 2147483648"
proof -
  show n: "\<not> sint d < 0" using assms by simp
  show "d \<noteq> 0" using assms by auto
  show "unat d < 2147483648" using n unfolding sint_less_0 by simp
qed

lemma unat_uminus: "d \<noteq> 0 \<Longrightarrow> unat (- d :: u32) = 4294967296 - unat d"
  using unat_sub_if_size [of 0 d] by (simp add: unat_gt_0 word_size)

lemma sint_neg:
  assumes "sint (d :: u32) < 0"
  shows "d \<noteq> 0" "0 < unat (- d)" "unat (- d) \<le> 2147483648"
proof -
  show d: "d \<noteq> 0" using assms by auto
  then show "0 < unat (- d)" by (simp add: unat_gt_0)
  show "unat (- d) \<le> 2147483648" using assms d by (simp add: sint_less_0 unat_uminus)
qed

section \<open>C strings\<close>

lemma cstr_nonzero: "cstr m a xs \<Longrightarrow> i < length xs \<Longrightarrow> m (a + of_nat i) \<noteq> 0"
proof (induction xs arbitrary: a i)
  case (Cons x xs)
  then show ?case by (cases i) (auto simp flip: add.assoc)
qed simp

lemma cstr_terminated: "cstr m a xs \<Longrightarrow> m (a + of_nat (length xs)) = 0"
  by (induction xs arbitrary: a) (auto simp flip: add.assoc)

lemma cstr_read: "cstr m a xs \<Longrightarrow> read_bytes m a (length xs) = xs"
  by (induction xs arbitrary: a) auto

lemma cstr_iff:
  "cstr m a xs \<longleftrightarrow> read_bytes m a (length xs) = xs \<and> 0 \<notin> set xs \<and> m (a + of_nat (length xs)) = 0"
  by (induction xs arbitrary: a) (auto simp: algebra_simps)

lemma cstr_bounded: "cstr m a xs \<Longrightarrow> length xs < 2 ^ 32"
proof (rule ccontr)
  assume c: "cstr m a xs" and "\<not> length xs < 2 ^ 32"
  define z where "z = unat (of_nat (length xs) :: addr)"
  have "z < 2 ^ 32" unfolding z_def using unat_lt_2p32 by blast
  with \<open>\<not> length xs < 2 ^ 32\<close> have "z < length xs" by simp
  moreover have "a + of_nat z = a + of_nat (length xs)" by (simp add: z_def)
  ultimately show False using cstr_nonzero [OF c] cstr_terminated [OF c] by metis
qed

lemma cstr_unique: "cstr m a xs \<Longrightarrow> cstr m a ys \<Longrightarrow> xs = ys"
proof (induction xs arbitrary: a ys)
  case Nil
  then show ?case by (cases ys) auto
next
  case (Cons x xs)
  then show ?case by (cases ys) auto
qed

lemma cstr_cong:
  "(\<And>i. i \<le> length xs \<Longrightarrow> m (a + of_nat i) = m' (a + of_nat i)) \<Longrightarrow> cstr m a xs = cstr m' a xs"
proof (induction xs arbitrary: a)
  case Nil
  from Nil [of 0] show ?case by simp
next
  case (Cons x xs)
  have "m (a + 1 + of_nat i) = m' (a + 1 + of_nat i)" if "i \<le> length xs" for i
    using Cons.prems [of "Suc i"] that by (simp add: algebra_simps)
  then have "cstr m (a + 1) xs = cstr m' (a + 1) xs" by (rule Cons.IH)
  with Cons.prems [of 0] show ?case by simp
qed

lemma cstr_write:
  "\<lbrakk>0 \<notin> set xs; length xs < 2 ^ 32\<rbrakk> \<Longrightarrow> cstr (write_bytes m a (xs @ [0])) a xs"
proof (induction xs arbitrary: m a)
  case (Cons x xs)
  then show ?case
    by (simp add: write_bytes_outside not_in_range_before)
qed simp

section \<open>32-bit little-endian access\<close>

definition ld32 :: "mem \<Rightarrow> addr \<Rightarrow> u32" where
  "ld32 m a = ucast (m a) OR push_bit 8 (ucast (m (a + 1)))
     OR push_bit 16 (ucast (m (a + 2))) OR push_bit 24 (ucast (m (a + 3)))"

definition st32 :: "mem \<Rightarrow> addr \<Rightarrow> u32 \<Rightarrow> mem" where
  "st32 m a v = m(a := ucast v, a + 1 := ucast (drop_bit 8 v),
     a + 2 := ucast (drop_bit 16 v), a + 3 := ucast (drop_bit 24 v))"

lemma ld32_st32_same [simp]: "ld32 (st32 m a v) a = v"
proof (rule bit_word_eqI)
  fix n assume "n < LENGTH(32)"
  then consider "n < 8" | "8 \<le> n" "n < 16" | "16 \<le> n" "n < 24" | "24 \<le> n" "n < 32" by fastforce
  then show "bit (ld32 (st32 m a v) a) n = bit v n"
    by cases (auto simp: ld32_def st32_def bit_simps)
qed

lemma ld32_cong:
  "\<lbrakk>m a = m' a; m (a + 1) = m' (a + 1); m (a + 2) = m' (a + 2); m (a + 3) = m' (a + 3)\<rbrakk>
   \<Longrightarrow> ld32 m a = ld32 m' a"
  by (simp add: ld32_def)

lemma st32_outside: "\<not> in_range a 4 x \<Longrightarrow> st32 m a v x = m x"
  by (auto simp: st32_def in_range_def)

lemma ld32_st32_apart: "\<lbrakk>4 \<le> b - a; 4 \<le> a - b\<rbrakk> \<Longrightarrow> ld32 (st32 m a v) b = ld32 m b"
proof -
  assume *: "4 \<le> b - a" "4 \<le> a - b"
  have n: "\<not> in_range a 4 (b + of_nat j)" if "j < 4" for j
  proof
    assume "in_range a 4 (b + of_nat j)"
    then obtain i where "i < 4" "b + of_nat j = a + of_nat i" by (auto simp: in_range_iff)
    then have "b = a + (of_nat i - of_nat j)" by (metis add_diff_cancel_right' add_diff_eq)
    then have "b - a = of_nat i - of_nat j" "a - b = of_nat j - of_nat i" by simp_all
    with * have "4 \<le> (of_nat i - of_nat j :: addr)" "4 \<le> (of_nat j - of_nat i :: addr)" by simp_all
    moreover have "i \<in> {0,1,2,3}" "j \<in> {0,1,2,3}" using \<open>i < 4\<close> that by auto
    ultimately show False by (auto simp: word_le_nat_alt)
  qed
  from n [of 0] n [of 1] n [of 2] n [of 3] show ?thesis
    by (intro ld32_cong) (simp_all add: st32_outside)
qed

text \<open>Aligned words either coincide or are apart: the rule that carries the proofs on heap chunks.\<close>

definition aligned4 :: "addr \<Rightarrow> bool" where
  "aligned4 a \<longleftrightarrow> a AND 3 = 0"

definition aligned8 :: "addr \<Rightarrow> bool" where
  "aligned8 a \<longleftrightarrow> a AND 7 = 0"

section \<open>Singly linked lists\<close>

text \<open>
  \<open>path nx p xs q\<close>: following \<open>nx\<close> from \<open>p\<close> one visits exactly the cells \<open>xs\<close> and arrives at
  \<open>q\<close>. A pointer is \<open>None\<close> (NULL) or \<open>Some\<close> cell; \<open>nx\<close> is the link field of every cell.
\<close>

fun path :: "('a \<Rightarrow> 'a option) \<Rightarrow> 'a option \<Rightarrow> 'a list \<Rightarrow> 'a option \<Rightarrow> bool" where
  "path nx p [] q \<longleftrightarrow> p = q"
| "path nx p (x # xs) q \<longleftrightarrow> p = Some x \<and> path nx (nx x) xs q"

abbreviation chain :: "('a \<Rightarrow> 'a option) \<Rightarrow> 'a option \<Rightarrow> 'a list \<Rightarrow> bool" where
  "chain nx p xs \<equiv> path nx p xs None"

lemma path_None [simp]: "path nx None xs q \<longleftrightarrow> xs = [] \<and> q = None"
  by (cases xs) auto

lemma path_append [simp]: "path nx p (xs @ ys) q \<longleftrightarrow> (\<exists>r. path nx p xs r \<and> path nx r ys q)"
  by (induction xs arbitrary: p) auto

lemma path_upd [simp]: "u \<notin> set xs \<Longrightarrow> path (nx(u := v)) p xs q = path nx p xs q"
  by (induction xs arbitrary: p) auto

lemma path_cong:
  "(\<And>x. x \<in> set xs \<Longrightarrow> nx x = nx' x) \<Longrightarrow> path nx p xs q = path nx' p xs q"
  by (induction xs arbitrary: p) auto

lemma chain_unique: "chain nx p xs \<Longrightarrow> chain nx p ys \<Longrightarrow> xs = ys"
proof (induction xs arbitrary: p ys)
  case Nil
  then show ?case by simp
next
  case (Cons x xs)
  then show ?case by (cases ys) auto
qed

lemma chain_distinct: "chain nx p xs \<Longrightarrow> distinct xs"
proof (induction xs arbitrary: p)
  case (Cons x xs)
  have "x \<notin> set xs"
  proof
    assume "x \<in> set xs"
    then obtain us vs where "xs = us @ x # vs" by (meson split_list)
    with Cons.prems have "chain nx (nx x) (us @ x # vs)" "chain nx (nx x) vs" by auto
    from chain_unique [OF this] show False by (auto dest: arg_cong [of _ _ length])
  qed
  moreover have "distinct xs" using Cons by auto
  ultimately show ?case by simp
qed simp

text \<open>\<open>walk\<close> reads a list off the heap, at most \<open>n\<close> cells: the executable abstraction function.\<close>

primrec walk :: "('a \<Rightarrow> 'a option) \<Rightarrow> 'a option \<Rightarrow> nat \<Rightarrow> 'a list" where
  "walk nx p 0 = []"
| "walk nx p (Suc n) = (case p of None \<Rightarrow> [] | Some x \<Rightarrow> x # walk nx (nx x) n)"

lemma walk_chain: "chain nx p xs \<Longrightarrow> length xs \<le> n \<Longrightarrow> walk nx p n = xs"
proof (induction xs arbitrary: p n)
  case Nil
  then show ?case by (cases n) auto
next
  case (Cons x xs)
  then show ?case by (cases n) auto
qed

lemma chain_SomeD: "chain nx (Some x) xs \<Longrightarrow> \<exists>ys. xs = x # ys \<and> chain nx (nx x) ys"
  by (cases xs) auto

lemma chain_Nil_iff: "chain nx p xs \<Longrightarrow> xs = [] \<longleftrightarrow> p = None"
  by (cases xs) auto

lemma path_snoc_last:
  "path nx p xs q \<Longrightarrow> xs \<noteq> [] \<Longrightarrow> path nx p (butlast xs) (Some (last xs)) \<and> q = nx (last xs)"
  by (induction xs arbitrary: p) auto

lemma chain_append1:
  assumes "chain nx p xs" "xs \<noteq> []" "t \<notin> set xs"
  shows "chain (nx(t := None, last xs := Some t)) p (xs @ [t])"
proof -
  have d: "distinct xs" using assms(1) by (rule chain_distinct)
  then have "last xs \<notin> set (butlast xs)"
    using assms(2) by (metis append_butlast_last_id distinct_append disjoint_insert(1) list.set(2))
  moreover have "t \<notin> set (butlast xs)" "last xs \<noteq> t"
    using assms(2,3) by (auto dest: in_set_butlastD)
  moreover have "path nx p (butlast xs) (Some (last xs))"
    using path_snoc_last [OF assms(1,2)] by blast
  ultimately have "path (nx(t := None, last xs := Some t)) p (butlast xs @ [last xs]) (Some t)" by simp
  then have "path (nx(t := None, last xs := Some t)) p xs (Some t)" using assms(2) by simp
  with \<open>last xs \<noteq> t\<close> show ?thesis by auto
qed

lemma chain_delete_head:
  assumes "chain nx p (t # vs)"
  shows "chain (nx(t := None)) (nx t) vs"
  using assms chain_distinct [OF assms] by auto

lemma chain_delete_inner:
  assumes c: "chain nx p (us @ t # vs)" and "us \<noteq> []"
  shows "chain (nx(last us := nx t, t := None)) p (us @ vs)"
proof -
  from chain_distinct [OF c] have d: "distinct us" "t \<notin> set us" "t \<notin> set vs" "set us \<inter> set vs = {}"
    by auto
  have lu: "last us \<in> set us" using assms(2) by simp
  from c have "path nx p us (Some t)" "chain nx (nx t) vs" by auto
  from path_snoc_last [OF this(1) assms(2)] have pb: "path nx p (butlast us) (Some (last us))" by blast
  have "last us \<notin> set (butlast us)"
    using d(1) assms(2) by (metis append_butlast_last_id distinct_append disjoint_insert(1) list.set(2))
  moreover have "t \<notin> set (butlast us)" using d(2) by (auto dest: in_set_butlastD)
  ultimately have "path (nx(last us := nx t, t := None)) p (butlast us @ [last us]) (nx t)"
    using pb d(2) lu by auto
  then have "path (nx(last us := nx t, t := None)) p us (nx t)" using assms(2) by simp
  moreover have "chain (nx(last us := nx t, t := None)) (nx t) vs"
    using \<open>chain nx (nx t) vs\<close> d lu by (subst path_upd, blast)+ auto
  ultimately show ?thesis by auto
qed

lemma chain_length_bound:
  "\<lbrakk>chain nx p xs; set xs \<subseteq> {..<n :: nat}\<rbrakk> \<Longrightarrow> length xs \<le> n"
  by (metis card_lessThan card_mono chain_distinct distinct_card finite_lessThan)

lemma remove1_split: "t \<notin> set us \<Longrightarrow> remove1 t (us @ t # vs) = us @ vs"
  by (simp add: remove1_append)

end
