(* ===== verification/KString.thy ===== *)
theory KString
  imports KPrelude
begin

text \<open>
  The string library of libk (src/lib/libk/src/kstring). Every function works on the flat byte
  memory: a function that writes returns the new memory, a \<open>while\<close> loop that stops at a NUL is a
  \<open>partial_function (option)\<close> (\<open>None\<close> is a loop that never finds its NUL), a loop that counts a
  \<open>size_t\<close> down is a recursion on the number of iterations left. \<open>int\<close> results are the C values.
  Plain \<open>char\<close> is signed, as on i386: a comparison of a \<open>char\<close> with an \<open>unsigned char\<close> compares
  \<open>sint\<close> of the one with \<open>uint\<close> of the other, after the integer promotions.
\<close>

section \<open>Copying and setting\<close>

primrec copy_up :: "nat \<Rightarrow> addr \<Rightarrow> addr \<Rightarrow> mem \<Rightarrow> mem" where
  "copy_up 0 d s m = m"
| "copy_up (Suc n) d s m = copy_up n (d + 1) (s + 1) (m(d := m s))"

primrec copy_down :: "nat \<Rightarrow> addr \<Rightarrow> addr \<Rightarrow> mem \<Rightarrow> mem" where
  "copy_down 0 d s m = m"
| "copy_down (Suc n) d s m = copy_down n (d - 1) (s - 1) (m(d := m s))"

definition kmemcpy :: "mem \<Rightarrow> addr \<Rightarrow> addr \<Rightarrow> u32 \<Rightarrow> mem \<times> addr" where
  "kmemcpy m s1 s2 n = (copy_up (unat n) s1 s2 m, s1)"

definition kmemmove :: "mem \<Rightarrow> addr \<Rightarrow> addr \<Rightarrow> u32 \<Rightarrow> mem \<times> addr" where
  "kmemmove m s1 s2 n =
     (if s1 < s2 then (copy_up (unat n) s1 s2 m, s1)
      else (copy_down (unat n) (s1 + (n - 1)) (s2 + (n - 1)) m, s1))"

primrec fill :: "nat \<Rightarrow> addr \<Rightarrow> u8 \<Rightarrow> mem \<Rightarrow> mem" where
  "fill 0 p u m = m"
| "fill (Suc n) p u m = fill n (p + 1) u (m(p := u))"

definition kmemset :: "mem \<Rightarrow> addr \<Rightarrow> u32 \<Rightarrow> u32 \<Rightarrow> mem \<times> addr" where
  "kmemset m s c n = (fill (unat n) s (ucast c) m, s)"

partial_function (option) strcpy_loop :: "mem \<Rightarrow> addr \<Rightarrow> addr \<Rightarrow> (mem \<times> addr) option" where
  "strcpy_loop m d s =
     (if m s \<noteq> 0 then strcpy_loop (m(d := m s)) (d + 1) (s + 1) else Some (m, d))"

lemma strcpy_loop_unfold:
  "strcpy_loop m d s =
     (if m s \<noteq> 0 then strcpy_loop (m(d := m s)) (d + 1) (s + 1) else Some (m, d))"
  by (rule strcpy_loop.simps)

definition kstrcpy :: "mem \<Rightarrow> addr \<Rightarrow> addr \<Rightarrow> (mem \<times> addr) option" where
  "kstrcpy m s1 s2 =
     (case strcpy_loop m s1 s2 of None \<Rightarrow> None | Some (m', d) \<Rightarrow> Some (m'(d := 0), s1))"

text \<open>
  \<open>strncpy_copy\<close> is the first loop of \<open>kstrncpy\<close>: it stops when \<open>n\<close> is 0 or when a NUL has been
  copied, in which case \<open>n\<close> is not decremented for that byte; \<open>fill (n - 1)\<close> is the second one
  (\<open>while (n-- > 1)\<close> runs \<open>n - 1\<close> times, and not at all for \<open>n = 0\<close>).
\<close>

fun strncpy_copy :: "nat \<Rightarrow> addr \<Rightarrow> addr \<Rightarrow> mem \<Rightarrow> nat \<times> addr \<times> mem" where
  "strncpy_copy 0 d s m = (0, d, m)"
| "strncpy_copy (Suc n) d s m =
     (let c = m s; m' = m(d := c)
      in if c \<noteq> 0 then strncpy_copy n (d + 1) (s + 1) m' else (Suc n, d + 1, m'))"

definition kstrncpy :: "mem \<Rightarrow> addr \<Rightarrow> addr \<Rightarrow> u32 \<Rightarrow> mem \<times> addr" where
  "kstrncpy m s1 s2 n =
     (case strncpy_copy (unat n) s1 s2 m of (k, d, m') \<Rightarrow> (fill (k - 1) d 0 m', s1))"

section \<open>Length and concatenation\<close>

partial_function (option) str_end :: "mem \<Rightarrow> addr \<Rightarrow> addr option" where
  "str_end m p = (if m p \<noteq> 0 then str_end m (p + 1) else Some p)"

definition kstrlen :: "mem \<Rightarrow> addr \<Rightarrow> u32 option" where
  "kstrlen m s = (case str_end m s of None \<Rightarrow> None | Some p \<Rightarrow> Some (p - s))"

definition kstrcat :: "mem \<Rightarrow> addr \<Rightarrow> addr \<Rightarrow> (mem \<times> addr) option" where
  "kstrcat m s1 s2 =
     (case str_end m s1 of None \<Rightarrow> None
      | Some d \<Rightarrow> (case strcpy_loop m d s2 of None \<Rightarrow> None | Some (m', d') \<Rightarrow> Some (m'(d' := 0), s1)))"

text \<open>
  The copy loop of \<open>kstrncat\<close>, \<open>while (*s != 0 && (n-- > 1))\<close>: the counter is tested only when the
  source byte is not NUL, and a byte is copied only while more than one is left.
\<close>

fun strncat_loop :: "nat \<Rightarrow> addr \<Rightarrow> addr \<Rightarrow> mem \<Rightarrow> mem \<times> addr" where
  "strncat_loop n d s m =
     (if m s \<noteq> 0 \<and> n > 1 then strncat_loop (n - 1) (d + 1) (s + 1) (m(d := m s)) else (m, d))"

declare strncat_loop.simps [simp del]

definition kstrncat :: "mem \<Rightarrow> addr \<Rightarrow> addr \<Rightarrow> u32 \<Rightarrow> (mem \<times> addr) option" where
  "kstrncat m s1 s2 n =
     (case str_end m s1 of None \<Rightarrow> None
      | Some d \<Rightarrow> (case strncat_loop (unat n) d s2 m of (m', d') \<Rightarrow> Some (m'(d' := 0), s1)))"

section \<open>Comparison\<close>

primrec memcmp_loop :: "nat \<Rightarrow> mem \<Rightarrow> addr \<Rightarrow> addr \<Rightarrow> int" where
  "memcmp_loop 0 m a b = 0"
| "memcmp_loop (Suc n) m a b =
     (let r = uint (m a) - uint (m b) in if r \<noteq> 0 then r else memcmp_loop n m (a + 1) (b + 1))"

definition kmemcmp :: "mem \<Rightarrow> addr \<Rightarrow> addr \<Rightarrow> u32 \<Rightarrow> int" where
  "kmemcmp m s1 s2 n = memcmp_loop (unat n) m s1 s2"

partial_function (option) kstrcmp :: "mem \<Rightarrow> addr \<Rightarrow> addr \<Rightarrow> int option" where
  "kstrcmp m a b =
     (if m a \<noteq> 0 \<and> m a = m b then kstrcmp m (a + 1) (b + 1) else Some (uint (m a) - uint (m b)))"

primrec strncmp_loop :: "nat \<Rightarrow> mem \<Rightarrow> addr \<Rightarrow> addr \<Rightarrow> int" where
  "strncmp_loop 0 m a b = 0"
| "strncmp_loop (Suc n) m a b =
     (if m a \<noteq> 0 \<and> m a = m b then strncmp_loop n m (a + 1) (b + 1) else uint (m a) - uint (m b))"

definition kstrncmp :: "mem \<Rightarrow> addr \<Rightarrow> addr \<Rightarrow> u32 \<Rightarrow> int" where
  "kstrncmp m s1 s2 n = strncmp_loop (unat n) m s1 s2"

section \<open>Searching\<close>

primrec memchr_loop :: "nat \<Rightarrow> mem \<Rightarrow> addr \<Rightarrow> u8 \<Rightarrow> addr" where
  "memchr_loop 0 m p f = NULL"
| "memchr_loop (Suc n) m p f = (if m p = f then p else memchr_loop n m (p + 1) f)"

definition kmemchr :: "mem \<Rightarrow> addr \<Rightarrow> u32 \<Rightarrow> u32 \<Rightarrow> addr" where
  "kmemchr m s c n = memchr_loop (unat n) m s (ucast c)"

partial_function (option) strchr_loop :: "mem \<Rightarrow> addr \<Rightarrow> u8 \<Rightarrow> addr option" where
  "strchr_loop m s v =
     (if m s \<noteq> 0 \<and> sint (m s) \<noteq> uint v then strchr_loop m (s + 1) v else Some s)"

definition kstrchr :: "mem \<Rightarrow> addr \<Rightarrow> u32 \<Rightarrow> addr option" where
  "kstrchr m s c =
     (let v = ucast c :: u8
      in case strchr_loop m s v of None \<Rightarrow> None
         | Some s' \<Rightarrow> Some (if m s' \<noteq> 0 \<or> v = 0 then s' else NULL))"

partial_function (option) strrchr_loop :: "mem \<Rightarrow> addr \<Rightarrow> u8 \<Rightarrow> addr \<Rightarrow> (addr \<times> addr) option" where
  "strrchr_loop m s v result =
     (if m s \<noteq> 0 then strrchr_loop m (s + 1) v (if sint (m s) = uint v then s else result)
      else Some (s, result))"

definition kstrrchr :: "mem \<Rightarrow> addr \<Rightarrow> u32 \<Rightarrow> addr option" where
  "kstrrchr m s c =
     (let v = ucast c :: u8
      in case strrchr_loop m s v NULL of None \<Rightarrow> None
         | Some (e, result) \<Rightarrow> Some (if v = 0 then e else result))"

text \<open>
  \<open>set_scan m k c\<close> is the inner loop of \<open>kstrspn\<close>, \<open>kstrcspn\<close> and \<open>kstrpbrk\<close>: the first position
  from \<open>k\<close> that holds \<open>c\<close> or the NUL.
\<close>

partial_function (option) set_scan :: "mem \<Rightarrow> addr \<Rightarrow> u8 \<Rightarrow> addr option" where
  "set_scan m k c = (if m k \<noteq> 0 \<and> m k \<noteq> c then set_scan m (k + 1) c else Some k)"

partial_function (option) strspn_loop :: "mem \<Rightarrow> addr \<Rightarrow> addr \<Rightarrow> u32 \<Rightarrow> u32 option" where
  "strspn_loop m s1 s2 result =
     (if m s1 \<noteq> 0 then
        (case set_scan m s2 (m s1) of None \<Rightarrow> None
         | Some k \<Rightarrow> if m k = 0 then Some result else strspn_loop m (s1 + 1) s2 (result + 1))
      else Some result)"

definition kstrspn :: "mem \<Rightarrow> addr \<Rightarrow> addr \<Rightarrow> u32 option" where
  "kstrspn m s1 s2 = strspn_loop m s1 s2 0"

partial_function (option) strcspn_loop :: "mem \<Rightarrow> addr \<Rightarrow> addr \<Rightarrow> u32 \<Rightarrow> u32 option" where
  "strcspn_loop m s1 s2 result =
     (if m s1 \<noteq> 0 then
        (case set_scan m s2 (m s1) of None \<Rightarrow> None
         | Some k \<Rightarrow> if m k \<noteq> 0 then Some result else strcspn_loop m (s1 + 1) s2 (result + 1))
      else Some result)"

definition kstrcspn :: "mem \<Rightarrow> addr \<Rightarrow> addr \<Rightarrow> u32 option" where
  "kstrcspn m s1 s2 = strcspn_loop m s1 s2 0"

partial_function (option) kstrpbrk :: "mem \<Rightarrow> addr \<Rightarrow> addr \<Rightarrow> addr option" where
  "kstrpbrk m s1 s2 =
     (if m s1 \<noteq> 0 then
        (case set_scan m s2 (m s1) of None \<Rightarrow> None
         | Some k \<Rightarrow> if m k \<noteq> 0 then Some s1 else kstrpbrk m (s1 + 1) s2)
      else Some NULL)"

text \<open>\<open>str_match m s n\<close> is the inner loop of \<open>kstrstr\<close>: it returns where \<open>n\<close> stopped.\<close>

partial_function (option) str_match :: "mem \<Rightarrow> addr \<Rightarrow> addr \<Rightarrow> addr option" where
  "str_match m s n =
     (if m s \<noteq> 0 \<and> m n \<noteq> 0 \<and> m s = m n then str_match m (s + 1) (n + 1) else Some n)"

partial_function (option) strstr_loop :: "mem \<Rightarrow> addr \<Rightarrow> addr \<Rightarrow> addr option" where
  "strstr_loop m s s2 =
     (if m s \<noteq> 0 then
        (case str_match m s s2 of None \<Rightarrow> None
         | Some n \<Rightarrow> if m n = 0 then Some s else strstr_loop m (s + 1) s2)
      else Some NULL)"

definition kstrstr :: "mem \<Rightarrow> addr \<Rightarrow> addr \<Rightarrow> addr option" where
  "kstrstr m s1 s2 = (if m s2 = 0 then Some s1 else strstr_loop m s1 s2)"

text \<open>
  \<open>kstrtok\<close> keeps its position in the static variable \<open>p\<close>: the model takes it and returns it, with
  the returned pointer and the memory (the delimiter after a token is overwritten with NUL).
\<close>

definition kstrtok :: "mem \<Rightarrow> addr \<Rightarrow> addr \<Rightarrow> addr \<Rightarrow> (addr \<times> addr \<times> mem) option" where
  "kstrtok m p s1 s2 =
     (if s1 = NULL \<and> p = NULL then Some (NULL, p, m)
      else let p = (if s1 \<noteq> NULL then s1 else p)
           in case kstrspn m p s2 of None \<Rightarrow> None
              | Some i \<Rightarrow>
                  let s1 = p + i
                  in case kstrcspn m s1 s2 of None \<Rightarrow> None
                     | Some j \<Rightarrow>
                         let p = s1 + j
                         in if s1 = p then Some (NULL, NULL, m)
                            else if m p = 0 then Some (s1, NULL, m)
                            else Some (s1, p + 1, m(p := 0)))"

section \<open>Copying: refinement to writing a list of bytes\<close>

lemma copy_up_write:
  "\<lbrakk>n \<le> 2 ^ 32; \<And>i j. i < j \<Longrightarrow> j < n \<Longrightarrow> d + of_nat i \<noteq> s + of_nat j\<rbrakk>
   \<Longrightarrow> copy_up n d s m = write_bytes m d (read_bytes m s n)"
proof (induction n arbitrary: d s m)
  case (Suc n)
  have out: "read_bytes (m(d := m s)) (s + 1) n = read_bytes m (s + 1) n"
  proof (rule read_bytes_cong)
    fix i assume "i < n"
    with Suc.prems(2) [of 0 "Suc i"] show "(m(d := m s)) (s + 1 + of_nat i) = m (s + 1 + of_nat i)"
      by (auto simp: algebra_simps)
  qed
  have "d + 1 + of_nat i \<noteq> s + 1 + of_nat j" if "i < j" "j < n" for i j
    using Suc.prems(2) [of "Suc i" "Suc j"] that by (simp add: algebra_simps)
  then have "copy_up n (d + 1) (s + 1) (m(d := m s))
      = write_bytes (m(d := m s)) (d + 1) (read_bytes (m(d := m s)) (s + 1) n)"
    using Suc.prems(1) by (intro Suc.IH) auto
  then show ?case by (simp add: out)
qed simp

lemma write_bytes_upd_commute:
  "\<lbrakk>length xs \<le> 2 ^ 32; \<not> in_range a (length xs) b\<rbrakk>
   \<Longrightarrow> write_bytes (m(b := v)) a xs = (write_bytes m a xs)(b := v)"
proof (induction xs arbitrary: m a)
  case (Cons x xs)
  then have ab: "a \<noteq> b" and out: "\<not> in_range (a + 1) (length xs) b" by (auto simp: in_range_Suc_iff)
  have "write_bytes (m(b := v)) a (x # xs) = write_bytes ((m(a := x))(b := v)) (a + 1) xs"
    using ab by (simp add: fun_upd_twist)
  also have "\<dots> = (write_bytes (m(a := x)) (a + 1) xs)(b := v)"
    using Cons.prems out by (intro Cons.IH) auto
  finally show ?case by (simp only: write_bytes.simps)
qed simp

lemma not_in_range_end: "n < 2 ^ 32 \<Longrightarrow> \<not> in_range a n (a + of_nat n)"
  by (simp add: in_range_def unat_of_nat)

lemma copy_down_write:
  "\<lbrakk>n < 2 ^ 32; \<And>i j. j < i \<Longrightarrow> i < n \<Longrightarrow> d + of_nat i \<noteq> s + of_nat j\<rbrakk>
   \<Longrightarrow> copy_down n (d + (of_nat n - 1)) (s + (of_nat n - 1)) m = write_bytes m d (read_bytes m s n)"
proof (induction n arbitrary: m)
  case (Suc n)
  define v where "v = m (s + of_nat n)"
  define m1 where "m1 = m(d + of_nat n := v)"
  have rd: "read_bytes m1 s n = read_bytes m s n"
  proof (rule read_bytes_cong)
    fix i assume "i < n"
    with Suc.prems(2) [of i n] show "m1 (s + of_nat i) = m (s + of_nat i)" by (simp add: m1_def)
  qed
  have "copy_down (Suc n) (d + (of_nat (Suc n) - 1)) (s + (of_nat (Suc n) - 1)) m
      = copy_down n (d + (of_nat n - 1)) (s + (of_nat n - 1)) m1"
    by (simp add: m1_def v_def algebra_simps)
  also have "\<dots> = write_bytes m1 d (read_bytes m s n)"
    using Suc.IH [of m1] Suc.prems rd by simp
  also have "\<dots> = (write_bytes m d (read_bytes m s n))(d + of_nat n := v)"
    unfolding m1_def using Suc.prems(1)
    by (intro write_bytes_upd_commute) (simp_all add: not_in_range_end)
  also have "\<dots> = write_bytes m d (read_bytes m s n @ [v])"
    by (simp add: write_bytes_append)
  also have "read_bytes m s n @ [v] = read_bytes m s (Suc n)"
    using read_bytes_append [of m s n 1] by (simp add: v_def)
  finally show ?case .
qed simp

lemma fill_write: "fill n p u m = write_bytes m p (replicate n u)"
  by (induction n arbitrary: p m) auto

lemma unat_offset: "unat (a :: addr) + unat n \<le> 2 ^ 32 \<Longrightarrow> i < unat n \<Longrightarrow> unat (a + of_nat i) = unat a + i"
  by (rule unat_plus_of_nat) simp

lemma kmemmove_write:
  assumes "unat s1 + unat n \<le> 2 ^ 32" "unat s2 + unat n \<le> 2 ^ 32"
  shows "kmemmove m s1 s2 n = (write_bytes m s1 (read_bytes m s2 (unat n)), s1)"
proof (cases "s1 < s2")
  case True
  have "s1 + of_nat i \<noteq> s2 + of_nat j" if "i < j" "j < unat n" for i j
    using that True assms unat_offset [of s1 n i] unat_offset [of s2 n j]
    by (auto simp: word_less_nat_alt)
  with True show ?thesis
    using unat_lt_2p32 [of n] by (simp add: kmemmove_def copy_up_write)
next
  case False
  have "s1 + of_nat i \<noteq> s2 + of_nat j" if "j < i" "i < unat n" for i j
    using that False assms unat_offset [of s1 n i] unat_offset [of s2 n j]
    by (auto simp: word_less_nat_alt)
  then have "copy_down (unat n) (s1 + (of_nat (unat n) - 1)) (s2 + (of_nat (unat n) - 1)) m
      = write_bytes m s1 (read_bytes m s2 (unat n))"
    using unat_lt_2p32 [of n] by (intro copy_down_write) auto
  with False show ?thesis by (simp add: kmemmove_def)
qed

lemma kmemcpy_write:
  assumes "disjoint_ranges s1 (unat n) s2 (unat n)"
  shows "kmemcpy m s1 s2 n = (write_bytes m s1 (read_bytes m s2 (unat n)), s1)"
proof -
  have "s1 + of_nat i \<noteq> s2 + of_nat j" if "i < j" "j < unat n" for i j
    using that assms in_range_offset [of i "unat n" s1] in_range_offset [of j "unat n" s2]
      unat_lt_2p32 [of n] unfolding disjoint_ranges_def
    by (metis dual_order.strict_trans less_or_eq_imp_le)
  then show ?thesis
    using unat_lt_2p32 [of n] by (simp add: kmemcpy_def copy_up_write)
qed

lemma kmemset_write: "kmemset m s c n = (write_bytes m s (replicate (unat n) (ucast c)), s)"
  by (simp add: kmemset_def fill_write)

section \<open>Strings: what each loop computes\<close>

lemma str_end_cstr: "cstr m a xs \<Longrightarrow> str_end m a = Some (a + of_nat (length xs))"
proof (induction xs arbitrary: a)
  case Nil
  then show ?case by (subst str_end.simps) simp
next
  case (Cons x xs)
  then show ?case by (subst str_end.simps) (simp add: algebra_simps)
qed

lemma disjoint_ranges_tl:
  "\<lbrakk>disjoint_ranges a (Suc n) b (Suc k); Suc n \<le> 2 ^ 32; Suc k \<le> 2 ^ 32\<rbrakk>
   \<Longrightarrow> disjoint_ranges (a + 1) n (b + 1) k"
  by (auto simp: disjoint_ranges_def in_range_Suc_iff)

lemma disjoint_ranges_hd:
  "\<lbrakk>disjoint_ranges a (Suc n) b k; Suc n \<le> 2 ^ 32\<rbrakk> \<Longrightarrow> \<not> in_range b k a"
  by (auto simp: disjoint_ranges_def in_range_Suc_iff)

lemma cstr_upd_outside:
  "\<lbrakk>\<not> in_range a (Suc (length xs)) b; Suc (length xs) \<le> 2 ^ 32\<rbrakk> \<Longrightarrow> cstr (m(b := v)) a xs = cstr m a xs"
proof (rule cstr_cong)
  fix i assume "\<not> in_range a (Suc (length xs)) b" "Suc (length xs) \<le> 2 ^ 32" "i \<le> length xs"
  then have "a + of_nat i \<noteq> b" using in_range_offset [of i "Suc (length xs)" a] by auto
  then show "(m(b := v)) (a + of_nat i) = m (a + of_nat i)" by simp
qed

lemma cstr_write_outside:
  assumes "disjoint_ranges b (length ys) a (Suc (length xs))"
    and "length ys \<le> 2 ^ 32" "Suc (length xs) \<le> 2 ^ 32"
  shows "cstr (write_bytes m b ys) a xs = cstr m a xs"
proof (rule cstr_cong)
  fix i assume "i \<le> length xs"
  with assms have "in_range a (Suc (length xs)) (a + of_nat i)" by (intro in_range_offset) auto
  with assms show "write_bytes m b ys (a + of_nat i) = m (a + of_nat i)"
    by (auto simp: disjoint_ranges_def intro!: write_bytes_outside)
qed

lemma strcpy_loop_cstr:
  "\<lbrakk>cstr m s xs; disjoint_ranges d (Suc (length xs)) s (Suc (length xs)); Suc (length xs) \<le> 2 ^ 32\<rbrakk>
   \<Longrightarrow> strcpy_loop m d s = Some (write_bytes m d xs, d + of_nat (length xs))"
proof (induction xs arbitrary: m d s)
  case Nil
  then show ?case by (subst strcpy_loop_unfold) simp
next
  case (Cons x xs)
  have nd: "\<not> in_range s (Suc (length (x # xs))) d"
    using Cons.prems by (intro disjoint_ranges_hd) auto
  have "cstr (m(d := x)) (s + 1) xs"
    using Cons.prems nd by (subst cstr_upd_outside) (auto simp: in_range_Suc_iff)
  moreover have "disjoint_ranges (d + 1) (Suc (length xs)) (s + 1) (Suc (length xs))"
    using Cons.prems by (intro disjoint_ranges_tl) auto
  ultimately have "strcpy_loop (m(d := x)) (d + 1) (s + 1)
      = Some (write_bytes (m(d := x)) (d + 1) xs, d + 1 + of_nat (length xs))"
    using Cons.prems(3) by (intro Cons.IH) (assumption | simp)+
  with Cons.prems show ?case by (subst strcpy_loop_unfold) (simp add: algebra_simps)
qed

lemma strncpy_copy_cstr:
  "\<lbrakk>cstr m s xs; disjoint_ranges d n s (Suc (length xs)); n < 2 ^ 32; Suc (length xs) \<le> 2 ^ 32\<rbrakk>
   \<Longrightarrow> strncpy_copy n d s m =
       (if n \<le> length xs then (0, d + of_nat n, write_bytes m d (take n xs))
        else (n - length xs, d + of_nat (Suc (length xs)), write_bytes m d (xs @ [0])))"
proof (induction n arbitrary: m d s xs)
  case (Suc n)
  show ?case
  proof (cases xs)
    case Nil
    with Suc.prems show ?thesis by simp
  next
    case (Cons x ys)
    have nd: "\<not> in_range s (Suc (length xs)) d"
      using Suc.prems by (intro disjoint_ranges_hd [of d n]) auto
    have c: "cstr (m(d := x)) (s + 1) ys"
      using Suc.prems nd Cons by (subst cstr_upd_outside) (auto simp: in_range_Suc_iff)
    have dj: "disjoint_ranges (d + 1) n (s + 1) (Suc (length ys))"
      using Suc.prems Cons by (intro disjoint_ranges_tl) auto
    have "n < 2 ^ 32" "Suc (length ys) \<le> 2 ^ 32" using Suc.prems Cons by auto
    then have "strncpy_copy n (d + 1) (s + 1) (m(d := x)) =
       (if n \<le> length ys then (0, d + 1 + of_nat n, write_bytes (m(d := x)) (d + 1) (take n ys))
        else (n - length ys, d + 1 + of_nat (Suc (length ys)), write_bytes (m(d := x)) (d + 1) (ys @ [0])))"
      by (rule Suc.IH [OF c dj])
    with Suc.prems Cons show ?thesis by (auto simp: Let_def algebra_simps)
  qed
qed simp

lemma kstrncpy_write:
  assumes "cstr m s2 xs" "disjoint_ranges s1 (unat n) s2 (Suc (length xs))"
  shows "kstrncpy m s1 s2 n = (write_bytes m s1 (take (unat n) (xs @ replicate (unat n) 0)), s1)"
proof -
  have n: "unat n < 2 ^ 32" by (rule unat_lt_2p32)
  have "Suc (length xs) \<le> 2 ^ 32" using cstr_bounded [OF assms(1)] by simp
  note eq = strncpy_copy_cstr [OF assms(1,2) n this]
  show ?thesis
  proof (cases "unat n \<le> length xs")
    case True
    with eq show ?thesis by (simp add: kstrncpy_def)
  next
    case False
    have r: "replicate (unat n - length xs) (0::u8) = 0 # replicate (unat n - length xs - 1) 0"
      using False by (cases "unat n - length xs") auto
    have "take (unat n) (xs @ replicate (unat n) (0::u8)) = (xs @ [0]) @ replicate (unat n - length xs - 1) 0"
      using False r by (simp add: take_replicate)
    with eq False show ?thesis
      by (simp only: kstrncpy_def fill_write write_bytes_append) (simp add: write_bytes_append algebra_simps)
  qed
qed

lemma strncat_loop_cstr:
  "\<lbrakk>cstr m s xs; disjoint_ranges d (Suc (min (n - 1) (length xs))) s (Suc (length xs)); Suc (length xs) \<le> 2 ^ 32\<rbrakk>
   \<Longrightarrow> strncat_loop n d s m = (write_bytes m d (take (n - 1) xs), d + of_nat (min (n - 1) (length xs)))"
proof (induction xs arbitrary: n m d s)
  case Nil
  then show ?case by (subst strncat_loop.simps) simp
next
  case (Cons x xs)
  show ?case
  proof (cases "n > 1")
    case False
    then show ?thesis by (subst strncat_loop.simps) simp
  next
    case True
    then have "n = Suc (Suc (n - 2))" by simp
    then obtain k where n: "n = Suc (Suc k)" by blast
    have nd: "\<not> in_range s (Suc (length (x # xs))) d"
      using Cons.prems n by (intro disjoint_ranges_hd [of d "Suc (min k (length xs))"]) auto
    have c: "cstr (m(d := x)) (s + 1) xs"
      using Cons.prems nd by (subst cstr_upd_outside) (auto simp: in_range_Suc_iff)
    have dj: "disjoint_ranges (d + 1) (Suc (min (Suc k - 1) (length xs))) (s + 1) (Suc (length xs))"
      using Cons.prems n by (intro disjoint_ranges_tl) auto
    have "Suc (length xs) \<le> 2 ^ 32" using Cons.prems by simp
    then have "strncat_loop (Suc k) (d + 1) (s + 1) (m(d := x)) =
        (write_bytes (m(d := x)) (d + 1) (take (Suc k - 1) xs), d + 1 + of_nat (min (Suc k - 1) (length xs)))"
      by (rule Cons.IH [OF c dj])
    with Cons.prems n show ?thesis by (subst strncat_loop.simps) (simp add: algebra_simps)
  qed
qed

lemma uint_byte_iff [simp]:
  "uint (x :: u8) = uint y \<longleftrightarrow> x = y" "uint x < uint y \<longleftrightarrow> x < y"
  by (auto simp: word_less_def word_uint_eq_iff)

lemma kstrcmp_cstr:
  "\<lbrakk>cstr m a xs; cstr m b ys\<rbrakk>
   \<Longrightarrow> \<exists>r. kstrcmp m a b = Some r \<and> (r = 0 \<longleftrightarrow> xs = ys) \<and> (r < 0 \<longleftrightarrow> ord_class.lexordp xs ys)"
proof (induction xs arbitrary: a b ys)
  case Nil
  then show ?case
    by (cases ys) (auto simp: kstrcmp.simps [of m a b] uint_0_iff less_le)
next
  case (Cons x xs)
  show ?case
  proof (cases ys)
    case Nil
    with Cons.prems show ?thesis
      by (auto simp: kstrcmp.simps [of m a b] uint_0_iff not_less)
  next
    case (Cons y zs)
    show ?thesis
    proof (cases "x = y")
      case True
      with Cons Cons.prems Cons.IH [of "a + 1" "b + 1" zs] show ?thesis
        by (auto simp: kstrcmp.simps [of m a b])
    next
      case False
      with Cons Cons.prems show ?thesis
        by (auto simp: kstrcmp.simps [of m a b])
    qed
  qed
qed

lemma strncmp_loop_cstr:
  "\<lbrakk>cstr m a xs; cstr m b ys\<rbrakk>
   \<Longrightarrow> (strncmp_loop n m a b = 0 \<longleftrightarrow> take n xs = take n ys)
      \<and> (strncmp_loop n m a b < 0 \<longleftrightarrow> ord_class.lexordp (take n xs) (take n ys))"
proof (induction n arbitrary: a b xs ys)
  case (Suc n)
  show ?case
  proof (cases xs)
    case Nil
    with Suc.prems show ?thesis by (cases ys) (auto simp: uint_0_iff less_le)
  next
    case (Cons x xs')
    show ?thesis
    proof (cases ys)
      case Nil
      with Suc.prems Cons show ?thesis by (auto simp: uint_0_iff not_less)
    next
      case (Cons y ys')
      with \<open>xs = x # xs'\<close> Suc.prems Suc.IH [of "a + 1" xs' "b + 1" ys'] show ?thesis
        by (cases "x = y") auto
    qed
  qed
qed simp

lemma memcmp_loop_read:
  "(memcmp_loop n m a b = 0 \<longleftrightarrow> read_bytes m a n = read_bytes m b n)
   \<and> (memcmp_loop n m a b < 0 \<longleftrightarrow> ord_class.lexordp (read_bytes m a n) (read_bytes m b n))"
proof (induction n arbitrary: a b)
  case (Suc n)
  then show ?case by (cases "m a = m b") (auto simp: Let_def)
qed simp

lemma set_scan_cstr:
  "\<lbrakk>cstr m k ys; c \<noteq> 0\<rbrakk>
   \<Longrightarrow> \<exists>k'. set_scan m k c = Some k' \<and> (m k' = 0 \<longleftrightarrow> c \<notin> set ys)"
proof (induction ys arbitrary: k)
  case Nil
  then show ?case by (auto simp: set_scan.simps [of m k])
next
  case (Cons y ys)
  then show ?case by (auto simp: set_scan.simps [of m k])
qed

lemma strspn_loop_cstr:
  "\<lbrakk>cstr m s xs; cstr m s2 ys\<rbrakk>
   \<Longrightarrow> strspn_loop m s s2 r = Some (r + of_nat (length (takeWhile (\<lambda>x. x \<in> set ys) xs)))"
proof (induction xs arbitrary: s r)
  case Nil
  then show ?case by (simp add: strspn_loop.simps [of m s])
next
  case (Cons x xs)
  from Cons.prems obtain k where "set_scan m s2 x = Some k" "m k = 0 \<longleftrightarrow> x \<notin> set ys"
    using set_scan_cstr [of m s2 ys x] by auto
  with Cons show ?case by (auto simp: strspn_loop.simps [of m s] algebra_simps)
qed

lemma strcspn_loop_cstr:
  "\<lbrakk>cstr m s xs; cstr m s2 ys\<rbrakk>
   \<Longrightarrow> strcspn_loop m s s2 r = Some (r + of_nat (length (takeWhile (\<lambda>x. x \<notin> set ys) xs)))"
proof (induction xs arbitrary: s r)
  case Nil
  then show ?case by (simp add: strcspn_loop.simps [of m s])
next
  case (Cons x xs)
  from Cons.prems obtain k where "set_scan m s2 x = Some k" "m k = 0 \<longleftrightarrow> x \<notin> set ys"
    using set_scan_cstr [of m s2 ys x] by auto
  with Cons show ?case by (auto simp: strcspn_loop.simps [of m s] algebra_simps)
qed

lemma str_match_cstr:
  "\<lbrakk>cstr m s xs; cstr m n ys\<rbrakk>
   \<Longrightarrow> \<exists>k. str_match m s n = Some k \<and> (m k = 0 \<longleftrightarrow> take (length ys) xs = ys)"
proof (induction ys arbitrary: s n xs)
  case Nil
  then show ?case by (auto simp: str_match.simps [of m s n])
next
  case (Cons y ys)
  show ?case
  proof (cases xs)
    case Nil
    with Cons.prems show ?thesis by (auto simp: str_match.simps [of m s n])
  next
    case (Cons x xs')
    with Cons.prems Cons.IH [of "s + 1" xs' "n + 1"] show ?thesis
      by (auto simp: str_match.simps [of m s n])
  qed
qed

lemma strstr_loop_cstr:
  "\<lbrakk>cstr m s xs; cstr m s2 ys; ys \<noteq> []\<rbrakk>
   \<Longrightarrow> (\<exists>i. strstr_loop m s s2 = Some (s + of_nat i) \<and> take (length ys) (drop i xs) = ys
           \<and> (\<forall>j<i. take (length ys) (drop j xs) \<noteq> ys))
       \<or> strstr_loop m s s2 = Some NULL \<and> (\<forall>i. take (length ys) (drop i xs) \<noteq> ys)"
proof (induction xs arbitrary: s)
  case Nil
  then show ?case by (simp add: strstr_loop.simps [of m s])
next
  case (Cons x xs)
  from Cons.prems obtain k where k: "str_match m s s2 = Some k"
    "m k = 0 \<longleftrightarrow> take (length ys) (x # xs) = ys"
    using str_match_cstr [of m s "x # xs" s2 ys] by auto
  show ?case
  proof (cases "take (length ys) (x # xs) = ys")
    case True
    with k Cons.prems show ?thesis by (auto simp: strstr_loop.simps [of m s] intro!: exI [of _ 0])
  next
    case False
    with k Cons.prems have step: "strstr_loop m s s2 = strstr_loop m (s + 1) s2"
      by (simp add: strstr_loop.simps [of m s])
    have shift: "(\<forall>j<Suc i. take (length ys) (drop j (x # xs)) \<noteq> ys)
        \<longleftrightarrow> (\<forall>j<i. take (length ys) (drop j xs) \<noteq> ys)" for i
      using False by (auto simp: less_Suc_eq_0_disj)
    have shift': "(\<forall>i. take (length ys) (drop i (x # xs)) \<noteq> ys)
        \<longleftrightarrow> (\<forall>i. take (length ys) (drop i xs) \<noteq> ys)"
      using False by (metis drop0 drop_Suc_Cons not0_implies_Suc)
    from Cons.IH [of "s + 1"] Cons.prems consider
      (found) i where "strstr_loop m (s + 1) s2 = Some (s + 1 + of_nat i)"
        "take (length ys) (drop i xs) = ys" "\<forall>j<i. take (length ys) (drop j xs) \<noteq> ys"
      | (none) "strstr_loop m (s + 1) s2 = Some NULL" "\<forall>i. take (length ys) (drop i xs) \<noteq> ys"
      by auto
    then show ?thesis
    proof cases
      case found
      then show ?thesis
        unfolding step by (intro disjI1 exI [of _ "Suc i"]) (simp add: shift algebra_simps)
    next
      case none
      then show ?thesis unfolding step shift' by simp
    qed
  qed
qed


lemma kstrspn_cstr:
  "\<lbrakk>cstr m s xs; cstr m s2 ys\<rbrakk>
   \<Longrightarrow> kstrspn m s s2 = Some (of_nat (length (takeWhile (\<lambda>x. x \<in> set ys) xs)))"
  by (simp add: kstrspn_def strspn_loop_cstr)

lemma kstrcspn_cstr:
  "\<lbrakk>cstr m s xs; cstr m s2 ys\<rbrakk>
   \<Longrightarrow> kstrcspn m s s2 = Some (of_nat (length (takeWhile (\<lambda>x. x \<notin> set ys) xs)))"
  by (simp add: kstrcspn_def strcspn_loop_cstr)

lemma cstr_drop: "cstr m a (xs @ ys) \<Longrightarrow> cstr m (a + of_nat (length xs)) ys"
  by (induction xs arbitrary: a) (auto simp flip: add.assoc)

section \<open>Properties of the string library\<close>

text \<open>C39: kmemmove copies correctly whatever the overlap of the two ranges: the destination then
  holds what the source held before, every other byte is unchanged, and s1 is returned.\<close>

theorem kmemmove_overlap:
  assumes "unat s1 + unat n \<le> 2 ^ 32" "unat s2 + unat n \<le> 2 ^ 32"
  shows "\<exists>m'. kmemmove m s1 s2 n = (m', s1)
     \<and> read_bytes m' s1 (unat n) = read_bytes m s2 (unat n)
     \<and> (\<forall>x. \<not> in_range s1 (unat n) x \<longrightarrow> m' x = m x)"
  using assms unat_lt_2p32 [of n] read_write_bytes [of "read_bytes m s2 (unat n)" m s1]
  by (simp add: kmemmove_write write_bytes_outside)

lemma kmemmove_overlap_witness:
  "(\<exists>m'. kmemmove ((\<lambda>_. 0)(16 := 7, 17 := 8, 18 := 9)) 17 16 3 = (m', 17)
      \<and> read_bytes m' 17 3 = [7, 8, 9])
   \<and> (\<exists>m'. kmemmove ((\<lambda>_. 0)(16 := 7, 17 := 8, 18 := 9)) 16 17 3 = (m', 16)
      \<and> read_bytes m' 16 3 = [8, 9, 0])"
  using kmemmove_overlap [of 17 3 16 "(\<lambda>_. 0)(16 := 7, 17 := 8, 18 := 9)"]
    kmemmove_overlap [of 16 3 17 "(\<lambda>_. 0)(16 := 7, 17 := 8, 18 := 9)"]
  by auto

text \<open>kstrncpy writes exactly n bytes: the string, cut at n, padded with NULs up to n; nothing
  outside the n bytes changes.\<close>

theorem kstrncpy_pads:
  assumes "cstr m s2 xs" "disjoint_ranges s1 (unat n) s2 (Suc (length xs))"
  shows "\<exists>m'. kstrncpy m s1 s2 n = (m', s1)
     \<and> read_bytes m' s1 (unat n) = take (unat n) (xs @ replicate (unat n) 0)
     \<and> (\<forall>x. \<not> in_range s1 (unat n) x \<longrightarrow> m' x = m x)"
proof -
  define ys where "ys = take (unat n) (xs @ replicate (unat n) (0::u8))"
  have "length ys = unat n" by (simp add: ys_def)
  with unat_lt_2p32 [of n] read_write_bytes [of ys m s1] kstrncpy_write [OF assms]
  show ?thesis unfolding ys_def [symmetric] by (simp add: write_bytes_outside)
qed

lemma kstrncpy_pads_witness:
  "\<exists>m'. kstrncpy ((\<lambda>_. 255)(16 := 65, 17 := 66, 18 := 0)) 32 16 4 = (m', 32)
     \<and> read_bytes m' 32 4 = [65, 66, 0, 0]"
proof -
  have "cstr ((\<lambda>_. 255)(16 := 65, 17 := 66, 18 := 0)) 16 [65, 66]" by simp
  moreover have "disjoint_ranges 32 (unat (4 :: u32)) 16 (Suc (length [65 :: u8, 66]))"
    by (subst disjoint_ranges_sym, rule disjoint_ranges_below) simp_all
  ultimately show ?thesis
    using kstrncpy_pads [of "(\<lambda>_. 255)(16 := 65, 17 := 66, 18 := 0)" 16 "[65, 66]" 32 4] by auto
qed

text \<open>kstrncat appends at most n - 1 characters of the source and then the NUL, where the comment
  of the function (and the C standard) promise n: with n = 1 nothing is appended.\<close>

theorem kstrncat_appends_less:
  assumes "cstr m s1 xs" "cstr m s2 ys"
    and "disjoint_ranges (s1 + of_nat (length xs)) (Suc (min (unat n - 1) (length ys))) s2 (Suc (length ys))"
  shows "kstrncat m s1 s2 n =
     Some (write_bytes m (s1 + of_nat (length xs)) (take (unat n - 1) ys @ [0]), s1)"
proof -
  have "Suc (length ys) \<le> 2 ^ 32" using cstr_bounded [OF assms(2)] by simp
  then show ?thesis
    using assms by (simp add: kstrncat_def str_end_cstr strncat_loop_cstr write_bytes_append min.commute)
qed

lemma kstrncat_appends_less_witness:
  "kstrncat ((\<lambda>_. 0)(16 := 65, 32 := 66, 33 := 67)) 16 32 2
     = Some (((\<lambda>_. 0)(16 := 65, 32 := 66, 33 := 67))(17 := 66, 18 := 0), 16)"
proof -
  have "disjoint_ranges 17 (Suc (Suc 0)) 32 (Suc (Suc (Suc 0)))" by (rule disjoint_ranges_below) simp_all
  then show ?thesis
    using kstrncat_appends_less [of "(\<lambda>_. 0)(16 := 65, 32 := 66, 33 := 67)" 16 "[65]" 32 "[66, 67]" 2]
    by simp
qed

text \<open>on two C strings kstrcmp terminates, returns 0 exactly for equal strings and a negative
  value exactly when the first is lexicographically smaller (bytes unsigned); kstrncmp does the
  same for the first n characters, kmemcmp for n raw bytes.\<close>

theorem kstrcmp_orders:
  assumes "cstr m a xs" "cstr m b ys"
  shows "(\<exists>r. kstrcmp m a b = Some r \<and> (r = 0 \<longleftrightarrow> xs = ys) \<and> (r < 0 \<longleftrightarrow> ord_class.lexordp xs ys))
    \<and> (kstrncmp m a b n = 0 \<longleftrightarrow> take (unat n) xs = take (unat n) ys)
    \<and> (kstrncmp m a b n < 0 \<longleftrightarrow> ord_class.lexordp (take (unat n) xs) (take (unat n) ys))
    \<and> (kmemcmp m c d n = 0 \<longleftrightarrow> read_bytes m c (unat n) = read_bytes m d (unat n))
    \<and> (kmemcmp m c d n < 0 \<longleftrightarrow> ord_class.lexordp (read_bytes m c (unat n)) (read_bytes m d (unat n)))"
  using assms by (simp add: kstrcmp_cstr kstrncmp_def strncmp_loop_cstr kmemcmp_def memcmp_loop_read)

lemma kstrcmp_orders_witness:
  "\<exists>r. kstrcmp ((\<lambda>_. 0)(16 := 65, 32 := 200)) 16 32 = Some r \<and> r < 0"
  using kstrcmp_orders [of "(\<lambda>_. 0)(16 := 65, 32 := 200)" 16 "[65]" 32 "[200]" 0 0 0] by auto

text \<open>C40: kstrstr terminates on C strings and returns the first position of s1 where s2 occurs, NULL
  if there is none, and s1 itself for an empty s2.\<close>

theorem kstrstr_first:
  assumes "cstr m s1 xs" "cstr m s2 ys"
  shows "(\<exists>i. kstrstr m s1 s2 = Some (s1 + of_nat i) \<and> take (length ys) (drop i xs) = ys
            \<and> (\<forall>j<i. take (length ys) (drop j xs) \<noteq> ys))
       \<or> kstrstr m s1 s2 = Some NULL \<and> (\<forall>i. take (length ys) (drop i xs) \<noteq> ys)"
proof (cases ys)
  case Nil
  with assms show ?thesis by (auto simp: kstrstr_def intro!: exI [of _ 0])
next
  case (Cons y zs)
  with assms strstr_loop_cstr [OF assms] show ?thesis by (auto simp: kstrstr_def)
qed

lemma kstrstr_first_witness:
  "\<exists>i. kstrstr ((\<lambda>_. 0)(16 := 65, 17 := 65, 18 := 66, 32 := 65, 33 := 66)) 16 32 = Some (16 + of_nat i)
     \<and> take 2 (drop i [65, 65, 66]) = [65, 66 :: u8]"
proof -
  let ?m = "(\<lambda>_. 0)(16 := 65, 17 := 65, 18 := 66, 32 := 65, 33 := 66) :: mem"
  have "cstr ?m 16 [65, 65, 66]" "cstr ?m 32 [65, 66]" by simp_all
  moreover have "take (length [65, 66 :: u8]) (drop 1 [65, 65, 66 :: u8]) = [65, 66]" by simp
  ultimately show ?thesis
    using kstrstr_first [of ?m 16 "[65, 65, 66]" 32 "[65, 66]"]
    by (metis length_Cons list.size(3) numeral_2_eq_2)
qed

lemma strchr_loop_cstr:
  "cstr m s xs \<Longrightarrow>
   strchr_loop m s v = Some (s + of_nat (length (takeWhile (\<lambda>x. sint x \<noteq> uint v) xs)))"
proof (induction xs arbitrary: s)
  case Nil
  then show ?case by (simp add: strchr_loop.simps [of m s])
next
  case (Cons x xs)
  then show ?case by (auto simp: strchr_loop.simps [of m s] algebra_simps)
qed

lemma sint_byte: "sint (x :: u8) = (if uint x < 128 then uint x else uint x - 256)"
proof -
  have "sint x = (uint x + 128) mod 256 - 128"
    by (simp add: sint_uint signed_take_bit_eq_take_bit_shift take_bit_eq_mod)
  moreover have "(uint x + 128) mod 256 = uint x + 128" if "uint x < 128"
    using that by simp
  moreover have "(uint x + 128) mod 256 = uint x - 128" if "\<not> uint x < 128"
  proof -
    have "(uint x + 128) mod 256 = (uint x - 128 + 256) mod 256" by (simp add: algebra_simps)
    also have "\<dots> = (uint x - 128) mod 256" by (rule mod_add_self2)
    also have "\<dots> = uint x - 128"
      using that uint_lt2p [of x] by (intro mod_pos_pos_trivial) simp_all
    finally show ?thesis .
  qed
  ultimately show ?thesis by simp
qed

lemma sint_eq_uint_byte: "sint (x :: u8) = uint (v :: u8) \<longleftrightarrow> x = v \<and> v < 128"
proof -
  have "uint x < 256" "(uint x = uint v) = (x = v)" using uint_lt2p [of x] by simp_all
  moreover from this(1) have "uint x - 256 \<noteq> uint v" using uint_ge_0 [of v] by linarith
  moreover have "v < 128 \<longleftrightarrow> uint v < 128" by (simp add: word_less_def)
  ultimately show ?thesis by (auto simp: sint_byte simp del: uint_byte_iff)
qed

text \<open>kstrchr looks for the first occurrence of a character below 128 in a C string and returns
  NULL when there is none; a character from 128 on, which the comment of the function covers as
  well, is never found: the plain char read from the string is compared as a negative number with
  the unsigned char.\<close>

theorem kstrchr_finds_only_ascii:
  assumes "cstr m s xs" "ucast c = v" "v \<noteq> 0"
  shows "kstrchr m s c = Some (if v < 128 \<and> v \<in> set xs
           then s + of_nat (length (takeWhile (\<lambda>x. x \<noteq> v) xs)) else NULL)"
proof (cases "v < 128 \<and> v \<in> set xs")
  case True
  define k where "k = length (takeWhile (\<lambda>x. x \<noteq> v) xs)"
  have "k < length xs" unfolding k_def using True
    by (intro takeWhile_shorter) (auto simp: takeWhile_eq_all_conv)
  then have "m (s + of_nat k) \<noteq> 0" using cstr_nonzero [OF assms(1)] by blast
  moreover have "strchr_loop m s v = Some (s + of_nat k)"
    using strchr_loop_cstr [OF assms(1)] True by (simp add: sint_eq_uint_byte k_def)
  ultimately show ?thesis using True assms(2) by (simp add: kstrchr_def k_def)
next
  case False
  then have tw: "takeWhile (\<lambda>x. sint x \<noteq> uint v) xs = xs"
    by (auto simp: sint_eq_uint_byte takeWhile_eq_all_conv)
  have "strchr_loop m s v = Some (s + of_nat (length xs))"
    by (simp only: strchr_loop_cstr [OF assms(1)] tw)
  with False assms cstr_terminated [OF assms(1)] show ?thesis by (auto simp: kstrchr_def Let_def)
qed

lemma kstrchr_finds_only_ascii_witness:
  "kstrchr ((\<lambda>_. 0)(16 := 65, 17 := 200)) 16 65 = Some 16
   \<and> kstrchr ((\<lambda>_. 0)(16 := 65, 17 := 200)) 16 200 = Some NULL"
  using kstrchr_finds_only_ascii [of "(\<lambda>_. 0)(16 := 65, 17 := 200)" 16 "[65, 200]" 65 65]
    kstrchr_finds_only_ascii [of "(\<lambda>_. 0)(16 := 65, 17 := 200)" 16 "[65, 200]" 200 200]
  by simp

text \<open>one call of kstrtok skips the leading delimiters of the string at its saved position and
  returns the token up to the next delimiter as a NUL-terminated string, saving the position after
  it (NULL when the string is used up); with no token left it returns NULL and forgets the string.
  The delimiter string is not changed.\<close>

theorem kstrtok_token:
  assumes str: "cstr m q xs" and del: "cstr m s2 ds"
    and q: "q = (if s1 \<noteq> NULL then s1 else p)" "q \<noteq> NULL" "unat q + length xs < 2 ^ 32"
    and sep: "disjoint_ranges q (Suc (length xs)) s2 (Suc (length ds))"
    and rest: "rest = dropWhile (\<lambda>c. c \<in> set ds) xs"
    and tok: "tok = takeWhile (\<lambda>c. c \<notin> set ds) rest"
  shows "if rest = [] then kstrtok m p s1 s2 = Some (NULL, NULL, m)
    else \<exists>p' m'. kstrtok m p s1 s2 = Some (q + of_nat (length xs - length rest), p', m')
       \<and> cstr m' (q + of_nat (length xs - length rest)) tok \<and> cstr m' s2 ds
       \<and> (if tok = rest then p' = NULL
          else p' \<noteq> NULL \<and> cstr m' p' (drop (Suc (length tok)) rest))"
proof -
  define i where "i = length xs - length rest"
  define j where "j = length tok"
  let ?t = "q + of_nat i :: addr"
  let ?e = "?t + of_nat j"
  have split: "xs = takeWhile (\<lambda>c. c \<in> set ds) xs @ rest" by (simp add: rest)
  then have i: "i = length (takeWhile (\<lambda>c. c \<in> set ds) xs)" and ilen: "i + length rest = length xs"
    unfolding i_def by (metis add_diff_cancel_right' length_append) (metis i_def rest length_append takeWhile_dropWhile_id add_diff_cancel_right')
  have trest: "cstr m ?t rest" using str split i by (metis cstr_drop)
  have q0: "\<not> (s1 = NULL \<and> p = NULL)" using q by auto
  have step: "kstrtok m p s1 s2 =
      (if j = 0 then Some (NULL, NULL, m) else if m ?e = 0 then Some (?t, NULL, m)
       else Some (?t, ?e + 1, m(?e := 0)))"
  proof -
    have "?t = ?e \<longleftrightarrow> j = 0"
    proof -
      have "j < 2 ^ 32"
        using tok ilen q(3) length_takeWhile_le [of "\<lambda>c. c \<notin> set ds" rest] by (simp add: j_def)
      then show ?thesis using addr_offset_inj [of 0 j ?t] by auto
    qed
    then show ?thesis
      using q0 kstrspn_cstr [OF str del] kstrcspn_cstr [OF trest del]
      by (auto simp: kstrtok_def Let_def q(1) [symmetric] i [symmetric] j_def tok [symmetric])
  qed
  show ?thesis
  proof (cases "rest = []")
    case True
    then have "j = 0" by (simp add: j_def tok)
    with True step show ?thesis by simp
  next
    case False
    then have j0: "j \<noteq> 0"
      using hd_dropWhile [of "\<lambda>c. c \<in> set ds" xs]
      by (cases rest) (auto simp: j_def tok rest [symmetric])
    show ?thesis
    proof (cases "tok = rest")
      case True
      then have "m ?e = 0" using cstr_terminated [OF trest] by (simp add: j_def)
      with step j0 False True trest del show ?thesis by (simp add: i_def)
    next
      case tr: False
      then have jl: "j < length rest"
        unfolding j_def tok by (rule takeWhile_shorter)
      then have "m ?e \<noteq> 0" using cstr_nonzero [OF trest] by blast
      with step j0 have eq: "kstrtok m p s1 s2 = Some (?t, ?e + 1, m(?e := 0))" by simp
      have toktake: "tok = take j rest" unfolding j_def tok by (rule takeWhile_eq_take)
      have "cstr (m(?e := 0)) ?t tok"
      proof -
        have "read_bytes (m(?e := 0)) ?t j = read_bytes m ?t j"
        proof (rule read_bytes_cong)
          fix k assume "k < j"
          then have "?t + of_nat k \<noteq> ?e" using addr_offset_inj [of k j ?t] jl ilen q(3) by auto
          then show "(m(?e := 0)) (?t + of_nat k) = m (?t + of_nat k)" by simp
        qed
        also have "\<dots> = tok"
          using cstr_read [OF trest] jl toktake take_read_bytes [of j "length rest" m ?t] by simp
        finally show ?thesis
          using trest tok by (auto simp: cstr_iff j_def dest!: set_takeWhileD)
      qed
      moreover have "cstr (m(?e := 0)) (?e + 1) (drop (Suc j) rest)"
      proof -
        have "cstr m ?t (take (Suc j) rest @ drop (Suc j) rest)" using trest by simp
        moreover have "?t + of_nat (length (take (Suc j) rest)) = ?e + 1"
          using jl by (simp add: min_absorb2 algebra_simps)
        ultimately have "cstr m (?e + 1) (drop (Suc j) rest)" by (metis cstr_drop)
        moreover have "\<not> in_range (?e + 1) (Suc (length (drop (Suc j) rest))) ?e"
          using jl ilen q(3) by (intro not_in_range_before) simp
        ultimately show ?thesis using jl ilen q(3) by (subst cstr_upd_outside) simp_all
      qed
      moreover have "?e = q + of_nat (i + j)" by (simp add: add.assoc)
      moreover have "in_range q (Suc (length xs)) (q + of_nat (i + j))"
        using jl ilen q(3) by (intro in_range_offset) auto
      then have "\<not> in_range s2 (Suc (length ds)) (q + of_nat (i + j))" using sep by (auto simp: disjoint_ranges_def)
      then have "cstr (m(?e := 0)) s2 ds"
        using del cstr_bounded [OF del] by (subst cstr_upd_outside) (simp_all add: add.assoc)
      moreover have "unat (q + of_nat (Suc (i + j))) = unat q + Suc (i + j)"
        using jl ilen q(3) by (intro unat_plus_of_nat) simp
      then have "?e + 1 \<noteq> NULL" by (auto simp: algebra_simps simp flip: unat_0_iff)
      ultimately show ?thesis using eq False tr by (simp add: i_def j_def)
    qed
  qed
qed

lemma kstrtok_token_witness:
  "\<exists>p' m'. kstrtok ((\<lambda>_. 0)(16 := 44, 17 := 65, 18 := 44, 19 := 66, 32 := 44)) NULL 16 32 = Some (17, p', m')
     \<and> cstr m' 17 [65] \<and> p' \<noteq> NULL \<and> cstr m' p' [66]"
proof -
  have "disjoint_ranges 16 (Suc (length [44 :: u8, 65, 44, 66])) 32 (Suc (length [44 :: u8]))"
    by (rule disjoint_ranges_below) simp_all
  then show ?thesis
    using kstrtok_token [of "(\<lambda>_. 0)(16 := 44, 17 := 65, 18 := 44, 19 := 66, 32 := 44)" 16
        "[44, 65, 44, 66]" 32 "[44]" 16 NULL, OF _ _ _ _ _ _ refl refl]
    by simp blast
qed

end
