(* ===== verification/KTask.thy ===== *)
theory KTask
  imports KString
begin

text \<open>
  Tasks and the scheduler: src/system/kernel/task.c with the task record of type.h and the saved
  register frame of i386_type.h.

  A \<open>task_t *\<close> is an index into \<open>ptable\<close>, \<open>None\<close> for NULL. The ready queues are the singly linked
  lists the code builds with \<open>next_ready\<close>, one per priority, with a head and a tail pointer. The
  saved context of a task lies on its stack in memory: \<open>context\<close> is its address, its fields are
  read and written at their offsets. A loop over a linked list is a \<open>partial_function (option)\<close>:
  \<open>None\<close> would be a loop around a cyclic list.

  The records are extensible: the clock and the whole system add their own state. Where the code calls \<open>kmalloc\<close>
  for a stack, the allocator is an argument; KSystem supplies the modelled one.
\<close>

section \<open>Constants\<close>

definition TASK_COUNT :: nat where "TASK_COUNT = 10"
definition LOWEST_TASK_PRIORITY :: int where "LOWEST_TASK_PRIORITY = 16"
definition TASK_DEFAULT_QUANTUM :: u16 where "TASK_DEFAULT_QUANTUM = 10"
definition TASK_FLAGS_PREEMPTIBLE :: u16 where "TASK_FLAGS_PREEMPTIBLE = 0x0001"
definition TASK_FLAGS_AFTER_SWITCH :: u16 where "TASK_FLAGS_AFTER_SWITCH = 0x0002"
definition PID_NO_TASK :: u32 where "PID_NO_TASK = 0x80000000"
definition PID_ALL_TASKS :: u32 where "PID_ALL_TASKS = 0x80000001"
definition MESSAGE_FLAGS_NONE :: u16 where "MESSAGE_FLAGS_NONE = 0x0000"
definition MESSAGE_FLAGS_SENDING :: u16 where "MESSAGE_FLAGS_SENDING = 0x0001"
definition MESSAGE_FLAGS_RECEIVING :: u16 where "MESSAGE_FLAGS_RECEIVING = 0x0002"
definition MESSAGE_FLAGS_DELIVERING :: u16 where "MESSAGE_FLAGS_DELIVERING = 0x0080"
definition MESSAGE_SIZE :: nat where "MESSAGE_SIZE = 64"
definition KERNEL_VIRTUAL_BASE :: u32 where "KERNEL_VIRTUAL_BASE = 0xC0000000"
definition GDT_RING0_CODE :: u32 where "GDT_RING0_CODE = 0x08"
definition GDT_RING0_DATA :: u32 where "GDT_RING0_DATA = 0x10"

section \<open>State\<close>

record task =
  context_p :: addr
  page_dir :: u32
  stack_space :: addr
  stack_size :: u32
  timer_next :: "nat option"
  timer_expire :: u32
  priority :: int
  next_ready :: "nat option"
  ticks_left :: u16
  quantum :: u16
  message_buffer :: "u8 list"
  message_ptr :: addr
  message_flags :: u16
  message_send_to :: "nat option"
  message_rec_pid :: u32
  message_q_head :: "nat option"
  message_q_next :: "nat option"
  pid :: u32
  task_flags :: u16

record sched =
  kmem :: mem
  ptable :: "nat \<Rightarrow> task"
  idle_task :: "nat option"
  next_task :: "nat option"
  current_task :: "nat option"
  reschedule_needed :: bool
  pid_count :: u32
  nested_intr :: int
  queue_head :: "int \<Rightarrow> nat option"
  queue_tail :: "int \<Rightarrow> nat option"

text \<open>Assignment to a field of a task: \<open>tsk->field = ...\<close>.\<close>

definition upd_task :: "nat \<Rightarrow> (task \<Rightarrow> task) \<Rightarrow> 'a sched_scheme \<Rightarrow> 'a sched_scheme" where
  "upd_task t f s = s\<lparr>ptable := (ptable s)(t := f (ptable s t))\<rparr>"

text \<open>The fields of \<open>intr_stack_t\<close>, 19 32-bit words from gs to ss.\<close>

definition ctx_gs :: addr where "ctx_gs = 0"
definition ctx_fs :: addr where "ctx_fs = 4"
definition ctx_es :: addr where "ctx_es = 8"
definition ctx_ds :: addr where "ctx_ds = 12"
definition ctx_ebp :: addr where "ctx_ebp = 24"
definition ctx_edx :: addr where "ctx_edx = 36"
definition ctx_ecx :: addr where "ctx_ecx = 40"
definition ctx_eax :: addr where "ctx_eax = 44"
definition ctx_eip :: addr where "ctx_eip = 56"
definition ctx_cs :: addr where "ctx_cs = 60"
definition ctx_eflags :: addr where "ctx_eflags = 64"
definition ctx_ss :: addr where "ctx_ss = 72"
definition sizeof_intr_stack :: addr where "sizeof_intr_stack = 76"

section \<open>The ready queues\<close>

definition enqueue_task :: "nat \<Rightarrow> 'a sched_scheme \<Rightarrow> 'a sched_scheme" where
  "enqueue_task tsk s =
     (let prio = priority (ptable s tsk);
          s = upd_task tsk (\<lambda>t. t\<lparr>next_ready := None\<rparr>) s;
          s = (case queue_head s prio of
                 None \<Rightarrow> s\<lparr>queue_head := (queue_head s)(prio := Some tsk),
                          queue_tail := (queue_tail s)(prio := Some tsk)\<rparr>
               | Some _ \<Rightarrow>
                   (case queue_tail s prio of
                      None \<Rightarrow> s
                    | Some t \<Rightarrow> upd_task t (\<lambda>x. x\<lparr>next_ready := Some tsk\<rparr>) s)
                     \<lparr>queue_tail := (queue_tail s)(prio := Some tsk)\<rparr>)
      in s\<lparr>reschedule_needed := True\<rparr>)"

text \<open>
  The loop of \<open>dequeue_task\<close>. The C pointer \<open>cur\<close> points to the head of the queue while \<open>prev\<close> is
  NULL and to \<open>prev->next_ready\<close> afterwards: \<open>queue_cell\<close> reads that cell and \<open>set_queue_cell\<close>
  writes it.
\<close>

definition queue_cell :: "'a sched_scheme \<Rightarrow> int \<Rightarrow> nat option \<Rightarrow> nat option" where
  "queue_cell s prio prev =
     (case prev of None \<Rightarrow> queue_head s prio | Some p \<Rightarrow> next_ready (ptable s p))"

definition set_queue_cell :: "int \<Rightarrow> nat option \<Rightarrow> nat option \<Rightarrow> 'a sched_scheme \<Rightarrow> 'a sched_scheme" where
  "set_queue_cell prio prev v s =
     (case prev of None \<Rightarrow> s\<lparr>queue_head := (queue_head s)(prio := v)\<rparr>
      | Some p \<Rightarrow> upd_task p (\<lambda>t. t\<lparr>next_ready := v\<rparr>) s)"

definition unlink_task :: "nat \<Rightarrow> int \<Rightarrow> nat option \<Rightarrow> 'a sched_scheme \<Rightarrow> 'a sched_scheme" where
  "unlink_task tsk prio prev s =
     (let s = set_queue_cell prio prev (next_ready (ptable s tsk)) s;
          s = upd_task tsk (\<lambda>t. t\<lparr>next_ready := None\<rparr>) s;
          s = (if queue_tail s prio = Some tsk
               then s\<lparr>queue_tail := (queue_tail s)(prio := prev)\<rparr> else s)
      in if Some tsk = current_task s \<or> Some tsk = next_task s
         then s\<lparr>reschedule_needed := True\<rparr> else s)"

partial_function (option) dequeue_loop ::
  "nat \<Rightarrow> int \<Rightarrow> nat option \<Rightarrow> 'a sched_scheme \<Rightarrow> 'a sched_scheme option" where
  "dequeue_loop tsk prio prev s =
     (case queue_cell s prio prev of
        None \<Rightarrow> Some s
      | Some cur \<Rightarrow>
          if cur = tsk then Some (unlink_task tsk prio prev s)
          else dequeue_loop tsk prio (Some cur) s)"

definition dequeue_task :: "nat \<Rightarrow> 'a sched_scheme \<Rightarrow> 'a sched_scheme option" where
  "dequeue_task tsk s = dequeue_loop tsk (priority (ptable s tsk)) None s"

section \<open>Scheduling\<close>

definition scheduler :: "'a sched_scheme \<Rightarrow> 'a sched_scheme" where
  "scheduler s =
     (if reschedule_needed s then
        s\<lparr>reschedule_needed := False,
          next_task :=
            (case find (\<lambda>i. queue_head s i \<noteq> None) [0..LOWEST_TASK_PRIORITY] of
               None \<Rightarrow> idle_task s | Some i \<Rightarrow> queue_head s i)\<rparr>
      else s)"

definition preempt :: "'a sched_scheme \<Rightarrow> 'a sched_scheme option" where
  "preempt s =
     (case current_task s of None \<Rightarrow> None
      | Some t \<Rightarrow> map_option (enqueue_task t) (dequeue_task t s))"

definition block_task :: "nat \<Rightarrow> 'a sched_scheme \<Rightarrow> 'a sched_scheme option" where
  "block_task tsk s = dequeue_task tsk s"

definition unblock_task :: "nat \<Rightarrow> 'a sched_scheme \<Rightarrow> 'a sched_scheme" where
  "unblock_task tsk s = enqueue_task tsk s"

definition setPreemptible :: "nat \<Rightarrow> bool \<Rightarrow> 'a sched_scheme \<Rightarrow> 'a sched_scheme" where
  "setPreemptible tsk preemtible s =
     (if preemtible then upd_task tsk (\<lambda>t. t\<lparr>task_flags := task_flags t OR TASK_FLAGS_PREEMPTIBLE\<rparr>) s
      else upd_task tsk (\<lambda>t. t\<lparr>task_flags := task_flags t AND NOT TASK_FLAGS_PREEMPTIBLE\<rparr>) s)"

definition find_task :: "u32 \<Rightarrow> 'a sched_scheme \<Rightarrow> nat option" where
  "find_task p s =
     (if p = PID_ALL_TASKS \<or> p = PID_NO_TASK then None
      else find (\<lambda>i. pid (ptable s i) = p) [0..<TASK_COUNT])"

section \<open>Creation of tasks\<close>

text \<open>
  \<open>create_kernel_task\<close> takes its stack from the allocator of libk, here the argument \<open>alloc\<close>: it
  returns the pointer (NULL on failure) and the new state. The context is written to the top of
  the new stack.
\<close>

definition init_context :: "addr \<Rightarrow> addr \<Rightarrow> addr \<Rightarrow> mem \<Rightarrow> mem" where
  "init_context sp entry_point c m =
     (let m = fst (kmemset m c 0 sizeof_intr_stack);
          m = st32 m (c + ctx_cs) GDT_RING0_CODE;
          m = st32 m (c + ctx_ds) GDT_RING0_DATA;
          m = st32 m (c + ctx_es) GDT_RING0_DATA;
          m = st32 m (c + ctx_fs) GDT_RING0_DATA;
          m = st32 m (c + ctx_gs) GDT_RING0_DATA;
          m = st32 m (c + ctx_ss) GDT_RING0_DATA;
          m = st32 m (c + ctx_ebp) sp;
          m = st32 m (c + ctx_eip) entry_point
      in st32 m (c + ctx_eflags) 0x0202)"

definition create_kernel_task ::
  "(u32 \<Rightarrow> 'a sched_scheme \<Rightarrow> addr \<times> 'a sched_scheme) \<Rightarrow> addr \<Rightarrow> u32 \<Rightarrow> int \<Rightarrow> 'a sched_scheme
   \<Rightarrow> nat option \<times> 'a sched_scheme" where
  "create_kernel_task alloc entry_point stksize prio s =
     (if prio < 0 \<or> prio > LOWEST_TASK_PRIORITY then (None, s)
      else case find (\<lambda>i. pid (ptable s i) = PID_NO_TASK) [0..<TASK_COUNT] of
        None \<Rightarrow> (None, s)
      | Some tsk \<Rightarrow>
          (case alloc stksize s of (stack, s) \<Rightarrow>
             if stack = NULL then (None, s)
             else let sp = stack + stksize;
                      c = sp - sizeof_intr_stack
                  in (Some tsk,
                      (upd_task tsk
                        (\<lambda>t. t\<lparr>pid := pid_count s, stack_space := stack, stack_size := stksize,
                               priority := prio, task_flags := TASK_FLAGS_PREEMPTIBLE,
                               quantum := TASK_DEFAULT_QUANTUM, ticks_left := TASK_DEFAULT_QUANTUM,
                               next_ready := None, context_p := c, timer_next := None,
                               message_buffer := replicate MESSAGE_SIZE 0, message_ptr := NULL,
                               message_flags := MESSAGE_FLAGS_NONE, message_send_to := None,
                               message_rec_pid := PID_NO_TASK, message_q_head := None,
                               message_q_next := None\<rparr>) s)
                       \<lparr>pid_count := pid_count s + 1, kmem := init_context sp entry_point c (kmem s)\<rparr>)))"

text \<open>
  \<open>multitasking_init\<close> resets every slot of the table (the \<open>flags\<close> field is not touched) and creates
  the idle task at the lowest priority. The kernel dereferences the result of the creation without
  a check: \<open>None\<close> is that NULL dereference. \<open>idle\<close> and \<open>boot_page_directory\<close> are the addresses of
  the idle function and of the boot page directory.
\<close>

definition reset_task :: "u32 \<Rightarrow> task \<Rightarrow> task" where
  "reset_task boot_page_directory t =
     t\<lparr>pid := PID_NO_TASK, context_p := NULL, stack_space := NULL, stack_size := 0,
       page_dir := boot_page_directory - KERNEL_VIRTUAL_BASE, timer_next := None,
       priority := LOWEST_TASK_PRIORITY, next_ready := None, quantum := 0, ticks_left := 0,
       message_buffer := replicate MESSAGE_SIZE 0, message_ptr := NULL,
       message_flags := MESSAGE_FLAGS_NONE, message_send_to := None, message_rec_pid := PID_NO_TASK,
       message_q_head := None, message_q_next := None\<rparr>"

definition multitasking_init ::
  "(u32 \<Rightarrow> 'a sched_scheme \<Rightarrow> addr \<times> 'a sched_scheme) \<Rightarrow> addr \<Rightarrow> u32 \<Rightarrow> 'a sched_scheme
   \<Rightarrow> 'a sched_scheme option" where
  "multitasking_init alloc idle boot_page_directory s =
     (let s = s\<lparr>ptable := (\<lambda>i. if i < TASK_COUNT then reset_task boot_page_directory (ptable s i)
                              else ptable s i),
               next_task := None, current_task := None, nested_intr := 0, pid_count := 0,
               queue_head := (\<lambda>i. if 0 \<le> i \<and> i \<le> LOWEST_TASK_PRIORITY then None else queue_head s i),
               queue_tail := (\<lambda>i. if 0 \<le> i \<and> i \<le> LOWEST_TASK_PRIORITY then None else queue_tail s i)\<rparr>
      in case create_kernel_task alloc idle 128 LOWEST_TASK_PRIORITY s of
           (None, s) \<Rightarrow> None
         | (Some t, s) \<Rightarrow>
             Some ((upd_task t (\<lambda>x. x\<lparr>task_flags := task_flags x AND NOT TASK_FLAGS_PREEMPTIBLE\<rparr>) s)
               \<lparr>idle_task := Some t, reschedule_needed := True\<rparr>))"

section \<open>Abstraction of the ready queues\<close>

text \<open>
  \<open>ready s p\<close> reads the ready queue of priority \<open>p\<close> off the table; \<open>rq_rep s Q\<close> says that the links,
  heads and tails of the table represent the lists \<open>Q\<close>, each task in the queue of its priority.
\<close>

abbreviation next_of :: "'a sched_scheme \<Rightarrow> nat \<Rightarrow> nat option" where
  "next_of s \<equiv> \<lambda>i. next_ready (ptable s i)"

definition valid_prio :: "int \<Rightarrow> bool" where
  "valid_prio p \<longleftrightarrow> 0 \<le> p \<and> p \<le> LOWEST_TASK_PRIORITY"

definition valid_task :: "'a sched_scheme \<Rightarrow> nat \<Rightarrow> bool" where
  "valid_task s t \<longleftrightarrow> t < TASK_COUNT \<and> valid_prio (priority (ptable s t))"

definition ready :: "'a sched_scheme \<Rightarrow> int \<Rightarrow> nat list" where
  "ready s p = (if valid_prio p then walk (next_of s) (queue_head s p) TASK_COUNT else [])"

definition rq_rep :: "'a sched_scheme \<Rightarrow> (int \<Rightarrow> nat list) \<Rightarrow> bool" where
  "rq_rep s Q \<longleftrightarrow>
     (\<forall>p. if valid_prio p
          then chain (next_of s) (queue_head s p) (Q p)
             \<and> queue_tail s p = (if Q p = [] then None else Some (last (Q p)))
             \<and> (\<forall>t \<in> set (Q p). t < TASK_COUNT \<and> priority (ptable s t) = p)
          else Q p = [])"

definition rq_inv :: "'a sched_scheme \<Rightarrow> bool" where
  "rq_inv s \<longleftrightarrow> rq_rep s (ready s)"

lemma rq_repD:
  assumes "rq_rep s Q" "valid_prio p"
  shows "chain (next_of s) (queue_head s p) (Q p)"
    "queue_tail s p = (if Q p = [] then None else Some (last (Q p)))"
    "t \<in> set (Q p) \<Longrightarrow> t < TASK_COUNT" "t \<in> set (Q p) \<Longrightarrow> priority (ptable s t) = p"
  using assms unfolding rq_rep_def by (metis (full_types))+

lemma rq_rep_Nil: "rq_rep s Q \<Longrightarrow> \<not> valid_prio p \<Longrightarrow> Q p = []"
  unfolding rq_rep_def by (drule spec [of _ p]) simp

lemma rq_repI:
  assumes "\<And>p. valid_prio p \<Longrightarrow> chain (next_of s) (queue_head s p) (Q p)"
    and "\<And>p. valid_prio p \<Longrightarrow> queue_tail s p = (if Q p = [] then None else Some (last (Q p)))"
    and "\<And>p t. valid_prio p \<Longrightarrow> t \<in> set (Q p) \<Longrightarrow> t < TASK_COUNT"
    and "\<And>p t. valid_prio p \<Longrightarrow> t \<in> set (Q p) \<Longrightarrow> priority (ptable s t) = p"
    and "\<And>p. \<not> valid_prio p \<Longrightarrow> Q p = []"
  shows "rq_rep s Q"
  unfolding rq_rep_def
proof
  fix p
  show "if valid_prio p
        then chain (next_of s) (queue_head s p) (Q p)
           \<and> queue_tail s p = (if Q p = [] then None else Some (last (Q p)))
           \<and> (\<forall>t \<in> set (Q p). t < TASK_COUNT \<and> priority (ptable s t) = p)
        else Q p = []"
  proof (cases "valid_prio p")
    case True
    have "\<forall>t \<in> set (Q p). t < TASK_COUNT \<and> priority (ptable s t) = p"
      using assms(3,4) [OF True] by blast
    with assms(1,2) [OF True] True show ?thesis by simp
  next
    case False
    with assms(5) [OF False] show ?thesis by simp
  qed
qed

lemma rq_rep_ready: "rq_rep s Q \<Longrightarrow> ready s = Q"
proof
  fix p assume r: "rq_rep s Q"
  show "ready s p = Q p"
  proof (cases "valid_prio p")
    case True
    have "set (Q p) \<subseteq> {..<TASK_COUNT}" using rq_repD(3) [OF r True] by auto
    with rq_repD(1) [OF r True] True show ?thesis
      by (simp add: ready_def walk_chain chain_length_bound)
  next
    case False
    with r show ?thesis by (auto simp: rq_rep_def ready_def)
  qed
qed

lemma rq_rep_inv: "rq_rep s Q \<Longrightarrow> rq_inv s"
  by (simp add: rq_inv_def rq_rep_ready)

lemma rq_rep_other_queue:
  assumes "rq_rep s Q" "t \<in> set (Q p)"
  shows "valid_prio p \<and> priority (ptable s t) = p \<and> t < TASK_COUNT"
proof -
  have v: "valid_prio p"
  proof (rule ccontr)
    assume "\<not> valid_prio p"
    with assms(1) have "Q p = []" by (rule rq_rep_Nil)
    with assms(2) show False by simp
  qed
  with rq_repD(3,4) [OF assms(1) v assms(2)] show ?thesis by simp
qed

lemma ptable_upd_task [simp]: "ptable (upd_task t f s) = (ptable s)(t := f (ptable s t))"
  and upd_task_fields [simp]:
    "kmem (upd_task t f s) = kmem s" "idle_task (upd_task t f s) = idle_task s"
    "next_task (upd_task t f s) = next_task s" "current_task (upd_task t f s) = current_task s"
    "reschedule_needed (upd_task t f s) = reschedule_needed s" "pid_count (upd_task t f s) = pid_count s"
    "nested_intr (upd_task t f s) = nested_intr s" "queue_head (upd_task t f s) = queue_head s"
    "queue_tail (upd_task t f s) = queue_tail s" "more (upd_task t f s) = more s"
  by (simp_all add: upd_task_def)

text \<open>Two states with the same links, heads, tails and priorities represent the same queues.\<close>

lemma rq_rep_cong:
  assumes "\<And>t. next_ready (ptable s' t) = next_ready (ptable s t)"
    and "\<And>t. priority (ptable s' t) = priority (ptable s t)"
    and "queue_head s' = queue_head s" "queue_tail s' = queue_tail s"
  shows "rq_rep s' Q = rq_rep s Q"
  using assms by (simp add: rq_rep_def)

lemma ready_cong:
  assumes "\<And>t. next_ready (ptable s' t) = next_ready (ptable s t)"
    and "queue_head s' = queue_head s"
  shows "ready s' = ready s"
  using assms by (simp add: ready_def fun_eq_iff)

lemma next_of_upd_task:
  "next_of (upd_task t f s) = (next_of s)(t := next_ready (f (ptable s t)))"
  by auto

section \<open>Enqueueing appends to the queue of the task's priority\<close>

lemma enqueue_task_rep:
  assumes r: "rq_rep s Q" and v: "valid_task s t" and "t \<notin> set (Q (priority (ptable s t)))"
  shows "rq_rep (enqueue_task t s) (Q(priority (ptable s t) := Q (priority (ptable s t)) @ [t]))"
proof -
  let ?p = "priority (ptable s t)" and ?s' = "enqueue_task t s"
  have vp: "valid_prio ?p" and tc: "t < TASK_COUNT" using v by (auto simp: valid_task_def)
  note q = rq_repD [OF r vp]
  have nin: "t \<notin> set (Q p)" for p using assms(3) rq_rep_other_queue [OF r] by metis
  have prio: "priority (ptable ?s' x) = priority (ptable s x)" for x
    by (simp add: enqueue_task_def Let_def split: option.split)
  have main: "chain (next_of ?s') (queue_head ?s' ?p) (Q ?p @ [t]) \<and> queue_tail ?s' ?p = Some t"
  proof (cases "queue_head s ?p")
    case None
    with q(1) have "Q ?p = []" by simp
    with None show ?thesis by (simp add: enqueue_task_def Let_def)
  next
    case (Some h)
    with q(1) have ne: "Q ?p \<noteq> []" by (cases "Q ?p") auto
    with q(2) have tail: "queue_tail s ?p = Some (last (Q ?p))" by simp
    have "last (Q ?p) \<noteq> t" using ne nin [of ?p] by (metis last_in_set)
    then have nx: "next_of ?s' = (next_of s)(t := None, last (Q ?p) := Some t)"
      using Some tail by (auto simp: enqueue_task_def Let_def)
    have "queue_head ?s' = queue_head s" "queue_tail ?s' ?p = Some t"
      using Some tail by (simp_all add: enqueue_task_def Let_def)
    with nx chain_append1 [OF q(1) ne nin] show ?thesis by simp
  qed
  have other: "chain (next_of ?s') (queue_head ?s' p) (Q p) \<and> queue_tail ?s' p = queue_tail s p"
    if "valid_prio p" "p \<noteq> ?p" for p
  proof -
    have l: "last (Q ?p) \<notin> set (Q p)" if "Q ?p \<noteq> []"
      using that \<open>p \<noteq> ?p\<close> rq_rep_other_queue [OF r] by (metis last_in_set)
    have "next_of ?s' x = next_of s x" if "x \<in> set (Q p)" for x
      using that nin [of p] l q(1,2) \<open>p \<noteq> ?p\<close>
      by (cases "queue_head s ?p"; cases "Q ?p = []") (auto simp: enqueue_task_def Let_def)
    then have "chain (next_of ?s') (queue_head s p) (Q p)"
      using rq_repD(1) [OF r \<open>valid_prio p\<close>] path_cong [of "Q p" "next_of ?s'" "next_of s"] by blast
    moreover have "queue_head ?s' p = queue_head s p" "queue_tail ?s' p = queue_tail s p"
      using \<open>p \<noteq> ?p\<close> by (auto simp: enqueue_task_def Let_def split: option.split)
    ultimately show ?thesis by simp
  qed
  show ?thesis
  proof (rule rq_repI)
    fix p assume p: "valid_prio p"
    let ?Q' = "Q(?p := Q ?p @ [t])"
    show "chain (next_of ?s') (queue_head ?s' p) (?Q' p)"
      using main other [OF p] by (cases "p = ?p") auto
    show "queue_tail ?s' p = (if ?Q' p = [] then None else Some (last (?Q' p)))"
      using main other [OF p] rq_repD(2) [OF r p] by (cases "p = ?p") auto
    show "x < TASK_COUNT" "priority (ptable ?s' x) = p" if "x \<in> set (?Q' p)" for x
      using that tc rq_repD(3,4) [OF r p] by (auto simp: prio split: if_splits)
  next
    fix p assume np: "\<not> valid_prio p"
    with vp have "p \<noteq> ?p" by blast
    with rq_rep_Nil [OF r np] show "(Q(?p := Q ?p @ [t])) p = []" by simp
  qed
qed

lemma enqueue_task_frame [simp]:
  "kmem (enqueue_task t s) = kmem s" "idle_task (enqueue_task t s) = idle_task s"
  "next_task (enqueue_task t s) = next_task s" "current_task (enqueue_task t s) = current_task s"
  "reschedule_needed (enqueue_task t s)" "pid_count (enqueue_task t s) = pid_count s"
  "nested_intr (enqueue_task t s) = nested_intr s" "more (enqueue_task t s) = more s"
  by (simp_all add: enqueue_task_def Let_def split: option.split)

text \<open>Queue operations write no field of a task but \<open>next_ready\<close>.\<close>

definition same_but_links :: "'a sched_scheme \<Rightarrow> 'a sched_scheme \<Rightarrow> bool" where
  "same_but_links s s' \<longleftrightarrow>
     (\<forall>t. (ptable s' t)\<lparr>next_ready := None\<rparr> = (ptable s t)\<lparr>next_ready := None\<rparr>)
     \<and> kmem s' = kmem s \<and> idle_task s' = idle_task s \<and> next_task s' = next_task s
     \<and> current_task s' = current_task s \<and> pid_count s' = pid_count s
     \<and> nested_intr s' = nested_intr s \<and> more s' = more s
     \<and> (reschedule_needed s \<longrightarrow> reschedule_needed s')"

lemma same_but_links_refl [simp]: "same_but_links s s"
  by (simp add: same_but_links_def)

lemma same_but_links_trans:
  "same_but_links s s' \<Longrightarrow> same_but_links s' s'' \<Longrightarrow> same_but_links s s''"
  by (simp add: same_but_links_def)

lemma same_but_links_fields:
  assumes "same_but_links s s'"
  shows
    "priority (ptable s' t) = priority (ptable s t)"
    "pid (ptable s' t) = pid (ptable s t)"
    "message_flags (ptable s' t) = message_flags (ptable s t)"
    "message_rec_pid (ptable s' t) = message_rec_pid (ptable s t)"
    "message_send_to (ptable s' t) = message_send_to (ptable s t)"
    "message_q_head (ptable s' t) = message_q_head (ptable s t)"
    "message_q_next (ptable s' t) = message_q_next (ptable s t)"
    "message_buffer (ptable s' t) = message_buffer (ptable s t)"
    "message_ptr (ptable s' t) = message_ptr (ptable s t)"
    "timer_next (ptable s' t) = timer_next (ptable s t)"
    "timer_expire (ptable s' t) = timer_expire (ptable s t)"
    "task_flags (ptable s' t) = task_flags (ptable s t)"
    "context_p (ptable s' t) = context_p (ptable s t)"
    "quantum (ptable s' t) = quantum (ptable s t)"
    "ticks_left (ptable s' t) = ticks_left (ptable s t)"
    "kmem s' = kmem s" "idle_task s' = idle_task s" "next_task s' = next_task s"
    "current_task s' = current_task s" "pid_count s' = pid_count s"
    "nested_intr s' = nested_intr s" "more s' = more s"
    "reschedule_needed s \<Longrightarrow> reschedule_needed s'"
proof -
  from assms have "(ptable s' t)\<lparr>next_ready := None\<rparr> = (ptable s t)\<lparr>next_ready := None\<rparr>"
    by (simp add: same_but_links_def)
  then show
    "priority (ptable s' t) = priority (ptable s t)"
    "pid (ptable s' t) = pid (ptable s t)"
    "message_flags (ptable s' t) = message_flags (ptable s t)"
    "message_rec_pid (ptable s' t) = message_rec_pid (ptable s t)"
    "message_send_to (ptable s' t) = message_send_to (ptable s t)"
    "message_q_head (ptable s' t) = message_q_head (ptable s t)"
    "message_q_next (ptable s' t) = message_q_next (ptable s t)"
    "message_buffer (ptable s' t) = message_buffer (ptable s t)"
    "message_ptr (ptable s' t) = message_ptr (ptable s t)"
    "timer_next (ptable s' t) = timer_next (ptable s t)"
    "timer_expire (ptable s' t) = timer_expire (ptable s t)"
    "task_flags (ptable s' t) = task_flags (ptable s t)"
    "context_p (ptable s' t) = context_p (ptable s t)"
    "quantum (ptable s' t) = quantum (ptable s t)"
    "ticks_left (ptable s' t) = ticks_left (ptable s t)"
    by (cases "ptable s' t"; cases "ptable s t"; simp)+
qed (use assms in \<open>auto simp: same_but_links_def\<close>)

lemma same_but_links_upd: "same_but_links s (upd_task t (\<lambda>x. x\<lparr>next_ready := n\<rparr>) s)"
  by (simp add: same_but_links_def)

lemma same_but_links_queues:
  "same_but_links s (s\<lparr>queue_head := h\<rparr>)" "same_but_links s (s\<lparr>queue_tail := h\<rparr>)"
  "same_but_links s (s\<lparr>reschedule_needed := True\<rparr>)"
  by (simp_all add: same_but_links_def)

lemma enqueue_task_links: "same_but_links s (enqueue_task t s)"
  by (auto simp: same_but_links_def enqueue_task_def Let_def split: option.split)

section \<open>Dequeueing removes the task from its queue\<close>

abbreviation prev_of :: "nat list \<Rightarrow> nat option" where
  "prev_of us \<equiv> (if us = [] then None else Some (last us))"

lemma queue_cell_rep:
  assumes "rq_rep s Q" "valid_prio p" "Q p = us @ vs"
  shows "queue_cell s p (prev_of us) = (case vs of [] \<Rightarrow> None | v # _ \<Rightarrow> Some v)"
proof -
  from rq_repD(1) [OF assms(1,2)] assms(3) obtain r where
    r: "path (next_of s) (queue_head s p) us r" "chain (next_of s) r vs" by auto
  have "queue_cell s p (prev_of us) = r"
    using r(1) path_snoc_last [OF r(1)] by (auto simp: queue_cell_def)
  with r(2) show ?thesis by (cases vs) auto
qed

lemma dequeue_loop_rep:
  assumes r: "rq_rep s Q" and vp: "valid_prio p"
  shows "\<lbrakk>Q p = us @ vs; t \<notin> set us\<rbrakk> \<Longrightarrow> dequeue_loop t p (prev_of us) s =
     (if t \<in> set vs then Some (unlink_task t p (prev_of (takeWhile (\<lambda>x. x \<noteq> t) (Q p))) s) else Some s)"
proof (induction vs arbitrary: us)
  case Nil
  then show ?case by (subst dequeue_loop.simps) (simp add: queue_cell_rep [OF r vp, of us "[]"])
next
  case (Cons v vs)
  have cell: "queue_cell s p (prev_of us) = Some v"
    using queue_cell_rep [OF r vp Cons.prems(1)] by simp
  show ?case
  proof (cases "v = t")
    case True
    have "takeWhile (\<lambda>x. x \<noteq> t) (Q p) = us"
      using Cons.prems True by (auto simp: takeWhile_append)
    with True cell show ?thesis by (subst dequeue_loop.simps) simp
  next
    case False
    have "dequeue_loop t p (prev_of us) s = dequeue_loop t p (prev_of (us @ [v])) s"
      using cell False by (subst dequeue_loop.simps) simp
    also have "\<dots> = (if t \<in> set vs then Some (unlink_task t p (prev_of (takeWhile (\<lambda>x. x \<noteq> t) (Q p))) s) else Some s)"
      using Cons.prems False by (intro Cons.IH) auto
    finally show ?thesis using False by auto
  qed
qed

lemma unlink_task_rep:
  assumes r: "rq_rep s Q" and vp: "valid_prio p" and Qp: "Q p = us @ t # vs"
  shows "rq_rep (unlink_task t p (prev_of us) s) (Q(p := us @ vs))"
    and "same_but_links s (unlink_task t p (prev_of us) s)"
proof -
  let ?s' = "unlink_task t p (prev_of us) s"
  note q = rq_repD [OF r vp]
  have dist: "distinct (us @ t # vs)" using q(1) Qp by (metis chain_distinct)
  have mem: "x \<in> set (us @ t # vs) \<Longrightarrow> x \<notin> set (Q p')" if "p' \<noteq> p" for x p'
    using that Qp rq_rep_other_queue [OF r] by metis
  show link: "same_but_links s ?s'"
    by (auto simp: same_but_links_def unlink_task_def set_queue_cell_def Let_def)
  have nx: "next_of ?s' = (if us = [] then (next_of s)(t := None)
      else (next_of s)(last us := next_of s t, t := None))"
    using dist by (auto simp: unlink_task_def set_queue_cell_def Let_def fun_eq_iff)
  have hd: "queue_head ?s' = (if us = [] then (queue_head s)(p := next_of s t) else queue_head s)"
    by (simp add: unlink_task_def set_queue_cell_def Let_def)
  have tl: "queue_tail ?s' = (if vs = [] then (queue_tail s)(p := prev_of us) else queue_tail s)"
  proof -
    have "last (us @ t # vs) = t \<longleftrightarrow> vs = []" using dist by (auto dest: last_in_set split: if_splits)
    then have "queue_tail s p = Some t \<longleftrightarrow> vs = []" using q(2) Qp by simp
    then show ?thesis by (simp add: unlink_task_def set_queue_cell_def Let_def)
  qed
  have main: "chain (next_of ?s') (queue_head ?s' p) (us @ vs)"
  proof (cases "us = []")
    case True
    with q(1) Qp chain_delete_head [of "next_of s" "queue_head s p" t vs] show ?thesis
      unfolding nx hd by simp
  next
    case False
    with q(1) Qp chain_delete_inner [of "next_of s" "queue_head s p" us t vs] show ?thesis
      unfolding nx hd by simp
  qed
  have other: "chain (next_of ?s') (queue_head ?s' p') (Q p')" if p': "valid_prio p'" "p' \<noteq> p" for p'
  proof -
    have "next_of ?s' x = next_of s x" if x: "x \<in> set (Q p')" for x
    proof -
      have "x \<noteq> t" using mem [OF p'(2), of t] x by auto
      moreover have "us \<noteq> [] \<Longrightarrow> x \<noteq> last us" using mem [OF p'(2), of "last us"] x by auto
      ultimately show ?thesis using fun_cong [OF nx, of x] by auto
    qed
    then have "chain (next_of ?s') (queue_head s p') (Q p')"
      using rq_repD(1) [OF r p'(1)] path_cong [of "Q p'" "next_of ?s'" "next_of s"] by blast
    moreover have "queue_head ?s' p' = queue_head s p'" using fun_cong [OF hd, of p'] p'(2) by simp
    ultimately show ?thesis by (simp only:)
  qed
  show "rq_rep ?s' (Q(p := us @ vs))"
  proof (rule rq_repI)
    fix p' assume p': "valid_prio p'"
    show "chain (next_of ?s') (queue_head ?s' p') ((Q(p := us @ vs)) p')"
      using main other [OF p'] by (cases "p' = p") auto
    show "queue_tail ?s' p' = (if (Q(p := us @ vs)) p' = [] then None else Some (last ((Q(p := us @ vs)) p')))"
      using rq_repD(2) [OF r p'] Qp unfolding tl by (cases "p' = p") auto
    show "x < TASK_COUNT" "priority (ptable ?s' x) = p'" if "x \<in> set ((Q(p := us @ vs)) p')" for x
      using that Qp rq_repD(3,4) [OF r p'] same_but_links_fields(1) [OF link] by (auto split: if_splits)
  next
    fix p' assume np: "\<not> valid_prio p'"
    with vp have "p' \<noteq> p" by blast
    with rq_rep_Nil [OF r np] show "(Q(p := us @ vs)) p' = []" by simp
  qed
qed

lemma dequeue_task_rep:
  assumes r: "rq_rep s Q" and v: "valid_prio (priority (ptable s t))"
  shows "\<exists>s'. dequeue_task t s = Some s' \<and> same_but_links s s'
     \<and> rq_rep s' (Q(priority (ptable s t) := remove1 t (Q (priority (ptable s t)))))"
proof -
  let ?p = "priority (ptable s t)"
  have eq: "dequeue_task t s = (if t \<in> set (Q ?p)
      then Some (unlink_task t ?p (prev_of (takeWhile (\<lambda>x. x \<noteq> t) (Q ?p))) s) else Some s)"
    using dequeue_loop_rep [OF r v, of "[]" "Q ?p" t] by (simp add: dequeue_task_def)
  show ?thesis
  proof (cases "t \<in> set (Q ?p)")
    case True
    then obtain us vs where Qp: "Q ?p = us @ t # vs" "t \<notin> set us" by (meson split_list_first)
    then have "takeWhile (\<lambda>x. x \<noteq> t) (Q ?p) = us" by (auto simp: takeWhile_append)
    moreover have "remove1 t (Q ?p) = us @ vs" using Qp by (simp add: remove1_split)
    ultimately show ?thesis using eq True unlink_task_rep [OF r v Qp(1)] by auto
  next
    case False
    then have "Q(?p := remove1 t (Q ?p)) = Q" by (simp add: remove1_idem)
    with False eq r show ?thesis by auto
  qed
qed

lemma dequeue_task_reschedules:
  assumes r: "rq_rep s Q" and v: "valid_prio (priority (ptable s t))"
    and "t \<in> set (Q (priority (ptable s t)))" "current_task s = Some t \<or> next_task s = Some t"
    and "dequeue_task t s = Some s'"
  shows "reschedule_needed s'"
proof -
  have "s' = unlink_task t (priority (ptable s t))
      (prev_of (takeWhile (\<lambda>x. x \<noteq> t) (Q (priority (ptable s t))))) s"
    using assms dequeue_loop_rep [OF r v, of "[]" "Q (priority (ptable s t))" t]
    by (simp add: dequeue_task_def)
  with assms(4) show ?thesis by (auto simp: unlink_task_def set_queue_cell_def Let_def split: option.split)
qed


section \<open>The scheduler's choice\<close>

text \<open>\<open>pick s\<close> is the specification: the head of the first non-empty queue, or the idle task.\<close>

definition first_ready :: "(int \<Rightarrow> nat list) \<Rightarrow> nat option \<Rightarrow> nat option" where
  "first_ready Q idle = (case find (\<lambda>p. Q p \<noteq> []) [0..LOWEST_TASK_PRIORITY] of
     None \<Rightarrow> idle | Some p \<Rightarrow> Some (hd (Q p)))"

definition pick :: "'a sched_scheme \<Rightarrow> nat option" where
  "pick s = first_ready (ready s) (idle_task s)"

definition sched_coherent :: "'a sched_scheme \<Rightarrow> bool" where
  "sched_coherent s \<longleftrightarrow> (\<not> reschedule_needed s \<longrightarrow> next_task s = pick s)"

lemma find_cong_on: "(\<And>x. x \<in> set xs \<Longrightarrow> P x = P' x) \<Longrightarrow> find P xs = find P' xs"
  by (induction xs) auto

lemma ready_head:
  assumes r: "rq_rep s Q" and v: "valid_prio p"
  shows "queue_head s p = (if Q p = [] then None else Some (hd (Q p)))"
  using rq_repD(1) [OF r v] by (cases "Q p") auto

lemma pick_rep:
  assumes "rq_rep s Q"
  shows "pick s = first_ready Q (idle_task s)"
  using assms by (simp add: pick_def rq_rep_ready)

lemma scheduler_pick:
  assumes r: "rq_rep s Q" and c: "sched_coherent s"
  shows "next_task (scheduler s) = pick s"
proof (cases "reschedule_needed s")
  case True
  have "find (\<lambda>i. queue_head s i \<noteq> None) [0..LOWEST_TASK_PRIORITY]
      = find (\<lambda>p. Q p \<noteq> []) [0..LOWEST_TASK_PRIORITY]"
    by (rule find_cong_on) (auto simp: ready_head [OF r] valid_prio_def)
  moreover have "queue_head s p = Some (hd (Q p))"
    if "find (\<lambda>p. Q p \<noteq> []) [0..LOWEST_TASK_PRIORITY] = Some p" for p
    using that by (auto simp: find_Some_iff ready_head [OF r] valid_prio_def)
  ultimately show ?thesis using True by (auto simp: scheduler_def pick_rep [OF r] first_ready_def split: option.split)
next
  case False
  with c show ?thesis by (simp add: scheduler_def sched_coherent_def)
qed

lemma scheduler_frame [simp]:
  "kmem (scheduler s) = kmem s" "ptable (scheduler s) = ptable s" "idle_task (scheduler s) = idle_task s"
  "current_task (scheduler s) = current_task s" "pid_count (scheduler s) = pid_count s"
  "nested_intr (scheduler s) = nested_intr s" "queue_head (scheduler s) = queue_head s"
  "queue_tail (scheduler s) = queue_tail s" "more (scheduler s) = more s"
  "\<not> reschedule_needed (scheduler s)"
  by (simp_all add: scheduler_def)

lemma ready_scheduler [simp]: "ready (scheduler s) = ready s"
  by (rule ready_cong) simp_all

lemma pick_cong: "ready s' = ready s \<Longrightarrow> idle_task s' = idle_task s \<Longrightarrow> pick s' = pick s"
  by (simp add: pick_def)

lemma scheduler_coherent: "rq_rep s Q \<Longrightarrow> sched_coherent s \<Longrightarrow> sched_coherent (scheduler s)"
  using scheduler_pick [of s Q] pick_cong [of "scheduler s" s] by (simp add: sched_coherent_def)

lemma enqueue_task_coherent: "sched_coherent (enqueue_task t s)"
  by (simp add: sched_coherent_def)

text \<open>
  Removing a task that is neither running nor chosen cannot change the choice: this is why
  \<open>dequeue_task\<close> asks for a new decision only for those two.
\<close>

lemma first_ready_remove1:
  assumes "first_ready Q d \<noteq> Some t \<or> (\<forall>p. Q p = [])"
  shows "first_ready (Q(k := remove1 t (Q k))) d = first_ready Q d"
proof -
  have "(case find (\<lambda>p. (Q(k := remove1 t (Q k))) p \<noteq> []) xs of None \<Rightarrow> d | Some p \<Rightarrow> Some (hd ((Q(k := remove1 t (Q k))) p)))
       = (case find (\<lambda>p. Q p \<noteq> []) xs of None \<Rightarrow> d | Some p \<Rightarrow> Some (hd (Q p)))"
    if "find (\<lambda>p. Q p \<noteq> []) xs = None \<or> (\<exists>p. find (\<lambda>p. Q p \<noteq> []) xs = Some p \<and> hd (Q p) \<noteq> t)" for xs
    using that
  proof (induction xs)
    case (Cons x xs)
    show ?case
    proof (cases "Q x = []")
      case True
      then have "(Q(k := remove1 t (Q k))) x = []" by (cases "x = k") auto
      with True Cons show ?thesis by simp
    next
      case False
      with Cons.prems have "hd (Q x) \<noteq> t" by simp
      with False have "(Q(k := remove1 t (Q k))) x \<noteq> []" "hd ((Q(k := remove1 t (Q k))) x) = hd (Q x)"
        by (cases "Q x"; auto)+
      with False show ?thesis by simp
    qed
  qed simp
  moreover have "find (\<lambda>p. Q p \<noteq> []) [0..LOWEST_TASK_PRIORITY] = None \<or>
      (\<exists>p. find (\<lambda>p. Q p \<noteq> []) [0..LOWEST_TASK_PRIORITY] = Some p \<and> hd (Q p) \<noteq> t)"
  proof (cases "find (\<lambda>p. Q p \<noteq> []) [0..LOWEST_TASK_PRIORITY]")
    case (Some p)
    then have "Q p \<noteq> []" by (auto simp: find_Some_iff)
    with assms Some show ?thesis by (auto simp: first_ready_def)
  qed simp
  ultimately show ?thesis unfolding first_ready_def by blast
qed

lemma dequeue_task_coherent:
  assumes r: "rq_rep s Q" and v: "valid_prio (priority (ptable s t))" and c: "sched_coherent s"
    and d: "dequeue_task t s = Some s'"
  shows "sched_coherent s'"
proof -
  let ?k = "priority (ptable s t)"
  from dequeue_task_rep [OF r v] d have link: "same_but_links s s'"
    and r': "rq_rep s' (Q(?k := remove1 t (Q ?k)))" by auto
  show ?thesis
  proof (cases "t \<in> set (Q ?k) \<and> (current_task s = Some t \<or> next_task s = Some t)")
    case True
    with dequeue_task_reschedules [OF r v _ _ d] show ?thesis by (simp add: sched_coherent_def)
  next
    case False
    have "pick s' = pick s" if n: "\<not> reschedule_needed s"
    proof (cases "t \<in> set (Q ?k)")
      case True
      with False c n have "pick s \<noteq> Some t" by (auto simp: sched_coherent_def)
      then show ?thesis
        using first_ready_remove1 [of Q "idle_task s" t ?k] same_but_links_fields(17) [OF link]
        by (simp add: pick_rep [OF r] pick_rep [OF r'])
    next
      case False
      then have "Q(?k := remove1 t (Q ?k)) = Q" by (simp add: remove1_idem)
      with same_but_links_fields(17) [OF link] show ?thesis by (simp add: pick_rep [OF r] pick_rep [OF r'])
    qed
    moreover have "reschedule_needed s \<Longrightarrow> reschedule_needed s'"
      using same_but_links_fields [OF link] by blast
    ultimately show ?thesis
      using c same_but_links_fields(18) [OF link] unfolding sched_coherent_def by (cases "reschedule_needed s") auto
  qed
qed

section \<open>The contract of the ready queues\<close>

text \<open>
  What the clients of the queues (preemption, the timer, message passing) rely on: \<open>enq\<close> appends
  to the queue of the element's key, \<open>deq\<close> returns and removes the element, neither changes a key.
\<close>

locale fifo_queues =
  fixes rep :: "'s \<Rightarrow> ('k \<Rightarrow> 'e list) \<Rightarrow> bool"
    and key :: "'s \<Rightarrow> 'e \<Rightarrow> 'k"
    and ok :: "'s \<Rightarrow> 'e \<Rightarrow> bool"
    and enq :: "'e \<Rightarrow> 's \<Rightarrow> 's"
    and deq :: "'e \<Rightarrow> 's \<Rightarrow> 's option"
  assumes rep_distinct: "rep s Q \<Longrightarrow> distinct (Q k)"
    and enq_appends: "\<lbrakk>rep s Q; ok s t; t \<notin> set (Q (key s t))\<rbrakk>
          \<Longrightarrow> rep (enq t s) (Q(key s t := Q (key s t) @ [t]))"
    and deq_removes: "\<lbrakk>rep s Q; ok s t\<rbrakk>
          \<Longrightarrow> \<exists>s'. deq t s = Some s' \<and> rep s' (Q(key s t := remove1 t (Q (key s t))))"
    and enq_keeps: "key (enq t s) x = key s x \<and> ok (enq t s) x = ok s x"
    and deq_keeps: "\<lbrakk>rep s Q; ok s t; deq t s = Some s'\<rbrakk> \<Longrightarrow> key s' x = key s x \<and> ok s' x = ok s x"
begin

lemma requeue:
  assumes "rep s Q" "ok s t"
  shows "\<exists>s'. map_option (enq t) (deq t s) = Some s'
    \<and> rep s' (Q(key s t := remove1 t (Q (key s t)) @ [t])) \<and> key s' x = key s x \<and> ok s' x = ok s x"
proof -
  obtain s1 where d: "deq t s = Some s1" "rep s1 (Q(key s t := remove1 t (Q (key s t))))"
    using deq_removes [OF assms] by blast
  from deq_keeps [OF assms d(1)] have k: "key s1 y = key s y" "ok s1 y = ok s y" for y by blast+
  have "t \<notin> set (remove1 t (Q (key s t)))" using rep_distinct [OF assms(1)] by simp
  then have "rep (enq t s1) (Q(key s t := remove1 t (Q (key s t)) @ [t]))"
    using enq_appends [OF d(2), of t] assms(2) by (simp add: k)
  with d(1) show ?thesis by (simp add: enq_keeps k)
qed

lemma requeue_head:
  assumes "rep s Q" "ok s t" "Q (key s t) = t # ts"
  shows "\<exists>s'. map_option (enq t) (deq t s) = Some s' \<and> rep s' (Q(key s t := ts @ [t]))"
proof -
  obtain s' where "map_option (enq t) (deq t s) = Some s'"
      "rep s' (Q(key s t := remove1 t (Q (key s t)) @ [t]))"
    using requeue [OF assms(1,2), of t] by blast
  with assms(3) show ?thesis by (intro exI [of _ s']) simp
qed

text \<open>The queues determine each other: what is in a queue stays there until it is dequeued.\<close>

lemma deq_others:
  assumes "rep s Q" "ok s t" "x \<noteq> t" "x \<in> set (Q k)"
  shows "\<exists>s' Q'. deq t s = Some s' \<and> rep s' Q' \<and> x \<in> set (Q' k)"
proof -
  obtain s' where "deq t s = Some s'" "rep s' (Q(key s t := remove1 t (Q (key s t))))"
    using deq_removes [OF assms(1,2)] by blast
  moreover have "x \<in> set ((Q(key s t := remove1 t (Q (key s t)))) k)" using assms(3,4) by auto
  ultimately show ?thesis by blast
qed

end

lemma rq_rep_distinct: "rq_rep s Q \<Longrightarrow> distinct (Q k)"
  by (cases "valid_prio k") (auto dest: rq_repD(1) chain_distinct rq_rep_Nil)

lemma valid_task_links: "same_but_links s s' \<Longrightarrow> valid_task s' t = valid_task s t"
  by (simp add: valid_task_def same_but_links_fields)

interpretation rq: fifo_queues rq_rep "\<lambda>s t. priority (ptable s t)" valid_task enqueue_task dequeue_task
proof unfold_locales
  fix s s' :: "'a sched_scheme" and Q t x
  assume "rq_rep s Q" "valid_task s t" "dequeue_task t s = Some s'"
  then have "same_but_links s s'" using dequeue_task_rep [of s Q t] by (auto simp: valid_task_def)
  then show "priority (ptable s' x) = priority (ptable s x) \<and> valid_task s' x = valid_task s x"
    by (simp add: same_but_links_fields valid_task_links)
next
  fix s :: "'a sched_scheme" and Q t
  assume "rq_rep s Q" "valid_task s t"
  then show "\<exists>s'. dequeue_task t s = Some s' \<and> rq_rep s' (Q(priority (ptable s t) := remove1 t (Q (priority (ptable s t)))))"
    using dequeue_task_rep [of s Q t] by (auto simp: valid_task_def)
next
  fix s :: "'a sched_scheme" and t x
  show "priority (ptable (enqueue_task t s) x) = priority (ptable s x)
      \<and> valid_task (enqueue_task t s) x = valid_task s x"
    using enqueue_task_links [of s t] by (simp add: same_but_links_fields valid_task_links)
qed (auto intro: enqueue_task_rep rq_rep_distinct)

lemma preempt_rep:
  assumes "rq_rep s Q" "valid_task s t" "current_task s = Some t"
  shows "\<exists>s'. preempt s = Some s'
     \<and> rq_rep s' (Q(priority (ptable s t) := remove1 t (Q (priority (ptable s t))) @ [t]))
     \<and> same_but_links s s' \<and> sched_coherent s'"
proof -
  obtain s1 where d: "dequeue_task t s = Some s1" "same_but_links s s1"
    using dequeue_task_rep [OF assms(1)] assms(2) by (auto simp: valid_task_def)
  with rq.requeue [OF assms(1,2), of t] assms(3) enqueue_task_links [of s1 t] same_but_links_trans
    enqueue_task_coherent [of t s1]
  show ?thesis by (auto simp: preempt_def)
qed

section \<open>Concrete states\<close>

text \<open>A table of tasks of priority 1, nothing queued, task 2 running; and an allocator that serves.\<close>

definition demo_task :: task where
  "demo_task = \<lparr>context_p = 0xC0100000, page_dir = 0, stack_space = 0xC0100000, stack_size = 128,
     timer_next = None, timer_expire = 0, priority = 1, next_ready = None, ticks_left = 10, quantum = 10,
     message_buffer = replicate 64 0, message_ptr = NULL, message_flags = 0, message_send_to = None,
     message_rec_pid = PID_NO_TASK, message_q_head = None, message_q_next = None, pid = 0, task_flags = 1\<rparr>"

definition demo_sched :: sched where
  "demo_sched = \<lparr>kmem = (\<lambda>_. 0), ptable = (\<lambda>i. demo_task\<lparr>pid := of_nat i\<rparr>), idle_task = Some 0,
     next_task = Some 2, current_task = Some 2, reschedule_needed = True, pid_count = 10, nested_intr = 0,
     queue_head = (\<lambda>_. None), queue_tail = (\<lambda>_. None)\<rparr>"

definition demo_alloc :: "u32 \<Rightarrow> sched \<Rightarrow> addr \<times> sched" where
  "demo_alloc n s = (0xC0200000, s)"

lemma demo_sched_empty: "rq_rep demo_sched (\<lambda>_. [])"
  by (simp add: rq_rep_def demo_sched_def)

lemma demo_sched_valid: "t < TASK_COUNT \<Longrightarrow> valid_task demo_sched t"
  by (simp add: valid_task_def demo_sched_def demo_task_def valid_prio_def LOWEST_TASK_PRIORITY_def)

lemma demo_sched_priority [simp]: "priority (ptable demo_sched t) = 1"
  by (simp add: demo_sched_def demo_task_def)

definition demo_queued :: sched where
  "demo_queued = enqueue_task 3 (enqueue_task 2 demo_sched)"

lemma demo_enqueued: "rq_rep (enqueue_task 2 demo_sched) ((\<lambda>_. [])(1 := [2]))"
  using enqueue_task_rep [OF demo_sched_empty, of 2] demo_sched_valid [of 2] by (simp add: TASK_COUNT_def)

lemma priority_enqueue [simp]: "priority (ptable (enqueue_task t s) x) = priority (ptable s x)"
  using enqueue_task_links [of s t] by (simp add: same_but_links_fields)

lemma valid_enqueue [simp]: "valid_task (enqueue_task t s) x = valid_task s x"
  by (simp add: valid_task_def)

lemma demo_queued_rep: "rq_rep demo_queued ((\<lambda>_. [])(1 := [2, 3]))"
  using enqueue_task_rep [OF demo_enqueued, of 3] demo_sched_valid [of 3]
  by (simp add: TASK_COUNT_def demo_queued_def)

lemma demo_queued_valid: "t < TASK_COUNT \<Longrightarrow> valid_task demo_queued t"
  by (simp add: demo_queued_def demo_sched_valid)

section \<open>Properties of the scheduler\<close>

text \<open>C15: the ready queues implement a map from priorities to first-in first-out lists: enqueueing
  a task that is not queued appends it to the list of its priority and to no other.\<close>

theorem enqueue_appends_fifo:
  assumes "rq_inv s" "valid_task s t" "t \<notin> set (ready s (priority (ptable s t)))"
  shows "rq_inv (enqueue_task t s)
    \<and> ready (enqueue_task t s) = (ready s)(priority (ptable s t) := ready s (priority (ptable s t)) @ [t])"
  using rq.enq_appends [of s "ready s" t] assms rq_rep_inv rq_rep_ready unfolding rq_inv_def by blast

lemma enqueue_appends_fifo_witness:
  "rq_inv demo_queued \<and> ready demo_queued = (ready (enqueue_task 2 demo_sched))(1 := [2, 3])"
  using enqueue_appends_fifo [of "enqueue_task 2 demo_sched" 3] demo_sched_valid [of 3]
    rq_rep_inv [OF demo_enqueued] rq_rep_ready [OF demo_enqueued] demo_queued_def
  by (auto simp: TASK_COUNT_def)

text \<open>C16: removing a task from the ready queues ends, keeps the queues well formed, and removes the
  task from the list of its priority, whatever its place there (nothing happens when it is not
  queued); no field of a task but its link changes.\<close>

theorem dequeue_removes_fifo:
  assumes "rq_inv s" "valid_task s t"
  shows "\<exists>s'. dequeue_task t s = Some s' \<and> rq_inv s' \<and> same_but_links s s'
    \<and> ready s' = (ready s)(priority (ptable s t) := remove1 t (ready s (priority (ptable s t))))"
  using dequeue_task_rep [of s "ready s" t] assms rq_rep_inv rq_rep_ready
  unfolding rq_inv_def valid_task_def by blast

lemma dequeue_removes_fifo_witness:
  "\<exists>s'. dequeue_task 2 demo_queued = Some s' \<and> rq_inv s' \<and> ready s' 1 = [3]"
  using dequeue_removes_fifo [of demo_queued 2] demo_queued_valid [of 2] rq_rep_inv [OF demo_queued_rep]
    rq_rep_ready [OF demo_queued_rep]
  by (auto simp: TASK_COUNT_def demo_queued_def)

lemma scheduler_choice:
  assumes "rq_inv s" "sched_coherent s"
  shows "(\<forall>p t ts. ready s p = t # ts \<and> (\<forall>q. 0 \<le> q \<and> q < p \<longrightarrow> ready s q = [])
            \<longrightarrow> next_task (scheduler s) = Some t)
       \<and> ((\<forall>p. ready s p = []) \<longrightarrow> next_task (scheduler s) = idle_task s)
       \<and> sched_coherent (scheduler s) \<and> ready (scheduler s) = ready s"
proof -
  have r: "rq_rep s (ready s)" using assms(1) by (simp add: rq_inv_def)
  have n: "next_task (scheduler s) = pick s" by (rule scheduler_pick [OF r assms(2)])
  have "pick s = Some t"
    if p: "ready s p = t # ts" "\<forall>q. 0 \<le> q \<and> q < p \<longrightarrow> ready s q = []" for p t ts
  proof -
    have "valid_prio p" using p(1) rq_rep_Nil [OF r, of p] by auto
    then have "[0..LOWEST_TASK_PRIORITY] = [0..p - 1] @ p # [p + 1..LOWEST_TASK_PRIORITY]"
      using upto_split2 [of 0 p LOWEST_TASK_PRIORITY] upto_rec2 [of 0 p] by (simp add: valid_prio_def)
    moreover have "find (\<lambda>p. ready s p \<noteq> []) [0..p - 1] = None"
      using p(2) by (auto simp: find_None_iff)
    moreover have "find P (xs @ ys) = (case find P xs of None \<Rightarrow> find P ys | Some x \<Rightarrow> Some x)"
      for P and xs ys :: "int list" by (induction xs) auto
    ultimately have "find (\<lambda>p. ready s p \<noteq> []) [0..LOWEST_TASK_PRIORITY] = Some p"
      using p(1) by simp
    with p(1) show ?thesis by (simp add: pick_def first_ready_def)
  qed
  moreover have "(\<forall>p. ready s p = []) \<longrightarrow> pick s = idle_task s"
    using find_None_iff [of "\<lambda>p. False" "[0..LOWEST_TASK_PRIORITY]"]
    by (auto simp: pick_def first_ready_def)
  ultimately show ?thesis using n scheduler_coherent [OF r assms(2)] ready_scheduler [of s] by metis
qed

lemma pick_cases:
  assumes "rq_rep s Q"
  shows "pick s = idle_task s \<and> (\<forall>p. Q p = []) \<or> (\<exists>p t. pick s = Some t \<and> t \<in> set (Q p) \<and> valid_prio p)"
proof (cases "find (\<lambda>p. Q p \<noteq> []) [0..LOWEST_TASK_PRIORITY]")
  case None
  then have "\<forall>p. valid_prio p \<longrightarrow> Q p = []" by (auto simp: find_None_iff valid_prio_def)
  then have "\<forall>p. Q p = []" using rq_rep_Nil [OF assms] by blast
  with None show ?thesis by (simp add: pick_rep [OF assms] first_ready_def)
next
  case (Some p)
  then have "Q p \<noteq> []" "valid_prio p" by (auto simp: find_Some_iff valid_prio_def)
  with Some show ?thesis
    by (auto simp: pick_rep [OF assms] first_ready_def intro!: exI [of _ p])
qed

text \<open>C17: With consistent ready queues and, if one is cached, the right decision cached, the scheduler chooses the task
  that has waited longest among those of the most urgent priority that has ready tasks, and the idle task when nothing is
  ready; while the idle task is not queued itself, it is chosen only then. The decision is cached and the ready queues are not changed.\<close>

theorem scheduler_picks_most_urgent:
  assumes "rq_inv s" "sched_coherent s"
  shows "(\<forall>p t ts. ready s p = t # ts \<and> (\<forall>q. 0 \<le> q \<and> q < p \<longrightarrow> ready s q = [])
            \<longrightarrow> next_task (scheduler s) = Some t)
       \<and> ((\<forall>p. ready s p = []) \<longrightarrow> next_task (scheduler s) = idle_task s)
       \<and> ((\<forall>p. \<forall>t \<in> set (ready s p). idle_task s \<noteq> Some t) \<longrightarrow>
            (next_task (scheduler s) = idle_task s \<longleftrightarrow> (\<forall>p. ready s p = [])))
       \<and> sched_coherent (scheduler s) \<and> ready (scheduler s) = ready s"
proof -
  have r: "rq_rep s (ready s)" using assms(1) by (simp add: rq_inv_def)
  have "next_task (scheduler s) = pick s" by (rule scheduler_pick [OF r assms(2)])
  then have "\<forall>p. ready s p = []" if "\<forall>p. \<forall>t \<in> set (ready s p). idle_task s \<noteq> Some t" "next_task (scheduler s) = idle_task s"
    using pick_cases [OF r] that by metis
  then show ?thesis using scheduler_choice [OF assms] by blast
qed

lemma scheduler_picks_demo: "next_task (scheduler demo_queued) = Some 2"
  using scheduler_pick [OF demo_queued_rep] pick_rep [OF demo_queued_rep]
  by (simp add: demo_queued_def enqueue_task_coherent first_ready_def LOWEST_TASK_PRIORITY_def upto_rec1)

lemma scheduler_picks_most_urgent_witness: "next_task (scheduler demo_queued) = Some 2"
proof -
  have "rq_inv demo_queued" "sched_coherent demo_queued"
    by (rule rq_rep_inv [OF demo_queued_rep], simp add: demo_queued_def enqueue_task_coherent)
  from scheduler_picks_most_urgent [OF this] rq_rep_ready [OF demo_queued_rep] show ?thesis
    by (auto dest!: conjunct1 spec [of _ "1 :: int"])
qed

text \<open>dequeueing asks for a new scheduling decision only for the running and the chosen task;
  that is enough: the standing decision stays the right one.\<close>

theorem dequeue_keeps_decision:
  assumes "rq_inv s" "valid_task s t" "sched_coherent s" "dequeue_task t s = Some s'"
  shows "sched_coherent s' \<and> (reschedule_needed s' \<or> next_task s' = pick s')"
  using dequeue_task_coherent [of s "ready s" t s'] assms
  by (auto simp: rq_inv_def valid_task_def sched_coherent_def)


lemma dequeue_keeps_decision_witness:
  "\<exists>s'. dequeue_task 3 (scheduler demo_queued) = Some s' \<and> sched_coherent s' \<and> next_task s' = Some 2"
proof -
  have r: "rq_rep (scheduler demo_queued) ((\<lambda>_. [])(1 := [2, 3]))"
    by (rule iffD2 [OF rq_rep_cong demo_queued_rep]) simp_all
  have c: "sched_coherent (scheduler demo_queued)"
    by (rule scheduler_coherent [OF demo_queued_rep]) (simp add: demo_queued_def enqueue_task_coherent)
  have v: "valid_task (scheduler demo_queued) 3"
    using demo_queued_valid [of 3] by (simp add: valid_task_def TASK_COUNT_def)
  obtain s' where s': "dequeue_task 3 (scheduler demo_queued) = Some s'" "same_but_links (scheduler demo_queued) s'"
    using dequeue_task_rep [OF r, of 3] v by (auto simp: valid_task_def)
  with dequeue_keeps_decision [OF rq_rep_inv [OF r] v c s'(1)] same_but_links_fields(18) [OF s'(2)]
  show ?thesis by (simp add: scheduler_picks_demo)
qed

section \<open>Creation of tasks\<close>

lemma st32_outside_block:
  assumes "\<not> in_range c n x" "unat off + 4 \<le> n" "n \<le> 2 ^ 32"
  shows "st32 m (c + off) v x = m x"
proof (rule st32_outside)
  show "\<not> in_range (c + off) 4 x"
  proof
    assume "in_range (c + off) 4 x"
    then obtain i where i: "i < 4" "x = c + off + of_nat i" by (auto simp: in_range_iff)
    then have "x = c + of_nat (unat off + i)" by simp
    moreover have "unat off + i < n" using i(1) assms(2) by simp
    ultimately show False using assms(1) in_range_offset [OF _ assms(3)] by metis
  qed
qed

lemmas ctx_defs = ctx_gs_def ctx_fs_def ctx_es_def ctx_ds_def ctx_ebp_def ctx_edx_def ctx_ecx_def
  ctx_eax_def ctx_eip_def ctx_cs_def ctx_eflags_def ctx_ss_def

lemma init_context_fields:
  "ld32 (init_context sp e c m) (c + ctx_eip) = e"
  "ld32 (init_context sp e c m) (c + ctx_ebp) = sp"
  "ld32 (init_context sp e c m) (c + ctx_cs) = GDT_RING0_CODE"
  "ld32 (init_context sp e c m) (c + ctx_ds) = GDT_RING0_DATA"
  "ld32 (init_context sp e c m) (c + ctx_es) = GDT_RING0_DATA"
  "ld32 (init_context sp e c m) (c + ctx_fs) = GDT_RING0_DATA"
  "ld32 (init_context sp e c m) (c + ctx_gs) = GDT_RING0_DATA"
  "ld32 (init_context sp e c m) (c + ctx_ss) = GDT_RING0_DATA"
  "ld32 (init_context sp e c m) (c + ctx_eflags) = 0x202"
  by (simp_all add: init_context_def Let_def ctx_defs ld32_st32_apart)

lemma init_context_outside:
  assumes "\<not> in_range c 76 x"
  shows "init_context sp e c m x = m x"
proof -
  have "fst (kmemset m c 0 sizeof_intr_stack) x = m x"
    using assms write_bytes_outside [of "replicate 76 0" c x m]
    by (simp del: replicate_numeral_Cons add: kmemset_write sizeof_intr_stack_def)
  moreover have st: "st32 m' (c + off) v x = m' x" if "unat off \<le> 72" for m' off v
    using st32_outside_block [OF assms, of off] that by simp
  moreover from st [of 0] have "st32 m' c v x = m' x" for m' v by simp
  ultimately show ?thesis
    by (simp add: init_context_def Let_def ctx_defs)
qed

text \<open>
  \<open>task_created i entry sz stack prio s0 s\<close>: from \<open>s0\<close>, the state the allocator left, slot \<open>i\<close> has
  become a task of priority \<open>prio\<close> that starts at \<open>entry\<close> on a stack of \<open>sz\<close> bytes.
\<close>

definition task_created ::
  "nat \<Rightarrow> addr \<Rightarrow> u32 \<Rightarrow> addr \<Rightarrow> int \<Rightarrow> 'a sched_scheme \<Rightarrow> 'a sched_scheme \<Rightarrow> bool" where
  "task_created i entry sz stack prio s0 s' \<longleftrightarrow>
     (let t = ptable s' i; c = context_p t
      in (\<forall>j. j \<noteq> i \<longrightarrow> ptable s' j = ptable s0 j)
          \<and> queue_head s' = queue_head s0 \<and> queue_tail s' = queue_tail s0
          \<and> pid t = pid_count s0 \<and> pid_count s' = pid_count s0 + 1
          \<and> priority t = prio \<and> next_ready t = None \<and> timer_next t = None
          \<and> task_flags t = TASK_FLAGS_PREEMPTIBLE \<and> ticks_left t = quantum t
          \<and> message_flags t = MESSAGE_FLAGS_NONE \<and> message_q_head t = None
          \<and> message_buffer t = replicate MESSAGE_SIZE 0
          \<and> stack_space t = stack \<and> stack_size t = sz \<and> c + 76 = stack + sz
          \<and> ld32 (kmem s') (c + ctx_eip) = entry \<and> ld32 (kmem s') (c + ctx_cs) = GDT_RING0_CODE
          \<and> ld32 (kmem s') (c + ctx_ds) = GDT_RING0_DATA \<and> ld32 (kmem s') (c + ctx_eflags) = 0x202
          \<and> ld32 (kmem s') (c + ctx_ebp) = stack + sz
          \<and> next_task s' = next_task s0 \<and> current_task s' = current_task s0 \<and> more s' = more s0
          \<and> idle_task s' = idle_task s0 \<and> nested_intr s' = nested_intr s0
          \<and> reschedule_needed s' = reschedule_needed s0
          \<and> (\<forall>x. \<not> in_range c 76 x \<longrightarrow> kmem s' x = kmem s0 x))"

lemma create_spec_fail:
  assumes "valid_prio prio" "i < TASK_COUNT" "pid (ptable s i) = PID_NO_TASK" "fst (alloc sz s) = NULL"
  shows "create_kernel_task alloc entry sz prio s = (None, snd (alloc sz s))"
proof -
  from assms have "find (\<lambda>i. pid (ptable s i) = PID_NO_TASK) [0..<TASK_COUNT] \<noteq> None"
    by (auto simp: find_None_iff)
  with assms show ?thesis by (auto simp: create_kernel_task_def valid_prio_def split: prod.split)
qed

lemma create_spec_success:
  assumes "valid_prio prio" "i < TASK_COUNT" "pid (ptable s i) = PID_NO_TASK"
    "\<And>j. j < i \<Longrightarrow> pid (ptable s j) \<noteq> PID_NO_TASK" "fst (alloc sz s) \<noteq> NULL"
  shows "fst (create_kernel_task alloc entry sz prio s) = Some i
    \<and> task_created i entry sz (fst (alloc sz s)) prio (snd (alloc sz s))
            (snd (create_kernel_task alloc entry sz prio s))"
proof -
  from assms have "find (\<lambda>i. pid (ptable s i) = PID_NO_TASK) [0..<TASK_COUNT] = Some i"
    by (auto simp: find_Some_iff)
  moreover obtain stack s0 where al: "alloc sz s = (stack, s0)" by fastforce
  ultimately have "create_kernel_task alloc entry sz prio s = (Some i,
      (upd_task i
        (\<lambda>t. t\<lparr>pid := pid_count s0, stack_space := stack, stack_size := sz,
               priority := prio, task_flags := TASK_FLAGS_PREEMPTIBLE,
               quantum := TASK_DEFAULT_QUANTUM, ticks_left := TASK_DEFAULT_QUANTUM,
               next_ready := None, context_p := stack + sz - 76, timer_next := None,
               message_buffer := replicate MESSAGE_SIZE 0, message_ptr := NULL,
               message_flags := MESSAGE_FLAGS_NONE, message_send_to := None,
               message_rec_pid := PID_NO_TASK, message_q_head := None, message_q_next := None\<rparr>) s0)
       \<lparr>pid_count := pid_count s0 + 1,
        kmem := init_context (stack + sz) entry (stack + sz - 76) (kmem s0)\<rparr>)"
    using assms by (simp add: create_kernel_task_def valid_prio_def sizeof_intr_stack_def Let_def)
  then show ?thesis
    unfolding al by (simp_all add: task_created_def init_context_fields init_context_outside)
qed


text \<open>\<open>create_kernel_task\<close> takes the first free slot of the task table, and only that slot changes.
  It fails without a trace for a priority outside the table and for a full table, and leaves only
  the allocator's state behind when the allocator fails. On success the new task is not queued, owns
  its stack, and resumes at its entry point with the kernel's segments, interrupts enabled, from
  a frame in the last 76 bytes of that stack; no byte outside the frame changes.\<close>

theorem create_kernel_task_spec:
  "(\<not> valid_prio prio \<longrightarrow> create_kernel_task alloc entry sz prio s = (None, s))
   \<and> ((\<forall>i<TASK_COUNT. pid (ptable s i) \<noteq> PID_NO_TASK) \<longrightarrow> create_kernel_task alloc entry sz prio s = (None, s))
   \<and> (valid_prio prio \<and> (\<exists>i<TASK_COUNT. pid (ptable s i) = PID_NO_TASK) \<and> fst (alloc sz s) = NULL
        \<longrightarrow> create_kernel_task alloc entry sz prio s = (None, snd (alloc sz s)))
   \<and> (\<forall>i. valid_prio prio \<and> i < TASK_COUNT \<and> pid (ptable s i) = PID_NO_TASK
        \<and> (\<forall>j<i. pid (ptable s j) \<noteq> PID_NO_TASK) \<and> fst (alloc sz s) \<noteq> NULL \<longrightarrow>
        fst (create_kernel_task alloc entry sz prio s) = Some i
        \<and> task_created i entry sz (fst (alloc sz s)) prio (snd (alloc sz s))
            (snd (create_kernel_task alloc entry sz prio s)))"
proof (intro conjI impI allI)
  assume "\<not> valid_prio prio"
  then show "create_kernel_task alloc entry sz prio s = (None, s)"
    by (auto simp: create_kernel_task_def valid_prio_def)
next
  assume "\<forall>i<TASK_COUNT. pid (ptable s i) \<noteq> PID_NO_TASK"
  then have "find (\<lambda>i. pid (ptable s i) = PID_NO_TASK) [0..<TASK_COUNT] = None"
    by (auto simp: find_None_iff)
  then show "create_kernel_task alloc entry sz prio s = (None, s)"
    by (simp add: create_kernel_task_def)
qed (use create_spec_fail create_spec_success in \<open>blast+\<close>)

text \<open>The allocator works on the heap: it leaves the task table and the queues alone.\<close>

definition alloc_frame :: "(u32 \<Rightarrow> 'a sched_scheme \<Rightarrow> addr \<times> 'a sched_scheme) \<Rightarrow> bool" where
  "alloc_frame alloc \<longleftrightarrow> (\<forall>n s. let s' = snd (alloc n s) in
     ptable s' = ptable s \<and> queue_head s' = queue_head s \<and> queue_tail s' = queue_tail s
     \<and> pid_count s' = pid_count s \<and> current_task s' = current_task s \<and> next_task s' = next_task s
     \<and> idle_task s' = idle_task s \<and> nested_intr s' = nested_intr s
     \<and> reschedule_needed s' = reschedule_needed s)"

definition init_sched :: "u32 \<Rightarrow> 'a sched_scheme \<Rightarrow> 'a sched_scheme" where
  "init_sched dir s = s\<lparr>ptable := (\<lambda>i. if i < TASK_COUNT then reset_task dir (ptable s i) else ptable s i),
     next_task := None, current_task := None, nested_intr := 0, pid_count := 0,
     queue_head := (\<lambda>i. if 0 \<le> i \<and> i \<le> LOWEST_TASK_PRIORITY then None else queue_head s i),
     queue_tail := (\<lambda>i. if 0 \<le> i \<and> i \<le> LOWEST_TASK_PRIORITY then None else queue_tail s i)\<rparr>"

lemma init_sched_queues:
  "valid_prio p \<Longrightarrow> queue_head (init_sched dir s) p = None"
  "valid_prio p \<Longrightarrow> queue_tail (init_sched dir s) p = None"
  by (simp_all add: init_sched_def valid_prio_def)

lemma init_sched_fields:
  "i < TASK_COUNT \<Longrightarrow> ptable (init_sched dir s) i = reset_task dir (ptable s i)"
  "current_task (init_sched dir s) = None" "next_task (init_sched dir s) = None"
  "pid_count (init_sched dir s) = 0" "nested_intr (init_sched dir s) = 0"
  by (simp_all add: init_sched_def)

lemma multitasking_init_cases:
  fixes s :: "'a sched_scheme"
  assumes s1_def: "s1 = init_sched dir s"
  shows "multitasking_init alloc idle dir s = (if fst (alloc 128 s1) = NULL then None
     else Some ((upd_task 0 (\<lambda>x. x\<lparr>task_flags := task_flags x AND NOT TASK_FLAGS_PREEMPTIBLE\<rparr>)
        (snd (create_kernel_task alloc idle 128 LOWEST_TASK_PRIORITY s1)))
               \<lparr>idle_task := Some 0, reschedule_needed := True\<rparr>))"
    and "fst (alloc 128 s1) \<noteq> NULL \<Longrightarrow>
      task_created 0 idle 128 (fst (alloc 128 s1)) LOWEST_TASK_PRIORITY (snd (alloc 128 s1))
      (snd (create_kernel_task alloc idle 128 LOWEST_TASK_PRIORITY s1))"
proof -
  have free: "0 < TASK_COUNT" "pid (ptable s1 0) = PID_NO_TASK" "valid_prio LOWEST_TASK_PRIORITY"
    by (simp_all add: s1_def init_sched_def TASK_COUNT_def reset_task_def valid_prio_def LOWEST_TASK_PRIORITY_def)
  have init: "multitasking_init alloc idle dir s =
      (case create_kernel_task alloc idle 128 LOWEST_TASK_PRIORITY s1 of
           (None, s) \<Rightarrow> None
         | (Some t, s) \<Rightarrow>
             Some ((upd_task t (\<lambda>x. x\<lparr>task_flags := task_flags x AND NOT TASK_FLAGS_PREEMPTIBLE\<rparr>) s)
               \<lparr>idle_task := Some t, reschedule_needed := True\<rparr>))"
    unfolding multitasking_init_def s1_def init_sched_def Let_def by (rule refl)
  show created: "task_created 0 idle 128 (fst (alloc 128 s1)) LOWEST_TASK_PRIORITY (snd (alloc 128 s1))
      (snd (create_kernel_task alloc idle 128 LOWEST_TASK_PRIORITY s1))" if "fst (alloc 128 s1) \<noteq> NULL"
    using create_spec_success [of LOWEST_TASK_PRIORITY 0 s1 alloc 128 idle, OF free(3,1,2)] that by simp
  show "multitasking_init alloc idle dir s = (if fst (alloc 128 s1) = NULL then None
     else Some ((upd_task 0 (\<lambda>x. x\<lparr>task_flags := task_flags x AND NOT TASK_FLAGS_PREEMPTIBLE\<rparr>)
        (snd (create_kernel_task alloc idle 128 LOWEST_TASK_PRIORITY s1)))
               \<lparr>idle_task := Some 0, reschedule_needed := True\<rparr>))"
  proof (cases "fst (alloc 128 s1) = NULL")
    case True
    with create_spec_fail [of LOWEST_TASK_PRIORITY 0 s1 alloc 128 idle, OF free(3,1,2) True] show ?thesis by (simp add: init)
  next
    case False
    with create_spec_success [of LOWEST_TASK_PRIORITY 0 s1 alloc 128 idle, OF free(3,1,2) _ False]
    obtain s2 where "create_kernel_task alloc idle 128 LOWEST_TASK_PRIORITY s1 = (Some 0, s2)"
      by (metis less_nat_zero_code prod.collapse)
    with False show ?thesis by (simp add: init)
  qed
qed

lemma multitasking_init_facts:
  assumes "alloc_frame alloc"
  shows "case multitasking_init alloc idle dir s of
      None \<Rightarrow> (\<exists>s'. fst (alloc 128 s') = NULL)
    | Some s' \<Rightarrow> rq_rep s' (\<lambda>_. []) \<and> sched_coherent s' \<and> idle_task s' = Some 0
        \<and> pid (ptable s' 0) = 0 \<and> priority (ptable s' 0) = LOWEST_TASK_PRIORITY
        \<and> task_flags (ptable s' 0) AND TASK_FLAGS_PREEMPTIBLE = 0
        \<and> message_flags (ptable s' 0) = MESSAGE_FLAGS_NONE \<and> message_q_head (ptable s' 0) = None
        \<and> message_buffer (ptable s' 0) = replicate MESSAGE_SIZE 0
        \<and> task_flags (ptable s' 0) = 0 \<and> nested_intr s' = 0
        \<and> pid_count s' = 1 \<and> current_task s' = None \<and> next_task s' = None
        \<and> (\<forall>i. 0 < i \<and> i < TASK_COUNT \<longrightarrow> ptable s' i = reset_task dir (ptable s i))"
proof (cases "fst (alloc 128 (init_sched dir s)) = NULL")
  case True
  then show ?thesis by (auto simp: multitasking_init_cases(1) [OF refl])
next
  case False
  let ?s0 = "snd (alloc 128 (init_sched dir s))"
  let ?s' = "snd (create_kernel_task alloc idle 128 LOWEST_TASK_PRIORITY (init_sched dir s))"
  from multitasking_init_cases(2) [of _ dir s alloc, OF refl False, of idle] have c:
    "\<And>j. j \<noteq> 0 \<Longrightarrow> ptable ?s' j = ptable ?s0 j"
    "queue_head ?s' = queue_head ?s0" "queue_tail ?s' = queue_tail ?s0"
    "pid (ptable ?s' 0) = pid_count ?s0" "pid_count ?s' = pid_count ?s0 + 1"
    "priority (ptable ?s' 0) = LOWEST_TASK_PRIORITY" "task_flags (ptable ?s' 0) = TASK_FLAGS_PREEMPTIBLE"
    "current_task ?s' = current_task ?s0" "next_task ?s' = next_task ?s0"
    "message_flags (ptable ?s' 0) = MESSAGE_FLAGS_NONE" "message_q_head (ptable ?s' 0) = None"
    "message_buffer (ptable ?s' 0) = replicate MESSAGE_SIZE 0" "nested_intr ?s' = nested_intr ?s0"
    unfolding task_created_def Let_def by simp_all
  have a: "ptable ?s0 = ptable (init_sched dir s)" "queue_head ?s0 = queue_head (init_sched dir s)"
    "queue_tail ?s0 = queue_tail (init_sched dir s)" "pid_count ?s0 = pid_count (init_sched dir s)"
    "nested_intr ?s0 = nested_intr (init_sched dir s)"
    "current_task ?s0 = current_task (init_sched dir s)" "next_task ?s0 = next_task (init_sched dir s)"
    using assms by (simp_all add: alloc_frame_def Let_def)
  let ?s2 = "upd_task 0 (\<lambda>x. x\<lparr>task_flags := task_flags x AND NOT TASK_FLAGS_PREEMPTIBLE\<rparr>) ?s'
               \<lparr>idle_task := Some 0, reschedule_needed := True\<rparr>"
  have i: "multitasking_init alloc idle dir s = Some ?s2"
    using False by (simp add: multitasking_init_cases(1) [OF refl])
  have "rq_rep ?s2 (\<lambda>_. [])" by (simp add: rq_rep_def c a init_sched_queues)
  then show ?thesis
    unfolding i option.case by (simp add: c a init_sched_fields sched_coherent_def)
qed

text \<open>C18: After \<open>multitasking_init\<close> every queue is empty, slot 0 holds the idle task, which is not
  preemptible, has process id 0 and the lowest priority and is not queued, every other slot is
  free, and a scheduling decision is pending. If the allocator, asked for the 128 bytes of the idle task's stack once the
  table has been reset, returns NULL, and only then, the initialisation dereferences NULL (\<open>None\<close>). The
  allocator is assumed to leave the task table and the scheduler's variables alone (\<open>alloc_frame\<close>).\<close>

theorem multitasking_init_spec:
  assumes "alloc_frame alloc"
  shows "(multitasking_init alloc idle dir s = None \<longleftrightarrow> fst (alloc 128 (init_sched dir s)) = NULL)
    \<and> (case multitasking_init alloc idle dir s of
      None \<Rightarrow> True
    | Some s' \<Rightarrow> rq_rep s' (\<lambda>_. []) \<and> sched_coherent s' \<and> idle_task s' = Some 0
        \<and> pid (ptable s' 0) = 0 \<and> priority (ptable s' 0) = LOWEST_TASK_PRIORITY
        \<and> task_flags (ptable s' 0) AND TASK_FLAGS_PREEMPTIBLE = 0
        \<and> message_flags (ptable s' 0) = MESSAGE_FLAGS_NONE \<and> message_q_head (ptable s' 0) = None
        \<and> message_buffer (ptable s' 0) = replicate MESSAGE_SIZE 0
        \<and> task_flags (ptable s' 0) = 0 \<and> nested_intr s' = 0
        \<and> pid_count s' = 1 \<and> current_task s' = None \<and> next_task s' = None
        \<and> (\<forall>i. 0 < i \<and> i < TASK_COUNT \<longrightarrow> ptable s' i = reset_task dir (ptable s i)))"
  using multitasking_init_facts [OF assms, where idle = idle and dir = dir and s = s] multitasking_init_cases(1) [OF refl, where s = s and dir = dir and alloc = alloc and idle = idle]
  by (auto split: option.splits)

lemma create_kernel_task_spec_witness:
  "fst (create_kernel_task demo_alloc 0xC0000100 1024 1 (init_sched 0 demo_sched)) = Some 0
   \<and> create_kernel_task demo_alloc 0xC0000100 1024 17 demo_sched = (None, demo_sched)"
  using create_kernel_task_spec [of 1 demo_alloc "0xC0000100" 1024 "init_sched 0 demo_sched"]
    create_kernel_task_spec [of 17 demo_alloc "0xC0000100" 1024 demo_sched]
  by (auto simp: valid_prio_def LOWEST_TASK_PRIORITY_def TASK_COUNT_def init_sched_def reset_task_def demo_alloc_def)

lemma multitasking_init_spec_witness:
  "\<exists>s'. multitasking_init demo_alloc 0xC0000200 0xC0001000 demo_sched = Some s'
    \<and> idle_task s' = Some 0 \<and> rq_rep s' (\<lambda>_. [])"
  using multitasking_init_spec [where alloc = demo_alloc and idle = "0xC0000200" and dir = "0xC0001000" and s = demo_sched]
  by (auto simp: alloc_frame_def demo_alloc_def split: option.splits)

end
