(* ===== verification/KMessage.thy ===== *)
theory KMessage
  imports KTask
begin

text \<open>
  Message passing: src/system/kernel/message.c. A sender either hands its message to a receiver
  that waits for it, or blocks in the receiver's queue of senders (\<open>message_q_head\<close>, linked by
  \<open>message_q_next\<close>). A message is copied between user memory (\<open>kmem\<close>) and the buffer in the task
  record. A result of type \<open>u32\<close> is the C \<open>int\<close> returned; \<open>None\<close> is a loop around a cyclic list.
\<close>

section \<open>Operations\<close>

partial_function (option) mq_last :: "nat \<Rightarrow> 'a sched_scheme \<Rightarrow> nat option" where
  "mq_last tsk s =
     (case message_q_next (ptable s tsk) of None \<Rightarrow> Some tsk | Some n \<Rightarrow> mq_last n s)"

definition hand_over :: "nat \<Rightarrow> addr \<Rightarrow> 'a sched_scheme \<Rightarrow> 'a sched_scheme" where
  "hand_over dest message s =
     (let s = upd_task dest (\<lambda>t. t\<lparr>message_buffer := read_bytes (kmem s) message MESSAGE_SIZE\<rparr>) s;
          s = upd_task dest (\<lambda>t. t\<lparr>message_flags := message_flags t AND NOT MESSAGE_FLAGS_RECEIVING\<rparr>) s;
          s = upd_task dest (\<lambda>t. t\<lparr>message_flags := message_flags t OR MESSAGE_FLAGS_DELIVERING\<rparr>) s;
          s = upd_task dest (\<lambda>t. t\<lparr>task_flags := task_flags t OR TASK_FLAGS_AFTER_SWITCH\<rparr>) s
      in unblock_task dest s)"

definition queue_sender :: "nat \<Rightarrow> nat \<Rightarrow> addr \<Rightarrow> 'a sched_scheme \<Rightarrow> 'a sched_scheme option" where
  "queue_sender caller dest message s =
     (let s = upd_task caller (\<lambda>t. t\<lparr>message_flags := message_flags t OR MESSAGE_FLAGS_SENDING\<rparr>) s;
          s = upd_task caller (\<lambda>t. t\<lparr>message_send_to := Some dest\<rparr>) s;
          s = upd_task caller (\<lambda>t. t\<lparr>message_buffer := read_bytes (kmem s) message MESSAGE_SIZE\<rparr>) s
      in Option.bind
           (case message_q_head (ptable s dest) of
              None \<Rightarrow>
                (let s = upd_task dest (\<lambda>t. t\<lparr>message_q_head := Some caller\<rparr>) s
                 in Some (upd_task caller (\<lambda>t. t\<lparr>message_q_next := None\<rparr>) s))
            | Some tsk \<Rightarrow>
                Option.bind (mq_last tsk s) (\<lambda>tsk.
                  let s = upd_task tsk (\<lambda>t. t\<lparr>message_q_next := Some caller\<rparr>) s
                  in Some (upd_task caller (\<lambda>t. t\<lparr>message_q_next := None\<rparr>) s)))
           (block_task caller))"

definition awaits :: "'a sched_scheme \<Rightarrow> nat \<Rightarrow> nat \<Rightarrow> bool" where
  "awaits s dest caller \<longleftrightarrow>
     message_flags (ptable s dest) AND MESSAGE_FLAGS_RECEIVING \<noteq> 0
     \<and> (message_rec_pid (ptable s dest) = pid (ptable s caller)
        \<or> message_rec_pid (ptable s dest) = PID_ALL_TASKS)"

definition message_send ::
  "nat \<Rightarrow> u32 \<Rightarrow> addr \<Rightarrow> 'a sched_scheme \<Rightarrow> (u32 \<times> 'a sched_scheme) option" where
  "message_send caller dest_pid message s =
     (case find_task dest_pid s of
        None \<Rightarrow> Some (-1, s)
      | Some dest \<Rightarrow>
          if awaits s dest caller then Some (0, hand_over dest message s)
          else map_option (Pair 0) (queue_sender caller dest message s))"

text \<open>
  The search of \<open>message_receive\<close> for a sender. \<open>prev\<close> is the cell that points to \<open>sender\<close>: the head
  of the caller's queue (\<open>None\<close>) or the \<open>message_q_next\<close> of a task.
\<close>

partial_function (option) find_sender ::
  "u32 \<Rightarrow> nat option \<Rightarrow> nat option \<Rightarrow> 'a sched_scheme \<Rightarrow> (nat option \<times> nat option) option" where
  "find_sender origin_pid prev sender s =
     (case sender of
        None \<Rightarrow> Some (prev, None)
      | Some x \<Rightarrow>
          if origin_pid = PID_ALL_TASKS \<or> origin_pid = pid (ptable s x) then Some (prev, Some x)
          else find_sender origin_pid (Some x) (message_q_next (ptable s x)) s)"

definition set_mq_cell :: "nat \<Rightarrow> nat option \<Rightarrow> nat option \<Rightarrow> 'a sched_scheme \<Rightarrow> 'a sched_scheme" where
  "set_mq_cell caller prev v s =
     (case prev of None \<Rightarrow> upd_task caller (\<lambda>t. t\<lparr>message_q_head := v\<rparr>) s
      | Some p \<Rightarrow> upd_task p (\<lambda>t. t\<lparr>message_q_next := v\<rparr>) s)"

definition take_message :: "nat \<Rightarrow> nat option \<Rightarrow> nat \<Rightarrow> addr \<Rightarrow> 'a sched_scheme \<Rightarrow> 'a sched_scheme" where
  "take_message caller prev sender message s =
     (let s = s\<lparr>kmem := write_bytes (kmem s) message (message_buffer (ptable s sender))\<rparr>;
          s = set_mq_cell caller prev (message_q_next (ptable s sender)) s;
          s = upd_task sender (\<lambda>t. t\<lparr>message_q_next := None\<rparr>) s;
          s = upd_task sender (\<lambda>t. t\<lparr>message_send_to := None\<rparr>) s;
          s = upd_task sender (\<lambda>t. t\<lparr>message_flags := message_flags t AND NOT MESSAGE_FLAGS_SENDING\<rparr>) s
      in unblock_task sender s)"

definition await_message :: "nat \<Rightarrow> u32 \<Rightarrow> addr \<Rightarrow> 'a sched_scheme \<Rightarrow> 'a sched_scheme option" where
  "await_message caller origin_pid message s =
     (let s = upd_task caller (\<lambda>t. t\<lparr>message_ptr := message\<rparr>) s;
          s = upd_task caller (\<lambda>t. t\<lparr>message_rec_pid := origin_pid\<rparr>) s;
          s = upd_task caller (\<lambda>t. t\<lparr>message_flags := message_flags t OR MESSAGE_FLAGS_RECEIVING\<rparr>) s
      in block_task caller s)"

definition message_receive ::
  "nat \<Rightarrow> u32 \<Rightarrow> addr \<Rightarrow> 'a sched_scheme \<Rightarrow> (u32 \<times> 'a sched_scheme) option" where
  "message_receive caller origin_pid message s =
     (if origin_pid = PID_NO_TASK then Some (-1, s)
      else Option.bind (find_sender origin_pid None (message_q_head (ptable s caller)) s)
        (\<lambda>(prev, sender).
          case sender of
            Some x \<Rightarrow> Some (0, take_message caller prev x message s)
          | None \<Rightarrow> map_option (Pair 0) (await_message caller origin_pid message s)))"

definition message_deliver :: "nat \<Rightarrow> 'a sched_scheme \<Rightarrow> bool \<times> 'a sched_scheme" where
  "message_deliver caller s =
     (if message_flags (ptable s caller) AND MESSAGE_FLAGS_DELIVERING = 0 then (False, s)
      else
        let s = s\<lparr>kmem := write_bytes (kmem s) (message_ptr (ptable s caller)) (message_buffer (ptable s caller))\<rparr>;
            s = upd_task caller (\<lambda>t. t\<lparr>message_buffer := replicate MESSAGE_SIZE 0\<rparr>) s;
            s = upd_task caller (\<lambda>t. t\<lparr>message_flags := message_flags t AND NOT MESSAGE_FLAGS_DELIVERING\<rparr>) s;
            s = upd_task caller (\<lambda>t. t\<lparr>message_rec_pid := PID_NO_TASK\<rparr>) s;
            s = upd_task caller (\<lambda>t. t\<lparr>message_ptr := NULL\<rparr>) s
        in (True, s))"

section \<open>The queues of senders\<close>

text \<open>
  \<open>mq_rep s S\<close>: the link fields represent, for every task \<open>d\<close>, the list \<open>S d\<close> of the tasks that wait
  to send to it, in order of arrival.
\<close>

abbreviation mq_next_of :: "'a sched_scheme \<Rightarrow> nat \<Rightarrow> nat option" where
  "mq_next_of s \<equiv> \<lambda>i. message_q_next (ptable s i)"

definition senders :: "'a sched_scheme \<Rightarrow> nat \<Rightarrow> nat list" where
  "senders s d = (if d < TASK_COUNT then walk (mq_next_of s) (message_q_head (ptable s d)) TASK_COUNT else [])"

definition mq_rep :: "'a sched_scheme \<Rightarrow> (nat \<Rightarrow> nat list) \<Rightarrow> bool" where
  "mq_rep s S \<longleftrightarrow>
     (\<forall>d<TASK_COUNT. chain (mq_next_of s) (message_q_head (ptable s d)) (S d))
     \<and> (\<forall>d. \<forall>x\<in>set (S d). x < TASK_COUNT \<and> d < TASK_COUNT \<and> message_send_to (ptable s x) = Some d)"

lemma mq_repD:
  assumes "mq_rep s S"
  shows "d < TASK_COUNT \<Longrightarrow> chain (mq_next_of s) (message_q_head (ptable s d)) (S d)"
    "x \<in> set (S d) \<Longrightarrow> x < TASK_COUNT" "x \<in> set (S d) \<Longrightarrow> d < TASK_COUNT"
    "x \<in> set (S d) \<Longrightarrow> message_send_to (ptable s x) = Some d"
  using assms by (auto simp: mq_rep_def)

lemma mq_rep_Nil: "mq_rep s S \<Longrightarrow> \<not> d < TASK_COUNT \<Longrightarrow> S d = []"
  using mq_repD(3) [of s S "hd (S d)" d] by (cases "S d") auto

lemma mq_rep_senders: "mq_rep s S \<Longrightarrow> senders s = S"
proof
  fix d assume r: "mq_rep s S"
  show "senders s d = S d"
  proof (cases "d < TASK_COUNT")
    case True
    have "set (S d) \<subseteq> {..<TASK_COUNT}" using mq_repD(2) [OF r] by auto
    with mq_repD(1) [OF r True] True show ?thesis
      by (simp add: senders_def walk_chain chain_length_bound)
  qed (simp add: senders_def mq_rep_Nil [OF r])
qed

lemma mq_rep_one_queue: "\<lbrakk>mq_rep s S; x \<in> set (S d); x \<in> set (S d')\<rbrakk> \<Longrightarrow> d' = d"
  by (metis mq_repD(4) option.inject)

lemma mq_rep_distinct: "mq_rep s S \<Longrightarrow> distinct (S d)"
  by (cases "d < TASK_COUNT") (auto dest: mq_repD(1) chain_distinct mq_rep_Nil)

lemma mq_rep_cong:
  assumes "\<And>t. message_q_next (ptable s' t) = message_q_next (ptable s t)"
    and "\<And>t. message_q_head (ptable s' t) = message_q_head (ptable s t)"
    and "\<And>t. message_send_to (ptable s' t) = message_send_to (ptable s t)"
  shows "mq_rep s' S = mq_rep s S"
  using assms by (simp add: mq_rep_def)

lemma mq_rep_links: "same_but_links s s' \<Longrightarrow> mq_rep s' S = mq_rep s S"
  by (rule mq_rep_cong) (simp_all add: same_but_links_fields)

lemma mq_last_chain:
  "chain (mq_next_of s) (Some t) xs \<Longrightarrow> mq_last t s = Some (last xs)"
proof (induction xs arbitrary: t)
  case (Cons x xs)
  then have [simp]: "x = t" by simp
  show ?case
  proof (cases "mq_next_of s t")
    case None
    with Cons.prems have "xs = []" by simp
    with None show ?thesis by (subst mq_last.simps) simp
  next
    case (Some n)
    with Cons.prems have c: "chain (mq_next_of s) (Some n) xs" by simp
    then have "xs \<noteq> []" by auto
    with Cons.IH [OF c] Some show ?thesis by (subst mq_last.simps) simp
  qed
qed simp

lemma find_sender_path:
  assumes "chain (mq_next_of s) p (us @ vs)" "\<forall>x\<in>set us. \<not> (origin = PID_ALL_TASKS \<or> origin = pid (ptable s x))"
    and "vs = [] \<or> origin = PID_ALL_TASKS \<or> origin = pid (ptable s (hd vs))"
  shows "find_sender origin prev p s =
    Some (if us = [] then prev else Some (last us), if vs = [] then None else Some (hd vs))"
  using assms(1,2)
proof (induction us arbitrary: p prev)
  case Nil
  with assms(3) show ?case by (cases vs) (subst find_sender.simps, auto)+
next
  case (Cons u us)
  then have "p = Some u" by simp
  moreover have "find_sender origin (Some u) (mq_next_of s u) s =
      Some (if us = [] then Some u else Some (last us), if vs = [] then None else Some (hd vs))"
    using Cons.prems by (intro Cons.IH) auto
  ultimately show ?case using Cons.prems(2) by (subst find_sender.simps) simp
qed


lemma mq_rep_append:
  assumes r: "mq_rep s S" and c: "caller < TASK_COUNT" "dest < TASK_COUNT" "\<And>d. caller \<notin> set (S d)"
    and nx: "\<And>x. mq_next_of s' x = (if x = caller then None
        else if S dest \<noteq> [] \<and> x = last (S dest) then Some caller else mq_next_of s x)"
    and hd: "\<And>d. message_q_head (ptable s' d) =
        (if d = dest \<and> S dest = [] then Some caller else message_q_head (ptable s d))"
    and st: "\<And>x. message_send_to (ptable s' x) = (if x = caller then Some dest else message_send_to (ptable s x))"
  shows "mq_rep s' (S(dest := S dest @ [caller]))"
proof -
  have d: "chain (mq_next_of s') (message_q_head (ptable s' dest)) (S dest @ [caller])"
  proof (cases "S dest = []")
    case True
    with hd nx show ?thesis by simp
  next
    case False
    have "last (S dest) \<noteq> caller" using c(3) [of dest] False by (metis last_in_set)
    then have "mq_next_of s' = (mq_next_of s)(caller := None, last (S dest) := Some caller)"
      using nx False by (auto simp: fun_eq_iff)
    with chain_append1 [OF mq_repD(1) [OF r c(2)] False c(3)] hd False show ?thesis by simp
  qed
  moreover have "chain (mq_next_of s') (message_q_head (ptable s' d)) (S d)" if "d < TASK_COUNT" "d \<noteq> dest" for d
  proof -
    have "mq_next_of s' x = mq_next_of s x" if "x \<in> set (S d)" for x
      using nx [of x] that c(3) [of d] mq_rep_one_queue [OF r, of x d dest] \<open>d \<noteq> dest\<close>
      by (metis last_in_set)
    with mq_repD(1) [OF r that(1)] hd that(2) path_cong [of "S d" "mq_next_of s'" "mq_next_of s"]
    show ?thesis by simp
  qed
  moreover have "x < TASK_COUNT \<and> d < TASK_COUNT \<and> message_send_to (ptable s' x) = Some d"
    if "x \<in> set ((S(dest := S dest @ [caller])) d)" for d x
    using that st c mq_repD(2-4) [OF r] by (auto split: if_splits)
  ultimately show ?thesis unfolding mq_rep_def by auto
qed

lemma mq_rep_remove:
  assumes r: "mq_rep s S" and Sd: "S d = us @ x # vs"
    and nx: "\<And>y. mq_next_of s' y = (if y = x then None
        else if us \<noteq> [] \<and> y = last us then mq_next_of s x else mq_next_of s y)"
    and hd: "\<And>d'. message_q_head (ptable s' d') =
        (if d' = d \<and> us = [] then mq_next_of s x else message_q_head (ptable s d'))"
    and st: "\<And>y. message_send_to (ptable s' y) = (if y = x then None else message_send_to (ptable s y))"
  shows "mq_rep s' (S(d := us @ vs))"
proof -
  have dc: "d < TASK_COUNT" using mq_repD(3) [OF r, of x d] Sd by simp
  have dist: "distinct (us @ x # vs)" using mq_rep_distinct [OF r, of d] Sd by simp
  have c: "chain (mq_next_of s) (message_q_head (ptable s d)) (us @ x # vs)"
    using mq_repD(1) [OF r dc] Sd by simp
  have "chain (mq_next_of s') (message_q_head (ptable s' d)) (us @ vs)"
  proof (cases "us = []")
    case True
    then have "mq_next_of s' = (mq_next_of s)(x := None)" using nx by (auto simp: fun_eq_iff)
    moreover have "message_q_head (ptable s d) = Some x" using c True by simp
    ultimately show ?thesis
      using c True hd [of d] chain_delete_head [of "mq_next_of s" "Some x" x vs] by simp
  next
    case False
    have "last us \<noteq> x" using dist False by (metis Un_iff distinct_append disjoint_iff last_in_set list.set_intros(1))
    then have "mq_next_of s' = (mq_next_of s)(last us := mq_next_of s x, x := None)"
      using nx False by (auto simp: fun_eq_iff)
    with chain_delete_inner [OF c False] hd [of d] False show ?thesis by simp
  qed
  moreover have "chain (mq_next_of s') (message_q_head (ptable s' d')) (S d')"
    if "d' < TASK_COUNT" "d' \<noteq> d" for d'
  proof -
    have "mq_next_of s' y = mq_next_of s y" if "y \<in> set (S d')" for y
    proof -
      have "y \<notin> set (S d)" using mq_rep_one_queue [OF r that, of d] \<open>d' \<noteq> d\<close> by auto
      then have "y \<noteq> x" "us \<noteq> [] \<Longrightarrow> y \<noteq> last us" using Sd by auto
      with nx [of y] show ?thesis by auto
    qed
    with mq_repD(1) [OF r that(1)] hd that(2) path_cong [of "S d'" "mq_next_of s'" "mq_next_of s"]
    show ?thesis by simp
  qed
  moreover have "y < TASK_COUNT \<and> d' < TASK_COUNT \<and> message_send_to (ptable s' y) = Some d'"
    if y: "y \<in> set ((S(d := us @ vs)) d')" for d' y
  proof -
    have "y \<in> set (S d')" using y Sd by (auto split: if_splits)
    moreover have "y \<noteq> x"
    proof
      assume "y = x"
      with \<open>y \<in> set (S d')\<close> have "d' = d" using mq_rep_one_queue [OF r, of x d d'] Sd by simp
      with y \<open>y = x\<close> dist show False by simp
    qed
    ultimately show ?thesis using st [of y] mq_repD(2-4) [OF r] by simp
  qed
  ultimately show ?thesis unfolding mq_rep_def by auto
qed

section \<open>Where every task is\<close>

text \<open>
  The global invariant. A live task (allocated and not the idle task) is in exactly one place: ready,
  sleeping in the timer list \<open>T\<close>, in the queue of senders of one task, or waiting for a message.
  The flags of the record agree with the place.
\<close>

datatype place = Ready | Sleeping | Sending nat | Receiving | Absent

definition queued :: "'a sched_scheme \<Rightarrow> (int \<Rightarrow> nat list) \<Rightarrow> nat \<Rightarrow> bool" where
  "queued s Q t \<longleftrightarrow> t \<in> set (Q (priority (ptable s t)))"

definition live :: "'a sched_scheme \<Rightarrow> nat \<Rightarrow> bool" where
  "live s t \<longleftrightarrow> pid (ptable s t) \<noteq> PID_NO_TASK \<and> Some t \<noteq> idle_task s"

fun at_place :: "'a sched_scheme \<Rightarrow> (int \<Rightarrow> nat list) \<Rightarrow> (nat \<Rightarrow> nat list) \<Rightarrow> nat list \<Rightarrow> nat \<Rightarrow> place \<Rightarrow> bool" where
  "at_place s Q S T t Ready \<longleftrightarrow> queued s Q t \<and> t \<notin> set T \<and> (\<forall>d. t \<notin> set (S d))
     \<and> message_flags (ptable s t) \<in> {MESSAGE_FLAGS_NONE, MESSAGE_FLAGS_DELIVERING}"
| "at_place s Q S T t Sleeping \<longleftrightarrow> \<not> queued s Q t \<and> t \<in> set T \<and> (\<forall>d. t \<notin> set (S d))
     \<and> message_flags (ptable s t) = MESSAGE_FLAGS_NONE"
| "at_place s Q S T t (Sending d) \<longleftrightarrow> \<not> queued s Q t \<and> t \<notin> set T \<and> (\<forall>d'. t \<in> set (S d') \<longleftrightarrow> d' = d)
     \<and> message_flags (ptable s t) = MESSAGE_FLAGS_SENDING"
| "at_place s Q S T t Receiving \<longleftrightarrow> \<not> queued s Q t \<and> t \<notin> set T \<and> (\<forall>d. t \<notin> set (S d))
     \<and> message_flags (ptable s t) = MESSAGE_FLAGS_RECEIVING"
| "at_place s Q S T t Absent \<longleftrightarrow> \<not> queued s Q t \<and> t \<notin> set T \<and> (\<forall>d. t \<notin> set (S d))
     \<and> message_flags (ptable s t) = MESSAGE_FLAGS_NONE"

definition task_ok :: "'a sched_scheme \<Rightarrow> (int \<Rightarrow> nat list) \<Rightarrow> (nat \<Rightarrow> nat list) \<Rightarrow> nat list \<Rightarrow> nat \<Rightarrow> bool" where
  "task_ok s Q S T t \<longleftrightarrow> valid_task s t \<and> length (message_buffer (ptable s t)) = MESSAGE_SIZE
     \<and> (task_flags (ptable s t) AND TASK_FLAGS_AFTER_SWITCH \<noteq> 0
          \<longleftrightarrow> message_flags (ptable s t) = MESSAGE_FLAGS_DELIVERING)
     \<and> (\<exists>pl. at_place s Q S T t pl \<and> (pl = Absent \<longleftrightarrow> \<not> live s t))"

definition sys_rep :: "'a sched_scheme \<Rightarrow> (int \<Rightarrow> nat list) \<Rightarrow> (nat \<Rightarrow> nat list) \<Rightarrow> nat list \<Rightarrow> bool" where
  "sys_rep s Q S T \<longleftrightarrow> rq_rep s Q \<and> mq_rep s S \<and> (\<forall>t<TASK_COUNT. task_ok s Q S T t)"

lemmas flag_defs = MESSAGE_FLAGS_NONE_def MESSAGE_FLAGS_SENDING_def MESSAGE_FLAGS_RECEIVING_def
  MESSAGE_FLAGS_DELIVERING_def TASK_FLAGS_AFTER_SWITCH_def TASK_FLAGS_PREEMPTIBLE_def

lemma sys_repD:
  assumes "sys_rep s Q S T"
  shows "rq_rep s Q" "mq_rep s S" "t < TASK_COUNT \<Longrightarrow> task_ok s Q S T t"
  using assms by (simp_all add: sys_rep_def)

text \<open>The fields of a task that decide its place, and the rule for an operation on one task.\<close>

definition same_core :: "'a sched_scheme \<Rightarrow> 'a sched_scheme \<Rightarrow> nat \<Rightarrow> bool" where
  "same_core s s' x \<longleftrightarrow> priority (ptable s' x) = priority (ptable s x)
     \<and> message_flags (ptable s' x) = message_flags (ptable s x)
     \<and> task_flags (ptable s' x) = task_flags (ptable s x)
     \<and> length (message_buffer (ptable s' x)) = length (message_buffer (ptable s x))
     \<and> pid (ptable s' x) = pid (ptable s x)"

lemma same_core_refl [simp]: "same_core s s x"
  by (simp add: same_core_def)

lemma same_core_trans: "same_core s s' x \<Longrightarrow> same_core s' s'' x \<Longrightarrow> same_core s s'' x"
  by (simp add: same_core_def)

lemma same_core_links: "same_but_links s s' \<Longrightarrow> same_core s s' x"
  by (simp add: same_core_def same_but_links_fields)

text \<open>The fields message passing does not touch: the saved contexts, the timer list, the time slices.\<close>

definition ctx_same :: "'a sched_scheme \<Rightarrow> 'a sched_scheme \<Rightarrow> bool" where
  "ctx_same s s' \<longleftrightarrow> nested_intr s' = nested_intr s
     \<and> (\<forall>x. context_p (ptable s' x) = context_p (ptable s x) \<and> quantum (ptable s' x) = quantum (ptable s x))"

definition timer_same :: "'a sched_scheme \<Rightarrow> 'a sched_scheme \<Rightarrow> bool" where
  "timer_same s s' \<longleftrightarrow> ctx_same s s'
     \<and> (\<forall>x. timer_next (ptable s' x) = timer_next (ptable s x)
          \<and> timer_expire (ptable s' x) = timer_expire (ptable s x)
          \<and> ticks_left (ptable s' x) = ticks_left (ptable s x))"

lemma ctx_same_refl [simp]: "ctx_same s s"
  by (simp add: ctx_same_def)

lemma ctx_same_links: "same_but_links s s' \<Longrightarrow> ctx_same s s'"
  by (simp add: ctx_same_def same_but_links_fields)

lemma ctx_same_trans: "ctx_same s s' \<Longrightarrow> ctx_same s' s'' \<Longrightarrow> ctx_same s s''"
  by (simp add: ctx_same_def)

lemma timer_same_trans: "timer_same s s' \<Longrightarrow> timer_same s' s'' \<Longrightarrow> timer_same s s''"
  by (simp add: timer_same_def ctx_same_def)

lemma timer_same_links: "same_but_links s s' \<Longrightarrow> timer_same s s'"
  by (simp add: timer_same_def ctx_same_def same_but_links_fields)

lemma task_ok_cong:
  assumes "task_ok s Q S T t" "same_core s s' t" "idle_task s' = idle_task s"
    and "queued s' Q' t = queued s Q t" "t \<in> set T' \<longleftrightarrow> t \<in> set T" "\<And>d. t \<in> set (S' d) \<longleftrightarrow> t \<in> set (S d)"
  shows "task_ok s' Q' S' T' t"
proof -
  have "live s' t = live s t" "valid_task s' t = valid_task s t"
    using assms(2,3) by (simp_all add: live_def valid_task_def same_core_def)
  moreover have "at_place s' Q' S' T' t pl = at_place s Q S T t pl" for pl
    using assms(2,4-6) by (cases pl) (simp_all add: same_core_def)
  ultimately show ?thesis using assms(1,2) by (simp add: task_ok_def same_core_def)
qed

lemma sys_rep_move:
  assumes r: "sys_rep s Q S T" and "rq_rep s' Q'" "mq_rep s' S'"
    and "idle_task s' = idle_task s" and a: "task_ok s' Q' S' T' a"
    and "\<And>t. t \<noteq> a \<Longrightarrow> same_core s s' t"
    and "\<And>t. t \<noteq> a \<Longrightarrow> t < TASK_COUNT \<Longrightarrow> queued s' Q' t = queued s Q t"
    and "\<And>t. t \<noteq> a \<Longrightarrow> t \<in> set T' \<longleftrightarrow> t \<in> set T"
    and "\<And>t d. t \<noteq> a \<Longrightarrow> t \<in> set (S' d) \<longleftrightarrow> t \<in> set (S d)"
  shows "sys_rep s' Q' S' T'"
proof -
  have "task_ok s' Q' S' T' t" if t: "t < TASK_COUNT" for t
  proof (cases "t = a")
    case False
    show ?thesis
      by (rule task_ok_cong [OF sys_repD(3) [OF r t]]) (use assms(4,6-9) False t in \<open>auto\<close>)
  qed (simp add: a)
  with assms(2,3) show ?thesis by (simp add: sys_rep_def)
qed

section \<open>Every operation keeps the invariant\<close>

lemma upd_task_upd_task: "upd_task t f (upd_task t g s) = upd_task t (\<lambda>x. f (g x)) s"
  by (simp add: upd_task_def)

lemma rq_rep_upd:
  "\<lbrakk>next_ready (f (ptable s t)) = next_ready (ptable s t); priority (f (ptable s t)) = priority (ptable s t)\<rbrakk>
   \<Longrightarrow> rq_rep (upd_task t f s) Q = rq_rep s Q"
  by (rule rq_rep_cong) simp_all

lemma rq_rep_kmem [simp]: "rq_rep (s\<lparr>kmem := m\<rparr>) Q = rq_rep s Q"
  by (rule rq_rep_cong) simp_all

lemma mq_rep_kmem [simp]: "mq_rep (s\<lparr>kmem := m\<rparr>) S = mq_rep s S"
  by (rule mq_rep_cong) simp_all

lemma mq_rep_upd:
  "\<lbrakk>message_q_next (f (ptable s t)) = message_q_next (ptable s t);
    message_q_head (f (ptable s t)) = message_q_head (ptable s t);
    message_send_to (f (ptable s t)) = message_send_to (ptable s t)\<rbrakk>
   \<Longrightarrow> mq_rep (upd_task t f s) S = mq_rep s S"
  by (rule mq_rep_cong) simp_all

lemma same_core_upd: "x \<noteq> t \<Longrightarrow> same_core s (upd_task t f s) x"
  by (simp add: same_core_def)

lemma flags_receiving:
  assumes "task_ok s Q S T t" "message_flags (ptable s t) AND MESSAGE_FLAGS_RECEIVING \<noteq> 0"
  shows "at_place s Q S T t Receiving \<and> live s t"
proof -
  from assms(1) obtain pl where pl: "at_place s Q S T t pl" "pl = Absent \<longleftrightarrow> \<not> live s t"
    by (auto simp: task_ok_def)
  from pl(1) assms(2) have "pl = Receiving" by (cases pl) (auto simp: flag_defs)
  with pl show ?thesis by simp
qed

lemma queued_upd_other:
  "priority (ptable s' t) = priority (ptable s t) \<Longrightarrow> t \<noteq> a
   \<Longrightarrow> queued s' (Q(p := Q p @ [a])) t = queued s Q t"
  "priority (ptable s' t) = priority (ptable s t) \<Longrightarrow> t \<noteq> a
   \<Longrightarrow> queued s' (Q(p := remove1 a (Q p))) t = queued s Q t"
  by (auto simp: queued_def)

lemma task_okI:
  assumes "valid_task s t" "length (message_buffer (ptable s t)) = MESSAGE_SIZE"
    "task_flags (ptable s t) AND TASK_FLAGS_AFTER_SWITCH \<noteq> 0
          \<longleftrightarrow> message_flags (ptable s t) = MESSAGE_FLAGS_DELIVERING"
    "at_place s Q S T t pl" "pl \<noteq> Absent" "live s t"
  shows "task_ok s Q S T t"
  using assms unfolding task_ok_def by blast

text \<open>A task that is not queued becomes ready: the common part of all wake-ups.\<close>

lemma sys_rep_wake:
  fixes F :: "task \<Rightarrow> task"
  assumes r: "sys_rep s Q S T" and a: "a < TASK_COUNT" "live s a" "\<not> queued s Q a"
    and rq: "rq_rep s' Q" and mq: "mq_rep s' S'" and id: "idle_task s' = idle_task s"
    and other: "\<And>t. t \<noteq> a \<Longrightarrow> same_core s s' t" "\<And>t. t \<noteq> a \<Longrightarrow> t \<in> set T' \<longleftrightarrow> t \<in> set T"
      "\<And>t d. t \<noteq> a \<Longrightarrow> t \<in> set (S' d) \<longleftrightarrow> t \<in> set (S d)"
    and self: "priority (ptable s' a) = priority (ptable s a)" "pid (ptable s' a) = pid (ptable s a)"
      "length (message_buffer (ptable s' a)) = MESSAGE_SIZE"
      "task_flags (ptable s' a) AND TASK_FLAGS_AFTER_SWITCH \<noteq> 0
          \<longleftrightarrow> message_flags (ptable s' a) = MESSAGE_FLAGS_DELIVERING"
      "message_flags (ptable s' a) \<in> {MESSAGE_FLAGS_NONE, MESSAGE_FLAGS_DELIVERING}"
      "a \<notin> set T'" "\<And>d. a \<notin> set (S' d)"
  shows "sys_rep (enqueue_task a s') (Q(priority (ptable s a) := Q (priority (ptable s a)) @ [a])) S' T'"
proof -
  let ?p = "priority (ptable s a)" and ?s = "enqueue_task a s'"
  let ?Q = "Q(?p := Q ?p @ [a])"
  have link: "same_but_links s' ?s" by (rule enqueue_task_links)
  note f = same_but_links_fields [OF link]
  have v: "valid_task s' a" using sys_repD(3) [OF r a(1)] self(1) by (simp add: task_ok_def valid_task_def)
  have nq: "a \<notin> set (Q (priority (ptable s' a)))" using a(3) self(1) by (simp add: queued_def)
  show ?thesis
  proof (rule sys_rep_move [OF r, where a = a])
    show "rq_rep ?s ?Q" using enqueue_task_rep [OF rq v nq] self(1) by simp
    show "mq_rep ?s S'" using mq mq_rep_links [OF link] by simp
    show "idle_task ?s = idle_task s" using id by simp
    show "same_core s ?s t" if "t \<noteq> a" for t
      using other(1) [OF that] same_core_links [OF link] same_core_trans by blast
    then show "queued ?s ?Q t = queued s Q t" if "t \<noteq> a" for t
      using that queued_upd_other(1) [of ?s t s a Q ?p] by (simp add: same_core_def)
    have "live ?s a" using a(2) self(2) id f by (simp add: live_def)
    moreover have "valid_task ?s a" using v f by (simp add: valid_task_def)
    moreover have "at_place ?s ?Q S' T' a Ready"
      using self(1,5-7) f by (simp add: queued_def)
    ultimately show "task_ok ?s ?Q S' T' a"
      using self(3,4) by (intro task_okI [where pl = Ready]) (simp_all add: f)
  qed (use other in auto)
qed

text \<open>A ready task leaves the ready queues: the common part of all blocking operations.\<close>

lemma sys_rep_block:
  fixes s s' :: "'a sched_scheme"
  assumes r: "sys_rep s Q S T" and a: "a < TASK_COUNT" "live s a"
    and rq: "rq_rep s' Q" and mq: "mq_rep s' S'" and id: "idle_task s' = idle_task s"
    and other: "\<And>t. t \<noteq> a \<Longrightarrow> same_core s s' t" "\<And>t. t \<noteq> a \<Longrightarrow> t \<in> set T' \<longleftrightarrow> t \<in> set T"
      "\<And>t d. t \<noteq> a \<Longrightarrow> t \<in> set (S' d) \<longleftrightarrow> t \<in> set (S d)"
    and self: "priority (ptable s' a) = priority (ptable s a)" "pid (ptable s' a) = pid (ptable s a)"
      "length (message_buffer (ptable s' a)) = MESSAGE_SIZE"
      "task_flags (ptable s' a) AND TASK_FLAGS_AFTER_SWITCH = 0"
      "message_flags (ptable s' a) \<noteq> MESSAGE_FLAGS_DELIVERING"
    and pl: "\<And>(z :: 'a sched_scheme) R. \<lbrakk>\<not> queued z R a; message_flags (ptable z a) = message_flags (ptable s' a)\<rbrakk>
       \<Longrightarrow> at_place z R S' T' a pl" "pl \<noteq> Absent"
  shows "\<exists>s''. block_task a s' = Some s'' \<and> same_but_links s' s''
     \<and> sys_rep s'' (Q(priority (ptable s a) := remove1 a (Q (priority (ptable s a))))) S' T'"
proof -
  let ?p = "priority (ptable s a)"
  let ?Q = "Q(?p := remove1 a (Q ?p))"
  have vs: "valid_prio (priority (ptable s' a))" "valid_task s a"
    using sys_repD(3) [OF r a(1)] self(1) by (simp_all add: task_ok_def valid_task_def)
  from dequeue_task_rep [OF rq vs(1)] self(1) obtain s'' where
    s'': "dequeue_task a s' = Some s''" "same_but_links s' s''" "rq_rep s'' ?Q" by auto
  note f = same_but_links_fields [OF s''(2)]
  have nq: "\<not> queued s'' ?Q a"
    using rq_rep_distinct [OF rq, of ?p] self(1) f by (simp add: queued_def)
  have "sys_rep s'' ?Q S' T'"
  proof (rule sys_rep_move [OF r, where a = a])
    show "mq_rep s'' S'" using mq mq_rep_links [OF s''(2)] by simp
    show "idle_task s'' = idle_task s" using id f by simp
    show "same_core s s'' t" if "t \<noteq> a" for t
      using other(1) [OF that] same_core_links [OF s''(2)] same_core_trans by blast
    then show "queued s'' ?Q t = queued s Q t" if "t \<noteq> a" for t
      using that queued_upd_other(2) [of s'' t s a Q ?p] by (simp add: same_core_def)
    have "live s'' a" using a(2) self(2) id f by (simp add: live_def)
    moreover have "valid_task s'' a" using vs(2) self(1) f by (simp add: valid_task_def)
    moreover have "at_place s'' ?Q S' T' a pl" using nq by (intro pl(1)) (simp_all add: f)
    ultimately show "task_ok s'' ?Q S' T' a"
      using self(3-5) pl(2) by (intro task_okI [where pl = pl]) (simp_all add: f)
  qed (use other s''(3) in auto)
  with s'' show ?thesis by (auto simp: block_task_def)
qed


section \<open>Sending\<close>

lemma at_place_ReadyD:
  "at_place s Q S T t Ready \<Longrightarrow> queued s Q t \<and> t \<notin> set T \<and> (\<forall>d. t \<notin> set (S d))"
  by simp

lemma hand_over_sys:
  assumes r: "sys_rep s Q S T" and d: "d < TASK_COUNT" "message_flags (ptable s d) AND MESSAGE_FLAGS_RECEIVING \<noteq> 0"
  shows "sys_rep (hand_over d m s) (Q(priority (ptable s d) := Q (priority (ptable s d)) @ [d])) S T"
    and "message_buffer (ptable (hand_over d m s) d) = read_bytes (kmem s) m MESSAGE_SIZE"
    and "message_flags (ptable (hand_over d m s) d) = MESSAGE_FLAGS_DELIVERING"
    and "message_ptr (ptable (hand_over d m s) d) = message_ptr (ptable s d)"
    and "kmem (hand_over d m s) = kmem s"
    and "x \<noteq> d \<Longrightarrow> same_core s (hand_over d m s) x"
    and "current_task (hand_over d m s) = current_task s"
    and "idle_task (hand_over d m s) = idle_task s" and "more (hand_over d m s) = more s"
    and "sched_coherent (hand_over d m s)" and "timer_same s (hand_over d m s)"
proof -
  let ?F = "\<lambda>t. t\<lparr>message_buffer := read_bytes (kmem s) m MESSAGE_SIZE,
     message_flags := message_flags t AND NOT MESSAGE_FLAGS_RECEIVING OR MESSAGE_FLAGS_DELIVERING,
     task_flags := task_flags t OR TASK_FLAGS_AFTER_SWITCH\<rparr>"
  have h: "hand_over d m s = enqueue_task d (upd_task d ?F s)"
    by (simp add: hand_over_def upd_task_upd_task unblock_task_def Let_def)
  have w: "at_place s Q S T d Receiving" "live s d"
    using flags_receiving [OF sys_repD(3) [OF r d(1)] d(2)] by auto
  then have f: "message_flags (?F (ptable s d)) = MESSAGE_FLAGS_DELIVERING"
    by (simp add: flag_defs)
  have nz: "(x OR TASK_FLAGS_AFTER_SWITCH) AND TASK_FLAGS_AFTER_SWITCH \<noteq> 0" for x
  proof
    assume "(x OR TASK_FLAGS_AFTER_SWITCH) AND TASK_FLAGS_AFTER_SWITCH = 0"
    then have "bit ((x OR TASK_FLAGS_AFTER_SWITCH) AND TASK_FLAGS_AFTER_SWITCH) 1 = bit (0 :: u16) 1" by simp
    then show False by (simp add: bit_simps TASK_FLAGS_AFTER_SWITCH_def)
  qed
  show "sys_rep (hand_over d m s) (Q(priority (ptable s d) := Q (priority (ptable s d)) @ [d])) S T"
    unfolding h
  proof (rule sys_rep_wake [OF r d(1) w(2)])
    show "rq_rep (upd_task d ?F s) Q" using sys_repD(1) [OF r] by (simp add: rq_rep_upd)
    show "mq_rep (upd_task d ?F s) S" using sys_repD(2) [OF r] by (simp add: mq_rep_upd)
  qed (use w f nz in \<open>auto simp: same_core_upd\<close>)
  note l = same_but_links_fields [OF enqueue_task_links [of "upd_task d ?F s" d]]
  show "message_buffer (ptable (hand_over d m s) d) = read_bytes (kmem s) m MESSAGE_SIZE"
    "message_flags (ptable (hand_over d m s) d) = MESSAGE_FLAGS_DELIVERING"
    "message_ptr (ptable (hand_over d m s) d) = message_ptr (ptable s d)"
    "kmem (hand_over d m s) = kmem s" "current_task (hand_over d m s) = current_task s"
    "idle_task (hand_over d m s) = idle_task s" "more (hand_over d m s) = more s"
    "sched_coherent (hand_over d m s)"
    using f unfolding h by (simp_all add: l enqueue_task_coherent)
  have "timer_same s (upd_task d ?F s)" by (simp add: timer_same_def ctx_same_def)
  then show "timer_same s (hand_over d m s)"
    unfolding h using timer_same_links [OF enqueue_task_links] timer_same_trans by blast
  show "same_core s (hand_over d m s) x" if "x \<noteq> d"
    unfolding h using that same_core_upd [OF that] same_core_links [OF enqueue_task_links] same_core_trans by blast
qed

lemma queue_sender_sys:
  assumes r: "sys_rep s Q S T" and c: "c < TASK_COUNT" "live s c" "at_place s Q S T c Ready"
      "message_flags (ptable s c) = MESSAGE_FLAGS_NONE" and d: "d < TASK_COUNT"
  shows "\<exists>s'. queue_sender c d m s = Some s'
     \<and> sys_rep s' (Q(priority (ptable s c) := remove1 c (Q (priority (ptable s c))))) (S(d := S d @ [c])) T
     \<and> message_buffer (ptable s' c) = read_bytes (kmem s) m MESSAGE_SIZE
     \<and> message_flags (ptable s' c) = MESSAGE_FLAGS_SENDING
     \<and> kmem s' = kmem s \<and> current_task s' = current_task s \<and> idle_task s' = idle_task s \<and> more s' = more s \<and> timer_same s s'
     \<and> (\<forall>x. x \<noteq> c \<longrightarrow> same_core s s' x)
     \<and> (sched_coherent s \<longrightarrow> sched_coherent s')"
proof -
  let ?F = "\<lambda>t. t\<lparr>message_flags := message_flags t OR MESSAGE_FLAGS_SENDING, message_send_to := Some d,
     message_buffer := read_bytes (kmem s) m MESSAGE_SIZE\<rparr>"
  let ?s1 = "upd_task c ?F s"
  have cS: "c \<notin> set (S d')" for d' using c(3) by simp
  note mq = sys_repD(2) [OF r]
  define s2 where "s2 = (if S d = [] then upd_task c (\<lambda>t. t\<lparr>message_q_next := None\<rparr>)
        (upd_task d (\<lambda>t. t\<lparr>message_q_head := Some c\<rparr>) ?s1)
      else upd_task c (\<lambda>t. t\<lparr>message_q_next := None\<rparr>)
        (upd_task (last (S d)) (\<lambda>t. t\<lparr>message_q_next := Some c\<rparr>) ?s1))"
  have fold: "(let s = upd_task c (\<lambda>t. t\<lparr>message_flags := message_flags t OR MESSAGE_FLAGS_SENDING\<rparr>) s;
          s = upd_task c (\<lambda>t. t\<lparr>message_send_to := Some d\<rparr>) s
      in upd_task c (\<lambda>t. t\<lparr>message_buffer := read_bytes (kmem s) m MESSAGE_SIZE\<rparr>) s) = ?s1"
    by (simp add: upd_task_upd_task Let_def)
  have head: "message_q_head (ptable ?s1 d) = message_q_head (ptable s d)" by simp
  have qs: "queue_sender c d m s = block_task c s2"
  proof (cases "S d = []")
    case True
    then have "message_q_head (ptable s d) = None" using mq_repD(1) [OF mq d] by simp
    with True show ?thesis
      unfolding queue_sender_def s2_def fold [unfolded Let_def] Let_def head by simp
  next
    case False
    then obtain h where h: "message_q_head (ptable s d) = Some h"
      using mq_repD(1) [OF mq d] by (cases "S d") auto
    have "chain (mq_next_of ?s1) (Some h) (S d)"
      using mq_repD(1) [OF mq d] cS [of d] h path_cong [of "S d" "mq_next_of ?s1" "mq_next_of s"] by simp
    from mq_last_chain [OF this] h False show ?thesis
      unfolding queue_sender_def s2_def fold [unfolded Let_def] Let_def head by simp
  qed
  have lS: "S d \<noteq> [] \<Longrightarrow> last (S d) \<noteq> c" using cS [of d] by (metis last_in_set)
  have core: "same_core s s2 t" if "t \<noteq> c" for t
    using that by (cases "S d = []") (simp_all add: s2_def same_core_def)
  have fields: "message_flags (ptable s2 c) = MESSAGE_FLAGS_SENDING" "priority (ptable s2 c) = priority (ptable s c)"
    "pid (ptable s2 c) = pid (ptable s c)" "task_flags (ptable s2 c) = task_flags (ptable s c)"
    "message_buffer (ptable s2 c) = read_bytes (kmem s) m MESSAGE_SIZE" "idle_task s2 = idle_task s"
    "kmem s2 = kmem s" "current_task s2 = current_task s" "more s2 = more s"
    using c(4) lS by (cases "S d = []"; auto simp: s2_def flag_defs)+
  have prio: "priority (ptable s2 x) = priority (ptable s x)" for x
    by (cases "S d = []"; auto simp: s2_def)
  have nr: "next_ready (ptable s2 x) = next_ready (ptable s x)" for x
    by (cases "S d = []"; auto simp: s2_def)
  have qh: "queue_head s2 = queue_head s" "queue_tail s2 = queue_tail s"
    by (cases "S d = []"; simp add: s2_def)+
  have rq2: "rq_rep s2 Q" using sys_repD(1) [OF r] rq_rep_cong [of s2 s Q, OF nr prio qh] by simp
  have mq2: "mq_rep s2 (S(d := S d @ [c]))"
  proof (rule mq_rep_append [OF mq c(1) d cS])
    show "mq_next_of s2 x = (if x = c then None
        else if S d \<noteq> [] \<and> x = last (S d) then Some c else mq_next_of s x)" for x
      using lS by (cases "S d = []"; simp add: s2_def)
    show "message_q_head (ptable s2 x) = (if x = d \<and> S d = [] then Some c else message_q_head (ptable s x))" for x
      using lS by (cases "S d = []"; simp add: s2_def)
    show "message_send_to (ptable s2 x) = (if x = c then Some d else message_send_to (ptable s x))" for x
      using lS by (cases "S d = []"; simp add: s2_def)
  qed
  have ok: "task_ok s Q S T c" by (rule sys_repD(3) [OF r c(1)])
  have "\<exists>s''. block_task c s2 = Some s'' \<and> same_but_links s2 s''
     \<and> sys_rep s'' (Q(priority (ptable s c) := remove1 c (Q (priority (ptable s c))))) (S(d := S d @ [c])) T"
  proof (rule sys_rep_block [OF r c(1,2) rq2 mq2, where pl = "Sending d"])
    show "task_flags (ptable s2 c) AND TASK_FLAGS_AFTER_SWITCH = 0"
      using ok c(4) fields by (auto simp: task_ok_def flag_defs)
  qed (use c(3) cS fields core in \<open>auto simp: flag_defs\<close>)
  then obtain s'' where s'': "block_task c s2 = Some s''" "same_but_links s2 s''"
      "sys_rep s'' (Q(priority (ptable s c) := remove1 c (Q (priority (ptable s c))))) (S(d := S d @ [c])) T"
    by blast
  have "sched_coherent s''" if "sched_coherent s"
  proof (rule dequeue_task_coherent [OF rq2 _ _ s''(1) [unfolded block_task_def]])
    show "valid_prio (priority (ptable s2 c))" using ok prio by (simp add: task_ok_def valid_task_def)
    have "ready s2 = ready s" by (rule ready_cong [OF nr qh(1)])
    then have "pick s2 = pick s" using fields(6) by (rule pick_cong)
    moreover have "reschedule_needed s2 = reschedule_needed s" "next_task s2 = next_task s"
      by (cases "S d = []"; simp add: s2_def)+
    ultimately show "sched_coherent s2" using that by (simp add: sched_coherent_def)
  qed
  moreover have "timer_same s s2"
    by (cases "S d = []"; simp add: s2_def timer_same_def ctx_same_def)
  then have "timer_same s s''" using timer_same_links [OF s''(2)] timer_same_trans by blast
  moreover have "same_core s s'' x" if "x \<noteq> c" for x
    using core [OF that] same_core_links [OF s''(2)] same_core_trans by blast
  ultimately show ?thesis
    unfolding qs using s'' fields by (simp add: same_but_links_fields [OF s''(2)])
qed


section \<open>Receiving\<close>

text \<open>\<open>wanted s origin\<close>: the messages a receiver with this argument accepts.\<close>

definition wanted :: "'a sched_scheme \<Rightarrow> u32 \<Rightarrow> nat \<Rightarrow> bool" where
  "wanted s origin x \<longleftrightarrow> origin = PID_ALL_TASKS \<or> origin = pid (ptable s x)"

lemma flags_sending:
  assumes "task_ok s Q S T t" "t \<in> set (S d)"
  shows "at_place s Q S T t (Sending d) \<and> live s t"
proof -
  from assms(1) obtain pl where pl: "at_place s Q S T t pl" "pl = Absent \<longleftrightarrow> \<not> live s t"
    by (auto simp: task_ok_def)
  from pl(1) assms(2) have "pl = Sending d" by (cases pl) auto
  with pl show ?thesis by simp
qed

lemma take_message_sys:
  assumes r: "sys_rep s Q S T" and Sc: "S c = us @ x # vs"
  shows "sys_rep (take_message c (prev_of us) x m s)
     (Q(priority (ptable s x) := Q (priority (ptable s x)) @ [x])) (S(c := us @ vs)) T"
    and "kmem (take_message c (prev_of us) x m s) = write_bytes (kmem s) m (message_buffer (ptable s x))"
    and "message_flags (ptable (take_message c (prev_of us) x m s) x) = MESSAGE_FLAGS_NONE"
    and "current_task (take_message c (prev_of us) x m s) = current_task s"
    and "idle_task (take_message c (prev_of us) x m s) = idle_task s"
    and "more (take_message c (prev_of us) x m s) = more s"
    and "y \<noteq> x \<Longrightarrow> same_core s (take_message c (prev_of us) x m s) y"
    and "sched_coherent (take_message c (prev_of us) x m s)"
    and "timer_same s (take_message c (prev_of us) x m s)"
proof -
  note mq = sys_repD(2) [OF r]
  have xc: "x < TASK_COUNT" "c < TASK_COUNT" using mq_repD(2,3) [OF mq, of x c] Sc by auto
  have dist: "distinct (us @ x # vs)" using mq_rep_distinct [OF mq, of c] Sc by simp
  have w: "at_place s Q S T x (Sending c)" "live s x"
    using flags_sending [OF sys_repD(3) [OF r xc(1)], of c] Sc by auto
  define m' where "m' = write_bytes (kmem s) m (message_buffer (ptable s x))"
  define s1 where "s1 = set_mq_cell c (prev_of us) (message_q_next (ptable s x)) (s\<lparr>kmem := m'\<rparr>)"
  define s2 where "s2 = upd_task x (\<lambda>t. t\<lparr>message_q_next := None, message_send_to := None,
     message_flags := message_flags t AND NOT MESSAGE_FLAGS_SENDING\<rparr>) s1"
  have tk: "take_message c (prev_of us) x m s = enqueue_task x s2"
    by (simp add: take_message_def s2_def s1_def m'_def upd_task_upd_task unblock_task_def Let_def)
  have lu: "us \<noteq> [] \<Longrightarrow> last us \<noteq> x" using dist by (metis Un_iff distinct_append disjoint_iff last_in_set list.set_intros(1))
  have core: "same_core s s1 t" for t by (simp add: s1_def set_mq_cell_def same_core_def)
  then have core2: "same_core s s2 t" if "t \<noteq> x" for t using that by (simp add: s2_def same_core_def)
  have nr: "next_ready (ptable s2 t) = next_ready (ptable s t)" for t
    by (simp add: s2_def s1_def set_mq_cell_def)
  have prio: "priority (ptable s2 t) = priority (ptable s t)" for t
    by (simp add: s2_def s1_def set_mq_cell_def)
  have glob: "queue_head s2 = queue_head s" "queue_tail s2 = queue_tail s" "idle_task s2 = idle_task s"
    "current_task s2 = current_task s" "kmem s2 = m'" "more s2 = more s"
    by (simp_all add: s2_def s1_def set_mq_cell_def)
  have rq2: "rq_rep s2 Q" using sys_repD(1) [OF r] rq_rep_cong [of s2 s Q, OF nr prio glob(1,2)] by simp
  have mq2: "mq_rep s2 (S(c := us @ vs))"
  proof (rule mq_rep_remove [OF mq Sc])
    show "mq_next_of s2 y = (if y = x then None else if us \<noteq> [] \<and> y = last us then mq_next_of s x else mq_next_of s y)" for y
      using lu by (cases "us = []"; simp add: s2_def s1_def set_mq_cell_def)
    show "message_q_head (ptable s2 d') = (if d' = c \<and> us = [] then mq_next_of s x else message_q_head (ptable s d'))" for d'
      using lu by (cases "us = []"; simp add: s2_def s1_def set_mq_cell_def)
    show "message_send_to (ptable s2 y) = (if y = x then None else message_send_to (ptable s y))" for y
      by (cases "us = []"; simp add: s2_def s1_def set_mq_cell_def)
  qed
  have ok: "task_ok s Q S T x" by (rule sys_repD(3) [OF r xc(1)])
  have f: "message_flags (ptable s2 x) = MESSAGE_FLAGS_NONE"
    using w(1) core [of x] by (simp add: s2_def same_core_def flag_defs)
  show "sys_rep (take_message c (prev_of us) x m s)
     (Q(priority (ptable s x) := Q (priority (ptable s x)) @ [x])) (S(c := us @ vs)) T"
    unfolding tk
  proof (rule sys_rep_wake [OF r xc(1) w(2) _ rq2 mq2 glob(3) core2])
    show "\<not> queued s Q x" "x \<notin> set T" using w(1) by auto
    show "priority (ptable s2 x) = priority (ptable s x)" by (rule prio)
    show "pid (ptable s2 x) = pid (ptable s x)" "length (message_buffer (ptable s2 x)) = MESSAGE_SIZE"
      using core [of x] ok by (simp_all add: s2_def same_core_def task_ok_def)
    show "(task_flags (ptable s2 x) AND TASK_FLAGS_AFTER_SWITCH \<noteq> 0) = (message_flags (ptable s2 x) = MESSAGE_FLAGS_DELIVERING)"
      using core [of x] ok w(1) f by (auto simp: s2_def same_core_def task_ok_def flag_defs)
    show "t \<in> set ((S(c := us @ vs)) d) \<longleftrightarrow> t \<in> set (S d)" if "t \<noteq> x" for t d
      using that Sc by auto
    show "x \<notin> set ((S(c := us @ vs)) d)" for d
      using w(1) dist by (cases "d = c") auto
  qed (use f in auto)
  note l = same_but_links_fields [OF enqueue_task_links [of s2 x]]
  show "kmem (take_message c (prev_of us) x m s) = write_bytes (kmem s) m (message_buffer (ptable s x))"
    "message_flags (ptable (take_message c (prev_of us) x m s) x) = MESSAGE_FLAGS_NONE"
    "current_task (take_message c (prev_of us) x m s) = current_task s"
    "idle_task (take_message c (prev_of us) x m s) = idle_task s"
    "more (take_message c (prev_of us) x m s) = more s"
    "sched_coherent (take_message c (prev_of us) x m s)"
    unfolding tk using glob f by (simp_all add: l enqueue_task_coherent m'_def)
  have "timer_same s s2"
    by (cases "us = []"; simp add: s2_def s1_def set_mq_cell_def timer_same_def ctx_same_def)
  then show "timer_same s (take_message c (prev_of us) x m s)"
    unfolding tk using timer_same_links [OF enqueue_task_links] timer_same_trans by blast
  show "same_core s (take_message c (prev_of us) x m s) y" if "y \<noteq> x"
    unfolding tk using core2 [OF that] same_core_links [OF enqueue_task_links] same_core_trans by blast
qed

lemma await_message_sys:
  assumes r: "sys_rep s Q S T" and c: "c < TASK_COUNT" "live s c" "at_place s Q S T c Ready"
      "message_flags (ptable s c) = MESSAGE_FLAGS_NONE"
  shows "\<exists>s'. await_message c origin m s = Some s'
     \<and> sys_rep s' (Q(priority (ptable s c) := remove1 c (Q (priority (ptable s c))))) S T
     \<and> message_flags (ptable s' c) = MESSAGE_FLAGS_RECEIVING
     \<and> message_ptr (ptable s' c) = m \<and> message_rec_pid (ptable s' c) = origin
     \<and> kmem s' = kmem s \<and> current_task s' = current_task s \<and> idle_task s' = idle_task s \<and> more s' = more s \<and> timer_same s s'
     \<and> (\<forall>x. x \<noteq> c \<longrightarrow> same_core s s' x)
     \<and> (sched_coherent s \<longrightarrow> sched_coherent s')"
proof -
  let ?s2 = "upd_task c (\<lambda>t. t\<lparr>message_ptr := m, message_rec_pid := origin,
     message_flags := message_flags t OR MESSAGE_FLAGS_RECEIVING\<rparr>) s"
  have eq: "await_message c origin m s = block_task c ?s2"
    by (simp add: await_message_def upd_task_upd_task Let_def)
  have rq2: "rq_rep ?s2 Q" using sys_repD(1) [OF r] by (simp add: rq_rep_upd)
  have ok: "task_ok s Q S T c" by (rule sys_repD(3) [OF r c(1)])
  have f: "message_flags (ptable ?s2 c) = MESSAGE_FLAGS_RECEIVING" using c(4) by (simp add: flag_defs)
  have "\<exists>s''. block_task c ?s2 = Some s'' \<and> same_but_links ?s2 s''
     \<and> sys_rep s'' (Q(priority (ptable s c) := remove1 c (Q (priority (ptable s c))))) S T"
  proof (rule sys_rep_block [OF r c(1,2) rq2, where pl = Receiving])
    show "mq_rep ?s2 S" using sys_repD(2) [OF r] by (simp add: mq_rep_upd)
    show "task_flags (ptable ?s2 c) AND TASK_FLAGS_AFTER_SWITCH = 0"
      using ok c(4) by (simp add: task_ok_def flag_defs)
    show "length (message_buffer (ptable ?s2 c)) = MESSAGE_SIZE" using ok by (simp add: task_ok_def)
    show "message_flags (ptable ?s2 c) \<noteq> MESSAGE_FLAGS_DELIVERING" by (simp only: f) (simp add: flag_defs)
    show "at_place z R S T c Receiving"
      if "\<not> queued z R c" "message_flags (ptable z c) = message_flags (ptable ?s2 c)" for z :: "'a sched_scheme" and R
      using that c(3) f by simp
  qed (simp_all add: same_core_upd)
  then obtain s'' where s'': "block_task c ?s2 = Some s''" "same_but_links ?s2 s''"
      "sys_rep s'' (Q(priority (ptable s c) := remove1 c (Q (priority (ptable s c))))) S T"
    by blast
  have "sched_coherent s''" if "sched_coherent s"
  proof (rule dequeue_task_coherent [OF rq2 _ _ s''(1) [unfolded block_task_def]])
    show "valid_prio (priority (ptable ?s2 c))" using ok by (simp add: task_ok_def valid_task_def)
    have "ready ?s2 = ready s" by (rule ready_cong) simp_all
    then have "pick ?s2 = pick s" by (rule pick_cong) simp
    with that show "sched_coherent ?s2" by (simp add: sched_coherent_def upd_task_def)
  qed
  moreover have "timer_same s ?s2" by (simp add: timer_same_def ctx_same_def)
  then have "timer_same s s''" using timer_same_links [OF s''(2)] timer_same_trans by blast
  moreover have "same_core s s'' x" if "x \<noteq> c" for x
    using same_core_upd [OF that] same_core_links [OF s''(2)] same_core_trans by blast
  ultimately show ?thesis
    unfolding eq using s'' f by (simp add: same_but_links_fields [OF s''(2)])
qed

section \<open>Delivering\<close>

lemma message_deliver_sys:
  assumes r: "sys_rep s Q S T" and c: "c < TASK_COUNT" "live s c" "at_place s Q S T c Ready"
    and t: "s0 = upd_task c (\<lambda>t. t\<lparr>task_flags := task_flags t AND NOT TASK_FLAGS_AFTER_SWITCH\<rparr>) s"
    and a: "task_flags (ptable s c) AND TASK_FLAGS_AFTER_SWITCH \<noteq> 0"
  shows "fst (message_deliver c s0)"
    and "sys_rep (snd (message_deliver c s0)) Q S T"
    and "message_flags (ptable (snd (message_deliver c s0)) c) = MESSAGE_FLAGS_NONE"
    and "kmem (snd (message_deliver c s0)) = write_bytes (kmem s) (message_ptr (ptable s c)) (message_buffer (ptable s c))"
    and "ready (snd (message_deliver c s0)) = ready s"
proof -
  have ok: "task_ok s Q S T c" by (rule sys_repD(3) [OF r c(1)])
  then have f: "message_flags (ptable s c) = MESSAGE_FLAGS_DELIVERING" using a by (simp add: task_ok_def)
  have "message_flags (ptable s0 c) AND MESSAGE_FLAGS_DELIVERING \<noteq> 0" using f by (simp add: t flag_defs)
  then have eq: "message_deliver c s0 = (True, upd_task c (\<lambda>t. t\<lparr>
      task_flags := task_flags t AND NOT TASK_FLAGS_AFTER_SWITCH,
      message_buffer := replicate MESSAGE_SIZE 0, message_flags := message_flags t AND NOT MESSAGE_FLAGS_DELIVERING,
      message_rec_pid := PID_NO_TASK, message_ptr := NULL\<rparr>)
      (s\<lparr>kmem := write_bytes (kmem s) (message_ptr (ptable s c)) (message_buffer (ptable s c))\<rparr>))"
    unfolding message_deliver_def t by (simp add: Let_def upd_task_def)
  then show "fst (message_deliver c s0)" by simp
  let ?s = "snd (message_deliver c s0)"
  show nf: "message_flags (ptable ?s c) = MESSAGE_FLAGS_NONE" using f by (simp add: eq flag_defs)
  show "kmem ?s = write_bytes (kmem s) (message_ptr (ptable s c)) (message_buffer (ptable s c))"
    by (simp add: eq)
  show "ready ?s = ready s" by (rule ready_cong) (simp_all add: eq)
  show "sys_rep ?s Q S T"
  proof (rule sys_rep_move [OF r, where a = c])
    show "rq_rep ?s Q" using sys_repD(1) [OF r] by (simp add: eq rq_rep_upd)
    show "mq_rep ?s S" using sys_repD(2) [OF r] by (simp add: eq mq_rep_upd)
    have "at_place ?s Q S T c Ready" using c(3) nf by (simp add: eq queued_def)
    moreover have "valid_task ?s c" using ok by (simp add: eq task_ok_def valid_task_def)
    moreover have "live ?s c" using c(2) by (simp add: eq live_def)
    moreover have "task_flags (ptable ?s c) AND TASK_FLAGS_AFTER_SWITCH = 0"
      by (simp add: eq TASK_FLAGS_AFTER_SWITCH_def and.assoc)
    ultimately show "task_ok ?s Q S T c"
      using nf by (intro task_okI [where pl = Ready]) (simp_all add: eq flag_defs)
    show "same_core s ?s t" if "t \<noteq> c" for t using that by (simp add: eq same_core_def)
    show "queued ?s Q t = queued s Q t" if "t \<noteq> c" for t using that by (simp add: eq queued_def)
  qed (simp_all add: eq)
qed

section \<open>The two operations as a whole\<close>

text \<open>A task that may make a kernel call: live, ready, no message pending.\<close>

definition runnable :: "'a sched_scheme \<Rightarrow> (int \<Rightarrow> nat list) \<Rightarrow> (nat \<Rightarrow> nat list) \<Rightarrow> nat list \<Rightarrow> nat \<Rightarrow> bool" where
  "runnable s Q S T c \<longleftrightarrow> c < TASK_COUNT \<and> live s c \<and> at_place s Q S T c Ready
     \<and> message_flags (ptable s c) = MESSAGE_FLAGS_NONE"

lemma find_task_Some:
  "find_task p s = Some d \<Longrightarrow> d < TASK_COUNT \<and> pid (ptable s d) = p \<and> p \<noteq> PID_NO_TASK \<and> p \<noteq> PID_ALL_TASKS"
  by (auto simp: find_task_def find_Some_iff split: if_splits)

lemma find_split:
  "find P xs = Some x \<Longrightarrow> \<exists>us vs. xs = us @ x # vs \<and> (\<forall>y\<in>set us. \<not> P y) \<and> P x"
proof (induction xs)
  case (Cons y xs)
  show ?case
  proof (cases "P y")
    case True
    with Cons.prems show ?thesis by (intro exI [of _ "[]"] exI [of _ xs]) auto
  next
    case False
    with Cons obtain us vs where "xs = us @ x # vs" "\<forall>y\<in>set us. \<not> P y" "P x" by auto
    with False show ?thesis by (intro exI [of _ "y # us"] exI [of _ vs]) auto
  qed
qed simp

lemma message_send_sys:
  assumes r: "sys_rep s Q S T" and c: "runnable s Q S T c" and d: "find_task p s = Some d"
  shows "\<exists>s'. message_send c p m s = Some (0, s')
     \<and> kmem s' = kmem s \<and> current_task s' = current_task s \<and> idle_task s' = idle_task s \<and> more s' = more s \<and> timer_same s s'
     \<and> (sched_coherent s \<longrightarrow> sched_coherent s')
     \<and> (if awaits s d c
        then sys_rep s' (Q(priority (ptable s d) := Q (priority (ptable s d)) @ [d])) S T
           \<and> message_buffer (ptable s' d) = read_bytes (kmem s) m MESSAGE_SIZE
           \<and> message_flags (ptable s' d) = MESSAGE_FLAGS_DELIVERING
           \<and> message_ptr (ptable s' d) = message_ptr (ptable s d)
           \<and> (\<forall>x. x \<noteq> d \<longrightarrow> same_core s s' x)
        else sys_rep s' (Q(priority (ptable s c) := remove1 c (Q (priority (ptable s c))))) (S(d := S d @ [c])) T
           \<and> message_buffer (ptable s' c) = read_bytes (kmem s) m MESSAGE_SIZE
           \<and> message_flags (ptable s' c) = MESSAGE_FLAGS_SENDING
           \<and> (\<forall>x. x \<noteq> c \<longrightarrow> same_core s s' x))"
proof -
  have dc: "d < TASK_COUNT" using find_task_Some [OF d] by simp
  show ?thesis
  proof (cases "awaits s d c")
    case True
    then have rec: "message_flags (ptable s d) AND MESSAGE_FLAGS_RECEIVING \<noteq> 0" by (simp add: awaits_def)
    have "message_send c p m s = Some (0, hand_over d m s)" using True d by (simp add: message_send_def)
    with True hand_over_sys [OF r dc rec, where m = m] show ?thesis by auto
  next
    case False
    from queue_sender_sys [OF r, where c = c and d = d and m = m] c dc obtain s' where s': "queue_sender c d m s = Some s'"
      "sys_rep s' (Q(priority (ptable s c) := remove1 c (Q (priority (ptable s c))))) (S(d := S d @ [c])) T
       \<and> message_buffer (ptable s' c) = read_bytes (kmem s) m MESSAGE_SIZE
       \<and> message_flags (ptable s' c) = MESSAGE_FLAGS_SENDING
       \<and> kmem s' = kmem s \<and> current_task s' = current_task s \<and> idle_task s' = idle_task s \<and> more s' = more s \<and> timer_same s s'
       \<and> (\<forall>x. x \<noteq> c \<longrightarrow> same_core s s' x)
       \<and> (sched_coherent s \<longrightarrow> sched_coherent s')" unfolding runnable_def by blast
    have "message_send c p m s = Some (0, s')" using False d s'(1) by (simp add: message_send_def)
    with False s'(2) show ?thesis by simp
  qed
qed

lemma message_receive_sys:
  assumes r: "sys_rep s Q S T" and c: "runnable s Q S T c" and o: "origin \<noteq> PID_NO_TASK"
  shows "\<exists>s'. message_receive c origin m s = Some (0, s')
     \<and> current_task s' = current_task s \<and> idle_task s' = idle_task s \<and> more s' = more s \<and> timer_same s s'
     \<and> (sched_coherent s \<longrightarrow> sched_coherent s')
     \<and> (case find (wanted s origin) (S c) of
          Some x \<Rightarrow> sys_rep s' (Q(priority (ptable s x) := Q (priority (ptable s x)) @ [x])) (S(c := remove1 x (S c))) T
             \<and> kmem s' = write_bytes (kmem s) m (message_buffer (ptable s x))
             \<and> message_flags (ptable s' x) = MESSAGE_FLAGS_NONE \<and> (\<forall>y. y \<noteq> x \<longrightarrow> same_core s s' y)
        | None \<Rightarrow> sys_rep s' (Q(priority (ptable s c) := remove1 c (Q (priority (ptable s c))))) S T
             \<and> kmem s' = kmem s \<and> message_flags (ptable s' c) = MESSAGE_FLAGS_RECEIVING
             \<and> message_ptr (ptable s' c) = m \<and> message_rec_pid (ptable s' c) = origin
             \<and> (\<forall>y. y \<noteq> c \<longrightarrow> same_core s s' y))"
proof -
  note mq = sys_repD(2) [OF r]
  have cc: "c < TASK_COUNT" using c by (simp add: runnable_def)
  note ch = mq_repD(1) [OF mq cc]
  show ?thesis
  proof (cases "find (wanted s origin) (S c)")
    case (Some x)
    then obtain us vs where sp: "S c = us @ x # vs" "\<forall>y\<in>set us. \<not> wanted s origin y" "wanted s origin x"
      using find_split by metis
    have "x \<notin> set us" using mq_rep_distinct [OF mq, of c] sp(1) by auto
    then have rm: "remove1 x (S c) = us @ vs" using sp(1) by (simp add: remove1_split)
    have "find_sender origin None (message_q_head (ptable s c)) s = Some (prev_of us, Some x)"
      using find_sender_path [of s "message_q_head (ptable s c)" us "x # vs" origin None] ch sp
      by (simp add: wanted_def)
    then have "message_receive c origin m s = Some (0, take_message c (prev_of us) x m s)"
      using o by (simp add: message_receive_def)
    with take_message_sys [OF r sp(1), where m = m] Some show ?thesis by (auto simp: rm)
  next
    case None
    then have "\<forall>y\<in>set (S c). \<not> wanted s origin y" by (simp add: find_None_iff)
    then have fs: "find_sender origin None (message_q_head (ptable s c)) s = Some (prev_of (S c), None)"
      using find_sender_path [of s "message_q_head (ptable s c)" "S c" "[]" origin None] ch
      by (simp add: wanted_def)
    from await_message_sys [OF r, where c = c and origin = origin and m = m] c obtain s' where s': "await_message c origin m s = Some s'"
      "sys_rep s' (Q(priority (ptable s c) := remove1 c (Q (priority (ptable s c))))) S T
       \<and> message_flags (ptable s' c) = MESSAGE_FLAGS_RECEIVING
       \<and> message_ptr (ptable s' c) = m \<and> message_rec_pid (ptable s' c) = origin
       \<and> kmem s' = kmem s \<and> current_task s' = current_task s \<and> idle_task s' = idle_task s \<and> more s' = more s \<and> timer_same s s'
       \<and> (\<forall>x. x \<noteq> c \<longrightarrow> same_core s s' x)
       \<and> (sched_coherent s \<longrightarrow> sched_coherent s')" unfolding runnable_def by blast
    have "message_receive c origin m s = Some (0, s')" using fs s'(1) o by (simp add: message_receive_def)
    with s'(2) None show ?thesis by simp
  qed
qed

section \<open>Properties of message passing\<close>

text \<open>A concrete system: 0 is the idle task, 1 waits for a message from anyone, 2 and 3 are ready.\<close>

definition demo_sys0 :: "'a \<Rightarrow> 'a sched_scheme" where
  "demo_sys0 x = \<lparr>kmem = (\<lambda>_. 0),
     ptable = (\<lambda>i.
       if i = 1 then demo_task\<lparr>pid := 1, message_flags := MESSAGE_FLAGS_RECEIVING,
                                message_rec_pid := PID_ALL_TASKS, message_ptr := 0x5000\<rparr>
       else demo_task\<lparr>pid := (if i \<le> 3 then of_nat i else PID_NO_TASK)\<rparr>),
     idle_task = Some 0, next_task = Some 2, current_task = Some 2, reschedule_needed = True,
     pid_count = 10, nested_intr = 0, queue_head = (\<lambda>_. None), queue_tail = (\<lambda>_. None), \<dots> = x\<rparr>"

definition demo_sys :: "'a \<Rightarrow> 'a sched_scheme" where
  "demo_sys x = enqueue_task 3 (enqueue_task 2 (demo_sys0 x))"

lemma demo_sys_links: "same_but_links (demo_sys0 z) (demo_sys z)"
  unfolding demo_sys_def using enqueue_task_links same_but_links_trans by blast

lemma demo_sys_rep: "sys_rep (demo_sys z) ((\<lambda>_. [])(1 := [2, 3])) (\<lambda>_. []) []"
proof -
  have v: "valid_task (demo_sys0 z) t" if "t < TASK_COUNT" for t
    using that by (simp add: valid_task_def demo_sys0_def demo_task_def valid_prio_def LOWEST_TASK_PRIORITY_def)
  have p: "priority (ptable (demo_sys0 z) t) = 1" for t by (simp add: demo_sys0_def demo_task_def)
  have "rq_rep (demo_sys0 z) (\<lambda>_. [])" by (simp add: rq_rep_def demo_sys0_def demo_sched_def)
  from enqueue_task_rep [OF this, of 2] v [of 2]
  have "rq_rep (enqueue_task 2 (demo_sys0 z)) ((\<lambda>_. [])(1 := [2]))" by (simp add: p TASK_COUNT_def)
  from enqueue_task_rep [OF this, of 3] v [of 3]
  have rq: "rq_rep (demo_sys z) ((\<lambda>_. [])(1 := [2, 3]))" by (simp add: p TASK_COUNT_def demo_sys_def)
  note l = demo_sys_links [of z]
  note f = same_but_links_fields [OF l]
  have "mq_rep (demo_sys0 z) (\<lambda>_. [])"
    by (simp add: mq_rep_def demo_sys0_def demo_task_def)
  then have mq: "mq_rep (demo_sys z) (\<lambda>_. [])" using mq_rep_links [OF l] by simp
  have "task_ok (demo_sys z) ((\<lambda>_. [])(1 := [2, 3])) (\<lambda>_. []) [] t" if t: "t < TASK_COUNT" for t
  proof -
    let ?pl = "if t = 1 then Receiving else if t = 2 \<or> t = 3 then Ready else Absent"
    have lv: "(?pl = Absent) = (\<not> live (demo_sys z) t)"
      by (auto simp: live_def f demo_sys0_def demo_task_def PID_NO_TASK_def)
    have "at_place (demo_sys z) ((\<lambda>_. [])(1 := [2, 3])) (\<lambda>_. []) [] t ?pl"
      by (auto simp: queued_def f p) (simp_all add: demo_sys0_def demo_task_def flag_defs)
    moreover have "valid_task (demo_sys z) t" using v [OF t] by (simp add: valid_task_links [OF l])
    ultimately show ?thesis
      using lv unfolding task_ok_def
      by (auto simp: f demo_sys0_def demo_task_def flag_defs MESSAGE_SIZE_def)
  qed
  with rq mq show ?thesis by (simp add: sys_rep_def)
qed

lemma demo_runnable: "runnable (demo_sys z) ((\<lambda>_. [])(1 := [2, 3])) (\<lambda>_. []) [] 2"
  by (simp add: runnable_def TASK_COUNT_def live_def same_but_links_fields [OF demo_sys_links] queued_def)
     (simp add: demo_sys0_def demo_task_def PID_NO_TASK_def flag_defs)

text \<open>C10: sending a message never fails half-way. An unknown process id returns -1 and changes
  nothing. A destination that waits for this sender (or for anyone) gets the 64 bytes and becomes
  ready behind the tasks of its priority; otherwise the sender leaves the ready queue and joins the
  end of the destination's queue of senders, with the message in its own buffer. The global
  invariant holds again in every case.\<close>

theorem message_send_spec:
  assumes "sys_rep s Q S T" "runnable s Q S T c"
  shows "case find_task p s of
      None \<Rightarrow> message_send c p m s = Some (-1, s)
    | Some d \<Rightarrow> (\<exists>s'. message_send c p m s = Some (0, s') \<and> kmem s' = kmem s
       \<and> (if awaits s d c
          then sys_rep s' (Q(priority (ptable s d) := Q (priority (ptable s d)) @ [d])) S T
             \<and> message_buffer (ptable s' d) = read_bytes (kmem s) m MESSAGE_SIZE
             \<and> message_flags (ptable s' d) = MESSAGE_FLAGS_DELIVERING
          else sys_rep s' (Q(priority (ptable s c) := remove1 c (Q (priority (ptable s c)))))
                 (S(d := S d @ [c])) T
             \<and> message_buffer (ptable s' c) = read_bytes (kmem s) m MESSAGE_SIZE
             \<and> message_flags (ptable s' c) = MESSAGE_FLAGS_SENDING))"
proof (cases "find_task p s")
  case None
  then show ?thesis by (simp add: message_send_def)
next
  case (Some d)
  from message_send_sys [OF assms Some, where m = m] Some show ?thesis by (auto split: if_splits)
qed

lemma message_send_spec_witness:
  "\<exists>s'. message_send 2 1 0x6000 (demo_sys ()) = Some (0, s') \<and> sys_rep s' ((\<lambda>_. [])(1 := [2, 3, 1])) (\<lambda>_. []) []"
proof -
  note f = same_but_links_fields [OF demo_sys_links]
  have "find_task 1 (demo_sys ()) = Some 1"
    by (auto simp: find_task_def find_Some_iff f PID_NO_TASK_def PID_ALL_TASKS_def TASK_COUNT_def
      demo_sys0_def demo_task_def intro!: exI [of _ "1 :: nat"])
  moreover have "awaits (demo_sys ()) 1 2"
    by (simp add: awaits_def f) (simp add: demo_sys0_def flag_defs)
  ultimately show ?thesis
    using message_send_spec [OF demo_sys_rep [of "()"] demo_runnable [of "()"], where p = 1 and m = "0x6000"]
    by (auto simp: f demo_sys0_def demo_task_def)
qed

text \<open>C11: receiving takes the message of the task that has waited longest among the senders the
  argument admits, copies its 64 bytes to the caller's memory, removes exactly that task from the
  queue of senders and makes it ready; without such a sender the caller leaves the ready queue and
  records where and from whom it expects the message. The invalid process id returns -1.\<close>

theorem message_receive_spec:
  assumes "sys_rep s Q S T" "runnable s Q S T c"
  shows "if origin = PID_NO_TASK then message_receive c origin m s = Some (-1, s)
    else \<exists>s'. message_receive c origin m s = Some (0, s') \<and>
      (case find (wanted s origin) (S c) of
          Some x \<Rightarrow> sys_rep s' (Q(priority (ptable s x) := Q (priority (ptable s x)) @ [x])) (S(c := remove1 x (S c))) T
             \<and> kmem s' = write_bytes (kmem s) m (message_buffer (ptable s x))
        | None \<Rightarrow> sys_rep s' (Q(priority (ptable s c) := remove1 c (Q (priority (ptable s c))))) S T
             \<and> kmem s' = kmem s \<and> message_flags (ptable s' c) = MESSAGE_FLAGS_RECEIVING
             \<and> message_ptr (ptable s' c) = m \<and> message_rec_pid (ptable s' c) = origin)"
proof (cases "origin = PID_NO_TASK")
  case True
  then show ?thesis by (simp add: message_receive_def)
next
  case False
  from message_receive_sys [OF assms False, where m = m] False show ?thesis by (auto split: option.splits)
qed

lemma message_receive_spec_witness:
  "\<exists>s'. message_receive 2 3 0x7000 (demo_sys ()) = Some (0, s') \<and> sys_rep s' ((\<lambda>_. [])(1 := [3])) (\<lambda>_. []) []"
  using message_receive_spec [OF demo_sys_rep [of "()"] demo_runnable [of "()"], where origin = 3 and m = "0x7000"]
  by (auto simp: same_but_links_fields [OF demo_sys_links] demo_sys0_def demo_task_def PID_NO_TASK_def)

end
