(* ===== verification/KClock.thy ===== *)
theory KClock
  imports KMessage
begin

text \<open>
  The system clock: src/system/kernel/clock.c. Sleeping tasks form a singly linked list in the order
  of their wake-up times (\<open>next_timer_event\<close>, linked by \<open>timer_next\<close>); the timer interrupt counts
  ticks, ends the time slice of a preemptible task and wakes the tasks whose time has come.

  A value that does not fit an \<open>int\<close> is undefined in C, and the result \<open>None\<close>; \<open>uint32_t\<close> values wrap.
\<close>

section \<open>State and operations\<close>

record clock = sched +
  clock_ticks :: u32
  next_timer_event :: "nat option"

definition KERNEL_CLOCK_FREQ :: u32 where "KERNEL_CLOCK_FREQ = 1000"

partial_function (option) wake_expired :: "'a clock_scheme \<Rightarrow> 'a clock_scheme option" where
  "wake_expired s =
     (case next_timer_event s of
        None \<Rightarrow> Some s
      | Some tsk \<Rightarrow>
          if timer_expire (ptable s tsk) \<le> clock_ticks s then
            (let s = s\<lparr>next_timer_event := timer_next (ptable s tsk)\<rparr>;
                 s = upd_task tsk (\<lambda>t. t\<lparr>timer_next := None\<rparr>) s
             in wake_expired (unblock_task tsk s))
          else Some s)"

definition end_of_slice :: "nat \<Rightarrow> 'a clock_scheme \<Rightarrow> 'a clock_scheme option" where
  "end_of_slice c s =
     (if task_flags (ptable s c) AND TASK_FLAGS_PREEMPTIBLE \<noteq> 0 then
        let s = upd_task c (\<lambda>t. t\<lparr>ticks_left := ticks_left t - 1\<rparr>) s
        in if ticks_left (ptable s c) = 0 then
             preempt (upd_task c (\<lambda>t. t\<lparr>ticks_left := quantum t\<rparr>) s)
           else Some s
      else Some s)"

definition timer_callback :: "'a clock_scheme \<Rightarrow> 'a clock_scheme option" where
  "timer_callback s =
     (case current_task s of
        None \<Rightarrow> None
      | Some c \<Rightarrow>
          Option.bind (end_of_slice c (s\<lparr>clock_ticks := clock_ticks s + 1\<rparr>))
            (\<lambda>s. if (case next_timer_event s of None \<Rightarrow> False
                    | Some t \<Rightarrow> timer_expire (ptable s t) \<le> clock_ticks s)
                 then wake_expired s else Some s))"

definition clock_setup :: "'a clock_scheme \<Rightarrow> 'a clock_scheme" where
  "clock_setup s = s\<lparr>next_timer_event := None\<rparr>"

text \<open>
  The loop of \<open>sleep_ms\<close> moves a pointer to the cell where the task belongs: \<open>None\<close> is
  \<open>next_timer_event\<close> itself, \<open>Some p\<close> the field \<open>p->timer_next\<close>.
\<close>

definition timer_cell :: "nat option \<Rightarrow> 'a clock_scheme \<Rightarrow> nat option" where
  "timer_cell prev s = (case prev of None \<Rightarrow> next_timer_event s | Some p \<Rightarrow> timer_next (ptable s p))"

definition set_timer_cell :: "nat option \<Rightarrow> nat option \<Rightarrow> 'a clock_scheme \<Rightarrow> 'a clock_scheme" where
  "set_timer_cell prev v s =
     (case prev of None \<Rightarrow> s\<lparr>next_timer_event := v\<rparr>
      | Some p \<Rightarrow> upd_task p (\<lambda>t. t\<lparr>timer_next := v\<rparr>) s)"

partial_function (option) timer_place :: "u32 \<Rightarrow> nat option \<Rightarrow> 'a clock_scheme \<Rightarrow> nat option option" where
  "timer_place ticks prev s =
     (case timer_cell prev s of
        None \<Rightarrow> Some prev
      | Some t \<Rightarrow> if ticks < timer_expire (ptable s t) then Some prev else timer_place ticks (Some t) s)"

definition fits_int :: "int \<Rightarrow> bool" where
  "fits_int x \<longleftrightarrow> - 2147483648 \<le> x \<and> x \<le> 2147483647"

definition sleep_ticks :: "u32 \<Rightarrow> u32 option" where
  "sleep_ticks ms =
     (let x = sint KERNEL_CLOCK_FREQ * sint ms
      in if fits_int x \<and> fits_int (x + 999) then Some (of_int (x + 999) div 1000) else None)"

definition sleep_ms :: "u32 \<Rightarrow> 'a clock_scheme \<Rightarrow> 'a clock_scheme option" where
  "sleep_ms ms s =
     (if sint ms \<le> 0 then Some s
      else case current_task s of
        None \<Rightarrow> None
      | Some c \<Rightarrow>
          Option.bind (sleep_ticks ms) (\<lambda>ticks.
          let ticks = ticks + clock_ticks s;
              s = upd_task c (\<lambda>t. t\<lparr>timer_expire := ticks\<rparr>) s
          in Option.bind (timer_place ticks None s) (\<lambda>prev.
               let s = upd_task c (\<lambda>t. t\<lparr>timer_next := timer_cell prev s\<rparr>) s;
                   s = set_timer_cell prev (Some c) s
               in block_task c s)))"

text \<open>At 1000 Hz a duration is its own number of ticks, as long as the product fits an \<open>int\<close>.\<close>

definition sleep_defined :: "u32 \<Rightarrow> bool" where
  "sleep_defined ms \<longleftrightarrow> sint ms \<le> 2147482"

lemma sleep_ticks_cases:
  assumes "0 < sint ms"
  shows "sleep_ticks ms = (if sleep_defined ms then Some ms else None)"
proof -
  have f: "sint KERNEL_CLOCK_FREQ = 1000" by (simp add: KERNEL_CLOCK_FREQ_def)
  show ?thesis
  proof (cases "sleep_defined ms")
    case True
    have n: "sint ms = int (unat ms)"
      using assms unat_lt_2p32 [of ms] unfolding sint_u32 by (simp split: if_splits)
    then have b: "unat ms \<le> 2147482" using True unfolding sleep_defined_def by linarith
    have "(of_int (1000 * sint ms + 999) :: u32) = of_nat (1000 * unat ms + 999)" unfolding n by simp
    moreover have "unat (of_nat (1000 * unat ms + 999) :: u32) = 1000 * unat ms + 999"
      using b by (simp add: unat_of_nat del: of_nat_add of_nat_mult)
    ultimately have "unat ((of_int (1000 * sint ms + 999) :: u32) div 1000) = unat ms" by (simp add: unat_div)
    then have "(of_int (1000 * sint ms + 999) :: u32) div 1000 = ms" by (simp only: word_unat_eq_iff)
    then show ?thesis using True assms unfolding sleep_ticks_def f Let_def fits_int_def sleep_defined_def by simp
  next
    case False
    then show ?thesis unfolding sleep_ticks_def f Let_def fits_int_def sleep_defined_def by simp
  qed
qed

section \<open>The list of sleepers\<close>

abbreviation timer_of :: "'a sched_scheme \<Rightarrow> nat \<Rightarrow> nat option" where
  "timer_of s \<equiv> \<lambda>i. timer_next (ptable s i)"

abbreviation expire_of :: "'a sched_scheme \<Rightarrow> nat \<Rightarrow> u32" where
  "expire_of s \<equiv> \<lambda>i. timer_expire (ptable s i)"

definition clk_rep ::
  "'a clock_scheme \<Rightarrow> (int \<Rightarrow> nat list) \<Rightarrow> (nat \<Rightarrow> nat list) \<Rightarrow> nat list \<Rightarrow> bool" where
  "clk_rep s Q S T \<longleftrightarrow> sys_rep s Q S T \<and> chain (timer_of s) (next_timer_event s) T
     \<and> sorted (map (expire_of s) T) \<and> set T \<subseteq> {..<TASK_COUNT}"

lemma clock_fields_cong:
  "sched.more s' = sched.more s \<Longrightarrow> clock_ticks s' = clock_ticks s"
  "sched.more s' = sched.more s \<Longrightarrow> next_timer_event s' = next_timer_event s"
  "sched.more s' = sched.more s \<Longrightarrow> clock.more s' = clock.more s"
  by (cases s; cases s'; simp)+

lemma clock_upd_task [simp]:
  "clock_ticks (upd_task t f s) = clock_ticks s" "next_timer_event (upd_task t f s) = next_timer_event s"
  "clock.more (upd_task t f s) = clock.more s"
  by (rule clock_fields_cong, simp)+

lemma clock_enqueue [simp]:
  "clock_ticks (enqueue_task t s) = clock_ticks s" "next_timer_event (enqueue_task t s) = next_timer_event s"
  "clock.more (enqueue_task t s) = clock.more s"
  by (rule clock_fields_cong, simp)+

lemma clk_repD:
  assumes "clk_rep s Q S T"
  shows "sys_rep s Q S T" "chain (timer_of s) (next_timer_event s) T"
    "sorted (map (expire_of s) T)" "t \<in> set T \<Longrightarrow> t < TASK_COUNT"
  using assms by (auto simp: clk_rep_def)

text \<open>Operations that leave the clock's fields alone keep the list.\<close>

lemma clk_rep_keep:
  assumes "clk_rep s Q S T" "sys_rep s' Q' S' T"
    and "\<And>t. t \<in> set T \<Longrightarrow> timer_of s' t = timer_of s t" "\<And>t. t \<in> set T \<Longrightarrow> expire_of s' t = expire_of s t"
    and "next_timer_event s' = next_timer_event s"
  shows "clk_rep s' Q' S' T"
proof -
  have "chain (timer_of s') (next_timer_event s') T"
    using clk_repD(2) [OF assms(1)] assms(3,5) path_cong [of T "timer_of s'" "timer_of s"] by simp
  moreover have "sorted (map (expire_of s') T)"
    using clk_repD(3) [OF assms(1)] assms(4) by (simp cong: map_cong)
  ultimately show ?thesis using assms(1,2) by (simp add: clk_rep_def)
qed

lemma sys_rep_upd_plain:
  assumes "sys_rep s Q S T"
    and "\<And>x. next_ready (f x) = next_ready x" "\<And>x. message_q_next (f x) = message_q_next x"
    "\<And>x. message_q_head (f x) = message_q_head x" "\<And>x. message_send_to (f x) = message_send_to x"
    and "\<And>x. priority (f x) = priority x" "\<And>x. message_flags (f x) = message_flags x"
    "\<And>x. task_flags (f x) = task_flags x" "\<And>x. message_buffer (f x) = message_buffer x" "\<And>x. pid (f x) = pid x"
  shows "sys_rep (upd_task t f s) Q S T"
proof -
  have "task_ok (upd_task t f s) Q S T x" if "x < TASK_COUNT" for x
    by (rule task_ok_cong [OF sys_repD(3) [OF assms(1) that]]) (simp_all add: same_core_def queued_def assms)
  then show ?thesis
    using sys_repD(1,2) [OF assms(1)] by (simp add: sys_rep_def rq_rep_upd mq_rep_upd assms)
qed

lemma at_place_clock [simp]:
  "at_place (s\<lparr>clock_ticks := n\<rparr>) Q S T x pl = at_place s Q S T x pl"
  "at_place (s\<lparr>next_timer_event := e\<rparr>) Q S T x pl = at_place s Q S T x pl"
  by (cases pl; simp add: queued_def)+

lemma sys_rep_clock [simp]:
  "sys_rep (s\<lparr>clock_ticks := n\<rparr>) Q S T = sys_rep s Q S T"
  "sys_rep (s\<lparr>next_timer_event := e\<rparr>) Q S T = sys_rep s Q S T"
  by (simp_all add: sys_rep_def rq_rep_def mq_rep_def task_ok_def valid_task_def live_def)

section \<open>Inserting into the list of sleepers\<close>

lemma chain_insert_inner:
  assumes c: "chain nx p (us @ vs)" and "us \<noteq> []" and t: "t \<notin> set (us @ vs)"
  shows "chain (nx(t := nx (last us), last us := Some t)) p (us @ t # vs)"
proof -
  obtain q where q: "path nx p us q" "chain nx q vs" using c by auto
  from chain_distinct [OF c] have d: "distinct us" "set us \<inter> set vs = {}" by auto
  from path_snoc_last [OF q(1) assms(2)] have b: "path nx p (butlast us) (Some (last us))" "q = nx (last us)"
    by auto
  have lu: "last us \<in> set us" using assms(2) by simp
  then have lu: "last us \<in> set us" "last us \<noteq> t" "last us \<notin> set vs" using t d by auto
  have nb: "last us \<notin> set (butlast us)" "t \<notin> set (butlast us)"
    using d(1) assms(2) t by (auto dest: in_set_butlastD)
      (metis append_butlast_last_id distinct_append disjoint_insert(1) list.set(2))
  let ?n = "nx(t := nx (last us), last us := Some t)"
  have "path ?n p (butlast us @ [last us]) (Some t)" using b(1) nb by simp
  then have "path ?n p us (Some t)" using assms(2) by simp
  moreover have "chain ?n (?n t) vs" using q(2) b(2) t lu by simp
  ultimately show ?thesis by auto
qed

lemma timer_place_chain:
  assumes "chain (timer_of s) (timer_cell prev s) (us @ vs)" "\<forall>t\<in>set us. expire_of s t \<le> ticks"
    "vs = [] \<or> ticks < expire_of s (hd vs)"
  shows "timer_place ticks prev s = Some (if us = [] then prev else Some (last us))"
  using assms(1,2)
proof (induction us arbitrary: prev)
  case Nil
  with assms(3) show ?case by (cases vs) (subst timer_place.simps, auto)+
next
  case (Cons u us)
  then have u: "timer_cell prev s = Some u" by simp
  have "chain (timer_of s) (timer_cell (Some u) s) (us @ vs)" using Cons.prems by (simp add: timer_cell_def)
  with Cons have "timer_place ticks (Some u) s = Some (if us = [] then Some u else Some (last us))" by simp
  with u Cons.prems(2) show ?case by (subst timer_place.simps) (auto simp: not_less)
qed

definition insert_timer :: "'a clock_scheme \<Rightarrow> u32 \<Rightarrow> nat \<Rightarrow> nat list \<Rightarrow> nat list" where
  "insert_timer s ticks c T =
     takeWhile (\<lambda>t. expire_of s t \<le> ticks) T @ c # dropWhile (\<lambda>t. expire_of s t \<le> ticks) T"

lemma set_insert_timer [simp]: "set (insert_timer s ticks c T) = insert c (set T)"
  unfolding insert_timer_def by (metis list.simps(15) set_append takeWhile_dropWhile_id Un_insert_right)

lemma sorted_insert_timer:
  assumes "sorted (map f T)" "f' c = ticks" "\<And>t. t \<in> set T \<Longrightarrow> f' t = (f t :: u32)"
  shows "sorted (map f' (takeWhile (\<lambda>t. f t \<le> ticks) T @ c # dropWhile (\<lambda>t. f t \<le> ticks) T))"
  using assms(1,3)
proof (induction T)
  case Nil
  show ?case by simp
next
  case (Cons t T)
  have IH: "sorted (map f' (takeWhile (\<lambda>t. f t \<le> ticks) T @ c # dropWhile (\<lambda>t. f t \<le> ticks) T))"
    using Cons by simp
  show ?case
  proof (cases "f t \<le> ticks")
    case True
    have "\<forall>x\<in>set (takeWhile (\<lambda>t. f t \<le> ticks) T @ c # dropWhile (\<lambda>t. f t \<le> ticks) T). f' t \<le> f' x"
      using Cons.prems True assms(2) by (auto dest: set_takeWhileD set_dropWhileD)
    with IH True show ?thesis by (simp add: ball_Un)
  next
    case False
    have "map f' (t # T) = map f (t # T)" using Cons.prems(2) by simp
    with Cons.prems(1) have "sorted (map f' (t # T))" by (simp only:)
    moreover have "\<forall>x\<in>set (t # T). f' c \<le> f' x"
      using Cons.prems False assms(2) by (auto simp: not_le)
    ultimately show ?thesis using False by (simp add: ball_Un)
  qed
qed

lemma sleep_ms_sys:
  assumes r: "clk_rep s Q S T" and c: "runnable s Q S T c" "current_task s = Some c" and ms: "0 < sint ms" "sleep_defined ms"
  defines "e \<equiv> ms + clock_ticks s"
  shows "\<exists>s'. sleep_ms ms s = Some s'
     \<and> clk_rep s' (Q(priority (ptable s c) := remove1 c (Q (priority (ptable s c))))) S (insert_timer s e c T)
     \<and> timer_expire (ptable s' c) = e \<and> clock_ticks s' = clock_ticks s
     \<and> kmem s' = kmem s \<and> current_task s' = current_task s \<and> idle_task s' = idle_task s
     \<and> clock.more s' = clock.more s \<and> (\<forall>x. same_core s s' x) \<and> ctx_same s s'
     \<and> (sched_coherent s \<longrightarrow> sched_coherent s')"
proof -
  let ?us = "takeWhile (\<lambda>t. expire_of s t \<le> e) T" and ?vs = "dropWhile (\<lambda>t. expire_of s t \<le> e) T"
  let ?T = "insert_timer s e c T"
  note sys = clk_repD(1) [OF r]
  have cc: "c < TASK_COUNT" "live s c" "at_place s Q S T c Ready" "message_flags (ptable s c) = MESSAGE_FLAGS_NONE"
    using c(1) by (auto simp: runnable_def)
  then have cT: "c \<notin> set T" by simp
  have T: "?us @ ?vs = T" by simp
  have cu: "c \<notin> set ?us" "c \<notin> set ?vs" using cT by (auto dest: set_takeWhileD set_dropWhileD)
  define s1 where "s1 = upd_task c (\<lambda>t. t\<lparr>timer_expire := e\<rparr>) s"
  have ch1: "chain (timer_of s1) (timer_cell None s1) (?us @ ?vs)"
  proof -
    have "timer_of s1 = timer_of s" by (simp add: s1_def fun_eq_iff)
    then show ?thesis using clk_repD(2) [OF r] by (simp add: T timer_cell_def s1_def)
  qed
  have lu: "?us \<noteq> [] \<Longrightarrow> last ?us \<noteq> c" using cu(1) by (metis last_in_set)
  have "timer_place e None s1 = Some (prev_of ?us)"
  proof (rule timer_place_chain [OF ch1])
    show "\<forall>t\<in>set ?us. expire_of s1 t \<le> e" using cu by (auto simp: s1_def dest: set_takeWhileD)
    show "?vs = [] \<or> e < expire_of s1 (hd ?vs)"
    proof (cases "?vs = []")
      case False
      then have "\<not> expire_of s (hd ?vs) \<le> e" using hd_dropWhile [of "\<lambda>t. expire_of s t \<le> e" T] by blast
      moreover have "hd ?vs \<noteq> c" using cu(2) False by (metis hd_in_set)
      ultimately show ?thesis by (simp add: s1_def not_le)
    qed simp
  qed
  moreover define s2 where "s2 = set_timer_cell (prev_of ?us) (Some c)
      (upd_task c (\<lambda>t. t\<lparr>timer_next := timer_cell (prev_of ?us) s1\<rparr>) s1)"
  ultimately have eq: "sleep_ms ms s = block_task c s2"
    using ms c(2) by (simp add: sleep_ms_def sleep_ticks_cases e_def s1_def Let_def)
  have ch2: "chain (timer_of s2) (next_timer_event s2) ?T"
  proof (cases "?us = []")
    case True
    with ch1 have v: "chain (timer_of s1) (next_timer_event s1) ?vs" by (simp add: timer_cell_def)
    have "timer_of s2 = (timer_of s1)(c := next_timer_event s1)" "next_timer_event s2 = Some c"
      by (simp_all add: s2_def set_timer_cell_def True timer_cell_def fun_eq_iff)
    with v True cu(2) show ?thesis by (simp add: insert_timer_def)
  next
    case False
    have "timer_of s2 = (timer_of s1)(c := timer_of s1 (last ?us), last ?us := Some c)"
      "next_timer_event s2 = next_timer_event s1"
      using False lu by (auto simp: s2_def set_timer_cell_def timer_cell_def fun_eq_iff)
    with chain_insert_inner [OF ch1 False, of c] cT show ?thesis
      by (simp add: insert_timer_def T timer_cell_def)
  qed
  have core: "same_core s s2 t" for t
    by (cases "?us = []"; simp add: s2_def s1_def set_timer_cell_def same_core_def)
  have other: "next_ready (ptable s2 t) = next_ready (ptable s t)"
    "message_q_next (ptable s2 t) = message_q_next (ptable s t)"
    "message_q_head (ptable s2 t) = message_q_head (ptable s t)"
    "message_send_to (ptable s2 t) = message_send_to (ptable s t)"
    "expire_of s2 t = (if t = c then e else expire_of s t)" for t
    by (cases "?us = []"; simp add: s2_def s1_def set_timer_cell_def)+
  have glob: "queue_head s2 = queue_head s" "queue_tail s2 = queue_tail s" "idle_task s2 = idle_task s"
    "current_task s2 = current_task s" "kmem s2 = kmem s" "clock.more s2 = clock.more s"
    "clock_ticks s2 = clock_ticks s" "reschedule_needed s2 = reschedule_needed s" "next_task s2 = next_task s"
    by (cases "?us = []"; simp add: s2_def s1_def set_timer_cell_def)+
  have prio: "priority (ptable s2 t) = priority (ptable s t)" for t using core [of t] by (simp add: same_core_def)
  have rq2: "rq_rep s2 Q" using sys_repD(1) [OF sys] rq_rep_cong [of s2 s Q, OF other(1) prio glob(1,2)] by simp
  have mq2: "mq_rep s2 S" using sys_repD(2) [OF sys] mq_rep_cong [of s2 s S, OF other(2-4)] by simp
  have ok: "task_ok s Q S T c" by (rule sys_repD(3) [OF sys cc(1)])
  have f: "message_flags (ptable s2 c) = MESSAGE_FLAGS_NONE" using core [of c] cc(4) by (simp add: same_core_def)
  have "\<exists>s''. block_task c s2 = Some s'' \<and> same_but_links s2 s''
     \<and> sys_rep s'' (Q(priority (ptable s c) := remove1 c (Q (priority (ptable s c))))) S ?T"
  proof (rule sys_rep_block [OF sys cc(1,2) rq2 mq2 glob(3) core, where pl = Sleeping])
    show "pid (ptable s2 c) = pid (ptable s c)" "length (message_buffer (ptable s2 c)) = MESSAGE_SIZE"
      "task_flags (ptable s2 c) AND TASK_FLAGS_AFTER_SWITCH = 0"
      using core [of c] ok cc(4) by (auto simp: same_core_def task_ok_def flag_defs)
    show "at_place z R S ?T c Sleeping"
      if "\<not> queued z R c" "message_flags (ptable z c) = message_flags (ptable s2 c)" for z :: "'a clock_scheme" and R
      using that cc(3) f by simp
  qed (use f prio in \<open>auto simp: flag_defs\<close>)
  then obtain s'' where s'': "block_task c s2 = Some s''" "same_but_links s2 s''"
     "sys_rep s'' (Q(priority (ptable s c) := remove1 c (Q (priority (ptable s c))))) S ?T" by blast
  note l = same_but_links_fields [OF s''(2)]
  note cl = clock_fields_cong [OF l(22)]
  have "clk_rep s'' (Q(priority (ptable s c) := remove1 c (Q (priority (ptable s c))))) S ?T"
  proof -
    have "timer_of s'' = timer_of s2" by (simp add: l fun_eq_iff)
    moreover have "sorted (map (expire_of s'') ?T)"
      unfolding insert_timer_def
      by (rule sorted_insert_timer [OF clk_repD(3) [OF r]]) (use cT in \<open>auto simp: l other\<close>)
    ultimately show ?thesis
      using s''(3) ch2 clk_repD(4) [OF r] cc(1) by (auto simp: clk_rep_def cl)
  qed
  moreover have "sched_coherent s''" if "sched_coherent s"
  proof (rule dequeue_task_coherent [OF rq2 _ _ s''(1) [unfolded block_task_def]])
    show "valid_prio (priority (ptable s2 c))" using ok prio by (simp add: task_ok_def valid_task_def)
    have "ready s2 = ready s" by (rule ready_cong [OF other(1) glob(1)])
    then have "pick s2 = pick s" using glob(3) by (rule pick_cong)
    with glob that show "sched_coherent s2" by (simp add: sched_coherent_def)
  qed
  moreover have "ctx_same s s2"
    by (cases "?us = []"; simp add: s2_def s1_def set_timer_cell_def ctx_same_def)
  then have "ctx_same s s''" using ctx_same_links [OF s''(2)] ctx_same_trans by blast
  moreover have "same_core s s'' x" for x
    using core same_core_links [OF s''(2)] same_core_trans by blast
  ultimately show ?thesis
    unfolding eq using s''(1) glob by (auto simp: l cl other)
qed


section \<open>The timer interrupt\<close>

text \<open>\<open>due\<close> are the sleepers whose time has come; \<open>add_ready\<close> puts them behind the tasks of their priorities.\<close>

definition due :: "'a clock_scheme \<Rightarrow> nat list \<Rightarrow> nat list" where
  "due s T = takeWhile (\<lambda>t. expire_of s t \<le> clock_ticks s) T"

definition not_due :: "'a clock_scheme \<Rightarrow> nat list \<Rightarrow> nat list" where
  "not_due s T = dropWhile (\<lambda>t. expire_of s t \<le> clock_ticks s) T"

definition add_ready :: "'a sched_scheme \<Rightarrow> nat list \<Rightarrow> (int \<Rightarrow> nat list) \<Rightarrow> int \<Rightarrow> nat list" where
  "add_ready s ts Q = (\<lambda>p. Q p @ filter (\<lambda>t. priority (ptable s t) = p) ts)"

lemma takeWhile_sorted:
  "sorted (map f T) \<Longrightarrow> takeWhile (\<lambda>t. f t \<le> (n :: u32)) T = filter (\<lambda>t. f t \<le> n) T"
proof (induction T)
  case (Cons t T)
  show ?case
  proof (cases "f t \<le> n")
    case False
    with Cons.prems have "\<forall>x\<in>set T. \<not> f x \<le> n" by (auto dest: order_trans)
    with False show ?thesis by (simp add: filter_empty_conv)
  qed (use Cons in simp)
qed simp

text \<open>Exactly the sleepers whose time has come are woken, because the list is sorted.\<close>

lemma set_due: "clk_rep s Q S T \<Longrightarrow> set (due s T) = {t \<in> set T. expire_of s t \<le> clock_ticks s}"
  by (simp add: due_def takeWhile_sorted [OF clk_repD(3)])

lemma wake_expired_sys:
  assumes "clk_rep s Q S T" "sched_coherent s"
  shows "\<exists>s'. wake_expired s = Some s' \<and> clk_rep s' (add_ready s (due s T) Q) S (not_due s T)
     \<and> clock_ticks s' = clock_ticks s \<and> kmem s' = kmem s \<and> current_task s' = current_task s
     \<and> idle_task s' = idle_task s \<and> clock.more s' = clock.more s \<and> (\<forall>x. same_core s s' x) \<and> ctx_same s s'
     \<and> sched_coherent s'"
  using assms
proof (induction T arbitrary: s Q)
  case Nil
  then have "next_timer_event s = None" using clk_repD(2) [OF Nil(1)] by simp
  then show ?case using Nil by (subst wake_expired.simps) (auto simp: due_def not_due_def add_ready_def)
next
  case (Cons t T)
  note r = Cons.prems(1)
  have ne: "next_timer_event s = Some t" using clk_repD(2) [OF r] by simp
  show ?case
  proof (cases "expire_of s t \<le> clock_ticks s")
    case False
    with ne r Cons.prems(2) show ?thesis
      by (subst wake_expired.simps) (auto simp: due_def not_due_def add_ready_def)
  next
    case True
    let ?s1 = "upd_task t (\<lambda>x. x\<lparr>timer_next := None\<rparr>) (s\<lparr>next_timer_event := timer_next (ptable s t)\<rparr>)"
    let ?s2 = "enqueue_task t ?s1"
    let ?p = "priority (ptable s t)"
    let ?Q = "Q(?p := Q ?p @ [t])"
    note sys = clk_repD(1) [OF r]
    have tc: "t < TASK_COUNT" using clk_repD(4) [OF r] by simp
    have dT: "t \<notin> set T" using chain_distinct [OF clk_repD(2) [OF r]] by simp
    have ok: "task_ok s Q S (t # T) t" by (rule sys_repD(3) [OF sys tc])
    then obtain pl where pl: "at_place s Q S (t # T) t pl" "(pl = Absent) = (\<not> live s t)" by (auto simp: task_ok_def)
    then have w: "at_place s Q S (t # T) t Sleeping" "live s t" by (cases pl; simp)+
    have l2: "same_but_links ?s1 ?s2" by (rule enqueue_task_links)
    note l = same_but_links_fields [OF l2]
    have sys2: "sys_rep ?s2 ?Q S T"
    proof (rule sys_rep_wake [OF sys tc w(2)])
      show "rq_rep ?s1 Q" using sys_repD(1) [OF sys] rq_rep_cong [of ?s1 s Q] by simp
      show "mq_rep ?s1 S" using sys_repD(2) [OF sys] mq_rep_cong [of ?s1 s S] by simp
    qed (use ok w dT in \<open>auto simp: same_core_def task_ok_def flag_defs\<close>)
    have ch: "chain (timer_of ?s2) (next_timer_event ?s2) T"
    proof -
      have "timer_of ?s2 = (timer_of s)(t := None)" by (simp add: l fun_eq_iff)
      with clk_repD(2) [OF r] dT show ?thesis by simp
    qed
    have ex: "expire_of ?s2 x = expire_of s x" for x by (simp add: l)
    have r2: "clk_rep ?s2 ?Q S T"
      using sys2 ch clk_repD(3,4) [OF r] by (auto simp: clk_rep_def ex)
    have core: "same_core s ?s2 x" for x by (simp add: same_core_def l)
    have ctx: "ctx_same s ?s2" by (simp add: ctx_same_def l)
    have dd: "due s (t # T) = t # due ?s2 T" "not_due s (t # T) = not_due ?s2 T"
      using True by (simp_all add: due_def not_due_def ex)
    have Q2: "add_ready ?s2 (due ?s2 T) ?Q = add_ready s (due s (t # T)) Q"
    proof
      have pr: "priority (ptable ?s2 x) = priority (ptable s x)" for x
        using core by (simp add: same_core_def)
      show "add_ready ?s2 (due ?s2 T) ?Q p = add_ready s (due s (t # T)) Q p" for p
        unfolding add_ready_def dd pr by simp
    qed
    have "wake_expired s = wake_expired ?s2"
      using ne True by (subst wake_expired.simps) (simp add: unblock_task_def)
    moreover from Cons.IH [OF r2 enqueue_task_coherent] obtain s' where
      "wake_expired ?s2 = Some s'" "clk_rep s' (add_ready ?s2 (due ?s2 T) ?Q) S (not_due ?s2 T)"
      "clock_ticks s' = clock_ticks ?s2" "kmem s' = kmem ?s2" "current_task s' = current_task ?s2"
      "idle_task s' = idle_task ?s2" "clock.more s' = clock.more ?s2" "\<forall>x. same_core ?s2 s' x" "sched_coherent s'" "ctx_same ?s2 s'" by blast
    moreover have "\<forall>x. same_core s s' x" using core calculation(9) same_core_trans by blast
    moreover have "ctx_same s s'" by (rule ctx_same_trans [OF ctx calculation(11)])
    ultimately show ?thesis by (intro exI [of _ s']) (simp add: Q2 dd)
  qed
qed

text \<open>The end of a time slice moves the running task behind the others of its priority.\<close>

definition slice_over :: "'a sched_scheme \<Rightarrow> nat \<Rightarrow> bool" where
  "slice_over s c \<longleftrightarrow> task_flags (ptable s c) AND TASK_FLAGS_PREEMPTIBLE \<noteq> 0 \<and> ticks_left (ptable s c) = 1"

definition requeued :: "'a sched_scheme \<Rightarrow> nat \<Rightarrow> (int \<Rightarrow> nat list) \<Rightarrow> int \<Rightarrow> nat list" where
  "requeued s c Q = Q(priority (ptable s c) := remove1 c (Q (priority (ptable s c))) @ [c])"

lemma sys_rep_requeue:
  assumes r: "sys_rep s Q S T" and q: "queued s Q c" "c < TASK_COUNT" and cur: "current_task s = Some c"
  shows "\<exists>s'. preempt s = Some s' \<and> sys_rep s' (requeued s c Q) S T \<and> same_but_links s s' \<and> sched_coherent s'"
proof -
  have v: "valid_task s c" using sys_repD(3) [OF r q(2)] by (simp add: task_ok_def)
  from preempt_rep [OF sys_repD(1) [OF r] v cur] obtain s' where
    s': "preempt s = Some s'" "rq_rep s' (requeued s c Q)" "same_but_links s s'" "sched_coherent s'"
    unfolding requeued_def by blast
  have "task_ok s' (requeued s c Q) S T t" if t: "t < TASK_COUNT" for t
  proof (rule task_ok_cong [OF sys_repD(3) [OF r t] same_core_links [OF s'(3)]])
    show "queued s' (requeued s c Q) t = queued s Q t"
      using q(1) rq_rep_distinct [OF sys_repD(1) [OF r], of "priority (ptable s c)"]
      by (auto simp: queued_def requeued_def same_but_links_fields [OF s'(3)] set_remove1_eq)
  qed (simp_all add: same_but_links_fields [OF s'(3)])
  with s' mq_rep_links [OF s'(3)] sys_repD(2) [OF r] show ?thesis by (auto simp: sys_rep_def)
qed

lemma end_of_slice_sys:
  assumes r: "clk_rep s Q S T" and c: "c < TASK_COUNT" "current_task s = Some c"
    and q: "task_flags (ptable s c) AND TASK_FLAGS_PREEMPTIBLE \<noteq> 0 \<Longrightarrow> queued s Q c" and co: "sched_coherent s"
  shows "\<exists>s'. end_of_slice c s = Some s'
     \<and> clk_rep s' (if slice_over s c then requeued s c Q else Q) S T
     \<and> clock_ticks s' = clock_ticks s \<and> kmem s' = kmem s \<and> current_task s' = current_task s
     \<and> idle_task s' = idle_task s \<and> clock.more s' = clock.more s \<and> (\<forall>x. same_core s s' x) \<and> ctx_same s s'
     \<and> (\<forall>x. expire_of s' x = expire_of s x)
     \<and> (\<forall>x. x \<noteq> c \<longrightarrow> ticks_left (ptable s' x) = ticks_left (ptable s x))
     \<and> (\<forall>x. quantum (ptable s' x) = quantum (ptable s x))
     \<and> ticks_left (ptable s' c) = (if slice_over s c then quantum (ptable s c)
           else if task_flags (ptable s c) AND TASK_FLAGS_PREEMPTIBLE \<noteq> 0 then ticks_left (ptable s c) - 1
           else ticks_left (ptable s c))
     \<and> sched_coherent s'"
proof (cases "task_flags (ptable s c) AND TASK_FLAGS_PREEMPTIBLE = 0")
  case True
  then show ?thesis using r co by (auto simp: end_of_slice_def slice_over_def)
next
  case False
  let ?s1 = "upd_task c (\<lambda>t. t\<lparr>ticks_left := ticks_left t - 1\<rparr>) s"
  let ?s2 = "upd_task c (\<lambda>t. t\<lparr>ticks_left := quantum t\<rparr>) ?s1"
  have plain: "sys_rep ?s1 Q S T" by (rule sys_rep_upd_plain [OF clk_repD(1) [OF r]]) simp_all
  have plain2: "sys_rep ?s2 Q S T" by (rule sys_rep_upd_plain [OF plain]) simp_all
  have zero: "ticks_left (ptable s c) - 1 = 0 \<longleftrightarrow> ticks_left (ptable s c) = 1" by (metis eq_iff_diff_eq_0)
  show ?thesis
  proof (cases "ticks_left (ptable s c) = 1")
    case False
    have "clk_rep ?s1 Q S T" by (rule clk_rep_keep [OF r plain]) simp_all
    moreover have "ready ?s1 = ready s" by (rule ready_cong) simp_all
    then have "pick ?s1 = pick s" by (rule pick_cong) simp
    with co have "sched_coherent ?s1" by (simp add: sched_coherent_def)
    ultimately show ?thesis using False zero \<open>task_flags (ptable s c) AND TASK_FLAGS_PREEMPTIBLE \<noteq> 0\<close>
      by (simp add: end_of_slice_def slice_over_def Let_def same_core_def ctx_same_def)
  next
    case True
    have "queued ?s2 Q c" using q False by (simp add: queued_def)
    from sys_rep_requeue [OF plain2 this c(1)] c(2) obtain s' where
      s': "preempt ?s2 = Some s'" "sys_rep s' (requeued ?s2 c Q) S T" "same_but_links ?s2 s'" "sched_coherent s'"
      by auto
    note l = same_but_links_fields [OF s'(3)]
    note cl = clock_fields_cong [OF l(22)]
    have "requeued ?s2 c Q = requeued s c Q" by (simp add: requeued_def)
    with s'(2) have "clk_rep s' (requeued s c Q) S T"
      using clk_rep_keep [OF r, of s' "requeued s c Q" S] by (simp add: l cl)
    with s' True False show ?thesis
      by (simp add: end_of_slice_def slice_over_def Let_def same_core_def ctx_same_def l cl)
  qed
qed


definition after_slice :: "'a sched_scheme \<Rightarrow> nat \<Rightarrow> (int \<Rightarrow> nat list) \<Rightarrow> int \<Rightarrow> nat list" where
  "after_slice s c Q = (if slice_over s c then requeued s c Q else Q)"

abbreviation ticked :: "'a clock_scheme \<Rightarrow> 'a clock_scheme" where
  "ticked s \<equiv> s\<lparr>clock_ticks := clock_ticks s + 1\<rparr>"

lemma timer_callback_sys:
  assumes r: "clk_rep s Q S T" and c: "c < TASK_COUNT" "current_task s = Some c"
    and q: "task_flags (ptable s c) AND TASK_FLAGS_PREEMPTIBLE \<noteq> 0 \<Longrightarrow> queued s Q c" and co: "sched_coherent s"
  shows "\<exists>s'. timer_callback s = Some s'
     \<and> clk_rep s' (add_ready s (due (ticked s) T) (after_slice s c Q)) S (not_due (ticked s) T)
     \<and> clock_ticks s' = clock_ticks s + 1 \<and> kmem s' = kmem s \<and> current_task s' = current_task s
     \<and> idle_task s' = idle_task s \<and> clock.more s' = clock.more s \<and> (\<forall>x. same_core s s' x) \<and> ctx_same s s'
     \<and> sched_coherent s'"
proof -
  let ?s0 = "ticked s"
  have r0: "clk_rep ?s0 Q S T" using r by (simp add: clk_rep_def)
  have "ready ?s0 = ready s" by (rule ready_cong) simp_all
  then have "pick ?s0 = pick s" by (rule pick_cong) simp
  with co have co0: "sched_coherent ?s0" by (simp add: sched_coherent_def)
  have q0: "queued ?s0 Q c" if "task_flags (ptable ?s0 c) AND TASK_FLAGS_PREEMPTIBLE \<noteq> 0"
    using q that by (simp add: queued_def)
  from end_of_slice_sys [OF r0 c(1) _ q0 co0] c(2) obtain s1 where s1:
    "end_of_slice c ?s0 = Some s1" "clk_rep s1 (after_slice ?s0 c Q) S T" "clock_ticks s1 = clock_ticks s + 1"
    "kmem s1 = kmem s" "current_task s1 = current_task s" "idle_task s1 = idle_task s"
    "clock.more s1 = clock.more s" "\<forall>x. same_core ?s0 s1 x" "\<forall>x. expire_of s1 x = expire_of s x" "sched_coherent s1" "ctx_same ?s0 s1"
    unfolding after_slice_def by auto
  have as: "after_slice ?s0 c Q = after_slice s c Q" by (simp add: after_slice_def slice_over_def requeued_def)
  have core: "same_core s s1 x" for x using s1(8) by (simp add: same_core_def)
  have dd: "due s1 T = due ?s0 T" "not_due s1 T = not_due ?s0 T" using s1(3,9) by (simp_all add: due_def not_due_def)
  have ar: "add_ready s1 ts R = add_ready s ts R" for ts R using core by (simp add: add_ready_def same_core_def)
  from wake_expired_sys [OF s1(2,10)] obtain s' where s':
    "wake_expired s1 = Some s'" "clk_rep s' (add_ready s (due ?s0 T) (after_slice s c Q)) S (not_due ?s0 T)"
    "clock_ticks s' = clock_ticks s + 1" "kmem s' = kmem s" "current_task s' = current_task s"
    "idle_task s' = idle_task s" "clock.more s' = clock.more s" "\<forall>x. same_core s1 s' x" "sched_coherent s'" "ctx_same s1 s'"
    unfolding dd ar as using s1(3-7) by auto
  have "timer_callback s = (if (case next_timer_event s1 of None \<Rightarrow> False
       | Some t \<Rightarrow> timer_expire (ptable s1 t) \<le> clock_ticks s1) then wake_expired s1 else Some s1)"
    using c(2) s1(1) by (simp add: timer_callback_def)
  also have "\<dots> = wake_expired s1"
    by (simp add: wake_expired.simps [of s1] split: option.split)
  finally have "timer_callback s = Some s'" using s'(1) by simp
  moreover have "\<forall>x. same_core s s' x" using core s'(8) same_core_trans by blast
  moreover have "ctx_same s s1" using s1(11) by (simp add: ctx_same_def)
  then have "ctx_same s s'" using s'(10) ctx_same_trans by blast
  ultimately show ?thesis using s' by blast
qed

lemma sys_rep_ext:
  assumes "ptable s' = ptable s" "queue_head s' = queue_head s" "queue_tail s' = queue_tail s"
    "idle_task s' = idle_task s"
  shows "sys_rep s' Q S T = sys_rep s Q S T"
proof -
  have "at_place s' Q S T t pl = at_place s Q S T t pl" for t pl
    by (cases pl) (simp_all add: queued_def assms)
  then show ?thesis
    by (simp add: sys_rep_def rq_rep_def mq_rep_def task_ok_def valid_task_def live_def assms)
qed

lemma clk_rep_ext:
  assumes "ptable s' = ptable s" "queue_head s' = queue_head s" "queue_tail s' = queue_tail s"
    "idle_task s' = idle_task s" "next_timer_event s' = next_timer_event s"
  shows "clk_rep s' Q S T = clk_rep s Q S T"
  using sys_rep_ext [OF assms(1-4)] assms(1,5) by (simp add: clk_rep_def)

text \<open>A concrete system with a clock, nobody sleeping.\<close>

definition demo_clock :: clock where
  "demo_clock = demo_sys (clock.fields 99 None)"

lemma demo_clock_fields [simp]:
  "current_task demo_clock = Some 2" "priority (ptable demo_clock t) = 1"
  "clock_ticks demo_clock = 99" "next_timer_event demo_clock = None"
proof -
  note f = same_but_links_fields [OF demo_sys_links, of "clock.fields 99 None"]
  show "current_task demo_clock = Some 2" "priority (ptable demo_clock t) = 1"
    by (simp_all add: demo_clock_def f) (simp_all add: demo_sys0_def demo_task_def)
  have m: "sched.more demo_clock = sched.more (demo_sys0 (clock.fields 99 None))"
    by (simp add: demo_clock_def f)
  show "clock_ticks demo_clock = 99" "next_timer_event demo_clock = None"
    by (simp_all add: clock_fields_cong [OF m]) (simp_all add: demo_sys0_def clock.defs)
qed

lemma demo_clock_runnable: "runnable demo_clock ((\<lambda>_. [])(1 := [2, 3])) (\<lambda>_. []) [] 2"
  unfolding demo_clock_def by (rule demo_runnable)

lemma demo_clock_rep: "clk_rep demo_clock ((\<lambda>_. [])(1 := [2, 3])) (\<lambda>_. []) []"
  using demo_sys_rep [of "clock.fields 99 None", folded demo_clock_def] by (simp add: clk_rep_def)

lemma demo_clock_coherent: "sched_coherent demo_clock"
  by (simp add: demo_clock_def demo_sys_def enqueue_task_coherent)

text \<open>The same system at any time, after task 2 has gone to sleep.\<close>

lemma demo_sleeper:
  assumes "0 < sint ms" "sleep_defined ms"
  obtains s0 s where "s0 = demo_clock\<lparr>clock_ticks := now\<rparr>" "sleep_ms ms s0 = Some s" "expire_of s 2 = now + ms" "clock_ticks s = now"
    "clk_rep (s\<lparr>current_task := Some 3\<rparr>) ((\<lambda>_. [])(1 := [3])) (\<lambda>_. []) [2]" "sched_coherent (s\<lparr>current_task := Some 3\<rparr>)"
    "\<forall>x. same_core demo_clock s x"
proof -
  let ?s0 = "demo_clock\<lparr>clock_ticks := now\<rparr>"
  have r: "clk_rep ?s0 ((\<lambda>_. [])(1 := [2, 3])) (\<lambda>_. []) []"
    by (rule iffD2 [OF clk_rep_ext demo_clock_rep]) simp_all
  have run: "runnable ?s0 ((\<lambda>_. [])(1 := [2, 3])) (\<lambda>_. []) [] 2"
    using demo_clock_runnable by (simp add: runnable_def live_def queued_def)
  have "ready ?s0 = ready demo_clock" by (rule ready_cong) simp_all
  then have "pick ?s0 = pick demo_clock" by (rule pick_cong) simp
  then have co: "sched_coherent ?s0" using demo_clock_coherent by (simp add: sched_coherent_def)
  from sleep_ms_sys [OF r run _ assms] obtain s where s: "sleep_ms ms ?s0 = Some s" "timer_expire (ptable s 2) = ms + now"
    "clk_rep s ((\<lambda>_. [])(1 := [3])) (\<lambda>_. []) [2]" "clock_ticks s = now" "\<forall>x. same_core ?s0 s x" "sched_coherent s"
    using co by (auto simp: insert_timer_def)
  let ?s = "s\<lparr>current_task := Some 3\<rparr>"
  have "clk_rep ?s ((\<lambda>_. [])(1 := [3])) (\<lambda>_. []) [2]" by (rule iffD2 [OF clk_rep_ext s(3)]) simp_all
  moreover have "ready ?s = ready s" by (rule ready_cong) simp_all
  then have "pick ?s = pick s" by (rule pick_cong) simp
  then have "sched_coherent ?s" using s(6) by (simp add: sched_coherent_def)
  ultimately show ?thesis using that [OF refl] s by (simp add: add.commute same_core_def)
qed

lemma demo_sleeper_wakes:
  assumes "0 < sint ms" "sleep_defined ms" "now + ms \<le> now + 1"
  obtains s0 s s' where "s0 = demo_clock\<lparr>clock_ticks := now\<rparr>" "sleep_ms ms s0 = Some s" "timer_callback (s\<lparr>current_task := Some 3\<rparr>) = Some s'"
    "clk_rep s' ((\<lambda>_. [])(1 := [3, 2])) (\<lambda>_. []) []"
proof -
  obtain s0 s where s: "s0 = demo_clock\<lparr>clock_ticks := now\<rparr>" "sleep_ms ms s0 = Some s" "expire_of s 2 = now + ms" "clock_ticks s = now"
    "clk_rep (s\<lparr>current_task := Some 3\<rparr>) ((\<lambda>_. [])(1 := [3])) (\<lambda>_. []) [2]" "sched_coherent (s\<lparr>current_task := Some 3\<rparr>)"
    "\<forall>x. same_core demo_clock s x"
    by (rule demo_sleeper [OF assms(1,2)])
  let ?s = "s\<lparr>current_task := Some 3\<rparr>"
  have pr: "priority (ptable s x) = 1" for x using s(7) by (simp add: same_core_def)
  have "queued ?s ((\<lambda>_. [])(1 := [3])) 3" by (simp add: queued_def pr)
  from timer_callback_sys [OF s(5) _ _ this s(6)] obtain s' where s': "timer_callback ?s = Some s'"
    "clk_rep s' (add_ready ?s (due (ticked ?s) [2]) (after_slice ?s 3 ((\<lambda>_. [])(1 := [3])))) (\<lambda>_. []) (not_due (ticked ?s) [2])"
    by (auto simp: TASK_COUNT_def)
  have "due (ticked ?s) [2] = [2]" "not_due (ticked ?s) [2] = []"
    using assms(3) s(3,4) by (simp_all add: due_def not_due_def)
  moreover have "after_slice ?s 3 ((\<lambda>_. [])(1 := [3])) = (\<lambda>_. [])(1 := [3])" by (simp add: after_slice_def requeued_def pr)
  moreover have "add_ready ?s [2] ((\<lambda>_. [])(1 := [3])) = (\<lambda>_. [])(1 := [3, 2])" by (auto simp: add_ready_def pr)
  ultimately have "clk_rep s' ((\<lambda>_. [])(1 := [3, 2])) (\<lambda>_. []) []" using s'(2) by simp
  then show ?thesis using that [OF s(1,2) s'(1)] by blast
qed

section \<open>Properties of the clock\<close>

text \<open>C12: Each timer interrupt makes ready exactly the sleepers whose wake-up time, as a 32-bit tick count, is not after
  the new tick count, in the order of their wake-up times, each behind the ready tasks of its priority; all others keep
  sleeping. The running task goes to the end of its queue exactly when its time slice ends, and the invariant of the whole
  task table is kept. The comparison is of counts that wrap after 49 days, so a wake-up time beyond the wrap is taken for
  one that has passed.\<close>

theorem timer_callback_wakes:
  assumes "clk_rep s Q S T" "sched_coherent s" "c < TASK_COUNT" "current_task s = Some c"
    and "task_flags (ptable s c) AND TASK_FLAGS_PREEMPTIBLE \<noteq> 0 \<Longrightarrow> queued s Q c"
  shows "\<exists>s' ts ts'. timer_callback s = Some s' \<and> T = ts @ ts'
     \<and> set ts = {t \<in> set T. timer_expire (ptable s t) \<le> clock_ticks s + 1}
     \<and> clk_rep s' (add_ready s ts (after_slice s c Q)) S ts'
     \<and> clock_ticks s' = clock_ticks s + 1 \<and> sched_coherent s'"
proof -
  from timer_callback_sys [OF assms(1,3,4,5,2)] obtain s' where s': "timer_callback s = Some s'"
    "clk_rep s' (add_ready s (due (ticked s) T) (after_slice s c Q)) S (not_due (ticked s) T)"
    "clock_ticks s' = clock_ticks s + 1" "sched_coherent s'" by blast
  have r0: "clk_rep (ticked s) Q S T" using assms(1) by (simp add: clk_rep_def)
  have "T = due (ticked s) T @ not_due (ticked s) T" by (simp add: due_def not_due_def)
  moreover have "set (due (ticked s) T) = {t \<in> set T. timer_expire (ptable s t) \<le> clock_ticks s + 1}"
    using set_due [OF r0] by simp
  ultimately show ?thesis using s' by blast
qed

lemma timer_callback_wakes_witness:
  "\<exists>(s :: clock) s' ts ts'. clk_rep s ((\<lambda>_. [])(1 := [3])) (\<lambda>_. []) [2] \<and> timer_callback s = Some s' \<and> [2 :: nat] = ts @ ts' \<and> set ts = {2}
    \<and> clock_ticks s' = 100"
proof -
  obtain s where s: "expire_of s 2 = 99 + 1" "clock_ticks s = 99" "clk_rep (s\<lparr>current_task := Some 3\<rparr>) ((\<lambda>_. [])(1 := [3])) (\<lambda>_. []) [2]"
    "sched_coherent (s\<lparr>current_task := Some 3\<rparr>)" "\<forall>x. same_core demo_clock s x"
    by (rule demo_sleeper [of 1 99]) (simp_all add: sleep_defined_def)
  have "queued (s\<lparr>current_task := Some 3\<rparr>) ((\<lambda>_. [])(1 := [3])) 3" using s(5) by (simp add: queued_def same_core_def)
  from timer_callback_wakes [OF s(3,4) _ _ this] obtain s' ts ts' where
    "timer_callback (s\<lparr>current_task := Some 3\<rparr>) = Some s'" "[2] = ts @ ts'" "clock_ticks s' = 100"
      "set ts = {t \<in> {2}. expire_of s t \<le> 100}"
    using s(2) by (auto simp: TASK_COUNT_def)
  moreover have "{t \<in> {2}. expire_of s t \<le> 100} = {2}" using s(1) by auto
  ultimately show ?thesis
    using s(3) by auto
qed

text \<open>Ten ticks before the counter wraps, a task that asks for 20 ms is ready again at the next tick.\<close>

theorem tick_wrap_wakes_early:
  "\<exists>s s'. sleep_ms 20 (demo_clock\<lparr>clock_ticks := - 10\<rparr>) = Some s \<and> timer_callback (s\<lparr>current_task := Some 3\<rparr>) = Some s'
    \<and> clk_rep s' ((\<lambda>_. [])(1 := [3, 2])) (\<lambda>_. []) []"
proof -
  obtain s0 s s' where "s0 = demo_clock\<lparr>clock_ticks := - 10\<rparr>" "sleep_ms 20 s0 = Some s" "timer_callback (s\<lparr>current_task := Some 3\<rparr>) = Some s'"
    "clk_rep s' ((\<lambda>_. [])(1 := [3, 2])) (\<lambda>_. []) []"
    by (rule demo_sleeper_wakes [of 20 "- 10"]) (simp_all add: sleep_defined_def)
  then show ?thesis by blast
qed

text \<open>C13: \<open>sleep_ms\<close> puts the running task into the list of sleepers at the place of its wake-up time,
  which is the duration in milliseconds after the present tick, behind those with the same time, and takes it off the
  ready queues; a duration that is not positive does nothing, and one from 2147483 ms on overflows an \<open>int\<close>, which is
  undefined (\<open>None\<close>).\<close>

theorem sleep_ms_spec:
  assumes "clk_rep s Q S T" "runnable s Q S T c" "current_task s = Some c"
  shows "if sint ms \<le> 0 then sleep_ms ms s = Some s
    else if 2147483 \<le> sint ms then sleep_ms ms s = None
    else \<exists>s'. sleep_ms ms s = Some s'
     \<and> timer_expire (ptable s' c) = clock_ticks s + ms
     \<and> clk_rep s' (Q(priority (ptable s c) := remove1 c (Q (priority (ptable s c))))) S
         (takeWhile (\<lambda>t. timer_expire (ptable s t) \<le> clock_ticks s + ms) T
          @ c # dropWhile (\<lambda>t. timer_expire (ptable s t) \<le> clock_ticks s + ms) T)"
proof (cases "sint ms \<le> 0")
  case True
  then show ?thesis by (simp add: sleep_ms_def)
next
  case False
  then have p: "0 < sint ms" by simp
  show ?thesis
  proof (cases "2147483 \<le> sint ms")
    case True
    then show ?thesis using p assms(3) by (simp add: sleep_ms_def sleep_ticks_cases sleep_defined_def)
  next
    case False
    then have "sleep_defined ms" by (simp add: sleep_defined_def)
    from sleep_ms_sys [OF assms p this] False p show ?thesis
      by (auto simp: insert_timer_def add.commute)
  qed
qed

lemma sleep_ms_spec_witness:
  "\<exists>s'. sleep_ms 2000 demo_clock = Some s' \<and> timer_expire (ptable s' 2) = 2099
    \<and> clk_rep s' ((\<lambda>_. [])(1 := [3])) (\<lambda>_. []) [2]"
  using sleep_ms_spec [OF demo_clock_rep demo_clock_runnable, of 2000] by simp



end
