(* ===== verification/KKernel.thy ===== *)
theory KKernel
  imports KClock
begin

text \<open>
  The kernel's entry and exit: \<open>handle_kernel_call\<close>, \<open>after_context_switch\<close> and \<open>kernel_main\<close> of
  src/system/kernel/main.c with the context save and the resumption of src/system/kernel/i386/i386.S
  around them, as a step relation on the state between two kernel entries.

  Tasks run with interrupts enabled, the kernel with interrupts disabled, so the kernel is entered
  only from a task: by \<open>int 128\<close> (a kernel call) or by the timer. Between two entries the running
  task may have changed memory and its registers at will; the model lets it store any memory
  contents and any stack pointer, but not the kernel's own tables, which are separate fields of the
  state. \<open>None\<close> is a NULL dereference or an endless loop.
\<close>

section \<open>Kernel calls\<close>

definition get_context :: "nat \<Rightarrow> addr \<Rightarrow> 'a sched_scheme \<Rightarrow> u32" where
  "get_context c field s = ld32 (kmem s) (context_p (ptable s c) + field)"

definition set_context :: "nat \<Rightarrow> addr \<Rightarrow> u32 \<Rightarrow> 'a sched_scheme \<Rightarrow> 'a sched_scheme" where
  "set_context c field v s = s\<lparr>kmem := st32 (kmem s) (context_p (ptable s c) + field) v\<rparr>"

definition dispatch :: "nat \<Rightarrow> u32 \<Rightarrow> u32 \<Rightarrow> u32 \<Rightarrow> 'a clock_scheme \<Rightarrow> (u32 \<times> 'a clock_scheme) option" where
  "dispatch c callnr arg1 arg2 s =
     (if callnr = 0 then map_option (Pair 0) (sleep_ms arg1 s)
      else if callnr = 1 then map_option (Pair 0) (preempt s)
      else if callnr = 2 then Some (pid (ptable s c), s)
      else if callnr = 3 then message_send c arg1 arg2 s
      else if callnr = 4 then message_receive c arg1 arg2 s
      else Some (0, s))"

definition handle_kernel_call :: "'a clock_scheme \<Rightarrow> 'a clock_scheme option" where
  "handle_kernel_call s =
     (case current_task s of
        None \<Rightarrow> None
      | Some c \<Rightarrow>
          let callnr = get_context c ctx_eax s;
              arg1 = get_context c ctx_ecx s;
              arg2 = get_context c ctx_edx s
          in Option.bind (dispatch c callnr arg1 arg2 s)
               (\<lambda>(result, s).
                  case current_task s of
                    None \<Rightarrow> None
                  | Some c \<Rightarrow> Some (set_context c ctx_eax result s)))"

definition after_context_switch :: "'a sched_scheme \<Rightarrow> 'a sched_scheme option" where
  "after_context_switch s =
     (case current_task s of
        None \<Rightarrow> None
      | Some c \<Rightarrow>
          if task_flags (ptable s c) AND TASK_FLAGS_AFTER_SWITCH \<noteq> 0 then
            (let s = upd_task c (\<lambda>t. t\<lparr>task_flags := task_flags t AND NOT TASK_FLAGS_AFTER_SWITCH\<rparr>) s
             in case message_deliver c s of
                  (True, s) \<Rightarrow> Some (set_context c ctx_eax 0 s)
                | (False, s) \<Rightarrow> Some s)
          else Some s)"

section \<open>Entering and leaving the kernel\<close>

text \<open>\<open>save\<close>: the interrupted task's registers are on its stack at \<open>sp\<close>; \<open>m\<close> is the memory it left.\<close>

definition save_context :: "addr \<Rightarrow> mem \<Rightarrow> 'a sched_scheme \<Rightarrow> 'a sched_scheme option" where
  "save_context sp m s =
     (case current_task s of
        None \<Rightarrow> None
      | Some c \<Rightarrow>
          Some ((upd_task c (\<lambda>t. t\<lparr>context_p := sp\<rparr>) s)\<lparr>kmem := m, nested_intr := nested_intr s + 1\<rparr>))"

definition resume :: "'a sched_scheme \<Rightarrow> 'a sched_scheme option" where
  "resume s =
     (if nested_intr s = 0 then
        (let s = scheduler s;
             s = s\<lparr>current_task := next_task s\<rparr>
         in map_option (\<lambda>s. s\<lparr>nested_intr := nested_intr s - 1\<rparr>) (after_context_switch s))
      else Some (s\<lparr>nested_intr := nested_intr s - 1\<rparr>))"

datatype event = Kernel_call | Timer

definition kernel_entry :: "event \<Rightarrow> addr \<Rightarrow> mem \<Rightarrow> 'a clock_scheme \<Rightarrow> 'a clock_scheme option" where
  "kernel_entry e sp m s =
     Option.bind (save_context sp m s) (\<lambda>s.
       Option.bind (case e of Kernel_call \<Rightarrow> handle_kernel_call s | Timer \<Rightarrow> timer_callback s) resume)"

text \<open>A call that C defines: a sleep whose duration does not overflow an \<open>int\<close>, or any other call.\<close>

definition call_defined :: "addr \<Rightarrow> mem \<Rightarrow> bool" where
  "call_defined sp m \<longleftrightarrow> (ld32 m (sp + ctx_eax) = 0 \<longrightarrow> sleep_defined (ld32 m (sp + ctx_ecx)))"

text \<open>The idle task only halts, so it makes no kernel call.\<close>

inductive kstep :: "'a clock_scheme \<Rightarrow> 'a clock_scheme \<Rightarrow> bool" where
  call: "\<lbrakk>current_task s \<noteq> idle_task s; kernel_entry Kernel_call sp m s = Some s'\<rbrakk> \<Longrightarrow> kstep s s'"
| tick: "kernel_entry Timer sp m s = Some s' \<Longrightarrow> kstep s s'"

inductive_cases kstepE: "kstep s s'"

section \<open>Booting\<close>

definition spawn ::
  "(u32 \<Rightarrow> 'a sched_scheme \<Rightarrow> addr \<times> 'a sched_scheme) \<Rightarrow> addr \<Rightarrow> bool \<Rightarrow> 'a sched_scheme
   \<Rightarrow> (nat \<times> 'a sched_scheme) option" where
  "spawn alloc entry nonpreemptible s =
     (case create_kernel_task alloc entry 1024 1 s of
        (None, s) \<Rightarrow> None
      | (Some t, s) \<Rightarrow> Some (t, if nonpreemptible then setPreemptible t False s else s))"

definition kernel_main ::
  "(u32 \<Rightarrow> 'a sched_scheme \<Rightarrow> addr \<times> 'a sched_scheme) \<Rightarrow> addr \<Rightarrow> addr \<Rightarrow> addr \<Rightarrow> addr
   \<Rightarrow> 'a sched_scheme \<Rightarrow> 'a sched_scheme option" where
  "kernel_main alloc task1 task2 task3 task4 s =
     Option.bind (spawn alloc task1 True s) (\<lambda>(tsk1, s).
     Option.bind (spawn alloc task2 True s) (\<lambda>(tsk2, s).
     Option.bind (spawn alloc task3 True s) (\<lambda>(tsk3, s).
     Option.bind (spawn alloc task4 False s) (\<lambda>(tsk4, s).
       let s = enqueue_task tsk1 s;
           s = enqueue_task tsk2 s;
           s = enqueue_task tsk3 s;
           s = enqueue_task tsk4 s
       in resume s))))"

definition boot ::
  "(u32 \<Rightarrow> 'a clock_scheme \<Rightarrow> addr \<times> 'a clock_scheme) \<Rightarrow> addr \<Rightarrow> u32 \<Rightarrow> addr \<Rightarrow> addr \<Rightarrow> addr \<Rightarrow> addr
   \<Rightarrow> 'a clock_scheme \<Rightarrow> 'a clock_scheme option" where
  "boot alloc idle dir task1 task2 task3 task4 s =
     Option.bind (multitasking_init alloc idle dir s) (\<lambda>s.
       kernel_main alloc task1 task2 task3 task4 (clock_setup s))"

section \<open>The kernel's invariant\<close>

text \<open>
  Between two entries: the lists represent \<open>Q\<close>, \<open>S\<close>, \<open>T\<close> with every task in its place, the running
  task is the scheduler's choice, and no message is pending for it.
\<close>

definition idle_ok :: "'a sched_scheme \<Rightarrow> bool" where
  "idle_ok s \<longleftrightarrow> (\<exists>i<TASK_COUNT. idle_task s = Some i \<and> task_flags (ptable s i) AND TASK_FLAGS_PREEMPTIBLE = 0)"

definition running_ok ::
  "'a sched_scheme \<Rightarrow> (int \<Rightarrow> nat list) \<Rightarrow> (nat \<Rightarrow> nat list) \<Rightarrow> nat list \<Rightarrow> nat \<Rightarrow> bool" where
  "running_ok s Q S T c \<longleftrightarrow> Some c = idle_task s \<or> runnable s Q S T c"

definition kernel_rep ::
  "'a clock_scheme \<Rightarrow> (int \<Rightarrow> nat list) \<Rightarrow> (nat \<Rightarrow> nat list) \<Rightarrow> nat list \<Rightarrow> bool" where
  "kernel_rep s Q S T \<longleftrightarrow> clk_rep s Q S T \<and> sched_coherent s \<and> idle_ok s \<and> nested_intr s = -1
     \<and> \<not> reschedule_needed s \<and> current_task s = next_task s
     \<and> (\<exists>c. current_task s = Some c \<and> running_ok s Q S T c)"

definition kinv :: "'a clock_scheme \<Rightarrow> bool" where
  "kinv s \<longleftrightarrow> (\<exists>Q S T. kernel_rep s Q S T)"

section \<open>Leaving the kernel keeps the invariant\<close>

lemma ready_task_place:
  assumes r: "sys_rep s Q S T" and t: "t \<in> set (Q p)"
  shows "t < TASK_COUNT \<and> live s t \<and> at_place s Q S T t Ready"
proof -
  from rq_rep_other_queue [OF sys_repD(1) [OF r] t] have tc: "t < TASK_COUNT" and q: "queued s Q t"
    using t by (auto simp: queued_def)
  from sys_repD(3) [OF r tc] obtain pl where pl: "at_place s Q S T t pl" "(pl = Absent) = (\<not> live s t)"
    by (auto simp: task_ok_def)
  with q have "pl = Ready" by (cases pl) auto
  with pl tc show ?thesis by simp
qed

lemma pick_ext:
  assumes "ptable s' = ptable s" "queue_head s' = queue_head s" "idle_task s' = idle_task s"
  shows "pick s' = pick s"
  by (rule pick_cong [OF ready_cong]) (simp_all add: assms)

lemma runnable_ext:
  assumes "ptable s' = ptable s" "idle_task s' = idle_task s"
  shows "runnable s' Q S T c = runnable s Q S T c"
  by (simp add: runnable_def live_def queued_def assms)

text \<open>What an entry leaves alone: the state's parts outside the task table, the queues and the memory.\<close>

lemma clock_scheduler [simp]:
  "clock_ticks (scheduler s) = clock_ticks s" "next_timer_event (scheduler s) = next_timer_event s"
  "clock.more (scheduler s) = clock.more s"
  by (rule clock_fields_cong, simp)+

lemma idle_place:
  assumes "sys_rep s Q S T" "Some i = idle_task s" "i < TASK_COUNT"
  shows "message_flags (ptable s i) = MESSAGE_FLAGS_NONE \<and> task_flags (ptable s i) AND TASK_FLAGS_AFTER_SWITCH = 0"
proof -
  from sys_repD(3) [OF assms(1,3)] obtain pl where pl: "at_place s Q S T i pl" "(pl = Absent) = (\<not> live s i)"
    and f: "(task_flags (ptable s i) AND TASK_FLAGS_AFTER_SWITCH \<noteq> 0) = (message_flags (ptable s i) = MESSAGE_FLAGS_DELIVERING)"
    by (auto simp: task_ok_def)
  have "pl = Absent" using pl(2) assms(2) by (simp add: live_def)
  with pl(1) f show ?thesis by (simp add: flag_defs)
qed

lemma resume_rep:
  assumes r: "clk_rep s Q S T" and co: "sched_coherent s" and id: "idle_ok s" and n: "nested_intr s = 0"
  shows "\<exists>s'. resume s = Some s' \<and> kernel_rep s' Q S T \<and> current_task s' = pick s
    \<and> clock_ticks s' = clock_ticks s \<and> idle_task s' = idle_task s
    \<and> (\<forall>c. pick s = Some c \<and> message_flags (ptable s c) = MESSAGE_FLAGS_DELIVERING \<longrightarrow>
         kmem s' = st32 (write_bytes (kmem s) (message_ptr (ptable s c)) (message_buffer (ptable s c)))
                        (context_p (ptable s c) + ctx_eax) 0)
    \<and> (\<forall>c. pick s = Some c \<and> message_flags (ptable s c) \<noteq> MESSAGE_FLAGS_DELIVERING \<longrightarrow> kmem s' = kmem s)"
proof -
  note sys = clk_repD(1) [OF r]
  let ?s1 = "(scheduler s)\<lparr>current_task := next_task (scheduler s)\<rparr>"
  have cur: "current_task ?s1 = pick s" using scheduler_pick [OF sys_repD(1) [OF sys] co] by simp
  have r1: "clk_rep ?s1 Q S T"
    by (rule iffD2 [OF clk_rep_ext r]) simp_all
  have pk: "pick ?s1 = pick s" by (rule pick_ext) simp_all
  have co1: "next_task ?s1 = pick ?s1" using cur pk by simp
  have res: "resume s = map_option (\<lambda>s. s\<lparr>nested_intr := nested_intr s - 1\<rparr>) (after_context_switch ?s1)"
    using n by (simp add: resume_def Let_def)
  obtain i where i: "i < TASK_COUNT" "idle_task s = Some i"
    "task_flags (ptable s i) AND TASK_FLAGS_PREEMPTIBLE = 0" using id by (auto simp: idle_ok_def)
  have fin: "kernel_rep (s2\<lparr>nested_intr := nested_intr s2 - 1\<rparr>) Q S T"
    if r2: "clk_rep s2 Q S T" and f: "ready s2 = ready s" "idle_task s2 = idle_task s" "\<not> reschedule_needed s2"
      "current_task s2 = next_task s2" "next_task s2 = pick s" "nested_intr s2 = 0"
      "task_flags (ptable s2 i) = task_flags (ptable s i)" and run: "running_ok s2 Q S T c" "pick s = Some c"
    for s2 :: "'a clock_scheme" and c
  proof -
    have "clk_rep (s2\<lparr>nested_intr := nested_intr s2 - 1\<rparr>) Q S T" using r2 by (subst clk_rep_ext) simp_all
    moreover have "pick (s2\<lparr>nested_intr := nested_intr s2 - 1\<rparr>) = pick s"
      using f(1,2) pick_ext [of "s2\<lparr>nested_intr := nested_intr s2 - 1\<rparr>" s2] pick_cong [of s2 s] by simp
    moreover have "running_ok (s2\<lparr>nested_intr := nested_intr s2 - 1\<rparr>) Q S T c"
      using run(1) runnable_ext [of "s2\<lparr>nested_intr := nested_intr s2 - 1\<rparr>" s2] by (simp add: running_ok_def)
    ultimately show ?thesis
      using f run(2) i by (simp add: kernel_rep_def sched_coherent_def idle_ok_def)
  qed
  from pick_cases [OF sys_repD(1) [OF sys]] show ?thesis
  proof
    assume p: "pick s = idle_task s \<and> (\<forall>p. Q p = [])"
    with i have pi: "pick s = Some i" by simp
    note fl = idle_place [OF sys i(2) [symmetric] i(1)]
    have acs: "after_context_switch ?s1 = Some ?s1"
      using cur pi fl by (simp add: after_context_switch_def)
    have "kernel_rep (?s1\<lparr>nested_intr := nested_intr ?s1 - 1\<rparr>) Q S T"
      by (rule fin [OF r1, of i]) (use cur pi i n ready_cong [of ?s1 s] in \<open>simp_all add: running_ok_def\<close>)
    with acs cur fl pi show ?thesis by (simp add: res flag_defs)
  next
    assume "\<exists>p t. pick s = Some t \<and> t \<in> set (Q p) \<and> valid_prio p"
    then obtain p t where t: "pick s = Some t" "t \<in> set (Q p)" by blast
    note w = ready_task_place [OF sys t(2)]
    have w1: "t < TASK_COUNT" "live ?s1 t" "at_place ?s1 Q S T t Ready"
      using w by (simp_all add: live_def queued_def)
    have ti: "t \<noteq> i" using w i(2) by (auto simp: live_def)
    note ok = sys_repD(3) [OF sys, of t]
    show ?thesis
    proof (cases "task_flags (ptable s t) AND TASK_FLAGS_AFTER_SWITCH = 0")
      case True
      then have nd: "message_flags (ptable s t) \<noteq> MESSAGE_FLAGS_DELIVERING" using ok w by (simp add: task_ok_def)
      have acs: "after_context_switch ?s1 = Some ?s1"
        using cur t(1) True by (simp add: after_context_switch_def)
      have "runnable ?s1 Q S T t" using w1 nd by (simp add: runnable_def)
      then have "kernel_rep (?s1\<lparr>nested_intr := nested_intr ?s1 - 1\<rparr>) Q S T"
        by (intro fin [OF r1, of t]) (use cur t i n ready_cong [of ?s1 s] in \<open>simp_all add: running_ok_def\<close>)
      with acs cur nd t show ?thesis by (simp add: res)
    next
      case False
      let ?s0 = "upd_task t (\<lambda>t. t\<lparr>task_flags := task_flags t AND NOT TASK_FLAGS_AFTER_SWITCH\<rparr>) ?s1"
      let ?s2 = "snd (message_deliver t ?s0)"
      have fl: "message_flags (ptable s t) = MESSAGE_FLAGS_DELIVERING" using False ok w by (simp add: task_ok_def)
      note d = message_deliver_sys [OF clk_repD(1) [OF r1] w1 refl]
      have as: "task_flags (ptable ?s1 t) AND TASK_FLAGS_AFTER_SWITCH \<noteq> 0" using False by simp
      note d = d [OF as]
      have acs: "after_context_switch ?s1 = Some (set_context t ctx_eax 0 ?s2)"
      proof -
        obtain s2 where md: "message_deliver t ?s0 = (True, s2)" using d(1) by (cases "message_deliver t ?s0") simp
        have "current_task ?s1 = Some t" "task_flags (ptable ?s1 t) AND TASK_FLAGS_AFTER_SWITCH \<noteq> 0"
          using cur t(1) as by simp_all
        then show ?thesis unfolding after_context_switch_def Let_def
          by (simp only: option.case md if_True not_False_eq_True prod.case if_P bool.case snd_conv)
      qed
      have f2: "timer_of ?s2 x = timer_of s x" "expire_of ?s2 x = expire_of s x"
        "next_timer_event ?s2 = next_timer_event s" "idle_task ?s2 = idle_task s"
        "\<not> reschedule_needed ?s2" "current_task ?s2 = pick s" "next_task ?s2 = pick s" "nested_intr ?s2 = 0"
        "x \<noteq> t \<Longrightarrow> ptable ?s2 x = ptable s x" "clock_ticks ?s2 = clock_ticks s"
        "context_p (ptable ?s2 t) = context_p (ptable s t)" "priority (ptable ?s2 x) = priority (ptable s x)"
        "pid (ptable ?s2 x) = pid (ptable s x)" for x
        using n cur by (simp_all add: message_deliver_def Let_def)
      have r2: "clk_rep ?s2 Q S T"
        by (rule clk_rep_keep [OF r1 d(2)]) (simp_all add: f2)
      let ?s3 = "set_context t ctx_eax 0 ?s2"
      have r3: "clk_rep ?s3 Q S T"
        by (rule iffD2 [OF clk_rep_ext r2]) (simp_all add: set_context_def)
      have "at_place ?s3 Q S T t Ready"
        using w1(3) d(3) f2(12) by (simp add: set_context_def queued_def)
      then have run: "runnable ?s3 Q S T t"
        using w w1 d(3) f2(4,13) by (simp add: runnable_def set_context_def live_def)
      have "kernel_rep (?s3\<lparr>nested_intr := nested_intr ?s3 - 1\<rparr>) Q S T"
      proof (rule fin [OF r3, of t])
        have "ready ?s3 = ready ?s2" by (rule ready_cong) (simp_all add: set_context_def)
        also have "\<dots> = ready ?s1" by (rule d(5))
        also have "\<dots> = ready s" by (rule ready_cong) simp_all
        finally show "ready ?s3 = ready s" .
      qed (use run t ti f2 in \<open>simp_all add: set_context_def running_ok_def\<close>)
      with acs f2 fl t d(4) show ?thesis by (simp add: res set_context_def)
    qed
  qed
qed


section \<open>Entering the kernel keeps the invariant\<close>

lemma save_context_rep:
  assumes r: "kernel_rep s Q S T" and c: "current_task s = Some c"
  shows "\<exists>s1. save_context sp m s = Some s1 \<and> clk_rep s1 Q S T \<and> sched_coherent s1 \<and> idle_ok s1
    \<and> nested_intr s1 = 0 \<and> current_task s1 = Some c \<and> idle_task s1 = idle_task s \<and> pick s1 = pick s
    \<and> kmem s1 = m \<and> context_p (ptable s1 c) = sp \<and> clock_ticks s1 = clock_ticks s
    \<and> running_ok s1 Q S T c \<and> (\<forall>x. (ptable s1 x)\<lparr>context_p := 0\<rparr> = (ptable s x)\<lparr>context_p := 0\<rparr>)"
proof -
  let ?s1 = "(upd_task c (\<lambda>t. t\<lparr>context_p := sp\<rparr>) s)\<lparr>kmem := m, nested_intr := nested_intr s + 1\<rparr>"
  let ?u = "upd_task c (\<lambda>t. t\<lparr>context_p := sp\<rparr>) s"
  note k = r [unfolded kernel_rep_def]
  have "sys_rep ?u Q S T" by (rule sys_rep_upd_plain) (use k clk_repD(1) in auto)
  then have "clk_rep ?u Q S T" by (rule clk_rep_keep [of s Q S T, rotated]) (use k in auto)
  then have r1: "clk_rep ?s1 Q S T" by (subst clk_rep_ext [of ?s1 ?u]) simp_all
  have "ready ?s1 = ready s" by (rule ready_cong) simp_all
  then have pk: "pick ?s1 = pick s" by (rule pick_cong) simp
  have "running_ok ?s1 Q S T c" using k c by (auto simp: running_ok_def runnable_def live_def queued_def)
  moreover have "save_context sp m s = Some ?s1" using c by (simp add: save_context_def)
  moreover have "sched_coherent ?s1" "idle_ok ?s1"
    using k pk by (auto simp: sched_coherent_def idle_ok_def)
  ultimately show ?thesis using r1 pk c k by (intro exI [of _ ?s1]) simp
qed

lemma st32_context_rep:
  "clk_rep (set_context c f v s) Q S T = clk_rep s Q S T" "sched_coherent (set_context c f v s) = sched_coherent s"
  "idle_ok (set_context c f v s) = idle_ok s" "nested_intr (set_context c f v s) = nested_intr s"
  "current_task (set_context c f v s) = current_task s" "pick (set_context c f v s) = pick s"
  "idle_task (set_context c f v s) = idle_task s" "ptable (set_context c f v s) = ptable s"
proof -
  let ?s = "set_context c f v s"
  show "clk_rep ?s Q S T = clk_rep s Q S T" by (rule clk_rep_ext) (simp_all add: set_context_def)
  show p: "pick ?s = pick s" by (rule pick_ext) (simp_all add: set_context_def)
  show "sched_coherent ?s = sched_coherent s" using p by (simp add: sched_coherent_def) (simp add: set_context_def)
qed (simp_all add: set_context_def idle_ok_def)

lemma clk_rep_timer_same:
  assumes "clk_rep s Q S T" "sys_rep s' Q' S' T" "timer_same s s'" "sched.more s' = sched.more s"
  shows "clk_rep s' Q' S' T"
  by (rule clk_rep_keep [OF assms(1,2)])
     (use assms(3) clock_fields_cong [OF assms(4)] in \<open>simp_all add: timer_same_def\<close>)

lemma idle_ok_same:
  assumes "idle_ok s" "idle_task s' = idle_task s" "\<And>i. idle_task s = Some i \<Longrightarrow> same_core s s' i"
  shows "idle_ok s'"
  using assms by (auto simp: idle_ok_def same_core_def)

text \<open>What a kernel call achieves, as a relation on the abstract state.\<close>

definition call_done :: "'a clock_scheme \<Rightarrow> 'a clock_scheme \<Rightarrow> bool" where
  "call_done s s' \<longleftrightarrow> (\<exists>Q S T. clk_rep s' Q S T) \<and> (sched_coherent s \<longrightarrow> sched_coherent s') \<and> idle_ok s'
     \<and> ctx_same s s' \<and> current_task s' = current_task s \<and> idle_task s' = idle_task s
     \<and> clock_ticks s' = clock_ticks s"

lemma send_done:
  assumes r: "clk_rep s Q S T" and id: "idle_ok s" and c: "runnable s Q S T c"
  shows "\<exists>x s'. message_send c p m s = Some (x, s') \<and> call_done s s'"
proof (cases "find_task p s")
  case None
  then show ?thesis using r id by (auto simp: message_send_def call_done_def)
next
  case (Some d)
  note sys = clk_repD(1) [OF r]
  from message_send_sys [OF sys c Some, of m] obtain s' where s': "message_send c p m s = Some (0, s')"
    "current_task s' = current_task s" "idle_task s' = idle_task s" "sched.more s' = sched.more s" "timer_same s s'"
    "sched_coherent s \<longrightarrow> sched_coherent s'"
    "if awaits s d c
        then sys_rep s' (Q(priority (ptable s d) := Q (priority (ptable s d)) @ [d])) S T
           \<and> message_buffer (ptable s' d) = read_bytes (kmem s) m MESSAGE_SIZE
           \<and> message_flags (ptable s' d) = MESSAGE_FLAGS_DELIVERING
           \<and> message_ptr (ptable s' d) = message_ptr (ptable s d)
           \<and> (\<forall>x. x \<noteq> d \<longrightarrow> same_core s s' x)
        else sys_rep s' (Q(priority (ptable s c) := remove1 c (Q (priority (ptable s c))))) (S(d := S d @ [c])) T
           \<and> message_buffer (ptable s' c) = read_bytes (kmem s) m MESSAGE_SIZE
           \<and> message_flags (ptable s' c) = MESSAGE_FLAGS_SENDING
           \<and> (\<forall>x. x \<noteq> c \<longrightarrow> same_core s s' x)" by blast
  have dc: "d < TASK_COUNT" using find_task_Some [OF Some] by simp
  have di: "awaits s d c \<Longrightarrow> Some d \<noteq> idle_task s"
    using flags_receiving [OF sys_repD(3) [OF sys dc]] by (auto simp: awaits_def live_def)
  have ci: "Some c \<noteq> idle_task s" using c by (simp add: runnable_def live_def)
  have "\<exists>a Q' S'. Some a \<noteq> idle_task s \<and> sys_rep s' Q' S' T \<and> (\<forall>x. x \<noteq> a \<longrightarrow> same_core s s' x)"
    using s'(7) di ci by (cases "awaits s d c") (simp, blast)+
  then obtain a Q' S' where a: "Some a \<noteq> idle_task s" "sys_rep s' Q' S' T" "\<forall>x. x \<noteq> a \<longrightarrow> same_core s s' x"
    by blast
  have "idle_ok s'" by (rule idle_ok_same [OF id s'(3)]) (use a in metis)
  moreover have "clk_rep s' Q' S' T" by (rule clk_rep_timer_same [OF r a(2) s'(5,4)])
  ultimately show ?thesis
    using s' clock_fields_cong [OF s'(4)] by (auto simp: call_done_def timer_same_def)
qed

lemma receive_done:
  assumes r: "clk_rep s Q S T" and id: "idle_ok s" and c: "runnable s Q S T c"
  shows "\<exists>x s'. message_receive c p m s = Some (x, s') \<and> call_done s s'"
proof (cases "p = PID_NO_TASK")
  case True
  then show ?thesis using r id by (auto simp: message_receive_def call_done_def)
next
  case False
  note sys = clk_repD(1) [OF r]
  have ci: "Some c \<noteq> idle_task s" using c by (simp add: runnable_def live_def)
  have xi: "Some x \<noteq> idle_task s" if "find (wanted s p) (S c) = Some x" for x
  proof -
    have x: "x \<in> set (S c)" using that by (metis find_split in_set_conv_decomp)
    then have "x < TASK_COUNT" using mq_repD(2) [OF sys_repD(2) [OF sys]] by blast
    with flags_sending [OF sys_repD(3) [OF sys] x] show ?thesis by (simp add: live_def)
  qed
  from message_receive_sys [OF sys c False, of m] obtain s' where s': "message_receive c p m s = Some (0, s')"
    "current_task s' = current_task s" "idle_task s' = idle_task s" "sched.more s' = sched.more s" "timer_same s s'"
    "sched_coherent s \<longrightarrow> sched_coherent s'"
    "case find (wanted s p) (S c) of
          Some x \<Rightarrow> sys_rep s' (Q(priority (ptable s x) := Q (priority (ptable s x)) @ [x])) (S(c := remove1 x (S c))) T
             \<and> kmem s' = write_bytes (kmem s) m (message_buffer (ptable s x))
             \<and> message_flags (ptable s' x) = MESSAGE_FLAGS_NONE \<and> (\<forall>y. y \<noteq> x \<longrightarrow> same_core s s' y)
        | None \<Rightarrow> sys_rep s' (Q(priority (ptable s c) := remove1 c (Q (priority (ptable s c))))) S T
             \<and> kmem s' = kmem s \<and> message_flags (ptable s' c) = MESSAGE_FLAGS_RECEIVING
             \<and> message_ptr (ptable s' c) = m \<and> message_rec_pid (ptable s' c) = p
             \<and> (\<forall>y. y \<noteq> c \<longrightarrow> same_core s s' y)" by blast
  have "\<exists>a Q' S'. Some a \<noteq> idle_task s \<and> sys_rep s' Q' S' T \<and> (\<forall>x. x \<noteq> a \<longrightarrow> same_core s s' x)"
    using s'(7) xi ci by (cases "find (wanted s p) (S c)") (simp, blast)+
  then obtain a Q' S' where a: "Some a \<noteq> idle_task s" "sys_rep s' Q' S' T" "\<forall>x. x \<noteq> a \<longrightarrow> same_core s s' x"
    by blast
  have "idle_ok s'" by (rule idle_ok_same [OF id s'(3)]) (use a in metis)
  moreover have "clk_rep s' Q' S' T" by (rule clk_rep_timer_same [OF r a(2) s'(5,4)])
  ultimately show ?thesis
    using s' clock_fields_cong [OF s'(4)] by (auto simp: call_done_def timer_same_def)
qed

lemma sleep_done:
  assumes r: "clk_rep s Q S T" and id: "idle_ok s" and c: "runnable s Q S T c" "current_task s = Some c"
    and d: "sleep_defined ms"
  shows "\<exists>s'. sleep_ms ms s = Some s' \<and> call_done s s'"
proof (cases "sint ms \<le> 0")
  case True
  then show ?thesis using r id by (auto simp: sleep_ms_def call_done_def)
next
  case False
  then have "0 < sint ms" by simp
  from sleep_ms_sys [OF r c this d] obtain s' Q' T' where s': "sleep_ms ms s = Some s'" "clk_rep s' Q' S T'"
    "clock_ticks s' = clock_ticks s" "current_task s' = current_task s" "idle_task s' = idle_task s"
    "\<forall>x. same_core s s' x" "ctx_same s s'" "sched_coherent s \<longrightarrow> sched_coherent s'" by blast
  have "idle_ok s'" by (rule idle_ok_same [OF id s'(5)]) (use s'(6) in blast)
  with s' show ?thesis by (auto simp: call_done_def)
qed

lemma sleep_undefined: "\<not> sleep_defined ms \<Longrightarrow> sleep_ms ms s = None"
  using sleep_ticks_cases [of ms] by (auto simp: sleep_ms_def sleep_defined_def split: option.split)

lemma preempt_done:
  assumes r: "clk_rep s Q S T" and id: "idle_ok s" and c: "runnable s Q S T c" "current_task s = Some c"
  shows "\<exists>s'. preempt s = Some s' \<and> call_done s s' \<and> clk_rep s' (requeued s c Q) S T \<and> sched_coherent s'
    \<and> same_but_links s s'"
proof -
  have "queued s Q c" "c < TASK_COUNT" using c(1) by (auto simp: runnable_def)
  from sys_rep_requeue [OF clk_repD(1) [OF r] this c(2)] obtain s' where
    s': "preempt s = Some s'" "sys_rep s' (requeued s c Q) S T" "same_but_links s s'" "sched_coherent s'" by blast
  note l = same_but_links_fields [OF s'(3)]
  have "clk_rep s' (requeued s c Q) S T" by (rule clk_rep_timer_same [OF r s'(2) timer_same_links [OF s'(3)] l(22)])
  moreover have "idle_ok s'" by (rule idle_ok_same [OF id l(17)]) (rule same_core_links [OF s'(3)])
  ultimately show ?thesis
    using s' l(17,19) clock_fields_cong [OF l(22)] ctx_same_links [OF s'(3)] by (auto simp: call_done_def)
qed

lemma dispatch_done:
  assumes r: "clk_rep s Q S T" and id: "idle_ok s" and c: "runnable s Q S T c" "current_task s = Some c"
    and d: "nr = 0 \<Longrightarrow> sleep_defined a1"
  shows "\<exists>x s'. dispatch c nr a1 a2 s = Some (x, s') \<and> call_done s s'"
proof -
  have "call_done s s" using r id by (auto simp: call_done_def)
  with send_done [OF r id c(1)] receive_done [OF r id c(1)] sleep_done [OF r id c] preempt_done [OF r id c] d
  show ?thesis unfolding dispatch_def by (auto split: if_splits)
qed

lemma handle_kernel_call_done:
  assumes r: "clk_rep s Q S T" and id: "idle_ok s" and c: "runnable s Q S T c" "current_task s = Some c"
    and d: "get_context c ctx_eax s = 0 \<Longrightarrow> sleep_defined (get_context c ctx_ecx s)"
  shows "\<exists>x s1 s'. dispatch c (get_context c ctx_eax s) (get_context c ctx_ecx s) (get_context c ctx_edx s) s = Some (x, s1)
    \<and> handle_kernel_call s = Some s' \<and> s' = set_context c ctx_eax x s1 \<and> call_done s s1 \<and> call_done s s'"
proof -
  obtain x s1 where d: "dispatch c (get_context c ctx_eax s) (get_context c ctx_ecx s) (get_context c ctx_edx s) s
      = Some (x, s1)" "call_done s s1" using dispatch_done [OF assms] by blast
  then have "current_task s1 = Some c" using c(2) by (simp add: call_done_def)
  with d(1) c(2) have "handle_kernel_call s = Some (set_context c ctx_eax x s1)"
    by (simp add: handle_kernel_call_def)
  moreover have "call_done s (set_context c ctx_eax x s1)"
    using d(2) by (simp add: call_done_def st32_context_rep ctx_same_def) (simp add: set_context_def)
  ultimately show ?thesis using d by blast
qed

theorem kernel_entry_keeps:
  assumes k: "kinv s" and e: "e = Kernel_call \<Longrightarrow> current_task s \<noteq> idle_task s" "e = Kernel_call \<Longrightarrow> call_defined sp m"
  shows "\<exists>s'. kernel_entry e sp m s = Some s' \<and> kinv s'"
proof -
  obtain Q S T where r: "kernel_rep s Q S T" using k by (auto simp: kinv_def)
  then obtain c where c: "current_task s = Some c" unfolding kernel_rep_def by blast
  from save_context_rep [OF r c, of sp m] obtain s1 where s1: "save_context sp m s = Some s1"
    "clk_rep s1 Q S T" "sched_coherent s1" "idle_ok s1" "nested_intr s1 = 0" "current_task s1 = Some c"
    "idle_task s1 = idle_task s" "running_ok s1 Q S T c" "kmem s1 = m" "context_p (ptable s1 c) = sp" by blast
  have cc: "c < TASK_COUNT"
    using s1(4,8) by (auto simp: running_ok_def runnable_def idle_ok_def)
  obtain s2 Q' S' T' where s2: "(case e of Kernel_call \<Rightarrow> handle_kernel_call s1 | Timer \<Rightarrow> timer_callback s1) = Some s2"
    "clk_rep s2 Q' S' T'" "sched_coherent s2" "idle_ok s2" "nested_intr s2 = 0"
  proof (cases e)
    case Kernel_call
    then have "runnable s1 Q S T c" using e(1) c s1(7,8) by (auto simp: running_ok_def)
    moreover have "sleep_defined (get_context c ctx_ecx s1)" if "get_context c ctx_eax s1 = 0"
      using e(2) [OF Kernel_call] that s1(9,10) by (simp add: call_defined_def get_context_def)
    ultimately obtain z where "handle_kernel_call s1 = Some z" "call_done s1 z"
      using handle_kernel_call_done [OF s1(2,4) _ s1(6)] by blast
    with s1(3,5) Kernel_call that show ?thesis
      by (auto simp: call_done_def ctx_same_def)
  next
    case Timer
    have "task_flags (ptable s1 c) AND TASK_FLAGS_PREEMPTIBLE \<noteq> 0 \<Longrightarrow> queued s1 Q c"
      using s1(4,8) by (auto simp: running_ok_def runnable_def idle_ok_def)
    from timer_callback_sys [OF s1(2) cc s1(6) this s1(3)] obtain s2 Q' T' where s2: "timer_callback s1 = Some s2"
      "clk_rep s2 Q' S T'" "idle_task s2 = idle_task s1" "\<forall>x. same_core s1 s2 x" "ctx_same s1 s2" "sched_coherent s2"
      by blast
    have "idle_ok s2" by (rule idle_ok_same [OF s1(4) s2(3)]) (use s2(4) in blast)
    with s2 s1(5) Timer that show ?thesis by (simp add: ctx_same_def)
  qed
  from resume_rep [OF s2(2-5)] obtain s' where "resume s2 = Some s'" "kernel_rep s' Q' S' T'" by blast
  with s1(1) s2(1) show ?thesis by (auto simp: kernel_entry_def kinv_def)
qed

section \<open>Booting establishes the invariant\<close>

text \<open>While the kernel boots, slots 0 to \<open>n - 1\<close> are taken and nothing is queued yet.\<close>

definition booting :: "'a clock_scheme \<Rightarrow> nat \<Rightarrow> bool" where
  "booting s n \<longleftrightarrow> rq_rep s (\<lambda>_. []) \<and> idle_task s = Some 0 \<and> nested_intr s = 0 \<and> next_timer_event s = None
     \<and> pid_count s = of_nat n \<and> task_flags (ptable s 0) AND TASK_FLAGS_PREEMPTIBLE = 0
     \<and> (\<forall>i<TASK_COUNT. valid_task s i \<and> message_flags (ptable s i) = MESSAGE_FLAGS_NONE
          \<and> message_q_head (ptable s i) = None \<and> message_buffer (ptable s i) = replicate MESSAGE_SIZE 0
          \<and> task_flags (ptable s i) AND TASK_FLAGS_AFTER_SWITCH = 0
          \<and> (pid (ptable s i) = PID_NO_TASK \<longleftrightarrow> n \<le> i))"

definition clock_frame :: "(u32 \<Rightarrow> 'a clock_scheme \<Rightarrow> addr \<times> 'a clock_scheme) \<Rightarrow> bool" where
  "clock_frame alloc \<longleftrightarrow> alloc_frame alloc
     \<and> (\<forall>n s. next_timer_event (snd (alloc n s)) = next_timer_event s
          \<and> clock_ticks (snd (alloc n s)) = clock_ticks s)"

lemma flags_and_not: "(x AND NOT TASK_FLAGS_PREEMPTIBLE) AND TASK_FLAGS_AFTER_SWITCH = x AND TASK_FLAGS_AFTER_SWITCH"
  "(x AND NOT TASK_FLAGS_PREEMPTIBLE) AND TASK_FLAGS_PREEMPTIBLE = 0"
  by (simp_all add: flag_defs and.assoc)

lemma rq_rep_empty_iff:
  "rq_rep s (\<lambda>_. []) \<longleftrightarrow> (\<forall>p. valid_prio p \<longrightarrow> queue_head s p = None \<and> queue_tail s p = None)"
  by (auto simp: rq_rep_def)

text \<open>
  What the creation of a task in slot \<open>i\<close> from \<open>s\<close> to \<open>s'\<close> means for its stack: the slot records what the allocator
  granted, and after the allocator only the frame at the top of the new stack is written.
\<close>

definition stack_taken ::
  "(u32 \<Rightarrow> 'a clock_scheme \<Rightarrow> addr \<times> 'a clock_scheme) \<Rightarrow> u32 \<Rightarrow> 'a clock_scheme \<Rightarrow> 'a clock_scheme \<Rightarrow> nat \<Rightarrow> bool" where
  "stack_taken alloc n s s' i \<longleftrightarrow> (case alloc n s of (p, s1) \<Rightarrow>
     stack_space (ptable s' i) = p \<and> stack_size (ptable s' i) = n \<and> clock.more s' = clock.more s1
     \<and> (\<forall>x. \<not> in_range (p + n - 76) 76 x \<longrightarrow> kmem s' x = kmem s1 x))"

lemma stack_taken_created:
  assumes "task_created i entry n (fst (alloc n s)) prio (snd (alloc n s)) s1" "kmem s' = kmem s1" "clock.more s' = clock.more s1"
    "stack_space (ptable s' i) = stack_space (ptable s1 i)" "stack_size (ptable s' i) = stack_size (ptable s1 i)"
  shows "stack_taken alloc n s s' i"
proof -
  note c = assms(1) [unfolded task_created_def Let_def]
  have "context_p (ptable s1 i) = fst (alloc n s) + n - 76" using c by (metis add_diff_cancel_right')
  then show ?thesis using c assms(2-5) clock_fields_cong(3) [of s1 "snd (alloc n s)"]
    by (simp add: stack_taken_def split: prod.split)
qed

lemma spawn_booting:
  assumes b: "booting s n" and n: "0 < n" "n < TASK_COUNT" and al: "clock_frame alloc" "fst (alloc 1024 s) \<noteq> NULL"
  shows "\<exists>s'. spawn alloc entry np s = Some (n, s') \<and> booting s' (Suc n) \<and> priority (ptable s' n) = 1
    \<and> (\<forall>i. i \<noteq> n \<longrightarrow> ptable s' i = ptable s i) \<and> stack_taken alloc 1024 s s' n"
proof -
  let ?s0 = "snd (alloc 1024 s)"
  have a: "ptable ?s0 = ptable s" "queue_head ?s0 = queue_head s" "queue_tail ?s0 = queue_tail s"
    "pid_count ?s0 = pid_count s" "idle_task ?s0 = idle_task s" "nested_intr ?s0 = nested_intr s"
    "next_timer_event ?s0 = next_timer_event s"
    using al(1) by (simp_all add: clock_frame_def alloc_frame_def Let_def)
  have vp: "valid_prio 1" by (simp add: valid_prio_def LOWEST_TASK_PRIORITY_def)
  have free: "pid (ptable s n) = PID_NO_TASK" "\<And>j. j < n \<Longrightarrow> pid (ptable s j) \<noteq> PID_NO_TASK"
    using b n by (auto simp: booting_def)
  obtain s1 where s1: "create_kernel_task alloc entry 1024 1 s = (Some n, s1)"
    "task_created n entry 1024 (fst (alloc 1024 s)) 1 ?s0 s1"
    using create_spec_success [of 1 n s alloc 1024 entry, OF vp n(2) free al(2)]
    by (metis prod.collapse)
  note c = s1(2) [unfolded task_created_def Let_def]
  have nt: "next_timer_event s1 = next_timer_event s"
    using c a(7) clock_fields_cong [of s1 ?s0] by simp
  define s' where "s' = (if np then setPreemptible n False s1 else s1)"
  have sp: "spawn alloc entry np s = Some (n, s')" using s1(1) by (simp add: spawn_def s'_def)
  have other: "ptable s' i = ptable s i" if "i \<noteq> n" for i
    using c that a(1) by (simp add: s'_def setPreemptible_def)
  have self: "priority (ptable s' n) = 1" "message_flags (ptable s' n) = MESSAGE_FLAGS_NONE"
    "message_q_head (ptable s' n) = None" "message_buffer (ptable s' n) = replicate MESSAGE_SIZE 0"
    "pid (ptable s' n) = of_nat n"
    "task_flags (ptable s' n) AND TASK_FLAGS_AFTER_SWITCH = 0"
    using c a(4) b by (simp_all add: s'_def setPreemptible_def booting_def flags_and_not)
      (simp_all add: flag_defs)
  have glob: "queue_head s' = queue_head s" "queue_tail s' = queue_tail s" "idle_task s' = idle_task s"
    "nested_intr s' = nested_intr s" "next_timer_event s' = next_timer_event s" "pid_count s' = pid_count s + 1"
    using c a nt by (simp_all add: s'_def setPreemptible_def)
  have "of_nat n \<noteq> PID_NO_TASK"
    using n(2) by (simp add: PID_NO_TASK_def TASK_COUNT_def word_unat_eq_iff unat_of_nat)
  have "booting s' (Suc n)"
    unfolding booting_def
  proof (intro conjI allI impI)
    have "rq_rep s (\<lambda>_. [])" using b by (simp add: booting_def)
    then show "rq_rep s' (\<lambda>_. [])" by (simp add: rq_rep_empty_iff glob)
    fix i assume "i < TASK_COUNT"
    then show "valid_task s' i" "message_flags (ptable s' i) = MESSAGE_FLAGS_NONE"
      "message_q_head (ptable s' i) = None" "message_buffer (ptable s' i) = replicate MESSAGE_SIZE 0"
      "task_flags (ptable s' i) AND TASK_FLAGS_AFTER_SWITCH = 0"
      "(pid (ptable s' i) = PID_NO_TASK) = (Suc n \<le> i)"
      using b self other [of i] vp \<open>of_nat n \<noteq> PID_NO_TASK\<close>
      by (cases "i = n"; auto simp: booting_def valid_task_def)+
  qed (use b n glob other in \<open>simp_all add: booting_def\<close>)
  moreover have "stack_taken alloc 1024 s s' n"
    by (rule stack_taken_created [where alloc = alloc and s = s, OF s1(2)]) (simp_all add: s'_def setPreemptible_def)
  ultimately show ?thesis using sp self(1) other by blast
qed

lemma enqueue_booted:
  "\<lbrakk>rq_rep s ((\<lambda>_. [])(1 := ts)); valid_task s t; priority (ptable s t) = 1; t \<notin> set ts\<rbrakk>
   \<Longrightarrow> rq_rep (enqueue_task t s) ((\<lambda>_. [])(1 := ts @ [t]))"
  using enqueue_task_rep [of s "(\<lambda>_. [])(1 := ts)" t] by simp

lemma booted_sys:
  assumes b: "booting s 5" and p: "\<And>i. 0 < i \<Longrightarrow> i < 5 \<Longrightarrow> priority (ptable s i) = 1"
  defines "s' \<equiv> enqueue_task 4 (enqueue_task 3 (enqueue_task 2 (enqueue_task 1 s)))"
  shows "clk_rep s' ((\<lambda>_. [])(1 := [1, 2, 3, 4])) (\<lambda>_. []) []" "sched_coherent s'" "idle_ok s'" "nested_intr s' = 0"
proof -
  have links: "same_but_links s s'"
    unfolding s'_def using enqueue_task_links same_but_links_trans by blast
  note f = same_but_links_fields [OF links]
  have v: "valid_task s i" if "i < TASK_COUNT" for i using b that by (simp add: booting_def)
  have rq0: "rq_rep s ((\<lambda>_. [])(1 := []))" using b by (simp add: booting_def fun_upd_def)
  have c: "1 < TASK_COUNT" "2 < TASK_COUNT" "3 < TASK_COUNT" "4 < TASK_COUNT" by (simp_all add: TASK_COUNT_def)
  have rq: "rq_rep s' ((\<lambda>_. [])(1 := [1, 2, 3, 4]))"
    unfolding s'_def
    using enqueue_booted [OF enqueue_booted [OF enqueue_booted [OF enqueue_booted [OF rq0, of 1], of 2], of 3], of 4]
      v [OF c(1)] v [OF c(2)] v [OF c(3)] v [OF c(4)] p [of 1] p [of 2] p [of 3] p [of 4] by simp
  have mq: "mq_rep s' (\<lambda>_. [])" using b by (simp add: mq_rep_def f booting_def)
  have q: "queued s' ((\<lambda>_. [])(1 := [1, 2, 3, 4])) t \<longleftrightarrow> 0 < t \<and> t < 5" if "t < TASK_COUNT" for t
    using p [of t] by (auto simp: queued_def f)
  have "task_ok s' ((\<lambda>_. [])(1 := [1, 2, 3, 4])) (\<lambda>_. []) [] t" if t: "t < TASK_COUNT" for t
  proof -
    have fl: "valid_task s t" "message_flags (ptable s t) = MESSAGE_FLAGS_NONE"
      "message_buffer (ptable s t) = replicate MESSAGE_SIZE 0" "task_flags (ptable s t) AND TASK_FLAGS_AFTER_SWITCH = 0"
      "idle_task s = Some 0" "(pid (ptable s t) = PID_NO_TASK) = (5 \<le> t)"
      using b t by (auto simp: booting_def)
    let ?pl = "if 0 < t \<and> t < 5 then Ready else Absent"
    have "at_place s' ((\<lambda>_. [])(1 := [1, 2, 3, 4])) (\<lambda>_. []) [] t ?pl"
      using q [OF t] fl(2) f by auto
    moreover have "(?pl = Absent) = (\<not> live s' t)" using fl(5,6) by (auto simp: live_def f)
    ultimately show ?thesis
      using fl unfolding task_ok_def by (auto simp: f valid_task_links [OF links] flag_defs)
  qed
  then have sys: "sys_rep s' ((\<lambda>_. [])(1 := [1, 2, 3, 4])) (\<lambda>_. []) []" using rq mq by (simp add: sys_rep_def)
  have "next_timer_event s' = None" using clock_fields_cong [OF f(22)] b by (simp add: booting_def)
  with sys show "clk_rep s' ((\<lambda>_. [])(1 := [1, 2, 3, 4])) (\<lambda>_. []) []" by (simp add: clk_rep_def)
  show "sched_coherent s'" by (simp add: s'_def enqueue_task_coherent)
  show "idle_ok s'" using b by (simp add: idle_ok_def f booting_def TASK_COUNT_def)
  show "nested_intr s' = 0" using b by (simp add: f booting_def)
qed

lemma init_booting:
  assumes al: "clock_frame alloc" and fl: "\<And>i. task_flags (ptable s i) = 0"
    and i: "multitasking_init alloc idle dir s = Some s'"
  shows "booting (clock_setup s') 1"
proof -
  have af: "alloc_frame alloc" using al by (simp add: clock_frame_def)
  have m: "rq_rep s' (\<lambda>_. [])" "idle_task s' = Some 0" "pid (ptable s' 0) = 0" "priority (ptable s' 0) = LOWEST_TASK_PRIORITY"
    "message_flags (ptable s' 0) = MESSAGE_FLAGS_NONE" "message_q_head (ptable s' 0) = None"
    "message_buffer (ptable s' 0) = replicate MESSAGE_SIZE 0" "task_flags (ptable s' 0) = 0" "nested_intr s' = 0"
    "pid_count s' = 1" "\<And>i. 0 < i \<Longrightarrow> i < TASK_COUNT \<Longrightarrow> ptable s' i = reset_task dir (ptable s i)"
    using multitasking_init_facts [OF af, where idle = idle and dir = dir and s = s] i by auto
  show ?thesis
    unfolding booting_def
  proof (intro conjI allI impI)
    show "rq_rep (clock_setup s') (\<lambda>_. [])" using m(1) by (simp add: rq_rep_empty_iff clock_setup_def)
    fix i assume "i < TASK_COUNT"
    then show "valid_task (clock_setup s') i" "message_flags (ptable (clock_setup s') i) = MESSAGE_FLAGS_NONE"
      "message_q_head (ptable (clock_setup s') i) = None" "message_buffer (ptable (clock_setup s') i) = replicate MESSAGE_SIZE 0"
      "task_flags (ptable (clock_setup s') i) AND TASK_FLAGS_AFTER_SWITCH = 0"
      "(pid (ptable (clock_setup s') i) = PID_NO_TASK) = (1 \<le> i)"
      using m(3-8) m(11) [of i] fl [of i]
      by (cases "i = 0"; simp add: clock_setup_def valid_task_def valid_prio_def LOWEST_TASK_PRIORITY_def
          reset_task_def PID_NO_TASK_def)+
  qed (use m in \<open>simp_all add: clock_setup_def\<close>)
qed

lemma init_stack:
  assumes "multitasking_init alloc idle dir s = Some s'"
  shows "stack_taken alloc 128 (init_sched dir s) (clock_setup s') 0"
proof -
  let ?s2 = "snd (create_kernel_task alloc idle 128 LOWEST_TASK_PRIORITY (init_sched dir s))"
  note m = multitasking_init_cases [OF refl, where alloc = alloc and idle = idle and dir = dir and s = s]
  have p: "fst (alloc 128 (init_sched dir s)) \<noteq> NULL" using m(1) assms by (auto split: if_splits)
  then have "s' = (upd_task 0 (\<lambda>x. x\<lparr>task_flags := task_flags x AND NOT TASK_FLAGS_PREEMPTIBLE\<rparr>) ?s2)\<lparr>idle_task := Some 0, reschedule_needed := True\<rparr>"
    using m(1) assms by simp
  then show ?thesis by (intro stack_taken_created [where alloc = alloc, OF m(2) [OF p]]) (simp_all add: clock_setup_def)
qed

text \<open>Leaving the kernel changes neither the stacks nor the state beyond the clock.\<close>

lemma resume_keeps:
  assumes "resume s = Some s'"
  shows "clock.more s' = clock.more s" "stack_space (ptable s' i) = stack_space (ptable s i)" "stack_size (ptable s' i) = stack_size (ptable s i)"
proof -
  have "sched.more s' = sched.more s \<and> stack_space (ptable s' i) = stack_space (ptable s i) \<and> stack_size (ptable s' i) = stack_size (ptable s i)"
    using assms unfolding resume_def after_context_switch_def message_deliver_def set_context_def Let_def scheduler_def
    by (auto split: if_splits option.splits)
  then show "clock.more s' = clock.more s" "stack_space (ptable s' i) = stack_space (ptable s i)" "stack_size (ptable s' i) = stack_size (ptable s i)"
    using clock_fields_cong(3) by blast+
qed

lemma same_but_links_stack:
  assumes "same_but_links s s'"
  shows "stack_space (ptable s' i) = stack_space (ptable s i)" "stack_size (ptable s' i) = stack_size (ptable s i)"
proof -
  have "(ptable s' i)\<lparr>next_ready := None\<rparr> = (ptable s i)\<lparr>next_ready := None\<rparr>" using assms by (simp add: same_but_links_def)
  then show "stack_space (ptable s' i) = stack_space (ptable s i)" "stack_size (ptable s' i) = stack_size (ptable s i)"
    by (cases "ptable s' i"; cases "ptable s i"; simp)+
qed

text \<open>
  What the boot relies on when it takes the stacks of the tasks from the allocator: \<open>room k\<close> says that \<open>k\<close> more stacks
  can be had. A provider that also knows what it has given away says so with \<open>owned\<close>.
\<close>

locale stack_room =
  fixes alloc :: "u32 \<Rightarrow> 'a clock_scheme \<Rightarrow> addr \<times> 'a clock_scheme" and room :: "nat \<Rightarrow> 'a clock_scheme \<Rightarrow> bool"
  assumes frame: "clock_frame alloc"
    and room_cong: "\<lbrakk>room k s; kmem s' = kmem s; clock.more s' = clock.more s\<rbrakk> \<Longrightarrow> room k s'"
    and grants: "\<lbrakk>room (Suc k) s; n = 128 \<or> n = 1024\<rbrakk> \<Longrightarrow> fst (alloc n s) \<noteq> NULL"
    and room_left: "\<lbrakk>room (Suc k) s; n = 128 \<or> n = 1024; stack_taken alloc n s s' i\<rbrakk> \<Longrightarrow> room k s'"

locale stack_provider = stack_room alloc room
  for alloc :: "u32 \<Rightarrow> 'a clock_scheme \<Rightarrow> addr \<times> 'a clock_scheme" and room +
  fixes owned :: "addr \<Rightarrow> u32 \<Rightarrow> 'a clock_scheme \<Rightarrow> bool"
  assumes owned_cong: "\<lbrakk>owned p n s; kmem s' = kmem s; clock.more s' = clock.more s\<rbrakk> \<Longrightarrow> owned p n s'"
    and owned_new: "\<lbrakk>room (Suc k) s; n = 128 \<or> n = 1024; stack_taken alloc n s s' i\<rbrakk> \<Longrightarrow> owned (stack_space (ptable s' i)) n s'"
    and owned_kept: "\<lbrakk>room (Suc k) s; n = 128 \<or> n = 1024; stack_taken alloc n s s' i; owned q m s\<rbrakk>
      \<Longrightarrow> q \<noteq> stack_space (ptable s' i) \<and> owned q m s'"

context stack_room
begin

lemma boot_path:
  assumes r: "room 5 (init_sched dir s)" and fl: "\<And>i. task_flags (ptable s i) = 0"
  obtains s0 s1 s2 s3 s4 s' where "stack_taken alloc 128 (init_sched dir s) s0 0" "room 4 s0"
    "stack_taken alloc 1024 s0 s1 1" "room 3 s1" "stack_taken alloc 1024 s1 s2 2" "room 2 s2"
    "stack_taken alloc 1024 s2 s3 3" "room 1 s3" "stack_taken alloc 1024 s3 s4 4" "room 0 s4"
    "\<forall>i. i \<noteq> 1 \<longrightarrow> ptable s1 i = ptable s0 i" "\<forall>i. i \<noteq> 2 \<longrightarrow> ptable s2 i = ptable s1 i"
    "\<forall>i. i \<noteq> 3 \<longrightarrow> ptable s3 i = ptable s2 i" "\<forall>i. i \<noteq> 4 \<longrightarrow> ptable s4 i = ptable s3 i"
    "boot alloc idle dir t1 t2 t3 t4 s = Some s'" "kernel_rep s' ((\<lambda>_. [])(1 := [1, 2, 3, 4])) (\<lambda>_. []) []" "current_task s' = Some 1"
    "kmem s' = kmem s4" "clock.more s' = clock.more s4"
    "\<forall>i. stack_space (ptable s' i) = stack_space (ptable s4 i) \<and> stack_size (ptable s' i) = stack_size (ptable s4 i)"
proof -
  have af: "alloc_frame alloc" using frame by (simp add: clock_frame_def)
  have g: "fst (alloc 128 (init_sched dir s)) \<noteq> NULL" using grants [of 4 "init_sched dir s" 128] r by simp
  then obtain s00 where s00: "multitasking_init alloc idle dir s = Some s00"
    using multitasking_init_cases(1) [OF refl, where alloc = alloc and idle = idle and dir = dir and s = s] by simp
  define s0 where "s0 = clock_setup s00"
  have b1: "booting s0 1" unfolding s0_def by (rule init_booting [OF frame fl s00])
  have k0: "stack_taken alloc 128 (init_sched dir s) s0 0" unfolding s0_def by (rule init_stack [OF s00])
  have r0: "room 4 s0" by (rule room_left [of 4, OF _ _ k0]) (use r in simp_all)
  have tc: "1 < TASK_COUNT" "2 < TASK_COUNT" "3 < TASK_COUNT" "4 < TASK_COUNT" by (simp_all add: TASK_COUNT_def)
  have g0: "fst (alloc 1024 s0) \<noteq> NULL" using grants [of 3 s0 1024] r0 by simp
  obtain s1 where s1: "spawn alloc t1 True s0 = Some (1, s1)" "booting s1 2" "priority (ptable s1 1) = 1"
    "\<forall>i. i \<noteq> 1 \<longrightarrow> ptable s1 i = ptable s0 i" "stack_taken alloc 1024 s0 s1 1"
    using spawn_booting [OF b1 _ tc(1) frame g0, of t1 True] by (auto simp: numeral_2_eq_2)
  have r1: "room 3 s1" by (rule room_left [of 3, OF _ _ s1(5)]) (use r0 in simp_all)
  have g1: "fst (alloc 1024 s1) \<noteq> NULL" using grants [of 2 s1 1024] r1 by simp
  obtain s2 where s2: "spawn alloc t2 True s1 = Some (2, s2)" "booting s2 3" "priority (ptable s2 2) = 1"
    "\<forall>i. i \<noteq> 2 \<longrightarrow> ptable s2 i = ptable s1 i" "stack_taken alloc 1024 s1 s2 2"
    using spawn_booting [OF s1(2) _ tc(2) frame g1, of t2 True] by auto
  have r2: "room 2 s2" by (rule room_left [of 2, OF _ _ s2(5)]) (use r1 in simp_all)
  have g2: "fst (alloc 1024 s2) \<noteq> NULL" using grants [of 1 s2 1024] r2 by (simp add: numeral_2_eq_2)
  obtain s3 where s3: "spawn alloc t3 True s2 = Some (3, s3)" "booting s3 4" "priority (ptable s3 3) = 1"
    "\<forall>i. i \<noteq> 3 \<longrightarrow> ptable s3 i = ptable s2 i" "stack_taken alloc 1024 s2 s3 3"
    using spawn_booting [OF s2(2) _ tc(3) frame g2, of t3 True] by auto
  have r3: "room 1 s3" by (rule room_left [of 1, OF _ _ s3(5)]) (use r2 in \<open>simp_all add: numeral_2_eq_2\<close>)
  have g3: "fst (alloc 1024 s3) \<noteq> NULL" using grants [of 0 s3 1024] r3 by simp
  obtain s4 where s4: "spawn alloc t4 False s3 = Some (4, s4)" "booting s4 5" "priority (ptable s4 4) = 1"
    "\<forall>i. i \<noteq> 4 \<longrightarrow> ptable s4 i = ptable s3 i" "stack_taken alloc 1024 s3 s4 4"
    using spawn_booting [OF s3(2) _ tc(4) frame g3, of t4 False] by auto
  have r4: "room 0 s4" by (rule room_left [of 0, OF _ _ s4(5)]) (use r3 in simp_all)
  have p: "priority (ptable s4 i) = 1" if "0 < i" "i < 5" for i
  proof -
    from that have "i = 1 \<or> i = 2 \<or> i = 3 \<or> i = 4" by auto
    with s1(3) s2(3,4) s3(3,4) s4(3,4) show ?thesis by auto
  qed
  define s5 where "s5 = enqueue_task 4 (enqueue_task 3 (enqueue_task 2 (enqueue_task 1 s4)))"
  note b = booted_sys [OF s4(2) p, folded s5_def]
  have links: "same_but_links s4 s5" unfolding s5_def using enqueue_task_links same_but_links_trans by blast
  note f = same_but_links_fields [OF links]
  have pk: "pick s5 = Some 1"
    using pick_rep [OF sys_repD(1) [OF clk_repD(1) [OF b(1)]]]
    by (simp add: first_ready_def LOWEST_TASK_PRIORITY_def upto_rec1)
  have "message_flags (ptable s5 1) \<noteq> MESSAGE_FLAGS_DELIVERING"
    using s4(2) tc(1) by (simp add: f booting_def flag_defs)
  then obtain s' where s': "resume s5 = Some s'" "kernel_rep s' ((\<lambda>_. [])(1 := [1, 2, 3, 4])) (\<lambda>_. []) []"
    "current_task s' = Some 1" "kmem s' = kmem s5" using resume_rep [OF b] pk by auto
  have "boot alloc idle dir t1 t2 t3 t4 s = Some s'"
    using s00 s1(1) s2(1) s3(1) s4(1) s'(1) by (simp add: boot_def kernel_main_def Let_def s0_def s5_def)
  moreover have "kmem s' = kmem s4" "clock.more s' = clock.more s4"
    using s'(4) f(16) resume_keeps(1) [OF s'(1)] clock_fields_cong(3) [OF f(22)] by simp_all
  moreover have "\<forall>i. stack_space (ptable s' i) = stack_space (ptable s4 i) \<and> stack_size (ptable s' i) = stack_size (ptable s4 i)"
    using resume_keeps(2,3) [OF s'(1)] same_but_links_stack [OF links] by simp
  ultimately show ?thesis using that k0 r0 s1(5) r1 s2(5) r2 s3(5) r3 s4(5) r4 s1(4) s2(4) s3(4) s4(4) s'(2,3) by blast
qed

end

context stack_provider
begin

lemma boot_stacks:
  assumes r: "room 5 (init_sched dir s)" and fl: "\<And>i. task_flags (ptable s i) = 0"
  shows "\<exists>s'. boot alloc idle dir t1 t2 t3 t4 s = Some s' \<and> kinv s' \<and> room 0 s'
    \<and> (\<forall>i < 5. owned (stack_space (ptable s' i)) (stack_size (ptable s' i)) s' \<and> stack_size (ptable s' i) = (if i = 0 then 128 else 1024))
    \<and> inj_on (\<lambda>i. stack_space (ptable s' i)) {..<5}"
proof -
  obtain s0 s1 s2 s3 s4 s' where k: "stack_taken alloc 128 (init_sched dir s) s0 0" "room 4 s0"
    "stack_taken alloc 1024 s0 s1 1" "room 3 s1" "stack_taken alloc 1024 s1 s2 2" "room 2 s2"
    "stack_taken alloc 1024 s2 s3 3" "room 1 s3" "stack_taken alloc 1024 s3 s4 4" "room 0 s4"
    and o: "\<forall>i. i \<noteq> 1 \<longrightarrow> ptable s1 i = ptable s0 i" "\<forall>i. i \<noteq> 2 \<longrightarrow> ptable s2 i = ptable s1 i"
    "\<forall>i. i \<noteq> 3 \<longrightarrow> ptable s3 i = ptable s2 i" "\<forall>i. i \<noteq> 4 \<longrightarrow> ptable s4 i = ptable s3 i"
    and b: "boot alloc idle dir t1 t2 t3 t4 s = Some s'" "kernel_rep s' ((\<lambda>_. [])(1 := [1, 2, 3, 4])) (\<lambda>_. []) []"
    "kmem s' = kmem s4" "clock.more s' = clock.more s4"
    "\<forall>i. stack_space (ptable s' i) = stack_space (ptable s4 i) \<and> stack_size (ptable s' i) = stack_size (ptable s4 i)"
    by (rule boot_path [OF r fl])
  have rm: "room (Suc 4) (init_sched dir s)" "room (Suc 3) s0" "room (Suc 2) s1" "room (Suc 1) s2" "room (Suc 0) s3"
    using r k by (simp_all add: eval_nat_numeral)
  define p where "p i = stack_space (ptable s4 i)" for i
  have p: "stack_space (ptable s0 0) = p 0" "stack_space (ptable s1 1) = p 1" "stack_space (ptable s2 2) = p 2"
    "stack_space (ptable s3 3) = p 3" "stack_space (ptable s4 4) = p 4" using o by (simp_all add: p_def)
  have n0: "owned (p 0) 128 s0" using owned_new [OF rm(1) _ k(1)] p by simp
  note two = disjI2 [OF refl]
  note kept1 = owned_kept [OF rm(2) two k(3), unfolded p] and kept2 = owned_kept [OF rm(3) two k(5), unfolded p]
    and kept3 = owned_kept [OF rm(4) two k(7), unfolded p] and kept4 = owned_kept [OF rm(5) two k(9), unfolded p]
  note n1 = owned_new [OF rm(2) two k(3), unfolded p] kept1 [OF n0]
  note n2 = owned_new [OF rm(3) two k(5), unfolded p] kept2 [OF conjunct2 [OF n1(2)]] kept2 [OF n1(1)]
  note n3 = owned_new [OF rm(4) two k(7), unfolded p] kept3 [OF conjunct2 [OF n2(2)]] kept3 [OF conjunct2 [OF n2(3)]] kept3 [OF n2(1)]
  note n4 = owned_new [OF rm(5) two k(9), unfolded p] kept4 [OF conjunct2 [OF n3(2)]] kept4 [OF conjunct2 [OF n3(3)]]
    kept4 [OF conjunct2 [OF n3(4)]] kept4 [OF n3(1)]
  have sz: "stack_size (ptable s4 i) = (if i = 0 then 128 else 1024)" if "i < 5" for i
  proof -
    from that have "i = 0 \<or> i = 1 \<or> i = 2 \<or> i = 3 \<or> i = 4" by auto
    then show ?thesis using k(1,3,5,7,9) o by (auto simp: stack_taken_def split: prod.splits)
  qed
  have own: "owned (p i) (if i = 0 then 128 else 1024) s'" if "i < 5" for i
  proof -
    from that have "i = 0 \<or> i = 1 \<or> i = 2 \<or> i = 3 \<or> i = 4" by auto
    then have "owned (p i) (if i = 0 then 128 else 1024) s4" using n4 by auto
    then show ?thesis by (rule owned_cong [OF _ b(3,4)])
  qed
  have five: "{..<5 :: nat} = {0, 1, 2, 3, 4}" by auto
  have "inj_on p {..<5}" using n1 n2 n3 n4 unfolding five by (auto simp: inj_on_def)
  moreover have "room 0 s'" by (rule room_cong [OF k(10) b(3,4)])
  moreover have "kinv s'" unfolding kinv_def using b(2) by blast
  moreover have "\<forall>i < 5. owned (stack_space (ptable s' i)) (stack_size (ptable s' i)) s' \<and> stack_size (ptable s' i) = (if i = 0 then 128 else 1024)"
    using own sz b(5) by (simp add: p_def)
  moreover have "inj_on (\<lambda>i. stack_space (ptable s' i)) {..<5}"
  proof -
    have eq: "(\<lambda>i. stack_space (ptable s' i)) = p" using b(5) by (simp add: p_def fun_eq_iff)
    show ?thesis unfolding eq by (rule \<open>inj_on p {..<5}\<close>)
  qed
  ultimately show ?thesis using b(1) by (intro exI [of _ s'] conjI)
qed

end

lemma boot_rep:
  assumes al: "clock_frame alloc" "\<And>n s. fst (alloc n s) \<noteq> NULL" and fl: "\<And>i. task_flags (ptable s i) = 0"
  shows "\<exists>s'. boot alloc idle dir t1 t2 t3 t4 s = Some s'
    \<and> kernel_rep s' ((\<lambda>_. [])(1 := [1, 2, 3, 4])) (\<lambda>_. []) [] \<and> current_task s' = Some 1"
proof -
  have "stack_room alloc (\<lambda>_ _. True)" by unfold_locales (use al in auto)
  then show ?thesis
    by (rule stack_room.boot_path [OF _ TrueI fl, where idle = idle and dir = dir and ?t1.0 = t1 and ?t2.0 = t2 and ?t3.0 = t3 and ?t4.0 = t4]) blast
qed


section \<open>Properties of the kernel\<close>

definition sleepers :: "'a clock_scheme \<Rightarrow> nat list" where
  "sleepers s = walk (timer_of s) (next_timer_event s) TASK_COUNT"

lemma clk_rep_concrete:
  assumes "clk_rep s Q S T"
  shows "ready s = Q" "senders s = S" "sleepers s = T"
proof -
  show "ready s = Q" "senders s = S"
    using clk_repD(1) [OF assms] by (auto dest: sys_repD rq_rep_ready mq_rep_senders)
  have "set T \<subseteq> {..<TASK_COUNT}" using clk_repD(4) [OF assms] by auto
  then show "sleepers s = T"
    using clk_repD(2) [OF assms] by (simp add: sleepers_def walk_chain chain_length_bound)
qed

lemma kinv_concrete: "kinv s \<longleftrightarrow> kernel_rep s (ready s) (senders s) (sleepers s)"
  unfolding kinv_def using clk_rep_concrete by (metis kernel_rep_def)

lemma undefined_call:
  assumes "kinv s" "\<not> call_defined sp m"
  shows "kernel_entry Kernel_call sp m s = None"
proof -
  obtain Q S T where r: "kernel_rep s Q S T" using assms(1) by (auto simp: kinv_def)
  then obtain c where c: "current_task s = Some c" unfolding kernel_rep_def by blast
  from save_context_rep [OF r c, of sp m] obtain s1 where s1: "save_context sp m s = Some s1"
    "current_task s1 = Some c" "kmem s1 = m" "context_p (ptable s1 c) = sp" by blast
  have "sleep_ms (get_context c ctx_ecx s1) s1 = None"
    by (rule sleep_undefined) (use assms(2) s1(3,4) in \<open>simp add: call_defined_def get_context_def\<close>)
  moreover have "get_context c ctx_eax s1 = 0" using assms(2) s1(3,4) by (simp add: call_defined_def get_context_def)
  ultimately show ?thesis using s1(1,2) by (simp add: kernel_entry_def handle_kernel_call_def dispatch_def)
qed

lemma kstep_kinv: "kstep s s' \<Longrightarrow> kinv s \<Longrightarrow> kinv s'"
proof (induction rule: kstep.induct)
  case (call s sp m s')
  then have "call_defined sp m" using undefined_call [of s sp m] by fastforce
  then show ?case using call kernel_entry_keeps [of s Kernel_call sp m] by auto
next
  case (tick sp m s s')
  then show ?case using kernel_entry_keeps [of s Timer sp m] by auto
qed

lemma reachable_kinv: "kstep\<^sup>*\<^sup>* s s' \<Longrightarrow> kinv s \<Longrightarrow> kinv s'"
  by (induction rule: rtranclp_induct) (auto intro: kstep_kinv)

lemma never_stuck:
  assumes "kinv s0" "kstep\<^sup>*\<^sup>* s0 s1"
  shows "kinv s1 \<and> (\<forall>sp m. \<exists>s2. kernel_entry Timer sp m s1 = Some s2 \<and> kstep s1 s2) \<and>
       (current_task s1 \<noteq> idle_task s1 \<longrightarrow>
         (\<forall>sp m. call_defined sp m \<longrightarrow> (\<exists>s2. kernel_entry Kernel_call sp m s1 = Some s2 \<and> kstep s1 s2)))"
proof -
  have k: "kinv s1" by (rule reachable_kinv [OF assms(2,1)])
  have "\<exists>s2. kernel_entry Timer sp m s1 = Some s2 \<and> kstep s1 s2" for sp m
    using kernel_entry_keeps [OF k, of Timer sp m] kstep.tick [of sp m s1] by blast
  moreover have "\<exists>s2. kernel_entry Kernel_call sp m s1 = Some s2 \<and> kstep s1 s2"
    if "current_task s1 \<noteq> idle_task s1" "call_defined sp m" for sp m
    using kernel_entry_keeps [OF k, of Kernel_call sp m] kstep.call [OF that(1), of sp m] that by blast
  ultimately show ?thesis using k by blast
qed

text \<open>the kernel boots and never gets stuck: from the boot on, in every state reachable by kernel
  calls and timer interrupts, whatever the tasks leave in memory and in their registers, the
  invariant of the task table holds and the next entry into the kernel, unless it is a sleep too long for an \<open>int\<close>,
  returns to a task; no NULL dereference, no corrupted list and no endless loop can happen in between.\<close>

theorem kernel_never_stuck:
  assumes "clock_frame alloc" "\<And>n s. fst (alloc n s) \<noteq> NULL" "\<And>i. task_flags (ptable s i) = 0"
  shows "\<exists>s0. boot alloc idle dir t1 t2 t3 t4 s = Some s0 \<and>
    (\<forall>s1. kstep\<^sup>*\<^sup>* s0 s1 \<longrightarrow> kinv s1 \<and>
       (\<forall>sp m. \<exists>s2. kernel_entry Timer sp m s1 = Some s2 \<and> kstep s1 s2) \<and>
       (current_task s1 \<noteq> idle_task s1 \<longrightarrow>
         (\<forall>sp m. call_defined sp m \<longrightarrow> (\<exists>s2. kernel_entry Kernel_call sp m s1 = Some s2 \<and> kstep s1 s2))))"
proof -
  obtain s0 where b: "boot alloc idle dir t1 t2 t3 t4 s = Some s0" "kinv s0"
    using boot_rep [of alloc s idle dir t1 t2 t3 t4, OF assms] by (auto simp: kinv_def)
  then show ?thesis using never_stuck by blast
qed

text \<open>C5: in every reachable state the running task is the one that has waited longest among the ready
  tasks of the most urgent priority, and the idle task runs only when nothing is ready: the
  scheduler's cached decision is never stale when the kernel returns to a task.\<close>

theorem running_is_most_urgent:
  assumes "kinv s0" "kstep\<^sup>*\<^sup>* s0 s"
  shows "(\<forall>p t ts. ready s p = t # ts \<and> (\<forall>q. 0 \<le> q \<and> q < p \<longrightarrow> ready s q = []) \<longrightarrow> current_task s = Some t)
    \<and> ((\<forall>p. ready s p = []) \<longleftrightarrow> current_task s = idle_task s)"
proof -
  have "kinv s" by (rule reachable_kinv [OF assms(2,1)])
  then have k: "kernel_rep s (ready s) (senders s) (sleepers s)" by (simp add: kinv_concrete)
  then have co: "sched_coherent s" and c: "current_task s = pick s" and "clk_rep s (ready s) (senders s) (sleepers s)"
    unfolding kernel_rep_def sched_coherent_def by auto
  then have sys: "sys_rep s (ready s) (senders s) (sleepers s)" by (simp add: clk_repD(1))
  then have r: "rq_rep s (ready s)" by (rule sys_repD(1))
  have n: "next_task (scheduler s) = pick s" by (rule scheduler_pick [OF r co])
  have "current_task s = idle_task s \<Longrightarrow> ready s p = []" for p
  proof (rule ccontr)
    assume ci: "current_task s = idle_task s" and "ready s p \<noteq> []"
    with pick_cases [OF r] c obtain p t where "pick s = Some t" "t \<in> set (ready s p)" by auto
    with ready_task_place [OF sys] ci c show False by (auto simp: live_def)
  qed
  moreover note ch = scheduler_choice [OF rq_rep_inv [OF r] co, unfolded n, folded c]
  have "(\<forall>p t ts. ready s p = t # ts \<and> (\<forall>q. 0 \<le> q \<and> q < p \<longrightarrow> ready s q = []) \<longrightarrow> current_task s = Some t)"
    using ch by (rule conjunct1)
  moreover have "(\<forall>p. ready s p = []) \<longrightarrow> current_task s = idle_task s" using ch by blast
  ultimately show ?thesis by blast
qed

text \<open>C6: no task is ever lost or duplicated: in every reachable state each live task is in exactly one
  place, ready, asleep, in one queue of senders or waiting for a message, and a free slot and the
  idle task are in none.\<close>

theorem every_task_in_one_place:
  assumes "kinv s0" "kstep\<^sup>*\<^sup>* s0 s" "t < TASK_COUNT"
  shows "\<exists>!pl. at_place s (ready s) (senders s) (sleepers s) t pl \<and> (pl = Absent \<longleftrightarrow> \<not> live s t)"
proof -
  have "kinv s" by (rule reachable_kinv [OF assms(2,1)])
  then have "sys_rep s (ready s) (senders s) (sleepers s)"
    unfolding kinv_concrete kernel_rep_def by (simp add: clk_repD(1))
  from sys_repD(3) [OF this assms(3)] obtain pl where
    pl: "at_place s (ready s) (senders s) (sleepers s) t pl" "(pl = Absent) = (\<not> live s t)"
    by (auto simp: task_ok_def)
  have "pl' = pl" if "at_place s (ready s) (senders s) (sleepers s) t pl'" "(pl' = Absent) = (\<not> live s t)" for pl'
    using pl that by (cases pl; cases pl'; auto simp: flag_defs)
  with pl show ?thesis by blast
qed

text \<open>C7: A kernel call returns to its dispatcher, which stores the result in the caller's saved
  \<open>eax\<close>: the caller's process id for call 2, 0 for a call number it does not know, -1 for a message to
  a process that does not exist. The clock does not move. The one call that C leaves undefined, and that has no
  result, is a sleep (call 0) of 2147483 ms or more.\<close>

theorem kernel_call_result:
  assumes "clk_rep s Q S T" "idle_ok s" "runnable s Q S T c" "current_task s = Some c"
  shows "if get_context c ctx_eax s = 0 \<and> 2147483 \<le> sint (get_context c ctx_ecx s) then handle_kernel_call s = None
    else \<exists>s' x. handle_kernel_call s = Some s' \<and> get_context c ctx_eax s' = x
    \<and> clock_ticks s' = clock_ticks s \<and> current_task s' = Some c
    \<and> (get_context c ctx_eax s = 2 \<longrightarrow> x = pid (ptable s c))
    \<and> (get_context c ctx_eax s = 3 \<and> find_task (get_context c ctx_ecx s) s = None \<longrightarrow> x = -1)
    \<and> (4 < get_context c ctx_eax s \<longrightarrow> x = 0)
    \<and> (get_context c ctx_eax s = 2 \<or> 4 < get_context c ctx_eax s \<longrightarrow>
         s' = s\<lparr>kmem := st32 (kmem s) (context_p (ptable s c) + ctx_eax) x\<rparr>)"
proof (cases "get_context c ctx_eax s = 0 \<and> 2147483 \<le> sint (get_context c ctx_ecx s)")
  case True
  then have "sleep_ms (get_context c ctx_ecx s) s = None" by (intro sleep_undefined) (simp add: sleep_defined_def)
  then show ?thesis using True assms(4) by (simp add: handle_kernel_call_def dispatch_def)
next
  case False
  then have "get_context c ctx_eax s = 0 \<Longrightarrow> sleep_defined (get_context c ctx_ecx s)" by (simp add: sleep_defined_def)
  from handle_kernel_call_done [OF assms this] obtain x s1 s' where d:
    "dispatch c (get_context c ctx_eax s) (get_context c ctx_ecx s) (get_context c ctx_edx s) s = Some (x, s1)"
    "handle_kernel_call s = Some s'" "s' = set_context c ctx_eax x s1" "call_done s s'" by blast
  have "get_context c ctx_eax s' = x" by (simp add: d(3) get_context_def set_context_def)
  moreover have "get_context c ctx_eax s = 3 \<and> find_task (get_context c ctx_ecx s) s = None \<longrightarrow> x = -1"
    using d(1) by (auto simp: dispatch_def message_send_def)
  moreover have "get_context c ctx_eax s = 2 \<longrightarrow> x = pid (ptable s c) \<and> s1 = s"
    using d(1) by (auto simp: dispatch_def)
  moreover have "x = 0 \<and> s1 = s" if "4 < get_context c ctx_eax s"
  proof -
    have "get_context c ctx_eax s \<notin> {0, 1, 2, 3, 4}" using that by (auto simp: word_less_nat_alt)
    with d(1) show ?thesis by (simp add: dispatch_def)
  qed
  ultimately show ?thesis unfolding if_not_P [OF False]
    using d(2-4) assms(4) by (intro exI [of _ s'] exI [of _ x]) (auto simp: call_done_def set_context_def)
qed

text \<open>C8: a message handed to a waiting receiver reaches it: at the switch to a task with a message
  pending, its 64 bytes are copied to the address the task gave to \<open>message_receive\<close>, the task's call
  returns 0, and the pending mark is gone; a switch to any other task writes nothing to memory.\<close>

theorem switch_delivers_message:
  assumes "clk_rep s Q S T" "sched_coherent s" "idle_ok s" "nested_intr s = 0" "pick s = Some c"
  shows "\<exists>s'. resume s = Some s' \<and> current_task s' = Some c
    \<and> message_flags (ptable s' c) = MESSAGE_FLAGS_NONE
    \<and> kmem s' = (if message_flags (ptable s c) = MESSAGE_FLAGS_DELIVERING
        then st32 (write_bytes (kmem s) (message_ptr (ptable s c)) (message_buffer (ptable s c)))
               (context_p (ptable s c) + ctx_eax) 0
        else kmem s)"
proof -
  from resume_rep [OF assms(1-4)] assms(5) obtain s' where s': "resume s = Some s'" "kernel_rep s' Q S T"
    "current_task s' = Some c"
    "message_flags (ptable s c) = MESSAGE_FLAGS_DELIVERING \<longrightarrow>
         kmem s' = st32 (write_bytes (kmem s) (message_ptr (ptable s c)) (message_buffer (ptable s c)))
                        (context_p (ptable s c) + ctx_eax) 0"
    "message_flags (ptable s c) \<noteq> MESSAGE_FLAGS_DELIVERING \<longrightarrow> kmem s' = kmem s" by auto
  have sys: "sys_rep s' Q S T" using s'(2) by (simp add: kernel_rep_def clk_repD(1))
  have "message_flags (ptable s' c) = MESSAGE_FLAGS_NONE"
  proof (cases "Some c = idle_task s'")
    case True
    with s'(2) have "c < TASK_COUNT" by (auto simp: kernel_rep_def idle_ok_def)
    with idle_place [OF sys True] show ?thesis by simp
  next
    case False
    with s'(2,3) show ?thesis by (auto simp: kernel_rep_def running_ok_def runnable_def)
  qed
  with s' show ?thesis by auto
qed


section \<open>Round robin\<close>

text \<open>A sequence of kernel calls; each element is the stack pointer and the memory at that entry.\<close>

fun kernel_calls :: "(addr \<times> mem) list \<Rightarrow> 'a clock_scheme \<Rightarrow> 'a clock_scheme option" where
  "kernel_calls [] s = Some s"
| "kernel_calls ((sp, m) # es) s = Option.bind (kernel_entry Kernel_call sp m s) (kernel_calls es)"

lemma first_ready_urgent:
  assumes "valid_prio p" "Q p = t # ts" "\<And>q. 0 \<le> q \<Longrightarrow> q < p \<Longrightarrow> Q q = []"
  shows "first_ready Q d = Some t"
proof -
  have "[0..LOWEST_TASK_PRIORITY] = [0..p - 1] @ p # [p + 1..LOWEST_TASK_PRIORITY]"
    using assms(1) upto_split2 [of 0 p LOWEST_TASK_PRIORITY] upto_rec2 [of 0 p] by (simp add: valid_prio_def)
  moreover have "find (\<lambda>p. Q p \<noteq> []) [0..p - 1] = None" using assms(3) by (auto simp: find_None_iff)
  moreover have "find P (xs @ ys) = (case find P xs of None \<Rightarrow> find P ys | Some x \<Rightarrow> Some x)"
    for P and xs ys :: "int list" by (induction xs) auto
  ultimately show ?thesis using assms(2) by (simp add: first_ready_def)
qed

lemma yield_step:
  assumes r: "kernel_rep s Q S T" and p: "valid_prio p" "Q p = t # ts" "\<And>q. 0 \<le> q \<Longrightarrow> q < p \<Longrightarrow> Q q = []"
    and call: "ld32 m (sp + ctx_eax) = 1"
  shows "current_task s = Some t
    \<and> (\<exists>s'. kernel_entry Kernel_call sp m s = Some s' \<and> kernel_rep s' (Q(p := ts @ [t])) S T)"
proof -
  have ck: "clk_rep s Q S T" and co: "sched_coherent s" and cp: "current_task s = pick s"
    using r unfolding kernel_rep_def sched_coherent_def by auto
  note sys = clk_repD(1) [OF ck]
  have c: "current_task s = Some t"
    using cp pick_rep [OF sys_repD(1) [OF sys]] first_ready_urgent [of p Q t ts, OF p] by simp
  from save_context_rep [OF r c, of sp m] obtain s1 where s1: "save_context sp m s = Some s1"
    "clk_rep s1 Q S T" "sched_coherent s1" "idle_ok s1" "nested_intr s1 = 0" "current_task s1 = Some t"
    "running_ok s1 Q S T t" "idle_task s1 = idle_task s" "kmem s1 = m" "context_p (ptable s1 t) = sp" by blast
  have tp: "t \<in> set (Q p)" using p(2) by simp
  have "live s1 t" "priority (ptable s1 t) = p"
    using ready_task_place [OF clk_repD(1) [OF s1(2)] tp]
      rq_rep_other_queue [OF sys_repD(1) [OF clk_repD(1) [OF s1(2)]] tp] by auto
  with s1(7) have run: "runnable s1 Q S T t" by (auto simp: running_ok_def live_def)
  from preempt_done [OF s1(2,4) run s1(6)] obtain s2 where s2: "preempt s1 = Some s2" "call_done s1 s2"
    "clk_rep s2 (requeued s1 t Q) S T" "sched_coherent s2" by blast
  have rq: "requeued s1 t Q = Q(p := ts @ [t])"
    using \<open>priority (ptable s1 t) = p\<close> p(2) by (simp add: requeued_def)
  have eax: "get_context t ctx_eax s1 = 1" using call s1(9,10) by (simp add: get_context_def)
  have "current_task s2 = Some t" using s2(2) s1(6) by (simp add: call_done_def)
  then have h: "handle_kernel_call s1 = Some (set_context t ctx_eax 0 s2)"
    using s1(6) eax s2(1) by (simp add: handle_kernel_call_def dispatch_def)
  let ?s3 = "set_context t ctx_eax 0 s2"
  have "clk_rep ?s3 (Q(p := ts @ [t])) S T" "sched_coherent ?s3" "idle_ok ?s3" "nested_intr ?s3 = 0"
    using s2 s1(5) rq by (simp_all add: st32_context_rep call_done_def ctx_same_def)
  from resume_rep [OF this] obtain s' where "resume ?s3 = Some s'" "kernel_rep s' (Q(p := ts @ [t])) S T" by blast
  with s1(1) h c show ?thesis by (simp add: kernel_entry_def)
qed

text \<open>C9: Tasks of the same priority share the processor in turn. If each running task gives it up by
  the kernel call 1 (\<open>preempt\<close>), then after \<open>k\<close> such calls the ready queue of the most urgent
  priority is rotated by \<open>k\<close> places, the other ready queues, the queues of senders and the list of sleepers hold the
  same tasks in the same order as before, and the \<open>k\<close>-th task of the queue (modulo its length) is running: within one
  round every task of the queue runs once.\<close>

theorem round_robin:
  assumes "kernel_rep s Q S T" "valid_prio p" "Q p \<noteq> []" "\<And>q. 0 \<le> q \<Longrightarrow> q < p \<Longrightarrow> Q q = []"
    and "\<And>sp m. (sp, m) \<in> set es \<Longrightarrow> ld32 m (sp + ctx_eax) = 1"
  shows "\<exists>s'. kernel_calls es s = Some s' \<and> kernel_rep s' (Q(p := rotate (length es) (Q p))) S T
    \<and> current_task s' = Some (Q p ! (length es mod length (Q p)))"
  using assms(1,3-5)
proof (induction es arbitrary: s Q)
  case Nil
  obtain t ts where t: "Q p = t # ts" using Nil.prems(2) by (cases "Q p") auto
  have ck: "clk_rep s Q S T" and cp: "current_task s = pick s"
    using Nil.prems(1) unfolding kernel_rep_def sched_coherent_def by auto
  have "current_task s = Some t"
    using cp pick_rep [OF sys_repD(1) [OF clk_repD(1) [OF ck]]]
      first_ready_urgent [of p Q t ts, OF assms(2) t Nil.prems(3)] by simp
  moreover have "Q p ! 0 = t" using t by simp
  ultimately show ?case using Nil.prems(1) by simp
next
  case (Cons e es)
  obtain sp m where e: "e = (sp, m)" by fastforce
  obtain t ts where t: "Q p = t # ts" using Cons.prems(2) by (cases "Q p") auto
  let ?Q = "Q(p := ts @ [t])"
  obtain s1 where s1: "kernel_entry Kernel_call sp m s = Some s1" "kernel_rep s1 ?Q S T"
    using yield_step [of s Q S T p t ts m sp, OF Cons.prems(1) assms(2) t Cons.prems(3)] Cons.prems(4) e by auto
  have Qp: "?Q p = rotate1 (Q p)" using t by simp
  have "?Q p \<noteq> []" "\<And>q. 0 \<le> q \<Longrightarrow> q < p \<Longrightarrow> ?Q q = []" "\<And>sp m. (sp, m) \<in> set es \<Longrightarrow> ld32 m (sp + ctx_eax) = 1"
    using Cons.prems(3,4) by auto
  from Cons.IH [OF s1(2) this] obtain s' where s': "kernel_calls es s1 = Some s'"
    "kernel_rep s' (?Q(p := rotate (length es) (?Q p))) S T"
    "current_task s' = Some (?Q p ! (length es mod length (?Q p)))" by blast
  have "?Q p ! (length es mod length (?Q p)) = Q p ! (Suc (length es) mod length (Q p))"
    using nth_rotate [of "length es mod length (Q p)" "Q p" 1] t by (simp add: mod_Suc_eq)
  moreover have "rotate (length es) (?Q p) = rotate (length (e # es)) (Q p)"
    unfolding Qp by (simp add: rotate1_rotate_swap)
  moreover have "?Q(p := xs) = Q(p := xs)" for xs by simp
  ultimately show ?case using s1(1) s' e by (simp del: fun_upd_apply)
qed

section \<open>A concrete boot\<close>

definition demo_reset :: clock where
  "demo_reset = \<lparr>kmem = (\<lambda>_. 0), ptable = (\<lambda>_. demo_task\<lparr>task_flags := 0\<rparr>), idle_task = None,
     next_task = None, current_task = None, reschedule_needed = False, pid_count = 0, nested_intr = 0,
     queue_head = (\<lambda>_. None), queue_tail = (\<lambda>_. None), clock_ticks = 0, next_timer_event = None\<rparr>"

definition demo_heap :: "u32 \<Rightarrow> clock \<Rightarrow> addr \<times> clock" where
  "demo_heap n s = (0xC0200000, s)"

definition demo_booted :: clock where
  "demo_booted = the (boot demo_heap 0xC0000100 0xC0001000 0xC0000200 0xC0000300 0xC0000400 0xC0000500 demo_reset)"

lemma demo_heap_frame: "clock_frame demo_heap"
  by (simp add: clock_frame_def alloc_frame_def demo_heap_def)

lemma demo_booted_rep:
  "kernel_rep demo_booted ((\<lambda>_. [])(1 := [1, 2, 3, 4])) (\<lambda>_. []) []"
  using boot_rep [of demo_heap demo_reset "0xC0000100" "0xC0001000" "0xC0000200" "0xC0000300" "0xC0000400" "0xC0000500"]
    demo_heap_frame by (auto simp: demo_booted_def demo_heap_def demo_reset_def)

lemma demo_booted_current: "current_task demo_booted = Some 1"
  using boot_rep [of demo_heap demo_reset "0xC0000100" "0xC0001000" "0xC0000200" "0xC0000300" "0xC0000400" "0xC0000500"]
    demo_heap_frame by (auto simp: demo_booted_def demo_heap_def demo_reset_def)

lemma demo_booted_kinv: "kinv demo_booted"
  using demo_booted_rep unfolding kinv_def by blast

lemma demo_booted_lists:
  "ready demo_booted = (\<lambda>_. [])(1 := [1, 2, 3, 4])" "senders demo_booted = (\<lambda>_. [])" "sleepers demo_booted = []"
proof -
  have "clk_rep demo_booted ((\<lambda>_. [])(1 := [1, 2, 3, 4])) (\<lambda>_. []) []"
    using demo_booted_rep unfolding kernel_rep_def by blast
  note c = clk_rep_concrete [OF this]
  show "ready demo_booted = (\<lambda>_. [])(1 := [1, 2, 3, 4])" "senders demo_booted = (\<lambda>_. [])" "sleepers demo_booted = []"
    using c by simp_all
qed

lemma kernel_never_stuck_witness:
  "\<exists>s0. boot demo_heap 0xC0000100 0xC0001000 0xC0000200 0xC0000300 0xC0000400 0xC0000500 demo_reset = Some s0
    \<and> (\<exists>s2. kernel_entry Timer 0xC0200100 (\<lambda>_. 0) s0 = Some s2)"
proof -
  have "fst (demo_heap n s) \<noteq> NULL" "task_flags (ptable demo_reset i) = 0" for n s i
    by (simp_all add: demo_heap_def demo_reset_def)
  from kernel_never_stuck [of demo_heap demo_reset "0xC0000100" "0xC0001000" "0xC0000200" "0xC0000300"
      "0xC0000400" "0xC0000500", OF demo_heap_frame this]
  show ?thesis by (meson rtranclp.rtrancl_refl)
qed

lemma running_is_most_urgent_witness: "current_task demo_booted = Some 1"
  using running_is_most_urgent [OF demo_booted_kinv rtranclp.rtrancl_refl]
  by (auto simp: demo_booted_lists dest!: conjunct1 spec [of _ "1 :: int"])

lemma every_task_in_one_place_witness:
  "\<exists>!pl. at_place demo_booted (ready demo_booted) (senders demo_booted) (sleepers demo_booted) 3 pl
     \<and> (pl = Absent \<longleftrightarrow> \<not> live demo_booted 3)"
  by (rule every_task_in_one_place [OF demo_booted_kinv rtranclp.rtrancl_refl]) (simp add: TASK_COUNT_def)

lemma round_robin_witness:
  "\<exists>s'. kernel_calls [(0x1000, \<lambda>a. if a = 0x102C then 1 else 0), (0x2000, \<lambda>a. if a = 0x202C then 1 else 0)] demo_booted = Some s'
    \<and> current_task s' = Some 3"
proof -
  have "ld32 (\<lambda>a. if a = 0x102C then 1 else 0) (0x1000 + ctx_eax) = 1"
    "ld32 (\<lambda>a. if a = 0x202C then 1 else 0) (0x2000 + ctx_eax) = 1"
    by (simp_all add: ld32_def ctx_eax_def)
  then show ?thesis
    using round_robin [OF demo_booted_rep, of 1 "[(0x1000, \<lambda>a. if a = 0x102C then 1 else 0), (0x2000, \<lambda>a. if a = 0x202C then 1 else 0)]"]
    by (auto simp: valid_prio_def LOWEST_TASK_PRIORITY_def)
qed

lemma demo_entered:
  "\<exists>s1. save_context 0x1000 m demo_booted = Some s1 \<and> clk_rep s1 ((\<lambda>_. [])(1 := [1, 2, 3, 4])) (\<lambda>_. []) []
    \<and> sched_coherent s1 \<and> idle_ok s1 \<and> nested_intr s1 = 0 \<and> current_task s1 = Some 1 \<and> pick s1 = Some 1
    \<and> kmem s1 = m \<and> context_p (ptable s1 1) = 0x1000
    \<and> runnable s1 ((\<lambda>_. [])(1 := [1, 2, 3, 4])) (\<lambda>_. []) [] 1"
proof -
  have c: "current_task demo_booted = Some 1" "pick demo_booted = Some 1"
    using demo_booted_current demo_booted_rep unfolding kernel_rep_def sched_coherent_def by auto
  from save_context_rep [OF demo_booted_rep c(1), of "0x1000" m] obtain s1 where
    s1: "save_context 0x1000 m demo_booted = Some s1" "clk_rep s1 ((\<lambda>_. [])(1 := [1, 2, 3, 4])) (\<lambda>_. []) []"
    "sched_coherent s1" "idle_ok s1" "nested_intr s1 = 0" "current_task s1 = Some 1" "pick s1 = Some 1"
    "kmem s1 = m" "context_p (ptable s1 1) = 0x1000"
    "running_ok s1 ((\<lambda>_. [])(1 := [1, 2, 3, 4])) (\<lambda>_. []) [] 1" using c(2) by auto
  have "live s1 1" using ready_task_place [OF clk_repD(1) [OF s1(2)], of 1 1] by simp
  with s1 show ?thesis by (auto simp: running_ok_def live_def)
qed

lemma kernel_call_result_witness:
  "\<exists>s1 s'. save_context 0x1000 (\<lambda>a. if a = 0x102C then 2 else 0) demo_booted = Some s1
    \<and> handle_kernel_call s1 = Some s' \<and> get_context 1 ctx_eax s' = pid (ptable s1 1)"
proof -
  obtain s1 where s1: "save_context 0x1000 (\<lambda>a. if a = 0x102C then 2 else 0) demo_booted = Some s1"
    "clk_rep s1 ((\<lambda>_. [])(1 := [1, 2, 3, 4])) (\<lambda>_. []) []" "idle_ok s1"
    "runnable s1 ((\<lambda>_. [])(1 := [1, 2, 3, 4])) (\<lambda>_. []) [] 1" "current_task s1 = Some 1"
    "kmem s1 = (\<lambda>a. if a = 0x102C then 2 else 0)" "context_p (ptable s1 1) = 0x1000"
    using demo_entered by blast
  have "get_context 1 ctx_eax s1 = 2" unfolding get_context_def s1(6,7) by (simp add: ld32_def ctx_eax_def)
  with kernel_call_result [OF s1(2-5)] s1(1) show ?thesis by auto
qed

lemma switch_delivers_message_witness:
  "\<exists>s1 s'. save_context 0x1000 (\<lambda>_. 0) demo_booted = Some s1 \<and> resume s1 = Some s' \<and> current_task s' = Some 1"
proof -
  obtain s1 where s1: "save_context 0x1000 (\<lambda>_. 0) demo_booted = Some s1"
    "clk_rep s1 ((\<lambda>_. [])(1 := [1, 2, 3, 4])) (\<lambda>_. []) []" "sched_coherent s1" "idle_ok s1" "nested_intr s1 = 0"
    "pick s1 = Some 1" using demo_entered by blast
  from switch_delivers_message [OF s1(2-6)] s1(1) show ?thesis by blast
qed

end
