(* ===== verification/KLibk.thy ===== *)
theory KLibk
  imports KPrelude
begin

text \<open>
  The interface of libk to the kernel (src/lib/libk/src/libk.c): the callbacks the kernel registers,
  as functions on the kernel's state \<open>'w\<close>, and the functions libk calls them by. A callback that is
  not registered is \<open>None\<close> (a NULL pointer).
\<close>

section \<open>Callbacks\<close>

record 'w callbacks =
  sbrk_callback :: "(u32 \<Rightarrow> 'w \<Rightarrow> (addr \<times> 'w) option) option"
  abort_callback :: "('w \<Rightarrow> 'w) option"
  putc_callback :: "(u8 \<Rightarrow> 'w \<Rightarrow> 'w) option"

definition no_callbacks :: "'w callbacks" where
  "no_callbacks = \<lparr>sbrk_callback = None, abort_callback = None, putc_callback = None\<rparr>"

definition libk_set_callback_sbrk :: "(u32 \<Rightarrow> 'w \<Rightarrow> (addr \<times> 'w) option) \<Rightarrow> 'w callbacks \<Rightarrow> 'w callbacks" where
  "libk_set_callback_sbrk callback cb = cb\<lparr>sbrk_callback := Some callback\<rparr>"

definition libk_set_callback_abort :: "('w \<Rightarrow> 'w) \<Rightarrow> 'w callbacks \<Rightarrow> 'w callbacks" where
  "libk_set_callback_abort callback cb = cb\<lparr>abort_callback := Some callback\<rparr>"

definition libk_set_callback_putc :: "(u8 \<Rightarrow> 'w \<Rightarrow> 'w) \<Rightarrow> 'w callbacks \<Rightarrow> 'w callbacks" where
  "libk_set_callback_putc callback cb = cb\<lparr>putc_callback := Some callback\<rparr>"

definition SBRK_CALLBACK :: "'w callbacks \<Rightarrow> u32 \<Rightarrow> 'w \<Rightarrow> (addr \<times> 'w) option" where
  "SBRK_CALLBACK cb increment w =
     (case sbrk_callback cb of Some f \<Rightarrow> f increment w | None \<Rightarrow> Some (-1, w))"

definition ABORT_CALLBACK :: "'w callbacks \<Rightarrow> 'w \<Rightarrow> 'w" where
  "ABORT_CALLBACK cb w = (case abort_callback cb of Some f \<Rightarrow> f w | None \<Rightarrow> w)"

definition PUTC_CALLBACK :: "'w callbacks \<Rightarrow> u8 \<Rightarrow> 'w \<Rightarrow> 'w" where
  "PUTC_CALLBACK cb c w = (case putc_callback cb of Some f \<Rightarrow> f c w | None \<Rightarrow> w)"

end
