(* ===== verification/KChunk.thy ===== *)
theory KChunk
  imports KLibk
begin

text \<open>
  The data of the allocator of libk: chunks, the allocator's state and the circular lists of chunks
  (kmalloc.h, kmalloc_util.h and kmalloc_dllist.c under src/lib/libk/src/kstdlib/malloc_free).

  A chunk is an address \<open>c\<close>; its fields are 32-bit words at fixed offsets in the heap's memory
  \<open>hmem\<close>. A head pointer passed by reference (\<open>kmchunk_ptr *head\<close>) is passed as its value, and the
  new value is returned with the state. Sizes are 32-bit words. The result \<open>None\<close> of an operation is a loop that
  does not end or a shift by a negative number or by 32 bits.
\<close>

section \<open>State and chunks\<close>

record kmstate =
  hmem :: mem
  heap_start :: addr
  heap_size :: u32
  initial_heap_size :: u32
  sbinmap :: u32
  tbinmap :: u32
  sbin :: "nat \<Rightarrow> addr"
  tbin :: "nat \<Rightarrow> addr"
  dVictim :: addr
  dVictimSize :: u32
  topChunk :: addr
  topChunkSize :: u32
  magic :: u32

definition rd :: "addr \<Rightarrow> 'a kmstate_scheme \<Rightarrow> u32" where
  "rd a s = ld32 (hmem s) a"

definition wr :: "addr \<Rightarrow> u32 \<Rightarrow> 'a kmstate_scheme \<Rightarrow> 'a kmstate_scheme" where
  "wr a v s = s\<lparr>hmem := st32 (hmem s) a v\<rparr>"

text \<open>The fields of \<open>struct kmalloc_chunk\<close> and \<open>struct kmalloc_tree_chunk\<close>: reading and writing.\<close>

abbreviation prev_foot :: "addr \<Rightarrow> 'a kmstate_scheme \<Rightarrow> u32" where "prev_foot c \<equiv> rd c"
abbreviation header :: "addr \<Rightarrow> 'a kmstate_scheme \<Rightarrow> u32" where "header c \<equiv> rd (c + 4)"
abbreviation next_chunk :: "addr \<Rightarrow> 'a kmstate_scheme \<Rightarrow> addr" where "next_chunk c \<equiv> rd (c + 8)"
abbreviation prev_chunk :: "addr \<Rightarrow> 'a kmstate_scheme \<Rightarrow> addr" where "prev_chunk c \<equiv> rd (c + 12)"
abbreviation left_chunk :: "addr \<Rightarrow> 'a kmstate_scheme \<Rightarrow> addr" where "left_chunk c \<equiv> rd (c + 16)"
abbreviation right_chunk :: "addr \<Rightarrow> 'a kmstate_scheme \<Rightarrow> addr" where "right_chunk c \<equiv> rd (c + 20)"
abbreviation parent_chunk :: "addr \<Rightarrow> 'a kmstate_scheme \<Rightarrow> addr" where "parent_chunk c \<equiv> rd (c + 24)"
abbreviation bin_index :: "addr \<Rightarrow> 'a kmstate_scheme \<Rightarrow> u32" where "bin_index c \<equiv> rd (c + 28)"

abbreviation set_prev_foot :: "addr \<Rightarrow> u32 \<Rightarrow> 'a kmstate_scheme \<Rightarrow> 'a kmstate_scheme" where "set_prev_foot c \<equiv> wr c"
abbreviation set_header :: "addr \<Rightarrow> u32 \<Rightarrow> 'a kmstate_scheme \<Rightarrow> 'a kmstate_scheme" where "set_header c \<equiv> wr (c + 4)"
abbreviation set_next :: "addr \<Rightarrow> addr \<Rightarrow> 'a kmstate_scheme \<Rightarrow> 'a kmstate_scheme" where "set_next c \<equiv> wr (c + 8)"
abbreviation set_prev :: "addr \<Rightarrow> addr \<Rightarrow> 'a kmstate_scheme \<Rightarrow> 'a kmstate_scheme" where "set_prev c \<equiv> wr (c + 12)"
abbreviation set_left :: "addr \<Rightarrow> addr \<Rightarrow> 'a kmstate_scheme \<Rightarrow> 'a kmstate_scheme" where "set_left c \<equiv> wr (c + 16)"
abbreviation set_right :: "addr \<Rightarrow> addr \<Rightarrow> 'a kmstate_scheme \<Rightarrow> 'a kmstate_scheme" where "set_right c \<equiv> wr (c + 20)"
abbreviation set_parent :: "addr \<Rightarrow> addr \<Rightarrow> 'a kmstate_scheme \<Rightarrow> 'a kmstate_scheme" where "set_parent c \<equiv> wr (c + 24)"
abbreviation set_bin_index :: "addr \<Rightarrow> u32 \<Rightarrow> 'a kmstate_scheme \<Rightarrow> 'a kmstate_scheme" where "set_bin_index c \<equiv> wr (c + 28)"

definition PINUSE :: u32 where "PINUSE = 1"
definition CINUSE :: u32 where "CINUSE = 2"
definition FLAGMASK :: u32 where "FLAGMASK = 7"
definition CHUNK_OVERHEAD :: u32 where "CHUNK_OVERHEAD = 4"
definition CHUNK_ALIGN_MASK :: u32 where "CHUNK_ALIGN_MASK = 7"
definition MINCHUNKSIZE :: u32 where "MINCHUNKSIZE = 16"
definition DUMMYSIZE :: u32 where "DUMMYSIZE = 8"
definition MAX_SIZE_T :: u32 where "MAX_SIZE_T = 0xFFFFFFFF"
definition HALF_MAX_SIZE_T :: u32 where "HALF_MAX_SIZE_T = 0x7FFFFFFF"
definition MIN_LARGE_SIZE :: u32 where "MIN_LARGE_SIZE = 256"
definition NSBINS :: nat where "NSBINS = 32"
definition NTBINS :: nat where "NTBINS = 32"
definition KMALLOC_STATE_MAGIC :: u32 where "KMALLOC_STATE_MAGIC = 0xC0FEFE"
definition HEAP_SHRINK_TRESHOLD :: u32 where "HEAP_SHRINK_TRESHOLD = 4096"
definition HEAP_SIZE_ALIGN :: u32 where "HEAP_SIZE_ALIGN = 4096"

definition IS_INUSE :: "addr \<Rightarrow> 'a kmstate_scheme \<Rightarrow> bool" where "IS_INUSE c s \<longleftrightarrow> header c s AND CINUSE \<noteq> 0"
definition PREV_INUSE :: "addr \<Rightarrow> 'a kmstate_scheme \<Rightarrow> u32" where "PREV_INUSE c s = header c s AND PINUSE"
definition GETCHUNKSIZE :: "addr \<Rightarrow> 'a kmstate_scheme \<Rightarrow> u32" where "GETCHUNKSIZE c s = header c s AND NOT FLAGMASK"
definition CHUNK_PAYLOAD :: "addr \<Rightarrow> addr" where "CHUNK_PAYLOAD c = c + 8"
definition CHUNK_PAYLOAD_SIZE :: "addr \<Rightarrow> 'a kmstate_scheme \<Rightarrow> u32" where "CHUNK_PAYLOAD_SIZE c s = GETCHUNKSIZE c s - CHUNK_OVERHEAD"
definition PAYLOAD_CHUNK :: "addr \<Rightarrow> addr" where "PAYLOAD_CHUNK p = p - 8"
definition CHUNKALIGN :: "addr \<Rightarrow> addr" where "CHUNKALIGN x = (x + CHUNK_ALIGN_MASK) AND NOT CHUNK_ALIGN_MASK"
definition CHUNKSIZEALIGN :: "u32 \<Rightarrow> u32" where "CHUNKSIZEALIGN x = (x + CHUNK_ALIGN_MASK) AND NOT CHUNK_ALIGN_MASK"
definition CHUNKFLOOR :: "u32 \<Rightarrow> u32" where "CHUNKFLOOR x = x AND NOT CHUNK_ALIGN_MASK"
definition REQUEST2SIZE :: "u32 \<Rightarrow> u32" where
  "REQUEST2SIZE req =
     (if req + CHUNK_OVERHEAD < MINCHUNKSIZE then MINCHUNKSIZE else CHUNKSIZEALIGN (req + CHUNK_OVERHEAD))"
definition REQUESTOVERFLOW :: "u32 \<Rightarrow> bool" where "REQUESTOVERFLOW req \<longleftrightarrow> REQUEST2SIZE req < req"
definition NEXTCHUNK :: "addr \<Rightarrow> 'a kmstate_scheme \<Rightarrow> addr" where "NEXTCHUNK c s = c + GETCHUNKSIZE c s"
definition PREVCHUNK :: "addr \<Rightarrow> 'a kmstate_scheme \<Rightarrow> addr" where "PREVCHUNK c s = c - prev_foot c s"
definition CHUNKOFFSET :: "addr \<Rightarrow> u32 \<Rightarrow> addr" where "CHUNKOFFSET c off = c + off"

definition small_index :: "u32 \<Rightarrow> u32" where "small_index sz = drop_bit 3 sz"
definition TBIN_DEPTH :: "u32 \<Rightarrow> int" where "TBIN_DEPTH index = sint (drop_bit 1 index + 8 - 1)"

definition KMALLOC_IS_INIT :: "'a kmstate_scheme \<Rightarrow> bool" where
  "KMALLOC_IS_INIT s \<longleftrightarrow> heap_start s \<noteq> NULL \<and> magic s = KMALLOC_STATE_MAGIC"
definition ADDRESS_OK :: "addr \<Rightarrow> 'a kmstate_scheme \<Rightarrow> bool" where
  "ADDRESS_OK a s \<longleftrightarrow> heap_start s \<le> a \<and> a < heap_start s + heap_size s"

text \<open>\<open>__builtin_ctz\<close> and \<open>__builtin_clz\<close> count the zeros below the lowest and above the highest set bit.\<close>

definition ctz :: "u32 \<Rightarrow> u32" where "ctz w = of_nat (length (takeWhile (\<lambda>i. \<not> bit w i) [0..<32]))"
definition clz :: "u32 \<Rightarrow> u32" where "clz w = of_nat (length (takeWhile (\<lambda>i. \<not> bit w i) (rev [0..<32])))"

definition calc_tbin :: "u32 \<Rightarrow> u32" where
  "calc_tbin sz =
     (if sz < push_bit 8 1 then 0
      else if sz > push_bit 8 0xFFFF then 31
      else let msb = 31 - clz sz
           in push_bit 1 (msb - 8) OR (drop_bit (unat (msb - 1)) sz AND 1))"

definition calc_leftbin :: "u32 \<Rightarrow> u32 \<Rightarrow> u32" where
  "calc_leftbin index bmap = (let mask = - push_bit (unat index) 1 in ctz (bmap AND mask))"

section \<open>Circular lists of chunks\<close>

definition kmalloc_dllist_add :: "addr \<Rightarrow> addr \<Rightarrow> 'a kmstate_scheme \<Rightarrow> addr \<times> 'a kmstate_scheme" where
  "kmalloc_dllist_add chunk head s =
     (if head \<noteq> NULL then
        let next = head;
            prev = prev_chunk next s;
            s = set_next chunk next s;
            s = set_prev chunk prev s;
            s = set_next prev chunk s;
            s = set_prev next chunk s
        in (chunk, s)
      else
        let s = set_next chunk chunk s;
            s = set_prev chunk chunk s
        in (chunk, s))"

definition kmalloc_dllist_add_end :: "addr \<Rightarrow> addr \<Rightarrow> 'a kmstate_scheme \<Rightarrow> 'a kmstate_scheme" where
  "kmalloc_dllist_add_end chunk head s =
     (if head = NULL then s
      else
        let prev = prev_chunk head s;
            s = set_prev chunk prev s;
            s = set_next chunk head s;
            s = set_next prev chunk s
        in set_prev head chunk s)"

text \<open>Both removals return the new head, the removed chunk and the state.\<close>

definition kmalloc_dllist_remove_intern :: "addr \<Rightarrow> addr \<Rightarrow> 'a kmstate_scheme \<Rightarrow> addr \<times> addr \<times> 'a kmstate_scheme" where
  "kmalloc_dllist_remove_intern chunk head s =
     (if chunk = NULL then (head, NULL, s)
      else
        let next = next_chunk chunk s;
            prev = prev_chunk chunk s
        in if next \<noteq> chunk then
             let s = set_next prev next s;
                 s = set_prev next prev s
             in (if head = chunk then next else head, chunk, s)
           else (NULL, chunk, s))"

definition kmalloc_dllist_remove :: "addr \<Rightarrow> 'a kmstate_scheme \<Rightarrow> addr \<times> addr \<times> 'a kmstate_scheme" where
  "kmalloc_dllist_remove head s =
     (let chunk = head in
      if chunk = NULL then (head, NULL, s)
      else
        let next = next_chunk chunk s;
            prev = prev_chunk chunk s
        in if next \<noteq> chunk then
             let s = set_next prev next s;
                 s = set_prev next prev s
             in (next, chunk, s)
           else (NULL, chunk, s))"

end
