(* ===== verification/KTree.thy ===== *)
theory KTree
  imports KChunk
begin

text \<open>
  The bitwise trees of large free chunks (src/lib/libk/src/kstdlib/malloc_free/kmalloc_tree.c). Each node
  heads the circular list of the free chunks of its size; the bits of the size, from the highest
  that differs within a bin, choose between the left and the right child.
\<close>

section \<open>Insertion\<close>

definition ktchunk_is_leave :: "addr \<Rightarrow> 'a kmstate_scheme \<Rightarrow> bool" where
  "ktchunk_is_leave c s \<longleftrightarrow> left_chunk c s = NULL \<and> right_chunk c s = NULL"

definition ktchunk_is_in_list :: "addr \<Rightarrow> 'a kmstate_scheme \<Rightarrow> bool" where
  "ktchunk_is_in_list c s \<longleftrightarrow> next_chunk c s \<noteq> c \<and> prev_chunk c s \<noteq> c"

definition ktchunk_is_in_tree :: "addr \<Rightarrow> 'a kmstate_scheme \<Rightarrow> bool" where
  "ktchunk_is_in_tree c s \<longleftrightarrow> left_chunk c s \<noteq> NULL \<or> right_chunk c s \<noteq> NULL \<or> parent_chunk c s \<noteq> NULL"

text \<open>
  The search loop of \<open>kmalloc_tree_insert\<close> from \<open>cur\<close>, which is not NULL: it stops at a node of the same
  size or at a free child position. With the depth used up the shift would be by a negative amount, which is undefined.
\<close>

datatype slot = Same addr | Child addr bool

primrec find_slot :: "nat \<Rightarrow> u32 \<Rightarrow> addr \<Rightarrow> 'a kmstate_scheme \<Rightarrow> slot option" where
  "find_slot 0 sz cur s = (if sz = GETCHUNKSIZE cur s then Some (Same cur) else None)"
| "find_slot (Suc depth) sz cur s =
     (if sz = GETCHUNKSIZE cur s then Some (Same cur)
      else
        let parent = cur;
            isright = sz AND push_bit depth 1 \<noteq> 0;
            cur = (if isright then right_chunk cur s else left_chunk cur s)
        in if cur = NULL then Some (Child parent isright) else find_slot depth sz cur s)"

definition kmalloc_tree_insert :: "addr \<Rightarrow> addr \<Rightarrow> int \<Rightarrow> 'a kmstate_scheme \<Rightarrow> (addr \<times> 'a kmstate_scheme) option" where
  "kmalloc_tree_insert chunk root depth s =
     (if depth \<le> 0 \<or> chunk = NULL then Some (root, s)
      else
        let s = set_prev chunk chunk s;
            s = set_next chunk chunk s;
            s = set_right chunk NULL s;
            s = set_left chunk NULL s;
            sz = GETCHUNKSIZE chunk s
        in if root = NULL then
             let s = set_right chunk NULL s;
                 s = set_left chunk NULL s;
                 s = set_parent chunk NULL s
             in Some (chunk, s)
           else map_option (\<lambda>slot.
             (case slot of
                Same cur \<Rightarrow>
                  let s = set_parent chunk NULL s
                  in (root, kmalloc_dllist_add_end chunk cur s)
              | Child parent isright \<Rightarrow>
                  let s = set_parent chunk parent s
                  in (root, if isright then set_right parent chunk s else set_left parent chunk s)))
             (find_slot (nat depth) sz root s))"

section \<open>Removal\<close>

definition ktchunk_replace_head :: "addr \<Rightarrow> addr \<Rightarrow> 'a kmstate_scheme \<Rightarrow> 'a kmstate_scheme" where
  "ktchunk_replace_head old new s =
     (let s = set_parent new (parent_chunk old s) s;
          s = set_left new (left_chunk old s) s;
          s = set_right new (right_chunk old s) s;
          s = set_prev new (prev_chunk old s) s;
          s = set_next (prev_chunk old s) new s;
          s = (if left_chunk new s \<noteq> NULL then set_parent (left_chunk new s) new s else s)
      in if right_chunk new s \<noteq> NULL then set_parent (right_chunk new s) new s else s)"

definition ktchunk_update_parent :: "addr \<Rightarrow> addr \<Rightarrow> 'a kmstate_scheme \<Rightarrow> 'a kmstate_scheme" where
  "ktchunk_update_parent chunk newchild s =
     (let p = parent_chunk chunk s
      in if left_chunk p s = chunk then set_left p newchild s else set_right p newchild s)"

partial_function (option) leftmost_leaf :: "addr \<Rightarrow> 'a kmstate_scheme \<Rightarrow> addr option" where
  "leftmost_leaf c s =
     (if ktchunk_is_leave c s then Some c
      else if left_chunk c s \<noteq> NULL then leftmost_leaf (left_chunk c s) s
      else leftmost_leaf (right_chunk c s) s)"

definition remove_from_list :: "addr \<Rightarrow> addr \<Rightarrow> 'a kmstate_scheme \<Rightarrow> addr \<times> 'a kmstate_scheme" where
  "remove_from_list chunk root s =
     (if chunk = root then
        let replacement = next_chunk chunk s
        in (replacement, ktchunk_replace_head chunk replacement s)
      else if ktchunk_is_in_tree chunk s then
        let replacement = next_chunk chunk s;
            s = ktchunk_replace_head chunk replacement s
        in (root, ktchunk_update_parent chunk replacement s)
      else
        let s = set_next (prev_chunk chunk s) (next_chunk chunk s) s
        in (root, set_prev (next_chunk chunk s) (prev_chunk chunk s) s))"

definition replace_by_leaf :: "addr \<Rightarrow> addr \<Rightarrow> addr \<Rightarrow> 'a kmstate_scheme \<Rightarrow> addr \<times> 'a kmstate_scheme" where
  "replace_by_leaf chunk replacement root s =
     (let s = ktchunk_update_parent replacement NULL s;
          s = set_left replacement (left_chunk chunk s) s;
          s = (if left_chunk replacement s \<noteq> NULL then set_parent (left_chunk replacement s) replacement s else s);
          s = set_right replacement (right_chunk chunk s) s;
          s = (if right_chunk replacement s \<noteq> NULL then set_parent (right_chunk replacement s) replacement s else s);
          s = set_parent replacement (parent_chunk chunk s) s
      in if parent_chunk replacement s \<noteq> NULL then (root, ktchunk_update_parent chunk replacement s)
         else (replacement, s))"

definition kmalloc_tree_remove :: "addr \<Rightarrow> addr \<Rightarrow> 'a kmstate_scheme \<Rightarrow> (addr \<times> 'a kmstate_scheme) option" where
  "kmalloc_tree_remove chunk root s =
     (if chunk = NULL then Some (root, s)
      else if ktchunk_is_in_list chunk s then Some (remove_from_list chunk root s)
      else if ktchunk_is_leave chunk s then
        Some (if parent_chunk chunk s \<noteq> NULL then (root, ktchunk_update_parent chunk NULL s) else (NULL, s))
      else map_option (\<lambda>replacement. replace_by_leaf chunk replacement root s) (leftmost_leaf chunk s))"

section \<open>Search\<close>

text \<open>
  \<open>smallest_loop\<close> is the loop of \<open>kmalloc_tree_get_smallest\<close>. \<open>fit_down\<close> is the first loop of
  \<open>kmalloc_tree_get_best_fit\<close>, which ends at a node of the wanted size (\<open>Exact\<close>) or below the tree
  (\<open>Below cur parent smallest_chunk\<close>); \<open>fit_up\<close> is the second loop.
\<close>

partial_function (option) smallest_loop :: "addr \<Rightarrow> addr \<Rightarrow> u32 \<Rightarrow> 'a kmstate_scheme \<Rightarrow> addr option" where
  "smallest_loop cur smallest_chunk smallest_size s =
     (if ktchunk_is_leave cur s then Some smallest_chunk
      else
        let cur = (if left_chunk cur s \<noteq> NULL then left_chunk cur s else right_chunk cur s)
        in if GETCHUNKSIZE cur s < smallest_size then smallest_loop cur cur (GETCHUNKSIZE cur s) s
           else smallest_loop cur smallest_chunk smallest_size s)"

definition kmalloc_tree_get_smallest :: "addr \<Rightarrow> 'a kmstate_scheme \<Rightarrow> addr option" where
  "kmalloc_tree_get_smallest chunk s =
     (if chunk = NULL then Some NULL else smallest_loop chunk chunk (GETCHUNKSIZE chunk s) s)"

datatype descent = Exact addr | Below addr addr addr

primrec fit_down :: "nat \<Rightarrow> u32 \<Rightarrow> addr \<Rightarrow> addr \<Rightarrow> u32 \<Rightarrow> 'a kmstate_scheme \<Rightarrow> descent option" where
  "fit_down 0 sz cur smallest_chunk smallest_size s =
     (if sz = GETCHUNKSIZE cur s then Some (Exact cur) else None)"
| "fit_down (Suc depth) sz cur smallest_chunk smallest_size s =
     (let csize = GETCHUNKSIZE cur s in
      if sz = csize then Some (Exact cur)
      else
        let better = csize > sz \<and> (smallest_chunk = NULL \<or> csize < smallest_size);
            smallest_chunk = (if better then cur else smallest_chunk);
            smallest_size = (if better then csize else smallest_size);
            parent = cur;
            cur = (if sz AND push_bit depth 1 \<noteq> 0 then right_chunk cur s else left_chunk cur s)
        in if cur = NULL then Some (Below cur parent smallest_chunk)
           else fit_down depth sz cur smallest_chunk smallest_size s)"

partial_function (option) fit_up :: "addr \<Rightarrow> addr \<Rightarrow> addr \<Rightarrow> 'a kmstate_scheme \<Rightarrow> addr option" where
  "fit_up cur parent smallest_chunk s =
     (if right_chunk parent s = NULL \<or> right_chunk parent s = cur then
        if parent = smallest_chunk then Some parent
        else if parent_chunk parent s = NULL then Some NULL
        else fit_up parent (parent_chunk parent s) smallest_chunk s
      else kmalloc_tree_get_smallest (right_chunk parent s) s)"

definition kmalloc_tree_get_best_fit :: "u32 \<Rightarrow> addr \<Rightarrow> int \<Rightarrow> 'a kmstate_scheme \<Rightarrow> addr option" where
  "kmalloc_tree_get_best_fit sz root depth s =
     (if depth \<le> 0 \<or> root = NULL then Some NULL
      else
        Option.bind (fit_down (nat depth) sz root NULL MAX_SIZE_T s)
          (\<lambda>d. case d of
                 Exact c \<Rightarrow> Some c
               | Below cur parent smallest_chunk \<Rightarrow> fit_up cur parent smallest_chunk s))"

end
