(* ===== verification/KHeapWords.thy ===== *)
theory KHeapWords
  imports KChunk
begin

text \<open>
  The heap's memory as a map from addresses to 32-bit words, and the circular lists of chunks in it.

  \<open>wd s a\<close> is the word at the aligned address \<open>a\<close>, a natural number; writing a field of a chunk is an
  update of that function at one place, so the proofs on chunks are proofs on function updates.
  \<open>circ w xs\<close> says that the link fields of the chunks \<open>xs\<close> form a circle in this order; the
  operations of \<open>kmalloc_dllist.c\<close> are specified on it.
\<close>

section \<open>Words of the heap\<close>

definition okaddr :: "nat \<Rightarrow> bool" where
  "okaddr b \<longleftrightarrow> b mod 8 = 0 \<and> 0 < b \<and> b + 32 \<le> 4294967296"

definition wd :: "'a kmstate_scheme \<Rightarrow> nat \<Rightarrow> u32" where
  "wd s a = (if a mod 4 = 0 \<and> a < 4294967296 then rd (of_nat a) s else 0)"

lemma rd_wr_aligned:
  assumes "a mod 4 = 0" "b mod 4 = 0" "a < 4294967296" "b < 4294967296"
  shows "rd (of_nat a) (wr (of_nat b) v s) = (if a = b then v else rd (of_nat a) s)"
proof (cases "a = b")
  case True
  then show ?thesis by (simp add: rd_def wr_def)
next
  case False
  have u: "unat (of_nat a :: addr) = a" "unat (of_nat b :: addr) = b" using assms by (simp_all add: unat_of_nat)
  have d: "a + 4 \<le> b \<or> b + 4 \<le> a" using assms(1,2) False by presburger
  have m: "a \<le> 4294967292" "b \<le> 4294967292"
    using assms by (auto simp: mod_eq_0_iff_dvd elim!: dvdE)
  have "4 \<le> (of_nat a :: addr) - of_nat b" "4 \<le> (of_nat b :: addr) - of_nat a"
    using d m unat_sub_if_size [of "of_nat a :: addr" "of_nat b"] unat_sub_if_size [of "of_nat b :: addr" "of_nat a"]
    by (auto simp: word_le_nat_alt u word_size)
  then have "ld32 (st32 (hmem s) (of_nat b) v) (of_nat a) = ld32 (hmem s) (of_nat a)" by (rule ld32_st32_apart)
  with False show ?thesis by (simp add: rd_def wr_def)
qed

lemma wd_wr: "\<lbrakk>b mod 4 = 0; b < 4294967296\<rbrakk> \<Longrightarrow> wd (wr (of_nat b) v s) = (wd s)(b := v)"
  by (auto simp: wd_def fun_eq_iff rd_wr_aligned)

lemma rd_wd: "\<lbrakk>b mod 4 = 0; b < 4294967296\<rbrakk> \<Longrightarrow> rd (of_nat b) s = wd s b"
  by (simp add: wd_def)

text \<open>The fields of a chunk.\<close>

lemma okaddr_field:
  assumes "okaddr b" "k \<in> {0, 4, 8, 12, 16, 20, 24, 28}"
  shows "(b + k) mod 4 = 0" "b + k < 4294967296"
proof -
  have "b mod 8 = 0" "b + 32 \<le> 4294967296" using assms(1) by (auto simp: okaddr_def)
  then have "b mod 4 = 0" using mod_mod_cancel [of 4 8 b] by simp
  then show "(b + k) mod 4 = 0" using assms(2) by (auto simp: mod_add_eq [symmetric])
  show "b + k < 4294967296" using assms(2) \<open>b + 32 \<le> 4294967296\<close> by auto
qed

lemma wd_wr_off:
  assumes "okaddr b" "k \<in> {0, 4, 8, 12, 16, 20, 24, 28}"
  shows "wd (wr (of_nat (b + k)) v s) = (wd s)(b + k := v)" "rd (of_nat (b + k)) s = wd s (b + k)"
  using okaddr_field [OF assms] by (rule wd_wr, rule rd_wd)

lemma wd_field [simp]:
  assumes "okaddr b"
  shows "wd (wr (of_nat b) v s) = (wd s)(b := v)" "wd (wr (of_nat b + 4) v s) = (wd s)(b + 4 := v)"
    "wd (wr (of_nat b + 8) v s) = (wd s)(b + 8 := v)" "wd (wr (of_nat b + 12) v s) = (wd s)(b + 12 := v)"
    "wd (wr (of_nat b + 16) v s) = (wd s)(b + 16 := v)" "wd (wr (of_nat b + 20) v s) = (wd s)(b + 20 := v)"
    "wd (wr (of_nat b + 24) v s) = (wd s)(b + 24 := v)" "wd (wr (of_nat b + 28) v s) = (wd s)(b + 28 := v)"
  using wd_wr_off(1) [OF assms, of 0] wd_wr_off(1) [OF assms, of 4] wd_wr_off(1) [OF assms, of 8]
    wd_wr_off(1) [OF assms, of 12] wd_wr_off(1) [OF assms, of 16] wd_wr_off(1) [OF assms, of 20]
    wd_wr_off(1) [OF assms, of 24] wd_wr_off(1) [OF assms, of 28] by simp_all

lemma rd_field [simp]:
  assumes "okaddr b"
  shows "rd (of_nat b) s = wd s b" "rd (of_nat b + 4) s = wd s (b + 4)"
    "rd (of_nat b + 8) s = wd s (b + 8)" "rd (of_nat b + 12) s = wd s (b + 12)"
    "rd (of_nat b + 16) s = wd s (b + 16)" "rd (of_nat b + 20) s = wd s (b + 20)"
    "rd (of_nat b + 24) s = wd s (b + 24)" "rd (of_nat b + 28) s = wd s (b + 28)"
  using wd_wr_off(2) [OF assms, of 0] wd_wr_off(2) [OF assms, of 4] wd_wr_off(2) [OF assms, of 8]
    wd_wr_off(2) [OF assms, of 12] wd_wr_off(2) [OF assms, of 16] wd_wr_off(2) [OF assms, of 20]
    wd_wr_off(2) [OF assms, of 24] wd_wr_off(2) [OF assms, of 28] by simp_all

lemma okaddr_nonzero [simp]: "okaddr b \<Longrightarrow> (of_nat b :: addr) \<noteq> 0"
proof -
  assume "okaddr b"
  then have "unat (of_nat b :: addr) = b" "0 < b" by (auto simp: okaddr_def unat_of_nat)
  then show ?thesis by auto
qed

lemma okaddr_inj [simp]: "okaddr a \<Longrightarrow> okaddr b \<Longrightarrow> (of_nat a :: addr) = of_nat b \<longleftrightarrow> a = b"
proof -
  assume "okaddr a" "okaddr b"
  then have "unat (of_nat a :: addr) = a" "unat (of_nat b :: addr) = b" by (auto simp: okaddr_def unat_of_nat)
  then show ?thesis by metis
qed

text \<open>Writing a field changes nothing but the memory.\<close>

definition only_mem :: "'a kmstate_scheme \<Rightarrow> 'a kmstate_scheme \<Rightarrow> bool" where
  "only_mem s s' \<longleftrightarrow> s' = s\<lparr>hmem := hmem s'\<rparr>"

lemma only_mem_refl [simp]: "only_mem s s"
  by (simp add: only_mem_def)

lemma only_mem_wr [simp]: "only_mem s (wr a v s') = only_mem s s'"
  by (cases s; cases s') (simp add: only_mem_def wr_def)

lemma only_mem_trans: "only_mem s s' \<Longrightarrow> only_mem s' s'' \<Longrightarrow> only_mem s s''"
  by (cases s; cases s'; cases s'') (simp add: only_mem_def)

section \<open>Circular lists\<close>

fun dll :: "(nat \<Rightarrow> u32) \<Rightarrow> nat list \<Rightarrow> bool" where
  "dll w (a # b # xs) \<longleftrightarrow> w (a + 8) = of_nat b \<and> w (b + 12) = of_nat a \<and> dll w (b # xs)"
| "dll w _ \<longleftrightarrow> True"

definition circ :: "(nat \<Rightarrow> u32) \<Rightarrow> nat list \<Rightarrow> bool" where
  "circ w xs \<longleftrightarrow> xs = [] \<or> dll w (xs @ [hd xs])"

definition hptr :: "nat list \<Rightarrow> addr" where
  "hptr xs = (case xs of [] \<Rightarrow> NULL | x # _ \<Rightarrow> of_nat x)"

definition links :: "nat set \<Rightarrow> nat set" where
  "links X = (\<lambda>x. x + 8) ` X \<union> (\<lambda>x. x + 12) ` X"

lemma hptr_simps [simp]: "hptr [] = NULL" "hptr (x # xs) = of_nat x"
  by (simp_all add: hptr_def)

lemma dll_append: "dll w (xs @ a # ys) \<longleftrightarrow> dll w (xs @ [a]) \<and> dll w (a # ys)"
proof (induction xs)
  case (Cons x xs)
  then show ?case by (cases xs) auto
qed simp

lemma dll_cong:
  "\<lbrakk>\<And>a. a \<in> set (butlast xs) \<Longrightarrow> w (a + 8) = w' (a + 8); \<And>b. b \<in> set (tl xs) \<Longrightarrow> w (b + 12) = w' (b + 12)\<rbrakk>
   \<Longrightarrow> dll w xs = dll w' xs"
proof (induction w xs rule: dll.induct)
  case (1 w a b xs)
  have "dll w (b # xs) = dll w' (b # xs)"
    using 1(2,3) by (intro 1(1)) (auto dest: in_set_butlastD)
  then show ?case using 1(2) [of a] 1(3) [of b] by simp
qed simp_all

lemma circ_cong:
  "(\<And>x. x \<in> set xs \<Longrightarrow> w (x + 8) = w' (x + 8) \<and> w (x + 12) = w' (x + 12)) \<Longrightarrow> circ w xs = circ w' xs"
  unfolding circ_def using dll_cong [of "xs @ [hd xs]" w w']
  by (cases xs) auto

lemma circ_frame: "(\<And>a. a \<in> links (set xs) \<Longrightarrow> w a = w' a) \<Longrightarrow> circ w xs = circ w' xs"
  by (rule circ_cong) (auto simp: links_def)

lemma circ_rotate: "circ w (us @ vs) \<Longrightarrow> circ w (vs @ us)"
proof (cases "us = [] \<or> vs = []")
  case False
  then obtain u us' v vs' where eq: "us = u # us'" "vs = v # vs'" by (cases us; cases vs) auto
  assume "circ w (us @ vs)"
  then have "dll w (us @ v # vs' @ [u])" by (simp add: circ_def eq)
  then have "dll w (us @ [v])" "dll w (vs @ [u])"
    using dll_append [of w us v "vs' @ [u]"] by (simp_all add: eq)
  then have "dll w (vs @ u # us' @ [v])" using dll_append [of w vs u "us' @ [v]"] by (simp add: eq)
  then show ?thesis by (simp add: circ_def eq)
qed auto

lemma circ_ends:
  assumes "circ w (x # xs)"
  shows "w (x + 12) = of_nat (last (x # xs))" "w (x + 8) = of_nat (hd (xs @ [x]))"
proof -
  have d: "dll w (x # xs @ [x])" using assms by (simp add: circ_def)
  then show "w (x + 8) = of_nat (hd (xs @ [x]))" by (cases xs) auto
  have "x # xs @ [x] = butlast (x # xs) @ last (x # xs) # [x]"
    by (metis append_Cons append.assoc append_butlast_last_id append_Nil list.distinct(1))
  then have "dll w (butlast (x # xs) @ last (x # xs) # [x])" using d by metis
  then have "dll w (last (x # xs) # [x])" by (rule dll_append [THEN iffD1, THEN conjunct2])
  then show "w (x + 12) = of_nat (last (x # xs))" by simp
qed

definition chunks_ok :: "nat list \<Rightarrow> bool" where
  "chunks_ok xs \<longleftrightarrow> distinct xs \<and> (\<forall>x \<in> set xs. okaddr x)"

lemma okaddr_links: "\<lbrakk>okaddr a; okaddr b\<rbrakk> \<Longrightarrow> a + 8 \<noteq> b + 12"
  unfolding okaddr_def by presburger

lemma circ_add:
  assumes c: "circ w (h # xs)" and ok: "chunks_ok (x # h # xs)"
  shows "circ (w(x + 8 := of_nat h, x + 12 := of_nat (last (h # xs)), last (h # xs) + 8 := of_nat x, h + 12 := of_nat x)) (x # h # xs)"
    (is "circ ?w _")
proof -
  let ?l = "last (h # xs)"
  have l: "?l \<in> set (h # xs)" by (rule last_in_set) simp
  have okx: "okaddr x" "okaddr h" "okaddr ?l" "x \<noteq> h" "x \<noteq> ?l" "x \<notin> set (h # xs)" "distinct (h # xs)"
    using ok l by (auto simp: chunks_ok_def)
  have e: "h # xs = butlast (h # xs) @ [?l]" by simp
  have nl: "?l \<notin> set (butlast (h # xs))"
    using okx(7) e by (metis distinct_append disjoint_insert(1) list.set(2))
  have "dll w (h # xs @ [h])" using c by (simp add: circ_def)
  then have "dll w (butlast (h # xs) @ ?l # [h])" using e by (metis append.assoc append_Cons append_Nil)
  then have "dll w (h # xs)" using e dll_append by metis
  moreover have "dll ?w (h # xs) = dll w (h # xs)"
  proof (rule dll_cong)
    fix a assume a: "a \<in> set (butlast (h # xs))"
    then have "a \<in> set (h # xs)" by (rule in_set_butlastD)
    then have "okaddr a" "a \<noteq> x" "a \<noteq> ?l" using ok okx(6) a nl by (auto simp: chunks_ok_def)
    then show "?w (a + 8) = w (a + 8)" using okaddr_links [of a] okx by auto
  next
    fix b assume b: "b \<in> set (tl (h # xs))"
    then have "okaddr b" "b \<noteq> x" "b \<noteq> h" using ok by (auto simp: chunks_ok_def)
    then show "?w (b + 12) = w (b + 12)" using okaddr_links [of _ b] okx by fastforce
  qed
  ultimately have "dll ?w (butlast (h # xs) @ [?l])" using e by simp
  moreover have "dll ?w (?l # [x])" using okx okaddr_links [of ?l h] okaddr_links [of ?l x] okaddr_links [of x h] by auto
  ultimately have "dll ?w (butlast (h # xs) @ ?l # [x])" using dll_append [THEN iffD2] by blast
  then have "dll ?w (h # xs @ [x])" using e by (metis append.assoc append_Cons append_Nil)
  moreover have "?w (x + 8) = of_nat h" "?w (h + 12) = of_nat x"
    using okx okaddr_links [of x h] okaddr_links [of x x] by auto
  ultimately show ?thesis by (simp add: circ_def)
qed

lemma circ_remove:
  assumes c: "circ w (x # h # xs)" and ok: "chunks_ok (x # h # xs)"
  shows "circ (w(last (h # xs) + 8 := of_nat h, h + 12 := of_nat (last (h # xs)))) (h # xs)" (is "circ ?w _")
proof -
  let ?l = "last (h # xs)"
  have e: "h # xs = butlast (h # xs) @ [?l]" by simp
  have ok': "okaddr h" "okaddr ?l" "distinct (h # xs)" using ok last_in_set [of "h # xs"] by (auto simp: chunks_ok_def)
  have nl: "?l \<notin> set (butlast (h # xs))"
    using ok'(3) e by (metis distinct_append disjoint_insert(1) list.set(2))
  have "dll w (x # (h # xs) @ [x])" using c by (simp add: circ_def)
  then have "dll w ((h # xs) @ [x])" by simp
  then have "dll w (butlast (h # xs) @ ?l # [x])" using e by (metis append.assoc append_Cons append_Nil)
  then have "dll w (h # xs)" using e dll_append by metis
  moreover have "dll ?w (h # xs) = dll w (h # xs)"
  proof (rule dll_cong)
    fix a assume a: "a \<in> set (butlast (h # xs))"
    then have "a \<in> set (h # xs)" by (rule in_set_butlastD)
    then have "okaddr a" "a \<noteq> ?l" using ok a nl by (auto simp: chunks_ok_def)
    then show "?w (a + 8) = w (a + 8)" using okaddr_links [of a] ok' by auto
  next
    fix b assume b: "b \<in> set (tl (h # xs))"
    then have "okaddr b" "b \<noteq> h" using ok by (auto simp: chunks_ok_def)
    then show "?w (b + 12) = w (b + 12)" using okaddr_links [of _ b] ok' by fastforce
  qed
  ultimately have "dll ?w (butlast (h # xs) @ [?l])" using e by simp
  moreover have "dll ?w (?l # [h])" using ok' okaddr_links [of ?l h] by auto
  ultimately have "dll ?w (butlast (h # xs) @ ?l # [h])" using dll_append [THEN iffD2] by blast
  then have "dll ?w ((h # xs) @ [h])" using e by (metis append.assoc append_Cons append_Nil)
  then show ?thesis by (simp add: circ_def)
qed

section \<open>The operations on circular lists\<close>

text \<open>\<open>s'\<close> differs from \<open>s\<close> only in the words at \<open>K\<close>.\<close>

definition writes :: "nat set \<Rightarrow> 'a kmstate_scheme \<Rightarrow> 'a kmstate_scheme \<Rightarrow> bool" where
  "writes K s s' \<longleftrightarrow> only_mem s s' \<and> (\<forall>a. a \<notin> K \<longrightarrow> wd s' a = wd s a)"

lemma writes_refl [simp]: "writes K s s"
  by (simp add: writes_def)

lemma writes_trans: "\<lbrakk>writes K s s'; writes K' s' s''\<rbrakk> \<Longrightarrow> writes (K \<union> K') s s''"
  using only_mem_trans by (auto simp: writes_def)

lemma writes_mono: "\<lbrakk>writes K s s'; K \<subseteq> K'\<rbrakk> \<Longrightarrow> writes K' s s'"
  by (auto simp: writes_def)

lemma dllist_add:
  assumes c: "circ (wd s) xs" and ok: "chunks_ok (x # xs)"
    and s': "(hd', s') = kmalloc_dllist_add (of_nat x) (hptr xs) s"
  shows "hd' = of_nat x" and "circ (wd s') (x # xs)" and "writes (links (set (x # xs))) s s'"
proof -
  have "hd' = of_nat x \<and> circ (wd s') (x # xs) \<and> writes (links (set (x # xs))) s s'"
  proof (cases xs)
    case Nil
    with ok s' have x: "okaddr x" and s1: "hd' = of_nat x" "s' = wr (of_nat x + 12) (of_nat x) (wr (of_nat x + 8) (of_nat x) s)"
      by (auto simp: chunks_ok_def kmalloc_dllist_add_def Let_def)
    have w: "wd s' = (wd s)(x + 8 := of_nat x, x + 12 := of_nat x)" using x by (simp add: s1)
    then have "circ (wd s') [x]" by (simp add: circ_def)
    moreover have "writes (links {x}) s s'" using w by (auto simp: writes_def links_def s1)
    ultimately show ?thesis using s1(1) Nil by simp
  next
    case (Cons h ys)
    let ?l = "last (h # ys)"
    have x: "okaddr x" "okaddr h" "okaddr ?l" "x \<noteq> h" "?l \<in> set xs"
      using ok last_in_set [of "h # ys"] by (auto simp: chunks_ok_def Cons)
    have p: "wd s (h + 12) = of_nat ?l" using circ_ends(1) c Cons by simp
    have s1: "hd' = of_nat x" "s' = wr (of_nat h + 12) (of_nat x) (wr (of_nat ?l + 8) (of_nat x)
        (wr (of_nat x + 12) (of_nat ?l) (wr (of_nat x + 8) (of_nat h) s)))"
      using s' x p by (simp_all add: kmalloc_dllist_add_def Cons Let_def)
    have w: "wd s' = (wd s)(x + 8 := of_nat h, x + 12 := of_nat ?l, ?l + 8 := of_nat x, h + 12 := of_nat x)"
      using x by (simp add: s1)
    have "circ (wd s') (x # h # ys)" unfolding w using circ_add c ok Cons by blast
    moreover have "writes (links (set (x # xs))) s s'"
      using w x(5) by (auto simp: writes_def links_def s1 Cons)
    ultimately show ?thesis using s1(1) Cons by simp
  qed
  then show "hd' = of_nat x" "circ (wd s') (x # xs)" "writes (links (set (x # xs))) s s'" by blast+
qed

text \<open>Adding at the end of a circle is adding in front without moving the head.\<close>

lemma dllist_add_end:
  assumes c: "circ (wd s) (h # xs)" and ok: "chunks_ok (x # h # xs)"
    and s': "s' = kmalloc_dllist_add_end (of_nat x) (of_nat h) s"
  shows "circ (wd s') (h # xs @ [x])" and "writes (links (set (x # h # xs))) s s'"
proof -
  let ?l = "last (h # xs)"
  have x: "okaddr x" "okaddr h" "okaddr ?l" "x \<noteq> h" "?l \<in> set (h # xs)"
    using ok last_in_set [of "h # xs"] by (auto simp: chunks_ok_def)
  have p: "wd s (h + 12) = of_nat ?l" using circ_ends(1) c by simp
  have s1: "s' = wr (of_nat h + 12) (of_nat x) (wr (of_nat ?l + 8) (of_nat x)
      (wr (of_nat x + 8) (of_nat h) (wr (of_nat x + 12) (of_nat ?l) s)))"
    using s' x p by (simp add: kmalloc_dllist_add_end_def Let_def)
  have "wd s' = (wd s)(x + 8 := of_nat h, x + 12 := of_nat ?l, ?l + 8 := of_nat x, h + 12 := of_nat x)"
    using x okaddr_links [of x x] by (simp add: s1 fun_upd_twist [of "x + 8" "x + 12"])
  note w = this
  have "circ (wd s') ([x] @ h # xs)" unfolding w using circ_add [OF c ok] by simp
  then show "circ (wd s') (h # xs @ [x])" using circ_rotate [of "wd s'" "[x]" "h # xs"] by simp
  show "writes (links (set (x # h # xs))) s s'" using w x(5) by (auto simp: writes_def links_def s1)
qed

text \<open>Removing a chunk from the circle it is in.\<close>

lemma unlink_words:
  assumes c: "circ (wd s) (x # xs)" and ok: "chunks_ok (x # xs)"
    and s': "s' = (if wd s (x + 8) \<noteq> of_nat x
      then wr (wd s (x + 8) + 12) (wd s (x + 12)) (wr (wd s (x + 12) + 8) (wd s (x + 8)) s) else s)"
  shows "circ (wd s') xs" and "writes (links (set xs)) s s'" and "wd s (x + 8) = (if xs = [] then of_nat x else hptr xs)"
    and "wd s (x + 8) = of_nat x \<longleftrightarrow> xs = []"
proof -
  have n: "wd s (x + 8) = of_nat (hd (xs @ [x]))" "wd s (x + 12) = of_nat (last (x # xs))"
    using circ_ends [OF c] by simp_all
  then show nx: "wd s (x + 8) = (if xs = [] then of_nat x else hptr xs)" by (cases xs) auto
  show e: "wd s (x + 8) = of_nat x \<longleftrightarrow> xs = []"
    using ok n by (cases xs) (auto simp: chunks_ok_def)
  have "circ (wd s') xs \<and> writes (links (set xs)) s s'"
  proof (cases xs)
    case Nil
    then show ?thesis using s' e by (simp add: circ_def)
  next
    case (Cons h ys)
    let ?l = "last (h # ys)"
    have x: "okaddr h" "okaddr ?l" "?l \<in> set xs"
      using ok last_in_set [of "h # ys"] by (auto simp: chunks_ok_def Cons)
    have s1: "s' = wr (of_nat h + 12) (of_nat ?l) (wr (of_nat ?l + 8) (of_nat h) s)"
      using s' e n Cons by simp
    have w: "wd s' = (wd s)(?l + 8 := of_nat h, h + 12 := of_nat ?l)" using x by (simp add: s1)
    have "circ (wd s') (h # ys)" unfolding w using circ_remove c ok Cons by blast
    moreover have "writes (links (set xs)) s s'" using w x(3) by (auto simp: writes_def links_def s1 Cons)
    ultimately show ?thesis using Cons by simp
  qed
  then show "circ (wd s') xs" "writes (links (set xs)) s s'" by blast+
qed

lemma dllist_remove:
  assumes c: "circ (wd s) xs" and ok: "chunks_ok xs"
    and s': "(hd', x, s') = kmalloc_dllist_remove (hptr xs) s"
  shows "hd' = hptr (tl xs)" "x = hptr xs" "circ (wd s') (tl xs)" "writes (links (set (tl xs))) s s'"
proof -
  have "hd' = hptr (tl xs) \<and> x = hptr xs \<and> circ (wd s') (tl xs) \<and> writes (links (set (tl xs))) s s'"
  proof (cases xs)
    case Nil
    then show ?thesis using s' by (simp add: kmalloc_dllist_remove_def circ_def)
  next
    case (Cons y ys)
    have y: "okaddr y" using ok by (simp add: Cons chunks_ok_def)
    define s1 where "s1 = (if wd s (y + 8) \<noteq> of_nat y
      then wr (wd s (y + 8) + 12) (wd s (y + 12)) (wr (wd s (y + 12) + 8) (wd s (y + 8)) s) else s)"
    note u = unlink_words [OF c [unfolded Cons] ok [unfolded Cons] s1_def]
    have "(hd', x, s') = (if wd s (y + 8) \<noteq> of_nat y then wd s (y + 8) else NULL, of_nat y, s1)"
      unfolding s' using y by (simp add: kmalloc_dllist_remove_def Cons Let_def s1_def)
    then have "hd' = hptr ys" "x = of_nat y" "s' = s1" using u(3,4) by auto
    then show ?thesis using u(1,2) Cons by simp
  qed
  then show "hd' = hptr (tl xs)" "x = hptr xs" "circ (wd s') (tl xs)" "writes (links (set (tl xs))) s s'" by blast+
qed

lemma dllist_remove_intern:
  assumes c: "circ (wd s) (us @ x # vs)" and ok: "chunks_ok (us @ x # vs)"
    and s': "(hd', y, s') = kmalloc_dllist_remove_intern (of_nat x) (hptr (us @ x # vs)) s"
  shows "hd' = hptr (us @ vs)" "y = of_nat x" "circ (wd s') (us @ vs)" "writes (links (set (us @ vs))) s s'"
proof -
  have x: "okaddr x" using ok by (simp add: chunks_ok_def)
  have c': "circ (wd s) (x # vs @ us)" using circ_rotate [OF c] by simp
  have ok': "chunks_ok (x # vs @ us)" using ok by (auto simp: chunks_ok_def)
  define s1 where "s1 = (if wd s (x + 8) \<noteq> of_nat x
      then wr (wd s (x + 8) + 12) (wd s (x + 12)) (wr (wd s (x + 12) + 8) (wd s (x + 8)) s) else s)"
  note u = unlink_words [OF c' ok' s1_def]
  have eq: "(hd', y, s') = (if wd s (x + 8) \<noteq> of_nat x
      then (if hptr (us @ x # vs) = of_nat x then wd s (x + 8) else hptr (us @ x # vs)) else NULL, of_nat x, s1)"
    unfolding s' using x by (simp add: kmalloc_dllist_remove_intern_def Let_def s1_def)
  have h: "hptr (us @ x # vs) = of_nat x \<longleftrightarrow> us = []"
    using ok by (cases us) (auto simp: chunks_ok_def)
  have "hd' = hptr (us @ vs)"
  proof (cases "us = []")
    case True
    then show ?thesis using eq u(3,4) by auto
  next
    case False
    then obtain a as where "us = a # as" by (cases us) auto
    then show ?thesis using eq h u(4) by auto
  qed
  moreover have "s' = s1" "y = of_nat x" using eq by auto
  moreover have "circ (wd s1) (us @ vs)" using circ_rotate [OF u(1)] by simp
  moreover have "writes (links (set (us @ vs))) s s1" using u(2) by (simp add: Un_commute)
  ultimately show "hd' = hptr (us @ vs)" "y = of_nat x" "circ (wd s') (us @ vs)" "writes (links (set (us @ vs))) s s'"
    by blast+
qed

end
