(* ===== verification/KTreeRep.thy ===== *)
theory KTreeRep
  imports KTree KHeapWords "HOL-Library.Multiset"
begin

text \<open>
  The trees of large chunks as a datatype: \<open>Nd c n xs l r\<close> is the node of the chunk \<open>c\<close> of size \<open>n\<close>, with
  the other free chunks \<open>xs\<close> of that size in its circle. \<open>tree_at w p t\<close> says that the words \<open>w\<close> hold the
  tree \<open>t\<close> below the parent \<open>p\<close>; a context \<open>K\<close> is a tree with a hole, for operations in the middle of a tree.
\<close>

section \<open>Trees and contexts\<close>

datatype tree = Tip | Nd nat nat "nat list" tree tree

datatype frame = InLeft nat nat "nat list" tree | InRight nat nat "nat list" tree

fun plug :: "frame list \<Rightarrow> tree \<Rightarrow> tree" where
  "plug [] t = t"
| "plug (InLeft c n xs r # K) t = plug K (Nd c n xs t r)"
| "plug (InRight c n xs l # K) t = plug K (Nd c n xs l t)"

fun pairs :: "tree \<Rightarrow> (nat \<times> nat) list" where
  "pairs Tip = []"
| "pairs (Nd c n xs l r) = (c, n) # map (\<lambda>x. (x, n)) xs @ pairs l @ pairs r"

fun frame_pairs :: "frame list \<Rightarrow> (nat \<times> nat) list" where
  "frame_pairs [] = []"
| "frame_pairs (InLeft c n xs r # K) = (c, n) # map (\<lambda>x. (x, n)) xs @ pairs r @ frame_pairs K"
| "frame_pairs (InRight c n xs l # K) = (c, n) # map (\<lambda>x. (x, n)) xs @ pairs l @ frame_pairs K"

lemma mset_plug: "mset (pairs (plug K t)) = mset (frame_pairs K) + mset (pairs t)"
  by (induction K t rule: plug.induct) (auto simp: ac_simps)

lemma map_fst_pair [simp]: "map (fst \<circ> (\<lambda>x. (x, n))) xs = xs"
  by (simp add: o_def)

abbreviation chunks :: "tree \<Rightarrow> nat list" where "chunks t \<equiv> map fst (pairs t)"
abbreviation frame_chunks :: "frame list \<Rightarrow> nat list" where "frame_chunks K \<equiv> map fst (frame_pairs K)"

lemma set_plug: "set (pairs (plug K t)) = set (frame_pairs K) \<union> set (pairs t)"
  using arg_cong [OF mset_plug [of K t], of set_mset] by simp

definition tptr :: "tree \<Rightarrow> addr" where
  "tptr t = (case t of Tip \<Rightarrow> NULL | Nd c n xs l r \<Rightarrow> of_nat c)"

definition frame_ptr :: "frame list \<Rightarrow> addr" where
  "frame_ptr K = (case K of [] \<Rightarrow> NULL | InLeft c n xs r # K \<Rightarrow> of_nat c | InRight c n xs l # K \<Rightarrow> of_nat c)"

lemma tptr_simps [simp]: "tptr Tip = NULL" "tptr (Nd c n xs l r) = of_nat c"
  by (simp_all add: tptr_def)

lemma frame_ptr_simps [simp]: "frame_ptr [] = NULL" "frame_ptr (InLeft c n xs r # K) = of_nat c"
  "frame_ptr (InRight c n xs l # K) = of_nat c"
  by (simp_all add: frame_ptr_def)

definition csize :: "(nat \<Rightarrow> u32) \<Rightarrow> nat \<Rightarrow> u32" where
  "csize w c = w (c + 4) AND NOT FLAGMASK"

lemma GETCHUNKSIZE_csize [simp]: "okaddr c \<Longrightarrow> GETCHUNKSIZE (of_nat c) s = csize (wd s) c"
  by (simp add: GETCHUNKSIZE_def csize_def)

text \<open>The words of a node: its fields and those of the other chunks in its circle.\<close>

definition node_at :: "(nat \<Rightarrow> u32) \<Rightarrow> addr \<Rightarrow> nat \<Rightarrow> nat \<Rightarrow> nat list \<Rightarrow> addr \<Rightarrow> addr \<Rightarrow> bool" where
  "node_at w p c n xs l r \<longleftrightarrow> csize w c = of_nat n \<and> w (c + 24) = p \<and> w (c + 16) = l \<and> w (c + 20) = r
     \<and> circ w (c # xs) \<and> (\<forall>x \<in> set xs. csize w x = of_nat n \<and> w (x + 16) = NULL \<and> w (x + 20) = NULL \<and> w (x + 24) = NULL)"

fun tree_at :: "(nat \<Rightarrow> u32) \<Rightarrow> addr \<Rightarrow> tree \<Rightarrow> bool" where
  "tree_at w p Tip \<longleftrightarrow> True"
| "tree_at w p (Nd c n xs l r) \<longleftrightarrow>
     node_at w p c n xs (tptr l) (tptr r) \<and> tree_at w (of_nat c) l \<and> tree_at w (of_nat c) r"

fun ctx_at :: "(nat \<Rightarrow> u32) \<Rightarrow> frame list \<Rightarrow> addr \<Rightarrow> bool" where
  "ctx_at w [] y \<longleftrightarrow> True"
| "ctx_at w (InLeft c n xs r # K) y \<longleftrightarrow>
     node_at w (frame_ptr K) c n xs y (tptr r) \<and> tree_at w (of_nat c) r \<and> ctx_at w K (of_nat c)"
| "ctx_at w (InRight c n xs l # K) y \<longleftrightarrow>
     node_at w (frame_ptr K) c n xs (tptr l) y \<and> tree_at w (of_nat c) l \<and> ctx_at w K (of_nat c)"

lemma plug_at: "tree_at w NULL (plug K t) \<longleftrightarrow> ctx_at w K (tptr t) \<and> tree_at w (frame_ptr K) t"
  by (induction K t rule: plug.induct) auto

section \<open>Frames\<close>

definition agree :: "(nat \<Rightarrow> u32) \<Rightarrow> (nat \<Rightarrow> u32) \<Rightarrow> nat set \<Rightarrow> bool" where
  "agree w w' X \<longleftrightarrow> (\<forall>x \<in> X. \<forall>k \<in> {4, 8, 12, 16, 20, 24}. w (x + k) = w' (x + k))"

lemma agree_mono: "agree w w' X \<Longrightarrow> Y \<subseteq> X \<Longrightarrow> agree w w' Y"
  by (auto simp: agree_def)

lemma agree_Un [simp]: "agree w w' (X \<union> Y) \<longleftrightarrow> agree w w' X \<and> agree w w' Y"
  by (auto simp: agree_def)

definition agree1 :: "(nat \<Rightarrow> u32) \<Rightarrow> (nat \<Rightarrow> u32) \<Rightarrow> nat \<Rightarrow> bool" where
  "agree1 w w' x \<longleftrightarrow> (\<forall>k \<in> {4, 8, 12, 16, 20, 24}. w (x + k) = w' (x + k))"

lemma agree_insert [simp]: "agree w w' (insert x Y) \<longleftrightarrow> agree1 w w' x \<and> agree w w' Y" "agree w w' {}"
  by (auto simp: agree_def agree1_def)

lemma node_frame: "agree w w' (insert c (set xs)) \<Longrightarrow> node_at w p c n xs l r = node_at w' p c n xs l r"
proof -
  assume a: "agree w w' (insert c (set xs))"
  then have "circ w (c # xs) = circ w' (c # xs)" by (intro circ_cong) (auto simp: agree_def)
  moreover have "csize w x = csize w' x" if "x \<in> insert c (set xs)" for x
    using a that by (auto simp: agree_def csize_def)
  ultimately show ?thesis using a by (auto simp: node_at_def agree_def)
qed

lemma tree_frame: "agree w w' (set (chunks t)) \<Longrightarrow> tree_at w p t = tree_at w' p t"
proof (induction t arbitrary: p)
  case (Nd c n xs l r)
  have "set (chunks (Nd c n xs l r)) = insert c (set xs) \<union> set (chunks l) \<union> set (chunks r)"
    by force
  with Nd show ?case using node_frame [of w w' c xs] by (simp only: agree_Un tree_at.simps)
qed simp

lemma ctx_frame: "agree w w' (set (frame_chunks K)) \<Longrightarrow> ctx_at w K y = ctx_at w' K y"
proof (induction K arbitrary: y)
  case (Cons F K)
  show ?case
  proof (cases F)
    case (InLeft c n xs r)
    have "set (frame_chunks (F # K)) = insert c (set xs) \<union> set (chunks r) \<union> set (frame_chunks K)"
      unfolding InLeft by force
    with Cons tree_frame [of w w' r] node_frame [of w w' c xs] show ?thesis
      by (simp only: agree_Un InLeft ctx_at.simps)
  next
    case (InRight c n xs l)
    have "set (frame_chunks (F # K)) = insert c (set xs) \<union> set (chunks l) \<union> set (frame_chunks K)"
      unfolding InRight by force
    with Cons tree_frame [of w w' l] node_frame [of w w' c xs] show ?thesis
      by (simp only: agree_Un InRight ctx_at.simps)
  qed
qed simp

text \<open>
  Chunks of a tree are at least 32 bytes apart, so the fields of different chunks are different words.
  \<open>touch A\<close> is where the tree operations write: the links of the chunks \<open>A\<close>, not their headers and bins.
\<close>

definition apart :: "nat list \<Rightarrow> bool" where
  "apart xs \<longleftrightarrow> chunks_ok xs \<and> (\<forall>x \<in> set xs. \<forall>y \<in> set xs. x \<noteq> y \<longrightarrow> x + 32 \<le> y \<or> y + 32 \<le> x)"

lemma apart_fields:
  "\<lbrakk>apart xs; x \<in> set xs; y \<in> set xs; x \<noteq> y; j < 32; k < 32\<rbrakk> \<Longrightarrow> x + j \<noteq> y + k"
  unfolding apart_def by fastforce

definition touch :: "nat set \<Rightarrow> nat set" where
  "touch A = {a. \<exists>x \<in> A. \<exists>k. 8 \<le> k \<and> k < 28 \<and> a = x + k}"

lemma touchI [intro]: "x \<in> A \<Longrightarrow> 8 \<le> k \<Longrightarrow> k < 28 \<Longrightarrow> x + k \<in> touch A"
  by (auto simp: touch_def)

lemma touch_mono: "A \<subseteq> B \<Longrightarrow> touch A \<subseteq> touch B"
  by (auto simp: touch_def)

lemma links_touch: "links A \<subseteq> touch A"
  by (auto simp: links_def)

lemma touch_agree:
  assumes "apart xs" "A \<union> Y \<subseteq> set xs" "A \<inter> Y = {}" "\<And>a. a \<notin> touch A \<Longrightarrow> w' a = w a"
  shows "agree w w' Y"
  unfolding agree_def
proof (intro ballI)
  fix y and k :: nat assume y: "y \<in> Y" and k: "k \<in> {4, 8, 12, 16, 20, 24}"
  have "y + k \<notin> touch A"
  proof
    assume "y + k \<in> touch A"
    then obtain x j where "x \<in> A" "j < 28" "y + k = x + j" unfolding touch_def by blast
    moreover then have "x \<in> set xs" "y \<in> set xs" "x \<noteq> y" "j < 32" "k < 32" using assms(2,3) y k by auto
    ultimately show False using apart_fields [OF assms(1), of y x k j] by simp
  qed
  then show "w (y + k) = w' (y + k)" using assms(4) by metis
qed

lemma writes_agree:
  "\<lbrakk>writes (touch A) s s'; apart xs; A \<union> Y \<subseteq> set xs; A \<inter> Y = {}\<rbrakk> \<Longrightarrow> agree (wd s) (wd s') Y"
  unfolding writes_def by (erule (2) touch_agree) blast

lemma apart_subset:
  assumes "apart xs" "set ys \<subseteq> set xs" "distinct ys"
  shows "apart ys"
proof -
  have "x \<in> set xs" if "x \<in> set ys" for x using assms(2) that by blast
  then show ?thesis using assms(1,3) by (simp add: apart_def chunks_ok_def)
qed

lemma apart_chunks_ok: "apart xs \<Longrightarrow> chunks_ok xs"
  by (simp add: apart_def)

lemma apart_okaddr: "apart xs \<Longrightarrow> x \<in> set xs \<Longrightarrow> okaddr x"
  by (simp add: apart_def chunks_ok_def)

section \<open>Changing one field of a node\<close>

lemma node_same:
  assumes "node_at w p c n xs l r" "\<forall>x \<in> insert c (set xs). \<forall>k \<in> {4, 8, 12}. w' (x + k) = w (x + k)"
    "\<forall>x \<in> set xs. \<forall>k \<in> {16, 20, 24}. w' (x + k) = w (x + k)"
  shows "node_at w' (w' (c + 24)) c n xs (w' (c + 16)) (w' (c + 20))"
proof -
  have "circ w' (c # xs) = circ w (c # xs)" using assms(2) by (intro circ_cong) auto
  moreover have "csize w' x = csize w x" if "x \<in> insert c (set xs)" for x
    using assms(2) that by (auto simp: csize_def)
  ultimately show ?thesis using assms(1,3) by (simp add: node_at_def)
qed

lemma node_fields:
  assumes n: "node_at w p c n xs l r" and ok: "apart (c # xs)"
  shows "node_at (w(c + 16 := v)) p c n xs v r" "node_at (w(c + 20 := v)) p c n xs l v"
    "node_at (w(c + 24 := v)) v c n xs l r"
proof -
  have f: "x + j \<noteq> c + k" if "x \<in> set xs" "j < 32" "k < 32" for x j k
    using apart_fields [OF ok, of x c j k] that ok by (auto simp: apart_def chunks_ok_def)
  have cx: "c \<notin> set xs" using ok by (simp add: apart_def chunks_ok_def)
  have pr: "p = w (c + 24)" "l = w (c + 16)" "r = w (c + 20)" using n by (simp_all add: node_at_def)
  have "node_at (w(c + k := v)) ((w(c + k := v)) (c + 24)) c n xs ((w(c + k := v)) (c + 16)) ((w(c + k := v)) (c + 20))"
    if "k \<in> {16, 20, 24}" for k
    by (rule node_same [OF n]) (use that f cx in auto)
  from this [of 16] this [of 20] this [of 24]
  show "node_at (w(c + 16 := v)) p c n xs v r" "node_at (w(c + 20 := v)) p c n xs l v"
    "node_at (w(c + 24 := v)) v c n xs l r"
    by (simp_all add: pr)
qed

lemma tptr_eq: "\<lbrakk>tptr t = of_nat c; okaddr c; \<forall>x \<in> set (chunks t). okaddr x\<rbrakk> \<Longrightarrow> c \<in> set (chunks t)"
  using okaddr_nonzero [of c] by (cases t) (auto simp: tptr_def)

lemma update_parent:
  assumes ctx: "ctx_at (wd s) (F # K) (of_nat c)" and up: "wd s (c + 24) = frame_ptr (F # K)"
    and ok: "apart (c # frame_chunks (F # K))"
    and s': "s' = ktchunk_update_parent (of_nat c) new s"
  shows "\<exists>q \<in> set (frame_chunks (F # K)). frame_ptr (F # K) = of_nat q \<and> writes (touch {q}) s s'"
    and "ctx_at (wd s') (F # K) new"
proof -
  have c: "okaddr c" using ok by (auto dest: apart_okaddr)
  have dj: "distinct (c # frame_chunks (F # K))" using ok by (simp add: apart_def chunks_ok_def)
  have "(\<exists>q \<in> set (frame_chunks (F # K)). frame_ptr (F # K) = of_nat q \<and> writes (touch {q}) s s') \<and> ctx_at (wd s') (F # K) new"
  proof (cases F)
    case (InLeft q n xs r)
    have q: "okaddr q" using ok InLeft by (auto dest: apart_okaddr)
    have at: "node_at (wd s) (frame_ptr K) q n xs (of_nat c) (tptr r)" "tree_at (wd s) (of_nat q) r" "ctx_at (wd s) K (of_nat q)"
      using ctx InLeft by auto
    have s1: "s' = wr (of_nat q + 16) new s"
      using s' up at(1) c q by (simp add: ktchunk_update_parent_def InLeft node_at_def Let_def)
    have w: "wd s' = (wd s)(q + 16 := new)" using q by (simp add: s1)
    have okq: "apart (q # xs)" using ok by (rule apart_subset) (use dj in \<open>auto simp: InLeft\<close>)
    have wr: "writes (touch {q}) s s'" using w by (auto simp: writes_def s1)
    have ag: "agree (wd s) (wd s') (set (chunks r) \<union> set (frame_chunks K))"
      using wr ok by (rule writes_agree) (use dj in \<open>auto simp: InLeft\<close>)
    have "ctx_at (wd s') (F # K) new"
      using node_fields(1) [OF at(1) okq, of new] at(2,3) ag tree_frame [of "wd s" "wd s'" r] ctx_frame [of "wd s" "wd s'" K]
      by (simp add: InLeft w)
    then show ?thesis using wr by (auto simp: InLeft)
  next
    case (InRight q n xs l)
    have q: "okaddr q" using ok InRight by (auto dest: apart_okaddr)
    have at: "node_at (wd s) (frame_ptr K) q n xs (tptr l) (of_nat c)" "tree_at (wd s) (of_nat q) l" "ctx_at (wd s) K (of_nat q)"
      using ctx InRight by auto
    have "tptr l \<noteq> of_nat c"
      using tptr_eq [of l c] c ok by (auto simp: InRight apart_def chunks_ok_def)
    then have s1: "s' = wr (of_nat q + 20) new s"
      using s' up at(1) c q by (simp add: ktchunk_update_parent_def InRight node_at_def Let_def)
    have w: "wd s' = (wd s)(q + 20 := new)" using q by (simp add: s1)
    have okq: "apart (q # xs)" using ok by (rule apart_subset) (use dj in \<open>auto simp: InRight\<close>)
    have wr: "writes (touch {q}) s s'" using w by (auto simp: writes_def s1)
    have ag: "agree (wd s) (wd s') (set (chunks l) \<union> set (frame_chunks K))"
      using wr ok by (rule writes_agree) (use dj in \<open>auto simp: InRight\<close>)
    have "ctx_at (wd s') (F # K) new"
      using node_fields(2) [OF at(1) okq, of new] at(2,3) ag tree_frame [of "wd s" "wd s'" l] ctx_frame [of "wd s" "wd s'" K]
      by (simp add: InRight w)
    then show ?thesis using wr by (auto simp: InRight)
  qed
  then show "\<exists>q \<in> set (frame_chunks (F # K)). frame_ptr (F # K) = of_nat q \<and> writes (touch {q}) s s'" "ctx_at (wd s') (F # K) new"
    by blast+
qed

lemma replace_hole:
  assumes ctx: "ctx_at (wd s) K (of_nat c)" and up: "wd s (c + 24) = frame_ptr K"
    and ok: "apart (c # frame_chunks K)"
    and s': "s' = (if K = [] then s else ktchunk_update_parent (of_nat c) new s)"
  shows "ctx_at (wd s') K new" "writes (touch (set (frame_chunks K))) s s'"
proof -
  have "ctx_at (wd s') K new \<and> writes (touch (set (frame_chunks K))) s s'"
  proof (cases K)
    case Nil
    then show ?thesis using s' by simp
  next
    case (Cons F K')
    then have "s' = ktchunk_update_parent (of_nat c) new s" using s' by simp
    from update_parent [OF ctx [unfolded Cons] up [unfolded Cons] ok [unfolded Cons] this]
    obtain q where q: "q \<in> set (frame_chunks K)" "writes (touch {q}) s s'" "ctx_at (wd s') K new"
      unfolding Cons by blast
    have "touch {q} \<subseteq> touch (set (frame_chunks K))" using q(1) by (intro touch_mono) blast
    then show ?thesis using q writes_mono by blast
  qed
  then show "ctx_at (wd s') K new" "writes (touch (set (frame_chunks K))) s s'" by blast+
qed

lemma frame_ptr_Nil: "apart (frame_chunks K) \<Longrightarrow> frame_ptr K = NULL \<longleftrightarrow> K = []"
  using okaddr_nonzero by (cases K rule: frame_pairs.cases) (auto simp: apart_def chunks_ok_def)

section \<open>Giving a subtree a new parent\<close>

definition adopt :: "addr \<Rightarrow> addr \<Rightarrow> 'a kmstate_scheme \<Rightarrow> 'a kmstate_scheme" where
  "adopt t q s = (if t \<noteq> NULL then set_parent t q s else s)"

lemma adopt_tree:
  assumes t: "tree_at (wd s) q t" and ok: "apart (chunks t)" and s': "s' = adopt (tptr t) q' s"
  shows "tree_at (wd s') q' t" "writes (touch (set (chunks t))) s s'"
proof -
  have "tree_at (wd s') q' t \<and> writes (touch (set (chunks t))) s s'"
  proof (cases t)
    case Tip
    then show ?thesis using s' by (simp add: adopt_def)
  next
    case (Nd c n xs l r)
    have c: "okaddr c" "apart (c # xs)" "distinct (c # xs @ chunks l @ chunks r)"
      using ok unfolding Nd by (auto simp: apart_def chunks_ok_def)
    have s1: "s' = wr (of_nat c + 24) q' s" using s' c(1) by (simp add: Nd adopt_def)
    have w: "wd s' = (wd s)(c + 24 := q')" using c(1) by (simp add: s1)
    have wr: "writes (touch {c}) s s'" using w by (auto simp: writes_def s1)
    have "agree (wd s) (wd s') (set (chunks l) \<union> set (chunks r))"
      using wr ok by (rule writes_agree) (use c(3) in \<open>auto simp: Nd\<close>)
    then have "tree_at (wd s') q' t"
      using t node_fields(3) [OF _ c(2), of "wd s" q n _ _ q'] tree_frame [of "wd s" "wd s'"] by (auto simp: Nd w)
    moreover have "touch {c} \<subseteq> touch (set (chunks t))" by (rule touch_mono) (simp add: Nd)
    ultimately show ?thesis using wr writes_mono by blast
  qed
  then show "tree_at (wd s') q' t" "writes (touch (set (chunks t))) s s'" by blast+
qed

text \<open>\<open>d\<close> takes the children of another node: every subtree stays, with \<open>d\<close> for its parent.\<close>

lemma adopt_children:
  assumes n: "node_at (wd s) p d n xs (tptr l) (tptr r)"
    and l: "tree_at (wd s) q l" and r: "tree_at (wd s) q r"
    and ok: "apart (d # xs @ chunks l @ chunks r)"
    and s': "s' = adopt (tptr r) (of_nat d) (adopt (tptr l) (of_nat d) s)"
  shows "tree_at (wd s') p (Nd d n xs l r)" "writes (touch (set (chunks l) \<union> set (chunks r))) s s'"
proof -
  have dj: "distinct (d # xs @ chunks l @ chunks r)" using ok by (simp add: apart_def chunks_ok_def)
  define s1 where "s1 = adopt (tptr l) (of_nat d) s"
  have okl: "apart (chunks l)" "apart (chunks r)" using ok dj by (auto intro: apart_subset)
  note 1 = adopt_tree [OF l okl(1) s1_def]
  have a1: "agree (wd s) (wd s1) (insert d (set xs) \<union> set (chunks r))"
    using 1(2) ok by (rule writes_agree) (use dj in auto)
  have n1: "node_at (wd s1) p d n xs (tptr l) (tptr r)" "tree_at (wd s1) q r"
    using n r a1 node_frame [of "wd s" "wd s1" d xs] tree_frame [of "wd s" "wd s1" r] by auto
  have s'1: "s' = adopt (tptr r) (of_nat d) s1" by (simp add: s' s1_def)
  note 2 = adopt_tree [OF n1(2) okl(2) s'1]
  have a2: "agree (wd s1) (wd s') (insert d (set xs) \<union> set (chunks l))"
    using 2(2) ok by (rule writes_agree) (use dj in auto)
  then show "tree_at (wd s') p (Nd d n xs l r)"
    using 1(1) 2(1) n1(1) node_frame [of "wd s1" "wd s'" d xs] tree_frame [of "wd s1" "wd s'" l] by auto
  have "touch (set (chunks l) \<union> set (chunks r)) = touch (set (chunks l)) \<union> touch (set (chunks r))"
    by (auto simp: touch_def)
  then show "writes (touch (set (chunks l) \<union> set (chunks r))) s s'" using writes_trans [OF 1(2) 2(2)] by simp
qed

end
