(* ===== verification/KTreeOps.thy ===== *)
theory KTreeOps
  imports KTreeRep
begin

text \<open>
  The operations of kmalloc_tree.c on the representation of KTreeRep: removal, insertion and the two
  searches. \<open>trie d t\<close> says that below a node with \<open>d\<close> bits left, bit \<open>d - 1\<close> of the sizes chooses
  between left and right.
\<close>

section \<open>Tries\<close>

fun sizes :: "tree \<Rightarrow> nat set" where
  "sizes Tip = {}"
| "sizes (Nd c n xs l r) = insert n (sizes l \<union> sizes r)"

lemma sizes_pairs: "sizes t = snd ` set (pairs t)"
  by (induction t) force+

fun trie :: "nat \<Rightarrow> tree \<Rightarrow> bool" where
  "trie d Tip \<longleftrightarrow> True"
| "trie 0 (Nd c n xs l r) \<longleftrightarrow> l = Tip \<and> r = Tip"
| "trie (Suc d) (Nd c n xs l r) \<longleftrightarrow>
     (\<forall>m \<in> sizes l. \<not> bit m d) \<and> (\<forall>m \<in> sizes r. bit m d) \<and> trie d l \<and> trie d r"

lemma trie_same: "trie d (Nd c n xs l r) \<Longrightarrow> trie d (Nd c' n' xs' l r)"
  by (cases d) auto

lemma trie_plug_mono:
  assumes "\<And>e. trie e t \<Longrightarrow> trie e t'" "sizes t' \<subseteq> sizes t" "t = Tip \<Longrightarrow> t' = Tip"
  shows "trie d (plug K t) \<Longrightarrow> trie d (plug K t')"
  using assms
proof (induction K arbitrary: t t')
  case (Cons F K)
  have sub: "m \<in> sizes t" if "m \<in> sizes t'" for m using Cons.prems(3) that by blast
  show ?case
  proof (cases F)
    case (InLeft c n xs r)
    have "trie e (Nd c n xs t' r)" if "trie e (Nd c n xs t r)" for e
      using that Cons.prems(2,4) sub by (cases e) auto
    moreover have "sizes (Nd c n xs t' r) \<subseteq> sizes (Nd c n xs t r)" using Cons.prems(3) by auto
    ultimately show ?thesis using Cons.IH [of "Nd c n xs t r" "Nd c n xs t' r"] Cons.prems(1) by (simp add: InLeft)
  next
    case (InRight c n xs l)
    have "trie e (Nd c n xs l t')" if "trie e (Nd c n xs l t)" for e
      using that Cons.prems(2,4) sub by (cases e) auto
    moreover have "sizes (Nd c n xs l t') \<subseteq> sizes (Nd c n xs l t)" using Cons.prems(3) by auto
    ultimately show ?thesis using Cons.IH [of "Nd c n xs l t" "Nd c n xs l t'"] Cons.prems(1) by (simp add: InRight)
  qed
qed auto

section \<open>Removal\<close>

lemma plug_append: "plug (J @ K) t = plug K (plug J t)"
  by (induction J t rule: plug.induct) auto

lemma frame_pairs_append: "frame_pairs (J @ K) = frame_pairs J @ frame_pairs K"
  by (induction J rule: frame_pairs.induct) auto

lemma tptr_NULL: "\<forall>x \<in> set (chunks t). okaddr x \<Longrightarrow> tptr t = NULL \<longleftrightarrow> t = Tip"
  using okaddr_nonzero by (cases t) (auto simp: tptr_def)

lemma leave_iff:
  assumes "node_at (wd s) p c n xs (tptr l) (tptr r)" "apart (chunks (Nd c n xs l r))"
  shows "ktchunk_is_leave (of_nat c) s \<longleftrightarrow> l = Tip \<and> r = Tip"
proof -
  have "okaddr c" "\<forall>x \<in> set (chunks l). okaddr x" "\<forall>x \<in> set (chunks r). okaddr x"
    using assms(2) by (auto simp: apart_def chunks_ok_def)
  then show ?thesis using assms(1) by (simp add: ktchunk_is_leave_def node_at_def tptr_NULL)
qed

lemma leftmost_leaf_context:
  "\<lbrakk>tree_at (wd s) p t; apart (chunks t); t \<noteq> Tip\<rbrakk> \<Longrightarrow>
   \<exists>J d m ys. t = plug J (Nd d m ys Tip Tip) \<and> leftmost_leaf (tptr t) s = Some (of_nat d)"
proof (induction t arbitrary: p)
  case (Nd c n xs l r)
  have ok: "apart (chunks l)" "apart (chunks r)"
    using Nd.prems(2) by (auto intro: apart_subset simp: apart_def chunks_ok_def)
  have n: "node_at (wd s) p c n xs (tptr l) (tptr r)" "tree_at (wd s) (of_nat c) l" "tree_at (wd s) (of_nat c) r"
    using Nd.prems(1) by auto
  have c: "okaddr c" using Nd.prems(2) by (auto simp: apart_def chunks_ok_def)
  have f: "wd s (c + 16) = tptr l" "wd s (c + 20) = tptr r" using n(1) by (simp_all add: node_at_def)
  note lv = leave_iff [OF n(1) Nd.prems(2)]
  have nl: "tptr l = NULL \<longleftrightarrow> l = Tip" using ok(1) by (intro tptr_NULL) (simp add: apart_def chunks_ok_def)
  consider "l = Tip" "r = Tip" | "l \<noteq> Tip" | "l = Tip" "r \<noteq> Tip" by blast
  then show ?case
  proof cases
    case 1
    then have "leftmost_leaf (of_nat c) s = Some (of_nat c)" using lv by (subst leftmost_leaf.simps) simp
    then show ?thesis using 1 by (intro exI [of _ "[]"]) auto
  next
    case 2
    then obtain J d m ys where IH: "l = plug J (Nd d m ys Tip Tip)" "leftmost_leaf (tptr l) s = Some (of_nat d)"
      using Nd.IH(1) [OF n(2) ok(1)] by blast
    have "leftmost_leaf (of_nat c) s = Some (of_nat d)"
      using 2 lv nl f c IH(2) by (subst leftmost_leaf.simps) simp
    then show ?thesis using IH(1) by (intro exI [of _ "J @ [InLeft c n xs r]"]) (auto simp: plug_append)
  next
    case 3
    then obtain J d m ys where IH: "r = plug J (Nd d m ys Tip Tip)" "leftmost_leaf (tptr r) s = Some (of_nat d)"
      using Nd.IH(2) [OF n(3) ok(2)] by blast
    have "leftmost_leaf (of_nat c) s = Some (of_nat d)"
      using 3 lv nl f c IH(2) by (subst leftmost_leaf.simps) simp
    then show ?thesis using IH(1) by (intro exI [of _ "J @ [InRight c n xs l]"]) (auto simp: plug_append)
  qed
qed simp

lemma apart_mset: "mset xs = mset ys \<Longrightarrow> apart xs = apart ys"
proof -
  assume m: "mset xs = mset ys"
  have "set xs = set ys" "distinct xs = distinct ys"
    using mset_eq_setD [OF m] mset_eq_imp_distinct_iff [OF m] by simp_all
  then show ?thesis by (simp add: apart_def chunks_ok_def)
qed

lemma apart_plug: "apart (chunks (plug K t)) = apart (frame_chunks K @ chunks t)"
proof -
  have "mset (chunks (plug K t)) = mset (map fst (frame_pairs K @ pairs t))"
    by (simp only: mset_map mset_plug mset_append)
  then show ?thesis by (intro apart_mset) simp
qed

text \<open>A leaf is cut off its parent.\<close>

lemma cut_leaf:
  assumes t: "tree_at (wd s) NULL (plug K (Nd c n xs Tip Tip))" and ok: "apart (chunks (plug K (Nd c n xs Tip Tip)))"
    and s': "s' = (if K = [] then s else ktchunk_update_parent (of_nat c) NULL s)"
  shows "tree_at (wd s') NULL (plug K Tip)" "writes (touch (set (frame_chunks K))) s s'"
    "agree (wd s) (wd s') (set (c # xs))"
proof -
  have at: "ctx_at (wd s) K (of_nat c)" "node_at (wd s) (frame_ptr K) c n xs NULL NULL"
    using t by (auto simp: plug_at)
  have ok': "apart (frame_chunks K @ c # xs)" using ok by (simp add: apart_plug)
  have okc: "apart (c # frame_chunks K)" using ok' by (rule apart_subset) (use ok' in \<open>auto simp: apart_def chunks_ok_def\<close>)
  have up: "wd s (c + 24) = frame_ptr K" using at(2) by (simp add: node_at_def)
  note h = replace_hole [OF at(1) up okc s']
  show "tree_at (wd s') NULL (plug K Tip)" using h(1) by (simp add: plug_at)
  show "writes (touch (set (frame_chunks K))) s s'" by (rule h(2))
  show "agree (wd s) (wd s') (set (c # xs))"
    using h(2) ok' by (rule writes_agree) (use ok' in \<open>auto simp: apart_def chunks_ok_def\<close>)
qed

text \<open>The first chunk of a circle takes the place of its node.\<close>

lemma replace_head:
  assumes t: "node_at (wd s) p c n (d # xs) (tptr l) (tptr r)" "tree_at (wd s) (of_nat c) l" "tree_at (wd s) (of_nat c) r"
    and ok: "apart (c # d # xs @ chunks l @ chunks r)"
    and s': "s' = ktchunk_replace_head (of_nat c) (of_nat d) s"
  shows "tree_at (wd s') p (Nd d n xs l r)" "writes (touch (set (d # xs) \<union> set (chunks l) \<union> set (chunks r))) s s'"
proof -
  have dj: "distinct (c # d # xs @ chunks l @ chunks r)" using ok by (simp add: apart_def chunks_ok_def)
  let ?e = "last (d # xs)"
  have e: "?e \<in> set (d # xs)" by (rule last_in_set) simp
  have okc: "okaddr c" "okaddr d" "okaddr ?e" "?e \<noteq> c" using ok e dj by (auto simp: apart_def chunks_ok_def)
  have f: "wd s (c + 12) = of_nat ?e" "wd s (c + 16) = tptr l" "wd s (c + 20) = tptr r" "wd s (c + 24) = p"
    using t(1) circ_ends(1) [of "wd s" c "d # xs"] by (simp_all add: node_at_def)
  define s1 where "s1 = wr (of_nat ?e + 8) (of_nat d) (wr (of_nat d + 12) (of_nat ?e) (wr (of_nat d + 20) (tptr r)
      (wr (of_nat d + 16) (tptr l) (wr (of_nat d + 24) p s))))"
  have ne: "c + k \<noteq> d + j" if "k < 32" "j < 32" for k j
    using apart_fields [OF ok, of c d k j] that dj by simp
  have w1: "wd s1 = (wd s)(d + 24 := p, d + 16 := tptr l, d + 20 := tptr r, d + 12 := of_nat ?e, ?e + 8 := of_nat d)"
    using okc by (simp add: s1_def)
  have l1: "wd s1 (d + 16) = tptr l" "wd s1 (d + 20) = tptr r"
    using okc apart_fields [OF ok, of d ?e 16 8] apart_fields [OF ok, of d ?e 20 8] e dj by (auto simp: w1)
  have s'1: "s' = adopt (tptr r) (of_nat d) (adopt (tptr l) (of_nat d) s1)"
  proof -
    define a1 where "a1 = wr (of_nat d + 24) p s"
    define a2 where "a2 = wr (of_nat d + 16) (tptr l) a1"
    define a3 where "a3 = wr (of_nat d + 20) (tptr r) a2"
    define a4 where "a4 = wr (of_nat d + 12) (of_nat ?e) a3"
    have r: "parent_chunk (of_nat c) s = p" "left_chunk (of_nat c) a1 = tptr l" "right_chunk (of_nat c) a2 = tptr r"
      "prev_chunk (of_nat c) a3 = of_nat ?e" "prev_chunk (of_nat c) a4 = of_nat ?e"
      using okc f ne [of 16 24] ne [of 20 16] ne [of 20 24] ne [of 12 24] ne [of 12 16] ne [of 12 20] ne [of 12 12]
      by (simp_all add: a1_def a2_def a3_def a4_def)
    have "s1 = set_next (of_nat ?e) (of_nat d) a4" by (simp add: s1_def a1_def a2_def a3_def a4_def)
    then have "s' = (let s = adopt (left_chunk (of_nat d) s1) (of_nat d) s1 in adopt (right_chunk (of_nat d) s) (of_nat d) s)"
      unfolding s' ktchunk_replace_head_def adopt_def Let_def r a1_def [symmetric]
      unfolding r a2_def [symmetric] unfolding r a3_def [symmetric] unfolding r a4_def [symmetric] unfolding r
      by simp
    moreover have "left_chunk (of_nat d) s1 = tptr l" using okc l1 by simp
    ultimately have "s' = adopt (right_chunk (of_nat d) (adopt (tptr l) (of_nat d) s1)) (of_nat d) (adopt (tptr l) (of_nat d) s1)"
      by (simp add: Let_def)
    moreover have "right_chunk (of_nat d) (adopt (tptr l) (of_nat d) s1) = tptr r"
    proof (cases l)
      case Tip
      then show ?thesis using l1 okc by (simp add: adopt_def)
    next
      case (Nd a m ys l' r')
      then have "okaddr a" "a \<noteq> d" using ok dj by (auto simp: apart_def chunks_ok_def)
      then show ?thesis using Nd l1 okc apart_fields [OF ok, of d a 20 24] by (simp add: adopt_def)
    qed
    ultimately show ?thesis by simp
  qed
  have wr1: "writes (touch (set (d # xs))) s s1"
    using e w1 by (auto simp: writes_def s1_def)
  have "circ (wd s1) (d # xs)"
  proof -
    have c: "circ ((wd s)(?e + 8 := of_nat d, d + 12 := of_nat ?e)) (d # xs)"
      using t(1) ok by (intro circ_remove [of _ c]) (auto simp: node_at_def apart_def chunks_ok_def)
    have "wd s1 a = ((wd s)(?e + 8 := of_nat d, d + 12 := of_nat ?e)) a" if ak: "a \<in> links (set (d # xs))" for a
    proof -
      obtain x k where x: "x \<in> set (d # xs)" "a = x + k" "k \<in> {8, 12}" using ak unfolding links_def by blast
      have "x + k \<noteq> d + j" if "j \<in> {16, 20, 24}" for j
        using apart_fields [OF ok, of x d k j] x that by (cases "x = d") auto
      then show ?thesis using x okaddr_links [OF okc(3,2)] by (auto simp: w1)
    qed
    then have "circ (wd s1) (d # xs) = circ ((wd s)(?e + 8 := of_nat d, d + 12 := of_nat ?e)) (d # xs)" by (rule circ_frame)
    with c show ?thesis by blast
  qed
  moreover have "csize (wd s1) x = csize (wd s) x" if "x \<in> set (d # xs)" for x
    using that apart_fields [OF ok, of x d 4] apart_fields [OF ok, of x ?e 4] e
    by (cases "x = d"; cases "x = ?e") (auto simp: csize_def w1)
  moreover have "wd s1 (x + k) = wd s (x + k)" if "x \<in> set xs" "k \<in> {16, 20, 24}" for x k
  proof -
    have "x \<noteq> d" using \<open>x \<in> set xs\<close> dj by auto
    moreover have "k < 32" using \<open>k \<in> {16, 20, 24}\<close> by auto
    ultimately have "x + k \<noteq> d + j" if "j < 32" for j
      using apart_fields [OF ok, of x d k j] \<open>x \<in> set xs\<close> that by simp
    moreover have "x + k \<noteq> ?e + 8"
      using apart_fields [OF ok, of x ?e k 8] \<open>x \<in> set xs\<close> \<open>k \<in> {16, 20, 24}\<close> e by (cases "x = ?e") auto
    ultimately show ?thesis by (simp add: w1)
  qed
  moreover have "wd s1 (d + 24) = p" using apart_fields [OF ok, of d ?e 24 8] e by (cases "d = ?e") (auto simp: w1)
  ultimately have n1: "node_at (wd s1) p d n xs (tptr l) (tptr r)"
    using t(1) l1 by (simp add: node_at_def)
  have "agree (wd s) (wd s1) (set (chunks l) \<union> set (chunks r))"
    using wr1 ok by (rule writes_agree) (use dj in auto)
  then have at1: "tree_at (wd s1) (of_nat c) l" "tree_at (wd s1) (of_nat c) r"
    using t tree_frame [of "wd s" "wd s1"] by auto
  have ok2: "apart (d # xs @ chunks l @ chunks r)" using ok dj by (auto intro: apart_subset)
  note a = adopt_children [OF n1 at1 ok2 s'1]
  show "tree_at (wd s') p (Nd d n xs l r)" by (rule a(1))
  have "touch (set (d # xs)) \<union> touch (set (chunks l) \<union> set (chunks r)) =
      touch (set (d # xs) \<union> set (chunks l) \<union> set (chunks r))" by (auto simp: touch_def)
  then show "writes (touch (set (d # xs) \<union> set (chunks l) \<union> set (chunks r))) s s'"
    using writes_trans [OF wr1 a(2)] by simp
qed

text \<open>A leaf takes the place of a node: \<open>replace_by_leaf\<close> after the leaf has been cut off.\<close>

lemma replace_node:
  assumes t: "ctx_at (wd s) K (of_nat c)" "node_at (wd s) (frame_ptr K) c n [] (tptr l) (tptr r)"
      "tree_at (wd s) (of_nat c) l" "tree_at (wd s) (of_nat c) r"
    and d: "node_at (wd s) p d m ys x y" and ok: "apart (c # d # ys @ chunks l @ chunks r @ frame_chunks K)"
    and s5': "sp = (let s = set_left (of_nat d) (left_chunk (of_nat c) s) s;
                       s = adopt (left_chunk (of_nat d) s) (of_nat d) s;
                       s = set_right (of_nat d) (right_chunk (of_nat c) s) s;
                       s = adopt (right_chunk (of_nat d) s) (of_nat d) s
                   in set_parent (of_nat d) (parent_chunk (of_nat c) s) s)"
    and s': "s' = (if K \<noteq> [] then ktchunk_update_parent (of_nat c) (of_nat d) sp else sp)"
  shows "tree_at (wd s') NULL (plug K (Nd d m ys l r))"
    "writes (touch (insert d (set (chunks l) \<union> set (chunks r) \<union> set (frame_chunks K)))) s s'"
    "parent_chunk (of_nat d) sp = frame_ptr K"
proof -
  have dj: "distinct (c # d # ys @ chunks l @ chunks r @ frame_chunks K)" using ok by (simp add: apart_def chunks_ok_def)
  have okc: "okaddr c" "okaddr d" using ok by (auto simp: apart_def chunks_ok_def)
  have okd: "apart (d # ys)" "apart (chunks l)" "apart (chunks r)" "apart (c # frame_chunks K)"
    using ok dj by (auto intro: apart_subset)
  define s1 where "s1 = wr (of_nat d + 16) (tptr l) s"
  define s2 where "s2 = adopt (tptr l) (of_nat d) s1"
  define s3 where "s3 = wr (of_nat d + 20) (tptr r) s2"
  define s4 where "s4 = adopt (tptr r) (of_nat d) s3"
  define s5 where "s5 = wr (of_nat d + 24) (frame_ptr K) s4"
  let ?O = "set (c # frame_chunks K)"
  have f: "wd s (c + 16) = tptr l" "wd s (c + 20) = tptr r" "wd s (c + 24) = frame_ptr K"
    using t(2) by (simp_all add: node_at_def)
  have w1: "wd s1 = (wd s)(d + 16 := tptr l)" "writes (touch {d}) s s1"
    using okc by (auto simp: s1_def writes_def)
  have n1: "node_at (wd s1) p d m ys (tptr l) y" unfolding w1 by (rule node_fields(1) [OF d okd(1)])
  have g1: "agree (wd s) (wd s1) (?O \<union> set (chunks l) \<union> set (chunks r))"
    using w1(2) ok by (rule writes_agree) (use dj in auto)
  have "tree_at (wd s1) (of_nat c) l" using t(3) g1 tree_frame [of "wd s" "wd s1" l] by auto
  note 2 = adopt_tree [OF this okd(2) s2_def]
  have g2: "agree (wd s1) (wd s2) (?O \<union> insert d (set ys) \<union> set (chunks r))"
    using 2(2) ok by (rule writes_agree) (use dj in auto)
  have n2: "node_at (wd s2) p d m ys (tptr l) y" using n1 g2 node_frame [of "wd s1" "wd s2" d ys] by auto
  have w3: "wd s3 = (wd s2)(d + 20 := tptr r)" "writes (touch {d}) s2 s3"
    using okc by (auto simp: s3_def writes_def)
  have n3: "node_at (wd s3) p d m ys (tptr l) (tptr r)" unfolding w3 by (rule node_fields(2) [OF n2 okd(1)])
  have g3: "agree (wd s2) (wd s3) (?O \<union> set (chunks l) \<union> set (chunks r))"
    using w3(2) ok by (rule writes_agree) (use dj in auto)
  have "tree_at (wd s3) (of_nat c) r"
    using t(4) g1 g2 g3 tree_frame [of "wd s" "wd s1" r] tree_frame [of "wd s1" "wd s2" r] tree_frame [of "wd s2" "wd s3" r] by auto
  note 4 = adopt_tree [OF this okd(3) s4_def]
  have g4: "agree (wd s3) (wd s4) (?O \<union> insert d (set ys) \<union> set (chunks l))"
    using 4(2) ok by (rule writes_agree) (use dj in auto)
  have n4: "node_at (wd s4) p d m ys (tptr l) (tptr r)" using n3 g4 node_frame [of "wd s3" "wd s4" d ys] by auto
  have w5: "wd s5 = (wd s4)(d + 24 := frame_ptr K)" "writes (touch {d}) s4 s5"
    using okc by (auto simp: s5_def writes_def)
  have n5: "node_at (wd s5) (frame_ptr K) d m ys (tptr l) (tptr r)" unfolding w5 by (rule node_fields(3) [OF n4 okd(1)])
  have g5: "agree (wd s4) (wd s5) (?O \<union> set (chunks l) \<union> set (chunks r))"
    using w5(2) ok by (rule writes_agree) (use dj in auto)
  have l5: "tree_at (wd s5) (of_nat d) l"
    using 2(1) g3 g4 g5 tree_frame [of "wd s2" "wd s3" l] tree_frame [of "wd s3" "wd s4" l] tree_frame [of "wd s4" "wd s5" l] by auto
  have r5: "tree_at (wd s5) (of_nat d) r" using 4(1) g5 tree_frame [of "wd s4" "wd s5" r] by auto
  have cc: "agree (wd s) (wd s1) ?O" "agree (wd s1) (wd s2) ?O" "agree (wd s2) (wd s3) ?O" "agree (wd s3) (wd s4) ?O" "agree (wd s4) (wd s5) ?O"
    using g1 g2 g3 g4 g5 by auto
  have ctx5: "ctx_at (wd s5) K (of_nat c)"
    using t(1) cc ctx_frame [of "wd s" "wd s1" K] ctx_frame [of "wd s1" "wd s2" K] ctx_frame [of "wd s2" "wd s3" K]
      ctx_frame [of "wd s3" "wd s4" K] ctx_frame [of "wd s4" "wd s5" K] by auto
  have up5: "wd s5 (c + 24) = frame_ptr K" and f4: "wd s4 (c + 24) = frame_ptr K" and f2: "wd s2 (c + 20) = tptr r"
    using f cc by (auto simp: agree1_def)
  define s6 where "s6 = (if K = [] then s5 else ktchunk_update_parent (of_nat c) (of_nat d) s5)"
  note 6 = replace_hole [OF ctx5 up5 okd(4) s6_def]
  have "left_chunk (of_nat d) s1 = tptr l" "right_chunk (of_nat d) s3 = tptr r" using okc w1(1) w3(1) by simp_all
  then have eq5: "sp = s5"
    unfolding s5' Let_def using okc f f2 f4
    by (simp add: s5_def s4_def s3_def s2_def s1_def [symmetric] flip: s2_def s3_def s4_def)
  then have eq: "s' = s6" unfolding s' by (simp add: s6_def)
  show "parent_chunk (of_nat d) sp = frame_ptr K" using okc w5(1) by (simp add: eq5)
  have g6: "agree (wd s5) (wd s6) (insert d (set ys) \<union> set (chunks l) \<union> set (chunks r))"
    using 6(2) ok by (rule writes_agree) (use dj in auto)
  have "tree_at (wd s6) (frame_ptr K) (Nd d m ys l r)"
    using n5 l5 r5 g6 node_frame [of "wd s5" "wd s6" d ys] tree_frame [of "wd s5" "wd s6"] by auto
  then show "tree_at (wd s') NULL (plug K (Nd d m ys l r))" using 6(1) by (simp add: plug_at eq)
  have "writes (touch {d} \<union> touch (set (chunks l)) \<union> touch {d} \<union> touch (set (chunks r)) \<union> touch {d} \<union> touch (set (frame_chunks K))) s s6"
    using w1(2) 2(2) w3(2) 4(2) w5(2) 6(2) by (meson writes_trans)
  then show "writes (touch (insert d (set (chunks l) \<union> set (chunks r) \<union> set (frame_chunks K)))) s s'"
    unfolding eq by (rule writes_mono) (auto simp: touch_def)
qed

text \<open>A chunk that is not the first of its circle just leaves the circle.\<close>

lemma node_unlink:
  assumes n: "node_at (wd s) p c n (us @ x # vs) l r" and ok: "apart (c # us @ x # vs)"
    and s': "s' = set_prev (next_chunk (of_nat x) (set_next (prev_chunk (of_nat x) s) (next_chunk (of_nat x) s) s))
       (prev_chunk (of_nat x) (set_next (prev_chunk (of_nat x) s) (next_chunk (of_nat x) s) s))
       (set_next (prev_chunk (of_nat x) s) (next_chunk (of_nat x) s) s)"
  shows "node_at (wd s') p c n (us @ vs) l r" "writes (touch (set (c # us @ vs))) s s'"
proof -
  have okx: "okaddr x" using ok by (auto dest: apart_okaddr)
  have cir: "circ (wd s) ((c # us) @ x # vs)" using n by (simp add: node_at_def)
  have c: "circ (wd s) (x # vs @ c # us)" using circ_rotate [OF cir] by simp
  have okc: "chunks_ok (x # vs @ c # us)" using ok by (auto simp: apart_def chunks_ok_def)
  define a b where "a = last (vs @ c # us)" and "b = hd (vs @ c # us)"
  have ab: "a \<in> set (c # us @ vs)" "b \<in> set (c # us @ vs)"
    using last_in_set [of "vs @ c # us"] hd_in_set [of "vs @ c # us"] by (auto simp: a_def b_def)
  have oka: "okaddr a" "okaddr b" "a \<noteq> x" "b \<noteq> x" using ab ok by (auto simp: apart_def chunks_ok_def)
  have f: "wd s (x + 8) = of_nat b" "wd s (x + 12) = of_nat a"
    using circ_ends [OF c] by (auto simp: a_def b_def hd_append)
  have "x + 8 \<noteq> a + 8" "x + 12 \<noteq> a + 8" using oka okx okaddr_links [of a x] by auto
  then have s1: "s' = (if wd s (x + 8) \<noteq> of_nat x
      then wr (wd s (x + 8) + 12) (wd s (x + 12)) (wr (wd s (x + 12) + 8) (wd s (x + 8)) s) else s)"
    using s' okx f oka by simp
  note u = unlink_words [OF c okc s1]
  have "circ (wd s') (c # us @ vs)" using circ_rotate [OF u(1)] by simp
  moreover have wr: "writes (links (set (vs @ c # us))) s s'" by (rule u(2))
  moreover have "wd s' (y + k) = wd s (y + k)" if "y \<in> set (c # us @ vs)" "k \<in> {4, 16, 20, 24}" for y k
  proof -
    have "y + k \<notin> links (set (vs @ c # us))"
    proof
      assume "y + k \<in> links (set (vs @ c # us))"
      then obtain z j where z: "z \<in> set (vs @ c # us)" "y + k = z + j" "j = 8 \<or> j = 12" unfolding links_def by blast
      have "y \<noteq> z" using z(2,3) that(2) by auto
      then show False using apart_fields [OF ok, of y z k j] z that by auto
    qed
    then show ?thesis using wr by (simp add: writes_def)
  qed
  then have "csize (wd s') y = csize (wd s) y" "wd s' (y + 16) = wd s (y + 16)" "wd s' (y + 20) = wd s (y + 20)"
    "wd s' (y + 24) = wd s (y + 24)" if "y \<in> set (c # us @ vs)" for y using that by (auto simp: csize_def)
  ultimately show "node_at (wd s') p c n (us @ vs) l r" using n by (auto simp: node_at_def)
  have "links (set (vs @ c # us)) \<subseteq> touch (set (c # us @ vs))" using links_touch [of "set (vs @ c # us)"] by (simp add: Un_ac insert_commute)
  then show "writes (touch (set (c # us @ vs))) s s'" using wr writes_mono by blast
qed

end
