(* ===== verification/KTreeRemove.thy ===== *)
theory KTreeRemove
  imports KTreeOps
begin

text \<open>Removal of a chunk from a tree: every case of \<open>kmalloc_tree_remove\<close> (kmalloc_tree.c).\<close>

lemma touch_Un: "touch A \<union> touch B = touch (A \<union> B)"
  by (auto simp: touch_def)

lemma tptr_plug: "K \<noteq> [] \<Longrightarrow> \<exists>q \<in> set (frame_chunks K). \<forall>t. tptr (plug K t) = of_nat q"
proof (induction K)
  case (Cons F K)
  show ?case
  proof (cases "K = []")
    case True
    then show ?thesis by (cases F) auto
  next
    case False
    then show ?thesis using Cons.IH by (cases F) auto
  qed
qed simp

lemma root_iff:
  assumes "apart (chunks (plug K (Nd c n xs l r)))" "x \<in> set (c # xs)"
  shows "tptr (plug K (Nd c n xs l r)) = of_nat x \<longleftrightarrow> K = [] \<and> x = c"
proof (cases "K = []")
  case True
  then show ?thesis using assms by (auto simp: apart_def chunks_ok_def)
next
  case False
  then obtain q where q: "q \<in> set (frame_chunks K)" "\<forall>t. tptr (plug K t) = of_nat q" using tptr_plug by blast
  have ok: "apart (frame_chunks K @ c # xs @ chunks l @ chunks r)" using assms(1) by (simp add: apart_plug)
  then have "q \<noteq> x" "okaddr q" "okaddr x" using q(1) assms(2) by (auto simp: apart_def chunks_ok_def)
  then show ?thesis using False q(2) by auto
qed

lemma in_list_iff:
  assumes n: "node_at (wd s) p c n xs l r" and ok: "apart (c # xs)" and x: "x \<in> set (c # xs)"
  shows "ktchunk_is_in_list (of_nat x) s \<longleftrightarrow> xs \<noteq> []"
proof -
  obtain us vs where uv: "c # xs = us @ x # vs" using x by (meson split_list)
  have "circ (wd s) (us @ x # vs)" using n uv by (simp add: node_at_def)
  then have c: "circ (wd s) (x # vs @ us)" using circ_rotate [of _ us "x # vs"] by simp
  have l: "length xs = length (vs @ us)" using arg_cong [OF uv, of length] by simp
  have oks: "apart (us @ x # vs)" using ok uv by simp
  have okx: "okaddr x" using oks by (auto dest: apart_okaddr)
  show ?thesis
  proof (cases "vs @ us = []")
    case True
    then show ?thesis using circ_ends [OF c] okx l by (simp add: ktchunk_is_in_list_def)
  next
    case False
    then have m: "hd (vs @ us) \<in> set (vs @ us)" "last (vs @ us) \<in> set (vs @ us)"
      using hd_in_set last_in_set by blast+
    then have "hd (vs @ us) \<noteq> x" "last (vs @ us) \<noteq> x" "okaddr (hd (vs @ us))" "okaddr (last (vs @ us))"
      using oks by (auto simp: apart_def chunks_ok_def)
    moreover have "hd ((vs @ us) @ [x]) = hd (vs @ us)" "last (x # vs @ us) = last (vs @ us)"
      using False by (cases "vs @ us"; auto)+
    moreover have "xs \<noteq> []" using False l by auto
    ultimately show ?thesis using circ_ends [OF c] okx by (simp add: ktchunk_is_in_list_def)
  qed
qed

definition removed :: "tree \<Rightarrow> nat \<Rightarrow> nat \<Rightarrow> 'a kmstate_scheme \<Rightarrow> tree \<Rightarrow> 'a kmstate_scheme \<Rightarrow> bool" where
  "removed T x n s T' s' \<longleftrightarrow> tree_at (wd s') NULL T' \<and> mset (pairs T) = add_mset (x, n) (mset (pairs T'))
     \<and> writes (touch (set (chunks T))) s s' \<and> (\<forall>d. trie d T \<longrightarrow> trie d T')"

text \<open>The facts every case starts from.\<close>

lemma plug_nodeD:
  assumes "tree_at (wd s) NULL (plug K (Nd c n xs l r))" "apart (chunks (plug K (Nd c n xs l r)))"
  shows "ctx_at (wd s) K (of_nat c)" "node_at (wd s) (frame_ptr K) c n xs (tptr l) (tptr r)"
    "tree_at (wd s) (of_nat c) l" "tree_at (wd s) (of_nat c) r"
    "apart (frame_chunks K @ c # xs @ chunks l @ chunks r)" "distinct (frame_chunks K @ c # xs @ chunks l @ chunks r)"
    "okaddr c" "wd s (c + 24) = frame_ptr K" "frame_ptr K = NULL \<longleftrightarrow> K = []"
proof -
  show "ctx_at (wd s) K (of_nat c)" "tree_at (wd s) (of_nat c) l" "tree_at (wd s) (of_nat c) r"
    using assms(1) by (simp_all add: plug_at)
  show n: "node_at (wd s) (frame_ptr K) c n xs (tptr l) (tptr r)" using assms(1) by (simp add: plug_at)
  show ok: "apart (frame_chunks K @ c # xs @ chunks l @ chunks r)" using assms(2) by (simp add: apart_plug)
  then show "distinct (frame_chunks K @ c # xs @ chunks l @ chunks r)" "okaddr c"
    by (auto simp: apart_def chunks_ok_def)
  show "wd s (c + 24) = frame_ptr K" using n by (simp add: node_at_def)
  have "apart (frame_chunks K)" using ok by (rule apart_subset) (use ok in \<open>auto simp: apart_def chunks_ok_def\<close>)
  then show "frame_ptr K = NULL \<longleftrightarrow> K = []" by (rule frame_ptr_Nil)
qed

lemma remove_head:
  assumes t: "tree_at (wd s) NULL (plug K (Nd c n (d # xs) l r))" and ok: "apart (chunks (plug K (Nd c n (d # xs) l r)))"
  shows "\<exists>s'. kmalloc_tree_remove (of_nat c) (tptr (plug K (Nd c n (d # xs) l r))) s = Some (tptr (plug K (Nd d n xs l r)), s')
    \<and> removed (plug K (Nd c n (d # xs) l r)) c n s (plug K (Nd d n xs l r)) s'"
proof -
  note p = plug_nodeD [OF t ok]
  have ok1: "apart (c # d # xs @ chunks l @ chunks r)" "apart (c # frame_chunks K)" "apart (c # d # xs)"
    using p(5) by (rule apart_subset; use p(6) in auto)+
  have okd: "okaddr d" using ok1(3) by (auto dest: apart_okaddr)
  define s1 where "s1 = ktchunk_replace_head (of_nat c) (of_nat d) s"
  note h = replace_head [OF p(2-4) ok1(1) s1_def]
  have g1: "agree (wd s) (wd s1) (insert c (set (frame_chunks K)))"
    using h(2) p(5) by (rule writes_agree) (use p(6) in auto)
  have up: "wd s1 (c + 24) = frame_ptr K" using g1 p(8) by (simp add: agree1_def)
  have ctx: "ctx_at (wd s1) K (of_nat c)" using g1 p(1) ctx_frame [of "wd s" "wd s1" K] by simp
  define s2 where "s2 = (if K = [] then s1 else ktchunk_update_parent (of_nat c) (of_nat d) s1)"
  note u = replace_hole [OF ctx up ok1(2) s2_def]
  have g2: "agree (wd s1) (wd s2) (set (d # xs) \<union> set (chunks l) \<union> set (chunks r))"
    using u(2) p(5) by (rule writes_agree) (use p(6) in auto)
  then have "tree_at (wd s2) (frame_ptr K) (Nd d n xs l r)"
    using h(1) tree_frame [of "wd s1" "wd s2" "Nd d n xs l r"] by (simp add: image_Un)
  then have at: "tree_at (wd s2) NULL (plug K (Nd d n xs l r))" using u(1) by (simp add: plug_at)
  have list: "ktchunk_is_in_list (of_nat c) s" using in_list_iff [OF p(2) ok1(3)] by simp
  have nx: "wd s (c + 8) = of_nat d" using p(2) circ_ends(2) [of "wd s" c "d # xs"] by (simp add: node_at_def)
  have root: "tptr (plug K (Nd c n (d # xs) l r)) = of_nat c \<longleftrightarrow> K = []" using root_iff [OF ok] by simp
  have tr: "K \<noteq> [] \<Longrightarrow> ktchunk_is_in_tree (of_nat c) s" using p(7-9) by (simp add: ktchunk_is_in_tree_def)
  have tp: "K \<noteq> [] \<Longrightarrow> tptr (plug K (Nd c n (d # xs) l r)) = tptr (plug K (Nd d n xs l r))" using tptr_plug by metis
  have "kmalloc_tree_remove (of_nat c) (tptr (plug K (Nd c n (d # xs) l r))) s = Some (tptr (plug K (Nd d n xs l r)), s2)"
    using p(7) list root tr tp nx
    by (cases "K = []") (simp_all add: kmalloc_tree_remove_def remove_from_list_def Let_def s2_def s1_def)
  moreover have "removed (plug K (Nd c n (d # xs) l r)) c n s (plug K (Nd d n xs l r)) s2"
  proof -
    have "writes (touch (set (chunks (plug K (Nd c n (d # xs) l r))))) s s2"
      using writes_trans [OF h(2) u(2)] unfolding touch_Un
      by (rule writes_mono) (rule touch_mono, auto simp: set_plug image_Un image_image)
    moreover have "trie e (plug K (Nd c n (d # xs) l r)) \<Longrightarrow> trie e (plug K (Nd d n xs l r))" for e
      by (rule trie_plug_mono) (auto intro: trie_same)
    ultimately show ?thesis using at by (simp add: removed_def mset_plug)
  qed
  ultimately show ?thesis by blast
qed

lemma remove_member:
  assumes t: "tree_at (wd s) NULL (plug K (Nd c n (us @ x # vs) l r))" and ok: "apart (chunks (plug K (Nd c n (us @ x # vs) l r)))"
  shows "\<exists>s'. kmalloc_tree_remove (of_nat x) (tptr (plug K (Nd c n (us @ x # vs) l r))) s = Some (tptr (plug K (Nd c n (us @ vs) l r)), s')
    \<and> removed (plug K (Nd c n (us @ x # vs) l r)) x n s (plug K (Nd c n (us @ vs) l r)) s'"
proof -
  note p = plug_nodeD [OF t ok]
  have ok1: "apart (c # us @ x # vs)" using p(5) by (rule apart_subset) (use p(6) in auto)
  have okx: "okaddr x" using ok1 by (auto dest: apart_okaddr)
  define s1 where "s1 = set_prev (next_chunk (of_nat x) (set_next (prev_chunk (of_nat x) s) (next_chunk (of_nat x) s) s))
       (prev_chunk (of_nat x) (set_next (prev_chunk (of_nat x) s) (next_chunk (of_nat x) s) s))
       (set_next (prev_chunk (of_nat x) s) (next_chunk (of_nat x) s) s)"
  note u = node_unlink [OF p(2) ok1 s1_def]
  have g: "agree (wd s) (wd s1) (set (frame_chunks K) \<union> set (chunks l) \<union> set (chunks r))"
    using u(2) p(5) by (rule writes_agree) (use p(6) in auto)
  have at: "tree_at (wd s1) NULL (plug K (Nd c n (us @ vs) l r))"
    using p(1,3,4) u(1) g ctx_frame [of "wd s" "wd s1" K] tree_frame [of "wd s" "wd s1"] by (simp add: plug_at)
  have list: "ktchunk_is_in_list (of_nat x) s" using in_list_iff [OF p(2) ok1] by simp
  have nt: "\<not> ktchunk_is_in_tree (of_nat x) s" using p(2) okx by (simp add: ktchunk_is_in_tree_def node_at_def)
  have "x \<noteq> c" using p(6) by auto
  then have root: "tptr (plug K (Nd c n (us @ x # vs) l r)) \<noteq> of_nat x" using root_iff [OF ok, of x] by simp
  have tp: "tptr (plug K (Nd c n (us @ x # vs) l r)) = tptr (plug K (Nd c n (us @ vs) l r))"
    by (cases "K = []") (use tptr_plug in auto, metis tptr_plug)
  have "kmalloc_tree_remove (of_nat x) (tptr (plug K (Nd c n (us @ x # vs) l r))) s = Some (tptr (plug K (Nd c n (us @ vs) l r)), s1)"
    using okx list root nt tp by (simp add: kmalloc_tree_remove_def remove_from_list_def Let_def s1_def)
  moreover have "removed (plug K (Nd c n (us @ x # vs) l r)) x n s (plug K (Nd c n (us @ vs) l r)) s1"
  proof -
    have "writes (touch (set (chunks (plug K (Nd c n (us @ x # vs) l r))))) s s1"
      using u(2) by (rule writes_mono) (rule touch_mono, auto simp: set_plug image_Un image_image)
    moreover have "trie e (plug K (Nd c n (us @ x # vs) l r)) \<Longrightarrow> trie e (plug K (Nd c n (us @ vs) l r))" for e
      by (rule trie_plug_mono) (auto intro: trie_same)
    ultimately show ?thesis using at by (simp add: removed_def mset_plug)
  qed
  ultimately show ?thesis by blast
qed

lemma remove_leaf:
  assumes t: "tree_at (wd s) NULL (plug K (Nd c n [] Tip Tip))" and ok: "apart (chunks (plug K (Nd c n [] Tip Tip)))"
  shows "\<exists>s'. kmalloc_tree_remove (of_nat c) (tptr (plug K (Nd c n [] Tip Tip))) s = Some (tptr (plug K Tip), s')
    \<and> removed (plug K (Nd c n [] Tip Tip)) c n s (plug K Tip) s'"
proof -
  note p = plug_nodeD [OF t ok]
  have ok1: "apart [c]" "apart (chunks (Nd c n [] Tip Tip))" using p(5) by (rule apart_subset; simp)+
  define s1 where "s1 = (if K = [] then s else ktchunk_update_parent (of_nat c) NULL s)"
  note u = cut_leaf [OF t ok s1_def]
  have list: "\<not> ktchunk_is_in_list (of_nat c) s" using in_list_iff [OF p(2) ok1(1)] by simp
  have lv: "ktchunk_is_leave (of_nat c) s" using leave_iff [OF p(2) ok1(2)] by simp
  have tp: "K \<noteq> [] \<Longrightarrow> tptr (plug K (Nd c n [] Tip Tip)) = tptr (plug K Tip)" using tptr_plug by metis
  have "kmalloc_tree_remove (of_nat c) (tptr (plug K (Nd c n [] Tip Tip))) s = Some (tptr (plug K Tip), s1)"
    using p(7-9) list lv tp by (cases "K = []") (simp_all add: kmalloc_tree_remove_def s1_def)
  moreover have "removed (plug K (Nd c n [] Tip Tip)) c n s (plug K Tip) s1"
  proof -
    have "writes (touch (set (chunks (plug K (Nd c n [] Tip Tip))))) s s1"
      using u(2) by (rule writes_mono) (rule touch_mono, auto simp: set_plug)
    moreover have "trie e (plug K (Nd c n [] Tip Tip)) \<Longrightarrow> trie e (plug K Tip)" for e
      by (rule trie_plug_mono) auto
    ultimately show ?thesis using u(1) by (simp add: removed_def mset_plug)
  qed
  ultimately show ?thesis by blast
qed

text \<open>A node without a circle but with a child is replaced by the leftmost leaf below it.\<close>

lemma plug_root:
  "\<lbrakk>J \<noteq> []; plug J t = Nd c n xs l r\<rbrakk> \<Longrightarrow> \<exists>l' r'. plug J t' = Nd c n xs l' r'"
proof (induction J arbitrary: t t')
  case (Cons F J)
  show ?case
  proof (cases "J = []")
    case True
    then show ?thesis using Cons.prems by (cases F) auto
  next
    case False
    then show ?thesis using Cons.IH Cons.prems(2) by (cases F) auto
  qed
qed simp

lemma remove_inner:
  assumes t: "tree_at (wd s) NULL (plug K (Nd c n [] l r))" and ok: "apart (chunks (plug K (Nd c n [] l r)))"
    and inner: "l \<noteq> Tip \<or> r \<noteq> Tip"
  shows "\<exists>T' s'. kmalloc_tree_remove (of_nat c) (tptr (plug K (Nd c n [] l r))) s = Some (tptr T', s')
    \<and> removed (plug K (Nd c n [] l r)) c n s T' s'"
proof -
  note p = plug_nodeD [OF t ok]
  have okn: "apart (chunks (Nd c n [] l r))" using p(5) by (rule apart_subset) (use p(6) in auto)
  have tn: "tree_at (wd s) (frame_ptr K) (Nd c n [] l r)" using t by (simp add: plug_at)
  obtain J d m ys where J: "Nd c n [] l r = plug J (Nd d m ys Tip Tip)" "leftmost_leaf (of_nat c) s = Some (of_nat d)"
    using leftmost_leaf_context [OF tn okn] by auto
  have Jne: "J \<noteq> []" using J(1) inner by auto
  obtain l1 r1 where l1: "plug J Tip = Nd c n [] l1 r1" using plug_root [OF Jne J(1) [symmetric]] by blast
  have T: "plug K (Nd c n [] l r) = plug (J @ K) (Nd d m ys Tip Tip)" and T1: "plug (J @ K) Tip = plug K (Nd c n [] l1 r1)"
    by (simp_all add: plug_append J(1) l1)
  have pr: "mset (pairs (Nd c n [] l r)) = mset (pairs (Nd d m ys l1 r1)) + {#(c, n)#}"
    using mset_plug [of J Tip] mset_plug [of J "Nd d m ys Tip Tip"] by (simp add: J(1) l1)
  define s1 where "s1 = (if J @ K = [] then s else ktchunk_update_parent (of_nat d) NULL s)"
  have s1': "s1 = ktchunk_update_parent (of_nat d) NULL s" using Jne by (simp add: s1_def)
  note cut = cut_leaf [OF t [unfolded T] ok [unfolded T] s1_def, unfolded T1]
  have prs: "mset (chunks (Nd c n [] l r)) = mset (c # d # ys @ chunks l1 @ chunks r1)"
    using arg_cong [OF pr, of "image_mset fst"] by (simp add: image_mset.compositionality comp_def)
  have okall: "apart (c # d # ys @ chunks l1 @ chunks r1 @ frame_chunks K)"
    using p(5) prs by (subst apart_mset [of _ "frame_chunks K @ c # chunks l @ chunks r"]) auto
  then have dj: "distinct (c # d # ys @ chunks l1 @ chunks r1 @ frame_chunks K)" by (simp add: apart_def chunks_ok_def)
  have ok1: "apart (chunks (plug K (Nd c n [] l1 r1)))"
    unfolding apart_plug using okall by (rule apart_subset) (use dj in auto)
  note p1 = plug_nodeD [OF cut(1) ok1]
  have nd: "node_at (wd s) (frame_ptr (J @ K)) d m ys NULL NULL" using t unfolding T by (simp add: plug_at)
  then have nd1: "node_at (wd s1) (frame_ptr (J @ K)) d m ys NULL NULL" using cut(3) node_frame [of "wd s" "wd s1" d ys] by auto
  define sp where "sp = (let s = set_left (of_nat d) (left_chunk (of_nat c) s1) s1;
                       s = adopt (left_chunk (of_nat d) s) (of_nat d) s;
                       s = set_right (of_nat d) (right_chunk (of_nat c) s) s;
                       s = adopt (right_chunk (of_nat d) s) (of_nat d) s
                   in set_parent (of_nat d) (parent_chunk (of_nat c) s) s)"
  define s' where "s' = (if K \<noteq> [] then ktchunk_update_parent (of_nat c) (of_nat d) sp else sp)"
  note rep = replace_node [OF p1(1-4) nd1 okall sp_def s'_def]
  have root: "tptr (plug K (Nd c n [] l r)) = (if K = [] then of_nat c else tptr (plug K (Nd d m ys l1 r1)))"
    using tptr_plug by (cases "K = []") (auto, metis tptr_plug)
  have list: "\<not> ktchunk_is_in_list (of_nat c) s" using in_list_iff [OF p(2)] okn p(7) by (simp add: apart_def chunks_ok_def)
  have lv: "\<not> ktchunk_is_leave (of_nat c) s" using leave_iff [OF p(2) okn] inner by simp
  have rb: "replace_by_leaf (of_nat c) (of_nat d) (tptr (plug K (Nd c n [] l r))) s = (tptr (plug K (Nd d m ys l1 r1)), s')"
  proof -
    have "replace_by_leaf (of_nat c) (of_nat d) root s = (if parent_chunk (of_nat d) sp \<noteq> NULL
        then (root, ktchunk_update_parent (of_nat c) (of_nat d) sp) else (of_nat d, sp))" for root
      by (simp only: replace_by_leaf_def adopt_def sp_def s1' Let_def)
    then show ?thesis using p(9) rep(3) root by (simp add: s'_def)
  qed
  have "kmalloc_tree_remove (of_nat c) (tptr (plug K (Nd c n [] l r))) s = Some (tptr (plug K (Nd d m ys l1 r1)), s')"
    using p(7) list lv J(2) rb by (simp add: kmalloc_tree_remove_def)
  moreover have "removed (plug K (Nd c n [] l r)) c n s (plug K (Nd d m ys l1 r1)) s'"
  proof -
    have ms: "mset (pairs (plug K (Nd c n [] l r))) = add_mset (c, n) (mset (pairs (plug K (Nd d m ys l1 r1))))"
      using pr by (simp add: mset_plug)
    have sub: "set (chunks (plug K (Nd c n [] l r))) = insert c (set (chunks (plug K (Nd d m ys l1 r1))))"
      using arg_cong [OF ms, of "\<lambda>M. fst ` set_mset M"] by simp
    have "writes (touch (set (chunks (plug K (Nd c n [] l r))))) s s'"
    proof (rule writes_mono [OF writes_trans [OF cut(2) rep(2)]])
      have "set (frame_chunks (J @ K)) \<subseteq> set (chunks (plug K (Nd c n [] l r)))"
        unfolding T by (auto simp: set_plug)
      moreover have "insert d (set (chunks l1) \<union> set (chunks r1) \<union> set (frame_chunks K)) \<subseteq> set (chunks (plug K (Nd c n [] l r)))"
        unfolding sub by (auto simp: set_plug)
      ultimately show "touch (set (frame_chunks (J @ K))) \<union> touch (insert d (set (chunks l1) \<union> set (chunks r1) \<union> set (frame_chunks K)))
          \<subseteq> touch (set (chunks (plug K (Nd c n [] l r))))"
        unfolding touch_Un by (intro touch_mono) blast
    qed
    moreover have "trie e (plug K (Nd d m ys l1 r1))" if "trie e (plug K (Nd c n [] l r))" for e
      using _ _ _ that
    proof (rule trie_plug_mono)
      show "trie i (Nd d m ys l1 r1)" if "trie i (Nd c n [] l r)" for i
        using trie_same trie_plug_mono [of "Nd d m ys Tip Tip" Tip i J] that by (simp add: J(1) l1)
      show "sizes (Nd d m ys l1 r1) \<subseteq> sizes (Nd c n [] l r)"
        unfolding sizes_pairs using arg_cong [OF pr, of "\<lambda>M. snd ` set_mset M"] by auto
    qed simp
    ultimately show ?thesis using rep(1) ms by (simp add: removed_def)
  qed
  ultimately show ?thesis by blast
qed

section \<open>Every chunk of a tree can be removed\<close>

lemma pairs_context:
  "(x, n) \<in> set (pairs t) \<Longrightarrow> \<exists>K c xs l r. t = plug K (Nd c n xs l r) \<and> x \<in> set (c # xs)"
proof (induction t)
  case (Nd c m xs l r)
  then consider "n = m" "x \<in> set (c # xs)" | "(x, n) \<in> set (pairs l)" | "(x, n) \<in> set (pairs r)" by auto
  then show ?case
  proof cases
    case 1
    then show ?thesis by (intro exI [of _ "[]"]) auto
  next
    case 2
    then obtain K c' xs' l' r' where "l = plug K (Nd c' n xs' l' r')" "x \<in> set (c' # xs')" using Nd.IH(1) by blast
    then show ?thesis by (intro exI [of _ "K @ [InLeft c m xs r]"]) (auto simp: plug_append)
  next
    case 3
    then obtain K c' xs' l' r' where "r = plug K (Nd c' n xs' l' r')" "x \<in> set (c' # xs')" using Nd.IH(2) by blast
    then show ?thesis by (intro exI [of _ "K @ [InRight c m xs l]"]) (auto simp: plug_append)
  qed
qed simp

lemma tree_remove:
  assumes t: "tree_at (wd s) NULL T" and ok: "apart (chunks T)" and x: "(x, n) \<in> set (pairs T)"
  obtains T' s' where "kmalloc_tree_remove (of_nat x) (tptr T) s = Some (tptr T', s')" "removed T x n s T' s'"
proof -
  obtain K c xs l r where T: "T = plug K (Nd c n xs l r)" and m: "x \<in> set (c # xs)" using pairs_context [OF x] by blast
  have "\<exists>T' s'. kmalloc_tree_remove (of_nat x) (tptr T) s = Some (tptr T', s') \<and> removed T x n s T' s'"
  proof (cases "x = c")
    case True
    consider d ys where "xs = d # ys" | "xs = []" "l = Tip" "r = Tip" | "xs = []" "l \<noteq> Tip \<or> r \<noteq> Tip" by (cases xs) auto
    then show ?thesis
    proof cases
      case (1 d ys)
      then show ?thesis using remove_head [of s K c n d ys l r] t ok T True by blast
    next
      case 2
      then show ?thesis using remove_leaf [of s K c n] t ok T True by blast
    next
      case 3
      then show ?thesis using remove_inner [of s K c n l r] t ok T True by blast
    qed
  next
    case False
    then obtain us vs where "xs = us @ x # vs" using m by (auto dest: split_list)
    then show ?thesis using remove_member [of s K c n us x vs l r] t ok T by blast
  qed
  with that show ?thesis by blast
qed

end
