(* ===== verification/KTreeSearch.thy ===== *)
theory KTreeSearch
  imports KTreeRemove
begin

text \<open>
  Insertion of a chunk into a tree (\<open>kmalloc_tree_insert\<close> in kmalloc_tree.c): the sizes of a tree of depth
  \<open>d\<close> agree on the bits from \<open>d\<close> up (\<open>same_top\<close>), so that the descent always ends at a place for the chunk.
\<close>

section \<open>Sizes with the same upper bits\<close>

definition same_top :: "nat \<Rightarrow> nat \<Rightarrow> tree \<Rightarrow> bool" where
  "same_top d n t \<longleftrightarrow> n < 4294967296 \<and> (\<forall>m \<in> sizes t. m < 4294967296 \<and> drop_bit d m = drop_bit d n)"

lemma drop_bit_Suc_bit: "drop_bit e (m :: nat) = 2 * drop_bit (Suc e) m + (if bit m e then 1 else 0)"
proof -
  have "drop_bit e m = 2 * (drop_bit e m div 2) + drop_bit e m mod 2" by simp
  moreover have "drop_bit e m div 2 = drop_bit (Suc e) m" by (simp only: drop_bit_eq_div power_Suc2 div_mult2_eq)
  moreover have "drop_bit e m mod 2 = (if bit m e then 1 else 0)"
    by (simp add: bit_iff_odd drop_bit_eq_div odd_iff_mod_2_eq_one even_iff_mod_2_eq_zero)
  ultimately show ?thesis by simp
qed

lemma same_top_child:
  assumes "drop_bit (Suc e) m = drop_bit (Suc e) (n :: nat)" "bit m e = bit n e"
  shows "drop_bit e m = drop_bit e n"
  using assms drop_bit_Suc_bit [of e m] drop_bit_Suc_bit [of e n] by simp

lemma less_by_bit:
  assumes "drop_bit (Suc e) a = drop_bit (Suc e) (b :: nat)" "\<not> bit a e" "bit b e"
  shows "a < b"
proof -
  have "drop_bit e a < drop_bit e b" using assms drop_bit_Suc_bit [of e a] drop_bit_Suc_bit [of e b] by simp
  then show ?thesis unfolding drop_bit_eq_div by (meson div_le_mono leD leI)
qed

lemma bit_of_size: "n < 4294967296 \<Longrightarrow> (of_nat n :: u32) AND push_bit e 1 \<noteq> 0 \<longleftrightarrow> bit n e"
proof -
  assume "n < 4294967296"
  then have "unat (of_nat n :: u32) = n" by (simp add: unat_of_nat)
  then have "bit n e = bit (of_nat n :: u32) e" by (metis bit_unsigned_iff possible_bit_nat)
  then show ?thesis by (simp add: and_exp_eq_0_iff_not_bit)
qed

lemma of_nat_size: "\<lbrakk>m < 4294967296; n < 4294967296\<rbrakk> \<Longrightarrow> (of_nat m :: u32) = of_nat n \<longleftrightarrow> m = n"
proof -
  assume "m < 4294967296" "n < 4294967296"
  then have "unat (of_nat m :: u32) = m" "unat (of_nat n :: u32) = n" by (simp_all add: unat_of_nat)
  then show ?thesis by metis
qed

lemma same_topD: "same_top d n (Nd c m xs l r) \<Longrightarrow> m < 4294967296 \<and> n < 4294967296 \<and> drop_bit d m = drop_bit d n"
  by (simp add: same_top_def)

lemma same_top_kids:
  assumes "same_top (Suc e) n (Nd c m xs l r)" "trie (Suc e) (Nd c m xs l r)"
  shows "bit n e \<Longrightarrow> same_top e n r" "\<not> bit n e \<Longrightarrow> same_top e n l"
  using assms by (auto simp: same_top_def intro: same_top_child)

lemma trie_leaf [simp]: "trie d (Nd c n xs Tip Tip)"
  by (cases d) auto

lemma sizes_plug: "sizes (plug K t) = snd ` set (frame_pairs K) \<union> sizes t"
  unfolding sizes_pairs by (simp add: set_plug image_Un)

section \<open>Insertion\<close>

text \<open>The facts of a node used by every descent.\<close>

lemma nodeD:
  assumes "tree_at (wd s) p (Nd c n xs l r)" "apart (chunks (Nd c n xs l r))"
  shows "node_at (wd s) p c n xs (tptr l) (tptr r)" "tree_at (wd s) (of_nat c) l" "tree_at (wd s) (of_nat c) r"
    "apart (chunks l)" "apart (chunks r)" "okaddr c" "wd s (c + 16) = tptr l" "wd s (c + 20) = tptr r"
    "csize (wd s) c = of_nat n" "tptr l = NULL \<longleftrightarrow> l = Tip" "tptr r = NULL \<longleftrightarrow> r = Tip" "wd s (c + 24) = p"
proof -
  show "node_at (wd s) p c n xs (tptr l) (tptr r)" "tree_at (wd s) (of_nat c) l" "tree_at (wd s) (of_nat c) r"
    using assms(1) by simp_all
  then show "wd s (c + 16) = tptr l" "wd s (c + 20) = tptr r" "csize (wd s) c = of_nat n" "wd s (c + 24) = p"
    by (simp_all add: node_at_def)
  show "okaddr c" and ok: "apart (chunks l)" "apart (chunks r)"
    using assms(2) by (auto intro: apart_subset simp: apart_def chunks_ok_def)
  show "tptr l = NULL \<longleftrightarrow> l = Tip" "tptr r = NULL \<longleftrightarrow> r = Tip"
    using ok by (intro tptr_NULL; simp add: apart_def chunks_ok_def)+
qed

definition hole :: "bool \<Rightarrow> nat \<Rightarrow> frame \<Rightarrow> bool" where
  "hole b c F \<longleftrightarrow> (case F of InLeft c' n xs r \<Rightarrow> \<not> b \<and> c' = c | InRight c' n xs l \<Rightarrow> b \<and> c' = c)"

lemma hole_simps [simp]: "hole b c (InLeft c' n xs r) \<longleftrightarrow> \<not> b \<and> c' = c" "hole b c (InRight c' n xs r) \<longleftrightarrow> b \<and> c' = c"
  by (simp_all add: hole_def)

lemma find_slot_context:
  "\<lbrakk>tree_at (wd s) p t; apart (chunks t); t \<noteq> Tip; trie d t; same_top d n t\<rbrakk> \<Longrightarrow>
   (\<exists>K c xs l r. t = plug K (Nd c n xs l r) \<and> find_slot d (of_nat n) (tptr t) s = Some (Same (of_nat c))) \<or>
   (\<exists>b c F K. t = plug (F # K) Tip \<and> hole b c F \<and> find_slot d (of_nat n) (tptr t) s = Some (Child (of_nat c) b)
      \<and> (\<forall>x. trie d (plug (F # K) (Nd x n [] Tip Tip))))"
proof (induction t arbitrary: d p)
  case (Nd c m xs l r)
  note D = nodeD [OF Nd.prems(1,2)]
  have mn: "m < 4294967296" "n < 4294967296" "drop_bit d m = drop_bit d n" using Nd.prems(5) by (auto dest: same_topD)
  show ?case
  proof (cases "m = n")
    case True
    have "find_slot d (of_nat n) (of_nat c) s = Some (Same (of_nat c))" using D True by (cases d) simp_all
    then show ?thesis using True by (intro disjI1 exI [of _ "[]"]) auto
  next
    case False
    then obtain e where d: "d = Suc e" using mn(3) by (cases d) auto
    have ne: "(of_nat n :: u32) \<noteq> of_nat m" using False mn by (simp add: of_nat_size)
    note kids = same_top_kids [OF Nd.prems(5) [unfolded d] Nd.prems(4) [unfolded d]]
    have tr: "trie e l" "trie e r" "\<forall>k \<in> sizes l. \<not> bit k e" "\<forall>k \<in> sizes r. bit k e" using Nd.prems(4) by (simp_all add: d)
    show ?thesis
    proof (cases "bit n e")
      case True
      have st: "find_slot d (of_nat n) (of_nat c) s = (if r = Tip then Some (Child (of_nat c) True) else find_slot e (of_nat n) (tptr r) s)"
        using D ne True bit_of_size [OF mn(2), of e] by (simp add: d Let_def)
      show ?thesis
      proof (cases "r = Tip")
        case True
        then show ?thesis using st tr \<open>bit n e\<close>
          by (intro disjI2 exI [of _ True] exI [of _ c] exI [of _ "InRight c m xs l"] exI [of _ "[]"]) (simp add: d)
      next
        case False
        from Nd.IH(2) [OF D(3,5) False tr(2) kids(1) [OF True]] show ?thesis
        proof (elim disjE exE conjE)
          fix K c' xs' l' r' assume "r = plug K (Nd c' n xs' l' r')" "find_slot e (of_nat n) (tptr r) s = Some (Same (of_nat c'))"
          then show ?thesis using st False by (intro disjI1 exI [of _ "K @ [InRight c m xs l]"]) (auto simp: plug_append)
        next
          fix b c' F K assume h: "r = plug (F # K) Tip" "hole b c' F" "find_slot e (of_nat n) (tptr r) s = Some (Child (of_nat c') b)"
            "\<forall>x. trie e (plug (F # K) (Nd x n [] Tip Tip))"
          have "sizes (plug (F # K) (Nd x n [] Tip Tip)) = insert n (sizes r)" for x
            using sizes_plug [of "F # K"] h(1) by auto
          then have "trie d (plug (F # K @ [InRight c m xs l]) (Nd x n [] Tip Tip))" for x
            using plug_append [of "F # K" "[InRight c m xs l]"] h(4) tr True by (simp add: d)
          moreover have "plug (F # K @ [InRight c m xs l]) Tip = Nd c m xs l r"
            using plug_append [of "F # K" "[InRight c m xs l]"] h(1) by simp
          ultimately show ?thesis using st False h(2,3)
            by (intro disjI2 exI [of _ b] exI [of _ c'] exI [of _ F] exI [of _ "K @ [InRight c m xs l]"]) simp
        qed
      qed
    next
      case nb: False
      have st: "find_slot d (of_nat n) (of_nat c) s = (if l = Tip then Some (Child (of_nat c) False) else find_slot e (of_nat n) (tptr l) s)"
        using D ne nb bit_of_size [OF mn(2), of e] by (simp add: d Let_def)
      show ?thesis
      proof (cases "l = Tip")
        case True
        then show ?thesis using st tr nb
          by (intro disjI2 exI [of _ False] exI [of _ c] exI [of _ "InLeft c m xs r"] exI [of _ "[]"]) (simp add: d)
      next
        case False
        from Nd.IH(1) [OF D(2,4) False tr(1) kids(2) [OF nb]] show ?thesis
        proof (elim disjE exE conjE)
          fix K c' xs' l' r' assume "l = plug K (Nd c' n xs' l' r')" "find_slot e (of_nat n) (tptr l) s = Some (Same (of_nat c'))"
          then show ?thesis using st False by (intro disjI1 exI [of _ "K @ [InLeft c m xs r]"]) (auto simp: plug_append)
        next
          fix b c' F K assume h: "l = plug (F # K) Tip" "hole b c' F" "find_slot e (of_nat n) (tptr l) s = Some (Child (of_nat c') b)"
            "\<forall>x. trie e (plug (F # K) (Nd x n [] Tip Tip))"
          have "sizes (plug (F # K) (Nd x n [] Tip Tip)) = insert n (sizes l)" for x
            using sizes_plug [of "F # K"] h(1) by auto
          then have "trie d (plug (F # K @ [InLeft c m xs r]) (Nd x n [] Tip Tip))" for x
            using plug_append [of "F # K" "[InLeft c m xs r]"] h(4) tr nb by (simp add: d)
          moreover have "plug (F # K @ [InLeft c m xs r]) Tip = Nd c m xs l r"
            using plug_append [of "F # K" "[InLeft c m xs r]"] h(1) by simp
          ultimately show ?thesis using st False h(2,3)
            by (intro disjI2 exI [of _ b] exI [of _ c'] exI [of _ F] exI [of _ "K @ [InLeft c m xs r]"]) simp
        qed
      qed
    qed
  qed
qed simp

text \<open>Filling the hole of a context with a chunk.\<close>

lemma fill_hole:
  assumes ctx: "ctx_at (wd s) (F # K) NULL" and h: "hole b c F" and ok: "apart (x # frame_chunks (F # K))"
    and s': "s' = (if b then set_right (of_nat c) new s else set_left (of_nat c) new s)"
  shows "ctx_at (wd s') (F # K) new" "writes (touch (set (frame_chunks (F # K)))) s s'" "frame_ptr (F # K) = of_nat c"
proof -
  have dj: "distinct (frame_chunks (F # K))" using ok by (simp add: apart_def chunks_ok_def)
  have ok': "apart (frame_chunks (F # K))" using ok by (rule apart_subset) (use dj in auto)
  have "ctx_at (wd s') (F # K) new \<and> writes (touch {c}) s s' \<and> frame_ptr (F # K) = of_nat c \<and> c \<in> set (frame_chunks (F # K))"
  proof (cases F)
    case (InLeft q n xs r)
    have q: "okaddr c" "q = c" "\<not> b" using ok' InLeft h by (auto dest: apart_okaddr)
    have w: "wd s' = (wd s)(c + 16 := new)" using q s' by simp
    have wr: "writes (touch {c}) s s'" using w q s' by (auto simp: writes_def)
    have okq: "apart (c # xs)" using ok' by (rule apart_subset) (use dj q in \<open>auto simp: InLeft\<close>)
    have ag: "agree (wd s) (wd s') (set (chunks r) \<union> set (frame_chunks K))"
      using wr ok' by (rule writes_agree) (use dj q in \<open>auto simp: InLeft\<close>)
    have "ctx_at (wd s') (F # K) new"
      using node_fields(1) [OF _ okq, of "wd s" "frame_ptr K" n NULL "tptr r" new] ctx ag q tree_frame [of "wd s" "wd s'" r] ctx_frame [of "wd s" "wd s'" K]
      by (simp add: InLeft w)
    then show ?thesis using wr q by (simp add: InLeft)
  next
    case (InRight q n xs l)
    have q: "okaddr c" "q = c" "b" using ok' InRight h by (auto dest: apart_okaddr)
    have w: "wd s' = (wd s)(c + 20 := new)" using q s' by simp
    have wr: "writes (touch {c}) s s'" using w q s' by (auto simp: writes_def)
    have okq: "apart (c # xs)" using ok' by (rule apart_subset) (use dj q in \<open>auto simp: InRight\<close>)
    have ag: "agree (wd s) (wd s') (set (chunks l) \<union> set (frame_chunks K))"
      using wr ok' by (rule writes_agree) (use dj q in \<open>auto simp: InRight\<close>)
    have "ctx_at (wd s') (F # K) new"
      using node_fields(2) [OF _ okq, of "wd s" "frame_ptr K" n "tptr l" NULL new] ctx ag q tree_frame [of "wd s" "wd s'" l] ctx_frame [of "wd s" "wd s'" K]
      by (simp add: InRight w)
    then show ?thesis using wr q by (simp add: InRight)
  qed
  then show "ctx_at (wd s') (F # K) new" "writes (touch (set (frame_chunks (F # K)))) s s'" "frame_ptr (F # K) = of_nat c"
    using writes_mono [of "touch {c}" s s'] touch_mono [of "{c}" "set (frame_chunks (F # K))"] by auto
qed

text \<open>The chunk joins the circle of the node of its size.\<close>

lemma node_join:
  assumes n: "node_at (wd s) p c n xs l r" and ok: "apart (x # c # xs)" and sz: "csize (wd s) x = of_nat n"
    and f: "wd s (x + 16) = NULL" "wd s (x + 20) = NULL" "wd s (x + 24) = NULL"
    and s': "s' = kmalloc_dllist_add_end (of_nat x) (of_nat c) s"
  shows "node_at (wd s') p c n (xs @ [x]) l r" "writes (touch (set (x # c # xs))) s s'"
proof -
  have c: "circ (wd s) (c # xs)" using n by (simp add: node_at_def)
  have okc: "chunks_ok (x # c # xs)" using ok by (rule apart_chunks_ok)
  note a = dllist_add_end [OF c okc s']
  have same: "wd s' (y + k) = wd s (y + k)" if "y \<in> set (x # c # xs)" "k \<in> {4, 16, 20, 24}" for y k
  proof -
    have "y + k \<notin> links (set (x # c # xs))"
    proof
      assume "y + k \<in> links (set (x # c # xs))"
      then obtain z j where z: "z \<in> set (x # c # xs)" "y + k = z + j" "j = 8 \<or> j = 12" unfolding links_def by blast
      have "y \<noteq> z" using z(2,3) that(2) by auto
      then show False using apart_fields [OF ok, of y z k j] z that by auto
    qed
    then show ?thesis using a(2) by (simp add: writes_def)
  qed
  then have "csize (wd s') y = csize (wd s) y" "wd s' (y + 16) = wd s (y + 16)" "wd s' (y + 20) = wd s (y + 20)"
    "wd s' (y + 24) = wd s (y + 24)" if "y \<in> set (x # c # xs)" for y using that by (auto simp: csize_def)
  then show "node_at (wd s') p c n (xs @ [x]) l r" using n a(1) sz f by (auto simp: node_at_def)
  show "writes (touch (set (x # c # xs))) s s'" using a(2) links_touch by (rule writes_mono)
qed

definition inserted :: "tree \<Rightarrow> nat \<Rightarrow> nat \<Rightarrow> nat \<Rightarrow> 'a kmstate_scheme \<Rightarrow> tree \<Rightarrow> 'a kmstate_scheme \<Rightarrow> bool" where
  "inserted T x n d s T' s' \<longleftrightarrow> tree_at (wd s') NULL T' \<and> mset (pairs T') = add_mset (x, n) (mset (pairs T))
     \<and> writes (touch (insert x (set (chunks T)))) s s' \<and> trie d T'"

lemma tree_insert:
  assumes t: "tree_at (wd s) NULL T" and ok: "apart (x # chunks T)" and sz: "csize (wd s) x = of_nat n"
    and tr: "trie d T" and st: "same_top d n T" and d: "0 < d"
  obtains T' s' where "kmalloc_tree_insert (of_nat x) (tptr T) (int d) s = Some (tptr T', s')" "inserted T x n d s T' s'"
proof -
  have okT: "apart (chunks T)" using ok by (rule apart_subset) (use ok in \<open>auto simp: apart_def chunks_ok_def\<close>)
  have x: "okaddr x" "x \<notin> set (chunks T)" using ok by (auto simp: apart_def chunks_ok_def)
  define s1 where "s1 = set_left (of_nat x) NULL (set_right (of_nat x) NULL (set_next (of_nat x) (of_nat x) (set_prev (of_nat x) (of_nat x) s)))"
  have w1: "wd s1 = (wd s)(x + 12 := of_nat x, x + 8 := of_nat x, x + 20 := NULL, x + 16 := NULL)" using x(1) by (simp add: s1_def)
  have wr1: "writes (touch {x}) s s1" using w1 by (auto simp: writes_def s1_def)
  have sz1: "csize (wd s1) x = of_nat n" using sz by (simp add: w1 csize_def)
  have frame: "agree (wd s) (wd s') (set (chunks T))" if "writes (touch {x}) s s'" for s'
    using that ok by (rule writes_agree) (use x(2) in auto)
  define goal where "goal = (\<exists>T' s'. kmalloc_tree_insert (of_nat x) (tptr T) (int d) s = Some (tptr T', s') \<and> inserted T x n d s T' s')"
  have goal
  proof (cases "T = Tip")
    case True
    define s2 where "s2 = set_parent (of_nat x) NULL (set_left (of_nat x) NULL (set_right (of_nat x) NULL s1))"
    have "wd s2 = (wd s1)(x + 20 := NULL, x + 16 := NULL, x + 24 := NULL)" using x(1) by (simp add: s2_def)
    then have w2: "wd s2 = (wd s)(x + 12 := of_nat x, x + 8 := of_nat x, x + 20 := NULL, x + 16 := NULL, x + 24 := NULL)"
      by (auto simp: w1)
    have "writes (touch {x}) s s2" using w2 by (auto simp: writes_def s1_def s2_def)
    moreover have "node_at (wd s2) NULL x n [] NULL NULL" using sz by (simp add: node_at_def w2 csize_def circ_def)
    moreover have "kmalloc_tree_insert (of_nat x) (tptr T) (int d) s = Some (tptr (Nd x n [] Tip Tip), s2)"
      using d x True by (simp add: kmalloc_tree_insert_def Let_def s1_def [symmetric] s2_def [symmetric])
    ultimately show ?thesis unfolding goal_def inserted_def True by (intro exI [of _ "Nd x n [] Tip Tip"] exI [of _ s2]) simp
  next
    case False
    have Tn: "tptr T \<noteq> NULL" using False tptr_NULL [of T] okT by (simp add: apart_def chunks_ok_def)
    have g1: "agree (wd s) (wd s1) (set (chunks T))" by (rule frame [OF wr1])
    have t1: "tree_at (wd s1) NULL T" using t g1 tree_frame by blast
    have run: "kmalloc_tree_insert (of_nat x) (tptr T) (int d) s =
        map_option (\<lambda>slot. (case slot of
                Same cur \<Rightarrow> (tptr T, kmalloc_dllist_add_end (of_nat x) cur (set_parent (of_nat x) NULL s1))
              | Child parent isright \<Rightarrow> (tptr T, if isright then set_right parent (of_nat x) (set_parent (of_nat x) parent s1)
                                              else set_left parent (of_nat x) (set_parent (of_nat x) parent s1))))
          (find_slot d (of_nat n) (tptr T) s1)"
    proof -
      have "GETCHUNKSIZE (of_nat x) s1 = of_nat n" using sz1 x(1) by simp
      then show ?thesis using d okaddr_nonzero [OF x(1)] Tn
        unfolding kmalloc_tree_insert_def Let_def s1_def [symmetric] by simp
    qed
    have w2: "writes (touch {x}) s (set_parent (of_nat x) p s1)" "wd (set_parent (of_nat x) p s1) = (wd s1)(x + 24 := p)" for p
      using w1 x(1) by (auto simp: writes_def s1_def)
    have t2: "tree_at (wd (set_parent (of_nat x) p s1)) NULL T" for p using t frame [OF w2(1)] tree_frame by blast
    from find_slot_context [OF t1 okT False tr st] show ?thesis
    proof (elim disjE exE conjE)
      fix K c xs l r assume T: "T = plug K (Nd c n xs l r)" and fs: "find_slot d (of_nat n) (tptr T) s1 = Some (Same (of_nat c))"
      define s2 where "s2 = set_parent (of_nat x) NULL s1"
      note p = plug_nodeD [OF t2 [of NULL, folded s2_def, unfolded T] okT [unfolded T]]
      have f2: "wd s2 (x + 16) = NULL" "wd s2 (x + 20) = NULL" "wd s2 (x + 24) = NULL" "csize (wd s2) x = of_nat n"
        using w2(2) [of NULL] sz1 by (simp_all add: s2_def w1 csize_def)
      have okn: "apart (x # c # xs)" using ok by (rule apart_subset) (use p(6) x(2) in \<open>auto simp: T set_plug image_Un image_image\<close>)
      define s3 where "s3 = kmalloc_dllist_add_end (of_nat x) (of_nat c) s2"
      note j = node_join [OF p(2) okn f2(4,1-3) s3_def]
      have ok2: "apart (x # frame_chunks K @ c # xs @ chunks l @ chunks r)"
        using ok by (rule apart_subset) (use p(6) x(2) in \<open>auto simp: T set_plug image_Un image_image\<close>)
      have g: "agree (wd s2) (wd s3) (set (frame_chunks K) \<union> set (chunks l) \<union> set (chunks r))"
        using j(2) ok2 by (rule writes_agree) (use p(6) x(2) in \<open>auto simp: T set_plug image_Un image_image\<close>)
      have at: "tree_at (wd s3) NULL (plug K (Nd c n (xs @ [x]) l r))"
        using p(1,3,4) j(1) g ctx_frame [of "wd s2" "wd s3" K] tree_frame [of "wd s2" "wd s3"] by (simp add: plug_at)
      have tp: "tptr (plug K (Nd c n (xs @ [x]) l r)) = tptr T"
        by (cases "K = []") (use tptr_plug in \<open>auto simp: T\<close>, metis tptr_plug)
      have "kmalloc_tree_insert (of_nat x) (tptr T) (int d) s = Some (tptr (plug K (Nd c n (xs @ [x]) l r)), s3)"
        using run fs tp by (simp add: s3_def s2_def)
      moreover have "writes (touch (insert x (set (chunks T)))) s s3"
        using writes_trans [OF w2(1) [of NULL, folded s2_def] j(2)] unfolding touch_Un
        by (rule writes_mono) (rule touch_mono, auto simp: T set_plug image_Un image_image)
      moreover have "trie d (plug K (Nd c n (xs @ [x]) l r))"
        using tr unfolding T by (rule trie_plug_mono [rotated -1]) (auto intro: trie_same)
      ultimately show ?thesis using at unfolding goal_def inserted_def
        by (intro exI [of _ "plug K (Nd c n (xs @ [x]) l r)"] exI [of _ s3]) (simp add: T mset_plug)
    next
      fix b c F K assume T: "T = plug (F # K) Tip" and h: "hole b c F"
        and fs: "find_slot d (of_nat n) (tptr T) s1 = Some (Child (of_nat c) b)"
        and tr': "\<forall>x. trie d (plug (F # K) (Nd x n [] Tip Tip))"
      define s2 where "s2 = set_parent (of_nat x) (of_nat c) s1"
      have ctx: "ctx_at (wd s2) (F # K) NULL" using t2 [of "of_nat c", folded s2_def] plug_at [of "wd s2" "F # K" Tip] by (simp add: T)
      have dj: "distinct (x # frame_chunks (F # K))" using ok x(2) apart_plug [of "F # K" Tip] okT
        by (auto simp: T apart_def chunks_ok_def set_plug)
      have ok2: "apart (x # frame_chunks (F # K))" using ok by (rule apart_subset) (use dj in \<open>auto simp: T set_plug\<close>)
      define s3 where "s3 = (if b then set_right (of_nat c) (of_nat x) s2 else set_left (of_nat c) (of_nat x) s2)"
      note f = fill_hole [OF ctx h ok2 s3_def]
      have n2: "node_at (wd s2) (of_nat c) x n [] NULL NULL"
        using sz1 w2(2) [of "of_nat c"] by (simp add: node_at_def w1 csize_def circ_def s2_def)
      have "agree (wd s2) (wd s3) {x}" using f(2) ok2 by (rule writes_agree) (use dj in auto)
      then have "node_at (wd s3) (of_nat c) x n [] NULL NULL" using n2 node_frame [of "wd s2" "wd s3" x "[]"] by simp
      then have at: "tree_at (wd s3) NULL (plug (F # K) (Nd x n [] Tip Tip))"
        using f(1,3) plug_at [of "wd s3" "F # K" "Nd x n [] Tip Tip"] by simp
      have tp: "tptr (plug (F # K) (Nd x n [] Tip Tip)) = tptr T" using tptr_plug [of "F # K"] by (auto simp: T)
      have "kmalloc_tree_insert (of_nat x) (tptr T) (int d) s = Some (tptr (plug (F # K) (Nd x n [] Tip Tip)), s3)"
        using run fs tp by (simp add: s3_def s2_def)
      moreover have "writes (touch (insert x (set (chunks T)))) s s3"
        using writes_trans [OF w2(1) [of "of_nat c", folded s2_def] f(2)] unfolding touch_Un
        by (rule writes_mono) (rule touch_mono, auto simp: T set_plug)
      ultimately show ?thesis using at tr' mset_plug [of "F # K" "Nd x n [] Tip Tip"] mset_plug [of "F # K" Tip]
        unfolding goal_def inserted_def
        by (intro exI [of _ "plug (F # K) (Nd x n [] Tip Tip)"] exI [of _ s3]) (simp add: T)
    qed
  qed
  with that show ?thesis unfolding goal_def by blast
qed

end
