(* ===== verification/KTreeFit.thy ===== *)
theory KTreeFit
  imports KTreeSearch
begin

text \<open>
  The two searches of kmalloc_tree.c, \<open>kmalloc_tree_get_smallest\<close> and \<open>kmalloc_tree_get_best_fit\<close>:
  both return, the first with a chunk of the smallest size of the tree, the second with a chunk that is large
  enough, or NULL when the tree holds none.
\<close>

section \<open>The smallest size\<close>

lemma same_top_order:
  assumes "same_top (Suc e) n (Nd c m xs l r)" "trie (Suc e) (Nd c m xs l r)" "a \<in> sizes l" "b \<in> sizes r"
  shows "a < b"
  using assms by (intro less_by_bit [of e]) (auto simp: same_top_def)

lemma same_top_sub:
  assumes "same_top (Suc e) n (Nd c m xs l r)" "trie (Suc e) (Nd c m xs l r)"
  shows "r \<noteq> Tip \<Longrightarrow> \<exists>k. same_top e k r" "l \<noteq> Tip \<Longrightarrow> \<exists>k. same_top e k l"
proof -
  have "\<exists>k. same_top e k t" if tn: "t \<noteq> Tip" "t = l \<or> t = r" for t
  proof -
    obtain k where k: "k \<in> sizes t" using tn(1) by (cases t) auto
    have "drop_bit e j = drop_bit e k" if "j \<in> sizes t" for j
    proof (rule same_top_child)
      have "drop_bit (Suc e) i = drop_bit (Suc e) n" if "i \<in> sizes t" for i
        using assms(1) tn(2) that unfolding same_top_def by auto
      then show "drop_bit (Suc e) j = drop_bit (Suc e) k" using that k by metis
      show "bit j e = bit k e" using assms(2) tn(2) that k by auto
    qed
    moreover have "\<forall>j \<in> sizes t. j < 4294967296" using assms(1) tn(2) by (auto simp: same_top_def)
    ultimately have "same_top e k t" using k unfolding same_top_def by blast
    then show ?thesis by blast
  qed
  then show "r \<noteq> Tip \<Longrightarrow> \<exists>k. same_top e k r" "l \<noteq> Tip \<Longrightarrow> \<exists>k. same_top e k l" by blast+
qed

lemma sizes_ne: "t \<noteq> Tip \<Longrightarrow> sizes t \<noteq> {}"
  by (cases t) auto

lemma of_nat_less: "\<lbrakk>m < 4294967296; n < 4294967296\<rbrakk> \<Longrightarrow> (of_nat m :: u32) < of_nat n \<longleftrightarrow> m < n"
  by (simp add: word_less_nat_alt unat_of_nat)

lemma smallest_loop_least:
  "\<lbrakk>tree_at (wd s) p t; apart (chunks t); t = Nd c n xs l r; trie d t; same_top d k t;
    (x0, n0) \<in> P \<union> set (pairs t); n0 \<le> n; n0 < 4294967296\<rbrakk> \<Longrightarrow>
   \<exists>y m. smallest_loop (of_nat c) (of_nat x0) (of_nat n0) s = Some (of_nat y) \<and> (y, m) \<in> P \<union> set (pairs t)
     \<and> m \<le> n0 \<and> (\<forall>j \<in> sizes t. m \<le> j)"
proof (induction t arbitrary: p c n xs l r d k x0 n0 P)
  case (Nd c' n' xs' l' r')
  then have eq: "c' = c" "n' = n" "xs' = xs" "l' = l" "r' = r" by simp_all
  note prems = Nd.prems(1,2,4-8) [unfolded eq] and IH = Nd.IH [unfolded eq]
  note D = nodeD [OF prems(1,2)]
  have lv: "ktchunk_is_leave (of_nat c) s \<longleftrightarrow> l = Tip \<and> r = Tip" by (rule leave_iff [OF D(1) prems(2)])
  show ?case
  proof (cases "l = Tip \<and> r = Tip")
    case True
    then have "smallest_loop (of_nat c) (of_nat x0) (of_nat n0) s = Some (of_nat x0)"
      using lv by (subst smallest_loop.simps) simp
    then show ?thesis using True prems(5,6) by (auto simp: eq)
  next
    case False
    then obtain e where d: "d = Suc e" using prems(3) by (cases d) auto
    define t where "t = (if l \<noteq> Tip then l else r)"
    have t: "t = l \<or> t = r" "t \<noteq> Tip" using False by (auto simp: t_def)
    obtain k' where k': "same_top e k' t"
      using same_top_sub [OF prems(4) [unfolded d] prems(3) [unfolded d]] t by blast
    obtain c1 n1 xs1 l1 r1 where t1: "t = Nd c1 n1 xs1 l1 r1" using t(2) by (cases t) auto
    have at: "tree_at (wd s) (of_nat c) t" "apart (chunks t)" "trie e t" using t(1) D(2-5) prems(3) by (auto simp: d)
    have okc1: "okaddr c1" "csize (wd s) c1 = of_nat n1" using nodeD(6,9) [OF at(1,2) [unfolded t1]] by simp_all
    have n1: "n1 < 4294967296" using k' by (simp add: t1 same_top_def)
    have st: "smallest_loop (of_nat c) (of_nat x0) (of_nat n0) s =
        (if n1 < n0 then smallest_loop (of_nat c1) (of_nat c1) (of_nat n1) s
         else smallest_loop (of_nat c1) (of_nat x0) (of_nat n0) s)"
    proof -
      have "(if left_chunk (of_nat c) s \<noteq> NULL then left_chunk (of_nat c) s else right_chunk (of_nat c) s) = of_nat c1"
        using D t1 by (auto simp: t_def split: if_splits)
      moreover have "GETCHUNKSIZE (of_nat c1) s = of_nat n1" using okc1 by simp
      ultimately show ?thesis
        using lv False of_nat_less [OF n1 prems(7)] by (subst smallest_loop.simps) (simp add: Let_def)
    qed
    define x2 n2 where "x2 = (if n1 < n0 then c1 else x0)" and "n2 = (if n1 < n0 then n1 else n0)"
    have P2: "(x2, n2) \<in> insert (x0, n0) P \<union> set (pairs t)" using t1 by (simp add: x2_def n2_def)
    have n2: "n2 \<le> n1" "n2 < 4294967296" "n2 \<le> n0" using n1 prems(7) by (simp_all add: n2_def)
    have "\<exists>y m. smallest_loop (of_nat c1) (of_nat x2) (of_nat n2) s = Some (of_nat y) \<and> (y, m) \<in> insert (x0, n0) P \<union> set (pairs t)
        \<and> m \<le> n2 \<and> (\<forall>j \<in> sizes t. m \<le> j)"
    proof (cases "t = l")
      case True
      show ?thesis using IH(1) [OF at(1,2) [unfolded True] t1 [unfolded True] at(3) [unfolded True] k' [unfolded True]
          P2 [unfolded True] n2(1,2)] True by simp
    next
      case False
      then have tr: "t = r" using t(1) by simp
      show ?thesis using IH(2) [OF at(1,2) [unfolded tr] t1 [unfolded tr] at(3) [unfolded tr] k' [unfolded tr]
          P2 [unfolded tr] n2(1,2)] tr by simp
    qed
    then obtain y m where ym: "smallest_loop (of_nat c1) (of_nat x2) (of_nat n2) s = Some (of_nat y)"
      "(y, m) \<in> insert (x0, n0) P \<union> set (pairs t)" "m \<le> n2" "\<forall>j \<in> sizes t. m \<le> j" by blast
    have "m \<le> j" if "j \<in> sizes l \<union> sizes r" for j
    proof (cases "j \<in> sizes t")
      case False
      then have "t = l" "j \<in> sizes r" using that t_def by (auto split: if_splits)
      moreover obtain i where "i \<in> sizes t" using sizes_ne [OF t(2)] by blast
      ultimately have "i < j" "m \<le> i" using same_top_order [OF prems(4) [unfolded d] prems(3) [unfolded d], of i j] ym(4) by auto
      then show ?thesis by simp
    qed (use ym in blast)
    moreover have "(y, m) \<in> P \<union> set (pairs (Nd c n xs l r))" using ym(2) prems(5) t(1) by auto
    moreover have "m \<le> n0" using ym(3) n2(3) by simp
    ultimately have "(y, m) \<in> P \<union> set (pairs (Nd c n xs l r)) \<and> m \<le> n0 \<and> (\<forall>j \<in> sizes (Nd c n xs l r). m \<le> j)"
      using prems(6) by auto
    moreover have "smallest_loop (of_nat c) (of_nat x0) (of_nat n0) s = Some (of_nat y)"
      using st ym(1) by (simp add: x2_def n2_def split: if_splits)
    ultimately show ?thesis unfolding eq by blast
  qed
qed simp

lemma tree_smallest:
  assumes "tree_at (wd s) p t" "apart (chunks t)" "t \<noteq> Tip" "trie d t" "same_top d k t"
  obtains y m where "kmalloc_tree_get_smallest (tptr t) s = Some (of_nat y)" "(y, m) \<in> set (pairs t)" "\<forall>j \<in> sizes t. m \<le> j"
proof -
  obtain c n xs l r where t: "t = Nd c n xs l r" using assms(3) by (cases t) auto
  note D = nodeD [OF assms(1,2) [unfolded t]]
  have "n < 4294967296" using assms(5) by (simp add: t same_top_def)
  from smallest_loop_least [OF assms(1,2) t assms(4,5), of c n "{}"] this
  obtain y m where "smallest_loop (of_nat c) (of_nat c) (of_nat n) s = Some (of_nat y)" "(y, m) \<in> set (pairs t)" "\<forall>j \<in> sizes t. m \<le> j"
    by (auto simp: t)
  then show ?thesis using that D(6,9) by (simp add: kmalloc_tree_get_smallest_def t)
qed

section \<open>A chunk that is large enough\<close>

text \<open>The path of a descent: the chunks of its nodes, and the subtrees left aside to the right and to the left.\<close>

fun heads :: "frame list \<Rightarrow> (nat \<times> nat) list" where
  "heads [] = []"
| "heads (InLeft c n xs r # K) = (c, n) # heads K"
| "heads (InRight c n xs l # K) = (c, n) # heads K"

fun rights :: "frame list \<Rightarrow> (nat \<times> nat) list" where
  "rights [] = []"
| "rights (InLeft c n xs r # K) = pairs r @ rights K"
| "rights (InRight c n xs l # K) = rights K"

fun lefts :: "frame list \<Rightarrow> nat set" where
  "lefts [] = {}"
| "lefts (InLeft c n xs r # K) = lefts K"
| "lefts (InRight c n xs l # K) = sizes l \<union> lefts K"

lemma spine_append [simp]:
  "heads (J @ K) = heads J @ heads K" "rights (J @ K) = rights J @ rights K" "lefts (J @ K) = lefts J \<union> lefts K"
  by (induction J rule: heads.induct) auto

lemma heads_frame: "(c, m) \<in> set (heads L) \<Longrightarrow> (c, m) \<in> set (frame_pairs L)"
  by (induction L rule: heads.induct) auto

lemma rights_frame: "(c, m) \<in> set (rights L) \<Longrightarrow> (c, m) \<in> set (frame_pairs L)"
  by (induction L rule: heads.induct) auto

lemma path_sizes: "snd ` set (frame_pairs L) = snd ` set (heads L) \<union> snd ` set (rights L) \<union> lefts L"
  by (induction L rule: heads.induct) (auto simp: image_Un image_image sizes_pairs)

definition right_ok :: "frame list \<Rightarrow> bool" where
  "right_ok L \<longleftrightarrow> (\<forall>c n xs r. InLeft c n xs r \<in> set L \<longrightarrow> r \<noteq> Tip \<longrightarrow> (\<exists>e k. trie e r \<and> same_top e k r))"

definition below :: "nat \<Rightarrow> addr \<Rightarrow> frame list \<Rightarrow> addr \<Rightarrow> bool" where
  "below n sc L sc' \<longleftrightarrow> L \<noteq> [] \<and> right_ok L \<and> (\<forall>y m. (y, m) \<in> set (rights L) \<longrightarrow> n < m) \<and> (\<forall>m \<in> lefts L. m < n)
     \<and> (\<forall>c m. (c, m) \<in> set (heads L) \<longrightarrow> m \<noteq> n)
     \<and> (sc' = sc \<or> (\<exists>c m. (c, m) \<in> set (heads L) \<and> sc' = of_nat c \<and> n < m))
     \<and> (sc' = NULL \<longrightarrow> (\<forall>c m. (c, m) \<in> set (heads L) \<longrightarrow> m < n))"

lemma fit_down_context:
  "\<lbrakk>tree_at (wd s) p t; apart (chunks t); t \<noteq> Tip; trie d t; same_top d n t\<rbrakk> \<Longrightarrow>
   (\<exists>c. fit_down d (of_nat n) (tptr t) sc ss s = Some (Exact (of_nat c)) \<and> (c, n) \<in> set (pairs t)) \<or>
   (\<exists>L sc'. fit_down d (of_nat n) (tptr t) sc ss s = Some (Below NULL (frame_ptr L) sc') \<and> t = plug L Tip \<and> below n sc L sc')"
proof (induction t arbitrary: d p sc ss)
  case (Nd c m xs l r)
  note D = nodeD [OF Nd.prems(1,2)]
  have mn: "m < 4294967296" "n < 4294967296" "drop_bit d m = drop_bit d n" using Nd.prems(5) by (auto dest: same_topD)
  show ?case
  proof (cases "m = n")
    case True
    have "fit_down d (of_nat n) (of_nat c) sc ss s = Some (Exact (of_nat c))" using D True by (cases d) simp_all
    then show ?thesis using True by auto
  next
    case False
    then obtain e where d: "d = Suc e" using mn(3) by (cases d) auto
    have ne: "(of_nat n :: u32) \<noteq> of_nat m" using False mn by (simp add: of_nat_size)
    note top = Nd.prems(5) [unfolded d] and tri = Nd.prems(4) [unfolded d]
    note kids = same_top_kids [OF top tri]
    have tr: "trie e l" "trie e r" "\<forall>k \<in> sizes l. \<not> bit k e" "\<forall>k \<in> sizes r. bit k e" using tri by simp_all
    have top_n: "drop_bit (Suc e) k = drop_bit (Suc e) n" if "k \<in> sizes l \<union> sizes r" for k
      using top that unfolding same_top_def by auto
    define better where "better = (n < m \<and> (sc = NULL \<or> of_nat m < ss))"
    define sc1 ss1 where "sc1 = (if better then of_nat c else sc)" and "ss1 = (if better then of_nat m else ss)"
    define F where "F = (if bit n e then InRight c m xs l else InLeft c m xs r)"
    define t where "t = (if bit n e then r else l)"
    have pl: "plug [F] t = Nd c m xs l r" "frame_ptr [F] = of_nat c" by (simp_all add: F_def t_def)
    have st: "fit_down d (of_nat n) (of_nat c) sc ss s =
        (if t = Tip then Some (Below NULL (of_nat c) sc1) else fit_down e (of_nat n) (tptr t) sc1 ss1 s)"
      using D ne bit_of_size [OF mn(2), of e] of_nat_less [OF mn(2,1)]
      by (simp add: d Let_def better_def sc1_def ss1_def t_def)
    have b0: "below n sc [F] sc1"
    proof -
      have "k < n" if "bit n e" "k \<in> sizes l" for k using that tr(3) top_n by (intro less_by_bit [of e]) auto
      moreover have "n < k" if "\<not> bit n e" "(y, k) \<in> set (pairs r)" for y k
      proof -
        have "k \<in> sizes r" using that(2) by (force simp: sizes_pairs)
        then show ?thesis using that tr(4) top_n [of k] by (intro less_by_bit [of e]) auto
      qed
      moreover have "right_ok [F]"
        using same_top_sub(1) [OF top tri] tr(2) by (auto simp: right_ok_def F_def)
      moreover have "sc1 = NULL \<longrightarrow> m < n" using False D(6) by (auto simp: sc1_def better_def)
      ultimately show ?thesis using False by (auto simp: below_def F_def sc1_def better_def)
    qed
    show ?thesis
    proof (cases "t = Tip")
      case True
      then show ?thesis using st b0 pl by (intro disjI2 exI [of _ "[F]"] exI [of _ sc1]) simp
    next
      case tn: False
      have at: "tree_at (wd s) (of_nat c) t" "apart (chunks t)" "trie e t" "same_top e n t"
        using D(2-5) tr(1,2) kids by (auto simp: t_def)
      have IH: "(\<exists>c. fit_down e (of_nat n) (tptr t) sc1 ss1 s = Some (Exact (of_nat c)) \<and> (c, n) \<in> set (pairs t)) \<or>
          (\<exists>L sc'. fit_down e (of_nat n) (tptr t) sc1 ss1 s = Some (Below NULL (frame_ptr L) sc') \<and> t = plug L Tip \<and> below n sc1 L sc')"
      proof (cases "bit n e")
        case True
        then have tt: "t = r" by (simp add: t_def)
        show ?thesis using Nd.IH(2) [OF at(1,2)[unfolded tt] tn[unfolded tt] at(3,4)[unfolded tt]] unfolding tt .
      next
        case False
        then have tt: "t = l" by (simp add: t_def)
        show ?thesis using Nd.IH(1) [OF at(1,2)[unfolded tt] tn[unfolded tt] at(3,4)[unfolded tt]] unfolding tt .
      qed
      then show ?thesis
      proof (elim disjE exE conjE)
        fix y assume "fit_down e (of_nat n) (tptr t) sc1 ss1 s = Some (Exact (of_nat y))" "(y, n) \<in> set (pairs t)"
        then show ?thesis using st tn by (intro disjI1 exI [of _ y]) (auto simp: t_def split: if_splits)
      next
        fix L sc' assume h: "fit_down e (of_nat n) (tptr t) sc1 ss1 s = Some (Below NULL (frame_ptr L) sc')" "t = plug L Tip" "below n sc1 L sc'"
        have L: "L \<noteq> []" using h(3) by (simp add: below_def)
        have "okaddr y" if "(y, k) \<in> set (heads L)" for y k
          using at(2) heads_frame [OF that] h(2) by (force simp: apart_def chunks_ok_def set_plug)
        then have "sc' = NULL \<Longrightarrow> sc1 = NULL" using h(3) unfolding below_def by (metis okaddr_nonzero)
        then have "below n sc (L @ [F]) sc'" using h(3) b0 unfolding below_def right_ok_def by auto
        moreover have "frame_ptr (L @ [F]) = frame_ptr L" using L by (cases L rule: heads.cases) auto
        moreover have "plug (L @ [F]) Tip = Nd c m xs l r" using pl(1) h(2) by (simp add: plug_append)
        ultimately show ?thesis using st tn h(1)
          by (intro disjI2 exI [of _ "L @ [F]"] exI [of _ sc']) simp
      qed
    qed
  qed
qed simp

lemma fit_up_context:
  "\<lbrakk>tree_at (wd s) NULL (plug L t); apart (chunks (plug L t)); L \<noteq> []; right_ok L\<rbrakk> \<Longrightarrow>
   \<exists>q. fit_up (tptr t) (frame_ptr L) sc s = Some q \<and>
     ((q = NULL \<and> rights L = [] \<and> (\<forall>c m. (c, m) \<in> set (heads L) \<longrightarrow> sc \<noteq> of_nat c))
      \<or> (\<exists>y m. (y, m) \<in> set (rights L) \<and> q = of_nat y) \<or> (\<exists>c m. (c, m) \<in> set (heads L) \<and> sc = of_nat c \<and> q = sc))"
proof (induction L arbitrary: t)
  case (Cons F K)
  have ro: "right_ok K" using Cons.prems(4) by (simp add: right_ok_def)
  obtain c m xs l r where N: "plug (F # K) t = plug K (Nd c m xs l r)" "frame_ptr (F # K) = of_nat c"
    "set (heads (F # K)) = insert (c, m) (set (heads K))"
    "(F = InLeft c m xs r \<and> t = l) \<or> (F = InRight c m xs l \<and> t = r)"
    by (cases F) auto
  note p = plug_nodeD [OF Cons.prems(1,2) [unfolded N(1)]]
  have rt: "right_chunk (of_nat c) s = tptr r" "parent_chunk (of_nat c) s = frame_ptr K"
    using p(2,7) by (simp_all add: node_at_def)
  have okr: "apart (chunks r)" "apart (chunks l)" using p(5) by (rule apart_subset; use p(6) in auto)+
  have rT: "tptr r = NULL \<longleftrightarrow> r = Tip" using okr(1) by (intro tptr_NULL) (simp add: apart_def chunks_ok_def)
  have lr: "r \<noteq> Tip \<Longrightarrow> tptr r \<noteq> tptr l" using p(5,6) by (cases l; cases r) (auto simp: apart_def chunks_ok_def)
  define up where "up \<longleftrightarrow> right_chunk (of_nat c) s = NULL \<or> right_chunk (of_nat c) s = tptr t"
  have upF: "up \<longleftrightarrow> (case F of InLeft c n xs r \<Rightarrow> r = Tip | InRight c n xs l \<Rightarrow> True)"
    using N(4) rT lr rt(1) by (auto simp: up_def)
  show ?case
  proof (cases up)
    case True
    have rK: "rights (F # K) = rights K" using N(4) True upF by auto
    consider "of_nat c = sc" | "of_nat c \<noteq> sc" "K = []" | "of_nat c \<noteq> sc" "K \<noteq> []" by blast
    then show ?thesis
    proof cases
      case 1
      then have "fit_up (tptr t) (of_nat c) sc s = Some (of_nat c)" using True by (subst fit_up.simps) (simp add: up_def)
      then show ?thesis unfolding N(2,3) using 1 by auto
    next
      case 2
      then have "fit_up (tptr t) (of_nat c) sc s = Some NULL" using True rt p(9) by (subst fit_up.simps) (simp add: up_def)
      then show ?thesis unfolding N(2,3) rK using 2 by auto
    next
      case 3
      have "fit_up (tptr t) (of_nat c) sc s = fit_up (tptr (Nd c m xs l r)) (frame_ptr K) sc s"
        using True rt 3 p(9) by (subst fit_up.simps) (simp add: up_def)
      moreover obtain q where "fit_up (tptr (Nd c m xs l r)) (frame_ptr K) sc s = Some q"
        "(q = NULL \<and> rights K = [] \<and> (\<forall>c m. (c, m) \<in> set (heads K) \<longrightarrow> sc \<noteq> of_nat c))
          \<or> (\<exists>y m. (y, m) \<in> set (rights K) \<and> q = of_nat y) \<or> (\<exists>c m. (c, m) \<in> set (heads K) \<and> sc = of_nat c \<and> q = sc)"
        using Cons.IH [OF Cons.prems(1,2) [unfolded N(1)] 3(2) ro] by blast
      ultimately show ?thesis unfolding N(2,3) rK using 3(1) by (intro exI [of _ q]) auto
    qed
  next
    case False
    then have F: "F = InLeft c m xs r" "r \<noteq> Tip" using upF N(4) by auto
    then have "\<exists>e k. trie e r \<and> same_top e k r" using Cons.prems(4) unfolding right_ok_def by (meson list.set_intros(1))
    then obtain e k where ek: "trie e r" "same_top e k r" by blast
    obtain y j where y: "kmalloc_tree_get_smallest (tptr r) s = Some (of_nat y)" "(y, j) \<in> set (pairs r)"
      using tree_smallest [OF p(4) okr(1) F(2) ek] by blast
    have "fit_up (tptr t) (of_nat c) sc s = Some (of_nat y)"
      using False rt(1) y(1) by (subst fit_up.simps) (simp add: up_def)
    then show ?thesis unfolding N(2) using F y(2) by auto
  qed
qed simp

lemma tree_best_fit:
  assumes t: "tree_at (wd s) NULL T" and ok: "apart (chunks T)" and tr: "trie d T" and st: "same_top d n T" and d: "0 < d"
  obtains q where "kmalloc_tree_get_best_fit (of_nat n) (tptr T) (int d) s = Some q"
    "(q = NULL \<and> (\<forall>k \<in> sizes T. k < n)) \<or> (\<exists>y m. q = of_nat y \<and> (y, m) \<in> set (pairs T) \<and> n \<le> m \<and> (n \<in> sizes T \<longrightarrow> m = n))"
proof -
  have "\<exists>q. kmalloc_tree_get_best_fit (of_nat n) (tptr T) (int d) s = Some q \<and>
    ((q = NULL \<and> (\<forall>k \<in> sizes T. k < n)) \<or> (\<exists>y m. q = of_nat y \<and> (y, m) \<in> set (pairs T) \<and> n \<le> m \<and> (n \<in> sizes T \<longrightarrow> m = n)))"
  proof (cases "T = Tip")
    case True
    then show ?thesis by (simp add: kmalloc_tree_get_best_fit_def)
  next
    case False
    have tn: "tptr T \<noteq> NULL" using False tptr_NULL [of T] ok by (simp add: apart_def chunks_ok_def)
    from fit_down_context [OF t ok False tr st, of NULL MAX_SIZE_T] show ?thesis
    proof (elim disjE exE conjE)
      fix c assume "fit_down d (of_nat n) (tptr T) NULL MAX_SIZE_T s = Some (Exact (of_nat c))" "(c, n) \<in> set (pairs T)"
      then show ?thesis using d tn by (auto simp: kmalloc_tree_get_best_fit_def)
    next
      fix L sc assume f: "fit_down d (of_nat n) (tptr T) NULL MAX_SIZE_T s = Some (Below NULL (frame_ptr L) sc)"
        and T: "T = plug L Tip" and b: "below n NULL L sc"
      have Lro: "L \<noteq> []" "right_ok L" using b by (simp_all add: below_def)
      obtain q where q: "fit_up NULL (frame_ptr L) sc s = Some q"
        "(q = NULL \<and> rights L = [] \<and> (\<forall>c m. (c, m) \<in> set (heads L) \<longrightarrow> sc \<noteq> of_nat c))
          \<or> (\<exists>y m. (y, m) \<in> set (rights L) \<and> q = of_nat y) \<or> (\<exists>c m. (c, m) \<in> set (heads L) \<and> sc = of_nat c \<and> q = sc)"
        using fit_up_context [OF t [unfolded T] ok [unfolded T] Lro, of sc, unfolded tptr_simps] by blast
      have run: "kmalloc_tree_get_best_fit (of_nat n) (tptr T) (int d) s = Some q"
        using d tn f q(1) by (simp add: kmalloc_tree_get_best_fit_def)
      have sz: "sizes T = snd ` set (heads L) \<union> snd ` set (rights L) \<union> lefts L" using sizes_plug [of L Tip] path_sizes by (simp add: T)
      have no: "n \<notin> sizes T" using b unfolding sz below_def by fastforce
      have pr: "(y, m) \<in> set (pairs T)" if "(y, m) \<in> set (heads L) \<union> set (rights L)" for y m
        using that heads_frame rights_frame by (auto simp: T set_plug)
      have oky: "okaddr y" if "(y, m) \<in> set (heads L)" for y m
        using pr [of y m] that ok by (force simp: apart_def chunks_ok_def)
      from q(2) have "(q = NULL \<and> (\<forall>k \<in> sizes T. k < n)) \<or> (\<exists>y m. q = of_nat y \<and> (y, m) \<in> set (pairs T) \<and> n \<le> m)"
      proof (elim disjE exE conjE)
        assume 1: "q = NULL" "rights L = []" "\<forall>c m. (c, m) \<in> set (heads L) \<longrightarrow> sc \<noteq> of_nat c"
        then have "sc = NULL" using b unfolding below_def by blast
        then have "\<forall>c m. (c, m) \<in> set (heads L) \<longrightarrow> m < n" "\<forall>m \<in> lefts L. m < n" using b unfolding below_def by blast+
        then show ?thesis using 1(1,2) unfolding sz by auto
      next
        fix y m assume "(y, m) \<in> set (rights L)" "q = of_nat y"
        moreover then have "n < m" using b unfolding below_def by blast
        ultimately show ?thesis using pr by (intro disjI2 exI [of _ y] exI [of _ m]) auto
      next
        fix c m assume c: "(c, m) \<in> set (heads L)" "sc = of_nat c" "q = sc"
        then have "sc \<noteq> NULL" using oky by simp
        then obtain c' m' where "(c', m') \<in> set (heads L)" "sc = of_nat c'" "n < m'" using b unfolding below_def by blast
        then show ?thesis using c(3) pr by (intro disjI2 exI [of _ c'] exI [of _ m']) auto
      qed
      then show ?thesis using run no by blast
    qed
  qed
  with that show ?thesis by blast
qed

end
