(* ===== verification/KSizes.thy ===== *)
theory KSizes
  imports KChunk
begin

text \<open>
  The arithmetic of the allocator's sizes: headers as a size with flags, the chunk size of a request
  with the test for its overflow, and the bin of a large size.
\<close>

section \<open>Headers\<close>

definition chunk_size :: "u32 \<Rightarrow> bool" where
  "chunk_size n \<longleftrightarrow> n AND 7 = 0"

lemma less3: "(i :: nat) < 3 \<longleftrightarrow> i = 0 \<or> i = 1 \<or> i = 2"
  by auto

lemma low_bits_clear: "\<lbrakk>\<not> bit n 0 \<and> \<not> bit n 1 \<and> \<not> bit n 2; bit (n :: u32) i\<rbrakk> \<Longrightarrow> \<not> i < 3"
  unfolding less3 by metis

lemma chunk_size_bits: "chunk_size n \<longleftrightarrow> \<not> bit n 0 \<and> \<not> bit n 1 \<and> \<not> bit n 2"
proof -
  have m: "(7 :: u32) = mask 3" by (simp add: mask_eq_exp_minus_1)
  have b: "bit (n AND mask 3) i \<longleftrightarrow> bit n i \<and> i < 3" for i by (auto simp: bit_simps)
  show ?thesis
  proof
    assume "chunk_size n"
    then have "\<not> bit (n AND mask 3) i" for i by (simp add: chunk_size_def m)
    then show "\<not> bit n 0 \<and> \<not> bit n 1 \<and> \<not> bit n 2" unfolding b less3 by blast
  next
    assume "\<not> bit n 0 \<and> \<not> bit n 1 \<and> \<not> bit n 2"
    from low_bits_clear [OF this] have "\<not> bit (n AND mask 3) i" for i unfolding b by blast
    then show "chunk_size n" unfolding chunk_size_def m by (intro bit_word_eqI) simp
  qed
qed

lemma chunk_size_iff: "chunk_size n \<longleftrightarrow> unat n mod 8 = 0"
proof -
  have "n AND 7 = take_bit 3 n" by (simp add: take_bit_eq_mask mask_eq_exp_minus_1)
  then have "unat (n AND 7) = unat n mod 8" by (simp only: unsigned_take_bit_eq) (simp add: take_bit_eq_mod)
  then show ?thesis unfolding chunk_size_def by (metis unat_0 word_unat_eq_iff)
qed

lemma flag_bits:
  "bit CINUSE i \<longleftrightarrow> i = 1" "bit PINUSE i \<longleftrightarrow> i = 0" "bit FLAGMASK i \<longleftrightarrow> i < 3"
proof -
  have e: "(2 :: u32) = push_bit 1 1" "(7 :: u32) = mask 3" by (simp_all add: mask_eq_exp_minus_1)
  show "bit CINUSE i \<longleftrightarrow> i = 1" unfolding CINUSE_def e by (auto simp: bit_simps simp del: push_bit_of_1)
  show "bit FLAGMASK i \<longleftrightarrow> i < 3" unfolding FLAGMASK_def e by (auto simp: bit_simps)
  show "bit PINUSE i \<longleftrightarrow> i = 0" by (simp add: PINUSE_def bit_1_iff)
qed

text \<open>The header of a chunk of \<open>n\<close> bytes: whether it is in use and whether its predecessor is.\<close>

definition head_word :: "u32 \<Rightarrow> bool \<Rightarrow> bool \<Rightarrow> u32" where
  "head_word n used prev_used = n OR (if used then CINUSE else 0) OR (if prev_used then PINUSE else 0)"

lemma head_word_bits:
  "bit (head_word n u p) i \<longleftrightarrow> bit n i \<or> (i = 1 \<and> u) \<or> (i = 0 \<and> p)"
  by (auto simp: head_word_def bit_simps flag_bits)

lemma head_word_simps:
  assumes "chunk_size n"
  shows "head_word n u p AND NOT FLAGMASK = n"
    and "head_word n u p AND CINUSE \<noteq> 0 \<longleftrightarrow> u"
    and "head_word n u p AND PINUSE = (if p then PINUSE else 0)"
    and "head_word n u p OR PINUSE = head_word n u True"
    and "head_word n u p OR CINUSE = head_word n True p"
    and "head_word n u p AND NOT PINUSE = head_word n u False"
proof -
  note b = assms [unfolded chunk_size_bits]
  show "head_word n u p AND NOT FLAGMASK = n"
  proof (rule bit_word_eqI)
    fix i assume "i < LENGTH(32)"
    moreover have "bit n i \<Longrightarrow> \<not> i < 3" using low_bits_clear [OF b] by blast
    ultimately show "bit (head_word n u p AND NOT FLAGMASK) i = bit n i"
      by (auto simp: head_word_bits bit_simps flag_bits)
  qed
  have "head_word n u p AND CINUSE = (if u then CINUSE else 0)"
    using b by (intro bit_word_eqI) (auto simp: bit_simps flag_bits head_word_bits)
  then show "head_word n u p AND CINUSE \<noteq> 0 \<longleftrightarrow> u" by (simp add: CINUSE_def)
  show "head_word n u p AND PINUSE = (if p then PINUSE else 0)"
    using b by (intro bit_word_eqI) (auto simp: bit_simps flag_bits head_word_bits)
  show "head_word n u p OR PINUSE = head_word n u True" "head_word n u p OR CINUSE = head_word n True p"
    by (intro bit_word_eqI; auto simp: bit_simps flag_bits head_word_bits)+
  show "head_word n u p AND NOT PINUSE = head_word n u False"
    using b by (intro bit_word_eqI) (auto simp: bit_simps flag_bits head_word_bits intro!: gr0I)
qed

lemma head_word_intros:
  "n OR PINUSE OR CINUSE = head_word n True True" "n OR CINUSE OR PINUSE = head_word n True True"
  "n OR PINUSE = head_word n False True"
  by (intro bit_word_eqI; auto simp: bit_simps flag_bits head_word_bits)+

section \<open>The chunk size of a request\<close>

lemma mask7_floor: "(x :: u32) AND NOT 7 = of_nat (unat x div 8 * 8)"
proof -
  have m: "(7 :: u32) = mask 3" by (simp add: mask_eq_exp_minus_1)
  have "x AND NOT (mask 3) = push_bit 3 (drop_bit 3 x)"
    by (intro bit_word_eqI) (auto simp: bit_simps)
  moreover have "unat (drop_bit 3 x) = unat x div 8"
    by (simp only: unat_drop_bit_eq) (simp add: drop_bit_eq_div)
  then have "drop_bit 3 x = of_nat (unat x div 8)" by (metis of_nat_unat ucast_id unsigned_of_nat)
  ultimately show ?thesis unfolding m by (simp add: push_bit_eq_mult)
qed

lemma request_size:
  assumes "unat req < 4294967285"
  shows "unat (REQUEST2SIZE req) = max 16 ((unat req + 11) div 8 * 8)"
proof -
  have a: "unat (req + 4) = unat req + 4" using assms unat_plus_of_nat [of req 4] by simp
  have b: "unat (req + 4 + 7) = unat req + 11" using assms a unat_plus_of_nat [of "req + 4" 7] by simp
  have "(unat req + 11) div 8 * 8 \<le> unat req + 11" by simp
  then have c: "unat ((req + 4 + 7) AND NOT 7) = (unat req + 11) div 8 * 8"
    unfolding mask7_floor b using assms by (simp add: unat_of_nat del: of_nat_mult)
  show ?thesis
    using a c by (auto simp: REQUEST2SIZE_def CHUNKSIZEALIGN_def CHUNK_ALIGN_MASK_def CHUNK_OVERHEAD_def
        MINCHUNKSIZE_def word_less_nat_alt)
qed

lemma request_overflow:
  assumes "4294967285 \<le> unat req"
  shows "unat (REQUEST2SIZE req) \<le> 16"
proof -
  have l: "unat req < 4294967296" using unat_lt_2p32 [of req] by simp
  show ?thesis
  proof (cases "unat req + 4 < 4294967296")
    case True
    then have a: "unat (req + 4) = unat req + 4" using unat_plus_of_nat [of req 4] by simp
    have b: "unat (req + 4 + 7) = unat req + 11 - 4294967296"
      using unat_word_ariths(1) [of "req + 4" 7] a assms True by (simp add: mod_if)
    then have "unat (req + 4 + 7) < 8" using True by simp
    then have "(req + 4 + 7) AND NOT 7 = 0" unfolding mask7_floor by simp
    then show ?thesis
      by (simp add: REQUEST2SIZE_def CHUNKSIZEALIGN_def CHUNK_ALIGN_MASK_def CHUNK_OVERHEAD_def MINCHUNKSIZE_def)
  next
    case False
    then have "unat (req + 4) = unat req + 4 - 4294967296"
      using unat_word_ariths(1) [of req 4] l by (simp add: mod_if)
    then have "req + 4 < 16" using l by (simp add: word_less_nat_alt)
    then show ?thesis by (simp add: REQUEST2SIZE_def CHUNK_OVERHEAD_def MINCHUNKSIZE_def)
  qed
qed

end
