(* ===== verification/KBinIndex.thy ===== *)
theory KBinIndex
  imports KTreeSearch KSizes
begin

text \<open>
  The bins of the allocator: the bin \<open>tbin_of n\<close> of a large size, the depth of its tree, and the search of
  the bitmaps for the next bin in use (\<open>calc_tbin\<close>, \<open>calc_leftbin\<close> and \<open>TBIN_DEPTH\<close> of kmalloc_util.h).
\<close>

section \<open>Counting zeros\<close>

lemma takeWhile_first:
  assumes "x \<in> set xs" "\<not> P x"
  shows "length (takeWhile P xs) < length xs" "\<not> P (xs ! length (takeWhile P xs))"
    "i < length (takeWhile P xs) \<Longrightarrow> P (xs ! i)"
proof -
  have "takeWhile P xs \<noteq> xs" using assms by (metis set_takeWhileD)
  then show l: "length (takeWhile P xs) < length xs"
    by (metis length_takeWhile_le le_neq_implies_less takeWhile_eq_take take_all order_refl)
  then show "\<not> P (xs ! length (takeWhile P xs))" by (rule nth_length_takeWhile)
  show "i < length (takeWhile P xs) \<Longrightarrow> P (xs ! i)" by (metis nth_mem set_takeWhileD takeWhile_nth)
qed

lemma word_some_bit: "(w :: u32) \<noteq> 0 \<Longrightarrow> \<exists>i < 32. bit w i"
proof (rule ccontr)
  assume "w \<noteq> 0" and n: "\<not> (\<exists>i < 32. bit w i)"
  have "w = 0" by (rule bit_word_eqI) (use n in simp)
  then show False using \<open>w \<noteq> 0\<close> by simp
qed

lemma ctz_first:
  assumes "w \<noteq> 0"
  shows "unat (ctz w) < 32" "bit w (unat (ctz w))" "i < unat (ctz w) \<Longrightarrow> \<not> bit w i"
proof -
  define k where "k = length (takeWhile (\<lambda>i. \<not> bit w i) [0..<32])"
  obtain j where j: "j < 32" "bit w j" using word_some_bit [OF assms] by blast
  have f: "k < 32" "bit w ([0..<32] ! k)" "\<And>i. i < k \<Longrightarrow> \<not> bit w ([0..<32] ! i)"
    using takeWhile_first [of j "[0..<32]" "\<lambda>i. \<not> bit w i"] j by (auto simp: k_def simp del: upt_rec_numeral)
  then have u: "unat (ctz w) = k" by (simp add: ctz_def k_def [symmetric] unat_of_nat)
  show "unat (ctz w) < 32" "bit w (unat (ctz w))" using f(1,2) by (simp_all add: u del: upt_rec_numeral)
  show "i < unat (ctz w) \<Longrightarrow> \<not> bit w i" using f(1) f(3) [of i] by (simp add: u del: upt_rec_numeral)
qed

lemma clz_top:
  assumes "w \<noteq> 0"
  shows "unat (clz w) < 32" "bit w (31 - unat (clz w))" "31 - unat (clz w) < i \<Longrightarrow> \<not> bit w i"
proof -
  define k where "k = length (takeWhile (\<lambda>i. \<not> bit w i) (rev [0..<32]))"
  have r: "rev [0..<32] ! i = 31 - i" if "i < 32" for i
    using that by (simp add: rev_nth del: upt_rec_numeral)
  obtain j where j: "j < 32" "bit w j" using word_some_bit [OF assms] by blast
  have f: "k < 32" "bit w (rev [0..<32] ! k)" "\<And>i. i < k \<Longrightarrow> \<not> bit w (rev [0..<32] ! i)"
    using takeWhile_first [of j "rev [0..<32]" "\<lambda>i. \<not> bit w i"] j by (auto simp: k_def simp del: upt_rec_numeral)
  then have u: "unat (clz w) = k" by (simp add: clz_def k_def [symmetric] unat_of_nat)
  show "unat (clz w) < 32" "bit w (31 - unat (clz w))" using f(1,2) r [OF f(1)] by (simp_all add: u)
  show "31 - unat (clz w) < i \<Longrightarrow> \<not> bit w i"
  proof (cases "i < 32")
    case True
    assume "31 - unat (clz w) < i"
    then have "31 - i < k" "rev [0..<32] ! (31 - i) = i" using True r [of "31 - i"] by (simp_all add: u)
    then show ?thesis using f(3) by metis
  next
    case False
    then show ?thesis using bit_imp_le_length [of w i] by auto
  qed
qed

section \<open>The bin of a size\<close>

definition tbin_of :: "nat \<Rightarrow> nat" where
  "tbin_of n = unat (calc_tbin (of_nat n))"

lemma top_bit_range:
  assumes "bit n m" "\<And>j. m < j \<Longrightarrow> \<not> bit (n :: nat) j"
  shows "n div 2 ^ m = 1"
proof -
  have "take_bit (Suc m) n = n"
    by (rule bit_eqI) (simp add: bit_take_bit_iff, metis assms(2) not_less_eq)
  then have "n < 2 ^ Suc m" using take_bit_nat_less_exp by metis
  then have "n div 2 ^ m < 2" by (simp add: less_mult_imp_div_less)
  moreover have "n div 2 ^ m \<noteq> 0" using assms(1) unfolding bit_iff_odd by (metis even_zero)
  ultimately show ?thesis by simp
qed

lemma calc_tbin_large:
  assumes "256 \<le> n" "n \<le> 0xFFFF00"
  obtains m where "8 \<le> m" "m \<le> 23" "tbin_of n = 2 * (m - 8) + (if bit n (m - 1) then 1 else 0)" "n div 2 ^ m = 1"
proof -
  define w where "w = (of_nat n :: u32)"
  have u: "unat w = n" using assms by (simp add: w_def unat_of_nat)
  have w: "w \<noteq> 0" using u assms by auto
  define m where "m = 31 - unat (clz w)"
  have bw: "bit n i = bit w i" for i unfolding u [symmetric] by (simp add: bit_unsigned_iff)
  have b: "bit n m" "\<And>j. m < j \<Longrightarrow> \<not> bit n j" using clz_top [OF w] by (simp_all add: m_def bw)
  have d: "n div 2 ^ m = 1" by (rule top_bit_range [OF b])
  have r: "2 ^ m \<le> n" "n < 2 * 2 ^ m"
  proof -
    have "n mod 2 ^ m < 2 ^ m" by simp
    moreover have "2 ^ m + n mod 2 ^ m = n" using d div_mult_mod_eq [of n "2 ^ m"] by simp
    ultimately show "2 ^ m \<le> n" "n < 2 * 2 ^ m" by (linarith, linarith)
  qed
  have m8: "8 \<le> m"
  proof (rule ccontr)
    assume "\<not> 8 \<le> m"
    then have "(2 :: nat) ^ m \<le> 2 ^ 7" by (intro power_increasing) auto
    then show False using r assms by simp
  qed
  have m23: "m \<le> 23"
  proof (rule ccontr)
    assume "\<not> m \<le> 23"
    then have "(2 :: nat) ^ 24 \<le> 2 ^ m" by (intro power_increasing) auto
    then show False using r assms by simp
  qed
  have msb: "31 - clz w = of_nat m"
  proof -
    have "clz w = of_nat (unat (clz w))" by simp
    moreover have "(31 :: u32) = of_nat (m + unat (clz w))" using clz_top(1) [OF w] by (simp add: m_def)
    ultimately show ?thesis by (metis add_diff_cancel_right' of_nat_add)
  qed
  have sub: "(of_nat m :: u32) - 8 = of_nat (m - 8)" "(of_nat m :: u32) - 1 = of_nat (m - 1)"
    using m8 by (simp_all add: of_nat_diff)
  have um: "unat (of_nat (m - 1) :: u32) = m - 1" using m23 by (simp add: unat_of_nat)
  have one: "drop_bit (m - 1) w AND 1 = (if bit n (m - 1) then 1 else 0)"
    by (simp add: and_one_eq mod_2_eq_odd bw flip: bit_iff_odd_drop_bit)
  have ev: "push_bit 1 (of_nat (m - 8) :: u32) OR 1 = push_bit 1 (of_nat (m - 8)) + 1"
    by (simp add: or_one_eq push_bit_eq_mult)
  have "\<not> w < push_bit 8 1" "\<not> w > push_bit 8 0xFFFF"
    using assms u by (auto simp: word_less_nat_alt push_bit_eq_mult)
  then have "calc_tbin w = push_bit 1 (of_nat (m - 8)) OR (if bit n (m - 1) then 1 else 0)"
    by (simp only: calc_tbin_def Let_def msb sub um one if_False)
  then have "calc_tbin w = push_bit 1 (of_nat (m - 8)) + (if bit n (m - 1) then 1 else 0)"
    using ev by (simp del: push_bit_of_nat)
  also have "\<dots> = of_nat (2 * (m - 8) + (if bit n (m - 1) then 1 else 0))"
    by (simp add: push_bit_eq_mult)
  finally have "tbin_of n = 2 * (m - 8) + (if bit n (m - 1) then 1 else 0)"
    using m23 by (simp add: tbin_of_def w_def [symmetric] unat_of_nat del: of_nat_add of_nat_mult of_nat_Suc)
  with that m8 m23 d show ?thesis by blast
qed

text \<open>The sizes of a bin agree from bit \<open>depth\<close> up, and larger bins hold larger sizes.\<close>

abbreviation tdepth :: "nat \<Rightarrow> nat" where "tdepth i \<equiv> i div 2 + 7"

lemma tbin_of_bits:
  assumes "256 \<le> n" "n \<le> 0xFFFF00"
  shows "tbin_of n < 32" "drop_bit (tdepth (tbin_of n)) n = 2 + tbin_of n mod 2"
proof -
  obtain m where m: "8 \<le> m" "m \<le> 23" "tbin_of n = 2 * (m - 8) + (if bit n (m - 1) then 1 else 0)" "n div 2 ^ m = 1"
    using calc_tbin_large [OF assms] by blast
  show "tbin_of n < 32" using m(1-3) by (cases "bit n (m - 1)") auto
  have "tdepth (tbin_of n) = m - 1" using m by simp
  moreover have "Suc (m - 1) = m" using m(1) by simp
  then have "drop_bit (m - 1) n = 2 + (if bit n (m - 1) then 1 else 0)"
    using drop_bit_Suc_bit [of "m - 1" n] m(4) by (simp add: drop_bit_eq_div)
  moreover have "tbin_of n mod 2 = (if bit n (m - 1) then 1 else 0)" using m(3) by simp
  ultimately show "drop_bit (tdepth (tbin_of n)) n = 2 + tbin_of n mod 2" by simp
qed

lemma tbin_of_less:
  assumes "256 \<le> a" "a \<le> 0xFFFF00" "256 \<le> b" "b \<le> 0xFFFF00" "tbin_of a < tbin_of b"
  shows "a < b"
proof (rule ccontr)
  assume "\<not> a < b"
  define i j where "i = tbin_of a" and "j = tbin_of b"
  have da: "drop_bit (tdepth i) a = 2 + i mod 2" and db: "drop_bit (tdepth j) b = 2 + j mod 2"
    using tbin_of_bits assms by (simp_all add: i_def j_def)
  have ij: "i < j" using assms(5) by (simp add: i_def j_def)
  have "b div 2 ^ tdepth j \<le> a div 2 ^ tdepth j" using \<open>\<not> a < b\<close> by (intro div_le_mono) simp
  also have "\<dots> = (a div 2 ^ tdepth i) div 2 ^ (j div 2 - i div 2)"
  proof -
    have "tdepth j = tdepth i + (j div 2 - i div 2)" using ij div_le_mono [of i j 2] by simp
    then show ?thesis by (metis div_mult2_eq power_add)
  qed
  finally have le: "2 + j mod 2 \<le> (2 + i mod 2) div 2 ^ (j div 2 - i div 2)"
    using da db by (simp add: drop_bit_eq_div)
  show False
  proof (cases "j div 2 = i div 2")
    case True
    then have "i mod 2 < j mod 2" using ij by presburger
    then show False using le True by simp
  next
    case False
    then have "1 \<le> j div 2 - i div 2" using ij div_le_mono [of i j 2] by simp
    then have "(2 :: nat) ^ 1 \<le> 2 ^ (j div 2 - i div 2)" by (intro power_increasing) auto
    then have "(2 + i mod 2) div 2 ^ (j div 2 - i div 2) \<le> (2 + i mod 2) div 2" by (intro div_le_mono2) simp_all
    moreover have "(2 + i mod 2) div 2 = 1" by simp
    ultimately show False using le by linarith
  qed
qed

lemma TBIN_DEPTH_depth: "i < 32 \<Longrightarrow> TBIN_DEPTH (of_nat i) = int (tdepth i)"
proof -
  assume i: "i < 32"
  have "unat (drop_bit 1 (of_nat i :: u32)) = i div 2"
    using i unfolding unat_drop_bit_eq by (simp add: drop_bit_eq_div unat_of_nat)
  then have "drop_bit 1 (of_nat i :: u32) = of_nat (i div 2)" by (metis of_nat_unat ucast_id)
  then have "drop_bit 1 (of_nat i :: u32) + 8 - 1 = of_nat (tdepth i)" by simp
  moreover have "sint (of_nat (tdepth i) :: u32) = int (tdepth i)"
  proof -
    have "unat (of_nat (tdepth i) :: u32) = tdepth i" using i by (simp add: unat_of_nat del: of_nat_add)
    then show ?thesis unfolding sint_u32 using i by (simp del: of_nat_add)
  qed
  ultimately show ?thesis by (simp add: TBIN_DEPTH_def add.commute)
qed

lemma leftbin_first:
  "bits \<noteq> 0 \<Longrightarrow> unat (calc_leftbin 0 bits) < 32 \<and> bit bits (unat (calc_leftbin 0 bits))"
  using ctz_first [of bits] by (simp add: calc_leftbin_def)

end
