(* ===== verification/KMalloc.thy ===== *)
theory KMalloc
  imports KTree KString
begin

text \<open>
  The allocator of libk: kmalloc_util.c, kmalloc.c, kfree.c, krealloc.c and kcalloc.c under
  src/lib/libk/src/kstdlib/malloc_free. The callbacks set in libk are the argument \<open>cb\<close>. Pointers
  returned are NULL on failure; \<open>int\<close> results are \<open>True\<close> for 0 (success). \<open>None\<close>: see KChunk.
\<close>

section \<open>Bins\<close>

definition kmalloc_init :: "addr \<Rightarrow> u32 \<Rightarrow> 'a kmstate_scheme \<Rightarrow> 'a kmstate_scheme" where
  "kmalloc_init heap_addr hsize s =
     (if heap_addr = NULL then s
      else
        let top_chunk = CHUNKALIGN heap_addr;
            offset = top_chunk - heap_addr
        in if offset + MINCHUNKSIZE + DUMMYSIZE > hsize then s
           else
             let top_size = CHUNKFLOOR (hsize - offset - DUMMYSIZE);
                 s = set_header top_chunk (top_size OR PINUSE) s;
                 s = set_prev top_chunk top_chunk s;
                 s = set_next top_chunk top_chunk s;
                 s = set_prev_foot (NEXTCHUNK top_chunk s) top_size s;
                 s = set_header (NEXTCHUNK top_chunk s) 0 s
             in s\<lparr>heap_start := top_chunk, heap_size := hsize - offset, initial_heap_size := hsize - offset,
                  sbinmap := 0, tbinmap := 0,
                  sbin := (\<lambda>i. if i < NSBINS then NULL else sbin s i),
                  tbin := (\<lambda>i. if i < NTBINS then NULL else tbin s i),
                  dVictim := NULL, dVictimSize := 0, topChunk := top_chunk, topChunkSize := top_size,
                  magic := KMALLOC_STATE_MAGIC\<rparr>)"

definition bin_chunk :: "addr \<Rightarrow> 'a kmstate_scheme \<Rightarrow> 'a kmstate_scheme option" where
  "bin_chunk chunk s =
     (let sz = GETCHUNKSIZE chunk s in
      if sz < MIN_LARGE_SIZE then
        let index = small_index sz
        in (case kmalloc_dllist_add chunk (sbin s (unat index)) s of
              (head, s) \<Rightarrow> Some (s\<lparr>sbin := (sbin s)(unat index := head), sbinmap := sbinmap s OR push_bit (unat index) 1\<rparr>))
      else
        let index = calc_tbin sz;
            s = set_bin_index chunk index s
        in map_option (\<lambda>(root, s). s\<lparr>tbin := (tbin s)(unat index := root), tbinmap := tbinmap s OR push_bit (unat index) 1\<rparr>)
             (kmalloc_tree_insert chunk (tbin s (unat index)) (TBIN_DEPTH index) s))"

text \<open>The bitmap loses its bit when the bin is empty.\<close>

definition clear_sbin :: "nat \<Rightarrow> 'a kmstate_scheme \<Rightarrow> 'a kmstate_scheme" where
  "clear_sbin i s = (if sbin s i = NULL then s\<lparr>sbinmap := sbinmap s AND NOT (push_bit i 1)\<rparr> else s)"

definition clear_tbin :: "nat \<Rightarrow> 'a kmstate_scheme \<Rightarrow> 'a kmstate_scheme" where
  "clear_tbin i s = (if tbin s i = NULL then s\<lparr>tbinmap := tbinmap s AND NOT (push_bit i 1)\<rparr> else s)"

definition unbin_chunk :: "addr \<Rightarrow> 'a kmstate_scheme \<Rightarrow> 'a kmstate_scheme option" where
  "unbin_chunk chunk s =
     (let sz = GETCHUNKSIZE chunk s in
      if sz < MIN_LARGE_SIZE then
        let index = unat (small_index sz)
        in (case kmalloc_dllist_remove_intern chunk (sbin s index) s of
              (head, _, s) \<Rightarrow> Some (clear_sbin index (s\<lparr>sbin := (sbin s)(index := head)\<rparr>)))
      else
        let index = unat (bin_index chunk s)
        in map_option (\<lambda>(root, s). clear_tbin index (s\<lparr>tbin := (tbin s)(index := root)\<rparr>))
             (kmalloc_tree_remove chunk (tbin s index) s))"

section \<open>The top of the heap\<close>

definition top_dummy :: "'a kmstate_scheme \<Rightarrow> 'a kmstate_scheme" where
  "top_dummy s =
     (let s = set_header (topChunk s) (topChunkSize s OR PINUSE) s;
          dummy = NEXTCHUNK (topChunk s) s;
          s = set_prev_foot dummy (topChunkSize s) s
      in set_header dummy 0 s)"

definition shrink_top :: "'a kmstate_scheme callbacks \<Rightarrow> 'a kmstate_scheme \<Rightarrow> 'a kmstate_scheme option" where
  "shrink_top cb s =
     (if topChunkSize s > HEAP_SHRINK_TRESHOLD \<and> heap_size s \<ge> initial_heap_size s then
        let decrease = topChunkSize s - HEAP_SHRINK_TRESHOLD;
            newsize = heap_size s - decrease;
            newsize = (if newsize < initial_heap_size s then initial_heap_size s else newsize);
            newsize = (newsize + (HEAP_SIZE_ALIGN - 1)) AND NOT (HEAP_SIZE_ALIGN - 1);
            decrease = heap_size s - newsize
        in if decrease > 0 then
             let decrease = (if decrease > HALF_MAX_SIZE_T then HALF_MAX_SIZE_T AND NOT (HEAP_SIZE_ALIGN - 1) else decrease)
             in map_option (\<lambda>(p, s).
                  if p \<noteq> -1 then
                    let s = s\<lparr>heap_size := heap_size s - decrease, topChunkSize := topChunkSize s - decrease\<rparr>
                    in if topChunkSize s \<noteq> 0 then top_dummy s else set_header (topChunk s) 0 s
                  else s)
                (SBRK_CALLBACK cb (- decrease) s)
           else Some s
      else Some s)"

definition grow_top :: "'a kmstate_scheme callbacks \<Rightarrow> u32 \<Rightarrow> 'a kmstate_scheme \<Rightarrow> (bool \<times> 'a kmstate_scheme) option" where
  "grow_top cb increment s =
     (let increment = (increment + (HEAP_SIZE_ALIGN - 1)) AND NOT (HEAP_SIZE_ALIGN - 1) in
      if increment > HALF_MAX_SIZE_T then Some (False, s)
      else map_option (\<lambda>(p, s).
             if p \<noteq> -1
             then (True, top_dummy (s\<lparr>heap_size := heap_size s + increment, topChunkSize := topChunkSize s + increment\<rparr>))
             else (False, s))
           (SBRK_CALLBACK cb increment s))"

definition take_top :: "u32 \<Rightarrow> 'a kmstate_scheme \<Rightarrow> addr \<times> 'a kmstate_scheme" where
  "take_top chunksize s =
     (if topChunkSize s - chunksize < MINCHUNKSIZE then
        let chunk = topChunk s;
            s = set_header chunk (chunksize OR PINUSE OR CINUSE) s;
            s = s\<lparr>topChunk := NEXTCHUNK chunk s, topChunkSize := 0\<rparr>
        in (CHUNK_PAYLOAD chunk, set_header (topChunk s) 0 s)
      else
        let split_size = topChunkSize s - chunksize;
            chunk = topChunk s;
            s = set_header chunk (chunksize OR PINUSE OR CINUSE) s;
            s = s\<lparr>topChunk := CHUNKOFFSET chunk chunksize\<rparr>;
            s = set_header (topChunk s) (split_size OR PINUSE) s;
            s = s\<lparr>topChunkSize := split_size\<rparr>
        in (CHUNK_PAYLOAD chunk, set_prev_foot (NEXTCHUNK (topChunk s) s) split_size s))"

definition split_top :: "'a kmstate_scheme callbacks \<Rightarrow> u32 \<Rightarrow> bool \<Rightarrow> 'a kmstate_scheme \<Rightarrow> (addr \<times> 'a kmstate_scheme) option" where
  "split_top cb chunksize allow_expand s =
     (if topChunkSize s < chunksize then
        if \<not> allow_expand then Some (NULL, s)
        else map_option (\<lambda>(ok, s). if ok then take_top chunksize s else (NULL, s))
               (grow_top cb (chunksize - topChunkSize s) s)
      else Some (take_top chunksize s))"

section \<open>Taking chunks\<close>

text \<open>A free chunk is taken whole: both it and the chunk after it learn that it is in use.\<close>

definition mark_inuse :: "addr \<Rightarrow> 'a kmstate_scheme \<Rightarrow> 'a kmstate_scheme" where
  "mark_inuse chunk s =
     (let s = set_header chunk (header chunk s OR CINUSE) s;
          next = NEXTCHUNK chunk s
      in set_header next (header next s OR PINUSE) s)"

definition allocate_dv :: "u32 \<Rightarrow> 'a kmstate_scheme \<Rightarrow> addr \<times> 'a kmstate_scheme" where
  "allocate_dv chunksize s =
     (if dVictim s = NULL \<or> dVictimSize s < chunksize then (NULL, s)
      else if dVictimSize s - chunksize < MINCHUNKSIZE then
        let chunk = dVictim s
        in (CHUNK_PAYLOAD chunk, (mark_inuse chunk s)\<lparr>dVictim := NULL, dVictimSize := 0\<rparr>)
      else
        let split_size = dVictimSize s - chunksize;
            chunk = dVictim s;
            s = set_header chunk (chunksize OR PINUSE OR CINUSE) s;
            s = s\<lparr>dVictim := CHUNKOFFSET chunk chunksize\<rparr>;
            s = set_header (dVictim s) (split_size OR PINUSE) s;
            s = s\<lparr>dVictimSize := split_size\<rparr>
        in (CHUNK_PAYLOAD chunk, set_prev_foot (NEXTCHUNK (dVictim s) s) split_size s))"

definition replace_dv :: "addr \<Rightarrow> 'a kmstate_scheme \<Rightarrow> 'a kmstate_scheme option" where
  "replace_dv new s =
     map_option (\<lambda>s. s\<lparr>dVictim := new, dVictimSize := GETCHUNKSIZE new s\<rparr>)
       (if dVictim s \<noteq> NULL then bin_chunk (dVictim s) s else Some s)"

definition split_sbin :: "u32 \<Rightarrow> u32 \<Rightarrow> 'a kmstate_scheme \<Rightarrow> (addr \<times> 'a kmstate_scheme) option" where
  "split_sbin index chunksize s =
     (case kmalloc_dllist_remove (sbin s (unat index)) s of
        (head, chunk, s) \<Rightarrow>
          let s = clear_sbin (unat index) (s\<lparr>sbin := (sbin s)(unat index := head)\<rparr>) in
          if chunk = NULL then Some (NULL, s)
          else
            let split_size = GETCHUNKSIZE chunk s - chunksize;
                s = set_header chunk (chunksize OR PINUSE OR CINUSE) s;
                new = CHUNKOFFSET chunk chunksize;
                s = set_header new (split_size OR PINUSE) s;
                s = set_prev_foot (NEXTCHUNK new s) split_size s
            in map_option (Pair (CHUNK_PAYLOAD chunk)) (replace_dv new s))"

definition allocate_sbin :: "u32 \<Rightarrow> 'a kmstate_scheme \<Rightarrow> addr \<times> 'a kmstate_scheme" where
  "allocate_sbin index s =
     (case kmalloc_dllist_remove (sbin s (unat index)) s of
        (head, chunk, s) \<Rightarrow>
          let s = clear_sbin (unat index) (s\<lparr>sbin := (sbin s)(unat index := head)\<rparr>) in
          if chunk = NULL then (NULL, s) else (CHUNK_PAYLOAD chunk, mark_inuse chunk s))"

definition allocate_tchunk :: "addr \<Rightarrow> u32 \<Rightarrow> 'a kmstate_scheme \<Rightarrow> (addr \<times> 'a kmstate_scheme) option" where
  "allocate_tchunk chunk wanted_size s =
     (if chunk = NULL then Some (NULL, s)
      else
        let index = unat (bin_index chunk s)
        in Option.bind (kmalloc_tree_remove chunk (tbin s index) s) (\<lambda>(root, s).
             let s = clear_tbin index (s\<lparr>tbin := (tbin s)(index := root)\<rparr>) in
             if GETCHUNKSIZE chunk s - wanted_size > MINCHUNKSIZE then
               let splitsize = GETCHUNKSIZE chunk s - wanted_size;
                   new = CHUNKOFFSET chunk wanted_size;
                   s = set_header chunk (wanted_size OR CINUSE OR PINUSE) s;
                   s = set_header new (splitsize OR PINUSE) s;
                   s = set_prev_foot (NEXTCHUNK new s) splitsize s
               in map_option (Pair (CHUNK_PAYLOAD chunk)) (replace_dv new s)
             else Some (CHUNK_PAYLOAD chunk, mark_inuse chunk s)))"

definition allocate_smallest_tbin :: "u32 \<Rightarrow> 'a kmstate_scheme \<Rightarrow> (addr \<times> 'a kmstate_scheme) option" where
  "allocate_smallest_tbin wanted_size s =
     (let t = calc_leftbin 0 (tbinmap s)
      in Option.bind (kmalloc_tree_get_smallest (tbin s (unat t)) s) (\<lambda>chunk. allocate_tchunk chunk wanted_size s))"

section \<open>kmalloc\<close>

text \<open>The two halves of \<open>kmalloc_intern\<close>: the search in the small bins and in the trees.\<close>

definition search_small :: "u32 \<Rightarrow> 'a kmstate_scheme \<Rightarrow> (addr \<times> 'a kmstate_scheme) option" where
  "search_small chunksize s =
     (let index = small_index chunksize;
          bits = drop_bit (unat index) (sbinmap s)
      in if bits AND 3 \<noteq> 0 then Some (allocate_sbin (index + (NOT bits AND 1)) s)
         else if chunksize > dVictimSize s then
           let index = index + 2;
               bits = drop_bit 2 bits
           in if bits \<noteq> 0 then split_sbin (index + calc_leftbin 0 bits) chunksize s
              else if tbinmap s \<noteq> 0 then allocate_smallest_tbin chunksize s
              else Some (NULL, s)
         else Some (NULL, s))"

definition search_tree :: "u32 \<Rightarrow> 'a kmstate_scheme \<Rightarrow> (addr \<times> 'a kmstate_scheme) option" where
  "search_tree chunksize s =
     (let index = calc_tbin chunksize in
      Option.bind (kmalloc_tree_get_best_fit chunksize (tbin s (unat index)) (TBIN_DEPTH index) s) (\<lambda>chunk.
        if chunk \<noteq> NULL then
          if chunksize > dVictimSize s \<or> GETCHUNKSIZE chunk s \<le> dVictimSize s
          then allocate_tchunk chunk chunksize s else Some (NULL, s)
        else
          let index = index + 1;
              bits = drop_bit (unat index) (tbinmap s)
          in if 32 \<le> index then None
             else if bits \<noteq> 0 then
               let index = index + calc_leftbin 0 bits;
                   dvindex = calc_tbin (dVictimSize s)
               in if dvindex \<ge> index \<or> chunksize > dVictimSize s then
                    Option.bind (kmalloc_tree_get_smallest (tbin s (unat index)) s) (\<lambda>chunk.
                      if chunksize > dVictimSize s \<or> GETCHUNKSIZE chunk s < dVictimSize s
                      then allocate_tchunk chunk chunksize s else Some (NULL, s))
                  else Some (NULL, s)
             else Some (NULL, s)))"

definition kmalloc_intern :: "'a kmstate_scheme callbacks \<Rightarrow> u32 \<Rightarrow> bool \<Rightarrow> 'a kmstate_scheme \<Rightarrow> (addr \<times> 'a kmstate_scheme) option" where
  "kmalloc_intern cb chunksize allow_expand s =
     Option.bind (if chunksize < MIN_LARGE_SIZE then search_small chunksize s else search_tree chunksize s)
       (\<lambda>(result, s).
          if result = NULL then
            if chunksize \<le> dVictimSize s then Some (allocate_dv chunksize s)
            else split_top cb chunksize allow_expand s
          else Some (result, s))"

definition kmalloc :: "'a kmstate_scheme callbacks \<Rightarrow> u32 \<Rightarrow> 'a kmstate_scheme \<Rightarrow> (addr \<times> 'a kmstate_scheme) option" where
  "kmalloc cb req s =
     (if \<not> KMALLOC_IS_INIT s then Some (NULL, s)
      else if REQUESTOVERFLOW req then Some (NULL, s)
      else kmalloc_intern cb (REQUEST2SIZE req) True s)"

section \<open>kfree\<close>

definition merge_free_chunks :: "'a kmstate_scheme callbacks \<Rightarrow> addr \<Rightarrow> u32 \<Rightarrow> addr \<Rightarrow> 'a kmstate_scheme \<Rightarrow> 'a kmstate_scheme option" where
  "merge_free_chunks cb first first_size next s =
     (if \<not> IS_INUSE next s then
        let next_size = GETCHUNKSIZE next s;
            new_size = first_size + next_size;
            s = set_header first (new_size OR PINUSE) s;
            s = set_prev_foot (CHUNKOFFSET first new_size) new_size s
        in if next = topChunk s then
             let s = (if first = dVictim s then s\<lparr>dVictim := NULL, dVictimSize := 0\<rparr> else s);
                 s = s\<lparr>topChunk := first, topChunkSize := new_size\<rparr>;
                 s = set_prev_foot (NEXTCHUNK (topChunk s) s) new_size s
             in shrink_top cb s
           else if next = dVictim s then Some (s\<lparr>dVictim := first, dVictimSize := new_size\<rparr>)
           else Option.bind (unbin_chunk next s) (\<lambda>s.
                  if first = dVictim s then Some (s\<lparr>dVictim := first, dVictimSize := new_size\<rparr>) else bin_chunk first s)
      else
        let s = set_header first (first_size OR PINUSE) s;
            s = set_prev_foot next first_size s;
            s = set_header next (header next s AND NOT PINUSE) s
        in if first = dVictim s then Some (s\<lparr>dVictim := first, dVictimSize := first_size\<rparr>) else bin_chunk first s)"

definition kfree :: "'a kmstate_scheme callbacks \<Rightarrow> addr \<Rightarrow> 'a kmstate_scheme \<Rightarrow> 'a kmstate_scheme option" where
  "kfree cb ptr s =
     (let chunk = PAYLOAD_CHUNK ptr in
      if ptr = NULL \<or> \<not> KMALLOC_IS_INIT s then Some s
      else if \<not> ADDRESS_OK chunk s \<or> \<not> IS_INUSE chunk s then Some (ABORT_CALLBACK cb s)
      else
        let next = NEXTCHUNK chunk s in
        if PREV_INUSE chunk s = 0 then
          let csize = prev_foot chunk s;
              prev = PREVCHUNK chunk s
          in if \<not> ADDRESS_OK prev s \<or> GETCHUNKSIZE prev s \<noteq> csize \<or> IS_INUSE prev s then Some (ABORT_CALLBACK cb s)
             else
               let freesize = GETCHUNKSIZE chunk s + csize
               in Option.bind (if dVictim s \<noteq> prev then unbin_chunk prev s else Some s) (\<lambda>s.
                    let next = NEXTCHUNK chunk s in
                    if \<not> ADDRESS_OK next s then Some (ABORT_CALLBACK cb s)
                    else merge_free_chunks cb prev freesize next s)
        else if \<not> ADDRESS_OK next s then Some (ABORT_CALLBACK cb s)
        else merge_free_chunks cb chunk (GETCHUNKSIZE chunk s) next s)"

section \<open>krealloc and kcalloc\<close>

definition try_expand_chunk :: "addr \<Rightarrow> u32 \<Rightarrow> 'a kmstate_scheme \<Rightarrow> (bool \<times> 'a kmstate_scheme) option" where
  "try_expand_chunk chunk new_size s =
     (if \<not> IS_INUSE chunk s \<or> new_size < GETCHUNKSIZE chunk s then Some (False, s)
      else
        let diff = new_size - GETCHUNKSIZE chunk s;
            next = NEXTCHUNK chunk s
        in if \<not> IS_INUSE next s \<and> GETCHUNKSIZE next s \<ge> diff then
             let free_size = GETCHUNKSIZE next s - diff in
             if free_size > MINCHUNKSIZE then
               let s = set_header chunk (new_size OR CINUSE OR PREV_INUSE chunk s) s;
                   new = CHUNKOFFSET next diff;
                   s = set_header new (free_size OR PINUSE) s;
                   s = set_prev_foot (CHUNKOFFSET new free_size) free_size s
               in if next = topChunk s then Some (True, s\<lparr>topChunk := new, topChunkSize := free_size\<rparr>)
                  else if next = dVictim s then Some (True, s\<lparr>dVictim := new, dVictimSize := free_size\<rparr>)
                  else map_option (Pair True) (Option.bind (unbin_chunk next s) (bin_chunk new))
             else
               let new_size = new_size + free_size;
                   s = set_header chunk (new_size OR CINUSE OR PREV_INUSE chunk s) s
               in map_option (\<lambda>s.
                    let next = NEXTCHUNK chunk s
                    in (True, if header next s \<noteq> 0 then set_header next (header next s OR PINUSE) s else s))
                  (if next = topChunk s then Some (s\<lparr>topChunk := NEXTCHUNK chunk s, topChunkSize := 0\<rparr>)
                   else if next = dVictim s then Some (s\<lparr>dVictim := NULL, dVictimSize := 0\<rparr>)
                   else unbin_chunk next s)
           else Some (False, s))"

definition krealloc :: "'a kmstate_scheme callbacks \<Rightarrow> addr \<Rightarrow> u32 \<Rightarrow> 'a kmstate_scheme \<Rightarrow> (addr \<times> 'a kmstate_scheme) option" where
  "krealloc cb ptr req_size s =
     (if ptr = NULL then kmalloc cb req_size s
      else if req_size = 0 then map_option (Pair NULL) (kfree cb ptr s)
      else if \<not> KMALLOC_IS_INIT s then Some (NULL, s)
      else
        let chunk = PAYLOAD_CHUNK ptr in
        if \<not> ADDRESS_OK chunk s \<or> \<not> IS_INUSE chunk s then Some (NULL, ABORT_CALLBACK cb s)
        else
          let next = NEXTCHUNK chunk s in
          if \<not> ADDRESS_OK next s then Some (NULL, ABORT_CALLBACK cb s)
          else
            let old_capacity = CHUNK_PAYLOAD_SIZE chunk s;
                new_size = REQUEST2SIZE req_size;
                cur_size = GETCHUNKSIZE chunk s
            in if new_size = cur_size then Some (ptr, s)
               else if new_size < cur_size then
                 let diff = cur_size - new_size in
                 if diff < MINCHUNKSIZE \<and> IS_INUSE next s then Some (ptr, s)
                 else
                   let s = set_header chunk (new_size OR CINUSE OR PREV_INUSE chunk s) s;
                       new = NEXTCHUNK chunk s
                   in map_option (Pair ptr) (merge_free_chunks cb new diff next s)
               else
                 Option.bind (try_expand_chunk chunk new_size s) (\<lambda>(ok, s).
                   if ok then Some (ptr, s)
                   else Option.bind (kmalloc_intern cb new_size True s) (\<lambda>(new_location, s).
                     if new_location \<noteq> NULL then
                       (case kmemcpy (hmem s) new_location ptr old_capacity of
                          (m, result) \<Rightarrow> map_option (Pair result) (kfree cb ptr (s\<lparr>hmem := m\<rparr>)))
                     else Some (NULL, s))))"

definition kcalloc :: "'a kmstate_scheme callbacks \<Rightarrow> u32 \<Rightarrow> u32 \<Rightarrow> 'a kmstate_scheme \<Rightarrow> (addr \<times> 'a kmstate_scheme) option" where
  "kcalloc cb nmemb sz s =
     (let msize = sz * nmemb in
      map_option (\<lambda>(ptr, s). if ptr \<noteq> NULL then (ptr, s\<lparr>hmem := fst (kmemset (hmem s) ptr 0 msize)\<rparr>) else (ptr, s))
        (kmalloc cb msize s))"

end
