(* ===== verification/KBins.thy ===== *)
theory KBins
  imports KTreeFit KBinIndex KMalloc
begin

text \<open>
  The bins of the allocator as a set of free chunks. \<open>bins_ok s F\<close> says that the bins of the state \<open>s\<close> hold
  exactly the chunks \<open>F\<close>, pairs of an address and a size, each in the bin of its size, and that the bitmaps are
  those of the bins that are not empty. \<open>bin_chunk\<close> and \<open>unbin_chunk\<close> (kmalloc_util.c) add and remove one chunk.
\<close>

section \<open>Sets of free chunks\<close>

definition fits :: "(nat \<times> nat) set \<Rightarrow> bool" where
  "fits F \<longleftrightarrow> (\<forall>x n. (x, n) \<in> F \<longrightarrow> okaddr x \<and> 16 \<le> n \<and> n \<le> 0xFFFF00 \<and> n mod 8 = 0)
     \<and> (\<forall>x n y m. (x, n) \<in> F \<longrightarrow> (y, m) \<in> F \<longrightarrow> (x, n) = (y, m) \<or> x + n \<le> y \<or> y + m \<le> x)"

text \<open>The inner words of chunks, where free chunks keep their links.\<close>

definition body :: "(nat \<times> nat) set \<Rightarrow> nat set" where
  "body G = {a. \<exists>x n k. (x, n) \<in> G \<and> 8 \<le> k \<and> k < n \<and> k < 32 \<and> a = x + k}"

lemma fitsD: "fits F \<Longrightarrow> (x, n) \<in> F \<Longrightarrow> okaddr x \<and> 16 \<le> n \<and> n \<le> 0xFFFF00 \<and> n mod 8 = 0"
  by (simp add: fits_def)

lemma fits_disjoint:
  "\<lbrakk>fits F; (x, n) \<in> F; (y, m) \<in> F; (x, n) \<noteq> (y, m)\<rbrakk> \<Longrightarrow> x + n \<le> y \<or> y + m \<le> x"
  unfolding fits_def by meson

lemma fits_subset: "fits F \<Longrightarrow> G \<subseteq> F \<Longrightarrow> fits G"
  unfolding fits_def by blast

lemma fits_fst: "\<lbrakk>fits F; (x, n) \<in> F; (x, m) \<in> F\<rbrakk> \<Longrightarrow> n = m"
proof (rule ccontr)
  assume a: "fits F" "(x, n) \<in> F" "(x, m) \<in> F" "n \<noteq> m"
  then show False using fits_disjoint [of F x n x m] fitsD [of F x n] fitsD [of F x m] by auto
qed

lemma body_mono: "G \<subseteq> H \<Longrightarrow> body G \<subseteq> body H"
  unfolding body_def by blast

lemma body_disjoint:
  assumes "fits F" "G \<subseteq> F" "(x, n) \<in> F" "(x, n) \<notin> G" "k < n"
  shows "x + k \<notin> body G"
proof
  assume "x + k \<in> body G"
  then obtain y m j where y: "(y, m) \<in> G" "j < m" "x + k = y + j" unfolding body_def by blast
  then have "x + n \<le> y \<or> y + m \<le> x" using fits_disjoint [OF assms(1,3), of y m] assms(2,4) by blast
  then show False using y assms(5) by linarith
qed

lemma body_header: "\<lbrakk>fits F; G \<subseteq> F; (x, n) \<in> F; k < 8\<rbrakk> \<Longrightarrow> x + k \<notin> body G"
proof
  assume a: "fits F" "G \<subseteq> F" "(x, n) \<in> F" "k < 8" and "x + k \<in> body G"
  then obtain y m j where y: "(y, m) \<in> G" "8 \<le> j" "j < m" "x + k = y + j" unfolding body_def by blast
  show False
  proof (cases "(x, n) = (y, m)")
    case False
    then have "x + n \<le> y \<or> y + m \<le> x" using fits_disjoint [OF a(1,3), of y m] a(2) y(1) by blast
    then show False using y a(4) fitsD [OF a(1,3)] by linarith
  qed (use y a(4) in auto)
qed

text \<open>Operations that change only the memory and the bins.\<close>

definition same_env :: "'a kmstate_scheme \<Rightarrow> 'a kmstate_scheme \<Rightarrow> bool" where
  "same_env s s' \<longleftrightarrow> s' = s\<lparr>hmem := hmem s', sbin := sbin s', tbin := tbin s', sbinmap := sbinmap s', tbinmap := tbinmap s'\<rparr>"

lemma same_env_refl [simp]: "same_env s s"
  by (simp add: same_env_def)

lemma same_env_trans: "same_env s s' \<Longrightarrow> same_env s' s'' \<Longrightarrow> same_env s s''"
  by (cases s; cases s'; cases s'') (simp add: same_env_def)

lemma same_env_only_mem: "only_mem s s' \<Longrightarrow> same_env s s'"
  by (cases s; cases s') (simp add: only_mem_def same_env_def)

lemma same_envD:
  assumes "same_env s s'"
  shows "heap_start s' = heap_start s" "heap_size s' = heap_size s" "initial_heap_size s' = initial_heap_size s"
    "dVictim s' = dVictim s" "dVictimSize s' = dVictimSize s" "topChunk s' = topChunk s" "topChunkSize s' = topChunkSize s"
    "magic s' = magic s" "kmstate.more s' = kmstate.more s"
  using assms by (cases s; cases s'; simp add: same_env_def)+

lemma only_memD:
  assumes "only_mem s s'"
  shows "sbin s' = sbin s" "tbin s' = tbin s" "sbinmap s' = sbinmap s" "tbinmap s' = tbinmap s"
  using assms by (cases s; cases s'; simp add: only_mem_def)+

lemma wd_update [simp]:
  "wd (s\<lparr>sbin := b\<rparr>) = wd s" "wd (s\<lparr>tbin := b\<rparr>) = wd s" "wd (s\<lparr>sbinmap := m\<rparr>) = wd s" "wd (s\<lparr>tbinmap := m\<rparr>) = wd s"
  "wd (s\<lparr>dVictim := a\<rparr>) = wd s" "wd (s\<lparr>dVictimSize := m\<rparr>) = wd s" "wd (s\<lparr>topChunk := a\<rparr>) = wd s"
  "wd (s\<lparr>topChunkSize := m\<rparr>) = wd s" "wd (s\<lparr>heap_size := m\<rparr>) = wd s"
  by (auto simp: wd_def rd_def fun_eq_iff)

section \<open>The bins\<close>

definition small_at :: "'a kmstate_scheme \<Rightarrow> nat \<Rightarrow> nat set \<Rightarrow> bool" where
  "small_at s i X \<longleftrightarrow> (\<exists>xs. sbin s i = hptr xs \<and> circ (wd s) xs \<and> distinct xs \<and> set xs = X \<and> (bit (sbinmap s) i \<longleftrightarrow> xs \<noteq> []))"

definition large_at :: "'a kmstate_scheme \<Rightarrow> nat \<Rightarrow> (nat \<times> nat) set \<Rightarrow> bool" where
  "large_at s i P \<longleftrightarrow> (\<exists>T. tbin s i = tptr T \<and> tree_at (wd s) NULL T \<and> distinct (chunks T) \<and> set (pairs T) = P
     \<and> trie (tdepth i) T \<and> (\<forall>x \<in> fst ` P. wd s (x + 28) = of_nat i) \<and> (bit (tbinmap s) i \<longleftrightarrow> T \<noteq> Tip))"

definition smalls :: "(nat \<times> nat) set \<Rightarrow> nat \<Rightarrow> nat set" where
  "smalls F i = {x. (x, 8 * i) \<in> F}"

definition larges :: "(nat \<times> nat) set \<Rightarrow> nat \<Rightarrow> (nat \<times> nat) set" where
  "larges F i = {(x, n). (x, n) \<in> F \<and> 256 \<le> n \<and> tbin_of n = i}"

definition bins_ok :: "'a kmstate_scheme \<Rightarrow> (nat \<times> nat) set \<Rightarrow> bool" where
  "bins_ok s F \<longleftrightarrow> (\<forall>i < 32. small_at s i (smalls F i) \<and> large_at s i (larges F i))"

lemma small_frame:
  assumes "small_at s i X" "sbin s' i = sbin s i" "bit (sbinmap s') i = bit (sbinmap s) i"
    "\<And>x k. x \<in> X \<Longrightarrow> k \<in> {8, 12} \<Longrightarrow> wd s' (x + k) = wd s (x + k)"
  shows "small_at s' i X"
proof -
  obtain xs where xs: "sbin s i = hptr xs" "circ (wd s) xs" "distinct xs" "set xs = X" "bit (sbinmap s) i \<longleftrightarrow> xs \<noteq> []"
    using assms(1) unfolding small_at_def by blast
  have "circ (wd s') xs = circ (wd s) xs" by (rule circ_cong) (use assms(4) xs(4) in auto)
  then show ?thesis using xs assms(2,3) unfolding small_at_def by metis
qed

lemma large_frame:
  assumes "large_at s i P" "tbin s' i = tbin s i" "bit (tbinmap s') i = bit (tbinmap s) i"
    "\<And>x k. x \<in> fst ` P \<Longrightarrow> k \<in> {4, 8, 12, 16, 20, 24, 28} \<Longrightarrow> wd s' (x + k) = wd s (x + k)"
  shows "large_at s' i P"
proof -
  obtain T where T: "tbin s i = tptr T" "tree_at (wd s) NULL T" "distinct (chunks T)" "set (pairs T) = P" "trie (tdepth i) T"
    "\<forall>x \<in> fst ` P. wd s (x + 28) = of_nat i" "bit (tbinmap s) i \<longleftrightarrow> T \<noteq> Tip"
    using assms(1) unfolding large_at_def by blast
  have "agree (wd s') (wd s) (set (chunks T))" using assms(4) T(4) by (auto simp: agree_def)
  then have "tree_at (wd s') NULL T" using T(2) tree_frame by blast
  then show ?thesis using T assms(2,3,4) unfolding large_at_def by (intro exI [of _ T]) auto
qed

lemma small_keep:
  assumes "small_at s i (smalls F i)" "fits F" "G \<subseteq> F" "\<And>x. (x, 8 * i) \<notin> G" "\<And>a. a \<notin> body G \<Longrightarrow> wd s' a = wd s a"
    "sbin s' i = sbin s i" "bit (sbinmap s') i = bit (sbinmap s) i"
  shows "small_at s' i (smalls F i)"
  using assms(1,6,7)
proof (rule small_frame)
  fix x k :: nat assume x: "x \<in> smalls F i" "k \<in> {8, 12}"
  then have "(x, 8 * i) \<in> F" by (simp add: smalls_def)
  moreover then have "16 \<le> 8 * i" using fitsD [OF assms(2)] by blast
  ultimately have "x + k \<notin> body G" using body_disjoint [OF assms(2,3) _ assms(4)] x(2) by auto
  then show "wd s' (x + k) = wd s (x + k)" by (rule assms(5))
qed

lemma large_keep:
  assumes "large_at s i (larges F i)" "fits F" "G \<subseteq> F" "\<And>x n. (x, n) \<in> larges F i \<Longrightarrow> (x, n) \<notin> G"
    "\<And>a. a \<notin> body G \<Longrightarrow> wd s' a = wd s a" "tbin s' i = tbin s i" "bit (tbinmap s') i = bit (tbinmap s) i"
  shows "large_at s' i (larges F i)"
  using assms(1,6,7)
proof (rule large_frame)
  fix x k :: nat assume x: "x \<in> fst ` larges F i" "k \<in> {4, 8, 12, 16, 20, 24, 28}"
  then obtain n where n: "(x, n) \<in> larges F i" by auto
  then have "(x, n) \<in> F" "256 \<le> n" "(x, n) \<notin> G" using assms(4) by (auto simp: larges_def)
  then have "x + k \<notin> body G" using body_disjoint [OF assms(2,3)] x(2) by auto
  then show "wd s' (x + k) = wd s (x + k)" by (rule assms(5))
qed

lemma bits_set [simp]: "i < 32 \<Longrightarrow> bit (m OR 2 ^ j :: u32) i \<longleftrightarrow> bit m i \<or> i = j"
  by (auto simp: bit_simps)

lemma bits_clear [simp]: "i < 32 \<Longrightarrow> bit (m AND NOT (2 ^ j) :: u32) i \<longleftrightarrow> bit m i \<and> i \<noteq> j"
  by (auto simp: bit_simps)

lemma bins_congruent:
  "\<lbrakk>bins_ok s F; sbin s' = sbin s; tbin s' = tbin s; sbinmap s' = sbinmap s; tbinmap s' = tbinmap s;
    fits F; \<And>x n k. (x, n) \<in> F \<Longrightarrow> 4 \<le> k \<Longrightarrow> k < n \<Longrightarrow> k < 32 \<Longrightarrow> wd s' (x + k) = wd s (x + k)\<rbrakk> \<Longrightarrow> bins_ok s' F"
proof -
  assume a: "bins_ok s F" "sbin s' = sbin s" "tbin s' = tbin s" "sbinmap s' = sbinmap s" "tbinmap s' = tbinmap s" "fits F"
    and w: "\<And>x n k. (x, n) \<in> F \<Longrightarrow> 4 \<le> k \<Longrightarrow> k < n \<Longrightarrow> k < 32 \<Longrightarrow> wd s' (x + k) = wd s (x + k)"
  show "bins_ok s' F" unfolding bins_ok_def
  proof (intro allI impI conjI)
    fix i :: nat assume i: "i < 32"
    have st: "small_at s i (smalls F i)" "large_at s i (larges F i)" using a(1) i by (simp_all add: bins_ok_def)
    show "small_at s' i (smalls F i)"
    proof (rule small_frame [OF st(1)])
      fix x k :: nat assume "x \<in> smalls F i" "k \<in> {8, 12}"
      then show "wd s' (x + k) = wd s (x + k)" using w [of x "8 * i" k] fitsD [OF a(6), of x "8 * i"] by (auto simp: smalls_def)
    qed (simp_all add: a)
    show "large_at s' i (larges F i)"
    proof (rule large_frame [OF st(2)])
      fix x k :: nat assume "x \<in> fst ` larges F i" "k \<in> {4, 8, 12, 16, 20, 24, 28}"
      then show "wd s' (x + k) = wd s (x + k)" using w by (auto simp: larges_def)
    qed (simp_all add: a)
  qed
qed

section \<open>Small bins\<close>

lemma links_body: "\<lbrakk>fits F; \<And>x. x \<in> X \<Longrightarrow> (x, n) \<in> G; G \<subseteq> F\<rbrakk> \<Longrightarrow> links X \<subseteq> body G"
proof -
  assume a: "fits F" "\<And>x. x \<in> X \<Longrightarrow> (x, n) \<in> G" "G \<subseteq> F"
  then have "16 \<le> n" if "x \<in> X" for x using that fitsD [OF a(1)] by blast
  then show ?thesis using a(2) unfolding links_def body_def by fastforce
qed

lemma smalls_chunks_ok: "\<lbrakk>fits F; distinct xs; set xs \<subseteq> smalls F i\<rbrakk> \<Longrightarrow> chunks_ok xs"
  using fitsD by (auto simp: chunks_ok_def smalls_def)

lemma small_size: "(n :: nat) < 256 \<Longrightarrow> n mod 8 = 0 \<Longrightarrow> n = 8 * (n div 8) \<and> n div 8 < 32"
  by presburger

text \<open>What an operation on the small bin \<open>j\<close> leaves of the bins, when it changes links only in that bin.\<close>

lemma bins_small_change:
  assumes b: "bins_ok s F" and f: "fits (F \<union> F')" and G: "G \<subseteq> F \<union> F'" "\<And>x n. (x, n) \<in> G \<Longrightarrow> n = 8 * j" and j: "j < 32"
    and same: "\<And>x n. n \<noteq> 8 * j \<Longrightarrow> (x, n) \<in> F' \<longleftrightarrow> (x, n) \<in> F"
    and w: "\<And>a. a \<notin> body G \<Longrightarrow> wd s' a = wd s a"
    and tb: "tbin s' = tbin s" "tbinmap s' = tbinmap s" "\<And>i. i \<noteq> j \<Longrightarrow> sbin s' i = sbin s i"
      "\<And>i. i < 32 \<Longrightarrow> i \<noteq> j \<Longrightarrow> bit (sbinmap s') i = bit (sbinmap s) i"
    and new: "small_at s' j (smalls F' j)"
  shows "bins_ok s' F'"
  unfolding bins_ok_def
proof (intro allI impI conjI)
  fix i :: nat assume i: "i < 32"
  have st: "small_at s i (smalls F i)" "large_at s i (larges F i)" using b i by (simp_all add: bins_ok_def)
  have G8: "(x, n) \<in> larges F i \<Longrightarrow> (x, n) \<notin> G" for x n using G(2) [of x n] j by (auto simp: larges_def)
  have eq: "larges (F \<union> F') i = larges F i" "larges F' i = larges F i" using same j by (auto simp: larges_def)
  show "large_at s' i (larges F' i)"
    using large_keep [of s i "F \<union> F'" G s'] st(2) f G(1) G8 w tb(1,2) unfolding eq by simp
  show "small_at s' i (smalls F' i)"
  proof (cases "i = j")
    case False
    then have eqs: "smalls (F \<union> F') i = smalls F i" "smalls F' i = smalls F i" using same by (auto simp: smalls_def)
    have "(x, 8 * i) \<notin> G" for x using G(2) [of x "8 * i"] False by auto
    then show ?thesis using small_keep [of s i "F \<union> F'" G s'] st(1) f G(1) w tb(3,4) i False unfolding eqs by simp
  qed (use new in simp)
qed

lemma small_remove:
  assumes b: "bins_ok s F" and f: "fits F" and x: "(x, 8 * j) \<in> F" and j: "j < 32"
    and xs: "sbin s j = hptr (us @ x # vs)" "circ (wd s) (us @ x # vs)" "distinct (us @ x # vs)" "set (us @ x # vs) = smalls F j"
    and s1: "circ (wd s1) (us @ vs)" "writes (links (set (us @ vs))) s s1"
    and s': "s' = clear_sbin j (s1\<lparr>sbin := (sbin s1)(j := hptr (us @ vs))\<rparr>)"
  shows "bins_ok s' (F - {(x, 8 * j)})" "same_env s s'" "\<forall>a. a \<notin> body (F - {(x, 8 * j)}) \<longrightarrow> wd s' a = wd s a"
proof -
  let ?F' = "F - {(x, 8 * j)}"
  define G where "G = (\<lambda>y. (y, 8 * j)) ` set (us @ vs)"
  have mem: "(y, 8 * j) \<in> ?F'" if "y \<in> set (us @ vs)" for y
  proof -
    have "y \<in> smalls F j" "y \<noteq> x" using that xs(3,4) by auto
    then show ?thesis by (simp add: smalls_def)
  qed
  then have G: "G \<subseteq> ?F'" by (auto simp: G_def)
  have om: "only_mem s s1" using s1(2) by (simp add: writes_def)
  have hn: "hptr (us @ vs) = NULL \<longleftrightarrow> us @ vs = []"
  proof (cases "us @ vs")
    case (Cons y ys)
    then have "okaddr y" using mem [of y] fitsD [OF f] by auto
    then show ?thesis unfolding Cons by simp
  qed simp
  have sb: "sbin s' = (sbin s)(j := hptr (us @ vs))" "tbin s' = tbin s" "tbinmap s' = tbinmap s" "wd s' = wd s1"
    using only_memD [OF om] by (simp_all add: s' clear_sbin_def)
  have bm: "bit (sbinmap s') i \<longleftrightarrow> bit (sbinmap s) i \<and> (i = j \<longrightarrow> us @ vs \<noteq> [])" if "i < 32" for i
    using only_memD [OF om] hn that by (auto simp: s' clear_sbin_def)
  have st: "bit (sbinmap s) j" using b j x unfolding bins_ok_def small_at_def smalls_def by (metis empty_iff empty_set mem_Collect_eq)
  have w: "wd s' a = wd s a" if "a \<notin> body G" for a
  proof -
    have "links (set (us @ vs)) \<subseteq> body G" by (rule links_body [OF f]) (use G in \<open>auto simp: G_def\<close>)
    then have "a \<notin> links (set (us @ vs))" using that by blast
    then show ?thesis using s1(2) by (simp add: sb writes_def)
  qed
  show "\<forall>a. a \<notin> body ?F' \<longrightarrow> wd s' a = wd s a" using w body_mono [OF G] by blast
  show "same_env s s'" using om by (cases s; cases s1) (simp add: s' clear_sbin_def same_env_def only_mem_def)
  have "set (us @ vs) = smalls ?F' j" using xs(3,4) mem by (auto simp: smalls_def)
  moreover have "distinct (us @ vs)" using xs(3) by simp
  ultimately have new: "small_at s' j (smalls ?F' j)"
    unfolding small_at_def using sb s1(1) bm [OF j] st by (intro exI [of _ "us @ vs"]) simp
  have "fits (F \<union> ?F')" using f by (simp add: Un_absorb2)
  from b this show "bins_ok s' ?F'"
    by (rule bins_small_change [where G = G and j = j]) (use G new sb bm w j in \<open>auto simp: G_def\<close>)
qed

lemma small_bin_list:
  assumes "bins_ok s F" "j < 32"
  obtains xs where "sbin s j = hptr xs" "circ (wd s) xs" "distinct xs" "set xs = smalls F j" "bit (sbinmap s) j \<longleftrightarrow> xs \<noteq> []"
  using assms unfolding bins_ok_def small_at_def by blast

text \<open>Adding a chunk to a small bin.\<close>

lemma bin_small:
  assumes b: "bins_ok s F" and f: "fits (insert (x, n) F)" and x: "(x, n) \<notin> F" and n: "n < 256" "csize (wd s) x = of_nat n"
  obtains s' where "bin_chunk (of_nat x) s = Some s'" "bins_ok s' (insert (x, n) F)" "same_env s s'"
    "\<forall>a. a \<notin> body (insert (x, n) F) \<longrightarrow> wd s' a = wd s a"
proof -
  let ?F' = "insert (x, n) F"
  define j where "j = n div 8"
  have okx: "okaddr x" "n mod 8 = 0" using fitsD [OF f] by blast+
  have j: "n = 8 * j" "j < 32" using small_size [OF n(1) okx(2)] by (simp_all add: j_def)
  obtain xs where xs: "sbin s j = hptr xs" "circ (wd s) xs" "distinct xs" "set xs = smalls F j"
    "bit (sbinmap s) j \<longleftrightarrow> xs \<noteq> []"
    by (rule small_bin_list [OF b j(2)])
  have xn: "x \<notin> set xs" using x xs(4) j(1) by (simp add: smalls_def)
  have mem: "(y, 8 * j) \<in> ?F'" if "y \<in> set (x # xs)" for y using that xs(4) j(1) by (auto simp: smalls_def)
  have "okaddr y" if "y \<in> set (x # xs)" for y using fitsD [OF f mem [OF that]] by simp
  then have okl: "chunks_ok (x # xs)" using xs(3) xn unfolding chunks_ok_def by simp
  define s1 where "s1 = snd (kmalloc_dllist_add (of_nat x) (hptr xs) s)"
  have "(fst (kmalloc_dllist_add (of_nat x) (hptr xs) s), s1) = kmalloc_dllist_add (of_nat x) (hptr xs) s" by (simp add: s1_def)
  note a = dllist_add [OF xs(2) okl this]
  have om: "only_mem s s1" using a(3) by (simp add: writes_def)
  have sz: "GETCHUNKSIZE (of_nat x) s = of_nat n" using okx(1) n(2) by simp
  have un: "unat (of_nat n :: u32) = n" using n(1) by (simp add: unat_of_nat)
  have idx: "unat (small_index (of_nat n)) = j"
    unfolding small_index_def unat_drop_bit_eq un by (simp add: drop_bit_eq_div j_def)
  define s' where "s' = s1\<lparr>sbin := (sbin s1)(j := of_nat x), sbinmap := sbinmap s1 OR push_bit j 1\<rparr>"
  have lt: "(of_nat n :: u32) < MIN_LARGE_SIZE" using n(1) un by (simp add: MIN_LARGE_SIZE_def word_less_nat_alt)
  have s': "bin_chunk (of_nat x) s = Some s'"
    unfolding bin_chunk_def Let_def sz idx xs(1) if_P [OF lt]
    using a(1) by (cases "kmalloc_dllist_add (of_nat x) (hptr xs) s") (simp add: s'_def s1_def)
  define G where "G = (\<lambda>y. (y, 8 * j)) ` set (x # xs)"
  have G: "G \<subseteq> ?F'" using mem by (auto simp: G_def)
  have w: "wd s' a = wd s a" if "a \<notin> body G" for a
  proof -
    have "links (set (x # xs)) \<subseteq> body G" by (rule links_body [OF f _ G, of _ "8 * j"]) (auto simp: G_def)
    then have "a \<notin> links (set (x # xs))" using that by blast
    then show ?thesis using a(3) by (simp add: s'_def writes_def)
  qed
  have wb: "\<forall>a. a \<notin> body ?F' \<longrightarrow> wd s' a = wd s a" using w body_mono [OF G] by blast
  have en: "same_env s s'" using om
    by (cases s; cases s1) (simp add: s'_def same_env_def only_mem_def)
  have sb: "sbin s' = (sbin s)(j := of_nat x)" "tbin s' = tbin s" "tbinmap s' = tbinmap s" "sbinmap s' = sbinmap s OR push_bit j 1"
    using only_memD [OF om] by (simp_all add: s'_def)
  have "set (x # xs) = smalls ?F' j" using xs(4) j(1) by (auto simp: smalls_def)
  then have new: "small_at s' j (smalls ?F' j)"
    unfolding small_at_def using sb a(2) xs(3) xn j(2) by (intro exI [of _ "x # xs"]) (simp add: s'_def)
  have f2: "fits (F \<union> ?F')" using f by (simp add: Un_absorb1 subset_insertI)
  have G1: "G \<subseteq> F \<union> ?F'" and G2: "(y, m) \<in> G \<Longrightarrow> m = 8 * j" and same: "m \<noteq> 8 * j \<Longrightarrow> (y, m) \<in> ?F' \<longleftrightarrow> (y, m) \<in> F" for y m
    using G j(1) by (blast, auto simp: G_def)
  have "bins_ok s' ?F'"
    by (rule bins_small_change [OF b f2 G1 G2 j(2) same w]) (use new sb in simp_all)
  then show ?thesis using that s' en wb by blast
qed

lemma unbin_small:
  assumes b: "bins_ok s F" and f: "fits F" and x: "(x, n) \<in> F" and n: "n < 256" "csize (wd s) x = of_nat n"
  obtains s' where "unbin_chunk (of_nat x) s = Some s'" "bins_ok s' (F - {(x, n)})" "same_env s s'"
    "\<forall>a. a \<notin> body F \<longrightarrow> wd s' a = wd s a"
proof -
  define j where "j = n div 8"
  have okx: "okaddr x" "n mod 8 = 0" using fitsD [OF f x] by blast+
  have j: "n = 8 * j" "j < 32" using small_size [OF n(1) okx(2)] by (simp_all add: j_def)
  obtain xs where xs: "sbin s j = hptr xs" "circ (wd s) xs" "distinct xs" "set xs = smalls F j"
    "bit (sbinmap s) j \<longleftrightarrow> xs \<noteq> []"
    by (rule small_bin_list [OF b j(2)])
  have "x \<in> set xs" using x xs(4) j(1) by (simp add: smalls_def)
  then obtain us vs where uv: "xs = us @ x # vs" by (meson split_list)
  have okl: "chunks_ok (us @ x # vs)" using smalls_chunks_ok [OF f xs(3) equalityD1 [OF xs(4)]] by (simp add: uv)
  define s1 where "s1 = snd (snd (kmalloc_dllist_remove_intern (of_nat x) (hptr (us @ x # vs)) s))"
  have "(fst (kmalloc_dllist_remove_intern (of_nat x) (hptr (us @ x # vs)) s),
      fst (snd (kmalloc_dllist_remove_intern (of_nat x) (hptr (us @ x # vs)) s)), s1)
      = kmalloc_dllist_remove_intern (of_nat x) (hptr (us @ x # vs)) s" by (simp add: s1_def)
  note r = dllist_remove_intern [OF xs(2) [unfolded uv] okl this]
  define s' where "s' = clear_sbin j (s1\<lparr>sbin := (sbin s1)(j := hptr (us @ vs))\<rparr>)"
  note c = small_remove [OF b f x [unfolded j(1)] j(2) xs(1-4) [unfolded uv] r(3,4) s'_def]
  have sz: "GETCHUNKSIZE (of_nat x) s = of_nat n" using okx(1) n(2) by simp
  have un: "unat (of_nat n :: u32) = n" using n(1) by (simp add: unat_of_nat)
  have idx: "unat (small_index (of_nat n)) = j"
    unfolding small_index_def unat_drop_bit_eq un by (simp add: drop_bit_eq_div j_def)
  have lt: "(of_nat n :: u32) < MIN_LARGE_SIZE" using n(1) un by (simp add: MIN_LARGE_SIZE_def word_less_nat_alt)
  have "unbin_chunk (of_nat x) s = Some s'"
    unfolding unbin_chunk_def Let_def sz idx xs(1) uv if_P [OF lt]
    using r(1) by (cases "kmalloc_dllist_remove_intern (of_nat x) (hptr (us @ x # vs)) s") (simp add: s'_def s1_def)
  moreover have "\<forall>a. a \<notin> body F \<longrightarrow> wd s' a = wd s a" using c(3) body_mono [of "F - {(x, 8 * j)}" F] by blast
  ultimately show ?thesis using that c(1,2) j(1) by simp
qed

text \<open>The first chunk of a small bin is taken, as \<open>allocate_sbin\<close> and \<open>split_sbin\<close> do.\<close>

lemma pop_small:
  assumes b: "bins_ok s F" and f: "fits F" and j: "j < 32" and ne: "bit (sbinmap s) j"
  obtains x hd' s1 s' where "kmalloc_dllist_remove (sbin s j) s = (hd', of_nat x, s1)" "(x, 8 * j) \<in> F"
    "s' = clear_sbin j (s1\<lparr>sbin := (sbin s1)(j := hd')\<rparr>)"
    "bins_ok s' (F - {(x, 8 * j)})" "same_env s s'" "\<forall>a. a \<notin> body F \<longrightarrow> wd s' a = wd s a"
proof -
  obtain xs where xs: "sbin s j = hptr xs" "circ (wd s) xs" "distinct xs" "set xs = smalls F j"
    "bit (sbinmap s) j \<longleftrightarrow> xs \<noteq> []"
    by (rule small_bin_list [OF b j])
  then obtain x vs where uv: "xs = x # vs" using ne by (cases xs) auto
  have x: "(x, 8 * j) \<in> F" using xs(4) by (auto simp: uv smalls_def)
  have okl: "chunks_ok (x # vs)" using smalls_chunks_ok [OF f xs(3) equalityD1 [OF xs(4)]] by (simp add: uv)
  define s1 where "s1 = snd (snd (kmalloc_dllist_remove (hptr (x # vs)) s))"
  have e: "(fst (kmalloc_dllist_remove (hptr (x # vs)) s), fst (snd (kmalloc_dllist_remove (hptr (x # vs)) s)), s1)
      = kmalloc_dllist_remove (hptr (x # vs)) s" by (simp add: s1_def)
  note r = dllist_remove [OF xs(2) [unfolded uv] okl e]
  define s' where "s' = clear_sbin j (s1\<lparr>sbin := (sbin s1)(j := hptr vs)\<rparr>)"
  have xs0: "sbin s j = hptr ([] @ x # vs)" "circ (wd s) ([] @ x # vs)" "distinct ([] @ x # vs)" "set ([] @ x # vs) = smalls F j"
    using xs by (simp_all add: uv)
  have s10: "circ (wd s1) ([] @ vs)" "writes (links (set ([] @ vs))) s s1" "s' = clear_sbin j (s1\<lparr>sbin := (sbin s1)(j := hptr ([] @ vs))\<rparr>)"
    using r(3,4) by (simp_all add: s'_def)
  note c = small_remove [OF b f x j xs0 s10]
  have "kmalloc_dllist_remove (sbin s j) s = (hptr vs, of_nat x, s1)"
    using r(1,2) e xs(1) uv by (cases "kmalloc_dllist_remove (hptr (x # vs)) s") (simp add: s1_def)
  moreover have "\<forall>a. a \<notin> body F \<longrightarrow> wd s' a = wd s a" using c(3) body_mono [of "F - {(x, 8 * j)}" F] by blast
  ultimately show ?thesis using that x s'_def c(1,2) by blast
qed

section \<open>Large bins\<close>

lemma apart_larges:
  assumes "fits F" "distinct (map fst ps)" "set ps \<subseteq> F" "\<And>x n. (x, n) \<in> set ps \<Longrightarrow> 256 \<le> n"
  shows "apart (map fst ps)"
  unfolding apart_def chunks_ok_def
proof (intro conjI ballI impI)
  fix x assume "x \<in> set (map fst ps)"
  then obtain n where "(x, n) \<in> set ps" by auto
  then show "okaddr x" using fitsD [OF assms(1)] assms(3) by blast
next
  fix x y assume "x \<in> set (map fst ps)" "y \<in> set (map fst ps)" "x \<noteq> y"
  then obtain n m where nm: "(x, n) \<in> set ps" "(y, m) \<in> set ps" "(x, n) \<noteq> (y, m)" by auto
  then have "256 \<le> n" "256 \<le> m" using assms(4) by blast+
  moreover have "x + n \<le> y \<or> y + m \<le> x" using fits_disjoint [OF assms(1)] nm assms(3) by blast
  ultimately show "x + 32 \<le> y \<or> y + 32 \<le> x" by linarith
qed (use assms(2) in blast)

lemma touch_body:
  assumes "\<And>x. x \<in> A \<Longrightarrow> \<exists>n. (x, n) \<in> G \<and> 256 \<le> n"
  shows "touch A \<subseteq> body G"
proof
  fix a assume "a \<in> touch A"
  then obtain x k where "x \<in> A" "8 \<le> k" "k < 28" "a = x + k" unfolding touch_def by blast
  then show "a \<in> body G" using assms [of x] unfolding body_def by fastforce
qed

lemma touch_index: "apart xs \<Longrightarrow> x \<in> set xs \<Longrightarrow> x + 28 \<notin> touch (set xs)"
proof
  assume a: "apart xs" "x \<in> set xs" "x + 28 \<in> touch (set xs)"
  then obtain y k where y: "y \<in> set xs" "k < 28" "x + 28 = y + k" unfolding touch_def by blast
  then have "x \<noteq> y" by auto
  then show False using apart_fields [OF a(1,2) y(1), of 28 k] y by simp
qed

lemma bins_large_change:
  assumes b: "bins_ok s F" and f: "fits (F \<union> F')" and G: "G \<subseteq> F \<union> F'" "\<And>x n. (x, n) \<in> G \<Longrightarrow> 256 \<le> n \<and> tbin_of n = j" and j: "j < 32"
    and same: "\<And>x n. n < 256 \<or> tbin_of n \<noteq> j \<Longrightarrow> (x, n) \<in> F' \<longleftrightarrow> (x, n) \<in> F"
    and w: "\<And>a. a \<notin> body G \<Longrightarrow> wd s' a = wd s a"
    and tb: "sbin s' = sbin s" "sbinmap s' = sbinmap s" "\<And>i. i \<noteq> j \<Longrightarrow> tbin s' i = tbin s i"
      "\<And>i. i < 32 \<Longrightarrow> i \<noteq> j \<Longrightarrow> bit (tbinmap s') i = bit (tbinmap s) i"
    and new: "large_at s' j (larges F' j)"
  shows "bins_ok s' F'"
  unfolding bins_ok_def
proof (intro allI impI conjI)
  fix i :: nat assume i: "i < 32"
  have st: "small_at s i (smalls F i)" "large_at s i (larges F i)" using b i by (simp_all add: bins_ok_def)
  have G8: "(x, 8 * i) \<notin> G" for x using G(2) [of x "8 * i"] i by auto
  have eq: "smalls (F \<union> F') i = smalls F i" "smalls F' i = smalls F i" using same i by (auto simp: smalls_def)
  show "small_at s' i (smalls F' i)"
    using small_keep [of s i "F \<union> F'" G s'] st(1) f G(1) G8 w tb(1,2) unfolding eq by simp
  show "large_at s' i (larges F' i)"
  proof (cases "i = j")
    case False
    then have eqs: "larges (F \<union> F') i = larges F i" "larges F' i = larges F i" using same by (auto simp: larges_def)
    have "(x, n) \<in> larges F i \<Longrightarrow> (x, n) \<notin> G" for x n using G(2) [of x n] False by (auto simp: larges_def)
    then show ?thesis using large_keep [of s i "F \<union> F'" G s'] st(2) f G(1) w tb(3,4) i False unfolding eqs by simp
  qed (use new in simp)
qed

lemma large_bin_tree:
  assumes "bins_ok s F" "j < 32"
  obtains T where "tbin s j = tptr T" "tree_at (wd s) NULL T" "distinct (chunks T)" "set (pairs T) = larges F j"
    "trie (tdepth j) T" "\<forall>x \<in> fst ` larges F j. wd s (x + 28) = of_nat j" "bit (tbinmap s) j \<longleftrightarrow> T \<noteq> Tip"
  using assms unfolding bins_ok_def large_at_def by blast

lemma larges_same_top:
  assumes "fits F" "set (pairs T) = larges F j" "256 \<le> n" "n \<le> 0xFFFF00" "tbin_of n = j"
  shows "same_top (tdepth j) n T"
  unfolding same_top_def
proof (intro conjI ballI)
  show "n < 4294967296" using assms(4) by simp
  fix m assume "m \<in> sizes T"
  then obtain y where "(y, m) \<in> larges F j" using assms(2) by (auto simp: sizes_pairs)
  then have m: "(y, m) \<in> F" "256 \<le> m" "tbin_of m = j" by (auto simp: larges_def)
  then have "m \<le> 0xFFFF00" using fitsD [OF assms(1)] by blast
  then show "m < 4294967296" "drop_bit (tdepth j) m = drop_bit (tdepth j) n"
    using tbin_of_bits(2) [OF m(2)] tbin_of_bits(2) [OF assms(3,4)] m(3) assms(5) by simp_all
qed

lemma calc_tbin_of: "calc_tbin (of_nat n) = of_nat (tbin_of n)"
  by (simp add: tbin_of_def)

text \<open>Adding a chunk to a large bin.\<close>

lemma bin_large:
  assumes b: "bins_ok s F" and f: "fits (insert (x, n) F)" and x: "(x, n) \<notin> F" and n: "256 \<le> n" "csize (wd s) x = of_nat n"
  obtains s' where "bin_chunk (of_nat x) s = Some s'" "bins_ok s' (insert (x, n) F)" "same_env s s'"
    "\<forall>a. a \<notin> body (insert (x, n) F) \<longrightarrow> wd s' a = wd s a"
proof -
  let ?F' = "insert (x, n) F"
  define j where "j = tbin_of n"
  have okx: "okaddr x" "n \<le> 0xFFFF00" using fitsD [OF f] by blast+
  have j: "j < 32" using tbin_of_bits(1) [OF n(1) okx(2)] by (simp add: j_def)
  have fF: "fits F" using f by (rule fits_subset) blast
  obtain T where T: "tbin s j = tptr T" "tree_at (wd s) NULL T" "distinct (chunks T)" "set (pairs T) = larges F j"
    "trie (tdepth j) T" "\<forall>x \<in> fst ` larges F j. wd s (x + 28) = of_nat j" "bit (tbinmap s) j \<longleftrightarrow> T \<noteq> Tip"
    by (rule large_bin_tree [OF b j])
  have lg: "(y, m) \<in> F \<and> 256 \<le> m \<and> tbin_of m = j" if "(y, m) \<in> set (pairs T)" for y m
    using that T(4) by (simp add: larges_def)
  have xT: "x \<notin> set (chunks T)"
  proof
    assume "x \<in> set (chunks T)"
    then obtain m where m: "(x, m) \<in> set (pairs T)" by auto
    then have "m = n" using fits_fst [OF f, of x m n] lg [OF m] by simp
    then show False using lg [OF m] x by simp
  qed
  have "apart (map fst ((x, n) # pairs T))"
  proof (rule apart_larges [OF f])
    show "distinct (map fst ((x, n) # pairs T))" using T(3) xT by simp
    show "set ((x, n) # pairs T) \<subseteq> ?F'" using lg by auto
    show "(y, m) \<in> set ((x, n) # pairs T) \<Longrightarrow> 256 \<le> m" for y m using lg n(1) by auto
  qed
  then have ok: "apart (x # chunks T)" by simp
  define s1 where "s1 = set_bin_index (of_nat x) (of_nat j) s"
  have w1: "wd s1 = (wd s)(x + 28 := of_nat j)" using okx(1) by (simp add: s1_def)
  have e1: "sbin s1 = sbin s" "tbin s1 = tbin s" "sbinmap s1 = sbinmap s" "tbinmap s1 = tbinmap s" "same_env s s1"
    by (simp_all add: s1_def wr_def same_env_def)
  have "agree (wd s) (wd s1) (set (chunks T))"
  proof -
    have "y + k \<noteq> x + 28" if "y \<in> set (chunks T)" "k \<in> {4, 8, 12, 16, 20, 24}" for y k :: nat
      using apart_fields [OF ok, of y x k 28] that xT by (cases "y = x") auto
    then show ?thesis unfolding agree_def w1 by auto
  qed
  then have t1: "tree_at (wd s1) NULL T" using T(2) tree_frame by blast
  have c1: "csize (wd s1) x = of_nat n" using n(2) by (simp add: w1 csize_def)
  have st: "same_top (tdepth j) n T" by (rule larges_same_top [OF fF T(4) n(1) okx(2) j_def [symmetric]])
  obtain T' s2 where ins: "kmalloc_tree_insert (of_nat x) (tptr T) (int (tdepth j)) s1 = Some (tptr T', s2)" "inserted T x n (tdepth j) s1 T' s2"
    by (rule tree_insert [OF t1 ok c1 T(5) st]) simp
  have i2: "tree_at (wd s2) NULL T'" "mset (pairs T') = add_mset (x, n) (mset (pairs T))"
    "writes (touch (insert x (set (chunks T)))) s1 s2" "trie (tdepth j) T'"
    using ins(2) by (simp_all add: inserted_def)
  have om: "only_mem s1 s2" using i2(3) by (simp add: writes_def)
  define s' where "s' = s2\<lparr>tbin := (tbin s2)(j := tptr T'), tbinmap := tbinmap s2 OR push_bit j 1\<rparr>"
  have sz: "GETCHUNKSIZE (of_nat x) s = of_nat n" using okx(1) n(2) by simp
  have un: "unat (of_nat n :: u32) = n" using okx(2) by (simp add: unat_of_nat)
  have ge: "\<not> (of_nat n :: u32) < MIN_LARGE_SIZE" using n(1) un by (simp add: MIN_LARGE_SIZE_def word_less_nat_alt)
  have uj: "unat (of_nat j :: u32) = j" using j by (simp add: unat_of_nat)
  have s': "bin_chunk (of_nat x) s = Some s'"
    unfolding bin_chunk_def Let_def sz if_not_P [OF ge] calc_tbin_of j_def [symmetric] s1_def [symmetric] uj e1(2) T(1)
      TBIN_DEPTH_depth [OF j] ins(1) by (simp add: s'_def)
  define G where "G = set ((x, n) # pairs T)"
  have G: "G \<subseteq> ?F'" "\<And>y m. (y, m) \<in> G \<Longrightarrow> 256 \<le> m \<and> tbin_of m = j" using lg n(1) by (auto simp: G_def j_def)
  have w: "wd s' a = wd s a" if "a \<notin> body G" for a
  proof -
    have "\<exists>m. (y, m) \<in> G \<and> 256 \<le> m" if "y \<in> insert x (set (chunks T))" for y using that G(2) by (force simp: G_def)
    then have "touch (insert x (set (chunks T))) \<subseteq> body G" by (rule touch_body)
    moreover have "x + 28 \<in> body G" using n(1) unfolding body_def G_def by fastforce
    ultimately show ?thesis using that i2(3) by (auto simp: s'_def writes_def w1)
  qed
  have wb: "\<forall>a. a \<notin> body ?F' \<longrightarrow> wd s' a = wd s a" using w body_mono [OF G(1)] by blast
  have e2: "same_env s2 s'" by (simp add: s'_def same_env_def)
  have en: "same_env s s'"
    using same_env_trans [OF same_env_trans [OF e1(5) same_env_only_mem [OF om]] e2] .
  have sb: "tbin s' = (tbin s)(j := tptr T')" "sbin s' = sbin s" "sbinmap s' = sbinmap s" "tbinmap s' = tbinmap s OR push_bit j 1" "wd s' = wd s2"
    using only_memD [OF om] e1 by (simp_all add: s'_def)
  have sp: "set (pairs T') = insert (x, n) (set (pairs T))" using arg_cong [OF i2(2), of set_mset] by simp
  have "mset (chunks T') = mset (x # chunks T)" using i2(2) by (metis fst_conv image_mset_add_mset mset.simps(2) mset_map)
  then have dT: "distinct (chunks T')" using T(3) xT by (metis distinct.simps(2) mset_eq_imp_distinct_iff)
  have lF: "larges ?F' j = insert (x, n) (larges F j)" using n(1) by (auto simp: larges_def j_def)
  have ind: "wd s2 (y + 28) = of_nat j" if "y \<in> fst ` larges ?F' j" for y
  proof -
    have y: "y \<in> set (x # chunks T)" using that lF T(4) by (metis image_insert fst_conv list.set(2) list.set_map)
    then have "wd s2 (y + 28) = wd s1 (y + 28)" using touch_index [OF ok y] i2(3) by (simp add: writes_def)
    then show ?thesis using y T(4,6) by (auto simp: w1)
  qed
  have ne: "T' \<noteq> Tip" using sp by auto
  have "large_at s' j (larges ?F' j)"
    unfolding large_at_def using sb i2(1,4) dT sp T(4) lF ind ne j by (intro exI [of _ T']) simp
  note new = this
  have f2: "fits (F \<union> ?F')" using f by (simp add: Un_absorb1 subset_insertI)
  have G1: "G \<subseteq> F \<union> ?F'" and same: "m < 256 \<or> tbin_of m \<noteq> j \<Longrightarrow> (y, m) \<in> ?F' \<longleftrightarrow> (y, m) \<in> F" for y m
    using G n(1) by (blast, auto simp: j_def)
  have "bins_ok s' ?F'"
    by (rule bins_large_change [OF b f2 G1 G(2) j same w]) (use new sb in simp_all)
  then show ?thesis using that s' en wb by blast
qed

text \<open>Taking a chunk from a large bin.\<close>

lemma take_large:
  assumes b: "bins_ok s F" and f: "fits F" and x: "(x, n) \<in> F" and n: "256 \<le> n" and j: "j = tbin_of n"
  obtains root s1 s' where "kmalloc_tree_remove (of_nat x) (tbin s j) s = Some (root, s1)"
    "s' = clear_tbin j (s1\<lparr>tbin := (tbin s1)(j := root)\<rparr>)" "bin_index (of_nat x) s = of_nat j"
    "bins_ok s' (F - {(x, n)})" "same_env s s'" "\<forall>a. a \<notin> body F \<longrightarrow> wd s' a = wd s a"
proof -
  let ?F' = "F - {(x, n)}"
  have okx: "okaddr x" "n \<le> 0xFFFF00" using fitsD [OF f x] by blast+
  have j32: "j < 32" using tbin_of_bits(1) [OF n okx(2)] by (simp add: j)
  obtain T where T: "tbin s j = tptr T" "tree_at (wd s) NULL T" "distinct (chunks T)" "set (pairs T) = larges F j"
    "trie (tdepth j) T" "\<forall>x \<in> fst ` larges F j. wd s (x + 28) = of_nat j" "bit (tbinmap s) j \<longleftrightarrow> T \<noteq> Tip"
    by (rule large_bin_tree [OF b j32])
  have lg: "(y, m) \<in> F \<and> 256 \<le> m \<and> tbin_of m = j" if "(y, m) \<in> set (pairs T)" for y m
    using that T(4) by (simp add: larges_def)
  have xT: "(x, n) \<in> set (pairs T)" using x n j T(4) by (simp add: larges_def)
  have ok: "apart (chunks T)" by (rule apart_larges [OF f T(3)]) (use lg in auto)
  obtain T' s1 where rem: "kmalloc_tree_remove (of_nat x) (tptr T) s = Some (tptr T', s1)" "removed T x n s T' s1"
    by (rule tree_remove [OF T(2) ok xT])
  have r: "tree_at (wd s1) NULL T'" "mset (pairs T) = add_mset (x, n) (mset (pairs T'))"
    "writes (touch (set (chunks T))) s s1" "trie (tdepth j) T'"
    using rem(2) T(5) by (simp_all add: removed_def)
  have om: "only_mem s s1" using r(3) by (simp add: writes_def)
  define s' where "s' = clear_tbin j (s1\<lparr>tbin := (tbin s1)(j := tptr T')\<rparr>)"
  have "mset (chunks T) = mset (x # chunks T')" using r(2) by (metis fst_conv image_mset_add_mset mset.simps(2) mset_map)
  then have dT: "distinct (x # chunks T')" using T(3) by (metis mset_eq_imp_distinct_iff)
  have sp: "set (pairs T) = insert (x, n) (set (pairs T'))" using arg_cong [OF r(2), of set_mset] by simp
  have "x \<notin> fst ` set (pairs T')" using dT by simp
  then have "(x, n) \<notin> set (pairs T')" by force
  then have sp': "set (pairs T') = larges ?F' j" using sp T(4) by (auto simp: larges_def)
  have tn: "tptr T' = NULL \<longleftrightarrow> T' = Tip"
  proof (rule tptr_NULL, rule ballI)
    fix y assume "y \<in> set (chunks T')"
    then have "y \<in> set (chunks T)" using sp by auto
    then show "okaddr y" by (rule apart_okaddr [OF ok])
  qed
  have sb: "tbin s' = (tbin s)(j := tptr T')" "sbin s' = sbin s" "sbinmap s' = sbinmap s" "wd s' = wd s1"
    using only_memD [OF om] by (simp_all add: s'_def clear_tbin_def)
  have bs: "bit (tbinmap s) j" using T(7) xT by auto
  have bm: "bit (tbinmap s') i \<longleftrightarrow> bit (tbinmap s) i \<and> (i = j \<longrightarrow> T' \<noteq> Tip)" if "i < 32" for i
    using only_memD [OF om] tn that by (auto simp: s'_def clear_tbin_def)
  define G where "G = set (pairs T)"
  have G: "G \<subseteq> F" "\<And>y m. (y, m) \<in> G \<Longrightarrow> 256 \<le> m \<and> tbin_of m = j" using lg by (auto simp: G_def)
  have w: "wd s' a = wd s a" if "a \<notin> body G" for a
  proof -
    have "\<exists>m. (y, m) \<in> G \<and> 256 \<le> m" if "y \<in> set (chunks T)" for y using that G(2) by (force simp: G_def)
    then have "touch (set (chunks T)) \<subseteq> body G" by (rule touch_body)
    then show ?thesis using that r(3) sb(4) by (auto simp: writes_def)
  qed
  have ind: "wd s1 (y + 28) = of_nat j" if "y \<in> fst ` larges ?F' j" for y
  proof -
    have "larges ?F' j \<subseteq> set (pairs T)" using sp' sp by blast
    then have "fst ` larges ?F' j \<subseteq> fst ` set (pairs T)" by (rule image_mono)
    then have y: "y \<in> set (chunks T)" using that by auto
    then have "wd s1 (y + 28) = wd s (y + 28)" using touch_index [OF ok y] r(3) by (simp add: writes_def)
    moreover have "y \<in> fst ` larges F j" using that by (auto simp: larges_def)
    ultimately show ?thesis using T(6) by simp
  qed
  have new: "large_at s' j (larges ?F' j)"
    unfolding large_at_def using sb r(1,4) dT sp' ind bm [OF j32] bs by (intro exI [of _ T']) simp
  have f2: "fits (F \<union> ?F')" using f by (simp add: Un_absorb2)
  have G1: "G \<subseteq> F \<union> ?F'" and same: "m < 256 \<or> tbin_of m \<noteq> j \<Longrightarrow> (y, m) \<in> ?F' \<longleftrightarrow> (y, m) \<in> F" for y m
    using G n j by (blast, auto)
  have "bins_ok s' ?F'"
    by (rule bins_large_change [OF b f2 G1 G(2) j32 same w]) (use new sb bm in simp_all)
  moreover have "same_env s s'" using om by (cases s; cases s1) (simp add: s'_def clear_tbin_def same_env_def only_mem_def)
  moreover have "bin_index (of_nat x) s = of_nat j" using okx(1) xT T(4,6) by force
  moreover have "\<forall>a. a \<notin> body F \<longrightarrow> wd s' a = wd s a" using w body_mono [OF G(1)] by blast
  ultimately show ?thesis using that rem(1) T(1) s'_def by metis
qed

section \<open>Adding and removing a chunk\<close>

lemma bin_chunk_ok:
  assumes "bins_ok s F" "fits (insert (x, n) F)" "(x, n) \<notin> F" "csize (wd s) x = of_nat n"
  obtains s' where "bin_chunk (of_nat x) s = Some s'" "bins_ok s' (insert (x, n) F)" "same_env s s'"
    "\<forall>a. a \<notin> body (insert (x, n) F) \<longrightarrow> wd s' a = wd s a"
proof (cases "n < 256")
  case True
  show ?thesis by (rule bin_small [OF assms(1-3) True assms(4)]) (rule that)
next
  case False
  then have n: "256 \<le> n" by simp
  show ?thesis by (rule bin_large [OF assms(1-3) n assms(4)]) (rule that)
qed

lemma unbin_chunk_ok:
  assumes b: "bins_ok s F" and f: "fits F" and x: "(x, n) \<in> F" and c: "csize (wd s) x = of_nat n"
  obtains s' where "unbin_chunk (of_nat x) s = Some s'" "bins_ok s' (F - {(x, n)})" "same_env s s'"
    "\<forall>a. a \<notin> body F \<longrightarrow> wd s' a = wd s a"
proof (cases "n < 256")
  case True
  then show ?thesis using unbin_small [OF b f x True c] that by metis
next
  case False
  then have n: "256 \<le> n" by simp
  have okx: "okaddr x" "n \<le> 0xFFFF00" using fitsD [OF f x] by blast+
  obtain root s1 s' where r: "kmalloc_tree_remove (of_nat x) (tbin s (tbin_of n)) s = Some (root, s1)"
    "s' = clear_tbin (tbin_of n) (s1\<lparr>tbin := (tbin s1)(tbin_of n := root)\<rparr>)" "bin_index (of_nat x) s = of_nat (tbin_of n)"
    "bins_ok s' (F - {(x, n)})" "same_env s s'" "\<forall>a. a \<notin> body F \<longrightarrow> wd s' a = wd s a"
    by (rule take_large [OF b f x n refl])
  have ge: "\<not> (of_nat n :: u32) < MIN_LARGE_SIZE"
    using n okx(2) by (simp add: MIN_LARGE_SIZE_def word_less_nat_alt unat_of_nat)
  have uj: "unat (of_nat (tbin_of n) :: u32) = tbin_of n"
    using tbin_of_bits(1) [OF n okx(2)] by (simp add: unat_of_nat)
  have sz: "GETCHUNKSIZE (of_nat x) s = of_nat n" using okx(1) c by simp
  have "unbin_chunk (of_nat x) s = Some s'"
    unfolding unbin_chunk_def Let_def sz if_not_P [OF ge] r(1,3) uj by (simp add: r(2))
  then show ?thesis using that r(4-6) by blast
qed

end
