(* ===== verification/KLayout.thy ===== *)
theory KLayout
  imports KBins
begin

text \<open>
  The heap as a sequence of blocks. \<open>blocks_at w p a bs e q\<close> says that the words \<open>w\<close> hold the blocks \<open>bs\<close>,
  triples of an address, a size and whether the block is in use, one after the other from \<open>a\<close> to \<open>e\<close>:
  each has a header with its size, its own flag and that of the block before it (\<open>p\<close> before the first,
  \<open>q\<close> of the last), and a free block comes after one in use and repeats its size at its end.
\<close>

type_synonym block = "nat \<times> nat \<times> bool"

fun blocks_at :: "(nat \<Rightarrow> u32) \<Rightarrow> bool \<Rightarrow> nat \<Rightarrow> block list \<Rightarrow> nat \<Rightarrow> bool \<Rightarrow> bool" where
  "blocks_at w p a [] e q \<longleftrightarrow> a = e \<and> p = q"
| "blocks_at w p a ((b, n, u) # bs) e q \<longleftrightarrow>
     b = a \<and> 16 \<le> n \<and> n mod 8 = 0 \<and> w (a + 4) = head_word (of_nat n) u p
     \<and> (\<not> u \<longrightarrow> p \<and> w (a + n) = of_nat n) \<and> blocks_at w u (a + n) bs e q"

definition Free :: "block list \<Rightarrow> (nat \<times> nat) set" where
  "Free bs = {(a, n). (a, n, False) \<in> set bs}"

definition Used :: "block list \<Rightarrow> (nat \<times> nat) set" where
  "Used bs = {(a, n). (a, n, True) \<in> set bs}"

lemma Free_simps [simp]:
  "Free [] = {}" "Free ((a, n, True) # bs) = Free bs" "Free ((a, n, False) # bs) = insert (a, n) (Free bs)"
  "Free (as @ bs) = Free as \<union> Free bs"
  by (auto simp: Free_def)

lemma Used_simps [simp]:
  "Used [] = {}" "Used ((a, n, True) # bs) = insert (a, n) (Used bs)" "Used ((a, n, False) # bs) = Used bs"
  "Used (as @ bs) = Used as \<union> Used bs"
  by (auto simp: Used_def)

lemma in_Free [simp]: "(a, n) \<in> Free bs \<longleftrightarrow> (a, n, False) \<in> set bs"
  by (simp add: Free_def)

lemma in_Used [simp]: "(a, n) \<in> Used bs \<longleftrightarrow> (a, n, True) \<in> set bs"
  by (simp add: Used_def)

section \<open>Chains\<close>

lemma chain_append:
  "blocks_at w p a (us @ vs) e q \<longleftrightarrow> (\<exists>m r. blocks_at w p a us m r \<and> blocks_at w r m vs e q)"
proof (induction us arbitrary: p a)
  case (Cons x us)
  obtain b n u where x: "x = (b, n, u)" by (cases x)
  show ?case unfolding x append_Cons blocks_at.simps Cons.IH by (simp only: conj_assoc ex_simps)
qed simp

lemma chain_cong:
  "\<lbrakk>\<And>b n u. (b, n, u) \<in> set bs \<Longrightarrow> w' (b + 4) = w (b + 4) \<and> (\<not> u \<longrightarrow> w' (b + n) = w (b + n)); blocks_at w p a bs e q\<rbrakk>
   \<Longrightarrow> blocks_at w' p a bs e q"
proof (induction bs arbitrary: p a)
  case (Cons x bs)
  obtain b n u where x: "x = (b, n, u)" by (cases x)
  have "blocks_at w' u (a + n) bs e q" using Cons.prems x by (intro Cons.IH) auto
  then show ?case using Cons.prems(2) Cons.prems(1) [of b n u] by (auto simp: x)
qed simp

lemma chain_le: "blocks_at w p a bs e q \<Longrightarrow> a \<le> e"
  by (induction bs arbitrary: p a) fastforce+

lemma chain_mem:
  "\<lbrakk>blocks_at w p a bs e q; (b, n, u) \<in> set bs\<rbrakk> \<Longrightarrow> a \<le> b \<and> b + n \<le> e \<and> 16 \<le> n \<and> n mod 8 = 0 \<and> b mod 8 = a mod 8"
proof (induction bs arbitrary: p a)
  case (Cons x bs)
  obtain c m v where x: "x = (c, m, v)" by (cases x)
  have c: "c = a" "16 \<le> m" "m mod 8 = 0" "blocks_at w v (a + m) bs e q" using Cons.prems(1) by (auto simp: x)
  show ?case
  proof (cases "(b, n, u) = x")
    case True
    then show ?thesis using c chain_le [OF c(4)] by (simp add: x)
  next
    case False
    then have "a + m \<le> b \<and> b + n \<le> e \<and> 16 \<le> n \<and> n mod 8 = 0 \<and> b mod 8 = (a + m) mod 8"
      using Cons.IH [OF c(4)] Cons.prems(2) by simp
    moreover have "(a + m) mod 8 = a mod 8" using c(3) by (metis add.right_neutral mod_add_right_eq)
    ultimately show ?thesis by simp
  qed
qed simp

lemma chain_disjoint:
  "\<lbrakk>blocks_at w p a bs e q; (b, n, u) \<in> set bs; (c, m, v) \<in> set bs\<rbrakk> \<Longrightarrow> (b, n, u) = (c, m, v) \<or> b + n \<le> c \<or> c + m \<le> b"
proof (induction bs arbitrary: p a)
  case (Cons x bs)
  obtain d k y where x: "x = (d, k, y)" by (cases x)
  have d: "d = a" "blocks_at w y (a + k) bs e q" using Cons.prems(1) by (auto simp: x)
  consider "(b, n, u) = x" "(c, m, v) = x" | "(b, n, u) = x" "(c, m, v) \<in> set bs" | "(b, n, u) \<in> set bs" "(c, m, v) = x"
    | "(b, n, u) \<in> set bs" "(c, m, v) \<in> set bs" using Cons.prems(2,3) by auto
  then show ?case
  proof cases
    case 2
    then show ?thesis using chain_mem [OF d(2)] d(1) by (auto simp: x)
  next
    case 3
    then show ?thesis using chain_mem [OF d(2)] d(1) by (auto simp: x)
  next
    case 4
    then show ?thesis using Cons.IH [OF d(2)] by simp
  qed auto
qed simp

lemma chain_fits:
  assumes "blocks_at w p a bs e q" "0 < a" "a mod 8 = 0" "e + 16 \<le> 4294967296" "e \<le> a + 0xFFFF00"
  shows "fits (Free bs)"
  unfolding fits_def
proof (intro conjI allI impI)
  fix x n assume "(x, n) \<in> Free bs"
  then have m: "a \<le> x" "x + n \<le> e" "16 \<le> n" "n mod 8 = 0" "x mod 8 = a mod 8" using chain_mem [OF assms(1)] by auto
  show "okaddr x" using m assms by (simp add: okaddr_def)
  show "16 \<le> n" "n mod 8 = 0" "n \<le> 0xFFFF00" using m assms by simp_all
next
  fix x n y m assume "(x, n) \<in> Free bs" "(y, m) \<in> Free bs"
  then show "(x, n) = (y, m) \<or> x + n \<le> y \<or> y + m \<le> x" using chain_disjoint [OF assms(1)] by fastforce
qed

text \<open>
  The inner words of the free blocks, where the bins keep their links; the words of the chain lie outside.
\<close>

definition interior :: "block list \<Rightarrow> nat set" where
  "interior bs = {a. \<exists>b n. (b, n, False) \<in> set bs \<and> b + 8 \<le> a \<and> a < b + n}"

lemma body_interior:
  assumes "\<And>y k. (y, k) \<in> B \<Longrightarrow> \<exists>b n. (b, n, False) \<in> set bs \<and> b \<le> y \<and> y + k \<le> b + n"
  shows "body B \<subseteq> interior bs"
proof
  fix a assume "a \<in> body B"
  then obtain y k j where y: "(y, k) \<in> B" "8 \<le> j" "j < k" "a = y + j" unfolding body_def by blast
  then obtain b n where "(b, n, False) \<in> set bs" "b \<le> y" "y + k \<le> b + n" using assms by blast
  then show "a \<in> interior bs" unfolding interior_def using y by (intro CollectI exI [of _ b] exI [of _ n]) simp
qed

lemma body_free:
  assumes "B \<subseteq> Free bs"
  shows "body B \<subseteq> interior bs"
proof (rule body_interior)
  fix y k assume "(y, k) \<in> B"
  then have "(y, k, False) \<in> set bs" using assms by auto
  then show "\<exists>b n. (b, n, False) \<in> set bs \<and> b \<le> y \<and> y + k \<le> b + n" by blast
qed

lemma chain_interior:
  assumes c: "blocks_at w p a bs e q" and b: "(b, n, u) \<in> set bs"
  shows "b + 4 \<notin> interior bs" "b + n \<notin> interior bs"
proof -
  have "b + 4 \<notin> {y + 8..<y + m} \<and> b + n \<notin> {y + 8..<y + m}" if m: "(y, m, False) \<in> set bs" for y m
  proof -
    have "(b, n, u) = (y, m, False) \<or> b + n \<le> y \<or> y + m \<le> b" by (rule chain_disjoint [OF c b m])
    moreover have "16 \<le> n" using chain_mem [OF c b] by simp
    ultimately show ?thesis by auto
  qed
  then show "b + 4 \<notin> interior bs" "b + n \<notin> interior bs" unfolding interior_def by fastforce+
qed

lemma interior_below: "\<lbrakk>blocks_at w p a bs e q; x \<in> interior bs\<rbrakk> \<Longrightarrow> x < e"
  using chain_mem unfolding interior_def by fastforce

section \<open>What belongs to the callers\<close>

text \<open>The words of the blocks in use that their owners may write: all but the header, and the first word after the block.\<close>

definition payload :: "(nat \<times> nat) set \<Rightarrow> nat set" where
  "payload U = {a. \<exists>b n k. (b, n) \<in> U \<and> 8 \<le> k \<and> k < n + 4 \<and> a = b + k}"

definition keeps :: "(nat \<times> nat) set \<Rightarrow> 'a kmstate_scheme \<Rightarrow> 'a kmstate_scheme \<Rightarrow> bool" where
  "keeps U s s' \<longleftrightarrow> (\<forall>a \<in> payload U. wd s' a = wd s a)"

lemma keeps_refl [simp]: "keeps U s s"
  by (simp add: keeps_def)

lemma keeps_trans: "keeps U s s' \<Longrightarrow> keeps U s' s'' \<Longrightarrow> keeps U s s''"
  by (simp add: keeps_def)

lemma payload_mono: "U \<subseteq> V \<Longrightarrow> payload U \<subseteq> payload V"
  unfolding payload_def by blast

lemma keeps_mono: "keeps V s s' \<Longrightarrow> U \<subseteq> V \<Longrightarrow> keeps U s s'"
  using payload_mono unfolding keeps_def by blast

lemma payload_interior:
  assumes c: "blocks_at w p a bs e q"
  shows "payload (Used bs) \<inter> interior bs = {}"
proof -
  have False if h: "x \<in> payload (Used bs)" "x \<in> interior bs" for x
  proof -
    obtain b n k where b: "(b, n, True) \<in> set bs" "8 \<le> k" "k < n + 4" "x = b + k" using h(1) unfolding payload_def by auto
    obtain y m where y: "(y, m, False) \<in> set bs" "y + 8 \<le> x" "x < y + m" using h(2) unfolding interior_def by blast
    from chain_disjoint [OF c b(1) y(1)] have "b + n \<le> y \<or> y + m \<le> b" by simp
    then show False using b y by linarith
  qed
  then show ?thesis by blast
qed

text \<open>Headers, and everything in a stretch of blocks from \<open>x\<close> to \<open>y\<close> but the first word, belong to none of the other callers.\<close>

lemma payload_outside:
  assumes x: "blocks_at w p a us x r" and y: "blocks_at w r' y vs e q"
    and k: "x + 4 \<le> k" "k \<le> y + 4"
  shows "k \<notin> payload (Used us \<union> Used vs)"
proof
  assume "k \<in> payload (Used us \<union> Used vs)"
  then obtain b n j where b: "(b, n, True) \<in> set us \<union> set vs" "8 \<le> j" "j < n + 4" "k = b + j" unfolding payload_def by auto
  then show False
  proof (cases "(b, n, True) \<in> set us")
    case True
    then show False using chain_mem [OF x] b k by fastforce
  next
    case False
    then show False using chain_mem [OF y] b k by fastforce
  qed
qed

lemma free_header: "\<lbrakk>blocks_at w p a bs e q; (b, n, False) \<in> set bs\<rbrakk> \<Longrightarrow> w (b + 4) = head_word (of_nat n) False True"
proof (induction bs arbitrary: p a)
  case (Cons x bs)
  then show ?case by (cases x) auto
qed simp

lemma after_free: "blocks_at w False a bs e True \<Longrightarrow> \<exists>n cs. bs = (a, n, True) # cs"
  by (cases bs) auto

end
