(* ===== verification/KHeapInv.thy ===== *)
theory KHeapInv
  imports KLayout
begin

text \<open>
  The invariant of the allocator. \<open>core s bs B\<close> says that the heap of \<open>s\<close> is the sequence of blocks \<open>bs\<close>
  followed by the top chunk and the end marker, and that the bins hold the free blocks \<open>B\<close>; in
  \<open>hinv s bs\<close>, the invariant between two calls, these are all free blocks but the designated victim. The lemmas
  change one stretch of blocks at a time.
\<close>

section \<open>The invariant\<close>

definition arena :: "'a kmstate_scheme \<Rightarrow> bool" where
  "arena s \<longleftrightarrow> magic s = KMALLOC_STATE_MAGIC \<and> unat (heap_start s) mod 8 = 0 \<and> 0 < unat (heap_start s)
     \<and> unat (heap_start s) + unat (heap_size s) + 32 \<le> 4294967296 \<and> unat (heap_size s) \<le> 0xFFFF00
     \<and> unat (heap_size s) mod 4096 = 0 \<and> unat (initial_heap_size s) mod 4096 = 0"

definition top_ok :: "'a kmstate_scheme \<Rightarrow> bool" where
  "top_ok s \<longleftrightarrow> (let tp = unat (topChunk s); ts = unat (topChunkSize s) in
     tp mod 8 = 0 \<and> ts mod 8 = 0 \<and> tp + ts + 8 \<le> unat (heap_start s) + unat (heap_size s)
     \<and> (0 < ts \<longrightarrow> wd s (tp + 4) = head_word (of_nat ts) False True) \<and> wd s (tp + ts + 4) = 0)"

definition layout :: "'a kmstate_scheme \<Rightarrow> block list \<Rightarrow> bool" where
  "layout s bs \<longleftrightarrow> arena s \<and> top_ok s \<and> blocks_at (wd s) True (unat (heap_start s)) bs (unat (topChunk s)) True"

definition core :: "'a kmstate_scheme \<Rightarrow> block list \<Rightarrow> (nat \<times> nat) set \<Rightarrow> bool" where
  "core s bs B \<longleftrightarrow> layout s bs \<and> B \<subseteq> Free bs \<and> bins_ok s B"

definition dv_set :: "'a kmstate_scheme \<Rightarrow> (nat \<times> nat) set" where
  "dv_set s = (if dVictim s = NULL then {} else {(unat (dVictim s), unat (dVictimSize s))})"

definition hinv :: "'a kmstate_scheme \<Rightarrow> block list \<Rightarrow> bool" where
  "hinv s bs \<longleftrightarrow> core s bs (Free bs - dv_set s) \<and> dv_set s \<subseteq> Free bs \<and> (dVictim s = NULL \<longrightarrow> dVictimSize s = 0)"

lemma coreD:
  assumes "core s bs B"
  shows "arena s" "top_ok s" "blocks_at (wd s) True (unat (heap_start s)) bs (unat (topChunk s)) True"
    "B \<subseteq> Free bs" "bins_ok s B" "layout s bs"
  using assms by (simp_all add: core_def layout_def)

lemma layoutD:
  assumes "layout s bs"
  shows "arena s" "top_ok s" "blocks_at (wd s) True (unat (heap_start s)) bs (unat (topChunk s)) True"
  using assms by (simp_all add: layout_def)

lemma top_okD:
  assumes "top_ok s"
  shows "unat (topChunk s) mod 8 = 0" "unat (topChunkSize s) mod 8 = 0"
    "unat (topChunk s) + unat (topChunkSize s) + 8 \<le> unat (heap_start s) + unat (heap_size s)"
    "0 < unat (topChunkSize s) \<Longrightarrow> wd s (unat (topChunk s) + 4) = head_word (topChunkSize s) False True"
    "wd s (unat (topChunk s) + unat (topChunkSize s) + 4) = 0"
  using assms by (simp_all add: top_ok_def Let_def)

lemma arenaD:
  assumes "arena s"
  shows "magic s = KMALLOC_STATE_MAGIC" "unat (heap_start s) mod 8 = 0" "0 < unat (heap_start s)"
    "unat (heap_start s) + unat (heap_size s) + 32 \<le> 4294967296" "unat (heap_size s) \<le> 0xFFFF00"
    "unat (heap_size s) mod 4096 = 0" "unat (initial_heap_size s) mod 4096 = 0" "heap_start s \<noteq> NULL"
  using assms by (auto simp: arena_def)

lemma layout_block:
  assumes c: "layout s bs" and b: "(b, n, u) \<in> set bs"
  shows "okaddr b" "okaddr (b + n)" "16 \<le> n" "n mod 8 = 0" "n \<le> 0xFFFF00" "n < 4294967296" "unat (heap_start s) \<le> b"
    "b + n \<le> unat (topChunk s)"
proof -
  note m = chain_mem [OF layoutD(3) [OF c] b] and a = arenaD [OF layoutD(1) [OF c]] and t = top_okD [OF layoutD(2) [OF c]]
  show "16 \<le> n" "n mod 8 = 0" "unat (heap_start s) \<le> b" "b + n \<le> unat (topChunk s)" using m by simp_all
  show "n \<le> 0xFFFF00" "n < 4294967296" using m a(5) t(3) by linarith+
  have "(b + n) mod 8 = 0" using m a(2) by (simp add: mod_add_eq [symmetric])
  then show "okaddr b" "okaddr (b + n)" using m a t(3) by (auto simp: okaddr_def)
qed

lemmas core_block = layout_block [OF coreD(6)]

lemma layout_top:
  assumes "layout s bs"
  shows "okaddr (unat (topChunk s))" "okaddr (unat (topChunk s) + unat (topChunkSize s))"
    "unat (heap_start s) \<le> unat (topChunk s)" "of_nat (unat (topChunk s)) = topChunk s"
    "unat (topChunkSize s) \<le> 0xFFFF00"
proof -
  note a = arenaD [OF layoutD(1) [OF assms]] and t = top_okD [OF layoutD(2) [OF assms]]
  show h: "unat (heap_start s) \<le> unat (topChunk s)" using chain_le [OF layoutD(3) [OF assms]] .
  show "of_nat (unat (topChunk s)) = topChunk s" by simp
  show "unat (topChunkSize s) \<le> 0xFFFF00" using h a(5) t(3) by linarith
  have "(unat (topChunk s) + unat (topChunkSize s)) mod 8 = 0" using t(1,2) by (simp add: mod_add_eq [symmetric])
  then show "okaddr (unat (topChunk s))" "okaddr (unat (topChunk s) + unat (topChunkSize s))"
    using h a t(1,3) by (auto simp: okaddr_def)
qed

lemmas core_top = layout_top [OF coreD(6)]

lemma layout_fits: "layout s bs \<Longrightarrow> fits (Free bs)"
proof -
  assume c: "layout s bs"
  note a = arenaD [OF layoutD(1) [OF c]] and t = top_okD [OF layoutD(2) [OF c]]
  show ?thesis
  proof (rule chain_fits [OF layoutD(3) [OF c] a(3,2)])
    show "unat (topChunk s) + 16 \<le> 4294967296" using a(4) t(3) by linarith
    show "unat (topChunk s) \<le> unat (heap_start s) + 0xFFFF00" using a(5) t(3) by linarith
  qed
qed

lemmas core_fits = layout_fits [OF coreD(6)]

section \<open>Reading headers\<close>

lemma header_facts:
  assumes "okaddr a" "wd s (a + 4) = head_word (of_nat n) u p" "n mod 8 = 0" "n < 4294967296"
  shows "GETCHUNKSIZE (of_nat a) s = of_nat n" "IS_INUSE (of_nat a) s \<longleftrightarrow> u"
    "PREV_INUSE (of_nat a) s = (if p then PINUSE else 0)" "NEXTCHUNK (of_nat a) s = of_nat (a + n)" "csize (wd s) a = of_nat n"
proof -
  have "chunk_size (of_nat n)" using assms(3,4) by (simp add: chunk_size_iff unat_of_nat)
  note h = head_word_simps [OF this, of u p]
  show g: "GETCHUNKSIZE (of_nat a) s = of_nat n" using assms(1,2) h(1) by (simp add: csize_def)
  show "IS_INUSE (of_nat a) s \<longleftrightarrow> u" using assms(1,2) h(2) by (simp add: IS_INUSE_def)
  show "PREV_INUSE (of_nat a) s = (if p then PINUSE else 0)" using assms(1,2) h(3) by (simp add: PREV_INUSE_def)
  show "NEXTCHUNK (of_nat a) s = of_nat (a + n)" by (simp add: NEXTCHUNK_def g)
  show "csize (wd s) a = of_nat n" using assms(2) h(1) by (simp add: csize_def)
qed

lemma core_free:
  assumes c: "core s bs B" and b: "(b, n, False) \<in> set bs"
  shows "wd s (b + 4) = head_word (of_nat n) False True" "GETCHUNKSIZE (of_nat b) s = of_nat n" "\<not> IS_INUSE (of_nat b) s"
    "NEXTCHUNK (of_nat b) s = of_nat (b + n)" "csize (wd s) b = of_nat n"
proof -
  show h: "wd s (b + 4) = head_word (of_nat n) False True" by (rule free_header [OF coreD(3) [OF c] b])
  note k = core_block [OF c b]
  show "GETCHUNKSIZE (of_nat b) s = of_nat n" "\<not> IS_INUSE (of_nat b) s" "NEXTCHUNK (of_nat b) s = of_nat (b + n)"
    "csize (wd s) b = of_nat n"
    using header_facts [OF k(1) h k(4,6)] by simp_all
qed

lemma core_split_at:
  assumes "core s (us @ seg @ vs) B"
  obtains x r y r' where "blocks_at (wd s) True (unat (heap_start s)) us x r" "blocks_at (wd s) r x seg y r'"
    "blocks_at (wd s) r' y vs (unat (topChunk s)) True"
  using coreD(3) [OF assms] unfolding chain_append by blast

section \<open>Operations on the bins\<close>

lemma layout_frame:
  assumes l: "layout s bs" and e: "same_env s s'" and w: "\<And>a. a \<notin> interior bs \<Longrightarrow> wd s' a = wd s a"
  shows "layout s' bs" "keeps (Used bs) s s'"
proof -
  note d = same_envD [OF e] and c = layoutD(3) [OF l]
  have "unat (topChunk s) + k \<notin> interior bs" for k using interior_below [OF c, of "unat (topChunk s) + k"] by auto
  from this [of 4] this [of "unat (topChunkSize s) + 4"]
  have "wd s' (unat (topChunk s) + 4) = wd s (unat (topChunk s) + 4)"
    "wd s' (unat (topChunk s) + unat (topChunkSize s) + 4) = wd s (unat (topChunk s) + unat (topChunkSize s) + 4)"
    using w by (simp_all add: add.assoc)
  then have "top_ok s'" using layoutD(2) [OF l] d by (simp add: top_ok_def Let_def)
  moreover have "arena s'" using layoutD(1) [OF l] d by (simp add: arena_def)
  moreover have "blocks_at (wd s') True (unat (heap_start s)) bs (unat (topChunk s)) True"
    by (rule chain_cong [OF _ c]) (use w chain_interior [OF c] in auto)
  ultimately show "layout s' bs" using d by (simp add: layout_def)
  show "keeps (Used bs) s s'" using w payload_interior [OF c] unfolding keeps_def by blast
qed

lemma core_bins:
  assumes c: "core s bs B" and e: "same_env s s'" and w: "\<And>a. a \<notin> body (Free bs) \<Longrightarrow> wd s' a = wd s a"
    and B': "B' \<subseteq> Free bs" "bins_ok s' B'"
  shows "core s' bs B'" "keeps (Used bs) s s'"
proof -
  have "wd s' a = wd s a" if "a \<notin> interior bs" for a using w that body_free [of "Free bs" bs] by blast
  from layout_frame [OF coreD(6) [OF c] e this] B' show "core s' bs B'" "keeps (Used bs) s s'" by (simp_all add: core_def)
qed

lemma core_bin_chunk:
  assumes c: "core s bs B" and x: "(x, n, False) \<in> set bs" "(x, n) \<notin> B"
  obtains s' where "bin_chunk (of_nat x) s = Some s'" "core s' bs (insert (x, n) B)" "keeps (Used bs) s s'" "same_env s s'"
proof -
  have sub: "insert (x, n) B \<subseteq> Free bs" using coreD(4) [OF c] x by simp
  have f: "fits (insert (x, n) B)" by (rule fits_subset [OF core_fits [OF c] sub])
  obtain s' where b: "bin_chunk (of_nat x) s = Some s'" "bins_ok s' (insert (x, n) B)" "same_env s s'"
    "\<forall>a. a \<notin> body (insert (x, n) B) \<longrightarrow> wd s' a = wd s a"
    by (rule bin_chunk_ok [OF coreD(5) [OF c] f x(2) core_free(5) [OF c x(1)]])
  have w: "wd s' a = wd s a" if "a \<notin> body (Free bs)" for a using b(4) that body_mono [OF sub] by blast
  show ?thesis by (rule that [OF b(1) core_bins [OF c b(3) w sub b(2)] b(3)])
qed

lemma core_unbin_chunk:
  assumes c: "core s bs B" and x: "(x, n) \<in> B"
  obtains s' where "unbin_chunk (of_nat x) s = Some s'" "core s' bs (B - {(x, n)})" "keeps (Used bs) s s'" "same_env s s'"
proof -
  have xb: "(x, n, False) \<in> set bs" using x coreD(4) [OF c] by auto
  have f: "fits B" by (rule fits_subset [OF core_fits [OF c] coreD(4) [OF c]])
  obtain s' where r: "unbin_chunk (of_nat x) s = Some s'" "bins_ok s' (B - {(x, n)})" "same_env s s'"
    "\<forall>a. a \<notin> body B \<longrightarrow> wd s' a = wd s a"
    by (rule unbin_chunk_ok [OF coreD(5) [OF c] f x core_free(5) [OF c xb]])
  have w: "wd s' a = wd s a" if "a \<notin> body (Free bs)" for a
    using r(4) that body_mono [OF coreD(4) [OF c]] by blast
  have "B - {(x, n)} \<subseteq> Free bs" using coreD(4) [OF c] by blast
  from core_bins [OF c r(3) w this r(2)] show ?thesis using that r(1,3) by blast
qed

section \<open>Changing a stretch of blocks\<close>

lemma replace_layout:
  assumes l: "layout s (us @ seg @ vs)"
    and us: "blocks_at (wd s) True (unat (heap_start s)) us x r" and vs: "blocks_at (wd s) r' y vs (unat (topChunk s)) True"
    and new: "blocks_at (wd s') r x seg' y q'" "blocks_at (wd s') q' y vs (unat (topChunk s)) True"
    and w: "\<And>a. a < x + 4 \<or> y + 4 < a \<Longrightarrow> wd s' a = wd s a" "vs = [] \<Longrightarrow> wd s' (y + 4) = wd s (y + 4)"
    and om: "only_mem s s'"
  shows "layout s' (us @ seg' @ vs)" "keeps (Used us \<union> Used vs) s s'"
proof -
  note e = same_envD [OF same_env_only_mem [OF om]]
  have yt: "y \<le> unat (topChunk s)" using chain_le [OF vs] .
  have us': "blocks_at (wd s') True (unat (heap_start s)) us x r"
  proof (rule chain_cong [OF _ us])
    fix b n u assume "(b, n, u) \<in> set us"
    then have "b + n \<le> x" "16 \<le> n" using chain_mem [OF us] by auto
    then show "wd s' (b + 4) = wd s (b + 4) \<and> (\<not> u \<longrightarrow> wd s' (b + n) = wd s (b + n))" using w(1) by simp
  qed
  have "blocks_at (wd s') True (unat (heap_start s)) (us @ seg' @ vs) (unat (topChunk s)) True"
    unfolding chain_append using us' new by blast
  moreover have "top_ok s'"
  proof -
    have "wd s' (unat (topChunk s) + k) = wd s (unat (topChunk s) + k)" if "4 \<le> k" for k
    proof (cases "unat (topChunk s) + k = y + 4")
      case True
      then have "y = unat (topChunk s)" "k = 4" using yt that by simp_all
      have "vs = []"
      proof (rule ccontr)
        assume "vs \<noteq> []"
        then obtain b n u where "(b, n, u) \<in> set vs" by (cases vs) auto
        from chain_mem [OF vs this] have "y \<le> b" "b + n \<le> unat (topChunk s)" "16 \<le> n" by blast+
        then show False using \<open>y = unat (topChunk s)\<close> by linarith
      qed
      then show ?thesis using w(2) True by simp
    next
      case False
      then have "y + 4 < unat (topChunk s) + k" using yt that by linarith
      then show ?thesis using w(1) by blast
    qed
    from this [of 4] this [of "unat (topChunkSize s) + 4"]
    have "wd s' (unat (topChunk s) + 4) = wd s (unat (topChunk s) + 4)"
      "wd s' (unat (topChunk s) + unat (topChunkSize s) + 4) = wd s (unat (topChunk s) + unat (topChunkSize s) + 4)"
      by (simp_all add: add.assoc)
    then show ?thesis using layoutD(2) [OF l] e by (simp add: top_ok_def Let_def)
  qed
  moreover have "arena s'" using layoutD(1) [OF l] e by (simp add: arena_def)
  ultimately show "layout s' (us @ seg' @ vs)" using e by (simp add: layout_def)
  show "keeps (Used us \<union> Used vs) s s'"
    unfolding keeps_def
  proof
    fix a assume "a \<in> payload (Used us \<union> Used vs)"
    then have "\<not> (x + 4 \<le> a \<and> a \<le> y + 4)" using payload_outside [OF us vs] by blast
    then show "wd s' a = wd s a" using w(1) by auto
  qed
qed

lemma replace_blocks:
  assumes c: "core s (us @ seg @ vs) B" and B: "B \<subseteq> Free us \<union> Free vs"
    and us: "blocks_at (wd s) True (unat (heap_start s)) us x r" and vs: "blocks_at (wd s) r' y vs (unat (topChunk s)) True"
    and new: "blocks_at (wd s') r x seg' y q'" "blocks_at (wd s') q' y vs (unat (topChunk s)) True"
    and w: "\<And>a. a < x + 4 \<or> y + 4 < a \<Longrightarrow> wd s' a = wd s a" "vs = [] \<Longrightarrow> wd s' (y + 4) = wd s (y + 4)"
    and om: "only_mem s s'"
  shows "core s' (us @ seg' @ vs) B" "keeps (Used us \<union> Used vs) s s'"
proof -
  note rl = replace_layout [OF coreD(6) [OF c] us vs new w om] and sb = only_memD [OF om]
  have "bins_ok s' B"
  proof (rule bins_congruent [OF coreD(5) [OF c] sb])
    show "fits B" by (rule fits_subset [OF core_fits [OF c] coreD(4) [OF c]])
    fix b n k assume b: "(b, n) \<in> B" and k: "4 \<le> k" "k < n"
    show "wd s' (b + k) = wd s (b + k)"
    proof (cases "(b, n, False) \<in> set us")
      case True
      then have "b + n \<le> x" using chain_mem [OF us] by auto
      then show ?thesis using w(1) k by simp
    next
      case False
      then have v: "(b, n, False) \<in> set vs" using b B by auto
      then have yb: "y \<le> b" using chain_mem [OF vs] by auto
      show ?thesis
      proof (cases "b + k = y + 4")
        case True
        then have "b + k = b + 4" using yb k by simp
        then show ?thesis using free_header [OF vs v] free_header [OF new(2) v] by simp
      next
        case False
        then have "y + 4 < b + k" using yb k by linarith
        then show ?thesis using w(1) by blast
      qed
    qed
  qed
  then show "core s' (us @ seg' @ vs) B" using B rl(1) by (auto simp: core_def)
  show "keeps (Used us \<union> Used vs) s s'" by (rule rl(2))
qed

text \<open>Only the flag of the previous block changes in the first header.\<close>

lemma chain_relabel:
  assumes "blocks_at w q y vs e r" "vs = (y, k, True) # vs'" "\<And>a. y + 4 < a \<Longrightarrow> w' a = w a" "w' (y + 4) = head_word (of_nat k) True q'"
  shows "blocks_at w' q' y vs e r"
proof -
  have a: "16 \<le> k" "k mod 8 = 0" "blocks_at w True (y + k) vs' e r" using assms(1,2) by auto
  have "blocks_at w' True (y + k) vs' e r"
  proof (rule chain_cong [OF _ a(3)])
    fix b n u assume "(b, n, u) \<in> set vs'"
    then have "y + k \<le> b" "16 \<le> n" using chain_mem [OF a(3)] by auto
    then show "w' (b + 4) = w (b + 4) \<and> (\<not> u \<longrightarrow> w' (b + n) = w (b + n))" using assms(3) a(1) by auto
  qed
  then show ?thesis using assms(2,4) a by simp
qed

lemma chain_after:
  assumes "blocks_at w q y vs e r" "\<And>a. y + 4 \<le> a \<Longrightarrow> w' a = w a"
  shows "blocks_at w' q y vs e r"
proof (rule chain_cong [OF _ assms(1)])
  fix b n u assume "(b, n, u) \<in> set vs"
  then have "y \<le> b" "16 \<le> n" using chain_mem [OF assms(1)] by auto
  then show "w' (b + 4) = w (b + 4) \<and> (\<not> u \<longrightarrow> w' (b + n) = w (b + n))" using assms(2) by auto
qed

text \<open>A free chunk is taken whole.\<close>

lemma core_mark:
  assumes c: "core s (us @ (x, m, False) # vs) B" and xB: "(x, m) \<notin> B"
  shows "core (mark_inuse (of_nat x) s) (us @ (x, m, True) # vs) B"
    "keeps (Used (us @ (x, m, False) # vs)) s (mark_inuse (of_nat x) s)" "only_mem s (mark_inuse (of_nat x) s)"
proof -
  have c': "core s (us @ [(x, m, False)] @ vs) B" using c by simp
  obtain a r y r' where ch: "blocks_at (wd s) True (unat (heap_start s)) us a r" "blocks_at (wd s) r a [(x, m, False)] y r'"
    "blocks_at (wd s) r' y vs (unat (topChunk s)) True"
    by (rule core_split_at [OF c'])
  then have xa: "a = x" "y = x + m" "r" "\<not> r'" and m: "16 \<le> m" "m mod 8 = 0" by auto
  have hx: "wd s (x + 4) = head_word (of_nat m) False True" using ch(2) xa by simp
  obtain k vs' where vs: "vs = (x + m, k, True) # vs'" using after_free ch(3) xa by fastforce
  have hn: "wd s (x + m + 4) = head_word (of_nat k) True False" using ch(3) vs xa by simp
  have mem: "(x, m, False) \<in> set (us @ (x, m, False) # vs)" "(x + m, k, True) \<in> set (us @ (x, m, False) # vs)" by (simp_all add: vs)
  note bx = core_block [OF c mem(1)] and bn = core_block [OF c mem(2)]
  have cs: "chunk_size (of_nat m)" "chunk_size (of_nat k)" using bx(4,6) bn(4,6) by (simp_all add: chunk_size_iff unat_of_nat)
  define s1 where "s1 = set_header (of_nat x) (header (of_nat x) s OR CINUSE) s"
  have w1: "wd s1 = (wd s)(x + 4 := head_word (of_nat m) True True)"
    using bx(1) hx head_word_simps(5) [OF cs(1)] by (simp add: s1_def)
  have nx: "NEXTCHUNK (of_nat x) s1 = of_nat (x + m)"
    using header_facts(4) [OF bx(1) _ bx(4,6), of s1 True True] by (simp add: w1)
  define s' where "s' = mark_inuse (of_nat x) s"
  have s': "s' = set_header (of_nat (x + m)) (header (of_nat (x + m)) s1 OR PINUSE) s1"
    unfolding s'_def mark_inuse_def Let_def s1_def [symmetric] nx ..
  have w': "wd s' = (wd s)(x + 4 := head_word (of_nat m) True True, x + m + 4 := head_word (of_nat k) True True)"
  proof -
    have "header (of_nat (x + m)) s1 OR PINUSE = head_word (of_nat k) True True"
      using rd_field(2) [OF bx(2), of s1] hn m head_word_simps(4) [OF cs(2)] by (simp add: w1)
    then show ?thesis unfolding s' using bx(2) by (simp add: w1 del: of_nat_add)
  qed
  have om: "only_mem s s'" unfolding s' s1_def by simp
  have new: "blocks_at (wd s') r a [(x, m, True)] y True"
    using xa m by (simp add: w')
  have new2: "blocks_at (wd s') True y vs (unat (topChunk s)) True"
    by (rule chain_relabel [OF ch(3) vs [folded xa(2)]]) (use m xa in \<open>auto simp: w'\<close>)
  have B: "B \<subseteq> Free us \<union> Free vs" using coreD(4) [OF c] xB by auto
  have words: "wd s' b = wd s b" if "b < a + 4 \<or> y + 4 < b" for b using that xa m by (auto simp: w')
  have "vs = [] \<Longrightarrow> wd s' (y + 4) = wd s (y + 4)" by (simp add: vs)
  note rp = replace_blocks [OF c' B ch(1,3) new new2 words this om]
  show "core (mark_inuse (of_nat x) s) (us @ (x, m, True) # vs) B" using rp(1) by (simp add: s'_def)
  show "keeps (Used (us @ (x, m, False) # vs)) s (mark_inuse (of_nat x) s)" using rp(2) by (simp add: s'_def)
  show "only_mem s (mark_inuse (of_nat x) s)" using om by (simp add: s'_def)
qed

text \<open>A free chunk is split: the front is in use, the rest is free.\<close>

definition cut :: "addr \<Rightarrow> u32 \<Rightarrow> u32 \<Rightarrow> 'a kmstate_scheme \<Rightarrow> 'a kmstate_scheme" where
  "cut chunk sz rest s =
     (let s = set_header chunk (sz OR PINUSE OR CINUSE) s;
          new = CHUNKOFFSET chunk sz;
          s = set_header new (rest OR PINUSE) s
      in set_prev_foot (NEXTCHUNK new s) rest s)"

lemma core_cut:
  assumes c: "core s (us @ (x, m, False) # vs) B" and xB: "(x, m) \<notin> B"
    and n: "16 \<le> n" "n + 16 \<le> m" "n mod 8 = 0"
    and s': "s' = cut (of_nat x) (of_nat n) (of_nat (m - n)) s"
  shows "core s' (us @ (x, n, True) # (x + n, m - n, False) # vs) B"
    "keeps (Used (us @ (x, m, False) # vs)) s s'" "only_mem s s'"
proof -
  have c': "core s (us @ [(x, m, False)] @ vs) B" using c by simp
  obtain a r y r' where ch: "blocks_at (wd s) True (unat (heap_start s)) us a r" "blocks_at (wd s) r a [(x, m, False)] y r'"
    "blocks_at (wd s) r' y vs (unat (topChunk s)) True"
    by (rule core_split_at [OF c'])
  then have xa: "a = x" "y = x + m" "r" "r' = False" and m: "16 \<le> m" "m mod 8 = 0" by auto
  have mem: "(x, m, False) \<in> set (us @ (x, m, False) # vs)" by simp
  note bx = core_block [OF c mem]
  have mn: "(m - n) mod 8 = 0" "m - n < 4294967296" using m(2) n(2,3) bx(6) by (simp_all add: mod_eq_0_iff_dvd)
  have okn: "okaddr (x + n)"
  proof -
    have "(x + n) mod 8 = 0" using bx(1) n(3) by (simp add: okaddr_def mod_add_eq [symmetric])
    then show ?thesis using bx(1,2) n by (simp add: okaddr_def)
  qed
  define s1 where "s1 = set_header (of_nat x) (of_nat n OR PINUSE OR CINUSE) s"
  define s2 where "s2 = set_header (of_nat (x + n)) (of_nat (m - n) OR PINUSE) s1"
  have w1: "wd s1 = (wd s)(x + 4 := head_word (of_nat n) True True)"
    using bx(1) by (simp add: s1_def head_word_intros)
  have w2: "wd s2 = (wd s)(x + 4 := head_word (of_nat n) True True, x + n + 4 := head_word (of_nat (m - n)) False True)"
    unfolding s2_def using okn by (simp add: w1 head_word_intros del: of_nat_add)
  have nx: "NEXTCHUNK (of_nat (x + n)) s2 = of_nat (x + m)"
    using header_facts(4) [OF okn _ mn, of s2 False True] n(2) by (simp add: w2)
  have s'2: "s' = set_prev_foot (of_nat (x + m)) (of_nat (m - n)) s2"
    unfolding s' cut_def Let_def CHUNKOFFSET_def s1_def [symmetric] of_nat_add [symmetric] s2_def [symmetric] nx ..
  have w': "wd s' = (wd s)(x + 4 := head_word (of_nat n) True True, x + n + 4 := head_word (of_nat (m - n)) False True,
      x + m := of_nat (m - n))"
    unfolding s'2 using bx(2) by (simp add: w2 del: of_nat_add)
  have om: "only_mem s s'" unfolding s'2 s2_def s1_def by simp
  have ne: "x + n + 4 \<noteq> x + m" "x + m \<noteq> x + 4" using n by auto
  have new: "blocks_at (wd s') r a [(x, n, True), (x + n, m - n, False)] y False"
    using xa n mn ne by (simp add: w')
  have new2: "blocks_at (wd s') False y vs (unat (topChunk s)) True"
    using ch(3) unfolding xa(4) by (rule chain_after) (use xa n in \<open>auto simp: w'\<close>)
  have B: "B \<subseteq> Free us \<union> Free vs" using coreD(4) [OF c] xB by auto
  have words: "wd s' b = wd s b" if "b < a + 4 \<or> y + 4 < b" for b using that xa n by (auto simp: w')
  have "vs = [] \<Longrightarrow> wd s' (y + 4) = wd s (y + 4)" using xa n by (simp add: w')
  note rp = replace_blocks [OF c' B ch(1,3) new new2 words this om]
  show "core s' (us @ (x, n, True) # (x + n, m - n, False) # vs) B" using rp(1) by simp
  show "keeps (Used (us @ (x, m, False) # vs)) s s'" using rp(2) by simp
  show "only_mem s s'" by (rule om)
qed

end
