(* ===== verification/KAlloc.thy ===== *)
theory KAlloc
  imports KHeapInv
begin

text \<open>
  Allocation from the bins, the designated victim and the top of the heap (the \<open>allocate_\<close> and \<open>split_\<close>
  functions of kmalloc_util.c): each takes one free chunk, whole or its front, and keeps the invariant.
\<close>

section \<open>The result of an allocation\<close>

definition same_arena :: "'a kmstate_scheme \<Rightarrow> 'a kmstate_scheme \<Rightarrow> bool" where
  "same_arena s s' \<longleftrightarrow> heap_start s' = heap_start s \<and> heap_size s' = heap_size s
     \<and> initial_heap_size s' = initial_heap_size s \<and> kmstate.more s' = kmstate.more s"

lemma same_arena_refl [simp]: "same_arena s s"
  by (simp add: same_arena_def)

lemma same_arena_trans: "same_arena s s' \<Longrightarrow> same_arena s' s'' \<Longrightarrow> same_arena s s''"
  by (simp add: same_arena_def)

lemma same_env_arena: "same_env s s' \<Longrightarrow> same_arena s s'"
  using same_envD [of s s'] by (simp add: same_arena_def)

lemma same_arena_dv [simp]: "same_arena s (s'\<lparr>dVictim := a, dVictimSize := b\<rparr>) = same_arena s s'"
  by (simp add: same_arena_def)

text \<open>The caller gets the payload \<open>r\<close> of a new block of at least \<open>c\<close> bytes; every other block in use is as it was.\<close>

definition allocated :: "'a kmstate_scheme \<Rightarrow> block list \<Rightarrow> nat \<Rightarrow> addr \<Rightarrow> 'a kmstate_scheme \<Rightarrow> block list \<Rightarrow> bool" where
  "allocated s bs c r s' bs' \<longleftrightarrow> (\<exists>a n. r = of_nat (a + 8) \<and> c \<le> n \<and> n \<le> c + 16 \<and> (a, n) \<notin> Used bs
     \<and> Used bs' = insert (a, n) (Used bs)) \<and> hinv s' bs' \<and> keeps (Used bs) s s'"

definition valid_size :: "nat \<Rightarrow> bool" where
  "valid_size c \<longleftrightarrow> 16 \<le> c \<and> c mod 8 = 0 \<and> c < 4294967296"

section \<open>The designated victim\<close>

lemma wr_dv [simp]:
  "wr a v (s\<lparr>dVictim := d\<rparr>) = (wr a v s)\<lparr>dVictim := d\<rparr>" "wr a v (s\<lparr>dVictimSize := n\<rparr>) = (wr a v s)\<lparr>dVictimSize := n\<rparr>"
  "rd a (s\<lparr>dVictim := d\<rparr>) = rd a s" "rd a (s\<lparr>dVictimSize := n\<rparr>) = rd a s"
  by (simp_all add: wr_def rd_def)

lemma core_dv [simp]: "core (s\<lparr>dVictim := a, dVictimSize := b\<rparr>) bs B = core s bs B"
  by (simp add: core_def layout_def arena_def top_ok_def bins_ok_def small_at_def large_at_def)

lemma keeps_dv [simp]: "keeps U s (s'\<lparr>dVictim := a, dVictimSize := b\<rparr>) = keeps U s s'"
  by (simp add: keeps_def)

lemma hinvD:
  assumes "hinv s bs"
  shows "core s bs (Free bs - dv_set s)" "dv_set s \<subseteq> Free bs" "dVictim s = NULL \<Longrightarrow> dVictimSize s = 0"
  using assms by (simp_all add: hinv_def)

lemma once:
  assumes "core s (us @ (x, m, u) # vs) B"
  shows "(x, m', u') \<notin> set us" "(x, m', u') \<notin> set vs"
proof -
  obtain a r where "blocks_at (wd s) True (unat (heap_start s)) us a r" "blocks_at (wd s) r a ((x, m, u) # vs) (unat (topChunk s)) True"
    using coreD(3) [OF assms] unfolding chain_append by blast
  then have ch: "blocks_at (wd s) True (unat (heap_start s)) us x r" "blocks_at (wd s) u (x + m) vs (unat (topChunk s)) True" "16 \<le> m"
    by auto
  show "(x, m', u') \<notin> set us" "(x, m', u') \<notin> set vs"
    using chain_mem [OF ch(1)] chain_mem [OF ch(2)] ch(3) by fastforce+
qed

lemma block_at:
  assumes "(x, m, u) \<in> set bs"
  obtains us vs where "bs = us @ (x, m, u) # vs"
  using assms by (meson split_list)

lemma dv_block:
  assumes "hinv s bs" "dVictim s \<noteq> NULL"
  obtains us d k vs where "bs = us @ (d, k, False) # vs" "dVictim s = of_nat d" "dVictimSize s = of_nat k" "dv_set s = {(d, k)}"
    "k < 4294967296" "okaddr d"
proof -
  have "dv_set s = {(unat (dVictim s), unat (dVictimSize s))}" using assms(2) by (simp add: dv_set_def)
  moreover then have m: "(unat (dVictim s), unat (dVictimSize s), False) \<in> set bs" using hinvD(2) [OF assms(1)] by simp
  moreover obtain us vs where "bs = us @ (unat (dVictim s), unat (dVictimSize s), False) # vs" by (rule block_at [OF m])
  moreover note core_block(1,6) [OF hinvD(1) [OF assms(1)] m]
  ultimately show ?thesis using that by (metis of_nat_unat ucast_id)
qed

lemma dv_set_new: "okaddr d \<Longrightarrow> k < 4294967296 \<Longrightarrow> dv_set (s\<lparr>dVictim := of_nat d, dVictimSize := of_nat k\<rparr>) = {(d, k)}"
  unfolding dv_set_def by (auto simp: unat_of_nat okaddr_def)

lemma dv_set_none [simp]: "dv_set (s\<lparr>dVictim := NULL, dVictimSize := n\<rparr>) = {}"
  by (simp add: dv_set_def)

lemma only_mem_dv: "only_mem s s' \<Longrightarrow> dVictim s' = dVictim s \<and> dVictimSize s' = dVictimSize s \<and> dv_set s' = dv_set s"
  using same_envD(4,5) [OF same_env_only_mem, of s s'] by (simp add: dv_set_def)

lemma same_env_dv: "same_env s s' \<Longrightarrow> dVictim s' = dVictim s \<and> dVictimSize s' = dVictimSize s \<and> dv_set s' = dv_set s"
  using same_envD(4,5) [of s s'] by (simp add: dv_set_def)

text \<open>A block becomes used, whole or cut: the two ways every allocation from a free chunk ends.\<close>

lemma taken_whole:
  assumes c: "core s bs (Free bs - D - {(x, m)})" and x: "(x, m, False) \<in> set bs" and D: "D \<subseteq> Free bs" "(x, m) \<notin> D"
  obtains bs' where "core (mark_inuse (of_nat x) s) bs' (Free bs' - D)" "D \<subseteq> Free bs'"
    "Used bs' = insert (x, m) (Used bs)" "(x, m) \<notin> Used bs" "keeps (Used bs) s (mark_inuse (of_nat x) s)"
    "only_mem s (mark_inuse (of_nat x) s)"
proof -
  obtain us vs where bs: "bs = us @ (x, m, False) # vs" by (rule block_at [OF x])
  note o = once [OF c [unfolded bs]]
  have "(x, m) \<notin> Free bs - D - {(x, m)}" by simp
  note k = core_mark [OF c [unfolded bs] this [unfolded bs]]
  have F: "Free bs - D - {(x, m)} = Free (us @ (x, m, True) # vs) - D" using o by (auto simp: bs)
  have "D \<subseteq> Free (us @ (x, m, True) # vs)" using D unfolding bs by auto
  moreover have "Used (us @ (x, m, True) # vs) = insert (x, m) (Used bs)" "(x, m) \<notin> Used bs" using o by (auto simp: bs)
  ultimately show ?thesis using that k unfolding F bs [symmetric] by blast
qed

lemma taken_front:
  assumes c: "core s bs (Free bs - D - {(x, m)})" and x: "(x, m, False) \<in> set bs" and D: "D \<subseteq> Free bs" "(x, m) \<notin> D"
    and n: "valid_size n" "n + 16 \<le> m" and s': "s' = cut (of_nat x) (of_nat n) (of_nat (m - n)) s"
  obtains bs' where "core s' bs' (Free bs' - D - {(x + n, m - n)})" "D \<subseteq> Free bs'" "(x + n, m - n, False) \<in> set bs'" "(x + n, m - n) \<notin> D"
    "Used bs' = insert (x, n) (Used bs)" "(x, n) \<notin> Used bs" "keeps (Used bs) s s'" "only_mem s s'"
proof -
  obtain us vs where bs: "bs = us @ (x, m, False) # vs" by (rule block_at [OF x])
  note o = once [OF c [unfolded bs]]
  have v: "16 \<le> n" "n mod 8 = 0" using n(1) by (simp_all add: valid_size_def)
  have "(x, m) \<notin> Free bs - D - {(x, m)}" by simp
  note k = core_cut [OF c [unfolded bs] this [unfolded bs] v(1) n(2) v(2) s']
  let ?b = "us @ (x, n, True) # (x + n, m - n, False) # vs"
  have k1: "core s' ((us @ [(x, n, True)]) @ (x + n, m - n, False) # vs) (Free bs - D - {(x, m)})" using k(1) by (simp add: bs)
  note o2 = once [OF k1]
  have D2: "(x + n, m - n) \<notin> D" using D o2 v(1) unfolding bs by auto
  have F: "Free bs - D - {(x, m)} = Free ?b - D - {(x + n, m - n)}" using o o2 v(1) by (auto simp: bs)
  have "D \<subseteq> Free ?b" using D unfolding bs by auto
  moreover have "Used ?b = insert (x, n) (Used bs)" "(x, n) \<notin> Used bs" using o by (auto simp: bs)
  moreover have "(x + n, m - n, False) \<in> set ?b" by simp
  ultimately show ?thesis using that D2 k unfolding F bs [symmetric] by blast
qed

lemma word_diff_of_nat: "c \<le> m \<Longrightarrow> (of_nat m :: u32) - of_nat c = of_nat (m - c)"
  by (simp add: of_nat_diff)

lemma of_nat_le_u32: "\<lbrakk>m < 4294967296; n < 4294967296\<rbrakk> \<Longrightarrow> (of_nat m :: u32) \<le> of_nat n \<longleftrightarrow> m \<le> n"
  by (simp add: word_le_nat_alt unat_of_nat)

lemma allocate_dv_ok:
  assumes h: "hinv s bs" and c: "valid_size c" and le: "of_nat c \<le> dVictimSize s"
  obtains r s' bs' where "allocate_dv (of_nat c) s = (r, s')" "allocated s bs c r s' bs'" "same_arena s s'"
proof -
  have cv: "c < 4294967296" "16 \<le> c" using c by (simp_all add: valid_size_def)
  have "dVictim s \<noteq> NULL"
  proof
    assume "dVictim s = NULL"
    then have "(of_nat c :: u32) \<le> 0" using hinvD(3) [OF h] le by simp
    then show False using cv by (simp add: word_le_nat_alt unat_of_nat)
  qed
  obtain us d k vs where dv: "bs = us @ (d, k, False) # vs" "dVictim s = of_nat d" "dVictimSize s = of_nat k" "dv_set s = {(d, k)}"
    "k < 4294967296" "okaddr d"
    by (rule dv_block [OF h \<open>dVictim s \<noteq> NULL\<close>])
  have ck: "c \<le> k" using le dv(3,5) cv by (simp add: of_nat_le_u32)
  have mem: "(d, k, False) \<in> set bs" by (simp add: dv(1))
  have co: "core s bs (Free bs - {} - {(d, k)})" using hinvD(1) [OF h] dv(4) by simp
  note bl = core_block [OF co mem]
  have cond: "\<not> (dVictim s = NULL \<or> dVictimSize s < of_nat c)" using \<open>dVictim s \<noteq> NULL\<close> le by (simp add: not_less)
  have small: "(of_nat (k - c) :: u32) < MINCHUNKSIZE \<longleftrightarrow> k - c < 16"
    using bl(6) by (simp add: MINCHUNKSIZE_def word_less_nat_alt unat_of_nat del: of_nat_diff)
  show ?thesis
  proof (cases "k - c < 16")
    case True
    let ?s = "(mark_inuse (of_nat d) s)\<lparr>dVictim := NULL, dVictimSize := 0\<rparr>"
    have run: "allocate_dv (of_nat c) s = (of_nat (d + 8), ?s)"
      using cond True small word_diff_of_nat [OF ck] by (simp add: allocate_dv_def dv(2,3) CHUNK_PAYLOAD_def Let_def)
    obtain bs' where b: "core (mark_inuse (of_nat d) s) bs' (Free bs' - {})" "Used bs' = insert (d, k) (Used bs)" "(d, k) \<notin> Used bs"
      "keeps (Used bs) s (mark_inuse (of_nat d) s)" "only_mem s (mark_inuse (of_nat d) s)"
      by (rule taken_whole [OF co mem]) auto
    have "hinv ?s bs'" using b(1) by (simp add: hinv_def)
    then have "allocated s bs c (of_nat (d + 8)) ?s bs'"
      unfolding allocated_def using b(2-4) ck True by (intro conjI exI [of _ d] exI [of _ k]) auto
    then show ?thesis using that run same_env_arena [OF same_env_only_mem [OF b(5)]] by simp
  next
    case False
    let ?c = "cut (of_nat d) (of_nat c) (of_nat (k - c)) s"
    let ?s = "?c\<lparr>dVictim := of_nat (d + c), dVictimSize := of_nat (k - c)\<rparr>"
    have run: "allocate_dv (of_nat c) s = (of_nat (d + 8), ?s)"
      using cond False small word_diff_of_nat [OF ck]
      by (simp add: allocate_dv_def dv(2,3) CHUNK_PAYLOAD_def cut_def Let_def CHUNKOFFSET_def NEXTCHUNK_def GETCHUNKSIZE_def del: of_nat_diff)
    obtain bs' where b: "core ?c bs' (Free bs' - {} - {(d + c, k - c)})" "(d + c, k - c, False) \<in> set bs'"
      "Used bs' = insert (d, c) (Used bs)" "(d, c) \<notin> Used bs" "keeps (Used bs) s ?c" "only_mem s ?c"
      by (rule taken_front [OF co mem _ _ c _ refl]) (use False ck in auto)
    have n: "dv_set ?s = {(d + c, k - c)}" using core_block(1,6) [OF b(1,2)] by (rule dv_set_new)
    have "hinv ?s bs'" unfolding hinv_def n using b(1,2) core_block(1) [OF b(1,2)] by (simp del: of_nat_add)
    then have "allocated s bs c (of_nat (d + 8)) ?s bs'"
      unfolding allocated_def using b(3-5) by (intro conjI exI [of _ d] exI [of _ c]) auto
    then show ?thesis using that run same_env_arena [OF same_env_only_mem [OF b(6)]] by simp
  qed
qed

text \<open>The rest of a split becomes the new victim, the old victim goes to its bin.\<close>

lemma replace_dv_ok:
  assumes c: "core s bs (Free bs - dv_set s - {(y, k)})" and y: "(y, k, False) \<in> set bs"
    and D: "dv_set s \<subseteq> Free bs" "(y, k) \<notin> dv_set s"
  obtains s' where "replace_dv (of_nat y) s = Some s'" "hinv s' bs" "keeps (Used bs) s s'" "same_arena s s'"
proof -
  obtain s1 where s1: "(if dVictim s \<noteq> NULL then bin_chunk (dVictim s) s else Some s) = Some s1"
    and 1: "core s1 bs (Free bs - {(y, k)}) \<and> keeps (Used bs) s s1 \<and> same_env s s1"
  proof (cases "dVictim s = NULL")
    case True
    then show ?thesis using c that [of s] by (simp add: dv_set_def)
  next
    case False
    define d l where "d = unat (dVictim s)" and "l = unat (dVictimSize s)"
    have ds: "dv_set s = {(d, l)}" "of_nat d = dVictim s" using False by (simp_all add: dv_set_def d_def l_def)
    have m: "(d, l, False) \<in> set bs" using D(1) ds by simp
    have "insert (d, l) (Free bs - dv_set s - {(y, k)}) = Free bs - {(y, k)}"
      using m D(2) unfolding ds(1) by auto
    moreover have "(d, l) \<notin> Free bs - dv_set s - {(y, k)}" by (simp add: ds(1))
    ultimately obtain s1 where "bin_chunk (of_nat d) s = Some s1" "core s1 bs (Free bs - {(y, k)})" "keeps (Used bs) s s1" "same_env s s1"
      using core_bin_chunk [OF c m] by metis
    then show ?thesis using that [of s1] ds(2) False by simp
  qed
  define s' where "s' = s1\<lparr>dVictim := of_nat y, dVictimSize := of_nat k\<rparr>"
  have r: "replace_dv (of_nat y) s = Some s'"
    using core_free(2) [OF conjunct1 [OF 1] y] by (simp add: replace_dv_def s1 s'_def GETCHUNKSIZE_def)
  note b = core_block(1,6) [OF conjunct1 [OF 1] y]
  have "hinv s' bs" unfolding s'_def hinv_def dv_set_new [OF b] using 1 y b(1) by simp
  moreover have "keeps (Used bs) s s'" "same_arena s s'" unfolding s'_def using 1 same_env_arena [of s s1] by simp_all
  ultimately show ?thesis using that r by blast
qed

section \<open>Chunks from the bins\<close>

text \<open>A chunk that has left its bin is taken whole, or cut with the rest for the new victim.\<close>

lemma take_whole_ok:
  assumes c: "core s bs (Free bs - dv_set s - {(x, m)})" and x: "(x, m, False) \<in> set bs"
    and D: "dv_set s \<subseteq> Free bs" "(x, m) \<notin> dv_set s" "dVictim s = NULL \<longrightarrow> dVictimSize s = 0"
    and n: "n \<le> m" "m \<le> n + 16"
  obtains bs' where "allocated s bs n (of_nat (x + 8)) (mark_inuse (of_nat x) s) bs'" "same_arena s (mark_inuse (of_nat x) s)"
proof -
  obtain bs' where b: "core (mark_inuse (of_nat x) s) bs' (Free bs' - dv_set s)" "dv_set s \<subseteq> Free bs'"
    "Used bs' = insert (x, m) (Used bs)" "(x, m) \<notin> Used bs" "keeps (Used bs) s (mark_inuse (of_nat x) s)"
    "only_mem s (mark_inuse (of_nat x) s)"
    by (rule taken_whole [OF c x D(1,2)])
  note d = only_mem_dv [OF b(6)]
  have "hinv (mark_inuse (of_nat x) s) bs'" using b(1,2) d D(3) by (simp add: hinv_def)
  then have "allocated s bs n (of_nat (x + 8)) (mark_inuse (of_nat x) s) bs'"
    unfolding allocated_def using b(3-5) n by blast
  then show ?thesis using that same_env_arena [OF same_env_only_mem [OF b(6)]] by blast
qed

lemma take_front_ok:
  assumes c: "core s bs (Free bs - dv_set s - {(x, m)})" and x: "(x, m, False) \<in> set bs"
    and D: "dv_set s \<subseteq> Free bs" "(x, m) \<notin> dv_set s"
    and n: "valid_size n" "n + 16 \<le> m"
  obtains s' bs' where "replace_dv (of_nat (x + n)) (cut (of_nat x) (of_nat n) (of_nat (m - n)) s) = Some s'"
    "allocated s bs n (of_nat (x + 8)) s' bs'" "same_arena s s'"
proof -
  define s1 where "s1 = cut (of_nat x) (of_nat n) (of_nat (m - n)) s"
  obtain bs' where b: "core s1 bs' (Free bs' - dv_set s - {(x + n, m - n)})" "dv_set s \<subseteq> Free bs'" "(x + n, m - n, False) \<in> set bs'"
    "(x + n, m - n) \<notin> dv_set s" "Used bs' = insert (x, n) (Used bs)" "(x, n) \<notin> Used bs" "keeps (Used bs) s s1" "only_mem s s1"
    by (rule taken_front [OF c x D n s1_def])
  note d = only_mem_dv [OF b(8)]
  have c1: "core s1 bs' (Free bs' - dv_set s1 - {(x + n, m - n)})" "dv_set s1 \<subseteq> Free bs'" "(x + n, m - n) \<notin> dv_set s1"
    using b(1,2,4) d by simp_all
  obtain s' where r: "replace_dv (of_nat (x + n)) s1 = Some s'" "hinv s' bs'" "keeps (Used bs') s1 s'" "same_arena s1 s'"
    by (rule replace_dv_ok [OF c1(1) b(3) c1(2,3)])
  have "keeps (Used bs) s s'" using b(7) keeps_mono [OF r(3), of "Used bs"] b(5) by (blast intro: keeps_trans)
  then have "allocated s bs n (of_nat (x + 8)) s' bs'"
    unfolding allocated_def using b(5,6) r(2) by (intro conjI exI [of _ x] exI [of _ n]) simp_all
  moreover have "same_arena s s'"
    by (rule same_arena_trans [OF same_env_arena [OF same_env_only_mem [OF b(8)]] r(4)])
  ultimately show ?thesis using that r(1) unfolding s1_def by blast
qed

lemma core_pop_small:
  assumes c: "core s bs B" and j: "j < 32" "bit (sbinmap s) j"
  obtains x hd' s1 s' where "kmalloc_dllist_remove (sbin s j) s = (hd', of_nat x, s1)" "(x, 8 * j) \<in> B"
    "s' = clear_sbin j (s1\<lparr>sbin := (sbin s1)(j := hd')\<rparr>)" "core s' bs (B - {(x, 8 * j)})" "keeps (Used bs) s s'" "same_env s s'"
proof -
  have f: "fits B" by (rule fits_subset [OF core_fits [OF c] coreD(4) [OF c]])
  obtain x hd' s1 s' where p: "kmalloc_dllist_remove (sbin s j) s = (hd', of_nat x, s1)" "(x, 8 * j) \<in> B"
    "s' = clear_sbin j (s1\<lparr>sbin := (sbin s1)(j := hd')\<rparr>)"
    "bins_ok s' (B - {(x, 8 * j)})" "same_env s s'" "\<forall>a. a \<notin> body B \<longrightarrow> wd s' a = wd s a"
    by (rule pop_small [OF coreD(5) [OF c] f j])
  have w: "wd s' a = wd s a" if "a \<notin> body (Free bs)" for a using p(6) that body_mono [OF coreD(4) [OF c]] by blast
  have "B - {(x, 8 * j)} \<subseteq> Free bs" using coreD(4) [OF c] by blast
  from core_bins [OF c p(5) w this p(4)] show ?thesis using that p(1-3,5) by blast
qed

text \<open>What every removal from a bin leaves for the lemmas above.\<close>

lemma removed_from_bin:
  assumes h: "hinv s bs" and x: "(x, m) \<in> Free bs - dv_set s" and e: "same_env s s'"
    and c: "core s' bs (Free bs - dv_set s - {(x, m)})"
  shows "core s' bs (Free bs - dv_set s' - {(x, m)})" "(x, m, False) \<in> set bs" "dv_set s' \<subseteq> Free bs" "(x, m) \<notin> dv_set s'"
    "dVictim s' = NULL \<longrightarrow> dVictimSize s' = 0"
  using c x hinvD(2,3) [OF h] same_env_dv [OF e] by simp_all

lemma allocated_after:
  assumes "keeps (Used bs) s s1" "allocated s1 bs n r s' bs'"
  shows "allocated s bs n r s' bs'"
  using assms keeps_trans unfolding allocated_def by blast

lemma allocate_sbin_ok:
  assumes h: "hinv s bs" and j: "j < 32" "bit (sbinmap s) j" and n: "valid_size n" "8 * j = n \<or> 8 * j = n + 8"
  obtains r s' bs' where "allocate_sbin (of_nat j) s = (r, s')" "allocated s bs n r s' bs'" "same_arena s s'"
proof -
  obtain x hd' s0 s1 where p: "kmalloc_dllist_remove (sbin s j) s = (hd', of_nat x, s0)" "(x, 8 * j) \<in> Free bs - dv_set s"
    "s1 = clear_sbin j (s0\<lparr>sbin := (sbin s0)(j := hd')\<rparr>)" "core s1 bs (Free bs - dv_set s - {(x, 8 * j)})" "keeps (Used bs) s s1" "same_env s s1"
    by (rule core_pop_small [OF hinvD(1) [OF h] j])
  note q = removed_from_bin [OF h p(2,6,4)]
  have nj: "n \<le> 8 * j" "8 * j \<le> n + 16" using n(2) by auto
  obtain bs' where b: "allocated s1 bs n (of_nat (x + 8)) (mark_inuse (of_nat x) s1) bs'" "same_arena s1 (mark_inuse (of_nat x) s1)"
    by (rule take_whole_ok [OF q(1-5) nj])
  have uj: "unat (of_nat j :: u32) = j" using j(1) by (simp add: unat_of_nat)
  have "okaddr x" by (rule core_block(1) [OF p(4) q(2)])
  then have "allocate_sbin (of_nat j) s = (of_nat (x + 8), mark_inuse (of_nat x) s1)"
    unfolding allocate_sbin_def uj p(1) by (simp add: Let_def p(3) CHUNK_PAYLOAD_def)
  then show ?thesis using that allocated_after [OF p(5) b(1)] same_arena_trans [OF same_env_arena [OF p(6)] b(2)] by blast
qed

lemma split_sbin_ok:
  assumes h: "hinv s bs" and j: "j < 32" "bit (sbinmap s) j" and n: "valid_size n" "n + 16 \<le> 8 * j"
  obtains r s' bs' where "split_sbin (of_nat j) (of_nat n) s = Some (r, s')" "allocated s bs n r s' bs'" "same_arena s s'"
proof -
  obtain x hd' s0 s1 where p: "kmalloc_dllist_remove (sbin s j) s = (hd', of_nat x, s0)" "(x, 8 * j) \<in> Free bs - dv_set s"
    "s1 = clear_sbin j (s0\<lparr>sbin := (sbin s0)(j := hd')\<rparr>)" "core s1 bs (Free bs - dv_set s - {(x, 8 * j)})" "keeps (Used bs) s s1" "same_env s s1"
    by (rule core_pop_small [OF hinvD(1) [OF h] j])
  note q = removed_from_bin [OF h p(2,6,4)]
  obtain s' bs' where b: "replace_dv (of_nat (x + n)) (cut (of_nat x) (of_nat n) (of_nat (8 * j - n)) s1) = Some s'"
    "allocated s1 bs n (of_nat (x + 8)) s' bs'" "same_arena s1 s'"
    by (rule take_front_ok [OF q(1-4) n])
  have uj: "unat (of_nat j :: u32) = j" using j(1) by (simp add: unat_of_nat)
  have ok: "okaddr x" by (rule core_block(1) [OF p(4) q(2)])
  have sz: "GETCHUNKSIZE (of_nat x) s1 - of_nat n = of_nat (8 * j - n)"
    unfolding core_free(2) [OF p(4) q(2)] using n(2) by (intro word_diff_of_nat) simp
  have "split_sbin (of_nat j) (of_nat n) s
      = map_option (Pair (of_nat (x + 8))) (replace_dv (of_nat (x + n)) (cut (of_nat x) (of_nat n) (of_nat (8 * j - n)) s1))"
    unfolding split_sbin_def uj p(1) prod.case Let_def p(3) [symmetric] sz if_not_P [OF okaddr_nonzero [OF ok]]
    by (simp add: cut_def Let_def CHUNK_PAYLOAD_def CHUNKOFFSET_def)
  then show ?thesis using that b(1) allocated_after [OF p(5) b(2)] same_arena_trans [OF same_env_arena [OF p(6)] b(3)] by simp
qed

lemma core_take_large:
  assumes c: "core s bs B" and x: "(x, m) \<in> B" "256 \<le> m"
  obtains root s1 s' where "kmalloc_tree_remove (of_nat x) (tbin s (tbin_of m)) s = Some (root, s1)"
    "s' = clear_tbin (tbin_of m) (s1\<lparr>tbin := (tbin s1)(tbin_of m := root)\<rparr>)" "bin_index (of_nat x) s = of_nat (tbin_of m)"
    "core s' bs (B - {(x, m)})" "keeps (Used bs) s s'" "same_env s s'" "tbin_of m < 32"
proof -
  have f: "fits B" by (rule fits_subset [OF core_fits [OF c] coreD(4) [OF c]])
  obtain root s1 s' where p: "kmalloc_tree_remove (of_nat x) (tbin s (tbin_of m)) s = Some (root, s1)"
    "s' = clear_tbin (tbin_of m) (s1\<lparr>tbin := (tbin s1)(tbin_of m := root)\<rparr>)" "bin_index (of_nat x) s = of_nat (tbin_of m)"
    "bins_ok s' (B - {(x, m)})" "same_env s s'" "\<forall>a. a \<notin> body B \<longrightarrow> wd s' a = wd s a"
    by (rule take_large [OF coreD(5) [OF c] f x refl])
  have w: "wd s' a = wd s a" if "a \<notin> body (Free bs)" for a using p(6) that body_mono [OF coreD(4) [OF c]] by blast
  have t: "tbin_of m < 32" using tbin_of_bits(1) x fitsD [OF f x(1)] by simp
  have "B - {(x, m)} \<subseteq> Free bs" using coreD(4) [OF c] by blast
  from core_bins [OF c p(5) w this p(4)] show ?thesis using that p(1-3,5) t by blast
qed

lemma allocate_tchunk_ok:
  assumes h: "hinv s bs" and x: "(x, m) \<in> Free bs - dv_set s" "256 \<le> m" and n: "valid_size n" "n \<le> m"
  obtains r s' bs' where "allocate_tchunk (of_nat x) (of_nat n) s = Some (r, s')" "allocated s bs n r s' bs'" "same_arena s s'"
proof -
  obtain root s0 s1 where p: "kmalloc_tree_remove (of_nat x) (tbin s (tbin_of m)) s = Some (root, s0)"
    "s1 = clear_tbin (tbin_of m) (s0\<lparr>tbin := (tbin s0)(tbin_of m := root)\<rparr>)" "bin_index (of_nat x) s = of_nat (tbin_of m)"
    "core s1 bs (Free bs - dv_set s - {(x, m)})" "keeps (Used bs) s s1" "same_env s s1" "tbin_of m < 32"
    by (rule core_take_large [OF hinvD(1) [OF h] x])
  note q = removed_from_bin [OF h x(1) p(6,4)]
  have ok: "okaddr x" "m mod 8 = 0" "m < 4294967296" using core_block(1,4,6) [OF p(4) q(2)] by simp_all
  have ut: "unat (of_nat (tbin_of m) :: u32) = tbin_of m" using p(7) by (simp add: unat_of_nat)
  have sz: "GETCHUNKSIZE (of_nat x) s1 - of_nat n = of_nat (m - n)"
    unfolding core_free(2) [OF p(4) q(2)] using n(2) by (intro word_diff_of_nat)
  have big: "(of_nat (m - n) :: u32) > MINCHUNKSIZE \<longleftrightarrow> 16 < m - n"
    using ok(3) by (simp add: MINCHUNKSIZE_def word_less_nat_alt unat_of_nat del: of_nat_diff)
  have run: "allocate_tchunk (of_nat x) (of_nat n) s = map_option (Pair (of_nat (x + 8)))
      (if 16 < m - n then replace_dv (of_nat (x + n)) (cut (of_nat x) (of_nat n) (of_nat (m - n)) s1) else Some (mark_inuse (of_nat x) s1))"
    unfolding allocate_tchunk_def if_not_P [OF okaddr_nonzero [OF ok(1)]] p(3) ut Let_def p(1) Option.bind.bind_lunit prod.case p(2) [symmetric] sz big
    by (simp add: cut_def Let_def CHUNK_PAYLOAD_def CHUNKOFFSET_def or.assoc or.commute [of CINUSE PINUSE])
  show ?thesis
  proof (cases "16 < m - n")
    case True
    then have nm: "n + 16 \<le> m" by simp
    obtain s' bs' where b: "replace_dv (of_nat (x + n)) (cut (of_nat x) (of_nat n) (of_nat (m - n)) s1) = Some s'"
      "allocated s1 bs n (of_nat (x + 8)) s' bs'" "same_arena s1 s'"
      by (rule take_front_ok [OF q(1-4) n(1) nm])
    show ?thesis using that run True b(1) allocated_after [OF p(5) b(2)] same_arena_trans [OF same_env_arena [OF p(6)] b(3)] by simp
  next
    case False
    then have nm: "m \<le> n + 16" by simp
    obtain bs' where b: "allocated s1 bs n (of_nat (x + 8)) (mark_inuse (of_nat x) s1) bs'" "same_arena s1 (mark_inuse (of_nat x) s1)"
      by (rule take_whole_ok [OF q(1-5) n(2) nm])
    show ?thesis using that run False allocated_after [OF p(5) b(1)] same_arena_trans [OF same_env_arena [OF p(6)] b(2)] by simp
  qed
qed

lemma smallest_of_bin:
  assumes c: "core s bs B" and j: "j < 32" "bit (tbinmap s) j"
  obtains y m where "kmalloc_tree_get_smallest (tbin s j) s = Some (of_nat y)" "(y, m) \<in> B" "256 \<le> m" "tbin_of m = j"
proof -
  have f: "fits B" by (rule fits_subset [OF core_fits [OF c] coreD(4) [OF c]])
  obtain T where T: "tbin s j = tptr T" "tree_at (wd s) NULL T" "distinct (chunks T)" "set (pairs T) = larges B j"
    "trie (tdepth j) T" "\<forall>x \<in> fst ` larges B j. wd s (x + 28) = of_nat j" "bit (tbinmap s) j \<longleftrightarrow> T \<noteq> Tip"
    by (rule large_bin_tree [OF coreD(5) [OF c] j(1)])
  have lg: "(y, m) \<in> B \<and> 256 \<le> m \<and> tbin_of m = j" if "(y, m) \<in> set (pairs T)" for y m
    using that T(4) by (simp add: larges_def)
  have Tn: "T \<noteq> Tip" using T(7) j(2) by simp
  then obtain y0 k where "(y0, k) \<in> set (pairs T)" by (cases T) auto
  then have k: "256 \<le> k" "k \<le> 0xFFFF00" "tbin_of k = j" using lg fitsD [OF f] by blast+
  have st: "same_top (tdepth j) k T" by (rule larges_same_top [OF f T(4) k])
  have ok: "apart (chunks T)" by (rule apart_larges [OF f T(3)]) (use lg in auto)
  obtain y m where "kmalloc_tree_get_smallest (tptr T) s = Some (of_nat y)" "(y, m) \<in> set (pairs T)" "\<forall>i \<in> sizes T. m \<le> i"
    by (rule tree_smallest [OF T(2) ok Tn T(5) st])
  then show ?thesis using that lg T(1) by metis
qed

lemma best_of_bin:
  assumes c: "core s bs B" and n: "256 \<le> n" "n \<le> 0xFFFF00"
  obtains q where "kmalloc_tree_get_best_fit (of_nat n) (tbin s (tbin_of n)) (TBIN_DEPTH (of_nat (tbin_of n))) s = Some q"
    "q = NULL \<or> (\<exists>y m. q = of_nat y \<and> (y, m) \<in> B \<and> n \<le> m)"
proof -
  have f: "fits B" by (rule fits_subset [OF core_fits [OF c] coreD(4) [OF c]])
  have j: "tbin_of n < 32" by (rule tbin_of_bits(1) [OF n])
  obtain T where T: "tbin s (tbin_of n) = tptr T" "tree_at (wd s) NULL T" "distinct (chunks T)" "set (pairs T) = larges B (tbin_of n)"
    "trie (tdepth (tbin_of n)) T" "\<forall>x \<in> fst ` larges B (tbin_of n). wd s (x + 28) = of_nat (tbin_of n)" "bit (tbinmap s) (tbin_of n) \<longleftrightarrow> T \<noteq> Tip"
    by (rule large_bin_tree [OF coreD(5) [OF c] j])
  have lg: "(y, m) \<in> B \<and> 256 \<le> m \<and> tbin_of m = tbin_of n" if "(y, m) \<in> set (pairs T)" for y m
    using that T(4) by (simp add: larges_def)
  have st: "same_top (tdepth (tbin_of n)) n T" by (rule larges_same_top [OF f T(4) n refl])
  have ok: "apart (chunks T)" by (rule apart_larges [OF f T(3)]) (use lg in auto)
  obtain q where "kmalloc_tree_get_best_fit (of_nat n) (tptr T) (int (tdepth (tbin_of n))) s = Some q"
    "(q = NULL \<and> (\<forall>k \<in> sizes T. k < n)) \<or> (\<exists>y m. q = of_nat y \<and> (y, m) \<in> set (pairs T) \<and> n \<le> m \<and> (n \<in> sizes T \<longrightarrow> m = n))"
    by (rule tree_best_fit [OF T(2) ok T(5) st]) simp
  then show ?thesis using that lg TBIN_DEPTH_depth [OF j] T(1) by metis
qed

end
