(* ===== verification/KTop.thy ===== *)
theory KTop
  imports KAlloc
begin

text \<open>
  The top of the heap: taking a chunk from it, growing it and shrinking it (\<open>split_top\<close>, \<open>grow_top\<close>,
  \<open>shrink_top\<close> of kmalloc_util.c). What the allocator relies on when it asks for memory is the locale
  \<open>heap_provider\<close>.
\<close>

section \<open>Taking from the top\<close>

lemma wr_top [simp]:
  "wr a v (s\<lparr>topChunk := d\<rparr>) = (wr a v s)\<lparr>topChunk := d\<rparr>" "wr a v (s\<lparr>topChunkSize := n\<rparr>) = (wr a v s)\<lparr>topChunkSize := n\<rparr>"
  "wr a v (s\<lparr>heap_size := n\<rparr>) = (wr a v s)\<lparr>heap_size := n\<rparr>"
  "rd a (s\<lparr>topChunk := d\<rparr>) = rd a s" "rd a (s\<lparr>topChunkSize := n\<rparr>) = rd a s" "rd a (s\<lparr>heap_size := n\<rparr>) = rd a s"
  by (simp_all add: wr_def rd_def)

lemma wr_fields [simp]:
  "topChunk (wr a v s) = topChunk s" "topChunkSize (wr a v s) = topChunkSize s" "heap_size (wr a v s) = heap_size s"
  "heap_start (wr a v s) = heap_start s" "initial_heap_size (wr a v s) = initial_heap_size s" "magic (wr a v s) = magic s"
  "dVictim (wr a v s) = dVictim s" "dVictimSize (wr a v s) = dVictimSize s" "kmstate.more (wr a v s) = kmstate.more s"
  "sbin (wr a v s) = sbin s" "tbin (wr a v s) = tbin s" "sbinmap (wr a v s) = sbinmap s" "tbinmap (wr a v s) = tbinmap s"
  by (simp_all add: wr_def)

lemma new_top:
  assumes c: "core s (us @ seg) B" and B: "B \<subseteq> Free us" and us: "blocks_at (wd s) True (unat (heap_start s)) us x r"
    and w: "\<And>a. a < x + 4 \<Longrightarrow> wd s' a = wd s a"
    and e: "heap_start s' = heap_start s" "sbin s' = sbin s" "tbin s' = tbin s" "sbinmap s' = sbinmap s" "tbinmap s' = tbinmap s"
    and s': "arena s'" "top_ok s'" "blocks_at (wd s') r x seg' (unat (topChunk s')) True"
  shows "core s' (us @ seg') B" "keeps (Used us) s s'"
proof -
  have "blocks_at (wd s') True (unat (heap_start s)) us x r"
  proof (rule chain_cong [OF _ us])
    fix b n u assume "(b, n, u) \<in> set us"
    then have "b + n \<le> x" "16 \<le> n" using chain_mem [OF us] by auto
    then show "wd s' (b + 4) = wd s (b + 4) \<and> (\<not> u \<longrightarrow> wd s' (b + n) = wd s (b + n))" using w by simp
  qed
  then have "blocks_at (wd s') True (unat (heap_start s')) (us @ seg') (unat (topChunk s')) True"
    unfolding chain_append e(1) using s'(3) by blast
  moreover have "bins_ok s' B"
  proof (rule bins_congruent [OF coreD(5) [OF c] e(2-5)])
    show "fits B" by (rule fits_subset [OF core_fits [OF c] coreD(4) [OF c]])
    fix b n k assume b: "(b, n) \<in> B" and k: "4 \<le> k" "k < n"
    then have "(b, n, False) \<in> set us" using B by auto
    then have "b + n \<le> x" using chain_mem [OF us] by auto
    then show "wd s' (b + k) = wd s (b + k)" using w k by simp
  qed
  ultimately show "core s' (us @ seg') B" using s' B by (auto simp: core_def layout_def)
  show "keeps (Used us) s s'" unfolding keeps_def
  proof
    fix a assume "a \<in> payload (Used us)"
    then obtain b n j where "(b, n, True) \<in> set us" "j < n + 4" "a = b + j" unfolding payload_def by auto
    moreover then have "b + n \<le> x" using chain_mem [OF us] by auto
    ultimately show "wd s' a = wd s a" using w by simp
  qed
qed

lemma top_okI:
  assumes "tp mod 8 = 0" "ts mod 8 = 0" "tp + ts + 8 \<le> unat (heap_start s) + unat (heap_size s)"
    "0 < ts \<Longrightarrow> wd s (tp + 4) = head_word (of_nat ts) False True" "wd s (tp + ts + 4) = 0"
    "topChunk s = of_nat tp" "topChunkSize s = of_nat ts" "tp < 4294967296" "ts < 4294967296"
  shows "top_ok s"
  using assms by (simp add: top_ok_def Let_def unat_of_nat)

lemma take_top_ok:
  assumes h: "hinv s bs" and n: "valid_size n" and le: "of_nat n \<le> topChunkSize s"
  obtains r s' where "take_top (of_nat n) s = (r, s')" "allocated s bs n r s' (bs @ [(unat (topChunk s), n, True)])" "same_arena s s'"
    "unat (topChunkSize s') = (if unat (topChunkSize s) - n < 16 then 0 else unat (topChunkSize s) - n)"
    "\<forall>b < unat (topChunk s). wd s' b = wd s b"
proof -
  note c = hinvD(1) [OF h]
  define tp ts where "tp = unat (topChunk s)" and "ts = unat (topChunkSize s)"
  have tops: "topChunk s = of_nat tp" "topChunkSize s = of_nat ts" by (simp_all add: tp_def ts_def)
  note a = arenaD [OF coreD(1) [OF c]] and t = top_okD [OF coreD(2) [OF c], folded tp_def ts_def]
    and ct = core_top [OF c, folded tp_def ts_def]
  have v: "16 \<le> n" "n mod 8 = 0" "n < 4294967296" using n by (simp_all add: valid_size_def)
  have nts: "n \<le> ts" using le v(3) ct(5) by (simp add: tops(2) of_nat_le_u32)
  have ts32: "ts < 4294967296" using ct(5) by simp
  have m8: "(tp + n) mod 8 = 0" using t(1) v(2) by (simp add: mod_add_eq [symmetric])
  have okn: "okaddr (tp + n)" using m8 ct(1,2) nts by (simp add: okaddr_def)
  have ch: "blocks_at (wd s) True (unat (heap_start s)) bs tp True" using coreD(3) [OF c] by (simp add: tp_def)
  have c0: "core s (bs @ []) (Free bs - dv_set s)" using c by simp
  have sub: "Free bs - dv_set s \<subseteq> Free bs" by blast
  have diff: "(of_nat ts :: u32) - of_nat n = of_nat (ts - n)" using nts by (rule word_diff_of_nat)
  have small: "(of_nat (ts - n) :: u32) < MINCHUNKSIZE \<longleftrightarrow> ts - n < 16"
    using ts32 by (simp add: MINCHUNKSIZE_def word_less_nat_alt unat_of_nat del: of_nat_diff)
  have new: "(tp, n) \<notin> Used bs"
    using chain_mem [OF ch, of tp n True] v(1) by auto
  define s1 where "s1 = set_header (of_nat tp) (of_nat n OR PINUSE OR CINUSE) s"
  have w1: "wd s1 = (wd s)(tp + 4 := head_word (of_nat n) True True)" using ct(1) by (simp add: s1_def head_word_intros)
  have "\<exists>s'. take_top (of_nat n) s = (of_nat (tp + 8), s') \<and> core s' (bs @ [(tp, n, True)]) (Free bs - dv_set s)
      \<and> keeps (Used bs) s s' \<and> same_arena s s' \<and> dVictim s' = dVictim s \<and> dVictimSize s' = dVictimSize s
      \<and> unat (topChunkSize s') = (if ts - n < 16 then 0 else ts - n) \<and> (\<forall>b < tp. wd s' b = wd s b)"
  proof (cases "ts - n < 16")
    case True
    define s' where "s' = set_header (of_nat (tp + n)) 0 (s1\<lparr>topChunk := of_nat (tp + n), topChunkSize := 0\<rparr>)"
    have nx: "NEXTCHUNK (of_nat tp) s1 = of_nat (tp + n)"
      using header_facts(4) [OF ct(1) _ v(2,3), of s1 True True] by (simp add: w1)
    have run: "take_top (of_nat n) s = (of_nat (tp + 8), s')"
      unfolding take_top_def tops diff if_P [OF iffD2 [OF small True]] Let_def s1_def [symmetric] nx
      by (simp add: s'_def CHUNK_PAYLOAD_def)
    have w': "wd s' = (wd s)(tp + 4 := head_word (of_nat n) True True, tp + n + 4 := 0)"
      unfolding s'_def using okn by (simp add: w1 del: of_nat_add)
    have fl: "heap_start s' = heap_start s" "heap_size s' = heap_size s" "initial_heap_size s' = initial_heap_size s" "magic s' = magic s"
      "kmstate.more s' = kmstate.more s" "sbin s' = sbin s" "tbin s' = tbin s" "sbinmap s' = sbinmap s" "tbinmap s' = tbinmap s"
      "dVictim s' = dVictim s" "dVictimSize s' = dVictimSize s" "topChunk s' = of_nat (tp + n)" "topChunkSize s' = of_nat 0"
      by (simp_all add: s'_def s1_def)
    have u: "unat (topChunk s') = tp + n" using okn unfolding fl(12) by (simp add: okaddr_def unat_of_nat del: of_nat_add)
    have ar: "arena s'" using coreD(1) [OF c] fl by (simp add: arena_def)
    have to: "top_ok s'"
      by (rule top_okI [OF m8, of 0]) (use t(3) nts fl okn v in \<open>auto simp: w' okaddr_def\<close>)
    have ws: "wd s' b = wd s b" if "b < tp + 4" for b using that by (simp add: w')
    have bl: "blocks_at (wd s') True tp [(tp, n, True)] (unat (topChunk s')) True"
      using v by (simp add: u w')
    have "unat (topChunkSize s') = 0" by (simp add: fl(13))
    moreover have "\<forall>b < tp. wd s' b = wd s b" using ws by simp
    ultimately show ?thesis using new_top [OF c0 sub ch ws fl(1,6-9) ar to bl] run fl True
      by (intro exI [of _ s']) (simp add: same_arena_def)
  next
    case False
    define s2 where "s2 = set_header (of_nat (tp + n)) (of_nat (ts - n) OR PINUSE) s1"
    define s' where "s' = set_prev_foot (of_nat (tp + ts)) (of_nat (ts - n)) (s2\<lparr>topChunk := of_nat (tp + n), topChunkSize := of_nat (ts - n)\<rparr>)"
    have tn: "(ts - n) mod 8 = 0" "ts - n < 4294967296" using t(2) v(2) nts ts32 by (simp_all add: mod_eq_0_iff_dvd)
    have w2: "wd s2 = (wd s)(tp + 4 := head_word (of_nat n) True True, tp + n + 4 := head_word (of_nat (ts - n)) False True)"
      unfolding s2_def using okn by (simp add: w1 head_word_intros del: of_nat_add)
    have nx: "NEXTCHUNK (of_nat (tp + n)) s2 = of_nat (tp + ts)"
      using header_facts(4) [OF okn _ tn, of s2 False True] nts by (simp add: w2)
    then have nx': "NEXTCHUNK (of_nat (tp + n)) (s2\<lparr>topChunk := a, topChunkSize := b\<rparr>) = of_nat (tp + ts)" for a b
      by (simp add: NEXTCHUNK_def GETCHUNKSIZE_def del: of_nat_add)
    have run: "take_top (of_nat n) s = (of_nat (tp + 8), s')"
      unfolding take_top_def tops diff if_not_P [OF iffD1 [OF arg_cong [OF small, of Not, symmetric] False]] Let_def s1_def [symmetric]
        CHUNKOFFSET_def of_nat_add [symmetric]
      by (simp add: nx' s'_def CHUNK_PAYLOAD_def flip: s2_def del: of_nat_add of_nat_diff) (simp add: CHUNK_PAYLOAD_def)
    have w': "wd s' = (wd s)(tp + 4 := head_word (of_nat n) True True, tp + n + 4 := head_word (of_nat (ts - n)) False True,
        tp + ts := of_nat (ts - n))"
      unfolding s'_def using ct(2) by (simp add: w2 del: of_nat_add)
    have fl: "heap_start s' = heap_start s" "heap_size s' = heap_size s" "initial_heap_size s' = initial_heap_size s" "magic s' = magic s"
      "kmstate.more s' = kmstate.more s" "sbin s' = sbin s" "tbin s' = tbin s" "sbinmap s' = sbinmap s" "tbinmap s' = tbinmap s"
      "dVictim s' = dVictim s" "dVictimSize s' = dVictimSize s" "topChunk s' = of_nat (tp + n)" "topChunkSize s' = of_nat (ts - n)"
      by (simp_all add: s'_def s2_def s1_def)
    have u: "unat (topChunk s') = tp + n" using okn unfolding fl(12) by (simp add: okaddr_def unat_of_nat del: of_nat_add)
    have ar: "arena s'" using coreD(1) [OF c] fl by (simp add: arena_def)
    have ne: "tp + n + 4 \<noteq> tp + ts" "tp + 4 \<noteq> tp + ts" using False v by auto
    have to: "top_ok s'"
    proof (rule top_okI [OF m8 tn(1) _ _ _ fl(12,13) _ tn(2)])
      show "tp + n + (ts - n) + 8 \<le> unat (heap_start s') + unat (heap_size s')" using t(3) nts fl by simp
      show "wd s' (tp + n + 4) = head_word (of_nat (ts - n)) False True" using ne v by (simp add: w')
      have "ts \<noteq> n" using False by auto
      then show "wd s' (tp + n + (ts - n) + 4) = 0" using t(5) nts False v by (simp add: w')
      show "tp + n < 4294967296" using okn by (simp add: okaddr_def)
    qed
    have ws: "wd s' b = wd s b" if "b < tp + 4" for b using that nts v by (simp add: w')
    have bl: "blocks_at (wd s') True tp [(tp, n, True)] (unat (topChunk s')) True"
      using v ne by (simp add: u w')
    have "unat (topChunkSize s') = ts - n" unfolding fl(13) using tn(2) by (simp add: unat_of_nat del: of_nat_diff)
    moreover have "\<forall>b < tp. wd s' b = wd s b" using ws by simp
    ultimately show ?thesis using new_top [OF c0 sub ch ws fl(1,6-9) ar to bl] run fl(1-5,10,11) False
      by (intro exI [of _ s']) (simp add: same_arena_def)
  qed
  then obtain s' where s': "take_top (of_nat n) s = (of_nat (tp + 8), s')" "core s' (bs @ [(tp, n, True)]) (Free bs - dv_set s)"
    "keeps (Used bs) s s'" "same_arena s s'" "dVictim s' = dVictim s" "dVictimSize s' = dVictimSize s"
    "unat (topChunkSize s') = (if ts - n < 16 then 0 else ts - n)" "\<forall>b < tp. wd s' b = wd s b" by blast
  then have "hinv s' (bs @ [(tp, n, True)])" using hinvD(2,3) [OF h] by (auto simp: hinv_def dv_set_def)
  then have "allocated s bs n (of_nat (tp + 8)) s' (bs @ [(tp, n, True)])"
    unfolding allocated_def using s'(3) new by (intro conjI exI [of _ tp] exI [of _ n]) auto
  then show ?thesis using that s'(1,4,7,8) unfolding tp_def ts_def by blast
qed

section \<open>The provider of memory\<close>

definition same_fields :: "'a kmstate_scheme \<Rightarrow> 'a kmstate_scheme \<Rightarrow> bool" where
  "same_fields s s' \<longleftrightarrow> kmstate.truncate s' = kmstate.truncate s"

lemma same_fieldsD:
  assumes "same_fields s s'"
  shows "hmem s' = hmem s" "heap_start s' = heap_start s" "heap_size s' = heap_size s" "initial_heap_size s' = initial_heap_size s"
    "sbinmap s' = sbinmap s" "tbinmap s' = tbinmap s" "sbin s' = sbin s" "tbin s' = tbin s" "dVictim s' = dVictim s"
    "dVictimSize s' = dVictimSize s" "topChunk s' = topChunk s" "topChunkSize s' = topChunkSize s" "magic s' = magic s"
  using assms by (cases s; cases s'; simp add: same_fields_def kmstate.truncate_def)+

lemma wd_hmem: "hmem s' = hmem s \<Longrightarrow> wd s' = wd s"
  by (intro ext) (simp add: wd_def rd_def)

lemma hinv_same_fields: "same_fields s s' \<Longrightarrow> hinv s' bs = hinv s bs"
  using same_fieldsD [of s s'] wd_hmem [of s' s]
  by (simp add: hinv_def core_def layout_def arena_def top_ok_def bins_ok_def small_at_def large_at_def dv_set_def)

text \<open>
  What the allocator relies on: \<open>avail\<close> is the provider's own invariant, which speaks of the place and the size of the
  heap and of the provider's part of the state. A request to grow is granted only below 16 MiB and the end of the address
  space; neither request touches the allocator's part of the state.
\<close>

locale heap_provider =
  fixes cb :: "'a kmstate_scheme callbacks" and avail :: "'a kmstate_scheme \<Rightarrow> bool"
  assumes avail_cong: "\<lbrakk>avail s; same_arena s s'\<rbrakk> \<Longrightarrow> avail s'"
    and sbrk_grow: "\<lbrakk>avail s; arena s; inc mod 4096 = 0; 0 < inc; inc < 0x7FFFFFFF\<rbrakk> \<Longrightarrow>
      \<exists>p s'. SBRK_CALLBACK cb (of_nat inc) s = Some (p, s') \<and> same_fields s s' \<and>
        (if p = -1 then avail s' else avail (s'\<lparr>heap_size := heap_size s + of_nat inc\<rparr>)
           \<and> unat (heap_size s) + inc \<le> 0xFFFF00 \<and> unat (heap_start s) + unat (heap_size s) + inc + 32 \<le> 4294967296)"
    and sbrk_shrink: "\<lbrakk>avail s; arena s; dec mod 4096 = 0; 0 < dec; dec < unat (heap_size s)\<rbrakk> \<Longrightarrow>
      \<exists>p s'. SBRK_CALLBACK cb (- of_nat dec) s = Some (p, s') \<and> same_fields s s' \<and>
        (if p = -1 then avail s' else avail (s'\<lparr>heap_size := heap_size s - of_nat dec\<rparr>))"

section \<open>Moving the end of the heap\<close>

lemma top_dummy_ok:
  assumes h: "hinv s bs" and m: "hmem s' = hmem s" and ts: "topChunkSize s' = of_nat ts" "ts mod 8 = 0" "0 < ts"
    and e: "heap_start s' = heap_start s" "sbin s' = sbin s" "tbin s' = tbin s" "sbinmap s' = sbinmap s" "tbinmap s' = tbinmap s"
      "topChunk s' = topChunk s" "dVictim s' = dVictim s" "dVictimSize s' = dVictimSize s"
    and ar: "arena s'" and fit: "unat (topChunk s) + ts + 8 \<le> unat (heap_start s') + unat (heap_size s')"
  shows "hinv (top_dummy s') bs" "keeps (Used bs) s (top_dummy s')" "same_arena s' (top_dummy s')" "topChunkSize (top_dummy s') = of_nat ts"
proof -
  note c = hinvD(1) [OF h]
  define tp where "tp = unat (topChunk s)"
  have tops: "topChunk s' = of_nat tp" by (simp add: tp_def e(6))
  note ct = core_top [OF c, folded tp_def] and t = top_okD [OF coreD(2) [OF c], folded tp_def] and a = arenaD [OF ar]
  have w0: "wd s' = wd s" using m by (rule wd_hmem)
  have ts32: "ts < 4294967296" using fit a(4) by linarith
  have okd: "okaddr (tp + ts)"
  proof -
    have "(tp + ts) mod 8 = 0" using t(1) ts(2) by (simp add: mod_add_eq [symmetric])
    then show ?thesis using fit a(4) ct(1) by (simp add: okaddr_def tp_def)
  qed
  define s1 where "s1 = set_header (of_nat tp) (of_nat ts OR PINUSE) s'"
  have w1: "wd s1 = (wd s)(tp + 4 := head_word (of_nat ts) False True)" using ct(1) by (simp add: s1_def w0 head_word_intros)
  have nx: "NEXTCHUNK (of_nat tp) s1 = of_nat (tp + ts)"
    using header_facts(4) [OF ct(1) _ ts(2) ts32, of s1 False True] by (simp add: w1)
  define s2 where "s2 = set_header (of_nat (tp + ts)) 0 (set_prev_foot (of_nat (tp + ts)) (of_nat ts) s1)"
  have s2: "top_dummy s' = s2"
    unfolding top_dummy_def Let_def ts(1) tops s1_def [symmetric] by (simp add: s1_def tops nx [unfolded s1_def] ts(1) s2_def)
  have w2: "wd s2 = (wd s)(tp + 4 := head_word (of_nat ts) False True, tp + ts := of_nat ts, tp + ts + 4 := 0)"
    unfolding s2_def using okd by (simp add: w1 del: of_nat_add)
  have fl: "heap_start s2 = heap_start s'" "heap_size s2 = heap_size s'" "initial_heap_size s2 = initial_heap_size s'" "magic s2 = magic s'"
    "kmstate.more s2 = kmstate.more s'" "sbin s2 = sbin s'" "tbin s2 = tbin s'" "sbinmap s2 = sbinmap s'" "tbinmap s2 = tbinmap s'"
    "dVictim s2 = dVictim s'" "dVictimSize s2 = dVictimSize s'" "topChunk s2 = topChunk s'" "topChunkSize s2 = of_nat ts"
    by (simp_all add: s2_def s1_def ts(1))
  have ne: "tp + 4 \<noteq> tp + ts" "tp + ts + 4 \<noteq> tp + 4" using ts(2,3) by auto
  have to: "top_ok s2"
    by (rule top_okI [OF t(1) ts(2)]) (use fit fl tops ne okd ts32 in \<open>auto simp: w2 tp_def [symmetric] okaddr_def\<close>)
  have ar2: "arena s2" using ar fl by (simp add: arena_def)
  have c0: "core s (bs @ []) (Free bs - dv_set s)" using c by simp
  have sub: "Free bs - dv_set s \<subseteq> Free bs" by blast
  have ch: "blocks_at (wd s) True (unat (heap_start s)) bs tp True" using coreD(3) [OF c] by (simp add: tp_def)
  have ws: "wd s2 b = wd s b" if "b < tp + 4" for b
  proof -
    have "4 < ts" using ts(2,3) by presburger
    then show ?thesis using that by (simp add: w2)
  qed
  have e2: "heap_start s2 = heap_start s" "sbin s2 = sbin s" "tbin s2 = tbin s" "sbinmap s2 = sbinmap s" "tbinmap s2 = tbinmap s"
    using fl e by simp_all
  have bl: "blocks_at (wd s2) True tp [] (unat (topChunk s2)) True" using fl e by (simp add: tp_def)
  note n = new_top [OF c0 sub ch ws e2 ar2 to bl]
  have "dv_set s2 = dv_set s" "dVictim s2 = dVictim s" "dVictimSize s2 = dVictimSize s" using fl e by (simp_all add: dv_set_def)
  then show "hinv (top_dummy s') bs" unfolding s2 using n(1) hinvD(2,3) [OF h] by (simp add: hinv_def)
  show "keeps (Used bs) s (top_dummy s')" unfolding s2 by (rule n(2))
  show "same_arena s' (top_dummy s')" unfolding s2 using fl by (simp add: same_arena_def)
  show "topChunkSize (top_dummy s') = of_nat ts" unfolding s2 by (rule fl(13))
qed

lemma mask_floor: "k < 32 \<Longrightarrow> (x :: u32) AND NOT (mask k) = of_nat (unat x div 2 ^ k * 2 ^ k)"
proof -
  have "x AND NOT (mask k) = push_bit k (drop_bit k x)"
    by (intro bit_word_eqI) (auto simp: bit_simps)
  moreover have "unat (drop_bit k x) = unat x div 2 ^ k"
    by (simp only: unat_drop_bit_eq) (simp add: drop_bit_eq_div)
  then have "drop_bit k x = of_nat (unat x div 2 ^ k)" by (metis of_nat_unat ucast_id)
  ultimately show ?thesis by (simp add: push_bit_eq_mult)
qed

lemma page_mod8: "(m :: nat) mod 4096 = 0 \<Longrightarrow> m mod 8 = 0"
proof -
  assume "m mod 4096 = 0"
  then obtain q where "m = 8 * (512 * q)" by (auto simp: mod_eq_0_iff_dvd)
  then show ?thesis by simp
qed

lemma round_page:
  assumes "k + 4095 < 4294967296"
  obtains r where "(of_nat k + (HEAP_SIZE_ALIGN - 1)) AND NOT (HEAP_SIZE_ALIGN - 1) = of_nat r" "r mod 4096 = 0" "k \<le> r" "r \<le> k + 4095"
    "\<forall>m. m mod 4096 = 0 \<longrightarrow> k \<le> m \<longrightarrow> r \<le> m"
proof -
  define r where "r = (k + 4095) div 4096 * 4096"
  have m: "HEAP_SIZE_ALIGN - 1 = (mask 12 :: u32)" by (simp add: HEAP_SIZE_ALIGN_def mask_eq_exp_minus_1)
  have "(of_nat k :: u32) + mask 12 = of_nat (k + 4095)" by (simp add: mask_eq_exp_minus_1)
  then have u: "unat ((of_nat k :: u32) + mask 12) = k + 4095" using assms by (simp add: unat_of_nat del: of_nat_add)
  have "(of_nat k + (HEAP_SIZE_ALIGN - 1)) AND NOT (HEAP_SIZE_ALIGN - 1) = (of_nat r :: u32)"
    unfolding m by (subst mask_floor) (simp_all add: u r_def)
  moreover have "r mod 4096 = 0" "r \<le> k + 4095" by (simp_all add: r_def)
  moreover have "k \<le> r"
  proof -
    have "(k + 4095) mod 4096 < 4096" by simp
    then show ?thesis using div_mult_mod_eq [of "k + 4095" 4096] unfolding r_def by linarith
  qed
  moreover have "r \<le> m" if m: "m mod 4096 = 0" "k \<le> m" for m
  proof -
    obtain q where q: "m = 4096 * q" using m(1) by (auto simp: mod_eq_0_iff_dvd)
    have "(k + 4095) div 4096 \<le> (4096 * q + 4095) div 4096" using m(2) q by (intro div_le_mono) simp
    also have "\<dots> = q" by simp
    finally show ?thesis by (simp add: r_def q)
  qed
  then have "\<forall>m. m mod 4096 = 0 \<longrightarrow> k \<le> m \<longrightarrow> r \<le> m" by simp
  ultimately show ?thesis using that [of r] by simp
qed

context heap_provider
begin

lemma grow_top_ok:
  assumes h: "hinv s bs" and av: "avail s" and k: "0 < k" "k < 0xC00000"
  obtains ok s' where "grow_top cb (of_nat k) s = Some (ok, s')" "hinv s' bs" "keeps (Used bs) s s'" "avail s'"
    "ok \<longrightarrow> unat (topChunkSize s) + k \<le> unat (topChunkSize s')"
proof -
  note c = hinvD(1) [OF h]
  note a = arenaD [OF coreD(1) [OF c]] and t = top_okD [OF coreD(2) [OF c]]
  obtain r where r: "(of_nat k + (HEAP_SIZE_ALIGN - 1)) AND NOT (HEAP_SIZE_ALIGN - 1) = (of_nat r :: u32)" "r mod 4096 = 0" "k \<le> r" "r \<le> k + 4095"
    "\<forall>m. m mod 4096 = 0 \<longrightarrow> k \<le> m \<longrightarrow> r \<le> m"
    by (rule round_page [of k]) (use k in auto)
  have r2: "0 < r" "r < 0x7FFFFFFF" using r k by linarith+
  obtain p s1 where p: "SBRK_CALLBACK cb (of_nat r) s = Some (p, s1)" "same_fields s s1"
    "if p = -1 then avail s1 else avail (s1\<lparr>heap_size := heap_size s + of_nat r\<rparr>)
           \<and> unat (heap_size s) + r \<le> 0xFFFF00 \<and> unat (heap_start s) + unat (heap_size s) + r + 32 \<le> 4294967296"
    using sbrk_grow [OF av coreD(1) [OF c] r(2) r2] by blast
  note f = same_fieldsD [OF p(2)]
  have nb: "\<not> (of_nat r :: u32) > HALF_MAX_SIZE_T"
    using r2 by (simp add: HALF_MAX_SIZE_T_def word_less_nat_alt unat_of_nat)
  show ?thesis
  proof (cases "p = -1")
    case True
    have "grow_top cb (of_nat k) s = Some (False, s1)" using nb True by (simp add: grow_top_def Let_def r(1) p(1))
    moreover have "hinv s1 bs" using h hinv_same_fields [OF p(2)] by simp
    moreover have "keeps (Used bs) s s1" using wd_hmem [OF f(1)] by (simp add: keeps_def)
    ultimately show ?thesis using that [of False s1] p(3) True by simp
  next
    case False
    then have q: "avail (s1\<lparr>heap_size := heap_size s + of_nat r\<rparr>)" "unat (heap_size s) + r \<le> 0xFFFF00"
      "unat (heap_start s) + unat (heap_size s) + r + 32 \<le> 4294967296" using p(3) by simp_all
    define s2 where "s2 = s1\<lparr>heap_size := heap_size s1 + of_nat r, topChunkSize := topChunkSize s1 + of_nat r\<rparr>"
    have run: "grow_top cb (of_nat k) s = Some (True, top_dummy s2)" using nb False by (simp add: grow_top_def Let_def r(1) p(1) s2_def)
    define ts where "ts = unat (topChunkSize s) + r"
    have ts: "topChunkSize s2 = of_nat ts" "ts mod 8 = 0" "0 < ts"
    proof -
      show "topChunkSize s2 = of_nat ts" "0 < ts" using f r2 by (simp_all add: s2_def ts_def)
      have "r mod 8 = 0" by (rule page_mod8 [OF r(2)])
      then show "ts mod 8 = 0" using t(2) by (simp add: ts_def mod_add_eq [symmetric])
    qed
    have hs: "unat (heap_size s2) = unat (heap_size s) + r"
    proof -
      have "heap_size s2 = of_nat (unat (heap_size s) + r)" using f by (simp add: s2_def)
      then show ?thesis using q(2) by (simp add: unat_of_nat del: of_nat_add)
    qed
    have ar: "arena s2"
    proof -
      have "(unat (heap_size s) + r) mod 4096 = 0" using a(6) r(2) by (simp add: mod_add_eq [symmetric])
      then show ?thesis using coreD(1) [OF c] f hs q(2,3) by (simp add: arena_def s2_def)
    qed
    have e: "hmem s2 = hmem s" "heap_start s2 = heap_start s" "sbin s2 = sbin s" "tbin s2 = tbin s" "sbinmap s2 = sbinmap s" "tbinmap s2 = tbinmap s"
      "topChunk s2 = topChunk s" "dVictim s2 = dVictim s" "dVictimSize s2 = dVictimSize s" using f by (simp_all add: s2_def)
    have fit: "unat (topChunk s) + ts + 8 \<le> unat (heap_start s2) + unat (heap_size s2)" using t(3) hs e(2) by (simp add: ts_def)
    note d = top_dummy_ok [OF h e(1) ts e(2-9) ar fit]
    have "same_arena (s1\<lparr>heap_size := heap_size s + of_nat r\<rparr>) (top_dummy s2)"
      using d(3) f by (simp add: same_arena_def s2_def)
    then have "avail (top_dummy s2)" using avail_cong q(1) by blast
    moreover have "ts < 4294967296" using fit ar arenaD(4) [OF ar] by linarith
    then have "unat (topChunkSize s) + k \<le> unat (topChunkSize (top_dummy s2))"
      unfolding d(4) using r(3) by (simp add: ts_def unat_of_nat del: of_nat_add)
    ultimately show ?thesis using that run d(1,2) by simp
  qed
qed

lemma split_top_ok:
  assumes h: "hinv s bs" and av: "avail s" and n: "valid_size n" "n < 0xC00000"
  obtains r s' bs' where "split_top cb (of_nat n) True s = Some (r, s')" "avail s'"
    "allocated s bs n r s' bs' \<or> (r = NULL \<and> topChunkSize s < of_nat n \<and> hinv s' bs \<and> keeps (Used bs) s s')"
proof (cases "topChunkSize s < of_nat n")
  case False
  then have le: "of_nat n \<le> topChunkSize s" by simp
  obtain r s' where "take_top (of_nat n) s = (r, s')" "allocated s bs n r s' (bs @ [(unat (topChunk s), n, True)])" "same_arena s s'"
    by (rule take_top_ok [OF h n(1) le])
  moreover then have "split_top cb (of_nat n) True s = Some (r, s')" using False by (simp add: split_top_def)
  ultimately show ?thesis using that avail_cong [OF av] by blast
next
  case True
  define ts where "ts = unat (topChunkSize s)"
  have "topChunkSize s = of_nat ts" by (simp add: ts_def)
  have lt: "ts < n" using True n(2) by (simp add: ts_def word_less_nat_alt unat_of_nat)
  then have diff: "of_nat n - topChunkSize s = of_nat (n - ts)"
    using word_diff_of_nat [of ts n] by (simp add: ts_def)
  obtain ok s1 where g: "grow_top cb (of_nat (n - ts)) s = Some (ok, s1)" "hinv s1 bs" "keeps (Used bs) s s1" "avail s1"
    "ok \<longrightarrow> unat (topChunkSize s) + (n - ts) \<le> unat (topChunkSize s1)"
    by (rule grow_top_ok [OF h av, of "n - ts"]) (use lt n(2) in auto)
  show ?thesis
  proof (cases ok)
    case False
    then show ?thesis using that True g by (simp add: split_top_def diff)
  next
    case ok: True
    then have "n \<le> unat (topChunkSize s1)" using g(5) lt by (simp add: ts_def)
    then have le: "of_nat n \<le> topChunkSize s1" using n(2) by (simp add: word_le_nat_alt unat_of_nat)
    obtain r s' where "take_top (of_nat n) s1 = (r, s')" "allocated s1 bs n r s' (bs @ [(unat (topChunk s1), n, True)])" "same_arena s1 s'"
      by (rule take_top_ok [OF g(2) n(1) le])
    moreover then have "split_top cb (of_nat n) True s = Some (r, s')" using True ok g(1) by (simp add: split_top_def diff)
    ultimately show ?thesis using that avail_cong [OF g(4)] allocated_after [OF g(3)] by blast
  qed
qed

lemma shrink_top_ok:
  assumes h: "hinv s bs" and av: "avail s"
  obtains s' where "shrink_top cb s = Some s'" "hinv s' bs" "keeps (Used bs) s s'" "avail s'"
proof -
  note c = hinvD(1) [OF h]
  note a = arenaD [OF coreD(1) [OF c]] and t = top_okD [OF coreD(2) [OF c]]
  define ts hs ini where "ts = unat (topChunkSize s)" and "hs = unat (heap_size s)" and "ini = unat (initial_heap_size s)"
  have w: "topChunkSize s = of_nat ts" "heap_size s = of_nat hs" "initial_heap_size s = of_nat ini"
    by (simp_all add: ts_def hs_def ini_def)
  have b: "hs \<le> 0xFFFF00" "hs mod 4096 = 0" "ini mod 4096 = 0" "ts mod 8 = 0" "ts + 8 \<le> hs"
    using a t core_top(3) [OF c] by (simp_all add: ts_def hs_def ini_def)
  have i32: "ini < 4294967296" unfolding ini_def using unat_lt_2p32 [of "initial_heap_size s"] by simp
  show ?thesis
  proof (cases "topChunkSize s > HEAP_SHRINK_TRESHOLD \<and> heap_size s \<ge> initial_heap_size s")
    case False
    then show ?thesis using that [of s] h av by (auto simp: shrink_top_def)
  next
    case True
    then have g: "4096 < ts" "ini \<le> hs"
      by (simp_all add: HEAP_SHRINK_TRESHOLD_def word_less_nat_alt word_le_nat_alt ts_def hs_def ini_def)
    define n0 where "n0 = hs - (ts - 4096)"
    define n1 where "n1 = (if n0 < ini then ini else n0)"
    have n1: "n1 \<le> hs" "hs - n1 \<le> ts - 4096" "0 < n1" using g b by (auto simp: n1_def n0_def)
    obtain r where r: "(of_nat n1 + (HEAP_SIZE_ALIGN - 1)) AND NOT (HEAP_SIZE_ALIGN - 1) = (of_nat r :: u32)" "r mod 4096 = 0" "n1 \<le> r"
      "\<forall>m. m mod 4096 = 0 \<longrightarrow> n1 \<le> m \<longrightarrow> r \<le> m"
      by (rule round_page [of n1]) (use n1(1) b(1) in auto)
    have rh: "r \<le> hs" using spec [OF r(4), of hs] b(2) n1(1) by simp
    define dec where "dec = hs - r"
    have d1: "heap_size s - (topChunkSize s - HEAP_SHRINK_TRESHOLD) = of_nat n0"
    proof -
      have "topChunkSize s - HEAP_SHRINK_TRESHOLD = of_nat (ts - 4096)"
        using word_diff_of_nat [of 4096 ts] g(1) by (simp add: w(1) HEAP_SHRINK_TRESHOLD_def)
      then show ?thesis using word_diff_of_nat [of "ts - 4096" hs] b(5) by (simp add: w(2) n0_def)
    qed
    have d2: "(if of_nat n0 < initial_heap_size s then initial_heap_size s else of_nat n0) = of_nat n1"
    proof -
      have "(of_nat n0 :: u32) < of_nat ini \<longleftrightarrow> n0 < ini" using b(1) i32 by (intro of_nat_less) (auto simp: n0_def)
      then show ?thesis by (simp add: w(3) n1_def)
    qed
    have d3: "heap_size s - of_nat r = of_nat dec" using word_diff_of_nat [OF rh] by (simp add: w(2) dec_def)
    have dec: "dec mod 4096 = 0" "dec \<le> ts - 4096" "dec < hs" "dec < 4294967296"
      using rh r(2,3) b(1,2) n1 by (auto simp: dec_def mod_eq_0_iff_dvd)
    have pos: "(of_nat dec :: u32) > 0 \<longleftrightarrow> 0 < dec" using dec(4) by (simp add: word_less_nat_alt unat_of_nat)
    have nh: "\<not> (of_nat dec :: u32) > HALF_MAX_SIZE_T"
      using dec(3) b(1) by (simp add: HALF_MAX_SIZE_T_def word_less_nat_alt unat_of_nat)
    have run: "shrink_top cb s = (if 0 < dec then map_option (\<lambda>(p, s).
                  if p \<noteq> -1 then
                    let s = s\<lparr>heap_size := heap_size s - of_nat dec, topChunkSize := topChunkSize s - of_nat dec\<rparr>
                    in if topChunkSize s \<noteq> 0 then top_dummy s else set_header (topChunk s) 0 s
                  else s) (SBRK_CALLBACK cb (- of_nat dec) s) else Some s)"
      unfolding shrink_top_def if_P [OF True] Let_def d1 d2 r(1) d3 pos if_not_P [OF nh] ..
    show ?thesis
    proof (cases "0 < dec")
      case False
      then show ?thesis using that [of s] run h av by simp
    next
      case dpos: True
      obtain p s1 where p: "SBRK_CALLBACK cb (- of_nat dec) s = Some (p, s1)" "same_fields s s1"
        "if p = -1 then avail s1 else avail (s1\<lparr>heap_size := heap_size s - of_nat dec\<rparr>)"
        using sbrk_shrink [OF av coreD(1) [OF c] dec(1) dpos dec(3) [unfolded hs_def]] by blast
      note f = same_fieldsD [OF p(2)]
      show ?thesis
      proof (cases "p = -1")
        case True
        have "keeps (Used bs) s s1" using wd_hmem [OF f(1)] by (simp add: keeps_def)
        then show ?thesis using that [of s1] run dpos p True h hinv_same_fields [OF p(2)] by simp
      next
        case False
        define s2 where "s2 = s1\<lparr>heap_size := heap_size s1 - of_nat dec, topChunkSize := topChunkSize s1 - of_nat dec\<rparr>"
        have tsz: "topChunkSize s2 = of_nat (ts - dec)" and hsz: "heap_size s2 = of_nat (hs - dec)"
          using word_diff_of_nat [of dec ts] word_diff_of_nat [of dec hs] dec f g(1) by (simp_all add: s2_def w)
        have u: "unat (of_nat (ts - dec) :: u32) = ts - dec" "unat (heap_size s2) = hs - dec"
          using b(1,5) hsz by (simp_all add: unat_of_nat)
        have tpos: "0 < ts - dec" "topChunkSize s2 \<noteq> 0" using dec(2) g(1) u(1) tsz by auto
        have ts8: "(ts - dec) mod 8 = 0"
        proof -
          have "dec mod 8 = 0" by (rule page_mod8 [OF dec(1)])
          then show ?thesis using b(4) dec(2) by (simp add: mod_eq_0_iff_dvd)
        qed
        have run2: "shrink_top cb s = Some (top_dummy s2)"
          using run dpos p(1) False tpos(2) by (simp add: s2_def Let_def)
        have e: "hmem s2 = hmem s" "heap_start s2 = heap_start s" "sbin s2 = sbin s" "tbin s2 = tbin s" "sbinmap s2 = sbinmap s" "tbinmap s2 = tbinmap s"
          "topChunk s2 = topChunk s" "dVictim s2 = dVictim s" "dVictimSize s2 = dVictimSize s" using f by (simp_all add: s2_def)
        have ar: "arena s2"
        proof -
          have "(hs - dec) mod 4096 = 0" using b(2) dec(1,3) by (simp add: mod_eq_0_iff_dvd)
          moreover have "unat (heap_size s2) \<le> unat (heap_size s)" using u(2) by (simp add: hs_def)
          moreover note a
          ultimately show ?thesis using f u(2) unfolding arena_def by (auto simp: s2_def)
        qed
        have fit: "unat (topChunk s) + (ts - dec) + 8 \<le> unat (heap_start s2) + unat (heap_size s2)"
          using t(3) e(2) u(2) dec(2,3) by (simp add: ts_def hs_def)
        note d = top_dummy_ok [OF h e(1) tsz ts8 tpos(1) e(2-9) ar fit]
        have "same_arena (s1\<lparr>heap_size := heap_size s - of_nat dec\<rparr>) (top_dummy s2)"
          using d(3) f by (simp add: same_arena_def s2_def)
        then have "avail (top_dummy s2)" using avail_cong p(3) False by (metis (full_types))
        then show ?thesis using that run2 d(1,2) by blast
      qed
    qed
  qed
qed

end

end
