(* ===== verification/KSearch.thy ===== *)
theory KSearch
  imports KTop
begin

text \<open>
  \<open>kmalloc\<close> (kmalloc.c): the search for a chunk in the small bins, in the trees, in the designated victim and at the
  top. A chunk found is large enough, and the caller gets a new block; NULL is returned only when the provider refuses
  to grow the heap or the size of the request overflows.
\<close>

lemma unat_small: "j < 4294967296 \<Longrightarrow> unat (of_nat j :: u32) = j"
  by (simp add: unat_of_nat)

lemma bits_and_3: "(w :: u32) AND 3 \<noteq> 0 \<longleftrightarrow> bit w 0 \<or> bit w 1"
proof -
  have m: "(3 :: u32) = mask 2" by (simp add: mask_eq_exp_minus_1)
  have b: "bit (w AND mask 2) i \<longleftrightarrow> bit w i \<and> i < 2" for i by (auto simp: bit_simps)
  have t: "i < (2 :: nat) \<longleftrightarrow> i = 0 \<or> i = 1" for i by auto
  show ?thesis unfolding m
  proof
    assume "w AND mask 2 \<noteq> 0"
    then obtain i where "bit (w AND mask 2) i" using word_some_bit by blast
    then show "bit w 0 \<or> bit w 1" unfolding b t by blast
  next
    assume "bit w 0 \<or> bit w 1"
    then have "bit (w AND mask 2) 0 \<or> bit (w AND mask 2) 1" unfolding b by simp
    then show "w AND mask 2 \<noteq> 0" by auto
  qed
qed

lemma next_index: "NOT (w :: u32) AND 1 = (if bit w 0 then 0 else 1)"
  by (simp add: and_one_eq mod_2_eq_odd bit_0 even_not_iff)

lemma search_small_ok:
  assumes h: "hinv s bs" and n: "valid_size n" "n < 256"
  obtains r s' where "search_small (of_nat n) s = Some (r, s')"
    "(\<exists>bs'. allocated s bs n r s' bs' \<and> same_arena s s') \<or> (r = NULL \<and> s' = s)"
proof -
  note c = hinvD(1) [OF h]
  have v: "16 \<le> n" "n mod 8 = 0" using n(1) by (simp_all add: valid_size_def)
  define j where "j = n div 8"
  have j: "n = 8 * j" "j < 32" using small_size [OF n(2) v(2)] by (simp_all add: j_def)
  have idx: "small_index (of_nat n) = of_nat j"
  proof -
    have "unat (small_index (of_nat n)) = j"
      unfolding small_index_def unat_drop_bit_eq using n(2) by (simp add: drop_bit_eq_div j_def unat_of_nat)
    then show ?thesis by (metis of_nat_unat ucast_id)
  qed
  have uj: "unat (of_nat j :: u32) = j" using j(2) by (simp add: unat_small)
  define bits where "bits = drop_bit j (sbinmap s)"
  have bit: "bit bits k \<longleftrightarrow> bit (sbinmap s) (j + k)" for k by (simp add: bits_def bit_drop_bit_eq)
  have in32: "k < 32" if "bit (sbinmap s) k" for k using bit_imp_le_length [OF that] by simp
  have "\<exists>r s'. search_small (of_nat n) s = Some (r, s') \<and>
      ((\<exists>bs'. allocated s bs n r s' bs' \<and> same_arena s s') \<or> (r = NULL \<and> s' = s))"
  proof (cases "bits AND 3 \<noteq> 0")
    case True
    define k where "k = (if bit bits 0 then j else j + 1)"
    have k: "bit (sbinmap s) k" using True bit [of 0] bit [of 1] unfolding bits_and_3 by (auto simp: k_def)
    have "(of_nat j :: u32) + (NOT bits AND 1) = of_nat k" by (simp add: next_index k_def)
    moreover obtain r s' bs' where "allocate_sbin (of_nat k) s = (r, s')" "allocated s bs n r s' bs'" "same_arena s s'"
      by (rule allocate_sbin_ok [OF h in32 [OF k] k n(1)]) (auto simp: k_def j(1))
    ultimately show ?thesis using True by (simp add: search_small_def Let_def idx uj bits_def [symmetric]) blast
  next
    case False
    show ?thesis
    proof (cases "of_nat n > dVictimSize s")
      case dv: True
      define bits2 where "bits2 = drop_bit 2 bits"
      show ?thesis
      proof (cases "bits2 \<noteq> 0")
        case True
        define k where "k = unat (calc_leftbin 0 bits2)"
        have "k < 32" "bit bits2 k" using leftbin_first [OF True] by (simp_all add: k_def)
        then have kb: "bit (sbinmap s) (j + 2 + k)" by (simp add: bits2_def bit_drop_bit_eq bit add.assoc)
        have "calc_leftbin 0 bits2 = of_nat k" by (simp add: k_def)
        then have ix: "(of_nat j :: u32) + 2 + calc_leftbin 0 bits2 = of_nat (j + 2 + k)" by simp
        have big: "n + 16 \<le> 8 * (j + 2 + k)" using j(1) by simp
        obtain r s' bs' where a: "split_sbin (of_nat (j + 2 + k)) (of_nat n) s = Some (r, s')" "allocated s bs n r s' bs'" "same_arena s s'"
          by (rule split_sbin_ok [OF h in32 [OF kb] kb n(1) big])
        have "search_small (of_nat n) s = split_sbin (of_nat j + 2 + calc_leftbin 0 bits2) (of_nat n) s"
          using False dv True by (simp add: search_small_def Let_def idx uj bits_def [symmetric] bits2_def)
        then show ?thesis unfolding ix a(1) using a(2,3) by blast
      next
        case nobits: False
        show ?thesis
        proof (cases "tbinmap s \<noteq> 0")
          case True
          define t where "t = unat (calc_leftbin 0 (tbinmap s))"
          have t: "t < 32" "bit (tbinmap s) t" using leftbin_first [OF True] by (simp_all add: t_def)
          obtain y m where y: "kmalloc_tree_get_smallest (tbin s t) s = Some (of_nat y)" "(y, m) \<in> Free bs - dv_set s" "256 \<le> m" "tbin_of m = t"
            by (rule smallest_of_bin [OF c t])
          obtain r s' bs' where a: "allocate_tchunk (of_nat y) (of_nat n) s = Some (r, s')" "allocated s bs n r s' bs'" "same_arena s s'"
            by (rule allocate_tchunk_ok [OF h y(2,3) n(1)]) (use n(2) y(3) in auto)
          have "search_small (of_nat n) s = Some (r, s')"
            using False dv nobits True y(1) a(1)
            by (simp add: search_small_def Let_def idx uj bits_def [symmetric] bits2_def allocate_smallest_tbin_def t_def)
          then show ?thesis using a(2,3) by blast
        next
          case False
          then have "search_small (of_nat n) s = Some (NULL, s)"
            using \<open>\<not> bits AND 3 \<noteq> 0\<close> dv nobits by (simp add: search_small_def Let_def idx uj bits_def [symmetric] bits2_def)
          then show ?thesis by blast
        qed
      qed
    next
      case nodv: False
      then have "search_small (of_nat n) s = Some (NULL, s)"
        using False by (simp add: search_small_def Let_def idx uj bits_def [symmetric])
      then show ?thesis by blast
    qed
  qed
  then show ?thesis using that by blast
qed

lemma tbin_of_31:
  assumes "256 \<le> n" "n < 0xC00000"
  shows "tbin_of n < 31"
proof (rule ccontr)
  assume "\<not> tbin_of n < 31"
  then have "tbin_of n = 31" using tbin_of_bits(1) [of n] assms by simp
  then have "n div 4194304 = 3" using tbin_of_bits(2) [of n] assms by (simp add: drop_bit_eq_div)
  then show False using assms(2) by simp
qed

lemma search_tree_ok:
  assumes h: "hinv s bs" and n: "valid_size n" "256 \<le> n" "n < 0xC00000"
  obtains r s' where "search_tree (of_nat n) s = Some (r, s')"
    "(\<exists>bs'. allocated s bs n r s' bs' \<and> same_arena s s') \<or> (r = NULL \<and> s' = s)"
proof -
  note c = hinvD(1) [OF h]
  define j where "j = tbin_of n"
  have j: "j < 31" unfolding j_def by (rule tbin_of_31 [OF n(2,3)])
  have ix: "calc_tbin (of_nat n) = of_nat j" by (simp add: calc_tbin_of j_def)
  have uj: "unat (of_nat j :: u32) = j" "unat (of_nat j + 1 :: u32) = j + 1"
    using j unat_small [of j] unat_small [of "j + 1"] by (simp_all add: add.commute)
  obtain q where q: "kmalloc_tree_get_best_fit (of_nat n) (tbin s j) (TBIN_DEPTH (of_nat j)) s = Some q"
    "q = NULL \<or> (\<exists>y m. q = of_nat y \<and> (y, m) \<in> Free bs - dv_set s \<and> n \<le> m)"
    unfolding j_def by (rule best_of_bin [OF c n(2)]) (use n(3) in auto)
  have take: "\<exists>r s'. allocate_tchunk (of_nat y) (of_nat n) s = Some (r, s') \<and> (\<exists>bs'. allocated s bs n r s' bs' \<and> same_arena s s')"
    if "(y, m) \<in> Free bs - dv_set s" "n \<le> m" for y m
  proof -
    have "256 \<le> m" using that(2) n(2) by simp
    from allocate_tchunk_ok [OF h that(1) this n(1) that(2)] show ?thesis by metis
  qed
  have "\<exists>r s'. search_tree (of_nat n) s = Some (r, s') \<and>
      ((\<exists>bs'. allocated s bs n r s' bs' \<and> same_arena s s') \<or> (r = NULL \<and> s' = s))"
  proof (cases "q = NULL")
    case False
    then obtain y m where y: "q = of_nat y" "(y, m) \<in> Free bs - dv_set s" "n \<le> m" using q(2) by blast
    have "search_tree (of_nat n) s = (if of_nat n > dVictimSize s \<or> GETCHUNKSIZE q s \<le> dVictimSize s
        then allocate_tchunk q (of_nat n) s else Some (NULL, s))"
      using q(1) False by (simp add: search_tree_def ix uj(1) Let_def del: GETCHUNKSIZE_csize)
    then show ?thesis using take [OF y(2,3)] unfolding y(1) by (cases "of_nat n > dVictimSize s \<or> GETCHUNKSIZE q s \<le> dVictimSize s") (auto simp: y(1))
  next
    case True
    define bits where "bits = drop_bit (j + 1) (tbinmap s)"
    have lt: "\<not> 32 \<le> (of_nat j + 1 :: u32)" using j uj(2) by (simp add: word_le_nat_alt)
    show ?thesis
    proof (cases "bits \<noteq> 0")
      case False
      then have "search_tree (of_nat n) s = Some (NULL, s)"
        using q(1) True lt by (simp add: search_tree_def ix uj Let_def bits_def)
      then show ?thesis by blast
    next
      case ne: True
      define k where "k = unat (calc_leftbin 0 bits)"
      have kb: "bit bits k" using leftbin_first [OF ne] by (simp add: k_def)
      then have tb: "bit (tbinmap s) (j + 1 + k)" by (simp add: bits_def bit_drop_bit_eq)
      have t32: "j + 1 + k < 32" using bit_imp_le_length [OF tb] by simp
      have "calc_leftbin 0 bits = of_nat k" by (simp add: k_def)
      then have ix2: "(of_nat j :: u32) + 1 + calc_leftbin 0 bits = of_nat (j + 1 + k)" by simp
      have ut: "unat (of_nat (j + 1 + k) :: u32) = j + 1 + k" using t32 by (intro unat_small) simp
      obtain y m where y: "kmalloc_tree_get_smallest (tbin s (j + 1 + k)) s = Some (of_nat y)" "(y, m) \<in> Free bs - dv_set s" "256 \<le> m"
        "tbin_of m = j + 1 + k"
        by (rule smallest_of_bin [OF c t32 tb])
      have m: "m \<le> 0xFFFF00" using y(2) core_block(5) [OF c, of y m False] by simp
      have nm: "n \<le> m"
        using tbin_of_less [OF n(2) _ y(3) m] n(3) y(4) by (simp add: j_def)
      have "search_tree (of_nat n) s =
          (if calc_tbin (dVictimSize s) \<ge> of_nat (j + 1 + k) \<or> of_nat n > dVictimSize s then
             (if of_nat n > dVictimSize s \<or> GETCHUNKSIZE (of_nat y) s < dVictimSize s then allocate_tchunk (of_nat y) (of_nat n) s else Some (NULL, s))
           else Some (NULL, s))"
        unfolding search_tree_def ix Let_def uj q(1) True bits_def [symmetric] ix2 ut bind.simps y(1) using lt ne
        by (simp del: of_nat_add GETCHUNKSIZE_csize)
      then show ?thesis using take [OF y(2) nm]
        by (cases "(calc_tbin (dVictimSize s) \<ge> of_nat (j + 1 + k) \<or> of_nat n > dVictimSize s)
            \<and> (of_nat n > dVictimSize s \<or> GETCHUNKSIZE (of_nat y) s < dVictimSize s)") auto
    qed
  qed
  then show ?thesis using that by blast
qed

end
