(* ===== verification/KFree.thy ===== *)
theory KFree
  imports KSearch
begin

text \<open>
  \<open>kmalloc\<close> and \<open>kfree\<close> (kmalloc.c, kfree.c) as a whole, inside the locale of the provider: both keep
  the invariant; the first adds a block to those in use, the second removes one, and the others keep their contents.
\<close>

lemma hinv_init: "hinv s bs \<Longrightarrow> KMALLOC_IS_INIT s"
  using arenaD(1,8) [OF coreD(1) [OF hinvD(1), of s bs]] by (simp add: KMALLOC_IS_INIT_def)

lemma payload_addr: "okaddr a \<Longrightarrow> (of_nat (a + 8) :: addr) \<noteq> NULL"
proof -
  assume "okaddr a"
  then have "unat (of_nat (a + 8) :: addr) = a + 8" by (simp add: okaddr_def unat_of_nat del: of_nat_add)
  then show ?thesis by auto
qed

lemma allocated_not_NULL: "allocated s bs n r s' bs' \<Longrightarrow> r \<noteq> NULL"
proof -
  assume "allocated s bs n r s' bs'"
  then obtain a m where a: "r = of_nat (a + 8)" "Used bs' = insert (a, m) (Used bs)" "hinv s' bs'"
    unfolding allocated_def by blast
  then have "(a, m, True) \<in> set bs'" by (metis in_Used insertI1)
  then have "okaddr a" using core_block(1) [OF hinvD(1) [OF a(3)]] by blast
  then show ?thesis using payload_addr a(1) by simp
qed

section \<open>kmalloc\<close>

definition chunk_of_request :: "nat \<Rightarrow> nat" where
  "chunk_of_request req = max 16 ((req + 11) div 8 * 8)"

lemma chunk_of_request_valid:
  assumes "req < 4294967285"
  shows "valid_size (chunk_of_request req)" "REQUEST2SIZE (of_nat req) = of_nat (chunk_of_request req)"
    "req + 4 \<le> chunk_of_request req" "chunk_of_request req \<le> req + 16"
proof -
  have "unat (of_nat req :: u32) = req" using assms by (simp add: unat_of_nat)
  then have "unat (REQUEST2SIZE (of_nat req)) = chunk_of_request req"
    using request_size [of "of_nat req"] assms by (simp add: chunk_of_request_def)
  then show "REQUEST2SIZE (of_nat req) = of_nat (chunk_of_request req)" by (metis of_nat_unat ucast_id)
  have d: "(req + 11) div 8 * 8 \<le> req + 11" "req + 4 \<le> (req + 11) div 8 * 8"
    using div_mult_mod_eq [of "req + 11" 8] by (simp, presburger)
  then show "req + 4 \<le> chunk_of_request req" "chunk_of_request req \<le> req + 16" by (simp_all add: chunk_of_request_def)
  show "valid_size (chunk_of_request req)"
  proof -
    define z where "z = (req + 11) div 8 * 8"
    have "z mod 8 = 0" "z < 4294967296" using d(1) assms unfolding z_def by (simp, linarith)
    then show ?thesis unfolding chunk_of_request_def z_def [symmetric] by (simp add: valid_size_def max_def)
  qed
qed

context heap_provider
begin

lemma kmalloc_intern_ok:
  assumes h: "hinv s bs" and av: "avail s" and n: "valid_size n" "n < 0xC00000"
  obtains r s' where "kmalloc_intern cb (of_nat n) True s = Some (r, s')" "avail s'"
    "(\<exists>bs'. allocated s bs n r s' bs') \<or> (r = NULL \<and> topChunkSize s < of_nat n \<and> hinv s' bs \<and> keeps (Used bs) s s')"
proof -
  have lt: "(of_nat n :: u32) < MIN_LARGE_SIZE \<longleftrightarrow> n < 256"
    using n(2) by (simp add: MIN_LARGE_SIZE_def word_less_nat_alt unat_of_nat)
  define search where "search = (if (of_nat n :: u32) < MIN_LARGE_SIZE then search_small (of_nat n) s else search_tree (of_nat n) s)"
  obtain r s1 where s1: "search = Some (r, s1)" "(\<exists>bs'. allocated s bs n r s1 bs' \<and> same_arena s s1) \<or> (r = NULL \<and> s1 = s)"
  proof (cases "n < 256")
    case True
    then show ?thesis using search_small_ok [OF h n(1) True] that lt by (simp add: search_def) metis
  next
    case False
    then have "256 \<le> n" by simp
    then show ?thesis using search_tree_ok [OF h n(1) _ n(2)] that lt by (simp add: search_def) metis
  qed
  have run: "kmalloc_intern cb (of_nat n) True s =
      (if r = NULL then
            if of_nat n \<le> dVictimSize s1 then Some (allocate_dv (of_nat n) s1) else split_top cb (of_nat n) True s1
          else Some (r, s1))"
    unfolding kmalloc_intern_def search_def [symmetric] s1(1) by simp
  show ?thesis
  proof (cases "r = NULL")
    case False
    then obtain bs' where "allocated s bs n r s1 bs'" "same_arena s s1" using s1(2) by blast
    then show ?thesis using that run False avail_cong [OF av] by auto
  next
    case True
    then have eq: "s1 = s" using s1(2) allocated_not_NULL by blast
    show ?thesis
    proof (cases "of_nat n \<le> dVictimSize s")
      case dv: True
      obtain q s' bs' where "allocate_dv (of_nat n) s = (q, s')" "allocated s bs n q s' bs'" "same_arena s s'"
        by (rule allocate_dv_ok [OF h n(1) dv])
      then show ?thesis using that run True dv eq avail_cong [OF av] by auto
    next
      case False
      obtain q s' bs' where "split_top cb (of_nat n) True s = Some (q, s')" "avail s'"
        "allocated s bs n q s' bs' \<or> (q = NULL \<and> topChunkSize s < of_nat n \<and> hinv s' bs \<and> keeps (Used bs) s s')"
        by (rule split_top_ok [OF h av n])
      then show ?thesis using that run True False eq by auto
    qed
  qed
qed

lemma kmalloc_ok:
  assumes h: "hinv s bs" and av: "avail s" and n: "unat req < 0xBFFFF0"
  obtains r s' where "kmalloc cb req s = Some (r, s')" "avail s'"
    "(\<exists>bs'. allocated s bs (chunk_of_request (unat req)) r s' bs') \<or> (r = NULL \<and> unat (topChunkSize s) < chunk_of_request (unat req) \<and> hinv s' bs \<and> keeps (Used bs) s s')"
proof -
  have v: "unat req < 4294967285" using n by simp
  note c = chunk_of_request_valid [OF v]
  have eq: "REQUEST2SIZE req = of_nat (chunk_of_request (unat req))" using c(2) by simp
  have "chunk_of_request (unat req) < 4294967296" using c(1) by (simp add: valid_size_def)
  then have "\<not> REQUESTOVERFLOW req"
    using c(3) unfolding REQUESTOVERFLOW_def eq by (simp add: word_less_nat_alt unat_of_nat)
  then have run: "kmalloc cb req s = kmalloc_intern cb (of_nat (chunk_of_request (unat req))) True s"
    using hinv_init [OF h] by (simp add: kmalloc_def eq)
  have lt: "chunk_of_request (unat req) < 0xC00000" using c(4) n by linarith
  have "topChunkSize s < of_nat (chunk_of_request (unat req)) \<longleftrightarrow> unat (topChunkSize s) < chunk_of_request (unat req)"
    using lt by (simp add: word_less_nat_alt unat_of_nat)
  moreover obtain r s' where "kmalloc_intern cb (of_nat (chunk_of_request (unat req))) True s = Some (r, s')" "avail s'"
    "(\<exists>bs'. allocated s bs (chunk_of_request (unat req)) r s' bs') \<or>
      (r = NULL \<and> topChunkSize s < of_nat (chunk_of_request (unat req)) \<and> hinv s' bs \<and> keeps (Used bs) s s')"
    by (rule kmalloc_intern_ok [OF h av c(1) lt])
  ultimately show ?thesis using that run by simp
qed

end

section \<open>kfree\<close>

text \<open>What the designated victim may be while a free stretch that starts at \<open>x\<close> is put back.\<close>

definition dv_ready :: "'a kmstate_scheme \<Rightarrow> nat \<Rightarrow> (nat \<times> nat) set \<Rightarrow> (nat \<times> nat) set \<Rightarrow> bool" where
  "dv_ready s x F B \<longleftrightarrow> (dVictim s = of_nat x \<and> B = F)
     \<or> (dVictim s \<noteq> of_nat x \<and> dv_set s \<subseteq> F \<and> B = F - dv_set s \<and> (dVictim s = NULL \<longrightarrow> dVictimSize s = 0))"

lemma dv_ready_cong: "dVictim s' = dVictim s \<Longrightarrow> dVictimSize s' = dVictimSize s \<Longrightarrow> dv_ready s' x F B = dv_ready s x F B"
  by (simp add: dv_ready_def dv_set_def)

lemma finish_free:
  assumes c: "core s (us @ (x, m, False) # vs) B" and d: "dv_ready s x (Free us \<union> Free vs) B"
  obtains s' where "(if of_nat x = dVictim s then Some (s\<lparr>dVictim := of_nat x, dVictimSize := of_nat m\<rparr>) else bin_chunk (of_nat x) s) = Some s'"
    "hinv s' (us @ (x, m, False) # vs)" "keeps (Used us \<union> Used vs) s s'" "same_arena s s'"
proof -
  let ?bs = "us @ (x, m, False) # vs"
  have mem: "(x, m, False) \<in> set ?bs" by simp
  note o = once [OF c] and b = core_block [OF c mem]
  show ?thesis
  proof (cases "dVictim s = of_nat x")
    case True
    define s' where "s' = s\<lparr>dVictim := of_nat x, dVictimSize := of_nat m\<rparr>"
    have "B = Free us \<union> Free vs" using d True by (simp add: dv_ready_def)
    moreover have "Free ?bs - {(x, m)} = Free us \<union> Free vs" using o by auto
    ultimately have "core s' ?bs (Free ?bs - dv_set s')" "dv_set s' = {(x, m)}"
      using c True dv_set_new [OF b(1,6), of s] by (simp_all add: s'_def)
    then show ?thesis using True b(1) that [of s'] by (simp add: hinv_def s'_def)
  next
    case False
    then have dv: "dv_set s \<subseteq> Free us \<union> Free vs" "B = Free us \<union> Free vs - dv_set s" "dVictim s = NULL \<longrightarrow> dVictimSize s = 0"
      using d by (auto simp: dv_ready_def)
    have xB: "(x, m) \<notin> B" using o dv(2) by auto
    obtain s' where k: "bin_chunk (of_nat x) s = Some s'" "core s' ?bs (insert (x, m) B)" "keeps (Used ?bs) s s'" "same_env s s'"
      by (rule core_bin_chunk [OF c mem xB])
    have "insert (x, m) B = Free ?bs - dv_set s" using o dv(1,2) by auto
    then have "hinv s' ?bs" using k(2) same_env_dv [OF k(4)] dv(1,3) unfolding hinv_def by auto
    then show ?thesis using k(1,3) same_env_arena [OF k(4)] False that [of s'] by simp
  qed
qed

text \<open>The block after the stretch is in use.\<close>

lemma merge_used:
  assumes c: "core s (us @ seg @ vs) B"
    and us: "blocks_at (wd s) True (unat (heap_start s)) us x True" and seg: "blocks_at (wd s) True x seg (x + m) True"
    and vs: "blocks_at (wd s) True (x + m) vs (unat (topChunk s)) True" "vs = (x + m, k, True) # vs'"
    and m: "16 \<le> m" "m mod 8 = 0" and ok: "okaddr x" "okaddr (x + m)"
    and d: "dv_ready s x (Free us \<union> Free vs) B"
  obtains s' where "merge_free_chunks cb (of_nat x) (of_nat m) (of_nat (x + m)) s = Some s'" "hinv s' (us @ (x, m, False) # vs)"
    "keeps (Used us \<union> Used vs) s s'" "same_arena s s'"
proof -
  have mem: "(x + m, k, True) \<in> set (us @ seg @ vs)" by (simp add: vs(2))
  note bn = core_block [OF c mem]
  have hn: "wd s (x + m + 4) = head_word (of_nat k) True True" using vs by simp
  have csz: "chunk_size (of_nat k)" using bn(4,6) by (simp add: chunk_size_iff unat_of_nat)
  have use: "IS_INUSE (of_nat (x + m)) s" using header_facts(2) [OF ok(2) hn bn(4,6)] by simp
  define s1 where "s1 = set_prev_foot (of_nat (x + m)) (of_nat m) (set_header (of_nat x) (of_nat m OR PINUSE) s)"
  have w1: "wd s1 = (wd s)(x + 4 := head_word (of_nat m) False True, x + m := of_nat m)"
    unfolding s1_def using ok by (simp add: head_word_intros del: of_nat_add)
  define s2 where "s2 = set_header (of_nat (x + m)) (header (of_nat (x + m)) s1 AND NOT PINUSE) s1"
  have w2: "wd s2 = (wd s)(x + 4 := head_word (of_nat m) False True, x + m := of_nat m, x + m + 4 := head_word (of_nat k) True False)"
  proof -
    have "header (of_nat (x + m)) s1 AND NOT PINUSE = head_word (of_nat k) True False"
      using rd_field(2) [OF ok(2), of s1] hn m head_word_simps(6) [OF csz] by (simp add: w1)
    then show ?thesis unfolding s2_def using ok(2) by (simp add: w1 del: of_nat_add)
  qed
  have om: "only_mem s s2" unfolding s2_def s1_def by simp
  have B: "B \<subseteq> Free us \<union> Free vs" using d by (auto simp: dv_ready_def)
  have new: "blocks_at (wd s2) True x [(x, m, False)] (x + m) False" using m by (simp add: w2)
  have new2: "blocks_at (wd s2) False (x + m) vs (unat (topChunk s)) True"
    by (rule chain_relabel [OF vs]) (use m in \<open>auto simp: w2\<close>)
  have words: "wd s2 b = wd s b" if "b < x + 4 \<or> x + m + 4 < b" for b using that m by (auto simp: w2)
  have "vs = [] \<Longrightarrow> wd s2 (x + m + 4) = wd s (x + m + 4)" by (simp add: vs(2))
  note rp = replace_blocks [OF c B us vs(1) new new2 words this om]
  have c2: "core s2 (us @ (x, m, False) # vs) B" using rp(1) by simp
  note dd = only_mem_dv [OF om]
  have d2: "dv_ready s2 x (Free us \<union> Free vs) B" using d dv_ready_cong [of s2 s] dd by simp
  obtain s' where f: "(if of_nat x = dVictim s2 then Some (s2\<lparr>dVictim := of_nat x, dVictimSize := of_nat m\<rparr>) else bin_chunk (of_nat x) s2) = Some s'"
    "hinv s' (us @ (x, m, False) # vs)" "keeps (Used us \<union> Used vs) s2 s'" "same_arena s2 s'"
    by (rule finish_free [OF c2 d2])
  have "merge_free_chunks cb (of_nat x) (of_nat m) (of_nat (x + m)) s = Some s'"
    using use f(1) unfolding merge_free_chunks_def Let_def s1_def [symmetric] s2_def [symmetric] by simp
  then show ?thesis using that f(2) keeps_trans [OF rp(2) f(3)] same_arena_trans [OF same_env_arena [OF same_env_only_mem [OF om]] f(4)] by blast
qed

text \<open>The block after the stretch is free: the designated victim, or a chunk that leaves its bin.\<close>

lemma merge_free:
  assumes c: "core s (us @ seg @ vs) B"
    and us: "blocks_at (wd s) True (unat (heap_start s)) us x True" and seg: "blocks_at (wd s) True x seg (x + m) True"
    and vs: "blocks_at (wd s) True (x + m) vs (unat (topChunk s)) True" "vs = (x + m, k, False) # vs'"
    and m: "16 \<le> m" "m mod 8 = 0" and ok: "okaddr x"
    and d: "dv_ready s x (Free us \<union> Free vs) B"
  obtains s' where "merge_free_chunks cb (of_nat x) (of_nat m) (of_nat (x + m)) s = Some s'" "hinv s' (us @ (x, m + k, False) # vs')"
    "keeps (Used us \<union> Used vs') s s'" "same_arena s s'"
proof -
  let ?y = "x + m" and ?bs = "us @ [(x, m + k, False)] @ vs'"
  have mem: "(?y, k, False) \<in> set (us @ seg @ vs)" by (simp add: vs(2))
  note bn = core_block [OF c mem] and hn = core_free [OF c mem]
  have vs': "blocks_at (wd s) False (x + (m + k)) vs' (unat (topChunk s)) True" using vs by (simp add: add.assoc)
  have mk: "(m + k) mod 8 = 0" "m + k < 4294967296" "okaddr (x + (m + k))"
  proof -
    show "(m + k) mod 8 = 0" using m(2) bn(4) by (simp add: mod_add_eq [symmetric])
    show "okaddr (x + (m + k))" using bn(2) by (simp add: add.assoc)
    then show "m + k < 4294967296" by (simp add: okaddr_def)
  qed
  define s2 where "s2 = set_prev_foot (of_nat (x + (m + k))) (of_nat (m + k)) (set_header (of_nat x) (of_nat (m + k) OR PINUSE) s)"
  have w2: "wd s2 = (wd s)(x + 4 := head_word (of_nat (m + k)) False True, x + (m + k) := of_nat (m + k))"
    unfolding s2_def using ok mk(3) by (simp add: head_word_intros del: of_nat_add)
  have om: "only_mem s s2" unfolding s2_def by simp
  note sb = only_memD [OF om] and dd = only_mem_dv [OF om]
  have l: "layout s (us @ (seg @ [(?y, k, False)]) @ vs')" using coreD(6) [OF c] by (simp add: vs(2))
  have new: "blocks_at (wd s2) True x [(x, m + k, False)] (x + (m + k)) False" using m bn(3) mk(1) by (simp add: w2)
  have new2: "blocks_at (wd s2) False (x + (m + k)) vs' (unat (topChunk s)) True"
    by (rule chain_after [OF vs']) (use m in \<open>auto simp: w2\<close>)
  have words: "wd s2 b = wd s b" if "b < x + 4 \<or> x + (m + k) + 4 < b" for b using that m by (auto simp: w2)
  have "vs' = [] \<Longrightarrow> wd s2 (x + (m + k) + 4) = wd s (x + (m + k) + 4)" using m by (simp add: w2)
  note rl = replace_layout [OF l us vs' new new2 words this om]
  have lay2: "layout s2 ?bs" "keeps (Used us \<union> Used vs') s s2" using rl by simp_all
  have BF: "B \<subseteq> Free us \<union> Free vs" using d by (auto simp: dv_ready_def)
  have fB: "fits B" by (rule fits_subset [OF core_fits [OF c] coreD(4) [OF c]])
  have bins2: "bins_ok s2 B"
  proof (rule bins_congruent [OF coreD(5) [OF c] sb fB])
    fix b n j assume b: "(b, n) \<in> B" and j: "4 \<le> j" "j < n"
    consider "b + n \<le> x" | "b = ?y" "n = k" | "x + (m + k) \<le> b"
    proof (cases "(b, n, False) \<in> set us")
      case True
      then show ?thesis using chain_mem [OF us] that(1) by auto
    next
      case False
      then have "(b, n) = (?y, k) \<or> (b, n, False) \<in> set vs'" using b BF vs(2) by auto
      then show ?thesis using chain_mem [OF vs'] that(2,3) by auto
    qed
    then have "b + j \<noteq> x + 4 \<and> b + j \<noteq> x + (m + k)" using j m by cases auto
    then show "wd s2 (b + j) = wd s (b + j)" by (simp add: w2)
  qed
  have use: "\<not> IS_INUSE (of_nat ?y) s" "GETCHUNKSIZE (of_nat ?y) s = of_nat k" by (rule hn(3), rule hn(2))
  have nt: "(of_nat ?y :: addr) \<noteq> topChunk s2"
  proof -
    have "topChunk s2 = of_nat (unat (topChunk s))" using same_envD(6) [OF same_env_only_mem [OF om]] by simp
    moreover have "?y \<noteq> unat (topChunk s)" using bn(3,8) by simp
    ultimately show ?thesis using okaddr_inj [OF bn(1) core_top(1) [OF c]] by simp
  qed
  have run: "merge_free_chunks cb (of_nat x) (of_nat m) (of_nat ?y) s =
     (if of_nat ?y = dVictim s2 then Some (s2\<lparr>dVictim := of_nat x, dVictimSize := of_nat (m + k)\<rparr>)
      else Option.bind (unbin_chunk (of_nat ?y) s2)
        (\<lambda>s. if of_nat x = dVictim s then Some (s\<lparr>dVictim := of_nat x, dVictimSize := of_nat (m + k)\<rparr>) else bin_chunk (of_nat x) s))"
    using use(1) nt unfolding merge_free_chunks_def Let_def use(2) CHUNKOFFSET_def of_nat_add [symmetric] s2_def [symmetric] by simp
  have yx: "(of_nat ?y :: addr) \<noteq> of_nat x" using okaddr_inj [OF bn(1) ok] m(1) by simp
  have oy: "(?y, n, False) \<notin> set us" "(?y, n, False) \<notin> set vs'" for n
  proof -
    have "core s ((us @ seg) @ (?y, k, False) # vs') B" using c by (simp add: vs(2))
    from once [OF this] show "(?y, n, False) \<notin> set us" "(?y, n, False) \<notin> set vs'" by auto
  qed
  show ?thesis
  proof (cases "of_nat ?y = dVictim s2")
    case True
    then have dvy: "dVictim s = of_nat ?y" using dd by simp
    then have dv: "dv_set s \<subseteq> Free us \<union> Free vs" "B = Free us \<union> Free vs - dv_set s"
      using d yx by (auto simp: dv_ready_def)
    have "dVictim s \<noteq> NULL" unfolding dvy using okaddr_nonzero [OF bn(1)] .
    moreover have "unat (of_nat ?y :: u32) = ?y" using bn(1) by (simp add: okaddr_def unat_of_nat del: of_nat_add)
    ultimately have ds: "dv_set s = {(?y, unat (dVictimSize s))}" by (simp add: dv_set_def dvy)
    then have "(?y, unat (dVictimSize s)) \<in> Free us \<union> Free vs" using dv(1) by simp
    then have "unat (dVictimSize s) = k" using oy vs(2) by auto
    then have Beq: "B = Free us \<union> Free vs'" using dv(2) oy ds by (auto simp: vs(2))
    have c2: "core s2 ?bs B" using lay2(1) bins2 Beq by (auto simp: core_def)
    have mem2: "(x, m + k, False) \<in> set ?bs" by simp
    define s' where "s' = s2\<lparr>dVictim := of_nat x, dVictimSize := of_nat (m + k)\<rparr>"
    have dn: "dv_set s' = {(x, m + k)}" unfolding s'_def by (rule dv_set_new [OF ok mk(2)])
    have c2': "core s2 (us @ (x, m + k, False) # vs') B" using c2 by simp
    have "Free ?bs - {(x, m + k)} = B" using once [OF c2'] Beq by auto
    then have "hinv s' ?bs" unfolding hinv_def dn using c2 ok by (simp add: s'_def)
    moreover have "keeps (Used us \<union> Used vs') s s'" "same_arena s s'"
      using lay2(2) same_env_arena [OF same_env_only_mem [OF om]] by (simp_all add: s'_def)
    ultimately show ?thesis using that run True by (simp add: s'_def)
  next
    case False
    have ydv: "(?y, k) \<notin> dv_set s"
    proof
      assume "(?y, k) \<in> dv_set s"
      then have "?y = unat (dVictim s)" by (simp add: dv_set_def split: if_splits)
      then have "of_nat ?y = dVictim s" by (metis of_nat_unat ucast_id)
      then show False using False dd by simp
    qed
    have yB: "(?y, k) \<in> B"
    proof -
      from ydv show ?thesis using d by (auto simp: dv_ready_def vs(2))
    qed
    have cs: "csize (wd s2) ?y = of_nat k"
    proof -
      have "wd s2 (?y + 4) = wd s (?y + 4)" using m bn(3) by (simp add: w2)
      then show ?thesis using hn(5) by (simp add: csize_def)
    qed
    obtain s3 where u: "unbin_chunk (of_nat ?y) s2 = Some s3" "bins_ok s3 (B - {(?y, k)})" "same_env s2 s3"
      "\<forall>a. a \<notin> body B \<longrightarrow> wd s3 a = wd s2 a"
      by (rule unbin_chunk_ok [OF bins2 fB yB cs])
    have "body B \<subseteq> interior ?bs"
    proof (rule body_interior)
      fix z j assume z: "(z, j) \<in> B"
      then have "(z, j, False) \<in> set us \<or> (z, j) = (?y, k) \<or> (z, j, False) \<in> set vs'" using BF by (auto simp: vs(2))
      then show "\<exists>b n. (b, n, False) \<in> set ?bs \<and> b \<le> z \<and> z + j \<le> b + n"
      proof (elim disjE)
        assume "(z, j) = (?y, k)"
        then show ?thesis by (intro exI [of _ x] exI [of _ "m + k"]) auto
      qed (intro exI [of _ z] exI [of _ j], simp)+
    qed
    then have "wd s3 a = wd s2 a" if "a \<notin> interior ?bs" for a using u(4) that by blast
    note lf = layout_frame [OF lay2(1) u(3) this]
    have B3: "B - {(?y, k)} \<subseteq> Free ?bs" using BF by (auto simp: vs(2))
    have c3: "core s3 (us @ (x, m + k, False) # vs') (B - {(?y, k)})" using lf(1) B3 u(2) by (simp add: core_def)
    note d3 = same_env_dv [OF u(3)]
    have r3: "dv_ready s3 x (Free us \<union> Free vs') (B - {(?y, k)})"
    proof -
      have F: "Free us \<union> Free vs = insert (?y, k) (Free us \<union> Free vs')" by (simp add: vs(2))
      have "(?y, k) \<notin> Free us \<union> Free vs'" using oy by auto
      with ydv show ?thesis using d d3 dd unfolding dv_ready_def F by auto
    qed
    obtain s' where f: "(if of_nat x = dVictim s3 then Some (s3\<lparr>dVictim := of_nat x, dVictimSize := of_nat (m + k)\<rparr>) else bin_chunk (of_nat x) s3) = Some s'"
      "hinv s' (us @ (x, m + k, False) # vs')" "keeps (Used us \<union> Used vs') s3 s'" "same_arena s3 s'"
      by (rule finish_free [OF c3 r3])
    have "merge_free_chunks cb (of_nat x) (of_nat m) (of_nat ?y) s = Some s'"
      unfolding run if_not_P [OF False] u(1) Option.bind.bind_lunit by (rule f(1))
    moreover have "keeps (Used us \<union> Used vs') s s'"
      using keeps_trans [OF lay2(2) keeps_trans [OF _ f(3)]] lf(2) by simp
    moreover have "same_arena s s'"
      using same_arena_trans [OF same_env_arena [OF same_env_only_mem [OF om]] same_arena_trans [OF same_env_arena [OF u(3)] f(4)]] .
    ultimately show ?thesis using that f(2) by blast
  qed
qed

text \<open>The block after the stretch is the top chunk.\<close>

lemma chain_last_free:
  assumes "blocks_at w True a us e False"
  obtains us' b k where "us = us' @ [(b, k, False)]" "b + k = e" "w e = of_nat k" "blocks_at w True a us' b True"
proof (cases us rule: rev_cases)
  case Nil
  then show ?thesis using assms by simp
next
  case (snoc us' x)
  obtain b k u where x: "x = (b, k, u)" by (cases x)
  obtain y r where y: "blocks_at w True a us' y r" "blocks_at w r y [x] e False"
    using assms unfolding snoc chain_append by blast
  then have "\<not> u" "b = y" "r" "b + k = e" "w e = of_nat k" by (auto simp: x)
  then show ?thesis using that [of us' b k] y(1) snoc x by simp
qed

lemma top_header:
  assumes c: "core s bs B"
  shows "\<not> IS_INUSE (topChunk s) s" "GETCHUNKSIZE (topChunk s) s = topChunkSize s"
proof -
  define tp ts where "tp = unat (topChunk s)" and "ts = unat (topChunkSize s)"
  have tops: "topChunk s = of_nat tp" "topChunkSize s = of_nat ts" by (simp_all add: tp_def ts_def)
  note t = top_okD [OF coreD(2) [OF c], folded tp_def ts_def] and ct = core_top [OF c, folded tp_def ts_def]
  have "\<not> IS_INUSE (of_nat tp) s \<and> GETCHUNKSIZE (of_nat tp) s = of_nat ts"
  proof (cases "ts = 0")
    case True
    then have "wd s (tp + 4) = 0" using t(5) by simp
    then show ?thesis using True ct(1) by (simp add: IS_INUSE_def csize_def)
  next
    case False
    then have "wd s (tp + 4) = head_word (of_nat ts) False True" using t(4) by (simp add: tops(2))
    from header_facts(1,2) [OF ct(1) this t(2)] show ?thesis using ct(5) by simp
  qed
  then show "\<not> IS_INUSE (topChunk s) s" "GETCHUNKSIZE (topChunk s) s = topChunkSize s" by (simp_all add: tops)
qed

context heap_provider
begin

lemma merge_top:
  assumes c: "core s (us @ seg) B" and av: "avail s"
    and us: "blocks_at (wd s) True (unat (heap_start s)) us x True" and top: "topChunk s = of_nat (x + m)" "unat (topChunk s) = x + m"
    and m: "16 \<le> m" "m mod 8 = 0" and ok: "okaddr x"
    and d: "dv_ready s x (Free us) B"
  obtains s' where "merge_free_chunks cb (of_nat x) (of_nat m) (of_nat (x + m)) s = Some s'" "hinv s' us"
    "keeps (Used us) s s'" "avail s'"
proof -
  define ts where "ts = unat (topChunkSize s)"
  have tsz: "topChunkSize s = of_nat ts" by (simp add: ts_def)
  note a = arenaD [OF coreD(1) [OF c]] and t = top_okD [OF coreD(2) [OF c], folded ts_def, unfolded top(2)]
    and ct = core_top [OF c, folded ts_def, unfolded top(2)] and th = top_header [OF c, unfolded top(1)]
  have n: "(m + ts) mod 8 = 0" "m + ts < 4294967296" "okaddr (x + (m + ts))"
  proof -
    show "(m + ts) mod 8 = 0" using m(2) t(2) by (simp add: mod_add_eq [symmetric])
    show "okaddr (x + (m + ts))" using ct(2) by (simp add: add.assoc)
    then show "m + ts < 4294967296" by (simp add: okaddr_def)
  qed
  define s2 where "s2 = set_prev_foot (of_nat (x + (m + ts))) (of_nat (m + ts)) (set_header (of_nat x) (of_nat (m + ts) OR PINUSE) s)"
  define s3 where "s3 = (if of_nat x = dVictim s2 then s2\<lparr>dVictim := NULL, dVictimSize := 0\<rparr> else s2)"
  define s4 where "s4 = set_prev_foot (of_nat (x + (m + ts))) (of_nat (m + ts)) (s3\<lparr>topChunk := of_nat x, topChunkSize := of_nat (m + ts)\<rparr>)"
  have w2: "wd s2 = (wd s)(x + 4 := head_word (of_nat (m + ts)) False True, x + (m + ts) := of_nat (m + ts))"
    unfolding s2_def using ok n(3) by (simp add: head_word_intros del: of_nat_add)
  have w3: "wd s3 = wd s2" by (simp add: s3_def)
  have w4: "wd s4 = wd s2"
    unfolding s4_def using n(3) by (simp add: w3 w2 del: of_nat_add)
  have nx: "NEXTCHUNK (of_nat x) (s3\<lparr>topChunk := of_nat x, topChunkSize := of_nat (m + ts)\<rparr>) = of_nat (x + (m + ts))"
    by (rule header_facts(4) [OF ok _ n(1,2), of _ False True]) (use m in \<open>simp add: w3 w2\<close>)
  have run: "merge_free_chunks cb (of_nat x) (of_nat m) (of_nat (x + m)) s = shrink_top cb s4"
    using th(1) unfolding merge_free_chunks_def Let_def th(2) tsz CHUNKOFFSET_def of_nat_add [symmetric] s2_def [symmetric] s3_def [symmetric]
    by (simp add: nx s4_def s2_def top(1) del: of_nat_add)
  have fl: "heap_start s4 = heap_start s" "heap_size s4 = heap_size s" "initial_heap_size s4 = initial_heap_size s" "magic s4 = magic s"
      "kmstate.more s4 = kmstate.more s" "sbin s4 = sbin s" "tbin s4 = tbin s" "sbinmap s4 = sbinmap s" "tbinmap s4 = tbinmap s"
      "topChunk s4 = of_nat x" "topChunkSize s4 = of_nat (m + ts)"
      "dVictim s4 = (if of_nat x = dVictim s then NULL else dVictim s)" "dVictimSize s4 = (if of_nat x = dVictim s then 0 else dVictimSize s)"
    by (simp_all add: s4_def s3_def s2_def)
  have u: "unat (topChunk s4) = x" using ok by (simp add: fl(10) okaddr_def unat_of_nat)
  have BF: "B \<subseteq> Free us" using d by (auto simp: dv_ready_def)
  have ws: "wd s4 b = wd s b" if "b < x + 4" for b using that m by (simp add: w4 w2)
  have ar: "arena s4" using coreD(1) [OF c] fl by (simp add: arena_def)
  have to: "top_ok s4"
  proof (rule top_okI [OF _ n(1) _ _ _ fl(10,11) _ n(2)])
    show "x mod 8 = 0" "x < 4294967296" using ok by (simp_all add: okaddr_def)
    show "x + (m + ts) + 8 \<le> unat (heap_start s4) + unat (heap_size s4)" using t(3) fl(1,2) by simp
    show "wd s4 (x + 4) = head_word (of_nat (m + ts)) False True" using m by (simp add: w4 w2)
    show "wd s4 (x + (m + ts) + 4) = 0" using t(5) m by (simp add: w4 w2 add.assoc)
  qed
  have bl: "blocks_at (wd s4) True x [] (unat (topChunk s4)) True" by (simp add: u)
  note nt = new_top [OF c BF us ws fl(1,6-9) ar to bl]
  have "hinv s4 us"
  proof (cases "of_nat x = dVictim s")
    case True
    then have "B = Free us" using d by (auto simp: dv_ready_def)
    then show ?thesis using nt(1) True by (simp add: hinv_def fl dv_set_def)
  next
    case False
    then have "dv_set s4 = dv_set s" by (simp add: dv_set_def fl)
    then show ?thesis using nt(1) False d by (auto simp: hinv_def fl dv_ready_def)
  qed
  moreover have "avail s4"
    by (rule avail_cong [OF av]) (use fl in \<open>simp add: same_arena_def\<close>)
  ultimately obtain s' where "shrink_top cb s4 = Some s'" "hinv s' us" "keeps (Used us) s4 s'" "avail s'"
    by (rule shrink_top_ok)
  then show ?thesis using that run keeps_trans [OF nt(2)] by simp
qed

end

lemma address_ok:
  assumes "core s bs B" "unat (heap_start s) \<le> a" "a \<le> unat (topChunk s)"
  shows "ADDRESS_OK (of_nat a) s"
proof -
  note a = arenaD [OF coreD(1) [OF assms(1)]] and t = top_okD [OF coreD(2) [OF assms(1)]]
  have "unat (heap_start s + heap_size s) = unat (heap_start s) + unat (heap_size s)"
    by (rule unat_add_lem [THEN iffD1]) (use a(4) in simp)
  moreover have "unat (of_nat a :: addr) = a" using assms a(4) t(3) by (simp add: unat_of_nat)
  ultimately show ?thesis using assms t(3) by (simp add: ADDRESS_OK_def word_le_nat_alt word_less_nat_alt)
qed

context heap_provider
begin

text \<open>The three cases in one: the stretch \<open>seg\<close> becomes free, and the blocks on its two sides stay in use.\<close>

lemma merge_ok:
  assumes c: "core s (us @ seg @ vs) B" and av: "avail s"
    and us: "blocks_at (wd s) True (unat (heap_start s)) us x True" and seg: "blocks_at (wd s) True x seg (x + m) True"
    and vs: "blocks_at (wd s) True (x + m) vs (unat (topChunk s)) True"
    and m: "16 \<le> m" "m mod 8 = 0" and ok: "okaddr x" "okaddr (x + m)"
    and d: "dv_ready s x (Free us \<union> Free vs) B"
  obtains s' bs' where "merge_free_chunks cb (of_nat x) (of_nat m) (of_nat (x + m)) s = Some s'" "hinv s' bs'"
    "Used bs' = Used us \<union> Used vs" "keeps (Used us \<union> Used vs) s s'" "avail s'"
proof (cases vs)
  case Nil
  then have top: "topChunk s = of_nat (x + m)" "unat (topChunk s) = x + m" using vs by (simp_all del: of_nat_add) 
  have "core s (us @ seg) B" "dv_ready s x (Free us) B" using c d Nil by simp_all
  then obtain s' where "merge_free_chunks cb (of_nat x) (of_nat m) (of_nat (x + m)) s = Some s'" "hinv s' us"
    "keeps (Used us) s s'" "avail s'"
    using merge_top [OF _ av us top m ok(1)] by blast
  then show ?thesis using that [of s' us] Nil by simp
next
  case (Cons y vs')
  obtain b k u where y: "y = (b, k, u)" by (cases y)
  have b: "b = x + m" using vs by (simp add: Cons y)
  show ?thesis
  proof (cases u)
    case True
    then have v: "vs = (x + m, k, True) # vs'" using Cons y b by simp
    obtain s' where "merge_free_chunks cb (of_nat x) (of_nat m) (of_nat (x + m)) s = Some s'" "hinv s' (us @ (x, m, False) # vs)"
      "keeps (Used us \<union> Used vs) s s'" "same_arena s s'"
      by (rule merge_used [OF c us seg vs v m ok d])
    then show ?thesis using that [of s' "us @ (x, m, False) # vs"] avail_cong [OF av] by simp
  next
    case False
    then have v: "vs = (x + m, k, False) # vs'" using Cons y b by simp
    obtain s' where "merge_free_chunks cb (of_nat x) (of_nat m) (of_nat (x + m)) s = Some s'" "hinv s' (us @ (x, m + k, False) # vs')"
      "keeps (Used us \<union> Used vs') s s'" "same_arena s s'"
      by (rule merge_free [OF c us seg vs v m ok(1) d])
    then show ?thesis using that [of s' "us @ (x, m + k, False) # vs'"] avail_cong [OF av] by (simp add: v)
  qed
qed

lemma kfree_ok:
  assumes h: "hinv s bs" and av: "avail s" and a: "(a, n) \<in> Used bs"
  obtains s' bs' where "kfree cb (of_nat (a + 8)) s = Some s'" "hinv s' bs'" "Used bs' = Used bs - {(a, n)}"
    "keeps (Used bs') s s'" "avail s'"
proof -
  let ?B = "Free bs - dv_set s"
  note c = hinvD(1) [OF h]
  obtain us0 vs where bs: "bs = us0 @ (a, n, True) # vs" using split_list [of "(a, n, True)" bs] a by auto
  have c1: "core s (us0 @ (a, n, True) # vs) ?B" and c2: "core s (us0 @ [(a, n, True)] @ vs) ?B" using c by (simp_all add: bs)
  note o = once [OF c1]
  obtain y r e r' where ch: "blocks_at (wd s) True (unat (heap_start s)) us0 y r" "blocks_at (wd s) r y [(a, n, True)] e r'"
    "blocks_at (wd s) r' e vs (unat (topChunk s)) True"
    by (rule core_split_at [OF c2])
  then have ya: "y = a" "e = a + n" "r'" and n: "16 \<le> n" "n mod 8 = 0" and hd: "wd s (a + 4) = head_word (of_nat n) True r" by auto
  have mem: "(a, n, True) \<in> set bs" by (simp add: bs)
  note b = core_block [OF c mem] and hf = header_facts [OF core_block(1) [OF c mem] hd n(2) core_block(6) [OF c mem]]
  have U: "Used bs - {(a, n)} = Used us0 \<union> Used vs" using o by (auto simp: bs)
  have pl: "PAYLOAD_CHUNK (of_nat (a + 8)) = of_nat a" by (simp add: PAYLOAD_CHUNK_def)
  have nz: "(of_nat (a + 8) :: addr) \<noteq> NULL" by (rule payload_addr [OF b(1)])
  have ok: "ADDRESS_OK (of_nat a) s" by (rule address_ok [OF c b(7)]) (use b(8) in simp)
  have okn: "ADDRESS_OK (of_nat (a + n)) s" by (rule address_ok [OF c]) (use b(7,8) in simp_all)
  have dva: "dVictim s \<noteq> of_nat a"
  proof
    assume d: "dVictim s = of_nat a"
    then have "dv_set s = {(a, unat (dVictimSize s))}" using b(1) okaddr_nonzero [OF b(1)]
      by (simp add: dv_set_def okaddr_def unat_of_nat)
    then show False using hinvD(2) [OF h] o by (auto simp: bs)
  qed
  have dvs: "dv_set s \<subseteq> Free us0 \<union> Free vs" "dVictim s = NULL \<longrightarrow> dVictimSize s = 0" using hinvD(2,3) [OF h] by (simp_all add: bs)
  have guard: "\<not> (of_nat (a + 8) = NULL \<or> \<not> KMALLOC_IS_INIT s)" "\<not> (\<not> ADDRESS_OK (of_nat a) s \<or> \<not> IS_INUSE (of_nat a) s)"
    using nz hinv_init [OF h] ok hf(2) by simp_all
  show ?thesis
  proof (cases r)
    case True
    have us: "blocks_at (wd s) True (unat (heap_start s)) us0 a True" and seg: "blocks_at (wd s) True a [(a, n, True)] (a + n) True"
      and vs: "blocks_at (wd s) True (a + n) vs (unat (topChunk s)) True"
      using ch True ya by simp_all
    have d: "dv_ready s a (Free us0 \<union> Free vs) ?B" using dva dvs by (simp add: dv_ready_def bs)
    obtain s' bs' where "merge_free_chunks cb (of_nat a) (of_nat n) (of_nat (a + n)) s = Some s'" "hinv s' bs'"
      "Used bs' = Used us0 \<union> Used vs" "keeps (Used us0 \<union> Used vs) s s'" "avail s'"
      by (rule merge_ok [OF c2 av us seg vs n b(1,2) d])
    moreover have "kfree cb (of_nat (a + 8)) s = merge_free_chunks cb (of_nat a) (of_nat n) (of_nat (a + n)) s"
      unfolding kfree_def pl Let_def if_not_P [OF guard(1)] if_not_P [OF guard(2)] hf(3,4,1)
      using True okn by (simp add: PINUSE_def del: of_nat_add)
    ultimately show ?thesis using that [of s' bs'] U by simp
  next
    case False
    obtain us p k where p: "us0 = us @ [(p, k, False)]" "p + k = a" "wd s a = of_nat k" "blocks_at (wd s) True (unat (heap_start s)) us p True"
      by (rule chain_last_free [of "wd s" "unat (heap_start s)" us0 a]) (use ch(1) False ya in auto)
    have pm: "(p, k, False) \<in> set bs" by (simp add: bs p)
    note bp = core_block [OF c pm] and fp = core_free [OF c pm]
    have pf: "prev_foot (of_nat a) s = of_nat k" using b(1) p(3) by simp
    have pv: "PREVCHUNK (of_nat a) s = of_nat p" unfolding PREVCHUNK_def pf using p(2) by auto
    have okp: "ADDRESS_OK (of_nat p) s" by (rule address_ok [OF c bp(7)]) (use bp(8) in simp)
    have g3: "\<not> (\<not> ADDRESS_OK (of_nat p) s \<or> GETCHUNKSIZE (of_nat p) s \<noteq> of_nat k \<or> IS_INUSE (of_nat p) s)"
      using okp fp by simp
    let ?m = "k + n"
    have m: "16 \<le> ?m" "?m mod 8 = 0" "p + ?m = a + n" using n bp(4) p(2) by (simp_all add: mod_add_eq [symmetric])
    have oc: "core s (us @ (p, k, False) # (a, n, True) # vs) ?B" using c by (simp add: bs p)
    note op = once [OF oc]
    define st where "st = (if dVictim s \<noteq> of_nat p then unbin_chunk (of_nat p) s else Some s)"
    obtain s1 B1 where s1: "st = Some s1" "core s1 bs B1" "keeps (Used bs) s s1" "same_env s s1" "dv_ready s1 p (Free us \<union> Free vs) B1"
    proof (cases "dVictim s = of_nat p")
      case True
      then have ds: "dv_set s = {(p, unat (dVictimSize s))}" using bp(1) okaddr_nonzero [OF bp(1)]
        by (simp add: dv_set_def okaddr_def unat_of_nat)
      then have "(p, unat (dVictimSize s), False) \<in> set bs" using hinvD(2) [OF h] by simp
      then have "unat (dVictimSize s) = k" using op by (auto simp: bs p)
      then have "?B = Free us \<union> Free vs" using ds op by (auto simp: bs p)
      then show ?thesis using that [of s ?B] True c by (simp add: st_def dv_ready_def same_env_only_mem)
    next
      case False
      have nd: "(p, k) \<notin> dv_set s"
      proof
        assume "(p, k) \<in> dv_set s"
        then have "p = unat (dVictim s)" by (simp add: dv_set_def split: if_splits)
        then have "of_nat p = dVictim s" by (metis of_nat_unat ucast_id)
        then show False using False by simp
      qed
      then have "(p, k) \<in> ?B" using pm by simp
      then obtain s1 where u: "unbin_chunk (of_nat p) s = Some s1" "core s1 bs (?B - {(p, k)})" "keeps (Used bs) s s1" "same_env s s1"
        by (rule core_unbin_chunk [OF c])
      note d = same_env_dv [OF u(4)]
      have "?B - {(p, k)} = Free us \<union> Free vs - dv_set s" using op by (auto simp: bs p)
      moreover have "dv_set s \<subseteq> Free us \<union> Free vs" using hinvD(2) [OF h] nd by (auto simp: bs p)
      ultimately have "dv_ready s1 p (Free us \<union> Free vs) (?B - {(p, k)})" using False dvs(2) d by (simp add: dv_ready_def)
      then show ?thesis using that u False by (simp add: st_def)
    qed
    note e1 = same_envD [OF s1(4)]
    have c3: "core s1 (us @ [(p, k, False), (a, n, True)] @ vs) B1" using s1(2) by (simp add: bs p)
    obtain y1 r1 e1 q1 where ch1: "blocks_at (wd s1) True (unat (heap_start s1)) us y1 r1"
      "blocks_at (wd s1) r1 y1 [(p, k, False), (a, n, True)] e1 q1" "blocks_at (wd s1) q1 e1 vs (unat (topChunk s1)) True"
      by (rule core_split_at [OF c3])
    then have eqs: "y1 = p" "r1" "e1 = p + ?m" "q1" and hd1: "wd s1 (a + 4) = head_word (of_nat n) True False" using p(2) by auto
    have us: "blocks_at (wd s1) True (unat (heap_start s1)) us p True" and seg: "blocks_at (wd s1) True p [(p, k, False), (a, n, True)] (p + ?m) True"
      and vs: "blocks_at (wd s1) True (p + ?m) vs (unat (topChunk s1)) True"
      using ch1 eqs by simp_all
    have nx: "NEXTCHUNK (of_nat a) s1 = of_nat (p + ?m)"
      using header_facts(4) [OF b(1) hd1 n(2) b(6)] unfolding m(3) by simp
    have okn1: "ADDRESS_OK (of_nat (p + ?m)) s1"
      by (rule address_ok [OF s1(2)]) (use b(7,8) m(3) e1 in simp_all)
    have okpm: "okaddr (p + ?m)" unfolding m(3) by (rule b(2))
    obtain s' bs' where r: "merge_free_chunks cb (of_nat p) (of_nat ?m) (of_nat (p + ?m)) s1 = Some s'" "hinv s' bs'"
      "Used bs' = Used us \<union> Used vs" "keeps (Used us \<union> Used vs) s1 s'" "avail s'"
      by (rule merge_ok [OF c3 avail_cong [OF av same_env_arena [OF s1(4)]] us seg vs m(1,2) bp(1) okpm s1(5)])
    have "kfree cb (of_nat (a + 8)) s = merge_free_chunks cb (of_nat p) (of_nat ?m) (of_nat (p + ?m)) s1"
    proof -
      have fs: "of_nat n + of_nat k = (of_nat ?m :: u32)" by (simp add: add.commute)
      have z: "(if r then PINUSE else 0) = 0" using False by simp
      show ?thesis
        unfolding kfree_def pl Let_def if_not_P [OF guard(1)] if_not_P [OF guard(2)] hf(3,1) pv pf if_P [OF z] if_not_P [OF g3] fs st_def [symmetric]
        using okn1 by (simp add: s1(1) nx del: of_nat_add)
    qed
    moreover have "Used us \<union> Used vs = Used us0 \<union> Used vs" by (simp add: p)
    moreover have "keeps (Used us \<union> Used vs) s s1" by (rule keeps_mono [OF s1(3)]) (auto simp: bs p)
    ultimately show ?thesis using that [of s' bs'] r keeps_trans [OF _ r(4)] U by simp
  qed
qed

end

end
