(* ===== verification/KBorder.thy ===== *)
theory KBorder
  imports KFree
begin

text \<open>
  Moving the border between a block in use and the free memory behind it: what \<open>krealloc\<close> does in place
  (\<open>try_expand_chunk\<close> of kmalloc_util.c, the shrinking half of krealloc.c).
\<close>

section \<open>A free block behind the block in use\<close>

text \<open>The border between the blocks at \<open>a\<close> and \<open>a + n\<close> moves to \<open>a + c\<close>.\<close>

definition border_moved :: "'a kmstate_scheme \<Rightarrow> nat \<Rightarrow> nat \<Rightarrow> nat \<Rightarrow> nat \<Rightarrow> bool \<Rightarrow> 'a kmstate_scheme \<Rightarrow> bool" where
  "border_moved s a n k c r s' \<longleftrightarrow> only_mem s s' \<and>
     wd s' = (wd s)(a + 4 := head_word (of_nat c) True r, a + c + 4 := head_word (of_nat (n + k - c)) False True, a + n + k := of_nat (n + k - c))"

lemma keeps_insert: "keeps (insert b U) s s' \<longleftrightarrow> keeps {b} s s' \<and> keeps U s s'"
  unfolding keeps_def payload_def by blast

lemma core_border:
  assumes c: "core s (us @ (a, n, True) # (a + n, k, False) # vs) B" and B: "B \<subseteq> Free us \<union> Free vs"
    and ch: "blocks_at (wd s) True (unat (heap_start s)) us a r"
    and m: "16 \<le> c" "c + 16 \<le> n + k" "c mod 8 = 0" and s': "border_moved s a n k c r s'"
  shows "core s' (us @ (a, c, True) # (a + c, n + k - c, False) # vs) B"
    "keeps (insert (a, min n c) (Used us \<union> Used vs)) s s'"
proof -
  have c2: "core s (us @ [(a, n, True), (a + n, k, False)] @ vs) B" using c by simp
  have om: "only_mem s s'" and w: "wd s' = (wd s)(a + 4 := head_word (of_nat c) True r, a + c + 4 := head_word (of_nat (n + k - c)) False True, a + n + k := of_nat (n + k - c))"
    using s' by (simp_all add: border_moved_def)
  have "(a, n, True) \<in> set (us @ (a, n, True) # (a + n, k, False) # vs)" "(a + n, k, False) \<in> set (us @ (a, n, True) # (a + n, k, False) # vs)" by simp_all
  note bn = core_block [OF c this(1)] and bk = core_block [OF c this(2)]
  obtain x r1 y r2 where "blocks_at (wd s) True (unat (heap_start s)) us x r1"
    "blocks_at (wd s) r1 x [(a, n, True), (a + n, k, False)] y r2" "blocks_at (wd s) r2 y vs (unat (topChunk s)) True"
    by (rule core_split_at [OF c2])
  then have vs: "blocks_at (wd s) False (a + n + k) vs (unat (topChunk s)) True" by auto
  have nk: "(n + k - c) mod 8 = 0" using bn(4) bk(4) m by (simp add: mod_eq_0_iff_dvd)
  have e: "a + c + (n + k - c) = a + n + k" using m(2) by simp
  have ne: "a + c + 4 \<noteq> a + n + k" "a + 4 \<noteq> a + n + k" "a + 4 \<noteq> a + c + 4" using m by simp_all
  have new: "blocks_at (wd s') r a [(a, c, True), (a + c, n + k - c, False)] (a + n + k) False"
    using m nk ne e by (simp add: w)
  have new2: "blocks_at (wd s') False (a + n + k) vs (unat (topChunk s)) True"
    by (rule chain_after [OF vs]) (use m in \<open>auto simp: w\<close>)
  have words: "wd s' b = wd s b" if "b < a + 4 \<or> a + n + k + 4 < b" for b using that m by (auto simp: w)
  have "vs = [] \<Longrightarrow> wd s' (a + n + k + 4) = wd s (a + n + k + 4)" using m bn(3) by (simp add: w)
  note rp = replace_blocks [OF c2 B ch vs new new2 words this om]
  show "core s' (us @ (a, c, True) # (a + c, n + k - c, False) # vs) B" using rp(1) by simp
  have "keeps {(a, min n c)} s s'"
    using m bk(3) by (auto simp: w payload_def keeps_def)
  then show "keeps (insert (a, min n c) (Used us \<union> Used vs)) s s'"
    using rp(2) keeps_insert by blast
qed

text \<open>The block in use swallows its neighbour.\<close>

lemma core_swallow:
  assumes c: "core s (us @ (a, n, True) # (a + n, k, False) # vs) B" and B: "B \<subseteq> Free us \<union> Free vs"
    and ch: "blocks_at (wd s) True (unat (heap_start s)) us a r"
    and om: "only_mem s s'" and vs: "vs = (a + n + k, j, True) # vs'"
    and w: "wd s' = (wd s)(a + 4 := head_word (of_nat (n + k)) True r, a + n + k + 4 := head_word (of_nat j) True True)"
  shows "core s' (us @ (a, n + k, True) # vs) B" "keeps (insert (a, n) (Used us \<union> Used vs)) s s'"
proof -
  have c2: "core s (us @ [(a, n, True), (a + n, k, False)] @ vs) B" using c by simp
  have "(a, n, True) \<in> set (us @ (a, n, True) # (a + n, k, False) # vs)" "(a + n, k, False) \<in> set (us @ (a, n, True) # (a + n, k, False) # vs)" by simp_all
  note bn = core_block [OF c this(1)] and bk = core_block [OF c this(2)]
  obtain x r1 y r2 where "blocks_at (wd s) True (unat (heap_start s)) us x r1"
    "blocks_at (wd s) r1 x [(a, n, True), (a + n, k, False)] y r2" "blocks_at (wd s) r2 y vs (unat (topChunk s)) True"
    by (rule core_split_at [OF c2])
  then have bv: "blocks_at (wd s) False (a + n + k) vs (unat (topChunk s)) True" by auto
  have nk: "(n + k) mod 8 = 0" using bn(4) bk(4) by (simp add: mod_add_eq [symmetric])
  have new: "blocks_at (wd s') r a [(a, n + k, True)] (a + n + k) True"
    using bn(3) nk bk(3) by (simp add: w add.assoc)
  have new2: "blocks_at (wd s') True (a + n + k) vs (unat (topChunk s)) True"
    by (rule chain_relabel [OF bv vs]) (use bn(3) in \<open>auto simp: w\<close>)
  have words: "wd s' b = wd s b" if "b < a + 4 \<or> a + n + k + 4 < b" for b using that bn(3) by (auto simp: w)
  have "vs = [] \<Longrightarrow> wd s' (a + n + k + 4) = wd s (a + n + k + 4)" by (simp add: vs)
  note rp = replace_blocks [OF c2 B ch bv new new2 words this om]
  show "core s' (us @ (a, n + k, True) # vs) B" using rp(1) by simp
  have "keeps {(a, n)} s s'"
    using bk(3) by (auto simp: w payload_def keeps_def)
  then show "keeps (insert (a, n) (Used us \<union> Used vs)) s s'"
    using rp(2) keeps_insert by blast
qed

text \<open>
  The neighbour leaves its bin after the code has written around its links. The state \<open>t\<close> is what the bins would
  look like had the code not written at all.
\<close>

definition written :: "nat \<Rightarrow> nat \<Rightarrow> nat \<Rightarrow> nat \<Rightarrow> nat set" where
  "written a n k c = {a + 4, a + n + k} \<union> {b. b = a + c + 4 \<and> (c < n \<or> n + 32 \<le> c + 4 \<and> c + 4 < n + k)}"

lemma written_apart:
  assumes c: "core s (us @ (a, n, True) # (a + n, k, False) # vs) B" and z: "(z, j) \<in> Free (us @ (a, n, True) # (a + n, k, False) # vs)"
    and i: "4 \<le> i" "i < j" "i < 32"
  shows "z + i \<notin> written a n k c'"
proof -
  let ?bs = "us @ (a, n, True) # (a + n, k, False) # vs"
  have m: "(a, n, True) \<in> set ?bs" "(a + n, k, False) \<in> set ?bs" "(z, j, False) \<in> set ?bs" using z by (simp_all del: Free_simps)
  have "z + j \<le> a \<or> a + n \<le> z" using chain_disjoint [OF coreD(3) [OF c] m(1,3)] by auto
  moreover have "(z, j) = (a + n, k) \<or> z + j \<le> a + n \<or> a + n + k \<le> z" using chain_disjoint [OF coreD(3) [OF c] m(2,3)] by auto
  moreover have "16 \<le> j" "16 \<le> n" using core_block(3) [OF c] m by blast+
  ultimately consider "z + j \<le> a" | "z = a + n" "j = k" | "a + n + k \<le> z" by force
  then show ?thesis using i \<open>16 \<le> n\<close> by cases (auto simp: written_def)
qed

lemma written_outside:
  assumes "core s (us @ (a, n, True) # (a + n, k, False) # vs) B" "b \<in> written a n k c"
  shows "b \<notin> body (Free (us @ (a, n, True) # (a + n, k, False) # vs))"
proof
  assume "b \<in> body (Free (us @ (a, n, True) # (a + n, k, False) # vs))"
  then obtain z j i where "(z, j) \<in> Free (us @ (a, n, True) # (a + n, k, False) # vs)" "8 \<le> i" "i < j" "i < 32" "b = z + i"
    unfolding body_def by blast
  then show False using written_apart [OF assms(1), of z j i c] assms(2) by simp
qed

lemma unbin_written:
  assumes c: "core s (us @ (a, n, True) # (a + n, k, False) # vs) B" and B: "(a + n, k) \<in> B"
    and om: "only_mem s s2" and w: "\<And>b. b \<notin> written a n k c' \<Longrightarrow> wd s2 b = wd s b" and c': "c' mod 8 = 0" "8 \<le> c'" "c' + 4 < n + k"
  obtains s3 t where "unbin_chunk (of_nat (a + n)) s2 = Some s3" "same_env s2 s3" "\<forall>b. b \<notin> body B \<longrightarrow> wd s3 b = wd s2 b"
    "core t (us @ (a, n, True) # (a + n, k, False) # vs) (B - {(a + n, k)})" "only_mem t s3"
    "wd t = (wd s3)(a + 4 := wd s (a + 4), a + c' + 4 := wd s (a + c' + 4), a + n + k := wd s (a + n + k))"
    "keeps (insert (a, n) (Used us \<union> Used vs)) s t" "same_env s t" "\<And>r. blocks_at (wd s) True (unat (heap_start s)) us a r \<Longrightarrow> blocks_at (wd t) True (unat (heap_start t)) us a r"
proof -
  let ?bs = "us @ (a, n, True) # (a + n, k, False) # vs"
  have BF: "B \<subseteq> Free ?bs" using coreD(4) [OF c] .
  have fB: "fits B" by (rule fits_subset [OF core_fits [OF c] BF])
  have mem: "(a, n, True) \<in> set ?bs" "(a + n, k, False) \<in> set ?bs" by simp_all
  note bn = core_block [OF c mem(1)] and bk = core_block [OF c mem(2)]
  note ap = written_apart [OF c subsetD [OF BF]]
  have b2: "bins_ok s2 B"
    by (rule bins_congruent [OF coreD(5) [OF c] only_memD [OF om] fB]) (use w ap in blast)
  have cs: "csize (wd s2) (a + n) = of_nat k"
  proof -
    have "a + n + 4 \<notin> written a n k c'" by (rule ap [OF B]) (use bk(3) in simp_all)
    then show ?thesis using w core_free(5) [OF c mem(2)] by (simp add: csize_def)
  qed
  obtain s3 where u: "unbin_chunk (of_nat (a + n)) s2 = Some s3" "bins_ok s3 (B - {(a + n, k)})" "same_env s2 s3"
    "\<forall>b. b \<notin> body B \<longrightarrow> wd s3 b = wd s2 b"
    by (rule unbin_chunk_ok [OF b2 fB B cs])
  define t where "t = set_prev_foot (of_nat (a + n + k)) (wd s (a + n + k)) (wr (of_nat (a + c' + 4)) (wd s (a + c' + 4))
      (set_header (of_nat a) (wd s (a + 4)) s3))"
  have m4: "(a + c' + 4) mod 4 = 0" "a + c' + 4 < 4294967296"
  proof -
    have "(a + c') mod 8 = 0" using bn(1) c'(1) by (simp add: okaddr_def mod_add_eq [symmetric])
    then have "(a + c') mod 4 = 0" using mod_mod_cancel [of 4 8 "a + c'"] by simp
    then show "(a + c' + 4) mod 4 = 0" by simp
    show "a + c' + 4 < 4294967296" using c'(3) bk(2) by (simp add: okaddr_def)
  qed
  have wt: "wd t = (wd s3)(a + 4 := wd s (a + 4), a + c' + 4 := wd s (a + c' + 4), a + n + k := wd s (a + n + k))"
    unfolding t_def using bk(2) bn(1) by (simp add: wd_wr [OF m4] del: of_nat_add)
  have ts: "only_mem s3 t" unfolding t_def by simp
  have env: "same_env s t" by (rule same_env_trans [OF same_env_only_mem [OF om] same_env_trans [OF u(3) same_env_only_mem [OF ts]]])
  have out: "wd t b = wd s b" if b: "b \<notin> interior ?bs" for b
  proof (cases "b \<in> {a + 4, a + c' + 4, a + n + k}")
    case True
    then show ?thesis by (auto simp: wt)
  next
    case False
    then have "b \<notin> written a n k c'" by (auto simp: written_def)
    moreover have "b \<notin> body B" using b body_free [OF BF] by blast
    ultimately show ?thesis using False w u(4) by (simp add: wt)
  qed
  note lf = layout_frame [OF coreD(6) [OF c] env out]
  have bt: "bins_ok t (B - {(a + n, k)})"
  proof (rule bins_congruent [OF u(2) only_memD [OF ts]])
    show "fits (B - {(a + n, k)})" by (rule fits_subset [OF fB]) blast
    fix z j i assume z: "(z, j) \<in> B - {(a + n, k)}" and i: "4 \<le> i" "i < j"
    have zm: "(z, j, False) \<in> set ?bs" using z BF by (auto simp del: Free_simps)
    have "z + j \<le> a \<or> a + n \<le> z" "z + j \<le> a + n \<or> a + n + k \<le> z"
      using chain_disjoint [OF coreD(3) [OF c] mem(1) zm] chain_disjoint [OF coreD(3) [OF c] mem(2) zm] z by auto
    then have "z + i \<notin> {a + 4, a + c' + 4, a + n + k}" using i c' core_block(3) [OF c zm] bn(3) by auto
    then show "wd t (z + i) = wd s3 (z + i)" unfolding wt by (simp only: insert_iff fun_upd_other de_Morgan_disj not_False_eq_True)
  qed
  have ct: "core t ?bs (B - {(a + n, k)})" using lf(1) bt BF by (auto simp: core_def)
  have "only_mem t s3" using ts by (cases s3; cases t) (simp add: only_mem_def)
  moreover have "blocks_at (wd t) True (unat (heap_start t)) us a r" if ch: "blocks_at (wd s) True (unat (heap_start s)) us a r" for r
  proof -
    have "blocks_at (wd t) True (unat (heap_start s)) us a r"
    proof (rule chain_cong [OF _ ch])
      fix b m u assume "(b, m, u) \<in> set us"
      then have "(b, m, u) \<in> set ?bs" by simp
      from chain_interior [OF coreD(3) [OF c] this] show "wd t (b + 4) = wd s (b + 4) \<and> (\<not> u \<longrightarrow> wd t (b + m) = wd s (b + m))"
        using out by blast
    qed
    then show ?thesis using same_envD(1) [OF env] by simp
  qed
  ultimately show ?thesis using that [OF u(1,3,4) ct _ wt _ env] lf(2) by simp
qed

text \<open>What is known of the designated victim when the neighbour is, or is not, it.\<close>

lemma victim_next:
  assumes h: "hinv s (us @ (a, n, True) # (y, k, False) # vs)" and d: "dVictim s = of_nat y"
  shows "dv_set s = {(y, k)}" "Free (us @ (a, n, True) # (y, k, False) # vs) - dv_set s = Free us \<union> Free vs"
proof -
  have c: "core s ((us @ [(a, n, True)]) @ (y, k, False) # vs) (Free (us @ (a, n, True) # (y, k, False) # vs) - dv_set s)" using hinvD(1) [OF h] by simp
  note o = once [OF c]
  have "okaddr y" by (rule core_block(1) [OF c]) auto
  then have "dv_set s = {(y, unat (dVictimSize s))}" using okaddr_nonzero [of y] by (simp add: dv_set_def d okaddr_def unat_of_nat)
  then show ds: "dv_set s = {(y, k)}" using hinvD(2) [OF h] o by auto
  show "Free (us @ (a, n, True) # (y, k, False) # vs) - dv_set s = Free us \<union> Free vs" unfolding ds using o by auto
qed

lemma victim_elsewhere:
  assumes h: "hinv s (us @ (a, n, True) # (y, k, False) # vs)" and d: "dVictim s \<noteq> of_nat y"
  shows "(y, k) \<in> Free (us @ (a, n, True) # (y, k, False) # vs) - dv_set s" "dv_set s \<subseteq> Free us \<union> Free vs"
    "Free (us @ (a, n, True) # (y, k, False) # vs) - dv_set s - {(y, k)} = Free us \<union> Free vs - dv_set s"
proof -
  have c: "core s ((us @ [(a, n, True)]) @ (y, k, False) # vs) (Free (us @ (a, n, True) # (y, k, False) # vs) - dv_set s)" using hinvD(1) [OF h] by simp
  note o = once [OF c]
  have n: "(y, k) \<notin> dv_set s"
  proof
    assume "(y, k) \<in> dv_set s"
    then have "y = unat (dVictim s)" by (simp add: dv_set_def split: if_splits)
    then have "of_nat y = dVictim s" by (metis of_nat_unat ucast_id)
    then show False using d by simp
  qed
  then show "(y, k) \<in> Free (us @ (a, n, True) # (y, k, False) # vs) - dv_set s" by simp
  show "dv_set s \<subseteq> Free us \<union> Free vs" using hinvD(2) [OF h] n by auto
  show "Free (us @ (a, n, True) # (y, k, False) # vs) - dv_set s - {(y, k)} = Free us \<union> Free vs - dv_set s" using o by auto
qed

lemma border_victim:
  assumes h: "hinv s (us @ (a, n, True) # (a + n, k, False) # vs)" and d: "dVictim s = of_nat (a + n)"
    and ch: "blocks_at (wd s) True (unat (heap_start s)) us a r"
    and m: "16 \<le> c" "c + 16 \<le> n + k" "c mod 8 = 0" and s2: "border_moved s a n k c r s2"
    and s': "s' = s2\<lparr>dVictim := of_nat (a + c), dVictimSize := of_nat (n + k - c)\<rparr>"
  shows "hinv s' (us @ (a, c, True) # (a + c, n + k - c, False) # vs)" "keeps (insert (a, min n c) (Used us \<union> Used vs)) s s'" "same_arena s s'"
proof -
  note v = victim_next [OF h d]
  have cb: "core s (us @ (a, n, True) # (a + n, k, False) # vs) (Free us \<union> Free vs)" using hinvD(1) [OF h] unfolding v(2) .
  note b = core_border [OF cb subset_refl ch m s2]
  have om: "only_mem s s2" using s2 by (simp add: border_moved_def)
  have cn: "core s' ((us @ [(a, c, True)]) @ (a + c, n + k - c, False) # vs) (Free us \<union> Free vs)" using b(1) by (simp add: s' del: of_nat_add)
  have dr: "dv_ready s' (a + c) (Free (us @ [(a, c, True)]) \<union> Free vs) (Free us \<union> Free vs)" by (simp add: dv_ready_def s')
  obtain t where f: "(if of_nat (a + c) = dVictim s' then Some (s'\<lparr>dVictim := of_nat (a + c), dVictimSize := of_nat (n + k - c)\<rparr>)
      else bin_chunk (of_nat (a + c)) s') = Some t" "hinv t ((us @ [(a, c, True)]) @ (a + c, n + k - c, False) # vs)"
    by (rule finish_free [OF cn dr])
  have "t = s'" using f(1) by (simp add: s')
  show "hinv s' (us @ (a, c, True) # (a + c, n + k - c, False) # vs)" using f(2) \<open>t = s'\<close> by simp
  show "keeps (insert (a, min n c) (Used us \<union> Used vs)) s s'" using b(2) by (simp add: s')
  show "same_arena s s'" using same_env_arena [OF same_env_only_mem [OF om]] by (simp add: s')
qed

lemma core_same_words:
  assumes "core s bs B" "only_mem s s'" "wd s' = wd s"
  shows "core s' bs B"
  using assms only_memD [OF assms(2)] same_envD [OF same_env_only_mem [OF assms(2)]]
  by (simp add: core_def layout_def arena_def top_ok_def bins_ok_def small_at_def large_at_def)

lemma border_binned:
  assumes h: "hinv s (us @ (a, n, True) # (a + n, k, False) # vs)" and d: "dVictim s \<noteq> of_nat (a + n)"
    and ch: "blocks_at (wd s) True (unat (heap_start s)) us a r"
    and m: "16 \<le> c" "c + 16 \<le> n + k" "c mod 8 = 0" and clear: "c < n \<or> n + 32 \<le> c" and s2: "border_moved s a n k c r s2"
  obtains s3 s' where "unbin_chunk (of_nat (a + n)) s2 = Some s3" "of_nat (a + c) \<noteq> dVictim s3" "bin_chunk (of_nat (a + c)) s3 = Some s'"
    "hinv s' (us @ (a, c, True) # (a + c, n + k - c, False) # vs)"
    "keeps (insert (a, min n c) (Used us \<union> Used vs)) s s'" "same_arena s s'"
proof -
  let ?bs = "us @ (a, n, True) # (a + n, k, False) # vs"
  note v = victim_elsewhere [OF h d] and c0 = hinvD(1) [OF h]
  have om: "only_mem s s2" and w2: "wd s2 = (wd s)(a + 4 := head_word (of_nat c) True r, a + c + 4 := head_word (of_nat (n + k - c)) False True, a + n + k := of_nat (n + k - c))"
    using s2 by (simp_all add: border_moved_def)
  have mem: "(a, n, True) \<in> set ?bs" "(a + n, k, False) \<in> set ?bs" by simp_all
  note bn = core_block [OF c0 mem(1)] and bk = core_block [OF c0 mem(2)]
  have wr: "{a + 4, a + c + 4, a + n + k} \<subseteq> written a n k c" using clear m bk(3) by (auto simp: written_def)
  have same: "wd s2 b = wd s b" if "b \<notin> written a n k c" for b using that wr by (auto simp: w2)
  have c8: "8 \<le> c" "c + 4 < n + k" using m by simp_all
  obtain s3 t where u: "unbin_chunk (of_nat (a + n)) s2 = Some s3" "same_env s2 s3" "\<forall>b. b \<notin> body (Free ?bs - dv_set s) \<longrightarrow> wd s3 b = wd s2 b"
    "core t ?bs (Free ?bs - dv_set s - {(a + n, k)})" "only_mem t s3"
    "wd t = (wd s3)(a + 4 := wd s (a + 4), a + c + 4 := wd s (a + c + 4), a + n + k := wd s (a + n + k))"
    "keeps (insert (a, n) (Used us \<union> Used vs)) s t" "same_env s t" "blocks_at (wd t) True (unat (heap_start t)) us a r"
    by (rule unbin_written [OF c0 v(1) om same m(3) c8]) (use ch in blast)+
  have "b \<notin> body (Free ?bs - dv_set s)" if "b \<in> written a n k c" for b
    using written_outside [OF c0 that] body_mono [of "Free ?bs - dv_set s" "Free ?bs"] by blast
  then have w3: "wd s3 b = wd s2 b" if "b \<in> {a + 4, a + c + 4, a + n + k}" for b using u(3) wr that by blast
  have "wd s3 = (wd t)(a + 4 := head_word (of_nat c) True r, a + c + 4 := head_word (of_nat (n + k - c)) False True, a + n + k := of_nat (n + k - c))"
    using w3 m unfolding u(6) by (auto simp: w2 fun_eq_iff)
  then have bm: "border_moved t a n k c r s3" using u(5) by (simp add: border_moved_def)
  have ct: "core t ?bs (Free us \<union> Free vs - dv_set s)" using u(4) unfolding v(3) .
  note b = core_border [OF ct _ u(9) m bm]
  have e: "same_env s s3" by (rule same_env_trans [OF u(8) same_env_only_mem [OF u(5)]])
  note ed = same_env_dv [OF e]
  have cn: "core s3 ((us @ [(a, c, True)]) @ (a + c, n + k - c, False) # vs) (Free us \<union> Free vs - dv_set s)" using b(1) by auto
  have oc: "okaddr (a + c)" by (rule core_block(1) [OF cn]) auto
  have nv: "of_nat (a + c) \<noteq> dVictim s3"
  proof
    assume eq: "of_nat (a + c) = dVictim s3"
    have "unat (of_nat (a + c) :: addr) = a + c" using oc by (simp add: okaddr_def unat_of_nat del: of_nat_add)
    moreover have "dVictim s \<noteq> NULL" using eq ed okaddr_nonzero [OF oc] by simp
    ultimately have "(a + c, unat (dVictimSize s)) \<in> dv_set s" using eq ed by (simp add: dv_set_def del: of_nat_add)
    then have "(a + c, unat (dVictimSize s), False) \<in> set us \<union> set vs" using v(2) by auto
    then show False using once [OF cn] by auto
  qed
  have dr: "dv_ready s3 (a + c) (Free (us @ [(a, c, True)]) \<union> Free vs) (Free us \<union> Free vs - dv_set s)"
    using v(2) nv ed hinvD(3) [OF h] by (auto simp: dv_ready_def)
  obtain s' where "(if of_nat (a + c) = dVictim s3 then Some (s3\<lparr>dVictim := of_nat (a + c), dVictimSize := of_nat (n + k - c)\<rparr>)
      else bin_chunk (of_nat (a + c)) s3) = Some s'"
    and f: "hinv s' ((us @ [(a, c, True)]) @ (a + c, n + k - c, False) # vs)"
      "keeps (Used (us @ [(a, c, True)]) \<union> Used vs) s3 s'" "same_arena s3 s'"
    by (rule finish_free [OF cn dr])
  then have b3: "bin_chunk (of_nat (a + c)) s3 = Some s'" using nv by simp
  show ?thesis
  proof (rule that [OF u(1)])
    show "of_nat (a + c) \<noteq> dVictim s3" by (rule nv)
    show "bin_chunk (of_nat (a + c)) s3 = Some s'" by (rule b3)
    show "hinv s' (us @ (a, c, True) # (a + c, n + k - c, False) # vs)" using f(1) by simp
    show "same_arena s s'" by (rule same_arena_trans [OF same_env_arena [OF e] f(3)])
    have "keeps (insert (a, min n c) (Used us \<union> Used vs)) s t"
    proof -
      have "keeps {(a, min n c)} s t" using u(7) unfolding keeps_def payload_def by fastforce
      then show ?thesis using u(7) keeps_insert by blast
    qed
    moreover have "keeps (insert (a, min n c) (Used us \<union> Used vs)) t s3" using b(2) by blast
    moreover have "keeps (insert (a, min n c) (Used us \<union> Used vs)) s3 s'"
    proof -
      have "keeps (insert (a, c) (Used us \<union> Used vs)) s3 s'" using f(2) by (simp add: insert_commute)
      moreover then have "keeps {(a, min n c)} s3 s'" unfolding keeps_def payload_def by fastforce
      ultimately show ?thesis using keeps_insert by blast
    qed
    ultimately show "keeps (insert (a, min n c) (Used us \<union> Used vs)) s s'" using keeps_trans by blast
  qed
qed

lemma swallow_victim:
  assumes h: "hinv s (us @ (a, n, True) # (a + n, k, False) # vs)" and d: "dVictim s = of_nat (a + n)"
    and ch: "blocks_at (wd s) True (unat (heap_start s)) us a r" and om: "only_mem s s2" and vs: "vs = (a + n + k, j, True) # vs'"
    and w: "wd s2 = (wd s)(a + 4 := head_word (of_nat (n + k)) True r, a + n + k + 4 := head_word (of_nat j) True True)"
    and s': "s' = s2\<lparr>dVictim := NULL, dVictimSize := 0\<rparr>"
  shows "hinv s' (us @ (a, n + k, True) # vs)" "keeps (insert (a, n) (Used us \<union> Used vs)) s s'" "same_arena s s'"
proof -
  note v = victim_next [OF h d]
  have cb: "core s (us @ (a, n, True) # (a + n, k, False) # vs) (Free us \<union> Free vs)" using hinvD(1) [OF h] unfolding v(2) .
  note b = core_swallow [OF cb subset_refl ch om vs w]
  show "hinv s' (us @ (a, n + k, True) # vs)" using b(1) by (simp add: hinv_def s')
  show "keeps (insert (a, n) (Used us \<union> Used vs)) s s'" using b(2) by (simp add: s')
  show "same_arena s s'" using same_env_arena [OF same_env_only_mem [OF om]] by (simp add: s')
qed

lemma swallow_binned:
  assumes h: "hinv s (us @ (a, n, True) # (a + n, k, False) # vs)" and d: "dVictim s \<noteq> of_nat (a + n)"
    and ch: "blocks_at (wd s) True (unat (heap_start s)) us a r" and om: "only_mem s s1" and vs: "vs = (a + n + k, j, True) # vs'"
    and w1: "wd s1 = (wd s)(a + 4 := head_word (of_nat (n + k)) True r)"
  obtains s3 where "unbin_chunk (of_nat (a + n)) s1 = Some s3" "wd s3 (a + 4) = head_word (of_nat (n + k)) True r"
    "wd s3 (a + n + k + 4) = wd s (a + n + k + 4)"
    "\<And>s4. \<lbrakk>only_mem s3 s4; wd s4 = (wd s3)(a + n + k + 4 := head_word (of_nat j) True True)\<rbrakk> \<Longrightarrow>
       hinv s4 (us @ (a, n + k, True) # vs) \<and> keeps (insert (a, n) (Used us \<union> Used vs)) s s4 \<and> same_arena s s4"
proof -
  let ?bs = "us @ (a, n, True) # (a + n, k, False) # vs"
  note v = victim_elsewhere [OF h d] and c0 = hinvD(1) [OF h]
  have mem: "(a, n, True) \<in> set ?bs" "(a + n, k, False) \<in> set ?bs" "(a + n + k, j, True) \<in> set ?bs" by (simp_all add: vs)
  note bn = core_block [OF c0 mem(1)] and bk = core_block [OF c0 mem(2)] and ci = chain_interior [OF coreD(3) [OF c0]]
  have same: "wd s1 b = wd s b" if "b \<notin> written a n k n" for b using that by (auto simp: w1 written_def)
  have n8: "8 \<le> n" "n + 4 < n + k" using bn(3) bk(3) by simp_all
  obtain s3 t where u: "unbin_chunk (of_nat (a + n)) s1 = Some s3" "same_env s1 s3" "\<forall>b. b \<notin> body (Free ?bs - dv_set s) \<longrightarrow> wd s3 b = wd s1 b"
    "core t ?bs (Free ?bs - dv_set s - {(a + n, k)})" "only_mem t s3"
    "wd t = (wd s3)(a + 4 := wd s (a + 4), a + n + 4 := wd s (a + n + 4), a + n + k := wd s (a + n + k))"
    "keeps (insert (a, n) (Used us \<union> Used vs)) s t" "same_env s t" "blocks_at (wd t) True (unat (heap_start t)) us a r"
    by (rule unbin_written [OF c0 v(1) om same bn(4) n8]) (use ch in blast)+
  have w3: "wd s3 b = wd s1 b" if "b \<notin> interior ?bs" for b
    using u(3) that body_free [of "Free ?bs - dv_set s" ?bs] by blast
  have o: "wd s3 (a + 4) = head_word (of_nat (n + k)) True r" "wd s3 (a + n + 4) = wd s (a + n + 4)" "wd s3 (a + n + k) = wd s (a + n + k)"
    "wd s3 (a + n + k + 4) = wd s (a + n + k + 4)"
    using w3 [OF ci(1) [OF mem(1)]] w3 [OF ci(1) [OF mem(2)]] w3 [OF ci(2) [OF mem(2)]] w3 [OF ci(1) [OF mem(3)]] n8 by (simp_all add: w1)
  then have wt: "wd s3 = (wd t)(a + 4 := head_word (of_nat (n + k)) True r)" using n8 unfolding u(6) by (auto simp: fun_eq_iff)
  have ct: "core t ?bs (Free us \<union> Free vs - dv_set s)" using u(4) unfolding v(3) .
  have "hinv s4 (us @ (a, n + k, True) # vs) \<and> keeps (insert (a, n) (Used us \<union> Used vs)) s s4 \<and> same_arena s s4"
    if s4: "only_mem s3 s4" "wd s4 = (wd s3)(a + n + k + 4 := head_word (of_nat j) True True)" for s4
  proof -
    have w4: "wd s4 = (wd t)(a + 4 := head_word (of_nat (n + k)) True r, a + n + k + 4 := head_word (of_nat j) True True)"
      unfolding s4(2) wt ..
    have om4: "only_mem t s4" by (rule only_mem_trans [OF u(5) s4(1)])
    note b = core_swallow [OF ct _ u(9) om4 vs w4]
    have e: "same_env s s4" by (rule same_env_trans [OF u(8) same_env_only_mem [OF om4]])
    have "core s4 (us @ (a, n + k, True) # vs) (Free us \<union> Free vs - dv_set s)" using b(1) by blast
    then have "hinv s4 (us @ (a, n + k, True) # vs)" using same_env_dv [OF e] v(2) hinvD(3) [OF h] by (simp add: hinv_def)
    moreover have "keeps (insert (a, n) (Used us \<union> Used vs)) s s4" by (rule keeps_trans [OF u(7)]) (rule b(2), blast)
    ultimately show ?thesis using same_env_arena [OF e] by blast
  qed
  then show ?thesis using that [OF u(1) o(1,4)] by blast
qed

section \<open>The top chunk behind the block in use\<close>

lemma top_border:
  assumes h: "hinv s (us @ [(a, n, True)])" and ts: "ts = unat (topChunkSize s)"
    and ch: "blocks_at (wd s) True (unat (heap_start s)) us a r"
    and m: "16 \<le> c" "c \<le> n + ts" "c mod 8 = 0"
    and w: "wd s' (a + 4) = head_word (of_nat c) True r" "0 < n + ts - c \<Longrightarrow> wd s' (a + c + 4) = head_word (of_nat (n + ts - c)) False True"
      "wd s' (a + n + ts + 4) = wd s (a + n + ts + 4)" "\<And>b. b < a + 4 \<or> a + 8 \<le> b \<and> b < a + min n c + 4 \<Longrightarrow> wd s' b = wd s b"
    and e: "heap_start s' = heap_start s" "heap_size s' = heap_size s" "initial_heap_size s' = initial_heap_size s" "magic s' = magic s"
      "kmstate.more s' = kmstate.more s" "sbin s' = sbin s" "tbin s' = tbin s" "sbinmap s' = sbinmap s" "tbinmap s' = tbinmap s"
      "dVictim s' = dVictim s" "dVictimSize s' = dVictimSize s" "topChunk s' = of_nat (a + c)" "topChunkSize s' = of_nat (n + ts - c)"
  shows "hinv s' (us @ [(a, c, True)])" "keeps (insert (a, min n c) (Used us)) s s'" "same_arena s s'"
proof -
  let ?bs = "us @ [(a, n, True)]"
  note c0 = hinvD(1) [OF h]
  have top: "unat (topChunk s) = a + n"
  proof -
    have "core s (us @ [(a, n, True)] @ []) (Free ?bs - dv_set s)" using c0 by simp
    then obtain x r1 y r2 where "blocks_at (wd s) r1 x [(a, n, True)] y r2" "blocks_at (wd s) r2 y [] (unat (topChunk s)) True"
      by (rule core_split_at)
    then show ?thesis by auto
  qed
  have "(a, n, True) \<in> set ?bs" by simp
  note b = core_block [OF c0 this] and t = top_okD [OF coreD(2) [OF c0], folded ts, unfolded top] and ct = core_top [OF c0, folded ts, unfolded top]
  have rest: "(n + ts - c) mod 8 = 0" "n + ts - c < 4294967296" "(a + c) mod 8 = 0" "a + c < 4294967296"
  proof -
    show "(n + ts - c) mod 8 = 0" using b(4) t(2) m by (simp add: mod_eq_0_iff_dvd)
    show "(a + c) mod 8 = 0" using b(1) m(3) by (simp add: okaddr_def mod_add_eq [symmetric])
    have "a + (n + ts) < 4294967296" using ct(2) by (simp add: okaddr_def)
    then show "n + ts - c < 4294967296" "a + c < 4294967296" using m(2) by linarith+
  qed
  have ac: "a + c + (n + ts - c) = a + n + ts" using m(2) by simp
  have u: "unat (topChunk s') = a + c" unfolding e(12) using rest(4) by (simp add: unat_of_nat del: of_nat_add)
  have ar: "arena s'" using coreD(1) [OF c0] e by (simp add: arena_def)
  have to: "top_ok s'"
    by (rule top_okI [OF rest(3,1) _ w(2) _ e(12,13) rest(4,2)]) (use t(3,5) e w(3) in \<open>simp_all add: ac\<close>)
  have bl: "blocks_at (wd s') r a [(a, c, True)] (unat (topChunk s')) True" using m w(1) by (simp add: u)
  have sub: "Free ?bs - dv_set s \<subseteq> Free us" by auto
  have ws: "wd s' b = wd s b" if "b < a + 4" for b using w(4) that by blast
  note nt = new_top [OF c0 sub ch ws e(1,6-9) ar to bl]
  show "hinv s' (us @ [(a, c, True)])" using nt(1) hinvD(2,3) [OF h] e(10,11) by (auto simp: hinv_def dv_set_def)
  have "keeps {(a, min n c)} s s'" using w(4) by (auto simp: keeps_def payload_def)
  then show "keeps (insert (a, min n c) (Used us)) s s'" using nt(2) keeps_insert by blast
  show "same_arena s s'" using e by (simp add: same_arena_def)
qed

section \<open>Growing in place\<close>

definition border_write :: "nat \<Rightarrow> nat \<Rightarrow> nat \<Rightarrow> nat \<Rightarrow> bool \<Rightarrow> 'a kmstate_scheme \<Rightarrow> 'a kmstate_scheme" where
  "border_write a n k c r s = set_prev_foot (of_nat (a + n + k)) (of_nat (n + k - c)) (set_header (of_nat (a + c)) (of_nat (n + k - c) OR PINUSE)
     (set_header (of_nat a) (head_word (of_nat c) True r) s))"

lemma border_write_moved:
  assumes "okaddr a" "okaddr (a + c)" "okaddr (a + n + k)"
  shows "border_moved s a n k c r (border_write a n k c r s)"
  using assms by (simp add: border_moved_def border_write_def head_word_intros del: of_nat_add of_nat_diff)

lemma border_write_fields [simp]:
  "topChunk (border_write a n k c r s) = topChunk s" "dVictim (border_write a n k c r s) = dVictim s"
  by (simp_all add: border_write_def)

lemma header_kept: "head_word z True r = z OR CINUSE OR (if r then PINUSE else 0)"
  by (simp add: head_word_def)

lemma try_expand_eq:
  assumes ok: "okaddr a" and hd: "wd s (a + 4) = head_word (of_nat n) True r" and n: "n mod 8 = 0" "n < c" "c < 4294967296"
    and nx: "\<not> IS_INUSE (of_nat (a + n)) s" "GETCHUNKSIZE (of_nat (a + n)) s = of_nat k" "k < 4294967296"
  shows "try_expand_chunk (of_nat a) (of_nat c) s =
    (if k < c - n then Some (False, s)
     else if 16 < n + k - c then
       (let s2 = border_write a n k c r s
        in if of_nat (a + n) = topChunk s then Some (True, s2\<lparr>topChunk := of_nat (a + c), topChunkSize := of_nat (n + k - c)\<rparr>)
           else if of_nat (a + n) = dVictim s then Some (True, s2\<lparr>dVictim := of_nat (a + c), dVictimSize := of_nat (n + k - c)\<rparr>)
           else map_option (Pair True) (Option.bind (unbin_chunk (of_nat (a + n)) s2) (bin_chunk (of_nat (a + c)))))
     else
       (let s1 = set_header (of_nat a) (head_word (of_nat (n + k)) True r) s
        in map_option (\<lambda>s.
             let next = NEXTCHUNK (of_nat a) s
             in (True, if header next s \<noteq> 0 then set_header next (header next s OR PINUSE) s else s))
           (if of_nat (a + n) = topChunk s then Some (s1\<lparr>topChunk := NEXTCHUNK (of_nat a) s1, topChunkSize := 0\<rparr>)
            else if of_nat (a + n) = dVictim s then Some (s1\<lparr>dVictim := NULL, dVictimSize := 0\<rparr>)
            else unbin_chunk (of_nat (a + n)) s1)))"
proof -
  have n32: "n < 4294967296" using n by simp
  note hf = header_facts [OF ok hd n(1) n32]
  have lt: "\<not> (of_nat c :: u32) < of_nat n" using n n32 by (simp add: word_less_nat_alt unat_of_nat)
  have df: "(of_nat c :: u32) - of_nat n = of_nat (c - n)" by (rule word_diff_of_nat) (use n in simp)
  have ge: "(of_nat (c - n) :: u32) \<le> of_nat k \<longleftrightarrow> \<not> k < c - n" using n nx(3) by (simp add: word_le_nat_alt unat_of_nat not_less del: of_nat_diff)
  have off: "of_nat (a + n) + (of_nat (c - n) :: u32) = of_nat (a + c)"
  proof -
    have "a + n + (c - n) = a + c" using n(2) by simp
    then show ?thesis by (metis of_nat_add)
  qed
  have i: "IS_INUSE (of_nat a) s" using hf(2) by simp
  have fr: "(of_nat k :: u32) - of_nat (c - n) = of_nat (n + k - c)" and ed: "of_nat (a + c) + (of_nat (n + k - c) :: u32) = of_nat (a + n + k)"
    and big: "(MINCHUNKSIZE :: u32) < of_nat (n + k - c) \<longleftrightarrow> 16 < n + k - c" and all: "(of_nat c :: u32) + of_nat (n + k - c) = of_nat (n + k)"
    if k: "\<not> k < c - n"
  proof -
    have "n + k - c = k - (c - n)" using n(2) k by simp
    then show "(of_nat k :: u32) - of_nat (c - n) = of_nat (n + k - c)" using word_diff_of_nat [of "c - n" k] k by simp
    show "of_nat (a + c) + (of_nat (n + k - c) :: u32) = of_nat (a + n + k)" "(of_nat c :: u32) + of_nat (n + k - c) = of_nat (n + k)"
    proof -
      have "a + c + (n + k - c) = a + n + k" "c + (n + k - c) = n + k" using k n(2) by simp_all
      then show "of_nat (a + c) + (of_nat (n + k - c) :: u32) = of_nat (a + n + k)" "(of_nat c :: u32) + of_nat (n + k - c) = of_nat (n + k)"
        by (metis of_nat_add)+
    qed
    have "n + k - c < 4294967296" using nx(3) n(2) by simp
    then show "(MINCHUNKSIZE :: u32) < of_nat (n + k - c) \<longleftrightarrow> 16 < n + k - c"
      by (simp add: MINCHUNKSIZE_def word_less_nat_alt unat_of_nat del: of_nat_diff)
  qed
  show ?thesis
  proof (cases "k < c - n")
    case True
    then show ?thesis unfolding try_expand_chunk_def Let_def hf(1,4) nx(2) df ge using i lt by simp
  next
    case False
    show ?thesis
      unfolding try_expand_chunk_def Let_def hf(1,3,4) nx(2) df ge fr [OF False] big [OF False] CHUNKOFFSET_def off ed [OF False] all [OF False]
        header_kept [symmetric] border_write_def
      using i lt nx(1) False by (simp del: of_nat_add of_nat_diff)
  qed
qed

lemma hinv_split:
  assumes "hinv s (us @ (a, n, True) # vs)"
  obtains r where "blocks_at (wd s) True (unat (heap_start s)) us a r" "wd s (a + 4) = head_word (of_nat n) True r"
    "blocks_at (wd s) True (a + n) vs (unat (topChunk s)) True"
proof -
  have "core s (us @ [(a, n, True)] @ vs) (Free (us @ (a, n, True) # vs) - dv_set s)" using hinvD(1) [OF assms] by simp
  then obtain x r y q where "blocks_at (wd s) True (unat (heap_start s)) us x r" "blocks_at (wd s) r x [(a, n, True)] y q"
    "blocks_at (wd s) q y vs (unat (topChunk s)) True"
    by (rule core_split_at)
  then show ?thesis using that [of r] by auto
qed

text \<open>
  The hazard: the neighbour is in a bin, a remainder is split off it, and the header of the remainder is written
  over the links of the neighbour before it leaves its bin.
\<close>

definition over_links :: "addr \<Rightarrow> u32 \<Rightarrow> 'a kmstate_scheme \<Rightarrow> bool" where
  "over_links chunk new_size s \<longleftrightarrow>
     (let next = NEXTCHUNK chunk s; diff = new_size - GETCHUNKSIZE chunk s
      in \<not> IS_INUSE next s \<and> next \<noteq> topChunk s \<and> next \<noteq> dVictim s \<and> 0 < diff \<and> diff < 32 \<and> diff \<le> GETCHUNKSIZE next s
         \<and> MINCHUNKSIZE < GETCHUNKSIZE next s - diff)"

definition resized :: "'a kmstate_scheme \<Rightarrow> block list \<Rightarrow> nat \<Rightarrow> nat \<Rightarrow> nat \<Rightarrow> 'a kmstate_scheme \<Rightarrow> block list \<Rightarrow> bool" where
  "resized s bs a n m s' bs' \<longleftrightarrow> hinv s' bs' \<and> Used bs' = insert (a, m) (Used bs - {(a, n)})
     \<and> keeps (insert (a, min n m) (Used bs - {(a, n)})) s s'"

lemma used_apart:
  assumes "hinv s (us @ (a, n, True) # vs)"
  shows "Used (us @ (a, n, True) # vs) - {(a, n)} = Used us \<union> Used vs"
  using once [OF hinvD(1) [OF assms]] by auto

lemma resizedI:
  assumes "hinv s (us @ (a, n, True) # vs)" "hinv s' (us @ (a, m, True) # ws)" "Used ws = Used vs"
    "keeps (insert (a, min n m) (Used us \<union> Used vs)) s s'"
  shows "resized s (us @ (a, n, True) # vs) a n m s' (us @ (a, m, True) # ws)"
  unfolding resized_def used_apart [OF assms(1)] using assms(2-4) by simp

text \<open>A free block behind it: what the code does, on the facts of the heap.\<close>

lemma after_pair:
  assumes h: "hinv s (us @ (a, n, True) # (a + n, k, False) # vs)"
  obtains r j vs' where "blocks_at (wd s) True (unat (heap_start s)) us a r" "wd s (a + 4) = head_word (of_nat n) True r"
    "vs = (a + n + k, j, True) # vs'" "wd s (a + n + k + 4) = head_word (of_nat j) True False"
proof -
  obtain r where r: "blocks_at (wd s) True (unat (heap_start s)) us a r" "wd s (a + 4) = head_word (of_nat n) True r"
    and cv: "blocks_at (wd s) True (a + n) ((a + n, k, False) # vs) (unat (topChunk s)) True"
    by (rule hinv_split [OF h])
  have bv: "blocks_at (wd s) False (a + n + k) vs (unat (topChunk s)) True" using cv by auto
  obtain j vs' where "vs = (a + n + k, j, True) # vs'" using after_free [OF bv] by blast
  then show ?thesis using that [OF r] bv by simp
qed

lemma not_top:
  assumes c: "core s bs B" and y: "(y, k, u) \<in> set bs"
  shows "(of_nat y :: addr) \<noteq> topChunk s"
proof -
  note b = core_block [OF c y]
  have "y \<noteq> unat (topChunk s)" using b(3,8) by simp
  then show ?thesis using okaddr_inj [OF b(1) core_top(1) [OF c]] core_top(4) [OF c] by metis
qed

lemma expand_free_eq:
  assumes h: "hinv s (us @ (a, n, True) # (a + n, k, False) # vs)" and hd: "wd s (a + 4) = head_word (of_nat n) True r"
    and c: "c mod 8 = 0" "n < c" "c < 4294967296" "c \<le> n + k"
  shows "try_expand_chunk (of_nat a) (of_nat c) s =
    (if 16 < n + k - c then
       (let s2 = border_write a n k c r s
        in if of_nat (a + n) = dVictim s then Some (True, s2\<lparr>dVictim := of_nat (a + c), dVictimSize := of_nat (n + k - c)\<rparr>)
           else map_option (Pair True) (Option.bind (unbin_chunk (of_nat (a + n)) s2) (bin_chunk (of_nat (a + c)))))
     else
       (let s1 = set_header (of_nat a) (head_word (of_nat (n + k)) True r) s
        in map_option (\<lambda>s.
             let next = NEXTCHUNK (of_nat a) s
             in (True, if header next s \<noteq> 0 then set_header next (header next s OR PINUSE) s else s))
           (if of_nat (a + n) = dVictim s then Some (s1\<lparr>dVictim := NULL, dVictimSize := 0\<rparr>)
            else unbin_chunk (of_nat (a + n)) s1)))"
proof -
  note c0 = hinvD(1) [OF h]
  have mem: "(a, n, True) \<in> set (us @ (a, n, True) # (a + n, k, False) # vs)" "(a + n, k, False) \<in> set (us @ (a, n, True) # (a + n, k, False) # vs)"
    by simp_all
  note bn = core_block [OF c0 mem(1)] and bk = core_block [OF c0 mem(2)] and fk = core_free [OF c0 mem(2)]
  have nlt: "\<not> k < c - n" using c(4) by simp
  show ?thesis
    unfolding try_expand_eq [OF bn(1) hd bn(4) c(2,3) fk(3,2) bk(6)] if_not_P [OF nlt] if_not_P [OF not_top [OF c0 mem(2)]] ..
qed

lemma safe_growth:
  assumes h: "hinv s (us @ (a, n, True) # (a + n, k, False) # vs)" and c: "n < c" "c < 4294967296" "c \<le> n + k" "16 < n + k - c"
    and safe: "\<not> over_links (of_nat a) (of_nat c) s" and d: "dVictim s \<noteq> of_nat (a + n)"
  shows "n + 32 \<le> c"
proof (rule ccontr)
  note c0 = hinvD(1) [OF h]
  have mem: "(a, n, True) \<in> set (us @ (a, n, True) # (a + n, k, False) # vs)" "(a + n, k, False) \<in> set (us @ (a, n, True) # (a + n, k, False) # vs)"
    by simp_all
  note bn = core_block [OF c0 mem(1)] and bk = core_block [OF c0 mem(2)] and fk = core_free [OF c0 mem(2)]
  obtain r where hd: "wd s (a + 4) = head_word (of_nat n) True r" by (rule hinv_split [OF h])
  assume "\<not> n + 32 \<le> c"
  then have d32: "c - n < 32" using c(1) by simp
  have df: "(of_nat c :: u32) - of_nat n = of_nat (c - n)" by (rule word_diff_of_nat) (use c in simp)
  have kd: "(of_nat k :: u32) - of_nat (c - n) = of_nat (n + k - c)" "n + k - c < 4294967296" "n + k - c = k - (c - n)" "c - n \<le> k"
    using word_diff_of_nat [of "c - n" k] c(1,3) bk(6) by simp_all
  have "over_links (of_nat a) (of_nat c) s"
    unfolding over_links_def Let_def header_facts(1,4) [OF bn(1) hd bn(4,6)] fk(2) df kd(1)
    using fk(3) not_top [OF c0 mem(2)] d d32 kd(2,4) bk(6) c(1,4)
    by (simp add: word_less_nat_alt word_le_nat_alt MINCHUNKSIZE_def unat_of_nat del: of_nat_add of_nat_diff)
  then show False using safe by blast
qed

lemma expand_split:
  assumes h: "hinv s (us @ (a, n, True) # (a + n, k, False) # vs)" and c: "c mod 8 = 0" "n < c" "c < 4294967296" "c \<le> n + k"
    and big: "16 < n + k - c" and safe: "\<not> over_links (of_nat a) (of_nat c) s"
  obtains s' bs' where "try_expand_chunk (of_nat a) (of_nat c) s = Some (True, s')"
    "resized s (us @ (a, n, True) # (a + n, k, False) # vs) a n c s' bs'" "same_arena s s'"
proof -
  let ?bs = "us @ (a, n, True) # (a + n, k, False) # vs"
  note c0 = hinvD(1) [OF h]
  have mem: "(a, n, True) \<in> set ?bs" "(a + n, k, False) \<in> set ?bs" by simp_all
  note bn = core_block [OF c0 mem(1)] and bk = core_block [OF c0 mem(2)]
  obtain r where ch: "blocks_at (wd s) True (unat (heap_start s)) us a r" and hd: "wd s (a + 4) = head_word (of_nat n) True r"
    by (rule hinv_split [OF h])
  note run = expand_free_eq [OF h hd c, unfolded if_P [OF big] Let_def]
  have m: "16 \<le> c" "c + 16 \<le> n + k" using bn(3) c(2) big by simp_all
  have "(a + c) mod 8 = 0" using bn(1) c(1) by (simp add: okaddr_def mod_add_eq [symmetric])
  then have okc: "okaddr (a + c)" using bn(1) bk(2) c(4) by (simp add: okaddr_def)
  note bm = border_write_moved [OF bn(1) okc bk(2), of s r]
  show ?thesis
  proof (cases "dVictim s = of_nat (a + n)")
    case True
    define s' where "s' = (border_write a n k c r s)\<lparr>dVictim := of_nat (a + c), dVictimSize := of_nat (n + k - c)\<rparr>"
    note b = border_victim [OF h True ch m c(1) bm s'_def]
    have "try_expand_chunk (of_nat a) (of_nat c) s = Some (True, s')" unfolding run s'_def using True by simp
    moreover have "resized s ?bs a n c s' (us @ (a, c, True) # (a + c, n + k - c, False) # vs)"
      by (rule resizedI [OF h b(1)]) (use b(2) in simp_all)
    ultimately show ?thesis using that b(3) by blast
  next
    case False
    obtain s3 s' where s3: "unbin_chunk (of_nat (a + n)) (border_write a n k c r s) = Some s3"
      "hinv s' (us @ (a, c, True) # (a + c, n + k - c, False) # vs)"
      "keeps (insert (a, min n c) (Used us \<union> Used vs)) s s'" "same_arena s s'" "bin_chunk (of_nat (a + c)) s3 = Some s'"
      by (rule border_binned [OF h False ch m c(1) _ bm]) (use safe_growth [OF h c(2-4) big safe False] in blast)+
    have "try_expand_chunk (of_nat a) (of_nat c) s = Some (True, s')"
      unfolding run s3(1) using False s3(5) by auto
    moreover have "resized s ?bs a n c s' (us @ (a, c, True) # (a + c, n + k - c, False) # vs)"
      by (rule resizedI [OF h s3(2)]) (use s3(3) in simp_all)
    ultimately show ?thesis using that s3(4) by blast
  qed
qed

text \<open>The end of \<open>try_expand_chunk\<close> tells the block behind that its neighbour is in use.\<close>

lemma mark_next:
  assumes h: "hinv s (us @ (a, n, True) # (a + n, k, False) # vs)" and vs: "vs = (a + n + k, j, True) # vs'"
    and hj: "wd s (a + n + k + 4) = head_word (of_nat j) True False"
    and t: "wd t (a + 4) = head_word (of_nat (n + k)) True r" "wd t (a + n + k + 4) = wd s (a + n + k + 4)"
  shows "(let next = NEXTCHUNK (of_nat a) t in (True, if header next t \<noteq> 0 then set_header next (header next t OR PINUSE) t else t))
      = (True, set_header (of_nat (a + n + k)) (head_word (of_nat j) True True) t)"
    and "wd (set_header (of_nat (a + n + k)) (head_word (of_nat j) True True) t) = (wd t)(a + n + k + 4 := head_word (of_nat j) True True)"
proof -
  let ?bs = "us @ (a, n, True) # (a + n, k, False) # vs"
  note c0 = hinvD(1) [OF h]
  have mem: "(a, n, True) \<in> set ?bs" "(a + n, k, False) \<in> set ?bs" "(a + n + k, j, True) \<in> set ?bs" by (simp_all add: vs)
  note bn = core_block [OF c0 mem(1)] and bk = core_block [OF c0 mem(2)] and bj = core_block [OF c0 mem(3)]
  have nk: "(n + k) mod 8 = 0" "n + k < 4294967296"
    using bn(4) bk(2,4) by (simp_all add: mod_add_eq [symmetric] okaddr_def)
  have cs: "chunk_size (of_nat j)" using bj(4,6) by (simp add: chunk_size_iff unat_of_nat)
  have nz: "head_word (of_nat j) True False \<noteq> 0"
  proof -
    have "bit (head_word (of_nat j) True False) 1" by (simp add: head_word_bits)
    then show ?thesis by auto
  qed
  show "(let next = NEXTCHUNK (of_nat a) t in (True, if header next t \<noteq> 0 then set_header next (header next t OR PINUSE) t else t))
      = (True, set_header (of_nat (a + n + k)) (head_word (of_nat j) True True) t)"
    unfolding Let_def header_facts(4) [OF bn(1) t(1) nk] add.assoc [of a n k, symmetric]
    using t(2) bk(2) nz hj head_word_simps(4) [OF cs] by (simp del: of_nat_add)
  show "wd (set_header (of_nat (a + n + k)) (head_word (of_nat j) True True) t) = (wd t)(a + n + k + 4 := head_word (of_nat j) True True)"
    using bk(2) by (simp del: of_nat_add)
qed

lemma expand_whole:
  assumes h: "hinv s (us @ (a, n, True) # (a + n, k, False) # vs)" and c: "c mod 8 = 0" "n < c" "c < 4294967296" "c \<le> n + k"
    and small: "\<not> 16 < n + k - c"
  obtains s' bs' where "try_expand_chunk (of_nat a) (of_nat c) s = Some (True, s')"
    "resized s (us @ (a, n, True) # (a + n, k, False) # vs) a n (n + k) s' bs'" "same_arena s s'"
proof -
  let ?bs = "us @ (a, n, True) # (a + n, k, False) # vs"
  have mem: "(a, n, True) \<in> set ?bs" by simp
  note bn = core_block [OF hinvD(1) [OF h] mem]
  obtain r j vs' where ch: "blocks_at (wd s) True (unat (heap_start s)) us a r" and hd: "wd s (a + 4) = head_word (of_nat n) True r"
    and vs: "vs = (a + n + k, j, True) # vs'" and hj: "wd s (a + n + k + 4) = head_word (of_nat j) True False"
    by (rule after_pair [OF h])
  define s1 where "s1 = set_header (of_nat a) (head_word (of_nat (n + k)) True r) s"
  have om1: "only_mem s s1" by (simp add: s1_def)
  have w1: "wd s1 = (wd s)(a + 4 := head_word (of_nat (n + k)) True r)" using bn(1) by (simp add: s1_def del: of_nat_add)
  note mark = mark_next [OF h vs hj]
  note run = expand_free_eq [OF h hd c, unfolded if_not_P [OF small], folded s1_def, unfolded Let_def [of s1]]
  show ?thesis
  proof (cases "dVictim s = of_nat (a + n)")
    case True
    define s2 where "s2 = set_header (of_nat (a + n + k)) (head_word (of_nat j) True True) s1"
    have k1: "wd s1 (a + 4) = head_word (of_nat (n + k)) True r" "wd s1 (a + n + k + 4) = wd s (a + n + k + 4)"
      using bn(3) by (simp_all add: w1)
    have w2: "wd s2 = (wd s)(a + 4 := head_word (of_nat (n + k)) True r, a + n + k + 4 := head_word (of_nat j) True True)"
      unfolding s2_def mark(2) [OF k1] w1 ..
    have om2: "only_mem s s2" using om1 by (simp add: s2_def)
    note b = swallow_victim [OF h True ch om2 vs w2 refl]
    have "try_expand_chunk (of_nat a) (of_nat c) s = Some (True, s2\<lparr>dVictim := NULL, dVictimSize := 0\<rparr>)"
      unfolding run if_P [OF True [symmetric]] option.map
      using mark(1) [of "s1\<lparr>dVictim := NULL, dVictimSize := 0\<rparr>" r] k1 by (simp add: s2_def del: of_nat_add)
    moreover have "resized s ?bs a n (n + k) (s2\<lparr>dVictim := NULL, dVictimSize := 0\<rparr>) (us @ (a, n + k, True) # vs)"
      by (rule resizedI [OF h b(1)]) (use b(2) in simp_all)
    ultimately show ?thesis using that b(3) by blast
  next
    case False
    obtain s3 where u: "unbin_chunk (of_nat (a + n)) s1 = Some s3" "wd s3 (a + 4) = head_word (of_nat (n + k)) True r"
      "wd s3 (a + n + k + 4) = wd s (a + n + k + 4)"
      "\<And>s4. \<lbrakk>only_mem s3 s4; wd s4 = (wd s3)(a + n + k + 4 := head_word (of_nat j) True True)\<rbrakk> \<Longrightarrow>
         hinv s4 (us @ (a, n + k, True) # vs) \<and> keeps (insert (a, n) (Used us \<union> Used vs)) s s4 \<and> same_arena s s4"
      by (rule swallow_binned [OF h False ch om1 vs w1]) blast
    define s4 where "s4 = set_header (of_nat (a + n + k)) (head_word (of_nat j) True True) s3"
    have "only_mem s3 s4" by (simp add: s4_def)
    from u(4) [OF this] mark(2) [OF u(2,3)] have b: "hinv s4 (us @ (a, n + k, True) # vs)"
      "keeps (insert (a, n) (Used us \<union> Used vs)) s s4" "same_arena s s4"
      by (simp_all only: s4_def)
    have "try_expand_chunk (of_nat a) (of_nat c) s = Some (True, s4)"
      unfolding run if_not_P [OF False [symmetric]] u(1) option.map mark(1) [OF u(2,3)] s4_def ..
    moreover have "resized s ?bs a n (n + k) s4 (us @ (a, n + k, True) # vs)"
      by (rule resizedI [OF h b(1)]) (use b(2) in simp_all)
    ultimately show ?thesis using that b(3) by blast
  qed
qed

lemma expand_free:
  assumes h: "hinv s (us @ (a, n, True) # (a + n, k, False) # vs)" and c: "c mod 8 = 0" "n < c" "c < 4294967296" "c \<le> n + k"
    and safe: "\<not> over_links (of_nat a) (of_nat c) s"
  obtains s' bs' m where "try_expand_chunk (of_nat a) (of_nat c) s = Some (True, s')" "c \<le> m"
    "resized s (us @ (a, n, True) # (a + n, k, False) # vs) a n m s' bs'" "same_arena s s'"
  using expand_split [OF h c _ safe] expand_whole [OF h c] c(4) that by (metis order_refl)

lemma top_place:
  assumes "hinv s (us @ [(a, n, True)])"
  shows "unat (topChunk s) = a + n" "topChunk s = of_nat (a + n)"
proof -
  obtain r where "blocks_at (wd s) True (a + n) [] (unat (topChunk s)) True" by (rule hinv_split [OF assms])
  then show t: "unat (topChunk s) = a + n" by simp
  show "topChunk s = of_nat (a + n)" unfolding t [symmetric] by simp
qed

text \<open>The border to the top chunk, with the chunk's new size written where the code writes it.\<close>

lemma border_top:
  assumes h: "hinv s (us @ [(a, n, True)])" and ts: "ts = unat (topChunkSize s)"
    and ch: "blocks_at (wd s) True (unat (heap_start s)) us a r"
    and m: "16 \<le> c" "c + 8 \<le> n + ts" "c mod 8 = 0"
    and w': "wd s' = wd (border_write a n ts c r s)"
    and e: "s'\<lparr>hmem := hmem s\<rparr> = s\<lparr>topChunk := of_nat (a + c), topChunkSize := of_nat (n + ts - c)\<rparr>"
  shows "hinv s' (us @ [(a, c, True)])" "keeps (insert (a, min n c) (Used us)) s s'" "same_arena s s'"
proof -
  note c0 = hinvD(1) [OF h] and tp = top_place [OF h]
  have "(a, n, True) \<in> set (us @ [(a, n, True)])" by simp
  note b = core_block [OF c0 this] and ct = core_top [OF c0, unfolded tp(1), folded ts]
  have "(a + c) mod 8 = 0" using b(1) m(3) by (simp add: okaddr_def mod_add_eq [symmetric])
  then have okc: "okaddr (a + c)" using b(1) ct(2) m by (simp add: okaddr_def)
  have w: "wd s' = (wd s)(a + 4 := head_word (of_nat c) True r, a + c + 4 := head_word (of_nat (n + ts - c)) False True, a + n + ts := of_nat (n + ts - c))"
    using border_write_moved [OF b(1) okc ct(2), of s r] by (simp add: w' border_moved_def)
  have fl: "heap_start s' = heap_start s" "heap_size s' = heap_size s" "initial_heap_size s' = initial_heap_size s" "magic s' = magic s"
      "kmstate.more s' = kmstate.more s" "sbin s' = sbin s" "tbin s' = tbin s" "sbinmap s' = sbinmap s" "tbinmap s' = tbinmap s"
      "dVictim s' = dVictim s" "dVictimSize s' = dVictimSize s" "topChunk s' = of_nat (a + c)" "topChunkSize s' = of_nat (n + ts - c)"
    using e by (cases s; cases s'; simp)+
  have ne: "a + n + ts \<noteq> a + c + 4" "a + n + ts \<noteq> a + 4" using m by simp_all
  have "hinv s' (us @ [(a, c, True)]) \<and> keeps (insert (a, min n c) (Used us)) s s' \<and> same_arena s s'"
    by (intro conjI; rule top_border [OF h ts ch m(1) _ m(3)]) (use m ne fl in \<open>auto simp: w\<close>)
  then show "hinv s' (us @ [(a, c, True)])" "keeps (insert (a, min n c) (Used us)) s s'" "same_arena s s'" by blast+
qed

lemma expand_top:
  assumes h: "hinv s (us @ [(a, n, True)])" and ts: "ts = unat (topChunkSize s)"
    and c: "c mod 8 = 0" "n < c" "c < 4294967296" "c \<le> n + ts"
  obtains s' bs' m where "try_expand_chunk (of_nat a) (of_nat c) s = Some (True, s')" "c \<le> m"
    "resized s (us @ [(a, n, True)]) a n m s' bs'" "same_arena s s'"
proof -
  note c0 = hinvD(1) [OF h] and tp = top_place [OF h]
  have "(a, n, True) \<in> set (us @ [(a, n, True)])" by simp
  note b = core_block [OF c0 this] and t = top_okD [OF coreD(2) [OF c0], unfolded tp(1), folded ts]
    and ct = core_top [OF c0, unfolded tp(1), folded ts] and th = top_header [OF c0, unfolded tp(2)]
  have t32: "ts < 4294967296" using ct(5) by simp
  have tsz: "GETCHUNKSIZE (of_nat (a + n)) s = of_nat ts" unfolding th(2) ts by simp
  obtain r where ch: "blocks_at (wd s) True (unat (heap_start s)) us a r" and hd: "wd s (a + 4) = head_word (of_nat n) True r"
    by (rule hinv_split [OF h])
  have nlt: "\<not> ts < c - n" using c(4) by simp
  note run = try_expand_eq [OF b(1) hd b(4) c(2,3) th(1) tsz t32, unfolded if_not_P [OF nlt] if_P [OF tp(2) [symmetric]]]
  show ?thesis
  proof (cases "16 < n + ts - c")
    case True
    define s' where "s' = (border_write a n ts c r s)\<lparr>topChunk := of_nat (a + c), topChunkSize := of_nat (n + ts - c)\<rparr>"
    have m: "16 \<le> c" "c + 8 \<le> n + ts" using b(3) c True by simp_all
    have "s'\<lparr>hmem := hmem s\<rparr> = s\<lparr>topChunk := of_nat (a + c), topChunkSize := of_nat (n + ts - c)\<rparr>" "wd s' = wd (border_write a n ts c r s)"
      by (simp_all add: s'_def border_write_def wr_def)
    note bt = border_top [OF h ts ch m c(1) this(2,1)]
    have "try_expand_chunk (of_nat a) (of_nat c) s = Some (True, s')" unfolding run if_P [OF True] s'_def Let_def ..
    moreover have "resized s (us @ [(a, n, True)]) a n c s' (us @ [(a, c, True)])"
      by (rule resizedI [OF h bt(1)]) (use bt(2) in simp_all)
    ultimately show ?thesis using that bt(3) by blast
  next
    case False
    define s1 where "s1 = set_header (of_nat a) (head_word (of_nat (n + ts)) True r) s"
    have w1: "wd s1 = (wd s)(a + 4 := head_word (of_nat (n + ts)) True r)" using b(1) by (simp add: s1_def del: of_nat_add)
    have nk: "(n + ts) mod 8 = 0" "n + ts < 4294967296"
      using b(4) t(2) ct(2) by (simp_all add: mod_add_eq [symmetric] okaddr_def)
    have nx: "NEXTCHUNK (of_nat a) s1 = of_nat (a + n + ts)"
      unfolding add.assoc by (rule header_facts(4) [OF b(1) _ nk, of s1 True r]) (simp add: w1)
    define s' where "s' = s1\<lparr>topChunk := of_nat (a + n + ts), topChunkSize := 0\<rparr>"
    have nx': "NEXTCHUNK (of_nat a) s' = of_nat (a + n + ts)" using nx by (simp add: s'_def NEXTCHUNK_def GETCHUNKSIZE_def)
    have w': "wd s' = wd s1" by (simp add: s'_def)
    have z: "header (of_nat (a + n + ts)) s' = 0" using ct(2) t(5) b(3) by (simp add: w' w1 del: of_nat_add)
    have run': "try_expand_chunk (of_nat a) (of_nat c) s = Some (True, s')"
      unfolding run if_not_P [OF False] Let_def s1_def [symmetric] nx s'_def [symmetric] option.map nx' z by simp
    have m: "16 \<le> n + ts" "n + ts \<le> n + ts" using b(3) by simp_all
    have "hinv s' (us @ [(a, n + ts, True)]) \<and> keeps (insert (a, min n (n + ts)) (Used us)) s s' \<and> same_arena s s'"
      by (intro conjI; rule top_border [OF h ts ch m nk(1)]) (use b(3) in \<open>auto simp: w' w1, auto simp: s'_def s1_def add.assoc\<close>)
    then have "resized s (us @ [(a, n, True)]) a n (n + ts) s' (us @ [(a, n + ts, True)])" "same_arena s s'"
      by (auto intro!: resizedI [OF h])
    then show ?thesis using that run' c(4) by blast
  qed
qed

lemma try_expand_ok:
  assumes h: "hinv s bs" and a: "(a, n) \<in> Used bs" and c: "c mod 8 = 0" "n < c" "c < 4294967296" and safe: "\<not> over_links (of_nat a) (of_nat c) s"
  obtains (grown) s' bs' m where "try_expand_chunk (of_nat a) (of_nat c) s = Some (True, s')" "c \<le> m" "resized s bs a n m s' bs'" "same_arena s s'"
    | (kept) "try_expand_chunk (of_nat a) (of_nat c) s = Some (False, s)"
proof -
  have am: "(a, n, True) \<in> set bs" using a by simp
  obtain us vs where bs: "bs = us @ (a, n, True) # vs" using block_at [OF am] by blast
  note c0 = hinvD(1) [OF h] and b = core_block [OF hinvD(1) [OF h] am]
  obtain r where hd: "wd s (a + 4) = head_word (of_nat n) True r" and cv: "blocks_at (wd s) True (a + n) vs (unat (topChunk s)) True"
    by (rule hinv_split [OF h [unfolded bs]])
  show ?thesis
  proof (cases vs)
    case Nil
    have h': "hinv s (us @ [(a, n, True)])" using h by (simp add: bs Nil)
    note tp = top_place [OF h'] and th = top_header [OF c0, unfolded top_place(2) [OF h']] and ct = core_top [OF c0]
    define ts where "ts = unat (topChunkSize s)"
    have tsz: "GETCHUNKSIZE (of_nat (a + n)) s = of_nat ts" unfolding th(2) ts_def by simp
    show ?thesis
    proof (cases "c \<le> n + ts")
      case True
      from expand_top [OF h' ts_def c True] grown show ?thesis unfolding bs Nil by metis
    next
      case False
      then have "ts < c - n" "ts < 4294967296" using ct(5) by (simp_all add: ts_def)
      then show ?thesis using kept try_expand_eq [OF b(1) hd b(4) c(2,3) th(1) tsz] by simp
    qed
  next
    case (Cons v vs')
    obtain y k u where v: "v = (y, k, u)" by (cases v)
    have y: "y = a + n" using cv by (simp add: Cons v)
    have vm: "(a + n, k, u) \<in> set bs" by (simp add: bs Cons v y)
    note bk = core_block [OF c0 vm]
    show ?thesis
    proof (cases u)
      case True
      have "wd s (a + n + 4) = head_word (of_nat k) True True" using cv by (simp add: Cons v True)
      from header_facts(2) [OF bk(1) this bk(4,6)] have "IS_INUSE (of_nat (a + n)) s" by simp
      then have "try_expand_chunk (of_nat a) (of_nat c) s = Some (False, s)"
        unfolding try_expand_chunk_def Let_def header_facts(4) [OF b(1) hd b(4,6)] by simp
      then show ?thesis by (rule kept)
    next
      case False
      then have bs': "bs = us @ (a, n, True) # (a + n, k, False) # vs'" by (simp add: bs Cons v y)
      have "(a + n, k, False) \<in> set bs" by (simp add: bs')
      note fk = core_free [OF c0 this]
      show ?thesis
      proof (cases "c \<le> n + k")
        case True
        from expand_free [OF h [unfolded bs'] c True safe] grown show ?thesis unfolding bs' by metis
      next
        case False
        then have "k < c - n" by simp
        then show ?thesis using kept try_expand_eq [OF b(1) hd b(4) c(2,3) fk(3,2) bk(6)] by simp
      qed
    qed
  qed
qed

section \<open>Shrinking\<close>

lemma not_victim:
  assumes h: "hinv s bs" and a: "(a, n, True) \<in> set bs" and x: "a < x" "x < a + n"
  shows "(of_nat x :: addr) \<noteq> dVictim s"
proof
  assume eq: "of_nat x = dVictim s"
  note b = core_block [OF hinvD(1) [OF h] a]
  have u: "unat (of_nat x :: addr) = x" using b(2) x by (simp add: okaddr_def unat_of_nat)
  then have "dVictim s \<noteq> NULL" using x(1) unfolding eq [symmetric] by auto
  then have "(x, unat (dVictimSize s)) \<in> dv_set s" using u eq by (simp add: dv_set_def)
  then have m: "(x, unat (dVictimSize s), False) \<in> set bs" using hinvD(2) [OF h] by auto
  from chain_disjoint [OF coreD(3) [OF hinvD(1) [OF h]] a m] x core_block(3) [OF hinvD(1) [OF h] m] show False by auto
qed

lemma same_flag:
  assumes "w = head_word (of_nat n) True r'" "w = head_word (of_nat n) True r" "n mod 8 = 0"
  shows "r' = r"
proof -
  have "bit (head_word (of_nat n) True r') 0 \<longleftrightarrow> bit (head_word (of_nat n) True r) 0" using assms(1,2) by simp
  moreover have "\<not> bit (of_nat n :: u32) 0" using assms(3) by (simp add: bit_0 mod_eq_0_iff_dvd) presburger
  ultimately show ?thesis by (simp add: head_word_bits)
qed

lemma shrink_free:
  assumes h: "hinv s (us @ (a, n, True) # (a + n, k, False) # vs)" and c: "c mod 8 = 0" "16 \<le> c" "c < n"
    and hd: "wd s (a + 4) = head_word (of_nat n) True r"
  obtains s' bs' where "merge_free_chunks cb (of_nat (a + c)) (of_nat (n - c)) (of_nat (a + n)) (set_header (of_nat a) (head_word (of_nat c) True r) s) = Some s'"
    "resized s (us @ (a, n, True) # (a + n, k, False) # vs) a n c s' bs'" "same_arena s s'"
proof -
  let ?bs = "us @ (a, n, True) # (a + n, k, False) # vs" and ?new = "us @ (a, c, True) # (a + c, n + k - c, False) # vs"
  note c0 = hinvD(1) [OF h]
  have mem: "(a, n, True) \<in> set ?bs" "(a + n, k, False) \<in> set ?bs" by simp_all
  note bn = core_block [OF c0 mem(1)] and bk = core_block [OF c0 mem(2)] and fk = core_free [OF c0 mem(2)]
  obtain r' where ch: "blocks_at (wd s) True (unat (heap_start s)) us a r'" and hd': "wd s (a + 4) = head_word (of_nat n) True r'"
    by (rule hinv_split [OF h])
  have "r' = r" by (rule same_flag [OF hd' hd bn(4)])
  note ch = ch [unfolded this]
  have m: "c + 16 \<le> n + k" using c bk(3) by simp
  have "(a + c) mod 8 = 0" using bn(1) c(1) by (simp add: okaddr_def mod_add_eq [symmetric])
  then have okc: "okaddr (a + c)" using bn(1,2) c by (simp add: okaddr_def)
  note bm = border_write_moved [OF bn(1) okc bk(2), of s r]
  define s1 where "s1 = set_header (of_nat a) (head_word (of_nat c) True r) s"
  have "wd s1 (a + n + 4) = head_word (of_nat k) False True" using bn(1,3) fk(1) by (simp add: s1_def)
  note f1 = header_facts [OF bk(1) this bk(4,6)]
  have sums: "(of_nat (n - c) :: u32) + of_nat k = of_nat (n + k - c)" "of_nat (a + c) + (of_nat (n + k - c) :: u32) = of_nat (a + n + k)"
  proof -
    have "n - c + k = n + k - c" "a + c + (n + k - c) = a + n + k" using c(3) by simp_all
    then show "(of_nat (n - c) :: u32) + of_nat k = of_nat (n + k - c)" "of_nat (a + c) + (of_nat (n + k - c) :: u32) = of_nat (a + n + k)"
      by (metis of_nat_add)+
  qed
  note nt = not_top [OF c0 mem(2)]
  have run: "merge_free_chunks cb (of_nat (a + c)) (of_nat (n - c)) (of_nat (a + n)) s1 =
     (let s2 = border_write a n k c r s
      in if of_nat (a + n) = dVictim s then Some (s2\<lparr>dVictim := of_nat (a + c), dVictimSize := of_nat (n + k - c)\<rparr>)
         else Option.bind (unbin_chunk (of_nat (a + n)) s2)
           (\<lambda>s. if of_nat (a + c) = dVictim s then Some (s\<lparr>dVictim := of_nat (a + c), dVictimSize := of_nat (n + k - c)\<rparr>)
                else bin_chunk (of_nat (a + c)) s))"
    unfolding merge_free_chunks_def Let_def f1(1) sums CHUNKOFFSET_def unfolding s1_def border_write_def [symmetric]
    using f1(2) nt by (simp add: s1_def del: of_nat_add of_nat_diff)
  show ?thesis
  proof (cases "dVictim s = of_nat (a + n)")
    case True
    define s' where "s' = (border_write a n k c r s)\<lparr>dVictim := of_nat (a + c), dVictimSize := of_nat (n + k - c)\<rparr>"
    note b = border_victim [OF h True ch c(2) m c(1) bm s'_def]
    have "merge_free_chunks cb (of_nat (a + c)) (of_nat (n - c)) (of_nat (a + n)) s1 = Some s'"
      unfolding run Let_def s'_def using True by simp
    moreover have "resized s ?bs a n c s' ?new" by (rule resizedI [OF h b(1)]) (use b(2) in simp_all)
    ultimately show ?thesis using that b(3) unfolding s1_def by blast
  next
    case False
    obtain s3 s' where s3: "unbin_chunk (of_nat (a + n)) (border_write a n k c r s) = Some s3" "of_nat (a + c) \<noteq> dVictim s3"
      "hinv s' ?new" "keeps (insert (a, min n c) (Used us \<union> Used vs)) s s'" "same_arena s s'" "bin_chunk (of_nat (a + c)) s3 = Some s'"
      by (rule border_binned [OF h False ch c(2) m c(1) _ bm]) (use c(3) in blast)+
    have "merge_free_chunks cb (of_nat (a + c)) (of_nat (n - c)) (of_nat (a + n)) s1 = Some s'"
      unfolding run Let_def if_not_P [OF False [symmetric]] s3(1) Option.bind.bind_lunit if_not_P [OF s3(2)] by (rule s3(6))
    moreover have "resized s ?bs a n c s' ?new"
      by (rule resizedI [OF h s3(3)]) (use s3(4) in simp_all)
    ultimately show ?thesis using that s3(5) unfolding s1_def by blast
  qed
qed

lemma shrink_used:
  assumes h: "hinv s (us @ (a, n, True) # (a + n, j, True) # vs)" and c: "c mod 8 = 0" "16 \<le> c" "c + 16 \<le> n"
    and hd: "wd s (a + 4) = head_word (of_nat n) True r"
  obtains s' bs' where "merge_free_chunks cb (of_nat (a + c)) (of_nat (n - c)) (of_nat (a + n)) (set_header (of_nat a) (head_word (of_nat c) True r) s) = Some s'"
    "resized s (us @ (a, n, True) # (a + n, j, True) # vs) a n c s' bs'" "same_arena s s'"
proof -
  let ?vs = "(a + n, j, True) # vs"
  let ?bs = "us @ (a, n, True) # ?vs" and ?new = "us @ (a, c, True) # (a + c, n - c, False) # ?vs"
  note c0 = hinvD(1) [OF h]
  have mem: "(a, n, True) \<in> set ?bs" "(a + n, j, True) \<in> set ?bs" by simp_all
  note bn = core_block [OF c0 mem(1)] and bj = core_block [OF c0 mem(2)]
  have cb: "core s (us @ [(a, n, True)] @ ?vs) (Free ?bs - dv_set s)" using c0 by simp
  obtain y r1 e q where "blocks_at (wd s) True (unat (heap_start s)) us y r1" "blocks_at (wd s) r1 y [(a, n, True)] e q"
    "blocks_at (wd s) q e ?vs (unat (topChunk s)) True"
    by (rule core_split_at [OF cb])
  then have ch: "blocks_at (wd s) True (unat (heap_start s)) us a r1" and hd1: "wd s (a + 4) = head_word (of_nat n) True r1"
    and cv: "blocks_at (wd s) True (a + n) ?vs (unat (topChunk s)) True" by auto
  have "r1 = r" by (rule same_flag [OF hd1 hd bn(4)])
  note ch = ch [unfolded this]
  have hj: "wd s (a + n + 4) = head_word (of_nat j) True True" using cv by simp
  have cs: "chunk_size (of_nat j)" using bj(4,6) by (simp add: chunk_size_iff unat_of_nat)
  have nc: "(n - c) mod 8 = 0" using bn(4) c by (simp add: mod_eq_0_iff_dvd)
  have "(a + c) mod 8 = 0" using bn(1) c(1) by (simp add: okaddr_def mod_add_eq [symmetric])
  then have okc: "okaddr (a + c)" using bn(1,2) c by (simp add: okaddr_def)
  define s1 where "s1 = set_header (of_nat a) (head_word (of_nat c) True r) s"
  define s2 where "s2 = set_prev_foot (of_nat (a + n)) (of_nat (n - c)) (set_header (of_nat (a + c)) (of_nat (n - c) OR PINUSE) s1)"
  define s3 where "s3 = set_header (of_nat (a + n)) (head_word (of_nat j) True False) s2"
  have w1: "wd s1 = (wd s)(a + 4 := head_word (of_nat c) True r)" using bn(1) by (simp add: s1_def)
  have w2: "wd s2 = (wd s)(a + 4 := head_word (of_nat c) True r, a + c + 4 := head_word (of_nat (n - c)) False True, a + n := of_nat (n - c))"
    unfolding s2_def using okc bn(2) by (simp add: w1 head_word_intros del: of_nat_add of_nat_diff)
  have w3: "wd s3 = (wd s)(a + 4 := head_word (of_nat c) True r, a + c + 4 := head_word (of_nat (n - c)) False True, a + n := of_nat (n - c),
      a + n + 4 := head_word (of_nat j) True False)"
    unfolding s3_def using bn(2) by (simp add: w2 del: of_nat_add of_nat_diff)
  have om: "only_mem s s3" by (simp add: s3_def s2_def s1_def)
  have use: "IS_INUSE (of_nat (a + n)) s1"
  proof -
    have "wd s1 (a + n + 4) = head_word (of_nat j) True True" using hj bn(3) by (simp add: w1)
    from header_facts(2) [OF bn(2) this bj(4,6)] show ?thesis by simp
  qed
  have flag: "header (of_nat (a + n)) s2 AND NOT PINUSE = head_word (of_nat j) True False"
    using hj c head_word_simps(6) [OF cs] bn(2) by (simp add: w2 del: of_nat_add)
  have ne: "a + c + 4 \<noteq> a + n" "a + 4 \<noteq> a + n" using c by simp_all
  have new: "blocks_at (wd s3) r a [(a, c, True), (a + c, n - c, False)] (a + n) False"
    using c nc ne by (simp add: w3)
  have new2: "blocks_at (wd s3) False (a + n) ?vs (unat (topChunk s)) True"
    by (rule chain_relabel [OF cv refl]) (use c in \<open>auto simp: w3\<close>)
  have words: "wd s3 b = wd s b" if "b < a + 4 \<or> a + n + 4 < b" for b using that c by (auto simp: w3)
  have B: "Free ?bs - dv_set s \<subseteq> Free us \<union> Free ?vs" by auto
  note rp = replace_blocks [OF cb B ch cv new new2 words _ om]
  have c3: "core s3 ((us @ [(a, c, True)]) @ (a + c, n - c, False) # ?vs) (Free ?bs - dv_set s)" using rp(1) by simp
  note dd = only_mem_dv [OF om]
  have ac: "a < a + c" "a + c < a + n" using c by simp_all
  have nv: "of_nat (a + c) \<noteq> dVictim s3" using not_victim [OF h mem(1) ac] dd by simp
  have dr: "dv_ready s3 (a + c) (Free (us @ [(a, c, True)]) \<union> Free ?vs) (Free ?bs - dv_set s)"
    using nv dd hinvD(2,3) [OF h] by (auto simp: dv_ready_def)
  obtain s' where b3: "(if of_nat (a + c) = dVictim s3 then Some (s3\<lparr>dVictim := of_nat (a + c), dVictimSize := of_nat (n - c)\<rparr>)
      else bin_chunk (of_nat (a + c)) s3) = Some s'"
    and f: "hinv s' ((us @ [(a, c, True)]) @ (a + c, n - c, False) # ?vs)"
      "keeps (Used (us @ [(a, c, True)]) \<union> Used ?vs) s3 s'" "same_arena s3 s'"
    by (rule finish_free [OF c3 dr])
  have "merge_free_chunks cb (of_nat (a + c)) (of_nat (n - c)) (of_nat (a + n)) s1 = Some s'"
    unfolding merge_free_chunks_def Let_def s2_def [symmetric] flag s3_def [symmetric] using use b3 by simp
  moreover have "resized s ?bs a n c s' ?new"
  proof (rule resizedI [OF h])
    show "hinv s' ?new" using f(1) by simp
    have mn: "min n c = c" using c by simp
    have "keeps {(a, c)} s s3" using c by (auto simp: w3 keeps_def payload_def)
    moreover have "keeps (Used us \<union> Used ?vs) s s3" using rp(2) by simp
    ultimately have "keeps (insert (a, c) (Used us \<union> Used ?vs)) s s3" using keeps_insert by blast
    moreover have "keeps (insert (a, c) (Used us \<union> Used ?vs)) s3 s'" using f(2) by (simp add: insert_commute)
    ultimately show "keeps (insert (a, min n c) (Used us \<union> Used ?vs)) s s'" unfolding mn by (rule keeps_trans)
  qed simp
  ultimately show ?thesis using that same_arena_trans [OF same_env_arena [OF same_env_only_mem [OF om]] f(3)] unfolding s1_def by blast
qed

context heap_provider
begin

lemma shrink_top_border:
  assumes h: "hinv s (us @ [(a, n, True)])" and av: "avail s" and c: "c mod 8 = 0" "16 \<le> c" "c < n" "n mod 8 = 0"
    and hd: "wd s (a + 4) = head_word (of_nat n) True r"
  obtains s' bs' where "merge_free_chunks cb (of_nat (a + c)) (of_nat (n - c)) (of_nat (a + n)) (set_header (of_nat a) (head_word (of_nat c) True r) s) = Some s'"
    "resized s (us @ [(a, n, True)]) a n c s' bs'" "avail s'"
proof -
  note c0 = hinvD(1) [OF h] and tp = top_place [OF h]
  have mem: "(a, n, True) \<in> set (us @ [(a, n, True)])" by simp
  note b = core_block [OF c0 this]
  obtain r1 where ch: "blocks_at (wd s) True (unat (heap_start s)) us a r1" and hd1: "wd s (a + 4) = head_word (of_nat n) True r1"
    by (rule hinv_split [OF h])
  have "r1 = r" by (rule same_flag [OF hd1 hd b(4)])
  note ch = ch [unfolded this]
  define ts where "ts = unat (topChunkSize s)"
  note t = top_okD [OF coreD(2) [OF c0], unfolded tp(1), folded ts_def]
    and ct = core_top [OF c0, unfolded tp(1), folded ts_def] and th = top_header [OF c0, unfolded tp(2)]
  have tsz: "GETCHUNKSIZE (of_nat (a + n)) s = of_nat ts" unfolding th(2) ts_def by simp
  have "(a + c) mod 8 = 0" using b(1) c(1) by (simp add: okaddr_def mod_add_eq [symmetric])
  then have okc: "okaddr (a + c)" using b(1,2) c by (simp add: okaddr_def)
  have m: "c + 8 \<le> n + ts" using c by presburger
  define s1 where "s1 = set_header (of_nat a) (head_word (of_nat c) True r) s"
  have hn: "header (of_nat (a + n)) s1 = header (of_nat (a + n)) s"
    using b(1-3) by (simp add: s1_def del: of_nat_add)
  have nx: "\<not> IS_INUSE (of_nat (a + n)) s1" "GETCHUNKSIZE (of_nat (a + n)) s1 = of_nat ts"
    using th(1) tsz unfolding IS_INUSE_def GETCHUNKSIZE_def hn by simp_all
  have sums: "(of_nat (n - c) :: u32) + of_nat ts = of_nat (n + ts - c)" "of_nat (a + c) + (of_nat (n + ts - c) :: u32) = of_nat (a + n + ts)"
  proof -
    have "n - c + ts = n + ts - c" "a + c + (n + ts - c) = a + n + ts" using c(3) by simp_all
    then show "(of_nat (n - c) :: u32) + of_nat ts = of_nat (n + ts - c)" "of_nat (a + c) + (of_nat (n + ts - c) :: u32) = of_nat (a + n + ts)"
      by (metis of_nat_add)+
  qed
  define s2 where "s2 = (border_write a n ts c r s)\<lparr>topChunk := of_nat (a + c), topChunkSize := of_nat (n + ts - c)\<rparr>"
  have bm: "border_moved s a n ts c r (border_write a n ts c r s)" by (rule border_write_moved [OF b(1) okc ct(2)])
  have w2: "wd s2 = (wd s)(a + 4 := head_word (of_nat c) True r, a + c + 4 := head_word (of_nat (n + ts - c)) False True, a + n + ts := of_nat (n + ts - c))"
    using bm by (simp add: s2_def border_moved_def)
  have rest: "(n + ts - c) mod 8 = 0" "n + ts - c < 4294967296"
  proof -
    show "(n + ts - c) mod 8 = 0" using c(1,3,4) t(2) by (simp add: mod_eq_0_iff_dvd)
    have "n + ts < 4294967296" using ct(2) by (simp add: okaddr_def)
    then show "n + ts - c < 4294967296" by linarith
  qed
  have nx2: "NEXTCHUNK (of_nat (a + c)) s2 = of_nat (a + n + ts)"
  proof -
    have e: "a + c + (n + ts - c) = a + n + ts" using c(3) by simp
    have "wd s2 (a + c + 4) = head_word (of_nat (n + ts - c)) False True" using m by (simp add: w2)
    from header_facts(4) [OF okc this rest] show ?thesis unfolding e .
  qed
  define s4 where "s4 = set_prev_foot (of_nat (a + n + ts)) (of_nat (n + ts - c)) s2"
  have ac: "a < a + c" "a + c < a + n" using c by simp_all
  note nv = not_victim [OF h mem ac]
  have run: "merge_free_chunks cb (of_nat (a + c)) (of_nat (n - c)) (of_nat (a + n)) s1 = shrink_top cb s4"
    unfolding merge_free_chunks_def Let_def nx(2) sums CHUNKOFFSET_def unfolding s1_def border_write_def [symmetric]
    using nx(1) nv nx2 tp(2) by (simp add: s1_def s2_def s4_def del: of_nat_add of_nat_diff)
  have w4: "wd s4 = wd (border_write a n ts c r s)"
  proof -
    have "wd s4 = wd s2" unfolding s4_def using ct(2) by (simp add: w2 del: of_nat_add of_nat_diff)
    then show ?thesis by (simp add: s2_def)
  qed
  have e4: "s4\<lparr>hmem := hmem s\<rparr> = s\<lparr>topChunk := of_nat (a + c), topChunkSize := of_nat (n + ts - c)\<rparr>"
    by (simp add: s4_def s2_def border_write_def wr_def)
  note bt = border_top [OF h ts_def ch c(2) m c(1) w4 e4]
  obtain s' where s': "shrink_top cb s4 = Some s'" "hinv s' (us @ [(a, c, True)])" "keeps (Used (us @ [(a, c, True)])) s4 s'" "avail s'"
    by (rule shrink_top_ok [OF bt(1) avail_cong [OF av bt(3)]])
  have "resized s (us @ [(a, n, True)]) a n c s' (us @ [(a, c, True)])"
  proof (rule resizedI [OF h s'(2)])
    have "min n c = c" using c by simp
    then show "keeps (insert (a, min n c) (Used us \<union> Used [])) s s'" using keeps_trans [OF bt(2)] s'(3) by simp
  qed simp
  then show ?thesis using that run s'(1,4) unfolding s1_def by simp
qed

text \<open>The tail of a block in use is given back, unless it is too small and a block in use follows.\<close>

lemma shrink_ok:
  assumes h: "hinv s bs" and av: "avail s" and a: "(a, n) \<in> Used bs" and c: "c mod 8 = 0" "16 \<le> c" "c < n"
    and hd: "wd s (a + 4) = head_word (of_nat n) True r" and room: "IS_INUSE (of_nat (a + n)) s \<Longrightarrow> c + 16 \<le> n"
  obtains s' bs' where "merge_free_chunks cb (of_nat (a + c)) (of_nat (n - c)) (of_nat (a + n)) (set_header (of_nat a) (head_word (of_nat c) True r) s) = Some s'"
    "resized s bs a n c s' bs'" "avail s'"
proof -
  have am: "(a, n, True) \<in> set bs" using a by simp
  obtain us vs where bs: "bs = us @ (a, n, True) # vs" using block_at [OF am] by blast
  note h' = h [unfolded bs] and b = core_block [OF hinvD(1) [OF h] am]
  have cv: "blocks_at (wd s) True (a + n) vs (unat (topChunk s)) True" by (rule hinv_split [OF h'])
  show ?thesis
  proof (cases vs)
    case Nil
    show ?thesis using shrink_top_border [OF h' [unfolded Nil] av c b(4) hd] that unfolding bs Nil by metis
  next
    case (Cons v vs')
    obtain y j u where v: "v = (y, j, u)" by (cases v)
    have y: "y = a + n" using cv by (simp add: Cons v)
    show ?thesis
    proof (cases u)
      case True
      then have bs': "bs = us @ (a, n, True) # (a + n, j, True) # vs'" by (simp add: bs Cons v y)
      have "(a + n, j, True) \<in> set bs" by (simp add: bs')
      note bj = core_block [OF hinvD(1) [OF h] this]
      have "wd s (a + n + 4) = head_word (of_nat j) True True" using cv by (simp add: Cons v True)
      from header_facts(2) [OF bj(1) this bj(4,6)] have "c + 16 \<le> n" using room by simp
      then obtain s' bs2 where "merge_free_chunks cb (of_nat (a + c)) (of_nat (n - c)) (of_nat (a + n)) (set_header (of_nat a) (head_word (of_nat c) True r) s) = Some s'"
        "resized s (us @ (a, n, True) # (a + n, j, True) # vs') a n c s' bs2" "same_arena s s'"
        by (rule shrink_used [OF h [unfolded bs'] c(1,2) _ hd])
      then show ?thesis using that avail_cong [OF av] unfolding bs' by blast
    next
      case False
      then have bs': "bs = us @ (a, n, True) # (a + n, j, False) # vs'" by (simp add: bs Cons v y)
      obtain s' bs2 where "merge_free_chunks cb (of_nat (a + c)) (of_nat (n - c)) (of_nat (a + n)) (set_header (of_nat a) (head_word (of_nat c) True r) s) = Some s'"
        "resized s (us @ (a, n, True) # (a + n, j, False) # vs') a n c s' bs2" "same_arena s s'"
        by (rule shrink_free [OF h [unfolded bs'] c hd])
      then show ?thesis using that avail_cong [OF av] unfolding bs' by blast
    qed
  qed
qed

end

end
