(* ===== verification/KPaging.thy ===== *)
theory KPaging
  imports KPrelude
begin

text \<open>
  Paging and the free frames: src/system/kernel/memory.c.

  \<open>pt s d e\<close> is entry \<open>e\<close> of \<open>kernel_page_tables[d]\<close>. The last entry of the page directory maps the
  directory itself, so the directory is the last of these tables (\<open>KERNEL_PDE_ADDR\<close> is the address
  of \<open>kernel_page_tables[1023]\<close>): \<open>pde s d\<close> is \<open>pt s 1023 d\<close>. \<open>pstack_mem\<close> holds the words of the
  stack of free frames at their virtual addresses. TLB and CR3 operations have no state here.

  A function that returns an error code returns it as a \<open>nat\<close> (0 is success) with the new state.
\<close>

section \<open>Constants\<close>

definition PAGE_SIZE :: u32 where "PAGE_SIZE = 4096"
definition KERNEL_INITIAL_HEAP_SIZE :: u32 where "KERNEL_INITIAL_HEAP_SIZE = 8192"
definition KERNEL_HEAP_LIMIT :: u32 where "KERNEL_HEAP_LIMIT = 0xFF800000"
definition KERNEL_PSTACK_TOP :: u32 where "KERNEL_PSTACK_TOP = 0xFFC00000"
definition KERNEL_PSTACK_BOTTOM :: u32 where "KERNEL_PSTACK_BOTTOM = 0xFF800000"
definition PTABLE_FLAG_PRESENT :: u32 where "PTABLE_FLAG_PRESENT = 0x001"
definition PTABLE_FLAG_WRITE :: u32 where "PTABLE_FLAG_WRITE = 0x002"
definition PTABLE_FLAG_USERMODE :: u32 where "PTABLE_FLAG_USERMODE = 0x004"
definition PTABLE_FLAG_LARGEPAGE :: u32 where "PTABLE_FLAG_LARGEPAGE = 0x080"
definition PTABLE_FLAGS_MASK :: u32 where "PTABLE_FLAGS_MASK = 0xFFF"
definition PTABLE_DIR_MASK :: u32 where "PTABLE_DIR_MASK = 0xFFC00000"
definition PTABLE_CR3_MASK :: u32 where "PTABLE_CR3_MASK = 0xFFFFF000"
definition MMAP_TYPE_FREE :: u32 where "MMAP_TYPE_FREE = 1"

definition PAGE_ALIGN :: "u32 \<Rightarrow> u32" where
  "PAGE_ALIGN vaddr = (vaddr + (PAGE_SIZE - 1)) AND NOT (PAGE_SIZE - 1)"

definition PAGE_FLOOR :: "u32 \<Rightarrow> u32" where
  "PAGE_FLOOR vaddr = vaddr AND NOT (PAGE_SIZE - 1)"

definition PDE_NUM :: "u32 \<Rightarrow> nat" where "PDE_NUM a = unat (drop_bit 22 a)"
definition PTE_NUM :: "u32 \<Rightarrow> nat" where "PTE_NUM a = unat (drop_bit 12 (a AND NOT PTABLE_DIR_MASK))"

section \<open>State and page tables\<close>

record paging =
  pt :: "nat \<Rightarrow> nat \<Rightarrow> u32"
  pstack_pointer :: u32
  pstack_mem :: "u32 \<Rightarrow> u32"
  kernel_heap_addr :: u32
  kernel_heap_size :: u32
  page_directory :: u32

abbreviation pde :: "'a paging_scheme \<Rightarrow> nat \<Rightarrow> u32" where "pde s d \<equiv> pt s 1023 d"

definition set_entry :: "nat \<Rightarrow> nat \<Rightarrow> u32 \<Rightarrow> 'a paging_scheme \<Rightarrow> 'a paging_scheme" where
  "set_entry d e v s = s\<lparr>pt := (pt s)(d := (pt s d)(e := v))\<rparr>"

definition set_page :: "u32 \<Rightarrow> u32 \<Rightarrow> u32 \<Rightarrow> 'a paging_scheme \<Rightarrow> nat \<times> 'a paging_scheme" where
  "set_page vaddr frame flags s =
     (let table = PDE_NUM vaddr in
      if pde s table AND PTABLE_FLAG_PRESENT = 0 \<or> pde s table AND PTABLE_FLAG_LARGEPAGE \<noteq> 0 then (1, s)
      else
        let page = PTE_NUM vaddr;
            flags = flags AND PTABLE_FLAGS_MASK;
            frame = frame AND NOT PTABLE_FLAGS_MASK
        in (0, set_entry table page (frame OR flags) s))"

text \<open>\<open>get_page\<close> returns the code, the frame and the flags; the latter two are unset (0) on failure.\<close>

definition get_page :: "u32 \<Rightarrow> 'a paging_scheme \<Rightarrow> nat \<times> u32 \<times> u32" where
  "get_page vaddr s =
     (let table = PDE_NUM vaddr in
      if pde s table AND PTABLE_FLAG_PRESENT = 0 \<or> pde s table AND PTABLE_FLAG_LARGEPAGE \<noteq> 0 then (1, 0, 0)
      else
        let page = PTE_NUM vaddr
        in (0, pt s table page AND NOT PTABLE_FLAGS_MASK, pt s table page AND PTABLE_FLAGS_MASK))"

text \<open>
  \<open>set_page_table\<close> with \<open>clear\<close> set, as every caller does: the entries of the new table are those of
  the frame it lies in, all of them cleared.
\<close>

definition set_page_table :: "u32 \<Rightarrow> u32 \<Rightarrow> u32 \<Rightarrow> 'a paging_scheme \<Rightarrow> 'a paging_scheme" where
  "set_page_table vsaddr table flags s =
     (let vclick = PDE_NUM vsaddr;
          flags = flags AND PTABLE_FLAGS_MASK;
          table = table AND NOT PTABLE_FLAGS_MASK;
          s = set_entry 1023 vclick (table OR flags) s
      in s\<lparr>pt := (pt s)(vclick := (\<lambda>i. if i < 1024 then 0 else pt s vclick i))\<rparr>)"

definition set_page_directory :: "u32 \<Rightarrow> 'a paging_scheme \<Rightarrow> 'a paging_scheme" where
  "set_page_directory directory s = s\<lparr>page_directory := directory AND NOT PTABLE_CR3_MASK\<rparr>"

definition page_is_mapped :: "u32 \<Rightarrow> 'a paging_scheme \<Rightarrow> bool" where
  "page_is_mapped vaddr s =
     (let d = PDE_NUM vaddr in
      if pde s d AND PTABLE_FLAG_PRESENT = 0 then False
      else if pde s d AND PTABLE_FLAG_LARGEPAGE \<noteq> 0 then True
      else pt s d (PTE_NUM vaddr) AND PTABLE_FLAG_PRESENT \<noteq> 0)"

definition ptable_is_set :: "u32 \<Rightarrow> 'a paging_scheme \<Rightarrow> bool" where
  "ptable_is_set vaddr s =
     (let d = PDE_NUM vaddr in
      if pde s d AND PTABLE_FLAG_LARGEPAGE \<noteq> 0 then False
      else pde s d AND PTABLE_FLAG_PRESENT \<noteq> 0)"

section \<open>The stack of free frames\<close>

definition pstack_push :: "u32 \<Rightarrow> 'a paging_scheme \<Rightarrow> nat \<times> 'a paging_scheme" where
  "pstack_push frame s =
     (if pstack_pointer s = KERNEL_PSTACK_BOTTOM then (1, s)
      else if pstack_pointer s AND 0xFFF = 0 \<and> \<not> page_is_mapped (pstack_pointer s - 1) s
        then set_page (pstack_pointer s - 1) frame (PTABLE_FLAG_PRESENT OR PTABLE_FLAG_WRITE) s
      else
        let s = s\<lparr>pstack_pointer := pstack_pointer s - 4\<rparr>
        in (0, s\<lparr>pstack_mem := (pstack_mem s)(pstack_pointer s := frame)\<rparr>))"

text \<open>\<open>pstack_pop\<close> returns the code, the frame (0 when there is none) and the new state.\<close>

definition pstack_pop :: "'a paging_scheme \<Rightarrow> nat \<times> u32 \<times> 'a paging_scheme" where
  "pstack_pop s =
     (if pstack_pointer s AND 0xFFF = 0 \<and> page_is_mapped (pstack_pointer s - 1) s then
        (case get_page (pstack_pointer s - 1) s of
          (r1, frame, flags) \<Rightarrow>
            (case set_page (pstack_pointer s - 1) 0 0 s of
              (r2, s) \<Rightarrow> (or r1 r2, frame, s)))
      else if KERNEL_PSTACK_TOP \<le> pstack_pointer s then (1, 0, s)
      else (0, pstack_mem s (pstack_pointer s), s\<lparr>pstack_pointer := pstack_pointer s + 4\<rparr>))"

section \<open>Pages\<close>

definition page_flags :: "bool \<Rightarrow> bool \<Rightarrow> u32" where
  "page_flags usermode writable =
     (let flags = PTABLE_FLAG_PRESENT;
          flags = (if usermode then flags OR PTABLE_FLAG_USERMODE else flags)
      in if writable then flags OR PTABLE_FLAG_WRITE else flags)"

definition memory_allocate_page :: "u32 \<Rightarrow> bool \<Rightarrow> bool \<Rightarrow> 'a paging_scheme \<Rightarrow> nat \<times> 'a paging_scheme" where
  "memory_allocate_page vaddr usermode writable s =
     (if page_is_mapped vaddr s then (1, s)
      else case pstack_pop s of
        (r, frame, s) \<Rightarrow>
          if r \<noteq> 0 then (1, s)
          else
            let flags = page_flags usermode writable in
            if \<not> ptable_is_set vaddr s then
              (case pstack_pop s of
                (r, ptable, s) \<Rightarrow>
                  if r \<noteq> 0 then (1, snd (pstack_push frame s))
                  else
                    let s = set_page_table vaddr ptable (PTABLE_FLAG_PRESENT OR PTABLE_FLAG_WRITE) s
                    in (0, snd (set_page vaddr frame flags s)))
            else (0, snd (set_page vaddr frame flags s)))"

definition memory_free_page :: "u32 \<Rightarrow> 'a paging_scheme \<Rightarrow> nat \<times> 'a paging_scheme" where
  "memory_free_page vaddr s =
     (if \<not> page_is_mapped vaddr s then (1, s)
      else case get_page vaddr s of
        (r, frame, flags) \<Rightarrow>
          if r \<noteq> 0 then (1, s)
          else case set_page vaddr 0 0 s of
            (r, s) \<Rightarrow> if r \<noteq> 0 then (1, s) else pstack_push frame s)"

definition memory_map_addr :: "u32 \<Rightarrow> u32 \<Rightarrow> bool \<Rightarrow> bool \<Rightarrow> 'a paging_scheme \<Rightarrow> nat \<times> 'a paging_scheme" where
  "memory_map_addr vaddr frame usermode writable s =
     (if page_is_mapped vaddr s then (1, s)
      else
        let flags = page_flags usermode writable in
        if \<not> ptable_is_set vaddr s then
          (case pstack_pop s of
            (r, ptable, s) \<Rightarrow>
              if r \<noteq> 0 then (1, s)
              else
                let s = set_page_table vaddr ptable (PTABLE_FLAG_PRESENT OR PTABLE_FLAG_WRITE) s
                in (0, snd (set_page vaddr frame flags s)))
        else (0, snd (set_page vaddr frame flags s)))"

definition memory_unmap_addr :: "u32 \<Rightarrow> 'a paging_scheme \<Rightarrow> nat \<times> 'a paging_scheme" where
  "memory_unmap_addr vaddr s =
     (if \<not> page_is_mapped vaddr s then (1, s) else set_page vaddr 0 0 s)"

section \<open>The kernel heap\<close>

text \<open>
  The loops of \<open>heap_callback\<close>. \<open>free_down\<close> frees pages from \<open>page\<close> down to above \<open>stop\<close>;
  \<open>alloc_up\<close> allocates from \<open>page\<close> up to \<open>last_page\<close> and returns the error and the page it stopped at.
\<close>

partial_function (option) free_down :: "u32 \<Rightarrow> u32 \<Rightarrow> 'a paging_scheme \<Rightarrow> 'a paging_scheme option" where
  "free_down page stop s =
     (if stop < page then free_down (page - PAGE_SIZE) stop (snd (memory_free_page page s)) else Some s)"

partial_function (option) alloc_up :: "u32 \<Rightarrow> u32 \<Rightarrow> 'a paging_scheme \<Rightarrow> (nat \<times> u32 \<times> 'a paging_scheme) option" where
  "alloc_up page last_page s =
     (if page \<le> last_page then
        (case memory_allocate_page page False True s of
          (e, s) \<Rightarrow> if e \<noteq> 0 then Some (e, page, s) else alloc_up (page + PAGE_SIZE) last_page s)
      else Some (0, page, s))"

text \<open>The callback returns the pointer 0 on success, -1 on failure. The negation of the least integer is undefined.\<close>

definition heap_callback :: "u32 \<Rightarrow> 'a paging_scheme \<Rightarrow> (addr \<times> 'a paging_scheme) option" where
  "heap_callback difference s =
     (let current_heap_end = kernel_heap_addr s + kernel_heap_size s;
          cur_end_page = PAGE_FLOOR (current_heap_end - 1)
      in if difference = 0 then Some (0, s)
      else if difference = 0x80000000 then None
      else if sint difference < 0 then
        let amount = - difference in
        if current_heap_end < amount then Some (-1, s)
        else if kernel_heap_size s - amount < KERNEL_INITIAL_HEAP_SIZE then Some (-1, s)
        else
          let new_heap_end = current_heap_end - amount;
              new_end_page = PAGE_FLOOR (new_heap_end - 1)
          in map_option (\<lambda>s. (0, s\<lparr>kernel_heap_size := kernel_heap_size s - amount\<rparr>))
               (free_down cur_end_page new_end_page s)
      else
        let amount = difference in
        if KERNEL_HEAP_LIMIT \<le> current_heap_end + amount then Some (-1, s)
        else if current_heap_end + amount < current_heap_end then Some (-1, s)
        else
          let new_heap_end = current_heap_end + amount;
              new_end_page = PAGE_FLOOR (new_heap_end - 1)
          in Option.bind (alloc_up (cur_end_page + PAGE_SIZE) new_end_page s)
               (\<lambda>(alloc_error, page, s).
                  if alloc_error \<noteq> 0 then
                    map_option (Pair (-1)) (free_down (page - PAGE_SIZE) cur_end_page s)
                  else Some (0, s\<lparr>kernel_heap_size := kernel_heap_size s + amount\<rparr>)))"

section \<open>Initialisation\<close>

record mem_entry =
  me_address :: u32
  me_size :: u32
  me_type :: u32

partial_function (option) push_frames :: "u32 \<Rightarrow> u32 \<Rightarrow> 'a paging_scheme \<Rightarrow> 'a paging_scheme option" where
  "push_frames frame end_frame s =
     (if frame < end_frame then push_frames (frame + PAGE_SIZE) end_frame (snd (pstack_push frame s))
      else Some s)"

primrec push_regions :: "mem_entry list \<Rightarrow> 'a paging_scheme \<Rightarrow> 'a paging_scheme option" where
  "push_regions [] s = Some s"
| "push_regions (e # es) s =
     Option.bind
       (if me_type e \<noteq> MMAP_TYPE_FREE then Some s
        else push_frames (PAGE_ALIGN (me_address e)) (PAGE_FLOOR (me_address e + me_size e)) s)
       (push_regions es)"

text \<open>
  \<open>memory_init\<close> maps the initial heap page by page; a failure is a kernel panic (\<open>None\<close>). \<open>mmap\<close> is
  the sanitised memory map of \<open>kinfo\<close>. \<open>libk_init_heap\<close> is called between the two parts of the state
  change; it concerns the allocator's state only.
\<close>

primrec map_heap :: "nat \<Rightarrow> u32 \<Rightarrow> 'a paging_scheme \<Rightarrow> 'a paging_scheme option" where
  "map_heap 0 a s = Some s"
| "map_heap (Suc n) a s =
     (case memory_allocate_page a False True s of
        (e, s) \<Rightarrow> if e \<noteq> 0 then None else map_heap n (a + PAGE_SIZE) s)"

definition memory_init :: "mem_entry list \<Rightarrow> u32 \<Rightarrow> u32 \<Rightarrow> 'a paging_scheme \<Rightarrow> 'a paging_scheme option" where
  "memory_init mmap kernel_start_vir kernel_end_vir s =
     Option.bind (push_regions mmap (s\<lparr>pstack_pointer := KERNEL_PSTACK_TOP\<rparr>)) (\<lambda>s.
       let s = s\<lparr>kernel_heap_addr := kernel_end_vir, kernel_heap_size := KERNEL_INITIAL_HEAP_SIZE\<rparr>
       in map_option
            (\<lambda>s. s\<lparr>pt := (pt s)(1023 := (\<lambda>i. if i < PDE_NUM kernel_start_vir then 0 else pde s i))\<rparr>)
            (map_heap (unat KERNEL_INITIAL_HEAP_SIZE div 4096) (kernel_heap_addr s) s))"

section \<open>Addresses as numbers\<close>

lemma PDE_NUM_div: "PDE_NUM a = unat a div 4194304"
  by (simp add: PDE_NUM_def drop_bit_eq_div unat_div)

lemma unat_take_bit_mod: "unat (take_bit n (a :: u32)) = unat a mod 2 ^ n"
  unfolding unsigned_take_bit_eq by (rule take_bit_eq_mod)

lemma PTE_NUM_div: "PTE_NUM a = unat a div 4096 mod 1024"
proof -
  have "NOT PTABLE_DIR_MASK = mask 22" by (simp add: PTABLE_DIR_MASK_def mask_eq_exp_minus_1)
  then have "a AND NOT PTABLE_DIR_MASK = take_bit 22 a"
    by (simp only: take_bit_eq_mask)
  then have "PTE_NUM a = unat a mod 4194304 div 4096"
    by (simp add: PTE_NUM_def drop_bit_eq_div unat_div unat_take_bit_mod del: take_bit_eq_mod)
  also have "\<dots> = unat a div 4096 mod 1024"
    using mod_mult2_eq [of "unat a" 4096 1024] by simp
  finally show ?thesis .
qed

lemma PDE_NUM_less: "PDE_NUM a < 1024"
  using unat_lt_2p32 [of a] by (simp add: PDE_NUM_div less_mult_imp_div_less)

lemma PTE_NUM_less: "PTE_NUM a < 1024"
  by (simp add: PTE_NUM_div)

lemma mask12: "(0xFFF :: u32) = mask 12" "PAGE_SIZE - 1 = mask 12" "PTABLE_FLAGS_MASK = mask 12"
  by (simp_all add: mask_eq_exp_minus_1 PAGE_SIZE_def PTABLE_FLAGS_MASK_def)

lemma page_aligned_mod: "(a :: u32) AND 0xFFF = 0 \<longleftrightarrow> unat a mod 4096 = 0"
proof -
  have "unat (a AND 0xFFF) = unat a mod 4096"
    using unat_take_bit_mod [of 12 a] by (simp add: mask12 take_bit_eq_mask)
  then show ?thesis by (metis unsigned_0 word_unat_eq_iff)
qed

lemma and_not_mask12: "(a :: u32) AND NOT (mask 12) = push_bit 12 (drop_bit 12 a)"
  by (rule bit_word_eqI) (auto simp: bit_simps)

lemma unat_page_floor: "unat ((a :: u32) AND NOT (mask 12)) = unat a div 4096 * 4096"
proof -
  have "unat a div 4096 * 4096 < 2 ^ 32"
    using unat_lt_2p32 [of a] div_times_less_eq_dividend [of "unat a" 4096] by linarith
  then show ?thesis
    by (simp add: and_not_mask12 push_bit_eq_mult drop_bit_eq_div unat_div unat_word_ariths)
qed

lemma PAGE_FLOOR_unat: "unat (PAGE_FLOOR a) = unat a div 4096 * 4096"
  by (simp add: PAGE_FLOOR_def mask12 unat_page_floor)

lemma aligned_and_not: "(a :: u32) AND 0xFFF = 0 \<Longrightarrow> a AND NOT (mask 12) = a"
proof -
  assume "a AND 0xFFF = 0"
  then have "unat (a AND NOT (mask 12)) = unat a"
    by (simp add: unat_page_floor page_aligned_mod div_mult_mod_eq mod_eq_0_iff_dvd)
  then show ?thesis by (simp add: word_unat_eq_iff)
qed


section \<open>The stack of free frames as a list\<close>

text \<open>
  The stack lies in the 4 MiB below \<open>KERNEL_PSTACK_TOP\<close>. A frame pushed when the stack reaches a new
  page becomes that page; the next 1024 frames are stored in it as words. So of the frames pushed
  number \<open>i\<close> (from 0) is a page of the stack when \<open>1025\<close> divides \<open>i\<close>, else a word. \<open>frames_rep s ys\<close>
  says that the stack holds the frames \<open>ys\<close>, the last one on top. It has room for all \<open>STACK_MAX\<close>
  frames of the 4 GiB address space, so \<open>KERNEL_PSTACK_BOTTOM\<close> is never reached.
\<close>

definition STACK_MAX :: nat where "STACK_MAX = 1048576"

definition stack_pages :: "nat \<Rightarrow> nat" where "stack_pages n = (n + 1024) div 1025"

definition word_addr :: "nat \<Rightarrow> u32" where "word_addr i = of_nat (4290772992 - 4 * (i - i div 1025))"

definition frames_rep :: "'a paging_scheme \<Rightarrow> u32 list \<Rightarrow> bool" where
  "frames_rep s ys \<longleftrightarrow>
     length ys \<le> STACK_MAX
     \<and> pde s 1022 AND PTABLE_FLAG_PRESENT \<noteq> 0 \<and> pde s 1022 AND PTABLE_FLAG_LARGEPAGE = 0
     \<and> unat (pstack_pointer s) = 4290772992 - 4 * (length ys - stack_pages (length ys))
     \<and> (\<forall>i<length ys. if i mod 1025 = 0 then pt s 1022 (1023 - i div 1025) = ys ! i OR 3
          else pstack_mem s (word_addr i) = ys ! i)
     \<and> (\<forall>q<1024. stack_pages (length ys) \<le> q \<longrightarrow> pt s 1022 (1023 - q) AND PTABLE_FLAG_PRESENT = 0)
     \<and> (\<forall>f\<in>set ys. f AND 0xFFF = 0)"

text \<open>With \<open>n = 1025 * a + b\<close>, the pointer is at a page boundary for \<open>b = 0\<close> (the page below is not
  mapped yet) and for \<open>b = 1\<close> (it is).\<close>

lemma stack_split:
  assumes "n = 1025 * a + b" "b < 1025"
  shows "n div 1025 = a" "n mod 1025 = b" "stack_pages n = (if b = 0 then a else a + 1)"
    "n - stack_pages n = (if b = 0 then 1024 * a else 1024 * a + b - 1)"
proof -
  show d: "n div 1025 = a" "n mod 1025 = b" using assms by simp_all
  show p: "stack_pages n = (if b = 0 then a else a + 1)"
  proof (cases "b = 0")
    case True
    have "(1025 * a + 1024) div 1025 = a" by simp
    with True assms show ?thesis by (simp add: stack_pages_def)
  next
    case False
    have "n + 1024 = 1025 * (a + 1) + (b - 1)" using assms False by simp
    moreover have "(1025 * (a + 1) + (b - 1)) div 1025 = a + 1" using assms(2) by simp
    ultimately show ?thesis using False by (simp add: stack_pages_def)
  qed
  then show "n - stack_pages n = (if b = 0 then 1024 * a else 1024 * a + b - 1)" using assms by simp
qed

lemma below_boundary:
  assumes "unat sp = 4290772992 - 4096 * a" "a < 1024"
  shows "PDE_NUM (sp - 1) = 1022" "PTE_NUM (sp - 1) = 1023 - a" "sp AND 0xFFF = 0" "sp \<noteq> KERNEL_PSTACK_BOTTOM"
proof -
  have "1 \<le> unat sp" using assms by simp
  then have "(1 :: u32) \<le> sp" by (simp add: word_le_nat_alt)
  then have u: "unat (sp - 1) = 4290772992 - 4096 * a - 1" using assms by (simp add: unat_sub)
  then have u2: "unat (sp - 1) = 4096 * (1047551 - a) + 4095" using assms by simp
  show "PDE_NUM (sp - 1) = 1022"
  proof -
    have "unat (sp - 1) = 4194304 * 1022 + (4096 * (1023 - a) + 4095)" using u2 assms(2) by simp
    moreover have "4096 * (1023 - a) + 4095 < 4194304" using assms(2) by simp
    ultimately show ?thesis by (simp add: PDE_NUM_div)
  qed
  have "unat (sp - 1) div 4096 = 1047551 - a" using u2 by simp
  also have "\<dots> = 1024 * 1022 + (1023 - a)" using assms(2) by simp
  finally have "unat (sp - 1) div 4096 mod 1024 = (1024 * 1022 + (1023 - a)) mod 1024" by (simp only:)
  also have "\<dots> = 1023 - a" by (simp only: mod_mult_self4) simp
  finally show "PTE_NUM (sp - 1) = 1023 - a" by (simp only: PTE_NUM_div)
  have "unat sp = 4096 * (1047552 - a)" using assms by simp
  then show "sp AND 0xFFF = 0" by (simp add: page_aligned_mod)
  show "sp \<noteq> KERNEL_PSTACK_BOTTOM" using assms by (auto simp: KERNEL_PSTACK_BOTTOM_def)
qed

lemma not_boundary:
  assumes "unat (sp :: u32) = 4290772992 - 4 * (1024 * a + c)" "a < 1024" "0 < c" "c < 1024"
  shows "sp AND 0xFFF \<noteq> 0"
proof -
  have "unat sp = 4096 * (1047551 - a) + (4096 - 4 * c)" using assms by simp
  moreover have "(4096 * (1047551 - a) + (4096 - 4 * c)) mod 4096 = 4096 - 4 * c"
    using assms(3,4) by (simp only: mod_mult_self4) simp
  ultimately show ?thesis using assms(4) by (simp add: page_aligned_mod)
qed

lemma frames_repD:
  assumes "frames_rep s ys"
  shows "length ys \<le> STACK_MAX" "pde s 1022 AND PTABLE_FLAG_PRESENT \<noteq> 0" "pde s 1022 AND PTABLE_FLAG_LARGEPAGE = 0"
    "unat (pstack_pointer s) = 4290772992 - 4 * (length ys - stack_pages (length ys))"
    "i < length ys \<Longrightarrow> i mod 1025 = 0 \<Longrightarrow> pt s 1022 (1023 - i div 1025) = ys ! i OR 3"
    "i < length ys \<Longrightarrow> i mod 1025 \<noteq> 0 \<Longrightarrow> pstack_mem s (word_addr i) = ys ! i"
    "q < 1024 \<Longrightarrow> stack_pages (length ys) \<le> q \<Longrightarrow> pt s 1022 (1023 - q) AND PTABLE_FLAG_PRESENT = 0"
    "f \<in> set ys \<Longrightarrow> f AND 0xFFF = 0"
  using assms unfolding frames_rep_def by (auto split: if_splits)

lemma mapped_below:
  assumes "frames_rep s ys" "unat (pstack_pointer s) = 4290772992 - 4096 * a" "a < 1024"
  shows "page_is_mapped (pstack_pointer s - 1) s \<longleftrightarrow> pt s 1022 (1023 - a) AND PTABLE_FLAG_PRESENT \<noteq> 0"
  using below_boundary [OF assms(2,3)] frames_repD(2,3) [OF assms(1)]
  by (simp add: page_is_mapped_def Let_def)

lemma or3_present: "(f OR 3) AND PTABLE_FLAG_PRESENT \<noteq> 0"
proof
  assume "(f OR 3) AND PTABLE_FLAG_PRESENT = 0"
  then have "bit ((f OR 3) AND PTABLE_FLAG_PRESENT) 0 = bit (0 :: u32) 0" by simp
  then show False by (simp add: bit_simps PTABLE_FLAG_PRESENT_def)
qed

lemma or3_frame: "f AND 0xFFF = 0 \<Longrightarrow> (f OR 3) AND NOT PTABLE_FLAGS_MASK = f"
proof -
  assume f: "f AND 0xFFF = 0"
  have "(3 :: u32) AND NOT (mask 12) = 0" by (simp add: mask_eq_exp_minus_1)
  then show ?thesis using aligned_and_not [OF f] by (simp add: mask12 bit.conj_disj_distrib2)
qed

text \<open>The parts of the state the stack does not own.\<close>

definition same_outside_stack :: "'a paging_scheme \<Rightarrow> 'a paging_scheme \<Rightarrow> bool" where
  "same_outside_stack s s' \<longleftrightarrow> (\<forall>d. d \<noteq> 1022 \<longrightarrow> pt s' d = pt s d)
     \<and> kernel_heap_addr s' = kernel_heap_addr s \<and> kernel_heap_size s' = kernel_heap_size s \<and> paging.more s' = paging.more s"

lemma same_outside_stack_refl [simp]: "same_outside_stack s s"
  by (simp add: same_outside_stack_def)

lemma same_outside_stack_trans:
  "same_outside_stack s s' \<Longrightarrow> same_outside_stack s' s'' \<Longrightarrow> same_outside_stack s s''"
  by (simp add: same_outside_stack_def)

lemma word_addr_unat: "i < STACK_MAX \<Longrightarrow> unat (word_addr i) = 4290772992 - 4 * (i - i div 1025)"
  by (simp add: word_addr_def unat_of_nat)

lemma word_addr_less:
  assumes "i < j" "j < STACK_MAX" "i mod 1025 \<noteq> 0" "j mod 1025 \<noteq> 0"
  shows "word_addr i \<noteq> word_addr j"
proof -
  obtain a b a' b' where ab: "i = 1025 * a + b" "b < 1025" "j = 1025 * a' + b'" "b' < 1025"
    by (metis mod_less_divisor mult.commute mult_div_mod_eq zero_less_numeral)
  with assms(3,4) have nz: "b \<noteq> 0" "b' \<noteq> 0" by auto
  have le: "a \<le> a'" using ab assms(1) by linarith
  have "1024 * a + b < 1024 * a' + b'"
  proof (cases "a = a'")
    case False
    with le have "1024 * a + 1024 \<le> 1024 * a'" by simp
    with ab(2) nz show ?thesis by linarith
  qed (use ab assms(1) in simp)
  moreover have "i - i div 1025 = 1024 * a + b" "j - j div 1025 = 1024 * a' + b'"
    using ab by simp_all
  moreover have "1024 * a' + b' \<le> 1049600" using ab(3) assms(2) by (simp add: STACK_MAX_def)
  ultimately have "unat (word_addr i) \<noteq> unat (word_addr j)"
    using word_addr_unat [of i] word_addr_unat [of j] assms(1,2) by simp
  then show ?thesis by auto
qed

lemma pstack_push_rep:
  assumes r: "frames_rep s ys" and n: "length ys < STACK_MAX" and f: "f AND 0xFFF = 0"
  shows "fst (pstack_push f s) = 0 \<and> frames_rep (snd (pstack_push f s)) (ys @ [f])
    \<and> same_outside_stack s (snd (pstack_push f s))"
proof -
  let ?n = "length ys" and ?sp = "pstack_pointer s"
  obtain a b where ab: "?n = 1025 * a + b" "b < 1025"
    by (metis mod_less_divisor mult.commute mult_div_mod_eq zero_less_numeral)
  have a: "a < 1024" using n ab(1) by (simp add: STACK_MAX_def)
  note sp = frames_repD(4) [OF r] and st = stack_split [OF ab]
  show ?thesis
  proof (cases "b = 0")
    case True
    have spa: "unat ?sp = 4290772992 - 4096 * a" using sp st True by simp
    note bb = below_boundary [OF spa a]
    have un: "\<not> page_is_mapped (?sp - 1) s"
      using mapped_below [OF r spa a] frames_repD(7) [OF r a] st(3) True by simp
    have flags: "(PTABLE_FLAG_PRESENT OR PTABLE_FLAG_WRITE) AND PTABLE_FLAGS_MASK = 3"
      by (simp add: PTABLE_FLAG_PRESENT_def PTABLE_FLAG_WRITE_def PTABLE_FLAGS_MASK_def)
    have eq: "pstack_push f s = (0, set_entry 1022 (1023 - a) (f OR 3) s)"
      using bb un frames_repD(2,3) [OF r] aligned_and_not [OF f]
      by (simp add: pstack_push_def set_page_def Let_def flags) (simp add: mask12)
    have st': "stack_pages (Suc ?n) = a + 1" "Suc ?n - stack_pages (Suc ?n) = 1024 * a"
      using stack_split [of "Suc ?n" a 1] ab(1) True by simp_all
    have "frames_rep (set_entry 1022 (1023 - a) (f OR 3) s) (ys @ [f])"
      unfolding frames_rep_def
    proof (intro conjI allI impI ballI)
      fix i assume i: "i < length (ys @ [f])"
      have "i < ?n \<Longrightarrow> i div 1025 < a" using ab(1) True by (simp add: less_mult_imp_div_less mult.commute)
      then show "if i mod 1025 = 0
          then pt (set_entry 1022 (1023 - a) (f OR 3) s) 1022 (1023 - i div 1025) = (ys @ [f]) ! i OR 3
          else pstack_mem (set_entry 1022 (1023 - a) (f OR 3) s) (word_addr i) = (ys @ [f]) ! i"
        using i frames_repD(5,6) [OF r, of i] a ab(1) True st(1,2)
        by (cases "i = ?n") (auto simp: set_entry_def nth_append)
    next
      fix q :: nat assume "q < 1024" "stack_pages (length (ys @ [f])) \<le> q"
      then show "pt (set_entry 1022 (1023 - a) (f OR 3) s) 1022 (1023 - q) AND PTABLE_FLAG_PRESENT = 0"
        using frames_repD(7) [OF r, of q] st' st(3) True by (auto simp: set_entry_def)
    qed (use r frames_repD [OF r] n f spa st' in \<open>auto simp: set_entry_def\<close>)
    with eq show ?thesis by (simp add: same_outside_stack_def set_entry_def)
  next
    case False
    have w: "?n - stack_pages ?n = 1024 * a + (b - 1)" using st(4) False by simp
    have nomap: "\<not> (?sp AND 0xFFF = 0 \<and> \<not> page_is_mapped (?sp - 1) s)" "?sp \<noteq> KERNEL_PSTACK_BOTTOM"
    proof -
      show "\<not> (?sp AND 0xFFF = 0 \<and> \<not> page_is_mapped (?sp - 1) s)"
      proof (cases "b = 1")
        case True
        have spa: "unat ?sp = 4290772992 - 4096 * a" using sp w True by simp
        have "pt s 1022 (1023 - a) = ys ! (1025 * a) OR 3"
          using frames_repD(5) [OF r, of "1025 * a"] ab True by simp
        then show ?thesis using mapped_below [OF r spa a] or3_present by simp
      next
        case b1: False
        show ?thesis using not_boundary [of ?sp a "b - 1"] sp w a False b1 ab(2) by simp
      qed
      have "unat ?sp > 4286578688" using sp w a ab(2) by simp
      then show "?sp \<noteq> KERNEL_PSTACK_BOTTOM" by (auto simp: KERNEL_PSTACK_BOTTOM_def)
    qed
    let ?s' = "s\<lparr>pstack_pointer := ?sp - 4, pstack_mem := (pstack_mem s)(?sp - 4 := f)\<rparr>"
    have eq: "pstack_push f s = (0, ?s')" using nomap by (auto simp: pstack_push_def Let_def)
    have u4: "unat (?sp - 4) = 4290772992 - 4 * (1024 * a + b)"
    proof -
      have "(4 :: u32) \<le> ?sp" using sp w a ab(2) by (simp add: word_le_nat_alt)
      then show ?thesis using sp w a ab(2) False by (simp add: unat_sub)
    qed
    have nd: "?n - ?n div 1025 = 1024 * a + b" using st(1) ab(1) by simp
    have top: "word_addr ?n = ?sp - 4"
      using u4 word_addr_unat [OF n] nd by (simp add: word_unat_eq_iff)
    have pg: "stack_pages (Suc ?n) = stack_pages ?n" "Suc ?n - stack_pages (Suc ?n) = 1024 * a + b"
    proof -
      show "stack_pages (Suc ?n) = stack_pages ?n"
      proof (cases "b = 1024")
        case True
        then show ?thesis using stack_split [of "Suc ?n" "a + 1" 0] st(3) ab(1) by simp
      next
        case b2: False
        then show ?thesis using stack_split [of "Suc ?n" a "b + 1"] st(3) ab False by simp
      qed
      then show "Suc ?n - stack_pages (Suc ?n) = 1024 * a + b" using st(3) ab(1) False by simp
    qed
    have "frames_rep ?s' (ys @ [f])"
      unfolding frames_rep_def
    proof (intro conjI allI impI ballI)
      fix i assume i: "i < length (ys @ [f])"
      show "if i mod 1025 = 0 then pt ?s' 1022 (1023 - i div 1025) = (ys @ [f]) ! i OR 3
          else pstack_mem ?s' (word_addr i) = (ys @ [f]) ! i"
      proof (cases "i = ?n")
        case True
        then show ?thesis using st(2) False top by simp
      next
        case lt: False
        then have "i < ?n" using i by simp
        then show ?thesis
          using frames_repD(5,6) [OF r, of i] word_addr_less [of i ?n] n st(2) False top
          by (auto simp: nth_append)
      qed
    qed (use frames_repD [OF r] n f u4 pg in auto)
    with eq show ?thesis by (simp add: same_outside_stack_def)
  qed
qed


lemma pstack_pop_empty:
  assumes "frames_rep s []"
  shows "pstack_pop s = (1, 0, s)"
proof -
  have sp: "unat (pstack_pointer s) = 4290772992 - 4096 * 0" using frames_repD(4) [OF assms] by simp
  have "\<not> page_is_mapped (pstack_pointer s - 1) s"
    using mapped_below [OF assms sp] frames_repD(7) [OF assms, of 0] by (simp add: stack_pages_def)
  moreover have "KERNEL_PSTACK_TOP \<le> pstack_pointer s"
    using sp by (simp add: KERNEL_PSTACK_TOP_def word_le_nat_alt)
  ultimately show ?thesis by (simp add: pstack_pop_def)
qed

lemma frames_rep_butlast_entries:
  assumes "frames_rep s (ys @ [f])" "i < length ys"
  shows "i mod 1025 = 0 \<Longrightarrow> pt s 1022 (1023 - i div 1025) = ys ! i OR 3"
    "i mod 1025 \<noteq> 0 \<Longrightarrow> pstack_mem s (word_addr i) = ys ! i"
  using frames_repD(5,6) [OF assms(1), of i] assms(2) by (simp_all add: nth_append)

lemma pstack_pop_rep:
  assumes r: "frames_rep s (ys @ [f])"
  shows "\<exists>s'. pstack_pop s = (0, f, s') \<and> frames_rep s' ys \<and> same_outside_stack s s'"
proof -
  let ?n = "length ys" and ?sp = "pstack_pointer s"
  have nS: "?n < STACK_MAX" using frames_repD(1) [OF r] by simp
  obtain a b where ab: "?n = 1025 * a + b" "b < 1025"
    by (metis mod_less_divisor mult.commute mult_div_mod_eq zero_less_numeral)
  have a: "a < 1024" using nS ab(1) by (simp add: STACK_MAX_def)
  have f: "f AND 0xFFF = 0" using frames_repD(8) [OF r, of f] by simp
  note st = stack_split [OF ab]
  have sp: "unat ?sp = 4290772992 - 4 * (Suc ?n - stack_pages (Suc ?n))" using frames_repD(4) [OF r] by simp
  show ?thesis
  proof (cases "b = 0")
    case True
    have st': "stack_pages (Suc ?n) = a + 1" "Suc ?n - stack_pages (Suc ?n) = 1024 * a"
      using stack_split [of "Suc ?n" a 1] ab(1) True by simp_all
    have spa: "unat ?sp = 4290772992 - 4096 * a" using sp st' by simp
    note bb = below_boundary [OF spa a]
    have entry: "pt s 1022 (1023 - a) = f OR 3"
      using frames_repD(5) [OF r, of ?n] st True by (simp add: nth_append)
    have m: "page_is_mapped (?sp - 1) s" using mapped_below [OF r spa a] entry or3_present by simp
    let ?s' = "set_entry 1022 (1023 - a) 0 s"
    have eq: "pstack_pop s = (0, f, ?s')"
      using bb m frames_repD(2,3) [OF r] entry or3_frame [OF f]
      by (simp add: pstack_pop_def get_page_def set_page_def Let_def)
    have "frames_rep ?s' ys"
      unfolding frames_rep_def
    proof (intro conjI allI impI ballI)
      fix i assume i: "i < ?n"
      have "i div 1025 < a" using i ab(1) True by (simp add: less_mult_imp_div_less mult.commute)
      then show "if i mod 1025 = 0 then pt ?s' 1022 (1023 - i div 1025) = ys ! i OR 3
          else pstack_mem ?s' (word_addr i) = ys ! i"
        using frames_rep_butlast_entries [OF r i] a by (auto simp: set_entry_def)
    next
      fix q :: nat assume q: "q < 1024" "stack_pages ?n \<le> q"
      show "pt ?s' 1022 (1023 - q) AND PTABLE_FLAG_PRESENT = 0"
      proof (cases "q = a")
        case False
        then have "stack_pages (length (ys @ [f])) \<le> q" using q(2) st(3) st' True by simp
        then show ?thesis using frames_repD(7) [OF r q(1)] q(1) a False by (auto simp: set_entry_def)
      qed (simp add: set_entry_def)
    qed (use frames_repD [OF r] nS spa st True in \<open>auto simp: set_entry_def\<close>)
    with eq show ?thesis by (simp add: same_outside_stack_def set_entry_def)
  next
    case False
    have pg: "stack_pages (Suc ?n) = stack_pages ?n" "Suc ?n - stack_pages (Suc ?n) = 1024 * a + b"
    proof -
      show "stack_pages (Suc ?n) = stack_pages ?n"
      proof (cases "b = 1024")
        case True
        then show ?thesis using stack_split [of "Suc ?n" "a + 1" 0] st(3) ab(1) by simp
      next
        case b2: False
        then show ?thesis using stack_split [of "Suc ?n" a "b + 1"] st(3) ab False by simp
      qed
      then show "Suc ?n - stack_pages (Suc ?n) = 1024 * a + b" using st(3) ab(1) False by simp
    qed
    have usp: "unat ?sp = 4290772992 - 4 * (1024 * a + b)" using sp pg by simp
    have nomap: "\<not> (?sp AND 0xFFF = 0 \<and> page_is_mapped (?sp - 1) s)" "\<not> KERNEL_PSTACK_TOP \<le> ?sp"
    proof -
      show "\<not> (?sp AND 0xFFF = 0 \<and> page_is_mapped (?sp - 1) s)"
      proof (cases "b = 1024")
        case True
        then have spa: "unat ?sp = 4290772992 - 4096 * (a + 1)" using usp by simp
        have lt: "a + 1 < 1024" using nS ab(1) True by (simp add: STACK_MAX_def)
        show ?thesis using mapped_below [OF r spa lt] frames_repD(7) [OF r lt] pg st(3) False by simp
      next
        case b2: False
        show ?thesis using not_boundary [of ?sp a b] usp a False b2 ab(2) by simp
      qed
      show "\<not> KERNEL_PSTACK_TOP \<le> ?sp" using usp False by (simp add: KERNEL_PSTACK_TOP_def word_le_nat_alt)
    qed
    have nd: "?n - ?n div 1025 = 1024 * a + b" using st(1) ab(1) by simp
    have top: "word_addr ?n = ?sp"
      using usp word_addr_unat [OF nS] nd by (simp add: word_unat_eq_iff)
    have "pstack_mem s ?sp = f" using frames_repD(6) [OF r, of ?n] st(2) False top by simp
    with nomap have eq: "pstack_pop s = (0, f, s\<lparr>pstack_pointer := ?sp + 4\<rparr>)"
      by (auto simp: pstack_pop_def)
    have le: "1024 * a + b \<le> 1048576" using a ab(2) by simp
    have "unat (?sp + 4) = unat ?sp + 4" using usp False le by (simp add: unat_word_ariths)
    then have u4: "unat (?sp + 4) = 4290772992 - 4 * (?n - stack_pages ?n)"
      using usp st(4) False le by simp
    have "frames_rep (s\<lparr>pstack_pointer := ?sp + 4\<rparr>) ys"
      unfolding frames_rep_def
    proof (intro conjI allI impI ballI)
      fix i assume i: "i < ?n"
      show "if i mod 1025 = 0 then pt (s\<lparr>pstack_pointer := ?sp + 4\<rparr>) 1022 (1023 - i div 1025) = ys ! i OR 3
          else pstack_mem (s\<lparr>pstack_pointer := ?sp + 4\<rparr>) (word_addr i) = ys ! i"
        using frames_rep_butlast_entries [OF r i] by simp
    qed (use frames_repD [OF r] nS u4 pg in auto)
    with eq show ?thesis by (simp add: same_outside_stack_def)
  qed
qed

section \<open>The contract of the stack of frames\<close>

text \<open>
  What the page allocator relies on: a stack of frames that are all valid, with room for \<open>cap\<close> of
  them, whose operations touch nothing else (\<open>same\<close>).
\<close>

locale frame_stack =
  fixes holds :: "'s \<Rightarrow> 'f list \<Rightarrow> bool"
    and push :: "'f \<Rightarrow> 's \<Rightarrow> nat \<times> 's"
    and pop :: "'s \<Rightarrow> nat \<times> 'f \<times> 's"
    and valid :: "'f \<Rightarrow> bool"
    and cap :: nat
    and same :: "'s \<Rightarrow> 's \<Rightarrow> bool"
  assumes holds_valid: "holds s ys \<Longrightarrow> f \<in> set ys \<Longrightarrow> valid f"
    and holds_cap: "holds s ys \<Longrightarrow> length ys \<le> cap"
    and push_holds: "\<lbrakk>holds s ys; length ys < cap; valid f\<rbrakk>
          \<Longrightarrow> fst (push f s) = 0 \<and> holds (snd (push f s)) (ys @ [f]) \<and> same s (snd (push f s))"
    and pop_holds: "holds s (ys @ [f]) \<Longrightarrow> \<exists>s'. pop s = (0, f, s') \<and> holds s' ys \<and> same s s'"
    and pop_empty: "holds s [] \<Longrightarrow> \<exists>f. pop s = (1, f, s)"
    and same_trans: "same s s' \<Longrightarrow> same s' s'' \<Longrightarrow> same s s''"
begin

lemma push_pop:
  assumes "holds s ys" "length ys < cap" "valid f"
  shows "\<exists>s'. pop (snd (push f s)) = (0, f, s') \<and> holds s' ys \<and> same s s'"
  using push_holds [OF assms] pop_holds same_trans by blast

lemma pop_push:
  assumes "holds s (ys @ [f])"
  shows "\<exists>s'. pop s = (0, f, s') \<and> fst (push f s') = 0 \<and> holds (snd (push f s')) (ys @ [f])
    \<and> same s (snd (push f s'))"
proof -
  obtain s' where s': "pop s = (0, f, s')" "holds s' ys" "same s s'" using pop_holds [OF assms] by blast
  have "length ys < cap" "valid f" using holds_cap [OF assms] holds_valid [OF assms, of f] by simp_all
  with push_holds [OF s'(2)] s' same_trans show ?thesis by blast
qed

lemma pop_fails_iff: "holds s ys \<Longrightarrow> fst (pop s) \<noteq> 0 \<longleftrightarrow> ys = []"
proof (cases ys rule: rev_cases)
  case Nil
  then show "holds s ys \<Longrightarrow> fst (pop s) \<noteq> 0 \<longleftrightarrow> ys = []" using pop_empty [of s] by auto
next
  case (snoc zs f)
  then show "holds s ys \<Longrightarrow> fst (pop s) \<noteq> 0 \<longleftrightarrow> ys = []" using pop_holds [of s zs f] by auto
qed

end

interpretation fs: frame_stack frames_rep pstack_push pstack_pop "\<lambda>f. f AND 0xFFF = 0" STACK_MAX same_outside_stack
proof unfold_locales
  show "frames_rep s [] \<Longrightarrow> \<exists>f. pstack_pop s = (1, f, s)" for s :: "'a paging_scheme"
    using pstack_pop_empty by blast
qed (auto dest: frames_repD(1,8) pstack_pop_rep simp: pstack_push_rep intro: same_outside_stack_trans)

section \<open>The mapping of pages\<close>

text \<open>
  \<open>mapping s n\<close> is the entry that maps page number \<open>n\<close>. Page numbers of the stack (directory entry
  1022) and of the page tables themselves (1023) are not \<open>ordinary\<close>.
\<close>

definition page_no :: "u32 \<Rightarrow> nat" where "page_no v = unat v div 4096"

definition ordinary :: "nat \<Rightarrow> bool" where "ordinary n \<longleftrightarrow> n div 1024 < 1022"

definition entry_mapping :: "u32 \<Rightarrow> u32 \<Rightarrow> u32 option" where
  "entry_mapping d e =
     (if d AND PTABLE_FLAG_PRESENT = 0 then None
      else if d AND PTABLE_FLAG_LARGEPAGE \<noteq> 0 then Some d
      else if e AND PTABLE_FLAG_PRESENT = 0 then None else Some e)"

definition mapping :: "'a paging_scheme \<Rightarrow> nat \<Rightarrow> u32 option" where
  "mapping s n = entry_mapping (pde s (n div 1024)) (pt s (n div 1024) (n mod 1024))"

lemma page_no_dir: "PDE_NUM v = page_no v div 1024" "PTE_NUM v = page_no v mod 1024"
  by (simp_all add: page_no_def PDE_NUM_div PTE_NUM_div div_mult2_eq)

lemma page_is_mapped_iff: "page_is_mapped v s \<longleftrightarrow> mapping s (page_no v) \<noteq> None"
  by (simp add: page_is_mapped_def mapping_def entry_mapping_def page_no_dir Let_def)

lemma mapping_outside_stack:
  assumes "same_outside_stack s s'" "ordinary n"
  shows "mapping s' n = mapping s n"
  using assms by (simp add: mapping_def ordinary_def same_outside_stack_def)

lemma frames_rep_cong:
  assumes "pt s' 1022 = pt s 1022" "pde s' 1022 = pde s 1022" "pstack_pointer s' = pstack_pointer s"
    "pstack_mem s' = pstack_mem s"
  shows "frames_rep s' ys = frames_rep s ys"
  by (simp add: frames_rep_def assms)

definition table_set :: "'a paging_scheme \<Rightarrow> nat \<Rightarrow> bool" where
  "table_set s d \<longleftrightarrow> pde s d AND PTABLE_FLAG_PRESENT \<noteq> 0 \<and> pde s d AND PTABLE_FLAG_LARGEPAGE = 0"

text \<open>Writing the entry of an ordinary page whose table exists.\<close>

lemma set_page_ordinary:
  assumes v: "ordinary (page_no v)" and t: "table_set s (page_no v div 1024)" and f: "f AND 0xFFF = 0"
    and fl: "flags AND PTABLE_FLAGS_MASK = flags"
  shows "set_page v f flags s = (0, set_entry (page_no v div 1024) (page_no v mod 1024) (f OR flags) s)"
  using t by (simp add: set_page_def table_set_def page_no_dir Let_def fl) (simp add: mask12 aligned_and_not [OF f])

lemma set_entry_ordinary:
  fixes s :: "'a paging_scheme"
  assumes s'_def: "s' = set_entry (n div 1024) (n mod 1024) e s"
    and v: "ordinary n" and t: "table_set s (n div 1024)"
  shows "frames_rep s' ys = frames_rep s ys"
    and "mapping s' = (mapping s)(n := if e AND PTABLE_FLAG_PRESENT = 0 then None else Some e)"
    and "kernel_heap_addr s' = kernel_heap_addr s" "kernel_heap_size s' = kernel_heap_size s"
    and "table_set s' d = table_set s d"
proof -
  have d: "n div 1024 \<noteq> 1022" "n div 1024 \<noteq> 1023" using v by (auto simp: ordinary_def)
  show "frames_rep s' ys = frames_rep s ys" by (rule frames_rep_cong) (use d in \<open>simp_all add: s'_def set_entry_def\<close>)
  show "mapping s' = (mapping s)(n := if e AND PTABLE_FLAG_PRESENT = 0 then None else Some e)"
  proof
    fix k
    have "k div 1024 = n div 1024 \<and> k mod 1024 = n mod 1024 \<longleftrightarrow> k = n" by (metis div_mult_mod_eq)
    then show "mapping s' k = ((mapping s)(n := if e AND PTABLE_FLAG_PRESENT = 0 then None else Some e)) k"
      using d t by (auto simp: mapping_def s'_def set_entry_def table_set_def entry_mapping_def)
  qed
  show "kernel_heap_addr s' = kernel_heap_addr s" "kernel_heap_size s' = kernel_heap_size s"
    by (simp_all add: s'_def set_entry_def)
  show "table_set s' d = table_set s d" using d by (simp add: table_set_def s'_def set_entry_def)
qed

lemma page_flags_mask: "page_flags u w AND PTABLE_FLAGS_MASK = page_flags u w"
  and page_flags_present: "(f OR page_flags u w) AND PTABLE_FLAG_PRESENT \<noteq> 0"
proof -
  show "page_flags u w AND PTABLE_FLAGS_MASK = page_flags u w"
    by (cases u; cases w; simp add: page_flags_def PTABLE_FLAG_PRESENT_def PTABLE_FLAG_WRITE_def
        PTABLE_FLAG_USERMODE_def PTABLE_FLAGS_MASK_def)
  have "bit ((f OR page_flags u w) AND PTABLE_FLAG_PRESENT) 0"
    by (cases u; cases w; simp add: bit_simps page_flags_def PTABLE_FLAG_PRESENT_def PTABLE_FLAG_WRITE_def
        PTABLE_FLAG_USERMODE_def)
  then show "(f OR page_flags u w) AND PTABLE_FLAG_PRESENT \<noteq> 0" by force
qed

text \<open>A new page table maps nothing yet.\<close>

lemma set_page_table_ordinary:
  fixes s :: "'a paging_scheme"
  assumes s'_def: "s' = set_page_table v g (PTABLE_FLAG_PRESENT OR PTABLE_FLAG_WRITE) s"
    and v: "ordinary (page_no v)" and t: "pde s (page_no v div 1024) AND PTABLE_FLAG_PRESENT = 0"
    and g: "g AND 0xFFF = 0"
  shows "frames_rep s' ys = frames_rep s ys"
    and "ordinary n \<Longrightarrow> mapping s' n = mapping s n"
    and "kernel_heap_addr s' = kernel_heap_addr s" "kernel_heap_size s' = kernel_heap_size s"
    and "table_set s' (page_no v div 1024)"
    and "d \<noteq> page_no v div 1024 \<Longrightarrow> table_set s' d = table_set s d"
proof -
  let ?d = "page_no v div 1024"
  have d: "?d \<noteq> 1022" "?d \<noteq> 1023" using v by (auto simp: ordinary_def)
  have "(PTABLE_FLAG_PRESENT OR PTABLE_FLAG_WRITE) AND PTABLE_FLAGS_MASK = 3"
    by (simp add: PTABLE_FLAG_PRESENT_def PTABLE_FLAG_WRITE_def PTABLE_FLAGS_MASK_def)
  then have pt': "pt s' = (\<lambda>k. if k = ?d then (\<lambda>i. if i < 1024 then 0 else pt s ?d i)
      else if k = 1023 then (pt s 1023)(?d := g OR 3) else pt s k)"
    using d aligned_and_not [OF g]
    by (auto simp: s'_def set_page_table_def set_entry_def Let_def page_no_dir mask12 fun_eq_iff)
  have large: "(g OR 3) AND PTABLE_FLAG_LARGEPAGE = 0"
  proof -
    have "(3 :: u32) AND PTABLE_FLAG_LARGEPAGE = 0" by (simp add: PTABLE_FLAG_LARGEPAGE_def)
    moreover have "g AND PTABLE_FLAG_LARGEPAGE = (g AND 0xFFF) AND PTABLE_FLAG_LARGEPAGE"
      by (simp add: PTABLE_FLAG_LARGEPAGE_def and.assoc)
    ultimately show ?thesis using g by (simp add: bit.conj_disj_distrib2)
  qed
  show "frames_rep s' ys = frames_rep s ys"
    by (rule frames_rep_cong) (use d in \<open>simp_all add: pt'\<close>, simp_all add: s'_def set_page_table_def set_entry_def Let_def)
  show "table_set s' ?d" using d large or3_present by (simp add: table_set_def pt')
  show "table_set s' d = table_set s d" if "d \<noteq> ?d" using that d by (simp add: table_set_def pt')
  show "mapping s' n = mapping s n" if "ordinary n"
  proof (cases "n div 1024 = ?d")
    case True
    have "n mod 1024 < 1024" by simp
    then show ?thesis using True t large or3_present d by (simp add: mapping_def entry_mapping_def pt')
  next
    case False
    with that d show ?thesis by (auto simp: mapping_def pt' ordinary_def)
  qed
qed (simp_all add: s'_def set_page_table_def set_entry_def Let_def)

section \<open>The address space as the kernel means it\<close>

text \<open>
  The free frames (the top of the stack is the end of the list), the entry of every page, and the
  directory entries that have a page table.
\<close>

record space =
  free_frames :: "u32 list"
  page_map :: "nat \<Rightarrow> u32 option"
  tables :: "nat set"

definition space_rep :: "'a paging_scheme \<Rightarrow> space \<Rightarrow> bool" where
  "space_rep s A \<longleftrightarrow> frames_rep s (free_frames A) \<and> (\<forall>n. ordinary n \<longrightarrow> mapping s n = page_map A n)
     \<and> (\<forall>d < 1022. table_set s d \<longleftrightarrow> d \<in> tables A)"

definition same_heap :: "'a paging_scheme \<Rightarrow> 'a paging_scheme \<Rightarrow> bool" where
  "same_heap s s' \<longleftrightarrow> kernel_heap_addr s' = kernel_heap_addr s \<and> kernel_heap_size s' = kernel_heap_size s
     \<and> paging.more s' = paging.more s"

lemma same_heapD:
  "same_heap s s' \<Longrightarrow> kernel_heap_addr s' = kernel_heap_addr s"
  "same_heap s s' \<Longrightarrow> kernel_heap_size s' = kernel_heap_size s"
  by (simp_all add: same_heap_def)

lemma same_heap_refl [simp]: "same_heap s s"
  and same_heap_trans: "same_heap s s' \<Longrightarrow> same_heap s' s'' \<Longrightarrow> same_heap s s''"
  and same_outside_stack_heap: "same_outside_stack s s' \<Longrightarrow> same_heap s s'"
  by (simp_all add: same_heap_def same_outside_stack_def)

text \<open>What allocating and freeing one page promise.\<close>

definition alloc_spec :: "nat \<Rightarrow> u32 \<Rightarrow> space \<Rightarrow> nat \<times> space" where
  "alloc_spec n flags A =
     (if page_map A n \<noteq> None \<or> free_frames A = [] then (1, A)
      else
        let frame = List.last (free_frames A);
            A' = A\<lparr>free_frames := butlast (free_frames A), page_map := (page_map A)(n \<mapsto> frame OR flags)\<rparr>
        in if n div 1024 \<in> tables A then (0, A')
           else if butlast (free_frames A) = [] then (1, A)
           else (0, A'\<lparr>free_frames := butlast (free_frames A'), tables := insert (n div 1024) (tables A)\<rparr>))"

definition free_spec :: "nat \<Rightarrow> space \<Rightarrow> nat \<times> space" where
  "free_spec n A =
     (case page_map A n of
        None \<Rightarrow> (1, A)
      | Some e \<Rightarrow>
          if n div 1024 \<notin> tables A then (1, A)
          else (0, A\<lparr>free_frames := free_frames A @ [e AND NOT PTABLE_FLAGS_MASK], page_map := (page_map A)(n := None)\<rparr>))"

lemma space_repD:
  assumes "space_rep s A"
  shows "frames_rep s (free_frames A)" "ordinary n \<Longrightarrow> mapping s n = page_map A n"
    "d < 1022 \<Longrightarrow> table_set s d \<longleftrightarrow> d \<in> tables A"
  using assms by (simp_all add: space_rep_def)

lemma space_repI:
  assumes "frames_rep s (free_frames A)" "\<And>n. ordinary n \<Longrightarrow> mapping s n = page_map A n"
    "\<And>d. d < 1022 \<Longrightarrow> table_set s d \<longleftrightarrow> d \<in> tables A"
  shows "space_rep s A"
  using assms by (simp add: space_rep_def)

lemma table_set_outside_stack: "same_outside_stack s s' \<Longrightarrow> table_set s' d = table_set s d"
  by (simp add: table_set_def same_outside_stack_def)

text \<open>Moving frames leaves pages and tables alone.\<close>

lemma space_rep_frames:
  assumes "space_rep s A" "same_outside_stack s s'" "frames_rep s' ys"
  shows "space_rep s' (A\<lparr>free_frames := ys\<rparr>)"
  using assms by (auto intro!: space_repI simp: mapping_outside_stack table_set_outside_stack space_repD)

text \<open>Writing one entry whose table exists.\<close>

lemma space_rep_set_page:
  assumes r: "space_rep s A" and v: "ordinary (page_no v)" and t: "page_no v div 1024 \<in> tables A"
    and f: "f AND 0xFFF = 0" and fl: "flags AND PTABLE_FLAGS_MASK = flags"
  shows "\<exists>s'. set_page v f flags s = (0, s') \<and> same_heap s s'
    \<and> space_rep s' (A\<lparr>page_map := (page_map A)(page_no v :=
         (if (f OR flags) AND PTABLE_FLAG_PRESENT = 0 then None else Some (f OR flags)))\<rparr>)"
proof -
  have "page_no v div 1024 < 1022" using v by (simp add: ordinary_def)
  then have t': "table_set s (page_no v div 1024)" using space_repD(3) [OF r] t by blast
  let ?s' = "set_entry (page_no v div 1024) (page_no v mod 1024) (f OR flags) s"
  note e = set_entry_ordinary [OF refl v t', of "f OR flags"]
  have "set_page v f flags s = (0, ?s')" by (rule set_page_ordinary [OF v t' f fl])
  moreover have "same_heap s ?s'" by (simp add: same_heap_def set_entry_def)
  moreover have "space_rep ?s' (A\<lparr>page_map := (page_map A)(page_no v :=
         (if (f OR flags) AND PTABLE_FLAG_PRESENT = 0 then None else Some (f OR flags)))\<rparr>)"
    using r by (intro space_repI) (simp_all add: e space_repD)
  ultimately show ?thesis by blast
qed

lemma space_rep_set_table:
  assumes r: "space_rep s A" and v: "ordinary (page_no v)" and t: "pde s (page_no v div 1024) AND PTABLE_FLAG_PRESENT = 0"
    and g: "g AND 0xFFF = 0"
  shows "space_rep (set_page_table v g (PTABLE_FLAG_PRESENT OR PTABLE_FLAG_WRITE) s)
      (A\<lparr>tables := insert (page_no v div 1024) (tables A)\<rparr>)"
    "same_heap s (set_page_table v g (PTABLE_FLAG_PRESENT OR PTABLE_FLAG_WRITE) s)"
proof -
  note p = set_page_table_ordinary [OF refl v t g]
  show "space_rep (set_page_table v g (PTABLE_FLAG_PRESENT OR PTABLE_FLAG_WRITE) s)
      (A\<lparr>tables := insert (page_no v div 1024) (tables A)\<rparr>)"
  proof (intro space_repI)
    fix k :: nat assume "k < 1022"
    then show "table_set (set_page_table v g (PTABLE_FLAG_PRESENT OR PTABLE_FLAG_WRITE) s) k
        \<longleftrightarrow> k \<in> tables (A\<lparr>tables := insert (page_no v div 1024) (tables A)\<rparr>)"
      using p(5) p(6) [of k] space_repD(3) [OF r] by (cases "k = page_no v div 1024") simp_all
  qed (use r in \<open>simp_all add: p(1,2) space_repD\<close>)
  show "same_heap s (set_page_table v g (PTABLE_FLAG_PRESENT OR PTABLE_FLAG_WRITE) s)"
    by (simp add: same_heap_def set_page_table_def set_entry_def Let_def)
qed

lemma ptable_is_set_iff: "ptable_is_set v s \<longleftrightarrow> table_set s (page_no v div 1024)"
  by (simp add: ptable_is_set_def table_set_def page_no_dir Let_def)

lemma unmapped_table: "mapping s n = None \<Longrightarrow> \<not> table_set s (n div 1024) \<Longrightarrow> pde s (n div 1024) AND PTABLE_FLAG_PRESENT = 0"
  by (auto simp: mapping_def table_set_def entry_mapping_def split: if_splits)

lemma pages_update: "A\<lparr>free_frames := ys\<rparr>\<lparr>page_map := m\<rparr> = A\<lparr>free_frames := ys, page_map := m\<rparr>"
  by simp

lemma allocate_page_rep:
  assumes r: "space_rep s A" and v: "ordinary (page_no v)"
  shows "\<exists>s'. memory_allocate_page v u w s = (fst (alloc_spec (page_no v) (page_flags u w) A), s')
    \<and> space_rep s' (snd (alloc_spec (page_no v) (page_flags u w) A)) \<and> same_heap s s'"
proof (cases "page_map A (page_no v) = None")
  case False
  then have "page_is_mapped v s" using space_repD(2) [OF r v] by (simp add: page_is_mapped_iff)
  with False r show ?thesis by (simp add: memory_allocate_page_def alloc_spec_def)
next
  case None: True
  have d: "page_no v div 1024 < 1022" using v by (simp add: ordinary_def)
  have um: "\<not> page_is_mapped v s" "mapping s (page_no v) = None"
    using None space_repD(2) [OF r v] by (simp_all add: page_is_mapped_iff)
  show ?thesis
  proof (cases "free_frames A" rule: rev_cases)
    case Nil
    then have "frames_rep s []" using space_repD(1) [OF r] by simp
    from pstack_pop_empty [OF this] um Nil r show ?thesis by (simp add: memory_allocate_page_def alloc_spec_def)
  next
    case (snoc ys f)
    have fr: "frames_rep s (ys @ [f])" using space_repD(1) [OF r] snoc by simp
    obtain s1 where s1: "pstack_pop s = (0, f, s1)" "frames_rep s1 ys" "same_outside_stack s s1"
      using pstack_pop_rep [OF fr] by blast
    note f = frames_repD(8) [OF fr, of f, simplified]
    note r1 = space_rep_frames [OF r s1(3,2)]
    note fl = page_flags_mask [of u w] page_flags_present [of f u w]
    show ?thesis
    proof (cases "page_no v div 1024 \<in> tables A")
      case True
      then have pt: "ptable_is_set v s1" using space_repD(3) [OF r1 d] by (simp add: ptable_is_set_iff)
      obtain s2 where s2: "set_page v f (page_flags u w) s1 = (0, s2)" "same_heap s1 s2"
          "space_rep s2 (A\<lparr>free_frames := ys, page_map := (page_map A)(page_no v \<mapsto> f OR page_flags u w)\<rparr>)"
        using space_rep_set_page [OF r1 v _ f fl(1)] True fl(2) by auto
      have "same_heap s s2" using same_outside_stack_heap [OF s1(3)] s2(2) by (rule same_heap_trans)
      with s1 s2 pt um True None snoc show ?thesis
        by (simp add: memory_allocate_page_def alloc_spec_def Let_def)
    next
      case False
      then have pt: "\<not> ptable_is_set v s1" using space_repD(3) [OF r1 d] by (simp add: ptable_is_set_iff)
      show ?thesis
      proof (cases ys rule: rev_cases)
        case Nil
        have e: "frames_rep s1 []" using s1(2) Nil by simp
        have "length [] < STACK_MAX" by (simp add: STACK_MAX_def)
        note ps = pstack_push_rep [OF e this f]
        have "space_rep (snd (pstack_push f s1)) (A\<lparr>free_frames := ys, free_frames := free_frames A\<rparr>)"
          using ps snoc Nil by (intro space_rep_frames [OF r1]) simp_all
        then have "space_rep (snd (pstack_push f s1)) A" by simp
        moreover have "same_heap s (snd (pstack_push f s1))"
          using ps s1(3) same_outside_stack_heap same_outside_stack_trans by blast
        ultimately show ?thesis
          using s1 pt um False None snoc Nil pstack_pop_empty [OF e]
          by (simp add: memory_allocate_page_def alloc_spec_def Let_def)
      next
        case (snoc zs g)
        have fr2: "frames_rep s1 (zs @ [g])" using s1(2) snoc by simp
        obtain s2 where s2: "pstack_pop s1 = (0, g, s2)" "frames_rep s2 zs" "same_outside_stack s1 s2"
          using pstack_pop_rep [OF fr2] by blast
        note g = frames_repD(8) [OF fr2, of g, simplified]
        note r2 = space_rep_frames [OF r1 s2(3,2)]
        have "mapping s2 (page_no v) = None" using space_repD(2) [OF r2 v] None by simp
        moreover have "\<not> table_set s2 (page_no v div 1024)" using space_repD(3) [OF r2 d] False by simp
        ultimately have np: "pde s2 (page_no v div 1024) AND PTABLE_FLAG_PRESENT = 0" by (rule unmapped_table)
        note st = space_rep_set_table [OF r2 v np g]
        obtain s3 where s3: "set_page v f (page_flags u w) (set_page_table v g (PTABLE_FLAG_PRESENT OR PTABLE_FLAG_WRITE) s2) = (0, s3)"
            "same_heap s2 s3"
            "space_rep s3 (A\<lparr>free_frames := zs, tables := insert (page_no v div 1024) (tables A),
                page_map := (page_map A)(page_no v \<mapsto> f OR page_flags u w)\<rparr>)"
          using space_rep_set_page [OF st(1) v _ f fl(1)] fl(2) st(2) same_heap_trans by auto
        have bl: "butlast (zs @ [g, f]) = zs @ [g]" by (simp add: butlast_append)
        from s3(3) have "space_rep s3 (A\<lparr>page_map := (page_map A)(page_no v \<mapsto> f OR page_flags u w),
            free_frames := zs, tables := insert (page_no v div 1024) (tables A)\<rparr>)"
          by (simp add: space_rep_def)
        moreover have "same_heap s s3"
          using s1(3) s2(3) s3(2) same_outside_stack_trans same_outside_stack_heap same_heap_trans by blast
        ultimately show ?thesis
          using s1 s2 s3(1) pt um False None snoc \<open>free_frames A = ys @ [f]\<close>
          by (simp add: bl memory_allocate_page_def alloc_spec_def Let_def)
      qed
    qed
  qed
qed

lemma free_page_rep:
  assumes r: "space_rep s A" and v: "ordinary (page_no v)" and n: "length (free_frames A) < STACK_MAX"
  shows "\<exists>s'. memory_free_page v s = (fst (free_spec (page_no v) A), s')
    \<and> space_rep s' (snd (free_spec (page_no v) A)) \<and> same_heap s s'"
proof (cases "page_map A (page_no v)")
  case None
  then have "\<not> page_is_mapped v s" using space_repD(2) [OF r v] by (simp add: page_is_mapped_iff)
  with None r show ?thesis by (simp add: memory_free_page_def free_spec_def)
next
  case (Some e)
  have d: "page_no v div 1024 < 1022" using v by (simp add: ordinary_def)
  have m: "mapping s (page_no v) = Some e" using Some space_repD(2) [OF r v] by simp
  then have pm: "page_is_mapped v s" by (simp add: page_is_mapped_iff)
  show ?thesis
  proof (cases "page_no v div 1024 \<in> tables A")
    case False
    then have "\<not> table_set s (page_no v div 1024)" using space_repD(3) [OF r d] by simp
    then have "get_page v s = (1, 0, 0)" by (auto simp: get_page_def table_set_def page_no_dir Let_def)
    with pm Some False r show ?thesis by (simp add: memory_free_page_def free_spec_def)
  next
    case True
    then have t: "table_set s (page_no v div 1024)" using space_repD(3) [OF r d] by simp
    then have e: "pt s (page_no v div 1024) (page_no v mod 1024) = e"
      using m by (auto simp: mapping_def table_set_def entry_mapping_def split: if_splits)
    let ?f = "e AND NOT PTABLE_FLAGS_MASK"
    have gp: "get_page v s = (0, ?f, e AND PTABLE_FLAGS_MASK)"
      using t e by (auto simp: get_page_def table_set_def page_no_dir Let_def)
    obtain s1 where s1: "set_page v 0 0 s = (0, s1)" "same_heap s s1"
        "space_rep s1 (A\<lparr>page_map := (page_map A)(page_no v := None)\<rparr>)"
      using space_rep_set_page [OF r v True, of 0 0] by auto
    have f: "?f AND 0xFFF = 0" by (simp add: PTABLE_FLAGS_MASK_def and.assoc)
    have fr: "frames_rep s1 (free_frames A)" using space_repD(1) [OF s1(3)] by simp
    note ps = pstack_push_rep [OF fr n f]
    have "space_rep (snd (pstack_push ?f s1))
        (A\<lparr>page_map := (page_map A)(page_no v := None), free_frames := free_frames A @ [?f]\<rparr>)"
      using ps by (intro space_rep_frames [OF s1(3)]) simp_all
    then have "space_rep (snd (pstack_push ?f s1))
        (A\<lparr>free_frames := free_frames A @ [?f], page_map := (page_map A)(page_no v := None)\<rparr>)"
      by (simp add: space_rep_def)
    moreover have "same_heap s (snd (pstack_push ?f s1))"
      using ps s1(2) same_outside_stack_heap same_heap_trans by blast
    moreover obtain s2 where "pstack_push ?f s1 = (0, s2)" using ps by (metis prod.collapse)
    ultimately show ?thesis
      using pm Some True gp s1(1) by (simp add: memory_free_page_def free_spec_def)
  qed
qed

end
