(* ===== verification/KHeapPages.thy ===== *)
theory KHeapPages
  imports KPaging "HOL-Library.Multiset"
begin

text \<open>
  The pages of the kernel heap: what \<open>heap_callback\<close> of src/system/kernel/memory.c does to the
  address space. The two loops are runs of the abstract operations \<open>alloc_spec\<close> and \<open>free_spec\<close>.
\<close>

section \<open>Runs of pages\<close>

fun alloc_run :: "nat \<Rightarrow> nat \<Rightarrow> space \<Rightarrow> nat \<times> nat \<times> space" where
  "alloc_run 0 n A = (0, n, A)"
| "alloc_run (Suc k) n A =
     (case alloc_spec n (page_flags False True) A of
        (e, A') \<Rightarrow> if e \<noteq> 0 then (e, n, A') else alloc_run k (Suc n) A')"

fun free_run :: "nat \<Rightarrow> nat \<Rightarrow> space \<Rightarrow> space" where
  "free_run 0 n A = A"
| "free_run (Suc k) n A = free_run k (n - 1) (snd (free_spec n A))"

definition page_addr :: "nat \<Rightarrow> u32" where "page_addr n = of_nat (4096 * n)"

lemma page_addr_unat: "n < 1048576 \<Longrightarrow> unat (page_addr n) = 4096 * n"
  unfolding page_addr_def by (simp add: unat_of_nat del: of_nat_mult)

lemma page_no_addr [simp]: "n < 1048576 \<Longrightarrow> page_no (page_addr n) = n"
  by (simp add: page_no_def page_addr_unat)

lemma page_addr_Suc: "page_addr n + PAGE_SIZE = page_addr (Suc n)"
  by (simp add: page_addr_def PAGE_SIZE_def)

lemma page_addr_pred: "0 < n \<Longrightarrow> page_addr n - PAGE_SIZE = page_addr (n - 1)"
  by (cases n) (simp_all add: page_addr_def PAGE_SIZE_def)

lemma page_addr_le: "n < 1048576 \<Longrightarrow> m < 1048576 \<Longrightarrow> page_addr n \<le> page_addr m \<longleftrightarrow> n \<le> m"
  by (simp add: word_le_nat_alt page_addr_unat)

lemma page_addr_less: "n < 1048576 \<Longrightarrow> m < 1048576 \<Longrightarrow> page_addr n < page_addr m \<longleftrightarrow> n < m"
  by (simp add: word_less_nat_alt page_addr_unat)

lemma ordinary_less: "ordinary n \<longleftrightarrow> n < 1046528"
  by (simp add: ordinary_def) linarith

lemma PAGE_FLOOR_addr: "PAGE_FLOOR a = page_addr (page_no a)"
proof -
  have "page_no a < 1048576" using unat_lt_2p32 [of a] by (simp add: page_no_def less_mult_imp_div_less)
  then show ?thesis by (simp add: word_unat_eq_iff PAGE_FLOOR_unat page_addr_unat page_no_def)
qed

lemma alloc_up_rep:
  assumes "space_rep s A" "m < 1046528" "n + k = Suc m"
  shows "\<exists>s'. alloc_up (page_addr n) (page_addr m) s
        = Some (fst (alloc_run k n A), page_addr (fst (snd (alloc_run k n A))), s')
      \<and> space_rep s' (snd (snd (alloc_run k n A))) \<and> same_heap s s'"
  using assms
proof (induction k arbitrary: n s A)
  case 0
  then show ?case by (subst alloc_up.simps) (simp add: page_addr_less not_le [symmetric] page_addr_le)
next
  case (Suc k)
  have n: "n \<le> m" "ordinary n" "n < 1048576" using Suc.prems(2,3) by (simp_all add: ordinary_less)
  have le: "page_addr n \<le> page_addr m" using n Suc.prems(2) by (simp add: page_addr_le)
  obtain s1 where s1: "memory_allocate_page (page_addr n) False True s = (fst (alloc_spec n (page_flags False True) A), s1)"
      "space_rep s1 (snd (alloc_spec n (page_flags False True) A))" "same_heap s s1"
    using allocate_page_rep [OF Suc.prems(1), of "page_addr n"] n by auto
  obtain e A1 where A1: "alloc_spec n (page_flags False True) A = (e, A1)" by (metis prod.collapse)
  show ?case
  proof (cases "e = 0")
    case False
    with s1 A1 le show ?thesis by (subst alloc_up.simps) simp
  next
    case True
    have "space_rep s1 A1" using s1(2) A1 by simp
    moreover have "Suc n + k = Suc m" using Suc.prems(3) by simp
    ultimately obtain s2 where s2: "alloc_up (page_addr (Suc n)) (page_addr m) s1
        = Some (fst (alloc_run k (Suc n) A1), page_addr (fst (snd (alloc_run k (Suc n) A1))), s2)"
      "space_rep s2 (snd (snd (alloc_run k (Suc n) A1)))" "same_heap s1 s2"
      using Suc.IH Suc.prems(2) by blast
    have "same_heap s s2" using s1(3) s2(3) by (rule same_heap_trans)
    with s1 s2 A1 le True show ?thesis by (subst alloc_up.simps) (simp add: page_addr_Suc)
  qed
qed

lemma free_spec_length: "length (free_frames (snd (free_spec n A))) \<le> Suc (length (free_frames A))"
  by (simp add: free_spec_def split: option.split)

lemma free_down_rep:
  assumes "space_rep s A" "n < 1046528" "length (free_frames A) + k \<le> STACK_MAX" "n = m + k"
  shows "\<exists>s'. free_down (page_addr n) (page_addr m) s = Some s' \<and> space_rep s' (free_run k n A) \<and> same_heap s s'"
  using assms
proof (induction k arbitrary: n s A)
  case 0
  then show ?case by (subst free_down.simps) simp
next
  case (Suc k)
  have n: "m < n" "ordinary n" "n < 1048576" "m < 1048576" "length (free_frames A) < STACK_MAX"
    using Suc.prems(2,3,4) by (simp_all add: ordinary_less)
  have lt: "page_addr m < page_addr n" using n by (simp add: page_addr_less)
  obtain s1 where s1: "memory_free_page (page_addr n) s = (fst (free_spec n A), s1)"
      "space_rep s1 (snd (free_spec n A))" "same_heap s s1"
    using free_page_rep [OF Suc.prems(1), of "page_addr n"] n by auto
  have "length (free_frames (snd (free_spec n A))) + k \<le> STACK_MAX"
    using free_spec_length [of n A] Suc.prems(3) by simp
  moreover have "n - 1 < 1046528" "n - 1 = m + k" using Suc.prems(2,4) by simp_all
  ultimately obtain s2 where s2: "free_down (page_addr (n - 1)) (page_addr m) s1 = Some s2"
      "space_rep s2 (free_run k (n - 1) (snd (free_spec n A)))" "same_heap s1 s2"
    using Suc.IH [OF s1(2)] by blast
  have "same_heap s s2" using s1(3) s2(3) by (rule same_heap_trans)
  with s1 s2 lt n(1) show ?case by (subst free_down.simps) (simp add: page_addr_pred)
qed

section \<open>What the runs do\<close>

definition frame_of :: "u32 option \<Rightarrow> u32" where "frame_of e = the e AND NOT PTABLE_FLAGS_MASK"

definition frames_ok :: "space \<Rightarrow> bool" where
  "frames_ok A \<longleftrightarrow> (\<forall>f \<in> set (free_frames A). f AND 0xFFF = 0)"

lemma space_rep_frames_ok: "space_rep s A \<Longrightarrow> frames_ok A"
  using space_repD(1) frames_repD(8) by (fastforce simp: frames_ok_def)

text \<open>A page can be freed when it is mapped through a page table.\<close>

definition freeable :: "space \<Rightarrow> nat \<Rightarrow> bool" where
  "freeable A n \<longleftrightarrow> page_map A n \<noteq> None \<and> n div 1024 \<in> tables A"

lemma free_run_result:
  assumes "n = m + k"
  shows "page_map (free_run k n A) = (\<lambda>i. if m < i \<and> i \<le> n \<and> freeable A i then None else page_map A i)
    \<and> tables (free_run k n A) = tables A
    \<and> mset (free_frames (free_run k n A)) = mset (free_frames A)
         + mset (map (\<lambda>i. frame_of (page_map A i)) (filter (freeable A) [Suc m..<Suc n]))"
  using assms
proof (induction k arbitrary: n A)
  case 0
  then show ?case by (intro conjI ext) auto
next
  case (Suc k)
  let ?A = "snd (free_spec n A)"
  have n: "n = m + Suc k" "n - 1 = m + k" "Suc (n - 1) = n" using Suc.prems by simp_all
  have A1: "page_map ?A = (if freeable A n then (page_map A)(n := None) else page_map A)" "tables ?A = tables A"
      "free_frames ?A = free_frames A @ (if freeable A n then [frame_of (page_map A n)] else [])"
    by (auto simp: free_spec_def freeable_def frame_of_def split: option.split)
  have f1: "freeable ?A i = freeable A i" if "i \<noteq> n" for i using A1 that by (simp add: freeable_def)
  note IH = Suc.IH [OF n(2), of ?A]
  have p: "page_map (free_run (Suc k) n A) = (\<lambda>i. if m < i \<and> i \<le> n \<and> freeable A i then None else page_map A i)"
  proof
    fix i
    show "page_map (free_run (Suc k) n A) i = (if m < i \<and> i \<le> n \<and> freeable A i then None else page_map A i)"
      using IH [THEN conjunct1] n f1 [of i] A1(1) by (cases "i = n") (auto simp: freeable_def)
  qed
  have "map (\<lambda>i. frame_of (page_map ?A i)) (filter (freeable ?A) [Suc m..<n])
      = map (\<lambda>i. frame_of (page_map A i)) (filter (freeable A) [Suc m..<n])"
    using f1 A1(1) by (auto intro!: map_cong filter_cong)
  moreover have "[Suc m..<Suc n] = [Suc m..<n] @ [n]" using n by simp
  ultimately have "mset (free_frames (free_run (Suc k) n A)) = mset (free_frames A)
      + mset (map (\<lambda>i. frame_of (page_map A i)) (filter (freeable A) [Suc m..<Suc n]))"
    using IH [THEN conjunct2, THEN conjunct2] A1(3) n(3) by simp
  with p IH [THEN conjunct2, THEN conjunct1] A1(2) show ?case by simp
qed

lemma free_run_all:
  assumes "n = m + k" "\<And>i. m < i \<Longrightarrow> i \<le> n \<Longrightarrow> freeable A i"
  shows "page_map (free_run k n A) = (\<lambda>i. if m < i \<and> i \<le> n then None else page_map A i)"
    "tables (free_run k n A) = tables A"
    "mset (free_frames (free_run k n A)) = mset (free_frames A) + mset (map (\<lambda>i. frame_of (page_map A i)) [Suc m..<Suc n])"
proof -
  note R = free_run_result [OF assms(1), of A]
  have fil: "filter (freeable A) [Suc m..<Suc n] = [Suc m..<Suc n]"
    using assms(2) by (intro filter_True) auto
  show "page_map (free_run k n A) = (\<lambda>i. if m < i \<and> i \<le> n then None else page_map A i)"
    using R [THEN conjunct1] assms(2) by (auto simp: fun_eq_iff)
  show "tables (free_run k n A) = tables A" using R by blast
  show "mset (free_frames (free_run k n A)) = mset (free_frames A) + mset (map (\<lambda>i. frame_of (page_map A i)) [Suc m..<Suc n])"
    using R [THEN conjunct2, THEN conjunct2] unfolding fil .
qed

text \<open>
  The result of an allocation run. \<open>T\<close> are the frames that became page tables.
\<close>

definition heap_entry :: "u32 option \<Rightarrow> bool" where
  "heap_entry e \<longleftrightarrow> (\<exists>f. f AND 0xFFF = 0 \<and> e = Some (f OR page_flags False True))"

lemma frame_of_heap_entry: "f AND 0xFFF = 0 \<Longrightarrow> frame_of (Some (f OR page_flags False True)) = f"
  using or3_frame [of f]
  by (simp add: frame_of_def page_flags_def PTABLE_FLAG_PRESENT_def PTABLE_FLAG_WRITE_def)

lemma alloc_spec_ok:
  assumes "alloc_spec n (page_flags False True) A = (0, A')" "frames_ok A"
  shows "\<exists>f T. f AND 0xFFF = 0 \<and> page_map A n = None \<and> page_map A' = (page_map A)(n \<mapsto> f OR page_flags False True)
    \<and> tables A' = insert (n div 1024) (tables A) \<and> mset (free_frames A) = mset (free_frames A') + {#f#} + mset T
    \<and> length T \<le> 1 \<and> frames_ok A'"
proof (cases "free_frames A" rule: rev_cases)
  case (snoc ys f)
  have f: "f AND 0xFFF = 0" "\<forall>g \<in> set ys. g AND 0xFFF = 0" using assms(2) snoc by (simp_all add: frames_ok_def)
  show ?thesis
  proof (cases "n div 1024 \<in> tables A")
    case True
    then show ?thesis using assms(1) snoc f
      by (intro exI [of _ f] exI [of _ "[]"])
        (auto simp: alloc_spec_def Let_def frames_ok_def insert_absorb split: if_splits)
  next
    case False
    then have "ys \<noteq> []" using assms(1) snoc by (auto simp: alloc_spec_def Let_def split: if_splits)
    then obtain zs g where "ys = zs @ [g]" by (metis rev_exhaust)
    then show ?thesis using assms(1) snoc f False
      by (intro exI [of _ f] exI [of _ "[g]"])
        (auto simp: alloc_spec_def Let_def frames_ok_def butlast_append split: if_splits)
  qed
qed (use assms in \<open>simp add: alloc_spec_def split: if_splits\<close>)

lemma alloc_spec_fails:
  assumes "alloc_spec n (page_flags False True) A = (e, A')" "e \<noteq> 0"
  shows "A' = A \<and> (page_map A n \<noteq> None \<or> length (free_frames A) \<le> 1)"
  using assms by (cases "free_frames A" rule: rev_cases) (auto simp: alloc_spec_def Let_def split: if_splits)

definition run_ok :: "nat \<Rightarrow> nat \<Rightarrow> space \<Rightarrow> space \<Rightarrow> bool" where
  "run_ok n q A A' \<longleftrightarrow> (\<forall>i. if n \<le> i \<and> i < q then page_map A i = None \<and> heap_entry (page_map A' i) \<and> freeable A' i
        else page_map A' i = page_map A i)
     \<and> tables A \<subseteq> tables A'
     \<and> (\<exists>T. mset (free_frames A) = mset (free_frames A') + mset (map (\<lambda>i. frame_of (page_map A' i)) [n..<q]) + mset T
          \<and> length T \<le> q - n)"

lemma run_ok_refl: "run_ok n n A A"
  by (auto simp: run_ok_def)

lemma run_okD:
  assumes "run_ok n q A A'"
  shows "n \<le> i \<Longrightarrow> i < q \<Longrightarrow> page_map A i = None \<and> heap_entry (page_map A' i) \<and> freeable A' i"
    "\<not> (n \<le> i \<and> i < q) \<Longrightarrow> page_map A' i = page_map A i" "tables A \<subseteq> tables A'"
    "\<exists>T. mset (free_frames A) = mset (free_frames A') + mset (map (\<lambda>i. frame_of (page_map A' i)) [n..<q]) + mset T
          \<and> length T \<le> q - n"
  using assms unfolding run_ok_def by (metis, metis, blast, blast)

lemma alloc_run_result:
  assumes "alloc_run k n A = (e, q, A')" "frames_ok A"
  shows "n \<le> q \<and> q \<le> n + k \<and> run_ok n q A A' \<and> frames_ok A' \<and> (e = 0 \<longrightarrow> q = n + k)
    \<and> (e \<noteq> 0 \<longrightarrow> q < n + k \<and> (page_map A' q \<noteq> None \<or> length (free_frames A') \<le> 1))"
  using assms
proof (induction k arbitrary: n A)
  case 0
  then show ?case by (simp add: run_ok_refl)
next
  case (Suc k)
  obtain r A1 where A1: "alloc_spec n (page_flags False True) A = (r, A1)" by (metis prod.collapse)
  show ?case
  proof (cases "r = 0")
    case False
    with Suc.prems A1 have "e = r" "q = n" "A' = A1" by simp_all
    moreover have "A1 = A" "page_map A n \<noteq> None \<or> length (free_frames A) \<le> 1"
      using alloc_spec_fails [OF A1 False] by blast+
    ultimately show ?thesis using Suc.prems(2) run_ok_refl [of n A] False by simp
  next
    case True
    with A1 obtain f T where f: "f AND 0xFFF = 0" "page_map A n = None"
        "page_map A1 = (page_map A)(n \<mapsto> f OR page_flags False True)"
        "tables A1 = insert (n div 1024) (tables A)" "mset (free_frames A) = mset (free_frames A1) + {#f#} + mset T"
        "length T \<le> 1" "frames_ok A1"
      using alloc_spec_ok [OF _ Suc.prems(2)] by metis
    have run: "alloc_run k (Suc n) A1 = (e, q, A')" using Suc.prems(1) A1 True by simp
    note IH = Suc.IH [OF run f(7)]
    have ok: "run_ok (Suc n) q A1 A'" and q: "Suc n \<le> q" using IH by blast+
    note D = run_okD [OF ok]
    have n': "page_map A' n = Some (f OR page_flags False True)" using D(2) [of n] f(3) by simp
    have "n div 1024 \<in> tables A'" using D(3) f(4) by blast
    with n' have first: "heap_entry (page_map A' n)" "freeable A' n"
      using f(1) by (auto simp: heap_entry_def freeable_def)
    have "run_ok n q A A'"
      unfolding run_ok_def
    proof (intro conjI allI)
      fix i
      show "if n \<le> i \<and> i < q then page_map A i = None \<and> heap_entry (page_map A' i) \<and> freeable A' i
          else page_map A' i = page_map A i"
      proof (cases "i = n")
        case True
        then show ?thesis using first f(2) q by simp
      next
        case False
        then have "n \<le> i \<longleftrightarrow> Suc n \<le> i" by auto
        then show ?thesis using D(1) [of i] D(2) [of i] f(3) False by simp
      qed
      show "tables A \<subseteq> tables A'" using D(3) f(4) by blast
      obtain U where U: "mset (free_frames A1) = mset (free_frames A') + mset (map (\<lambda>i. frame_of (page_map A' i)) [Suc n..<q]) + mset U"
          "length U \<le> q - Suc n" using D(4) by blast
      have "[n..<q] = n # [Suc n..<q]" using q by (simp add: upt_rec)
      then have "mset (free_frames A) = mset (free_frames A') + mset (map (\<lambda>i. frame_of (page_map A' i)) [n..<q]) + mset (T @ U)"
        using f(5) U(1) n' frame_of_heap_entry [OF f(1)] by simp
      moreover have "length (T @ U) \<le> q - n" using U(2) f(6) q by simp
      ultimately show "\<exists>T. mset (free_frames A) = mset (free_frames A') + mset (map (\<lambda>i. frame_of (page_map A' i)) [n..<q]) + mset T
          \<and> length T \<le> q - n" by blast
    qed
    with IH q show ?thesis by simp
  qed
qed


section \<open>The callback\<close>

abbreviation heap_end :: "'a paging_scheme \<Rightarrow> u32" where
  "heap_end s \<equiv> kernel_heap_addr s + kernel_heap_size s"

definition heap_ok :: "'a paging_scheme \<Rightarrow> bool" where
  "heap_ok s \<longleftrightarrow> 0 < unat (kernel_heap_addr s) + unat (kernel_heap_size s)
     \<and> unat (kernel_heap_addr s) + unat (kernel_heap_size s) < unat KERNEL_HEAP_LIMIT"

lemma heap_okD:
  assumes "heap_ok s"
  shows "unat (heap_end s) = unat (kernel_heap_addr s) + unat (kernel_heap_size s)"
    "0 < unat (heap_end s)" "unat (heap_end s) < 4286578688" "unat (heap_end s - 1) = unat (heap_end s) - 1"
proof -
  show u: "unat (heap_end s) = unat (kernel_heap_addr s) + unat (kernel_heap_size s)"
    using assms by (simp add: heap_ok_def KERNEL_HEAP_LIMIT_def unat_word_ariths)
  show p: "0 < unat (heap_end s)" "unat (heap_end s) < 4286578688"
    using assms unfolding u by (simp_all add: heap_ok_def KERNEL_HEAP_LIMIT_def)
  then have "1 \<le> heap_end s" by (simp add: word_le_nat_alt)
  then show "unat (heap_end s - 1) = unat (heap_end s) - 1" by (simp add: unat_sub)
qed

text \<open>The last page below an address.\<close>

definition last_page :: "nat \<Rightarrow> nat" where "last_page a = (a - 1) div 4096"

lemma cur_end_page: "heap_ok s \<Longrightarrow> PAGE_FLOOR (heap_end s - 1) = page_addr (last_page (unat (heap_end s)))"
  using heap_okD(4) [of s] by (simp add: PAGE_FLOOR_addr page_no_def last_page_def)

lemma last_page_less: "a < 4286578688 \<Longrightarrow> last_page a < 1046528"
  by (simp add: last_page_def less_mult_imp_div_less)

lemma last_page_mono: "a \<le> b \<Longrightarrow> last_page a \<le> last_page b"
  by (simp add: last_page_def div_le_mono)

lemma grow_cases:
  assumes ok: "heap_ok s" and d: "0 < sint d"
  shows "heap_callback d s =
    (if 4286578688 \<le> unat (heap_end s) + unat d then Some (-1, s)
     else Option.bind
       (alloc_up (page_addr (Suc (last_page (unat (heap_end s))))) (page_addr (last_page (unat (heap_end s) + unat d))) s)
       (\<lambda>(alloc_error, page, s').
          if alloc_error \<noteq> 0
          then map_option (Pair (-1)) (free_down (page - PAGE_SIZE) (page_addr (last_page (unat (heap_end s)))) s')
          else Some (0, s'\<lparr>kernel_heap_size := kernel_heap_size s' + d\<rparr>)))"
proof -
  note e = heap_okD [OF ok] and p = sint_pos [OF d]
  have dn: "d \<noteq> 0x80000000" using d by auto
  have sum: "unat (heap_end s + d) = (unat (heap_end s) + unat d) mod 4294967296"
    by (simp add: unat_word_ariths(1))
  show ?thesis
  proof (cases "4286578688 \<le> unat (heap_end s) + unat d")
    case True
    have "KERNEL_HEAP_LIMIT \<le> heap_end s + d \<or> heap_end s + d < heap_end s"
    proof (cases "unat (heap_end s) + unat d < 4294967296")
      case t: True
      then have "unat (heap_end s + d) = unat (heap_end s) + unat d" using sum by simp
      then show ?thesis using True by (simp only: word_le_nat_alt KERNEL_HEAP_LIMIT_def) simp
    next
      case False
      then have "unat (heap_end s + d) = unat (heap_end s) + unat d - 4294967296"
        unfolding sum using e(3) p(3) by (simp only: not_less le_mod_geq) simp
      then show ?thesis using p(3) e(2) False by (simp only: word_less_nat_alt) linarith
    qed
    then show ?thesis using p(1,2) dn True by (auto simp: heap_callback_def Let_def)
  next
    case False
    then have u: "unat (heap_end s + d) = unat (heap_end s) + unat d" using sum by simp
    have nl: "\<not> KERNEL_HEAP_LIMIT \<le> heap_end s + d" "\<not> heap_end s + d < heap_end s"
      using False by (simp_all only: word_le_nat_alt word_less_nat_alt u KERNEL_HEAP_LIMIT_def) simp_all
    have "1 \<le> heap_end s + d" using e(2) by (simp only: word_le_nat_alt u) simp
    then have "unat (heap_end s + d - 1) = unat (heap_end s) + unat d - 1" by (simp only: unat_sub u) simp
    then have "PAGE_FLOOR (heap_end s + d - 1) = page_addr (last_page (unat (heap_end s) + unat d))"
      by (simp only: PAGE_FLOOR_addr page_no_def last_page_def)
    then show ?thesis using nl p(1,2) dn False
      unfolding heap_callback_def Let_def cur_end_page [OF ok] by (simp add: page_addr_Suc)
  qed
qed


text \<open>
  The heap grown by \<open>d\<close> bytes: every new page is mapped to a frame of its own taken from the stack,
  and nothing else is mapped anew; at most one more frame per page became a page table. On failure
  every page is as before, and only frames that became page tables are gone.
\<close>

definition heap_pages :: "'a paging_scheme \<Rightarrow> u32 \<Rightarrow> nat list" where
  "heap_pages s d = [Suc (last_page (unat (heap_end s)))..<Suc (last_page (unat (heap_end s) + unat d))]"

definition grown :: "u32 \<Rightarrow> 'a paging_scheme \<Rightarrow> space \<Rightarrow> 'a paging_scheme \<Rightarrow> space \<Rightarrow> bool" where
  "grown d s A s' A' \<longleftrightarrow> heap_callback d s = Some (0, s') \<and> space_rep s' A'
     \<and> kernel_heap_size s' = kernel_heap_size s + d \<and> kernel_heap_addr s' = kernel_heap_addr s
     \<and> (\<forall>i. if i \<in> set (heap_pages s d)
            then page_map A i = None \<and> heap_entry (page_map A' i) \<and> freeable A' i
            else page_map A' i = page_map A i)
     \<and> (\<exists>T. mset (free_frames A) = mset (free_frames A') + mset (map (\<lambda>i. frame_of (page_map A' i)) (heap_pages s d)) + mset T
          \<and> length T \<le> length (heap_pages s d))"

definition rolled_back :: "u32 \<Rightarrow> 'a paging_scheme \<Rightarrow> space \<Rightarrow> 'a paging_scheme \<Rightarrow> space \<Rightarrow> bool" where
  "rolled_back d s A s' A' \<longleftrightarrow> heap_callback d s = Some (-1, s') \<and> space_rep s' A' \<and> same_heap s s'
     \<and> page_map A' = page_map A \<and> mset (free_frames A') \<subseteq># mset (free_frames A)
     \<and> ((\<exists>i \<in> set (heap_pages s d). page_map A i \<noteq> None) \<or> length (free_frames A) < 2 * length (heap_pages s d))"

lemma set_heap_pages:
  "i \<in> set (heap_pages s d) \<longleftrightarrow> Suc (last_page (unat (heap_end s))) \<le> i \<and> i < Suc (last_page (unat (heap_end s) + unat d))"
  unfolding heap_pages_def set_upt atLeastLessThan_iff ..

lemma heap_grow_result:
  assumes ok: "heap_ok s" and d: "0 < sint d" and r: "space_rep s A"
    and lim: "unat (heap_end s) + unat d < 4286578688"
  shows "\<exists>s' A'. grown d s A s' A' \<or> rolled_back d s A s' A'"
proof -
  let ?a = "last_page (unat (heap_end s))" and ?b = "last_page (unat (heap_end s) + unat d)"
  have ab: "?a \<le> ?b" by (simp add: last_page_mono)
  have b: "?b < 1046528" using lim by (rule last_page_less)
  obtain e q A1 where run: "alloc_run (?b - ?a) (Suc ?a) A = (e, q, A1)" by (metis prod.collapse)
  note res = alloc_run_result [OF run space_rep_frames_ok [OF r]]
  have nk: "Suc ?a + (?b - ?a) = Suc ?b" using ab by simp
  obtain s1 where s1: "alloc_up (page_addr (Suc ?a)) (page_addr ?b) s = Some (e, page_addr q, s1)"
      "space_rep s1 A1" "same_heap s s1"
    using alloc_up_rep [OF r b nk] run by auto
  have ok1: "run_ok (Suc ?a) q A A1" and q: "Suc ?a \<le> q" "q \<le> Suc ?b" using res nk by auto
  note D = run_okD [OF ok1]
  obtain T where T: "mset (free_frames A) = mset (free_frames A1) + mset (map (\<lambda>i. frame_of (page_map A1 i)) [Suc ?a..<q]) + mset T"
      "length T \<le> q - Suc ?a" using D(4) by blast
  have cb: "heap_callback d s = (if e \<noteq> 0
      then map_option (Pair (-1)) (free_down (page_addr q - PAGE_SIZE) (page_addr ?a) s1)
      else Some (0, s1\<lparr>kernel_heap_size := kernel_heap_size s1 + d\<rparr>))"
    using grow_cases [OF ok d] lim s1(1) by simp
  show ?thesis
  proof (cases "e = 0")
    case True
    then have qb: "q = Suc ?b" using res nk by simp
    let ?s' = "s1\<lparr>kernel_heap_size := kernel_heap_size s1 + d\<rparr>"
    have "space_rep ?s' A1"
      using s1(2) unfolding space_rep_def frames_rep_def mapping_def table_set_def by simp
    moreover have "\<forall>i. if i \<in> set (heap_pages s d)
            then page_map A i = None \<and> heap_entry (page_map A1 i) \<and> freeable A1 i
            else page_map A1 i = page_map A i"
      using D(1,2) unfolding set_heap_pages qb by simp
    ultimately have "grown d s A ?s' A1"
      using cb True T s1(3) unfolding grown_def by (auto simp: heap_pages_def qb same_heap_def)
    then show ?thesis by blast
  next
    case False
    have qb: "q < Suc ?b" "page_map A1 q \<noteq> None \<or> length (free_frames A1) \<le> 1" using res nk False by auto
    have fr: "freeable A1 i" if "?a < i" "i \<le> q - 1" for i using D(1) [of i] that q by simp
    have k: "q - 1 = ?a + (q - 1 - ?a)" "0 < q" using q by simp_all
    have le: "length (free_frames A1) + (q - 1 - ?a) \<le> STACK_MAX"
    proof -
      have "length (free_frames A) = length (free_frames A1) + (q - Suc ?a) + length T"
        using arg_cong [OF T(1), of size] by simp
      then show ?thesis using frames_repD(1) [OF space_repD(1) [OF r]] by simp
    qed
    have "q - 1 < 1046528" using qb b by simp
    then obtain s2 where s2: "free_down (page_addr (q - 1)) (page_addr ?a) s1 = Some s2"
        "space_rep s2 (free_run (q - 1 - ?a) (q - 1) A1)" "same_heap s1 s2"
      using free_down_rep [OF s1(2) _ le k(1)] by blast
    let ?A' = "free_run (q - 1 - ?a) (q - 1) A1"
    have F: "page_map ?A' = (\<lambda>i. if ?a < i \<and> i \<le> q - 1 then None else page_map A1 i)"
        "mset (free_frames ?A') = mset (free_frames A1) + mset (map (\<lambda>i. frame_of (page_map A1 i)) [Suc ?a..<Suc (q - 1)])"
      using free_run_all [OF k(1), of A1] fr by blast+
    have "page_map ?A' = page_map A"
    proof
      fix i
      show "page_map ?A' i = page_map A i"
      proof (cases "?a < i \<and> i \<le> q - 1")
        case True
        then have "Suc ?a \<le> i" "i < q" using k(2) by auto
        then show ?thesis using F(1) D(1) [of i] True by simp
      next
        case False
        then have "\<not> (Suc ?a \<le> i \<and> i < q)" using k(2) by auto
        from D(2) [OF this] show ?thesis unfolding F(1) if_not_P [OF False] .
      qed
    qed
    moreover have "mset (free_frames A) = mset (free_frames ?A') + mset T"
      using F(2) T(1) k(2) by simp
    then have "mset (free_frames ?A') \<subseteq># mset (free_frames A)" by simp
    moreover have "(\<exists>i \<in> set (heap_pages s d). page_map A i \<noteq> None) \<or> length (free_frames A) < 2 * length (heap_pages s d)"
    proof (cases "page_map A1 q = None")
      case False
      then have "page_map A q \<noteq> None" using D(2) [of q] by simp
      moreover have "q \<in> set (heap_pages s d)" using q qb unfolding set_heap_pages by simp
      ultimately show ?thesis by blast
    next
      case True
      have "length (free_frames A) = length (free_frames A1) + (q - Suc ?a) + length T"
        using arg_cong [OF T(1), of size] by simp
      then have "length (free_frames A) < 2 * (?b - ?a)" using T(2) qb True q by simp
      then have "length (free_frames A) < 2 * length (heap_pages s d)"
        unfolding heap_pages_def length_upt by simp
      then show ?thesis by blast
    qed
    moreover have "same_heap s s2" using s1(3) s2(3) by (rule same_heap_trans)
    ultimately have "rolled_back d s A s2 ?A'"
      using cb False s2(1,2) k(2) unfolding rolled_back_def by (simp add: page_addr_pred)
    then show ?thesis by blast
  qed
qed


definition shrink_pages :: "'a paging_scheme \<Rightarrow> u32 \<Rightarrow> nat list" where
  "shrink_pages s d = [Suc (last_page (unat (heap_end s) - unat (- d)))..<Suc (last_page (unat (heap_end s)))]"

definition shrunk :: "u32 \<Rightarrow> 'a paging_scheme \<Rightarrow> space \<Rightarrow> 'a paging_scheme \<Rightarrow> space \<Rightarrow> bool" where
  "shrunk d s A s' A' \<longleftrightarrow> heap_callback d s = Some (0, s') \<and> space_rep s' A'
     \<and> kernel_heap_size s' = kernel_heap_size s + d \<and> kernel_heap_addr s' = kernel_heap_addr s
     \<and> page_map A' = (\<lambda>i. if i \<in> set (shrink_pages s d) \<and> freeable A i then None else page_map A i)
     \<and> tables A' = tables A
     \<and> mset (free_frames A') = mset (free_frames A)
          + mset (map (\<lambda>i. frame_of (page_map A i)) (filter (freeable A) (shrink_pages s d)))"

lemma set_shrink_pages:
  "i \<in> set (shrink_pages s d) \<longleftrightarrow> last_page (unat (heap_end s) - unat (- d)) < i \<and> i \<le> last_page (unat (heap_end s))"
  unfolding shrink_pages_def set_upt atLeastLessThan_iff Suc_le_eq less_Suc_eq_le ..

lemma heap_shrink_result:
  assumes ok: "heap_ok s" and d: "sint d < 0" "d \<noteq> 0x80000000" and r: "space_rep s A"
    and lt: "unat (- d) < unat (heap_end s)"
    and chk: "\<not> kernel_heap_size s - (- d) < KERNEL_INITIAL_HEAP_SIZE"
    and room: "length (free_frames A) + length (shrink_pages s d) \<le> STACK_MAX"
  shows "\<exists>s' A'. shrunk d s A s' A'"
proof -
  let ?a = "last_page (unat (heap_end s) - unat (- d))" and ?b = "last_page (unat (heap_end s))"
  note e = heap_okD [OF ok] and p = sint_neg [OF d(1)]
  have ab: "?a \<le> ?b" by (simp add: last_page_mono)
  have b: "?b < 1046528" using e(3) by (rule last_page_less)
  have nl: "\<not> heap_end s < - d" using lt by (simp only: word_less_nat_alt not_less)
  have u: "unat (heap_end s - (- d)) = unat (heap_end s) - unat (- d)"
    using lt by (intro unat_sub) (simp only: word_le_nat_alt)
  have "1 \<le> heap_end s - (- d)" using lt by (simp only: word_le_nat_alt u) simp
  then have "unat (heap_end s - (- d) - 1) = unat (heap_end s) - unat (- d) - 1" by (simp only: unat_sub u) simp
  then have fl: "PAGE_FLOOR (heap_end s - (- d) - 1) = page_addr ?a"
    by (simp only: PAGE_FLOOR_addr page_no_def last_page_def)
  have k: "?b = ?a + (?b - ?a)" using ab by simp
  have "length (free_frames A) + (?b - ?a) \<le> STACK_MAX" using room unfolding shrink_pages_def length_upt by simp
  from free_down_rep [OF r b this k] obtain s1 where
    s1: "free_down (page_addr ?b) (page_addr ?a) s = Some s1" "space_rep s1 (free_run (?b - ?a) ?b A)" "same_heap s s1"
    by blast
  let ?s' = "s1\<lparr>kernel_heap_size := kernel_heap_size s1 - (- d)\<rparr>" and ?A' = "free_run (?b - ?a) ?b A"
  have "heap_callback d s = Some (0, ?s')"
    unfolding heap_callback_def Let_def cur_end_page [OF ok] fl using nl d p(1) chk s1(1) by simp
  moreover have "space_rep ?s' ?A'"
    using s1(2) unfolding space_rep_def frames_rep_def mapping_def table_set_def by simp
  moreover note F = free_run_result [OF k, of A]
  have "page_map ?A' = (\<lambda>i. if i \<in> set (shrink_pages s d) \<and> freeable A i then None else page_map A i)"
    using F [THEN conjunct1] unfolding set_shrink_pages by (simp add: fun_eq_iff)
  moreover have "mset (free_frames ?A') = mset (free_frames A)
          + mset (map (\<lambda>i. frame_of (page_map A i)) (filter (freeable A) (shrink_pages s d)))"
    using F [THEN conjunct2, THEN conjunct2] unfolding shrink_pages_def .
  moreover have "tables ?A' = tables A" using F by blast
  ultimately have "shrunk d s A ?s' ?A'"
    using s1(3) unfolding shrunk_def by (simp add: same_heap_def)
  then show ?thesis by blast
qed

section \<open>Properties\<close>

lemma or_flags_frame:
  assumes "f AND 0xFFF = 0"
  shows "(f OR page_flags u w) AND NOT PTABLE_FLAGS_MASK = f"
proof -
  have "page_flags u w AND NOT PTABLE_FLAGS_MASK = 0"
    using arg_cong [OF page_flags_mask [of u w], of "\<lambda>x. x AND NOT PTABLE_FLAGS_MASK"] by (simp add: and.assoc)
  then show ?thesis using aligned_and_not [OF assms] by (simp add: mask12 bit.conj_disj_distrib2)
qed

text \<open>C19: Allocating and freeing a page refine their abstract contract on the free frames and the
  page map, for every page that is not part of the paging structures themselves.\<close>

theorem pages_refine_contract:
  assumes "space_rep s A" "ordinary (page_no v)" "length (free_frames A) < STACK_MAX"
  shows "(\<exists>s'. memory_allocate_page v u w s = (fst (alloc_spec (page_no v) (page_flags u w) A), s')
      \<and> space_rep s' (snd (alloc_spec (page_no v) (page_flags u w) A)) \<and> same_heap s s')
    \<and> (\<exists>s'. memory_free_page v s = (fst (free_spec (page_no v) A), s')
      \<and> space_rep s' (snd (free_spec (page_no v) A)) \<and> same_heap s s')"
  using allocate_page_rep [OF assms(1,2)] free_page_rep [OF assms] by blast

text \<open>C20: A page that is allocated and freed again is unmapped again, and its frame is back on top of
  the stack: the free frames are those before, without the one that may have become a page table.\<close>

theorem allocate_free_page:
  assumes "space_rep s A" "ordinary (page_no v)" "memory_allocate_page v u w s = (0, s')"
  shows "page_is_mapped v s' \<and> (\<exists>s'' A'. memory_free_page v s' = (0, s'') \<and> space_rep s'' A' \<and> page_map A' = page_map A
      \<and> free_frames A' = (if page_no v div 1024 \<in> tables A then free_frames A
           else butlast (butlast (free_frames A)) @ [List.last (free_frames A)]))"
proof -
  let ?n = "page_no v"
  note v = assms(2)
  obtain A1 where A1: "alloc_spec ?n (page_flags u w) A = (0, A1)" "space_rep s' A1"
    using allocate_page_rep [OF assms(1,2), of u w] assms(3) by (metis fst_conv prod.collapse prod.inject)
  then have un: "page_map A ?n = None" "free_frames A \<noteq> []" by (auto simp: alloc_spec_def split: if_splits)
  let ?f = "List.last (free_frames A)"
  have "?f AND 0xFFF = 0" using space_rep_frames_ok [OF assms(1)] un(2) by (simp add: frames_ok_def)
  then have f: "(?f OR page_flags u w) AND NOT PTABLE_FLAGS_MASK = ?f" by (rule or_flags_frame)
  have A1': "page_map A1 = (page_map A)(?n \<mapsto> ?f OR page_flags u w)" "tables A1 = insert (?n div 1024) (tables A)"
      "free_frames A1 = (if ?n div 1024 \<in> tables A then butlast (free_frames A) else butlast (butlast (free_frames A)))"
    using A1(1) un by (auto simp: alloc_spec_def Let_def insert_absorb split: if_splits)
  have len: "length (free_frames A1) < STACK_MAX"
    using frames_repD(1) [OF space_repD(1) [OF assms(1)]] un(2) A1'(3) by (cases "free_frames A") auto
  let ?A2 = "A1\<lparr>free_frames := free_frames A1 @ [?f], page_map := (page_map A1)(?n := None)\<rparr>"
  have "free_spec ?n A1 = (0, ?A2)" using A1'(1,2) f by (simp add: free_spec_def)
  then obtain s'' where "memory_free_page v s' = (0, s'')" "space_rep s'' ?A2"
    using free_page_rep [OF A1(2) v len] by auto
  moreover have "page_map ?A2 = page_map A" using un(1) A1'(1) by auto
  moreover have "free_frames ?A2 = (if ?n div 1024 \<in> tables A then free_frames A
           else butlast (butlast (free_frames A)) @ [?f])"
    using A1'(3) un(2) by simp
  moreover have "page_is_mapped v s'" using space_repD(2) [OF A1(2) v] A1'(1) by (simp add: page_is_mapped_iff)
  ultimately show ?thesis by blast
qed

text \<open>C21: Growing the kernel heap (a positive request of \<open>sbrk\<close>): beyond the limit the callback refuses
  and changes nothing; below it either every new page is mapped to a frame of its own, or, when a page
  was taken or the frames ran out, every page is as before and the heap has its old size.\<close>

theorem heap_grow_spec:
  assumes "heap_ok s" "0 < sint d" "space_rep s A"
  shows "if unat KERNEL_HEAP_LIMIT \<le> unat (heap_end s) + unat d then heap_callback d s = Some (-1, s)
    else \<exists>s' A'. grown d s A s' A' \<or> rolled_back d s A s' A'"
proof (cases "unat KERNEL_HEAP_LIMIT \<le> unat (heap_end s) + unat d")
  case True
  then have "4286578688 \<le> unat (heap_end s) + unat d" by (simp add: KERNEL_HEAP_LIMIT_def)
  then have "heap_callback d s = Some (-1, s)" using grow_cases [OF assms(1,2)] by simp
  then show ?thesis using True by simp
next
  case False
  then have "unat (heap_end s) + unat d < 4286578688" by (simp add: KERNEL_HEAP_LIMIT_def)
  with heap_grow_result [OF assms] False show ?thesis by simp
qed

text \<open>C22: Shrinking the kernel heap within its size: the negation of the least integer is undefined; below the initial
  size the callback refuses and changes nothing, otherwise exactly the pages above the new end are unmapped, their frames
  are free again and the size is reduced by the request.\<close>

theorem heap_shrink_spec:
  assumes ok: "heap_ok s" and d: "sint d < 0" and r: "space_rep s A"
    and le: "unat (- d) \<le> unat (kernel_heap_size s)"
    and room: "length (free_frames A) + length (shrink_pages s d) \<le> STACK_MAX"
  shows "if d = 0x80000000 then heap_callback d s = None
    else if unat (kernel_heap_size s) - unat (- d) < unat KERNEL_INITIAL_HEAP_SIZE then heap_callback d s = Some (-1, s)
    else \<exists>s' A'. shrunk d s A s' A'"
proof (cases "d = 0x80000000")
  case True
  then show ?thesis by (simp add: heap_callback_def)
next
  case dn: False
  have u: "unat (kernel_heap_size s - (- d)) = unat (kernel_heap_size s) - unat (- d)"
    using le by (intro unat_sub) (simp only: word_le_nat_alt)
  then have c: "kernel_heap_size s - (- d) < KERNEL_INITIAL_HEAP_SIZE
      \<longleftrightarrow> unat (kernel_heap_size s) - unat (- d) < unat KERNEL_INITIAL_HEAP_SIZE"
    by (simp only: word_less_nat_alt)
  show ?thesis
  proof (cases "unat (kernel_heap_size s) - unat (- d) < unat KERNEL_INITIAL_HEAP_SIZE")
    case True
    have "\<not> heap_end s < - d"
      using le heap_okD(1) [OF ok] by (simp only: word_less_nat_alt)
    with True c sint_neg(1) [OF d] d dn have "heap_callback d s = Some (-1, s)"
      unfolding heap_callback_def Let_def by simp
    with True dn show ?thesis by simp
  next
    case False
    have "unat (- d) < unat (heap_end s)"
      using False le heap_okD(1) [OF ok] by (simp add: KERNEL_INITIAL_HEAP_SIZE_def)
    with heap_shrink_result [OF ok d dn r _ _ room] False c dn show ?thesis by simp
  qed
qed

text \<open>A request to shrink the heap by more than its size is not refused: the check compares the
  wrapped difference, so pages below the heap are unmapped as well and the heap size wraps around.\<close>

theorem heap_shrink_underflow:
  assumes ok: "heap_ok s" and d: "sint d < 0" "d \<noteq> 0x80000000" and r: "space_rep s A"
    and gt: "unat (kernel_heap_size s) < unat (- d)" "unat (- d) < unat (heap_end s)"
    and room: "length (free_frames A) + length (shrink_pages s d) \<le> STACK_MAX"
  shows "\<exists>s' A'. shrunk d s A s' A' \<and> unat (kernel_heap_size s') = 4294967296 + unat (kernel_heap_size s) - unat (- d)"
proof -
  have u: "unat (kernel_heap_size s - (- d)) = 4294967296 + unat (kernel_heap_size s) - unat (- d)"
    using gt(1) unat_sub_if_size [of "kernel_heap_size s" "- d"] by (simp add: word_size)
  then have "\<not> kernel_heap_size s - (- d) < KERNEL_INITIAL_HEAP_SIZE"
    using sint_neg(3) [OF d(1)] by (simp only: word_less_nat_alt) (simp add: KERNEL_INITIAL_HEAP_SIZE_def)
  from heap_shrink_result [OF ok d r gt(2) this room] obtain s' A' where s': "shrunk d s A s' A'" by blast
  then have "kernel_heap_size s' = kernel_heap_size s - (- d)" by (simp add: shrunk_def)
  with s' u show ?thesis by metis
qed


section \<open>A concrete address space\<close>

text \<open>
  A heap of three pages at \<open>0xC0200000\<close>, mapped through directory entry 768, and three free frames.
\<close>

definition demo_tables :: "nat \<Rightarrow> nat \<Rightarrow> u32" where
  "demo_tables d e =
     (if d = 1023 then (if e = 1022 then 0x5003 else if e = 768 then 0x6003 else 0)
      else if d = 768 \<and> 512 \<le> e \<and> e \<le> 514 then 0x10003 else 0)"

definition demo_paging0 :: paging where
  "demo_paging0 = \<lparr>pt = demo_tables, pstack_pointer = KERNEL_PSTACK_TOP, pstack_mem = (\<lambda>a. 0),
     kernel_heap_addr = 0xC0200000, kernel_heap_size = 12288, page_directory = 0\<rparr>"

definition demo_paging :: paging where
  "demo_paging = snd (pstack_push 0x102000 (snd (pstack_push 0x101000 (snd (pstack_push 0x100000 demo_paging0)))))"

definition view :: "paging \<Rightarrow> u32 list \<Rightarrow> space" where
  "view s ys = \<lparr>free_frames = ys, page_map = mapping s, tables = {d. table_set s d}\<rparr>"

lemma view_rep: "frames_rep s ys \<Longrightarrow> space_rep s (view s ys)"
  by (simp add: space_rep_def view_def)

lemma demo_frames0: "frames_rep demo_paging0 []"
  by (simp add: frames_rep_def demo_paging0_def demo_tables_def stack_pages_def KERNEL_PSTACK_TOP_def
      PTABLE_FLAG_PRESENT_def PTABLE_FLAG_LARGEPAGE_def)

lemma demo_frames: "frames_rep demo_paging [0x100000, 0x101000, 0x102000]" "same_outside_stack demo_paging0 demo_paging"
proof -
  let ?s1 = "snd (pstack_push 0x100000 demo_paging0)"
  let ?s2 = "snd (pstack_push 0x101000 ?s1)"
  have r1: "frames_rep ?s1 [0x100000]" "same_outside_stack demo_paging0 ?s1"
    using fs.push_holds [OF demo_frames0, of "0x100000"] by (simp_all add: STACK_MAX_def)
  have r2: "frames_rep ?s2 [0x100000, 0x101000]" "same_outside_stack ?s1 ?s2"
    using fs.push_holds [OF r1(1), of "0x101000"] by (simp_all add: STACK_MAX_def)
  have r3: "frames_rep demo_paging [0x100000, 0x101000, 0x102000]" "same_outside_stack ?s2 demo_paging"
    using fs.push_holds [OF r2(1), of "0x102000"] by (simp_all add: STACK_MAX_def demo_paging_def)
  show "frames_rep demo_paging [0x100000, 0x101000, 0x102000]" by (rule r3(1))
  show "same_outside_stack demo_paging0 demo_paging"
    using r1(2) r2(2) r3(2) same_outside_stack_trans by blast
qed

abbreviation demo_space :: space where "demo_space \<equiv> view demo_paging [0x100000, 0x101000, 0x102000]"

lemmas demo_rep = view_rep [OF demo_frames(1)]

lemma demo_heap: "kernel_heap_addr demo_paging = 0xC0200000" "kernel_heap_size demo_paging = 12288" "heap_ok demo_paging"
  using demo_frames(2) by (simp_all add: same_outside_stack_def demo_paging0_def heap_ok_def KERNEL_HEAP_LIMIT_def)

lemma demo_ordinary: "ordinary (page_no 0xC0203000)"
  by (simp add: ordinary_def page_no_def)

theorem pages_refine_contract_witness:
  "space_rep demo_paging demo_space \<and> (\<exists>s'. memory_allocate_page 0xC0203000 False True demo_paging
        = (fst (alloc_spec (page_no 0xC0203000) (page_flags False True) demo_space), s')
      \<and> space_rep s' (snd (alloc_spec (page_no 0xC0203000) (page_flags False True) demo_space)) \<and> same_heap demo_paging s')"
  using pages_refine_contract [OF demo_rep demo_ordinary, of False True] demo_rep by (simp add: STACK_MAX_def view_def)

lemma demo_unmapped: "mapping demo_paging (page_no 0xC0203000) = None" "table_set demo_paging 768"
proof -
  have "pt demo_paging 1023 = demo_tables 1023" "pt demo_paging 768 = demo_tables 768"
    using demo_frames(2) by (simp_all add: same_outside_stack_def demo_paging0_def)
  then show "mapping demo_paging (page_no 0xC0203000) = None" "table_set demo_paging 768"
    by (simp_all add: mapping_def entry_mapping_def table_set_def page_no_def demo_tables_def
        PTABLE_FLAG_PRESENT_def PTABLE_FLAG_LARGEPAGE_def)
qed

lemma demo_allocates: "fst (memory_allocate_page 0xC0203000 False True demo_paging) = 0"
  using allocate_page_rep [OF demo_rep demo_ordinary, of False True] demo_unmapped
  by (auto simp: alloc_spec_def view_def page_no_def)

theorem allocate_free_page_witness:
  "\<exists>s' s''. memory_allocate_page 0xC0203000 False True demo_paging = (0, s') \<and> page_is_mapped 0xC0203000 s'
    \<and> memory_free_page 0xC0203000 s' = (0, s'')"
proof -
  obtain s' where s': "memory_allocate_page 0xC0203000 False True demo_paging = (0, s')"
    using demo_allocates by (metis prod.collapse)
  from allocate_free_page [OF demo_rep demo_ordinary s'] s' show ?thesis by blast
qed

theorem heap_grow_spec_witness:
  "heap_ok demo_paging \<and> \<not> unat KERNEL_HEAP_LIMIT \<le> unat (heap_end demo_paging) + unat (4096 :: u32)
    \<and> (\<exists>s' A'. grown 4096 demo_paging demo_space s' A' \<or> rolled_back 4096 demo_paging demo_space s' A')"
proof -
  have "0 < sint (4096 :: u32)" by simp
  from heap_grow_spec [OF demo_heap(3) this demo_rep] demo_heap show ?thesis
    by (simp add: KERNEL_HEAP_LIMIT_def)
qed

lemma demo_room: "length (free_frames demo_space) + length (shrink_pages demo_paging d) \<le> STACK_MAX"
proof -
  have "length (shrink_pages demo_paging d) \<le> last_page (unat (heap_end demo_paging))"
    unfolding shrink_pages_def length_upt by simp
  also have "\<dots> = 786946" by (simp add: demo_heap last_page_def)
  finally show ?thesis by (simp add: view_def STACK_MAX_def)
qed

theorem heap_shrink_spec_witness:
  "\<exists>s' A'. shrunk (- 4096) demo_paging demo_space s' A'"
proof -
  have "sint (- 4096 :: u32) < 0" by simp
  from heap_shrink_spec [OF demo_heap(3) this demo_rep _ demo_room] show ?thesis
    by (simp add: demo_heap KERNEL_INITIAL_HEAP_SIZE_def)
qed

theorem heap_shrink_underflow_witness:
  "\<exists>s' A'. shrunk (- 16384) demo_paging demo_space s' A' \<and> unat (kernel_heap_size s') = 4294963200"
proof -
  have "sint (- 16384 :: u32) < 0" "(- 16384 :: u32) \<noteq> 0x80000000" by simp_all
  from heap_shrink_underflow [OF demo_heap(3) this demo_rep _ _ demo_room] show ?thesis
    by (simp add: demo_heap)
qed

end
