(* ===== verification/KMemInit.thy ===== *)
theory KMemInit
  imports KHeapPages
begin

text \<open>
  Initialisation of the memory (\<open>memory_init\<close> of src/system/kernel/memory.c): which frames are
  free and which pages are mapped when it returns.
\<close>

section \<open>The frames of the memory map\<close>

definition region_pages :: "mem_entry \<Rightarrow> nat list" where
  "region_pages e =
     (if me_type e = MMAP_TYPE_FREE
      then [(unat (me_address e) + 4095) div 4096..<(unat (me_address e) + unat (me_size e)) div 4096]
      else [])"

text \<open>Rounding the ends of a free region to pages does not wrap.\<close>

definition region_ok :: "mem_entry \<Rightarrow> bool" where
  "region_ok e \<longleftrightarrow> (me_type e = MMAP_TYPE_FREE \<longrightarrow>
     unat (me_address e) \<le> 0xFFFFF000 \<and> unat (me_address e) + unat (me_size e) < 4294967296)"

lemma push_frames_rep:
  assumes "frames_rep s ys" "b < 1048576" "a \<le> b" "length ys + (b - a) \<le> STACK_MAX"
  shows "\<exists>s'. push_frames (page_addr a) (page_addr b) s = Some s' \<and> frames_rep s' (ys @ map page_addr [a..<b])
    \<and> same_outside_stack s s'"
  using assms
proof (induction "b - a" arbitrary: a s ys)
  case 0
  then show ?case by (subst push_frames.simps) (simp add: page_addr_less)
next
  case (Suc k)
  have lt: "page_addr a < page_addr b" "a < b" using Suc.hyps(2) Suc.prems(2,3) by (simp_all add: page_addr_less)
  have al: "page_addr a AND 0xFFF = 0"
    using page_aligned_mod [of "page_addr a"] lt(2) Suc.prems(2) by (simp add: page_addr_unat)
  have "length ys < STACK_MAX" using lt(2) Suc.prems(4) by simp
  note p = pstack_push_rep [OF Suc.prems(1) this al]
  let ?s1 = "snd (pstack_push (page_addr a) s)"
  have "k = b - Suc a" "Suc a \<le> b" "length (ys @ [page_addr a]) + (b - Suc a) \<le> STACK_MAX"
    using Suc.hyps(2) lt(2) Suc.prems(4) by simp_all
  with Suc.hyps(1) [of "Suc a" ?s1 "ys @ [page_addr a]"] p Suc.prems(2)
  obtain s' where s': "push_frames (page_addr (Suc a)) (page_addr b) ?s1 = Some s'"
      "frames_rep s' ((ys @ [page_addr a]) @ map page_addr [Suc a..<b])" "same_outside_stack ?s1 s'"
    by blast
  have "[a..<b] = a # [Suc a..<b]" using lt(2) by (simp add: upt_conv_Cons)
  moreover have "same_outside_stack s s'" using p s'(3) same_outside_stack_trans by blast
  ultimately show ?case
    using s' lt(1) by (subst push_frames.simps) (simp add: page_addr_Suc)
qed

lemma PAGE_ALIGN_addr:
  assumes "unat a \<le> 0xFFFFF000"
  shows "PAGE_ALIGN a = page_addr ((unat a + 4095) div 4096)"
proof -
  have "PAGE_ALIGN a = PAGE_FLOOR (a + (PAGE_SIZE - 1))" by (simp add: PAGE_ALIGN_def PAGE_FLOOR_def)
  moreover have "unat (a + (PAGE_SIZE - 1)) = unat a + 4095"
    using assms by (simp add: PAGE_SIZE_def unat_word_ariths)
  ultimately show ?thesis by (simp add: PAGE_FLOOR_addr page_no_def)
qed

lemma push_frames_none: "\<not> f < e \<Longrightarrow> push_frames f e s = Some s"
  by (subst push_frames.simps) simp

lemma push_regions_rep:
  assumes "frames_rep s ys" "\<forall>e \<in> set es. region_ok e"
    and "length ys + length (concat (map region_pages es)) \<le> STACK_MAX"
  shows "\<exists>s'. push_regions es s = Some s' \<and> frames_rep s' (ys @ map page_addr (concat (map region_pages es)))
    \<and> same_outside_stack s s'"
  using assms
proof (induction es arbitrary: s ys)
  case Nil
  then show ?case by simp
next
  case (Cons e es)
  let ?a = "(unat (me_address e) + 4095) div 4096" and ?b = "(unat (me_address e) + unat (me_size e)) div 4096"
  have step: "\<exists>s1. (if me_type e \<noteq> MMAP_TYPE_FREE then Some s
        else push_frames (PAGE_ALIGN (me_address e)) (PAGE_FLOOR (me_address e + me_size e)) s) = Some s1
      \<and> frames_rep s1 (ys @ map page_addr (region_pages e)) \<and> same_outside_stack s s1"
  proof (cases "me_type e = MMAP_TYPE_FREE")
    case False
    then show ?thesis using Cons.prems(1) by (simp add: region_pages_def)
  next
    case True
    have ok: "unat (me_address e) \<le> 0xFFFFF000" "unat (me_address e) + unat (me_size e) < 4294967296"
      using Cons.prems(2) True by (simp_all add: region_ok_def)
    have ea: "PAGE_ALIGN (me_address e) = page_addr ?a" by (rule PAGE_ALIGN_addr [OF ok(1)])
    have "unat (me_address e + me_size e) = unat (me_address e) + unat (me_size e)"
      using ok(2) by (simp add: unat_word_ariths)
    then have eb: "PAGE_FLOOR (me_address e + me_size e) = page_addr ?b" by (simp add: PAGE_FLOOR_addr page_no_def)
    have b: "?b < 1048576" using ok(2) by (simp add: less_mult_imp_div_less)
    have a: "?a < 1048576" using ok(1) by (simp add: less_mult_imp_div_less)
    show ?thesis
    proof (cases "?a \<le> ?b")
      case t: True
      have "length ys + (?b - ?a) \<le> STACK_MAX" using Cons.prems(3) True by (simp add: region_pages_def)
      from push_frames_rep [OF Cons.prems(1) b t this] show ?thesis
        using True by (simp add: ea eb region_pages_def)
    next
      case False
      then have "\<not> page_addr ?a < page_addr ?b" using a b by (simp add: page_addr_less)
      from push_frames_none [OF this, of s] show ?thesis
        using True False Cons.prems(1) by (simp add: ea eb region_pages_def)
    qed
  qed
  then obtain s1 where s1: "(if me_type e \<noteq> MMAP_TYPE_FREE then Some s
        else push_frames (PAGE_ALIGN (me_address e)) (PAGE_FLOOR (me_address e + me_size e)) s) = Some s1"
      "frames_rep s1 (ys @ map page_addr (region_pages e))" "same_outside_stack s s1" by blast
  have "\<forall>e \<in> set es. region_ok e"
    "length (ys @ map page_addr (region_pages e)) + length (concat (map region_pages es)) \<le> STACK_MAX"
    using Cons.prems(2,3) by simp_all
  from Cons.IH [OF s1(2) this] obtain s2 where s2: "push_regions es s1 = Some s2"
      "frames_rep s2 ((ys @ map page_addr (region_pages e)) @ map page_addr (concat (map region_pages es)))"
      "same_outside_stack s1 s2" by blast
  have "same_outside_stack s s2" using s1(3) s2(3) by (rule same_outside_stack_trans)
  with s1(1) s2(1,2) show ?case by simp
qed

section \<open>The initial heap\<close>

lemma map_heap_rep:
  assumes "space_rep s A" "n + k \<le> 1046528" "fst (alloc_run k n A) = 0"
  shows "\<exists>s'. map_heap k (page_addr n) s = Some s' \<and> space_rep s' (snd (snd (alloc_run k n A))) \<and> same_heap s s'"
  using assms
proof (induction k arbitrary: n s A)
  case 0
  then show ?case by simp
next
  case (Suc k)
  have n: "ordinary n" "n < 1048576" using Suc.prems(2) by (simp_all add: ordinary_less)
  obtain s1 where s1: "memory_allocate_page (page_addr n) False True s = (fst (alloc_spec n (page_flags False True) A), s1)"
      "space_rep s1 (snd (alloc_spec n (page_flags False True) A))" "same_heap s s1"
    using allocate_page_rep [OF Suc.prems(1), of "page_addr n"] n by auto
  obtain e A1 where A1: "alloc_spec n (page_flags False True) A = (e, A1)" by (metis prod.collapse)
  have e: "e = 0" using Suc.prems(3) A1 by (auto split: if_splits)
  have "space_rep s1 A1" using s1(2) A1 by simp
  moreover have "Suc n + k \<le> 1046528" "fst (alloc_run k (Suc n) A1) = 0" using Suc.prems(2,3) A1 e by simp_all
  ultimately obtain s2 where s2: "map_heap k (page_addr (Suc n)) s1 = Some s2"
      "space_rep s2 (snd (snd (alloc_run k (Suc n) A1)))" "same_heap s1 s2" using Suc.IH by blast
  have "same_heap s s2" using s1(3) s2(3) by (rule same_heap_trans)
  with s1 s2 A1 e show ?case by (simp add: page_addr_Suc)
qed

lemma alloc_run_enough:
  assumes "frames_ok A" "\<forall>i. n \<le> i \<and> i < n + k \<longrightarrow> page_map A i = None" "2 * k \<le> length (free_frames A)"
  shows "fst (alloc_run k n A) = 0"
proof (rule ccontr)
  obtain e q A' where run: "alloc_run k n A = (e, q, A')" by (metis prod.collapse)
  assume "fst (alloc_run k n A) \<noteq> 0"
  with run have e: "e \<noteq> 0" by simp
  note res = alloc_run_result [OF run assms(1)]
  have q: "n \<le> q" "q < n + k" "page_map A' q \<noteq> None \<or> length (free_frames A') \<le> 1" using res e by auto
  have ok: "run_ok n q A A'" using res by blast
  obtain T where T: "mset (free_frames A) = mset (free_frames A') + mset (map (\<lambda>i. frame_of (page_map A' i)) [n..<q]) + mset T"
      "length T \<le> q - n" using run_okD(4) [OF ok] by blast
  have "length (free_frames A) = length (free_frames A') + (q - n) + length T"
    using arg_cong [OF T(1), of size] by simp
  moreover have "page_map A' q = None" using run_okD(2) [OF ok, of q] assms(2) q by simp
  ultimately show False using q T(2) assms(3) by simp
qed


section \<open>Dropping the low mapping\<close>

abbreviation drop_low :: "nat \<Rightarrow> 'a paging_scheme \<Rightarrow> 'a paging_scheme" where
  "drop_low k s \<equiv> s\<lparr>pt := (pt s)(1023 := (\<lambda>i. if i < k then 0 else pde s i))\<rparr>"

lemma drop_low_mapping:
  assumes "ordinary n"
  shows "mapping (drop_low k s) n = (if n div 1024 < k then None else mapping s n)"
  using assms by (auto simp: mapping_def ordinary_def entry_mapping_def)

lemma drop_low_frames: "k \<le> 1022 \<Longrightarrow> frames_rep (drop_low k s) ys = frames_rep s ys"
  by (rule frames_rep_cong) auto

lemma memory_init_result:
  assumes empty: "frames_rep (s\<lparr>pstack_pointer := KERNEL_PSTACK_TOP\<rparr>) []"
    and regions: "\<forall>e \<in> set mmap. region_ok e" "length (concat (map region_pages mmap)) \<le> STACK_MAX"
      "4 \<le> length (concat (map region_pages mmap))"
    and heap: "h + 2 \<le> 1046528" "mapping s h = None" "mapping s (Suc h) = None"
    and start: "PDE_NUM start \<le> h div 1024"
  shows "\<exists>s' ys U. memory_init mmap start (page_addr h) s = Some s' \<and> frames_rep s' ys
    \<and> kernel_heap_addr s' = page_addr h \<and> kernel_heap_size s' = KERNEL_INITIAL_HEAP_SIZE
    \<and> (\<forall>n. ordinary n \<longrightarrow>
          (if n = h \<or> n = Suc h then heap_entry (mapping s' n)
           else mapping s' n = (if n div 1024 < PDE_NUM start then None else mapping s n)))
    \<and> mset (map page_addr (concat (map region_pages mmap)))
        = mset ys + {#frame_of (mapping s' h), frame_of (mapping s' (Suc h))#} + U \<and> size U \<le> 2"
proof -
  let ?s0 = "s\<lparr>pstack_pointer := KERNEL_PSTACK_TOP\<rparr>" and ?fs = "map page_addr (concat (map region_pages mmap))"
  obtain s1 where s1: "push_regions mmap ?s0 = Some s1" "frames_rep s1 ?fs" "same_outside_stack ?s0 s1"
    using push_regions_rep [OF empty regions(1)] regions(2) by auto
  let ?s2 = "s1\<lparr>kernel_heap_addr := page_addr h, kernel_heap_size := KERNEL_INITIAL_HEAP_SIZE\<rparr>"
  let ?A = "\<lparr>free_frames = ?fs, page_map = mapping s, tables = {d. table_set s d}\<rparr>"
  have "mapping s1 n = mapping s n" if "ordinary n" for n
    using mapping_outside_stack [OF s1(3) that] by (simp add: mapping_def)
  moreover have "table_set s1 d = table_set s d" for d
    using table_set_outside_stack [OF s1(3), of d] by (simp add: table_set_def)
  ultimately have r2: "space_rep ?s2 ?A"
    using s1(2) unfolding space_rep_def frames_rep_def mapping_def table_set_def by simp
  have none: "\<forall>i. h \<le> i \<and> i < h + 2 \<longrightarrow> page_map ?A i = None"
    using heap(2,3) by (metis (no_types) Suc_leI add_2_eq_Suc' le_antisym less_Suc_eq not_less_eq_eq space.select_convs(2))
  have run0: "fst (alloc_run 2 h ?A) = 0"
    by (rule alloc_run_enough [OF space_rep_frames_ok [OF r2] none]) (use regions(3) in simp)
  obtain q A' where run: "alloc_run 2 h ?A = (0, q, A')" using run0 by (metis prod.collapse)
  obtain s3 where s3: "map_heap 2 (page_addr h) ?s2 = Some s3" "space_rep s3 A'" "same_heap ?s2 s3"
    using map_heap_rep [OF r2 heap(1) run0] run by auto
  have ok: "run_ok h (h + 2) ?A A'" using alloc_run_result [OF run space_rep_frames_ok [OF r2]] by auto
  note D = run_okD [OF ok]
  let ?k = "PDE_NUM start" and ?s' = "drop_low (PDE_NUM start) s3"
  have oh: "ordinary h" "ordinary (Suc h)" using heap(1) by (simp_all add: ordinary_less)
  have k: "?k \<le> 1022" using start oh(1) by (simp add: ordinary_def)
  have nd: "\<not> h div 1024 < ?k" "\<not> Suc h div 1024 < ?k"
    using start div_le_mono [of h "Suc h" 1024] by simp_all
  have m': "mapping ?s' n = (if n div 1024 < ?k then None else page_map A' n)" if "ordinary n" for n
    unfolding drop_low_mapping [OF that] space_repD(2) [OF s3(2) that] ..
  have hp: "mapping ?s' h = page_map A' h" "mapping ?s' (Suc h) = page_map A' (Suc h)"
    using m' [OF oh(1)] m' [OF oh(2)] nd by simp_all
  have two: "unat KERNEL_INITIAL_HEAP_SIZE div 4096 = 2" by (simp add: KERNEL_INITIAL_HEAP_SIZE_def)
  have "memory_init mmap start (page_addr h) s = Some ?s'"
    unfolding memory_init_def Let_def two using s1(1) s3(1) by simp
  moreover have "frames_rep ?s' (free_frames A')"
    using drop_low_frames [OF k] space_repD(1) [OF s3(2)] by blast
  moreover have "kernel_heap_addr ?s' = page_addr h" "kernel_heap_size ?s' = KERNEL_INITIAL_HEAP_SIZE"
    using same_heapD [OF s3(3)] by simp_all
  moreover have "\<forall>n. ordinary n \<longrightarrow>
          (if n = h \<or> n = Suc h then heap_entry (mapping ?s' n)
           else mapping ?s' n = (if n div 1024 < ?k then None else mapping s n))"
  proof (intro allI impI)
    fix n assume n: "ordinary n"
    show "if n = h \<or> n = Suc h then heap_entry (mapping ?s' n)
           else mapping ?s' n = (if n div 1024 < ?k then None else mapping s n)"
    proof (cases "n = h \<or> n = Suc h")
      case True
      then have "heap_entry (page_map A' n)" using D(1) [of n] by auto
      then show ?thesis using True hp by auto
    next
      case False
      then have "\<not> (h \<le> n \<and> n < h + 2)" by auto
      from D(2) [OF this] show ?thesis unfolding m' [OF n] if_not_P [OF False] by simp
    qed
  qed
  moreover obtain T where "mset ?fs = mset (free_frames A') + mset (map (\<lambda>i. frame_of (page_map A' i)) [h..<h + 2]) + mset T"
      "length T \<le> 2" using D(4) by auto
  then have "mset ?fs = mset (free_frames A') + {#frame_of (mapping ?s' h), frame_of (mapping ?s' (Suc h))#} + mset T \<and> size (mset T) \<le> 2"
    unfolding hp by (simp add: upt_rec [of h] upt_rec [of "Suc h"])
  ultimately show ?thesis by blast
qed

text \<open>C23: \<open>memory_init\<close>, given a sane memory map with enough memory and an empty stack of frames:
  it succeeds; the pages of the initial heap are mapped to frames of the memory map; the pages below the
  kernel are unmapped and no other page changes; the frames still free are frames of the map.\<close>

theorem memory_init_spec:
  assumes empty: "frames_rep (s\<lparr>pstack_pointer := KERNEL_PSTACK_TOP\<rparr>) []"
    and regions: "\<forall>e \<in> set mmap. region_ok e" "length (concat (map region_pages mmap)) \<le> STACK_MAX"
      "4 \<le> length (concat (map region_pages mmap))"
    and heap: "h + 2 \<le> 1046528" "mapping s h = None" "mapping s (Suc h) = None"
    and start: "PDE_NUM start \<le> h div 1024"
  shows "\<exists>s' ys U. memory_init mmap start (page_addr h) s = Some s' \<and> frames_rep s' ys
    \<and> kernel_heap_addr s' = page_addr h \<and> kernel_heap_size s' = KERNEL_INITIAL_HEAP_SIZE
    \<and> (\<forall>n. ordinary n \<longrightarrow>
          (if n = h \<or> n = Suc h then heap_entry (mapping s' n)
           else mapping s' n = (if n div 1024 < PDE_NUM start then None else mapping s n)))
    \<and> mset (map page_addr (concat (map region_pages mmap)))
        = mset ys + {#frame_of (mapping s' h), frame_of (mapping s' (Suc h))#} + U \<and> size U \<le> 2"
  by (rule memory_init_result [OF empty regions heap start])

theorem memory_init_spec_witness:
  "\<exists>s' ys U. memory_init [\<lparr>me_address = 0x100000, me_size = 0x8000, me_type = MMAP_TYPE_FREE\<rparr>] 0xC0000000
      (page_addr 786948) demo_paging0 = Some s' \<and> frames_rep s' ys \<and> kernel_heap_size s' = KERNEL_INITIAL_HEAP_SIZE
    \<and> mset (map page_addr [256..<264]) = mset ys + {#frame_of (mapping s' 786948), frame_of (mapping s' 786949)#} + U \<and> size U \<le> 2"
proof -
  let ?m = "[\<lparr>me_address = 0x100000, me_size = 0x8000, me_type = MMAP_TYPE_FREE\<rparr>]"
  have reg: "concat (map region_pages ?m) = [256..<264]" by (simp add: region_pages_def)
  have f0: "frames_rep (demo_paging0\<lparr>pstack_pointer := KERNEL_PSTACK_TOP\<rparr>) []"
    using demo_frames0 by (simp add: demo_paging0_def)
  have un: "mapping demo_paging0 786948 = None" "mapping demo_paging0 (Suc 786948) = None"
    by (simp_all add: mapping_def entry_mapping_def demo_paging0_def demo_tables_def PTABLE_FLAG_PRESENT_def PTABLE_FLAG_LARGEPAGE_def)
  have ok: "\<forall>e \<in> set ?m. region_ok e" by (simp add: region_ok_def)
  have st: "PDE_NUM 0xC0000000 \<le> 786948 div 1024" by (simp add: PDE_NUM_div)
  from memory_init_spec [OF f0 ok, of 786948 "0xC0000000", unfolded reg, OF _ _ _ un st]
  show ?thesis by (simp add: STACK_MAX_def) blast
qed

end
