(* ===== verification/KKernelHeap.thy ===== *)
theory KKernelHeap
  imports KBorder KMemInit
begin

text \<open>
  The allocator of libk on the pages of the kernel: \<open>heap_callback\<close> of src/system/kernel/memory.c as the provider
  of the heap's memory, and the part of \<open>memory_init\<close> that hands the heap to libk. The state is the allocator's with
  the kernel's paging state beside it. A page that is unmapped and mapped again may come with other contents; the
  model keeps them, and no lemma speaks of the words above the heap.
\<close>

section \<open>The state and the callback\<close>

record kheap = kmstate +
  pg :: paging

definition kernel_sbrk :: "u32 \<Rightarrow> kheap \<Rightarrow> (addr \<times> kheap) option" where
  "kernel_sbrk difference s = map_option (\<lambda>(p, q). (p, s\<lparr>pg := q\<rparr>)) (heap_callback difference (pg s))"

definition libk_init_heap :: "addr \<Rightarrow> u32 \<Rightarrow> 'a kmstate_scheme \<Rightarrow> 'a kmstate_scheme" where
  "libk_init_heap heap_addr hsize = kmalloc_init heap_addr hsize"

text \<open>\<open>memory_init\<close> with its calls of libk: the callback is registered and the initial heap handed over.\<close>

definition memory_init_heap :: "mem_entry list \<Rightarrow> u32 \<Rightarrow> u32 \<Rightarrow> kheap callbacks \<Rightarrow> kheap \<Rightarrow> (kheap callbacks \<times> kheap) option" where
  "memory_init_heap mmap kernel_start_vir kernel_end_vir cb s =
     map_option (\<lambda>q. (libk_set_callback_sbrk kernel_sbrk cb,
         libk_init_heap (kernel_heap_addr q) (kernel_heap_size q) (s\<lparr>pg := q\<rparr>)))
       (memory_init mmap kernel_start_vir kernel_end_vir (pg s))"

section \<open>What holds between the allocator and the pages\<close>

text \<open>
  The two halves agree on the place and the size of the heap and all its pages are mapped (\<open>kernel_pages\<close>). For the heap
  to grow on request, heap and free frames together stay below 16 MiB, the size of the largest chunk the trees can
  order (\<open>kernel_avail\<close>).
\<close>

definition heap_mapped :: "nat \<Rightarrow> nat \<Rightarrow> space \<Rightarrow> bool" where
  "heap_mapped a e A \<longleftrightarrow> (\<forall>i. a div 4096 \<le> i \<and> i \<le> last_page e \<longrightarrow> page_map A i \<noteq> None)"

definition kernel_pages :: "kheap \<Rightarrow> bool" where
  "kernel_pages s \<longleftrightarrow> (\<exists>A. space_rep (pg s) A \<and> heap_ok (pg s) \<and> kernel_heap_addr (pg s) = heap_start s
     \<and> kernel_heap_size (pg s) = heap_size s \<and> heap_mapped (unat (heap_start s)) (unat (heap_end (pg s))) A)"

definition kernel_avail :: "kheap \<Rightarrow> bool" where
  "kernel_avail s \<longleftrightarrow> (\<exists>A. space_rep (pg s) A \<and> heap_ok (pg s) \<and> kernel_heap_addr (pg s) = heap_start s
     \<and> kernel_heap_size (pg s) = heap_size s \<and> unat (heap_size s) + 4096 * length (free_frames A) \<le> 0xFFFF00
     \<and> heap_mapped (unat (heap_start s)) (unat (heap_end (pg s))) A)"

lemma kernel_availD:
  assumes "kernel_avail s"
  obtains A where "space_rep (pg s) A" "heap_ok (pg s)" "kernel_heap_addr (pg s) = heap_start s" "kernel_heap_size (pg s) = heap_size s"
    "unat (heap_size s) + 4096 * length (free_frames A) \<le> 0xFFFF00" "heap_mapped (unat (heap_start s)) (unat (heap_end (pg s))) A"
  using assms unfolding kernel_avail_def by blast

lemma kernel_pagesI: "kernel_avail s \<Longrightarrow> kernel_pages s"
  unfolding kernel_avail_def kernel_pages_def by blast

lemma pg_more: "kmstate.more s' = kmstate.more s \<Longrightarrow> pg s' = pg s"
  by (cases s; cases s'; simp)

lemma same_fields_pg [simp]: "same_fields s (s\<lparr>pg := q\<rparr>)"
  by (simp add: same_fields_def kmstate.truncate_def)

lemma last_page_add: "0 < e \<Longrightarrow> d mod 4096 = 0 \<Longrightarrow> last_page (e + d) = last_page e + d div 4096"
proof -
  assume "0 < e" "d mod 4096 = 0"
  then obtain q where "d = 4096 * q" "e + d - 1 = e - 1 + 4096 * q" by (auto simp: mod_eq_0_iff_dvd)
  then show ?thesis by (simp add: last_page_def)
qed

lemma sint_of_nat: "0 < n \<Longrightarrow> n < 0x80000000 \<Longrightarrow> 0 < sint (of_nat n :: u32)"
proof -
  assume n: "0 < n" "n < 0x80000000"
  have u: "unat (of_nat n :: u32) = n" using n(2) by (simp add: unat_of_nat)
  then have "\<not> sint (of_nat n :: u32) < 0" unfolding sint_less_0 using n(2) by simp
  moreover have "sint (of_nat n :: u32) \<noteq> 0"
  proof
    assume "sint (of_nat n :: u32) = 0"
    then have "(of_nat n :: u32) = 0" by (simp only: signed_eq_0_iff)
    then show False using u n(1) by simp
  qed
  ultimately show ?thesis by linarith
qed

lemma sint_of_nat_neg: "0 < n \<Longrightarrow> n < 0x80000000 \<Longrightarrow> sint (- of_nat n :: u32) < 0 \<and> unat (- (- of_nat n) :: u32) = n"
proof -
  assume n: "0 < n" "n < 0x80000000"
  have u: "unat (of_nat n :: u32) = n" using n(2) by (simp add: unat_of_nat)
  then have "(of_nat n :: u32) \<noteq> 0" using n(1) by (metis less_irrefl unsigned_0)
  then have "unat (- of_nat n :: u32) = 4294967296 - n" using u by (simp add: unat_uminus)
  then show ?thesis unfolding sint_less_0 using n(2) u by simp
qed

text \<open>Growing: every page of the increase takes at least one frame.\<close>

lemma sbrk_grows:
  assumes av: "kernel_avail s" and inc: "inc mod 4096 = 0" "0 < inc" "inc < 0x7FFFFFFF"
  shows "\<exists>p s'. kernel_sbrk (of_nat inc) s = Some (p, s') \<and> same_fields s s' \<and>
        (if p = -1 then kernel_avail s' else kernel_avail (s'\<lparr>heap_size := heap_size s + of_nat inc\<rparr>)
           \<and> unat (heap_size s) + inc \<le> 0xFFFF00 \<and> unat (heap_start s) + unat (heap_size s) + inc + 32 \<le> 4294967296)"
proof -
  obtain A where A: "space_rep (pg s) A" "heap_ok (pg s)" "kernel_heap_addr (pg s) = heap_start s" "kernel_heap_size (pg s) = heap_size s"
    "unat (heap_size s) + 4096 * length (free_frames A) \<le> 0xFFFF00" "heap_mapped (unat (heap_start s)) (unat (heap_end (pg s))) A"
    by (rule kernel_availD [OF av])
  note e = heap_okD [OF A(2)]
  let ?d = "of_nat inc :: u32"
  have d: "0 < sint ?d" using inc by (intro sint_of_nat) auto
  have u: "unat ?d = inc" using inc(3) by (simp add: unat_of_nat)
  show ?thesis
  proof (cases "4286578688 \<le> unat (heap_end (pg s)) + inc")
    case True
    then have "heap_callback ?d (pg s) = Some (-1, pg s)" using grow_cases [OF A(2) d] u by simp
    then show ?thesis using av by (simp add: kernel_sbrk_def same_fields_def)
  next
    case False
    then have "unat (heap_end (pg s)) + unat ?d < 4286578688" using u by simp
    then obtain q A' where q: "grown ?d (pg s) A q A' \<or> rolled_back ?d (pg s) A q A'"
      using heap_grow_result [OF A(2) d A(1)] by blast
    show ?thesis
    proof (cases "grown ?d (pg s) A q A'")
      case True
      note g = True [unfolded grown_def]
      have run: "heap_callback ?d (pg s) = Some (0, q)" and r: "space_rep q A'" and sz: "kernel_heap_size q = kernel_heap_size (pg s) + ?d"
        and ad: "kernel_heap_addr q = kernel_heap_addr (pg s)" using g by blast+
      obtain T where T: "mset (free_frames A) = mset (free_frames A') + mset (map (\<lambda>i. frame_of (page_map A' i)) (heap_pages (pg s) ?d)) + mset T"
        using g by blast
      have pages: "\<forall>i. if i \<in> set (heap_pages (pg s) ?d) then page_map A i = None \<and> heap_entry (page_map A' i) \<and> freeable A' i
            else page_map A' i = page_map A i" using g by blast
      have lp: "last_page (unat (heap_end (pg s)) + inc) = last_page (unat (heap_end (pg s))) + inc div 4096"
        by (rule last_page_add [OF e(2) inc(1)])
      have "length (heap_pages (pg s) ?d) = inc div 4096" unfolding heap_pages_def length_upt u lp by simp
      then have "length (free_frames A) = length (free_frames A') + inc div 4096 + length T"
        using arg_cong [OF T, of size] by simp
      moreover have "4096 * (inc div 4096) = inc" using inc(1) by auto
      ultimately have fr: "unat (heap_size s) + inc + 4096 * length (free_frames A') \<le> 0xFFFF00" using A(5) by linarith
      have hs: "unat (heap_size s + ?d) = unat (heap_size s) + inc"
        by (subst unat_add_lem [THEN iffD1]) (use fr u in simp_all)
      have he: "unat (heap_start s) + unat (heap_size s) + inc < 4286578688" using False e(1) A(3,4) by simp
      have ok: "heap_ok q" using he hs A(3,4) inc(2) by (simp add: heap_ok_def sz ad KERNEL_HEAP_LIMIT_def)
      have hm: "heap_mapped (unat (heap_start s)) (unat (heap_end q)) A'"
        unfolding heap_mapped_def
      proof (intro allI impI)
        fix i assume i: "unat (heap_start s) div 4096 \<le> i \<and> i \<le> last_page (unat (heap_end q))"
        have eq: "unat (heap_end q) = unat (heap_end (pg s)) + inc" using heap_okD(1) [OF ok] e(1) hs A(3,4) by (simp add: sz ad)
        show "page_map A' i \<noteq> None"
        proof (cases "i \<in> set (heap_pages (pg s) ?d)")
          case True
          then show ?thesis using pages freeable_def by metis
        next
          case False
          then have "i \<le> last_page (unat (heap_end (pg s)))" using i unfolding set_heap_pages u eq by auto
          then have "page_map A i \<noteq> None" using A(6) i unfolding heap_mapped_def by blast
          then show ?thesis using spec [OF pages, of i] False by simp
        qed
      qed
      have "kernel_avail (s\<lparr>pg := q, heap_size := heap_size s + ?d\<rparr>)"
        unfolding kernel_avail_def by (intro exI [of _ A']) (use r ok sz ad A(3,4) fr hs hm in simp)
      then show ?thesis using run fr he by (simp add: kernel_sbrk_def)
    next
      case False
      then have g: "rolled_back ?d (pg s) A q A'" using q by blast
      have run: "heap_callback ?d (pg s) = Some (-1, q)" and r: "space_rep q A'" and sh: "same_heap (pg s) q"
        and pm: "page_map A' = page_map A" and sub: "mset (free_frames A') \<subseteq># mset (free_frames A)" using g unfolding rolled_back_def by blast+
      have "length (free_frames A') \<le> length (free_frames A)" using size_mset_mono [OF sub] by simp
      then have "kernel_avail (s\<lparr>pg := q\<rparr>)"
        unfolding kernel_avail_def
        by (intro exI [of _ A']) (use r same_heapD [OF sh] A in \<open>simp add: heap_ok_def heap_mapped_def pm\<close>)
      then show ?thesis using run by (simp add: kernel_sbrk_def)
    qed
  qed
qed

text \<open>Shrinking: the pages given back are as many as the decrease holds.\<close>

lemma last_page_sub: "d < e \<Longrightarrow> d mod 4096 = 0 \<Longrightarrow> last_page e - last_page (e - d) = d div 4096"
  using last_page_add [of "e - d" d] by simp

lemma sbrk_shrinks:
  assumes av: "kernel_avail s" and dec: "dec mod 4096 = 0" "0 < dec" "dec < unat (heap_size s)"
  shows "\<exists>p s'. kernel_sbrk (- of_nat dec) s = Some (p, s') \<and> same_fields s s' \<and>
        (if p = -1 then kernel_avail s' else kernel_avail (s'\<lparr>heap_size := heap_size s - of_nat dec\<rparr>))"
proof -
  obtain A where A: "space_rep (pg s) A" "heap_ok (pg s)" "kernel_heap_addr (pg s) = heap_start s" "kernel_heap_size (pg s) = heap_size s"
    "unat (heap_size s) + 4096 * length (free_frames A) \<le> 0xFFFF00" "heap_mapped (unat (heap_start s)) (unat (heap_end (pg s))) A"
    by (rule kernel_availD [OF av])
  note e = heap_okD [OF A(2)]
  let ?d = "- of_nat dec :: u32"
  have b: "dec < 0x80000000" "dec < unat (heap_end (pg s))" using dec(3) A(5) e(1) A(4) by simp_all
  have d: "sint ?d < 0" "unat (- ?d) = dec" using sint_of_nat_neg [OF dec(2) b(1)] by blast+
  have dn: "?d \<noteq> 0x80000000"
  proof
    assume "?d = 0x80000000"
    then have "unat (- ?d) = unat (- (0x80000000 :: u32))" by (rule arg_cong)
    then show False using d(2) b(1) by simp
  qed
  have hs: "unat (heap_size s - of_nat dec) = unat (heap_size s) - dec"
    using unat_sub [of "of_nat dec" "heap_size s"] d(2) dec(3) by (simp add: word_le_nat_alt)
  have len: "length (shrink_pages (pg s) ?d) = dec div 4096"
    unfolding shrink_pages_def length_upt d(2) using last_page_sub [OF b(2) dec(1)] by simp
  have dd: "4096 * (dec div 4096) = dec" using dec(1) by auto
  show ?thesis
  proof (cases "kernel_heap_size (pg s) - (- ?d) < KERNEL_INITIAL_HEAP_SIZE")
    case True
    have "\<not> heap_end (pg s) < - ?d" using b(2) d(2) by (simp only: word_less_nat_alt)
    with True d(1) dn sint_neg(1) [OF d(1)] have "heap_callback ?d (pg s) = Some (-1, pg s)"
      unfolding heap_callback_def Let_def by simp
    then show ?thesis using av by (simp add: kernel_sbrk_def same_fields_def)
  next
    case False
    have room: "length (free_frames A) + length (shrink_pages (pg s) ?d) \<le> STACK_MAX"
      unfolding len using A(5) dec(3) dd by (simp add: STACK_MAX_def)
    obtain q A' where g: "shrunk ?d (pg s) A q A'"
      using heap_shrink_result [OF A(2) d(1) dn A(1) _ False room] b(2) d(2) by auto
    note g = g [unfolded shrunk_def]
    have run: "heap_callback ?d (pg s) = Some (0, q)" and r: "space_rep q A'" and sz: "kernel_heap_size q = kernel_heap_size (pg s) + ?d"
      and ad: "kernel_heap_addr q = kernel_heap_addr (pg s)"
      and pm: "page_map A' = (\<lambda>i. if i \<in> set (shrink_pages (pg s) ?d) \<and> freeable A i then None else page_map A i)" using g by blast+
    have "mset (free_frames A') = mset (free_frames A) + mset (map (\<lambda>i. frame_of (page_map A i)) (filter (freeable A) (shrink_pages (pg s) ?d)))"
      using g by blast
    from arg_cong [OF this, of size] have "length (free_frames A') \<le> length (free_frames A) + dec div 4096"
      using length_filter_le [of "freeable A" "shrink_pages (pg s) ?d"] len by (simp flip: mset_filter)
    then have fr: "unat (heap_size s) - dec + 4096 * length (free_frames A') \<le> 0xFFFF00"
      using A(5) dd dec(3) by linarith
    have sz': "kernel_heap_size q = heap_size s - of_nat dec" using sz A(4) by simp
    have ok: "heap_ok q" using A(2,4) dec(3) hs by (simp add: heap_ok_def sz' ad)
    have hm: "heap_mapped (unat (heap_start s)) (unat (heap_end q)) A'"
      unfolding heap_mapped_def
    proof (intro allI impI)
      fix i assume i: "unat (heap_start s) div 4096 \<le> i \<and> i \<le> last_page (unat (heap_end q))"
      have eq: "unat (heap_end q) = unat (heap_end (pg s)) - dec"
        using heap_okD(1) [OF ok] e(1) hs A(3,4) dec(3) by (simp add: sz' ad)
      then have "i \<le> last_page (unat (heap_end (pg s)))" using i last_page_mono [of "unat (heap_end q)" "unat (heap_end (pg s))"] by simp
      then have "page_map A i \<noteq> None" using A(6) i unfolding heap_mapped_def by blast
      moreover have "i \<notin> set (shrink_pages (pg s) ?d)" using i unfolding set_shrink_pages d(2) eq by simp
      ultimately show "page_map A' i \<noteq> None" unfolding pm by simp
    qed
    have "kernel_avail (s\<lparr>pg := q, heap_size := heap_size s - of_nat dec\<rparr>)"
      unfolding kernel_avail_def by (intro exI [of _ A']) (use r ok sz' ad A(3) fr hs hm in simp)
    then show ?thesis using run by (simp add: kernel_sbrk_def)
  qed
qed

lemma kernel_avail_cong: "kernel_avail s \<Longrightarrow> same_arena s s' \<Longrightarrow> kernel_avail s'"
proof -
  assume av: "kernel_avail s" and e: "same_arena s s'"
  have "pg s' = pg s" using e by (intro pg_more) (simp add: same_arena_def)
  then show ?thesis using av e by (simp add: kernel_avail_def same_arena_def)
qed

lemma kernel_pages_cong: "kernel_pages s \<Longrightarrow> same_arena s s' \<Longrightarrow> kernel_pages s'"
proof -
  assume av: "kernel_pages s" and e: "same_arena s s'"
  have "pg s' = pg s" using e by (intro pg_more) (simp add: same_arena_def)
  then show ?thesis using av e by (simp add: kernel_pages_def same_arena_def)
qed

interpretation kernel: heap_provider "libk_set_callback_sbrk kernel_sbrk cb" kernel_avail for cb
proof
  show "kernel_avail s \<Longrightarrow> same_arena s s' \<Longrightarrow> kernel_avail s'" for s s' by (rule kernel_avail_cong)
qed (use sbrk_grows sbrk_shrinks in \<open>simp_all add: SBRK_CALLBACK_def libk_set_callback_sbrk_def\<close>)

section \<open>A new heap\<close>

lemma chunk_mask: "CHUNK_ALIGN_MASK = mask 3"
  by (simp add: CHUNK_ALIGN_MASK_def mask_eq_exp_minus_1)

lemma kmalloc_init_ok:
  assumes a: "a mod 8 = 0" "0 < a" and h: "h mod 4096 = 0" "0 < h" "h \<le> 0xFFFF00" "a + h + 32 \<le> 4294967296"
  shows "hinv (kmalloc_init (of_nat a) (of_nat h) s) []"
    "heap_start (kmalloc_init (of_nat a) (of_nat h) s) = of_nat a" "heap_size (kmalloc_init (of_nat a) (of_nat h) s) = of_nat h"
    "kmstate.more (kmalloc_init (of_nat a) (of_nat h) s) = kmstate.more s"
    "topChunkSize (kmalloc_init (of_nat a) (of_nat h) s) = of_nat (h - 8)"
    "b < a \<Longrightarrow> wd (kmalloc_init (of_nat a) (of_nat h) s) b = wd s b"
proof -
  let ?ts = "h - 8"
  have h4: "4096 \<le> h" using h(1,2) by (cases "h < 4096") auto
  have oka: "okaddr a" and okd: "okaddr (a + ?ts)" and ts: "?ts mod 8 = 0" "?ts < 4294967296"
    using a h(3,4) h4 page_mod8 [OF h(1)] by (auto simp: okaddr_def mod_add_eq [symmetric] mod_eq_0_iff_dvd)
  have ua: "unat (of_nat a :: u32) = a" using h(4) by (simp add: unat_of_nat)
  have al: "CHUNKALIGN (of_nat a) = of_nat a"
  proof -
    have "unat ((of_nat a :: u32) + mask 3) = a + 7"
      using h(4) by (subst unat_add_lem [THEN iffD1]) (simp_all add: ua mask_eq_exp_minus_1)
    moreover have "(a + 7) div 8 * 8 = a" using a(1) by (simp add: div_add1_eq mult.commute [of _ 8] mod_eq_0_iff_dvd)
    ultimately show ?thesis unfolding CHUNKALIGN_def chunk_mask by (subst mask_floor) simp_all
  qed
  have fl: "CHUNKFLOOR (of_nat h - 0 - DUMMYSIZE) = of_nat ?ts"
  proof -
    have e: "(of_nat h - 0 - DUMMYSIZE :: u32) = of_nat ?ts" using word_diff_of_nat [of 8 h] h4 by (simp add: DUMMYSIZE_def)
    have "unat (of_nat ?ts :: u32) = ?ts" using ts(2) by (simp add: unat_of_nat del: of_nat_diff)
    moreover have "?ts div 8 * 8 = ?ts" using ts(1) by auto
    ultimately show ?thesis unfolding CHUNKFLOOR_def chunk_mask e by (subst mask_floor) (simp_all del: of_nat_diff)
  qed
  have big: "\<not> (0 + MINCHUNKSIZE + DUMMYSIZE > of_nat h)"
    using h4 h(3) by (simp add: MINCHUNKSIZE_def DUMMYSIZE_def word_less_nat_alt unat_of_nat)
  define s1 where "s1 = set_next (of_nat a) (of_nat a) (set_prev (of_nat a) (of_nat a) (set_header (of_nat a) (of_nat ?ts OR PINUSE) s))"
  define s2 where "s2 = set_prev_foot (of_nat (a + ?ts)) (of_nat ?ts) s1"
  define s3 where "s3 = set_header (of_nat (a + ?ts)) 0 s2"
  have w1: "wd s1 = (wd s)(a + 4 := head_word (of_nat ?ts) False True, a + 12 := of_nat a, a + 8 := of_nat a)"
    unfolding s1_def using oka by (simp add: head_word_intros del: of_nat_diff)
  have w2: "wd s2 = (wd s1)(a + ?ts := of_nat ?ts)" unfolding s2_def using okd by (simp del: of_nat_add of_nat_diff)
  have w3: "wd s3 = (wd s2)(a + ?ts + 4 := 0)" unfolding s3_def using okd by (simp del: of_nat_add of_nat_diff)
  have hd: "wd s1 (a + 4) = head_word (of_nat ?ts) False True" "wd s2 (a + 4) = head_word (of_nat ?ts) False True"
  proof -
    have "a + 4 \<noteq> a + ?ts" using h4 by linarith
    then show "wd s1 (a + 4) = head_word (of_nat ?ts) False True" "wd s2 (a + 4) = head_word (of_nat ?ts) False True"
      unfolding w2 w1 by (simp_all del: of_nat_diff)
  qed
  have nx: "NEXTCHUNK (of_nat a) s1 = of_nat (a + ?ts)" "NEXTCHUNK (of_nat a) s2 = of_nat (a + ?ts)"
    by (rule header_facts(4) [OF oka hd(1) ts], rule header_facts(4) [OF oka hd(2) ts])
  define s' where "s' = s3\<lparr>heap_start := of_nat a, heap_size := of_nat h, initial_heap_size := of_nat h,
                  sbinmap := 0, tbinmap := 0,
                  sbin := (\<lambda>i. if i < NSBINS then NULL else sbin s3 i),
                  tbin := (\<lambda>i. if i < NTBINS then NULL else tbin s3 i),
                  dVictim := NULL, dVictimSize := 0, topChunk := of_nat a, topChunkSize := of_nat ?ts,
                  magic := KMALLOC_STATE_MAGIC\<rparr>"
  have run: "kmalloc_init (of_nat a) (of_nat h) s = s'"
    unfolding kmalloc_init_def if_not_P [OF okaddr_nonzero [OF oka]] Let_def al diff_self if_not_P [OF big] fl s1_def [symmetric]
      nx(1) s2_def [symmetric] nx(2) s3_def [symmetric]
    by (simp add: s'_def)
  have w': "wd s' = wd s3" unfolding s'_def by (rule wd_hmem) simp
  have "arena s'"
    using a h ua by (simp add: arena_def s'_def unat_of_nat)
  moreover have "top_ok s'"
  proof (rule top_okI [OF a(1) ts(1)])
    show "a + ?ts + 8 \<le> unat (heap_start s') + unat (heap_size s')" using h(3) h4 ua by (simp add: s'_def unat_of_nat)
    have ne: "a + 4 \<noteq> a + ?ts + 4" using h4 by linarith
    show "wd s' (a + 4) = head_word (of_nat ?ts) False True" unfolding w' w3 fun_upd_apply if_not_P [OF ne] by (rule hd(2))
    show "wd s' (a + ?ts + 4) = 0" unfolding w' w3 by simp
  qed (use h(4) ts(2) in \<open>simp_all add: s'_def\<close>)
  moreover have "bins_ok s' {}"
    by (auto simp: bins_ok_def small_at_def large_at_def smalls_def larges_def s'_def NSBINS_def NTBINS_def hptr_def tptr_def circ_def
        intro: exI [of _ "[]"] exI [of _ Tip])
  ultimately show "hinv (kmalloc_init (of_nat a) (of_nat h) s) []"
    unfolding run by (simp add: hinv_def core_def layout_def dv_set_def s'_def)
  show "heap_start (kmalloc_init (of_nat a) (of_nat h) s) = of_nat a" "heap_size (kmalloc_init (of_nat a) (of_nat h) s) = of_nat h"
    "kmstate.more (kmalloc_init (of_nat a) (of_nat h) s) = kmstate.more s"
    "topChunkSize (kmalloc_init (of_nat a) (of_nat h) s) = of_nat (h - 8)"
    unfolding run by (simp_all add: s'_def s3_def s2_def s1_def)
  show "wd (kmalloc_init (of_nat a) (of_nat h) s) b = wd s b" if "b < a" unfolding run w' w3 w2 w1 using that by simp
qed

lemma heap_entry_some: "heap_entry e \<Longrightarrow> e \<noteq> None"
  by (auto simp: heap_entry_def)

lemma memory_init_heap_ok:
  assumes empty: "frames_rep ((pg s)\<lparr>pstack_pointer := KERNEL_PSTACK_TOP\<rparr>) []"
    and regions: "\<forall>e \<in> set mmap. region_ok e" "4 \<le> length (concat (map region_pages mmap))"
      "length (concat (map region_pages mmap)) \<le> STACK_MAX"
    and heap: "0 < h" "h + 2 < 1046528" "mapping (pg s) h = None" "mapping (pg s) (Suc h) = None"
    and start: "PDE_NUM start \<le> h div 1024"
  shows "\<exists>s'. memory_init_heap mmap start (page_addr h) cb s = Some (libk_set_callback_sbrk kernel_sbrk cb, s')
    \<and> hinv s' [] \<and> kernel_pages s' \<and> (length (concat (map region_pages mmap)) \<le> 4095 \<longrightarrow> kernel_avail s') \<and> heap_start s' = page_addr h \<and> heap_size s' = KERNEL_INITIAL_HEAP_SIZE
    \<and> topChunkSize s' = KERNEL_INITIAL_HEAP_SIZE - 8 \<and> (\<forall>b < 4096 * h. wd s' b = wd s b)"
proof -
  have h2: "h + 2 \<le> 1046528" using heap(2) by simp
  obtain q ys U where q: "memory_init mmap start (page_addr h) (pg s) = Some q" "frames_rep q ys"
    "kernel_heap_addr q = page_addr h" "kernel_heap_size q = KERNEL_INITIAL_HEAP_SIZE"
    "\<forall>n. ordinary n \<longrightarrow> (if n = h \<or> n = Suc h then heap_entry (mapping q n)
           else mapping q n = (if n div 1024 < PDE_NUM start then None else mapping (pg s) n))"
    "mset (map page_addr (concat (map region_pages mmap))) = mset ys + {#frame_of (mapping q h), frame_of (mapping q (Suc h))#} + U"
    using memory_init_result [OF empty regions(1,3,2) h2 heap(3,4) start] by blast
  have ys: "length ys \<le> 4093" if "length (concat (map region_pages mmap)) \<le> 4095"
    using arg_cong [OF q(6), of size] that by simp
  have ua: "unat (page_addr h) = 4096 * h" using heap(2) by (intro page_addr_unat) simp
  have hs: "KERNEL_INITIAL_HEAP_SIZE = of_nat 8192" by (simp add: KERNEL_INITIAL_HEAP_SIZE_def)
  define s' where "s' = kmalloc_init (of_nat (4096 * h)) (of_nat 8192) (s\<lparr>pg := q\<rparr>)"
  have a8: "4096 * h mod 8 = 0" by (rule page_mod8) simp
  have b: "0 < 4096 * h" "4096 * h + 8192 + 32 \<le> 4294967296" using heap(1,2) by simp_all
  note k = kmalloc_init_ok [where a = "4096 * h" and h = 8192 and s = "s\<lparr>pg := q\<rparr>", OF a8 b(1) _ _ _ b(2), folded s'_def]
  have pg: "pg s' = q" using pg_more [OF k(4)] by simp
  have ok: "heap_ok q" using ua heap(1,2) by (simp add: heap_ok_def q(3,4) KERNEL_HEAP_LIMIT_def KERNEL_INITIAL_HEAP_SIZE_def)
  have start': "heap_start s' = page_addr h" and size: "heap_size s' = KERNEL_INITIAL_HEAP_SIZE"
    using k(2,3) by (simp_all add: page_addr_def hs)
  have hm: "heap_mapped (unat (heap_start s')) (unat (heap_end q)) (view q ys)"
    unfolding heap_mapped_def
  proof (intro allI impI)
    fix i assume i: "unat (heap_start s') div 4096 \<le> i \<and> i \<le> last_page (unat (heap_end q))"
    have "unat (heap_end q) = 4096 * (h + 1) + 4096" using heap_okD(1) [OF ok] ua by (simp add: q(3,4) KERNEL_INITIAL_HEAP_SIZE_def)
    then have "last_page (unat (heap_end q)) = Suc h" by (simp add: last_page_def)
    then have "i = h \<or> i = Suc h" using i ua start' by auto
    moreover have "ordinary i" using calculation heap(2) by (auto simp: ordinary_less)
    ultimately show "page_map (view q ys) i \<noteq> None" using q(5) heap_entry_some by (auto simp: view_def)
  qed
  have "kernel_avail s'" if "length (concat (map region_pages mmap)) \<le> 4095"
    unfolding kernel_avail_def pg
    by (intro exI [of _ "view q ys"])
      (use view_rep [OF q(2)] ok hm ys [OF that] in \<open>simp add: q(3,4) start' size view_def KERNEL_INITIAL_HEAP_SIZE_def\<close>)
  moreover have "kernel_pages s'"
    unfolding kernel_pages_def pg
    by (intro exI [of _ "view q ys"]) (use view_rep [OF q(2)] ok hm in \<open>simp add: q(3,4) start' size view_def\<close>)
  moreover have "memory_init_heap mmap start (page_addr h) cb s = Some (libk_set_callback_sbrk kernel_sbrk cb, s')"
    unfolding memory_init_heap_def q(1) by (simp add: q(3,4) libk_init_heap_def s'_def page_addr_def hs)
  moreover have "wd s' b = wd s b" if "b < 4096 * h" for b
    using k(6) [OF _ _ _ that] wd_hmem [of "s\<lparr>pg := q\<rparr>" s] by simp
  ultimately show ?thesis using k(1,5) start' size by (simp add: KERNEL_INITIAL_HEAP_SIZE_def)
qed

end
