(* ===== verification/KHeapSpec.thy ===== *)
theory KHeapSpec
  imports KKernelHeap
begin

text \<open>
  What the kernel heap promises its clients: \<open>kmalloc\<close>, \<open>kfree\<close> and stores into the objects refine a
  map from pointers to the contents of the live objects.
\<close>

section \<open>Bytes of the payload\<close>

lemma ld32_byte:
  assumes "k < 4"
  shows "m (a + of_nat k) = ucast (drop_bit (8 * k) (ld32 m a))"
proof -
  have high: "8 \<le> j \<Longrightarrow> \<not> bit (v :: u8) (j + n)" for j n v
    using bit_imp_le_length [of v "j + n"] by auto
  consider "k = 0" | "k = 1" | "k = 2" | "k = 3" using assms by linarith
  then show ?thesis
    by cases (auto intro!: bit_word_eqI simp: ld32_def bit_simps high)
qed

lemma hmem_byte:
  assumes "a mod 4 = 0" "a < 4294967296" "k < 4"
  shows "hmem s (of_nat (a + k)) = ucast (drop_bit (8 * k) (wd s a))"
  using ld32_byte [OF assms(3), of "hmem s" "of_nat a"] assms(1,2) by (simp add: wd_def rd_def)

lemma keeps_byte:
  assumes k: "keeps U s s'" "(a, n) \<in> U" and a: "a mod 8 = 0" "a + n + 4 \<le> 4294967296" and n: "n mod 8 = 0" and j: "8 \<le> j" "j < n + 4"
  shows "hmem s' (of_nat (a + j)) = hmem s (of_nat (a + j))"
proof -
  define t where "t = j mod 4"
  have j4: "j = j div 4 * 4 + t" "t < 4" unfolding t_def by (rule div_mult_mod_eq [symmetric], simp)
  have lo: "8 \<le> j div 4 * 4" using j(1) by presburger
  then have "a + j div 4 * 4 \<in> payload U" unfolding payload_def using k(2) j(2) j4(1)
    by (intro CollectI exI [of _ a] exI [of _ n] exI [of _ "j div 4 * 4"]) simp
  then have w: "wd s' (a + j div 4 * 4) = wd s (a + j div 4 * 4)" using k(1) unfolding keeps_def by blast
  have "(a + j div 4 * 4) mod 4 = 0" using a(1) mod_mod_cancel [of 4 8 a] by (simp add: mod_add_eq [symmetric])
  moreover have "a + j div 4 * 4 < 4294967296" using a(2) j(2) j4(1) by linarith
  moreover have "a + j div 4 * 4 + t = a + j" using j4(1) by simp
  ultimately show ?thesis using hmem_byte [of "a + j div 4 * 4" t s] hmem_byte [of "a + j div 4 * 4" t s'] j4(2) w by metis
qed

section \<open>Stores into a block\<close>

lemma hinv_payload:
  assumes h: "hinv s bs" and a: "(a, n) \<in> Used bs" and om: "only_mem s s'"
    and w: "\<And>b. b < a + 8 \<or> a + n + 4 \<le> b \<Longrightarrow> wd s' b = wd s b"
  shows "hinv s' bs"
proof -
  note c = hinvD(1) [OF h]
  note ch = coreD(3) [OF c] and e = same_envD [OF same_env_only_mem [OF om]] and f = only_memD [OF om]
  have am: "(a, n, True) \<in> set bs" using a by simp
  note b = core_block [OF c am]
  have apart: "(y, m, u) = (a, n, True) \<or> a + n \<le> y \<or> y + m \<le> a" if "(y, m, u) \<in> set bs" for y m u
    using chain_disjoint [OF ch am that] by auto
  have "blocks_at (wd s') True (unat (heap_start s)) bs (unat (topChunk s)) True"
  proof (rule chain_cong [OF _ ch])
    fix y m u assume y: "(y, m, u) \<in> set bs"
    have "16 \<le> m" using chain_mem [OF ch y] by simp
    then show "wd s' (y + 4) = wd s (y + 4) \<and> (\<not> u \<longrightarrow> wd s' (y + m) = wd s (y + m))"
      using apart [OF y] w [of "y + 4"] w [of "y + m"] by auto
  qed
  moreover have "top_ok s'"
  proof -
    have "wd s' (unat (topChunk s) + 4) = wd s (unat (topChunk s) + 4)"
      "wd s' (unat (topChunk s) + unat (topChunkSize s) + 4) = wd s (unat (topChunk s) + unat (topChunkSize s) + 4)"
      using b(8) by (simp_all add: w)
    then show ?thesis using coreD(2) [OF c] e by (simp add: top_ok_def Let_def)
  qed
  moreover have "bins_ok s' (Free bs - dv_set s)"
  proof (rule bins_congruent [OF coreD(5) [OF c] f])
    show "fits (Free bs - dv_set s)" by (rule fits_subset [OF core_fits [OF c] coreD(4) [OF c]])
    fix y m k assume "(y, m) \<in> Free bs - dv_set s" and k: "4 \<le> k" "k < m"
    then have "(y, m, False) \<in> set bs" by simp
    from apart [OF this] show "wd s' (y + k) = wd s (y + k)" using k w [of "y + k"] by auto
  qed
  moreover have "arena s'" using coreD(1) [OF c] e by (simp add: arena_def)
  moreover note d = only_mem_dv [OF om]
  ultimately show ?thesis using h e d by (simp add: hinv_def core_def layout_def dv_set_def)
qed

lemma stores_ok:
  assumes h: "hinv s bs" and a: "(a, n) \<in> Used bs"
    and m: "\<And>x. unat x < a + 8 \<or> a + n + 4 \<le> unat x \<Longrightarrow> m x = hmem s x"
  shows "hinv (s\<lparr>hmem := m\<rparr>) bs"
proof (rule hinv_payload [OF h a])
  show "only_mem s (s\<lparr>hmem := m\<rparr>)" by (simp add: only_mem_def)
  have am: "(a, n, True) \<in> set bs" using a by simp
  note bk = core_block [OF hinvD(1) [OF h] am]
  have m4: "a mod 4 = 0" using bk(1) mod_mod_cancel [of 4 8 a] by (auto simp: okaddr_def)
  fix b assume b: "b < a + 8 \<or> a + n + 4 \<le> b"
  show "wd (s\<lparr>hmem := m\<rparr>) b = wd s b"
  proof (cases "b mod 4 = 0 \<and> b < 4294967296")
    case True
    have side: "b + 4 \<le> a + 8 \<or> a + n + 4 \<le> b"
    proof (cases "b < a + 8")
      case True
      obtain p q where "b = 4 * p" "a = 4 * q" using \<open>b mod 4 = 0 \<and> b < 4294967296\<close> m4 unfolding mod_eq_0_iff_dvd dvd_def by blast
      then show ?thesis using True by presburger
    qed (use b in simp)
    have same: "m (of_nat (b + t)) = hmem s (of_nat (b + t))" if "t < 4" for t
    proof (rule m)
      have "b \<le> 4294967292" using True by (auto simp: mod_eq_0_iff_dvd elim!: dvdE)
      then have "unat (of_nat (b + t) :: addr) = b + t" using that by (simp add: unat_of_nat del: of_nat_add)
      then show "unat (of_nat (b + t) :: addr) < a + 8 \<or> a + n + 4 \<le> unat (of_nat (b + t) :: addr)" using side that by linarith
    qed
    from same [of 0] same [of 1] same [of 2] same [of 3]
    have "ld32 m (of_nat b) = ld32 (hmem s) (of_nat b)" by (intro ld32_cong) (simp_all add: add.commute)
    then show ?thesis by (simp add: wd_def rd_def)
  qed (auto simp: wd_def)
qed

definition store_byte :: "addr \<Rightarrow> u8 \<Rightarrow> 'a kmstate_scheme \<Rightarrow> 'a kmstate_scheme" where
  "store_byte p v s = s\<lparr>hmem := (hmem s)(p := v)\<rparr>"

lemma store_byte_ok:
  assumes h: "hinv s bs" and a: "(a, n) \<in> Used bs" and j: "8 \<le> j" "j < n + 4"
  shows "hinv (store_byte (of_nat (a + j)) v s) bs"
  unfolding store_byte_def
proof (rule stores_ok [OF h a])
  have "(a, n, True) \<in> set bs" using a by simp
  from core_block(2) [OF hinvD(1) [OF h] this] have "unat (of_nat (a + j) :: addr) = a + j"
    using j(2) by (simp add: okaddr_def unat_of_nat del: of_nat_add)
  then show "unat x < a + 8 \<or> a + n + 4 \<le> unat x \<Longrightarrow> ((hmem s)(of_nat (a + j) := v)) x = hmem s x" for x
    using j by auto
qed

section \<open>The abstract heap\<close>

text \<open>
  What a client sees: a map from the pointers of the live objects to their contents. A new object has the requested
  size, any contents and a pointer that no live object has; or there is no memory, and nothing changes.
\<close>

datatype heap_op = Alloc u32 | Release addr | Store addr nat u8

type_synonym objects = "addr \<Rightarrow> u8 list option"

inductive abs_step :: "objects \<Rightarrow> heap_op \<Rightarrow> addr \<Rightarrow> objects \<Rightarrow> bool" where
  alloc: "\<lbrakk>p \<noteq> NULL; Obj p = None; length xs = unat n\<rbrakk> \<Longrightarrow> abs_step Obj (Alloc n) p (Obj(p \<mapsto> xs))"
| no_memory: "abs_step Obj (Alloc n) NULL Obj"
| release: "Obj p = Some xs \<Longrightarrow> abs_step Obj (Release p) NULL (Obj(p := None))"
| store: "\<lbrakk>Obj p = Some xs; i < length xs\<rbrakk> \<Longrightarrow> abs_step Obj (Store p i v) NULL (Obj(p \<mapsto> xs[i := v]))"

inductive_cases abs_stepE: "abs_step Obj c r Obj'"
inductive_simps abs_release: "abs_step Obj (Release p) r Obj'"

text \<open>A client releases and writes only what is live, and asks for less than 0xBFFFF0 bytes, 12 MiB less 16.\<close>

fun allowed :: "objects \<Rightarrow> heap_op \<Rightarrow> bool" where
  "allowed Obj (Alloc n) \<longleftrightarrow> unat n < 0xBFFFF0"
| "allowed Obj (Release p) \<longleftrightarrow> Obj p \<noteq> None"
| "allowed Obj (Store p i v) \<longleftrightarrow> (case Obj p of None \<Rightarrow> False | Some xs \<Rightarrow> i < length xs)"

fun heap_do :: "kheap callbacks \<Rightarrow> heap_op \<Rightarrow> kheap \<Rightarrow> (addr \<times> kheap) option" where
  "heap_do cb (Alloc n) s = kmalloc cb n s"
| "heap_do cb (Release p) s = map_option (Pair NULL) (kfree cb p s)"
| "heap_do cb (Store p i v) s = Some (NULL, store_byte (p + of_nat i) v s)"

definition object_ok :: "'a kmstate_scheme \<Rightarrow> objects \<Rightarrow> nat \<times> nat \<Rightarrow> bool" where
  "object_ok s Obj = (\<lambda>(a, n). \<exists>xs. Obj (of_nat (a + 8)) = Some xs \<and> length xs + 4 \<le> n
     \<and> (\<forall>i < length xs. hmem s (of_nat (a + 8 + i)) = xs ! i))"

definition objects_at :: "kheap \<Rightarrow> objects \<Rightarrow> block list \<Rightarrow> bool" where
  "objects_at s Obj bs \<longleftrightarrow> hinv s bs \<and> kernel_avail s \<and> dom Obj = (\<lambda>(a, n). of_nat (a + 8)) ` Used bs
     \<and> (\<forall>b \<in> Used bs. object_ok s Obj b)"

definition heap_rep :: "kheap \<Rightarrow> objects \<Rightarrow> bool" where
  "heap_rep s Obj \<longleftrightarrow> (\<exists>bs. objects_at s Obj bs)"

lemma objects_atD:
  assumes "objects_at s Obj bs"
  shows "hinv s bs" "kernel_avail s" "dom Obj = (\<lambda>(a, n). of_nat (a + 8)) ` Used bs" "\<forall>b \<in> Used bs. object_ok s Obj b"
  using assms unfolding objects_at_def by blast+

lemma objects_atI:
  assumes "hinv s bs" "kernel_avail s" "dom Obj = (\<lambda>(a, n). of_nat (a + 8)) ` Used bs" "\<And>a n. (a, n) \<in> Used bs \<Longrightarrow> object_ok s Obj (a, n)"
  shows "objects_at s Obj bs"
  unfolding objects_at_def using assms by (auto simp del: of_nat_add)

lemma heap_repD:
  assumes "heap_rep s Obj"
  obtains bs where "hinv s bs" "kernel_avail s" "dom Obj = (\<lambda>(a, n). of_nat (a + 8)) ` Used bs" "\<forall>b \<in> Used bs. object_ok s Obj b"
  using assms objects_atD unfolding heap_rep_def by blast

lemma heap_repI:
  assumes "hinv s bs" "kernel_avail s" "dom Obj = (\<lambda>(a, n). of_nat (a + 8)) ` Used bs" "\<And>a n. (a, n) \<in> Used bs \<Longrightarrow> object_ok s Obj (a, n)"
  shows "heap_rep s Obj"
  using objects_atI [OF assms] unfolding heap_rep_def by blast

text \<open>Facts on the blocks in use.\<close>

lemma used_block:
  assumes h: "hinv s bs" and a: "(a, n) \<in> Used bs"
  shows "a mod 8 = 0" "n mod 8 = 0" "0 < a" "a + n + 32 \<le> 4294967296" "16 \<le> n"
    "unat (heap_start s) \<le> a" "a + n + 8 \<le> unat (heap_start s) + unat (heap_size s)"
proof -
  have "(a, n, True) \<in> set bs" using a by simp
  note b = core_block [OF hinvD(1) [OF h] this] and t = top_okD [OF coreD(2) [OF hinvD(1) [OF h]]]
  show "a mod 8 = 0" "n mod 8 = 0" "0 < a" "16 \<le> n" "unat (heap_start s) \<le> a" "a + n + 32 \<le> 4294967296"
    using b by (simp_all add: okaddr_def)
  show "a + n + 8 \<le> unat (heap_start s) + unat (heap_size s)" using b(8) t(3) by linarith
qed

lemma used_once:
  assumes h: "hinv s bs" and a: "(a, n) \<in> Used bs" "(b, m) \<in> Used bs" and eq: "(of_nat (a + 8) :: addr) = of_nat (b + 8)"
  shows "a = b" "n = m"
proof -
  have "unat (of_nat (a + 8) :: addr) = a + 8" "unat (of_nat (b + 8) :: addr) = b + 8"
    using used_block(4,5) [OF h a(1)] used_block(4,5) [OF h a(2)] by (simp_all add: unat_of_nat del: of_nat_add)
  then have "a + 8 = b + 8" unfolding eq by (rule trans [OF sym])
  then show ab: "a = b" by simp
  have "(a, n, True) \<in> set bs" "(b, m, True) \<in> set bs" using a by simp_all
  from chain_disjoint [OF coreD(3) [OF hinvD(1) [OF h]] this] show "n = m"
    using ab used_block(5) [OF h a(1)] used_block(5) [OF h a(2)] by auto
qed

lemma live_block:
  assumes "hinv s bs" "dom Obj = (\<lambda>(a, n). of_nat (a + 8)) ` Used bs" "\<forall>b \<in> Used bs. object_ok s Obj b" "Obj p = Some xs"
  obtains a n where "(a, n) \<in> Used bs" "p = of_nat (a + 8)" "length xs + 4 \<le> n" "\<forall>i < length xs. hmem s (of_nat (a + 8 + i)) = xs ! i"
proof -
  have "p \<in> (\<lambda>(a, n). of_nat (a + 8)) ` Used bs" using assms(2,4) by auto
  then obtain a n where a: "(a, n) \<in> Used bs" "p = of_nat (a + 8)" by auto
  then have "object_ok s Obj (a, n)" using assms(3) by blast
  then have "length xs + 4 \<le> n" "\<forall>i < length xs. hmem s (of_nat (a + 8 + i)) = xs ! i"
    using assms(4) a(2) unfolding object_ok_def by (auto simp del: of_nat_add)
  then show ?thesis using that a by blast
qed

text \<open>Objects whose blocks keep their words keep their contents.\<close>

lemma object_keeps:
  assumes h: "hinv s bs" and a: "(a, n) \<in> Used bs" and k: "keeps U s s'" "(a, n) \<in> U" and ok: "object_ok s Obj (a, n)"
    and e: "Obj' (of_nat (a + 8)) = Obj (of_nat (a + 8))"
  shows "object_ok s' Obj' (a, n)"
proof -
  note u = used_block [OF h a]
  obtain xs where xs: "Obj (of_nat (a + 8)) = Some xs" "length xs + 4 \<le> n" "\<forall>i < length xs. hmem s (of_nat (a + 8 + i)) = xs ! i"
    using ok unfolding object_ok_def by blast
  have "hmem s' (of_nat (a + (8 + i))) = hmem s (of_nat (a + (8 + i)))" if "i < length xs" for i
    by (rule keeps_byte [OF k u(1) _ u(2)]) (use u(4) xs(2) that in auto)
  then show ?thesis unfolding object_ok_def using xs e by (auto simp: add.assoc simp del: of_nat_add)
qed

section \<open>The operations refine the abstract heap\<close>

abbreviation kernel_callbacks :: "kheap callbacks \<Rightarrow> kheap callbacks" where
  "kernel_callbacks cb \<equiv> libk_set_callback_sbrk kernel_sbrk cb"

text \<open>A new block is a new object, as long as it fits.\<close>

lemma allocated_refines:
  assumes r: "objects_at s Obj bs" and a: "allocated s bs c p s' bs'" and av: "kernel_avail s'" and len: "len + 4 \<le> c"
  obtains xs where "length xs = len" "p \<noteq> NULL" "Obj p = None" "objects_at s' (Obj(p \<mapsto> xs)) bs'"
proof -
  note h = objects_atD [OF r]
  obtain a m where b: "p = of_nat (a + 8)" "c \<le> m" "(a, m) \<notin> Used bs" "Used bs' = insert (a, m) (Used bs)" "hinv s' bs'" "keeps (Used bs) s s'"
    using a unfolding allocated_def by blast
  have am: "(a, m) \<in> Used bs'" by (simp add: b(4))
  define xs where "xs = map (\<lambda>i. hmem s' (of_nat (a + 8 + i))) [0..<len]"
  have fresh: "p \<noteq> of_nat (d + 8)" if d: "(d, k) \<in> Used bs" for d k
  proof
    assume "p = of_nat (d + 8)"
    then have "(of_nat (a + 8) :: addr) = of_nat (d + 8)" using b(1) by simp
    from used_once [OF b(5) am _ this] d b(3,4) show False by blast
  qed
  have pN: "Obj p = None"
  proof (rule ccontr)
    assume "Obj p \<noteq> None"
    then have "p \<in> (\<lambda>(a, n). of_nat (a + 8)) ` Used bs" using h(3) by blast
    then obtain d k where "(d, k) \<in> Used bs" "p = of_nat (d + 8)" by auto
    then show False using fresh by blast
  qed
  have new: "object_ok s' (Obj(p \<mapsto> xs)) (a, m)" unfolding object_ok_def b(1) using len b(2) by (auto simp: xs_def)
  have old: "object_ok s' (Obj(p \<mapsto> xs)) (d, k)" if d: "(d, k) \<in> Used bs" for d k
    by (rule object_keeps [OF h(1) d b(6) d]) (use h(4) d fresh [OF d] in auto)
  have "dom (Obj(p \<mapsto> xs)) = (\<lambda>(a, n). of_nat (a + 8)) ` Used bs'" using h(3) by (simp add: b(1,4))
  then have "objects_at s' (Obj(p \<mapsto> xs)) bs'" by (rule objects_atI [OF b(5) av]) (use new old in \<open>auto simp: b(4) simp del: of_nat_add in_Used\<close>)
  then show ?thesis using that [of xs] allocated_not_NULL [OF a] pN by (simp add: xs_def)
qed

lemma unchanged_refines:
  assumes r: "objects_at s Obj bs" and s': "hinv s' bs" "keeps (Used bs) s s'" "kernel_avail s'"
  shows "objects_at s' Obj bs"
proof (rule objects_atI [OF s'(1,3)])
  note h = objects_atD [OF r]
  show "dom Obj = (\<lambda>(a, n). of_nat (a + 8)) ` Used bs" by (rule h(3))
  show "object_ok s' Obj (a, m)" if "(a, m) \<in> Used bs" for a m
    by (rule object_keeps [OF h(1) that s'(2) that]) (use h(4) that in auto)
qed

lemma alloc_refines:
  assumes r: "heap_rep s Obj" and n: "unat req < 0xBFFFF0"
  shows "\<exists>p s' Obj'. kmalloc (kernel_callbacks cb) req s = Some (p, s') \<and> abs_step Obj (Alloc req) p Obj' \<and> heap_rep s' Obj'"
proof -
  obtain bs where r: "objects_at s Obj bs" using r unfolding heap_rep_def by blast
  note h = objects_atD [OF r]
  obtain p s' where k: "kmalloc (kernel_callbacks cb) req s = Some (p, s')" "kernel_avail s'"
    "(\<exists>bs'. allocated s bs (chunk_of_request (unat req)) p s' bs') \<or> (p = NULL \<and> unat (topChunkSize s) < chunk_of_request (unat req) \<and> hinv s' bs \<and> keeps (Used bs) s s')"
    by (rule kernel.kmalloc_ok [OF h(1,2) n, of cb])
  show ?thesis
  proof (cases "\<exists>bs'. allocated s bs (chunk_of_request (unat req)) p s' bs'")
    case False
    then have f: "p = NULL" "hinv s' bs" "keeps (Used bs) s s'" using k(3) by blast+
    have "heap_rep s' Obj" using unchanged_refines [OF r f(2,3) k(2)] unfolding heap_rep_def by blast
    then show ?thesis using k(1) f(1) abs_step.no_memory by blast
  next
    case True
    then obtain bs' where a: "allocated s bs (chunk_of_request (unat req)) p s' bs'" by blast
    have len: "unat req + 4 \<le> chunk_of_request (unat req)" using chunk_of_request_valid(3) [of "unat req"] n by simp
    obtain xs where xs: "length xs = unat req" "p \<noteq> NULL" "Obj p = None" "objects_at s' (Obj(p \<mapsto> xs)) bs'"
      by (rule allocated_refines [OF r a k(2) len])
    have "abs_step Obj (Alloc req) p (Obj(p \<mapsto> xs))" by (rule abs_step.alloc) (simp_all add: xs)
    moreover have "heap_rep s' (Obj(p \<mapsto> xs))" using xs(4) unfolding heap_rep_def by blast
    ultimately show ?thesis using k(1) by blast
  qed
qed

lemma release_refines:
  assumes r: "heap_rep s Obj" and p: "Obj p \<noteq> None"
  shows "\<exists>s' Obj'. kfree (kernel_callbacks cb) p s = Some s' \<and> abs_step Obj (Release p) NULL Obj' \<and> heap_rep s' Obj'"
proof -
  obtain bs where h: "hinv s bs" "kernel_avail s" "dom Obj = (\<lambda>(a, n). of_nat (a + 8)) ` Used bs" "\<forall>b \<in> Used bs. object_ok s Obj b"
    by (rule heap_repD [OF r])
  obtain xs where xs: "Obj p = Some xs" using p by blast
  obtain a n where a: "(a, n) \<in> Used bs" "p = of_nat (a + 8)" by (rule live_block [OF h(1,3,4) xs])
  obtain s' bs' where k: "kfree (kernel_callbacks cb) (of_nat (a + 8)) s = Some s'" "hinv s' bs'" "Used bs' = Used bs - {(a, n)}"
    "keeps (Used bs') s s'" "kernel_avail s'"
    by (rule kernel.kfree_ok [OF h(1,2) a(1), of cb])
  have other: "of_nat (b + 8) \<noteq> p" if b: "(b, k) \<in> Used bs'" for b k
  proof
    assume "of_nat (b + 8) = p"
    then have "(of_nat (b + 8) :: addr) = of_nat (a + 8)" using a(2) by simp
    from used_once [OF h(1) _ a(1) this] b k(3) show False by blast
  qed
  have "object_ok s' (Obj(p := None)) (b, k)" if b: "(b, k) \<in> Used bs'" for b k
    by (rule object_keeps [OF h(1) _ k(4) b]) (use h(4) b k(3) other [OF b] in auto)
  moreover have "dom (Obj(p := None)) = (\<lambda>(a, n). of_nat (a + 8)) ` Used bs'"
  proof -
    have "Used bs = insert (a, n) (Used bs')" using a(1) k(3) by blast
    then have "dom Obj = insert p ((\<lambda>(a, n). of_nat (a + 8)) ` Used bs')" unfolding h(3) a(2) by simp
    moreover have "p \<notin> (\<lambda>(a, n). of_nat (a + 8)) ` Used bs'" using other by fast
    ultimately show ?thesis by auto
  qed
  ultimately have "heap_rep s' (Obj(p := None))" by (intro heap_repI [OF k(2,5)])
  then show ?thesis using k(1) a(2) abs_step.release [of Obj p xs, OF xs] by blast
qed

lemma store_refines:
  assumes r: "heap_rep s Obj" and p: "Obj p = Some xs" "i < length xs"
  shows "heap_rep (store_byte (p + of_nat i) v s) (Obj(p \<mapsto> xs[i := v]))"
proof -
  obtain bs where h: "hinv s bs" "kernel_avail s" "dom Obj = (\<lambda>(a, n). of_nat (a + 8)) ` Used bs" "\<forall>b \<in> Used bs. object_ok s Obj b"
    by (rule heap_repD [OF r])
  obtain a n where a: "(a, n) \<in> Used bs" "p = of_nat (a + 8)" "length xs + 4 \<le> n" "\<forall>i < length xs. hmem s (of_nat (a + 8 + i)) = xs ! i"
    by (rule live_block [OF h(1,3,4) p(1)])
  define s' where "s' = store_byte (of_nat (a + (8 + i))) v s"
  have st: "store_byte (p + of_nat i) v s = s'" by (simp add: s'_def a(2) add.assoc)
  have h': "hinv s' bs" unfolding s'_def by (rule store_byte_ok [OF h(1) a(1)]) (use p(2) a(3) in auto)
  have av: "kernel_avail s'" by (rule kernel_avail_cong [OF h(2)]) (simp add: same_arena_def s'_def store_byte_def)
  have byte: "hmem s' (of_nat (b + 8 + k)) = (if b + 8 + k = a + (8 + i) then v else hmem s (of_nat (b + 8 + k)))"
    if b: "(b, m) \<in> Used bs" "k + 4 \<le> m" for b m k
  proof -
    have u: "unat (of_nat (b + 8 + k) :: addr) = b + 8 + k" "unat (of_nat (a + (8 + i)) :: addr) = a + (8 + i)"
      using used_block(4) [OF h(1) b(1)] used_block(4) [OF h(1) a(1)] b(2) p(2) a(3) by (simp_all add: unat_of_nat del: of_nat_add)
    have "of_nat (b + 8 + k) = (of_nat (a + (8 + i)) :: addr) \<longleftrightarrow> b + 8 + k = a + (8 + i)" using u by metis
    then show ?thesis by (simp add: s'_def store_byte_def del: of_nat_add)
  qed
  have "object_ok s' (Obj(p \<mapsto> xs[i := v])) (b, m)" if b: "(b, m) \<in> Used bs" for b m
  proof (cases "(b, m) = (a, n)")
    case True
    then show ?thesis unfolding object_ok_def using byte [OF a(1)] a(2,3,4) by (auto simp: nth_list_update simp del: of_nat_add)
  next
    case False
    have "(a, n, True) \<in> set bs" "(b, m, True) \<in> set bs" using a(1) b by simp_all
    from chain_disjoint [OF coreD(3) [OF hinvD(1) [OF h(1)]] this] have d: "a + n \<le> b \<or> b + m \<le> a" using False by auto
    have ne: "of_nat (b + 8) \<noteq> p"
    proof
      assume "of_nat (b + 8) = p"
      then have "(of_nat (b + 8) :: addr) = of_nat (a + 8)" using a(2) by simp
      from used_once [OF h(1) b a(1) this] False show False by blast
    qed
    obtain ys where ys: "Obj (of_nat (b + 8)) = Some ys" "length ys + 4 \<le> m" "\<forall>i < length ys. hmem s (of_nat (b + 8 + i)) = ys ! i"
      using h(4) b unfolding object_ok_def by fastforce
    have "hmem s' (of_nat (b + 8 + k)) = ys ! k" if "k < length ys" for k
    proof -
      have "b + 8 + k \<noteq> a + (8 + i)" using d ys(2) that a(3) p(2) by linarith
      then show ?thesis using byte [OF b, of k] ys(2,3) that by simp
    qed
    then show ?thesis unfolding object_ok_def using ys(1,2) ne by (auto simp del: of_nat_add)
  qed
  moreover have "dom (Obj(p \<mapsto> xs[i := v])) = (\<lambda>(a, n). of_nat (a + 8)) ` Used bs" unfolding h(3) [symmetric] using p(1) by auto
  ultimately show ?thesis unfolding st by (intro heap_repI [OF h' av])
qed

section \<open>Pages behind the blocks\<close>

lemma block_mapped:
  assumes h: "hinv s bs" and av: "kernel_pages s" and a: "(a, n) \<in> Used bs" and j: "j < n + 4"
  shows "page_is_mapped (of_nat (a + j)) (pg s)"
proof -
  obtain A where A: "space_rep (pg s) A" "heap_ok (pg s)" "kernel_heap_addr (pg s) = heap_start s" "kernel_heap_size (pg s) = heap_size s"
    "heap_mapped (unat (heap_start s)) (unat (heap_end (pg s))) A"
    using av unfolding kernel_pages_def by blast
  note u = used_block [OF h a] and e = heap_okD [OF A(2)]
  have ua: "unat (of_nat (a + j) :: addr) = a + j" using u(4) j by (simp add: unat_of_nat del: of_nat_add)
  then have pn: "page_no (of_nat (a + j)) = (a + j) div 4096" by (simp add: page_no_def del: of_nat_add)
  have "a + j \<le> unat (heap_end (pg s)) - 1" using u(7) j e(1) A(3,4) by simp
  then have "(a + j) div 4096 \<le> last_page (unat (heap_end (pg s)))" unfolding last_page_def by (rule div_le_mono)
  moreover have "unat (heap_start s) div 4096 \<le> (a + j) div 4096" using u(6) by (intro div_le_mono) simp
  ultimately have m: "page_map A ((a + j) div 4096) \<noteq> None" "(a + j) div 4096 < 1046528"
    using A(5) last_page_less [OF e(3)] unfolding heap_mapped_def by auto
  then show ?thesis using space_repD(2) [OF A(1), of "(a + j) div 4096"] unfolding page_is_mapped_iff pn by (simp add: ordinary_less)
qed

lemma all_released:
  assumes "hinv s bs" "Used bs = {}"
  shows "bs = []" "topChunk s = heap_start s"
proof -
  have ch: "blocks_at (wd s) True (unat (heap_start s)) bs (unat (topChunk s)) True" using coreD(3) [OF hinvD(1) [OF assms(1)]] .
  show "bs = []"
  proof (cases bs)
    case (Cons x cs)
    obtain b n u where x: "x = (b, n, u)" by (cases x)
    have nu: "\<not> u" using assms(2) by (cases u) (auto simp: Cons x)
    then have "blocks_at (wd s) False (b + n) cs (unat (topChunk s)) True" using ch by (auto simp: Cons x)
    from after_free [OF this] obtain m ds where "cs = (b + n, m, True) # ds" by blast
    then show ?thesis using assms(2) by (auto simp: Cons Used_def)
  qed
  with ch show "topChunk s = heap_start s" by (simp add: word_unat_eq_iff)
qed

section \<open>The largest requests\<close>

lemma last_bin:
  assumes "0xC00000 \<le> n" "n < 4294967296"
  shows "calc_tbin (of_nat n) = 31"
proof (cases "n \<le> 0xFFFF00")
  case True
  have n: "256 \<le> n" using assms(1) by simp
  obtain m where m: "8 \<le> m" "m \<le> 23" "tbin_of n = 2 * (m - 8) + (if bit n (m - 1) then 1 else 0)" "n div 2 ^ m = 1"
    by (rule calc_tbin_large [OF n True])
  have "m = 23"
  proof (rule ccontr)
    assume "m \<noteq> 23"
    then have "m \<le> 22" using m(2) by simp
    then have "(2 :: nat) ^ m \<le> 2 ^ 22" by (intro power_increasing) simp_all
    moreover have "n < 2 * 2 ^ m" 
    proof -
      have "1 * 2 ^ m + n mod 2 ^ m = n" using div_mult_mod_eq [of n "2 ^ m"] unfolding m(4) .
      moreover have "n mod 2 ^ m < 2 ^ m" by simp
      ultimately show ?thesis by linarith
    qed
    ultimately show False using assms(1) by simp
  qed
  moreover have "bit n 22"
  proof -
    have "n div 4194304 = 3" using assms(1) True by simp
    then show ?thesis by (simp add: bit_iff_odd)
  qed
  ultimately have "tbin_of n = 31" using m(3) by simp
  then show ?thesis unfolding calc_tbin_of by simp
next
  case False
  then have "(of_nat n :: u32) > push_bit 8 0xFFFF" using assms(2) by (simp add: word_less_nat_alt unat_of_nat)
  moreover then have "\<not> (of_nat n :: u32) < push_bit 8 1" using False assms(2) by (simp add: word_less_nat_alt unat_of_nat)
  ultimately show ?thesis by (simp add: calc_tbin_def)
qed

text \<open>Defect: a request of 12 MiB or more, when the last tree is empty, shifts a 32-bit word by 32, which C leaves undefined.\<close>

theorem kmalloc_large_undefined:
  assumes i: "KMALLOC_IS_INIT s" and t: "tbin s 31 = NULL" and req: "0xC00000 \<le> unat req" "unat req < 4294967285"
  shows "kmalloc cb req s = None"
proof -
  define n where "n = chunk_of_request (unat req)"
  note c = chunk_of_request_valid [OF req(2), folded n_def]
  have n: "0xC00000 \<le> n" "n < 4294967296" using c(1,3) req(1) by (simp_all add: valid_size_def)
  have R: "REQUEST2SIZE req = of_nat n" using c(2) by simp
  have "\<not> REQUESTOVERFLOW req" using c(3) n(2) unfolding REQUESTOVERFLOW_def R by (simp add: word_less_nat_alt unat_of_nat)
  moreover have "\<not> (of_nat n :: u32) < MIN_LARGE_SIZE" using n by (simp add: MIN_LARGE_SIZE_def word_less_nat_alt unat_of_nat)
  moreover have "search_tree (of_nat n) s = None"
    unfolding search_tree_def Let_def last_bin [OF n] by (simp add: t kmalloc_tree_get_best_fit_def)
  ultimately show ?thesis using i by (simp add: kmalloc_def kmalloc_intern_def R)
qed

section \<open>Properties\<close>

text \<open>C25: \<open>kmalloc\<close> on the kernel's pages returns for every request of less than 0xBFFFF0 bytes (12 MiB less 16), whatever the
  order of earlier calls, as long as heap and free frames together stay below 16 MiB (\<open>kernel_avail\<close>): NULL with every block as before, only when the top chunk is too small, or a pointer aligned to 8 bytes to a new block that holds the request with at
  most 32 bytes more, overlaps no block in use and lies on mapped pages; the contents of the other blocks are kept.\<close>

theorem kernel_kmalloc_block:
  assumes h: "hinv s bs" and av: "kernel_avail s" and n: "unat req < 0xBFFFF0"
  shows "\<exists>p s'. kmalloc (kernel_callbacks cb) req s = Some (p, s') \<and> kernel_avail s' \<and> keeps (Used bs) s s' \<and>
    (if p = NULL then unat (topChunkSize s) < chunk_of_request (unat req) \<and> hinv s' bs
     else \<exists>bs' a m. p = of_nat (a + 8) \<and> a mod 8 = 0 \<and> unat req + 4 \<le> m \<and> m \<le> unat req + 32 \<and> hinv s' bs'
       \<and> Used bs' = insert (a, m) (Used bs) \<and> (\<forall>(b, k) \<in> Used bs. a + m \<le> b \<or> b + k \<le> a)
       \<and> (\<forall>j < unat req. page_is_mapped (p + of_nat j) (pg s')))"
proof -
  obtain p s' where k: "kmalloc (kernel_callbacks cb) req s = Some (p, s')" "kernel_avail s'"
    "(\<exists>bs'. allocated s bs (chunk_of_request (unat req)) p s' bs') \<or> (p = NULL \<and> unat (topChunkSize s) < chunk_of_request (unat req) \<and> hinv s' bs \<and> keeps (Used bs) s s')"
    by (rule kernel.kmalloc_ok [OF h av n, of cb])
  show ?thesis
  proof (cases "p = NULL")
    case True
    then have "unat (topChunkSize s) < chunk_of_request (unat req)" "hinv s' bs" "keeps (Used bs) s s'" using k(3) allocated_not_NULL by blast+
    then show ?thesis using k True by simp
  next
    case False
    then obtain bs' a m where a: "p = of_nat (a + 8)" "chunk_of_request (unat req) \<le> m" "m \<le> chunk_of_request (unat req) + 16"
      "(a, m) \<notin> Used bs" "Used bs' = insert (a, m) (Used bs)" "hinv s' bs'" "keeps (Used bs) s s'"
      using k(3) unfolding allocated_def by blast
    have am: "(a, m) \<in> Used bs'" by (simp add: a(5))
    have c: "unat req + 4 \<le> m" "m \<le> unat req + 32" using chunk_of_request_valid(3,4) [of "unat req"] n a(2,3) by simp_all
    have apart: "\<forall>(b, k) \<in> Used bs. a + m \<le> b \<or> b + k \<le> a"
    proof (intro ballI, clarify)
      fix b j assume b: "(b, j) \<in> Used bs" and nb: "\<not> b + j \<le> a"
      have "(a, m, True) \<in> set bs'" "(b, j, True) \<in> set bs'" using b a(5) by (auto simp: Used_def)
      from chain_disjoint [OF coreD(3) [OF hinvD(1) [OF a(6)]] this] show "a + m \<le> b" using a(4) b nb by auto
    qed
    have "page_is_mapped (p + of_nat j) (pg s')" if "j < unat req" for j
      using block_mapped [OF a(6) kernel_pagesI [OF k(2)] am, of "8 + j"] c(1) that by (simp add: a(1) add.assoc)
    then have mapped: "\<forall>j < unat req. page_is_mapped (p + of_nat j) (pg s')" by blast
    show ?thesis
      by (intro exI [of _ p] exI [of _ s'] conjI k(1,2) a(7), subst if_not_P [OF False],
          intro exI [of _ bs'] exI [of _ a] exI [of _ m] conjI a(1) used_block(1) [OF a(6) am] c a(6,5) apart mapped)
  qed
qed

text \<open>C26: \<open>kfree\<close> of a block in use returns, removes exactly that block and keeps the contents of the others; free
  blocks are merged, so that a heap without blocks in use is the top chunk alone.\<close>

theorem kernel_kfree_block:
  assumes h: "hinv s bs" and av: "kernel_avail s" and a: "(a, n) \<in> Used bs"
  shows "\<exists>s' bs'. kfree (kernel_callbacks cb) (of_nat (a + 8)) s = Some s' \<and> hinv s' bs' \<and> kernel_avail s'
    \<and> Used bs' = Used bs - {(a, n)} \<and> keeps (Used bs') s s'
    \<and> (Used bs = {(a, n)} \<longrightarrow> bs' = [] \<and> topChunk s' = heap_start s')"
proof -
  obtain s' bs' where k: "kfree (kernel_callbacks cb) (of_nat (a + 8)) s = Some s'" "hinv s' bs'" "Used bs' = Used bs - {(a, n)}"
    "keeps (Used bs') s s'" "kernel_avail s'"
    by (rule kernel.kfree_ok [OF h av a, of cb])
  then show ?thesis using all_released [OF k(2)] by (intro exI [of _ s'] exI [of _ bs']) auto
qed

text \<open>C4: Every call a client may make is a step of the abstract heap: a new object gets a pointer of its own, a
  released one is gone, a stored byte changes one object in one place, and the contents of all live objects stay
  as the map has them, whatever the allocator does with its chunks and the kernel with its pages.\<close>

theorem heap_refines_objects:
  assumes "heap_rep s Obj" "allowed Obj c"
  shows "\<exists>p s' Obj'. heap_do (kernel_callbacks cb) c s = Some (p, s') \<and> abs_step Obj c p Obj' \<and> heap_rep s' Obj'"
proof (cases c)
  case (Alloc n)
  then show ?thesis using alloc_refines [OF assms(1)] assms(2) by simp
next
  case (Release p)
  then show ?thesis using release_refines [OF assms(1), of p cb] assms(2) by force
next
  case (Store p i v)
  obtain xs where "Obj p = Some xs" "i < length xs" using assms(2) by (auto simp: Store split: option.splits)
  with store_refines [OF assms(1) this] abs_step.store [of Obj p xs i v] show ?thesis unfolding Store heap_do.simps by blast
qed

text \<open>C24: \<open>memory_init\<close> hands libk a heap that is ready: given a sane memory map of at least four and less than 4096 free
  pages, the initial heap is mapped, the callback is registered, the allocator's invariant holds and no object is live.\<close>

theorem memory_init_heap_ready:
  assumes "frames_rep ((pg s)\<lparr>pstack_pointer := KERNEL_PSTACK_TOP\<rparr>) []"
    and "\<forall>e \<in> set mmap. region_ok e" "4 \<le> length (concat (map region_pages mmap))" "length (concat (map region_pages mmap)) \<le> 4095"
    and "0 < h" "h + 2 < 1046528" "mapping (pg s) h = None" "mapping (pg s) (Suc h) = None" "PDE_NUM start \<le> h div 1024"
  shows "\<exists>s'. memory_init_heap mmap start (page_addr h) cb s = Some (kernel_callbacks cb, s')
    \<and> hinv s' [] \<and> kernel_avail s' \<and> heap_rep s' Map.empty \<and> heap_start s' = page_addr h \<and> heap_size s' = KERNEL_INITIAL_HEAP_SIZE
    \<and> topChunkSize s' = KERNEL_INITIAL_HEAP_SIZE - 8"
proof -
  have "length (concat (map region_pages mmap)) \<le> STACK_MAX" using assms(4) by (simp add: STACK_MAX_def)
  then obtain s' where s': "memory_init_heap mmap start (page_addr h) cb s = Some (kernel_callbacks cb, s')" "hinv s' []" "kernel_avail s'"
    "heap_start s' = page_addr h" "heap_size s' = KERNEL_INITIAL_HEAP_SIZE" "topChunkSize s' = KERNEL_INITIAL_HEAP_SIZE - 8"
    using memory_init_heap_ok [OF assms(1-3) _ assms(5-9), of cb] assms(4) by blast
  have "heap_rep s' Map.empty" by (rule heap_repI [OF s'(2,3)]) simp_all
  with s' show ?thesis by blast
qed

section \<open>The heap of a small machine\<close>

text \<open>The address space of \<open>demo_paging0\<close> with eight free pages from 1 MiB on.\<close>

definition demo_mmap :: "mem_entry list" where
  "demo_mmap = [\<lparr>me_address = 0x100000, me_size = 0x8000, me_type = MMAP_TYPE_FREE\<rparr>]"

definition demo_before :: kheap where
  "demo_before = \<lparr>hmem = (\<lambda>_. 0), heap_start = 0, heap_size = 0, initial_heap_size = 0, sbinmap = 0, tbinmap = 0,
     sbin = (\<lambda>_. 0), tbin = (\<lambda>_. 0), dVictim = 0, dVictimSize = 0, topChunk = 0, topChunkSize = 0, magic = 0, pg = demo_paging0\<rparr>"

definition demo_kheap :: kheap where
  "demo_kheap = snd (the (memory_init_heap demo_mmap 0xC0000000 (page_addr 786948) no_callbacks demo_before))"

lemma demo_before_ok:
  "frames_rep ((pg demo_before)\<lparr>pstack_pointer := KERNEL_PSTACK_TOP\<rparr>) []" "\<forall>e \<in> set demo_mmap. region_ok e"
  "4 \<le> length (concat (map region_pages demo_mmap))" "length (concat (map region_pages demo_mmap)) \<le> 4095"
  "0 < (786948 :: nat)" "786948 + 2 < (1046528 :: nat)" "mapping (pg demo_before) 786948 = None" "mapping (pg demo_before) (Suc 786948) = None"
  "PDE_NUM 0xC0000000 \<le> 786948 div 1024"
proof -
  show "frames_rep ((pg demo_before)\<lparr>pstack_pointer := KERNEL_PSTACK_TOP\<rparr>) []"
    using demo_frames0 by (simp add: demo_before_def demo_paging0_def)
  have "concat (map region_pages demo_mmap) = [256..<264]" by (simp add: region_pages_def demo_mmap_def)
  then show "4 \<le> length (concat (map region_pages demo_mmap))" "length (concat (map region_pages demo_mmap)) \<le> 4095" by simp_all
qed (simp_all add: demo_mmap_def demo_before_def region_ok_def PDE_NUM_div mapping_def entry_mapping_def demo_paging0_def demo_tables_def
      PTABLE_FLAG_PRESENT_def PTABLE_FLAG_LARGEPAGE_def)

lemma demo_before_room: "length (concat (map region_pages demo_mmap)) \<le> STACK_MAX"
  using demo_before_ok(4) by (simp add: STACK_MAX_def)

lemmas demo_before_init = memory_init_heap_ok [OF demo_before_ok(1-3) demo_before_room demo_before_ok(5-9)]

lemma demo_kheap_ok: "hinv demo_kheap []" "kernel_avail demo_kheap" "heap_rep demo_kheap Map.empty"
proof -
  obtain s' where s': "memory_init_heap demo_mmap 0xC0000000 (page_addr 786948) no_callbacks demo_before = Some (kernel_callbacks no_callbacks, s')"
    "hinv s' []" "kernel_avail s'"
    using demo_before_init [of no_callbacks] demo_before_ok(4) by blast
  then show "hinv demo_kheap []" "kernel_avail demo_kheap" by (simp_all add: demo_kheap_def)
  then show "heap_rep demo_kheap Map.empty" by (rule heap_repI) simp_all
qed

theorem memory_init_heap_ready_witness:
  "\<exists>s'. memory_init_heap demo_mmap 0xC0000000 (page_addr 786948) no_callbacks demo_before = Some (kernel_callbacks no_callbacks, s')
    \<and> hinv s' [] \<and> heap_start s' = page_addr 786948"
  using memory_init_heap_ready [OF demo_before_ok, of no_callbacks] by blast

theorem kernel_kmalloc_block_witness:
  "hinv demo_kheap [] \<and> kernel_avail demo_kheap
    \<and> (\<exists>p s'. kmalloc (kernel_callbacks no_callbacks) 100 demo_kheap = Some (p, s') \<and> kernel_avail s')"
proof -
  have "unat (100 :: u32) < 0xBFFFF0" by simp
  from kernel_kmalloc_block [OF demo_kheap_ok(1,2) this, of no_callbacks] show ?thesis using demo_kheap_ok by blast
qed

theorem heap_refines_objects_witness:
  "heap_rep demo_kheap Map.empty \<and> allowed Map.empty (Alloc 100)
    \<and> (\<exists>p s' Obj'. heap_do (kernel_callbacks no_callbacks) (Alloc 100) demo_kheap = Some (p, s')
         \<and> abs_step Map.empty (Alloc 100) p Obj' \<and> heap_rep s' Obj')"
proof -
  have ok: "allowed Map.empty (Alloc 100)" by simp
  from heap_refines_objects [OF demo_kheap_ok(3) ok, of no_callbacks] show ?thesis using demo_kheap_ok(3) ok by blast
qed

lemma demo_kheap_top: "topChunkSize demo_kheap = 8184"
proof -
  obtain s' where "memory_init_heap demo_mmap 0xC0000000 (page_addr 786948) no_callbacks demo_before = Some (kernel_callbacks no_callbacks, s')"
    "topChunkSize s' = KERNEL_INITIAL_HEAP_SIZE - 8"
    using demo_before_init [of no_callbacks] by blast
  then show ?thesis by (simp add: demo_kheap_def KERNEL_INITIAL_HEAP_SIZE_def)
qed

text \<open>The first request of a small object is granted, and the object can be released again.\<close>

lemma demo_kmalloc:
  obtains s bs a n where "kmalloc (kernel_callbacks no_callbacks) 100 demo_kheap = Some (of_nat (a + 8), s)" "hinv s bs" "kernel_avail s"
    "Used bs = {(a, n)}"
proof -
  have n: "unat (100 :: u32) < 0xBFFFF0" by simp
  have sz: "\<not> unat (topChunkSize demo_kheap) < chunk_of_request (unat (100 :: u32))"
    by (simp add: demo_kheap_top chunk_of_request_def)
  obtain p s' where k: "kmalloc (kernel_callbacks no_callbacks) 100 demo_kheap = Some (p, s')" "kernel_avail s'"
    "(\<exists>bs'. allocated demo_kheap [] (chunk_of_request (unat (100 :: u32))) p s' bs')
      \<or> (p = NULL \<and> unat (topChunkSize demo_kheap) < chunk_of_request (unat (100 :: u32)) \<and> hinv s' [] \<and> keeps (Used []) demo_kheap s')"
    by (rule kernel.kmalloc_ok [OF demo_kheap_ok(1,2) n, of no_callbacks])
  then obtain bs' where "allocated demo_kheap [] (chunk_of_request (unat (100 :: u32))) p s' bs'" using sz by blast
  then show ?thesis using that k(1,2) unfolding allocated_def Used_simps(1) by blast
qed

theorem kernel_kfree_block_witness:
  "\<exists>p s s'. kmalloc (kernel_callbacks no_callbacks) 100 demo_kheap = Some (p, s)
    \<and> kfree (kernel_callbacks no_callbacks) p s = Some s' \<and> hinv s' [] \<and> topChunk s' = heap_start s'"
proof -
  obtain s bs a n where k: "kmalloc (kernel_callbacks no_callbacks) 100 demo_kheap = Some (of_nat (a + 8), s)" "hinv s bs" "kernel_avail s"
    "Used bs = {(a, n)}"
    by (rule demo_kmalloc)
  then have "(a, n) \<in> Used bs" by simp
  from kernel_kfree_block [OF k(2,3) this, of no_callbacks] show ?thesis using k(1,4) by blast
qed

end
