(* ===== verification/KSystem.thy ===== *)
theory KSystem
  imports KKernel KHeapSpec
begin

text \<open>
  The kernel on its own heap: the calls of \<open>kernel_early\<close> and \<open>kernel_main\<close> (src/system/kernel/main.c) from
  \<open>memory_init\<close> on, with the stacks of the tasks taken from \<open>kmalloc\<close>. The memory is one: what the kernel
  writes into a stack is written into the heap.
\<close>

section \<open>The state of the system\<close>

record ksystem = clock +
  hp :: kheap

definition heap_view :: "ksystem \<Rightarrow> kheap" where
  "heap_view s = (hp s)\<lparr>hmem := kmem s\<rparr>"

text \<open>\<open>kmalloc\<close> as the kernel calls it. It returns for every request of the kernel, so the case \<open>None\<close> is not reached.\<close>

definition kernel_alloc :: "kheap callbacks \<Rightarrow> u32 \<Rightarrow> ksystem \<Rightarrow> addr \<times> ksystem" where
  "kernel_alloc cb n s =
     (case kmalloc cb n (heap_view s) of
        None \<Rightarrow> (NULL, s)
      | Some (p, h) \<Rightarrow> (p, s\<lparr>kmem := hmem h, hp := h\<rparr>))"

definition system_early ::
  "mem_entry list \<Rightarrow> u32 \<Rightarrow> u32 \<Rightarrow> kheap callbacks \<Rightarrow> addr \<Rightarrow> u32 \<Rightarrow> ksystem \<Rightarrow> (kheap callbacks \<times> ksystem) option" where
  "system_early regions kernel_start_vir kernel_end_vir cb idle dir s =
     Option.bind (memory_init_heap regions kernel_start_vir kernel_end_vir cb (heap_view s)) (\<lambda>(cb, h).
       map_option (\<lambda>s. (cb, clock_setup s)) (multitasking_init (kernel_alloc cb) idle dir (s\<lparr>kmem := hmem h, hp := h\<rparr>)))"

definition system_boot ::
  "mem_entry list \<Rightarrow> u32 \<Rightarrow> u32 \<Rightarrow> kheap callbacks \<Rightarrow> addr \<Rightarrow> u32 \<Rightarrow> addr \<Rightarrow> addr \<Rightarrow> addr \<Rightarrow> addr \<Rightarrow> ksystem \<Rightarrow> ksystem option" where
  "system_boot regions kernel_start_vir kernel_end_vir cb idle dir task1 task2 task3 task4 s =
     Option.bind (system_early regions kernel_start_vir kernel_end_vir cb idle dir s) (\<lambda>(cb, s).
       kernel_main (kernel_alloc cb) task1 task2 task3 task4 s)"

lemma heap_view_cong: "kmem s' = kmem s \<Longrightarrow> clock.more s' = clock.more s \<Longrightarrow> heap_view s' = heap_view s"
  by (cases s; cases s') (simp add: heap_view_def)

lemma hp_cong: "clock.more s' = clock.more s \<Longrightarrow> hp s' = hp s"
  by (cases s; cases s') simp

section \<open>Blocks are determined by the memory\<close>

lemma head_word_inject:
  assumes "head_word (of_nat n) u p = head_word (of_nat m) v p'" "n mod 8 = 0" "m mod 8 = 0" "n < 4294967296" "m < 4294967296"
  shows "n = m" "u = v"
proof -
  have c: "chunk_size (of_nat n)" "chunk_size (of_nat m)" using assms by (simp_all add: chunk_size_iff unat_of_nat)
  have "(of_nat n :: u32) = of_nat m" using head_word_simps(1) [OF c(1), of u p] head_word_simps(1) [OF c(2), of v p'] assms(1) by simp
  then have "unat (of_nat n :: u32) = unat (of_nat m :: u32)" by simp
  then show "n = m" using assms(4,5) by (simp add: unat_of_nat)
  show "u = v" using head_word_simps(2) [OF c(1), of u p] head_word_simps(2) [OF c(2), of v p'] assms(1) by simp
qed

lemma blocks_unique:
  "\<lbrakk>blocks_at w p a bs e q; blocks_at w p a cs e q'; e < 4294967296\<rbrakk> \<Longrightarrow> bs = cs"
proof (induction bs arbitrary: p a cs)
  case Nil
  have "cs = []"
  proof (cases cs)
    case (Cons y ds)
    obtain b n u where y: "y = (b, n, u)" by (cases y)
    have "16 \<le> n" "blocks_at w u (a + n) ds e q'" "a = e" using Nil by (auto simp: Cons y)
    then show ?thesis using chain_le [of w u "a + n" ds e q'] by simp
  qed
  then show ?case by simp
next
  case (Cons x bs)
  obtain b n u where x: "x = (b, n, u)" by (cases x)
  have X: "b = a" "16 \<le> n" "n mod 8 = 0" "w (a + 4) = head_word (of_nat n) u p" "blocks_at w u (a + n) bs e q"
    using Cons.prems(1) by (auto simp: x)
  have le: "a + n \<le> e" using chain_le [OF X(5)] .
  obtain c m v ds where y: "cs = (c, m, v) # ds"
    using Cons.prems(2) le X(2) by (cases cs) auto
  have Y: "c = a" "16 \<le> m" "m mod 8 = 0" "w (a + 4) = head_word (of_nat m) v p" "blocks_at w v (a + m) ds e q'"
    using Cons.prems(2) by (auto simp: y)
  have "a + m \<le> e" using chain_le [OF Y(5)] .
  then have "n = m" "u = v" using head_word_inject [of n u p m v p] X Y le Cons.prems(3) by simp_all
  then show ?case using Cons.IH [OF X(5), of ds] X Y Cons.prems(3) by (simp add: x y)
qed

lemma hinv_unique:
  assumes "hinv s bs" "hinv s cs"
  shows "bs = cs"
proof -
  note c = hinvD(1) [OF assms(1)] hinvD(1) [OF assms(2)]
  have "unat (topChunk s) < 4294967296" using unat_lt_2p32 [of "topChunk s"] by simp
  then show ?thesis using blocks_unique [OF coreD(3) [OF c(1)] coreD(3) [OF c(2)]] by simp
qed

section \<open>Requests on a heap without free blocks\<close>

lemma no_bins:
  assumes h: "hinv s bs" and f: "Free bs = {}"
  shows "sbinmap s = 0" "tbinmap s = 0" "dVictimSize s = 0" "i < 32 \<Longrightarrow> tbin s i = NULL"
proof -
  have b: "bins_ok s {}" using coreD(5) [OF hinvD(1) [OF h]] f by simp
  have "smalls {} i = {}" "larges {} i = {}" for i by (simp_all add: smalls_def larges_def)
  then have st: "small_at s i {}" "large_at s i {}" if "i < 32" for i using b that unfolding bins_ok_def by metis+
  have s0: "\<not> bit (sbinmap s) i" if "i < 32" for i using st(1) [OF that] by (auto simp: small_at_def)
  have nt: "T = Tip" if "set (pairs T) = {}" for T using that by (cases T) auto
  have t0: "\<not> bit (tbinmap s) i" "tbin s i = NULL" if "i < 32" for i using st(2) [OF that] nt by (auto simp: large_at_def)
  show "sbinmap s = 0" by (rule bit_word_eqI) (use s0 in simp)
  show "tbinmap s = 0" by (rule bit_word_eqI) (use t0 in simp)
  show "dVictimSize s = 0"
    using hinvD(2,3) [OF h] f by (cases "dVictim s = NULL") (auto simp: dv_set_def)
  show "i < 32 \<Longrightarrow> tbin s i = NULL" by (rule t0(2))
qed

lemma kmalloc_no_bins:
  assumes h: "hinv s bs" and f: "Free bs = {}" and n: "unat req < 0xBFFFF0"
    and le: "chunk_of_request (unat req) \<le> unat (topChunkSize s)"
  obtains p s' a m where "kmalloc cb req s = Some (p, s')" "a = unat (topChunk s)" "m = chunk_of_request (unat req)" "p = of_nat (a + 8)"
    "hinv s' (bs @ [(a, m, True)])" "keeps (Used bs) s s'" "same_arena s s'" "unat req + 4 \<le> m"
    "unat (topChunkSize s') = (if unat (topChunkSize s) - m < 16 then 0 else unat (topChunkSize s) - m)"
    "\<forall>b < unat (topChunk s). wd s' b = wd s b"
proof -
  let ?c = "chunk_of_request (unat req)"
  note e = no_bins [OF h f]
  have v: "unat req < 4294967285" using n by simp
  note c = chunk_of_request_valid [OF v]
  have c32: "16 \<le> ?c" "?c < 4294967296" "?c < 0xC00000" using c(1,4) n unfolding valid_size_def by linarith+
  have eq: "REQUEST2SIZE req = of_nat ?c" using c(2) by simp
  have no: "\<not> REQUESTOVERFLOW req"
    using c(3) c32 unfolding REQUESTOVERFLOW_def eq by (simp add: word_less_nat_alt unat_of_nat)
  have pos: "\<not> (of_nat ?c :: u32) \<le> 0" using c32 by (auto simp: word_le_nat_alt unat_of_nat)
  have small: "search_small (of_nat ?c) s = Some (NULL, s)"
    unfolding search_small_def Let_def e(1,2,3) by simp
  have tree: "search_tree (of_nat ?c) s = Some (NULL, s)" if "256 \<le> ?c"
  proof -
    define j where "j = tbin_of ?c"
    have j: "j < 31" unfolding j_def by (rule tbin_of_31 [OF that c32(3)])
    have ix: "calc_tbin (of_nat ?c) = of_nat j" by (simp add: calc_tbin_of j_def)
    have uj: "unat (of_nat j :: u32) = j" "unat (of_nat j + 1 :: u32) = j + 1"
      using j unat_small [of j] unat_small [of "j + 1"] by (simp_all add: add.commute)
    have lt: "\<not> 32 \<le> (of_nat j + 1 :: u32)" using j uj(2) by (simp add: word_le_nat_alt)
    have "tbin s j = NULL" using e(4) j by simp
    then show ?thesis
      using lt by (simp add: search_tree_def ix uj(1) Let_def e(2) kmalloc_tree_get_best_fit_def)
  qed
  have lt: "(of_nat ?c :: u32) < MIN_LARGE_SIZE \<longleftrightarrow> ?c < 256"
    using c32 by (simp add: MIN_LARGE_SIZE_def word_less_nat_alt unat_of_nat)
  have search: "(if (of_nat ?c :: u32) < MIN_LARGE_SIZE then search_small (of_nat ?c) s else search_tree (of_nat ?c) s) = Some (NULL, s)"
    using small tree lt by simp
  have top: "\<not> topChunkSize s < of_nat ?c" "of_nat ?c \<le> topChunkSize s"
    using le c32 by (simp_all add: word_less_nat_alt word_le_nat_alt unat_of_nat)
  have run: "kmalloc cb req s = Some (take_top (of_nat ?c) s)"
    using hinv_init [OF h] no pos top(1) unfolding kmalloc_def eq kmalloc_intern_def search
    by (simp add: e(3) split_top_def)
  obtain p s' where t: "take_top (of_nat ?c) s = (p, s')" "allocated s bs ?c p s' (bs @ [(unat (topChunk s), ?c, True)])" "same_arena s s'"
    "unat (topChunkSize s') = (if unat (topChunkSize s) - ?c < 16 then 0 else unat (topChunkSize s) - ?c)"
    "\<forall>b < unat (topChunk s). wd s' b = wd s b"
    by (rule take_top_ok [OF h c(1) top(2)])
  obtain b k where b: "p = of_nat (b + 8)" "(b, k) \<notin> Used bs" "Used (bs @ [(unat (topChunk s), ?c, True)]) = insert (b, k) (Used bs)"
    and h': "hinv s' (bs @ [(unat (topChunk s), ?c, True)])" "keeps (Used bs) s s'"
    using t(2) unfolding allocated_def by blast
  have "(b, k) = (unat (topChunk s), ?c)" using b(2,3) by auto
  then show ?thesis using that [of p s' b k] run t(1,3-5) h' b(1) c(3) by simp
qed

section \<open>The heap as provider of the stacks\<close>

definition heap_room :: "nat \<Rightarrow> ksystem \<Rightarrow> bool" where
  "heap_room k s \<longleftrightarrow> (\<exists>bs. hinv (heap_view s) bs \<and> kernel_pages (heap_view s) \<and> Free bs = {}
     \<and> k * 1032 \<le> unat (topChunkSize (hp s)))"

definition heap_owned :: "addr \<Rightarrow> u32 \<Rightarrow> ksystem \<Rightarrow> bool" where
  "heap_owned p n s \<longleftrightarrow> (\<exists>bs a m. hinv (heap_view s) bs \<and> kernel_pages (heap_view s) \<and> (a, m) \<in> Used bs
     \<and> p = of_nat (a + 8) \<and> unat n + 4 \<le> m)"

lemma heap_view_fields [simp]:
  "hmem (heap_view s) = kmem s" "topChunkSize (heap_view s) = topChunkSize (hp s)"
  by (simp_all add: heap_view_def)

lemma stack_request:
  assumes r: "heap_room (Suc k) s" and n: "n = 128 \<or> n = 1024"
  obtains bs p h a m where "hinv (heap_view s) bs" "Free bs = {}" "kernel_alloc cb n s = (p, s\<lparr>kmem := hmem h, hp := h\<rparr>)"
    "p = of_nat (a + 8)" "p \<noteq> NULL" "hinv h (bs @ [(a, m, True)])" "keeps (Used bs) (heap_view s) h" "kernel_pages h"
    "unat n + 4 \<le> m" "k * 1032 \<le> unat (topChunkSize h)"
    "unat (heap_start (hp s)) \<le> a" "\<forall>b < a. wd h b = wd (heap_view s) b"
proof -
  obtain bs where b: "hinv (heap_view s) bs" "kernel_pages (heap_view s)" "Free bs = {}" "Suc k * 1032 \<le> unat (topChunkSize (heap_view s))"
    using r unfolding heap_room_def by auto
  have un: "unat n = 128 \<or> unat n = 1024" using n by auto
  then have c: "unat n < 0xBFFFF0" "chunk_of_request (unat n) \<le> 1032" "chunk_of_request (unat n) = 1032 \<or> chunk_of_request (unat n) = 136"
    by (auto simp: chunk_of_request_def)
  have le: "chunk_of_request (unat n) \<le> unat (topChunkSize (heap_view s))" using b(4) c(2) by simp
  obtain p h a m where k: "kmalloc cb n (heap_view s) = Some (p, h)" "m = chunk_of_request (unat n)" "p = of_nat (a + 8)"
    "hinv h (bs @ [(a, m, True)])" "keeps (Used bs) (heap_view s) h" "same_arena (heap_view s) h" "unat n + 4 \<le> m"
    "unat (topChunkSize h) = (if unat (topChunkSize (heap_view s)) - m < 16 then 0 else unat (topChunkSize (heap_view s)) - m)"
    "a = unat (topChunk (heap_view s))" "\<forall>b < unat (topChunk (heap_view s)). wd h b = wd (heap_view s) b"
    by (rule kmalloc_no_bins [OF b(1,3) c(1) le, of cb])
  have "unat (heap_start (heap_view s)) \<le> a" using chain_le [OF coreD(3) [OF hinvD(1) [OF b(1)]]] k(9) by simp
  then have low: "unat (heap_start (hp s)) \<le> a" by (simp add: heap_view_def)
  have "okaddr a" using core_block(1) [OF hinvD(1) [OF k(4)], of a m True] by simp
  then have "p \<noteq> NULL" using payload_addr k(3) by simp
  moreover have "k * 1032 \<le> unat (topChunkSize h)"
  proof (cases "unat (topChunkSize (heap_view s)) - m < 16")
    case True
    then have "k * 1032 < 16" using b(4) k(2) c(2) by simp
    then have "k = 0" by simp
    then show ?thesis by simp
  next
    case False
    then show ?thesis using k(8) b(4) k(2) c(2) by simp
  qed
  ultimately show ?thesis
    using that [of bs p h a m] b(1,3) k(1,3-5,7,9,10) low kernel_pages_cong [OF b(2) k(6)] by (simp add: kernel_alloc_def)
qed

text \<open>The frame written at the top of the new stack lies in the new block.\<close>

lemma stack_written:
  assumes r: "heap_room (Suc k) s" and n: "n = 128 \<or> n = 1024" and t: "stack_taken (kernel_alloc cb) n s s' i"
  obtains bs a m where "hinv (heap_view s) bs" "Free bs = {}" "stack_space (ptable s' i) = of_nat (a + 8)" "unat n + 4 \<le> m"
    "hinv (heap_view s') (bs @ [(a, m, True)])" "kernel_pages (heap_view s')" "k * 1032 \<le> unat (topChunkSize (hp s'))"
proof -
  obtain bs p h a m where b: "hinv (heap_view s) bs" "Free bs = {}" "kernel_alloc cb n s = (p, s\<lparr>kmem := hmem h, hp := h\<rparr>)"
    "p = of_nat (a + 8)" "hinv h (bs @ [(a, m, True)])" "kernel_pages h" "unat n + 4 \<le> m" "k * 1032 \<le> unat (topChunkSize h)"
    by (rule stack_request [OF r n, of cb])
  have s': "stack_space (ptable s' i) = p" "clock.more s' = clock.more (s\<lparr>kmem := hmem h, hp := h\<rparr>)"
    "\<forall>x. \<not> in_range (p + n - 76) 76 x \<longrightarrow> kmem s' x = hmem h x"
    using t b(3) by (auto simp: stack_taken_def)
  have hp: "hp s' = h" using hp_cong [OF s'(2)] by simp
  have view: "heap_view s' = h\<lparr>hmem := kmem s'\<rparr>" by (simp add: heap_view_def hp)
  have am: "(a, m) \<in> Used (bs @ [(a, m, True)])" by simp
  note u = used_block [OF b(5) am]
  have n76: "76 \<le> unat n" using n by auto
  have up: "unat (p + n - 76) = a + 8 + (unat n - 76)"
  proof -
    have "p + n - 76 = of_nat (a + 8 + (unat n - 76))" using n76 by (simp add: b(4))
    then show ?thesis using u(4) b(7) by (simp add: unat_of_nat del: of_nat_add of_nat_diff)
  qed
  have "hinv (h\<lparr>hmem := kmem s'\<rparr>) (bs @ [(a, m, True)])"
  proof (rule stores_ok [OF b(5) am])
    fix x :: addr assume x: "unat x < a + 8 \<or> a + m + 4 \<le> unat x"
    have "\<not> in_range (p + n - 76) 76 x"
    proof
      assume "in_range (p + n - 76) 76 x"
      then obtain j where j: "j < 76" "x = p + n - 76 + of_nat j" by (auto simp: in_range_iff)
      have "x = of_nat (a + 8 + (unat n - 76) + j)" unfolding j(2) up [symmetric] by simp
      then have "unat x = a + 8 + (unat n - 76) + j" using u(4) b(7) j(1) n76 by (simp add: unat_of_nat del: of_nat_add of_nat_diff)
      then show False using x b(7) j(1) n76 by linarith
    qed
    then show "kmem s' x = hmem h x" using s'(3) by blast
  qed
  moreover have "kernel_pages (h\<lparr>hmem := kmem s'\<rparr>)" by (rule kernel_pages_cong [OF b(6)]) (simp add: same_arena_def)
  ultimately show ?thesis using that [of bs a m] b(1,2,7,8) s'(1) b(4) by (simp add: view hp)
qed

text \<open>Neither the request nor the frame touches the memory below the heap.\<close>

lemma words_low:
  assumes w: "\<forall>b < e. wd s' b = wd s b" and x: "unat x < e"
  shows "hmem s' x = hmem s x"
proof -
  define b where "b = unat x div 4 * 4"
  have e: "unat x = b + unat x mod 4" "b \<le> unat x" by (simp_all add: b_def)
  then have "wd s' b = wd s b" using w x by simp
  moreover have "b mod 4 = 0" "b < 4294967296" using unat_lt_2p32 [of x] e(2) by (simp_all add: b_def)
  moreover have "(of_nat (b + unat x mod 4) :: addr) = x" unfolding e(1) [symmetric] by simp
  ultimately show ?thesis using hmem_byte [of b "unat x mod 4" s] hmem_byte [of b "unat x mod 4" s'] by simp
qed

lemma stack_low:
  assumes r: "heap_room (Suc k) s" and n: "n = 128 \<or> n = 1024" and t: "stack_taken (kernel_alloc cb) n s s' i"
    and x: "unat x < unat (heap_start (hp s))"
  shows "kmem s' x = kmem s x"
proof -
  obtain bs p h a m where b: "hinv (heap_view s) bs" "Free bs = {}" "kernel_alloc cb n s = (p, s\<lparr>kmem := hmem h, hp := h\<rparr>)"
    "p = of_nat (a + 8)" "hinv h (bs @ [(a, m, True)])" "unat n + 4 \<le> m"
    "unat (heap_start (hp s)) \<le> a" "\<forall>b < a. wd h b = wd (heap_view s) b"
    by (rule stack_request [OF r n, of cb])
  have am: "(a, m) \<in> Used (bs @ [(a, m, True)])" by simp
  note u = used_block [OF b(5) am]
  have n76: "76 \<le> unat n" using n by auto
  have "\<not> in_range (p + n - 76) 76 x"
  proof
    assume "in_range (p + n - 76) 76 x"
    then obtain j where j: "j < 76" "x = p + n - 76 + of_nat j" by (auto simp: in_range_iff)
    have "p + n - 76 = of_nat (a + 8 + (unat n - 76))" using n76 by (simp add: b(4))
    then have "x = of_nat (a + 8 + (unat n - 76) + j)" unfolding j(2) by simp
    then have "unat x = a + 8 + (unat n - 76) + j" using u(4) b(6) j(1) n76 by (simp add: unat_of_nat del: of_nat_add of_nat_diff)
    then show False using x b(7) by linarith
  qed
  then have "kmem s' x = hmem h x" using t b(3) by (simp add: stack_taken_def)
  also have "\<dots> = kmem s x" using words_low [OF b(8), of x] x b(7) by simp
  finally show ?thesis .
qed

lemma kernel_alloc_frame: "clock_frame (kernel_alloc cb)"
  by (auto simp: clock_frame_def alloc_frame_def kernel_alloc_def Let_def split: option.splits)

interpretation own_heap: stack_provider "kernel_alloc cb" heap_room heap_owned for cb
proof
  show "clock_frame (kernel_alloc cb)" by (rule kernel_alloc_frame)
  show "heap_room k s'" if "heap_room k s" "kmem s' = kmem s" "clock.more s' = clock.more s" for k s s'
    using that(1) heap_view_cong [OF that(2,3)] hp_cong [OF that(3)] by (simp add: heap_room_def)
  show "heap_owned p n s'" if "heap_owned p n s" "kmem s' = kmem s" "clock.more s' = clock.more s" for p n s s'
    using that(1) heap_view_cong [OF that(2,3)] by (simp add: heap_owned_def)
  show "fst (kernel_alloc cb n s) \<noteq> NULL" if "heap_room (Suc k) s" "n = 128 \<or> n = 1024" for k n s
    by (rule stack_request [OF that, of cb]) simp
  fix k n i and s s' :: ksystem
  assume a: "heap_room (Suc k) s" "n = 128 \<or> n = 1024" "stack_taken (kernel_alloc cb) n s s' i"
  obtain bs a m where w: "hinv (heap_view s) bs" "Free bs = {}" "stack_space (ptable s' i) = of_nat (a + 8)" "unat n + 4 \<le> m"
    "hinv (heap_view s') (bs @ [(a, m, True)])" "kernel_pages (heap_view s')" "k * 1032 \<le> unat (topChunkSize (hp s'))"
    by (rule stack_written [OF a])
  show "heap_room k s'" unfolding heap_room_def using w by (intro exI [of _ "bs @ [(a, m, True)]"]) simp
  show "heap_owned (stack_space (ptable s' i)) n s'" unfolding heap_owned_def
    using w by (intro exI [of _ "bs @ [(a, m, True)]"] exI [of _ a] exI [of _ m]) simp
  show "q \<noteq> stack_space (ptable s' i) \<and> heap_owned q j s'" if "heap_owned q j s" for q j
  proof -
    obtain cs b k where o: "hinv (heap_view s) cs" "(b, k) \<in> Used cs" "q = of_nat (b + 8)" "unat j + 4 \<le> k"
      using \<open>heap_owned q j s\<close> unfolding heap_owned_def by blast
    then have bk: "(b, k) \<in> Used (bs @ [(a, m, True)])" using hinv_unique [OF w(1) o(1)] by simp
    have "q \<noteq> of_nat (a + 8)"
    proof
      assume "q = of_nat (a + 8)"
      then have eq: "(of_nat (b + 8) :: addr) = of_nat (a + 8)" using o(3) by simp
      have am: "(a, m) \<in> Used (bs @ [(a, m, True)])" by simp
      have "(b, k) \<in> Used bs" using o(2) hinv_unique [OF w(1) o(1)] by simp
      then have "(a, m, True) \<in> set bs" using used_once [OF w(5) bk am eq] by simp
      moreover have "core (heap_view s') (bs @ (a, m, True) # []) (Free (bs @ [(a, m, True)]) - dv_set (heap_view s'))"
        using hinvD(1) [OF w(5)] .
      ultimately show False using once(1) by blast
    qed
    moreover have "heap_owned q j s'" unfolding heap_owned_def
      using w(5,6) bk o(3,4) by blast
    ultimately show ?thesis using w(3) by simp
  qed
qed

section \<open>What the stacks are\<close>

lemma owned_range:
  assumes h: "hinv s bs" "(a, m) \<in> Used bs" and n: "n + 4 \<le> m" and x: "in_range (of_nat (a + 8)) n x"
  shows "a + 8 \<le> unat x" "unat x < a + 8 + n"
proof -
  note u = used_block [OF h]
  obtain j where j: "j < n" "x = of_nat (a + 8) + of_nat j" using x u(4) n by (auto simp: in_range_iff)
  then have "x = of_nat (a + 8 + j)" by simp
  then have "unat x = a + 8 + j" using u(4) n j(1) by (simp add: unat_of_nat del: of_nat_add)
  then show "a + 8 \<le> unat x" "unat x < a + 8 + n" using j(1) by simp_all
qed

lemma owned_apart:
  assumes "heap_owned p n s" "heap_owned q j s" "p \<noteq> q"
  shows "disjoint_ranges p (unat n) q (unat j)"
proof -
  obtain bs a m where p: "hinv (heap_view s) bs" "(a, m) \<in> Used bs" "p = of_nat (a + 8)" "unat n + 4 \<le> m"
    using assms(1) unfolding heap_owned_def by blast
  obtain cs b k where q: "hinv (heap_view s) cs" "(b, k) \<in> Used cs" "q = of_nat (b + 8)" "unat j + 4 \<le> k"
    using assms(2) unfolding heap_owned_def by blast
  have bk: "(b, k) \<in> Used bs" using q(2) hinv_unique [OF p(1) q(1)] by simp
  have "(a, m, True) \<in> set bs" "(b, k, True) \<in> set bs" using p(2) bk by simp_all
  from chain_disjoint [OF coreD(3) [OF hinvD(1) [OF p(1)]] this] have d: "a + m \<le> b \<or> b + k \<le> a"
    using assms(3) p(3) q(3) by auto
  show ?thesis unfolding disjoint_ranges_def
  proof (intro allI notI)
    fix x assume "in_range p (unat n) x \<and> in_range q (unat j) x"
    then show False
      using owned_range [OF p(1,2,4), of x] owned_range [OF p(1) bk q(4), of x] d p(3,4) q(3,4) by fastforce
  qed
qed

lemma owned_mapped:
  assumes "heap_owned p n s" "in_range p (unat n) x"
  shows "page_is_mapped x (pg (hp s))"
proof -
  obtain bs a m where p: "hinv (heap_view s) bs" "kernel_pages (heap_view s)" "(a, m) \<in> Used bs" "p = of_nat (a + 8)" "unat n + 4 \<le> m"
    using assms(1) unfolding heap_owned_def by blast
  note x = owned_range [OF p(1,3,5) assms(2) [unfolded p(4)]]
  have "page_is_mapped (of_nat (a + (unat x - a))) (pg (heap_view s))"
    by (rule block_mapped [OF p(1,2,3)]) (use x p(5) in linarith)
  moreover have "a + (unat x - a) = unat x" using x(1) by simp
  moreover have "pg (heap_view s) = pg (hp s)" by (simp add: heap_view_def)
  ultimately show ?thesis by (simp del: of_nat_add of_nat_diff)
qed

section \<open>The system runs\<close>

text \<open>The stacks of the idle task and the four tasks are objects on mapped pages, without overlap.\<close>

definition stacks_apart :: "ksystem \<Rightarrow> bool" where
  "stacks_apart s \<longleftrightarrow> (\<forall>i < 5. stack_size (ptable s i) = (if i = 0 then 128 else 1024)
     \<and> (\<forall>x. in_range (stack_space (ptable s i)) (unat (stack_size (ptable s i))) x \<longrightarrow> page_is_mapped x (pg (hp s)))
     \<and> (\<forall>j < 5. i \<noteq> j \<longrightarrow> disjoint_ranges (stack_space (ptable s i)) (unat (stack_size (ptable s i)))
          (stack_space (ptable s j)) (unat (stack_size (ptable s j)))))"

text \<open>Whatever the tasks do between their calls, every entry into the kernel that C
  defines returns to a task, with the invariant.\<close>

definition keeps_running :: "ksystem \<Rightarrow> bool" where
  "keeps_running s \<longleftrightarrow> (\<forall>s1. kstep\<^sup>*\<^sup>* s s1 \<longrightarrow> kinv s1 \<and> (\<forall>sp m. \<exists>s2. kernel_entry Timer sp m s1 = Some s2 \<and> kstep s1 s2)
     \<and> (current_task s1 \<noteq> idle_task s1 \<longrightarrow> (\<forall>sp m. call_defined sp m \<longrightarrow> (\<exists>s2. kernel_entry Kernel_call sp m s1 = Some s2 \<and> kstep s1 s2))))"

lemma owned_stacks_apart:
  assumes st: "\<forall>i < 5. heap_owned (stack_space (ptable s i)) (stack_size (ptable s i)) s \<and> stack_size (ptable s i) = (if i = 0 then 128 else 1024)"
    and inj: "inj_on (\<lambda>i. stack_space (ptable s i)) {..<5}"
  shows "stacks_apart s"
  unfolding stacks_apart_def
proof (intro allI impI conjI)
  fix i :: nat assume i: "i < 5"
  show "stack_size (ptable s i) = (if i = 0 then 128 else 1024)" using st i by blast
  show "page_is_mapped x (pg (hp s))" if "in_range (stack_space (ptable s i)) (unat (stack_size (ptable s i))) x" for x
    by (rule owned_mapped [OF _ that]) (use st i in blast)
  fix j :: nat assume j: "j < 5" "i \<noteq> j"
  then have "stack_space (ptable s i) \<noteq> stack_space (ptable s j)" using inj i by (auto simp: inj_on_def)
  then show "disjoint_ranges (stack_space (ptable s i)) (unat (stack_size (ptable s i))) (stack_space (ptable s j)) (unat (stack_size (ptable s j)))"
    using owned_apart st i j(1) by blast
qed

lemma system_runs:
  assumes "frames_rep ((pg (hp s))\<lparr>pstack_pointer := KERNEL_PSTACK_TOP\<rparr>) []"
    and "\<forall>e \<in> set mmap. region_ok e" "4 \<le> length (concat (map region_pages mmap))" "length (concat (map region_pages mmap)) \<le> STACK_MAX"
    and h: "0 < h" "h + 2 < 1046528" and "mapping (pg (hp s)) h = None" "mapping (pg (hp s)) (Suc h) = None" "PDE_NUM start \<le> h div 1024"
    and fl: "\<And>i. task_flags (ptable s i) = 0"
  obtains k s' where "system_early mmap start (page_addr h) cb idle dir s = Some (kernel_callbacks cb, k)"
    "\<forall>x. unat x < 4096 * h \<longrightarrow> kmem k x = kmem s x"
    "kernel_main (kernel_alloc (kernel_callbacks cb)) t1 t2 t3 t4 k = Some s'" "stacks_apart s'" "keeps_running s'"
proof -
  have pg: "pg (heap_view s) = pg (hp s)" by (simp add: heap_view_def)
  obtain k where k: "memory_init_heap mmap start (page_addr h) cb (heap_view s) = Some (kernel_callbacks cb, k)" "hinv k []" "kernel_pages k"
    "topChunkSize k = KERNEL_INITIAL_HEAP_SIZE - 8" "heap_start k = page_addr h" "\<forall>b < 4096 * h. wd k b = wd (heap_view s) b"
    using memory_init_heap_ok [of "heap_view s", unfolded pg, OF assms(1-9), of cb] by blast
  define s1 where "s1 = s\<lparr>kmem := hmem k, hp := k\<rparr>"
  have v1: "heap_view (init_sched dir s1) = k" by (simp add: heap_view_def init_sched_def s1_def)
  have room: "heap_room 5 (init_sched dir s1)"
    unfolding heap_room_def v1 using k(2-4)
    by (intro exI [of _ "[]"]) (simp add: init_sched_def s1_def KERNEL_INITIAL_HEAP_SIZE_def)
  have fl1: "task_flags (ptable s1 i) = 0" for i using fl by (simp add: s1_def)
  obtain s' where s': "boot (kernel_alloc (kernel_callbacks cb)) idle dir t1 t2 t3 t4 s1 = Some s'" "kinv s'"
    and st: "\<forall>i < 5. heap_owned (stack_space (ptable s' i)) (stack_size (ptable s' i)) s' \<and> stack_size (ptable s' i) = (if i = 0 then 128 else 1024)"
    and inj: "inj_on (\<lambda>i. stack_space (ptable s' i)) {..<5}"
    using own_heap.boot_stacks [OF room fl1, of "kernel_callbacks cb" idle t1 t2 t3 t4] by blast
  obtain s00 where m: "multitasking_init (kernel_alloc (kernel_callbacks cb)) idle dir s1 = Some s00"
    "kernel_main (kernel_alloc (kernel_callbacks cb)) t1 t2 t3 t4 (clock_setup s00) = Some s'"
    using s'(1) unfolding boot_def by (auto simp: bind_eq_Some_conv)
  have run: "system_early mmap start (page_addr h) cb idle dir s = Some (kernel_callbacks cb, clock_setup s00)"
    unfolding system_early_def k(1) using m(1) by (simp add: s1_def)
  have "kmem (clock_setup s00) x = kmem s x" if x: "unat x < 4096 * h" for x
  proof -
    have "hp (init_sched dir s1) = k" "kmem (init_sched dir s1) = hmem k" by (simp_all add: init_sched_def s1_def)
    moreover have "unat (page_addr h) = 4096 * h" using h(2) by (intro page_addr_unat) simp
    ultimately have "kmem (clock_setup s00) x = hmem k x"
      using stack_low [of 4, OF _ _ init_stack [OF m(1)], of x] room k(5) x by simp
    also have "\<dots> = kmem s x" using words_low [OF k(6) x] by simp
    finally show ?thesis .
  qed
  moreover have "stacks_apart s'" by (rule owned_stacks_apart [OF st inj])
  moreover have "keeps_running s'" unfolding keeps_running_def using never_stuck [OF s'(2)] by blast
  ultimately show ?thesis using that run m(2) by blast
qed

section \<open>Properties\<close>

text \<open>From a sane memory map to running tasks: the sequence \<open>memory_init\<close>, \<open>multitasking_init\<close>,
  \<open>clock_setup\<close>, \<open>kernel_main\<close> succeeds on the kernel's own heap; the stacks of the idle task and of the four tasks
  are five objects of that heap, on mapped pages and without overlap; and from then on, whatever the tasks do between
  their calls, every entry into the kernel that C defines returns to a task with the invariant of the task table intact.\<close>

theorem system_boots_and_runs:
  assumes "frames_rep ((pg (hp s))\<lparr>pstack_pointer := KERNEL_PSTACK_TOP\<rparr>) []"
    and "\<forall>e \<in> set mmap. region_ok e" "4 \<le> length (concat (map region_pages mmap))" "length (concat (map region_pages mmap)) \<le> STACK_MAX"
    and "0 < h" "h + 2 < 1046528" "mapping (pg (hp s)) h = None" "mapping (pg (hp s)) (Suc h) = None" "PDE_NUM start \<le> h div 1024"
    and fl: "\<And>i. task_flags (ptable s i) = 0"
  shows "\<exists>s0. system_boot mmap start (page_addr h) cb idle dir t1 t2 t3 t4 s = Some s0
    \<and> (\<forall>i < 5. stack_size (ptable s0 i) = (if i = 0 then 128 else 1024)
         \<and> (\<forall>x. in_range (stack_space (ptable s0 i)) (unat (stack_size (ptable s0 i))) x \<longrightarrow> page_is_mapped x (pg (hp s0)))
         \<and> (\<forall>j < 5. i \<noteq> j \<longrightarrow> disjoint_ranges (stack_space (ptable s0 i)) (unat (stack_size (ptable s0 i)))
              (stack_space (ptable s0 j)) (unat (stack_size (ptable s0 j)))))
    \<and> (\<forall>s1. kstep\<^sup>*\<^sup>* s0 s1 \<longrightarrow> kinv s1 \<and> (\<forall>sp m. \<exists>s2. kernel_entry Timer sp m s1 = Some s2 \<and> kstep s1 s2)
         \<and> (current_task s1 \<noteq> idle_task s1 \<longrightarrow> (\<forall>sp m. call_defined sp m \<longrightarrow> (\<exists>s2. kernel_entry Kernel_call sp m s1 = Some s2 \<and> kstep s1 s2))))"
proof -
  obtain k s' where k: "system_early mmap start (page_addr h) cb idle dir s = Some (kernel_callbacks cb, k)"
    "kernel_main (kernel_alloc (kernel_callbacks cb)) t1 t2 t3 t4 k = Some s'" "stacks_apart s'" "keeps_running s'"
    by (rule system_runs [OF assms])
  then have "system_boot mmap start (page_addr h) cb idle dir t1 t2 t3 t4 s = Some s'" by (simp add: system_boot_def)
  then show ?thesis using k(3,4) unfolding stacks_apart_def keeps_running_def by blast
qed

text \<open>The small machine of \<open>demo_kheap\<close>, with the task table as it is before the boot.\<close>

definition demo_system :: ksystem where
  "demo_system = clock.extend demo_reset \<lparr>hp = demo_before\<rparr>"

theorem system_boots_and_runs_witness:
  "\<exists>s0 s2. system_boot demo_mmap 0xC0000000 (page_addr 786948) no_callbacks 0xC0000100 0xC0001000 0xC0000200 0xC0000300 0xC0000400 0xC0000500
      demo_system = Some s0 \<and> kernel_entry Timer 0xC0200100 (\<lambda>_. 0) s0 = Some s2"
proof -
  have hp: "hp demo_system = demo_before" by (simp add: demo_system_def clock.extend_def)
  have fl: "task_flags (ptable demo_system i) = 0" for i by (simp add: demo_system_def clock.extend_def demo_reset_def)
  from system_boots_and_runs [of demo_system, unfolded hp, OF demo_before_ok(1-3) demo_before_room demo_before_ok(5-9) fl, of no_callbacks "0xC0000100" "0xC0001000" "0xC0000200"
      "0xC0000300" "0xC0000400" "0xC0000500"]
  show ?thesis by (meson rtranclp.rtrancl_refl)
qed

end
