(* ===== verification/KMMap.thy ===== *)
theory KMMap
  imports KMemInit
begin

text \<open>
  The memory map: \<open>get_mmap\<close> of src/system/kernel/main.c. It reads the boot loader's map, sorts the
  addresses where an entry begins or ends, and sweeps over them to produce regions that do not
  overlap. An entry of the boot loader is referred to by its position in the list of entries; the last one is
  the kernel's own. A panic, which never returns, is \<open>None\<close>.
\<close>

section \<open>The boot loader's map\<close>

record mb_entry =
  mb_addr_low :: u32
  mb_addr_high :: u32
  mb_len_low :: u32
  mb_len_high :: u32
  mb_type :: u32

definition read_entry :: "mem \<Rightarrow> addr \<Rightarrow> mb_entry" where
  "read_entry m p = \<lparr>mb_addr_low = ld32 m (p + 4), mb_addr_high = ld32 m (p + 8), mb_len_low = ld32 m (p + 12),
     mb_len_high = ld32 m (p + 16), mb_type = ld32 m (p + 20)\<rparr>"

definition MULTIBOOT_INFO_MEM_MAP :: u32 where "MULTIBOOT_INFO_MEM_MAP = 0x40"
definition MAX_BOOT_MMAP_SIZE :: nat where "MAX_BOOT_MMAP_SIZE = 128"
definition MAX_MMAP_SIZE :: nat where "MAX_MMAP_SIZE = MAX_BOOT_MMAP_SIZE + 2"
definition MMAP_TYPE_KERNEL :: u32 where "MMAP_TYPE_KERNEL = 0xFFFFFFFF"
definition PHYS_BYTES_MAX :: u32 where "PHYS_BYTES_MAX = 0xFFFFFFFF"

text \<open>The walk over the boot loader's map keeps the entries below 4 GiB.\<close>

partial_function (option) boot_walk :: "mem \<Rightarrow> addr \<Rightarrow> addr \<Rightarrow> nat \<Rightarrow> mb_entry list option" where
  "boot_walk m bootmap map_end chxcount =
     (if bootmap < map_end then
        let e = read_entry m bootmap;
            kept = (if mb_addr_high e = 0 then [e] else []);
            chxcount = chxcount + 2 * length kept
        in if chxcount > MAX_BOOT_MMAP_SIZE then None
           else Option.bind (boot_walk m (bootmap + ld32 m bootmap + 4) map_end chxcount) (\<lambda>es. Some (kept @ es))
      else Some [])"

definition entry_end :: "mb_entry \<Rightarrow> u32" where
  "entry_end e =
     (if mb_len_high e > 0 \<or> mb_addr_low e + mb_len_low e < mb_addr_low e then PHYS_BYTES_MAX
      else mb_addr_low e + mb_len_low e)"

section \<open>Change points and their order\<close>

record change_point =
  cp_addr :: u32
  cp_entry :: nat

definition entry_points :: "mb_entry list \<Rightarrow> nat \<Rightarrow> change_point list" where
  "entry_points es i = [\<lparr>cp_addr = mb_addr_low (es ! i), cp_entry = i\<rparr>, \<lparr>cp_addr = entry_end (es ! i), cp_entry = i\<rparr>]"

definition kernel_entry_of :: "u32 \<Rightarrow> u32 \<Rightarrow> mb_entry" where
  "kernel_entry_of kernel_start kernel_end =
     \<lparr>mb_addr_low = kernel_start, mb_addr_high = 0, mb_len_low = kernel_end - kernel_start, mb_len_high = 0,
      mb_type = MMAP_TYPE_KERNEL\<rparr>"

definition is_start :: "mb_entry list \<Rightarrow> change_point \<Rightarrow> bool" where
  "is_start es c \<longleftrightarrow> cp_addr c = mb_addr_low (es ! cp_entry c)"

definition swap_needed :: "mb_entry list \<Rightarrow> change_point \<Rightarrow> change_point \<Rightarrow> bool" where
  "swap_needed es cur prev \<longleftrightarrow>
     cp_addr cur < cp_addr prev \<or> (cp_addr cur = cp_addr prev \<and> is_start es cur \<and> \<not> is_start es prev)"

text \<open>One pass over the array, with \<open>is_changing\<close>; the passes are repeated until nothing changes.\<close>

fun sort_pass :: "mb_entry list \<Rightarrow> change_point list \<Rightarrow> bool \<times> change_point list" where
  "sort_pass es (prev # cur # cs) =
     (if swap_needed es cur prev then (True, cur # snd (sort_pass es (prev # cs)))
      else (case sort_pass es (cur # cs) of (is_changing, r) \<Rightarrow> (is_changing, prev # r)))"
| "sort_pass es cs = (False, cs)"

partial_function (option) sort_changes :: "mb_entry list \<Rightarrow> change_point list \<Rightarrow> change_point list option" where
  "sort_changes es cs =
     (case sort_pass es cs of (is_changing, cs) \<Rightarrow> if is_changing then sort_changes es cs else Some cs)"

section \<open>The sweep\<close>

record sweep =
  overlap :: "nat list"
  mmap :: "nat \<Rightarrow> mem_entry"
  mmap_id :: nat
  last_addr :: u32
  last_type :: u32

text \<open>\<open>overlap_remove\<close> moves the last entry of the array into the place of the removed one.\<close>

definition overlap_remove :: "nat \<Rightarrow> nat list \<Rightarrow> nat list" where
  "overlap_remove k ov =
     (case find (\<lambda>j. ov ! j = k) [0..<length ov] of
        None \<Rightarrow> butlast ov | Some j \<Rightarrow> butlast (ov[j := List.last ov]))"

definition max_type :: "mb_entry list \<Rightarrow> nat list \<Rightarrow> u32" where
  "max_type es ov = foldl (\<lambda>cur_type i. if mb_type (es ! i) > cur_type then mb_type (es ! i) else cur_type) 0 ov"

text \<open>\<open>close_region\<close> and \<open>open_region\<close> update the map; the first tells whether the map is full.\<close>

definition close_region :: "u32 \<Rightarrow> sweep \<Rightarrow> bool \<times> sweep" where
  "close_region a st =
     (if last_type st \<noteq> 0 then
        let r = (mmap st (mmap_id st))\<lparr>me_size := a - last_addr st\<rparr>;
            st = st\<lparr>mmap := (mmap st)(mmap_id st := r)\<rparr>
        in if me_size r \<noteq> 0 then
             let st = st\<lparr>mmap_id := mmap_id st + 1\<rparr> in (mmap_id st \<ge> MAX_MMAP_SIZE, st)
           else (False, st)
      else (False, st))"

definition open_region :: "u32 \<Rightarrow> u32 \<Rightarrow> sweep \<Rightarrow> sweep" where
  "open_region a cur_type st =
     (let st = (if cur_type \<noteq> 0
                then st\<lparr>mmap := (mmap st)(mmap_id st := (mmap st (mmap_id st))\<lparr>me_address := a, me_type := cur_type\<rparr>),
                       last_addr := a\<rparr>
                else st)
      in st\<lparr>last_type := cur_type\<rparr>)"

definition sweep_step :: "mb_entry list \<Rightarrow> change_point \<Rightarrow> sweep \<Rightarrow> bool \<times> sweep" where
  "sweep_step es c st =
     (let st = (if is_start es c then st\<lparr>overlap := overlap st @ [cp_entry c]\<rparr>
                else st\<lparr>overlap := overlap_remove (cp_entry c) (overlap st)\<rparr>);
          cur_type = max_type es (overlap st)
      in if cur_type \<noteq> last_type st then
           (case close_region (cp_addr c) st of
              (full, st) \<Rightarrow> if full then (True, st) else (False, open_region (cp_addr c) cur_type st))
         else (False, st))"

primrec sweep_all :: "mb_entry list \<Rightarrow> change_point list \<Rightarrow> sweep \<Rightarrow> sweep" where
  "sweep_all es [] st = st"
| "sweep_all es (c # cs) st =
     (case sweep_step es c st of (stop, st) \<Rightarrow> if stop then st else sweep_all es cs st)"

text \<open>\<open>arr\<close> is the previous contents of \<open>kinfo.mmap\<close>; the result is its first \<open>kinfo.mmap_size\<close> entries.\<close>

definition sanitise :: "(nat \<Rightarrow> mem_entry) \<Rightarrow> mb_entry list \<Rightarrow> u32 \<Rightarrow> u32 \<Rightarrow> mem_entry list option" where
  "sanitise arr boot kernel_start kernel_end =
     (let es = boot @ [kernel_entry_of kernel_start kernel_end];
          n = length boot;
          points = concat (map (entry_points es) [0..<n])
            @ [\<lparr>cp_addr = kernel_start, cp_entry = n\<rparr>, \<lparr>cp_addr = kernel_end, cp_entry = n\<rparr>]
      in map_option (\<lambda>changes.
           let st = sweep_all es changes \<lparr>overlap = [], mmap = arr, mmap_id = 0, last_addr = 0, last_type = 0\<rparr>
           in map (mmap st) [0..<mmap_id st])
         (sort_changes es points))"

definition get_mmap :: "(nat \<Rightarrow> mem_entry) \<Rightarrow> mem \<Rightarrow> u32 \<Rightarrow> addr \<Rightarrow> u32 \<Rightarrow> u32 \<Rightarrow> u32 \<Rightarrow> mem_entry list option" where
  "get_mmap arr m flags mmap_addr mmap_length kernel_start kernel_end =
     (if flags AND MULTIBOOT_INFO_MEM_MAP = 0 then None
      else Option.bind (boot_walk m mmap_addr (mmap_addr + mmap_length) 0)
             (\<lambda>boot. sanitise arr boot kernel_start kernel_end))"

section \<open>The sort ends and sorts\<close>

text \<open>The order of the change points, as a number: by address, starts before ends.\<close>

definition point_key :: "mb_entry list \<Rightarrow> change_point \<Rightarrow> nat" where
  "point_key es c = 2 * unat (cp_addr c) + (if is_start es c then 0 else 1)"

lemma swap_needed_key: "swap_needed es c d \<longleftrightarrow> point_key es c < point_key es d"
  by (auto simp: swap_needed_def point_key_def word_less_nat_alt word_unat_eq_iff)

primrec inversions :: "mb_entry list \<Rightarrow> change_point list \<Rightarrow> nat" where
  "inversions es [] = 0"
| "inversions es (x # xs) = length (filter (\<lambda>y. point_key es y < point_key es x) xs) + inversions es xs"

lemma sort_pass_mset: "mset (snd (sort_pass es cs)) = mset cs"
  by (induction es cs rule: sort_pass.induct) (auto split: prod.splits)

lemma sort_pass_length_filter: "length (filter P (snd (sort_pass es cs))) = length (filter P cs)"
  by (metis mset_filter size_mset sort_pass_mset)

lemma sort_pass_inversions:
  "inversions es (snd (sort_pass es cs)) \<le> inversions es cs
   \<and> (fst (sort_pass es cs) \<longrightarrow> inversions es (snd (sort_pass es cs)) < inversions es cs)"
proof (induction es cs rule: sort_pass.induct)
  case (1 es x y zs)
  show ?case
  proof (cases "swap_needed es y x")
    case True
    then have "point_key es y < point_key es x" by (simp add: swap_needed_key)
    with True "1.IH"(1) show ?thesis by (auto simp: sort_pass_length_filter)
  next
    case False
    then have "\<not> point_key es y < point_key es x" by (simp add: swap_needed_key)
    then show ?thesis
      using False "1.IH"(2) sort_pass_length_filter [of "\<lambda>z. point_key es z < point_key es x" es "y # zs"]
      by (auto split: prod.splits)
  qed
qed simp_all

lemma sort_pass_sorted: "\<not> fst (sort_pass es cs) \<Longrightarrow> snd (sort_pass es cs) = cs \<and> sorted (map (point_key es) cs)"
proof (induction es cs rule: sort_pass.induct)
  case (1 es x y zs)
  then show ?case by (auto simp: swap_needed_key not_less split: if_splits prod.splits)
qed simp_all

lemma sort_changes_result:
  "\<exists>r. sort_changes es cs = Some r \<and> mset r = mset cs \<and> sorted (map (point_key es) r)"
proof (induction "inversions es cs" arbitrary: cs rule: less_induct)
  case less
  obtain b r where p: "sort_pass es cs = (b, r)" by (metis prod.collapse)
  have m: "mset r = mset cs" using sort_pass_mset [of es cs] p by simp
  show ?case
  proof (cases b)
    case True
    then have "inversions es r < inversions es cs" using sort_pass_inversions [of es cs] p by simp
    from less [OF this] obtain r' where "sort_changes es r = Some r'" "mset r' = mset r" "sorted (map (point_key es) r')" by blast
    then show ?thesis using p True m by (subst sort_changes.simps) simp
  next
    case False
    then show ?thesis using sort_pass_sorted [of es cs] p by (subst sort_changes.simps) simp
  qed
qed


section \<open>What the sweep computes\<close>

definition start_point :: "mb_entry list \<Rightarrow> nat \<Rightarrow> change_point" where
  "start_point es i = \<lparr>cp_addr = mb_addr_low (es ! i), cp_entry = i\<rparr>"

definition end_point :: "(nat \<Rightarrow> u32) \<Rightarrow> nat \<Rightarrow> change_point" where
  "end_point fin i = \<lparr>cp_addr = fin i, cp_entry = i\<rparr>"

lemma start_point_sel [simp]: "cp_addr (start_point es i) = mb_addr_low (es ! i)" "cp_entry (start_point es i) = i"
  and end_point_sel [simp]: "cp_addr (end_point fin i) = fin i" "cp_entry (end_point fin i) = i"
  by (simp_all add: start_point_def end_point_def)

text \<open>The change points of the entries \<open>es\<close>, which end at \<open>fin\<close>, in order.\<close>

definition points_ok :: "mb_entry list \<Rightarrow> (nat \<Rightarrow> u32) \<Rightarrow> change_point list \<Rightarrow> bool" where
  "points_ok es fin cs \<longleftrightarrow> (\<forall>i < length es. mb_addr_low (es ! i) < fin i) \<and> distinct cs
     \<and> set cs = start_point es ` {..<length es} \<union> end_point fin ` {..<length es} \<and> sorted (map (point_key es) cs)"

definition max_type_of :: "mb_entry list \<Rightarrow> nat set \<Rightarrow> u32" where
  "max_type_of es I = Max (insert 0 ((\<lambda>i. mb_type (es ! i)) ` I))"

definition covering :: "mb_entry list \<Rightarrow> (nat \<Rightarrow> u32) \<Rightarrow> nat \<Rightarrow> nat set" where
  "covering es fin a = {i. i < length es \<and> unat (mb_addr_low (es ! i)) \<le> a \<and> a < unat (fin i)}"

definition active :: "mb_entry list \<Rightarrow> (nat \<Rightarrow> u32) \<Rightarrow> change_point list \<Rightarrow> nat set" where
  "active es fin ps = {i. i < length es \<and> start_point es i \<in> set ps \<and> end_point fin i \<notin> set ps}"

lemma max_type_set: "max_type es ov = max_type_of es (set ov)"
proof (induction ov rule: rev_induct)
  case Nil
  then show ?case by (simp add: max_type_def max_type_of_def)
next
  case (snoc i ov)
  have "max_type es (ov @ [i]) = max (mb_type (es ! i)) (max_type es ov)"
    by (auto simp: max_type_def max_def)
  also have "\<dots> = max_type_of es (set (ov @ [i]))"
  proof -
    have "insert 0 ((\<lambda>i. mb_type (es ! i)) ` set (ov @ [i])) = insert (mb_type (es ! i)) (insert 0 ((\<lambda>i. mb_type (es ! i)) ` set ov))"
      by auto
    then show ?thesis unfolding snoc max_type_of_def by (simp only: Max_insert finite_insert finite_imageI finite_set) simp
  qed
  finally show ?case .
qed

lemma find_SomeD: "find P xs = Some x \<Longrightarrow> P x \<and> x \<in> set xs"
  by (auto simp: find_Some_iff)

lemma overlap_remove_set:
  assumes "distinct ov" "k \<in> set ov"
  shows "distinct (overlap_remove k ov) \<and> set (overlap_remove k ov) = set ov - {k}"
proof -
  obtain us l where us: "ov = us @ [l]" using assms(2) by (metis empty_iff list.set(1) rev_exhaust)
  obtain j where j: "find (\<lambda>j. ov ! j = k) [0..<length ov] = Some j" "j < length ov" "ov ! j = k"
  proof -
    have "find (\<lambda>j. ov ! j = k) [0..<length ov] \<noteq> None"
      using assms(2) by (auto simp: find_None_iff in_set_conv_nth)
    then obtain j where "find (\<lambda>j. ov ! j = k) [0..<length ov] = Some j" by blast
    with that find_SomeD [OF this] show ?thesis by simp
  qed
  show ?thesis
  proof (cases "j = length us")
    case True
    then have "overlap_remove k ov = us" "k = l" using j us by (simp_all add: overlap_remove_def)
    then show ?thesis using assms(1) us by auto
  next
    case False
    then have lt: "j < length us" using j(2) us by simp
    then have "overlap_remove k ov = us[j := l]" using j us by (simp add: overlap_remove_def list_update_append1)
    moreover have "set (us[j := l]) = insert l (set us - {us ! j})" using assms(1) us lt by (intro set_update_distinct) simp_all
    moreover have "us ! j = k" using j(3) us lt by (simp add: nth_append)
    moreover have "l \<noteq> k" using assms(1) us lt \<open>us ! j = k\<close> nth_mem [OF lt] by auto
    moreover have "distinct (us[j := l])" using assms(1) us by (intro distinct_list_update) auto
    ultimately show ?thesis using us by auto
  qed
qed

lemma points_okD:
  assumes "points_ok es fin (ps @ c # rs)"
  shows "cp_entry c < length es" "c = start_point es (cp_entry c) \<or> c = end_point fin (cp_entry c)"
    "d \<in> set ps \<Longrightarrow> point_key es d \<le> point_key es c" "d \<in> set rs \<Longrightarrow> point_key es c \<le> point_key es d"
    "c \<notin> set ps" "c \<notin> set rs"
proof -
  have "c \<in> start_point es ` {..<length es} \<union> end_point fin ` {..<length es}"
    using assms unfolding points_ok_def by (metis in_set_conv_decomp)
  then show "cp_entry c < length es" "c = start_point es (cp_entry c) \<or> c = end_point fin (cp_entry c)" by auto
qed (use assms in \<open>auto simp: points_ok_def sorted_append\<close>)

lemma key_less: "\<lbrakk>points_ok es fin cs; i < length es\<rbrakk> \<Longrightarrow> point_key es (start_point es i) < point_key es (end_point fin i)"
  by (auto simp: points_ok_def point_key_def is_start_def word_less_nat_alt)

lemma active_step:
  assumes ok: "points_ok es fin (ps @ c # rs)"
  shows "is_start es c \<Longrightarrow> cp_entry c \<notin> active es fin ps \<and> active es fin (ps @ [c]) = insert (cp_entry c) (active es fin ps)"
    "\<not> is_start es c \<Longrightarrow> cp_entry c \<in> active es fin ps \<and> active es fin (ps @ [c]) = active es fin ps - {cp_entry c}"
proof -
  let ?i = "cp_entry c"
  note D = points_okD [OF ok] and k = key_less [OF ok]
  have n: "mb_addr_low (es ! i) \<noteq> fin i" if "i < length es" for i using ok that by (auto simp: points_ok_def)
  have ne: "start_point es i \<noteq> end_point fin j" if "i < length es" for i j
    using n [OF that] by (auto simp: start_point_def end_point_def)
  { assume "is_start es c"
    then have "c \<noteq> end_point fin ?i" using n [OF D(1)] by (metis is_start_def end_point_sel(1))
    then have c: "c = start_point es ?i" using D(2) by blast
    have "end_point fin ?i \<notin> set ps" using D(3) [of "end_point fin ?i"] k [OF D(1)] c by (metis not_le)
    moreover have "end_point fin ?i \<noteq> c" using ne [OF D(1)] c by metis
    moreover have inj: "start_point es j = c \<longleftrightarrow> j = ?i" for j using c by (auto simp: start_point_def)
    moreover have "end_point fin j \<noteq> c" for j using ne [OF D(1), of j] c by metis
    ultimately show "?i \<notin> active es fin ps \<and> active es fin (ps @ [c]) = insert ?i (active es fin ps)"
      using D(1,5) c by (auto simp: active_def) }
  { assume "\<not> is_start es c"
    then have "c \<noteq> start_point es ?i" by (metis is_start_def start_point_sel(1))
    then have c: "c = end_point fin ?i" using D(2) by blast
    have "start_point es ?i \<in> set (ps @ c # rs)" using ok D(1) by (auto simp: points_ok_def)
    moreover have "start_point es ?i \<notin> set rs" using D(4) [of "start_point es ?i"] k [OF D(1)] c by (metis not_le)
    moreover have ne': "start_point es j \<noteq> c" if "j < length es" for j using ne [OF that] c by metis
    ultimately have "start_point es ?i \<in> set ps" using D(1) by auto
    moreover have "end_point fin j = c \<longleftrightarrow> j = ?i" for j using c by (auto simp: end_point_def)
    ultimately show "?i \<in> active es fin ps \<and> active es fin (ps @ [c]) = active es fin ps - {?i}"
      using D(1,5) c ne' by (auto simp: active_def) }
qed

lemma active_covering:
  assumes ok: "points_ok es fin (ps @ rs)"
    and "\<And>c. c \<in> set ps \<Longrightarrow> unat (cp_addr c) \<le> a" "\<And>c. c \<in> set rs \<Longrightarrow> a < unat (cp_addr c)"
  shows "active es fin ps = covering es fin a"
proof -
  have "start_point es i \<in> set ps \<longleftrightarrow> unat (mb_addr_low (es ! i)) \<le> a"
      "end_point fin i \<in> set ps \<longleftrightarrow> unat (fin i) \<le> a" if i: "i < length es" for i
  proof -
    have "start_point es i \<in> set ps \<union> set rs" "end_point fin i \<in> set ps \<union> set rs"
      using ok i by (auto simp: points_ok_def)
    then show "start_point es i \<in> set ps \<longleftrightarrow> unat (mb_addr_low (es ! i)) \<le> a"
        "end_point fin i \<in> set ps \<longleftrightarrow> unat (fin i) \<le> a"
      using assms(2,3) [of "start_point es i"] assms(2,3) [of "end_point fin i"] by auto
  qed
  then show ?thesis by (auto simp: active_def covering_def not_le)
qed


section \<open>The regions\<close>

definition contains :: "mem_entry \<Rightarrow> nat \<Rightarrow> bool" where
  "contains e a \<longleftrightarrow> unat (me_address e) \<le> a \<and> a < unat (me_address e) + unat (me_size e)"

definition region_type :: "mem_entry list \<Rightarrow> nat \<Rightarrow> u32" where
  "region_type R a = (case find (\<lambda>e. contains e a) R of None \<Rightarrow> 0 | Some e \<Rightarrow> me_type e)"

abbreviation closed :: "sweep \<Rightarrow> mem_entry list" where "closed st \<equiv> map (mmap st) [0..<mmap_id st]"

text \<open>The type of an address as far as the sweep has come: an open region reaches arbitrarily far.\<close>

definition seen_type :: "sweep \<Rightarrow> nat \<Rightarrow> u32" where
  "seen_type st a =
     (if last_type st \<noteq> 0 \<and> unat (last_addr st) \<le> a then last_type st else region_type (closed st) a)"

text \<open>The regions end before \<open>b\<close>, in ascending order, and are not empty.\<close>

definition regions_below :: "nat \<Rightarrow> mem_entry list \<Rightarrow> bool" where
  "regions_below b R \<longleftrightarrow> (\<forall>e \<in> set R. me_size e \<noteq> 0 \<and> me_type e \<noteq> 0 \<and> unat (me_address e) + unat (me_size e) \<le> b)
     \<and> sorted_wrt (\<lambda>e f. unat (me_address e) + unat (me_size e) \<le> unat (me_address f)) R"

definition sweep_ok :: "nat \<Rightarrow> sweep \<Rightarrow> bool" where
  "sweep_ok p st \<longleftrightarrow>
     (if last_type st = 0 then regions_below p (closed st)
      else unat (last_addr st) \<le> p \<and> regions_below (unat (last_addr st)) (closed st)
        \<and> me_address (mmap st (mmap_id st)) = last_addr st \<and> me_type (mmap st (mmap_id st)) = last_type st)"

lemma find_append: "find P (xs @ ys) = (case find P xs of None \<Rightarrow> find P ys | Some x \<Rightarrow> Some x)"
  by (induction xs) auto

lemma region_type_append:
  "region_type (R @ [e]) a = (if region_type R a \<noteq> 0 \<or> (\<exists>f \<in> set R. contains f a) then region_type R a
      else if contains e a then me_type e else 0)"
proof (cases "find (\<lambda>e. contains e a) R")
  case None
  then have "\<not> (\<exists>f \<in> set R. contains f a)" by (simp add: find_None_iff)
  then show ?thesis using None by (simp add: region_type_def find_append)
next
  case (Some f)
  then have "\<exists>f \<in> set R. contains f a" using find_SomeD by fast
  then show ?thesis using Some by (simp add: region_type_def find_append)
qed

lemma region_type_outside: "\<forall>e \<in> set R. \<not> contains e a \<Longrightarrow> region_type R a = 0"
  by (simp add: region_type_def find_None_iff [THEN iffD2])

lemma regions_belowD: "\<lbrakk>regions_below b R; b \<le> a\<rbrakk> \<Longrightarrow> \<forall>e \<in> set R. \<not> contains e a"
  by (auto simp: regions_below_def contains_def)

lemma regions_below_mono: "regions_below b R \<Longrightarrow> b \<le> c \<Longrightarrow> regions_below c R"
  unfolding regions_below_def by (meson order_trans)

lemma regions_below_append:
  "\<lbrakk>regions_below b R; b \<le> unat (me_address e); me_size e \<noteq> 0; me_type e \<noteq> 0; unat (me_address e) + unat (me_size e) \<le> c\<rbrakk>
   \<Longrightarrow> regions_below c (R @ [e])"
  unfolding regions_below_def by (auto simp: sorted_wrt_append)

lemma seen_later: "\<lbrakk>sweep_ok p st; p \<le> a\<rbrakk> \<Longrightarrow> seen_type st a = last_type st"
  by (auto simp: sweep_ok_def seen_type_def intro!: region_type_outside dest: regions_belowD split: if_splits)

lemma sweep_ok_mono: "\<lbrakk>sweep_ok p st; p \<le> q\<rbrakk> \<Longrightarrow> sweep_ok q st"
  by (auto simp: sweep_ok_def intro: regions_below_mono split: if_splits)

text \<open>Closing the open region at \<open>q\<close>.\<close>

lemma close_region_ok:
  assumes ok: "sweep_ok (unat q) st" and room: "mmap_id st + 1 < MAX_MMAP_SIZE"
  shows "\<exists>st'. close_region q st = (False, st') \<and> regions_below (unat q) (closed st')
    \<and> (\<forall>a < unat q. region_type (closed st') a = seen_type st a)
    \<and> mmap_id st' \<le> mmap_id st + (if last_type st \<noteq> 0 then 1 else 0) \<and> overlap st' = overlap st"
proof (cases "last_type st = 0")
  case True
  then show ?thesis using ok by (simp add: close_region_def sweep_ok_def seen_type_def)
next
  case False
  let ?l = "last_addr st" and ?i = "mmap_id st"
  have l: "unat ?l \<le> unat q" "regions_below (unat ?l) (closed st)" "me_address (mmap st ?i) = ?l" "me_type (mmap st ?i) = last_type st"
    using ok False by (simp_all add: sweep_ok_def)
  have sz: "unat (q - ?l) = unat q - unat ?l" using l(1) by (intro unat_sub) (simp add: word_le_nat_alt)
  let ?r = "(mmap st ?i)\<lparr>me_size := q - ?l\<rparr>"
  let ?st = "st\<lparr>mmap := (mmap st)(?i := ?r)\<rparr>"
  have cl: "closed ?st = closed st" by simp
  show ?thesis
  proof (cases "q = ?l")
    case True
    then have "close_region q st = (False, ?st)" using False by (simp add: close_region_def Let_def)
    moreover have "region_type (closed st) a = seen_type st a" if "a < unat q" for a
      using True that by (simp add: seen_type_def)
    ultimately show ?thesis using l(2) True by auto
  next
    case ne: False
    let ?st' = "?st\<lparr>mmap_id := ?i + 1\<rparr>"
    have "q - ?l \<noteq> 0" using ne by simp
    then have eq: "close_region q st = (False, ?st')" using False room by (simp add: close_region_def Let_def)
    have cl': "closed ?st' = closed st @ [?r]" by simp
    have "regions_below (unat q) (closed st @ [?r])"
      using l sz ne False by (intro regions_below_append [OF l(2)]) simp_all
    moreover have "region_type (closed st @ [?r]) a = seen_type st a" if "a < unat q" for a
    proof (cases "unat ?l \<le> a")
      case True
      then have "region_type (closed st) a = 0" "\<forall>e \<in> set (closed st). \<not> contains e a"
        using regions_belowD [OF l(2)] region_type_outside by blast+
      moreover have "contains ?r a" using True that sz l(1,3) by (simp add: contains_def)
      ultimately show ?thesis using False True l(4) by (simp add: region_type_append seen_type_def)
    next
      case f: False
      then have "\<not> contains ?r a" using l(3) by (simp add: contains_def)
      moreover have "region_type (closed st) a = 0 \<Longrightarrow> \<exists>e \<in> set (closed st). contains e a \<Longrightarrow> False"
      proof -
        assume z: "region_type (closed st) a = 0" and "\<exists>e \<in> set (closed st). contains e a"
        then obtain e where "find (\<lambda>e. contains e a) (closed st) = Some e"
          by (metis (mono_tags, lifting) find_None_iff not_Some_eq)
        moreover from this have "e \<in> set (closed st)" using find_SomeD by fast
        ultimately show False using l(2) z by (auto simp: regions_below_def region_type_def)
      qed
      ultimately show ?thesis using f unfolding region_type_append seen_type_def by auto
    qed
    ultimately show ?thesis using eq cl' False by auto
  qed
qed

lemma open_region_ok:
  assumes "regions_below (unat q) (closed st)"
  shows "sweep_ok (unat q) (open_region q cur st)" "last_type (open_region q cur st) = cur"
    "a < unat q \<Longrightarrow> seen_type (open_region q cur st) a = region_type (closed st) a"
    "mmap_id (open_region q cur st) = mmap_id st" "overlap (open_region q cur st) = overlap st"
proof -
  have cl: "closed (open_region q cur st) = closed st" by (simp add: open_region_def)
  show "sweep_ok (unat q) (open_region q cur st)"
    using assms unfolding sweep_ok_def cl by (simp add: open_region_def)
  show "a < unat q \<Longrightarrow> seen_type (open_region q cur st) a = region_type (closed st) a"
    unfolding seen_type_def cl by (simp add: open_region_def)
qed (simp_all add: open_region_def)


section \<open>The sweep is correct\<close>

text \<open>After the points \<open>ps\<close>, the last of them at \<open>p\<close>.\<close>

definition swept :: "mb_entry list \<Rightarrow> (nat \<Rightarrow> u32) \<Rightarrow> change_point list \<Rightarrow> nat \<Rightarrow> sweep \<Rightarrow> bool" where
  "swept es fin ps p st \<longleftrightarrow> sweep_ok p st \<and> distinct (overlap st) \<and> set (overlap st) = active es fin ps
     \<and> last_type st = max_type_of es (active es fin ps)
     \<and> (\<forall>a < p. seen_type st a = max_type_of es (covering es fin a))
     \<and> mmap_id st + (if last_type st \<noteq> 0 then 1 else 0) \<le> length ps"

lemma sweep_step_ok:
  assumes inv: "swept es fin ps p st" and ok: "points_ok es fin (ps @ c # rs)"
    and p: "\<And>d. d \<in> set ps \<Longrightarrow> unat (cp_addr d) \<le> p" "p \<le> unat (cp_addr c)"
    and room: "length ps < MAX_MMAP_SIZE"
  shows "\<exists>st'. sweep_step es c st = (False, st') \<and> swept es fin (ps @ [c]) (unat (cp_addr c)) st'"
proof -
  let ?q = "cp_addr c" and ?A = "active es fin ps" and ?A' = "active es fin (ps @ [c])"
  have I: "sweep_ok p st" "distinct (overlap st)" "set (overlap st) = ?A" "last_type st = max_type_of es ?A"
      "\<And>a. a < p \<Longrightarrow> seen_type st a = max_type_of es (covering es fin a)"
      "mmap_id st + (if last_type st \<noteq> 0 then 1 else 0) \<le> length ps"
    using inv unfolding swept_def by blast+
  define ov where "ov = (if is_start es c then overlap st @ [cp_entry c] else overlap_remove (cp_entry c) (overlap st))"
  have ov: "distinct ov" "set ov = ?A'"
    using active_step [OF ok] I(2,3) overlap_remove_set [OF I(2)] unfolding ov_def by auto
  let ?st = "st\<lparr>overlap := ov\<rparr>"
  have before: "seen_type st a = max_type_of es (covering es fin a)" if "a < unat ?q" for a
  proof (cases "a < p")
    case False
    have "?A = covering es fin a"
    proof (rule active_covering [OF ok])
      fix d assume "d \<in> set (c # rs)"
      then have "point_key es c \<le> point_key es d" using points_okD(4) [OF ok] by auto
      then show "a < unat (cp_addr d)" using that by (auto simp: point_key_def split: if_splits)
    qed (use p(1) False in \<open>meson le_trans not_less\<close>)
    then show ?thesis using seen_later [OF I(1), of a] I(4) False by simp
  qed (rule I(5))
  have ok': "sweep_ok (unat ?q) ?st" using sweep_ok_mono [OF I(1) p(2)] unfolding sweep_ok_def by simp
  have seen: "seen_type ?st a = seen_type st a" for a by (simp add: seen_type_def)
  have cur: "max_type es ov = max_type_of es ?A'" using ov(2) by (simp add: max_type_set)
  have stp: "sweep_step es c st = (if max_type es ov \<noteq> last_type st then
           (case close_region ?q ?st of
              (full, st) \<Rightarrow> if full then (True, st) else (False, open_region ?q (max_type es ov) st))
         else (False, ?st))"
    unfolding sweep_step_def ov_def by (cases "is_start es c") (simp_all add: Let_def split: prod.splits)
  show ?thesis
  proof (cases "max_type es ov = last_type st")
    case True
    then have "swept es fin (ps @ [c]) (unat ?q) ?st"
      using ok' ov cur before seen I(6) unfolding swept_def by auto
    then show ?thesis using stp True by simp
  next
    case False
    have r: "mmap_id ?st + 1 < MAX_MMAP_SIZE \<or> last_type st = 0" using I(6) room by (auto split: if_splits)
    obtain st1 where st1: "close_region ?q ?st = (False, st1)" "regions_below (unat ?q) (closed st1)"
        "\<And>a. a < unat ?q \<Longrightarrow> region_type (closed st1) a = seen_type ?st a"
        "mmap_id st1 \<le> mmap_id st + (if last_type st \<noteq> 0 then 1 else 0)" "overlap st1 = ov"
    proof (cases "last_type st = 0")
      case True
      then have "close_region ?q ?st = (False, ?st)" by (simp add: close_region_def)
      moreover have "regions_below (unat ?q) (closed ?st)" using ok' True by (simp add: sweep_ok_def)
      moreover have "\<And>a. region_type (closed ?st) a = seen_type ?st a" using True by (simp add: seen_type_def)
      ultimately show ?thesis using that [of ?st] by simp
    next
      case f: False
      then show ?thesis using close_region_ok [OF ok'] r that by auto
    qed
    let ?st2 = "open_region ?q (max_type es ov) st1"
    note O = open_region_ok [OF st1(2)]
    have "swept es fin (ps @ [c]) (unat ?q) ?st2"
      unfolding swept_def
    proof (intro conjI allI impI)
      fix a assume "a < unat ?q"
      then show "seen_type ?st2 a = max_type_of es (covering es fin a)"
        using O(3) st1(3) before seen by simp
    next
      show "mmap_id ?st2 + (if last_type ?st2 \<noteq> 0 then 1 else 0) \<le> length (ps @ [c])"
        using O(4) st1(4) I(6) by (auto split: if_splits)
    qed (use O ov st1(5) cur in simp_all)
    then show ?thesis using stp False st1(1) by simp
  qed
qed

lemma sweep_all_ok:
  assumes "swept es fin ps p st" "points_ok es fin (ps @ rs)" "\<And>d. d \<in> set ps \<Longrightarrow> unat (cp_addr d) \<le> p"
    "\<And>d. d \<in> set rs \<Longrightarrow> p \<le> unat (cp_addr d)" "length (ps @ rs) \<le> MAX_MMAP_SIZE"
  shows "\<exists>q. swept es fin (ps @ rs) q (sweep_all es rs st) \<and> (\<forall>d \<in> set (ps @ rs). unat (cp_addr d) \<le> q)"
  using assms
proof (induction rs arbitrary: ps p st)
  case Nil
  then show ?case by auto
next
  case (Cons c rs)
  have le: "p \<le> unat (cp_addr c)" using Cons.prems(4) by simp
  obtain st1 where st1: "sweep_step es c st = (False, st1)" "swept es fin (ps @ [c]) (unat (cp_addr c)) st1"
    using sweep_step_ok [OF Cons.prems(1,2,3) le] Cons.prems(5) by auto
  have "\<exists>q. swept es fin ((ps @ [c]) @ rs) q (sweep_all es rs st1) \<and> (\<forall>d \<in> set ((ps @ [c]) @ rs). unat (cp_addr d) \<le> q)"
  proof (rule Cons.IH [OF st1(2)])
    show "points_ok es fin ((ps @ [c]) @ rs)" using Cons.prems(2) by simp
    show "d \<in> set (ps @ [c]) \<Longrightarrow> unat (cp_addr d) \<le> unat (cp_addr c)" for d
      using Cons.prems(3) le by fastforce
    show "d \<in> set rs \<Longrightarrow> unat (cp_addr c) \<le> unat (cp_addr d)" for d
      using points_okD(4) [OF Cons.prems(2), of d] by (auto simp: point_key_def split: if_splits)
    show "length ((ps @ [c]) @ rs) \<le> MAX_MMAP_SIZE" using Cons.prems(5) by simp
  qed
  then show ?case using st1(1) by simp
qed

lemma max_type_of_empty [simp]: "max_type_of es {} = 0"
  by (simp add: max_type_of_def)

lemma sweep_result:
  assumes ok: "points_ok es fin cs" and len: "length cs \<le> MAX_MMAP_SIZE"
    and st: "st = sweep_all es cs \<lparr>overlap = [], mmap = arr, mmap_id = 0, last_addr = 0, last_type = 0\<rparr>"
  shows "\<exists>b. regions_below b (closed st)" "region_type (closed st) a = max_type_of es (covering es fin a)"
proof -
  let ?st0 = "\<lparr>overlap = [], mmap = arr, mmap_id = 0, last_addr = 0, last_type = 0\<rparr>"
  have "swept es fin [] 0 ?st0"
    by (simp add: swept_def sweep_ok_def regions_below_def active_def)
  from sweep_all_ok [OF this, of cs] ok len obtain q where
    q: "swept es fin cs q st" "\<And>d. d \<in> set cs \<Longrightarrow> unat (cp_addr d) \<le> q" unfolding st by auto
  have "active es fin cs = {}" using ok by (auto simp: active_def points_ok_def)
  with q(1) have I: "sweep_ok q st" "last_type st = 0" "\<And>a. a < q \<Longrightarrow> seen_type st a = max_type_of es (covering es fin a)"
    by (simp_all add: swept_def)
  then show "\<exists>b. regions_below b (closed st)" by (auto simp: sweep_ok_def)
  show "region_type (closed st) a = max_type_of es (covering es fin a)"
  proof (cases "a < q")
    case True
    then show ?thesis using I(2,3) by (simp add: seen_type_def)
  next
    case False
    then have a: "q \<le> a" by simp
    have "active es fin cs = covering es fin a"
      using active_covering [of es fin cs "[]" a] ok q(2) a by (metis append_Nil2 empty_iff le_trans list.set(1))
    then have "max_type_of es (covering es fin a) = 0" using \<open>active es fin cs = {}\<close> by simp
    moreover have "seen_type st a = 0" using seen_later [OF I(1) a] I(2) by simp
    ultimately show ?thesis using I(2) by (simp add: seen_type_def)
  qed
qed


section \<open>The memory map\<close>

text \<open>The type of a physical address: the kernel's, or the greatest type of the entries that cover it, 0
  when there is none.\<close>

definition entry_covers :: "nat \<Rightarrow> mb_entry \<Rightarrow> bool" where
  "entry_covers a e \<longleftrightarrow> unat (mb_addr_low e) \<le> a \<and> a < unat (entry_end e)"

definition mem_type :: "mb_entry list \<Rightarrow> u32 \<Rightarrow> u32 \<Rightarrow> nat \<Rightarrow> u32" where
  "mem_type boot ks ke a =
     (if unat ks \<le> a \<and> a < unat ke then MMAP_TYPE_KERNEL
      else Max (insert 0 (mb_type ` set (filter (entry_covers a) boot))))"

definition boot_ok :: "mb_entry list \<Rightarrow> bool" where
  "boot_ok boot \<longleftrightarrow> (\<forall>e \<in> set boot. mb_addr_low e < entry_end e)"

definition regions_ok :: "mem_entry list \<Rightarrow> bool" where
  "regions_ok R \<longleftrightarrow> (\<exists>b. regions_below b R)"

abbreviation all_entries :: "mb_entry list \<Rightarrow> u32 \<Rightarrow> u32 \<Rightarrow> mb_entry list" where
  "all_entries boot ks ke \<equiv> boot @ [kernel_entry_of ks ke]"

abbreviation all_ends :: "mb_entry list \<Rightarrow> u32 \<Rightarrow> nat \<Rightarrow> u32" where
  "all_ends boot ke \<equiv> (\<lambda>i. if i < length boot then entry_end (boot ! i) else ke)"

lemma boot_walk_length:
  assumes "boot_walk m p e n = Some es" "n \<le> 128"
  shows "n + 2 * length es \<le> 128"
proof -
  have "n \<le> 128 \<longrightarrow> n + 2 * length es \<le> 128"
    using assms(1)
  proof (rule boot_walk.raw_induct [rotated])
    fix f m p e n es
    assume IH: "\<And>m p e n es. f m p e n = Some es \<Longrightarrow> n \<le> 128 \<longrightarrow> n + 2 * length es \<le> 128"
      and eq: "(if p < e then let b = read_entry m p;
            kept = (if mb_addr_high b = 0 then [b] else []);
            n = n + 2 * length kept
        in if n > MAX_BOOT_MMAP_SIZE then None
           else Option.bind (f m (p + ld32 m p + 4) e n) (\<lambda>es. Some (kept @ es))
      else Some []) = Some es"
    show "n \<le> 128 \<longrightarrow> n + 2 * length es \<le> 128"
      using eq IH by (fastforce simp: MAX_BOOT_MMAP_SIZE_def Let_def bind_eq_Some_conv split: if_splits)
  qed
  then show ?thesis using assms(2) by simp
qed

text \<open>The map as the boot loader leaves it in memory: from \<open>p\<close> to \<open>z\<close> one entry after the other, each with its size before
  it. The walk keeps those below 4 GiB, of which there is room for 64.\<close>

primrec map_at :: "mem \<Rightarrow> nat \<Rightarrow> mb_entry list \<Rightarrow> nat \<Rightarrow> bool" where
  "map_at m p [] z \<longleftrightarrow> p = z"
| "map_at m p (e # es) z \<longleftrightarrow> p < z \<and> read_entry m (of_nat p) = e \<and> map_at m (p + unat (ld32 m (of_nat p)) + 4) es z"

definition low_entries :: "mb_entry list \<Rightarrow> mb_entry list" where
  "low_entries es = filter (\<lambda>e. mb_addr_high e = 0) es"

lemma map_at_le: "map_at m p es z \<Longrightarrow> p \<le> z"
  by (cases es) auto

lemma boot_walk_map:
  assumes "map_at m p es z" "z < 4294967296" "n \<le> 128"
  shows "boot_walk m (of_nat p) (of_nat z) n = (if n + 2 * length (low_entries es) \<le> 128 then Some (low_entries es) else None)"
  using assms
proof (induction es arbitrary: p n)
  case Nil
  then show ?case by (subst boot_walk.simps) (simp add: low_entries_def)
next
  case (Cons e es)
  let ?q = "p + unat (ld32 m (of_nat p)) + 4" and ?n = "n + 2 * length (low_entries [e])"
  have q: "map_at m ?q es z" and e: "read_entry m (of_nat p) = e" and lt: "p < z" using Cons.prems(1) by auto
  have w: "(of_nat p :: addr) < of_nat z" using lt Cons.prems(2) by (simp add: word_less_nat_alt unat_of_nat)
  have s: "(of_nat p + ld32 m (of_nat p) + 4 :: addr) = of_nat ?q" by simp
  have k: "(if mb_addr_high e = 0 then [e] else []) = low_entries [e]" "low_entries (e # es) = low_entries [e] @ low_entries es"
    by (simp_all add: low_entries_def)
  have "boot_walk m (of_nat p) (of_nat z) n =
      (if ?n > 128 then None
       else Option.bind (boot_walk m (of_nat ?q) (of_nat z) ?n) (\<lambda>r. Some (low_entries [e] @ r)))"
    using w by (subst boot_walk.simps) (simp only: Let_def e k(1) s MAX_BOOT_MMAP_SIZE_def if_True)
  moreover have "?n \<le> 128 \<Longrightarrow> boot_walk m (of_nat ?q) (of_nat z) ?n
      = (if ?n + 2 * length (low_entries es) \<le> 128 then Some (low_entries es) else None)"
    by (rule Cons.IH [OF q Cons.prems(2)])
  ultimately show ?case unfolding k(2) by (simp del: of_nat_add)
qed

text \<open>Of the free regions none reaches into the last page of the address space when no free entry does.\<close>

definition free_below :: "mb_entry list \<Rightarrow> bool" where
  "free_below boot \<longleftrightarrow> (\<forall>e \<in> set boot. mb_type e = MMAP_TYPE_FREE \<longrightarrow> unat (entry_end e) \<le> 0xFFFFF000)"

lemma mem_type_covered:
  assumes "mem_type boot ks ke a = t" "t \<noteq> 0" "t \<noteq> MMAP_TYPE_KERNEL"
  obtains e where "e \<in> set boot" "entry_covers a e" "mb_type e = t"
proof -
  let ?X = "insert 0 (mb_type ` set (filter (entry_covers a) boot))"
  have "Max ?X = t" using assms by (simp add: mem_type_def split: if_splits)
  moreover have "Max ?X \<in> ?X" by (rule Max_in) auto
  ultimately have "t \<in> ?X" by simp
  then show ?thesis using assms(2) that by auto
qed

lemma max_type_kernel:
  assumes "unat ks \<le> a" "a < unat ke"
  shows "max_type_of (all_entries boot ks ke) (covering (all_entries boot ks ke) (all_ends boot ke) a) = MMAP_TYPE_KERNEL"
proof -
  have "length boot \<in> covering (all_entries boot ks ke) (all_ends boot ke) a"
    using assms by (simp add: covering_def kernel_entry_of_def)
  then have "MMAP_TYPE_KERNEL \<in> (\<lambda>i. mb_type (all_entries boot ks ke ! i)) ` covering (all_entries boot ks ke) (all_ends boot ke) a"
    by (force simp: kernel_entry_of_def)
  moreover have "x \<le> MMAP_TYPE_KERNEL" for x
    unfolding MMAP_TYPE_KERNEL_def word_le_nat_alt using unat_lt_2p32 [of x] by simp
  moreover have "finite (covering (all_entries boot ks ke) (all_ends boot ke) a)" by (simp add: covering_def)
  ultimately show ?thesis unfolding max_type_of_def by (intro Max_eqI) auto
qed

lemma max_type_boot:
  assumes "\<not> (unat ks \<le> a \<and> a < unat ke)"
  shows "max_type_of (all_entries boot ks ke) (covering (all_entries boot ks ke) (all_ends boot ke) a)
    = Max (insert 0 (mb_type ` set (filter (entry_covers a) boot)))"
proof -
  have "(\<lambda>i. mb_type (all_entries boot ks ke ! i)) ` covering (all_entries boot ks ke) (all_ends boot ke) a
      = mb_type ` set (filter (entry_covers a) boot)" (is "?L = ?R")
  proof
    show "?L \<subseteq> ?R"
    proof
      fix x assume "x \<in> ?L"
      then obtain i where i: "i < Suc (length boot)" "unat (mb_addr_low (all_entries boot ks ke ! i)) \<le> a"
          "a < unat (all_ends boot ke i)" "x = mb_type (all_entries boot ks ke ! i)" by (auto simp: covering_def)
      have "i < length boot"
      proof (rule ccontr)
        assume "\<not> i < length boot"
        then have "i = length boot" using i(1) by simp
        then show False using i(2,3) assms by (simp add: kernel_entry_of_def)
      qed
      then show "x \<in> ?R" using i by (auto simp: nth_append entry_covers_def)
    qed
    show "?R \<subseteq> ?L"
    proof
      fix x assume "x \<in> ?R"
      then obtain e where "e \<in> set boot" "entry_covers a e" "x = mb_type e" by auto
      then obtain i where i: "i < length boot" "entry_covers a (boot ! i)" "x = mb_type (boot ! i)"
        by (metis in_set_conv_nth)
      then have "i \<in> covering (all_entries boot ks ke) (all_ends boot ke) a"
        by (simp add: covering_def nth_append entry_covers_def)
      moreover have "x = mb_type (all_entries boot ks ke ! i)" using i by (simp add: nth_append)
      ultimately show "x \<in> ?L" by blast
    qed
  qed
  then show ?thesis by (simp add: max_type_of_def)
qed

lemma points_of_entries:
  assumes b: "boot_ok boot" and k: "ks < ke"
    and points: "points = concat (map (entry_points (all_entries boot ks ke)) [0..<length boot])
            @ [\<lparr>cp_addr = ks, cp_entry = length boot\<rparr>, \<lparr>cp_addr = ke, cp_entry = length boot\<rparr>]"
    and cs: "mset cs = mset points" "sorted (map (point_key (all_entries boot ks ke)) cs)"
  shows "points_ok (all_entries boot ks ke) (all_ends boot ke) cs" "length cs = 2 * length boot + 2"
proof -
  let ?es = "all_entries boot ks ke" and ?f = "all_ends boot ke" and ?n = "length boot"
  have ep: "entry_points ?es i = [start_point ?es i, end_point ?f i]" if "i < ?n" for i
    using that by (simp add: entry_points_def start_point_def end_point_def nth_append)
  have last: "\<lparr>cp_addr = ks, cp_entry = ?n\<rparr> = start_point ?es ?n" "\<lparr>cp_addr = ke, cp_entry = ?n\<rparr> = end_point ?f ?n"
    by (simp_all add: start_point_def end_point_def kernel_entry_of_def)
  have lt: "mb_addr_low (?es ! i) < ?f i" if "i < length ?es" for i
    using that b k by (cases "i < ?n") (auto simp: boot_ok_def nth_append kernel_entry_of_def)
  have pts: "points = concat (map (\<lambda>i. [start_point ?es i, end_point ?f i]) [0..<Suc ?n])"
  proof -
    have "map (entry_points ?es) [0..<?n] = map (\<lambda>i. [start_point ?es i, end_point ?f i]) [0..<?n]"
      using ep by simp
    then have "concat (map (entry_points ?es) [0..<?n]) = concat (map (\<lambda>i. [start_point ?es i, end_point ?f i]) [0..<?n])"
      by (rule arg_cong)
    then show ?thesis unfolding points last by simp
  qed
  have dis: "distinct (concat (map (\<lambda>i. [start_point ?es i, end_point ?f i]) [0..<j]))" if "j \<le> Suc ?n" for j
    using that
  proof (induction j)
    case (Suc j)
    then have "start_point ?es j \<noteq> end_point ?f j" using lt [of j] by (auto simp: start_point_def end_point_def)
    with Suc show ?case by (auto simp: start_point_def end_point_def)
  qed simp
  have "set cs = set points" using cs(1) by (rule mset_eq_setD)
  also have "\<dots> = start_point ?es ` {..<length ?es} \<union> end_point ?f ` {..<length ?es}"
  proof -
    have "set (concat (map (\<lambda>i. [start_point ?es i, end_point ?f i]) [0..<j]))
        = start_point ?es ` {..<j} \<union> end_point ?f ` {..<j}" for j
      by (induction j) (auto simp: lessThan_Suc)
    then show ?thesis unfolding pts by (metis length_append_singleton)
  qed
  finally have "set cs = start_point ?es ` {..<length ?es} \<union> end_point ?f ` {..<length ?es}" .
  moreover have "distinct cs" using dis [of "Suc ?n"] mset_eq_imp_distinct_iff [OF cs(1)] pts by simp
  ultimately show "points_ok ?es ?f cs" using lt cs(2) unfolding points_ok_def by blast
  have "length (concat (map (\<lambda>i. [start_point ?es i, end_point ?f i]) [0..<j])) = 2 * j" for j
    by (induction j) auto
  then have "length points = 2 * ?n + 2" unfolding pts by (metis mult_Suc_right add.commute)
  then show "length cs = 2 * ?n + 2" using mset_eq_length [OF cs(1)] by simp
qed

lemma sanitise_result:
  assumes b: "boot_ok boot" and k: "ks < ke" and n: "2 * length boot \<le> 128"
  shows "\<exists>R. sanitise arr boot ks ke = Some R \<and> regions_ok R \<and> (\<forall>a. region_type R a = mem_type boot ks ke a)"
proof -
  let ?es = "all_entries boot ks ke" and ?f = "all_ends boot ke"
  define points where "points = concat (map (entry_points ?es) [0..<length boot])
            @ [\<lparr>cp_addr = ks, cp_entry = length boot\<rparr>, \<lparr>cp_addr = ke, cp_entry = length boot\<rparr>]"
  obtain cs where cs: "sort_changes ?es points = Some cs" "mset cs = mset points" "sorted (map (point_key ?es) cs)"
    using sort_changes_result by blast
  note P = points_of_entries [OF b k points_def cs(2,3)]
  define st where "st = sweep_all ?es cs \<lparr>overlap = [], mmap = arr, mmap_id = 0, last_addr = 0, last_type = 0\<rparr>"
  have len: "length cs \<le> MAX_MMAP_SIZE" using P(2) n by (simp add: MAX_MMAP_SIZE_def MAX_BOOT_MMAP_SIZE_def)
  note R = sweep_result [OF P(1) len st_def]
  have "sanitise arr boot ks ke = Some (closed st)"
    using cs(1) unfolding sanitise_def st_def points_def Let_def by simp
  moreover have "region_type (closed st) a = mem_type boot ks ke a" for a
    using R(2) [of a] max_type_kernel [of ks a ke boot] max_type_boot [of ks a ke boot] by (auto simp: mem_type_def)
  ultimately show ?thesis using R(1) by (auto simp: regions_ok_def)
qed


text \<open>The frames of a free region are free memory.\<close>

lemma region_type_in:
  assumes R: "regions_ok R" and e: "e \<in> set R" "contains e a"
  shows "region_type R a = me_type e"
proof -
  obtain f where f: "find (\<lambda>e. contains e a) R = Some f"
    using e by (metis (mono_tags, lifting) find_None_iff not_Some_eq)
  then have F: "f \<in> set R" "contains f a" using find_SomeD by fast+
  obtain i j where ij: "i < length R" "R ! i = e" "j < length R" "R ! j = f" using e(1) F(1) by (metis in_set_conv_nth)
  have so: "sorted_wrt (\<lambda>e f. unat (me_address e) + unat (me_size e) \<le> unat (me_address f)) R"
    using R by (auto simp: regions_ok_def regions_below_def)
  have "\<not> i < j" using sorted_wrt_nth_less [OF so, of i j] ij e(2) F(2) by (auto simp: contains_def)
  moreover have "\<not> j < i" using sorted_wrt_nth_less [OF so, of j i] ij e(2) F(2) by (auto simp: contains_def)
  ultimately have "i = j" by simp
  then have "e = f" using ij by simp
  then show ?thesis using f by (simp add: region_type_def)
qed

lemma pos_mod_bound_nat: "x mod 4096 < (4096 :: nat)"
  by simp

lemma region_pages_contained:
  assumes "n \<in> set (region_pages e)" "a div 4096 = n"
  shows "contains e a" "me_type e = MMAP_TYPE_FREE"
proof -
  show t: "me_type e = MMAP_TYPE_FREE" using assms(1) by (simp add: region_pages_def split: if_splits)
  with assms(1) have "(unat (me_address e) + 4095) div 4096 \<le> n" "Suc n \<le> (unat (me_address e) + unat (me_size e)) div 4096"
    by (simp_all add: region_pages_def)
  then have "unat (me_address e) \<le> 4096 * n" "4096 * n + 4096 \<le> unat (me_address e) + unat (me_size e)"
    using mult_div_mod_eq [of 4096 "unat (me_address e) + 4095"]
      mult_div_mod_eq [of 4096 "unat (me_address e) + unat (me_size e)"]
      pos_mod_bound_nat [of "unat (me_address e) + 4095"] by linarith+
  moreover have "4096 * n \<le> a" "a < 4096 * n + 4096" using assms(2) mult_div_mod_eq [of 4096 a] pos_mod_bound_nat [of a] by linarith+
  ultimately show "contains e a" unfolding contains_def by linarith
qed


lemma region_pages_distinct:
  assumes "sorted_wrt (\<lambda>e f. unat (me_address e) + unat (me_size e) \<le> unat (me_address f)) R"
  shows "distinct (concat (map region_pages R))"
  using assms
proof (induction R)
  case (Cons e R)
  have "n \<notin> set (region_pages f)" if "n \<in> set (region_pages e)" "f \<in> set R" for n f
  proof
    assume "n \<in> set (region_pages f)"
    then have "contains e (4096 * n)" "contains f (4096 * n)" using region_pages_contained(1) that(1) by auto
    moreover have "unat (me_address e) + unat (me_size e) \<le> unat (me_address f)" using Cons.prems that(2) by simp
    ultimately show False by (simp add: contains_def)
  qed
  moreover have "distinct (region_pages e)" by (simp add: region_pages_def)
  ultimately show ?case using Cons by auto
qed simp

lemma region_pages_less:
  assumes "region_ok e" "n \<in> set (region_pages e)"
  shows "n < 1048576"
proof -
  have "contains e (4096 * n)" "me_type e = MMAP_TYPE_FREE" using region_pages_contained [OF assms(2), of "4096 * n"] by simp_all
  then show ?thesis using assms(1) unfolding contains_def region_ok_def by linarith
qed

lemma sanitised_regions_ok:
  assumes b: "boot_ok boot" "free_below boot" and k: "ks < ke" and n: "2 * length boot \<le> 128"
    and R: "sanitise arr boot ks ke = Some R" and e: "e \<in> set R"
  shows "region_ok e"
  unfolding region_ok_def
proof (intro impI)
  assume f: "me_type e = MMAP_TYPE_FREE"
  have ro: "regions_ok R" "\<And>a. region_type R a = mem_type boot ks ke a" using sanitise_result [OF b(1) k n, of arr] R by auto
  have "me_size e \<noteq> 0" using ro(1) e by (auto simp: regions_ok_def regions_below_def)
  then have pos: "0 < unat (me_size e)" by (simp add: unat_gt_0)
  have end_le: "a \<le> 0xFFFFEFFF" if "contains e a" for a
  proof -
    have "mem_type boot ks ke a = MMAP_TYPE_FREE" using region_type_in [OF ro(1) e that] ro(2) f by simp
    then obtain x where "x \<in> set boot" "entry_covers a x" "mb_type x = MMAP_TYPE_FREE"
      by (rule mem_type_covered) (simp_all add: MMAP_TYPE_FREE_def MMAP_TYPE_KERNEL_def)
    then show ?thesis using b(2) by (fastforce simp: free_below_def entry_covers_def)
  qed
  have "contains e (unat (me_address e))" "contains e (unat (me_address e) + unat (me_size e) - 1)"
    using pos by (simp_all add: contains_def)
  then show "unat (me_address e) \<le> 0xFFFFF000 \<and> unat (me_address e) + unat (me_size e) < 4294967296"
    using end_le [of "unat (me_address e)"] end_le [of "unat (me_address e) + unat (me_size e) - 1"] pos by linarith
qed

lemma free_pages_fit:
  assumes "regions_ok R" "\<forall>e \<in> set R. region_ok e"
  shows "distinct (concat (map region_pages R))" "length (concat (map region_pages R)) \<le> STACK_MAX"
proof -
  let ?ns = "concat (map region_pages R)"
  show d: "distinct ?ns" using region_pages_distinct assms(1) by (auto simp: regions_ok_def regions_below_def)
  have "set ?ns \<subseteq> {..<1048576}" using region_pages_less assms(2) by fastforce
  then have "card (set ?ns) \<le> 1048576" using card_mono [of "{..<1048576 :: nat}" "set ?ns"] by simp
  then show "length ?ns \<le> STACK_MAX" using distinct_card [OF d] by (simp add: STACK_MAX_def)
qed

text \<open>The whole of \<open>get_mmap\<close> on a map in memory.\<close>

lemma get_mmap_result:
  assumes flags: "flags AND MULTIBOOT_INFO_MEM_MAP \<noteq> 0"
    and mem: "map_at m (unat a) es (unat a + unat n)" "unat a + unat n < 4294967296" "length (low_entries es) \<le> 64"
    and ok: "boot_ok (low_entries es)" and k: "ks < ke"
  obtains R where "get_mmap arr m flags a n ks ke = Some R" "sanitise arr (low_entries es) ks ke = Some R" "regions_ok R"
    "\<And>x. region_type R x = mem_type (low_entries es) ks ke x"
proof -
  have "boot_walk m a (a + n) 0 = Some (low_entries es)" using boot_walk_map [OF mem(1,2), of 0] mem(3) by simp
  then show ?thesis using sanitise_result [OF ok k, of arr] mem(3) flags that by (auto simp: get_mmap_def)
qed

lemma get_mmap_panics:
  assumes "map_at m (unat a) es (unat a + unat n)" "unat a + unat n < 4294967296" "64 < length (low_entries es)"
  shows "get_mmap arr m flags a n ks ke = None"
  using boot_walk_map [OF assms(1,2), of 0] assms(3) by (simp add: get_mmap_def)

section \<open>Properties\<close>

text \<open>C29: The sort of the change points ends for every list: each pass that swaps removes an inversion. The result
  has the same change points, ordered by address, and at one address the starts before the ends.\<close>

theorem sort_changes_ends:
  "\<exists>r. sort_changes es cs = Some r \<and> mset r = mset cs \<and> sorted (map (point_key es) r)"
  by (rule sort_changes_result)

text \<open>C30: \<open>get_mmap\<close> on a map the boot loader has laid out in memory, entry after entry, up to the end it gives, which lies
  below 4 GiB. It is assumed that the kernel is not empty, and no entry that starts below 4 GiB either, as the code sees it:
  its end, at most 0xFFFFFFFF, is above its start. Without a map, or with more than 64 such entries, the kernel panics.
  Otherwise \<open>get_mmap\<close> returns non-empty regions in ascending order that do not overlap: the type they give an address
  is the kernel's type inside the kernel, otherwise the greatest type among the boot loader's entries that cover the
  address, and no region contains an address no entry covers.\<close>

theorem get_mmap_spec:
  assumes "map_at m (unat mmap_addr) es (unat mmap_addr + unat mmap_length)" "unat mmap_addr + unat mmap_length < 4294967296"
    and "boot_ok (low_entries es)" "ks < ke"
  shows "if flags AND MULTIBOOT_INFO_MEM_MAP = 0 \<or> 64 < length (low_entries es)
    then get_mmap arr m flags mmap_addr mmap_length ks ke = None
    else \<exists>R. get_mmap arr m flags mmap_addr mmap_length ks ke = Some R \<and> regions_ok R
      \<and> (\<forall>a. region_type R a = mem_type (low_entries es) ks ke a)"
proof (cases "flags AND MULTIBOOT_INFO_MEM_MAP = 0 \<or> 64 < length (low_entries es)")
  case True
  moreover have "flags AND MULTIBOOT_INFO_MEM_MAP = 0 \<Longrightarrow> get_mmap arr m flags mmap_addr mmap_length ks ke = None"
    by (simp add: get_mmap_def)
  ultimately have "get_mmap arr m flags mmap_addr mmap_length ks ke = None" using get_mmap_panics [OF assms(1,2)] by blast
  then show ?thesis using True by simp
next
  case False
  then have f: "flags AND MULTIBOOT_INFO_MEM_MAP \<noteq> 0" and n: "length (low_entries es) \<le> 64" by simp_all
  obtain R where "get_mmap arr m flags mmap_addr mmap_length ks ke = Some R" "regions_ok R"
    "\<And>x. region_type R x = mem_type (low_entries es) ks ke x"
    by (rule get_mmap_result [OF f assms(1,2) n assms(3,4), of arr]) (rule that)
  then show ?thesis using False by auto
qed

text \<open>C31: The frames pushed on the stack of free frames at boot are all different, and every byte of each of them is free
  memory by the boot loader's map and outside the kernel. This is so whenever \<open>get_mmap\<close> accepts the map, for a map as
  in C30 whose entries below 4 GiB are not empty and whose free entries end below the last page of the address space, for a
  kernel that is not empty, and for a stack that is empty before; then the frames also fit the stack.\<close>

theorem boot_frames_are_free:
  assumes mem: "map_at m (unat mmap_addr) es (unat mmap_addr + unat mmap_length)" "unat mmap_addr + unat mmap_length < 4294967296"
    and ok: "boot_ok (low_entries es)" "free_below (low_entries es)" "ks < ke"
    and R: "get_mmap arr m flags mmap_addr mmap_length ks ke = Some R"
    and s: "frames_rep s []"
  shows "\<exists>s' ns. push_regions R s = Some s' \<and> frames_rep s' (map page_addr ns) \<and> distinct ns
    \<and> (\<forall>n \<in> set ns. \<forall>a. a div 4096 = n \<longrightarrow> mem_type (low_entries es) ks ke a = MMAP_TYPE_FREE)"
proof -
  have f: "flags AND MULTIBOOT_INFO_MEM_MAP \<noteq> 0" and n: "length (low_entries es) \<le> 64"
    using R get_mmap_panics [OF mem, of arr flags ks ke] by (auto simp: get_mmap_def not_less [symmetric])
  obtain R' where R': "get_mmap arr m flags mmap_addr mmap_length ks ke = Some R'" "sanitise arr (low_entries es) ks ke = Some R'" "regions_ok R'"
    "\<And>x. region_type R' x = mem_type (low_entries es) ks ke x"
    by (rule get_mmap_result [OF f mem n ok(1,3), of arr]) (rule that)
  then have ro: "sanitise arr (low_entries es) ks ke = Some R" "regions_ok R" "\<And>x. region_type R x = mem_type (low_entries es) ks ke x"
    using R by auto
  have n2: "2 * length (low_entries es) \<le> 128" using n by simp
  have reg: "\<forall>e \<in> set R. region_ok e" using sanitised_regions_ok [OF ok n2 ro(1)] by blast
  let ?ns = "concat (map region_pages R)"
  note d = free_pages_fit [OF ro(2) reg]
  obtain s' where s': "push_regions R s = Some s'" "frames_rep s' ([] @ map page_addr ?ns)"
    using push_regions_rep [OF s reg] d(2) by auto
  have "mem_type (low_entries es) ks ke a = MMAP_TYPE_FREE" if n: "n \<in> set ?ns" and a: "a div 4096 = n" for n a
  proof -
    obtain e where e: "e \<in> set R" "n \<in> set (region_pages e)" using n by auto
    then show ?thesis
      using region_type_in [OF ro(2) e(1) region_pages_contained(1) [OF e(2) a]]
        region_pages_contained(2) [OF e(2) a] ro(3) by simp
  qed
  then show ?thesis using s' d(1) by auto
qed

section \<open>Empty entries\<close>

text \<open>The end of an empty entry is at its start, the code takes it for a second start, and the entry stays open. Here an
  empty free entry below the kernel makes a free region of everything from it to the kernel, memory no entry covers.\<close>

definition demo_arr :: "nat \<Rightarrow> mem_entry" where
  "demo_arr = (\<lambda>_. \<lparr>me_address = 0, me_size = 0, me_type = 0\<rparr>)"

definition empty_entry :: mb_entry where
  "empty_entry = \<lparr>mb_addr_low = 0x1000, mb_addr_high = 0, mb_len_low = 0, mb_len_high = 0, mb_type = MMAP_TYPE_FREE\<rparr>"

theorem empty_entry_stays_open:
  "sanitise demo_arr [empty_entry] 0x8000 0x9000 = Some [\<lparr>me_address = 0x1000, me_size = 0x7000, me_type = MMAP_TYPE_FREE\<rparr>,
     \<lparr>me_address = 0x8000, me_size = 0x1000, me_type = MMAP_TYPE_KERNEL\<rparr>]"
  "\<forall>a. \<not> (0x8000 \<le> a \<and> a < 0x9000) \<longrightarrow> mem_type [empty_entry] 0x8000 0x9000 a = 0"
proof -
  let ?es = "[empty_entry, kernel_entry_of 0x8000 0x9000]"
  let ?cs = "[\<lparr>cp_addr = 0x1000, cp_entry = 0\<rparr>, \<lparr>cp_addr = 0x1000, cp_entry = 0\<rparr>, \<lparr>cp_addr = 0x8000, cp_entry = 1\<rparr>, \<lparr>cp_addr = 0x9000, cp_entry = 1\<rparr>]"
  have s: "sort_changes ?es ?cs = Some ?cs"
    by (subst sort_changes.simps) (simp add: swap_needed_def is_start_def empty_entry_def kernel_entry_of_def)
  have p: "concat (map (entry_points ?es) [0..<length [empty_entry]])
      @ [\<lparr>cp_addr = 0x8000, cp_entry = length [empty_entry]\<rparr>, \<lparr>cp_addr = 0x9000, cp_entry = length [empty_entry]\<rparr>] = ?cs"
    by (simp add: empty_entry_def entry_points_def entry_end_def)
  show "sanitise demo_arr [empty_entry] 0x8000 0x9000 = Some [\<lparr>me_address = 0x1000, me_size = 0x7000, me_type = MMAP_TYPE_FREE\<rparr>,
     \<lparr>me_address = 0x8000, me_size = 0x1000, me_type = MMAP_TYPE_KERNEL\<rparr>]"
    using p s unfolding sanitise_def Let_def
    by (simp add: empty_entry_def kernel_entry_of_def sweep_step_def is_start_def max_type_def close_region_def open_region_def overlap_remove_def
      demo_arr_def Let_def MMAP_TYPE_KERNEL_def MMAP_TYPE_FREE_def MAX_MMAP_SIZE_def MAX_BOOT_MMAP_SIZE_def)
  show "\<forall>a. \<not> (0x8000 \<le> a \<and> a < 0x9000) \<longrightarrow> mem_type [empty_entry] 0x8000 0x9000 a = 0"
    by (auto simp: mem_type_def empty_entry_def entry_covers_def entry_end_def)
qed

section \<open>A concrete map\<close>

text \<open>The map the emulator's firmware reports for a machine of 128 MiB, as the repository runs it (\<open>qemu -m 128M\<close>), in
  memory at 0x1000.\<close>

definition demo_entry :: "u32 \<Rightarrow> u32 \<Rightarrow> u32 \<Rightarrow> mb_entry" where
  "demo_entry a n t = \<lparr>mb_addr_low = a, mb_addr_high = 0, mb_len_low = n, mb_len_high = 0, mb_type = t\<rparr>"

definition demo_boot :: "mb_entry list" where
  "demo_boot = [demo_entry 0 0x9FC00 1, demo_entry 0x9FC00 0x400 2, demo_entry 0xF0000 0x10000 2,
     demo_entry 0x100000 0x7EE0000 1, demo_entry 0x7FE0000 0x20000 2, demo_entry 0xFFFC0000 0x40000 2]"

definition demo_map :: mem where
  "demo_map = fold (\<lambda>(a, v) m. st32 m a v)
     [(0x1000, 20), (0x100C, 0x9FC00), (0x1014, 1), (0x1018, 20), (0x101C, 0x9FC00), (0x1024, 0x400), (0x102C, 2),
      (0x1030, 20), (0x1034, 0xF0000), (0x103C, 0x10000), (0x1044, 2), (0x1048, 20), (0x104C, 0x100000), (0x1054, 0x7EE0000), (0x105C, 1),
      (0x1060, 20), (0x1064, 0x7FE0000), (0x106C, 0x20000), (0x1074, 2), (0x1078, 20), (0x107C, 0xFFFC0000), (0x1084, 0x40000), (0x108C, 2)] (\<lambda>_. 0)"

lemma demo_ld32:
  "ld32 demo_map 0x1000 = 20" "ld32 demo_map 0x1018 = 20" "ld32 demo_map 0x1030 = 20" "ld32 demo_map 0x1048 = 20"
  "ld32 demo_map 0x1060 = 20" "ld32 demo_map 0x1078 = 20"
  by (simp_all add: demo_map_def ld32_st32_apart)

lemma demo_entries:
  "read_entry demo_map 0x1000 = demo_boot ! 0" "read_entry demo_map 0x1018 = demo_boot ! 1" "read_entry demo_map 0x1030 = demo_boot ! 2"
  "read_entry demo_map 0x1048 = demo_boot ! 3" "read_entry demo_map 0x1060 = demo_boot ! 4" "read_entry demo_map 0x1078 = demo_boot ! 5"
  by (simp_all add: demo_map_def read_entry_def demo_boot_def demo_entry_def ld32_st32_apart ld32_def [of "\<lambda>_. 0"])

text \<open>Any memory that agrees with it there holds the map.\<close>

lemma demo_map_at:
  assumes "\<And>x. unat x < 0x2000 \<Longrightarrow> m x = demo_map x"
  shows "map_at m (unat (0x1000 :: addr)) demo_boot (unat (0x1000 :: addr) + unat (0x90 :: u32))"
proof -
  have eq: "ld32 m a = ld32 demo_map a" if "unat a + 3 < 0x2000" for a
    using that by (intro ld32_cong assms) (use unat_plus_of_nat [of a 1] unat_plus_of_nat [of a 2] unat_plus_of_nat [of a 3] in simp_all)
  have rd: "read_entry m a = read_entry demo_map a" if "unat a + 24 < 0x2000" for a
    using that by (simp add: read_entry_def eq unat_word_ariths)
  show ?thesis using demo_ld32 demo_entries by (simp add: demo_boot_def eq rd)
qed

lemma demo_boot_ok: "boot_ok demo_boot" "free_below demo_boot" "low_entries demo_boot = demo_boot" "length demo_boot = 6"
  by (simp_all add: boot_ok_def free_below_def low_entries_def demo_boot_def demo_entry_def entry_end_def MMAP_TYPE_FREE_def PHYS_BYTES_MAX_def)

theorem get_mmap_spec_witness:
  "\<exists>R. get_mmap demo_arr demo_map 0x40 0x1000 0x90 0x100000 0x204000 = Some R \<and> regions_ok R
    \<and> region_type R 0x9FBFF = 1 \<and> region_type R 0x100000 = MMAP_TYPE_KERNEL \<and> region_type R 0xFFFC0000 = 2 \<and> region_type R 0xA0000 = 0"
proof -
  have k: "(0x100000 :: u32) < 0x204000" "\<not> (0x40 AND MULTIBOOT_INFO_MEM_MAP = 0 \<or> 64 < length (low_entries demo_boot))"
    by (simp_all add: MULTIBOOT_INFO_MEM_MAP_def demo_boot_ok)
  obtain R where R: "get_mmap demo_arr demo_map 0x40 0x1000 0x90 0x100000 0x204000 = Some R" "regions_ok R"
      "\<And>a. region_type R a = mem_type demo_boot 0x100000 0x204000 a"
    using get_mmap_spec [OF demo_map_at _ _ k(1), of demo_map "0x40" demo_arr] k(2) demo_boot_ok by auto
  then show ?thesis by (simp add: mem_type_def demo_boot_def demo_entry_def entry_covers_def entry_end_def PHYS_BYTES_MAX_def)
qed

theorem boot_frames_are_free_witness:
  "\<exists>R s' ns. get_mmap demo_arr demo_map 0x40 0x1000 0x90 0x100000 0x204000 = Some R
    \<and> push_regions R demo_paging0 = Some s' \<and> frames_rep s' (map page_addr ns) \<and> distinct ns"
proof -
  have k: "(0x100000 :: u32) < 0x204000" "0x40 AND MULTIBOOT_INFO_MEM_MAP \<noteq> 0" by (simp_all add: MULTIBOOT_INFO_MEM_MAP_def)
  have ok: "boot_ok (low_entries demo_boot)" "free_below (low_entries demo_boot)" "length (low_entries demo_boot) \<le> 64"
    by (simp_all add: demo_boot_ok)
  have at: "map_at demo_map (unat (0x1000 :: addr)) demo_boot (unat (0x1000 :: addr) + unat (0x90 :: u32))"
    "unat (0x1000 :: addr) + unat (0x90 :: u32) < 4294967296"
    by (rule demo_map_at) simp_all
  obtain R where R: "get_mmap demo_arr demo_map 0x40 0x1000 0x90 0x100000 0x204000 = Some R"
    by (rule get_mmap_result [OF k(2) at ok(3,1) k(1), of demo_arr])
  from boot_frames_are_free [OF at ok(1,2) k(1) R demo_frames0] R show ?thesis by blast
qed

end
