(* ===== verification/KStdio.thy ===== *)
theory KStdio
  imports KLibk KString
begin

text \<open>
  Formatted output (\<open>kstdio/kprintf.c\<close>, \<open>kputchar.c\<close>, \<open>kputs.c\<close>, \<open>kstdlib/kabort.c\<close>). Characters go
  to the registered \<open>putc\<close> callback, a function on the state \<open>'w\<close> of its owner. The variable
  arguments are the list of the 32-bit words on the stack; \<open>va_arg\<close> takes the next one. The memory
  \<open>m\<close> holds the format and the strings and does not change while they are printed; the buffers on
  \<open>kprintf\<close>'s own stack are lists. \<open>None\<close> is a format that asks for an argument that is not there,
  or a string without end.
\<close>

section \<open>Operations\<close>

definition kputchar :: "'w callbacks \<Rightarrow> u32 \<Rightarrow> 'w \<Rightarrow> u32 \<times> 'w" where
  "kputchar cb ic w = (ic, PUTC_CALLBACK cb (ucast ic) w)"

definition print :: "'w callbacks \<Rightarrow> u8 list \<Rightarrow> 'w \<Rightarrow> 'w" where
  "print cb data w = fold (\<lambda>c w. snd (kputchar cb (ucast c) w)) data w"

partial_function (option) i_convert :: "u64 \<Rightarrow> u32 \<Rightarrow> int \<Rightarrow> u8 list option" where
  "i_convert val base digits =
     (let d = val mod scast base; val = val div scast base;
          c = (if 9 < sint (ucast d :: u32) then 0x61 + ucast d - 10 else 0x30 + ucast d)
      in if val \<noteq> 0 \<or> 1 < digits
         then Option.bind (i_convert val base (digits - 1)) (\<lambda>s. Some (s @ [c]))
         else Some [c])"

definition i_print :: "'w callbacks \<Rightarrow> u64 \<Rightarrow> u32 \<Rightarrow> 'w \<Rightarrow> (u32 \<times> 'w) option" where
  "i_print cb val base w =
     (case i_convert val base 1 of None \<Rightarrow> None
      | Some buff \<Rightarrow> Some (of_nat (length buff), print cb buff w))"

text \<open>One conversion: the body of the switch, at the address \<open>f\<close> of the character after the percent
  sign. The result is the value of \<open>format\<close> after the switch, the arguments left, the count and
  the state.\<close>

type_synonym 'w progress = "addr \<times> u32 list \<times> u32 \<times> 'w"

fun va_arg :: "u32 list \<Rightarrow> (u32 \<times> u32 list) option" where
  "va_arg [] = None"
| "va_arg (a # args) = Some (a, args)"

definition print_number :: "'w callbacks \<Rightarrow> u32 \<Rightarrow> addr \<Rightarrow> u32 list \<Rightarrow> u32 \<Rightarrow> 'w \<Rightarrow> 'w progress option" where
  "print_number cb base f args written w =
     (case va_arg args of None \<Rightarrow> None
      | Some (u, args) \<Rightarrow> (case i_print cb (ucast u) base w of None \<Rightarrow> None
         | Some (k, w) \<Rightarrow> Some (f, args, written + k, w)))"

text \<open>The negation of the least integer is undefined.\<close>

definition print_signed :: "'w callbacks \<Rightarrow> addr \<Rightarrow> u32 list \<Rightarrow> u32 \<Rightarrow> 'w \<Rightarrow> 'w progress option" where
  "print_signed cb f args written w =
     (case va_arg args of None \<Rightarrow> None
      | Some (i, args) \<Rightarrow> if i = 0x80000000 then None else
          (let (i, written, w) = (if sint i < 0 then (- i, written + 1, print cb [0x2D] w) else (i, written, w))
           in case i_print cb (scast i) 10 w of None \<Rightarrow> None
              | Some (k, w) \<Rightarrow> Some (f, args, written + k, w)))"

definition print_string :: "mem \<Rightarrow> 'w callbacks \<Rightarrow> addr \<Rightarrow> u32 list \<Rightarrow> u32 \<Rightarrow> 'w \<Rightarrow> 'w progress option" where
  "print_string m cb f args written w =
     (case va_arg args of None \<Rightarrow> None
      | Some (s, args) \<Rightarrow> (case kstrlen m s of None \<Rightarrow> None
         | Some len \<Rightarrow> Some (f, args, written + len, print cb (read_bytes m s (unat len)) w)))"

definition print_char :: "'w callbacks \<Rightarrow> addr \<Rightarrow> u32 list \<Rightarrow> u32 \<Rightarrow> 'w \<Rightarrow> 'w progress option" where
  "print_char cb f args written w =
     (case va_arg args of None \<Rightarrow> None
      | Some (c, args) \<Rightarrow> Some (f, args, written + 1, print cb [ucast c] w))"

definition print_other :: "mem \<Rightarrow> 'w callbacks \<Rightarrow> addr \<Rightarrow> u32 list \<Rightarrow> u32 \<Rightarrow> 'w \<Rightarrow> 'w progress option" where
  "print_other m cb f args written w =
     (let (written, w) = (if m f \<noteq> 0x25 then (written + 1, print cb [0x25] w) else (written, w))
      in Some (f, args, written + 1, print cb [m f] w))"

definition conversion :: "mem \<Rightarrow> 'w callbacks \<Rightarrow> addr \<Rightarrow> u32 list \<Rightarrow> u32 \<Rightarrow> 'w \<Rightarrow> 'w progress option" where
  "conversion m cb f args written w =
     (let c = m f in
      if c = 0x63 then print_char cb f args written w
      else if c = 0x73 then print_string m cb f args written w
      else if c = 0x64 \<or> c = 0x69 then print_signed cb f args written w
      else if c = 0x75 then print_number cb 10 f args written w
      else if c = 0x78 \<or> c = 0x70 then print_number cb 16 f args written w
      else if c = 0x6F then print_number cb 8 f args written w
      else if c = 0 then Some (f - 1, args, written, w)
      else print_other m cb f args written w)"

partial_function (option) literal_end :: "mem \<Rightarrow> addr \<Rightarrow> u32 \<Rightarrow> u32 option" where
  "literal_end m format amount =
     (if m (format + amount) \<noteq> 0 \<and> m (format + amount) \<noteq> 0x25
      then literal_end m format (amount + 1) else Some amount)"

partial_function (option) kprintf_loop ::
    "mem \<Rightarrow> 'w callbacks \<Rightarrow> addr \<Rightarrow> u32 list \<Rightarrow> u32 \<Rightarrow> 'w \<Rightarrow> (u32 \<times> 'w) option" where
  "kprintf_loop m cb format args written w =
     (if m format = 0 then Some (written, w)
      else if m format = 0x25 then
        Option.bind (conversion m cb (format + 1) args written w)
          (\<lambda>(format, args, written, w). kprintf_loop m cb (format + 1) args written w)
      else
        Option.bind (literal_end m format 0)
          (\<lambda>amount. kprintf_loop m cb (format + amount) args (written + amount)
             (print cb (read_bytes m format (unat amount)) w)))"

definition kprintf :: "mem \<Rightarrow> 'w callbacks \<Rightarrow> addr \<Rightarrow> u32 list \<Rightarrow> 'w \<Rightarrow> (u32 \<times> 'w) option" where
  "kprintf m cb format args w = kprintf_loop m cb format args 0 w"

text \<open>\<open>lit\<close> is the address of the literal the function passes to \<open>kprintf\<close>: for \<open>kputs\<close> a string
  conversion and a new line, for \<open>kabort\<close> its message. \<open>kabort\<close> does not return: its result is the
  state in which it stays for ever.\<close>

definition kputs :: "mem \<Rightarrow> 'w callbacks \<Rightarrow> addr \<Rightarrow> addr \<Rightarrow> 'w \<Rightarrow> (u32 \<times> 'w) option" where
  "kputs m cb lit str w = kprintf m cb lit [str] w"

definition kabort :: "mem \<Rightarrow> 'w callbacks \<Rightarrow> addr \<Rightarrow> 'w \<Rightarrow> 'w option" where
  "kabort m cb lit w = (case kprintf m cb lit [] w of None \<Rightarrow> None | Some (_, w) \<Rightarrow> Some (ABORT_CALLBACK cb w))"

section \<open>Numbers in a base\<close>

definition digit_char :: "nat \<Rightarrow> u8" where
  "digit_char d = (if d < 10 then of_nat (48 + d) else of_nat (87 + d))"

definition char_digit :: "u8 \<Rightarrow> nat" where
  "char_digit c = (if unat c < 58 then unat c - 48 else unat c - 87)"

fun digits_of :: "nat \<Rightarrow> nat \<Rightarrow> u8 list" where
  "digits_of b n = (if b < 2 \<or> n < b then [digit_char n] else digits_of b (n div b) @ [digit_char (n mod b)])"

declare digits_of.simps [simp del]

definition read_number :: "nat \<Rightarrow> u8 list \<Rightarrow> nat" where
  "read_number b cs = foldl (\<lambda>v c. b * v + char_digit c) 0 cs"

lemma char_digit_char: "d < 36 \<Longrightarrow> char_digit (digit_char d) = d"
  by (auto simp: char_digit_def digit_char_def unat_of_nat simp del: of_nat_add)

lemma read_number_digits: "\<lbrakk>2 \<le> b; b \<le> 36\<rbrakk> \<Longrightarrow> read_number b (digits_of b n) = n"
proof (induction b n rule: digits_of.induct)
  case (1 b n)
  show ?case
  proof (cases "n < b")
    case True
    with 1 show ?thesis by (subst digits_of.simps) (simp add: read_number_def char_digit_char)
  next
    case False
    with 1 have "read_number b (digits_of b (n div b)) = n div b" by simp
    moreover have "n mod b < 36" by (rule less_le_trans [OF mod_less_divisor]) (use 1(2,3) in simp_all)
    ultimately show ?thesis using 1 False
      by (subst digits_of.simps) (simp add: read_number_def char_digit_char)
  qed
qed

lemma digits_of_length: "\<lbrakk>2 \<le> b; n < b ^ Suc k\<rbrakk> \<Longrightarrow> length (digits_of b n) \<le> Suc k"
proof (induction k arbitrary: n)
  case 0
  then show ?case by (subst digits_of.simps) simp
next
  case (Suc k)
  then have "n div b < b ^ Suc k" by (simp add: less_mult_imp_div_less mult.commute)
  with Suc show ?case by (subst digits_of.simps) simp
qed

lemma i_convert_char:
  assumes "unat (d :: u64) < 36"
  shows "(if 9 < sint (ucast d :: u32) then 0x61 + ucast d - 10 else 0x30 + ucast d) = digit_char (unat d)"
proof -
  define x where "x = unat d"
  have d: "d = of_nat x" by (simp add: x_def)
  have x: "x < 36" using assms by (simp add: x_def)
  have "unat (ucast d :: u32) = x" using x by (simp add: d unat_of_nat unsigned_ucast_eq take_bit_nat_eq_self)
  then have s: "sint (ucast d :: u32) = int x" using x by (simp add: sint_u32)
  have u: "(ucast d :: u8) = of_nat x" using x by (simp add: d unsigned_of_nat take_bit_nat_eq_self)
  show ?thesis unfolding s u x_def [symmetric] by (simp add: digit_char_def)
qed

lemma i_convert_digits:
  assumes base: "scast base = (of_nat b :: u64)" and b: "2 \<le> b" "b \<le> 36"
  shows "k \<le> 1 \<Longrightarrow> i_convert v base k = Some (digits_of b (unat v))"
proof (induction "unat v" arbitrary: v k rule: less_induct)
  case less
  have ub: "unat (of_nat b :: u64) = b" using b by (simp add: unat_of_nat)
  have d: "unat (v mod scast base) = unat v mod b" "unat (v div scast base) = unat v div b"
    by (simp_all add: base unat_mod_distrib unat_div_distrib ub)
  have "unat (v mod scast base) < 36" unfolding d by (rule less_le_trans [OF mod_less_divisor]) (use b in simp_all)
  note c = i_convert_char [OF this]
  have z: "v div scast base \<noteq> 0 \<longleftrightarrow> \<not> unat v < b"
    using d(2) b unat_gt_0 [of "v div scast base"] by (auto simp: div_eq_0_iff)
  show ?case
  proof (cases "unat v < b")
    case True
    with z less.prems c d b show ?thesis
      by (subst i_convert.simps, subst digits_of.simps) (simp add: Let_def)
  next
    case False
    then have "i_convert (v div scast base) base (k - 1) = Some (digits_of b (unat v div b))"
      using less.hyps [of "v div scast base" "k - 1"] less.prems d(2) b by simp
    with False z c d b show ?thesis
      by (subst i_convert.simps, subst digits_of.simps) (simp add: Let_def)
  qed
qed


lemma print_fold: "print cb data w = fold (PUTC_CALLBACK cb) data w"
proof -
  have "ucast (ucast c :: u32) = c" for c :: u8
    by (rule bit_word_eqI) (simp add: bit_simps)
  then show ?thesis by (simp add: print_def kputchar_def)
qed

lemma print_Nil [simp]: "print cb [] w = w"
  by (simp add: print_fold)

lemma print_append [simp]: "print cb (xs @ ys) w = print cb ys (print cb xs w)"
  by (simp add: print_fold)

lemma i_print_digits:
  assumes "scast base = (of_nat b :: u64)" "2 \<le> b" "b \<le> 36"
  shows "i_print cb v base w =
    Some (of_nat (length (digits_of b (unat v))), print cb (digits_of b (unat v)) w)"
  using i_convert_digits [OF assms, of 1 v] by (simp add: i_print_def)

section \<open>The text a format stands for\<close>

text \<open>\<open>str a\<close> is the string at \<open>a\<close>, if there is one. Negating the least integer has no meaning in C, so
  a \<open>%d\<close> of it stands for no text.\<close>

definition show_int :: "int \<Rightarrow> u8 list" where
  "show_int i = (if i < 0 then 0x2D # digits_of 10 (nat (- i)) else digits_of 10 (nat i))"

fun piece :: "(addr \<Rightarrow> u8 list option) \<Rightarrow> u8 \<Rightarrow> u32 list \<Rightarrow> (u8 list \<times> u32 list) option" where
  "piece str k (a # args) =
     (if k = 0x63 then Some ([ucast a], args)
      else if k = 0x73 then map_option (\<lambda>s. (s, args)) (str a)
      else if k = 0x64 \<or> k = 0x69 then (if a = 0x80000000 then None else Some (show_int (sint a), args))
      else if k = 0x75 then Some (digits_of 10 (unat a), args)
      else if k = 0x78 \<or> k = 0x70 then Some (digits_of 16 (unat a), args)
      else if k = 0x6F then Some (digits_of 8 (unat a), args)
      else Some (if k = 0x25 then [k] else [0x25, k], a # args))"
| "piece str k [] =
     (if k \<in> {0x63, 0x73, 0x64, 0x69, 0x75, 0x78, 0x70, 0x6F} then None
      else Some (if k = 0x25 then [k] else [0x25, k], []))"

fun render :: "(addr \<Rightarrow> u8 list option) \<Rightarrow> u8 list \<Rightarrow> u32 list \<Rightarrow> u8 list option" where
  "render str [] args = Some []"
| "render str (c # cs) args =
     (if c \<noteq> 0x25 then map_option ((#) c) (render str cs args)
      else case cs of [] \<Rightarrow> Some []
        | k # cs \<Rightarrow> (case piece str k args of None \<Rightarrow> None
            | Some (out, args) \<Rightarrow> map_option ((@) out) (render str cs args)))"

lemma scast_base: "scast (10 :: u32) = (of_nat 10 :: u64)" "scast (16 :: u32) = (of_nat 16 :: u64)"
  "scast (8 :: u32) = (of_nat 8 :: u64)"
  by simp_all

lemma print_number_digits:
  assumes "scast base = (of_nat b :: u64)" "2 \<le> b" "b \<le> 36"
  shows "print_number cb base f (a # args) written w =
    Some (f, args, written + of_nat (length (digits_of b (unat a))), print cb (digits_of b (unat a)) w)"
proof -
  have "unat (ucast a :: u64) = unat a"
    using unat_lt_2p32 [of a] by (simp add: unsigned_ucast_eq take_bit_nat_eq_self)
  then show ?thesis by (simp add: print_number_def i_print_digits [OF assms])
qed

lemma unat_scast_nonneg: "unat a < 2147483648 \<Longrightarrow> unat (scast (a :: u32) :: u64) = unat a"
proof -
  define x where "x = unat a"
  assume "unat a < 2147483648"
  then have "sint a = int x" "x < 2147483648" by (simp_all add: sint_u32 x_def)
  then have "scast a = (of_nat x :: u64)" by (metis of_int_of_nat_eq scast_eq)
  with \<open>x < 2147483648\<close> show ?thesis by (simp add: unat_of_nat flip: x_def)
qed

lemma print_signed_digits:
  "a \<noteq> 0x80000000 \<Longrightarrow> print_signed cb f (a # args) written w =
    (let out = (if sint a < 0 then 0x2D # digits_of 10 (unat (scast (- a) :: u64)) else digits_of 10 (unat a))
     in Some (f, args, written + of_nat (length out), print cb out w))"
  using print_append [of cb "[0x2D]" "digits_of 10 (unat (scast (- a) :: u64))" w] unat_scast_nonneg [of a]
  by (simp add: print_signed_def i_print_digits [OF scast_base(1)] Let_def sint_less_0)

lemma show_int_signed:
  assumes "a \<noteq> (0x80000000 :: u32)"
  shows "(if sint a < 0 then 0x2D # digits_of 10 (unat (scast (- a) :: u64)) else digits_of 10 (unat a)) = show_int (sint a)"
proof (cases "unat a < 2147483648")
  case True
  then show ?thesis unfolding show_int_def by (simp add: sint_u32)
next
  case False
  have "unat a \<noteq> 2147483648"
  proof
    assume "unat a = 2147483648"
    then have "a = of_nat 2147483648" by (metis of_nat_unat ucast_id unsigned_of_nat)
    with assms show False by simp
  qed
  moreover have "unat (- a) = 4294967296 - unat a" using False unat_uminus [of a] unat_gt_0 [of a] by simp
  moreover define x where "x = unat a"
  ultimately have x: "unat (- a) = 4294967296 - x" "4294967296 - x < 2147483648" "\<not> x < 2147483648"
    "x < 4294967296" using False unat_lt_2p32 [of a] by auto
  have "unat (scast (- a) :: u64) = 4294967296 - x" using x by (simp add: unat_scast_nonneg)
  moreover have "nat (4294967296 - int x) = 4294967296 - x" using x(4) by simp
  ultimately show ?thesis unfolding show_int_def sint_u32 x_def [symmetric] using x(3,4) by simp
qed

lemma print_signed_show:
  assumes "a \<noteq> 0x80000000"
  shows "print_signed cb f (a # args) written w =
    Some (f, args, written + of_nat (length (show_int (sint a))), print cb (show_int (sint a)) w)"
  unfolding print_signed_digits [OF assms] show_int_signed [OF assms] by (simp add: Let_def)

lemma print_string_cstr:
  assumes "cstr m a xs"
  shows "print_string m cb f (a # args) written w =
    Some (f, args, written + of_nat (length xs), print cb xs w)"
proof -
  have "kstrlen m a = Some (of_nat (length xs))" using str_end_cstr [OF assms] by (simp add: kstrlen_def)
  moreover have "unat (of_nat (length xs) :: u32) = length xs"
    using cstr_bounded [OF assms] by (simp add: unat_of_nat)
  ultimately show ?thesis using cstr_read [OF assms] by (simp add: print_string_def)
qed

lemma conversion_piece:
  assumes str: "\<And>a xs. str a = Some xs \<Longrightarrow> cstr m a xs"
    and p: "piece str (m f) args = Some (out, args')" and nz: "m f \<noteq> 0"
  shows "conversion m cb f args written w = Some (f, args', written + of_nat (length out), print cb out w)"
proof -
  show ?thesis
  proof (cases args)
    case Nil
    with p nz show ?thesis
      using print_append [of cb "[0x25]" "[m f]" w]
      by (auto simp: conversion_def print_other_def Let_def split: if_splits)
  next
    case (Cons a as)
    consider (c) "m f = 0x63" | (s) "m f = 0x73" | (d) "m f = 0x64 \<or> m f = 0x69" | (u) "m f = 0x75"
      | (x) "m f = 0x78 \<or> m f = 0x70" | (o) "m f = 0x6F"
      | (other) "m f \<notin> {0x63, 0x73, 0x64, 0x69, 0x75, 0x78, 0x70, 0x6F}" by blast
    then show ?thesis
    proof cases
      case c with p Cons show ?thesis by (auto simp: conversion_def print_char_def)
    next
      case s with p Cons str show ?thesis by (auto simp: conversion_def print_string_cstr)
    next
      case d with p Cons show ?thesis
        by (auto simp: conversion_def print_signed_show split: if_splits)
    next
      case u with p Cons show ?thesis
        using print_number_digits [OF scast_base(1)] by (auto simp: conversion_def)
    next
      case x with p Cons show ?thesis
        using print_number_digits [OF scast_base(2)] by (auto simp: conversion_def)
    next
      case o with p Cons show ?thesis
        using print_number_digits [OF scast_base(3)] by (auto simp: conversion_def)
    next
      case other with p Cons nz show ?thesis
        using print_append [of cb "[0x25]" "[m f]" w]
      by (auto simp: conversion_def print_other_def Let_def split: if_splits)
    qed
  qed
qed

lemma literal_end_cstr:
  "cstr m (p + k) fs \<Longrightarrow> literal_end m p k = Some (k + of_nat (length (takeWhile (\<lambda>c. c \<noteq> 0x25) fs)))"
proof (induction fs arbitrary: k)
  case Nil
  then show ?case by (subst literal_end.simps) simp
next
  case (Cons c fs)
  then have "c \<noteq> 0x25 \<Longrightarrow> literal_end m p (k + 1) = Some (k + 1 + of_nat (length (takeWhile (\<lambda>c. c \<noteq> 0x25) fs)))"
    by (simp add: add.assoc)
  with Cons.prems show ?case by (subst literal_end.simps) simp
qed

lemma cstr_append: "cstr m a (xs @ ys) \<longleftrightarrow> read_bytes m a (length xs) = xs \<and> 0 \<notin> set xs \<and> cstr m (a + of_nat (length xs)) ys"
  by (induction xs arbitrary: a) (auto simp: algebra_simps)

lemma render_literal:
  "\<forall>c \<in> set xs. c \<noteq> 0x25 \<Longrightarrow> render str (xs @ ys) args = map_option ((@) xs) (render str ys args)"
  by (cases "render str ys args"; induction xs) auto

lemma kprintf_loop_renders:
  assumes str: "\<And>a xs. str a = Some xs \<Longrightarrow> cstr m a xs"
  shows "\<lbrakk>cstr m p fmt; render str fmt args = Some out\<rbrakk> \<Longrightarrow>
    kprintf_loop m cb p args written w = Some (written + of_nat (length out), print cb out w)"
proof (induction "length fmt" arbitrary: p fmt args out written w rule: less_induct)
  case less
  note IH = less.hyps and fmt = less.prems(1) and out = less.prems(2)
  show ?case
  proof (cases fmt)
    case Nil
    with fmt out show ?thesis by (subst kprintf_loop.simps) simp
  next
    case (Cons c cs)
    then have c: "m p = c" "c \<noteq> 0" "cstr m (p + 1) cs" using fmt by auto
    show ?thesis
    proof (cases "c = 0x25")
      case percent: True
      show ?thesis
      proof (cases cs)
        case Nil
        then have "conversion m cb (p + 1) args written w = Some (p, args, written, w)"
          using c by (simp add: conversion_def)
        moreover have "kprintf_loop m cb (p + 1) args written w = Some (written, w)"
          using Nil c by (subst kprintf_loop.simps) simp
        ultimately show ?thesis using out Cons Nil percent c by (subst kprintf_loop.simps) simp
      next
        case (Cons k ks)
        with percent out \<open>fmt = c # cs\<close> obtain out1 args1 out2 where
          p1: "piece str k args = Some (out1, args1)" and r: "render str ks args1 = Some out2" "out = out1 @ out2"
          by (auto split: option.splits)
        have k: "m (p + 1) = k" "k \<noteq> 0" "cstr m (p + 1 + 1) ks" using c Cons by auto
        have "conversion m cb (p + 1) args written w =
            Some (p + 1, args1, written + of_nat (length out1), print cb out1 w)"
          by (rule conversion_piece [where str = str]) (use str p1 k(1,2) in auto)
        moreover have "kprintf_loop m cb (p + 1 + 1) args1 (written + of_nat (length out1)) (print cb out1 w) =
            Some (written + of_nat (length out1) + of_nat (length out2), print cb out2 (print cb out1 w))"
          using \<open>fmt = c # cs\<close> Cons by (intro IH [OF _ k(3) r(1)]) simp
        ultimately show ?thesis using percent c r(2) by (subst kprintf_loop.simps) (simp add: algebra_simps)
      qed
    next
      case literal: False
      define xs where "xs = takeWhile (\<lambda>c. c \<noteq> 0x25) fmt"
      define ys where "ys = dropWhile (\<lambda>c. c \<noteq> 0x25) fmt"
      have eq: "fmt = xs @ ys" by (simp add: xs_def ys_def)
      have "xs \<noteq> []" using Cons literal by (simp add: xs_def)
      then have shorter: "length ys < length fmt" unfolding eq by simp
      have "\<forall>x \<in> set xs. x \<noteq> 0x25" by (auto simp: xs_def dest: set_takeWhileD)
      then obtain out2 where o: "render str ys args = Some out2" "out = xs @ out2"
        using out render_literal [of xs str ys args] by (auto simp: eq)
      have m: "read_bytes m p (length xs) = xs" "cstr m (p + of_nat (length xs)) ys"
        using fmt by (auto simp: eq cstr_append)
      have l: "literal_end m p 0 = Some (of_nat (length xs))"
        using literal_end_cstr [of m p 0 fmt] fmt by (simp add: xs_def)
      have "length xs < 2 ^ 32" using cstr_bounded [OF fmt] by (simp add: eq)
      then have u: "unat (of_nat (length xs) :: u32) = length xs" by (simp add: unat_of_nat)
      have "kprintf_loop m cb (p + of_nat (length xs)) args (written + of_nat (length xs)) (print cb xs w) =
          Some (written + of_nat (length xs) + of_nat (length out2), print cb out2 (print cb xs w))"
        by (rule IH [OF shorter m(2) o(1)])
      then show ?thesis using c literal l u m(1) o(2) by (subst kprintf_loop.simps) (simp add: algebra_simps)
    qed
  qed
qed

lemma kprintf_result:
  assumes "\<And>a xs. str a = Some xs \<Longrightarrow> cstr m a xs" "cstr m format fmt" "render str fmt args = Some out"
  shows "kprintf m cb format args w = Some (of_nat (length out), fold (PUTC_CALLBACK cb) out w)"
  using kprintf_loop_renders [OF assms(1,2,3), of cb 0 w] by (simp add: kprintf_def print_fold)

section \<open>Properties\<close>

text \<open>C33: \<open>kprintf\<close> sends to the putc callback, in order, exactly the characters of the text the format
  and its arguments stand for, and returns their number; the text is given by a function on the
  format string alone, one character at a time.\<close>

theorem kprintf_renders:
  assumes "\<And>a xs. str a = Some xs \<Longrightarrow> cstr m a xs" "cstr m format fmt" "render str fmt args = Some out"
  shows "kprintf m cb format args w = Some (of_nat (length out), fold (PUTC_CALLBACK cb) out w)"
  using assms by (rule kprintf_result)

definition demo_text :: mem where
  "demo_text = write_bytes (write_bytes (\<lambda>_. 0) 0x100 [0x25, 0x73, 0x3D, 0x25, 0x64, 0x25, 0]) 0x200 [0x61, 0x62, 0]"

definition log_callbacks :: "u8 list callbacks" where
  "log_callbacks = libk_set_callback_putc (\<lambda>c w. w @ [c]) no_callbacks"

theorem kprintf_renders_witness:
  "kprintf demo_text log_callbacks 0x100 [0x200, - 12] [] = Some (6, [0x61, 0x62, 0x3D, 0x2D, 0x31, 0x32])"
proof -
  let ?str = "\<lambda>a. if a = 0x200 then Some [0x61, 0x62] else None"
  have s: "?str a = Some xs \<Longrightarrow> cstr demo_text a xs" for a xs
    by (auto simp: demo_text_def split: if_splits)
  have f: "cstr demo_text 0x100 [0x25, 0x73, 0x3D, 0x25, 0x64, 0x25]" by (simp add: demo_text_def)
  have d: "digits_of 10 12 = [0x31, 0x32]"
    by (simp add: digits_of.simps digit_char_def)
  have r: "render ?str [0x25, 0x73, 0x3D, 0x25, 0x64, 0x25] [0x200, - 12] = Some [0x61, 0x62, 0x3D, 0x2D, 0x31, 0x32]"
    by (simp add: show_int_def d)
  show ?thesis
    using kprintf_renders [where cb = log_callbacks and w = "[]", OF s f r]
    by (simp add: log_callbacks_def libk_set_callback_putc_def no_callbacks_def PUTC_CALLBACK_def)
qed

text \<open>C34: The digits \<open>kprintf\<close> converts a number to, in base 8, 10 or 16, spell that number, and fit its
  buffer of 65 characters.\<close>

theorem i_convert_spells:
  assumes "base \<in> {8, 10, 16}"
  shows "\<exists>s. i_convert v base 1 = Some s \<and> read_number (unat base) s = unat v \<and> length s \<le> 64"
proof -
  have b: "scast base = (of_nat (unat base) :: u64)" "2 \<le> unat base" "unat base \<le> 36" using assms by auto
  have "unat v < 2 ^ Suc 63"
  proof -
    have "(unsigned v :: nat) < 2 ^ LENGTH(64)" by (rule unsigned_less)
    then show ?thesis by simp
  qed
  also have "\<dots> \<le> unat base ^ Suc 63" using b(2) by (rule power_mono) simp
  finally have "length (digits_of (unat base) (unat v)) \<le> Suc 63" by (rule digits_of_length [OF b(2)])
  then show ?thesis using i_convert_digits [OF b, of 1 v] read_number_digits [OF b(2,3)] by simp
qed

theorem i_convert_spells_witness:
  "\<exists>s. i_convert 0xDEADBEEF 16 1 = Some s \<and> read_number 16 s = 0xDEADBEEF \<and> length s \<le> 64"
  using i_convert_spells [of 16 "0xDEADBEEF"] by simp

text \<open>A \<open>%d\<close> of the least integer has no defined result.\<close>

theorem kprintf_least_integer:
  assumes "cstr m format [0x25, 0x64]"
  shows "kprintf m cb format [0x80000000] w = None"
proof -
  have f: "m format = 0x25" "m (format + 1) = 0x64" using assms by simp_all
  then have "conversion m cb (format + 1) [0x80000000] 0 w = None" by (simp add: conversion_def print_signed_def)
  then show ?thesis unfolding kprintf_def using f(1) by (subst kprintf_loop.simps) simp
qed

end
