(* ===== verification/KDisplay.thy ===== *)
theory KDisplay
  imports KString "HOL-Library.Signed_Division"
begin

text \<open>
  The text display (\<open>i386/display.c\<close>): the static variables of the file with the frame buffer as
  part of the byte memory, and every function of the file. The abstract specification is a terminal
  of 25 lines of 80 cells with a cursor: \<open>arch_display_putc\<close> refines it, scrolling included, and
  touches no memory outside the frame buffer. A \<open>char\<close> is signed, as on the i386.
\<close>

section \<open>16-bit cells in memory\<close>

definition ld16 :: "mem \<Rightarrow> addr \<Rightarrow> u16" where
  "ld16 m a = ucast (m a) OR push_bit 8 (ucast (m (a + 1)))"

definition st16 :: "mem \<Rightarrow> addr \<Rightarrow> u16 \<Rightarrow> mem" where
  "st16 m a v = m(a := ucast v, a + 1 := ucast (drop_bit 8 v))"

lemma ld16_st16_same [simp]: "ld16 (st16 m a v) a = v"
proof (rule bit_word_eqI)
  fix n assume "n < LENGTH(16)"
  then consider "n < 8" | "8 \<le> n" "n < 16" by fastforce
  then show "bit (ld16 (st16 m a v) a) n = bit v n"
    by cases (auto simp: ld16_def st16_def bit_simps)
qed

lemma ld16_cong: "\<lbrakk>m a = m' b; m (a + 1) = m' (b + 1)\<rbrakk> \<Longrightarrow> ld16 m a = ld16 m' b"
  by (simp add: ld16_def)

section \<open>State\<close>

abbreviation VGA_WIDTH :: u32 where "VGA_WIDTH \<equiv> 80"
abbreviation VGA_HEIGHT :: u32 where "VGA_HEIGHT \<equiv> 25"
definition VGA_MEMORY_VADDR :: addr where "VGA_MEMORY_VADDR = 0xC00B8000"

definition COLOR_BLACK :: u32 where "COLOR_BLACK = 0"
definition COLOR_LIGHT_GREY :: u32 where "COLOR_LIGHT_GREY = 7"

record display =
  vmem :: mem
  display_row :: u32
  display_column :: u32
  display_color :: u8
  display_initialized :: bool

section \<open>Operations\<close>

definition make_color :: "u32 \<Rightarrow> u32 \<Rightarrow> u8" where
  "make_color fg bg = ucast (fg OR push_bit 4 bg)"

definition make_vgaentry :: "u8 \<Rightarrow> u8 \<Rightarrow> u16" where
  "make_vgaentry c color = scast c OR push_bit 8 (ucast color)"

definition put_cell :: "u32 \<Rightarrow> u16 \<Rightarrow> display \<Rightarrow> display" where
  "put_cell index v d = d\<lparr>vmem := st16 (vmem d) (VGA_MEMORY_VADDR + 2 * index) v\<rparr>"

definition display_putentryat :: "u8 \<Rightarrow> u8 \<Rightarrow> u32 \<Rightarrow> u32 \<Rightarrow> display \<Rightarrow> display" where
  "display_putentryat c color x y = put_cell (y * VGA_WIDTH + x) (make_vgaentry c color)"

definition blank_line :: "display \<Rightarrow> display" where
  "blank_line d = fold (\<lambda>x d. put_cell ((VGA_HEIGHT - 1) * VGA_WIDTH + of_nat x)
     (make_vgaentry 0x20 (display_color d)) d) [0..<unat VGA_WIDTH] d"

definition shift_lines :: "display \<Rightarrow> display" where
  "shift_lines d = d\<lparr>vmem := fst (kmemmove (vmem d) VGA_MEMORY_VADDR
     (VGA_MEMORY_VADDR + 2 * VGA_WIDTH) ((VGA_HEIGHT - 1) * VGA_WIDTH * 2))\<rparr>"

definition display_scroll :: "bool \<Rightarrow> display \<Rightarrow> display" where
  "display_scroll force d =
     (if display_row d < VGA_HEIGHT
      then if \<not> force then d
           else blank_line (shift_lines (d\<lparr>display_row := display_row d - 1\<rparr>))
      else blank_line (shift_lines (d\<lparr>display_row := VGA_HEIGHT - 1\<rparr>)))"

definition arch_init_display :: "display \<Rightarrow> display" where
  "arch_init_display d0 =
     (let d = d0\<lparr>display_row := 0, display_column := 0,
                 display_color := make_color COLOR_LIGHT_GREY COLOR_BLACK\<rparr>;
          d = fold (\<lambda>y. fold (\<lambda>x d. put_cell (of_nat y * VGA_WIDTH + of_nat x)
                (make_vgaentry 0x20 (display_color d)) d) [0..<unat VGA_WIDTH])
                [0..<unat VGA_HEIGHT] d
      in d\<lparr>display_initialized := True\<rparr>)"

definition put_char :: "u8 \<Rightarrow> display \<Rightarrow> display" where
  "put_char c d =
     (if c = 10 then d\<lparr>display_column := 0, display_row := display_row d + 1\<rparr>
      else if c = 13 then d\<lparr>display_column := 0\<rparr>
      else if c = 8 then
        (let d = (if display_column d \<noteq> 0 then d\<lparr>display_column := display_column d - 1\<rparr> else d)
         in display_putentryat 0x20 (display_color d) (display_column d) (display_row d) d)
      else if c = 9 then
        (let x = drop_bit 2 (display_column d) in d\<lparr>display_column := push_bit 2 (x + 1)\<rparr>)
      else
        (let d = display_putentryat c (display_color d) (display_column d) (display_row d) d
         in d\<lparr>display_column := display_column d + 1\<rparr>))"

definition wrap_column :: "display \<Rightarrow> display" where
  "wrap_column d =
     (if VGA_WIDTH \<le> display_column d
      then d\<lparr>display_column := display_column d - VGA_WIDTH, display_row := display_row d + 1\<rparr>
      else d)"

definition arch_display_putc :: "u8 \<Rightarrow> display \<Rightarrow> display" where
  "arch_display_putc c d =
     (if \<not> display_initialized d then d else display_scroll False (wrap_column (put_char c d)))"

definition arch_display_setcolor :: "u32 \<Rightarrow> u32 \<Rightarrow> display \<Rightarrow> display" where
  "arch_display_setcolor fg bg d = d\<lparr>display_color := make_color fg bg\<rparr>"

text \<open>The digits of a number, least significant first, as the do-while loop leaves them in its
  buffer, and the loop that writes them from the last one back.\<close>

function number_digits :: "int \<Rightarrow> u8 list" where
  "number_digits n = word_of_int (48 + n smod 10) #
     (if n sdiv 10 > 0 then number_digits (n sdiv 10) else [])"
  by pat_completeness auto
termination
proof (relation "measure nat", simp)
  fix n :: int assume "0 < n sdiv 10"
  moreover from this have "0 < n" by (cases "n > 0") (auto simp: signed_divide_int_def sgn_if split: if_splits)
  ultimately show "(n sdiv 10, n) \<in> measure nat" by (auto simp: signed_divide_int_def)
qed

declare number_digits.simps [simp del]

fun put_digits :: "u8 list \<Rightarrow> u32 \<Rightarrow> u32 \<Rightarrow> display \<Rightarrow> display" where
  "put_digits [] x y d = d"
| "put_digits (c # cs) x y d =
     (let (x, y, off) = (if x = VGA_WIDTH then (0, y + 1, y + 1 = VGA_HEIGHT) else (x, y, False))
      in if off then d
         else put_digits cs (x + 1) y (display_putentryat c (display_color d) x y d))"

definition arch_display_number :: "u32 \<Rightarrow> u32 \<Rightarrow> u32 \<Rightarrow> display \<Rightarrow> display option" where
  "arch_display_number num x y d =
     (if VGA_WIDTH \<le> x \<or> VGA_HEIGHT \<le> y then Some d
      else if num = 0x80000000 then None
      else Some (if sint num < 0
      then put_digits (rev (number_digits (sint (- num)))) (x + 1) y
             (display_putentryat 0x2D (display_color d) x y d)
      else put_digits (rev (number_digits (sint num))) x y d))"

section \<open>The terminal the display implements\<close>

text \<open>\<open>text\<close> holds the 25 lines of 80 cells one after the other.\<close>

record terminal =
  cells :: "u16 list"
  at_row :: nat
  at_col :: nat

definition cell_at :: "display \<Rightarrow> nat \<Rightarrow> u16" where
  "cell_at d k = ld16 (vmem d) (VGA_MEMORY_VADDR + 2 * of_nat k)"

definition screen :: "display \<Rightarrow> u16 list" where
  "screen d = map (cell_at d) [0..<2000]"

definition terminal :: "display \<Rightarrow> terminal" where
  "terminal d = \<lparr>cells = screen d, at_row = unat (display_row d), at_col = unat (display_column d)\<rparr>"

definition cursor_ok :: "display \<Rightarrow> bool" where
  "cursor_ok d \<longleftrightarrow> display_row d < VGA_HEIGHT \<and> display_column d < VGA_WIDTH"

definition term_put :: "u16 \<Rightarrow> terminal \<Rightarrow> terminal" where
  "term_put v t = t\<lparr>cells := (cells t)[80 * at_row t + at_col t := v]\<rparr>"

definition term_char :: "u8 \<Rightarrow> u8 \<Rightarrow> terminal \<Rightarrow> terminal" where
  "term_char color c t =
     (if c = 10 then t\<lparr>at_row := at_row t + 1, at_col := 0\<rparr>
      else if c = 13 then t\<lparr>at_col := 0\<rparr>
      else if c = 8 then term_put (make_vgaentry 0x20 color) (t\<lparr>at_col := at_col t - 1\<rparr>)
      else if c = 9 then t\<lparr>at_col := 4 * (at_col t div 4 + 1)\<rparr>
      else (term_put (make_vgaentry c color) t)\<lparr>at_col := at_col t + 1\<rparr>)"

definition term_wrap :: "terminal \<Rightarrow> terminal" where
  "term_wrap t = (if 80 \<le> at_col t then t\<lparr>at_row := at_row t + 1, at_col := at_col t - 80\<rparr> else t)"

definition term_scroll :: "u16 \<Rightarrow> terminal \<Rightarrow> terminal" where
  "term_scroll blank t =
     (if at_row t < 25 then t
      else t\<lparr>cells := drop 80 (cells t) @ replicate 80 blank, at_row := 24\<rparr>)"

definition term_putc :: "u8 \<Rightarrow> u8 \<Rightarrow> terminal \<Rightarrow> terminal" where
  "term_putc color c t = term_scroll (make_vgaentry 0x20 color) (term_wrap (term_char color c t))"

text \<open>Nothing outside the 4000 bytes of the frame buffer changes, nor does the rest of the state.\<close>

definition same_outside :: "display \<Rightarrow> display \<Rightarrow> bool" where
  "same_outside d d' \<longleftrightarrow> display_color d' = display_color d \<and> display_initialized d' = display_initialized d
     \<and> (\<forall>a. \<not> in_range VGA_MEMORY_VADDR 4000 a \<longrightarrow> vmem d' a = vmem d a)"

lemma same_outside_refl [simp]: "same_outside d d"
  by (simp add: same_outside_def)

lemma same_outside_trans: "same_outside d d' \<Longrightarrow> same_outside d' d'' \<Longrightarrow> same_outside d d''"
  by (simp add: same_outside_def)

section \<open>Cells of the frame buffer\<close>

lemma length_screen [simp]: "length (screen d) = 2000"
  by (simp add: screen_def)

lemma nth_screen [simp]: "k < 2000 \<Longrightarrow> screen d ! k = cell_at d k"
  by (simp add: screen_def)

lemma screen_eqI: "(\<And>k. k < 2000 \<Longrightarrow> cell_at d k = xs ! k) \<Longrightarrow> length xs = 2000 \<Longrightarrow> screen d = xs"
  by (rule nth_equalityI) auto

lemma screen_update [simp]:
  "screen (d\<lparr>display_row := r\<rparr>) = screen d" "screen (d\<lparr>display_column := c\<rparr>) = screen d"
  "screen (d\<lparr>display_color := k\<rparr>) = screen d" "screen (d\<lparr>display_initialized := i\<rparr>) = screen d"
  by (simp_all add: screen_def cell_at_def)

lemma vaddr_inj:
  assumes "j < 4000" "k < 4000"
  shows "VGA_MEMORY_VADDR + of_nat j = VGA_MEMORY_VADDR + of_nat k \<longleftrightarrow> j = k"
  using addr_offset_inj [of j k VGA_MEMORY_VADDR] assms by simp

lemma vaddr_cell:
  "VGA_MEMORY_VADDR + 2 * of_nat k = VGA_MEMORY_VADDR + of_nat (2 * k)"
  "VGA_MEMORY_VADDR + 2 * of_nat k + 1 = VGA_MEMORY_VADDR + of_nat (2 * k + 1)"
  by simp_all

lemma ld16_cell:
  "ld16 m (VGA_MEMORY_VADDR + 2 * of_nat k) = ucast (m (VGA_MEMORY_VADDR + of_nat (2 * k)))
     OR push_bit 8 (ucast (m (VGA_MEMORY_VADDR + of_nat (2 * k + 1))))"
  by (simp add: ld16_def algebra_simps)

lemma cell_put_cell:
  assumes "j < 2000" "k < 2000"
  shows "cell_at (put_cell (of_nat k) v d) j = (if j = k then v else cell_at d j)"
proof (cases "j = k")
  case False
  then have ne: "VGA_MEMORY_VADDR + of_nat (2 * j) \<noteq> VGA_MEMORY_VADDR + of_nat (2 * k)"
    "VGA_MEMORY_VADDR + of_nat (2 * j) \<noteq> VGA_MEMORY_VADDR + of_nat (2 * k + 1)"
    "VGA_MEMORY_VADDR + of_nat (2 * j + 1) \<noteq> VGA_MEMORY_VADDR + of_nat (2 * k)"
    "VGA_MEMORY_VADDR + of_nat (2 * j + 1) \<noteq> VGA_MEMORY_VADDR + of_nat (2 * k + 1)"
    using assms by (subst vaddr_inj; presburger)+
  with False show ?thesis
    unfolding cell_at_def ld16_cell
    unfolding put_cell_def st16_def vaddr_cell(2)
    unfolding vaddr_cell(1)
    by (simp del: of_nat_add of_nat_mult of_nat_Suc)
qed (simp add: cell_at_def put_cell_def)

lemma screen_put_cell [simp]: "k < 2000 \<Longrightarrow> screen (put_cell (of_nat k) v d) = (screen d)[k := v]"
  by (rule screen_eqI) (simp_all add: cell_put_cell nth_list_update)

lemma same_outside_put_cell: "k < 2000 \<Longrightarrow> same_outside d (put_cell (of_nat k) v d)"
  using in_range_offset [of "2 * k" 4000 VGA_MEMORY_VADDR]
    in_range_offset [of "2 * k + 1" 4000 VGA_MEMORY_VADDR]
  by (auto simp: same_outside_def put_cell_def st16_def algebra_simps)

lemma put_cell_rest [simp]:
  "display_row (put_cell k v d) = display_row d" "display_column (put_cell k v d) = display_column d"
  "display_color (put_cell k v d) = display_color d"
  "display_initialized (put_cell k v d) = display_initialized d"
  by (simp_all add: put_cell_def)

text \<open>A run of cells written from left to right.\<close>

lemma put_run:
  assumes "n \<le> b" "s + b \<le> 2000"
    and d': "d' = fold (\<lambda>x d. put_cell (of_nat s + of_nat x) (f (display_color d)) d) [0..<n] d"
  shows "screen d' = take s (screen d) @ replicate n (f (display_color d)) @ drop (s + n) (screen d)"
    and "same_outside d d'" and "display_row d' = display_row d" and "display_column d' = display_column d"
proof -
  have "screen d' = take s (screen d) @ replicate n (f (display_color d)) @ drop (s + n) (screen d)
    \<and> same_outside d d' \<and> display_row d' = display_row d \<and> display_column d' = display_column d"
    using assms
  proof (induction n arbitrary: d')
    case 0
    then show ?case by simp
  next
    case (Suc n)
    define d1 where "d1 = fold (\<lambda>x d. put_cell (of_nat s + of_nat x) (f (display_color d)) d) [0..<n] d"
    have IH: "screen d1 = take s (screen d) @ replicate n (f (display_color d)) @ drop (s + n) (screen d)"
      "same_outside d d1" "display_row d1 = display_row d" "display_column d1 = display_column d"
      using Suc.IH [OF _ _ d1_def] Suc.prems by simp_all
    have col: "display_color d1 = display_color d" using IH(2) by (simp add: same_outside_def)
    have d': "d' = put_cell (of_nat (s + n)) (f (display_color d)) d1"
      using Suc.prems(3) col by (simp add: d1_def)
    have k: "s + n < 2000" using Suc.prems by simp
    have "drop (s + n) (screen d) = screen d ! (s + n) # drop (s + Suc n) (screen d)"
      using Cons_nth_drop_Suc [of "s + n" "screen d"] k by simp
    then have "screen d' = take s (screen d) @ replicate (Suc n) (f (display_color d)) @ drop (s + Suc n) (screen d)"
      unfolding d' screen_put_cell [OF k] IH(1) using k
      by (simp add: list_update_append replicate_append_same)
    then show ?case
      using same_outside_trans [OF IH(2) same_outside_put_cell [OF k]] IH(3,4) by (simp add: d')
  qed
  then show "screen d' = take s (screen d) @ replicate n (f (display_color d)) @ drop (s + n) (screen d)"
    "same_outside d d'" "display_row d' = display_row d" "display_column d' = display_column d"
    by blast+
qed

section \<open>Scrolling\<close>

lemma cell_write_bytes:
  assumes "length xs = 3840" "k < 2000"
  shows "ld16 (write_bytes m VGA_MEMORY_VADDR xs) (VGA_MEMORY_VADDR + 2 * of_nat k) =
    (if k < 1920 then ucast (xs ! (2 * k)) OR push_bit 8 (ucast (xs ! (2 * k + 1)))
     else ld16 m (VGA_MEMORY_VADDR + 2 * of_nat k))"
proof (cases "k < 1920")
  case True
  then have "write_bytes m VGA_MEMORY_VADDR xs (VGA_MEMORY_VADDR + of_nat (2 * k)) = xs ! (2 * k)"
    "write_bytes m VGA_MEMORY_VADDR xs (VGA_MEMORY_VADDR + of_nat (2 * k + 1)) = xs ! (2 * k + 1)"
    using assms by (subst nth_write_bytes; simp)+
  with True show ?thesis unfolding ld16_cell
    by (simp del: of_nat_add of_nat_mult of_nat_Suc One_nat_def add_Suc_right)
next
  case False
  then have "\<not> in_range VGA_MEMORY_VADDR 3840 (VGA_MEMORY_VADDR + of_nat (2 * k))"
    "\<not> in_range VGA_MEMORY_VADDR 3840 (VGA_MEMORY_VADDR + of_nat (2 * k + 1))"
    using assms(2) by (simp_all add: in_range_def unat_of_nat del: of_nat_mult of_nat_add of_nat_Suc)
  with False show ?thesis using assms(1) unfolding ld16_cell
    by (simp add: write_bytes_outside del: of_nat_add of_nat_mult of_nat_Suc One_nat_def add_Suc_right)
qed

lemma shift_lines_write:
  "vmem (shift_lines d) = write_bytes (vmem d) VGA_MEMORY_VADDR
     (read_bytes (vmem d) (VGA_MEMORY_VADDR + 160) 3840)"
  using kmemmove_write [of VGA_MEMORY_VADDR 3840 "VGA_MEMORY_VADDR + 160" "vmem d"]
  by (simp add: shift_lines_def VGA_MEMORY_VADDR_def del: bytes_numeral)

lemma cell_shift_lines:
  assumes "k < 2000"
  shows "cell_at (shift_lines d) k = cell_at d (if k < 1920 then k + 80 else k)"
proof -
  let ?xs = "read_bytes (vmem d) (VGA_MEMORY_VADDR + 160) 3840"
  have x: "?xs ! i = vmem d (VGA_MEMORY_VADDR + of_nat (160 + i))" if "i < 3840" for i
    unfolding nth_read_bytes [OF that] by (simp add: add.assoc)
  have c: "ld16 (vmem d) (VGA_MEMORY_VADDR + 2 * of_nat (k + 80)) =
      ucast (vmem d (VGA_MEMORY_VADDR + of_nat (160 + 2 * k)))
      OR push_bit 8 (ucast (vmem d (VGA_MEMORY_VADDR + of_nat (160 + (2 * k + 1)))))"
    unfolding ld16_cell by (simp add: ac_simps)
  show ?thesis
    unfolding cell_at_def shift_lines_write cell_write_bytes [OF length_read_bytes assms]
    using x [of "2 * k"] x [of "2 * k + 1"] c
    by (cases "k < 1920") (simp_all del: bytes_numeral)
qed

lemma screen_shift_lines: "screen (shift_lines d) = drop 80 (screen d) @ drop 1920 (screen d)"
  by (rule screen_eqI) (simp_all add: cell_shift_lines nth_append add.commute)

lemma same_outside_shift_lines: "same_outside d (shift_lines d)"
proof -
  have "vmem (shift_lines d) a = vmem d a" if "\<not> in_range VGA_MEMORY_VADDR 4000 a" for a
    using that unfolding shift_lines_write
    by (intro write_bytes_outside) (simp_all add: in_range_def del: bytes_numeral)
  then show ?thesis by (simp add: same_outside_def shift_lines_def del: bytes_numeral)
qed

lemma blank_line_result:
  "screen (blank_line d) = take 1920 (screen d) @ replicate 80 (make_vgaentry 0x20 (display_color d))"
  "same_outside d (blank_line d)"
  "display_row (blank_line d) = display_row d" "display_column (blank_line d) = display_column d"
proof -
  have "blank_line d = fold (\<lambda>x d. put_cell (of_nat 1920 + of_nat x)
      ((\<lambda>k. make_vgaentry 0x20 k) (display_color d)) d) [0..<80] d"
    by (simp add: blank_line_def)
  note run = put_run [OF _ _ this, of 80]
  show "screen (blank_line d) = take 1920 (screen d) @ replicate 80 (make_vgaentry 0x20 (display_color d))"
    "same_outside d (blank_line d)"
    "display_row (blank_line d) = display_row d" "display_column (blank_line d) = display_column d"
    using run by simp_all
qed

lemma scroll_result:
  assumes "\<not> display_row d < VGA_HEIGHT"
  shows "terminal (display_scroll False d) =
      (terminal d)\<lparr>cells := drop 80 (screen d) @ replicate 80 (make_vgaentry 0x20 (display_color d)), at_row := 24\<rparr>"
    and "same_outside d (display_scroll False d)"
proof -
  define d1 where "d1 = d\<lparr>display_row := 24\<rparr>"
  have eq: "display_scroll False d = blank_line (shift_lines d1)"
    using assms by (simp add: display_scroll_def d1_def)
  have s: "same_outside d d1" "screen d1 = screen d" "display_row d1 = 24" "display_column d1 = display_column d"
    by (simp_all add: same_outside_def d1_def)
  have sl: "display_row (shift_lines d1) = 24" "display_column (shift_lines d1) = display_column d"
    "display_color (shift_lines d1) = display_color d"
    by (simp_all add: shift_lines_def d1_def del: bytes_numeral)
  show "terminal (display_scroll False d) =
      (terminal d)\<lparr>cells := drop 80 (screen d) @ replicate 80 (make_vgaentry 0x20 (display_color d)), at_row := 24\<rparr>"
    unfolding eq terminal_def by (simp add: blank_line_result screen_shift_lines s(2) sl del: replicate_numeral_Cons)
  show "same_outside d (display_scroll False d)"
    unfolding eq
    by (rule same_outside_trans [OF same_outside_trans [OF s(1) same_outside_shift_lines] blank_line_result(2)])
qed

lemma display_scroll_terminal:
  "terminal (display_scroll False d) = term_scroll (make_vgaentry 0x20 (display_color d)) (terminal d)"
  "same_outside d (display_scroll False d)"
proof -
  have r: "display_row d < VGA_HEIGHT \<longleftrightarrow> at_row (terminal d) < 25"
    by (simp add: terminal_def word_less_nat_alt)
  show "terminal (display_scroll False d) = term_scroll (make_vgaentry 0x20 (display_color d)) (terminal d)"
    using scroll_result(1) [of d] r
    by (cases "display_row d < VGA_HEIGHT")
      (simp_all add: term_scroll_def display_scroll_def terminal_def del: replicate_numeral_Cons)
  show "same_outside d (display_scroll False d)"
    using scroll_result(2) [of d] by (cases "display_row d < VGA_HEIGHT") (simp_all add: display_scroll_def)
qed

section \<open>Writing a character\<close>

lemma putentryat_terminal:
  assumes "cursor_ok d"
  shows "screen (display_putentryat c color (display_column d) (display_row d) d) =
      (screen d)[80 * unat (display_row d) + unat (display_column d) := make_vgaentry c color]"
    and "same_outside d (display_putentryat c color (display_column d) (display_row d) d)"
proof -
  let ?k = "80 * unat (display_row d) + unat (display_column d)"
  have k: "?k < 2000" using assms by (simp add: cursor_ok_def word_less_nat_alt)
  have eq: "display_row d * VGA_WIDTH + display_column d = of_nat ?k" by simp
  show "screen (display_putentryat c color (display_column d) (display_row d) d) =
      (screen d)[?k := make_vgaentry c color]"
    unfolding display_putentryat_def eq using k by (rule screen_put_cell)
  show "same_outside d (display_putentryat c color (display_column d) (display_row d) d)"
    unfolding display_putentryat_def eq using k by (rule same_outside_put_cell)
qed

lemma unat_Suc_less: "a < b \<Longrightarrow> unat (a + 1 :: u32) = unat a + 1"
  using unat_plus_of_nat [of a 1] unat_lt_2p32 [of b] by (simp add: word_less_nat_alt)

lemma tab_stop:
  assumes "c < VGA_WIDTH"
  shows "unat (push_bit 2 (drop_bit 2 c + 1)) = 4 * (unat c div 4 + 1)"
proof -
  have c: "unat c < 80" using assms by (simp add: word_less_nat_alt)
  have "unat (drop_bit 2 c) = drop_bit 2 (unat c)" by (simp only: unat_drop_bit_eq)
  then have d: "unat (drop_bit 2 c) = unat c div 4" by (simp add: drop_bit_eq_div)
  then have "drop_bit 2 c = of_nat (unat c div 4)" by (metis of_nat_unat ucast_id unsigned_of_nat)
  then have "push_bit 2 (drop_bit 2 c + 1) = of_nat (4 * (unat c div 4 + 1))"
    by (simp add: push_bit_eq_mult algebra_simps)
  moreover have "4 * (unat c div 4 + 1) < 2 ^ 32" using c by simp
  ultimately show ?thesis by (simp add: unat_of_nat del: of_nat_mult of_nat_add of_nat_Suc)
qed

lemma display_putentryat_rest [simp]:
  "display_row (display_putentryat c k x y d) = display_row d"
  "display_column (display_putentryat c k x y d) = display_column d"
  "display_color (display_putentryat c k x y d) = display_color d"
  by (simp_all add: display_putentryat_def)

lemma put_char_terminal:
  assumes "cursor_ok d"
  shows "terminal (put_char c d) = term_char (display_color d) c (terminal d)"
    and "same_outside d (put_char c d)"
proof -
  have cur: "display_row d < VGA_HEIGHT" "display_column d < VGA_WIDTH"
    using assms by (simp_all add: cursor_ok_def)
  consider "c = 10" | "c = 13" | "c = 8" | "c = 9" | "c \<notin> {10, 13, 8, 9}" by blast
  then have "terminal (put_char c d) = term_char (display_color d) c (terminal d) \<and> same_outside d (put_char c d)"
  proof cases
    case 1
    then show ?thesis
      by (simp add: put_char_def term_char_def terminal_def same_outside_def unat_Suc_less [OF cur(1)])
  next
    case 2
    then show ?thesis by (simp add: put_char_def term_char_def terminal_def same_outside_def)
  next
    case 3
    define d1 where "d1 = (if display_column d \<noteq> 0 then d\<lparr>display_column := display_column d - 1\<rparr> else d)"
    have col: "unat (display_column d1) = unat (display_column d) - 1"
      using unat_gt_0 [of "display_column d"] by (auto simp: d1_def unat_sub word_le_nat_alt)
    then have ok: "cursor_ok d1" using cur by (auto simp: cursor_ok_def d1_def word_less_nat_alt)
    have eq: "put_char c d = display_putentryat 0x20 (display_color d1) (display_column d1) (display_row d1) d1"
      using 3 by (simp add: put_char_def d1_def)
    have t: "screen d1 = screen d" "display_color d1 = display_color d" "display_row d1 = display_row d" "same_outside d d1"
      by (simp_all add: d1_def same_outside_def)
    show ?thesis
      using putentryat_terminal [OF ok, of "0x20" "display_color d1"] same_outside_trans [OF t(4)] 3 unfolding eq
      by (simp add: terminal_def term_char_def term_put_def t col)
  next
    case 4
    then show ?thesis
      by (simp add: put_char_def term_char_def terminal_def same_outside_def Let_def tab_stop [OF cur(2)])
  next
    case 5
    let ?e = "display_putentryat c (display_color d) (display_column d) (display_row d) d"
    have eq: "put_char c d = ?e\<lparr>display_column := display_column d + 1\<rparr>"
      using 5 by (simp add: put_char_def Let_def)
    have "same_outside ?e (put_char c d)" unfolding eq by (simp add: same_outside_def)
    then have "same_outside d (put_char c d)"
      using putentryat_terminal(2) [OF assms] same_outside_trans by blast
    moreover have "terminal (put_char c d) = term_char (display_color d) c (terminal d)"
      unfolding eq using 5 putentryat_terminal(1) [OF assms, of c "display_color d"]
      by (simp add: terminal_def term_char_def term_put_def unat_Suc_less [OF cur(2)])
    ultimately show ?thesis by blast
  qed
  then show "terminal (put_char c d) = term_char (display_color d) c (terminal d)" "same_outside d (put_char c d)"
    by blast+
qed

section \<open>The cursor and the refinement\<close>

definition term_ok :: "terminal \<Rightarrow> bool" where
  "term_ok t \<longleftrightarrow> at_row t < 25 \<and> at_col t < 80 \<and> length (cells t) = 2000"

lemma cursor_ok_terminal: "cursor_ok d \<longleftrightarrow> term_ok (terminal d)"
  by (simp add: cursor_ok_def term_ok_def terminal_def word_less_nat_alt)

lemma term_putc_ok: "term_ok t \<Longrightarrow> term_ok (term_putc color c t)"
  by (auto simp: term_ok_def term_putc_def term_char_def term_put_def term_wrap_def term_scroll_def)

lemma wrap_column_terminal:
  assumes "at_row (terminal d) \<le> 25"
  shows "terminal (wrap_column d) = term_wrap (terminal d)" and "same_outside d (wrap_column d)"
proof -
  have r: "unat (display_row d + 1) = unat (display_row d) + 1"
    using assms unat_plus_of_nat [of "display_row d" 1] by (simp add: terminal_def)
  then show "terminal (wrap_column d) = term_wrap (terminal d)"
    by (simp add: wrap_column_def term_wrap_def terminal_def unat_sub word_le_nat_alt)
  show "same_outside d (wrap_column d)" by (simp add: wrap_column_def same_outside_def)
qed

lemma term_char_row: "term_ok t \<Longrightarrow> at_row (term_char color c t) \<le> 25"
  by (simp add: term_char_def term_put_def term_ok_def)

lemma putc_terminal:
  assumes "cursor_ok d" "display_initialized d"
  shows "terminal (arch_display_putc c d) = term_putc (display_color d) c (terminal d)"
    and "same_outside d (arch_display_putc c d)" and "cursor_ok (arch_display_putc c d)"
proof -
  define d1 where "d1 = put_char c d"
  have 1: "terminal d1 = term_char (display_color d) c (terminal d)" "same_outside d d1"
    unfolding d1_def using put_char_terminal [OF assms(1)] by auto
  have "at_row (terminal d1) \<le> 25" using term_char_row 1(1) assms(1) by (simp add: cursor_ok_terminal)
  note 2 = wrap_column_terminal [OF this]
  have col: "display_color (wrap_column d1) = display_color d"
    using 1(2) 2(2) by (simp add: same_outside_def)
  have eq: "arch_display_putc c d = display_scroll False (wrap_column d1)"
    using assms(2) by (simp add: arch_display_putc_def d1_def)
  show t: "terminal (arch_display_putc c d) = term_putc (display_color d) c (terminal d)"
    unfolding eq using display_scroll_terminal(1) [of "wrap_column d1"] 1(1) 2(1) col
    by (simp add: term_putc_def)
  show "same_outside d (arch_display_putc c d)"
    unfolding eq using same_outside_trans 1(2) 2(2) display_scroll_terminal(2) by blast
  show "cursor_ok (arch_display_putc c d)"
    using assms(1) term_putc_ok by (simp add: cursor_ok_terminal t)
qed

lemma put_chars_terminal:
  assumes "cursor_ok d" "display_initialized d"
  shows "terminal (fold arch_display_putc cs d) = fold (term_putc (display_color d)) cs (terminal d)
    \<and> same_outside d (fold arch_display_putc cs d) \<and> cursor_ok (fold arch_display_putc cs d)"
  using assms
proof (induction cs arbitrary: d)
  case (Cons c cs)
  note p = putc_terminal [OF Cons.prems, of c]
  then have "display_initialized (arch_display_putc c d)" "display_color (arch_display_putc c d) = display_color d"
    using Cons.prems(2) by (simp_all add: same_outside_def)
  with Cons.IH [OF p(3)] p same_outside_trans [OF p(2)] show ?case by simp
qed simp

section \<open>Initialisation\<close>

lemma init_rows:
  assumes "n \<le> 25"
    and d': "d' = fold (\<lambda>y. fold (\<lambda>x d. put_cell (of_nat y * VGA_WIDTH + of_nat x)
                (make_vgaentry 0x20 (display_color d)) d) [0..<80]) [0..<n] d"
  shows "screen d' = replicate (80 * n) (make_vgaentry 0x20 (display_color d)) @ drop (80 * n) (screen d)
    \<and> same_outside d d' \<and> display_row d' = display_row d \<and> display_column d' = display_column d"
  using assms
proof (induction n arbitrary: d')
  case 0
  then show ?case by simp
next
  case (Suc n)
  define d1 where "d1 = fold (\<lambda>y. fold (\<lambda>x d. put_cell (of_nat y * VGA_WIDTH + of_nat x)
                (make_vgaentry 0x20 (display_color d)) d) [0..<80]) [0..<n] d"
  have IH: "screen d1 = replicate (80 * n) (make_vgaentry 0x20 (display_color d)) @ drop (80 * n) (screen d)"
    "same_outside d d1" "display_row d1 = display_row d" "display_column d1 = display_column d"
    using Suc.IH [OF _ d1_def] Suc.prems(1) by simp_all
  have "d' = fold (\<lambda>x d. put_cell (of_nat (80 * n) + of_nat x)
      ((\<lambda>k. make_vgaentry 0x20 k) (display_color d)) d) [0..<80] d1"
    using Suc.prems(2) unfolding upt_Suc by (simp add: d1_def mult.commute)
  note run = put_run [OF _ _ this, of 80]
  have col: "display_color d1 = display_color d" using IH(2) by (simp add: same_outside_def)
  have "replicate (80 * Suc n) e = replicate (80 * n) e @ replicate 80 e" for e :: u16
    using replicate_add [of "80 * n" 80 e] by (simp add: add.commute del: replicate_numeral_Cons)
  then show ?case
    using run Suc.prems(1) IH col same_outside_trans [OF IH(2)]
    by (simp add: add.commute del: replicate_numeral_Cons)
qed

lemma init_display_result:
  shows "terminal (arch_init_display d) = \<lparr>cells = replicate 2000 (make_vgaentry 0x20 7), at_row = 0, at_col = 0\<rparr>"
    and "cursor_ok (arch_init_display d)" and "display_initialized (arch_init_display d)"
    and "display_color (arch_init_display d) = 7"
    and "\<not> in_range VGA_MEMORY_VADDR 4000 a \<Longrightarrow> vmem (arch_init_display d) a = vmem d a"
proof -
  define d0 where "d0 = d\<lparr>display_row := 0, display_column := 0, display_color := 7\<rparr>"
  define d1 where "d1 = fold (\<lambda>y. fold (\<lambda>x d. put_cell (of_nat y * VGA_WIDTH + of_nat x)
                (make_vgaentry 0x20 (display_color d)) d) [0..<80]) [0..<25] d0"
  have eq: "arch_init_display d = d1\<lparr>display_initialized := True\<rparr>"
    by (simp add: arch_init_display_def d1_def d0_def make_color_def COLOR_LIGHT_GREY_def COLOR_BLACK_def)
  have "screen d1 = replicate 2000 (make_vgaentry 0x20 7)" "same_outside d0 d1"
    "display_row d1 = 0" "display_column d1 = 0"
    using init_rows [OF _ d1_def] by (simp_all add: d0_def del: replicate_numeral_Cons)
  then show "terminal (arch_init_display d) = \<lparr>cells = replicate 2000 (make_vgaentry 0x20 7), at_row = 0, at_col = 0\<rparr>"
    "cursor_ok (arch_init_display d)" "display_initialized (arch_init_display d)"
    "display_color (arch_init_display d) = 7"
    "\<not> in_range VGA_MEMORY_VADDR 4000 a \<Longrightarrow> vmem (arch_init_display d) a = vmem d a"
    by (simp_all add: eq terminal_def cursor_ok_def same_outside_def d0_def del: replicate_numeral_Cons)
qed


section \<open>Numbers\<close>

lemma number_digits_nonneg:
  "0 \<le> n \<Longrightarrow> number_digits n = word_of_int (48 + n mod 10) # (if 10 \<le> n then number_digits (n div 10) else [])"
  by (subst number_digits.simps) (auto simp: signed_divide_int_def signed_modulo_int_def sgn_if)

text \<open>The number the digits spell, the least significant digit first.\<close>

fun digits_value :: "u8 list \<Rightarrow> int" where
  "digits_value [] = 0"
| "digits_value (c # cs) = (uint c - 48) + 10 * digits_value cs"

lemma digits_value_number: "0 \<le> n \<Longrightarrow> digits_value (number_digits n) = n"
proof (induction n rule: number_digits.induct)
  case (1 n)
  have u: "uint (word_of_int (48 + n mod 10) :: u8) = 48 + n mod 10"
    using pos_mod_bound [of 10 n] pos_mod_sign [of 10 n] unfolding unsigned_of_int
    by (simp add: take_bit_eq_mod)
  have "10 \<le> n \<Longrightarrow> n sdiv 10 = n div 10 \<and> 0 < n sdiv 10"
    by (auto simp: signed_divide_int_def)
  then have "10 \<le> n \<Longrightarrow> digits_value (number_digits (n div 10)) = n div 10" using 1 by auto
  then show ?case using 1(2) u by (subst number_digits_nonneg) auto
qed

lemma number_digits_length: "0 \<le> n \<Longrightarrow> n < 10 ^ Suc k \<Longrightarrow> length (number_digits n) \<le> Suc k"
proof (induction k arbitrary: n)
  case 0
  then show ?case by (subst number_digits_nonneg) auto
next
  case (Suc k)
  then have "10 \<le> n \<Longrightarrow> length (number_digits (n div 10)) \<le> Suc k" by (intro Suc.IH) auto
  then show ?case using Suc.prems by (subst number_digits_nonneg) auto
qed

section \<open>Properties\<close>

text \<open>C32: Writing a character to the display does to the text on the screen and to the cursor exactly
  what a terminal of 25 lines does (new line, return, backspace, tabulator, wrapping and scrolling),
  keeps the cursor on the screen and writes no memory outside the frame buffer.\<close>

theorem display_putc_refines:
  assumes "cursor_ok d" "display_initialized d"
  shows "terminal (arch_display_putc c d) = term_putc (display_color d) c (terminal d)
    \<and> cursor_ok (arch_display_putc c d) \<and> same_outside d (arch_display_putc c d)"
  using putc_terminal [OF assms] by blast

definition blank_display :: display where
  "blank_display = \<lparr>vmem = \<lambda>_. 0, display_row = 0, display_column = 0, display_color = 7, display_initialized = True\<rparr>"

theorem display_putc_refines_witness:
  "cells (terminal (arch_display_putc 0x41 blank_display)) ! 0 = 0x741"
proof -
  have "cursor_ok blank_display" "display_initialized blank_display"
    by (simp_all add: cursor_ok_def blank_display_def)
  from display_putc_refines [OF this, of "0x41"] show ?thesis
    by (simp add: term_putc_def term_char_def term_put_def term_wrap_def term_scroll_def terminal_def
        blank_display_def make_vgaentry_def)
qed

text \<open>After initialisation the screen is blank in light grey on black with the cursor in its upper
  left corner, and a text written to it character by character is what the terminal shows.\<close>

theorem display_session:
  "terminal (fold arch_display_putc cs (arch_init_display d)) =
     fold (term_putc 7) cs \<lparr>cells = replicate 2000 0x720, at_row = 0, at_col = 0\<rparr>"
  using put_chars_terminal [OF init_display_result(2,3), of cs d]
  by (simp add: init_display_result(1,4) make_vgaentry_def del: replicate_numeral_Cons)

lemma unat_lt_2p8: "unat (w :: u8) < 256"
proof -
  have "(unsigned w :: nat) < 2 ^ LENGTH(8)" by (rule unsigned_less)
  then show ?thesis by simp
qed

lemma small_char: "(c :: u8) < 0x80 \<longleftrightarrow> \<not> bit c 7"
proof -
  have "unat c < 256" by (rule unat_lt_2p8)
  then have "unat c div 128 \<in> {0, 1}" by auto
  then have "odd (unat c div 128) \<longleftrightarrow> 128 \<le> unat c" using \<open>unat c < 256\<close> by auto
  moreover have "bit c 7 = bit (unat c) 7" by (simp add: bit_unsigned_iff)
  ultimately show ?thesis by (auto simp: bit_iff_odd word_less_nat_alt)
qed

text \<open>The cell of a character holds its code and its colour when the code is below 128. A \<open>char\<close> is
  signed, so a greater code is sign-extended over the colour and the cell is white on white.\<close>

theorem vgaentry_colour:
  "make_vgaentry c color = (if c < 0x80 then ucast c OR push_bit 8 (ucast color) else ucast c OR 0xFF00)"
proof -
  have c: "c < 0x80 \<longleftrightarrow> \<not> bit c 7"
    by (rule small_char)
  show ?thesis
  proof (rule bit_word_eqI)
    fix n assume n: "n < LENGTH(16)"
    have e: "(0xFF00 :: u16) = push_bit 8 (mask 8)" by (simp add: mask_eq_exp_minus_1)
    show "bit (make_vgaentry c color) n =
      bit (if c < 0x80 then ucast c OR push_bit 8 (ucast color) else ucast c OR 0xFF00 :: u16) n"
    proof (cases "n < 8")
      case True
      then have "min 7 n = n" by simp
      with True n show ?thesis unfolding make_vgaentry_def c e by (auto simp: bit_simps)
    next
      case False
      then have "\<not> bit c n" "min 7 n = 7" using bit_imp_le_length [of c n] by auto
      with n False show ?thesis unfolding make_vgaentry_def c e by (auto simp: bit_simps)
    qed
  qed
qed

text \<open>The digits \<open>arch_display_number\<close> writes spell the number and fit its buffer of ten characters
  for every number of 32 bits but the least, whose negation is undefined.\<close>

theorem display_number_digits:
  "if num = (0x80000000 :: u32) then x < VGA_WIDTH \<longrightarrow> y < VGA_HEIGHT \<longrightarrow> arch_display_number num x y d = None
    else (let n = (if sint num < 0 then sint (- num) else sint num)
      in length (number_digits n) \<le> 10 \<and> digits_value (number_digits n) = \<bar>sint num\<bar>)"
proof (cases "num = 0x80000000")
  case True
  then show ?thesis by (simp add: arch_display_number_def not_le [symmetric])
next
  case False
  have z: "unat num \<noteq> 2147483648"
  proof
    assume "unat num = 2147483648"
    then have "num = of_nat 2147483648" by (metis of_nat_unat ucast_id unsigned_of_nat)
    with False show False by simp
  qed
  define u where "u = unat num"
  have u: "u < 4294967296" "u \<noteq> 2147483648" using unat_lt_2p32 [of num] z by (simp_all add: u_def)
  define v where "v = unat (- num)"
  have v: "v = 4294967296 - u" if "2147483648 \<le> u"
    using that unat_uminus [of num] unat_gt_0 [of num] by (simp add: u_def v_def)
  have "(if sint num < 0 then sint (- num) else sint num) = \<bar>sint num\<bar>" "\<bar>sint num\<bar> < 10 ^ Suc 9"
    unfolding sint_u32 u_def [symmetric] v_def [symmetric]
    using u v by (cases "u < 2147483648"; simp)+
  then show ?thesis
    using digits_value_number [of "\<bar>sint num\<bar>"] number_digits_length [of "\<bar>sint num\<bar>" 9] False by simp
qed

end
