(* ===== verification/KConsole.thy ===== *)
theory KConsole
  imports KStdio KDisplay
begin

text \<open>
  The kernel's console: \<open>kernel_early\<close> (src/system/kernel/main.c) initialises the display and registers
  \<open>arch_display_putc\<close> as libk's putc callback, after which all output of \<open>kprintf\<close> goes to the screen;
  \<open>kpanic\<close> prints its message and stops. The message \<open>kpanic\<close> passes to \<open>kprintf\<close> is at \<open>lit\<close>.
\<close>

definition init_console :: "display \<Rightarrow> display callbacks \<Rightarrow> display \<times> display callbacks" where
  "init_console d cb = (let d = arch_init_display d in (d, libk_set_callback_putc arch_display_putc cb))"

text \<open>\<open>kpanic\<close> does not return: its result is the state in which it stays for ever.\<close>

definition kpanic :: "mem \<Rightarrow> 'w callbacks \<Rightarrow> addr \<Rightarrow> addr \<Rightarrow> 'w \<Rightarrow> 'w option" where
  "kpanic m cb lit message w = map_option snd (kprintf m cb lit [message] w)"

text \<open>The literal \<open>Kernel panic! - %s\<close> with a new line.\<close>

definition panic_format :: "u8 list" where
  "panic_format = [0x4B, 0x65, 0x72, 0x6E, 0x65, 0x6C, 0x20, 0x70, 0x61, 0x6E, 0x69, 0x63, 0x21, 0x20, 0x2D, 0x20, 0x25, 0x73, 0x0A]"

text \<open>\<open>kerror\<close> prints its message with the literal \<open>Kerror: %s\<close> and goes on.\<close>

definition kerror :: "mem \<Rightarrow> 'w callbacks \<Rightarrow> addr \<Rightarrow> addr \<Rightarrow> 'w \<Rightarrow> 'w option" where
  "kerror m cb lit message w = map_option snd (kprintf m cb lit [message] w)"

definition error_format :: "u8 list" where
  "error_format = [0x4B, 0x65, 0x72, 0x72, 0x6F, 0x72, 0x3A, 0x20, 0x25, 0x73, 0x0A]"

lemma console_putc: "PUTC_CALLBACK (snd (init_console d cb)) = arch_display_putc"
  by (simp add: fun_eq_iff init_console_def PUTC_CALLBACK_def libk_set_callback_putc_def Let_def)

lemma kprintf_console:
  assumes "\<And>a xs. str a = Some xs \<Longrightarrow> cstr m a xs" "cstr m format fmt" "render str fmt args = Some out"
    and d: "cursor_ok d" "display_initialized d" and cb: "PUTC_CALLBACK cb = arch_display_putc"
  shows "\<exists>d'. kprintf m cb format args d = Some (of_nat (length out), d')
    \<and> terminal d' = fold (term_putc (display_color d)) out (terminal d) \<and> cursor_ok d' \<and> same_outside d d'"
  using kprintf_result [OF assms(1-3), of cb d] put_chars_terminal [OF d, of out] by (simp add: cb)

section \<open>Properties\<close>

text \<open>C35: A formatted text printed through the console appears on the screen as a terminal shows the text the
  format stands for; the cursor stays on the screen and no memory outside the frame buffer is written.\<close>

theorem console_shows_text:
  assumes "\<And>a xs. str a = Some xs \<Longrightarrow> cstr m a xs" "cstr m format fmt" "render str fmt args = Some out"
    and d: "cursor_ok d" "display_initialized d" and cb: "PUTC_CALLBACK cb = arch_display_putc"
  shows "\<exists>d'. kprintf m cb format args d = Some (of_nat (length out), d')
    \<and> terminal d' = fold (term_putc (display_color d)) out (terminal d) \<and> cursor_ok d' \<and> same_outside d d'"
  using assms by (rule kprintf_console)

theorem console_shows_text_witness:
  "\<exists>d'. kprintf (write_bytes (\<lambda>_. 0) 0x100 [0x4F, 0x4B, 0]) (snd (init_console blank_display no_callbacks)) 0x100 [] blank_display
     = Some (2, d') \<and> cells (terminal d') ! 0 = 0x74F \<and> cells (terminal d') ! 1 = 0x74B \<and> at_col (terminal d') = 2"
proof -
  have f: "cstr (write_bytes (\<lambda>_. 0) 0x100 [0x4F, 0x4B, 0]) 0x100 [0x4F, 0x4B]" by simp
  have r: "render (\<lambda>_. None) [0x4F, 0x4B] [] = Some [0x4F, 0x4B]" by simp
  have d: "cursor_ok blank_display" "display_initialized blank_display"
    by (simp_all add: cursor_ok_def blank_display_def)
  obtain d' where k: "kprintf (write_bytes (\<lambda>_. 0) 0x100 [0x4F, 0x4B, 0]) (snd (init_console blank_display no_callbacks)) 0x100 []
      blank_display = Some (of_nat (length [0x4F, 0x4B :: u8]), d')"
    and t: "terminal d' = fold (term_putc (display_color blank_display)) [0x4F, 0x4B] (terminal blank_display)"
    using console_shows_text [OF _ f r d console_putc, of blank_display no_callbacks] by auto
  have "cells (terminal d') ! 0 = 0x74F" "cells (terminal d') ! 1 = 0x74B" "at_col (terminal d') = 2"
    unfolding t by (simp_all add: term_putc_def term_char_def term_put_def term_wrap_def term_scroll_def terminal_def
        blank_display_def make_vgaentry_def)
  with k show ?thesis by auto
qed

text \<open>A message printed with one of the two formats.\<close>

lemma message_shows:
  assumes "cstr m lit fmt" "cstr m message xs" "fmt = pre @ [0x25, 0x73, 0x0A]" "\<forall>c \<in> set pre. c \<noteq> 0x25"
    and d: "cursor_ok d" "display_initialized d" and cb: "PUTC_CALLBACK cb = arch_display_putc"
  shows "\<exists>d'. map_option snd (kprintf m cb lit [message] d) = Some d'
    \<and> terminal d' = fold (term_putc (display_color d)) (pre @ xs @ [0x0A]) (terminal d)"
proof -
  let ?str = "\<lambda>a. if a = message then Some xs else None"
  have "render ?str fmt [message] = Some (pre @ xs @ [0x0A])"
    using render_literal [OF assms(4), of ?str] by (simp add: assms(3))
  moreover have "?str a = Some ys \<Longrightarrow> cstr m a ys" for a ys using assms(2) by (auto split: if_splits)
  ultimately obtain k d' where "kprintf m cb lit [message] d = Some (k, d')"
    "terminal d' = fold (term_putc (display_color d)) (pre @ xs @ [0x0A]) (terminal d)"
    using kprintf_console [OF _ assms(1) _ d cb, of ?str] by blast
  then show ?thesis by auto
qed

text \<open>A kernel panic with a message shows the message on the console after its headline; so does an error.\<close>

theorem kpanic_shows:
  assumes "cstr m lit panic_format" "cstr m message xs"
    and d: "cursor_ok d" "display_initialized d" and cb: "PUTC_CALLBACK cb = arch_display_putc"
  shows "\<exists>d'. kpanic m cb lit message d = Some d'
    \<and> terminal d' = fold (term_putc (display_color d)) (take 16 panic_format @ xs @ [0x0A]) (terminal d)"
  unfolding kpanic_def by (rule message_shows [OF assms(1,2) _ _ d cb]) (simp_all add: panic_format_def)

theorem kerror_shows:
  assumes "cstr m lit error_format" "cstr m message xs"
    and d: "cursor_ok d" "display_initialized d" and cb: "PUTC_CALLBACK cb = arch_display_putc"
  shows "\<exists>d'. kerror m cb lit message d = Some d'
    \<and> terminal d' = fold (term_putc (display_color d)) (take 8 error_format @ xs @ [0x0A]) (terminal d)"
  unfolding kerror_def by (rule message_shows [OF assms(1,2) _ _ d cb]) (simp_all add: error_format_def)

end
