(* ===== verification/KDescriptors.thy ===== *)
theory KDescriptors
  imports KPrelude
begin

text \<open>
  The processor's descriptor tables (\<open>i386/descriptors.c\<close>, with the loads of \<open>gdt_flush\<close>, \<open>idt_flush\<close>
  and \<open>tss_flush\<close> of \<open>i386/i386.S\<close>). The addresses of the tables and of the interrupt entry points are
  fixed by the linker and are arguments. The second half decodes descriptors the way the processor
  reads them, and shows that the tables mean what the code intends.
\<close>

section \<open>Descriptors\<close>

definition GDT_SIZE :: nat where "GDT_SIZE = 6"
definition IDT_SIZE :: nat where "IDT_SIZE = 256"
definition GDT_DESCR_SIZE :: u32 where "GDT_DESCR_SIZE = 8"

definition GDT_DUMMY_INDEX :: nat where "GDT_DUMMY_INDEX = 0"
definition GDT_RING0_CODE_INDEX :: nat where "GDT_RING0_CODE_INDEX = 1"
definition GDT_RING0_DATA_INDEX :: nat where "GDT_RING0_DATA_INDEX = 2"
definition GDT_RING3_CODE_INDEX :: nat where "GDT_RING3_CODE_INDEX = 3"
definition GDT_RING3_DATA_INDEX :: nat where "GDT_RING3_DATA_INDEX = 4"
definition GDT_TSS_INDEX :: nat where "GDT_TSS_INDEX = 5"

definition CODE_SELECTOR :: u16 where "CODE_SELECTOR = of_nat GDT_RING0_CODE_INDEX * 8"
definition DATA_SELECTOR :: u16 where "DATA_SELECTOR = of_nat GDT_RING0_DATA_INDEX * 8"
definition GDT_TSS :: u16 where "GDT_TSS = of_nat GDT_TSS_INDEX * 8"

definition GDT_ACC_PRESENT :: u8 where "GDT_ACC_PRESENT = 0x80"
definition GDT_ACC_PRIV0 :: u8 where "GDT_ACC_PRIV0 = 0"
definition GDT_ACC_PRIV3 :: u8 where "GDT_ACC_PRIV3 = 0x60"
definition GDT_ACC_RESV :: u8 where "GDT_ACC_RESV = 0x10"
definition GDT_ACC_EXEC :: u8 where "GDT_ACC_EXEC = 0x08"
definition GDT_ACC_RW :: u8 where "GDT_ACC_RW = 0x02"
definition GDT_ACC_TSS_TYPE :: u8 where "GDT_ACC_TSS_TYPE = 0x09"
definition GDT_FLAG_GRAN4K :: u8 where "GDT_FLAG_GRAN4K = 8"
definition GDT_FLAG_32BIT :: u8 where "GDT_FLAG_32BIT = 4"
definition IDT_ATR_TYPE_32IG :: u8 where "IDT_ATR_TYPE_32IG = 0x0E"
definition IDT_ATR_PRES :: u8 where "IDT_ATR_PRES = 0x80"

lemmas gdt_consts = GDT_SIZE_def IDT_SIZE_def GDT_DESCR_SIZE_def GDT_DUMMY_INDEX_def GDT_RING0_CODE_INDEX_def
  GDT_RING0_DATA_INDEX_def GDT_RING3_CODE_INDEX_def GDT_RING3_DATA_INDEX_def GDT_TSS_INDEX_def
  CODE_SELECTOR_def DATA_SELECTOR_def GDT_TSS_def GDT_ACC_PRESENT_def GDT_ACC_PRIV0_def
  GDT_ACC_PRIV3_def GDT_ACC_RESV_def GDT_ACC_EXEC_def GDT_ACC_RW_def GDT_ACC_TSS_TYPE_def
  GDT_FLAG_GRAN4K_def GDT_FLAG_32BIT_def IDT_ATR_TYPE_32IG_def IDT_ATR_PRES_def

record gdt_entry =
  limit_low :: u16
  base_low :: u16
  base_mid :: u8
  access :: u8
  limit_hight :: "4 word"
  flags :: "4 word"
  base_high :: u8

record idt_entry =
  offset_low :: u16
  selector :: u16
  zero :: u8
  type_atr :: u8
  offset_high :: u16

record tables =
  gdt :: "gdt_entry list"
  idt :: "idt_entry list"
  gdt_p :: "u16 \<times> addr"
  idt_p :: "u16 \<times> addr"
  tss_ss0 :: u32
  tss_esp0 :: u32
  gdtr :: "u16 \<times> addr"
  idtr :: "u16 \<times> addr"
  task_register :: u16

section \<open>Operations\<close>

definition make_gdt_entry :: "u32 \<Rightarrow> u32 \<Rightarrow> u8 \<Rightarrow> u8 \<Rightarrow> gdt_entry" where
  "make_gdt_entry base lim acc fl =
     \<lparr>limit_low = ucast (lim AND 0x0FFFF),
      base_low = ucast (base AND 0x0000FFFF),
      base_mid = ucast (drop_bit 16 (base AND 0x00FF0000)),
      access = acc,
      limit_hight = ucast (drop_bit 16 (lim AND 0xF0000)),
      flags = ucast (fl AND 0xF),
      base_high = ucast (drop_bit 24 (base AND 0xFF000000))\<rparr>"

definition gdt_set_entry :: "nat \<Rightarrow> u32 \<Rightarrow> u32 \<Rightarrow> u8 \<Rightarrow> u8 \<Rightarrow> tables \<Rightarrow> tables" where
  "gdt_set_entry index base lim acc fl s =
     (if GDT_SIZE \<le> index then s else s\<lparr>gdt := (gdt s)[index := make_gdt_entry base lim acc fl]\<rparr>)"

definition make_idt_entry :: "u32 \<Rightarrow> u16 \<Rightarrow> u8 \<Rightarrow> idt_entry" where
  "make_idt_entry offset sel atr =
     \<lparr>offset_low = ucast (offset AND 0x0000FFFF), selector = sel, zero = 0, type_atr = atr,
      offset_high = ucast (drop_bit 16 (offset AND 0xFFFF0000))\<rparr>"

definition idt_set_entry :: "nat \<Rightarrow> u32 \<Rightarrow> u16 \<Rightarrow> u8 \<Rightarrow> tables \<Rightarrow> tables" where
  "idt_set_entry index offset sel atr s =
     (if IDT_SIZE \<le> index then s else s\<lparr>idt := (idt s)[index := make_idt_entry offset sel atr]\<rparr>)"

definition sizeof_tss :: u32 where "sizeof_tss = 104"

definition gdt_flush :: "tables \<Rightarrow> tables" where
  "gdt_flush s = s\<lparr>gdtr := gdt_p s\<rparr>"

definition idt_flush :: "tables \<Rightarrow> tables" where
  "idt_flush s = s\<lparr>idtr := idt_p s\<rparr>"

definition tss_flush :: "tables \<Rightarrow> tables" where
  "tss_flush s = s\<lparr>task_register := GDT_TSS\<rparr>"

definition gdt_initialize :: "addr \<Rightarrow> addr \<Rightarrow> tables \<Rightarrow> tables" where
  "gdt_initialize gdt_addr tss_addr s =
     (let s = s\<lparr>gdt_p := (of_nat (8 * GDT_SIZE) - 1, gdt_addr)\<rparr>;
          s = gdt_set_entry GDT_DUMMY_INDEX 0 0 0 0 s;
          s = gdt_set_entry GDT_RING0_CODE_INDEX 0 0xFFFFF
                (GDT_ACC_PRESENT OR GDT_ACC_PRIV0 OR GDT_ACC_RESV OR GDT_ACC_EXEC OR GDT_ACC_RW)
                (GDT_FLAG_GRAN4K OR GDT_FLAG_32BIT) s;
          s = gdt_set_entry GDT_RING0_DATA_INDEX 0 0xFFFFF
                (GDT_ACC_PRESENT OR GDT_ACC_PRIV0 OR GDT_ACC_RESV OR GDT_ACC_RW)
                (GDT_FLAG_GRAN4K OR GDT_FLAG_32BIT) s;
          s = gdt_set_entry GDT_RING3_CODE_INDEX 0 0xFFFFF
                (GDT_ACC_PRESENT OR GDT_ACC_PRIV3 OR GDT_ACC_RESV OR GDT_ACC_EXEC OR GDT_ACC_RW)
                (GDT_FLAG_GRAN4K OR GDT_FLAG_32BIT) s;
          s = gdt_set_entry GDT_RING3_DATA_INDEX 0 0xFFFFF
                (GDT_ACC_PRESENT OR GDT_ACC_PRIV3 OR GDT_ACC_RESV OR GDT_ACC_RW)
                (GDT_FLAG_GRAN4K OR GDT_FLAG_32BIT) s;
          s = gdt_set_entry GDT_TSS_INDEX tss_addr sizeof_tss
                (GDT_ACC_PRESENT OR GDT_ACC_PRIV0 OR GDT_ACC_TSS_TYPE) GDT_FLAG_GRAN4K s
      in gdt_flush s)"

text \<open>The calls for \<open>isr0\<close> to \<open>isr31\<close> and \<open>irq0\<close> to \<open>irq15\<close> are written out one by one in the source.\<close>

definition set_gate :: "(nat \<Rightarrow> addr) \<Rightarrow> nat \<Rightarrow> nat \<Rightarrow> tables \<Rightarrow> tables" where
  "set_gate entry first i = idt_set_entry (first + i) (entry i) CODE_SELECTOR (IDT_ATR_TYPE_32IG OR IDT_ATR_PRES)"

definition idt_initialize :: "addr \<Rightarrow> (nat \<Rightarrow> addr) \<Rightarrow> (nat \<Rightarrow> addr) \<Rightarrow> addr \<Rightarrow> tables \<Rightarrow> tables" where
  "idt_initialize idt_addr isr irq kernel_call s =
     (let s = s\<lparr>idt_p := (of_nat (8 * IDT_SIZE) - 1, idt_addr)\<rparr>;
          s = s\<lparr>idt := replicate IDT_SIZE \<lparr>offset_low = 0, selector = 0, zero = 0, type_atr = 0, offset_high = 0\<rparr>\<rparr>;
          s = fold (set_gate isr 0) [0..<32] s;
          s = fold (set_gate irq 32) [0..<16] s;
          s = set_gate (\<lambda>_. kernel_call) 128 0 s
      in idt_flush s)"

definition arch_init_tables ::
    "addr \<Rightarrow> addr \<Rightarrow> addr \<Rightarrow> (nat \<Rightarrow> addr) \<Rightarrow> (nat \<Rightarrow> addr) \<Rightarrow> addr \<Rightarrow> tables \<Rightarrow> tables" where
  "arch_init_tables gdt_addr idt_addr tss_addr isr irq kernel_call s =
     (let s = gdt_initialize gdt_addr tss_addr s;
          s = idt_initialize idt_addr isr irq kernel_call s;
          s = s\<lparr>tss_ss0 := ucast DATA_SELECTOR, tss_esp0 := 0\<rparr>
      in tss_flush s)"

section \<open>How the processor reads a descriptor\<close>

definition seg_base :: "gdt_entry \<Rightarrow> u32" where
  "seg_base e = ucast (base_low e) OR push_bit 16 (ucast (base_mid e)) OR push_bit 24 (ucast (base_high e))"

definition seg_limit :: "gdt_entry \<Rightarrow> u32" where
  "seg_limit e = ucast (limit_low e) OR push_bit 16 (ucast (limit_hight e))"

text \<open>The greatest offset in the segment: with bit 3 of the flags the limit counts pages of 4 KiB.\<close>

definition seg_last :: "gdt_entry \<Rightarrow> nat" where
  "seg_last e = (if bit (flags e) 3 then 4096 * unat (seg_limit e) + 4095 else unat (seg_limit e))"

definition seg_privilege :: "gdt_entry \<Rightarrow> u8" where
  "seg_privilege e = drop_bit 5 (access e) AND 3"

definition gate_offset :: "idt_entry \<Rightarrow> u32" where
  "gate_offset e = ucast (offset_low e) OR push_bit 16 (ucast (offset_high e))"

definition gate_present :: "idt_entry \<Rightarrow> bool" where
  "gate_present e \<longleftrightarrow> bit (type_atr e) 7"

lemma field_masks:
  "(0xFFFF :: u32) = mask 16" "(0x00FF0000 :: u32) = push_bit 16 (mask 8)"
  "(0xFF000000 :: u32) = push_bit 24 (mask 8)" "(0xFFFF0000 :: u32) = push_bit 16 (mask 16)"
  "(0xF0000 :: u32) = push_bit 16 (mask 4)" "(0xF :: u8) = mask 4"
  by (simp_all add: mask_eq_exp_minus_1)

lemma seg_base_entry: "seg_base (make_gdt_entry base lim acc fl) = base"
proof (rule bit_word_eqI)
  fix n assume "n < LENGTH(32)"
  then consider "n < 16" | "16 \<le> n" "n < 24" | "24 \<le> n" "n < 32" by fastforce
  then show "bit (seg_base (make_gdt_entry base lim acc fl)) n = bit base n"
    unfolding seg_base_def make_gdt_entry_def field_masks by cases (auto simp: bit_simps)
qed

lemma seg_limit_entry: "seg_limit (make_gdt_entry base lim acc fl) = take_bit 20 lim"
proof (rule bit_word_eqI)
  fix n assume "n < LENGTH(32)"
  then consider "n < 16" | "16 \<le> n" "n < 20" | "20 \<le> n" "n < 32" by fastforce
  then show "bit (seg_limit (make_gdt_entry base lim acc fl)) n = bit (take_bit 20 lim) n"
    unfolding seg_limit_def make_gdt_entry_def field_masks by cases (auto simp: bit_simps)
qed

lemma gate_offset_entry: "gate_offset (make_idt_entry offset sel atr) = offset"
proof (rule bit_word_eqI)
  fix n assume "n < LENGTH(32)"
  then consider "n < 16" | "16 \<le> n" "n < 32" by fastforce
  then show "bit (gate_offset (make_idt_entry offset sel atr)) n = bit offset n"
    unfolding gate_offset_def make_idt_entry_def field_masks by cases (auto simp: bit_simps)
qed

lemma set_gates:
  assumes "first + n \<le> 256" "length (idt s) = 256"
  shows "idt (fold (set_gate entry first) [0..<n] s) =
      map (\<lambda>i. if first \<le> i \<and> i < first + n
               then make_idt_entry (entry (i - first)) CODE_SELECTOR 0x8E else idt s ! i) [0..<256]
    \<and> (fold (set_gate entry first) [0..<n] s)\<lparr>idt := []\<rparr> = s\<lparr>idt := []\<rparr>"
  using assms(1)
proof (induction n)
  case 0
  show ?case using assms(2) by (auto intro!: nth_equalityI)
next
  case (Suc n)
  let ?s = "fold (set_gate entry first) [0..<n] s"
  have l: "length (idt ?s) = 256" using Suc by simp
  have eq: "fold (set_gate entry first) [0..<Suc n] s =
      ?s\<lparr>idt := (idt ?s)[first + n := make_idt_entry (entry n) CODE_SELECTOR 0x8E]\<rparr>"
    unfolding upt_Suc using Suc.prems
    by (simp add: set_gate_def idt_set_entry_def IDT_SIZE_def IDT_ATR_TYPE_32IG_def IDT_ATR_PRES_def)
  show ?case
    unfolding eq using Suc l
    by (auto intro!: nth_equalityI simp: nth_list_update)
qed

lemma length_gdt_set_entry [simp]: "length (gdt (gdt_set_entry i b l a f s)) = length (gdt s)"
  by (simp add: gdt_set_entry_def)

lemma gdt_initialize_result:
  assumes "length (gdt s) = 6" and s': "s' = gdt_initialize gdt_addr tss_addr s"
  shows "gdt s' = [make_gdt_entry 0 0 0 0, make_gdt_entry 0 0xFFFFF 0x9A 0xC, make_gdt_entry 0 0xFFFFF 0x92 0xC,
      make_gdt_entry 0 0xFFFFF 0xFA 0xC, make_gdt_entry 0 0xFFFFF 0xF2 0xC, make_gdt_entry tss_addr 104 0x89 8]"
    and "gdtr s' = (47, gdt_addr)"
proof -
  obtain a b c d e f where g: "gdt s = [a, b, c, d, e, f]"
    using assms(1) by (auto simp: numeral_eq_Suc length_Suc_conv)
  then show "gdt s' = [make_gdt_entry 0 0 0 0, make_gdt_entry 0 0xFFFFF 0x9A 0xC, make_gdt_entry 0 0xFFFFF 0x92 0xC,
      make_gdt_entry 0 0xFFFFF 0xFA 0xC, make_gdt_entry 0 0xFFFFF 0xF2 0xC, make_gdt_entry tss_addr 104 0x89 8]"
    by (simp add: s' gdt_initialize_def gdt_set_entry_def gdt_flush_def gdt_consts sizeof_tss_def Let_def)
  show "gdtr s' = (47, gdt_addr)"
    by (simp add: s' gdt_initialize_def gdt_set_entry_def gdt_flush_def gdt_consts Let_def)
qed

text \<open>The gate of every vector after initialisation.\<close>

definition vector_entry :: "(nat \<Rightarrow> addr) \<Rightarrow> (nat \<Rightarrow> addr) \<Rightarrow> addr \<Rightarrow> nat \<Rightarrow> addr option" where
  "vector_entry isr irq kernel_call v =
     (if v < 32 then Some (isr v) else if v < 48 then Some (irq (v - 32))
      else if v = 128 then Some kernel_call else None)"

lemma idt_initialize_result:
  assumes s': "s' = idt_initialize idt_addr isr irq kernel_call s" and v: "v < 256"
  shows "length (idt s') = 256"
    and "idt s' ! v = (case vector_entry isr irq kernel_call v of
        Some e \<Rightarrow> make_idt_entry e CODE_SELECTOR 0x8E | None \<Rightarrow> make_idt_entry 0 0 0)"
    and "idtr s' = (2047, idt_addr)" and "gdt s' = gdt s" and "gdtr s' = gdtr s"
proof -
  define s0 where "s0 = s\<lparr>idt_p := (2047, idt_addr), idt := replicate 256 (make_idt_entry 0 0 0)\<rparr>"
  define s1 where "s1 = fold (set_gate isr 0) [0..<32] s0"
  define s2 where "s2 = fold (set_gate irq 32) [0..<16] s1"
  have 0: "length (idt s0) = 256" by (simp add: s0_def del: replicate_numeral_Cons)
  note 1 = set_gates [of 0 32 s0 isr, folded s1_def]
  have l1: "length (idt s1) = 256" using 1 0 by simp
  note 2 = set_gates [of 32 16 s1 irq, folded s2_def]
  have l2: "length (idt s2) = 256" using 2 l1 by simp
  have eq: "s' = (set_gate (\<lambda>_. kernel_call) 128 0 s2)\<lparr>idtr := idt_p (set_gate (\<lambda>_. kernel_call) 128 0 s2)\<rparr>"
    unfolding s' idt_initialize_def s2_def s1_def s0_def
    by (simp add: Let_def idt_flush_def IDT_SIZE_def make_idt_entry_def del: replicate_numeral_Cons)
  have g: "set_gate (\<lambda>_. kernel_call) 128 0 s2 = s2\<lparr>idt := (idt s2)[128 := make_idt_entry kernel_call CODE_SELECTOR 0x8E]\<rparr>"
    by (simp add: set_gate_def idt_set_entry_def gdt_consts)
  have i0: "idt s0 ! v = make_idt_entry 0 0 0" using v by (simp add: s0_def del: replicate_numeral_Cons)
  have rest: "s1\<lparr>idt := []\<rparr> = s0\<lparr>idt := []\<rparr>" "s2\<lparr>idt := []\<rparr> = s1\<lparr>idt := []\<rparr>" using 1 2 0 l1 by simp_all
  then have r: "idt_p s2 = idt_p s0" "gdt s2 = gdt s0" "gdtr s2 = gdtr s0"
    by (metis (no_types) tables.surjective tables.update_convs(2) tables.ext_inject)+
  show "length (idt s') = 256" using l2 by (simp add: eq g)
  show "idt s' ! v = (case vector_entry isr irq kernel_call v of
        Some e \<Rightarrow> make_idt_entry e CODE_SELECTOR 0x8E | None \<Rightarrow> make_idt_entry 0 0 0)"
    using v 1 2 0 l1 i0 by (auto simp: eq g vector_entry_def nth_list_update)
  show "idtr s' = (2047, idt_addr)" "gdt s' = gdt s" "gdtr s' = gdtr s"
    using r by (simp_all add: eq g s0_def del: replicate_numeral_Cons)
qed

lemma tables_result:
  assumes "length (gdt s) = 6" "v < 256"
    and s': "s' = arch_init_tables gdt_addr idt_addr tss_addr isr irq kernel_call s"
  shows "gdtr s' = (47, gdt_addr) \<and> idtr s' = (2047, idt_addr)
    \<and> (\<forall>i \<in> {1, 2, 3, 4}. seg_base (gdt s' ! i) = 0 \<and> seg_last (gdt s' ! i) = 4294967295
          \<and> seg_privilege (gdt s' ! i) = (if i \<le> 2 then 0 else 3))
    \<and> gate_present (idt s' ! v) = (vector_entry isr irq kernel_call v \<noteq> None)
    \<and> (\<forall>e. vector_entry isr irq kernel_call v = Some e \<longrightarrow>
          gate_offset (idt s' ! v) = e \<and> selector (idt s' ! v) = 8)"
proof -
  define s1 where "s1 = gdt_initialize gdt_addr tss_addr s"
  note g = gdt_initialize_result [OF assms(1) s1_def]
  define s2 where "s2 = idt_initialize idt_addr isr irq kernel_call s1"
  note i = idt_initialize_result [OF s2_def assms(2)]
  have eq: "gdt s' = gdt s2" "idt s' = idt s2" "gdtr s' = gdtr s2" "idtr s' = idtr s2"
    by (simp_all add: s' s1_def s2_def arch_init_tables_def tss_flush_def Let_def)
  have segs: "seg_last (make_gdt_entry 0 0xFFFFF acc 0xC) = 4294967295" for acc
    unfolding seg_last_def seg_limit_entry by (simp add: make_gdt_entry_def take_bit_eq_mod)
  have gate: "gate_present (make_idt_entry e CODE_SELECTOR 0x8E)" "\<not> gate_present (make_idt_entry 0 0 0)"
    "selector (make_idt_entry e CODE_SELECTOR 0x8E) = 8" for e
    by (simp_all add: gate_present_def make_idt_entry_def gdt_consts)
  have "\<forall>i \<in> {1, 2, 3, 4}. seg_base (gdt s' ! i) = 0 \<and> seg_last (gdt s' ! i) = 4294967295
          \<and> seg_privilege (gdt s' ! i) = (if i \<le> 2 then 0 else 3)"
    using i(4) g(1) by (simp add: eq seg_base_entry segs) (simp add: seg_privilege_def make_gdt_entry_def)
  moreover have "gate_present (idt s' ! v) = (vector_entry isr irq kernel_call v \<noteq> None)"
    using i(2) gate by (auto simp: eq split: option.splits)
  moreover have "\<forall>e. vector_entry isr irq kernel_call v = Some e \<longrightarrow>
          gate_offset (idt s' ! v) = e \<and> selector (idt s' ! v) = 8"
    using i(2) gate(3) by (auto simp: eq gate_offset_entry)
  ultimately show ?thesis using i(3,5) g(2) by (simp add: eq)
qed

section \<open>Properties\<close>

text \<open>What the processor reads from a descriptor is what was written to it: the base, the low 20
  bits of the limit and the access byte of a segment, the address and the selector of a gate.\<close>

theorem descriptor_roundtrip:
  "seg_base (make_gdt_entry base lim acc fl) = base \<and> seg_limit (make_gdt_entry base lim acc fl) = take_bit 20 lim
   \<and> access (make_gdt_entry base lim acc fl) = acc \<and> gate_offset (make_idt_entry offset sel atr) = offset
   \<and> selector (make_idt_entry offset sel atr) = sel"
  by (simp add: seg_base_entry seg_limit_entry gate_offset_entry) (simp add: make_gdt_entry_def make_idt_entry_def)

text \<open>C36: After initialisation the processor uses the kernel's tables. The code and data segments of
  both privilege levels cover the whole address space, the 32 exceptions, the 16 interrupt requests and
  vector 128 enter the kernel at their own entry points through the kernel's code segment, and no other
  vector has a gate.\<close>

theorem tables_after_init:
  assumes "length (gdt s) = 6" "v < 256"
    and s': "s' = arch_init_tables gdt_addr idt_addr tss_addr isr irq kernel_call s"
  shows "gdtr s' = (47, gdt_addr) \<and> idtr s' = (2047, idt_addr)
    \<and> (\<forall>i \<in> {1, 2, 3, 4}. seg_base (gdt s' ! i) = 0 \<and> seg_last (gdt s' ! i) = 4294967295
          \<and> seg_privilege (gdt s' ! i) = (if i \<le> 2 then 0 else 3))
    \<and> gate_present (idt s' ! v) = (vector_entry isr irq kernel_call v \<noteq> None)
    \<and> (\<forall>e. vector_entry isr irq kernel_call v = Some e \<longrightarrow>
          gate_offset (idt s' ! v) = e \<and> selector (idt s' ! v) = 8)"
  using assms by (rule tables_result)

definition reset_tables :: tables where
  "reset_tables = \<lparr>gdt = replicate 6 (make_gdt_entry 0 0 0 0), idt = replicate 256 (make_idt_entry 0 0 0),
     gdt_p = (0, 0), idt_p = (0, 0), tss_ss0 = 0, tss_esp0 = 0, gdtr = (0, 0), idtr = (0, 0), task_register = 0\<rparr>"

theorem tables_after_init_witness:
  "gate_offset (idt (arch_init_tables 0x100 0x200 0x300 (\<lambda>i. of_nat i) (\<lambda>i. 0x1000 + of_nat i) 0x2000 reset_tables) ! 33) = 0x1001"
proof -
  have "length (gdt reset_tables) = 6" "(33 :: nat) < 256" by (simp_all add: reset_tables_def)
  from tables_after_init [OF this refl, of "0x100" "0x200" "0x300" "\<lambda>i. of_nat i" "\<lambda>i. 0x1000 + of_nat i" "0x2000"]
  show ?thesis by (simp add: vector_entry_def)
qed

text \<open>The limit of the task state segment is its size of 104, counted in pages of 4 KiB: the segment
  reaches over 430079 bytes, more than 4000 times the structure.\<close>

theorem tss_segment_limit:
  assumes "length (gdt s) = 6"
  shows "seg_base (gdt (gdt_initialize gdt_addr tss_addr s) ! 5) = tss_addr
    \<and> seg_last (gdt (gdt_initialize gdt_addr tss_addr s) ! 5) = 430079"
proof -
  have "seg_last (make_gdt_entry tss_addr 104 0x89 8) = 430079"
    unfolding seg_last_def seg_limit_entry by (simp add: make_gdt_entry_def take_bit_eq_mod)
  then show ?thesis using gdt_initialize_result(1) [OF assms refl] by (simp add: seg_base_entry)
qed

end
