(* ===== verification/KInterrupts.thy ===== *)
theory KInterrupts
  imports KPrelude
begin

text \<open>
  Interrupts: the two cascaded interrupt controllers (\<open>i386/pic.c\<close>), the tables of handlers with
  their dispatch, and the programming of the interval timer (\<open>i386/interrupts.c\<close>).

  Output to a port is recorded in \<open>io\<close>, the trace of all writes; what a port reads as depends on the
  device and is an argument \<open>inb\<close>, a function of that trace. Handlers are names \<open>'e\<close> (exceptions)
  and \<open>'i\<close> (interrupt requests), and what they do is an argument too. A handler number below zero
  indexes the tables out of bounds: the result is \<open>None\<close>.
\<close>

section \<open>Ports and the interrupt controllers\<close>

definition PIC0_ADDR_C :: u16 where "PIC0_ADDR_C = 0x20"
definition PIC0_ADDR_D :: u16 where "PIC0_ADDR_D = 0x21"
definition PIC1_ADDR_C :: u16 where "PIC1_ADDR_C = 0xA0"
definition PIC1_ADDR_D :: u16 where "PIC1_ADDR_D = 0xA1"
definition PIC_ICW1_ICW4 :: u8 where "PIC_ICW1_ICW4 = 0x01"
definition PIC_ICW1_INIT :: u8 where "PIC_ICW1_INIT = 0x10"
definition IRQ0_VECT :: u8 where "IRQ0_VECT = 32"
definition PIC0_ICW2 :: u8 where "PIC0_ICW2 = IRQ0_VECT"
definition PIC1_ICW2 :: u8 where "PIC1_ICW2 = IRQ0_VECT + 8"
definition PIC0_ICW3 :: u8 where "PIC0_ICW3 = push_bit 2 1"
definition PIC1_ICW3 :: u8 where "PIC1_ICW3 = 2"
definition PIC_ICW4_8086 :: u8 where "PIC_ICW4_8086 = 0x01"
definition PIC_EOI :: u8 where "PIC_EOI = 0x20"
definition EXCEPTION_COUNT :: nat where "EXCEPTION_COUNT = 32"
definition IRQ_COUNT :: nat where "IRQ_COUNT = 16"

lemmas pic_consts = PIC0_ADDR_C_def PIC0_ADDR_D_def PIC1_ADDR_C_def PIC1_ADDR_D_def PIC_ICW1_ICW4_def
  PIC_ICW1_INIT_def IRQ0_VECT_def PIC0_ICW2_def PIC1_ICW2_def PIC0_ICW3_def PIC1_ICW3_def
  PIC_ICW4_8086_def PIC_EOI_def

type_synonym trace = "(u16 \<times> u8) list"

record ('e, 'i) interrupts =
  exception_handlers :: "'e option list"
  irq_handlers :: "'i option list"
  io :: trace

type_synonym ('e, 'i, 'a) intr_state = "('e, 'i, 'a) interrupts_scheme"

definition outportb :: "u16 \<Rightarrow> u8 \<Rightarrow> ('e, 'i, 'a) intr_state \<Rightarrow> ('e, 'i, 'a) intr_state" where
  "outportb port d s = s\<lparr>io := io s @ [(port, d)]\<rparr>"

definition inportb :: "(trace \<Rightarrow> u16 \<Rightarrow> u8) \<Rightarrow> u16 \<Rightarrow> ('e, 'i, 'a) intr_state \<Rightarrow> u8" where
  "inportb inb port s = inb (io s) port"

definition pic_init :: "('e, 'i, 'a) intr_state \<Rightarrow> ('e, 'i, 'a) intr_state" where
  "pic_init s =
     (let s = outportb PIC0_ADDR_C (PIC_ICW1_ICW4 OR PIC_ICW1_INIT) s;
          s = outportb PIC1_ADDR_C (PIC_ICW1_ICW4 OR PIC_ICW1_INIT) s;
          s = outportb PIC0_ADDR_D PIC0_ICW2 s;
          s = outportb PIC1_ADDR_D PIC1_ICW2 s;
          s = outportb PIC0_ADDR_D PIC0_ICW3 s;
          s = outportb PIC1_ADDR_D PIC1_ICW3 s;
          s = outportb PIC0_ADDR_D PIC_ICW4_8086 s;
          s = outportb PIC1_ADDR_D PIC_ICW4_8086 s;
          s = outportb PIC0_ADDR_D 0xff s;
          s = outportb PIC1_ADDR_D 0xff s
      in s)"

definition pic_eoi :: "u8 \<Rightarrow> ('e, 'i, 'a) intr_state \<Rightarrow> ('e, 'i, 'a) intr_state" where
  "pic_eoi irq s =
     (let s = (if 7 < irq then outportb PIC1_ADDR_C PIC_EOI s else s) in outportb PIC0_ADDR_C PIC_EOI s)"

definition pic_set_mask :: "(trace \<Rightarrow> u16 \<Rightarrow> u8) \<Rightarrow> u8 \<Rightarrow> ('e, 'i, 'a) intr_state \<Rightarrow> ('e, 'i, 'a) intr_state" where
  "pic_set_mask inb irq s =
     (if 15 < irq then s
      else if irq < 8 then
        (let mask = inportb inb PIC0_ADDR_D s
         in outportb PIC0_ADDR_D (mask OR ucast (push_bit (unat irq) (1 :: u32))) s)
      else
        (let mask = inportb inb PIC1_ADDR_D s
         in outportb PIC1_ADDR_D (mask OR ucast (push_bit (unat (irq - 8)) (1 :: u32))) s))"

definition pic_clear_mask :: "(trace \<Rightarrow> u16 \<Rightarrow> u8) \<Rightarrow> u8 \<Rightarrow> ('e, 'i, 'a) intr_state \<Rightarrow> ('e, 'i, 'a) intr_state" where
  "pic_clear_mask inb irq s =
     (if 15 < irq then s
      else if irq < 8 then
        (let mask = inportb inb PIC0_ADDR_D s
         in outportb PIC0_ADDR_D (mask AND NOT (ucast (push_bit (unat irq) (1 :: u32)))) s)
      else
        (let mask = inportb inb PIC0_ADDR_D s
         in outportb PIC0_ADDR_D (mask AND NOT (ucast (push_bit (unat (irq - 8)) (1 :: u32)))) s))"

section \<open>Handlers\<close>

definition arch_init_interrupts :: "('e, 'i, 'a) intr_state \<Rightarrow> ('e, 'i, 'a) intr_state" where
  "arch_init_interrupts s =
     pic_init (s\<lparr>exception_handlers := replicate EXCEPTION_COUNT None, irq_handlers := replicate IRQ_COUNT None\<rparr>)"

definition exception_set_handler :: "int \<Rightarrow> 'e \<Rightarrow> ('e, 'i, 'a) intr_state \<Rightarrow> ('e, 'i, 'a) intr_state option" where
  "exception_set_handler n h s =
     (if int EXCEPTION_COUNT \<le> n then Some s
      else if n < 0 then None
      else Some (s\<lparr>exception_handlers := (exception_handlers s)[nat n := Some h]\<rparr>))"

definition exception_clear_handler :: "int \<Rightarrow> ('e, 'i, 'a) intr_state \<Rightarrow> ('e, 'i, 'a) intr_state option" where
  "exception_clear_handler n s =
     (if int EXCEPTION_COUNT \<le> n then Some s
      else if n < 0 then None
      else Some (s\<lparr>exception_handlers := (exception_handlers s)[nat n := None]\<rparr>))"

definition irq_set_handler ::
    "(trace \<Rightarrow> u16 \<Rightarrow> u8) \<Rightarrow> int \<Rightarrow> 'i \<Rightarrow> ('e, 'i, 'a) intr_state \<Rightarrow> ('e, 'i, 'a) intr_state option" where
  "irq_set_handler inb n h s =
     (if int IRQ_COUNT \<le> n then Some s
      else if n < 0 then None
      else Some (pic_clear_mask inb (of_int n) (s\<lparr>irq_handlers := (irq_handlers s)[nat n := Some h]\<rparr>)))"

definition irq_clear_handler ::
    "(trace \<Rightarrow> u16 \<Rightarrow> u8) \<Rightarrow> int \<Rightarrow> ('e, 'i, 'a) intr_state \<Rightarrow> ('e, 'i, 'a) intr_state option" where
  "irq_clear_handler inb n s =
     (if int IRQ_COUNT \<le> n then Some s
      else if n < 0 then None
      else Some (pic_set_mask inb (of_int n) (s\<lparr>irq_handlers := (irq_handlers s)[nat n := None]\<rparr>)))"

text \<open>A kernel panic ends the run: the handlers' result is the panic or the state they leave.\<close>

datatype panic = Unhandled_exception u32 u32 | Unhandled_irq u32

definition exception_handler ::
    "('e \<Rightarrow> u32 \<Rightarrow> ('e, 'i, 'a) intr_state \<Rightarrow> ('e, 'i, 'a) intr_state)
     \<Rightarrow> u32 \<Rightarrow> u32 \<Rightarrow> ('e, 'i, 'a) intr_state \<Rightarrow> (panic + ('e, 'i, 'a) intr_state) option" where
  "exception_handler run int_no err s =
     (if EXCEPTION_COUNT \<le> unat int_no then None
      else case exception_handlers s ! unat int_no of
        Some h \<Rightarrow> Some (Inr (run h err s))
      | None \<Rightarrow> Some (Inl (Unhandled_exception int_no err)))"

definition irq_handler ::
    "('i \<Rightarrow> ('e, 'i, 'a) intr_state \<Rightarrow> ('e, 'i, 'a) intr_state)
     \<Rightarrow> u32 \<Rightarrow> ('e, 'i, 'a) intr_state \<Rightarrow> (panic + ('e, 'i, 'a) intr_state) option" where
  "irq_handler run int_no s =
     (if IRQ_COUNT \<le> unat int_no then None
      else case irq_handlers s ! unat int_no of
        Some h \<Rightarrow> Some (Inr (pic_eoi (ucast int_no) (run h s)))
      | None \<Rightarrow> Some (Inl (Unhandled_irq int_no)))"

definition arch_timer_init ::
    "(trace \<Rightarrow> u16 \<Rightarrow> u8) \<Rightarrow> u32 \<Rightarrow> 'i \<Rightarrow> ('e, 'i, 'a) intr_state \<Rightarrow> ('e, 'i, 'a) intr_state option" where
  "arch_timer_init inb frequency callback s =
     (let divisor = 1193180 div frequency;
          s = outportb 0x43 0x36 s;
          l = ucast (divisor AND 0xFF);
          h = ucast (drop_bit 8 divisor AND 0xFF);
          s = outportb 0x40 l s;
          s = outportb 0x40 h s
      in irq_set_handler inb 0 callback s)"

section \<open>The devices\<close>

text \<open>
  The mask register of a controller holds the last byte written to its data port once the
  initialisation sequence of four bytes is over, and the data port reads it back. This is what
  \<open>pic_set_mask\<close> and \<open>pic_clear_mask\<close> rely on; \<open>pic_init\<close> ends with a write of the masks.
\<close>

fun last_out :: "u16 \<Rightarrow> trace \<Rightarrow> u8" where
  "last_out p [] = 0"
| "last_out p ((q, d) # tr) = (if p \<in> fst ` set tr then last_out p tr else if p = q then d else 0)"

definition init_words :: trace where
  "init_words = [(PIC0_ADDR_C, 0x11), (PIC1_ADDR_C, 0x11), (PIC0_ADDR_D, PIC0_ICW2), (PIC1_ADDR_D, PIC1_ICW2),
     (PIC0_ADDR_D, PIC0_ICW3), (PIC1_ADDR_D, PIC1_ICW3), (PIC0_ADDR_D, PIC_ICW4_8086), (PIC1_ADDR_D, PIC_ICW4_8086)]"

definition configured :: "trace \<Rightarrow> bool" where
  "configured tr \<longleftrightarrow> (\<exists>pre post. tr = pre @ init_words @ post
     \<and> (\<forall>(p, d) \<in> set post. p \<in> {PIC0_ADDR_C, PIC1_ADDR_C} \<longrightarrow> \<not> bit d 4))"

definition reads_mask :: "(trace \<Rightarrow> u16 \<Rightarrow> u8) \<Rightarrow> bool" where
  "reads_mask inb \<longleftrightarrow>
     (\<forall>tr. configured tr \<longrightarrow> (\<forall>p \<in> {PIC0_ADDR_D, PIC1_ADDR_D}. inb tr p = last_out p tr))"

text \<open>Request \<open>n\<close> reaches the processor when its controller does not mask it (requests from 8 on come
  through line 2 of the first controller).\<close>

definition masked :: "('e, 'i, 'a) intr_state \<Rightarrow> nat \<Rightarrow> bool" where
  "masked s n = (if n < 8 then bit (last_out PIC0_ADDR_D (io s)) n else bit (last_out PIC1_ADDR_D (io s)) (n - 8))"

lemma last_out_snoc [simp]: "last_out p (tr @ [(q, d)]) = (if p = q then d else last_out p tr)"
proof (induction tr)
  case (Cons x tr)
  then show ?case by (cases x) (auto simp: image_iff)
qed simp

lemma last_out_append: "last_out p (tr @ tr') = (if p \<in> fst ` set tr' then last_out p tr' else last_out p tr)"
  by (induction tr' rule: rev_induct) (force simp flip: append_assoc)+

lemma configured_snoc:
  assumes "configured tr" "p \<in> {PIC0_ADDR_C, PIC1_ADDR_C} \<Longrightarrow> \<not> bit d 4"
  shows "configured (tr @ [(p, d)])"
proof -
  obtain pre post where "tr = pre @ init_words @ post"
    "\<forall>(p, d) \<in> set post. p \<in> {PIC0_ADDR_C, PIC1_ADDR_C} \<longrightarrow> \<not> bit d 4"
    using assms(1) unfolding configured_def by blast
  then have "tr @ [(p, d)] = pre @ init_words @ (post @ [(p, d)])"
    "\<forall>(p, d) \<in> set (post @ [(p, d)]). p \<in> {PIC0_ADDR_C, PIC1_ADDR_C} \<longrightarrow> \<not> bit d 4"
    using assms(2) by auto
  then show ?thesis unfolding configured_def by blast
qed

lemma pic_ports_differ [simp]: "PIC0_ADDR_D \<noteq> PIC1_ADDR_D" "PIC1_ADDR_D \<noteq> PIC0_ADDR_D"
  "PIC0_ADDR_D \<noteq> PIC0_ADDR_C" "PIC0_ADDR_D \<noteq> PIC1_ADDR_C" "PIC1_ADDR_D \<noteq> PIC0_ADDR_C" "PIC1_ADDR_D \<noteq> PIC1_ADDR_C"
  by (simp_all add: pic_consts)

lemma io_outportb [simp]: "io (outportb p d s) = io s @ [(p, d)]"
  by (simp add: outportb_def)

lemma configured_outportb:
  "\<lbrakk>configured (io s); p \<notin> {PIC0_ADDR_C, PIC1_ADDR_C}\<rbrakk> \<Longrightarrow> configured (io (outportb p d s))"
  using configured_snoc by auto

lemma irq_number:
  assumes "n < 16"
  shows "\<not> 15 < (of_nat n :: u8)" "(of_nat n :: u8) < 8 \<longleftrightarrow> n < 8" "unat (of_nat n :: u8) = n"
    "8 \<le> n \<Longrightarrow> unat (of_nat n - 8 :: u8) = n - 8"
proof -
  show u: "unat (of_nat n :: u8) = n" using assms by (simp add: unat_of_nat)
  then show "\<not> 15 < (of_nat n :: u8)" "(of_nat n :: u8) < 8 \<longleftrightarrow> n < 8"
    using assms by (simp_all add: word_less_nat_alt)
  show "unat (of_nat n - 8 :: u8) = n - 8" if "8 \<le> n"
    using that u by (simp add: unat_sub word_le_nat_alt)
qed

lemma bit_flag: "k < 8 \<Longrightarrow> bit (ucast (push_bit j (1 :: u32)) :: u8) k \<longleftrightarrow> k = j"
  by (auto simp: bit_simps)

lemma clear_mask_low:
  assumes "reads_mask inb" "configured (io s)" "n < 8" "k < 16"
  shows "masked (pic_clear_mask inb (of_nat n) s) k \<longleftrightarrow> masked s k \<and> k \<noteq> n"
  using assms irq_number [of n]
  by (auto simp: pic_clear_mask_def masked_def inportb_def reads_mask_def Let_def bit_simps bit_flag)

lemma clear_mask_high:
  assumes "reads_mask inb" "configured (io s)" "8 \<le> n" "n < 16" "k < 16"
  shows "masked (pic_clear_mask inb (of_nat n) s) k \<longleftrightarrow> masked s k \<and> k \<noteq> n - 8"
  using assms irq_number [of n]
  by (auto simp: pic_clear_mask_def masked_def inportb_def reads_mask_def Let_def bit_simps bit_flag)

lemma set_mask_result:
  assumes "reads_mask inb" "configured (io s)" "n < 16" "k < 16"
  shows "masked (pic_set_mask inb (of_nat n) s) k \<longleftrightarrow> masked s k \<or> k = n"
  using assms irq_number [of n]
  by (auto simp: pic_set_mask_def masked_def inportb_def reads_mask_def Let_def bit_simps bit_flag)

lemma mask_configured:
  assumes "configured (io s)"
  shows "configured (io (pic_clear_mask inb n s))" "configured (io (pic_set_mask inb n s))"
  using assms by (auto simp: pic_clear_mask_def pic_set_mask_def Let_def intro!: configured_snoc)

lemma masked_update [simp]:
  "masked (s\<lparr>irq_handlers := x\<rparr>) k = masked s k" "masked (s\<lparr>exception_handlers := y\<rparr>) k = masked s k"
  by (simp_all add: masked_def)

lemma pic_init_io: "io (pic_init s) = io s @ init_words @ [(PIC0_ADDR_D, 0xFF), (PIC1_ADDR_D, 0xFF)]"
  by (simp add: pic_init_def init_words_def Let_def PIC_ICW1_ICW4_def PIC_ICW1_INIT_def)

lemma init_interrupts_result:
  shows "configured (io (arch_init_interrupts s))" and "k < 16 \<Longrightarrow> masked (arch_init_interrupts s) k"
    and "irq_handlers (arch_init_interrupts s) = replicate 16 None"
    and "exception_handlers (arch_init_interrupts s) = replicate 32 None"
proof -
  let ?s = "arch_init_interrupts s"
  have io: "io ?s = io s @ init_words @ [(PIC0_ADDR_D, 0xFF), (PIC1_ADDR_D, 0xFF)]"
    by (simp add: arch_init_interrupts_def pic_init_io)
  then show "configured (io ?s)" unfolding configured_def by (intro exI conjI, assumption) auto
  have f: "(0xFF :: u8) = mask 8" by (simp add: mask_eq_exp_minus_1)
  have "last_out PIC0_ADDR_D (io ?s) = 0xFF" "last_out PIC1_ADDR_D (io ?s) = 0xFF"
    unfolding io by (simp_all add: last_out_append)
  then show "masked ?s k" if "k < 16" using that unfolding masked_def f by (auto simp: bit_mask_iff)
  show "irq_handlers ?s = replicate 16 None" "exception_handlers ?s = replicate 32 None"
    by (simp_all add: arch_init_interrupts_def pic_init_def outportb_def Let_def IRQ_COUNT_def EXCEPTION_COUNT_def
        del: replicate_numeral_Cons)
qed

lemma pic_rest [simp]:
  "irq_handlers (pic_clear_mask inb n s) = irq_handlers s" "irq_handlers (pic_set_mask inb n s) = irq_handlers s"
  "irq_handlers (outportb p d s) = irq_handlers s"
  by (simp_all add: pic_clear_mask_def pic_set_mask_def outportb_def Let_def)

lemma set_handler_low:
  assumes inb: "reads_mask inb" and s: "configured (io s)" and n: "n < 8"
  shows "\<exists>s'. irq_set_handler inb (int n) h s = Some s' \<and> configured (io s')
      \<and> irq_handlers s' = (irq_handlers s)[n := Some h] \<and> (\<forall>k<16. masked s' k \<longleftrightarrow> masked s k \<and> k \<noteq> n)"
proof -
  define s1 where "s1 = s\<lparr>irq_handlers := (irq_handlers s)[n := Some h]\<rparr>"
  have c: "configured (io s1)" using s by (simp add: s1_def)
  then show ?thesis
    using n clear_mask_low [OF inb c n] mask_configured(1) [OF c] by (simp add: irq_set_handler_def IRQ_COUNT_def s1_def)
qed

lemma set_handler_high:
  assumes inb: "reads_mask inb" and s: "configured (io s)" and n: "8 \<le> n" "n < 16"
  shows "\<exists>s'. irq_set_handler inb (int n) h s = Some s' \<and> configured (io s')
      \<and> irq_handlers s' = (irq_handlers s)[n := Some h] \<and> (\<forall>k<16. masked s' k \<longleftrightarrow> masked s k \<and> k \<noteq> n - 8)"
proof -
  define s1 where "s1 = s\<lparr>irq_handlers := (irq_handlers s)[n := Some h]\<rparr>"
  have c: "configured (io s1)" using s by (simp add: s1_def)
  then show ?thesis
    using n clear_mask_high [OF inb c n] mask_configured(1) [OF c] by (simp add: irq_set_handler_def IRQ_COUNT_def s1_def)
qed

lemma clear_handler_result:
  assumes inb: "reads_mask inb" and s: "configured (io s)" and n: "n < 16"
  shows "\<exists>s'. irq_clear_handler inb (int n) s = Some s' \<and> configured (io s')
      \<and> irq_handlers s' = (irq_handlers s)[n := None] \<and> (\<forall>k<16. masked s' k \<longleftrightarrow> masked s k \<or> k = n)"
proof -
  define s1 where "s1 = s\<lparr>irq_handlers := (irq_handlers s)[n := None]\<rparr>"
  have c: "configured (io s1)" using s by (simp add: s1_def)
  then show ?thesis
    using n set_mask_result [OF inb c n] mask_configured(2) [OF c] by (simp add: irq_clear_handler_def IRQ_COUNT_def s1_def)
qed

lemma low_byte: "unat (ucast (d AND 0xFF) :: u8) = unat (d :: u32) mod 256"
proof -
  have "d AND 0xFF = take_bit 8 d" by (simp add: take_bit_eq_mask mask_eq_exp_minus_1)
  then have "unat (d AND 0xFF) = unat d mod 256" by (simp only: unsigned_take_bit_eq) (simp add: take_bit_eq_mod)
  then show ?thesis by (simp add: unsigned_ucast_eq take_bit_eq_mod)
qed

lemma divisor_bytes:
  assumes "19 \<le> unat (f :: u32)" and d: "d = 1193180 div f"
  shows "unat (ucast (d AND 0xFF) :: u8) + 256 * unat (ucast (drop_bit 8 d AND 0xFF) :: u8) = 1193180 div unat f"
proof -
  define x where "x = 1193180 div unat f"
  have u: "unat d = x" unfolding d x_def unat_div_distrib by simp
  have "x \<le> 1193180 div 19" unfolding x_def using assms(1) by (rule div_le_mono2 [rotated]) simp
  then have x: "x div 256 < 256" by simp
  have "unat (drop_bit 8 d) = x div 256"
    unfolding u [symmetric] by (simp only: unat_drop_bit_eq) (simp add: drop_bit_eq_div)
  then show ?thesis using x by (simp add: low_byte u flip: x_def)
qed

lemma timer_init_result:
  assumes "reads_mask inb" "configured (io s)" "19 \<le> unat frequency"
  shows "\<exists>s' l h m. arch_timer_init inb frequency callback s = Some s'
    \<and> io s' = io s @ [(0x43, 0x36), (0x40, l), (0x40, h), (PIC0_ADDR_D, m)]
    \<and> unat l + 256 * unat h = 1193180 div unat frequency
    \<and> irq_handlers s' = (irq_handlers s)[0 := Some callback] \<and> (\<forall>k<16. masked s' k \<longleftrightarrow> masked s k \<and> k \<noteq> 0)"
proof -
  define d where "d = 1193180 div frequency"
  define s1 where "s1 = outportb 0x40 (ucast (drop_bit 8 d AND 0xFF)) (outportb 0x40 (ucast (d AND 0xFF)) (outportb 0x43 0x36 s))"
  have eq: "arch_timer_init inb frequency callback s = irq_set_handler inb (int 0) callback s1"
    by (simp add: arch_timer_init_def s1_def d_def Let_def)
  have io: "io s1 = io s @ [(0x43, 0x36), (0x40, ucast (d AND 0xFF)), (0x40, ucast (drop_bit 8 d AND 0xFF))]"
    by (simp add: s1_def)
  have "configured (io s1)" unfolding s1_def
    by (intro configured_outportb assms(2)) (simp_all add: pic_consts)
  from set_handler_low [OF assms(1) this, of 0 callback] obtain s' where
    s': "irq_set_handler inb (int 0) callback s1 = Some s'" "irq_handlers s' = (irq_handlers s1)[0 := Some callback]"
      "\<forall>k<16. masked s' k \<longleftrightarrow> masked s1 k \<and> k \<noteq> 0" by auto
  obtain m where m: "io s' = io s1 @ [(PIC0_ADDR_D, m)]"
    using s'(1) by (auto simp: irq_set_handler_def IRQ_COUNT_def pic_clear_mask_def Let_def)
  have h: "irq_handlers s1 = irq_handlers s" by (simp add: s1_def)
  have "masked s1 k = masked s k" for k by (simp add: masked_def io last_out_append pic_consts)
  then show ?thesis
    using eq s' m io h divisor_bytes [OF assms(3) d_def] by (intro exI [of _ s'] exI conjI) auto
qed

lemma timer_init_exceptions:
  "arch_timer_init inb frequency callback s = Some s' \<Longrightarrow> exception_handlers s' = exception_handlers s"
  by (auto simp: arch_timer_init_def irq_set_handler_def pic_clear_mask_def outportb_def Let_def split: if_splits)

section \<open>Properties\<close>

text \<open>C37: Registering a handler for one of the first eight interrupt requests installs it and unmasks
  exactly that line; clearing the handler of any request removes it and masks exactly its line.\<close>

theorem irq_handlers_and_masks:
  assumes inb: "reads_mask inb" and s: "configured (io s)" and n: "n < 8" "j < 16"
  shows "(\<exists>s'. irq_set_handler inb (int n) h s = Some s' \<and> configured (io s')
      \<and> irq_handlers s' = (irq_handlers s)[n := Some h] \<and> (\<forall>k<16. masked s' k \<longleftrightarrow> masked s k \<and> k \<noteq> n))
    \<and> (\<exists>s'. irq_clear_handler inb (int j) s = Some s' \<and> configured (io s')
      \<and> irq_handlers s' = (irq_handlers s)[j := None] \<and> (\<forall>k<16. masked s' k \<longleftrightarrow> masked s k \<or> k = j))"
  using set_handler_low [OF inb s n(1)] clear_handler_result [OF inb s n(2)] by blast

text \<open>Registering a handler for one of the requests 8 to 15 installs it but leaves its line masked: it
  unmasks the line eight below, of the other controller.\<close>

theorem irq_high_stays_masked:
  assumes inb: "reads_mask inb" and s: "configured (io s)" and n: "8 \<le> n" "n < 16"
  shows "\<exists>s'. irq_set_handler inb (int n) h s = Some s' \<and> irq_handlers s' = (irq_handlers s)[n := Some h]
    \<and> (\<forall>k<16. masked s' k \<longleftrightarrow> masked s k \<and> k \<noteq> n - 8)"
  using set_handler_high [OF inb s n] by blast

text \<open>An interrupt request runs its handler and is then acknowledged to the controllers it came
  through, the second one first; a request or an exception without a handler is a kernel panic.\<close>

theorem irq_handler_acknowledges:
  assumes "n < 16"
  shows "irq_handler run (of_nat n) s = Some (case irq_handlers s ! n of
      None \<Rightarrow> Inl (Unhandled_irq (of_nat n))
    | Some h \<Rightarrow> Inr ((run h s)\<lparr>io := io (run h s) @
        (if n < 8 then [] else [(PIC1_ADDR_C, PIC_EOI)]) @ [(PIC0_ADDR_C, PIC_EOI)]\<rparr>))"
proof -
  have "unat (of_nat n :: u32) = n" "ucast (of_nat n :: u32) = (of_nat n :: u8)"
    using assms by (simp_all add: unat_of_nat unsigned_of_nat take_bit_nat_eq_self)
  moreover have "7 < (of_nat n :: u8) \<longleftrightarrow> \<not> n < 8"
    using irq_number(3) [OF assms] by (simp add: word_less_nat_alt not_less) arith
  ultimately show ?thesis
    using assms by (auto simp: irq_handler_def IRQ_COUNT_def pic_eoi_def outportb_def Let_def split: option.splits)
qed

text \<open>The timer is programmed with the divisor of its input clock for the frequency, low byte
  first, when the divisor fits its 16 bits; then its handler is installed and line 0 unmasked.\<close>

theorem timer_divisor:
  assumes "reads_mask inb" "configured (io s)" "19 \<le> unat frequency"
  shows "\<exists>s' l h m. arch_timer_init inb frequency callback s = Some s'
    \<and> io s' = io s @ [(0x43, 0x36), (0x40, l), (0x40, h), (PIC0_ADDR_D, m)]
    \<and> unat l + 256 * unat h = 1193180 div unat frequency
    \<and> irq_handlers s' = (irq_handlers s)[0 := Some callback] \<and> \<not> masked s' 0"
  using timer_init_result [OF assms, of callback] by fastforce

section \<open>Witnesses\<close>

definition demo_interrupts :: "(nat, nat) interrupts" where
  "demo_interrupts = arch_init_interrupts \<lparr>exception_handlers = [], irq_handlers = [], io = []\<rparr>"

lemma last_out_reads: "reads_mask (\<lambda>tr p. last_out p tr)"
  by (simp add: reads_mask_def)

theorem irq_handlers_and_masks_witness:
  "\<exists>s'. irq_set_handler (\<lambda>tr p. last_out p tr) 1 7 demo_interrupts = Some s' \<and> \<not> masked s' 1 \<and> masked s' 9"
proof -
  have c: "configured (io demo_interrupts)" "masked demo_interrupts 9"
    by (simp_all add: demo_interrupts_def init_interrupts_result(1,2))
  from irq_handlers_and_masks [OF last_out_reads c(1), of 1 0 7] c(2) show ?thesis by auto
qed

theorem irq_high_stays_masked_witness:
  "\<exists>s'. irq_set_handler (\<lambda>tr p. last_out p tr) 9 7 demo_interrupts = Some s' \<and> masked s' 9 \<and> \<not> masked s' 1"
proof -
  have c: "configured (io demo_interrupts)" "masked demo_interrupts 9"
    by (simp_all add: demo_interrupts_def init_interrupts_result(1,2))
  from irq_high_stays_masked [OF last_out_reads c(1), of 9 7] c(2) show ?thesis by auto
qed

theorem irq_handler_acknowledges_witness:
  "irq_handler (\<lambda>h s. s) 9 demo_interrupts = Some (Inl (Unhandled_irq 9))"
  using irq_handler_acknowledges [of 9 "\<lambda>h s. s" demo_interrupts]
  by (simp add: demo_interrupts_def init_interrupts_result(3))

theorem timer_divisor_witness:
  "\<exists>s'. arch_timer_init (\<lambda>tr p. last_out p tr) 1000 5 demo_interrupts = Some s' \<and> \<not> masked s' 0"
proof -
  have c: "configured (io demo_interrupts)" by (simp add: demo_interrupts_def init_interrupts_result(1))
  have "19 \<le> unat (1000 :: u32)" by simp
  from timer_divisor [OF last_out_reads c this, of 5] show ?thesis by blast
qed

end
