(* ===== verification/KBoot.thy ===== *)
theory KBoot
  imports KSystem KMMap KConsole KDescriptors KInterrupts
begin

text \<open>
  The whole of \<open>kernel_early\<close> and \<open>kernel_main\<close> (src/system/kernel/main.c): the machine as the boot loader leaves
  it, the initialisation of every part of the kernel in the order of the code, what is printed on the way, and the
  state in which the first task runs. The components keep their own records; the machine puts them together.

  The addresses the linker fixes, those of the string literals among them, are the record \<open>linked\<close>. A panic of
  \<open>kernel_early\<close> itself is \<open>Inl\<close> with the screen it leaves; \<open>None\<close> is a panic further down.
\<close>

section \<open>The machine\<close>

record linked =
  start_of_kernel :: addr
  end_of_kernel :: addr
  start_of_kernel_phys :: addr
  end_of_kernel_phys :: addr
  commandline_at :: addr
  gdt_at :: addr
  idt_at :: addr
  tss_at :: addr
  isr_at :: "nat \<Rightarrow> addr"
  irq_at :: "nat \<Rightarrow> addr"
  kernel_call_at :: addr
  timer_callback_at :: addr
  idle_at :: addr
  task_at :: "nat \<Rightarrow> addr"
  literal :: "u8 list \<Rightarrow> addr"

record machine =
  console :: display
  console_cb :: "display callbacks"
  heap_cb :: "kheap callbacks"
  cpu_tables :: tables
  intr :: "(addr, addr) interrupts"
  kinfo_arr :: "nat \<Rightarrow> mem_entry"
  kinfo_mmap :: "mem_entry list"
  ksys :: ksystem

definition MULTIBOOT_BOOTLOADER_MAGIC :: u32 where "MULTIBOOT_BOOTLOADER_MAGIC = 0x2BADB002"
definition MULTIBOOT_INFO_CMDLINE :: u32 where "MULTIBOOT_INFO_CMDLINE = 4"
definition COLOR_BLUE :: u32 where "COLOR_BLUE = 1"
definition COLOR_LIGHT_BROWN :: u32 where "COLOR_LIGHT_BROWN = 14"

text \<open>The fields of \<open>multiboot_info_t\<close> the kernel reads, in the memory.\<close>

definition info_flags :: "mem \<Rightarrow> addr \<Rightarrow> u32" where "info_flags m bootinfo = ld32 m bootinfo"
definition info_cmdline :: "mem \<Rightarrow> addr \<Rightarrow> addr" where "info_cmdline m bootinfo = ld32 m (bootinfo + 16)"
definition info_mmap_length :: "mem \<Rightarrow> addr \<Rightarrow> u32" where "info_mmap_length m bootinfo = ld32 m (bootinfo + 44)"
definition info_mmap_addr :: "mem \<Rightarrow> addr \<Rightarrow> addr" where "info_mmap_addr m bootinfo = ld32 m (bootinfo + 48)"

section \<open>The string literals\<close>

definition codes :: "string \<Rightarrow> u8 list" where
  "codes = map of_char"

definition magic_text :: "u8 list" where "magic_text = codes ''Elco-OS should be loaded with a valid multiboot bootloader!'' @ [10]"
definition memmap_text :: "u8 list" where "memmap_text = codes ''Memmap:'' @ [10]"
definition start_text :: "u8 list" where "start_text = 9 # codes ''Start: '' @ [0x25, 0x78]"
definition len_text :: "u8 list" where "len_text = 9 # codes ''len: '' @ [0x25, 0x78]"
definition type_text :: "u8 list" where "type_text = 9 # codes ''type: '' @ [0x25, 0x75, 10]"
definition total_text :: "u8 list" where
  "total_text = [0x25, 0x75] @ codes '' entries, '' @ [0x25, 0x75] @ codes '' MB available'' @ [10]"
definition started_text :: "u8 list" where "started_text = codes ''started'' @ [10]"
definition model_text :: "u8 list" where "model_text = codes ''CPU Model: '' @ [0x25, 0x78, 10]"

definition logo :: "u8 list" where
  "logo = codes (
     ''                                                                                '' @
     ''             #### ##      ####    ####              ####     #####              '' @
     ''             ##   ##    ##      ##    ##          ##    ##  ##                  '' @
     ''             ###  ##    ##      ##    ##  ######  ##    ##   #####              '' @
     ''             ##   ##    ##      ##    ##          ##    ##       ##             '' @
     ''             #### ####    ####    ####              ####     #####              '' @
     ''                                                                                '')"

definition boot_literals :: "u8 list list" where
  "boot_literals = [[], [10], memmap_text, start_text, len_text, type_text, total_text, started_text, model_text, logo]"

section \<open>kernel_early\<close>

definition kprint :: "linked \<Rightarrow> u8 list \<Rightarrow> u32 list \<Rightarrow> machine \<Rightarrow> machine option" where
  "kprint L text args s =
     map_option (\<lambda>(_, d). s\<lparr>console := d\<rparr>) (kprintf (kmem (ksys s)) (console_cb s) (literal L text) args (console s))"

definition read_commandline :: "linked \<Rightarrow> addr \<Rightarrow> mem \<Rightarrow> mem option" where
  "read_commandline L bootinfo m =
     (if info_flags m bootinfo AND MULTIBOOT_INFO_CMDLINE \<noteq> 0
      then Some ((fst (kstrncpy m (commandline_at L) (info_cmdline m bootinfo) 127))(commandline_at L + 127 := 0))
      else map_option fst (kstrcpy m (commandline_at L) (literal L [])))"

text \<open>The loop that prints the regions and adds up the free ones.\<close>

primrec show_map :: "linked \<Rightarrow> mem_entry list \<Rightarrow> u32 \<Rightarrow> machine \<Rightarrow> (u32 \<times> machine) option" where
  "show_map L [] free s = Some (free, s)"
| "show_map L (e # es) free s =
     Option.bind (kprint L start_text [me_address e] s) (\<lambda>s.
     Option.bind (kprint L len_text [me_size e] s) (\<lambda>s.
     Option.bind (kprint L type_text [me_type e] s) (\<lambda>s.
       show_map L es (if me_type e = 1 then free + me_size e else free) s)))"

definition kernel_early ::
  "(trace \<Rightarrow> u16 \<Rightarrow> u8) \<Rightarrow> linked \<Rightarrow> u32 \<Rightarrow> u32 \<Rightarrow> addr \<Rightarrow> machine \<Rightarrow> (display + machine) option" where
  "kernel_early inb L dir loader_magic bootinfo s =
     (let (d, cb) = init_console (console s) (console_cb s);
          s = s\<lparr>console := d, console_cb := cb\<rparr>
      in if loader_magic \<noteq> MULTIBOOT_BOOTLOADER_MAGIC
         then map_option Inl (kpanic (kmem (ksys s)) (console_cb s) (literal L panic_format) (literal L magic_text) (console s))
         else Option.bind (read_commandline L bootinfo (kmem (ksys s))) (\<lambda>m.
           Option.bind (get_mmap (kinfo_arr s) m (info_flags m bootinfo) (info_mmap_addr m bootinfo)
               (info_mmap_length m bootinfo) (start_of_kernel_phys L) (end_of_kernel_phys L)) (\<lambda>regions.
           let s = s\<lparr>ksys := (ksys s)\<lparr>kmem := m\<rparr>, kinfo_mmap := regions\<rparr> in
           Option.bind (kprint L memmap_text [] s) (\<lambda>s.
           Option.bind (show_map L regions 0 s) (\<lambda>(free, s).
           Option.bind (kprint L total_text [of_nat (length regions), drop_bit 20 free] s) (\<lambda>s.
           let s = s\<lparr>cpu_tables := arch_init_tables (gdt_at L) (idt_at L) (tss_at L) (isr_at L) (irq_at L) (kernel_call_at L) (cpu_tables s)\<rparr>;
               s = s\<lparr>intr := arch_init_interrupts (intr s)\<rparr>
           in Option.bind (system_early regions (start_of_kernel L) (end_of_kernel L) (heap_cb s) (idle_at L) dir (ksys s)) (\<lambda>(cb, k).
              map_option (\<lambda>i. Inr (s\<lparr>heap_cb := cb, ksys := k, intr := i\<rparr>))
                (arch_timer_init inb KERNEL_CLOCK_FREQ (timer_callback_at L) (intr s)))))))))"

section \<open>kernel_main\<close>

definition set_colour :: "u32 \<Rightarrow> u32 \<Rightarrow> machine \<Rightarrow> machine" where
  "set_colour fg bg s = s\<lparr>console := arch_display_setcolor fg bg (console s)\<rparr>"

definition print_logo :: "linked \<Rightarrow> machine \<Rightarrow> machine option" where
  "print_logo L s =
     Option.bind (kprint L logo [] (set_colour COLOR_LIGHT_BROWN COLOR_BLUE s)) (\<lambda>s.
       kprint L [10] [] (set_colour COLOR_LIGHT_GREY COLOR_BLACK s))"

text \<open>\<open>cpuid\<close> is what the processor answers to the instruction of that name.\<close>

definition get_model :: "(u32 \<Rightarrow> u32 \<times> u32 \<times> u32 \<times> u32) \<Rightarrow> u32" where
  "get_model cpuid = (case cpuid 0 of (eax, ebx, ecx, edx) \<Rightarrow> ebx)"

definition kernel_main_console :: "linked \<Rightarrow> (u32 \<Rightarrow> u32 \<times> u32 \<times> u32 \<times> u32) \<Rightarrow> machine \<Rightarrow> machine option" where
  "kernel_main_console L cpuid s =
     Option.bind (print_logo L s) (\<lambda>s.
     Option.bind (kprint L started_text [] s) (\<lambda>s.
     Option.bind (kprint L model_text [get_model cpuid] s) (\<lambda>s.
       map_option (\<lambda>k. s\<lparr>ksys := k\<rparr>)
         (kernel_main (kernel_alloc (heap_cb s)) (task_at L 1) (task_at L 2) (task_at L 3) (task_at L 4) (ksys s)))))"

section \<open>Printing on the console\<close>

definition console_ok :: "machine \<Rightarrow> bool" where
  "console_ok s \<longleftrightarrow> cursor_ok (console s) \<and> display_initialized (console s) \<and> PUTC_CALLBACK (console_cb s) = arch_display_putc"

definition printed :: "u8 list \<Rightarrow> machine \<Rightarrow> machine \<Rightarrow> bool" where
  "printed out s s' \<longleftrightarrow> s' = s\<lparr>console := console s'\<rparr> \<and> console_ok s' \<and> display_color (console s') = display_color (console s)
     \<and> terminal (console s') = fold (term_putc (display_color (console s))) out (terminal (console s))"

lemma printed_trans: "printed a s s1 \<Longrightarrow> printed b s1 s2 \<Longrightarrow> printed (a @ b) s s2"
  by (cases s; cases s1; cases s2) (simp add: printed_def)

lemma printedD:
  assumes "printed out s s'"
  shows "console_ok s'" "ksys s' = ksys s" "intr s' = intr s" "cpu_tables s' = cpu_tables s" "heap_cb s' = heap_cb s"
    "kinfo_mmap s' = kinfo_mmap s" "kinfo_arr s' = kinfo_arr s" "display_color (console s') = display_color (console s)"
    "terminal (console s') = fold (term_putc (display_color (console s))) out (terminal (console s))"
proof -
  have e: "s' = s\<lparr>console := console s'\<rparr>" using assms by (simp add: printed_def)
  show "ksys s' = ksys s" "intr s' = intr s" "cpu_tables s' = cpu_tables s" "heap_cb s' = heap_cb s"
    "kinfo_mmap s' = kinfo_mmap s" "kinfo_arr s' = kinfo_arr s"
    by (subst e, simp)+
qed (use assms in \<open>simp_all add: printed_def\<close>)

lemma kprint_printed:
  assumes "console_ok s" "cstr (kmem (ksys s)) (literal L t) t" "render (\<lambda>_. None) t args = Some out"
  obtains s' where "kprint L t args s = Some s'" "printed out s s'"
proof -
  have "display_initialized d'" if "same_outside (console s) d'" for d'
    using that assms(1) by (simp add: same_outside_def console_ok_def)
  moreover obtain d' where d: "kprintf (kmem (ksys s)) (console_cb s) (literal L t) args (console s) = Some (of_nat (length out), d')"
    "terminal d' = fold (term_putc (display_color (console s))) out (terminal (console s))" "cursor_ok d'" "same_outside (console s) d'"
    using kprintf_console [OF _ assms(2,3), of "console s" "console_cb s"] assms(1) by (auto simp: console_ok_def)
  ultimately show ?thesis using that [of "s\<lparr>console := d'\<rparr>"] assms(1)
    by (simp add: kprint_def printed_def console_ok_def same_outside_def)
qed

section \<open>The texts\<close>

lemma codes_byte: "of_char c = (of_char d :: u8) \<longleftrightarrow> c = d"
proof
  have n: "(of_char x :: nat) < 256" for x by simp
  assume "of_char c = (of_char d :: u8)"
  then have "(of_nat (of_char c) :: u8) = of_nat (of_char d)" by (simp only: of_nat_of_char)
  then have "unat (of_nat (of_char c) :: u8) = unat (of_nat (of_char d) :: u8)" by (rule arg_cong)
  then have "(of_char c :: nat) = of_char d" using n by (simp add: unat_of_nat)
  then show "c = d" by simp
qed simp

lemma codes_plain: "CHR ''%'' \<notin> set cs \<Longrightarrow> \<forall>c \<in> set (codes cs). c \<noteq> 0x25"
  "CHR 0x00 \<notin> set cs \<Longrightarrow> 0 \<notin> set (codes cs)"
  using codes_byte [of _ "CHR ''%''"] codes_byte [of _ "CHR 0x00"] by (force simp: codes_def)+

lemma render_codes:
  "CHR ''%'' \<notin> set cs \<Longrightarrow> render str (codes cs @ ys) args = map_option ((@) (codes cs)) (render str ys args)"
  by (rule render_literal) (rule codes_plain(1))

text \<open>What \<open>kernel_early\<close> reports of the memory map.\<close>

definition start_shown :: "mem_entry \<Rightarrow> u8 list" where "start_shown e = 9 # codes ''Start: '' @ digits_of 16 (unat (me_address e))"
definition len_shown :: "mem_entry \<Rightarrow> u8 list" where "len_shown e = 9 # codes ''len: '' @ digits_of 16 (unat (me_size e))"
definition type_shown :: "mem_entry \<Rightarrow> u8 list" where "type_shown e = 9 # codes ''type: '' @ digits_of 10 (unat (me_type e)) @ [10]"

definition region_line :: "mem_entry \<Rightarrow> u8 list" where
  "region_line e = start_shown e @ len_shown e @ type_shown e"

definition free_bytes :: "mem_entry list \<Rightarrow> u32" where
  "free_bytes es = sum_list (map me_size (filter (\<lambda>e. me_type e = 1) es))"

definition total_shown :: "mem_entry list \<Rightarrow> u8 list" where
  "total_shown es = digits_of 10 (unat (of_nat (length es) :: u32)) @ codes '' entries, '' @
     digits_of 10 (unat (drop_bit 20 (free_bytes es))) @ codes '' MB available'' @ [10]"

definition map_report :: "mem_entry list \<Rightarrow> u8 list" where
  "map_report es = memmap_text @ concat (map region_line es) @ total_shown es"

definition model_shown :: "u32 \<Rightarrow> u8 list" where
  "model_shown cpu_model = codes ''CPU Model: '' @ digits_of 16 (unat cpu_model) @ [10]"

lemma boot_renders:
  "render str memmap_text [] = Some memmap_text" "render str started_text [] = Some started_text" "render str [10] [] = Some [10]"
  "render str logo [] = Some logo"
  "render str start_text [me_address e] = Some (start_shown e)" "render str len_text [me_size e] = Some (len_shown e)"
  "render str type_text [me_type e] = Some (type_shown e)" "render str model_text [cpu_model] = Some (model_shown cpu_model)"
  "render str total_text [of_nat (length es), drop_bit 20 (free_bytes es)] = Some (total_shown es)"
proof -
  show "render str logo [] = Some logo" using render_codes [of _ str "[]"] by (simp add: logo_def)
qed (simp_all add: memmap_text_def started_text_def start_text_def len_text_def type_text_def model_text_def total_text_def
    start_shown_def len_shown_def type_shown_def model_shown_def total_shown_def render_codes)

section \<open>The run of the boot\<close>

definition literals_at :: "mem \<Rightarrow> linked \<Rightarrow> bool" where
  "literals_at m L \<longleftrightarrow> (\<forall>t \<in> set boot_literals. cstr m (literal L t) t)"

lemma literals_atD:
  assumes "literals_at m L"
  shows "cstr m (literal L [10]) [10]" "cstr m (literal L memmap_text) memmap_text" "cstr m (literal L start_text) start_text"
    "cstr m (literal L len_text) len_text" "cstr m (literal L type_text) type_text" "cstr m (literal L total_text) total_text"
    "cstr m (literal L started_text) started_text" "cstr m (literal L model_text) model_text" "cstr m (literal L logo) logo"
  using assms by (simp_all add: literals_at_def boot_literals_def)

lemma show_map_printed:
  assumes "console_ok s" "literals_at (kmem (ksys s)) L"
  obtains s' where "show_map L es free s = Some (free + free_bytes es, s')" "printed (concat (map region_line es)) s s'"
proof -
  have "\<exists>s'. show_map L es free s = Some (free + free_bytes es, s') \<and> printed (concat (map region_line es)) s s'"
    using assms
  proof (induction es arbitrary: free s)
    case Nil
    then show ?case by (cases s) (simp add: free_bytes_def printed_def)
  next
    case (Cons e es)
    note l = literals_atD [OF Cons.prems(2)]
    obtain s1 where s1: "kprint L start_text [me_address e] s = Some s1" "printed (start_shown e) s s1"
      by (rule kprint_printed [OF Cons.prems(1) l(3) boot_renders(5)])
    note p1 = printedD [OF s1(2)]
    obtain s2 where s2: "kprint L len_text [me_size e] s1 = Some s2" "printed (len_shown e) s1 s2"
      by (rule kprint_printed [OF p1(1) l(4) [folded p1(2)] boot_renders(6)])
    note p2 = printedD [OF s2(2)]
    obtain s3 where s3: "kprint L type_text [me_type e] s2 = Some s3" "printed (type_shown e) s2 s3"
      by (rule kprint_printed [OF p2(1) l(5) [folded p1(2), folded p2(2)] boot_renders(7)])
    note p3 = printedD [OF s3(2)]
    have lit: "literals_at (kmem (ksys s3)) L" using Cons.prems(2) p1(2) p2(2) p3(2) by simp
    obtain s' where s': "show_map L es (if me_type e = 1 then free + me_size e else free) s3
        = Some ((if me_type e = 1 then free + me_size e else free) + free_bytes es, s')" "printed (concat (map region_line es)) s3 s'"
      using Cons.IH [OF p3(1) lit] by blast
    have "printed (region_line e @ concat (map region_line es)) s s'"
      using printed_trans [OF s1(2) printed_trans [OF s2(2) printed_trans [OF s3(2) s'(2)]]] by (simp add: region_line_def [of e])
    then show ?case using s1(1) s2(1) s3(1) s'(1) by (auto simp: free_bytes_def algebra_simps)
  qed
  then show ?thesis using that by blast
qed

text \<open>The screen: stretches of text, each in its colour.\<close>

definition shown :: "(u8 \<times> u8 list) list \<Rightarrow> terminal \<Rightarrow> terminal" where
  "shown texts = fold (\<lambda>(colour, out). fold (term_putc colour) out) texts"

definition blank_terminal :: terminal where
  "blank_terminal = \<lparr>cells = replicate 2000 (make_vgaentry 0x20 7), at_row = 0, at_col = 0\<rparr>"

lemma report_printed:
  assumes "console_ok s" "literals_at (kmem (ksys s)) L"
  obtains s1 s2 s' where "kprint L memmap_text [] s = Some s1" "show_map L es 0 s1 = Some (free_bytes es, s2)"
    "kprint L total_text [of_nat (length es), drop_bit 20 (free_bytes es)] s2 = Some s'" "printed (map_report es) s s'"
proof -
  note l = literals_atD [OF assms(2)]
  obtain s1 where s1: "kprint L memmap_text [] s = Some s1" "printed memmap_text s s1"
    by (rule kprint_printed [OF assms(1) l(2) boot_renders(1)])
  note p1 = printedD [OF s1(2)]
  obtain s2 where s2: "show_map L es 0 s1 = Some (0 + free_bytes es, s2)" "printed (concat (map region_line es)) s1 s2"
    by (rule show_map_printed [OF p1(1) assms(2) [folded p1(2)]])
  note p2 = printedD [OF s2(2)]
  obtain s' where s': "kprint L total_text [of_nat (length es), drop_bit 20 (free_bytes es)] s2 = Some s'" "printed (total_shown es) s2 s'"
    by (rule kprint_printed [OF p2(1) l(6) [folded p1(2), folded p2(2)] boot_renders(9)])
  show ?thesis
    using that [OF s1(1) _ s'(1)] s2(1) printed_trans [OF s1(2) printed_trans [OF s2(2) s'(2)]] by (simp add: map_report_def)
qed

lemma set_colour_simps [simp]:
  "console_ok (set_colour fg bg s) = console_ok s" "ksys (set_colour fg bg s) = ksys s" "heap_cb (set_colour fg bg s) = heap_cb s"
  "intr (set_colour fg bg s) = intr s" "cpu_tables (set_colour fg bg s) = cpu_tables s" "kinfo_mmap (set_colour fg bg s) = kinfo_mmap s"
  "terminal (console (set_colour fg bg s)) = terminal (console s)" "display_color (console (set_colour fg bg s)) = make_color fg bg"
  by (simp_all add: set_colour_def arch_display_setcolor_def console_ok_def cursor_ok_def terminal_def screen_def cell_at_def)

lemma kernel_main_shown:
  assumes "console_ok s" "literals_at (kmem (ksys s)) L"
    and "kernel_main (kernel_alloc (heap_cb s)) (task_at L 1) (task_at L 2) (task_at L 3) (task_at L 4) (ksys s) = Some k"
  obtains s' where "kernel_main_console L cpuid s = Some s'" "ksys s' = k" "intr s' = intr s" "cpu_tables s' = cpu_tables s"
    "kinfo_mmap s' = kinfo_mmap s"
    "terminal (console s') = shown [(0x1E, logo), (7, [10] @ started_text @ model_shown (get_model cpuid))] (terminal (console s))"
proof -
  note l = literals_atD [OF assms(2)]
  define s0 where "s0 = set_colour COLOR_LIGHT_BROWN COLOR_BLUE s"
  have c: "make_color COLOR_LIGHT_BROWN COLOR_BLUE = 0x1E" "make_color COLOR_LIGHT_GREY COLOR_BLACK = 7"
    by (simp_all add: make_color_def COLOR_LIGHT_BROWN_def COLOR_BLUE_def COLOR_LIGHT_GREY_def COLOR_BLACK_def)
  have "console_ok s0" "cstr (kmem (ksys s0)) (literal L logo) logo" using assms(1) l(9) by (simp_all add: s0_def)
  then obtain s1 where s1: "kprint L logo [] s0 = Some s1" "printed logo s0 s1" by (rule kprint_printed [OF _ _ boot_renders(4)])
  note p1 = printedD [OF s1(2)]
  define s2 where "s2 = set_colour COLOR_LIGHT_GREY COLOR_BLACK s1"
  have k2: "ksys s2 = ksys s" "console_ok s2" using p1(1,2) by (simp_all add: s2_def s0_def)
  obtain s3 where s3: "kprint L [10] [] s2 = Some s3" "printed [10] s2 s3"
    by (rule kprint_printed [OF k2(2) l(1) [folded k2(1)] boot_renders(3)])
  note p3 = printedD [OF s3(2)]
  obtain s4 where s4: "kprint L started_text [] s3 = Some s4" "printed started_text s3 s4"
    by (rule kprint_printed [OF p3(1) l(7) [folded k2(1), folded p3(2)] boot_renders(2)])
  note p4 = printedD [OF s4(2)]
  obtain s5 where s5: "kprint L model_text [get_model cpuid] s4 = Some s5" "printed (model_shown (get_model cpuid)) s4 s5"
    by (rule kprint_printed [OF p4(1) l(8) [folded k2(1), folded p3(2), folded p4(2)] boot_renders(8)])
  have p: "printed ([10] @ started_text @ model_shown (get_model cpuid)) s2 s5"
    by (rule printed_trans [OF s3(2) printed_trans [OF s4(2) s5(2)]])
  note p5 = printedD [OF p]
  have eq: "ksys s5 = ksys s" "heap_cb s5 = heap_cb s" "intr s5 = intr s" "cpu_tables s5 = cpu_tables s" "kinfo_mmap s5 = kinfo_mmap s"
    using p5(2-6) p1(2-6) by (simp_all add: s2_def s0_def)
  have t: "terminal (console s5) = shown [(0x1E, logo), (7, [10] @ started_text @ model_shown (get_model cpuid))] (terminal (console s))"
    using p5(9) p1(9) by (simp add: s2_def s0_def c shown_def)
  have "print_logo L s = Some s3" using s1(1) s3(1) by (simp add: print_logo_def s0_def s2_def)
  then have run: "kernel_main_console L cpuid s = Some (s5\<lparr>ksys := k\<rparr>)"
    using s4(1) s5(1) assms(3) by (simp add: kernel_main_console_def eq(1,2))
  show ?thesis by (rule that [OF run]) (use eq t in simp_all)
qed

text \<open>The gates of the interrupt table are those of the kernel, and no others.\<close>

definition gates_set :: "linked \<Rightarrow> tables \<Rightarrow> bool" where
  "gates_set L t \<longleftrightarrow> gdtr t = (47, gdt_at L) \<and> idtr t = (2047, idt_at L) \<and> (\<forall>v < 256.
     gate_present (idt t ! v) = (vector_entry (isr_at L) (irq_at L) (kernel_call_at L) v \<noteq> None)
     \<and> (\<forall>e. vector_entry (isr_at L) (irq_at L) (kernel_call_at L) v = Some e \<longrightarrow>
           gate_offset (idt t ! v) = e \<and> selector (idt t ! v) = 8))"

text \<open>Only the timer is enabled, its handler is the clock's, and no exception has a handler.\<close>

definition timer_armed :: "linked \<Rightarrow> (addr, addr) interrupts \<Rightarrow> bool" where
  "timer_armed L i \<longleftrightarrow> irq_handlers i = (replicate 16 None)[0 := Some (timer_callback_at L)] \<and> (\<forall>k < 16. masked i k \<longleftrightarrow> k \<noteq> 0)
     \<and> exception_handlers i = replicate 32 None"

lemma timer_armed_init:
  assumes "reads_mask inb"
  obtains i where "arch_timer_init inb KERNEL_CLOCK_FREQ (timer_callback_at L) (arch_init_interrupts i0) = Some i" "timer_armed L i"
proof -
  note n = init_interrupts_result [where s = i0]
  have "19 \<le> unat KERNEL_CLOCK_FREQ" by (simp add: KERNEL_CLOCK_FREQ_def)
  from timer_init_result [OF assms n(1) this, of "timer_callback_at L"] obtain i where
    i: "arch_timer_init inb KERNEL_CLOCK_FREQ (timer_callback_at L) (arch_init_interrupts i0) = Some i"
      "irq_handlers i = (irq_handlers (arch_init_interrupts i0))[0 := Some (timer_callback_at L)]"
      "\<forall>k<16. masked i k \<longleftrightarrow> masked (arch_init_interrupts i0) k \<and> k \<noteq> 0" by blast
  moreover have "exception_handlers i = exception_handlers (arch_init_interrupts i0)" by (rule timer_init_exceptions [OF i(1)])
  ultimately show ?thesis using that n(2) by (simp add: timer_armed_def n(3,4) del: replicate_numeral_Cons)
qed

lemma gates_set_init:
  assumes "length (gdt t) = 6"
  shows "gates_set L (arch_init_tables (gdt_at L) (idt_at L) (tss_at L) (isr_at L) (irq_at L) (kernel_call_at L) t)"
  unfolding gates_set_def
  using tables_result [OF assms _ refl, of _ "gdt_at L" "idt_at L" "tss_at L" "isr_at L" "irq_at L" "kernel_call_at L"]
  by (metis zero_less_numeral)

lemma console_ok_init:
  assumes "init_console (console s) (console_cb s) = (d, cb)"
  shows "console_ok (s\<lparr>console := d, console_cb := cb\<rparr>)" "terminal d = blank_terminal" "display_color d = 7"
proof -
  have d: "d = arch_init_display (console s)" and "PUTC_CALLBACK cb = arch_display_putc"
    using assms console_putc [of "console s" "console_cb s"] by (simp_all add: init_console_def Let_def)
  then show "console_ok (s\<lparr>console := d, console_cb := cb\<rparr>)" "terminal d = blank_terminal" "display_color d = 7"
    using init_display_result [where d = "console s"] by (simp_all add: console_ok_def blank_terminal_def del: replicate_numeral_Cons)
qed

lemma literals_kept:
  assumes "literals_at m L" "\<forall>t \<in> set boot_literals. unat (literal L t) + length t < e" "\<forall>x. unat x < e \<longrightarrow> m' x = m x"
  shows "literals_at m' L"
  unfolding literals_at_def
proof
  fix t assume t: "t \<in> set boot_literals"
  have "m' (literal L t + of_nat i) = m (literal L t + of_nat i)" if "i \<le> length t" for i
  proof -
    have b: "unat (literal L t) + i < e" using assms(2) t that by fastforce
    have "unat (literal L t + of_nat i) \<le> unat (literal L t) + i"
      by (simp add: unat_word_ariths unat_of_nat mod_add_right_eq)
    then show ?thesis using assms(3) b by simp
  qed
  then have "cstr m' (literal L t) t = cstr m (literal L t) t" by (rule cstr_cong)
  then show "cstr m' (literal L t) t" using assms(1) t by (simp add: literals_at_def)
qed

text \<open>The run of \<open>kernel_early\<close>, given that of the memory and the tasks.\<close>

lemma kernel_early_run:
  assumes cmd: "read_commandline L info (kmem (ksys s)) = Some m" and lits: "literals_at m L"
    and R: "get_mmap (kinfo_arr s) m (info_flags m info) (info_mmap_addr m info) (info_mmap_length m info)
      (start_of_kernel_phys L) (end_of_kernel_phys L) = Some R"
    and sys: "system_early R (start_of_kernel L) (end_of_kernel L) (heap_cb s) (idle_at L) dir ((ksys s)\<lparr>kmem := m\<rparr>) = Some (cb, k)"
    and dev: "reads_mask inb" "length (gdt (cpu_tables s)) = 6"
  obtains s' where "kernel_early inb L dir MULTIBOOT_BOOTLOADER_MAGIC info s = Some (Inr s')" "console_ok s'" "heap_cb s' = cb"
    "ksys s' = k" "kinfo_mmap s' = R" "timer_armed L (intr s')" "gates_set L (cpu_tables s')"
    "terminal (console s') = shown [(7, map_report R)] blank_terminal" "display_color (console s') = 7"
proof -
  obtain d pcb where i: "init_console (console s) (console_cb s) = (d, pcb)" by fastforce
  define s0 where "s0 = s\<lparr>console := d, console_cb := pcb, ksys := (ksys s)\<lparr>kmem := m\<rparr>, kinfo_mmap := R\<rparr>"
  have c0: "console_ok s0" "literals_at (kmem (ksys s0)) L"
    using console_ok_init [OF i] lits by (simp_all add: s0_def console_ok_def)
  obtain s1 s2 s3 where p: "kprint L memmap_text [] s0 = Some s1" "show_map L R 0 s1 = Some (free_bytes R, s2)"
    "kprint L total_text [of_nat (length R), drop_bit 20 (free_bytes R)] s2 = Some s3" "printed (map_report R) s0 s3"
    by (rule report_printed [OF c0])
  note p3 = printedD [OF p(4)]
  obtain ti where ti: "arch_timer_init inb KERNEL_CLOCK_FREQ (timer_callback_at L) (arch_init_interrupts (intr s)) = Some ti" "timer_armed L ti"
    by (rule timer_armed_init [OF dev(1)])
  define s' where "s' = s3\<lparr>cpu_tables := arch_init_tables (gdt_at L) (idt_at L) (tss_at L) (isr_at L) (irq_at L) (kernel_call_at L) (cpu_tables s),
    intr := ti, heap_cb := cb, ksys := k\<rparr>"
  have eq: "ksys s3 = (ksys s)\<lparr>kmem := m\<rparr>" "intr s3 = intr s" "cpu_tables s3 = cpu_tables s" "heap_cb s3 = heap_cb s" "kinfo_mmap s3 = R"
    using p3 by (simp_all add: s0_def)
  have "kernel_early inb L dir MULTIBOOT_BOOTLOADER_MAGIC info s = Some (Inr s')"
    unfolding kernel_early_def i using cmd R p(1-3) sys ti(1) by (simp add: s0_def Let_def eq s'_def)
  moreover have "console_ok s'" using p3(1) by (simp add: s'_def console_ok_def)
  ultimately show ?thesis
    using that [of s'] ti(2) gates_set_init [OF dev(2), of L] p3(8,9) console_ok_init(2,3) [OF i]
    by (simp add: s'_def eq(5) s0_def shown_def)
qed

text \<open>The machine as the boot loader and boot.S leave it. The memory map: the entries \<open>es\<close> lie in memory where the loader's
  information says, those below 4 GiB are not empty, the free ones among them end below the last page of the address space,
  the kernel is not empty, and the regions \<open>R\<close> the kernel makes of it hold four whole free pages.\<close>

definition map_loaded :: "linked \<Rightarrow> addr \<Rightarrow> mem \<Rightarrow> (nat \<Rightarrow> mem_entry) \<Rightarrow> mb_entry list \<Rightarrow> mem_entry list \<Rightarrow> bool" where
  "map_loaded L info m arr es R \<longleftrightarrow>
     map_at m (unat (info_mmap_addr m info)) es (unat (info_mmap_addr m info) + unat (info_mmap_length m info))
     \<and> unat (info_mmap_addr m info) + unat (info_mmap_length m info) < 4294967296
     \<and> boot_ok (low_entries es) \<and> free_below (low_entries es) \<and> start_of_kernel_phys L < end_of_kernel_phys L
     \<and> get_mmap arr m (info_flags m info) (info_mmap_addr m info) (info_mmap_length m info)
         (start_of_kernel_phys L) (end_of_kernel_phys L) = Some R
     \<and> 4 \<le> length (concat (map region_pages R))"

text \<open>The rest: the kernel's strings are in memory below its end, after the copy of the command line as well; the heap, which
  starts at the kernel's end, has its first two pages unmapped and lies in or above the page table of the kernel's start;
  the stack of free frames is empty, the task table is zero and the descriptor table has its six entries.\<close>

definition loaded :: "linked \<Rightarrow> addr \<Rightarrow> mb_entry list \<Rightarrow> mem_entry list \<Rightarrow> machine \<Rightarrow> bool" where
  "loaded L info es R s \<longleftrightarrow> (\<exists>m h. read_commandline L info (kmem (ksys s)) = Some m
     \<and> map_loaded L info m (kinfo_arr s) es R
     \<and> literals_at m L \<and> (\<forall>t \<in> set boot_literals. unat (literal L t) + length t < 4096 * h)
     \<and> end_of_kernel L = page_addr h \<and> 0 < h \<and> h + 2 < 1046528
     \<and> mapping (pg (hp (ksys s))) h = None \<and> mapping (pg (hp (ksys s))) (Suc h) = None \<and> PDE_NUM (start_of_kernel L) \<le> h div 1024
     \<and> frames_rep ((pg (hp (ksys s)))\<lparr>pstack_pointer := KERNEL_PSTACK_TOP\<rparr>) []
     \<and> (\<forall>i. task_flags (ptable (ksys s) i) = 0) \<and> length (gdt (cpu_tables s)) = 6)"

text \<open>What the map gives: the frames fit the stack, however large the memory.\<close>

lemma map_loaded_regions:
  assumes "map_loaded L info m arr es R"
  shows "\<forall>e \<in> set R. region_ok e" "length (concat (map region_pages R)) \<le> STACK_MAX" "4 \<le> length (concat (map region_pages R))"
    "region_type R a = mem_type (low_entries es) (start_of_kernel_phys L) (end_of_kernel_phys L) a"
proof -
  let ?a = "info_mmap_addr m info" and ?n = "info_mmap_length m info" and ?f = "info_flags m info"
    and ?ks = "start_of_kernel_phys L" and ?ke = "end_of_kernel_phys L"
  have mem: "map_at m (unat ?a) es (unat ?a + unat ?n)" "unat ?a + unat ?n < 4294967296"
    and ok: "boot_ok (low_entries es)" "free_below (low_entries es)" "?ks < ?ke" and R: "get_mmap arr m ?f ?a ?n ?ks ?ke = Some R"
    using assms by (simp_all add: map_loaded_def)
  have n: "length (low_entries es) \<le> 64" by (rule ccontr) (use R get_mmap_panics [OF mem, of arr ?f ?ks ?ke] in simp)
  have f: "?f AND MULTIBOOT_INFO_MEM_MAP \<noteq> 0" using R by (auto simp: get_mmap_def)
  obtain R' where R': "get_mmap arr m ?f ?a ?n ?ks ?ke = Some R'" "sanitise arr (low_entries es) ?ks ?ke = Some R'" "regions_ok R'"
    "\<And>x. region_type R' x = mem_type (low_entries es) ?ks ?ke x"
    by (rule get_mmap_result [OF f mem n ok(1,3), of arr]) (rule that)
  then have ro: "sanitise arr (low_entries es) ?ks ?ke = Some R" "regions_ok R" "region_type R a = mem_type (low_entries es) ?ks ?ke a"
    using R by auto
  have n2: "2 * length (low_entries es) \<le> 128" using n by simp
  show reg: "\<forall>e \<in> set R. region_ok e" using sanitised_regions_ok [OF ok n2 ro(1)] by blast
  show "length (concat (map region_pages R)) \<le> STACK_MAX" by (rule free_pages_fit(2) [OF ro(2) reg])
  show "4 \<le> length (concat (map region_pages R))" using assms by (simp add: map_loaded_def)
  show "region_type R a = mem_type (low_entries es) ?ks ?ke a" by (rule ro(3))
qed

lemma boots:
  assumes "loaded L info es R s" "reads_mask inb"
  obtains s1 s2 where "kernel_early inb L dir MULTIBOOT_BOOTLOADER_MAGIC info s = Some (Inr s1)" "kernel_main_console L cpuid s1 = Some s2"
    "terminal (console s2) = shown [(7, map_report R), (0x1E, logo), (7, [10] @ started_text @ model_shown (get_model cpuid))] blank_terminal"
    "kinfo_mmap s2 = R" "\<And>a. region_type R a = mem_type (low_entries es) (start_of_kernel_phys L) (end_of_kernel_phys L) a"
    "gates_set L (cpu_tables s2)" "timer_armed L (intr s2)" "stacks_apart (ksys s2)" "keeps_running (ksys s2)"
proof -
  obtain m h where cmd: "read_commandline L info (kmem (ksys s)) = Some m" and ml: "map_loaded L info m (kinfo_arr s) es R"
    and lits: "literals_at m L" "\<forall>t \<in> set boot_literals. unat (literal L t) + length t < 4096 * h"
    and heap: "end_of_kernel L = page_addr h" "0 < h" "h + 2 < 1046528" "mapping (pg (hp (ksys s))) h = None"
      "mapping (pg (hp (ksys s))) (Suc h) = None" "PDE_NUM (start_of_kernel L) \<le> h div 1024"
    and frames: "frames_rep ((pg (hp (ksys s)))\<lparr>pstack_pointer := KERNEL_PSTACK_TOP\<rparr>) []"
    and flags: "\<And>i. task_flags (ptable (ksys s) i) = 0" and gdt6: "length (gdt (cpu_tables s)) = 6"
    using assms(1) unfolding loaded_def by blast
  note reg = map_loaded_regions [OF ml]
  have R: "get_mmap (kinfo_arr s) m (info_flags m info) (info_mmap_addr m info) (info_mmap_length m info)
      (start_of_kernel_phys L) (end_of_kernel_phys L) = Some R" using ml by (simp add: map_loaded_def)
  define s0 where "s0 = (ksys s)\<lparr>kmem := m\<rparr>"
  have f0: "frames_rep ((pg (hp s0))\<lparr>pstack_pointer := KERNEL_PSTACK_TOP\<rparr>) []" "mapping (pg (hp s0)) h = None"
    "mapping (pg (hp s0)) (Suc h) = None" "task_flags (ptable s0 i) = 0" for i
    using frames heap(4,5) flags by (simp_all add: s0_def)
  obtain k k' where k: "system_early R (start_of_kernel L) (page_addr h) (heap_cb s) (idle_at L) dir s0 = Some (kernel_callbacks (heap_cb s), k)"
    "\<forall>x. unat x < 4096 * h \<longrightarrow> kmem k x = kmem s0 x"
    "kernel_main (kernel_alloc (kernel_callbacks (heap_cb s))) (task_at L 1) (task_at L 2) (task_at L 3) (task_at L 4) k = Some k'"
    "stacks_apart k'" "keeps_running k'"
    by (rule system_runs [OF f0(1) reg(1,3,2) heap(2,3) f0(2,3) heap(6) f0(4)])
  obtain s1 where s1: "kernel_early inb L dir MULTIBOOT_BOOTLOADER_MAGIC info s = Some (Inr s1)" "console_ok s1" "heap_cb s1 = kernel_callbacks (heap_cb s)"
    "ksys s1 = k" "kinfo_mmap s1 = R" "timer_armed L (intr s1)" "gates_set L (cpu_tables s1)"
    "terminal (console s1) = shown [(7, map_report R)] blank_terminal" "display_color (console s1) = 7"
    by (rule kernel_early_run [OF cmd lits(1) R k(1) [folded heap(1), unfolded s0_def] assms(2) gdt6])
  have l: "literals_at (kmem (ksys s1)) L" unfolding s1(4) by (rule literals_kept [OF lits]) (use k(2) in \<open>simp add: s0_def\<close>)
  obtain s2 where s2: "kernel_main_console L cpuid s1 = Some s2" "ksys s2 = k'" "intr s2 = intr s1" "cpu_tables s2 = cpu_tables s1"
    "kinfo_mmap s2 = kinfo_mmap s1"
    "terminal (console s2) = shown [(0x1E, logo), (7, [10] @ started_text @ model_shown (get_model cpuid))] (terminal (console s1))"
    by (rule kernel_main_shown [OF s1(2) l k(3) [folded s1(3,4)]])
  show ?thesis
    by (rule that [OF s1(1) s2(1)]) (use s1(5-8) s2(3-6) k(4,5) reg(4) in \<open>simp_all add: s2(2) shown_def\<close>)
qed

section \<open>Properties\<close>

text \<open>C1: The whole boot. On a machine as \<open>loaded\<close> describes it, \<open>kernel_early\<close> and \<open>kernel_main\<close> run to the end, and:
  the screen shows the report of the memory map, the logo in its colours and the greeting; the map the kernel keeps has, for
  every address, the type of the loader's map, and the kernel's own type on the kernel; the processor's tables hold the
  kernel's gates; of the interrupt requests only the timer's is unmasked, with the clock's handler; and the tasks have stacks
  of their own and keep running (\<open>keeps_running\<close>: whatever steps the system takes, a timer interrupt returns to a task, and so
  does a kernel call with a defined result of a task other than the idle task). \<open>loaded\<close> asks of the loader's map that it lies
  in memory entry after entry, that the kernel accepts it (\<open>get_mmap\<close> does not panic), that its entries below 4 GiB are not
  empty and the free ones end below the last page of the address space, and that it leaves four whole free pages, with no
  upper bound on the memory; of the image, that it is not empty, that the command line can be copied, that the kernel's
  strings lie below its end, and that the two pages after the end, the initial heap, are not mapped yet, lie below the
  limit of the heap and not below the page table of the kernel's start; and that the stack of free frames is empty, the task
  table zero and the descriptor table six entries long. The interrupt controllers return the masks written to them
  (\<open>reads_mask\<close>).\<close>

theorem kernel_comes_up:
  assumes "loaded L info es R s" "reads_mask inb"
  shows "\<exists>s1 s2. kernel_early inb L dir MULTIBOOT_BOOTLOADER_MAGIC info s = Some (Inr s1) \<and> kernel_main_console L cpuid s1 = Some s2
    \<and> terminal (console s2) = shown [(7, map_report R), (0x1E, logo), (7, [10] @ started_text @ model_shown (get_model cpuid))] blank_terminal
    \<and> kinfo_mmap s2 = R
    \<and> (\<forall>a. region_type R a = mem_type (low_entries es) (start_of_kernel_phys L) (end_of_kernel_phys L) a)
    \<and> gates_set L (cpu_tables s2) \<and> timer_armed L (intr s2) \<and> stacks_apart (ksys s2) \<and> keeps_running (ksys s2)"
proof -
  obtain s1 s2 where "kernel_early inb L dir MULTIBOOT_BOOTLOADER_MAGIC info s = Some (Inr s1)" "kernel_main_console L cpuid s1 = Some s2"
    "terminal (console s2) = shown [(7, map_report R), (0x1E, logo), (7, [10] @ started_text @ model_shown (get_model cpuid))] blank_terminal"
    "kinfo_mmap s2 = R" "\<And>a. region_type R a = mem_type (low_entries es) (start_of_kernel_phys L) (end_of_kernel_phys L) a"
    "gates_set L (cpu_tables s2)" "timer_armed L (intr s2)" "stacks_apart (ksys s2)" "keeps_running (ksys s2)"
    by (rule boots [OF assms, of dir cpuid]) (rule that)
  then show ?thesis by (intro exI [of _ s1] exI [of _ s2]) simp
qed

text \<open>C2: Not loaded by a multiboot loader, the kernel shows a panic on a cleared screen and stops.\<close>

theorem wrong_magic_panics:
  assumes "loader_magic \<noteq> MULTIBOOT_BOOTLOADER_MAGIC"
    and "cstr (kmem (ksys s)) (literal L panic_format) panic_format" "cstr (kmem (ksys s)) (literal L magic_text) magic_text"
  shows "\<exists>d. kernel_early inb L dir loader_magic info s = Some (Inl d)
    \<and> terminal d = fold (term_putc 7) (take 16 panic_format @ magic_text @ [10]) blank_terminal"
proof -
  obtain d cb where i: "init_console (console s) (console_cb s) = (d, cb)" by fastforce
  note c = console_ok_init [OF i]
  obtain d' where "kpanic (kmem (ksys s)) cb (literal L panic_format) (literal L magic_text) d = Some d'"
    "terminal d' = fold (term_putc (display_color d)) (take 16 panic_format @ magic_text @ [10]) (terminal d)"
    using kpanic_shows [OF assms(2,3), of d cb] c(1) by (auto simp: console_ok_def)
  then show ?thesis using assms(1) c(2,3) by (simp add: kernel_early_def i)
qed

section \<open>A concrete machine\<close>

text \<open>Literals one after the other in memory, as a linker lays them out.\<close>

definition texts :: "u8 list list \<Rightarrow> u8 list" where
  "texts ts = concat (map (\<lambda>t. t @ [0]) ts)"

fun place :: "u8 list list \<Rightarrow> u8 list \<Rightarrow> nat" where
  "place [] t = 0"
| "place (x # ts) t = (if t = x then 0 else Suc (length x) + place ts t)"

lemma place_cstr:
  "\<lbrakk>read_bytes m a (length (texts ts)) = texts ts; t \<in> set ts; \<forall>x \<in> set ts. 0 \<notin> set x\<rbrakk> \<Longrightarrow> cstr m (a + of_nat (place ts t)) t"
proof (induction ts arbitrary: a)
  case (Cons x ts)
  have "read_bytes m a (length (x @ [0]) + length (texts ts)) = (x @ [0]) @ texts ts"
    using Cons.prems(1) by (simp add: texts_def add.commute)
  then have r: "read_bytes m a (length (x @ [0])) = x @ [0]"
    "read_bytes m (a + of_nat (length (x @ [0]))) (length (texts ts)) = texts ts"
    unfolding read_bytes_append by (rule append_eq_append_conv [THEN iffD1, THEN conjunct1, rotated],
        simp, rule append_eq_append_conv [THEN iffD1, THEN conjunct2, rotated], simp_all)
  show ?case
  proof (cases "t = x")
    case True
    have "read_bytes m a (length x + 1) = x @ [0]" using r(1) by simp
    then have "read_bytes m a (length x) = x" "m (a + of_nat (length x)) = 0" unfolding read_bytes_append by simp_all
    then show ?thesis using True Cons.prems(3) by (simp add: cstr_iff)
  next
    case False
    then have "t \<in> set ts" using Cons.prems(2) by simp
    then have "cstr m (a + of_nat (length (x @ [0])) + of_nat (place ts t)) t" using Cons.IH [OF r(2)] Cons.prems(3) by simp
    then show ?thesis using False by (simp add: algebra_simps)
  qed
qed simp

lemma place_less: "t \<in> set ts \<Longrightarrow> place ts t + length t < length (texts ts)"
  by (induction ts) (auto simp: texts_def)

lemma texts_length: "length (texts (panic_format # magic_text # boot_literals)) = 738"
  by (simp add: texts_def panic_format_def magic_text_def boot_literals_def memmap_text_def start_text_def len_text_def type_text_def total_text_def
    started_text_def model_text_def logo_def codes_def)

lemma texts_nonzero: "\<forall>x \<in> set (panic_format # magic_text # boot_literals). 0 \<notin> set x"
  by (simp add: panic_format_def magic_text_def boot_literals_def memmap_text_def start_text_def len_text_def type_text_def total_text_def
    started_text_def model_text_def logo_def codes_plain)

text \<open>The regions the kernel makes of the map of a machine of 128 MiB.\<close>

lemma demo_points: "sort_changes (demo_boot @ [kernel_entry_of 0x100000 0x204000])
   [\<lparr>cp_addr = 0, cp_entry = 0\<rparr>, \<lparr>cp_addr = 0x9FC00, cp_entry = 0\<rparr>, \<lparr>cp_addr = 0x9FC00, cp_entry = 1\<rparr>, \<lparr>cp_addr = 0xA0000, cp_entry = 1\<rparr>,
    \<lparr>cp_addr = 0xF0000, cp_entry = 2\<rparr>, \<lparr>cp_addr = 0x100000, cp_entry = 2\<rparr>, \<lparr>cp_addr = 0x100000, cp_entry = 3\<rparr>, \<lparr>cp_addr = 0x7FE0000, cp_entry = 3\<rparr>,
    \<lparr>cp_addr = 0x7FE0000, cp_entry = 4\<rparr>, \<lparr>cp_addr = 0x8000000, cp_entry = 4\<rparr>, \<lparr>cp_addr = 0xFFFC0000, cp_entry = 5\<rparr>, \<lparr>cp_addr = 0xFFFFFFFF, cp_entry = 5\<rparr>,
    \<lparr>cp_addr = 0x100000, cp_entry = 6\<rparr>, \<lparr>cp_addr = 0x204000, cp_entry = 6\<rparr>]
  = Some [\<lparr>cp_addr = 0, cp_entry = 0\<rparr>, \<lparr>cp_addr = 0x9FC00, cp_entry = 1\<rparr>, \<lparr>cp_addr = 0x9FC00, cp_entry = 0\<rparr>, \<lparr>cp_addr = 0xA0000, cp_entry = 1\<rparr>,
    \<lparr>cp_addr = 0xF0000, cp_entry = 2\<rparr>, \<lparr>cp_addr = 0x100000, cp_entry = 3\<rparr>, \<lparr>cp_addr = 0x100000, cp_entry = 6\<rparr>, \<lparr>cp_addr = 0x100000, cp_entry = 2\<rparr>,
    \<lparr>cp_addr = 0x204000, cp_entry = 6\<rparr>, \<lparr>cp_addr = 0x7FE0000, cp_entry = 4\<rparr>, \<lparr>cp_addr = 0x7FE0000, cp_entry = 3\<rparr>, \<lparr>cp_addr = 0x8000000, cp_entry = 4\<rparr>,
    \<lparr>cp_addr = 0xFFFC0000, cp_entry = 5\<rparr>, \<lparr>cp_addr = 0xFFFFFFFF, cp_entry = 5\<rparr>]"
  by ((subst sort_changes.simps, simp add: swap_needed_def is_start_def demo_boot_def demo_entry_def kernel_entry_of_def)+)

definition demo_regions :: "mem_entry list" where
  "demo_regions = [\<lparr>me_address = 0, me_size = 0x9FC00, me_type = 1\<rparr>, \<lparr>me_address = 0x9FC00, me_size = 0x400, me_type = 2\<rparr>,
     \<lparr>me_address = 0xF0000, me_size = 0x10000, me_type = 2\<rparr>, \<lparr>me_address = 0x100000, me_size = 0x104000, me_type = 0xFFFFFFFF\<rparr>,
     \<lparr>me_address = 0x204000, me_size = 0x7DDC000, me_type = 1\<rparr>, \<lparr>me_address = 0x7FE0000, me_size = 0x20000, me_type = 2\<rparr>,
     \<lparr>me_address = 0xFFFC0000, me_size = 0x3FFFF, me_type = 2\<rparr>]"

lemma demo_sanitise: "sanitise demo_arr demo_boot 0x100000 0x204000 = Some demo_regions"
proof -
  have p: "concat (map (entry_points (demo_boot @ [kernel_entry_of 0x100000 0x204000])) [0..<length demo_boot])
      @ [\<lparr>cp_addr = 0x100000, cp_entry = length demo_boot\<rparr>, \<lparr>cp_addr = 0x204000, cp_entry = length demo_boot\<rparr>]
    = [\<lparr>cp_addr = 0, cp_entry = 0\<rparr>, \<lparr>cp_addr = 0x9FC00, cp_entry = 0\<rparr>, \<lparr>cp_addr = 0x9FC00, cp_entry = 1\<rparr>, \<lparr>cp_addr = 0xA0000, cp_entry = 1\<rparr>,
    \<lparr>cp_addr = 0xF0000, cp_entry = 2\<rparr>, \<lparr>cp_addr = 0x100000, cp_entry = 2\<rparr>, \<lparr>cp_addr = 0x100000, cp_entry = 3\<rparr>, \<lparr>cp_addr = 0x7FE0000, cp_entry = 3\<rparr>,
    \<lparr>cp_addr = 0x7FE0000, cp_entry = 4\<rparr>, \<lparr>cp_addr = 0x8000000, cp_entry = 4\<rparr>, \<lparr>cp_addr = 0xFFFC0000, cp_entry = 5\<rparr>, \<lparr>cp_addr = 0xFFFFFFFF, cp_entry = 5\<rparr>,
    \<lparr>cp_addr = 0x100000, cp_entry = 6\<rparr>, \<lparr>cp_addr = 0x204000, cp_entry = 6\<rparr>]"
    by (simp add: demo_boot_def demo_entry_def entry_points_def entry_end_def PHYS_BYTES_MAX_def)
  show ?thesis unfolding sanitise_def Let_def p demo_points
    by (simp add: demo_boot_def demo_entry_def kernel_entry_of_def sweep_step_def is_start_def max_type_def close_region_def open_region_def overlap_remove_def
      demo_arr_def demo_regions_def Let_def MMAP_TYPE_KERNEL_def MAX_MMAP_SIZE_def MAX_BOOT_MMAP_SIZE_def)
qed

abbreviation all_literals :: "u8 list list" where
  "all_literals \<equiv> panic_format # magic_text # boot_literals"

definition demo_info :: mem where
  "demo_info = st32 (st32 (st32 demo_map 0x2000 0x40) 0x202C 0x90) 0x2030 0x1000"

definition demo_image :: mem where
  "demo_image = write_bytes demo_info 0xC0110000 (texts all_literals)"

definition demo_linked :: linked where
  "demo_linked = \<lparr>start_of_kernel = 0xC0100000, end_of_kernel = page_addr 786948, start_of_kernel_phys = 0x100000,
     end_of_kernel_phys = 0x204000, commandline_at = 0x3000, gdt_at = 0xC0101000, idt_at = 0xC0101100, tss_at = 0xC0102000,
     isr_at = (\<lambda>i. 0xC0103000 + 16 * of_nat i), irq_at = (\<lambda>i. 0xC0104000 + 16 * of_nat i), kernel_call_at = 0xC0105000,
     timer_callback_at = 0xC0106000, idle_at = 0xC0106100, task_at = (\<lambda>i. 0xC0107000 + 256 * of_nat i),
     literal = (\<lambda>t. 0xC0110000 + of_nat (place all_literals t))\<rparr>"

definition demo_machine :: machine where
  "demo_machine = \<lparr>console = blank_display, console_cb = no_callbacks, heap_cb = no_callbacks, cpu_tables = reset_tables,
     intr = \<lparr>exception_handlers = [], irq_handlers = [], io = []\<rparr>, kinfo_arr = demo_arr, kinfo_mmap = [],
     ksys = demo_system\<lparr>kmem := demo_image\<rparr>\<rparr>"

lemma demo_literal:
  assumes "t \<in> set all_literals"
  shows "cstr demo_image (literal demo_linked t) t" "unat (literal demo_linked t) + length t < 0xC0111000"
proof -
  have r: "read_bytes demo_image 0xC0110000 (length (texts all_literals)) = texts all_literals"
    unfolding demo_image_def by (rule read_write_bytes) (simp add: texts_length del: list.set)
  show "cstr demo_image (literal demo_linked t) t"
    using place_cstr [OF r assms texts_nonzero] by (simp add: demo_linked_def del: place.simps)
  have "place all_literals t + length t < 738" using place_less [OF assms] by (simp only: texts_length)
  then show "unat (literal demo_linked t) + length t < 0xC0111000"
    using unat_plus_of_nat [of "0xC0110000 :: u32" "place all_literals t"] by (simp add: demo_linked_def del: place.simps)
qed

lemma demo_low:
  assumes "unat x < 0x10000"
  shows "demo_image x = demo_info x"
  unfolding demo_image_def
proof (rule write_bytes_outside)
  show "\<not> in_range 0xC0110000 (length (texts all_literals)) x"
    unfolding texts_length
  proof
    assume "in_range 0xC0110000 738 x"
    then obtain j where "j < 738" "x = 0xC0110000 + of_nat j" by (auto simp: in_range_iff)
    then show False using assms unat_plus_of_nat [of "0xC0110000 :: u32" j] by simp
  qed
qed (simp add: texts_length)

lemma demo_image_map: "unat x < 0x2000 \<Longrightarrow> demo_image x = demo_map x"
proof -
  assume x: "unat x < 0x2000"
  have "\<not> in_range a 4 x" if "0x2000 \<le> unat a" "unat a + 4 < 4294967296" for a
  proof
    assume "in_range a 4 x"
    then obtain j where "j < 4" "x = a + of_nat j" by (auto simp: in_range_iff)
    then show False using x that unat_plus_of_nat [of a j] by simp
  qed
  then show "demo_image x = demo_map x" using demo_low [of x] x by (simp add: demo_info_def st32_outside)
qed

lemma demo_image_ld32: "ld32 demo_image 0x2000 = 0x40" "ld32 demo_image 0x202C = 0x90" "ld32 demo_image 0x2030 = 0x1000"
proof -
  have eq: "ld32 demo_image a = ld32 demo_info a" if "a \<in> {0x2000, 0x202C, 0x2030}" for a
    using that by (intro ld32_cong demo_low) auto
  show "ld32 demo_image 0x2000 = 0x40" "ld32 demo_image 0x202C = 0x90" "ld32 demo_image 0x2030 = 0x1000"
    by (simp_all add: eq) (simp_all add: demo_info_def ld32_st32_apart)
qed

lemma demo_commandline: "read_commandline demo_linked 0x2000 demo_image = Some demo_image"
proof -
  have "cstr demo_image (literal demo_linked []) []" by (rule demo_literal) (simp add: boot_literals_def)
  then have z: "demo_image (literal demo_linked []) = 0" by simp
  have "demo_image 0x3000 = 0" unfolding demo_low [of "0x3000", simplified] by (simp add: demo_info_def demo_map_def st32_def)
  then have "demo_image(0x3000 := 0) = demo_image" by (rule fun_upd_idem)
  then show ?thesis
    using z by (simp add: read_commandline_def info_flags_def demo_image_ld32 MULTIBOOT_INFO_CMDLINE_def kstrcpy_def strcpy_loop.simps demo_linked_def)
qed

lemma demo_map_loaded: "map_loaded demo_linked 0x2000 demo_image demo_arr demo_boot demo_regions"
proof -
  have f: "info_flags demo_image 0x2000 = 0x40" "info_mmap_addr demo_image 0x2000 = 0x1000" "info_mmap_length demo_image 0x2000 = 0x90"
    by (simp_all add: info_flags_def info_mmap_addr_def info_mmap_length_def demo_image_ld32)
  have ph: "start_of_kernel_phys demo_linked = 0x100000" "end_of_kernel_phys demo_linked = 0x204000" by (simp_all add: demo_linked_def)
  have at: "map_at demo_image (unat (0x1000 :: addr)) demo_boot (unat (0x1000 :: addr) + unat (0x90 :: u32))"
    "unat (0x1000 :: addr) + unat (0x90 :: u32) < 4294967296"
    by (rule demo_map_at, rule demo_image_map) simp_all
  have k: "(0x40 :: u32) AND MULTIBOOT_INFO_MEM_MAP \<noteq> 0" "length (low_entries demo_boot) \<le> 64" "boot_ok (low_entries demo_boot)" "(0x100000 :: u32) < 0x204000"
    by (simp_all add: MULTIBOOT_INFO_MEM_MAP_def demo_boot_ok)
  have "get_mmap demo_arr demo_image 0x40 0x1000 0x90 0x100000 0x204000 = Some demo_regions"
    by (rule get_mmap_result [OF k(1) at k(2-4), of demo_arr]) (use demo_sanitise in \<open>simp add: demo_boot_ok\<close>)
  moreover have "4 \<le> length (concat (map region_pages demo_regions))" by (simp add: demo_regions_def region_pages_def MMAP_TYPE_FREE_def length_concat del: upt_rec_numeral)
  ultimately show ?thesis using at demo_boot_ok k(4) by (simp add: map_loaded_def f ph)
qed

lemma demo_loaded: "loaded demo_linked 0x2000 demo_boot demo_regions demo_machine"
proof -
  have k: "kmem (ksys demo_machine) = demo_image" "kinfo_arr demo_machine = demo_arr" "hp (ksys demo_machine) = demo_before"
    "task_flags (ptable (ksys demo_machine) i) = 0" "length (gdt (cpu_tables demo_machine)) = 6" for i
    by (simp_all add: demo_machine_def demo_system_def clock.extend_def demo_reset_def reset_tables_def)
  have ph: "end_of_kernel demo_linked = page_addr 786948" "PDE_NUM (start_of_kernel demo_linked) \<le> 786948 div 1024"
    by (simp_all add: demo_linked_def PDE_NUM_div)
  have lits: "literals_at demo_image demo_linked" "\<forall>t \<in> set boot_literals. unat (literal demo_linked t) + length t < 4096 * 786948"
    using demo_literal by (fastforce simp: literals_at_def)+
  show ?thesis unfolding loaded_def k
    by (intro exI [of _ demo_image] exI [of _ 786948]) (use demo_commandline demo_map_loaded lits ph demo_before_ok in simp)
qed

text \<open>A machine of 128 MiB.\<close>

theorem kernel_comes_up_witness:
  "\<exists>s1 s2. kernel_early (\<lambda>tr p. last_out p tr) demo_linked 0xC0101000 MULTIBOOT_BOOTLOADER_MAGIC 0x2000 demo_machine = Some (Inr s1)
    \<and> kernel_main_console demo_linked (\<lambda>_. (13, 0x756E6547, 0x6C65746E, 0x49656E69)) s1 = Some s2 \<and> kinfo_mmap s2 = demo_regions
    \<and> keeps_running (ksys s2)"
  using kernel_comes_up [OF demo_loaded last_out_reads, of "0xC0101000" "\<lambda>_. (13, 0x756E6547, 0x6C65746E, 0x49656E69)"] by blast

theorem wrong_magic_panics_witness:
  "\<exists>d. kernel_early (\<lambda>tr p. last_out p tr) demo_linked 0xC0101000 0 0x2000 demo_machine = Some (Inl d)
    \<and> terminal d = fold (term_putc 7) (take 16 panic_format @ magic_text @ [10]) blank_terminal"
proof -
  have k: "kmem (ksys demo_machine) = demo_image" by (simp add: demo_machine_def)
  have "(0 :: u32) \<noteq> MULTIBOOT_BOOTLOADER_MAGIC" by (simp add: MULTIBOOT_BOOTLOADER_MAGIC_def)
  from wrong_magic_panics [OF this, where s = demo_machine and L = demo_linked, unfolded k] show ?thesis
    using demo_literal(1) [of panic_format] demo_literal(1) [of magic_text] by simp
qed

end
