(* ===== verification/KRun.thy ===== *)
theory KRun
  imports KBoot
begin

text \<open>
  Interrupts on the running machine: what the processor does with a vector, the entry points of
  src/system/kernel/i386/i386.S (\<open>isr\<close>, \<open>irq\<close>, \<open>irq7\<close>, \<open>kernel_call\<close>), the handlers they call and the
  way back into a task, with every component of the kernel in its place: the gate is read from the tables the kernel
  has filled, the handler is looked up in the kernel's own table, the timer's handler is the clock's, and a panic is
  printed on the console.

  Tasks run with interrupts enabled and the kernel with interrupts disabled, so a vector arrives while a task runs;
  \<open>sp\<close> and \<open>m\<close> are its stack pointer and the memory as it leaves it. A panic is \<open>Inl\<close> with the screen it
  leaves. \<open>None\<close> is what the kernel cannot survive: a missing gate for the protection fault, a gate to an address that
  is no entry point, a NULL dereference.
\<close>

section \<open>The texts of the panics\<close>

definition exception_text :: "u8 list" where
  "exception_text = codes ''exception no: '' @ [0x25, 0x75] @ codes '' error: '' @ [0x25, 0x75, 10]"
definition unhandled_exception_text :: "u8 list" where "unhandled_exception_text = codes ''unhandled exception!''"
definition debug_text :: "u8 list" where "debug_text = codes ''DEBUG'' @ [10]"
definition debug2_text :: "u8 list" where "debug2_text = codes ''DEBUG2'' @ [10]"
definition irq_text :: "u8 list" where "irq_text = codes ''unhandled INT no: '' @ [0x25, 0x75, 10]"
definition unhandled_irq_text :: "u8 list" where "unhandled_irq_text = codes ''unhandled IRQ!''"

text \<open>How \<open>exception_handler\<close> and \<open>irq_handler\<close> end without a handler.\<close>

definition DEBUG :: "linked \<Rightarrow> machine \<Rightarrow> machine option" where
  "DEBUG L s = Option.bind (kprint L debug_text [] s) (kprint L debug2_text [])"

definition stop_with :: "linked \<Rightarrow> u8 list \<Rightarrow> machine \<Rightarrow> display option" where
  "stop_with L text s = kpanic (kmem (ksys s)) (console_cb s) (literal L panic_format) (literal L text) (console s)"

definition unhandled_exception :: "linked \<Rightarrow> u32 \<Rightarrow> u32 \<Rightarrow> machine \<Rightarrow> display option" where
  "unhandled_exception L int_no err s =
     Option.bind (kprint L exception_text [int_no, err] s) (stop_with L unhandled_exception_text)"

definition unhandled_irq :: "linked \<Rightarrow> u32 \<Rightarrow> machine \<Rightarrow> display option" where
  "unhandled_irq L int_no s =
     Option.bind (DEBUG L s) (\<lambda>s. Option.bind (kprint L irq_text [int_no] s) (stop_with L unhandled_irq_text))"

primrec stop :: "linked \<Rightarrow> panic \<Rightarrow> machine \<Rightarrow> display option" where
  "stop L (Unhandled_exception int_no err) s = unhandled_exception L int_no err s"
| "stop L (Unhandled_irq int_no) s = unhandled_irq L int_no s"

section \<open>The entry points\<close>

definition PIC_OCW3_ISR_READ :: u8 where "PIC_OCW3_ISR_READ = 0x0B"

type_synonym irq_state = "(addr, addr, ksystem option) intr_state"

text \<open>The function at a handler's address, on the state of the kernel; no other handler than the clock's is code of the
  kernel.\<close>

definition run_exception :: "addr \<Rightarrow> u32 \<Rightarrow> irq_state \<Rightarrow> irq_state" where
  "run_exception h err i = interrupts.more_update (\<lambda>_. None) i"

definition run_irq :: "linked \<Rightarrow> addr \<Rightarrow> irq_state \<Rightarrow> irq_state" where
  "run_irq L h i = interrupts.more_update (\<lambda>k. if h = timer_callback_at L then Option.bind k timer_callback else None) i"

text \<open>After the handler: the panic, or \<open>resume\<close>.\<close>

definition finish_stub :: "linked \<Rightarrow> machine \<Rightarrow> panic + irq_state \<Rightarrow> (display + machine) option" where
  "finish_stub L s r =
     (case r of
        Inl p \<Rightarrow> map_option Inl (stop L p s)
      | Inr i \<Rightarrow> Option.bind (interrupts.more i) (\<lambda>k.
          map_option (\<lambda>k. Inr (s\<lparr>intr := interrupts.truncate i, ksys := k\<rparr>)) (resume k)))"

definition isr_stub :: "linked \<Rightarrow> nat \<Rightarrow> u32 \<Rightarrow> addr \<Rightarrow> mem \<Rightarrow> machine \<Rightarrow> (display + machine) option" where
  "isr_stub L n err sp m s =
     Option.bind (save_context sp m (ksys s)) (\<lambda>k.
     Option.bind (exception_handler run_exception (of_nat n) err (interrupts.extend (intr s) (Some k)))
       (finish_stub L (s\<lparr>ksys := k\<rparr>)))"

definition irq_stub :: "linked \<Rightarrow> nat \<Rightarrow> addr \<Rightarrow> mem \<Rightarrow> machine \<Rightarrow> (display + machine) option" where
  "irq_stub L n sp m s =
     Option.bind (save_context sp m (ksys s)) (\<lambda>k.
     Option.bind (irq_handler (run_irq L) (of_nat n) (interrupts.extend (intr s) (Some k)))
       (finish_stub L (s\<lparr>ksys := k\<rparr>)))"

text \<open>Request 7 is the one the controller raises for a request that went away: the entry point asks the controller
  whether it is in service, and otherwise returns to the task at once.\<close>

definition irq7_stub :: "(trace \<Rightarrow> u16 \<Rightarrow> u8) \<Rightarrow> linked \<Rightarrow> addr \<Rightarrow> mem \<Rightarrow> machine \<Rightarrow> (display + machine) option" where
  "irq7_stub inb L sp m s =
     (let s = s\<lparr>intr := outportb PIC0_ADDR_C PIC_OCW3_ISR_READ (intr s)\<rparr>
      in if bit (inportb inb PIC0_ADDR_C (intr s)) 7 then irq_stub L 7 sp m s else Some (Inr s))"

definition kernel_call_stub :: "addr \<Rightarrow> mem \<Rightarrow> machine \<Rightarrow> (display + machine) option" where
  "kernel_call_stub sp m s = map_option (\<lambda>k. Inr (s\<lparr>ksys := k\<rparr>)) (kernel_entry Kernel_call sp m (ksys s))"

text \<open>The entry points with their addresses. Those of six exceptions find the processor's error code on the stack, the
  others push a zero in its place.\<close>

datatype stub = Isr nat | Irq nat | Call_stub

definition stubs :: "linked \<Rightarrow> (addr \<times> stub) list" where
  "stubs L = map (\<lambda>n. (isr_at L n, Isr n)) [0..<32] @ map (\<lambda>n. (irq_at L n, Irq n)) [0..<16] @ [(kernel_call_at L, Call_stub)]"

definition isr_error :: "nat \<Rightarrow> u32 \<Rightarrow> u32" where
  "isr_error n err = (if n \<in> {8, 10, 11, 12, 13, 14} then err else 0)"

primrec run_stub :: "(trace \<Rightarrow> u16 \<Rightarrow> u8) \<Rightarrow> linked \<Rightarrow> u32 \<Rightarrow> addr \<Rightarrow> mem \<Rightarrow> machine \<Rightarrow> stub \<Rightarrow> (display + machine) option" where
  "run_stub inb L err sp m s (Isr n) = isr_stub L n (isr_error n err) sp m s"
| "run_stub inb L err sp m s (Irq n) = (if n = 7 then irq7_stub inb L sp m s else irq_stub L n sp m s)"
| "run_stub inb L err sp m s Call_stub = kernel_call_stub sp m s"

section \<open>The processor\<close>

text \<open>A vector without a gate is a protection fault (vector 13), whose error code names the gate.\<close>

definition taken :: "tables \<Rightarrow> nat \<Rightarrow> u32 \<Rightarrow> nat \<times> u32" where
  "taken t v err = (if gate_present (idt t ! v) then (v, err) else (13, of_nat (8 * v + 2)))"

definition interrupt ::
  "(trace \<Rightarrow> u16 \<Rightarrow> u8) \<Rightarrow> linked \<Rightarrow> nat \<Rightarrow> u32 \<Rightarrow> addr \<Rightarrow> mem \<Rightarrow> machine \<Rightarrow> (display + machine) option" where
  "interrupt inb L v err sp m s =
     (let (v, err) = taken (cpu_tables s) v err;
          g = idt (cpu_tables s) ! v
      in if gate_present g \<and> selector g = CODE_SELECTOR
         then Option.bind (map_of (stubs L) (gate_offset g)) (run_stub inb L err sp m s)
         else None)"

text \<open>What arrives while a task runs that does no harm: a kernel call with a defined result (the idle task makes none), an
  interrupt request that is not masked, or request 7 without being in service. A task's faults, its interrupt instructions
  for other vectors and its sleeps beyond the range of an int are left out. Between two entries the task may print, so the
  console is as the task leaves it.\<close>

definition arrives :: "(trace \<Rightarrow> u16 \<Rightarrow> u8) \<Rightarrow> addr \<Rightarrow> mem \<Rightarrow> machine \<Rightarrow> nat \<Rightarrow> bool" where
  "arrives inb sp m s v \<longleftrightarrow>
     v = 128 \<and> current_task (ksys s) \<noteq> idle_task (ksys s) \<and> call_defined sp m
   \<or> 32 \<le> v \<and> v < 48 \<and> \<not> masked (intr s) (v - 32)
   \<or> v = 39 \<and> \<not> bit (inb (io (intr s) @ [(PIC0_ADDR_C, PIC_OCW3_ISR_READ)]) PIC0_ADDR_C) 7"

inductive mstep :: "(trace \<Rightarrow> u16 \<Rightarrow> u8) \<Rightarrow> linked \<Rightarrow> machine \<Rightarrow> machine \<Rightarrow> bool" for inb L where
  enter: "\<lbrakk>arrives inb sp m s v; interrupt inb L v err sp m (s\<lparr>console := d\<rparr>) = Some (Inr s')\<rbrakk> \<Longrightarrow> mstep inb L s s'"

section \<open>The gates lead to the entry points\<close>

definition entries_distinct :: "linked \<Rightarrow> bool" where
  "entries_distinct L \<longleftrightarrow> distinct (map fst (stubs L))"

definition stub_of :: "nat \<Rightarrow> stub option" where
  "stub_of v = (if v < 32 then Some (Isr v) else if v < 48 then Some (Irq (v - 32)) else if v = 128 then Some Call_stub else None)"

lemma stubs_vector:
  assumes "entries_distinct L" "vector_entry (isr_at L) (irq_at L) (kernel_call_at L) v = Some a"
  shows "map_of (stubs L) a = stub_of v"
proof -
  have "(a, the (stub_of v)) \<in> set (stubs L)" using assms(2)
    by (auto simp: vector_entry_def stub_of_def stubs_def split: if_splits)
  then show ?thesis using map_of_is_SomeI [of "stubs L"] assms unfolding entries_distinct_def
    by (auto simp: vector_entry_def stub_of_def split: if_splits)
qed

lemma interrupt_stub:
  assumes L: "entries_distinct L" and g: "gates_set L (cpu_tables s)" and v: "v < 256"
  shows "interrupt inb L v err sp m s = (case stub_of v of
      Some st \<Rightarrow> run_stub inb L err sp m s st
    | None \<Rightarrow> run_stub inb L (of_nat (8 * v + 2)) sp m s (Isr 13))"
proof -
  have entry: "gate_present (idt (cpu_tables s) ! w) = (stub_of w \<noteq> None)"
    "stub_of w = Some st \<Longrightarrow> selector (idt (cpu_tables s) ! w) = CODE_SELECTOR
        \<and> map_of (stubs L) (gate_offset (idt (cpu_tables s) ! w)) = Some st" if "w < 256" for w st
  proof -
    have d: "(vector_entry (isr_at L) (irq_at L) (kernel_call_at L) w \<noteq> None) = (stub_of w \<noteq> None)"
      by (simp add: vector_entry_def stub_of_def)
    have G: "gate_present (idt (cpu_tables s) ! w) = (vector_entry (isr_at L) (irq_at L) (kernel_call_at L) w \<noteq> None)"
      "vector_entry (isr_at L) (irq_at L) (kernel_call_at L) w = Some e \<Longrightarrow>
         gate_offset (idt (cpu_tables s) ! w) = e \<and> selector (idt (cpu_tables s) ! w) = 8" for e
      using g that by (simp_all add: gates_set_def)
    show "gate_present (idt (cpu_tables s) ! w) = (stub_of w \<noteq> None)" using G(1) d by simp
    assume st: "stub_of w = Some st"
    then obtain e where e: "vector_entry (isr_at L) (irq_at L) (kernel_call_at L) w = Some e" using d by auto
    show "selector (idt (cpu_tables s) ! w) = CODE_SELECTOR \<and> map_of (stubs L) (gate_offset (idt (cpu_tables s) ! w)) = Some st"
      using G(2) [OF e] stubs_vector [OF L e] st by (simp add: CODE_SELECTOR_def GDT_RING0_CODE_INDEX_def)
  qed
  show ?thesis
  proof (cases "stub_of v")
    case None
    have "stub_of 13 = Some (Isr 13)" by (simp add: stub_of_def)
    then show ?thesis using entry [of 13] entry(1) [OF v] None by (simp add: interrupt_def taken_def)
  next
    case (Some st)
    then show ?thesis using entry [OF v] by (simp add: interrupt_def taken_def)
  qed
qed

section \<open>A running machine\<close>

definition running :: "linked \<Rightarrow> machine \<Rightarrow> bool" where
  "running L s \<longleftrightarrow> gates_set L (cpu_tables s) \<and> timer_armed L (intr s) \<and> keeps_running (ksys s)"

lemma timer_armedD:
  assumes "timer_armed L i"
  shows "irq_handlers i ! 0 = Some (timer_callback_at L)" "0 < n \<Longrightarrow> n < 16 \<Longrightarrow> irq_handlers i ! n = None"
    "n < 32 \<Longrightarrow> exception_handlers i ! n = None" "n < 16 \<Longrightarrow> masked i n \<longleftrightarrow> n \<noteq> 0"
  using assms by (simp_all add: timer_armed_def nth_list_update del: replicate_numeral_Cons)

lemma timer_armed_command:
  assumes "timer_armed L i"
  shows "timer_armed L (outportb PIC0_ADDR_C b i)"
proof -
  have "masked (outportb PIC0_ADDR_C b i) k = masked i k" "exception_handlers (outportb PIC0_ADDR_C b i) = exception_handlers i" for k
    by (simp_all add: masked_def) (simp add: outportb_def)
  then show ?thesis using assms by (simp add: timer_armed_def del: replicate_numeral_Cons)
qed

lemma keeps_running_kstep: "\<lbrakk>keeps_running k; kstep\<^sup>*\<^sup>* k k'\<rbrakk> \<Longrightarrow> keeps_running k'"
  unfolding keeps_running_def by (meson rtranclp_trans)

lemma timer_stub:
  assumes "timer_armed L (intr s)" "kernel_entry Timer sp m (ksys s) = Some k"
  shows "irq_stub L 0 sp m s = Some (Inr (s\<lparr>intr := outportb PIC0_ADDR_C PIC_EOI (intr s), ksys := k\<rparr>))"
proof -
  obtain k1 k2 where "save_context sp m (ksys s) = Some k1" "timer_callback k1 = Some k2" "resume k2 = Some k"
    using assms(2) by (auto simp: kernel_entry_def bind_eq_Some_conv)
  then show ?thesis using timer_armedD(1) [OF assms(1)]
    by (simp add: irq_stub_def irq_handler_def IRQ_COUNT_def run_irq_def finish_stub_def pic_eoi_def outportb_def
        interrupts.extend_def interrupts.truncate_def)
qed

text \<open>The three kinds of entry the running machine sees.\<close>

lemma arrives_running:
  assumes "timer_armed L (intr s)" "arrives inb sp m s v"
  shows "v = 32 \<or> v = 128 \<and> current_task (ksys s) \<noteq> idle_task (ksys s) \<and> call_defined sp m
    \<or> v = 39 \<and> \<not> bit (inb (io (intr s) @ [(PIC0_ADDR_C, PIC_OCW3_ISR_READ)]) PIC0_ADDR_C) 7"
proof -
  have "v = 32" if "32 \<le> v" "v < 48" "\<not> masked (intr s) (v - 32)"
    using timer_armedD(4) [OF assms(1), of "v - 32"] that by simp
  then show ?thesis using assms(2) unfolding arrives_def by blast
qed

lemma spurious_stub:
  assumes "\<not> bit (inb (io (intr s) @ [(PIC0_ADDR_C, PIC_OCW3_ISR_READ)]) PIC0_ADDR_C) 7"
  shows "irq7_stub inb L sp m s = Some (Inr (s\<lparr>intr := outportb PIC0_ADDR_C PIC_OCW3_ISR_READ (intr s)\<rparr>))"
  using assms by (simp add: irq7_stub_def inportb_def Let_def)

definition entered :: "addr \<Rightarrow> mem \<Rightarrow> nat \<Rightarrow> machine \<Rightarrow> machine \<Rightarrow> bool" where
  "entered sp m v s s' \<longleftrightarrow>
     v = 32 \<and> kernel_entry Timer sp m (ksys s) = Some (ksys s') \<and> intr s' = outportb PIC0_ADDR_C PIC_EOI (intr s)
   \<or> v = 128 \<and> kernel_entry Kernel_call sp m (ksys s) = Some (ksys s') \<and> intr s' = intr s
   \<or> v = 39 \<and> ksys s' = ksys s \<and> intr s' = outportb PIC0_ADDR_C PIC_OCW3_ISR_READ (intr s)"

lemma interrupt_running:
  assumes L: "entries_distinct L" and r: "running L s" and v: "arrives inb sp m s v"
  obtains s' where "interrupt inb L v err sp m (s\<lparr>console := d\<rparr>) = Some (Inr s')" "entered sp m v s s'" "console s' = d"
    "running L s'" "kstep\<^sup>*\<^sup>* (ksys s) (ksys s')"
proof -
  have R: "gates_set L (cpu_tables s)" "timer_armed L (intr s)" "keeps_running (ksys s)" using r by (simp_all add: running_def)
  let ?s = "s\<lparr>console := d\<rparr>"
  have g: "gates_set L (cpu_tables ?s)" using R(1) by simp
  note run = interrupt_stub [OF L g]
  consider "v = 32" | "v = 128" "current_task (ksys s) \<noteq> idle_task (ksys s)" "call_defined sp m"
    | "v = 39" "\<not> bit (inb (io (intr s) @ [(PIC0_ADDR_C, PIC_OCW3_ISR_READ)]) PIC0_ADDR_C) 7"
    using arrives_running [OF R(2) v] by blast
  then show ?thesis
  proof cases
    case 1
    obtain k where k: "kernel_entry Timer sp m (ksys s) = Some k" "kstep (ksys s) k"
      using R(3) unfolding keeps_running_def by blast
    show ?thesis
      by (rule that [of "?s\<lparr>intr := outportb PIC0_ADDR_C PIC_EOI (intr s), ksys := k\<rparr>"])
        (use 1 k R timer_stub [of L ?s sp m k] keeps_running_kstep [OF R(3), of k] timer_armed_command [OF R(2)]
         in \<open>simp_all add: run stub_of_def entered_def running_def r_into_rtranclp\<close>)
  next
    case 2
    obtain k where k: "kernel_entry Kernel_call sp m (ksys s) = Some k" "kstep (ksys s) k"
      using R(3) 2(2,3) unfolding keeps_running_def by blast
    show ?thesis
      by (rule that [of "?s\<lparr>ksys := k\<rparr>"])
        (use 2 k R keeps_running_kstep [OF R(3), of k]
         in \<open>simp_all add: run stub_of_def kernel_call_stub_def entered_def running_def r_into_rtranclp\<close>)
  next
    case 3
    show ?thesis
      by (rule that [of "?s\<lparr>intr := outportb PIC0_ADDR_C PIC_OCW3_ISR_READ (intr s)\<rparr>"])
        (use 3 R spurious_stub [of inb ?s L sp m] timer_armed_command [OF R(2)]
         in \<open>simp_all add: run stub_of_def entered_def running_def\<close>)
  qed
qed

inductive_cases mstepE: "mstep inb L s s'"

lemma mstep_running:
  assumes "mstep inb L s s'" "entries_distinct L" "running L s"
  shows "running L s' \<and> kstep\<^sup>*\<^sup>* (ksys s) (ksys s')"
  using assms(1)
proof (rule mstepE)
  fix v err sp m d
  assume "arrives inb sp m s v" "interrupt inb L v err sp m (s\<lparr>console := d\<rparr>) = Some (Inr s')"
  then show ?thesis using interrupt_running [OF assms(2,3), of inb sp m v err d] by auto
qed

lemma msteps_running:
  assumes "(mstep inb L)\<^sup>*\<^sup>* s s'" "entries_distinct L" "running L s"
  shows "running L s' \<and> kstep\<^sup>*\<^sup>* (ksys s) (ksys s')"
  using assms(1)
proof (induction rule: rtranclp_induct)
  case (step s1 s2)
  then show ?case using mstep_running [OF step(2) assms(2)] by (meson rtranclp_trans)
qed (use assms in simp)

text \<open>The boot leads to a running machine.\<close>

lemma boots_running:
  assumes "loaded L info es R s0" "reads_mask inb"
    and "kernel_early inb L dir MULTIBOOT_BOOTLOADER_MAGIC info s0 = Some (Inr s')" "kernel_main_console L cpuid s' = Some s"
  shows "running L s"
proof -
  obtain s1 s2 where "kernel_early inb L dir MULTIBOOT_BOOTLOADER_MAGIC info s0 = Some (Inr s1)" "kernel_main_console L cpuid s1 = Some s2"
    "gates_set L (cpu_tables s2)" "timer_armed L (intr s2)" "keeps_running (ksys s2)"
    by (rule boots [OF assms(1,2), of dir cpuid]) (rule that)
  then show ?thesis using assms(3,4) by (simp add: running_def)
qed

section \<open>Panics\<close>

definition run_literals :: "u8 list list" where
  "run_literals = [panic_format, exception_text, unhandled_exception_text, debug_text, debug2_text, irq_text, unhandled_irq_text]"

definition exception_shown :: "u32 \<Rightarrow> u32 \<Rightarrow> u8 list" where
  "exception_shown int_no err = codes ''exception no: '' @ digits_of 10 (unat int_no) @ codes '' error: '' @ digits_of 10 (unat err) @ [10]"
definition irq_shown :: "u32 \<Rightarrow> u8 list" where
  "irq_shown int_no = codes ''unhandled INT no: '' @ digits_of 10 (unat int_no) @ [10]"

primrec panic_shown :: "panic \<Rightarrow> u8 list" where
  "panic_shown (Unhandled_exception int_no err) =
     exception_shown int_no err @ take 16 panic_format @ unhandled_exception_text @ [10]"
| "panic_shown (Unhandled_irq int_no) =
     debug_text @ debug2_text @ irq_shown int_no @ take 16 panic_format @ unhandled_irq_text @ [10]"

lemma run_renders:
  "render str exception_text [n, e] = Some (exception_shown n e)" "render str irq_text [n] = Some (irq_shown n)"
  "render str debug_text [] = Some debug_text" "render str debug2_text [] = Some debug2_text"
  by (simp_all add: exception_text_def irq_text_def debug_text_def debug2_text_def exception_shown_def irq_shown_def render_codes)

lemma run_literalsD:
  assumes "\<forall>t \<in> set run_literals. cstr m (literal L t) t"
  shows "cstr m (literal L panic_format) panic_format" "cstr m (literal L exception_text) exception_text"
    "cstr m (literal L unhandled_exception_text) unhandled_exception_text" "cstr m (literal L debug_text) debug_text"
    "cstr m (literal L debug2_text) debug2_text" "cstr m (literal L irq_text) irq_text"
    "cstr m (literal L unhandled_irq_text) unhandled_irq_text"
  using assms by (simp_all add: run_literals_def)

lemma stop_with_shows:
  assumes "console_ok s" "cstr (kmem (ksys s)) (literal L panic_format) panic_format" "cstr (kmem (ksys s)) (literal L t) t"
  shows "\<exists>d. stop_with L t s = Some d
    \<and> terminal d = fold (term_putc (display_color (console s))) (take 16 panic_format @ t @ [10]) (terminal (console s))"
  using kpanic_shows [OF assms(2,3), of "console s" "console_cb s"] assms(1) by (simp add: stop_with_def console_ok_def)

lemma stop_shows:
  assumes "console_ok s" "\<forall>t \<in> set run_literals. cstr (kmem (ksys s)) (literal L t) t"
  shows "\<exists>d. stop L p s = Some d
    \<and> terminal d = fold (term_putc (display_color (console s))) (panic_shown p) (terminal (console s))"
proof (cases p)
  case (Unhandled_exception n e)
  note l = run_literalsD [OF assms(2)]
  obtain s1 where s1: "kprint L exception_text [n, e] s = Some s1" "printed (exception_shown n e) s s1"
    by (rule kprint_printed [OF assms(1) l(2) run_renders(1)])
  note p1 = printedD [OF s1(2)]
  show ?thesis using stop_with_shows [OF p1(1) l(1,3) [folded p1(2)]] s1(1) p1(8,9) by (auto simp: Unhandled_exception unhandled_exception_def)
next
  case (Unhandled_irq n)
  note l = run_literalsD [OF assms(2)]
  obtain s1 where s1: "kprint L debug_text [] s = Some s1" "printed debug_text s s1"
    by (rule kprint_printed [OF assms(1) l(4) run_renders(3)])
  note p1 = printedD [OF s1(2)]
  obtain s2 where s2: "kprint L debug2_text [] s1 = Some s2" "printed debug2_text s1 s2"
    by (rule kprint_printed [OF p1(1) l(5) [folded p1(2)] run_renders(4)])
  note p2 = printedD [OF s2(2)]
  obtain s3 where s3: "kprint L irq_text [n] s2 = Some s3" "printed (irq_shown n) s2 s3"
    by (rule kprint_printed [OF p2(1) l(6) [folded p1(2), folded p2(2)] run_renders(2)])
  note p3 = printedD [OF s3(2)]
  show ?thesis using stop_with_shows [OF p3(1) l(1,7) [folded p1(2), folded p2(2), folded p3(2)]] s1(1) s2(1) s3(1) p1(8,9) p2(8,9) p3(8,9)
    by (auto simp: Unhandled_irq unhandled_irq_def DEBUG_def)
qed

text \<open>The panic a vector leads to that no handler takes.\<close>

definition panic_of :: "nat \<Rightarrow> u32 \<Rightarrow> panic" where
  "panic_of v err =
     (if v < 32 then Unhandled_exception (of_nat v) (isr_error v err)
      else if v < 48 then Unhandled_irq (of_nat (v - 32))
      else Unhandled_exception 13 (of_nat (8 * v + 2)))"

lemma isr_stub_panics:
  assumes "timer_armed L (intr s)" "save_context sp m (ksys s) = Some k" "n < 32"
  shows "isr_stub L n err sp m s = map_option Inl (stop L (Unhandled_exception (of_nat n) err) (s\<lparr>ksys := k\<rparr>))"
proof -
  have "unat (of_nat n :: u32) = n" using assms(3) by (simp add: unat_of_nat)
  then show ?thesis using assms(2,3) timer_armedD [OF assms(1)]
    by (simp add: isr_stub_def exception_handler_def EXCEPTION_COUNT_def finish_stub_def interrupts.extend_def)
qed

lemma irq_stub_panics:
  assumes "timer_armed L (intr s)" "save_context sp m (ksys s) = Some k" "0 < n" "n < 16"
  shows "irq_stub L n sp m s = map_option Inl (stop L (Unhandled_irq (of_nat n)) (s\<lparr>ksys := k\<rparr>))"
proof -
  have "unat (of_nat n :: u32) = n" using assms(4) by (simp add: unat_of_nat)
  then show ?thesis using assms(2-4) timer_armedD [OF assms(1)]
    by (simp add: irq_stub_def irq_handler_def IRQ_COUNT_def finish_stub_def interrupts.extend_def)
qed

lemma unhandled_panics:
  assumes L: "entries_distinct L" and r: "running L s" and v: "v < 256" "v \<notin> {32, 39, 128}" and k: "save_context sp m (ksys s) = Some k"
  shows "interrupt inb L v err sp m s = map_option Inl (stop L (panic_of v err) (s\<lparr>ksys := k\<rparr>))"
proof -
  have R: "gates_set L (cpu_tables s)" "timer_armed L (intr s)" using r by (simp_all add: running_def)
  note run = interrupt_stub [OF L R(1) v(1)] isr_stub_panics [OF R(2) k] irq_stub_panics [OF R(2) k]
  consider "v < 32" | "32 \<le> v" "v < 48" | "48 \<le> v" by linarith
  then show ?thesis
  proof cases
    case 2
    then have "0 < v - 32" "v - 32 < 16" "v - 32 \<noteq> 7" using v by auto
    then show ?thesis using 2 run(1) run(3) [of "v - 32"] by (simp add: stub_of_def panic_of_def)
  qed (use v run(1) run(2) [of v] run(2) [of 13] in \<open>simp_all add: stub_of_def panic_of_def isr_error_def\<close>)
qed

section \<open>Properties\<close>

text \<open>C3: The machine after the boot keeps returning to its tasks. From a machine as \<open>loaded\<close> describes it, \<open>kernel_early\<close> and
  \<open>kernel_main\<close> lead to a state from which any sequence of the following arrivals, with any memory and stack pointer the tasks
  leave, is served: the unmasked interrupt requests (only the timer's), spurious requests 7, and kernel calls of a task other
  than the idle task whose result is defined (no sleep whose product overflows an int). Each finds its way through gate,
  entry point and handler back to a task: the timer's runs the clock and is acknowledged to the first controller only, a
  kernel call runs the system, a spurious request changes nothing but the register it reads; the system makes the steps of
  \<open>kstep\<close> and keeps its invariant. The theorem is about tasks that cause no processor fault and execute no other interrupt
  instruction: what those lead to is a panic, which \<open>other_vectors_panic\<close> states. The entry points have different addresses
  (\<open>entries_distinct\<close>), and the interrupt controllers return the masks written to them (\<open>reads_mask\<close>).\<close>

theorem interrupts_return:
  assumes "loaded L info es R s0" "reads_mask inb" "entries_distinct L"
    and "kernel_early inb L dir MULTIBOOT_BOOTLOADER_MAGIC info s0 = Some (Inr s')" "kernel_main_console L cpuid s' = Some s"
    and "(mstep inb L)\<^sup>*\<^sup>* s s1" "arrives inb sp m s1 v"
  shows "kstep\<^sup>*\<^sup>* (ksys s) (ksys s1) \<and> kinv (ksys s1)
    \<and> (\<exists>s2. interrupt inb L v err sp m (s1\<lparr>console := d\<rparr>) = Some (Inr s2) \<and> console s2 = d \<and> mstep inb L s1 s2
      \<and> (v = 32 \<and> kernel_entry Timer sp m (ksys s1) = Some (ksys s2) \<and> io (intr s2) = io (intr s1) @ [(PIC0_ADDR_C, PIC_EOI)]
       \<or> v = 128 \<and> kernel_entry Kernel_call sp m (ksys s1) = Some (ksys s2) \<and> io (intr s2) = io (intr s1)
       \<or> v = 39 \<and> ksys s2 = ksys s1 \<and> io (intr s2) = io (intr s1) @ [(PIC0_ADDR_C, PIC_OCW3_ISR_READ)]))"
proof -
  have run: "running L s" by (rule boots_running [OF assms(1,2,4,5)])
  have s1: "running L s1" "kstep\<^sup>*\<^sup>* (ksys s) (ksys s1)" using msteps_running [OF assms(6,3) run] by simp_all
  obtain s2 where s2: "interrupt inb L v err sp m (s1\<lparr>console := d\<rparr>) = Some (Inr s2)" "entered sp m v s1 s2" "console s2 = d"
    by (rule interrupt_running [OF assms(3) s1(1) assms(7)])
  have "kinv (ksys s1)" using run s1(2) unfolding running_def keeps_running_def by blast
  moreover have "mstep inb L s1 s2" by (rule mstep.enter [OF assms(7) s2(1)])
  ultimately show ?thesis using s1(2) s2 by (auto simp: entered_def)
qed

text \<open>C38: Every other vector - a fault of the processor, an interrupt instruction of a task for a request without a
  handler or for a vector without a gate - stops the kernel with a panic on the screen, which names the vector; a
  missing gate is shown as the protection fault with its error code.\<close>

theorem other_vectors_panic:
  assumes "entries_distinct L" "gates_set L (cpu_tables s)" "timer_armed L (intr s)" "keeps_running (ksys s)"
    and "v < 256" "v \<notin> {32, 39, 128}"
    and "console_ok s" "\<forall>t \<in> set run_literals. cstr m (literal L t) t"
  shows "\<exists>d. interrupt inb L v err sp m s = Some (Inl d)
    \<and> terminal d = fold (term_putc (display_color (console s))) (panic_shown (panic_of v err)) (terminal (console s))"
proof -
  have r: "running L s" using assms(2-4) by (simp add: running_def)
  have "kinv (ksys s)" using assms(4) unfolding keeps_running_def by blast
  then obtain c where "current_task (ksys s) = Some c" unfolding kinv_def kernel_rep_def by blast
  then obtain k where k: "save_context sp m (ksys s) = Some k" "kmem k = m" by (simp add: save_context_def)
  have "console_ok (s\<lparr>ksys := k\<rparr>)" using assms(7) by (simp add: console_ok_def)
  from stop_shows [OF this, of L "panic_of v err"] show ?thesis
    using unhandled_panics [OF assms(1) r assms(5,6) k(1)] assms(8) k(2) by auto
qed

section \<open>A concrete machine\<close>

definition run_linked :: linked where
  "run_linked = demo_linked\<lparr>literal := \<lambda>t. 0x100000 + of_nat (place run_literals t)\<rparr>"

definition run_image :: mem where
  "run_image = write_bytes (\<lambda>_. 0) 0x100000 (texts run_literals)"

lemma run_image_literals: "\<forall>t \<in> set run_literals. cstr run_image (literal run_linked t) t"
proof
  fix t assume t: "t \<in> set run_literals"
  have n: "length (texts run_literals) = 121"
    by (simp add: texts_def run_literals_def panic_format_def exception_text_def unhandled_exception_text_def debug_text_def debug2_text_def
      irq_text_def unhandled_irq_text_def codes_def)
  have "read_bytes run_image 0x100000 (length (texts run_literals)) = texts run_literals"
    unfolding run_image_def by (rule read_write_bytes) (simp add: n)
  moreover have "\<forall>x \<in> set run_literals. 0 \<notin> set x"
    by (simp add: run_literals_def panic_format_def exception_text_def unhandled_exception_text_def debug_text_def debug2_text_def
      irq_text_def unhandled_irq_text_def codes_plain)
  ultimately show "cstr run_image (literal run_linked t) t" using place_cstr t by (simp add: run_linked_def)
qed

lemma run_linked_entries: "entries_distinct run_linked"
proof -
  have u: "unat (16 * of_nat i :: u32) = 16 * i" "unat (0x1000 + 16 * of_nat i :: u32) = 0x1000 + 16 * i" if "i < 32" for i :: nat
    using that by (simp_all add: unat_word_ariths unat_of_nat)
  have ne: "x \<noteq> y" if "unat x \<noteq> unat y" for x y :: u32 using that by auto
  have w: "(16 * of_nat i :: u32) = 16 * of_nat j \<longleftrightarrow> i = j" "(16 * of_nat i :: u32) \<noteq> 0x1000 + 16 * of_nat j"
    "(16 * of_nat i :: u32) \<noteq> 0x1000" "(16 * of_nat i :: u32) \<noteq> 0x2000" if "i < 32" "j < 32" for i j :: nat
  proof -
    show "(16 * of_nat i :: u32) = 16 * of_nat j \<longleftrightarrow> i = j" using that by (simp add: word_unat_eq_iff u)
  qed (rule ne, use that in \<open>simp add: u\<close>)+
  show ?thesis unfolding entries_distinct_def stubs_def
    by (auto simp: run_linked_def demo_linked_def distinct_map inj_on_def comp_def w w(3,4) [where j = 0])
qed

lemma demo_running:
  obtains s where "gates_set run_linked (cpu_tables s)" "timer_armed run_linked (intr s)" "keeps_running (ksys s)" "console_ok s"
proof -
  have hp: "hp demo_system = demo_before" by (simp add: demo_system_def clock.extend_def)
  have fl: "task_flags (ptable demo_system i) = 0" for i by (simp add: demo_system_def clock.extend_def demo_reset_def)
  obtain k where k: "keeps_running k"
    using system_runs [of demo_system, unfolded hp, OF demo_before_ok(1-3) demo_before_room demo_before_ok(5-9) fl] by metis
  obtain i where i: "timer_armed run_linked i" using timer_armed_init [OF last_out_reads] by metis
  obtain d cb where d: "init_console blank_display no_callbacks = (d, cb)" by fastforce
  have t: "length (gdt reset_tables) = 6" by (simp add: reset_tables_def)
  define s where "s = demo_machine\<lparr>console := d, console_cb := cb, ksys := k, intr := i,
    cpu_tables := arch_init_tables (gdt_at run_linked) (idt_at run_linked) (tss_at run_linked) (isr_at run_linked) (irq_at run_linked)
      (kernel_call_at run_linked) reset_tables\<rparr>"
  show ?thesis
    by (rule that [of s]) (use k i gates_set_init [OF t, of run_linked] console_ok_init(1) [of demo_machine d cb] d
      in \<open>simp_all add: s_def console_ok_def demo_machine_def\<close>)
qed

lemma demo_linked_entries: "entries_distinct demo_linked"
  using run_linked_entries by (simp add: entries_distinct_def stubs_def run_linked_def)

theorem interrupts_return_witness:
  "\<exists>s s2. interrupt (\<lambda>tr p. last_out p tr) demo_linked 32 0 0xC0200100 (\<lambda>_. 0) s = Some (Inr s2)
    \<and> io (intr s2) = io (intr s) @ [(PIC0_ADDR_C, PIC_EOI)]"
proof -
  let ?inb = "\<lambda>tr p. last_out p tr" and ?cpuid = "\<lambda>_. (13, 0x756E6547, 0x6C65746E, 0x49656E69)"
  obtain s1 s where s: "kernel_early ?inb demo_linked 0xC0101000 MULTIBOOT_BOOTLOADER_MAGIC 0x2000 demo_machine = Some (Inr s1)"
    "kernel_main_console demo_linked ?cpuid s1 = Some s"
    by (rule boots [OF demo_loaded last_out_reads, of "0xC0101000" ?cpuid]) (rule that)
  have "timer_armed demo_linked (intr s)" using boots_running [OF demo_loaded last_out_reads s] by (simp add: running_def)
  then have "arrives ?inb 0xC0200100 (\<lambda>_. 0) s 32" using timer_armedD(4) [of demo_linked "intr s" 0] by (simp add: arrives_def)
  from interrupts_return [OF demo_loaded last_out_reads demo_linked_entries s rtranclp.rtrancl_refl this, of 0 "console s"]
  show ?thesis by auto
qed

theorem other_vectors_panic_witness:
  "\<exists>s d. interrupt (\<lambda>tr p. last_out p tr) run_linked 200 0 0xC0200100 run_image s = Some (Inl d)
    \<and> terminal d = fold (term_putc (display_color (console s))) (panic_shown (Unhandled_exception 13 1602)) (terminal (console s))"
proof -
  obtain s where s: "gates_set run_linked (cpu_tables s)" "timer_armed run_linked (intr s)" "keeps_running (ksys s)" "console_ok s"
    by (rule demo_running)
  from other_vectors_panic [OF run_linked_entries s(1-3) _ _ s(4) run_image_literals, of 200] show ?thesis
    by (fastforce simp: panic_of_def)
qed

end
