(* ===== verification/KDebug.thy ===== *)
theory KDebug
  imports KBoot
begin

text \<open>
  What is left of src/system/kernel/task.c: \<open>printQ\<close>, the debugging output of a ready queue, and the body of the
  idle task, a round of which shows its counter and halts until the next interrupt.
\<close>

section \<open>The idle task\<close>

text \<open>Counter and machine after a round, up to the \<open>hlt\<close>. The counter is an \<open>int\<close>, which the round increments: past the
  greatest integer that is undefined.\<close>

definition idle :: "u32 \<Rightarrow> machine \<Rightarrow> (u32 \<times> machine) option" where
  "idle a s =
     (if a = 0x7FFFFFFF then None
      else map_option (\<lambda>d. (a + 1, s\<lparr>console := d\<rparr>)) (arch_display_number a 40 15 (console s)))"

text \<open>It leaves everything but the display alone, so the kernel is entered in the state it left.\<close>

lemma idle_keeps:
  assumes "idle a s = Some (b, s')"
  shows "ksys s' = ksys s" "intr s' = intr s" "cpu_tables s' = cpu_tables s"
  using assms by (auto simp: idle_def split: if_splits)

section \<open>The output of a queue\<close>

definition queue_text :: "u8 list" where "queue_text = codes ''queue:''"
definition pid_text :: "u8 list" where "pid_text = 0x20 # [0x25, 0x64]"
definition space_text :: "u8 list" where "space_text = codes ''  ''"

partial_function (option) printQ_loop :: "linked \<Rightarrow> nat option \<Rightarrow> machine \<Rightarrow> machine option" where
  "printQ_loop L cur s =
     (case cur of
        None \<Rightarrow> Some s
      | Some c \<Rightarrow> Option.bind (kprint L pid_text [pid (ptable (ksys s) c)] s)
          (\<lambda>s. printQ_loop L (next_ready (ptable (ksys s) c)) s))"

definition printQ :: "linked \<Rightarrow> int \<Rightarrow> machine \<Rightarrow> machine option" where
  "printQ L prio s =
     (if prio < 0 \<or> prio > LOWEST_TASK_PRIORITY then Some s
      else Option.bind (kprint L queue_text [] s) (\<lambda>s.
           Option.bind (printQ_loop L (queue_head (ksys s) prio) s) (kprint L space_text [])))"

text \<open>The numbers of the tasks in a queue, as they are shown.\<close>

definition pids_shown :: "ksystem \<Rightarrow> nat list \<Rightarrow> u8 list" where
  "pids_shown k ts = concat (map (\<lambda>t. 0x20 # show_int (sint (pid (ptable k t)))) ts)"

lemma debug_renders:
  "render str queue_text [] = Some queue_text" "render str space_text [] = Some space_text"
  "a \<noteq> 0x80000000 \<Longrightarrow> render str pid_text [a] = Some (0x20 # show_int (sint a))"
  using render_codes [of _ str "[]"] by (simp_all add: queue_text_def space_text_def pid_text_def)

lemma printQ_loop_shows:
  assumes "console_ok s" "cstr (kmem (ksys s)) (literal L pid_text) pid_text" "chain (next_of (ksys s)) cur ts"
    and "\<forall>t \<in> set ts. pid (ptable (ksys s) t) \<noteq> 0x80000000"
  obtains s' where "printQ_loop L cur s = Some s'" "printed (pids_shown (ksys s) ts) s s'"
proof -
  have "\<exists>s'. printQ_loop L cur s = Some s' \<and> printed (pids_shown (ksys s) ts) s s'"
    using assms
  proof (induction ts arbitrary: cur s)
    case Nil
    then have "printQ_loop L cur s = Some s" by (simp add: printQ_loop.simps [of L None])
    moreover have "printed [] s s" using Nil.prems(1) by (cases s) (simp add: printed_def)
    ultimately show ?case by (simp add: pids_shown_def)
  next
    case (Cons t ts)
    have cur: "cur = Some t" "chain (next_of (ksys s)) (next_ready (ptable (ksys s) t)) ts" using Cons.prems(3) by (cases cur; simp)+
    have n: "pid (ptable (ksys s) t) \<noteq> 0x80000000" using Cons.prems(4) by simp
    obtain s1 where s1: "kprint L pid_text [pid (ptable (ksys s) t)] s = Some s1"
      "printed (0x20 # show_int (sint (pid (ptable (ksys s) t)))) s s1"
      by (rule kprint_printed [OF Cons.prems(1,2) debug_renders(3) [OF n]])
    note p1 = printedD [OF s1(2)]
    obtain s' where s': "printQ_loop L (next_ready (ptable (ksys s) t)) s1 = Some s'" "printed (pids_shown (ksys s) ts) s1 s'"
      using Cons.IH [of s1 "next_ready (ptable (ksys s) t)"] p1(1,2) Cons.prems(2,4) cur(2) by auto
    show ?case
      using s1(1) s'(1) printed_trans [OF s1(2) s'(2)] p1(2) cur(1)
      by (auto simp: printQ_loop.simps [of L "Some t"] pids_shown_def)
  qed
  then show ?thesis using that by blast
qed

text \<open>\<open>printQ\<close> shows the tasks of the queue from the first to be run to the last, and ends; for a priority
  there is none of, it prints nothing.\<close>

theorem printQ_shows_queue:
  assumes "rq_rep (ksys s) Q" "console_ok s" "\<forall>t \<in> {queue_text, pid_text, space_text}. cstr (kmem (ksys s)) (literal L t) t"
    and "\<forall>t \<in> set (Q p). pid (ptable (ksys s) t) \<noteq> 0x80000000"
  shows "if valid_prio p then \<exists>s'. printQ L p s = Some s' \<and> printed (queue_text @ pids_shown (ksys s) (Q p) @ space_text) s s'
    else printQ L p s = Some s"
proof (cases "valid_prio p")
  case True
  have l: "cstr (kmem (ksys s)) (literal L queue_text) queue_text" "cstr (kmem (ksys s)) (literal L pid_text) pid_text"
    "cstr (kmem (ksys s)) (literal L space_text) space_text" using assms(3) by simp_all
  obtain s1 where s1: "kprint L queue_text [] s = Some s1" "printed queue_text s s1"
    by (rule kprint_printed [OF assms(2) l(1) debug_renders(1)])
  note p1 = printedD [OF s1(2)]
  obtain s2 where s2: "printQ_loop L (queue_head (ksys s) p) s1 = Some s2" "printed (pids_shown (ksys s) (Q p)) s1 s2"
    using printQ_loop_shows [OF p1(1), of L "queue_head (ksys s) p" "Q p"] rq_repD(1) [OF assms(1) True] l(2) assms(4) p1(2) by auto
  note p2 = printedD [OF s2(2)]
  obtain s3 where s3: "kprint L space_text [] s2 = Some s3" "printed space_text s2 s3"
    by (rule kprint_printed [OF p2(1) l(3) [folded p1(2), folded p2(2)] debug_renders(2)])
  have "\<not> (p < 0 \<or> p > LOWEST_TASK_PRIORITY)" using True by (simp add: valid_prio_def)
  then have "printQ L p s = Some s3" using s1(1) s2(1) s3(1) p1(2) by (simp add: printQ_def)
  then show ?thesis using True printed_trans [OF s1(2) printed_trans [OF s2(2) s3(2)]] by simp
next
  case False
  then show ?thesis by (auto simp: printQ_def valid_prio_def)
qed

end
