(* ===== verification/KRealloc.thy ===== *)
theory KRealloc
  imports KHeapSpec
begin

text \<open>
  What \<open>kcalloc\<close> and \<open>krealloc\<close> (kcalloc.c, krealloc.c) do to the objects of a client, and where they go wrong.
\<close>

section \<open>Writing into an object\<close>

lemma stores_refine:
  assumes r: "heap_rep s Obj" and p: "Obj p = Some xs" "length ys \<le> length xs"
  shows "heap_rep (s\<lparr>hmem := write_bytes (hmem s) p ys\<rparr>) (Obj(p \<mapsto> ys @ drop (length ys) xs))"
  using p(2)
proof (induction ys rule: rev_induct)
  case Nil
  have "Obj(p \<mapsto> xs) = Obj" using p(1) by auto
  then show ?case using r by simp
next
  case (snoc y ys)
  define s1 where "s1 = s\<lparr>hmem := write_bytes (hmem s) p ys\<rparr>"
  have le: "length ys < length xs" using snoc.prems by simp
  have ih: "heap_rep s1 (Obj(p \<mapsto> ys @ drop (length ys) xs))" unfolding s1_def by (rule snoc.IH) (use le in simp)
  have up: "(ys @ drop (length ys) xs)[length ys := y] = (ys @ [y]) @ drop (length (ys @ [y])) xs"
    using le by (simp add: list_update_append Cons_nth_drop_Suc [symmetric])
  have st: "store_byte (p + of_nat (length ys)) y s1 = s\<lparr>hmem := write_bytes (hmem s) p (ys @ [y])\<rparr>"
    by (simp add: store_byte_def s1_def write_bytes_append)
  have "heap_rep (store_byte (p + of_nat (length ys)) y s1) ((Obj(p \<mapsto> ys @ drop (length ys) xs))(p \<mapsto> (ys @ drop (length ys) xs)[length ys := y]))"
    by (rule store_refines [OF ih]) (use le in simp_all)
  then show ?case unfolding st up fun_upd_upd .
qed

text \<open>A client may forget the end of an object.\<close>

lemma prefix_refines:
  assumes r: "heap_rep s Obj" and p: "Obj p = Some xs"
  shows "heap_rep s (Obj(p \<mapsto> take k xs))"
proof -
  obtain bs where h: "hinv s bs" "kernel_avail s" "dom Obj = (\<lambda>(a, n). of_nat (a + 8)) ` Used bs" "\<forall>b \<in> Used bs. object_ok s Obj b"
    by (rule heap_repD [OF r])
  show ?thesis
  proof (rule heap_repI [OF h(1,2)])
    show "dom (Obj(p \<mapsto> take k xs)) = (\<lambda>(a, n). of_nat (a + 8)) ` Used bs" unfolding h(3) [symmetric] using p by auto
    fix a n assume "(a, n) \<in> Used bs"
    then have "object_ok s Obj (a, n)" using h(4) by blast
    then show "object_ok s (Obj(p \<mapsto> take k xs)) (a, n)" using p unfolding object_ok_def by (auto simp del: of_nat_add)
  qed
qed

section \<open>kcalloc\<close>

lemma kcalloc_zeroed:
  assumes r: "heap_rep s Obj" and n: "unat (sz * nmemb) < 0xBFFFF0"
  shows "\<exists>p s' Obj'. kcalloc (kernel_callbacks cb) nmemb sz s = Some (p, s') \<and> heap_rep s' Obj'
    \<and> (p = NULL \<and> Obj' = Obj \<or> p \<noteq> NULL \<and> Obj p = None \<and> Obj' = Obj(p \<mapsto> replicate (unat (sz * nmemb)) 0))"
proof -
  obtain p s1 Obj1 where k: "kmalloc (kernel_callbacks cb) (sz * nmemb) s = Some (p, s1)" "abs_step Obj (Alloc (sz * nmemb)) p Obj1" "heap_rep s1 Obj1"
    using alloc_refines [OF r n, of cb] by blast
  show ?thesis
  proof (cases "p = NULL")
    case True
    then have "Obj1 = Obj" using k(2) by (auto elim: abs_stepE)
    then show ?thesis using k(1,3) True by (auto simp: kcalloc_def)
  next
    case False
    then obtain xs where xs: "Obj p = None" "length xs = unat (sz * nmemb)" "Obj1 = Obj(p \<mapsto> xs)" using k(2) by (auto elim: abs_stepE)
    let ?z = "replicate (unat (sz * nmemb)) 0"
    let ?s = "s1\<lparr>hmem := write_bytes (hmem s1) p ?z\<rparr>"
    have "kcalloc (kernel_callbacks cb) nmemb sz s = Some (p, ?s)"
      using False by (simp add: kcalloc_def Let_def k(1) kmemset_def fill_write)
    moreover have "heap_rep ?s (Obj(p \<mapsto> ?z))"
      using stores_refine [OF k(3), of p xs ?z] by (simp add: xs)
    ultimately show ?thesis using False xs(1) by blast
  qed
qed

section \<open>krealloc\<close>

text \<open>
  The promise of \<open>krealloc\<close>: the object keeps its contents up to the smaller of the two sizes, here or elsewhere; or
  there is no memory, and nothing changes.
\<close>

inductive abs_realloc :: "objects \<Rightarrow> addr \<Rightarrow> u32 \<Rightarrow> addr \<Rightarrow> objects \<Rightarrow> bool" where
  fresh: "abs_step Obj (Alloc n) q Obj' \<Longrightarrow> abs_realloc Obj NULL n q Obj'"
| gone: "\<lbrakk>p \<noteq> NULL; Obj p = Some xs\<rbrakk> \<Longrightarrow> abs_realloc Obj p 0 NULL (Obj(p := None))"
| resize: "\<lbrakk>p \<noteq> NULL; n \<noteq> 0; Obj p = Some xs; q \<noteq> NULL; q = p \<or> Obj q = None; length zs = unat n;
     take (length xs) zs = take (unat n) xs\<rbrakk> \<Longrightarrow> abs_realloc Obj p n q ((Obj(p := None))(q \<mapsto> zs))"
| no_memory: "\<lbrakk>p \<noteq> NULL; n \<noteq> 0; Obj p = Some xs\<rbrakk> \<Longrightarrow> abs_realloc Obj p n NULL Obj"

text \<open>In place: the block at \<open>a\<close> has the new size \<open>m\<close>.\<close>

lemma resized_refines:
  assumes r: "objects_at s Obj bs" and a: "(a, n) \<in> Used bs" and z: "resized s bs a n m s' bs'" and av: "kernel_avail s'" and len: "len + 4 \<le> m"
    and xs: "Obj (of_nat (a + 8)) = Some xs"
  obtains zs where "length zs = len" "take (length xs) zs = take len xs" "heap_rep s' (Obj(of_nat (a + 8) \<mapsto> zs))"
proof -
  note h = objects_atD [OF r]
  have s': "hinv s' bs'" "Used bs' = insert (a, m) (Used bs - {(a, n)})" "keeps (insert (a, min n m) (Used bs - {(a, n)})) s s'"
    using z by (simp_all add: resized_def)
  have am: "(a, m) \<in> Used bs'" by (simp add: s'(2))
  note u = used_block [OF h(1) a] and um = used_block [OF s'(1) am]
  define zs where "zs = map (\<lambda>i. hmem s' (of_nat (a + 8 + i))) [0..<len]"
  obtain xs' where xs': "Obj (of_nat (a + 8)) = Some xs'" "length xs' + 4 \<le> n" "\<forall>i < length xs'. hmem s (of_nat (a + 8 + i)) = xs' ! i"
    using h(4) a unfolding object_ok_def by blast
  have "xs' = xs" using xs xs'(1) by simp
  note xs' = xs' [unfolded this]
  have same: "hmem s' (of_nat (a + (8 + i))) = hmem s (of_nat (a + (8 + i)))" if "i < length xs" "i < len" for i
  proof (rule keeps_byte [OF s'(3) _ u(1)])
    show "(a, min n m) \<in> insert (a, min n m) (Used bs - {(a, n)})" by simp
    show "a + min n m + 4 \<le> 4294967296" "min n m mod 8 = 0" using u um by (simp_all add: min_def)
    show "8 \<le> 8 + i" "8 + i < min n m + 4" using that xs'(2) len by simp_all
  qed
  have tk: "take (length xs) zs = take len xs"
    by (rule nth_equalityI) (use same xs'(3) in \<open>auto simp: zs_def add.assoc simp del: of_nat_add\<close>)
  have other: "of_nat (b + 8) \<noteq> (of_nat (a + 8) :: addr)" if b: "(b, k) \<in> Used bs - {(a, n)}" for b k
  proof
    assume eq: "(of_nat (b + 8) :: addr) = of_nat (a + 8)"
    from used_once [OF h(1) _ a eq] b show False by blast
  qed
  have "heap_rep s' (Obj(of_nat (a + 8) \<mapsto> zs))"
  proof (rule heap_repI [OF s'(1) av])
    have "Used bs = insert (a, n) (Used bs - {(a, n)})" using a by blast
    then have "dom Obj = insert (of_nat (a + 8)) ((\<lambda>(a, n). of_nat (a + 8)) ` (Used bs - {(a, n)}))" using h(3) by (metis (no_types, lifting) image_insert old.prod.case)
    then show "dom (Obj(of_nat (a + 8) \<mapsto> zs)) = (\<lambda>(a, n). of_nat (a + 8)) ` Used bs'" unfolding s'(2) by (simp del: of_nat_add)
    fix b k assume "(b, k) \<in> Used bs'"
    then consider "b = a" "k = m" | "(b, k) \<in> Used bs - {(a, n)}" unfolding s'(2) by blast
    then show "object_ok s' (Obj(of_nat (a + 8) \<mapsto> zs)) (b, k)"
    proof cases
      case 1
      then show ?thesis unfolding object_ok_def using len by (auto simp: zs_def)
    next
      case 2
      then have bm: "(b, k) \<in> Used bs" by blast
      show ?thesis
        by (rule object_keeps [OF h(1) bm s'(3)]) (use 2 h(4) other [OF 2] in \<open>auto simp del: of_nat_add in_Used\<close>)
    qed
  qed
  then show ?thesis using that [of zs] tk by (simp add: zs_def)
qed

text \<open>Elsewhere: a new block, a copy, and the old block is released.\<close>

lemma copied_refines:
  assumes r: "objects_at s Obj bs" and a: "(a, n) \<in> Used bs" and xs: "Obj (of_nat (a + 8)) = Some xs"
    and al: "allocated s bs c q s1 bs1" and av: "kernel_avail s1" and c: "n < c" "len + 4 \<le> c" "length xs \<le> len"
  obtains s2 zs where "kfree (kernel_callbacks cb) (of_nat (a + 8)) (s1\<lparr>hmem := fst (kmemcpy (hmem s1) q (of_nat (a + 8)) (of_nat n - CHUNK_OVERHEAD))\<rparr>) = Some s2"
    "q \<noteq> NULL" "Obj q = None" "length zs = len" "take (length xs) zs = xs" "heap_rep s2 ((Obj(of_nat (a + 8) := None))(q \<mapsto> zs))"
proof -
  let ?p = "of_nat (a + 8) :: addr"
  note h = objects_atD [OF r] and u = used_block [OF objects_atD(1) [OF r] a]
  define L where "L = max len (n - 4)"
  have L: "L + 4 \<le> c" "len \<le> L" "n - 4 \<le> L" unfolding L_def using c(1,2) u(5) by simp_all
  obtain ys where ys: "length ys = L" "q \<noteq> NULL" "Obj q = None" "objects_at s1 (Obj(q \<mapsto> ys)) bs1"
    by (rule allocated_refines [OF r al av L(1)])
  note h1 = objects_atD [OF ys(4)]
  obtain b m where b: "q = of_nat (b + 8)" "c \<le> m" "(b, m) \<notin> Used bs" "Used bs1 = insert (b, m) (Used bs)"
    using al unfolding allocated_def by blast
  have in1: "(a, n) \<in> Used bs1" "(b, m) \<in> Used bs1" using a unfolding b(4) by blast+
  have apart: "a + n \<le> b \<or> b + m \<le> a"
  proof -
    have "(a, n, True) \<in> set bs1" "(b, m, True) \<in> set bs1" using in1 by simp_all
    from chain_disjoint [OF coreD(3) [OF hinvD(1) [OF h1(1)]] this] show ?thesis using b(3) a by auto
  qed
  note ub = used_block [OF h1(1) in1(2)]
  have cap: "unat (of_nat n - CHUNK_OVERHEAD) = n - 4"
  proof -
    have "(of_nat n :: u32) - CHUNK_OVERHEAD = of_nat (n - 4)" using word_diff_of_nat [of 4 n] u(5) by (simp add: CHUNK_OVERHEAD_def)
    then show ?thesis using u(4) by (simp add: unat_of_nat del: of_nat_diff)
  qed
  have "q + of_nat i \<noteq> ?p + of_nat j" if "i < j" "j < n - 4" for i j
  proof
    assume "q + of_nat i = ?p + of_nat j"
    then have eq: "(of_nat (b + 8 + i) :: addr) = of_nat (a + 8 + j)" by (simp add: b(1))
    have "unat (of_nat (b + 8 + i) :: addr) = b + 8 + i" "unat (of_nat (a + 8 + j) :: addr) = a + 8 + j"
      using u(4) ub(4) that c(1) b(2) by (simp_all add: unat_of_nat del: of_nat_add)
    then have "b + 8 + i = a + 8 + j" unfolding eq by (rule trans [OF sym])
    then show False using apart that b(2) c(1) by linarith
  qed
  then have cp: "fst (kmemcpy (hmem s1) q ?p (of_nat n - CHUNK_OVERHEAD)) = write_bytes (hmem s1) q (read_bytes (hmem s1) ?p (n - 4))"
    unfolding kmemcpy_def cap fst_conv by (intro copy_up_write) (use u(4) in simp_all)
  define bytes where "bytes = read_bytes (hmem s1) ?p (n - 4)"
  have lb: "length bytes = n - 4" by (simp add: bytes_def)
  have pq: "?p \<noteq> q" using xs ys(3) by auto
  have tk: "take (length xs) bytes = xs" "length xs \<le> n - 4"
  proof -
    have "object_ok s1 (Obj(q \<mapsto> ys)) (a, n)" using h1(4) in1(1) by blast
    then have o: "length xs + 4 \<le> n" "\<forall>i < length xs. hmem s1 (of_nat (a + 8 + i)) = xs ! i"
      using xs pq unfolding object_ok_def by (auto simp del: of_nat_add)
    then show "length xs \<le> n - 4" by simp
    then show "take (length xs) bytes = xs"
      by (intro nth_equalityI) (use o(2) in \<open>simp_all add: lb bytes_def nth_read_bytes\<close>)
  qed
  have rep1: "heap_rep s1 (Obj(q \<mapsto> ys))" using ys(4) unfolding heap_rep_def by blast
  define zs where "zs = take len (bytes @ drop (n - 4) ys)"
  define s1' where "s1' = s1\<lparr>hmem := write_bytes (hmem s1) q bytes\<rparr>"
  have "heap_rep s1' ((Obj(q \<mapsto> ys))(q \<mapsto> bytes @ drop (length bytes) ys))"
    unfolding s1'_def by (rule stores_refine [OF rep1]) (use ys(1) L in \<open>simp_all add: lb\<close>)
  then have "heap_rep s1' (Obj(q \<mapsto> bytes @ drop (n - 4) ys))" by (simp only: fun_upd_upd lb)
  from prefix_refines [OF this, of q _ len] have rep2: "heap_rep s1' (Obj(q \<mapsto> zs))" by (simp add: zs_def)
  obtain s2 Obj2 where k: "kfree (kernel_callbacks cb) ?p s1' = Some s2" "abs_step (Obj(q \<mapsto> zs)) (Release ?p) NULL Obj2" "heap_rep s2 Obj2"
    using release_refines [OF rep2, of ?p cb] xs pq by auto
  have "Obj2 = (Obj(?p := None))(q \<mapsto> zs)" using k(2) pq by (auto simp: abs_release fun_upd_twist)
  moreover have "length zs = len" using ys(1) L by (simp add: zs_def lb)
  moreover have "take (length xs) zs = xs" using tk c(3) by (simp add: zs_def min_absorb1 lb)
  ultimately show ?thesis using that k(1,3) ys(2,3) unfolding cp s1'_def bytes_def [symmetric] by blast
qed

text \<open>What \<open>krealloc\<close> does with a block in use, its guards discharged.\<close>

lemma krealloc_eq:
  assumes h: "hinv s bs" and a: "(a, m) \<in> Used bs" and n: "req \<noteq> 0" and R: "REQUEST2SIZE req = of_nat c" "c < 4294967296" "c mod 8 = 0"
    and hd: "wd s (a + 4) = head_word (of_nat m) True rf"
  shows "krealloc cb (of_nat (a + 8)) req s =
      (if c = m then Some (of_nat (a + 8), s)
       else if c < m then
         if m - c < 16 \<and> IS_INUSE (of_nat (a + m)) s then Some (of_nat (a + 8), s)
         else map_option (Pair (of_nat (a + 8))) (merge_free_chunks cb (of_nat (a + c)) (of_nat (m - c)) (of_nat (a + m))
                (set_header (of_nat a) (head_word (of_nat c) True rf) s))
       else Option.bind (try_expand_chunk (of_nat a) (of_nat c) s) (\<lambda>(ok, s).
              if ok then Some (of_nat (a + 8), s)
              else Option.bind (kmalloc_intern cb (of_nat c) True s) (\<lambda>(new_location, s).
                if new_location \<noteq> NULL then
                  (case kmemcpy (hmem s) new_location (of_nat (a + 8)) (of_nat m - CHUNK_OVERHEAD) of
                     (mm, result) \<Rightarrow> map_option (Pair result) (kfree cb (of_nat (a + 8)) (s\<lparr>hmem := mm\<rparr>)))
                else Some (NULL, s))))"
proof -
  note c0 = hinvD(1) [OF h]
  have am: "(a, m, True) \<in> set bs" using a by simp
  note b = core_block [OF c0 am]
  note hf = header_facts [OF b(1) hd b(4,6)]
  have pl: "PAYLOAD_CHUNK (of_nat (a + 8)) = of_nat a" by (simp add: PAYLOAD_CHUNK_def)
  have nz: "(of_nat (a + 8) :: addr) \<noteq> NULL" by (rule payload_addr [OF b(1)])
  have ok: "ADDRESS_OK (of_nat a) s" by (rule address_ok [OF c0 b(7)]) (use b(8) in simp)
  have okn: "ADDRESS_OK (of_nat (a + m)) s" by (rule address_ok [OF c0]) (use b(7,8) in simp_all)
  have eq: "(of_nat c :: u32) = of_nat m \<longleftrightarrow> c = m" "(of_nat c :: u32) < of_nat m \<longleftrightarrow> c < m"
    using R(2) b(6) by (simp_all add: word_less_nat_alt unat_of_nat word_unat_eq_iff)
  have df: "(of_nat m :: u32) - of_nat c = of_nat (m - c)" if "c < m" by (rule word_diff_of_nat) (use that in simp)
  have small: "(of_nat (m - c) :: u32) < MINCHUNKSIZE \<longleftrightarrow> m - c < 16"
    using b(6) by (simp add: MINCHUNKSIZE_def word_less_nat_alt unat_of_nat del: of_nat_diff)
  have nx: "NEXTCHUNK (of_nat a) (set_header (of_nat a) (head_word (of_nat c) True rf) s) = of_nat (a + c)"
  proof -
    have "head_word (of_nat c) True rf AND NOT FLAGMASK = (of_nat c :: u32)"
    proof -
      have "chunk_size (of_nat c)" using R(2,3) by (simp add: chunk_size_iff unat_of_nat)
      from head_word_simps(1) [OF this] show ?thesis .
    qed
    then show ?thesis unfolding NEXTCHUNK_def GETCHUNKSIZE_def using b(1) by simp
  qed
  show ?thesis
    unfolding krealloc_def pl R(1) Let_def if_not_P [OF nz] if_not_P [OF n] hf(1,3,4) CHUNK_PAYLOAD_SIZE_def eq header_kept [symmetric] nx
    using hinv_init [OF h] ok okn hf(2) df small by (simp del: of_nat_add of_nat_diff)
qed

lemma in_place_refines:
  assumes ob: "objects_at s Obj bs" and a: "(a, m) \<in> Used bs" and xs: "Obj (of_nat (a + 8)) = Some xs" and n: "req \<noteq> 0"
    and z: "resized s bs a m k s2 bs2" "kernel_avail s2" "unat req + 4 \<le> k"
  shows "\<exists>Obj'. abs_realloc Obj (of_nat (a + 8)) req (of_nat (a + 8)) Obj' \<and> heap_rep s2 Obj'"
proof -
  have "(a, m, True) \<in> set bs" using a by simp
  then have nz: "(of_nat (a + 8) :: addr) \<noteq> NULL" by (rule payload_addr [OF core_block(1) [OF hinvD(1) [OF objects_atD(1) [OF ob]]]])
  obtain zs where zs: "length zs = unat req" "take (length xs) zs = take (unat req) xs" "heap_rep s2 (Obj(of_nat (a + 8) \<mapsto> zs))"
    by (rule resized_refines [OF ob a z xs])
  have "abs_realloc Obj (of_nat (a + 8)) req (of_nat (a + 8)) ((Obj(of_nat (a + 8) := None))(of_nat (a + 8) \<mapsto> zs))"
    by (rule abs_realloc.resize [where xs = xs]) (use nz zs n xs in auto)
  then show ?thesis using zs(3) unfolding fun_upd_upd by blast
qed

lemma elsewhere_refines:
  assumes ob: "objects_at s Obj bs" and a: "(a, m) \<in> Used bs" and xs: "Obj (of_nat (a + 8)) = Some xs" "length xs + 4 \<le> m" and n: "req \<noteq> 0"
    and c: "chunk_of_request (unat req) = c" "m < c" "valid_size c" "c < 0xC00000" "unat req + 4 \<le> c"
  shows "\<exists>q s' Obj'. Option.bind (kmalloc_intern (kernel_callbacks cb) (of_nat c) True s) (\<lambda>(new_location, s).
      if new_location \<noteq> NULL then
        (case kmemcpy (hmem s) new_location (of_nat (a + 8)) (of_nat m - CHUNK_OVERHEAD) of
           (mm, result) \<Rightarrow> map_option (Pair result) (kfree (kernel_callbacks cb) (of_nat (a + 8)) (s\<lparr>hmem := mm\<rparr>)))
      else Some (NULL, s)) = Some (q, s') \<and> abs_realloc Obj (of_nat (a + 8)) req q Obj' \<and> heap_rep s' Obj'"
proof -
  note h = objects_atD [OF ob]
  have am: "(a, m, True) \<in> set bs" using a by simp
  note b = core_block [OF hinvD(1) [OF h(1)] am]
  have nz: "(of_nat (a + 8) :: addr) \<noteq> NULL" by (rule payload_addr [OF b(1)])
  obtain q s1 where k: "kmalloc_intern (kernel_callbacks cb) (of_nat c) True s = Some (q, s1)" "kernel_avail s1"
    "(\<exists>bs'. allocated s bs c q s1 bs') \<or> (q = NULL \<and> topChunkSize s < of_nat c \<and> hinv s1 bs \<and> keeps (Used bs) s s1)"
    by (rule kernel.kmalloc_intern_ok [OF h(1,2) c(3,4), of cb])
  show ?thesis
  proof (cases "q = NULL")
    case True
    then have "hinv s1 bs" "keeps (Used bs) s s1" using k(3) allocated_not_NULL by blast+
    then have "heap_rep s1 Obj" using unchanged_refines [OF ob _ _ k(2)] unfolding heap_rep_def by blast
    moreover have "abs_realloc Obj (of_nat (a + 8)) req NULL Obj"
      by (rule abs_realloc.no_memory [where xs = xs]) (use nz n xs in auto)
    ultimately show ?thesis unfolding k(1) using True by auto
  next
    case qn: False
    then obtain bs1 where al: "allocated s bs c q s1 bs1" using k(3) by blast
    have len: "length xs \<le> unat req"
    proof -
      have c8: "c mod 8 = 0" using c(3) by (simp add: valid_size_def)
      have "16 < c" using c(2) b(3) by simp
      then have "c \<le> unat req + 11" using c(1) unfolding chunk_of_request_def by (auto simp: max_def split: if_splits)
      moreover have "m + 8 \<le> c" using b(4) c8 c(2) by presburger
      ultimately show ?thesis using xs(2) by simp
    qed
    obtain s2 zs where z: "kfree (kernel_callbacks cb) (of_nat (a + 8)) (s1\<lparr>hmem := fst (kmemcpy (hmem s1) q (of_nat (a + 8)) (of_nat m - CHUNK_OVERHEAD))\<rparr>) = Some s2"
      "Obj q = None" "length zs = unat req" "take (length xs) zs = xs" "heap_rep s2 ((Obj(of_nat (a + 8) := None))(q \<mapsto> zs))"
      by (rule copied_refines [OF ob a xs(1) al k(2) c(2,5) len, of cb])
    have "abs_realloc Obj (of_nat (a + 8)) req q ((Obj(of_nat (a + 8) := None))(q \<mapsto> zs))"
      by (rule abs_realloc.resize [where xs = xs]) (use nz z len n xs qn in auto)
    then show ?thesis unfolding k(1) using qn z(1,5) by (auto simp: kmemcpy_def)
  qed
qed

lemma krealloc_block:
  assumes r: "heap_rep s Obj" and p: "Obj p = Some xs" and n: "req \<noteq> 0" "unat req < 0xBFFFF0"
    and safe: "\<not> over_links (PAYLOAD_CHUNK p) (REQUEST2SIZE req) s"
  shows "\<exists>q s' Obj'. krealloc (kernel_callbacks cb) p req s = Some (q, s') \<and> abs_realloc Obj p req q Obj' \<and> heap_rep s' Obj'"
proof -
  obtain bs where ob: "objects_at s Obj bs" using r unfolding heap_rep_def by blast
  note h = objects_atD [OF ob]
  obtain a m where a: "(a, m) \<in> Used bs" "p = of_nat (a + 8)" "length xs + 4 \<le> m" by (rule live_block [OF h(1,3,4) p])
  note p' = p [unfolded a(2)]
  have am: "(a, m, True) \<in> set bs" using a(1) by simp
  obtain us vs where bs: "bs = us @ (a, m, True) # vs" using block_at [OF am] by blast
  obtain rf where hd: "wd s (a + 4) = head_word (of_nat m) True rf" by (rule hinv_split [OF h(1) [unfolded bs]])
  define c where "c = chunk_of_request (unat req)"
  have v: "unat req < 4294967285" using n(2) by simp
  note cv = chunk_of_request_valid [OF v, folded c_def]
  have c: "16 \<le> c" "c mod 8 = 0" "c < 4294967296" using cv(1) by (simp_all add: valid_size_def)
  have R: "REQUEST2SIZE req = of_nat c" using cv(2) by simp
  note run = krealloc_eq [OF h(1) a(1) n(1) R c(3,2) hd, of "kernel_callbacks cb"] and keep = in_place_refines [OF ob a(1) p' n(1)]
  have same: "resized s bs a m m s bs" unfolding resized_def using h(1) a(1) by auto
  consider "c = m" | "c < m" "m - c < 16 \<and> IS_INUSE (of_nat (a + m)) s" | "c < m" "\<not> (m - c < 16 \<and> IS_INUSE (of_nat (a + m)) s)" | "m < c"
    by linarith
  then show ?thesis
  proof cases
    case 1
    then show ?thesis using keep [OF same h(2)] cv(3) unfolding a(2) run by simp
  next
    case 2
    then show ?thesis using keep [OF same h(2)] cv(3) unfolding a(2) run by simp
  next
    case 3
    have room: "IS_INUSE (of_nat (a + m)) s \<Longrightarrow> c + 16 \<le> m" using 3 by auto
    obtain s2 bs2 where "merge_free_chunks (kernel_callbacks cb) (of_nat (a + c)) (of_nat (m - c)) (of_nat (a + m))
        (set_header (of_nat a) (head_word (of_nat c) True rf) s) = Some s2" "resized s bs a m c s2 bs2" "kernel_avail s2"
      by (rule kernel.shrink_ok [OF h(1,2) a(1) c(2,1) 3(1) hd room, of cb])
    then show ?thesis using keep [of c s2 bs2] cv(3) 3 unfolding a(2) run by auto
  next
    case 4
    have "\<not> over_links (of_nat a) (of_nat c) s" using safe unfolding a(2) R by (simp add: PAYLOAD_CHUNK_def)
    from h(1) a(1) c(2) 4 c(3) this show ?thesis
    proof (cases rule: try_expand_ok)
      case (grown s2 bs2 k)
      have "unat req + 4 \<le> k" using cv(3) grown(2) by simp
      from keep [OF grown(3) kernel_avail_cong [OF h(2) grown(4)] this] show ?thesis using 4 unfolding a(2) run grown(1) by auto
    next
      case kept
      have big: "c < 0xC00000" using cv(4) n(2) by simp
      show ?thesis using elsewhere_refines [OF ob a(1) p' a(3) n(1) c_def [symmetric] 4 cv(1) big cv(3), of cb] 4
        unfolding a(2) run kept by simp
    qed
  qed
qed

section \<open>Where the code goes wrong\<close>

text \<open>
  \<open>try_expand_chunk\<close> writes the header of the remainder before the neighbour leaves its list: eight bytes of growth
  put it over the neighbour's link to its predecessor, and the successor gets that header as its link.
\<close>

lemma wd_stray: "\<lbrakk>unat x + 4 \<le> b; b < 4294967296\<rbrakk> \<Longrightarrow> wd (wr x v s) b = wd s b"
proof -
  assume a: "unat x + 4 \<le> b" "b < 4294967296"
  show ?thesis
  proof (cases "b mod 4 = 0")
    case True
    have u: "unat (of_nat b :: addr) = b" using a(2) by (simp add: unat_of_nat)
    have b4: "b \<le> 4294967292" using True a(2) by (auto simp: mod_eq_0_iff_dvd elim!: dvdE)
    have "4 \<le> (of_nat b :: addr) - x" "4 \<le> x - (of_nat b :: addr)"
      using a(1) b4 unat_sub_if_size [of "of_nat b :: addr" x] unat_sub_if_size [of x "of_nat b :: addr"]
      by (auto simp: word_le_nat_alt u word_size)
    then have "ld32 (st32 (hmem s) x v) (of_nat b) = ld32 (hmem s) (of_nat b)" by (intro ld32_st32_apart)
    then show ?thesis by (simp add: wd_def rd_def wr_def)
  qed (simp add: wd_def)
qed

lemma flagged_small: "i < 256 \<Longrightarrow> unat ((of_nat i OR PINUSE) + 8 :: u32) < 264"
proof -
  assume i: "i < 256"
  define w P :: u32 where "w = of_nat i" and "P = w OR 1"
  have "w < 256" unfolding w_def using i by (simp add: word_less_nat_alt unat_of_nat)
  then have uw: "uint w < 2 ^ 8" by (simp add: word_less_alt)
  have "uint P < 2 ^ 8" unfolding P_def uint_or by (rule OR_upper [OF _ uw]) simp_all
  then have "P < 256" by (simp add: word_less_alt)
  then have "unat P < 256" by (simp add: word_less_nat_alt)
  then show ?thesis using unat_plus_of_nat [of P 8] by (simp add: P_def w_def PINUSE_def)
qed

lemma small_size_index:
  assumes "n < 256"
  shows "unat (small_index (of_nat n)) = n div 8" "(of_nat n :: u32) < MIN_LARGE_SIZE"
proof -
  have u: "unat (of_nat n :: u32) = n" using assms by (simp add: unat_of_nat)
  show "unat (small_index (of_nat n)) = n div 8" unfolding small_index_def unat_drop_bit_eq u by (simp add: drop_bit_eq_div)
  show "(of_nat n :: u32) < MIN_LARGE_SIZE" using assms u by (simp add: MIN_LARGE_SIZE_def word_less_nat_alt)
qed

lemma small_neighbour:
  assumes b: "bins_ok s F" and f: "fits F" and x: "(x, n) \<in> F" and n: "n < 256" and ne: "next_chunk (of_nat x) s \<noteq> of_nat x"
  obtains z where "next_chunk (of_nat x) s = of_nat z" "(z, n) \<in> F" "z \<noteq> x"
proof -
  have ok: "okaddr x" "n mod 8 = 0" using fitsD [OF f x] by blast+
  have j: "n = 8 * (n div 8)" "n div 8 < 32" using small_size [OF n ok(2)] by simp_all
  obtain xs where xs: "circ (wd s) xs" "distinct xs" "set xs = smalls F (n div 8)"
    by (rule small_bin_list [OF b j(2)])
  have "x \<in> set xs" using x xs(3) j(1) by (simp add: smalls_def)
  then obtain us vs where uv: "xs = us @ x # vs" by (meson split_list)
  have "circ (wd s) (x # vs @ us)" using circ_rotate [of "wd s" us "x # vs"] xs(1) by (simp add: uv)
  then have w: "wd s (x + 8) = of_nat (hd ((vs @ us) @ [x]))" by (rule circ_ends)
  let ?z = "hd ((vs @ us) @ [x])"
  have "?z \<in> set (vs @ us @ [x])" by (metis append_assoc hd_in_set snoc_eq_iff_butlast)
  then have "?z \<in> set xs" using uv by auto
  then have "(?z, n) \<in> F" using xs(3) j(1) by (simp add: smalls_def)
  moreover have "next_chunk (of_nat x) s = of_nat ?z" using ok(1) w by simp
  moreover have "?z \<noteq> x" using ne calculation(2) by metis
  ultimately show ?thesis using that [of ?z] by blast
qed

text \<open>Defect: when a block grows by eight bytes into a free neighbour that shares its small bin with another chunk, the
  other chunk's link to its predecessor becomes the size of the remainder with a flag.\<close>

theorem expand_overwrites_links:
  assumes h: "hinv s (us @ (a, n, True) # (a + n, k, False) # vs)" and d: "dVictim s \<noteq> of_nat (a + n)" and k: "32 \<le> k" "k < 256"
    and ne: "next_chunk (of_nat (a + n)) s \<noteq> of_nat (a + n)" and bin: "sbin s (k div 8 - 1) = NULL" and low: "512 \<le> unat (heap_start s)"
  shows "\<exists>s'. try_expand_chunk (of_nat a) (of_nat (n + 8)) s = Some (True, s')
    \<and> prev_chunk (next_chunk (of_nat (a + n)) s) s' = of_nat (k - 8) OR PINUSE"
proof -
  let ?bs = "us @ (a, n, True) # (a + n, k, False) # vs" and ?y = "a + n" and ?c = "n + 8"
  define P :: u32 where "P = of_nat (k - 8) OR PINUSE"
  note c0 = hinvD(1) [OF h] and v = victim_elsewhere [OF h d]
  have mem: "(a, n, True) \<in> set ?bs" "(?y, k, False) \<in> set ?bs" by simp_all
  note b = core_block [OF c0 mem(1)] and bk = core_block [OF c0 mem(2)] and fk = core_free [OF c0 mem(2)]
  obtain z where z: "next_chunk (of_nat ?y) s = of_nat z" "(z, k) \<in> Free ?bs - dv_set s" "z \<noteq> ?y"
    by (rule small_neighbour [OF coreD(5) [OF c0] fits_subset [OF core_fits [OF c0] coreD(4) [OF c0]] v(1) k(2) ne])
  have zm: "(z, k, False) \<in> set ?bs" using z(2) by (simp del: Free_simps)
  note bz = core_block [OF c0 zm]
  have apart: "z + k \<le> a \<or> ?y + k \<le> z"
    using chain_disjoint [OF coreD(3) [OF c0] mem(1) zm] chain_disjoint [OF coreD(3) [OF c0] mem(2) zm] z(3) b(3) k(1) by auto
  obtain r where hd: "wd s (a + 4) = head_word (of_nat n) True r" by (rule hinv_split [OF h])
  have cok: "(n + 8) mod 8 = 0" "n < n + 8" "n + 8 < 4294967296" using b(2,4) by (simp_all add: okaddr_def)
  have okc: "okaddr (a + ?c)"
  proof -
    have "(a + n + 8) mod 8 = 0" using b(2) by (simp add: okaddr_def)
    then show ?thesis using bk(2) b(2) k(1) by (simp add: okaddr_def add.assoc)
  qed
  define s2 where "s2 = border_write a n k ?c r s"
  have w2: "wd s2 = (wd s)(a + 4 := head_word (of_nat ?c) True r, a + ?c + 4 := P, a + n + k := of_nat (k - 8))"
    using border_write_moved [OF b(1) okc bk(2), of s r] by (simp add: border_moved_def s2_def P_def head_word_def add.assoc)
  note nt = not_top [OF c0 mem(2)]
  have g: "\<not> k < ?c - n" "16 < n + k - ?c" "n + k - ?c = k - 8" using k(1) by simp_all
  have run: "try_expand_chunk (of_nat a) (of_nat ?c) s = map_option (Pair True) (Option.bind (unbin_chunk (of_nat ?y) s2) (bin_chunk (of_nat (a + ?c))))"
    unfolding try_expand_eq [OF b(1) hd b(4) cok(2,3) fk(3,2) bk(6)] if_not_P [OF g(1)] if_P [OF g(2)] Let_def if_not_P [OF nt]
      if_not_P [OF d [symmetric]] s2_def ..
  define j where "j = k div 8"
  have sz: "GETCHUNKSIZE (of_nat ?y) s2 = of_nat k"
  proof -
    have "wd s2 (?y + 4) = head_word (of_nat k) False True" using fk(1) b(3) k(1) by (simp add: w2)
    from header_facts(1) [OF bk(1) this bk(4,6)] show ?thesis .
  qed
  note ix = small_size_index [OF k(2), folded j_def]
  have k8: "k - 8 < 256" "(k - 8) div 8 = j - 1" using k(2) by (simp_all add: j_def)
  note ix8 = small_size_index [OF k8(1), unfolded k8(2)]
  have nx: "next_chunk (of_nat ?y) s2 = of_nat z" "prev_chunk (of_nat ?y) s2 = P"
  proof -
    have "wd s2 (?y + 8) = wd s (?y + 8)" "wd s2 (?y + 12) = P" using k(1) b(3) by (simp_all add: w2)
    then show "next_chunk (of_nat ?y) s2 = of_nat z" "prev_chunk (of_nat ?y) s2 = P" using z(1) bk(1) by (simp_all del: of_nat_add)
  qed
  define s3 where "s3 = set_prev (of_nat z) P (set_next P (of_nat z) s2)"
  define hd' where "hd' = (if sbin s2 j = of_nat ?y then of_nat z else sbin s2 j)"
  define s4 where "s4 = clear_sbin j (s3\<lparr>sbin := (sbin s3)(j := hd')\<rparr>)"
  have un4: "unbin_chunk (of_nat ?y) s2 = Some s4"
    unfolding unbin_chunk_def Let_def sz ix(1) if_P [OF ix(2)] kmalloc_dllist_remove_intern_def nx if_not_P [OF okaddr_nonzero [OF bk(1)]] hd'_def s4_def s3_def
    using ne z(1) by simp
  have uP: "unat (P + 8) + 4 \<le> 512"
  proof -
    have "unat (P + 8) < 264" unfolding P_def by (rule flagged_small [OF k8(1)])
    then show ?thesis by simp
  qed
  have hs: "512 \<le> a" using low b(7) by simp
  have zs: "512 \<le> z" using low bz(7) by simp
  have w3: "wd s3 x = (if x = z + 12 then P else wd s2 x)" if "512 \<le> x" "x < 4294967296" for x
  proof -
    have "wd s3 = (wd (set_next P (of_nat z) s2))(z + 12 := P)" using bz(1) by (simp add: s3_def)
    moreover have "wd (set_next P (of_nat z) s2) x = wd s2 x" by (rule wd_stray) (use uP that in simp_all)
    ultimately show ?thesis by simp
  qed
  have w4: "wd s4 = wd s3" by (simp add: s4_def clear_sbin_def)
  have far: "a + ?c + 4 < 4294967296" "z + 12 < 4294967296" using okc bz(1) by (simp_all add: okaddr_def)
  have ne': "a + ?c + 4 \<noteq> z + 12" "z + 12 \<noteq> a + ?c + 8" "z + 12 \<noteq> a + ?c + 12" using apart k(1) by auto
  have sz4: "GETCHUNKSIZE (of_nat (a + ?c)) s4 = of_nat (k - 8)"
  proof -
    have m: "(k - 8) mod 8 = 0" "k - 8 < 4294967296" using k bk(4) by (simp_all add: mod_eq_0_iff_dvd)
    have "a + ?c + 4 \<noteq> a + n + k" using k(1) by simp
    then have "wd s4 (a + ?c + 4) = head_word (of_nat (k - 8)) False True"
      using w3 [of "a + ?c + 4"] far hs ne' by (simp add: w4 w2 P_def head_word_def)
    from header_facts(1) [OF okc this m] show ?thesis .
  qed
  have jj: "j - 1 \<noteq> j" using k(1) by (simp add: j_def)
  have e4: "sbin s4 (j - 1) = NULL" using bin jj by (simp add: s4_def clear_sbin_def s3_def s2_def border_write_def j_def [symmetric])
  have "\<exists>s5. bin_chunk (of_nat (a + ?c)) s4 = Some s5 \<and> wd s5 = (wd s4)(a + ?c + 8 := of_nat (a + ?c), a + ?c + 12 := of_nat (a + ?c))"
    unfolding bin_chunk_def Let_def sz4 if_P [OF ix8(2)] ix8(1) e4 kmalloc_dllist_add_def using okc by (simp del: of_nat_add)
  then obtain s5 where s5: "bin_chunk (of_nat (a + ?c)) s4 = Some s5"
    and w5: "wd s5 = (wd s4)(a + ?c + 8 := of_nat (a + ?c), a + ?c + 12 := of_nat (a + ?c))" by blast
  have "wd s5 (z + 12) = P" using w3 [of "z + 12"] zs far ne' by (simp add: w5 w4)
  then have "prev_chunk (next_chunk (of_nat ?y) s) s5 = P" unfolding z(1) using bz(1) by simp
  moreover have "try_expand_chunk (of_nat a) (of_nat ?c) s = Some (True, s5)" unfolding run un4 using s5 by simp
  ultimately show ?thesis unfolding P_def by blast
qed

text \<open>Defect: \<open>krealloc\<close> lacks the overflow check of \<open>kmalloc\<close>: a request near 4 GiB wraps round to the smallest size, and a
  block of that size is returned as large enough.\<close>

theorem krealloc_accepts_overflow:
  assumes h: "hinv s bs" and a: "(a, 16) \<in> Used bs" and req: "4294967292 \<le> unat req"
  shows "krealloc cb (of_nat (a + 8)) req s = Some (of_nat (a + 8), s)"
proof -
  note c0 = hinvD(1) [OF h]
  have am: "(a, 16, True) \<in> set bs" using a by simp
  note b = core_block [OF c0 am]
  obtain us vs where bs: "bs = us @ (a, 16, True) # vs" using block_at [OF am] by blast
  obtain r where hd: "wd s (a + 4) = head_word (of_nat 16) True r" by (rule hinv_split [OF h [unfolded bs]])
  note hf = header_facts [OF b(1) hd b(4,6)]
  have R: "REQUEST2SIZE req = of_nat 16"
  proof -
    have "unat (req + 4) = unat req + 4 - 4294967296"
      using unat_word_ariths(1) [of req 4] req unat_lt_2p32 [of req] by (simp add: mod_if)
    then have "unat (req + 4) < 16" using unat_lt_2p32 [of req] by simp
    then show ?thesis by (simp add: REQUEST2SIZE_def CHUNK_OVERHEAD_def MINCHUNKSIZE_def word_less_nat_alt)
  qed
  have pl: "PAYLOAD_CHUNK (of_nat (a + 8)) = of_nat a" by (simp add: PAYLOAD_CHUNK_def)
  have ok: "ADDRESS_OK (of_nat a) s" by (rule address_ok [OF c0 b(7)]) (use b(8) in simp)
  have okn: "ADDRESS_OK (of_nat (a + 16)) s" by (rule address_ok [OF c0]) (use b(7,8) in simp_all)
  have nz: "(of_nat (a + 8) :: addr) \<noteq> NULL" by (rule payload_addr [OF b(1)])
  have "req \<noteq> 0" using req by auto
  then show ?thesis
    unfolding krealloc_def pl R Let_def if_not_P [OF nz] hf(1,4)
    using hinv_init [OF h] ok okn hf(2) by simp
qed

section \<open>Properties\<close>

text \<open>C28: \<open>kcalloc\<close> returns a new object whose bytes are all zero, or NULL and every object as before. Its size is the product
  of the two arguments modulo 4 GiB: the code does not check that the product fits. This is so as long as that product modulo
  4 GiB is less than 0xBFFFF0 (12 MiB less 16) and heap and free frames together stay below 16 MiB (part of \<open>heap_rep\<close>); from
  about 12 MiB on the search of the trees may shift by the width of a word, which is undefined.\<close>

theorem kcalloc_zeroes:
  assumes r: "heap_rep s Obj" and n: "unat (sz * nmemb) < 0xBFFFF0"
  shows "\<exists>p s' Obj'. kcalloc (kernel_callbacks cb) nmemb sz s = Some (p, s') \<and> heap_rep s' Obj'
    \<and> (p = NULL \<and> Obj' = Obj \<or> p \<noteq> NULL \<and> Obj p = None \<and> Obj' = Obj(p \<mapsto> replicate (unat (sz * nmemb)) 0))"
  by (rule kcalloc_zeroed [OF r n])

text \<open>C27: For new sizes of less than 0xBFFFF0 bytes (12 MiB less 16), with heap and free frames together below 16 MiB (part of
  \<open>heap_rep\<close>), \<open>krealloc\<close> keeps an object's contents up to the smaller of its two sizes, in place or in a new block, and every
  other object; without memory it returns NULL and keeps all objects; on NULL it allocates, and a size of zero releases. Two
  kinds of call are excluded: a growth by less than 32 bytes into a free chunk of a bin that leaves a remainder
  (\<open>over_links\<close>), which can damage the bin (\<open>expand_overwrites_links\<close>), and a size from 0xBFFFF0 on, which near 4 GiB is
  taken for a small one (\<open>krealloc_accepts_overflow\<close>).\<close>

theorem krealloc_keeps_contents:
  assumes r: "heap_rep s Obj" and p: "p = NULL \<or> Obj p \<noteq> None" and n: "unat req < 0xBFFFF0"
    and safe: "p = NULL \<or> req = 0 \<or> \<not> over_links (PAYLOAD_CHUNK p) (REQUEST2SIZE req) s"
  shows "\<exists>q s' Obj'. krealloc (kernel_callbacks cb) p req s = Some (q, s') \<and> abs_realloc Obj p req q Obj' \<and> heap_rep s' Obj'"
proof (cases "p = NULL")
  case True
  then have "krealloc (kernel_callbacks cb) p req s = kmalloc (kernel_callbacks cb) req s" by (simp add: krealloc_def)
  then show ?thesis using alloc_refines [OF r n, of cb] abs_realloc.fresh True by metis
next
  case False
  then obtain xs where xs: "Obj p = Some xs" using p by blast
  show ?thesis
  proof (cases "req = 0")
    case True
    then have "krealloc (kernel_callbacks cb) p req s = map_option (Pair NULL) (kfree (kernel_callbacks cb) p s)"
      using False by (simp add: krealloc_def)
    moreover obtain s' Obj' where k: "kfree (kernel_callbacks cb) p s = Some s'" "abs_step Obj (Release p) NULL Obj'" "heap_rep s' Obj'"
      using release_refines [OF r, of p cb] xs by auto
    moreover have "Obj' = Obj(p := None)" using k(2) by (simp add: abs_release)
    ultimately show ?thesis using abs_realloc.gone [of p Obj xs, OF False xs] True by auto
  next
    case nz: False
    then show ?thesis using krealloc_block [OF r xs nz n] safe False by blast
  qed
qed

text \<open>A kernel with one object: it lies right before the top chunk.\<close>

lemma demo_object:
  obtains p s xs where "heap_rep s [p \<mapsto> xs]" "p \<noteq> NULL" "length xs = 100" "NEXTCHUNK (PAYLOAD_CHUNK p) s = topChunk s"
proof -
  obtain s bs a n where k: "kmalloc (kernel_callbacks no_callbacks) 100 demo_kheap = Some (of_nat (a + 8), s)" "hinv s bs" "Used bs = {(a, n)}"
    by (rule demo_kmalloc)
  have am: "(a, n, True) \<in> set bs" using k(3) by (metis in_Used insertI1)
  note b = core_block [OF hinvD(1) [OF k(2)] am]
  have n: "unat (100 :: u32) < 0xBFFFF0" by simp
  obtain p s2 Obj where m: "kmalloc (kernel_callbacks no_callbacks) 100 demo_kheap = Some (p, s2)" "abs_step Map.empty (Alloc 100) p Obj" "heap_rep s2 Obj"
    using alloc_refines [OF demo_kheap_ok(3) n, of no_callbacks] by blast
  have eq: "p = of_nat (a + 8)" "s2 = s" using k(1) m(1) by simp_all
  have nz: "p \<noteq> NULL" unfolding eq by (rule payload_addr [OF b(1)])
  obtain xs where xs: "length xs = 100" "Obj = [p \<mapsto> xs]" using m(2) nz by (auto elim: abs_stepE)
  obtain us vs where bs: "bs = us @ (a, n, True) # vs" using block_at [OF am] by blast
  have vs: "vs = []"
  proof (cases vs)
    case (Cons v vs')
    obtain r where cv: "blocks_at (wd s) True (a + n) vs (unat (topChunk s)) True" by (rule hinv_split [OF k(2) [unfolded bs]])
    obtain y j u where v: "v = (y, j, u)" by (cases v)
    have y: "y = a + n" using cv by (simp add: Cons v)
    have "\<not> u"
    proof
      assume u
      then have "(y, j) \<in> Used bs" by (simp add: bs Cons v)
      then show False using k(3) y b(3) by auto
    qed
    then have "blocks_at (wd s) False (a + n + j) vs' (unat (topChunk s)) True" using cv by (simp add: Cons v)
    from after_free [OF this] obtain i ws where "vs' = (a + n + j, i, True) # ws" by blast
    then have "(a + n + j, i) \<in> Used bs" by (simp add: bs Cons)
    then show ?thesis using k(3) b(3) by auto
  qed simp
  obtain r where hd: "wd s (a + 4) = head_word (of_nat n) True r" by (rule hinv_split [OF k(2) [unfolded bs]])
  have "NEXTCHUNK (of_nat a) s = topChunk s"
    using header_facts(4) [OF b(1) hd b(4,6)] top_place(2) [OF k(2) [unfolded bs vs]] by simp
  then have "NEXTCHUNK (PAYLOAD_CHUNK p) s = topChunk s" by (simp add: eq PAYLOAD_CHUNK_def)
  then show ?thesis using that m(3) nz xs eq(2) by blast
qed

theorem krealloc_keeps_contents_witness:
  "\<exists>p s xs q s' Obj'. length xs = 100 \<and> heap_rep s [p \<mapsto> xs] \<and> krealloc (kernel_callbacks no_callbacks) p 200 s = Some (q, s')
    \<and> abs_realloc [p \<mapsto> xs] p 200 q Obj' \<and> heap_rep s' Obj'"
proof -
  obtain p s xs where d: "heap_rep s [p \<mapsto> xs]" "p \<noteq> NULL" "length xs = 100" "NEXTCHUNK (PAYLOAD_CHUNK p) s = topChunk s"
    by (rule demo_object)
  have "p = NULL \<or> [p \<mapsto> xs] p \<noteq> None" "unat (200 :: u32) < 0xBFFFF0"
    "p = NULL \<or> (200 :: u32) = 0 \<or> \<not> over_links (PAYLOAD_CHUNK p) (REQUEST2SIZE 200) s"
    using d(4) by (simp_all add: over_links_def Let_def)
  from krealloc_keeps_contents [OF d(1) this, of no_callbacks] show ?thesis using d by blast
qed

theorem kcalloc_zeroes_witness:
  "heap_rep demo_kheap Map.empty \<and> (\<exists>p s' Obj'. kcalloc (kernel_callbacks no_callbacks) 3 20 demo_kheap = Some (p, s') \<and> heap_rep s' Obj'
    \<and> (p = NULL \<and> Obj' = Map.empty \<or> p \<noteq> NULL \<and> Obj' = [p \<mapsto> replicate 60 0]))"
proof -
  have "unat ((20 :: u32) * 3) < 0xBFFFF0" by simp
  from kcalloc_zeroes [OF demo_kheap_ok(3) this, of no_callbacks] show ?thesis using demo_kheap_ok(3) by (simp del: replicate_numeral_Cons)
qed

text \<open>Defect: 65536 members of 65536 bytes are granted, as an object without a single byte.\<close>

theorem kcalloc_accepts_overflow:
  "\<exists>p s'. kcalloc (kernel_callbacks no_callbacks) 0x10000 0x10000 demo_kheap = Some (p, s') \<and> p \<noteq> NULL \<and> heap_rep s' [p \<mapsto> []]"
proof -
  have "unat ((0x10000 :: u32) * 0x10000) < 0xBFFFF0" by simp
  from kcalloc_zeroed [OF demo_kheap_ok(3) this, of no_callbacks] obtain p s' Obj' where
    k: "kcalloc (kernel_callbacks no_callbacks) 0x10000 0x10000 demo_kheap = Some (p, s')" "heap_rep s' Obj'"
      "p = NULL \<and> Obj' = Map.empty \<or> p \<noteq> NULL \<and> Obj' = [p \<mapsto> []]" by auto
  have "p \<noteq> NULL"
  proof
    assume p: "p = NULL"
    have n: "unat (0 :: u32) < 0xBFFFF0" by simp
    obtain q s1 where m: "kmalloc (kernel_callbacks no_callbacks) 0 demo_kheap = Some (q, s1)"
      "(\<exists>bs'. allocated demo_kheap [] (chunk_of_request (unat (0 :: u32))) q s1 bs')
        \<or> (q = NULL \<and> unat (topChunkSize demo_kheap) < chunk_of_request (unat (0 :: u32)) \<and> hinv s1 [] \<and> keeps (Used []) demo_kheap s1)"
      by (rule kernel.kmalloc_ok [OF demo_kheap_ok(1,2) n, of no_callbacks])
    have "\<not> unat (topChunkSize demo_kheap) < chunk_of_request (unat (0 :: u32))" by (simp add: demo_kheap_top chunk_of_request_def)
    then obtain bs' where "allocated demo_kheap [] (chunk_of_request (unat (0 :: u32))) q s1 bs'" using m(2) by blast
    then have "q \<noteq> NULL" by (rule allocated_not_NULL)
    have z: "(0x10000 :: u32) * 0x10000 = 0" by (simp add: word_unat_eq_iff)
    show False using k(1) p m(1) \<open>q \<noteq> NULL\<close> unfolding kcalloc_def z Let_def by simp
  qed
  then show ?thesis using k by blast
qed

end
