(* ===== verification/Spec2Isabelle.thy ===== *)
theory Spec2Isabelle
  imports KRun KDebug KRealloc
begin

text \<open>
  A verification library of elco-os, a kernel for the i386, and of its C library libk.

  \<^bold>\<open>The program.\<close> The boot loader starts \<open>kernel_early\<close> (src/system/kernel/main.c). It prepares the text display and
  lets libk print through it, turns the boot loader's memory map into disjoint regions (\<open>get_mmap\<close>), fills the
  processor's descriptor tables, masks all interrupts, pushes the free frames on a stack and maps the first pages of the
  kernel heap (memory.c), hands the heap to libk's allocator, creates the idle task (task.c) and starts the timer
  (clock.c). \<open>kernel_main\<close> prints the logo, creates four tasks whose stacks come from \<open>kmalloc\<close>, and resumes the
  first. From then on the kernel is entered by the timer and by kernel calls: to sleep, to yield, to send and to receive
  a message; every entry ends by resuming the task the scheduler chooses. libk (src/lib/libk/src) has the strings, the
  formatted output and the allocator; it reaches the kernel through three callbacks only.

  \<^bold>\<open>Theories and sources.\<close>
  \<^item> KPrelude: machine integers, the byte memory with its 32-bit accesses, C strings, singly linked lists.
  \<^item> KString: src/lib/libk/src/kstring, one function per file. KLibk: libk.c and callback.h. KStdio: kstdio, with
    \<open>kprintf\<close>, and kabort.c.
  \<^item> KDisplay: i386/display.c. KConsole: the console of \<open>kernel_early\<close> and \<open>kpanic\<close> (main.c).
  \<^item> KDescriptors: i386/descriptors.c and the table loads of i386.S. KInterrupts: i386/interrupts.c and i386/pic.c, with
    the timer device.
  \<^item> KMMap: \<open>get_mmap\<close> (main.c). KPaging: memory.c. KHeapPages: its callback that grows and shrinks the heap.
    KMemInit: \<open>memory_init\<close>.
  \<^item> KChunk, KTree, KMalloc: the allocator (kstdlib/malloc_free): chunks and circular lists (kmalloc.h, kmalloc_dllist.c),
    trees (kmalloc_tree.c), bins, top and the public functions (kmalloc_util.c, kmalloc.c, kfree.c, krealloc.c, kcalloc.c).
    The theories KSizes, KHeapWords, KTreeRep, KTreeOps, KTreeRemove, KTreeSearch, KTreeFit, KBinIndex, KBins, KLayout,
    KHeapInv, KAlloc, KTop, KSearch, KFree, KBorder prove them correct, from words up to the invariant of the heap.
    KKernelHeap puts the allocator on the kernel's pages, KHeapSpec states what clients of \<open>kmalloc\<close> and \<open>kfree\<close> see,
    KRealloc what clients of \<open>kcalloc\<close> and \<open>krealloc\<close> see.
  \<^item> KTask: task.c, type.h. KMessage: message.c. KClock: clock.c. KKernel: the kernel calls and the context switch (main.c
    and i386.S) as a step relation.
  \<^item> KSystem: tasks, clock, paging and allocator in one state. KBoot: the whole of \<open>kernel_early\<close> and \<open>kernel_main\<close>.
    KRun: the machine after that: vectors, gates, the entry points of i386.S, their handlers and panics. KDebug: the idle task and the debugging output of task.c.

  \<^bold>\<open>State.\<close> Each component has a record with the static variables of its file. The records are extended the way the
  code is layered: the clock's extends the scheduler's, the heap's extends the allocator's by the paging state, the
  system's has both, the machine's adds display, tables and interrupt controllers. A pointer to a task is an index into
  the task table; any other pointer is a 32-bit address into the byte memory, and chunks, contexts, strings and the frame
  buffer are bytes there. Integers have their width and wrap. A C function that may not return (an endless loop, a NULL
  dereference, a panic, undefined behaviour such as a shift by 32, the negation of the least
  integer or a product that overflows an int) has an option as result and \<open>None\<close> for that case.

  \<^bold>\<open>What is shown.\<close>
  \<^item> Boot: from a machine as the boot loader leaves it (\<open>loaded\<close>; the concrete one has the 128 MiB the repository runs with)
    every initialisation succeeds, in order, up to the first task; what the screen shows; which gates and which interrupt are enabled; the map of the memory is the boot loader's with the kernel cut out; without
    the loader's magic number the kernel panics (KBoot).
  \<^item> Interrupts: on the machine the boot leaves, the timer's request, spurious requests and kernel calls with a defined
    result return to a task, in any order; every other vector, the faults of the tasks among them, is a panic that names it
    on the screen (KRun).
  \<^item> Scheduling: in every reachable state each live task is in exactly one place (ready, sleeping, sending, receiving), the
    running task is the most urgent ready one, equal priorities take turns, and every entry into the kernel returns
    (KKernel); the queues refine lists (KTask); messages are delivered unchanged and in order (KMessage); sleepers wake at
    their time, as long as the tick count does not wrap (KClock).
  \<^item> Memory: the sort and the sweep of the map (KMMap); frames and page tables refine an abstract address space (KPaging,
    KHeapPages); growing the heap either succeeds or changes nothing.
  \<^item> Heap: one invariant \<open>hinv\<close> - blocks in a row, headers and footers, no two free neighbours, every free block in its bin,
    trees that are tries - kept by \<open>kmalloc\<close> and \<open>kfree\<close> in every case; from it, live objects are disjoint, mapped, and
    keep their contents (KHeapSpec); \<open>krealloc\<close> moves the end of a block or the whole of it (KBorder, KRealloc).
  \<^item> Output: \<open>kprintf\<close> equals a function on the format string; the display refines a scrolling terminal.
  \<^item> Interrupt controllers and descriptor tables: what the devices and the processor read from what was written.
  \<^item> Defects: where the code does not do what it means to, a theorem states what it does (the least integer in \<open>%d\<close>, the
    sleep that overflows an int, the wake-up time beyond the wrap of the clock, the empty entry of the memory map, the
    mask of the second interrupt controller, the shrinking of the heap beyond its size, requests of 12 MiB and more, the
    size check that \<open>krealloc\<close> and \<open>kcalloc\<close> lack, the remainder of an expanded chunk written over the links of a free
    one, and others).

  \<^bold>\<open>Interfaces.\<close> What one component relies on in another is a locale, interpreted on the model of the component that
  provides it. \<open>fifo_queues\<close>: the ready queues, provided by KTask. \<open>frame_stack\<close>: the stack of free frames, provided by
  KPaging. \<open>heap_provider\<close>: the callback that gives the allocator memory; KTop, KFree and KBorder prove the allocator inside it,
  KKernelHeap provides it by \<open>heap_callback\<close>. \<open>stack_room\<close> and \<open>stack_provider\<close>: where task creation gets its stacks;
  KKernel proves the boot inside them, KSystem provides them by \<open>kmalloc\<close>.

  \<^bold>\<open>Bounds.\<close> No fuel is used: loops over lists and trees are \<open>partial_function\<close>s and are shown to end on the states the
  invariants describe. The theorems on the allocator after the boot assume that heap and free frames together stay
  below 16 MiB and requests below 12 MiB less 16 bytes: above, sizes fall into the last tree bin, whose trie cannot tell
  them apart and whose index the search shifts by 32. The boot and the run need no such bound: the allocations of the boot
  come from the initial heap. The stack of free frames holds \<open>STACK_MAX\<close> entries, the size of its address range.

  \<^bold>\<open>Not modelled.\<close> boot.S and linker.ld (the addresses they fix are arguments); the registers that \<open>save\<close> and
  \<open>resume\<close> push and pop, beyond the place of the saved context in memory; faults while the kernel itself runs; TLB and
  CR3, which have no state here; what the processor answers to \<open>cpuid\<close> (an argument); the text of the four
  demonstration tasks: tasks are arbitrary programs that may store anything in their memory between two calls; the unit
  tests of libk. The theorem on \<open>krealloc\<close> leaves out the growth that writes over the links of a free neighbour
  (\<open>over_links\<close>): what the code does there is one of the defects.
\<close>

end
